(* ===== verification/Prelude.thy ===== *)
theory Prelude
  imports "HOL-Library.Word"
begin

text \<open>
  The shared vocabulary of the development.  Kernel code is modelled as functions from a
  state to a result: a value and the new state, a panic with its message, a spin loop that
  nothing ends, the kernel thread giving up the CPU in \<open>swtch\<close> (with the state it leaves
  behind), or a memory access the C program must not make (a null pointer, an index outside
  its array).  The combinators below compose such functions the way C statements
  compose; the lemmas give the two ways the proofs use them: by evaluation (the equations in
  the collection \<open>exec\<close>) and by inversion of a run that returned (\<open>Ok\<close>).
\<close>

unbundle bit_operations_syntax

named_theorems exec \<open>evaluation of kernel programs\<close>
named_theorems const_defs \<open>the numeric constants of the headers\<close>
named_theorems frame \<open>what a routine leaves unchanged\<close>

section \<open>Types of the machine\<close>

type_synonym u8 = "8 word"
type_synonym u16 = "16 word"
type_synonym u32 = "32 word"

section \<open>Results of kernel code\<close>

datatype ('a, 's) res =
    Ok 'a 's
  | Panic string
  | Spin
  | Switch 's
  | Undef

type_synonym ('a, 's) kern = "'s \<Rightarrow> ('a, 's) res"

definition kret :: "'a \<Rightarrow> ('a, 's) kern" where
  "kret a s = Ok a s"

definition kpanic :: "string \<Rightarrow> ('a, 's) kern" where
  "kpanic msg s = Panic msg"

definition kspin :: "('a, 's) kern" where
  "kspin s = Spin"

definition kundef :: "('a, 's) kern" where
  "kundef s = Undef"

definition kget :: "('s \<Rightarrow> 'a) \<Rightarrow> ('a, 's) kern" where
  "kget f s = Ok (f s) s"

definition kmod :: "('s \<Rightarrow> 's) \<Rightarrow> (unit, 's) kern" where
  "kmod f s = Ok () (f s)"

definition kbind :: "('a, 's) kern \<Rightarrow> ('a \<Rightarrow> ('b, 's) kern) \<Rightarrow> ('b, 's) kern" where
  "kbind m f s = (case m s of
       Ok a t \<Rightarrow> f a t
     | Panic msg \<Rightarrow> Panic msg
     | Spin \<Rightarrow> Spin
     | Switch t \<Rightarrow> Switch t
     | Undef \<Rightarrow> Undef)"

definition kseq :: "('a, 's) kern \<Rightarrow> ('b, 's) kern \<Rightarrow> ('b, 's) kern" where
  "kseq m n = kbind m (\<lambda>_. n)"

definition kwhen :: "bool \<Rightarrow> (unit, 's) kern \<Rightarrow> (unit, 's) kern" where
  "kwhen b m = (if b then m else kret ())"

text \<open>\<open>for(i in xs) body(i)\<close>.\<close>

fun kfor :: "'i list \<Rightarrow> ('i \<Rightarrow> (unit, 's) kern) \<Rightarrow> (unit, 's) kern" where
  "kfor [] body = kret ()"
| "kfor (i # is) body = kseq (body i) (kfor is body)"

text \<open>A loop whose body may leave the function: \<open>Some r\<close> is \<open>return r\<close> (or a jump out
  of the loop), \<open>None\<close> falls through to the next iteration; the loop's own result is
  \<open>None\<close> when it ran to its end.\<close>

fun kloop :: "'i list \<Rightarrow> ('i \<Rightarrow> ('r option, 's) kern) \<Rightarrow> ('r option, 's) kern" where
  "kloop [] body = kret None"
| "kloop (i # is) body =
     kbind (body i) (\<lambda>r. case r of Some v \<Rightarrow> kret (Some v) | None \<Rightarrow> kloop is body)"

lemmas kern_defs = kret_def kpanic_def kspin_def kundef_def kget_def kmod_def

lemma kret_apply [simp, exec]: "kret a s = Ok a s" by (simp add: kret_def)
lemma kpanic_apply [simp, exec]: "kpanic m s = Panic m" by (simp add: kpanic_def)
lemma kspin_apply [simp, exec]: "kspin s = Spin" by (simp add: kspin_def)
lemma kundef_apply [simp, exec]: "kundef s = Undef" by (simp add: kundef_def)
lemma kget_apply [simp, exec]: "kget f s = Ok (f s) s" by (simp add: kget_def)
lemma kmod_apply [simp, exec]: "kmod f s = Ok () (f s)" by (simp add: kmod_def)

lemma kseq_apply [exec]: "kseq m n s = kbind m (\<lambda>_. n) s"
  by (simp add: kseq_def)

lemma kbind_Ok [exec]: "m s = Ok a t \<Longrightarrow> kbind m f s = f a t"
  by (simp add: kbind_def)

lemma kbind_simps [simp]:
  "kbind (kret a) f = f a"
  "kbind (Ok a) f = f a"
  "kbind (kpanic msg) f = kpanic msg"
  "kbind kspin f = kspin"
  "kbind kundef f = kundef"
  by (simp_all add: kbind_def fun_eq_iff)

lemma kbind_get [simp]: "kbind (kget g) f s = f (g s) s"
  by (simp add: kbind_def)

lemma kbind_mod [simp]: "kbind (kmod g) f s = f () (g s)"
  by (simp add: kbind_def)

lemma kbind_if [simp]: "kbind (if b then m else n) f = (if b then kbind m f else kbind n f)"
  by simp

lemma kseq_simps [simp]:
  "kseq (kret a) n = n"
  "kseq (Ok a) n = n"
  "kseq (kpanic msg) n = kpanic msg"
  "kseq (kmod g) n s = n (g s)"
  by (simp_all add: kseq_def)

lemma kwhen_simps [simp]:
  "kwhen True m = m"
  "kwhen False m = kret ()"
  by (simp_all add: kwhen_def)

lemma kbind_assoc: "kbind (kbind m f) g = kbind m (\<lambda>a. kbind (f a) g)"
  by (auto simp: kbind_def fun_eq_iff split: res.splits)

text \<open>Inversion: a sequence returned exactly when each of its parts did.\<close>

lemma kbind_eq_Ok: "kbind m f s = Ok b u \<longleftrightarrow> (\<exists>a t. m s = Ok a t \<and> f a t = Ok b u)"
  by (auto simp: kbind_def split: res.splits)

lemma kseq_eq_Ok: "kseq m n s = Ok b u \<longleftrightarrow> (\<exists>a t. m s = Ok a t \<and> n t = Ok b u)"
  by (auto simp: kseq_def kbind_eq_Ok)

lemma kbind_OkE:
  assumes "kbind m f s = Ok b u"
  obtains a t where "m s = Ok a t" and "f a t = Ok b u"
  using assms by (auto simp: kbind_eq_Ok)

lemma kseq_OkE:
  assumes "kseq m n s = Ok b u"
  obtains a t where "m s = Ok a t" and "n t = Ok b u"
  using assms by (auto simp: kseq_eq_Ok)

lemma kwhen_eq_Ok: "kwhen b m s = Ok () u \<longleftrightarrow> (if b then m s = Ok () u else u = s)"
  by (auto simp: kwhen_def)

lemmas ok_simps = kbind_eq_Ok kseq_eq_Ok kwhen_eq_Ok

text \<open>Preservation along a loop: what every body keeps, the loop keeps.\<close>

lemma kfor_preserves:
  assumes "\<And>i s t u. i \<in> set is \<Longrightarrow> body i s = Ok u t \<Longrightarrow> P s \<Longrightarrow> P t"
    and "kfor is body s = Ok u t" and "P s"
  shows "P t"
  using assms
proof (induction "is" arbitrary: s)
  case (Cons i "is")
  from Cons.prems(2) obtain t' where step: "body i s = Ok () t'"
    and rest: "kfor is body t' = Ok u t"
    by (auto elim: kseq_OkE)
  have "P t'" using Cons.prems(1) [of i] step Cons.prems(3) by simp
  have body: "\<And>j s t u. j \<in> set is \<Longrightarrow> body j s = Ok u t \<Longrightarrow> P s \<Longrightarrow> P t"
    by (rule Cons.prems(1) [OF list.set_intros(2)])
  show ?case by (rule Cons.IH [OF _ rest \<open>P t'\<close>]) (erule (2) body)
qed simp

lemma kloop_preserves:
  assumes "\<And>i s t r. i \<in> set is \<Longrightarrow> body i s = Ok r t \<Longrightarrow> P s \<Longrightarrow> P t"
    and "kloop is body s = Ok r t" and "P s"
  shows "P t"
  using assms
proof (induction "is" arbitrary: s)
  case (Cons i "is")
  from Cons.prems(2) obtain r' t' where step: "body i s = Ok r' t'"
    and rest: "(case r' of Some v \<Rightarrow> kret (Some v) | None \<Rightarrow> kloop is body) t' = Ok r t"
    by (auto elim: kbind_OkE)
  have "P t'" using Cons.prems(1) [of i] step Cons.prems(3) by simp
  have body: "\<And>j s t r. j \<in> set is \<Longrightarrow> body j s = Ok r t \<Longrightarrow> P s \<Longrightarrow> P t"
    by (rule Cons.prems(1) [OF list.set_intros(2)])
  from rest \<open>P t'\<close> show ?case
    by (cases r') (auto intro: Cons.IH [OF body])
qed simp

lemma kfor_append: "kfor (is @ js) body = kseq (kfor is body) (kfor js body)"
  by (induction "is") (auto simp: kseq_def kbind_assoc)

lemma kloop_append:
  "kloop (is @ js) body =
     kbind (kloop is body) (\<lambda>r. case r of Some v \<Rightarrow> kret (Some v) | None \<Rightarrow> kloop js body)"
  by (induction "is") (auto simp: kbind_assoc fun_eq_iff kbind_def split: res.splits option.splits)

text \<open>\<open>n\<close> times the same statement.\<close>

fun krep :: "nat \<Rightarrow> (unit, 's) kern \<Rightarrow> (unit, 's) kern" where
  "krep 0 m = kret ()"
| "krep (Suc n) m = kseq m (krep n m)"

text \<open>A linear search that only reads the state is the library's \<open>find\<close>.\<close>

lemma kloop_find:
  "kloop is (\<lambda>i. kget (\<lambda>s. if P s i then Some i else None)) s = Ok (find (P s) is) s"
  by (induction "is") (simp_all add: kbind_def)

section \<open>Reachable states\<close>

inductive reachable :: "('s \<Rightarrow> bool) \<Rightarrow> ('s \<Rightarrow> 's \<Rightarrow> bool) \<Rightarrow> 's \<Rightarrow> bool"
  for init :: "'s \<Rightarrow> bool" and step :: "'s \<Rightarrow> 's \<Rightarrow> bool" where
  reach_init: "init s \<Longrightarrow> reachable init step s"
| reach_step: "reachable init step s \<Longrightarrow> step s t \<Longrightarrow> reachable init step t"

text \<open>The contract of every step relation of the development: a state predicate that the
  initial states have and every step keeps holds in all reachable states.\<close>

locale step_invariant =
  fixes init :: "'s \<Rightarrow> bool" and step :: "'s \<Rightarrow> 's \<Rightarrow> bool" and inv :: "'s \<Rightarrow> bool"
  assumes inv_init: "init s \<Longrightarrow> inv s"
    and inv_step: "step s t \<Longrightarrow> inv s \<Longrightarrow> inv t"
begin

lemma reachable_inv: "reachable init step s \<Longrightarrow> inv s"
  by (induction rule: reachable.induct) (auto intro: inv_init inv_step)

lemma reachable_rtranclp: "step\<^sup>*\<^sup>* s t \<Longrightarrow> inv s \<Longrightarrow> inv t"
  by (induction rule: rtranclp_induct) (auto intro: inv_step)

end

section \<open>Bytes and little-endian words\<close>

text \<open>The x86 stores integers little-endian; blocks and pages are lists of bytes.\<close>

definition bytes16 :: "u16 \<Rightarrow> u8 list" where
  "bytes16 w = [ucast w, ucast (drop_bit 8 w)]"

definition bytes32 :: "u32 \<Rightarrow> u8 list" where
  "bytes32 w = [ucast w, ucast (drop_bit 8 w), ucast (drop_bit 16 w), ucast (drop_bit 24 w)]"

definition word16 :: "u8 list \<Rightarrow> u16" where
  "word16 bs = ucast (bs ! 0) OR push_bit 8 (ucast (bs ! 1))"

definition word32 :: "u8 list \<Rightarrow> u32" where
  "word32 bs = ucast (bs ! 0) OR push_bit 8 (ucast (bs ! 1))
     OR push_bit 16 (ucast (bs ! 2)) OR push_bit 24 (ucast (bs ! 3))"

lemma length_bytes [simp]: "length (bytes16 w) = 2" "length (bytes32 v) = 4"
  by (simp_all add: bytes16_def bytes32_def)

lemma word16_bytes16 [simp]: "word16 (bytes16 w) = w"
  unfolding word16_def bytes16_def
  by (rule bit_word_eqI) (auto simp: bit_simps)

lemma word32_bytes32 [simp]: "word32 (bytes32 w) = w"
  unfolding word32_def bytes32_def
proof (rule bit_word_eqI, goal_cases)
  case (1 n)
  then have "n < 8 \<or> 8 \<le> n \<and> n < 16 \<or> 16 \<le> n \<and> n < 24 \<or> 24 \<le> n \<and> n < 32"
    by auto
  then show ?case by (elim disjE conjE) (auto simp: bit_simps)
qed

text \<open>Writing \<open>bs\<close> into a buffer at byte offset \<open>off\<close>, as \<open>memmove(buf+off, bs, n)\<close> does
  when the bytes fit; and reading \<open>n\<close> bytes at \<open>off\<close>.\<close>

definition bsplice :: "nat \<Rightarrow> 'a list \<Rightarrow> 'a list \<Rightarrow> 'a list" where
  "bsplice off bs buf = take off buf @ bs @ drop (off + length bs) buf"

definition bslice :: "nat \<Rightarrow> nat \<Rightarrow> 'a list \<Rightarrow> 'a list" where
  "bslice off n buf = take n (drop off buf)"

lemma length_bsplice [simp]:
  "off + length bs \<le> length buf \<Longrightarrow> length (bsplice off bs buf) = length buf"
  by (simp add: bsplice_def)

lemma length_bslice [simp]: "off + n \<le> length buf \<Longrightarrow> length (bslice off n buf) = n"
  by (simp add: bslice_def)

lemma nth_bsplice:
  assumes "off + length bs \<le> length buf" and "i < length buf"
  shows "bsplice off bs buf ! i
           = (if off \<le> i \<and> i < off + length bs then bs ! (i - off) else buf ! i)"
  using assms by (auto simp: bsplice_def nth_append min_def)

lemma nth_bslice: "i < n \<Longrightarrow> off + n \<le> length buf \<Longrightarrow> bslice off n buf ! i = buf ! (off + i)"
  by (simp add: bslice_def)

lemma bslice_bsplice_same [simp]:
  "n = length bs \<Longrightarrow> off + length bs \<le> length buf \<Longrightarrow> bslice off n (bsplice off bs buf) = bs"
  by (simp add: bslice_def bsplice_def)

lemma bslice_bsplice_other:
  assumes "off + length bs \<le> length buf" and "p + n \<le> length buf"
    and "p + n \<le> off \<or> off + length bs \<le> p"
  shows "bslice p n (bsplice off bs buf) = bslice p n buf"
  using assms by (intro nth_equalityI) (auto simp: nth_bslice nth_bsplice)

lemma bsplice_bslice_id [simp]: "off + n \<le> length buf \<Longrightarrow> bsplice off (bslice off n buf) buf = buf"
  by (intro nth_equalityI) (auto simp: nth_bsplice nth_bslice)

section \<open>Word arithmetic\<close>

lemma unat_add_nowrap32: "unat (a::u32) + unat b < 2 ^ 32 \<Longrightarrow> unat (a + b) = unat a + unat b"
  by (simp add: unat_word_ariths)

lemma unat_of_nat32: "n < 2 ^ 32 \<Longrightarrow> unat (of_nat n :: u32) = n"
  by (simp add: unat_of_nat take_bit_nat_eq_self)

lemma add_overflow_iff: "(a::u32) + b < a \<longleftrightarrow> 2 ^ 32 \<le> unat a + unat b"
proof (cases "unat a + unat b < 2 ^ 32")
  case True
  then show ?thesis by (simp add: word_less_nat_alt unat_add_nowrap32)
next
  case False
  have "unat a < 2 ^ 32" "unat b < 2 ^ 32"
    using unsigned_less [of a] unsigned_less [of b] by simp_all
  with False show ?thesis
    by (auto simp add: word_less_nat_alt unat_word_ariths mod_if)
qed

end
