(* ===== verification/Spinlock.thy ===== *)
theory Spinlock
  imports Prelude
begin

text \<open>
  Per-CPU interrupt state and mutual exclusion spin locks (\<open>spinlock.c\<close>, and \<open>mycpu\<close> of
  \<open>proc.c\<close>).  A lock is named by a \<open>lockid\<close>, the C object it is embedded in.  The fields of
  \<open>struct spinlock\<close> that only serve debugging (\<open>name\<close>, \<open>pcs\<close>) are left out.  The state is
  seen by one running CPU; a lock held by another CPU makes \<open>acquire\<close> spin.  The last
  section lets several CPUs run \<open>acquire\<close> and \<open>release\<close>, interleaved between their accesses to
  the lock, and proves mutual exclusion.
\<close>

section \<open>State\<close>

datatype lockid =
    L_ptable | L_ticks | L_bcache | L_log | L_icache | L_ftable | L_kmem | L_cons | L_ide
  | L_hist | L_pipe u32 | L_buf nat | L_inode nat

record spinlock =
  lk_locked :: bool
  lk_cpu :: "nat option"

record cpu =
  apicid :: nat
  ncli :: int
  intena :: bool
  cproc :: "nat option"

record cpu_state =
  ncpu :: nat
  cpus :: "nat \<Rightarrow> cpu"
  lapic_id :: nat
  fl_if :: bool
  locks :: "lockid \<Rightarrow> spinlock"

section \<open>Operations\<close>

definition cli :: "(unit, 'x cpu_state_scheme) kern" where
  "cli = kmod (\<lambda>s. s\<lparr>fl_if := False\<rparr>)"

definition sti :: "(unit, 'x cpu_state_scheme) kern" where
  "sti = kmod (\<lambda>s. s\<lparr>fl_if := True\<rparr>)"

text \<open>\<open>mycpu\<close> searches \<open>cpus[]\<close> for the entry whose \<open>apicid\<close> is the local APIC's.\<close>

definition mycpu :: "(nat, 'x cpu_state_scheme) kern" where
  "mycpu = kbind (kget fl_if) (\<lambda>f.
     if f then kpanic ''mycpu called with interrupts enabled''
     else kbind (kget ncpu) (\<lambda>n.
       kbind (kloop [0..<n] (\<lambda>i.
         kget (\<lambda>s. if apicid (cpus s i) = lapic_id s then Some i else None))) (\<lambda>r.
       case r of Some i \<Rightarrow> kret i | None \<Rightarrow> kpanic ''unknown apicid'')))"

definition cpuid :: "(nat, 'x cpu_state_scheme) kern" where
  "cpuid = mycpu"

definition upd_cpu :: "nat \<Rightarrow> (cpu \<Rightarrow> cpu) \<Rightarrow> (unit, 'x cpu_state_scheme) kern" where
  "upd_cpu i f = kmod (\<lambda>s. s\<lparr>cpus := (cpus s)(i := f (cpus s i))\<rparr>)"

definition upd_lock :: "lockid \<Rightarrow> (spinlock \<Rightarrow> spinlock) \<Rightarrow> (unit, 'x cpu_state_scheme) kern" where
  "upd_lock l f = kmod (\<lambda>s. s\<lparr>locks := (locks s)(l := f (locks s l))\<rparr>)"

definition pushcli :: "(unit, 'x cpu_state_scheme) kern" where
  "pushcli =
     kbind (kget fl_if) (\<lambda>eflags.
     kseq cli (
     kbind mycpu (\<lambda>c.
     kbind (kget (\<lambda>s. ncli (cpus s c))) (\<lambda>n.
     kseq (kwhen (n = 0) (kbind mycpu (\<lambda>c. upd_cpu c (\<lambda>r. r\<lparr>intena := eflags\<rparr>))))
          (kbind mycpu (\<lambda>c. upd_cpu c (\<lambda>r. r\<lparr>ncli := ncli r + 1\<rparr>)))))))"

definition popcli :: "(unit, 'x cpu_state_scheme) kern" where
  "popcli =
     kbind (kget fl_if) (\<lambda>f.
     if f then kpanic ''popcli - interruptible''
     else kbind mycpu (\<lambda>c.
       kseq (upd_cpu c (\<lambda>r. r\<lparr>ncli := ncli r - 1\<rparr>)) (
       kbind (kget (\<lambda>s. cpus s c)) (\<lambda>r.
       if ncli r < 0 then kpanic ''popcli''
       else kwhen (ncli r = 0 \<and> intena r) sti))))"

definition holding :: "lockid \<Rightarrow> (bool, 'x cpu_state_scheme) kern" where
  "holding l =
     kseq pushcli (
     kbind mycpu (\<lambda>c.
     kbind (kget (\<lambda>s. lk_locked (locks s l) \<and> lk_cpu (locks s l) = Some c)) (\<lambda>r.
     kseq popcli (kret r))))"

definition initlock :: "lockid \<Rightarrow> (unit, 'x cpu_state_scheme) kern" where
  "initlock l = upd_lock l (\<lambda>_. \<lparr>lk_locked = False, lk_cpu = None\<rparr>)"

text \<open>\<open>acquire\<close> and \<open>release\<close> as the sequence of their accesses to the lock: what one CPU does
  between two of them cannot be seen by the others.  \<open>acquire\<close> turns off interrupts and checks
  that this CPU does not hold the lock; \<open>xchg(&lk->locked, 1)\<close> stores 1 and returns the old value
  in one step; then \<open>lk->cpu\<close> is recorded.\<close>

definition acquire_check :: "lockid \<Rightarrow> (unit, 'x cpu_state_scheme) kern" where
  "acquire_check l = kseq pushcli (kbind (holding l) (\<lambda>h. kwhen h (kpanic ''acquire'')))"

definition xchg_locked :: "lockid \<Rightarrow> (bool, 'x cpu_state_scheme) kern" where
  "xchg_locked l =
     kbind (kget (\<lambda>s. lk_locked (locks s l))) (\<lambda>old.
     kseq (upd_lock l (\<lambda>k. k\<lparr>lk_locked := True\<rparr>)) (kret old))"

definition acquire_record :: "lockid \<Rightarrow> (unit, 'x cpu_state_scheme) kern" where
  "acquire_record l = kbind mycpu (\<lambda>c. upd_lock l (\<lambda>k. k\<lparr>lk_cpu := Some c\<rparr>))"

text \<open>\<open>while(xchg(&lk->locked, 1) != 0) ;\<close> ends at once on a free lock and, as long as the
  holder does not run, never on a held one.\<close>

definition acquire :: "lockid \<Rightarrow> (unit, 'x cpu_state_scheme) kern" where
  "acquire l =
     kseq (acquire_check l) (
     kbind (xchg_locked l) (\<lambda>old.
     if old then kspin else acquire_record l))"

definition release_clear :: "lockid \<Rightarrow> (unit, 'x cpu_state_scheme) kern" where
  "release_clear l =
     kbind (holding l) (\<lambda>h.
     if \<not> h then kpanic ''release''
     else upd_lock l (\<lambda>k. k\<lparr>lk_cpu := None\<rparr>))"

definition release_unlock :: "lockid \<Rightarrow> (unit, 'x cpu_state_scheme) kern" where
  "release_unlock l = kseq (upd_lock l (\<lambda>k. k\<lparr>lk_locked := False\<rparr>)) popcli"

definition release :: "lockid \<Rightarrow> (unit, 'x cpu_state_scheme) kern" where
  "release l = kseq (release_clear l) (release_unlock l)"

lemmas acquire_steps = acquire_def acquire_check_def xchg_locked_def acquire_record_def
lemmas release_steps = release_def release_clear_def release_unlock_def

definition myproc :: "(nat option, 'x cpu_state_scheme) kern" where
  "myproc =
     kseq pushcli (
     kbind mycpu (\<lambda>c.
     kbind (kget (\<lambda>s. cproc (cpus s c))) (\<lambda>p.
     kseq popcli (kret p))))"

section \<open>What the operations do\<close>

text \<open>The index \<open>mycpu\<close> finds, and the process running there.\<close>

definition found :: "'x cpu_state_scheme \<Rightarrow> nat option" where
  "found s = find (\<lambda>i. apicid (cpus s i) = lapic_id s) [0..<ncpu s]"

definition cur :: "'x cpu_state_scheme \<Rightarrow> nat option" where
  "cur s = (case found s of Some c \<Rightarrow> cproc (cpus s c) | None \<Rightarrow> None)"

text \<open>What every lock operation leaves alone: everything but the interrupt flag, the
  nesting counts and the locks.\<close>

definition cpu_frame :: "'x cpu_state_scheme \<Rightarrow> 'x cpu_state_scheme \<Rightarrow> bool" where
  "cpu_frame s t \<longleftrightarrow> found t = found s \<and> cur t = cur s
     \<and> cpu_state.more t = cpu_state.more s"

lemma cpu_frame_refl [simp]: "cpu_frame s s"
  by (simp add: cpu_frame_def)

lemma cpu_frame_trans [trans]: "cpu_frame s t \<Longrightarrow> cpu_frame t u \<Longrightarrow> cpu_frame s u"
  by (simp add: cpu_frame_def)

lemma mycpu_eval:
  "mycpu s = (if fl_if s then Panic ''mycpu called with interrupts enabled''
     else case found s of Some c \<Rightarrow> Ok c s | None \<Rightarrow> Panic ''unknown apicid'')"
  by (auto simp: mycpu_def kbind_def kloop_find found_def split: option.splits)

lemma mycpu_Ok: "mycpu s = Ok c t \<longleftrightarrow> t = s \<and> \<not> fl_if s \<and> found s = Some c"
  by (auto simp: mycpu_eval split: option.splits)

lemma found_simps [simp]:
  "found (s\<lparr>fl_if := b\<rparr>) = found s"
  "found (s\<lparr>locks := L\<rparr>) = found s"
  by (simp_all add: found_def)

lemma found_upd_cpus [simp]:
  assumes "\<forall>i. apicid (f i) = apicid (cpus s i)"
  shows "found (s\<lparr>cpus := f\<rparr>) = found s"
  using assms by (simp add: found_def)

text \<open>The state after a successful \<open>pushcli\<close> and \<open>popcli\<close> on CPU \<open>c\<close>.\<close>

definition pushed :: "nat \<Rightarrow> 'x cpu_state_scheme \<Rightarrow> 'x cpu_state_scheme" where
  "pushed c s = s\<lparr>fl_if := False, cpus := (cpus s)(c := (cpus s c)\<lparr>
     intena := (if ncli (cpus s c) = 0 then fl_if s else intena (cpus s c)),
     ncli := ncli (cpus s c) + 1\<rparr>)\<rparr>"

definition popped :: "nat \<Rightarrow> 'x cpu_state_scheme \<Rightarrow> 'x cpu_state_scheme" where
  "popped c s = (let t = s\<lparr>cpus := (cpus s)(c := (cpus s c)\<lparr>ncli := ncli (cpus s c) - 1\<rparr>)\<rparr>
     in if ncli (cpus s c) = 1 \<and> intena (cpus s c) then t\<lparr>fl_if := True\<rparr> else t)"

lemma pushcli_eval: "pushcli s = (case found s of Some c \<Rightarrow> Ok () (pushed c s) | None \<Rightarrow> Panic ''unknown apicid'')"
  by (auto simp: pushcli_def cli_def upd_cpu_def kbind_def kseq_def kwhen_def mycpu_eval pushed_def
     split: option.splits)
lemma popcli_eval:
  "popcli s = (if fl_if s then Panic ''popcli - interruptible''
     else case found s of None \<Rightarrow> Panic ''unknown apicid''
     | Some c \<Rightarrow> if ncli (cpus s c) < 1 then Panic ''popcli'' else Ok () (popped c s))"
  by (auto simp: popcli_def sti_def upd_cpu_def kbind_def kseq_def kwhen_def mycpu_eval popped_def Let_def
     split: option.splits)

lemma found_pushed [simp]: "found (pushed c s) = found s" by (simp add: pushed_def)
lemma found_popped [simp]: "found (popped c s) = found s" by (simp add: popped_def Let_def)

lemma pushed_fields [simp]:
  "locks (pushed c s) = locks s" "\<not> fl_if (pushed c s)"
  "ncli (cpus (pushed c s) c) = ncli (cpus s c) + 1"
  "cpu_state.more (pushed c s) = cpu_state.more s"
  "cproc (cpus (pushed c s) i) = cproc (cpus s i)"
  by (simp_all add: pushed_def)

lemma popped_fields [simp]:
  "locks (popped c s) = locks s"
  "ncli (cpus (popped c s) c) = ncli (cpus s c) - 1"
  "cpu_state.more (popped c s) = cpu_state.more s"
  "cproc (cpus (popped c s) i) = cproc (cpus s i)"
  by (simp_all add: popped_def Let_def)

lemma cur_pushed [simp]: "cur (pushed c s) = cur s" by (simp add: cur_def split: option.split)
lemma cur_popped [simp]: "cur (popped c s) = cur s" by (simp add: cur_def split: option.split)

text \<open>Inside a \<open>pushcli\<close> section a nested pair changes nothing at all.\<close>

lemma popped_pushed_nested:
  "ncli (cpus s c) \<noteq> 0 \<Longrightarrow> \<not> fl_if s \<Longrightarrow> popped c (pushed c s) = s"
  by (simp add: popped_def pushed_def Let_def)

lemma holding_nested:
  assumes "found s = Some c" "0 < ncli (cpus s c)" "\<not> fl_if s"
  shows "holding l s = Ok (lk_locked (locks s l) \<and> lk_cpu (locks s l) = Some c) s"
  using assms
  by (simp add: holding_def kbind_def kseq_def pushcli_eval popcli_eval mycpu_eval popped_pushed_nested)

lemma spinlock_all_upd [simp]:
  "(k::spinlock)\<lparr>lk_locked := a, lk_cpu := b\<rparr> = \<lparr>lk_locked = a, lk_cpu = b\<rparr>"
  "(k::spinlock)\<lparr>lk_cpu := b, lk_locked := a\<rparr> = \<lparr>lk_locked = a, lk_cpu = b\<rparr>"
  by (cases k, simp)+

lemma holding_Ok:
  assumes "holding l s = Ok r t"
  shows "cpu_frame s t" "locks t = locks s"
    "r \<longleftrightarrow> lk_locked (locks s l) \<and> lk_cpu (locks s l) = found s"
  using assms
  by (auto simp: holding_def kbind_def kseq_def pushcli_eval popcli_eval mycpu_eval cpu_frame_def
     split: option.splits if_splits)

lemma acquire_Ok:
  assumes "acquire l s = Ok u t"
  shows "cpu_frame s t" "\<not> lk_locked (locks s l)"
    "locks t = (locks s)(l := \<lparr>lk_locked = True, lk_cpu = found s\<rparr>)"
proof -
  from assms obtain c t1 t2 where c: "found s = Some c" and t1: "t1 = pushed c s"
    and h: "holding l t1 = Ok False t2" and free: "\<not> lk_locked (locks t2 l)"
    and t: "t = (let v = t2\<lparr>locks := (locks t2)(l := (locks t2 l)\<lparr>lk_locked := True\<rparr>)\<rparr>
       in v\<lparr>locks := (locks v)(l := (locks v l)\<lparr>lk_cpu := found v\<rparr>)\<rparr>)"
    by (auto simp: acquire_steps kwhen_def kbind_eq_Ok kseq_eq_Ok pushcli_eval upd_lock_def mycpu_eval Let_def
       split: option.splits if_splits)
  show "cpu_frame s t" "\<not> lk_locked (locks s l)"
    "locks t = (locks s)(l := \<lparr>lk_locked = True, lk_cpu = found s\<rparr>)"
    using holding_Ok [OF h] free c
    by (auto simp: t t1 Let_def cpu_frame_def cur_def)
qed

lemma release_Ok:
  assumes "release l s = Ok u t"
  shows "cpu_frame s t" "lk_locked (locks s l)"
    "locks t = (locks s)(l := \<lparr>lk_locked = False, lk_cpu = None\<rparr>)"
proof -
  from assms obtain t1 where h: "holding l s = Ok True t1"
    and p: "popcli (t1\<lparr>locks := (locks t1)(l := \<lparr>lk_locked = False, lk_cpu = None\<rparr>)\<rparr>) = Ok u t"
    by (auto simp: release_steps kbind_eq_Ok kseq_eq_Ok upd_lock_def split: if_splits)
  show "cpu_frame s t" "lk_locked (locks s l)"
    "locks t = (locks s)(l := \<lparr>lk_locked = False, lk_cpu = None\<rparr>)"
    using holding_Ok [OF h] p
    by (auto simp: cpu_frame_def popcli_eval cur_def split: option.splits if_splits)
qed

lemma myproc_Ok:
  assumes "myproc s = Ok p t"
  shows "cpu_frame s t" "locks t = locks s" "p = cur s"
  using assms
  by (auto simp: myproc_def kbind_def kseq_def pushcli_eval popcli_eval mycpu_eval cpu_frame_def cur_def
     split: option.splits if_splits)

text \<open>A kernel thread may take locks when its CPU is known to \<open>mycpu\<close> and the nesting count
  agrees with the interrupt flag.\<close>

definition cpu_ok :: "'x cpu_state_scheme \<Rightarrow> bool" where
  "cpu_ok s \<longleftrightarrow> (case found s of None \<Rightarrow> False
     | Some c \<Rightarrow> 0 \<le> ncli (cpus s c) \<and> (0 < ncli (cpus s c) \<longrightarrow> \<not> fl_if s))"

definition acquired :: "nat \<Rightarrow> lockid \<Rightarrow> 'x cpu_state_scheme \<Rightarrow> 'x cpu_state_scheme" where
  "acquired c l s = (pushed c s)\<lparr>locks := (locks s)(l := \<lparr>lk_locked = True, lk_cpu = Some c\<rparr>)\<rparr>"

lemma acquire_eval:
  assumes "cpu_ok s" "found s = Some c"
  shows "acquire l s =
    (if lk_locked (locks s l) then (if lk_cpu (locks s l) = Some c then Panic ''acquire'' else Spin)
     else Ok () (acquired c l s))"
  using assms
  by (simp add: acquire_steps cpu_ok_def kbind_def kseq_def pushcli_eval holding_nested upd_lock_def
    mycpu_eval acquired_def)

lemma release_eval:
  assumes "found s = Some c" "0 < ncli (cpus s c)" "\<not> fl_if s"
  shows "release l s = (if lk_locked (locks s l) \<and> lk_cpu (locks s l) = Some c
     then Ok () (popped c (s\<lparr>locks := (locks s)(l := \<lparr>lk_locked = False, lk_cpu = None\<rparr>)\<rparr>))
     else Panic ''release'')"
  using assms
  by (simp add: release_steps kbind_def kseq_def holding_nested upd_lock_def popcli_eval)

section \<open>Nesting\<close>

lemma krep_pushcli:
  assumes "found s = Some c" "0 \<le> ncli (cpus s c)"
  shows "\<exists>t. krep n pushcli s = Ok () t \<and> found t = Some c
    \<and> ncli (cpus t c) = ncli (cpus s c) + int n \<and> (0 < n \<longrightarrow> \<not> fl_if t)
    \<and> (0 < n \<longrightarrow> intena (cpus t c) = (if ncli (cpus s c) = 0 then fl_if s else intena (cpus s c)))"
  using assms
proof (induction n arbitrary: s)
  case (Suc n)
  let ?s = "pushed c s"
  have "intena (cpus ?s c) = (if ncli (cpus s c) = 0 then fl_if s else intena (cpus s c))"
    by (simp add: pushed_def)
  with Suc.IH [of ?s] Suc.prems show ?case
    by (cases n) (auto simp: kseq_def kbind_def pushcli_eval)
qed simp

lemma krep_popcli:
  assumes "found s = Some c" "int n \<le> ncli (cpus s c)" "\<not> fl_if s"
  shows "\<exists>t. krep n popcli s = Ok () t \<and> found t = Some c
    \<and> ncli (cpus t c) = ncli (cpus s c) - int n
    \<and> fl_if t = (0 < n \<and> ncli (cpus s c) = int n \<and> intena (cpus s c))"
  using assms
proof (induction n arbitrary: s)
  case (Suc n)
  let ?s = "popped c s"
  show ?case
  proof (cases "n = 0")
    case True
    with Suc.prems show ?thesis
      by (auto simp: kseq_def kbind_def popcli_eval popped_def Let_def)
  next
    case False
    then have "\<not> fl_if ?s" "intena (cpus ?s c) = intena (cpus s c)"
      using Suc.prems by (auto simp: popped_def Let_def)
    with False Suc.IH [of ?s] Suc.prems show ?thesis
      by (auto simp: kseq_def kbind_def popcli_eval)
  qed
qed simp

text \<open>
  \<open>pushcli\<close> and \<open>popcli\<close> are matched: on a CPU \<open>mycpu\<close> knows, with the nesting count in
  agreement with the interrupt flag, \<open>n\<close> calls of \<open>pushcli\<close> followed by \<open>n\<close> calls of
  \<open>popcli\<close> return, restore the count and the interrupt flag, and interrupts are off between.
\<close>

theorem pushcli_popcli_matched:
  assumes "cpu_ok s" and "found s = Some c" and "0 < n"
  shows "\<exists>t u. krep n pushcli s = Ok () t \<and> \<not> fl_if t \<and> krep n popcli t = Ok () u
    \<and> fl_if u = fl_if s \<and> ncli (cpus u c) = ncli (cpus s c)"
proof -
  have nn: "0 \<le> ncli (cpus s c)" and off: "0 < ncli (cpus s c) \<Longrightarrow> \<not> fl_if s"
    using assms by (auto simp: cpu_ok_def)
  obtain t where t: "krep n pushcli s = Ok () t" "found t = Some c" "\<not> fl_if t"
      "ncli (cpus t c) = ncli (cpus s c) + int n"
      "intena (cpus t c) = (if ncli (cpus s c) = 0 then fl_if s else intena (cpus s c))"
    using krep_pushcli [OF assms(2) nn, of n] assms(3) by auto
  then obtain u where "krep n popcli t = Ok () u" "ncli (cpus u c) = ncli (cpus t c) - int n"
      "fl_if u = (0 < n \<and> ncli (cpus t c) = int n \<and> intena (cpus t c))"
    using krep_popcli [of t c n] nn by auto
  with t nn off show ?thesis by (intro exI [of _ t] exI [of _ u]) auto
qed

definition one_cpu :: cpu_state where
  "one_cpu = \<lparr>ncpu = 1, cpus = (\<lambda>_. \<lparr>apicid = 0, ncli = 0, intena = False, cproc = None\<rparr>),
     lapic_id = 0, fl_if = True, locks = (\<lambda>_. \<lparr>lk_locked = False, lk_cpu = None\<rparr>)\<rparr>"

lemma one_cpu_ok: "found one_cpu = Some 0" "cpu_ok one_cpu"
  by (simp_all add: one_cpu_def found_def cpu_ok_def)

theorem pushcli_popcli_matched_witness:
  "\<exists>t u. krep 3 pushcli one_cpu = Ok () t \<and> \<not> fl_if t \<and> krep 3 popcli t = Ok () u
    \<and> fl_if u = fl_if one_cpu \<and> ncli (cpus u 0) = ncli (cpus one_cpu 0)"
  by (rule pushcli_popcli_matched [OF one_cpu_ok(2,1)]) simp

text \<open>A critical section that changes neither locks nor CPU state: taking a free lock and
  giving it back leaves the lock free and the interrupt flag and the count as they were.\<close>

lemma acquired_fields [simp]:
  "found (acquired c l s) = found s" "\<not> fl_if (acquired c l s)"
  "ncli (cpus (acquired c l s) c) = ncli (cpus s c) + 1"
  "locks (acquired c l s) = (locks s)(l := \<lparr>lk_locked = True, lk_cpu = Some c\<rparr>)"
  "cpu_state.more (acquired c l s) = cpu_state.more s"
  by (simp_all add: acquired_def)

text \<open>
  A critical section: a thread that may take locks and finds the lock free acquires it,
  runs with interrupts off, and the matching \<open>release\<close> returns, with the lock free again and
  the interrupt flag and nesting count restored; a second \<open>acquire\<close> by the same CPU panics.
\<close>

theorem acquire_release_section:
  assumes "cpu_ok s" and "found s = Some c" and "\<not> lk_locked (locks s l)"
  shows "\<exists>t u. acquire l s = Ok () t \<and> \<not> fl_if t \<and> acquire l t = Panic ''acquire''
    \<and> release l t = Ok () u \<and> fl_if u = fl_if s \<and> ncli (cpus u c) = ncli (cpus s c)
    \<and> locks u = (locks s)(l := \<lparr>lk_locked = False, lk_cpu = None\<rparr>)
    \<and> cpu_state.more u = cpu_state.more s"
proof -
  let ?t = "acquired c l s"
  let ?f = "(locks s)(l := \<lparr>lk_locked = False, lk_cpu = None\<rparr>)"
  let ?u = "popped c (?t\<lparr>locks := ?f\<rparr>)"
  have n: "0 \<le> ncli (cpus s c)" "0 < ncli (cpus s c) \<longrightarrow> \<not> fl_if s"
    using assms by (auto simp: cpu_ok_def)
  have "cpu_ok ?t" using assms n by (simp add: cpu_ok_def)
  then have "acquire l s = Ok () ?t" "acquire l ?t = Panic ''acquire''" "release l ?t = Ok () ?u"
    using assms n by (simp_all add: acquire_eval release_eval)
  moreover have "fl_if ?u = fl_if s" "ncli (cpus ?u c) = ncli (cpus s c)"
    using n by (auto simp: popped_def Let_def acquired_def pushed_def)
  ultimately show ?thesis by (intro exI [of _ ?t] exI [of _ ?u]) simp
qed

theorem acquire_release_section_witness:
  "\<exists>t u. acquire L_log one_cpu = Ok () t \<and> \<not> fl_if t \<and> acquire L_log t = Panic ''acquire''
    \<and> release L_log t = Ok () u \<and> fl_if u = fl_if one_cpu
    \<and> ncli (cpus u 0) = ncli (cpus one_cpu 0)
    \<and> locks u = (locks one_cpu)(L_log := \<lparr>lk_locked = False, lk_cpu = None\<rparr>)
    \<and> cpu_state.more u = cpu_state.more one_cpu"
  by (rule acquire_release_section [OF one_cpu_ok(2,1)]) (simp add: one_cpu_def)

section \<open>Mutual exclusion between CPUs\<close>

text \<open>The shared state as CPU \<open>i\<close> sees it: its own local APIC and its own interrupt flag.\<close>

definition on_cpu :: "nat \<Rightarrow> bool \<Rightarrow> 'x cpu_state_scheme \<Rightarrow> 'x cpu_state_scheme" where
  "on_cpu i f s = s\<lparr>lapic_id := apicid (cpus s i), fl_if := f\<rparr>"

lemma on_cpu_fields [simp]:
  "locks (on_cpu i f s) = locks s" "cpus (on_cpu i f s) = cpus s" "ncpu (on_cpu i f s) = ncpu s"
  "fl_if (on_cpu i f s) = f" "cpu_state.more (on_cpu i f s) = cpu_state.more s"
  by (simp_all add: on_cpu_def)

definition apics_ok :: "'x cpu_state_scheme \<Rightarrow> bool" where
  "apics_ok s \<longleftrightarrow> inj_on (\<lambda>i. apicid (cpus s i)) {..<ncpu s}"

lemma found_on_cpu:
  assumes "apics_ok s" "i < ncpu s"
  shows "found (on_cpu i f s) = Some i"
proof -
  have "apicid (cpus s j) \<noteq> apicid (cpus s i)" if "j < i" for j
    using assms that unfolding apics_ok_def by (auto dest: inj_onD)
  then show ?thesis using assms(2) by (simp add: found_def find_Some_iff) (auto simp: on_cpu_def intro!: exI [of _ i])
qed

text \<open>
  One lock \<open>l\<close> and any number of CPUs, each executing \<open>acquire(l)\<close>, a critical section and
  \<open>release(l)\<close> again and again.  A step of CPU \<open>i\<close> runs one of the parts of \<open>acquire\<close> and
  \<open>release\<close> on the shared state as that CPU sees it; a failed \<open>xchg\<close> is tried again.
\<close>

datatype mx_pc = Outside | AtXchg | GotLock | Critical | Releasing

record mx =
  mx_st :: cpu_state
  mx_if :: "nat \<Rightarrow> bool"
  mx_pcs :: "nat \<Rightarrow> mx_pc"

definition mx_view :: "mx \<Rightarrow> nat \<Rightarrow> cpu_state" where
  "mx_view m i = on_cpu i (mx_if m i) (mx_st m)"

definition mx_put :: "mx \<Rightarrow> nat \<Rightarrow> cpu_state \<Rightarrow> mx_pc \<Rightarrow> mx" where
  "mx_put m i t pc = \<lparr>mx_st = t, mx_if = (mx_if m)(i := fl_if t), mx_pcs = (mx_pcs m)(i := pc)\<rparr>"

inductive mx_step :: "lockid \<Rightarrow> mx \<Rightarrow> mx \<Rightarrow> bool" for l where
  mx_enter: "i < ncpu (mx_st m) \<Longrightarrow> mx_pcs m i = Outside \<Longrightarrow> acquire_check l (mx_view m i) = Ok () t \<Longrightarrow>
     mx_step l m (mx_put m i t AtXchg)"
| mx_xchg: "i < ncpu (mx_st m) \<Longrightarrow> mx_pcs m i = AtXchg \<Longrightarrow> xchg_locked l (mx_view m i) = Ok old t \<Longrightarrow>
     mx_step l m (mx_put m i t (if old then AtXchg else GotLock))"
| mx_record: "i < ncpu (mx_st m) \<Longrightarrow> mx_pcs m i = GotLock \<Longrightarrow> acquire_record l (mx_view m i) = Ok () t \<Longrightarrow>
     mx_step l m (mx_put m i t Critical)"
| mx_leave: "i < ncpu (mx_st m) \<Longrightarrow> mx_pcs m i = Critical \<Longrightarrow> release_clear l (mx_view m i) = Ok () t \<Longrightarrow>
     mx_step l m (mx_put m i t Releasing)"
| mx_unlock: "i < ncpu (mx_st m) \<Longrightarrow> mx_pcs m i = Releasing \<Longrightarrow> release_unlock l (mx_view m i) = Ok () t \<Longrightarrow>
     mx_step l m (mx_put m i t Outside)"

text \<open>Initially the lock is free, and every CPU's nesting count agrees with its interrupt flag.\<close>

definition cli_ok :: "mx \<Rightarrow> bool" where
  "cli_ok m \<longleftrightarrow> (\<forall>i < ncpu (mx_st m). 0 \<le> ncli (cpus (mx_st m) i)
     \<and> (0 < ncli (cpus (mx_st m) i) \<longrightarrow> \<not> mx_if m i))"

definition mx_init :: "lockid \<Rightarrow> mx \<Rightarrow> bool" where
  "mx_init l m \<longleftrightarrow> apics_ok (mx_st m) \<and> cli_ok m \<and> mx_pcs m = (\<lambda>_. Outside)
     \<and> locks (mx_st m) l = \<lparr>lk_locked = False, lk_cpu = None\<rparr>"

definition mx_owner :: "mx \<Rightarrow> nat \<Rightarrow> bool" where
  "mx_owner m i \<longleftrightarrow> mx_pcs m i \<in> {GotLock, Critical, Releasing}"

text \<open>The CPU side of the invariant: inside \<open>acquire\<close> and until the end of \<open>release\<close> interrupts
  are off; and its lock side.\<close>

definition mx_cpus :: "mx \<Rightarrow> bool" where
  "mx_cpus m \<longleftrightarrow> apics_ok (mx_st m) \<and> cli_ok m
     \<and> (\<forall>i. mx_pcs m i \<noteq> Outside \<longrightarrow> i < ncpu (mx_st m) \<and> 0 < ncli (cpus (mx_st m) i))"

definition mx_locks :: "lockid \<Rightarrow> mx \<Rightarrow> bool" where
  "mx_locks l m \<longleftrightarrow>
     (\<forall>i j. mx_owner m i \<longrightarrow> mx_owner m j \<longrightarrow> i = j) \<and>
     (\<forall>i. mx_owner m i \<longrightarrow> lk_locked (locks (mx_st m) l)) \<and>
     (\<forall>i. lk_cpu (locks (mx_st m) l) = Some i \<longleftrightarrow> mx_pcs m i = Critical)"

definition mx_inv :: "lockid \<Rightarrow> mx \<Rightarrow> bool" where
  "mx_inv l m \<longleftrightarrow> mx_cpus m \<and> mx_locks l m"

lemma mx_put_fields [simp]:
  "mx_st (mx_put m i t pc) = t" "mx_if (mx_put m i t pc) j = (if j = i then fl_if t else mx_if m j)"
  "mx_pcs (mx_put m i t pc) j = (if j = i then pc else mx_pcs m j)"
  "mx_owner (mx_put m i t pc) j = (if j = i then pc \<in> {GotLock, Critical, Releasing} else mx_owner m j)"
  by (simp_all add: mx_put_def mx_owner_def)

lemma mx_locksD:
  assumes "mx_locks l m"
  shows "mx_owner m i \<Longrightarrow> mx_owner m j \<Longrightarrow> i = j" "mx_owner m i \<Longrightarrow> lk_locked (locks (mx_st m) l)"
    "lk_cpu (locks (mx_st m) l) = Some i \<longleftrightarrow> mx_pcs m i = Critical"
  using assms unfolding mx_locks_def by blast+

text \<open>What one part does, on a CPU the invariant describes.\<close>

lemma mx_view_found:
  assumes "mx_cpus m" "i < ncpu (mx_st m)"
  shows "found (mx_view m i) = Some i" "locks (mx_view m i) = locks (mx_st m)" "cpus (mx_view m i) = cpus (mx_st m)"
    "ncpu (mx_view m i) = ncpu (mx_st m)" "fl_if (mx_view m i) = mx_if m i"
    "0 < ncli (cpus (mx_st m) i) \<Longrightarrow> \<not> mx_if m i" "0 \<le> ncli (cpus (mx_st m) i)" "cpu_ok (mx_view m i)"
  using assms found_on_cpu [of "mx_st m" i "mx_if m i"]
  by (auto simp: mx_cpus_def cli_ok_def mx_view_def cpu_ok_def)

lemma part_results:
  assumes "found v = Some i" "0 \<le> ncli (cpus v i)"
  shows "acquire_check l v = Ok u t \<longleftrightarrow> t = pushed i v \<and> \<not> (lk_locked (locks v l) \<and> lk_cpu (locks v l) = Some i)"
    "xchg_locked l v = Ok old t \<longleftrightarrow> old = lk_locked (locks v l)
       \<and> t = v\<lparr>locks := (locks v)(l := (locks v l)\<lparr>lk_locked := True\<rparr>)\<rparr>"
    "\<not> fl_if v \<Longrightarrow> acquire_record l v = Ok u t \<longleftrightarrow> t = v\<lparr>locks := (locks v)(l := (locks v l)\<lparr>lk_cpu := Some i\<rparr>)\<rparr>"
    "0 < ncli (cpus v i) \<Longrightarrow> \<not> fl_if v \<Longrightarrow> release_clear l v = Ok u t \<longleftrightarrow> lk_locked (locks v l)
       \<and> lk_cpu (locks v l) = Some i \<and> t = v\<lparr>locks := (locks v)(l := (locks v l)\<lparr>lk_cpu := None\<rparr>)\<rparr>"
    "0 < ncli (cpus v i) \<Longrightarrow> \<not> fl_if v \<Longrightarrow> release_unlock l v = Ok u t
       \<longleftrightarrow> t = popped i (v\<lparr>locks := (locks v)(l := (locks v l)\<lparr>lk_locked := False\<rparr>)\<rparr>)"
proof -
  have "holding l (pushed i v) = Ok (lk_locked (locks v l) \<and> lk_cpu (locks v l) = Some i) (pushed i v)"
    using holding_nested [of "pushed i v" i l] assms by simp
  then show "acquire_check l v = Ok u t \<longleftrightarrow> t = pushed i v \<and> \<not> (lk_locked (locks v l) \<and> lk_cpu (locks v l) = Some i)"
    using assms by (auto simp: acquire_check_def kbind_def kseq_def pushcli_eval kwhen_def)
  show "xchg_locked l v = Ok old t \<longleftrightarrow> old = lk_locked (locks v l) \<and> t = v\<lparr>locks := (locks v)(l := (locks v l)\<lparr>lk_locked := True\<rparr>)\<rparr>"
    by (auto simp: xchg_locked_def kbind_def kseq_def upd_lock_def)
  show "\<not> fl_if v \<Longrightarrow> acquire_record l v = Ok u t \<longleftrightarrow> t = v\<lparr>locks := (locks v)(l := (locks v l)\<lparr>lk_cpu := Some i\<rparr>)\<rparr>"
    using assms by (auto simp: acquire_record_def kbind_def upd_lock_def mycpu_eval)
  show "0 < ncli (cpus v i) \<Longrightarrow> \<not> fl_if v \<Longrightarrow> release_clear l v = Ok u t \<longleftrightarrow> lk_locked (locks v l)
       \<and> lk_cpu (locks v l) = Some i \<and> t = v\<lparr>locks := (locks v)(l := (locks v l)\<lparr>lk_cpu := None\<rparr>)\<rparr>"
    using assms by (auto simp: release_clear_def kbind_def upd_lock_def holding_nested)
  show "0 < ncli (cpus v i) \<Longrightarrow> \<not> fl_if v \<Longrightarrow> release_unlock l v = Ok u t
       \<longleftrightarrow> t = popped i (v\<lparr>locks := (locks v)(l := (locks v l)\<lparr>lk_locked := False\<rparr>)\<rparr>)"
    using assms by (auto simp: release_unlock_def kbind_def kseq_def upd_lock_def popcli_eval)
qed

text \<open>A part that changes only its own CPU's record keeps the CPU side.\<close>

lemma mx_cpus_put:
  assumes "mx_cpus m" "i < ncpu (mx_st m)" "ncpu t = ncpu (mx_st m)" "\<forall>j. apicid (cpus t j) = apicid (cpus (mx_st m) j)"
    and "\<forall>j. j \<noteq> i \<longrightarrow> cpus t j = cpus (mx_st m) j" "0 \<le> ncli (cpus t i)" "0 < ncli (cpus t i) \<Longrightarrow> \<not> fl_if t"
    and "pc \<noteq> Outside \<Longrightarrow> 0 < ncli (cpus t i)"
  shows "mx_cpus (mx_put m i t pc)"
  using assms by (auto simp: mx_cpus_def cli_ok_def apics_ok_def inj_on_def)

lemma mx_locks_put:
  assumes "mx_locks l m"
    and "pc \<in> {GotLock, Critical, Releasing} \<Longrightarrow> \<forall>j. j \<noteq> i \<longrightarrow> \<not> mx_owner m j"
    and "pc \<in> {GotLock, Critical, Releasing} \<or> (\<exists>j. j \<noteq> i \<and> mx_owner m j) \<Longrightarrow> lk_locked (locks t l)"
    and "\<forall>j. lk_cpu (locks t l) = Some j \<longleftrightarrow> (if j = i then pc = Critical else mx_pcs m j = Critical)"
  shows "mx_locks l (mx_put m i t pc)"
  unfolding mx_locks_def mx_put_fields
proof (intro conjI allI impI)
  fix a b
  assume "if a = i then pc \<in> {GotLock, Critical, Releasing} else mx_owner m a"
    "if b = i then pc \<in> {GotLock, Critical, Releasing} else mx_owner m b"
  then show "a = b" using assms(1,2) unfolding mx_locks_def by (metis (full_types))
next
  fix a assume "if a = i then pc \<in> {GotLock, Critical, Releasing} else mx_owner m a"
  then show "lk_locked (locks t l)" using assms(3) by (metis (full_types))
next
  fix j show "lk_cpu (locks t l) = Some j \<longleftrightarrow> (if j = i then pc else mx_pcs m j) = Critical"
    using assms(4) by simp
qed

lemma mx_inv_step:
  assumes "mx_step l m m'" "mx_inv l m"
  shows "mx_inv l m'"
  using assms
proof (induction rule: mx_step.induct)
  case (mx_enter i m t)
  have C: "mx_cpus m" and K: "mx_locks l m" using mx_enter.prems by (simp_all add: mx_inv_def)
  note V = mx_view_found [OF C mx_enter.hyps(1)]
  have t: "t = pushed i (mx_view m i)" using mx_enter.hyps(3) V by (simp add: part_results(1))
  have "mx_cpus (mx_put m i t AtXchg)"
    by (rule mx_cpus_put [OF C mx_enter.hyps(1)]) (use V in \<open>auto simp: t pushed_def\<close>)
  moreover have "mx_locks l (mx_put m i t AtXchg)"
    by (rule mx_locks_put [OF K]) (use mx_locksD(2,3) [OF K] V(2) mx_enter.hyps(2) in \<open>auto simp: t\<close>)
  ultimately show ?case by (simp add: mx_inv_def)
next
  case (mx_xchg i m old t)
  have C: "mx_cpus m" and K: "mx_locks l m" using mx_xchg.prems by (simp_all add: mx_inv_def)
  note V = mx_view_found [OF C mx_xchg.hyps(1)]
  have n: "0 < ncli (cpus (mx_st m) i)" using C mx_xchg.hyps(2) by (simp add: mx_cpus_def)
  have t: "old = lk_locked (locks (mx_st m) l)"
    "t = (mx_view m i)\<lparr>locks := (locks (mx_st m))(l := (locks (mx_st m) l)\<lparr>lk_locked := True\<rparr>)\<rparr>"
    using mx_xchg.hyps(3) V by (simp_all add: part_results(2))
  let ?pc = "if old then AtXchg else GotLock"
  have free: "\<not> mx_owner m j" if "\<not> old" for j using mx_locksD(2) [OF K, of j] t(1) that by blast
  have "mx_cpus (mx_put m i t ?pc)"
    by (rule mx_cpus_put [OF C mx_xchg.hyps(1)]) (use V n in \<open>auto simp: t(2)\<close>)
  moreover have "mx_locks l (mx_put m i t ?pc)"
    by (rule mx_locks_put [OF K]) (use mx_locksD(3) [OF K] free mx_xchg.hyps(2) in \<open>auto simp: t(2) split: if_splits\<close>)
  ultimately show ?case by (simp add: mx_inv_def)
next
  case (mx_record i m t)
  have C: "mx_cpus m" and K: "mx_locks l m" using mx_record.prems by (simp_all add: mx_inv_def)
  note V = mx_view_found [OF C mx_record.hyps(1)]
  have n: "0 < ncli (cpus (mx_st m) i)" using C mx_record.hyps(2) by (simp add: mx_cpus_def)
  have t: "t = (mx_view m i)\<lparr>locks := (locks (mx_st m))(l := (locks (mx_st m) l)\<lparr>lk_cpu := Some i\<rparr>)\<rparr>"
    using mx_record.hyps(3) V n by (simp add: part_results(3))
  have own: "mx_owner m i" using mx_record.hyps(2) by (simp add: mx_owner_def)
  have others: "\<not> mx_owner m j" "mx_pcs m j \<noteq> Critical" if "j \<noteq> i" for j
    using mx_locksD(1) [OF K own, of j] that by (auto simp: mx_owner_def)
  have "mx_cpus (mx_put m i t Critical)"
    by (rule mx_cpus_put [OF C mx_record.hyps(1)]) (use V n in \<open>auto simp: t\<close>)
  moreover have "mx_locks l (mx_put m i t Critical)"
    by (rule mx_locks_put [OF K]) (use mx_locksD(2) [OF K own] own others in \<open>auto simp: t\<close>)
  ultimately show ?case by (simp add: mx_inv_def)
next
  case (mx_leave i m t)
  have C: "mx_cpus m" and K: "mx_locks l m" using mx_leave.prems by (simp_all add: mx_inv_def)
  note V = mx_view_found [OF C mx_leave.hyps(1)]
  have n: "0 < ncli (cpus (mx_st m) i)" using C mx_leave.hyps(2) by (simp add: mx_cpus_def)
  have t: "t = (mx_view m i)\<lparr>locks := (locks (mx_st m))(l := (locks (mx_st m) l)\<lparr>lk_cpu := None\<rparr>)\<rparr>"
    using mx_leave.hyps(3) V n by (simp add: part_results(4))
  have own: "mx_owner m i" using mx_leave.hyps(2) by (simp add: mx_owner_def)
  have others: "\<not> mx_owner m j" "mx_pcs m j \<noteq> Critical" if "j \<noteq> i" for j
    using mx_locksD(1) [OF K own, of j] that by (auto simp: mx_owner_def)
  have "mx_cpus (mx_put m i t Releasing)"
    by (rule mx_cpus_put [OF C mx_leave.hyps(1)]) (use V n in \<open>auto simp: t\<close>)
  moreover have "mx_locks l (mx_put m i t Releasing)"
    by (rule mx_locks_put [OF K]) (use mx_locksD(2) [OF K own] own others in \<open>auto simp: t\<close>)
  ultimately show ?case by (simp add: mx_inv_def)
next
  case (mx_unlock i m t)
  have C: "mx_cpus m" and K: "mx_locks l m" using mx_unlock.prems by (simp_all add: mx_inv_def)
  note V = mx_view_found [OF C mx_unlock.hyps(1)]
  have n: "0 < ncli (cpus (mx_st m) i)" using C mx_unlock.hyps(2) by (simp add: mx_cpus_def)
  have t: "t = popped i ((mx_view m i)\<lparr>locks := (locks (mx_st m))(l := (locks (mx_st m) l)\<lparr>lk_locked := False\<rparr>)\<rparr>)"
    using mx_unlock.hyps(3) V n by (simp add: part_results(5))
  have own: "mx_owner m i" using mx_unlock.hyps(2) by (simp add: mx_owner_def)
  have others: "\<not> mx_owner m j" if "j \<noteq> i" for j using mx_locksD(1) [OF K own, of j] that by blast
  have "mx_cpus (mx_put m i t Outside)"
    by (rule mx_cpus_put [OF C mx_unlock.hyps(1)]) (use V n in \<open>auto simp: t popped_def Let_def\<close>)
  moreover have "mx_locks l (mx_put m i t Outside)"
    by (rule mx_locks_put [OF K]) (use mx_locksD(3) [OF K] others mx_unlock.hyps(2) in \<open>auto simp: t\<close>)
  ultimately show ?case by (simp add: mx_inv_def)
qed

lemma mx_inv_init: "mx_init l m \<Longrightarrow> mx_inv l m"
  by (simp add: mx_init_def mx_inv_def mx_cpus_def mx_locks_def mx_owner_def)

interpretation mx: step_invariant "mx_init l" "mx_step l" "mx_inv l"
  by unfold_locales (rule mx_inv_init, assumption, rule mx_inv_step)

text \<open>
  C1. Mutual exclusion of \<open>acquire\<close> and \<open>release\<close>, run by any number of CPUs and interleaved between
  their accesses to the lock: in every reachable state in which CPU \<open>i\<close> is in its critical section
  no other CPU is past the \<open>xchg\<close> of \<open>acquire\<close> or inside \<open>release\<close>; \<open>acquire\<close> on any other CPU
  that is outside spins and \<open>release\<close> panics there; on CPU \<open>i\<close> itself a second \<open>acquire\<close>
  panics, and \<open>release\<close> returns with the lock free.
\<close>

theorem spinlock_mutual_exclusion:
  assumes "reachable (mx_init l) (mx_step l) m" and "mx_pcs m i = Critical"
  shows "(\<forall>j. j \<noteq> i \<longrightarrow> mx_pcs m j \<in> {Outside, AtXchg})
    \<and> (\<forall>j < ncpu (mx_st m). mx_pcs m j = Outside \<longrightarrow>
         acquire l (mx_view m j) = Spin \<and> (\<exists>msg. release l (mx_view m j) = Panic msg))
    \<and> acquire l (mx_view m i) = Panic ''acquire''
    \<and> (\<exists>t. release l (mx_view m i) = Ok () t \<and> locks t l = \<lparr>lk_locked = False, lk_cpu = None\<rparr>)"
proof -
  have C: "mx_cpus m" and K: "mx_locks l m" using mx.reachable_inv [OF assms(1)] by (simp_all add: mx_inv_def)
  have own: "mx_owner m i" using assms(2) by (simp add: mx_owner_def)
  have lk: "lk_locked (locks (mx_st m) l)" "lk_cpu (locks (mx_st m) l) = Some i" using mx_locksD(2) [OF K own] mx_locksD(3) [OF K] assms(2) by simp_all
  have i: "i < ncpu (mx_st m)" "0 < ncli (cpus (mx_st m) i)" using C assms(2) by (simp_all add: mx_cpus_def)
  note Vi = mx_view_found [OF C i(1)]
  have others: "mx_pcs m j \<in> {Outside, AtXchg}" if "j \<noteq> i" for j
    using mx_locksD(1) [OF K own, of j] that unfolding mx_owner_def by (cases "mx_pcs m j") auto
  have out: "acquire l (mx_view m j) = Spin \<and> (\<exists>msg. release l (mx_view m j) = Panic msg)"
    if j: "j < ncpu (mx_st m)" "mx_pcs m j = Outside" for j
  proof -
    note Vj = mx_view_found [OF C j(1)]
    have ij: "j \<noteq> i" using j(2) assms(2) by auto
    have "acquire l (mx_view m j) = Spin" using acquire_eval [OF Vj(8,1)] Vj(2) lk ij by simp
    moreover have "holding l (mx_view m j) \<noteq> Ok True u" for u
      using holding_Ok(3) [of l "mx_view m j" True u] Vj(1,2) lk ij by auto
    then have "\<exists>msg. release l (mx_view m j) = Panic msg"
      using Vj by (auto simp: release_steps kseq_def kbind_def holding_def pushcli_eval mycpu_eval popcli_eval split: res.split)
    ultimately show ?thesis by blast
  qed
  have "acquire l (mx_view m i) = Panic ''acquire''" using acquire_eval [OF Vi(8,1)] Vi(2) lk by simp
  moreover have "\<exists>t. release l (mx_view m i) = Ok () t \<and> locks t l = \<lparr>lk_locked = False, lk_cpu = None\<rparr>"
    using release_eval [of "mx_view m i" i l] Vi i(2) lk by simp
  ultimately show ?thesis using others out by blast
qed

text \<open>Two CPUs, of which CPU 0 has gone through \<open>acquire\<close>.\<close>

definition two_cpus :: cpu_state where
  "two_cpus = \<lparr>ncpu = 2, cpus = (\<lambda>i. \<lparr>apicid = i, ncli = 0, intena = False, cproc = None\<rparr>),
     lapic_id = 0, fl_if = True, locks = (\<lambda>_. \<lparr>lk_locked = False, lk_cpu = None\<rparr>)\<rparr>"

lemma two_cpus_reach:
  "\<exists>m. reachable (mx_init L_log) (mx_step L_log) m \<and> mx_pcs m 0 = Critical \<and> mx_pcs m 1 = Outside \<and> ncpu (mx_st m) = 2"
proof -
  let ?m0 = "\<lparr>mx_st = two_cpus, mx_if = (\<lambda>_. True), mx_pcs = (\<lambda>_. Outside)\<rparr>"
  have "mx_init L_log ?m0"
    by (simp add: mx_init_def apics_ok_def cli_ok_def two_cpus_def inj_on_def)
  then have r0: "reachable (mx_init L_log) (mx_step L_log) ?m0" by (rule reach_init)
  have step: "\<exists>m'. reachable (mx_init L_log) (mx_step L_log) m' \<and> mx_pcs m' = (mx_pcs m)(0 := pc) \<and> ncpu (mx_st m') = 2
      \<and> locks (mx_st m') = locks t"
    if "mx_step L_log m (mx_put m 0 t pc)" "reachable (mx_init L_log) (mx_step L_log) m" "ncpu t = 2" for m t pc
    using reach_step [OF that(2,1)] that(3) by (intro exI [of _ "mx_put m 0 t pc"]) (simp add: mx_put_def)
  have V: "mx_cpus m" if "reachable (mx_init L_log) (mx_step L_log) m" for m
    using mx.reachable_inv [OF that] by (simp add: mx_inv_def)
  note V0 = mx_view_found [OF V [OF r0], of 0]
  have n0: "ncpu (mx_st ?m0) = 2" "\<not> lk_locked (locks (mx_st ?m0) L_log)" by (simp_all add: two_cpus_def)
  have "acquire_check L_log (mx_view ?m0 0) = Ok () (pushed 0 (mx_view ?m0 0))"
    using V0 n0 by (simp add: part_results(1))
  from step [OF mx_enter [OF _ _ this] r0] V0 n0
  obtain m1 where m1: "reachable (mx_init L_log) (mx_step L_log) m1" "mx_pcs m1 = (mx_pcs ?m0)(0 := AtXchg)" "ncpu (mx_st m1) = 2"
    "locks (mx_st m1) = locks (mx_st ?m0)" by (auto simp: pushed_def)
  note V1 = mx_view_found [OF V [OF m1(1)], of 0]
  let ?t1 = "(mx_view m1 0)\<lparr>locks := (locks (mx_st m1))(L_log := (locks (mx_st m1) L_log)\<lparr>lk_locked := True\<rparr>)\<rparr>"
  have "xchg_locked L_log (mx_view m1 0) = Ok False ?t1"
    using V1 m1(3,4) n0(2) by (simp add: part_results(2))
  from step [OF mx_xchg [OF _ _ this] m1(1)] V1 m1
  obtain m2 where m2: "reachable (mx_init L_log) (mx_step L_log) m2" "mx_pcs m2 = (mx_pcs m1)(0 := GotLock)" "ncpu (mx_st m2) = 2"
    by auto
  note V2 = mx_view_found [OF V [OF m2(1)], of 0]
  have i2: "\<not> mx_if m2 0" using V2 V [OF m2(1)] m2(2,3) by (simp add: mx_cpus_def)
  let ?t2 = "(mx_view m2 0)\<lparr>locks := (locks (mx_st m2))(L_log := (locks (mx_st m2) L_log)\<lparr>lk_cpu := Some 0\<rparr>)\<rparr>"
  have "acquire_record L_log (mx_view m2 0) = Ok () ?t2" using V2 i2 m2(3) by (simp add: part_results(3))
  from step [OF mx_record [OF _ _ this] m2(1)] V2 m2
  obtain m3 where "reachable (mx_init L_log) (mx_step L_log) m3" "mx_pcs m3 = (mx_pcs m2)(0 := Critical)" "ncpu (mx_st m3) = 2"
    by auto
  then show ?thesis using m1(2) m2(2) by (intro exI [of _ m3]) simp
qed

theorem spinlock_mutual_exclusion_witness:
  "\<exists>m. mx_pcs m 0 = Critical \<and> acquire L_log (mx_view m 1) = Spin \<and> acquire L_log (mx_view m 0) = Panic ''acquire''
    \<and> (\<exists>t. release L_log (mx_view m 0) = Ok () t)"
proof -
  obtain m where m: "reachable (mx_init L_log) (mx_step L_log) m" "mx_pcs m 0 = Critical" "mx_pcs m 1 = Outside" "ncpu (mx_st m) = 2"
    using two_cpus_reach by blast
  then show ?thesis using spinlock_mutual_exclusion [OF m(1,2)] by (intro exI [of _ m]) auto
qed

end
