(* ===== verification/Proc.thy ===== *)
theory Proc
  imports Spinlock
begin

text \<open>
  The process table and the sleep/wakeup half of \<open>proc.c\<close> (xv6-public_1): the data of
  \<open>proc.h\<close>, \<open>sched\<close>, \<open>yield\<close>, \<open>sleep\<close>, \<open>wakeup\<close> and \<open>kill\<close>, which the sleep locks, the
  log, the pipes and the console rest on.  A process is an index into \<open>ptable.proc\<close>.  The
  kernel thread that calls \<open>sched\<close> continues only when the scheduler switches back to it;
  the model ends such a run with \<open>Switch\<close> and the state at the call of \<open>swtch\<close>, and states
  what runs after the switch as a definition of its own.
\<close>

section \<open>Data of proc.h, param.h and x86.h\<close>

definition NPROC :: nat where [const_defs]: "NPROC = 64"
definition NOFILE :: nat where [const_defs]: "NOFILE = 16"
definition KSTACKSIZE :: u32 where [const_defs]: "KSTACKSIZE = 4096"

text \<open>\<open>CUSTOM_WAIT\<close> exists in the kernel of xv6-public_2 only.\<close>

datatype procstate = UNUSED | EMBRYO | SLEEPING | RUNNABLE | RUNNING | ZOMBIE | CUSTOM_WAIT

text \<open>Sleep channels: the kernel objects whose addresses are passed to \<open>sleep\<close>.\<close>

datatype chan =
    ChProc nat | ChTicks | ChBuf nat | ChBufLock nat | ChInodeLock nat | ChLog
  | ChPipeRead u32 | ChPipeWrite u32 | ChInput

record trapframe =
  tf_edi :: u32
  tf_esi :: u32
  tf_ebp :: u32
  tf_oesp :: u32
  tf_ebx :: u32
  tf_edx :: u32
  tf_ecx :: u32
  tf_eax :: u32
  tf_gs :: u16
  tf_fs :: u16
  tf_es :: u16
  tf_ds :: u16
  tf_trapno :: u32
  tf_err :: u32
  tf_eip :: u32
  tf_cs :: u16
  tf_eflags :: u32
  tf_esp :: u32
  tf_ss :: u16

record kcontext =
  ctx_edi :: u32
  ctx_esi :: u32
  ctx_ebx :: u32
  ctx_ebp :: u32
  ctx_eip :: u32

text \<open>Pointers to table entries are indices, \<open>None\<close> the null pointer; the trap frame and the
  context live on the process's kernel stack and are kept here by value.\<close>

record proc =
  p_sz :: u32
  p_pgdir :: u32
  p_kstack :: u32
  p_state :: procstate
  p_pid :: int
  p_parent :: "nat option"
  p_tf :: trapframe
  p_context :: kcontext
  p_chan :: "chan option"
  p_killed :: bool
  p_ofile :: "nat option list"
  p_cwd :: "nat option"
  p_name :: "u8 list"
  p_shell_pid :: int
  p_blocked :: "int list"
  p_check :: bool

record proc_st = cpu_state +
  ptable :: "nat \<Rightarrow> proc"
  nextpid :: int
  initproc :: "nat option"
  ticks :: u32

definition upd_proc :: "nat \<Rightarrow> (proc \<Rightarrow> proc) \<Rightarrow> (unit, 'x proc_st_scheme) kern" where
  "upd_proc i f = kmod (\<lambda>s. s\<lparr>ptable := (ptable s)(i := f (ptable s i))\<rparr>)"

text \<open>\<open>myproc()->...\<close>: the running process; a null \<open>myproc()\<close> is not to be dereferenced.\<close>

definition curproc :: "(nat, 'x proc_st_scheme) kern" where
  "curproc = kbind myproc (\<lambda>p. case p of Some i \<Rightarrow> kret i | None \<Rightarrow> kundef)"

section \<open>Giving up the CPU\<close>

definition pinit :: "(unit, 'x proc_st_scheme) kern" where
  "pinit = kseq (initlock L_ptable) (initlock L_hist)"

text \<open>\<open>sched\<close> checks that only \<open>ptable.lock\<close> is held, that the state has been changed and that
  interrupts are off, and switches to the scheduler.\<close>

definition sched :: "(unit, 'x proc_st_scheme) kern" where
  "sched =
     kbind curproc (\<lambda>p.
     kbind (holding L_ptable) (\<lambda>h.
     if \<not> h then kpanic ''sched ptable.lock''
     else kbind mycpu (\<lambda>c.
     kbind (kget (\<lambda>s. ncli (cpus s c))) (\<lambda>n.
     if n \<noteq> 1 then kpanic ''sched locks''
     else kbind (kget (\<lambda>s. p_state (ptable s p))) (\<lambda>st.
     if st = RUNNING then kpanic ''sched running''
     else kbind (kget fl_if) (\<lambda>f.
     if f then kpanic ''sched interruptible''
     else (\<lambda>s. Switch s)))))))"

text \<open>Back from \<open>swtch\<close>: \<open>mycpu()->intena = intena\<close>, with the value saved before.\<close>

definition sched_return :: "bool \<Rightarrow> (unit, 'x proc_st_scheme) kern" where
  "sched_return ia = kbind mycpu (\<lambda>c. upd_cpu c (\<lambda>r. r\<lparr>intena := ia\<rparr>))"

definition yield :: "(unit, 'x proc_st_scheme) kern" where
  "yield =
     kseq (acquire L_ptable) (
     kbind curproc (\<lambda>p.
     kseq (upd_proc p (\<lambda>r. r\<lparr>p_state := RUNNABLE\<rparr>)) (
     kseq sched (release L_ptable))))"

section \<open>sleep and wakeup\<close>

text \<open>What \<open>sleep\<close> does once \<open>sched\<close> has returned.\<close>

definition sleep_return :: "nat \<Rightarrow> lockid \<Rightarrow> (unit, 'x proc_st_scheme) kern" where
  "sleep_return p lk =
     kseq (upd_proc p (\<lambda>r. r\<lparr>p_chan := None\<rparr>))
          (kwhen (lk \<noteq> L_ptable) (kseq (release L_ptable) (acquire lk)))"

text \<open>The lock operations on the way to sleep: \<open>ptable.lock\<close> is taken before \<open>lk\<close> is given up.\<close>

definition sleep_enter :: "lockid \<Rightarrow> ((unit, 'x proc_st_scheme) kern) list" where
  "sleep_enter lk = (if lk \<noteq> L_ptable then [acquire L_ptable, release lk] else [])"

definition sleep :: "chan \<Rightarrow> lockid \<Rightarrow> (unit, 'x proc_st_scheme) kern" where
  "sleep ch lk =
     kbind myproc (\<lambda>mp.
     case mp of
       None \<Rightarrow> kpanic ''sleep''
     | Some p \<Rightarrow>
         kseq (kfor (sleep_enter lk) id) (
         kseq (upd_proc p (\<lambda>r. r\<lparr>p_chan := Some ch\<rparr>)) (
         kseq (upd_proc p (\<lambda>r. r\<lparr>p_state := SLEEPING\<rparr>)) (
         kseq sched
              (sleep_return p lk)))))"

lemma sleep_unfold:
  "sleep ch lk =
     kbind myproc (\<lambda>mp.
     case mp of
       None \<Rightarrow> kpanic ''sleep''
     | Some p \<Rightarrow>
         kseq (kwhen (lk \<noteq> L_ptable) (kseq (acquire L_ptable) (release lk))) (
         kseq (upd_proc p (\<lambda>r. r\<lparr>p_chan := Some ch\<rparr>)) (
         kseq (upd_proc p (\<lambda>r. r\<lparr>p_state := SLEEPING\<rparr>)) (
         kseq sched
              (sleep_return p lk)))))"
proof -
  have e: "kfor (sleep_enter lk) id = (kwhen (lk \<noteq> L_ptable) (kseq (acquire L_ptable) (release lk)) :: (unit, 'a proc_st_scheme) kern)"
    by (auto simp: sleep_enter_def kseq_def kbind_def fun_eq_iff split: res.split)
  show ?thesis unfolding sleep_def e ..
qed

definition wakeup1 :: "chan \<Rightarrow> (unit, 'x proc_st_scheme) kern" where
  "wakeup1 ch =
     kfor [0..<NPROC] (\<lambda>i.
       kbind (kget (\<lambda>s. p_state (ptable s i) = SLEEPING \<and> p_chan (ptable s i) = Some ch)) (\<lambda>b.
       kwhen b (upd_proc i (\<lambda>r. r\<lparr>p_state := RUNNABLE\<rparr>))))"

definition wakeup :: "chan \<Rightarrow> (unit, 'x proc_st_scheme) kern" where
  "wakeup ch = kseq (acquire L_ptable) (kseq (wakeup1 ch) (release L_ptable))"

definition kill :: "int \<Rightarrow> (int, 'x proc_st_scheme) kern" where
  "kill pid =
     kseq (acquire L_ptable) (
     kbind (kloop [0..<NPROC] (\<lambda>i.
       kbind (kget (\<lambda>s. p_pid (ptable s i))) (\<lambda>q.
       if q = pid then
         kseq (upd_proc i (\<lambda>r. r\<lparr>p_killed := True\<rparr>)) (
         kbind (kget (\<lambda>s. p_state (ptable s i))) (\<lambda>st.
         kseq (kwhen (st = SLEEPING) (upd_proc i (\<lambda>r. r\<lparr>p_state := RUNNABLE\<rparr>))) (
         kseq (release L_ptable) (kret (Some 0)))))
       else kret None))) (\<lambda>r.
     case r of
       Some v \<Rightarrow> kret v
     | None \<Rightarrow> kseq (release L_ptable) (kret (-1))))"

section \<open>What the operations do\<close>

lemma cpu_proc_st [simp]:
  "found (s\<lparr>ptable := pt\<rparr>) = found s" "cur (s\<lparr>ptable := pt\<rparr>) = cur s"
  "found (s\<lparr>nextpid := n\<rparr>) = found s" "cur (s\<lparr>nextpid := n\<rparr>) = cur s"
  "found (s\<lparr>ticks := k\<rparr>) = found s" "cur (s\<lparr>ticks := k\<rparr>) = cur s"
  "cpu_ok (s\<lparr>ptable := pt\<rparr>) = cpu_ok s"
  by (simp_all add: found_def cur_def cpu_ok_def split: option.split)

text \<open>A loop over the process table that rewrites each entry on its own.\<close>

lemma kfor_ptable:
  assumes "\<And>i (s :: 'x proc_st_scheme). body i s = Ok () (s\<lparr>ptable := (ptable s)(i := g (ptable s i))\<rparr>)"
  shows "kfor [0..<n] body (s :: 'x proc_st_scheme)
           = Ok () (s\<lparr>ptable := (\<lambda>i. if i < n then g (ptable s i) else ptable s i)\<rparr>)"
proof (induction n)
  case (Suc n)
  let ?t = "s\<lparr>ptable := (\<lambda>i. if i < n then g (ptable s i) else ptable s i)\<rparr>"
  have "kfor [0..<Suc n] body s = Ok () (?t\<lparr>ptable := (ptable ?t)(n := g (ptable ?t n))\<rparr>)"
    by (simp add: kfor_append kseq_def kbind_def Suc assms)
  also have "(ptable ?t)(n := g (ptable ?t n))
      = (\<lambda>i. if i < Suc n then g (ptable s i) else ptable s i)"
    by (auto simp: fun_eq_iff less_Suc_eq)
  finally show ?case by simp
qed simp

definition woken :: "chan \<Rightarrow> proc \<Rightarrow> proc" where
  "woken ch r = (if p_state r = SLEEPING \<and> p_chan r = Some ch then r\<lparr>p_state := RUNNABLE\<rparr> else r)"

definition woken_table :: "chan \<Rightarrow> (nat \<Rightarrow> proc) \<Rightarrow> nat \<Rightarrow> proc" where
  "woken_table ch pt = (\<lambda>i. if i < NPROC then woken ch (pt i) else pt i)"

lemma wakeup1_eval: "wakeup1 ch s = Ok () (s\<lparr>ptable := woken_table ch (ptable s)\<rparr>)"
  unfolding wakeup1_def woken_table_def
  by (rule kfor_ptable) (simp add: upd_proc_def woken_def kwhen_def)

lemma wakeup_eval:
  assumes "cpu_ok s" "found s = Some c" "\<not> lk_locked (locks s L_ptable)"
  shows "\<exists>t. wakeup ch s = Ok () t \<and> fl_if t = fl_if s \<and> ncli (cpus t c) = ncli (cpus s c)
    \<and> found t = Some c \<and> locks t = (locks s)(L_ptable := \<lparr>lk_locked = False, lk_cpu = None\<rparr>)
    \<and> proc_st.more t = proc_st.more s \<and> nextpid t = nextpid s
    \<and> ptable t = woken_table ch (ptable s)"
proof -
  let ?a = "acquired c L_ptable s"
  let ?w = "?a\<lparr>ptable := woken_table ch (ptable s)\<rparr>"
  let ?u = "popped c (?w\<lparr>locks := (locks s)(L_ptable := \<lparr>lk_locked = False, lk_cpu = None\<rparr>)\<rparr>)"
  have n: "0 \<le> ncli (cpus s c)" "0 < ncli (cpus s c) \<longrightarrow> \<not> fl_if s"
    using assms by (auto simp: cpu_ok_def)
  have pt: "ptable ?a = ptable s" by (simp add: acquired_def pushed_def)
  have f: "found ?w = Some c" "0 < ncli (cpus ?w c)" "\<not> fl_if ?w"
    "locks ?w = (locks s)(L_ptable := \<lparr>lk_locked = True, lk_cpu = Some c\<rparr>)"
    using assms(2) n by (simp_all add: acquired_def pushed_def)
  have "wakeup ch s = Ok () ?u"
    using assms n f
    by (simp add: wakeup_def kseq_def kbind_def acquire_eval wakeup1_eval pt release_eval)
  moreover have "fl_if ?u = fl_if s" "ncli (cpus ?u c) = ncli (cpus s c)" "found ?u = Some c"
    using n f(1) assms(2) by (auto simp: popped_def Let_def acquired_def pushed_def)
  moreover have "proc_st.more ?u = proc_st.more s" "nextpid ?u = nextpid s"
    by (simp_all add: popped_def Let_def acquired_def pushed_def)
  moreover have "ptable ?u = woken_table ch (ptable s)"
    by (simp add: popped_def Let_def)
  ultimately show ?thesis by (intro exI [of _ ?u]) simp
qed

text \<open>Inversion: what a \<open>wakeup\<close> that returned has done.\<close>

lemma cpu_frame_proc_st:
  assumes "cpu_frame s t"
  shows "ptable t = ptable s" "nextpid t = nextpid s" "initproc t = initproc s"
    "ticks t = ticks s" "proc_st.more t = proc_st.more s"
  using assms by (cases s, cases t, simp add: cpu_frame_def)+

lemma wakeup_Ok:
  assumes "wakeup ch s = Ok u t"
  shows "found t = found s" "cur t = cur s" "proc_st.more t = proc_st.more s"
    "locks t = (locks s)(L_ptable := \<lparr>lk_locked = False, lk_cpu = None\<rparr>)"
    "ptable t = woken_table ch (ptable s)"
    "nextpid t = nextpid s" "initproc t = initproc s" "ticks t = ticks s"
proof -
  from assms obtain a where a: "acquire L_ptable s = Ok () a" and r: "release L_ptable
      (a\<lparr>ptable := woken_table ch (ptable a)\<rparr>) = Ok u t"
    by (auto simp: wakeup_def kseq_eq_Ok wakeup1_eval)
  note A = acquire_Ok [OF a] and R = release_Ok [OF r]
  note F = cpu_frame_proc_st [OF A(1)] and G = cpu_frame_proc_st [OF R(1)]
  show "found t = found s" "cur t = cur s" using A(1) R(1) by (simp_all add: cpu_frame_def)
  show "proc_st.more t = proc_st.more s" "nextpid t = nextpid s" "initproc t = initproc s"
    "ticks t = ticks s"
    "ptable t = woken_table ch (ptable s)"
    using F G by simp_all
  show "locks t = (locks s)(L_ptable := \<lparr>lk_locked = False, lk_cpu = None\<rparr>)"
    using A R by simp
qed

text \<open>The state in which \<open>sleep\<close> gives up the CPU.\<close>

lemma sleep_eval:
  assumes "found s = Some c" and "cproc (cpus s c) = Some p" and "ncli (cpus s c) = 1"
    and "\<not> fl_if s" and "locks s lk = \<lparr>lk_locked = True, lk_cpu = Some c\<rparr>"
    and "lk \<noteq> L_ptable" and "\<not> lk_locked (locks s L_ptable)"
  shows "\<exists>t. sleep ch lk s = Switch t
    \<and> ptable t = (ptable s)(p := (ptable s p)\<lparr>p_chan := Some ch, p_state := SLEEPING\<rparr>)
    \<and> locks t = (locks s)(L_ptable := \<lparr>lk_locked = True, lk_cpu = Some c\<rparr>, lk := \<lparr>lk_locked = False, lk_cpu = None\<rparr>)
    \<and> nextpid t = nextpid s \<and> initproc t = initproc s \<and> ticks t = ticks s \<and> proc_st.more t = proc_st.more s
    \<and> found t = Some c \<and> ncli (cpus t c) = 1 \<and> \<not> fl_if t \<and> ncpu t = ncpu s
    \<and> (\<forall>i. apicid (cpus t i) = apicid (cpus s i)) \<and> (\<forall>i. i \<noteq> c \<longrightarrow> cpus t i = cpus s i)"
proof -
  let ?a = "acquired c L_ptable s"
  let ?b = "popped c (?a\<lparr>locks := (locks ?a)(lk := \<lparr>lk_locked = False, lk_cpu = None\<rparr>)\<rparr>)"
  let ?t = "?b\<lparr>ptable := (ptable ?b)(p := (ptable ?b p)\<lparr>p_chan := Some ch, p_state := SLEEPING\<rparr>)\<rparr>"
  have ok: "cpu_ok s" using assms by (simp add: cpu_ok_def)
  have my: "myproc s = Ok (Some p) s" if "found s = Some c" "ncli (cpus s c) = 1" "\<not> fl_if s"
      "cproc (cpus s c) = Some p" for s :: "'a proc_st_scheme"
    using that by (simp add: myproc_def kseq_def kbind_def pushcli_eval mycpu_eval popcli_eval
      popped_pushed_nested)
  have a: "acquire L_ptable s = Ok () ?a" using assms ok by (simp add: acquire_eval)
  have b: "release lk ?a = Ok () ?b" using assms
    by (subst release_eval [where c = c]) auto
  have n: "ncli (cpus ?b c) = 1" "\<not> fl_if ?b" "found ?b = Some c" "cproc (cpus ?b c) = Some p"
    "locks ?b L_ptable = \<lparr>lk_locked = True, lk_cpu = Some c\<rparr>" "\<not> lk_locked (locks ?b lk)"
    "ptable ?b = ptable s"
    using assms by (auto simp: popped_def Let_def acquired_def pushed_def)
  have t: "ncli (cpus ?t c) = 1" "\<not> fl_if ?t" "found ?t = Some c" "cproc (cpus ?t c) = Some p"
    "locks ?t = locks ?b"
    using n by simp_all
  have "sched ?t = Switch ?t"
    using n t my [of ?t]
    by (simp add: sched_def curproc_def kbind_def holding_nested mycpu_eval)
  then have "sleep ch lk s = Switch ?t"
    using assms my [of s] a b n
    by (simp add: sleep_unfold kseq_def kbind_def kwhen_def upd_proc_def)
  moreover have "locks ?t = (locks s)(L_ptable := \<lparr>lk_locked = True, lk_cpu = Some c\<rparr>, lk := \<lparr>lk_locked = False, lk_cpu = None\<rparr>)"
    by (simp add: popped_def Let_def acquired_def pushed_def)
  moreover have "nextpid ?t = nextpid s" "initproc ?t = initproc s" "ticks ?t = ticks s" "proc_st.more ?t = proc_st.more s"
    by (simp_all add: popped_def Let_def acquired_def pushed_def)
  moreover have "ncpu ?t = ncpu s" "\<forall>i. apicid (cpus ?t i) = apicid (cpus s i)" "\<forall>i. i \<noteq> c \<longrightarrow> cpus ?t i = cpus s i"
    by (simp_all add: popped_def Let_def acquired_def pushed_def)
  ultimately show ?thesis using n t(1-3) by (intro exI [of _ ?t]) simp
qed

text \<open>
  \<open>sleep\<close> is atomic: called by a running process inside the critical section of \<open>lk\<close>
  (one lock held, interrupts off), it gives up the CPU in a state where the process is
  SLEEPING on the channel, \<open>lk\<close> is free and \<open>ptable.lock\<close> is still held, so no wakeup can run
  between the release of \<open>lk\<close> and the sleep.
\<close>

theorem sleep_releases_and_sleeps:
  assumes "found s = Some c" and "cproc (cpus s c) = Some p" and "ncli (cpus s c) = 1"
    and "\<not> fl_if s" and "locks s lk = \<lparr>lk_locked = True, lk_cpu = Some c\<rparr>"
    and "lk \<noteq> L_ptable" and "\<not> lk_locked (locks s L_ptable)"
  shows "\<exists>t. sleep ch lk s = Switch t \<and> p_state (ptable t p) = SLEEPING
    \<and> p_chan (ptable t p) = Some ch \<and> \<not> lk_locked (locks t lk)
    \<and> locks t L_ptable = \<lparr>lk_locked = True, lk_cpu = Some c\<rparr>
    \<and> (\<forall>q. q \<noteq> p \<longrightarrow> ptable t q = ptable s q)"
proof -
  obtain t where t: "sleep ch lk s = Switch t"
    "ptable t = (ptable s)(p := (ptable s p)\<lparr>p_chan := Some ch, p_state := SLEEPING\<rparr>)"
    "locks t = (locks s)(L_ptable := \<lparr>lk_locked = True, lk_cpu = Some c\<rparr>, lk := \<lparr>lk_locked = False, lk_cpu = None\<rparr>)"
    using sleep_eval [OF assms] by blast
  then show ?thesis using assms(6) by (intro exI [of _ t]) simp
qed

definition zero_tf :: trapframe where
  "zero_tf = \<lparr>tf_edi = 0, tf_esi = 0, tf_ebp = 0, tf_oesp = 0, tf_ebx = 0, tf_edx = 0,
     tf_ecx = 0, tf_eax = 0, tf_gs = 0, tf_fs = 0, tf_es = 0, tf_ds = 0, tf_trapno = 0,
     tf_err = 0, tf_eip = 0, tf_cs = 0, tf_eflags = 0, tf_esp = 0, tf_ss = 0\<rparr>"

definition zero_context :: kcontext where
  "zero_context = \<lparr>ctx_edi = 0, ctx_esi = 0, ctx_ebx = 0, ctx_ebp = 0, ctx_eip = 0\<rparr>"

text \<open>An entry of the zero-initialised process table.\<close>

definition zero_proc :: proc where
  "zero_proc = \<lparr>p_sz = 0, p_pgdir = 0, p_kstack = 0, p_state = UNUSED, p_pid = 0,
     p_parent = None, p_tf = zero_tf, p_context = zero_context, p_chan = None,
     p_killed = False, p_ofile = replicate 16 None, p_cwd = None, p_name = replicate 16 0,
     p_shell_pid = 0, p_blocked = replicate 32 0, p_check = False\<rparr>"

text \<open>A machine of one CPU that runs process 0 (pid 1), for closed instances.\<close>

definition demo_cpu :: "bool \<Rightarrow> int \<Rightarrow> nat \<Rightarrow> cpu" where
  "demo_cpu ia n i = \<lparr>apicid = 0, ncli = n, intena = ia, cproc = Some 0\<rparr>"

definition demo_proc_st :: proc_st where
  "demo_proc_st = \<lparr>ncpu = 1, cpus = demo_cpu True 1, lapic_id = 0, fl_if = False,
     locks = (\<lambda>_. \<lparr>lk_locked = False, lk_cpu = None\<rparr>)(L_log := \<lparr>lk_locked = True, lk_cpu = Some 0\<rparr>),
     ptable = (\<lambda>_. zero_proc)(0 := zero_proc\<lparr>p_state := RUNNING, p_pid := 1\<rparr>),
     nextpid = 2, initproc = Some 0, ticks = 0\<rparr>"

theorem sleep_releases_and_sleeps_witness:
  "\<exists>t. sleep ChLog L_log demo_proc_st = Switch t \<and> p_state (ptable t 0) = SLEEPING
    \<and> p_chan (ptable t 0) = Some ChLog \<and> \<not> lk_locked (locks t L_log)
    \<and> locks t L_ptable = \<lparr>lk_locked = True, lk_cpu = Some 0\<rparr>
    \<and> (\<forall>q. q \<noteq> 0 \<longrightarrow> ptable t q = ptable demo_proc_st q)"
  by (rule sleep_releases_and_sleeps)
    (simp_all add: demo_proc_st_def demo_cpu_def found_def)

section \<open>No lost wakeup\<close>

text \<open>What the parts of \<open>sleep\<close> leave alone of the CPU table.\<close>

definition cpus_kept :: "nat \<Rightarrow> 'x cpu_state_scheme \<Rightarrow> 'x cpu_state_scheme \<Rightarrow> bool" where
  "cpus_kept c s t \<longleftrightarrow> ncpu t = ncpu s \<and> (\<forall>i. apicid (cpus t i) = apicid (cpus s i)) \<and> (\<forall>i. i \<noteq> c \<longrightarrow> cpus t i = cpus s i)"

text \<open>Another CPU \<open>j\<close>, its nesting count in agreement with its interrupt flag \<open>f\<close>.\<close>

definition other_cpu :: "nat \<Rightarrow> nat \<Rightarrow> bool \<Rightarrow> 'x cpu_state_scheme \<Rightarrow> bool" where
  "other_cpu c j f s \<longleftrightarrow> apics_ok s \<and> j < ncpu s \<and> j \<noteq> c \<and> 0 \<le> ncli (cpus s j) \<and> (0 < ncli (cpus s j) \<longrightarrow> \<not> f)"

lemma other_cpu_kept: "cpus_kept c s t \<Longrightarrow> other_cpu c j f s \<Longrightarrow> other_cpu c j f t"
  by (auto simp: cpus_kept_def other_cpu_def apics_ok_def inj_on_def)

lemma other_cpuD:
  assumes "other_cpu c j f s"
  shows "found (on_cpu j f s) = Some j" "cpu_ok (on_cpu j f s)" "j \<noteq> c"
  using assms found_on_cpu [of s j f] by (auto simp: other_cpu_def cpu_ok_def)

text \<open>A waker: it makes its condition true inside the critical section of \<open>lk\<close> and calls \<open>wakeup\<close>.\<close>

definition waker :: "chan \<Rightarrow> lockid \<Rightarrow> (unit, 'x proc_st_scheme) kern" where
  "waker ch lk = kseq (acquire lk) (wakeup ch)"

lemma waker_spins:
  assumes "other_cpu c j f s" "lk \<noteq> L_ptable"
    and "locks s lk = \<lparr>lk_locked = True, lk_cpu = Some c\<rparr>
      \<or> locks s lk = \<lparr>lk_locked = False, lk_cpu = None\<rparr> \<and> locks s L_ptable = \<lparr>lk_locked = True, lk_cpu = Some c\<rparr>"
  shows "waker ch lk (on_cpu j f s) = Spin"
proof -
  note J = other_cpuD [OF assms(1)]
  let ?a = "acquired j lk (on_cpu j f s)"
  have a: "acquire lk (on_cpu j f s) = (if lk_locked (locks s lk) then Spin else Ok () ?a)"
    using acquire_eval [OF J(2,1), of lk] J(3) assms(3) by auto
  have "0 \<le> ncli (cpus s j)" using assms(1) by (simp add: other_cpu_def)
  then have ok: "cpu_ok ?a" "found ?a = Some j" using J(1) by (simp_all add: cpu_ok_def)
  have "wakeup ch ?a = Spin" if "locks s L_ptable = \<lparr>lk_locked = True, lk_cpu = Some c\<rparr>"
    using acquire_eval [OF ok, of L_ptable] that assms(2) J(3) by (simp add: wakeup_def kseq_def kbind_def)
  then show ?thesis using a assms(3) by (auto simp: waker_def kseq_def kbind_def)
qed

lemma waker_wakes:
  assumes "other_cpu c j f s" "lk \<noteq> L_ptable" "\<not> lk_locked (locks s lk)" "\<not> lk_locked (locks s L_ptable)"
  shows "\<exists>t. waker ch lk (on_cpu j f s) = Ok () t \<and> ptable t = woken_table ch (ptable s)"
proof -
  note J = other_cpuD [OF assms(1)]
  let ?a = "acquired j lk (on_cpu j f s)"
  have a: "acquire lk (on_cpu j f s) = Ok () ?a" using acquire_eval [OF J(2,1), of lk] assms(3) by simp
  have "0 \<le> ncli (cpus s j)" using assms(1) by (simp add: other_cpu_def)
  then have ok: "cpu_ok ?a" "found ?a = Some j" "\<not> lk_locked (locks ?a L_ptable)" using J(1) assms(2,4) by (simp_all add: cpu_ok_def)
  have "ptable ?a = ptable s" by (simp add: acquired_def pushed_def on_cpu_def)
  with wakeup_eval [OF ok, of ch] show ?thesis using a by (auto simp: waker_def kseq_def kbind_def)
qed

text \<open>The states \<open>sleep\<close> goes through before it gives up the CPU.\<close>

lemma sleep_enter_states:
  assumes "found s = Some c" "ncli (cpus s c) = 1" "\<not> fl_if s" "locks s lk = \<lparr>lk_locked = True, lk_cpu = Some c\<rparr>"
    and "lk \<noteq> L_ptable" "\<not> lk_locked (locks s L_ptable)"
  shows "\<exists>t. kfor (take k (sleep_enter lk)) id s = Ok () t \<and> cpus_kept c s t
    \<and> (locks t lk = \<lparr>lk_locked = True, lk_cpu = Some c\<rparr>
      \<or> locks t lk = \<lparr>lk_locked = False, lk_cpu = None\<rparr> \<and> locks t L_ptable = \<lparr>lk_locked = True, lk_cpu = Some c\<rparr>)"
proof -
  let ?a = "acquired c L_ptable s"
  let ?b = "popped c (?a\<lparr>locks := (locks ?a)(lk := \<lparr>lk_locked = False, lk_cpu = None\<rparr>)\<rparr>)"
  have ok: "cpu_ok s" using assms by (simp add: cpu_ok_def)
  have a: "acquire L_ptable s = Ok () ?a" using assms ok by (simp add: acquire_eval)
  have b: "release lk ?a = Ok () ?b" using assms by (subst release_eval [where c = c]) auto
  have e: "sleep_enter lk = [acquire L_ptable, release lk]" using assms(5) by (simp add: sleep_enter_def)
  consider "k = 0" | "k = 1" | "2 \<le> k" by linarith
  then show ?thesis
  proof cases
    case 1
    then show ?thesis using assms(4) by (intro exI [of _ s]) (simp add: cpus_kept_def)
  next
    case 2
    then show ?thesis using a assms(4,5) unfolding e
      by (intro exI [of _ ?a]) (simp add: kseq_def kbind_def cpus_kept_def, simp add: acquired_def pushed_def)
  next
    case 3
    then show ?thesis using a b assms(4,5) unfolding e
      by (intro exI [of _ ?b]) (simp add: kseq_def kbind_def cpus_kept_def, simp add: popped_def Let_def acquired_def pushed_def)
  qed
qed

text \<open>
  C2. No wakeup is lost.  A process \<open>p\<close> running on CPU \<open>c\<close> calls \<open>sleep(ch, lk)\<close> inside the
  critical section of \<open>lk\<close>; a waker on another CPU takes \<open>lk\<close> and calls \<open>wakeup(ch)\<close>.  In every
  state \<open>sleep\<close> goes through before the process is marked (after each of the lock operations of
  \<open>sleep_enter\<close>), and in the state in which it gives up the CPU, the waker spins; once the scheduler
  has released \<open>ptable.lock\<close> the waker runs to its end and makes \<open>p\<close> RUNNABLE.  So there is no
  moment at which a wakeup can pass by a process that is about to sleep.
\<close>

theorem no_lost_wakeup:
  assumes "found s = Some c" and "cproc (cpus s c) = Some p" and "p < NPROC" and "ncli (cpus s c) = 1" and "\<not> fl_if s"
    and "locks s lk = \<lparr>lk_locked = True, lk_cpu = Some c\<rparr>" and "lk \<noteq> L_ptable" and "\<not> lk_locked (locks s L_ptable)"
    and "other_cpu c j f s"
  shows "(\<forall>k. \<exists>t. kfor (take k (sleep_enter lk)) id s = Ok () t
      \<and> kseq (acquire lk) (wakeup ch) (on_cpu j f t) = Spin)
    \<and> (\<exists>t u v. sleep ch lk s = Switch t \<and> p_state (ptable t p) = SLEEPING
      \<and> kseq (acquire lk) (wakeup ch) (on_cpu j f t) = Spin
      \<and> release L_ptable t = Ok () u \<and> kseq (acquire lk) (wakeup ch) (on_cpu j f u) = Ok () v
      \<and> p_state (ptable v p) = RUNNABLE)"
proof (intro conjI allI)
  fix k
  show "\<exists>t. kfor (take k (sleep_enter lk)) id s = Ok () t \<and> kseq (acquire lk) (wakeup ch) (on_cpu j f t) = Spin"
    using sleep_enter_states [OF assms(1,4,5,6,7,8), of k] waker_spins [OF other_cpu_kept [OF _ assms(9)] assms(7), unfolded waker_def]
    by blast
next
  obtain t where t: "sleep ch lk s = Switch t"
    "ptable t = (ptable s)(p := (ptable s p)\<lparr>p_chan := Some ch, p_state := SLEEPING\<rparr>)"
    "locks t = (locks s)(L_ptable := \<lparr>lk_locked = True, lk_cpu = Some c\<rparr>, lk := \<lparr>lk_locked = False, lk_cpu = None\<rparr>)"
    "found t = Some c" "ncli (cpus t c) = 1" "\<not> fl_if t" "cpus_kept c s t"
    using sleep_eval [OF assms(1,2,4-8), of ch] unfolding cpus_kept_def by blast
  let ?u = "popped c (t\<lparr>locks := (locks t)(L_ptable := \<lparr>lk_locked = False, lk_cpu = None\<rparr>)\<rparr>)"
  have u: "release L_ptable t = Ok () ?u" using t(3-6) assms(7) by (subst release_eval [where c = c]) auto
  have "cpus_kept c t ?u" by (simp add: cpus_kept_def popped_def Let_def)
  then have ou: "other_cpu c j f ?u" using other_cpu_kept t(7) assms(9) by blast
  have spin: "waker ch lk (on_cpu j f t) = Spin"
    using waker_spins [OF other_cpu_kept [OF t(7) assms(9)] assms(7)] t(3) assms(7) by simp
  obtain v where v: "waker ch lk (on_cpu j f ?u) = Ok () v" "ptable v = woken_table ch (ptable ?u)"
    using waker_wakes [OF ou assms(7)] t(3) assms(7) by auto
  have "ptable ?u = ptable t" by (simp add: popped_def Let_def)
  then have "p_state (ptable v p) = RUNNABLE" using v(2) t(2) assms(3) by (simp add: woken_table_def woken_def)
  then show "\<exists>t u v. sleep ch lk s = Switch t \<and> p_state (ptable t p) = SLEEPING
      \<and> kseq (acquire lk) (wakeup ch) (on_cpu j f t) = Spin
      \<and> release L_ptable t = Ok () u \<and> kseq (acquire lk) (wakeup ch) (on_cpu j f u) = Ok () v \<and> p_state (ptable v p) = RUNNABLE"
    using t(1,2) u spin v(1) unfolding waker_def by (intro exI [of _ t] exI [of _ ?u] exI [of _ v]) simp
qed

text \<open>Two CPUs; process 0 runs on CPU 0 and holds the log's lock.\<close>

definition demo_two_st :: proc_st where
  "demo_two_st = demo_proc_st\<lparr>ncpu := 2,
     cpus := (\<lambda>i. \<lparr>apicid = i, ncli = (if i = 0 then 1 else 0), intena = True, cproc = (if i = 0 then Some 0 else None)\<rparr>)\<rparr>"

theorem no_lost_wakeup_witness:
  "\<exists>t u v. sleep ChLog L_log demo_two_st = Switch t
    \<and> kseq (acquire L_log) (wakeup ChLog) (on_cpu 1 True t) = Spin
    \<and> release L_ptable t = Ok () u \<and> kseq (acquire L_log) (wakeup ChLog) (on_cpu 1 True u) = Ok () v
    \<and> p_state (ptable v 0) = RUNNABLE"
proof -
  have f: "found demo_two_st = Some 0" by (simp add: demo_two_st_def demo_proc_st_def found_def upt_rec)
  have "other_cpu 0 1 True demo_two_st" by (simp add: other_cpu_def apics_ok_def demo_two_st_def inj_on_def)
  from no_lost_wakeup [OF f, of 0 L_log 1 True ChLog, OF _ _ _ _ _ _ _ this] show ?thesis
    by (auto simp: demo_two_st_def demo_proc_st_def NPROC_def)
qed

end
