(* ===== verification/Sleeplock.thy ===== *)
theory Sleeplock
  imports Proc
begin

text \<open>
  Sleep locks (\<open>sleeplock.c\<close>): the long-term locks of buffers and inodes.  A sleep lock is
  named by the object it is embedded in; its inner spin lock and its sleep channel are those
  of that object.
\<close>

section \<open>State and operations\<close>

datatype slockid = SL_buf nat | SL_inode nat

record sleeplock =
  sl_locked :: bool
  sl_pid :: int

record sleep_st = proc_st +
  slocks :: "slockid \<Rightarrow> sleeplock"

fun sl_lk :: "slockid \<Rightarrow> lockid" where
  "sl_lk (SL_buf i) = L_buf i"
| "sl_lk (SL_inode i) = L_inode i"

fun sl_chan :: "slockid \<Rightarrow> chan" where
  "sl_chan (SL_buf i) = ChBufLock i"
| "sl_chan (SL_inode i) = ChInodeLock i"

definition upd_slock :: "slockid \<Rightarrow> (sleeplock \<Rightarrow> sleeplock) \<Rightarrow> (unit, 'x sleep_st_scheme) kern" where
  "upd_slock k f = kmod (\<lambda>s. s\<lparr>slocks := (slocks s)(k := f (slocks s k))\<rparr>)"

definition initsleeplock :: "slockid \<Rightarrow> (unit, 'x sleep_st_scheme) kern" where
  "initsleeplock k =
     kseq (initlock (sl_lk k)) (
     kseq (upd_slock k (\<lambda>r. r\<lparr>sl_locked := False\<rparr>))
          (upd_slock k (\<lambda>r. r\<lparr>sl_pid := 0\<rparr>)))"

text \<open>\<open>while (lk->locked) sleep(lk, &lk->lk);\<close>: a locked lock puts the caller to sleep; when
  the thread runs again the test is repeated, which is the call of \<open>acquiresleep_loop\<close> on the
  state of that moment.\<close>

definition acquiresleep_loop :: "slockid \<Rightarrow> (unit, 'x sleep_st_scheme) kern" where
  "acquiresleep_loop k =
     kbind (kget (\<lambda>s. sl_locked (slocks s k))) (\<lambda>b.
     if b then sleep (sl_chan k) (sl_lk k)
     else
       kseq (upd_slock k (\<lambda>r. r\<lparr>sl_locked := True\<rparr>)) (
       kbind curproc (\<lambda>p.
       kbind (kget (\<lambda>s. p_pid (ptable s p))) (\<lambda>pid.
       kseq (upd_slock k (\<lambda>r. r\<lparr>sl_pid := pid\<rparr>))
            (release (sl_lk k))))))"

definition acquiresleep :: "slockid \<Rightarrow> (unit, 'x sleep_st_scheme) kern" where
  "acquiresleep k = kseq (acquire (sl_lk k)) (acquiresleep_loop k)"

definition releasesleep :: "slockid \<Rightarrow> (unit, 'x sleep_st_scheme) kern" where
  "releasesleep k =
     kseq (acquire (sl_lk k)) (
     kseq (upd_slock k (\<lambda>r. r\<lparr>sl_locked := False\<rparr>)) (
     kseq (upd_slock k (\<lambda>r. r\<lparr>sl_pid := 0\<rparr>)) (
     kseq (wakeup (sl_chan k))
          (release (sl_lk k)))))"

definition holdingsleep :: "slockid \<Rightarrow> (bool, 'x sleep_st_scheme) kern" where
  "holdingsleep k =
     kseq (acquire (sl_lk k)) (
     kbind curproc (\<lambda>p.
     kbind (kget (\<lambda>s. sl_locked (slocks s k) \<and> sl_pid (slocks s k) = p_pid (ptable s p))) (\<lambda>r.
     kseq (release (sl_lk k)) (kret r))))"

section \<open>What the operations do\<close>

text \<open>Below the sleep locks, an operation that returns changes nothing a thread can rely on
  except that sleepers may have become runnable.\<close>

definition thread_frame :: "'x proc_st_scheme \<Rightarrow> 'y proc_st_scheme \<Rightarrow> bool" where
  "thread_frame s t \<longleftrightarrow> found t = found s \<and> cur t = cur s \<and> nextpid t = nextpid s
     \<and> initproc t = initproc s \<and> ticks t = ticks s
     \<and> (\<forall>i. \<exists>st. ptable t i = (ptable s i)\<lparr>p_state := st\<rparr>)"

lemma cpu_sleep_st [simp]:
  "found (s\<lparr>slocks := k\<rparr>) = found s" "cur (s\<lparr>slocks := k\<rparr>) = cur s"
  "cpu_ok (s\<lparr>slocks := k\<rparr>) = cpu_ok s"
  by (simp_all add: found_def cur_def cpu_ok_def split: option.split)

lemma p_state_idem [simp]: "\<exists>st. r = (r :: proc)\<lparr>p_state := st\<rparr>"
  by (rule exI [of _ "p_state r"]) simp

lemma thread_frame_refl [simp]: "thread_frame s s"
  by (simp add: thread_frame_def)

lemma thread_frame_trans [trans]:
  assumes "thread_frame s t" "thread_frame t u" shows "thread_frame s u"
proof -
  have "\<exists>st. ptable u i = (ptable s i)\<lparr>p_state := st\<rparr>" for i
  proof -
    obtain a where "ptable t i = (ptable s i)\<lparr>p_state := a\<rparr>"
      using assms(1) unfolding thread_frame_def by blast
    moreover obtain b where "ptable u i = (ptable t i)\<lparr>p_state := b\<rparr>"
      using assms(2) unfolding thread_frame_def by blast
    ultimately show ?thesis by auto
  qed
  then show ?thesis using assms by (simp add: thread_frame_def)
qed

lemma thread_frame_procD:
  assumes "thread_frame s t"
  shows "p_pid (ptable t i) = p_pid (ptable s i)" "p_cwd (ptable t i) = p_cwd (ptable s i)"
    "p_killed (ptable t i) = p_killed (ptable s i)" "p_ofile (ptable t i) = p_ofile (ptable s i)"
    "p_tf (ptable t i) = p_tf (ptable s i)" "p_sz (ptable t i) = p_sz (ptable s i)"
    "p_blocked (ptable t i) = p_blocked (ptable s i)" "p_name (ptable t i) = p_name (ptable s i)"
proof -
  obtain a where "ptable t i = (ptable s i)\<lparr>p_state := a\<rparr>"
    using assms unfolding thread_frame_def by blast
  then show "p_pid (ptable t i) = p_pid (ptable s i)" "p_cwd (ptable t i) = p_cwd (ptable s i)"
    "p_killed (ptable t i) = p_killed (ptable s i)" "p_ofile (ptable t i) = p_ofile (ptable s i)"
    "p_tf (ptable t i) = p_tf (ptable s i)" "p_sz (ptable t i) = p_sz (ptable s i)"
    "p_blocked (ptable t i) = p_blocked (ptable s i)" "p_name (ptable t i) = p_name (ptable s i)"
    by simp_all
qed

lemma thread_frame_curD: "thread_frame s t \<Longrightarrow> cur t = cur s"
  by (simp add: thread_frame_def)

lemma thread_frame_cpu: "cpu_frame s t \<Longrightarrow> thread_frame s t"
  using cpu_frame_proc_st [of s t]
  by (simp add: thread_frame_def cpu_frame_def)

lemma thread_frame_wakeup: "wakeup ch s = Ok u t \<Longrightarrow> thread_frame s t"
  using wakeup_Ok [of ch s u t]
  by (auto simp: thread_frame_def woken_table_def woken_def)

lemma thread_frame_slocks [simp]:
  "thread_frame s (t\<lparr>slocks := k\<rparr>) = thread_frame s t"
  "thread_frame (s\<lparr>slocks := k\<rparr>) t = thread_frame s t"
  by (simp_all add: thread_frame_def)

lemma sleep_st_more:
  "proc_st.more t = proc_st.more s \<longleftrightarrow> slocks t = slocks s \<and> sleep_st.more t = sleep_st.more s"
  by (cases s, cases t) auto

lemma acquire_thread:
  assumes "acquire l s = Ok u t"
  shows "thread_frame s t" "slocks t = slocks s" "sleep_st.more t = sleep_st.more s"
proof -
  have f: "cpu_frame s t" by (rule acquire_Ok [OF assms])
  show "thread_frame s t" by (rule thread_frame_cpu [OF f])
  show "slocks t = slocks s" "sleep_st.more t = sleep_st.more s"
    using cpu_frame_proc_st(5) [OF f] by (simp_all add: sleep_st_more)
qed

lemma release_thread:
  assumes "release l s = Ok u t"
  shows "thread_frame s t" "slocks t = slocks s" "sleep_st.more t = sleep_st.more s"
proof -
  have f: "cpu_frame s t" by (rule release_Ok [OF assms])
  show "thread_frame s t" by (rule thread_frame_cpu [OF f])
  show "slocks t = slocks s" "sleep_st.more t = sleep_st.more s"
    using cpu_frame_proc_st(5) [OF f] by (simp_all add: sleep_st_more)
qed

lemma wakeup_thread:
  assumes "wakeup ch s = Ok u t"
  shows "thread_frame s t" "slocks t = slocks s" "sleep_st.more t = sleep_st.more s"
  using thread_frame_wakeup [OF assms] wakeup_Ok(3) [OF assms] by (simp_all add: sleep_st_more)

lemma curproc_Ok:
  assumes "curproc s = Ok p t"
  shows "cur s = Some p" "thread_frame s t" "proc_st.more t = proc_st.more s"
proof -
  from assms have m: "myproc s = Ok (Some p) t"
    by (auto simp: curproc_def kbind_eq_Ok split: option.splits)
  show "cur s = Some p" using myproc_Ok(3) [OF m] by simp
  show "thread_frame s t" by (rule thread_frame_cpu [OF myproc_Ok(1) [OF m]])
  show "proc_st.more t = proc_st.more s"
    by (rule cpu_frame_proc_st(5) [OF myproc_Ok(1) [OF m]])
qed

lemma sleep_not_Ok: "sleep ch lk s \<noteq> Ok u t"
  by (auto simp: sleep_unfold sched_def kbind_eq_Ok kseq_eq_Ok kwhen_eq_Ok split: option.splits if_splits)

lemma acquiresleep_Ok:
  assumes "acquiresleep k s = Ok u t"
  shows "thread_frame s t" "sleep_st.more t = sleep_st.more s" "\<not> sl_locked (slocks s k)"
    "\<exists>p. cur s = Some p \<and> slocks t = (slocks s)(k := \<lparr>sl_locked = True, sl_pid = p_pid (ptable s p)\<rparr>)"
proof -
  from assms obtain a b p where a: "acquire (sl_lk k) s = Ok () a"
    and free: "\<not> sl_locked (slocks a k)"
    and b: "curproc (a\<lparr>slocks := (slocks a)(k := (slocks a k)\<lparr>sl_locked := True\<rparr>)\<rparr>) = Ok p b"
    and r: "release (sl_lk k) (b\<lparr>slocks := (slocks b)(k := (slocks b k)\<lparr>sl_pid := p_pid (ptable b p)\<rparr>)\<rparr>)
              = Ok () t"
    by (auto simp: acquiresleep_def acquiresleep_loop_def kseq_eq_Ok kbind_eq_Ok upd_slock_def
        sleep_not_Ok split: if_splits)
  note A = acquire_thread [OF a] and B = curproc_Ok [OF b] and R = release_thread [OF r]
  show tf: "thread_frame s t"
    using A(1) B(2) R(1) by (auto intro: thread_frame_trans)
  have sb: "slocks b = (slocks s)(k := (slocks s k)\<lparr>sl_locked := True\<rparr>)"
    "sleep_st.more b = sleep_st.more s"
    using B(3) A(2,3) by (simp_all add: sleep_st_more)
  show "sleep_st.more t = sleep_st.more s" using sb R(3) by simp
  show "\<not> sl_locked (slocks s k)" using free A(2) by simp
  have "cur s = Some p" using B(1) A(1) by (simp add: thread_frame_def)
  moreover have "p_pid (ptable b p) = p_pid (ptable s p)"
    using A(1) B(2) by (simp add: thread_frame_procD)
  ultimately show "\<exists>p. cur s = Some p
      \<and> slocks t = (slocks s)(k := \<lparr>sl_locked = True, sl_pid = p_pid (ptable s p)\<rparr>)"
    using R(2) sb by (auto intro!: exI [of _ p])
qed

lemma releasesleep_Ok:
  assumes "releasesleep k s = Ok u t"
  shows "thread_frame s t" "sleep_st.more t = sleep_st.more s"
    "slocks t = (slocks s)(k := \<lparr>sl_locked = False, sl_pid = 0\<rparr>)"
proof -
  from assms obtain a b where a: "acquire (sl_lk k) s = Ok () a"
    and b: "wakeup (sl_chan k) (a\<lparr>slocks := (slocks a)(k := (slocks a k)\<lparr>sl_locked := False,
              sl_pid := 0\<rparr>)\<rparr>) = Ok () b"
    and r: "release (sl_lk k) b = Ok () t"
    by (auto simp: releasesleep_def kseq_eq_Ok kbind_eq_Ok upd_slock_def)
  note A = acquire_thread [OF a] and B = wakeup_thread [OF b] and R = release_thread [OF r]
  show "thread_frame s t" using A(1) B(1) R(1) by (auto intro: thread_frame_trans)
  show "sleep_st.more t = sleep_st.more s" using A B R by simp
  show "slocks t = (slocks s)(k := \<lparr>sl_locked = False, sl_pid = 0\<rparr>)"
    using A B R by simp (cases "slocks s k", simp)
qed

lemma holdingsleep_Ok:
  assumes "holdingsleep k s = Ok r t"
  shows "thread_frame s t" "sleep_st.more t = sleep_st.more s" "slocks t = slocks s"
    "\<exists>p. cur s = Some p \<and> (r \<longleftrightarrow> sl_locked (slocks s k) \<and> sl_pid (slocks s k) = p_pid (ptable s p))"
proof -
  from assms obtain a b p where a: "acquire (sl_lk k) s = Ok () a" and b: "curproc a = Ok p b"
    and rv: "r \<longleftrightarrow> sl_locked (slocks b k) \<and> sl_pid (slocks b k) = p_pid (ptable b p)"
    and r: "release (sl_lk k) b = Ok () t"
    by (auto simp: holdingsleep_def kseq_eq_Ok kbind_eq_Ok)
  note A = acquire_thread [OF a] and B = curproc_Ok [OF b] and R = release_thread [OF r]
  show "thread_frame s t" using A(1) B(2) R(1) by (auto intro: thread_frame_trans)
  show "sleep_st.more t = sleep_st.more s" "slocks t = slocks s"
    using A B(3) R by (simp_all add: sleep_st_more)
  have "cur s = Some p" using B(1) A(1) by (simp add: thread_frame_def)
  moreover have "p_pid (ptable b p) = p_pid (ptable s p)"
    using A(1) B(2) by (simp add: thread_frame_procD)
  moreover have "slocks b = slocks s" using A(2) B(3) by (simp add: sleep_st_more)
  ultimately show "\<exists>p. cur s = Some p
      \<and> (r \<longleftrightarrow> sl_locked (slocks s k) \<and> sl_pid (slocks s k) = p_pid (ptable s p))"
    using rv by auto
qed

section \<open>Total correctness: threads that hold a set of locks\<close>

text \<open>The running thread holds exactly the spin locks \<open>L\<close>, with one nested \<open>pushcli\<close> for
  each and interrupts off while there is one.\<close>

definition thread_in :: "lockid set \<Rightarrow> 'x cpu_state_scheme \<Rightarrow> bool" where
  "thread_in L s \<longleftrightarrow> (\<exists>c p. found s = Some c \<and> cproc (cpus s c) = Some p \<and> finite L
     \<and> ncli (cpus s c) = int (card L) \<and> (L \<noteq> {} \<longrightarrow> \<not> fl_if s)
     \<and> (\<forall>l. lk_locked (locks s l) = (l \<in> L)) \<and> (\<forall>l \<in> L. lk_cpu (locks s l) = Some c))"

lemma thread_in_cur: "thread_in L s \<Longrightarrow> \<exists>p. cur s = Some p"
  by (auto simp: thread_in_def cur_def)

lemma acquire_in:
  assumes "thread_in L s" "l \<notin> L"
  shows "\<exists>t. acquire l s = Ok () t \<and> thread_in (insert l L) t"
proof -
  from assms(1) obtain c p where *: "found s = Some c" "cproc (cpus s c) = Some p" "finite L"
      "ncli (cpus s c) = int (card L)" "L \<noteq> {} \<longrightarrow> \<not> fl_if s"
      "\<forall>l. lk_locked (locks s l) = (l \<in> L)" "\<forall>l \<in> L. lk_cpu (locks s l) = Some c"
    by (auto simp: thread_in_def)
  have "cpu_ok s" using * by (auto simp: cpu_ok_def)
  then have "acquire l s = Ok () (acquired c l s)" using * assms(2) by (simp add: acquire_eval)
  moreover have "thread_in (insert l L) (acquired c l s)"
    unfolding thread_in_def using * assms(2)
    by - (rule exI [of _ c], rule exI [of _ p], auto simp: acquired_def)
  ultimately show ?thesis by blast
qed

lemma release_in:
  assumes "thread_in L s" "l \<in> L"
  shows "\<exists>t. release l s = Ok () t \<and> thread_in (L - {l}) t"
proof -
  from assms(1) obtain c p where *: "found s = Some c" "cproc (cpus s c) = Some p" "finite L"
      "ncli (cpus s c) = int (card L)" "L \<noteq> {} \<longrightarrow> \<not> fl_if s"
      "\<forall>l. lk_locked (locks s l) = (l \<in> L)" "\<forall>l \<in> L. lk_cpu (locks s l) = Some c"
    by (auto simp: thread_in_def)
  let ?t = "popped c (s\<lparr>locks := (locks s)(l := \<lparr>lk_locked = False, lk_cpu = None\<rparr>)\<rparr>)"
  have pos: "0 < card L" using * assms(2) by (auto simp: card_gt_0_iff)
  then have "release l s = Ok () ?t"
    using * assms(2) by (subst release_eval [where c = c]) auto
  moreover have "thread_in (L - {l}) ?t"
    unfolding thread_in_def
  proof (rule exI [of _ c], rule exI [of _ p], intro conjI)
    show "L - {l} \<noteq> {} \<longrightarrow> \<not> fl_if ?t"
    proof
      assume "L - {l} \<noteq> {}"
      then have "0 < card (L - {l})" using * by (simp add: card_gt_0_iff)
      then have "1 < card L" using * assms(2) by (simp add: card_Diff_singleton)
      then show "\<not> fl_if ?t" using * assms(2) by (auto simp: popped_def Let_def)
    qed
  qed (use * assms(2) pos in \<open>auto simp: card_Diff_singleton\<close>)
  ultimately show ?thesis by blast
qed

lemma myproc_in:
  assumes "thread_in L s"
  shows "\<exists>p t. myproc s = Ok (Some p) t \<and> thread_in L t"
proof -
  from assms(1) obtain c p where *: "found s = Some c" "cproc (cpus s c) = Some p" "finite L"
      "ncli (cpus s c) = int (card L)" "L \<noteq> {} \<longrightarrow> \<not> fl_if s"
      "\<forall>l. lk_locked (locks s l) = (l \<in> L)" "\<forall>l \<in> L. lk_cpu (locks s l) = Some c"
    by (auto simp: thread_in_def)
  have "myproc s = Ok (Some p) (popped c (pushed c s))"
    using * by (simp add: myproc_def kseq_def kbind_def pushcli_eval mycpu_eval popcli_eval)
  moreover have "L \<noteq> {} \<Longrightarrow> 0 < card L" using * by (simp add: card_gt_0_iff)
  then have "thread_in L (popped c (pushed c s))"
    unfolding thread_in_def using *
    by - (rule exI [of _ c], rule exI [of _ p], auto simp: popped_def pushed_def Let_def)
  ultimately show ?thesis by blast
qed

lemma thread_in_proc_st [simp]:
  "thread_in L (s\<lparr>ptable := pt\<rparr>) = thread_in L s"
  "thread_in L (q\<lparr>slocks := k\<rparr>) = thread_in L q"
  by (simp_all add: thread_in_def)

lemma curproc_in:
  assumes "thread_in L s"
  shows "\<exists>p t. curproc s = Ok p t \<and> thread_in L t"
  using myproc_in [OF assms] by (auto simp: curproc_def kbind_def)

lemma wakeup_in:
  assumes "thread_in L s" "L_ptable \<notin> L"
  shows "\<exists>t. wakeup ch s = Ok () t \<and> thread_in L t"
proof -
  obtain a where a: "acquire L_ptable s = Ok () a" "thread_in (insert L_ptable L) a"
    using acquire_in [OF assms] by blast
  let ?w = "a\<lparr>ptable := woken_table ch (ptable a)\<rparr>"
  obtain t where "release L_ptable ?w = Ok () t" "thread_in (insert L_ptable L - {L_ptable}) t"
    using release_in [of "insert L_ptable L" ?w L_ptable] a(2) by auto
  then show ?thesis using a(1) assms(2)
    by (auto simp: wakeup_def kseq_def kbind_def wakeup1_eval intro!: exI [of _ t])
qed

lemma sl_lk_ptable [simp]: "sl_lk k \<noteq> L_ptable" "L_ptable \<noteq> sl_lk k"
  by (cases k; simp)+

lemma acquiresleep_in:
  assumes "thread_in L s" "sl_lk k \<notin> L" "\<not> sl_locked (slocks s k)"
  shows "\<exists>t. acquiresleep k s = Ok () t \<and> thread_in L t"
proof -
  obtain a where a: "acquire (sl_lk k) s = Ok () a" "thread_in (insert (sl_lk k) L) a"
    using acquire_in [OF assms(1,2)] by blast
  have "\<not> sl_locked (slocks a k)" using acquire_thread(2) [OF a(1)] assms(3) by simp
  let ?a = "a\<lparr>slocks := (slocks a)(k := (slocks a k)\<lparr>sl_locked := True\<rparr>)\<rparr>"
  obtain p b where b: "curproc ?a = Ok p b" "thread_in (insert (sl_lk k) L) b"
    using curproc_in [of "insert (sl_lk k) L" ?a] a(2) by auto
  let ?b = "b\<lparr>slocks := (slocks b)(k := (slocks b k)\<lparr>sl_pid := p_pid (ptable b p)\<rparr>)\<rparr>"
  obtain t where "release (sl_lk k) ?b = Ok () t" "thread_in (insert (sl_lk k) L - {sl_lk k}) t"
    using release_in [of "insert (sl_lk k) L" ?b "sl_lk k"] b(2) by auto
  then show ?thesis using a(1) b(1) assms(2) \<open>\<not> sl_locked (slocks a k)\<close>
    by (auto simp: acquiresleep_def acquiresleep_loop_def kseq_def kbind_def upd_slock_def
        intro!: exI [of _ t])
qed

lemma releasesleep_in:
  assumes "thread_in L s" "sl_lk k \<notin> L" "L_ptable \<notin> L"
  shows "\<exists>t. releasesleep k s = Ok () t \<and> thread_in L t"
proof -
  obtain a where a: "acquire (sl_lk k) s = Ok () a" "thread_in (insert (sl_lk k) L) a"
    using acquire_in [OF assms(1,2)] by blast
  let ?a = "a\<lparr>slocks := (slocks a)(k := (slocks a k)\<lparr>sl_locked := False, sl_pid := 0\<rparr>)\<rparr>"
  obtain b where b: "wakeup (sl_chan k) ?a = Ok () b" "thread_in (insert (sl_lk k) L) b"
    using wakeup_in [of "insert (sl_lk k) L" ?a] a(2) assms(3) by auto
  obtain t where "release (sl_lk k) b = Ok () t" "thread_in (insert (sl_lk k) L - {sl_lk k}) t"
    using release_in [of "insert (sl_lk k) L" b "sl_lk k"] b(2) by auto
  then show ?thesis using a(1) b(1) assms(2)
    by (auto simp: releasesleep_def kseq_def kbind_def upd_slock_def intro!: exI [of _ t])
qed

lemma holdingsleep_in:
  assumes "thread_in L s" "sl_lk k \<notin> L"
  shows "\<exists>r t. holdingsleep k s = Ok r t \<and> thread_in L t"
proof -
  obtain a where a: "acquire (sl_lk k) s = Ok () a" "thread_in (insert (sl_lk k) L) a"
    using acquire_in [OF assms(1,2)] by blast
  obtain p b where b: "curproc a = Ok p b" "thread_in (insert (sl_lk k) L) b"
    using curproc_in [of "insert (sl_lk k) L" a] a(2) by auto
  obtain t where "release (sl_lk k) b = Ok () t" "thread_in (insert (sl_lk k) L - {sl_lk k}) t"
    using release_in [of "insert (sl_lk k) L" b "sl_lk k"] b(2) by auto
  then show ?thesis using a(1) b(1) assms(2)
    by (auto simp: holdingsleep_def kseq_def kbind_def intro!: exI [of _ t])
qed

text \<open>
  A sleep lock keeps a long critical section: a running process that holds no spin lock and
  finds the sleep lock free gets it, \<open>holdingsleep\<close> then says so, \<open>releasesleep\<close> returns and
  \<open>holdingsleep\<close> is false again; no spin lock is left held, and every other sleep lock is as
  before.
\<close>

theorem sleeplock_section:
  assumes "thread_in {} s" and "\<not> sl_locked (slocks s k)"
  shows "\<exists>t u v w. acquiresleep k s = Ok () t \<and> holdingsleep k t = Ok True u
    \<and> releasesleep k u = Ok () v \<and> holdingsleep k v = Ok False w \<and> thread_in {} w
    \<and> slocks w = (slocks s)(k := \<lparr>sl_locked = False, sl_pid = 0\<rparr>)"
proof -
  obtain t where t: "acquiresleep k s = Ok () t" "thread_in {} t"
    using acquiresleep_in [OF assms(1) _ assms(2)] by auto
  obtain a u where u: "holdingsleep k t = Ok a u" "thread_in {} u"
    using holdingsleep_in [OF t(2)] by blast
  obtain v where v: "releasesleep k u = Ok () v" "thread_in {} v"
    using releasesleep_in [OF u(2)] by blast
  obtain b w where w: "holdingsleep k v = Ok b w" "thread_in {} w"
    using holdingsleep_in [OF v(2)] by blast
  note T = acquiresleep_Ok [OF t(1)] and U = holdingsleep_Ok [OF u(1)]
    and V = releasesleep_Ok [OF v(1)] and W = holdingsleep_Ok [OF w(1)]
  have "a" using T(4) U(4) thread_frame_curD [OF T(1)] thread_frame_procD(1) [OF T(1)]
    by auto
  moreover have "\<not> b" using W(4) V(3) by auto
  moreover have "slocks w = (slocks s)(k := \<lparr>sl_locked = False, sl_pid = 0\<rparr>)"
    using T(4) U(3) V(3) W(3) by auto
  ultimately show ?thesis using t(1) u(1) v(1) w by auto
qed

definition demo_sleep_st :: sleep_st where
  "demo_sleep_st = \<lparr>ncpu = 1, cpus = demo_cpu True 0, lapic_id = 0, fl_if = True,
     locks = (\<lambda>_. \<lparr>lk_locked = False, lk_cpu = None\<rparr>),
     ptable = (\<lambda>_. zero_proc)(0 := zero_proc\<lparr>p_state := RUNNING, p_pid := 1\<rparr>),
     nextpid = 2, initproc = Some 0, ticks = 0,
     slocks = (\<lambda>_. \<lparr>sl_locked = False, sl_pid = 0\<rparr>)\<rparr>"

theorem sleeplock_section_witness:
  "\<exists>t u v w. acquiresleep (SL_buf 3) demo_sleep_st = Ok () t \<and> holdingsleep (SL_buf 3) t = Ok True u
    \<and> releasesleep (SL_buf 3) u = Ok () v \<and> holdingsleep (SL_buf 3) v = Ok False w \<and> thread_in {} w
    \<and> slocks w = (slocks demo_sleep_st)(SL_buf 3 := \<lparr>sl_locked = False, sl_pid = 0\<rparr>)"
  by (rule sleeplock_section)
    (simp_all add: thread_in_def demo_sleep_st_def demo_cpu_def found_def)

section \<open>Lock operations inside a thread, with what they leave alone\<close>

lemma acquire_frame:
  assumes "thread_in L s" "l \<notin> L"
  shows "\<exists>t. acquire l s = Ok () t \<and> thread_in (insert l L) t \<and> cpu_frame s t"
  using acquire_in [OF assms] acquire_Ok by blast

lemma release_frame:
  assumes "thread_in L s" "l \<in> L"
  shows "\<exists>t. release l s = Ok () t \<and> thread_in (L - {l}) t \<and> cpu_frame s t"
  using release_in [OF assms] release_Ok by blast

lemma curproc_frame:
  assumes "thread_in L s" "cur s = Some p"
  shows "\<exists>t. curproc s = Ok p t \<and> thread_in L t \<and> cpu_frame s t"
proof -
  obtain q t where t: "myproc s = Ok (Some q) t" "thread_in L t" using myproc_in [OF assms(1)] by blast
  then have "cpu_frame s t" "Some q = cur s" using myproc_Ok by blast+
  then show ?thesis using t assms(2) by (auto simp: curproc_def kbind_def)
qed

end
