(* ===== verification/Bio.thy ===== *)
theory Bio
  imports Sleeplock
begin

text \<open>
  The buffer cache (\<open>bio.c\<close>, \<open>buf.h\<close>) over the in-memory disk driver (\<open>memide.c\<close>).  Buffers are
  numbered \<open>0..NBUF-1\<close>; the list head \<open>bcache.head\<close> is the entry \<open>HEAD = NBUF\<close>, so the
  pointers \<open>prev\<close> and \<open>next\<close> are indices.  The disk is an array of blocks; \<open>disk_writes\<close>
  records, oldest first, every block the driver has stored, so that a crash (a prefix of that
  history) can be stated.
\<close>

section \<open>Data\<close>

definition BSIZE :: nat where [const_defs]: "BSIZE = 512"
definition MAXOPBLOCKS :: nat where [const_defs]: "MAXOPBLOCKS = 10"
definition NBUF :: nat where [const_defs]: "NBUF = MAXOPBLOCKS * 3"
definition HEAD :: nat where [const_defs]: "HEAD = NBUF"
definition B_VALID :: u32 where [const_defs]: "B_VALID = 0x2"
definition B_DIRTY :: u32 where [const_defs]: "B_DIRTY = 0x4"

type_synonym block = "u8 list"

record buf =
  b_flags :: u32
  b_dev :: u32
  b_blockno :: u32
  b_refcnt :: u32
  b_prev :: nat
  b_next :: nat
  b_data :: block

record bio_st = sleep_st +
  bufs :: "nat \<Rightarrow> buf"
  memdisk :: "nat \<Rightarrow> block"
  disksize :: nat
  disk_writes :: "(nat \<times> block) list"

definition upd_buf :: "nat \<Rightarrow> (buf \<Rightarrow> buf) \<Rightarrow> (unit, 'x bio_st_scheme) kern" where
  "upd_buf b f = kmod (\<lambda>s. s\<lparr>bufs := (bufs s)(b := f (bufs s b))\<rparr>)"

section \<open>The disk driver memide.c\<close>

definition disk_put :: "nat \<Rightarrow> block \<Rightarrow> 'x bio_st_scheme \<Rightarrow> 'x bio_st_scheme" where
  "disk_put n d s = s\<lparr>memdisk := (memdisk s)(n := d), disk_writes := disk_writes s @ [(n, d)]\<rparr>"

definition iderw :: "nat \<Rightarrow> (unit, 'x bio_st_scheme) kern" where
  "iderw b =
     kbind (holdingsleep (SL_buf b)) (\<lambda>h.
     if \<not> h then kpanic ''iderw: buf not locked''
     else kbind (kget (\<lambda>s. bufs s b)) (\<lambda>r.
     if b_flags r AND (B_VALID OR B_DIRTY) = B_VALID then kpanic ''iderw: nothing to do''
     else if b_dev r \<noteq> 1 then kpanic ''iderw: request not for disk 1''
     else kbind (kget disksize) (\<lambda>sz.
     if sz \<le> unat (b_blockno r) then kpanic ''iderw: block out of range''
     else kseq
       (if b_flags r AND B_DIRTY \<noteq> 0 then
          kseq (upd_buf b (\<lambda>r. r\<lparr>b_flags := b_flags r AND NOT B_DIRTY\<rparr>))
               (kmod (\<lambda>s. disk_put (unat (b_blockno r)) (b_data r) s))
        else kmod (\<lambda>s. s\<lparr>bufs := (bufs s)(b := (bufs s b)\<lparr>b_data := memdisk s (unat (b_blockno r))\<rparr>)\<rparr>))
       (upd_buf b (\<lambda>r. r\<lparr>b_flags := b_flags r OR B_VALID\<rparr>)))))"

section \<open>The buffer cache bio.c\<close>

definition binit :: "(unit, 'x bio_st_scheme) kern" where
  "binit =
     kseq (initlock L_bcache) (
     kseq (upd_buf HEAD (\<lambda>h. h\<lparr>b_prev := HEAD\<rparr>)) (
     kseq (upd_buf HEAD (\<lambda>h. h\<lparr>b_next := HEAD\<rparr>))
     (kfor [0..<NBUF] (\<lambda>b.
        kbind (kget (\<lambda>s. b_next (bufs s HEAD))) (\<lambda>n.
        kseq (upd_buf b (\<lambda>r. r\<lparr>b_next := n\<rparr>)) (
        kseq (upd_buf b (\<lambda>r. r\<lparr>b_prev := HEAD\<rparr>)) (
        kseq (initsleeplock (SL_buf b)) (
        kbind (kget (\<lambda>s. b_next (bufs s HEAD))) (\<lambda>n.
        kseq (upd_buf n (\<lambda>r. r\<lparr>b_prev := b\<rparr>))
             (upd_buf HEAD (\<lambda>h. h\<lparr>b_next := b\<rparr>)))))))))))"

text \<open>\<open>for(b = first; b != &bcache.head; b = nx(b)) if(P(b)) ...\<close>.  A list that never comes
  back to the head makes the C loop run forever; here it runs out of fuel and spins.  On the
  cache's ring \<open>NBUF\<close> steps are enough (\<open>bscan_path\<close> below).\<close>

fun bscan :: "nat \<Rightarrow> (buf \<Rightarrow> nat) \<Rightarrow> (buf \<Rightarrow> bool) \<Rightarrow> nat \<Rightarrow> (nat option, 'x bio_st_scheme) kern" where
  "bscan n nx P b =
     (if b = HEAD then kret None
      else case n of
        0 \<Rightarrow> kspin
      | Suc m \<Rightarrow> kbind (kget (\<lambda>s. bufs s b)) (\<lambda>r.
          if P r then kret (Some b) else bscan m nx P (nx r)))"

declare bscan.simps [simp del]

definition bget :: "u32 \<Rightarrow> u32 \<Rightarrow> (nat, 'x bio_st_scheme) kern" where
  "bget dev blockno =
     kseq (acquire L_bcache) (
     kbind (kget (\<lambda>s. b_next (bufs s HEAD))) (\<lambda>b0.
     kbind (bscan NBUF b_next (\<lambda>r. b_dev r = dev \<and> b_blockno r = blockno) b0) (\<lambda>hit.
     case hit of
       Some b \<Rightarrow>
         kseq (upd_buf b (\<lambda>r. r\<lparr>b_refcnt := b_refcnt r + 1\<rparr>)) (
         kseq (release L_bcache) (
         kseq (acquiresleep (SL_buf b)) (kret b)))
     | None \<Rightarrow>
         kbind (kget (\<lambda>s. b_prev (bufs s HEAD))) (\<lambda>b1.
         kbind (bscan NBUF b_prev (\<lambda>r. b_refcnt r = 0 \<and> b_flags r AND B_DIRTY = 0) b1) (\<lambda>free.
         case free of
           Some b \<Rightarrow>
             kseq (upd_buf b (\<lambda>r. r\<lparr>b_dev := dev, b_blockno := blockno, b_flags := 0, b_refcnt := 1\<rparr>)) (
             kseq (release L_bcache) (
             kseq (acquiresleep (SL_buf b)) (kret b)))
         | None \<Rightarrow> kpanic ''bget: no buffers'')))))"

definition bread :: "u32 \<Rightarrow> u32 \<Rightarrow> (nat, 'x bio_st_scheme) kern" where
  "bread dev blockno =
     kbind (bget dev blockno) (\<lambda>b.
     kbind (kget (\<lambda>s. b_flags (bufs s b))) (\<lambda>fl.
     kseq (kwhen (fl AND B_VALID = 0) (iderw b)) (kret b)))"

definition bwrite :: "nat \<Rightarrow> (unit, 'x bio_st_scheme) kern" where
  "bwrite b =
     kbind (holdingsleep (SL_buf b)) (\<lambda>h.
     if \<not> h then kpanic ''bwrite''
     else kseq (upd_buf b (\<lambda>r. r\<lparr>b_flags := b_flags r OR B_DIRTY\<rparr>)) (iderw b))"

text \<open>No one is waiting for the buffer: \<open>brelse\<close> moves it to the head of the list.\<close>

definition lru_move :: "nat \<Rightarrow> (unit, 'x bio_st_scheme) kern" where
  "lru_move b =
     kbind (kget (\<lambda>s. bufs s b)) (\<lambda>r.
     kseq (upd_buf (b_next r) (\<lambda>x. x\<lparr>b_prev := b_prev r\<rparr>)) (
     kbind (kget (\<lambda>s. bufs s b)) (\<lambda>r.
     kseq (upd_buf (b_prev r) (\<lambda>x. x\<lparr>b_next := b_next r\<rparr>)) (
     kbind (kget (\<lambda>s. b_next (bufs s HEAD))) (\<lambda>n.
     kseq (upd_buf b (\<lambda>x. x\<lparr>b_next := n\<rparr>)) (
     kseq (upd_buf b (\<lambda>x. x\<lparr>b_prev := HEAD\<rparr>)) (
     kbind (kget (\<lambda>s. b_next (bufs s HEAD))) (\<lambda>n.
     kseq (upd_buf n (\<lambda>x. x\<lparr>b_prev := b\<rparr>))
          (upd_buf HEAD (\<lambda>x. x\<lparr>b_next := b\<rparr>))))))))))"

definition brelse :: "nat \<Rightarrow> (unit, 'x bio_st_scheme) kern" where
  "brelse b =
     kbind (holdingsleep (SL_buf b)) (\<lambda>h.
     if \<not> h then kpanic ''brelse''
     else
       kseq (releasesleep (SL_buf b)) (
       kseq (acquire L_bcache) (
       kseq (upd_buf b (\<lambda>r. r\<lparr>b_refcnt := b_refcnt r - 1\<rparr>)) (
       kbind (kget (\<lambda>s. b_refcnt (bufs s b))) (\<lambda>n.
       kseq (kwhen (n = 0) (lru_move b))
         (release L_bcache))))))"

text \<open>\<open>memmove(b->data + off, src, n)\<close> and reads of \<open>b->data\<close> by the callers.\<close>

definition buf_data :: "nat \<Rightarrow> (block, 'x bio_st_scheme) kern" where
  "buf_data b = kget (\<lambda>s. b_data (bufs s b))"

definition buf_store :: "nat \<Rightarrow> block \<Rightarrow> (unit, 'x bio_st_scheme) kern" where
  "buf_store b d = upd_buf b (\<lambda>r. r\<lparr>b_data := d\<rparr>)"

section \<open>The ring of buffers\<close>

text \<open>\<open>links n p ys\<close>: along the nodes \<open>ys\<close> every \<open>next\<close> pointer leads to the following node
  and its \<open>prev\<close> pointer back.\<close>

fun links :: "(nat \<Rightarrow> nat) \<Rightarrow> (nat \<Rightarrow> nat) \<Rightarrow> nat list \<Rightarrow> bool" where
  "links n p (a # b # ys) \<longleftrightarrow> n a = b \<and> p b = a \<and> links n p (b # ys)"
| "links n p ys \<longleftrightarrow> True"

lemma links_append: "links n p (us @ a # vs) \<longleftrightarrow> links n p (us @ [a]) \<and> links n p (a # vs)"
proof (induction us)
  case (Cons u us)
  then show ?case by (cases us) auto
qed simp

lemma links_next_upd:
  "a \<notin> set (butlast ys) \<Longrightarrow> links (n(a := x)) p ys = links n p ys"
  by (induction n p ys rule: links.induct) auto

lemma links_prev_upd:
  "b \<notin> set (tl ys) \<Longrightarrow> links n (p(b := x)) ys = links n p ys"
  by (induction n p ys rule: links.induct) (auto split: list.splits)

lemma links_cong:
  "(\<And>a. a \<in> set (butlast ys) \<Longrightarrow> n a = n' a) \<Longrightarrow> (\<And>b. b \<in> set (tl ys) \<Longrightarrow> p b = p' b)
    \<Longrightarrow> links n p ys = links n' p' ys"
  by (induction n p ys rule: links.induct) (auto split: list.splits)

text \<open>\<open>ring B xs\<close>: \<open>xs\<close> are the buffers in the order of the list, most recently used first.\<close>

definition ring :: "(nat \<Rightarrow> buf) \<Rightarrow> nat list \<Rightarrow> bool" where
  "ring B xs \<longleftrightarrow> distinct xs \<and> set xs = {0..<NBUF}
     \<and> links (\<lambda>i. b_next (B i)) (\<lambda>i. b_prev (B i)) (HEAD # xs @ [HEAD])"

lemma HEAD_notin: "ring B xs \<Longrightarrow> HEAD \<notin> set xs"
  by (auto simp: ring_def HEAD_def)

lemma length_ring: "ring B xs \<Longrightarrow> length xs = NBUF"
  by (auto simp: ring_def dest: distinct_card)

text \<open>The order depends on the pointers only.\<close>

lemma ring_cong:
  assumes "\<And>i. b_next (B' i) = b_next (B i)" "\<And>i. b_prev (B' i) = b_prev (B i)"
  shows "ring B' xs = ring B xs"
  using assms by (simp add: ring_def)

text \<open>Walking the list by \<open>next\<close> meets \<open>xs\<close>, by \<open>prev\<close> meets it backwards.\<close>

fun walk :: "(nat \<Rightarrow> nat) \<Rightarrow> nat \<Rightarrow> nat list \<Rightarrow> bool" where
  "walk nx b [] \<longleftrightarrow> b = HEAD"
| "walk nx b (y # ys) \<longleftrightarrow> b = y \<and> y \<noteq> HEAD \<and> walk nx (nx y) ys"

lemma links_walk_next:
  "HEAD \<notin> set ys \<Longrightarrow> links n p (a # ys @ [HEAD]) \<Longrightarrow> walk n (n a) ys"
  by (induction ys arbitrary: a) auto

lemma links_rev: "links n p ys = links p n (rev ys)"
proof (induction n p ys rule: links.induct)
  case (1 n p a b ys)
  then show ?case by (auto simp: links_append [of p n "rev ys" b "[a]"])
qed auto

lemma ring_walk:
  assumes "ring B xs"
  shows "walk (\<lambda>i. b_next (B i)) (b_next (B HEAD)) xs"
    and "walk (\<lambda>i. b_prev (B i)) (b_prev (B HEAD)) (rev xs)"
proof -
  have l: "links (\<lambda>i. b_next (B i)) (\<lambda>i. b_prev (B i)) (HEAD # xs @ [HEAD])"
    and h: "HEAD \<notin> set xs"
    using assms HEAD_notin by (auto simp: ring_def)
  show "walk (\<lambda>i. b_next (B i)) (b_next (B HEAD)) xs"
    by (rule links_walk_next [OF h l])
  have "links (\<lambda>i. b_prev (B i)) (\<lambda>i. b_next (B i)) (HEAD # rev xs @ [HEAD])"
    using l by (subst (asm) links_rev) simp
  then show "walk (\<lambda>i. b_prev (B i)) (b_prev (B HEAD)) (rev xs)"
    using h by (intro links_walk_next) auto
qed

lemma bscan_path:
  assumes "walk (\<lambda>i. nx (bufs s i)) b ys" "length ys \<le> n"
  shows "bscan n nx P b s = Ok (find (\<lambda>i. P (bufs s i)) ys) s"
  using assms
proof (induction ys arbitrary: b n)
  case Nil
  then show ?case by (simp add: bscan.simps)
next
  case (Cons y ys)
  then show ?case by (cases n) (auto simp: bscan.simps)
qed

text \<open>The pointer surgery of \<open>brelse\<close>: take a buffer out of the list, and put it in front.\<close>

definition set_next :: "nat \<Rightarrow> nat \<Rightarrow> (nat \<Rightarrow> buf) \<Rightarrow> nat \<Rightarrow> buf" where
  "set_next a x B = B(a := (B a)\<lparr>b_next := x\<rparr>)"

definition set_prev :: "nat \<Rightarrow> nat \<Rightarrow> (nat \<Rightarrow> buf) \<Rightarrow> nat \<Rightarrow> buf" where
  "set_prev a x B = B(a := (B a)\<lparr>b_prev := x\<rparr>)"

definition unlinked :: "nat \<Rightarrow> (nat \<Rightarrow> buf) \<Rightarrow> nat \<Rightarrow> buf" where
  "unlinked b B = set_next (b_prev (B b)) (b_next (B b)) (set_prev (b_next (B b)) (b_prev (B b)) B)"

definition linked_own :: "nat \<Rightarrow> (nat \<Rightarrow> buf) \<Rightarrow> nat \<Rightarrow> buf" where
  "linked_own b B = set_prev b HEAD (set_next b (b_next (B HEAD)) B)"

definition linked_front :: "nat \<Rightarrow> (nat \<Rightarrow> buf) \<Rightarrow> nat \<Rightarrow> buf" where
  "linked_front b B = set_next HEAD b (set_prev (b_next (B HEAD)) b B)"

text \<open>The part of a buffer that is not its place in the list.\<close>

definition same_core :: "buf \<Rightarrow> buf \<Rightarrow> bool" where
  "same_core r r' \<longleftrightarrow> b_flags r' = b_flags r \<and> b_dev r' = b_dev r \<and> b_blockno r' = b_blockno r
     \<and> b_refcnt r' = b_refcnt r \<and> b_data r' = b_data r"

lemma same_core_refl [simp]: "same_core r r" by (simp add: same_core_def)
lemma same_core_trans [trans]: "same_core r r' \<Longrightarrow> same_core r' r'' \<Longrightarrow> same_core r r''"
  by (simp add: same_core_def)

lemma same_core_set [simp]:
  "same_core r (set_next a x B i) = same_core r (B i)"
  "same_core r (set_prev a x B i) = same_core r (B i)"
  by (simp_all add: same_core_def set_next_def set_prev_def)

definition to_front :: "nat \<Rightarrow> (nat \<Rightarrow> buf) \<Rightarrow> nat \<Rightarrow> buf" where
  "to_front b B = linked_front b (linked_own b (unlinked b B))"

lemma to_front_core: "same_core (B i) (to_front b B i)"
  by (simp add: to_front_def linked_front_def linked_own_def unlinked_def)

lemma set_next_ptr [simp]:
  "(\<lambda>i. b_next (set_next a x B i)) = (\<lambda>i. b_next (B i))(a := x)"
  "(\<lambda>i. b_prev (set_next a x B i)) = (\<lambda>i. b_prev (B i))"
  "(\<lambda>i. b_prev (set_prev a x B i)) = (\<lambda>i. b_prev (B i))(a := x)"
  "(\<lambda>i. b_next (set_prev a x B i)) = (\<lambda>i. b_next (B i))"
  by (auto simp: set_next_def set_prev_def)

lemma links_neighbours:
  assumes "links n p (us @ a # b # c # vs)"
  shows "links n p (us @ [a])" "links n p (c # vs)" "p b = a" "n b = c"
proof -
  have "links n p (us @ [a]) \<and> links n p (a # b # c # vs)"
    using assms by (simp only: links_append [of n p us a "b # c # vs"])
  then show "links n p (us @ [a])" "links n p (c # vs)" "p b = a" "n b = c" by simp_all
qed

lemma links_upd_both:
  assumes "a \<notin> set (butlast ys)" "c \<notin> set (tl ys)"
  shows "links (n(a := x)) (p(c := y)) ys = links n p ys"
  by (rule trans [OF links_next_upd [OF assms(1)] links_prev_upd [OF assms(2)]])

lemma links_take_out:
  assumes "links n p (us @ a # b # c # vs)" "a \<notin> set us" "a \<notin> set (butlast (c # vs))"
    "c \<notin> set vs" "c \<notin> set (tl (us @ [a]))"
  shows "links (n(a := c)) (p(c := a)) (us @ a # c # vs)"
proof -
  note L = links_neighbours [OF assms(1)]
  have "links (n(a := c)) (p(c := a)) (us @ [a])"
    using L(1) assms(2,5) by (subst links_upd_both) simp_all
  moreover have "links (n(a := c)) (p(c := a)) (c # vs)"
    using L(2) assms(3,4) by (subst links_upd_both) simp_all
  ultimately show ?thesis
    by (simp only: links_append [of _ _ us a "c # vs"]) simp
qed

lemma links_put_in:
  assumes "links n p (h # c # vs)" "b \<noteq> h" "b \<notin> set (c # vs)" "h \<notin> set (butlast (c # vs))"
    "c \<notin> set vs"
  shows "links (n(b := c, h := b)) (p(b := h, c := b)) (h # b # c # vs)"
proof -
  have b: "b \<notin> set (butlast (c # vs))" using assms(3) by (auto dest: in_set_butlastD)
  have l: "links n p (c # vs)" using assms(1) by simp
  have "links (n(b := c)) (p(b := h)) (c # vs)"
    using l assms(3) b by (subst links_upd_both) simp_all
  then have "links (n(b := c, h := b)) (p(b := h, c := b)) (c # vs)"
    using assms(4,5) by (subst links_upd_both) simp_all
  with assms(2,3) show ?thesis by simp
qed

lemma ring_split:
  obtains pre a c post where "HEAD # us @ b # vs @ [HEAD] = pre @ a # b # c # post"
    and "HEAD # us = pre @ [a]" and "vs @ [HEAD] = c # post"
proof -
  have "HEAD # us = butlast (HEAD # us) @ [last (HEAD # us)]"
    by (simp only: append_butlast_last_id [OF list.distinct(2)])
  moreover obtain c post where "vs @ [HEAD] = c # post" by (cases "vs @ [HEAD]") auto
  ultimately show thesis
    using that [of "butlast (HEAD # us)" "last (HEAD # us)" c post]
    by (metis append_Cons append_assoc append_Nil)
qed

abbreviation "nexts B \<equiv> \<lambda>i. b_next (B i)"
abbreviation "prevs B \<equiv> \<lambda>i. b_prev (B i)"

lemma links_unlinked:
  assumes "links (nexts B) (prevs B) (HEAD # us @ b # vs @ [HEAD])"
    and "distinct (us @ b # vs)" "HEAD \<notin> set (us @ b # vs)"
  shows "links (nexts (unlinked b B)) (prevs (unlinked b B)) (HEAD # us @ vs @ [HEAD])"
proof -
  obtain pre a c post where s: "HEAD # us @ b # vs @ [HEAD] = pre @ a # b # c # post"
    and pa: "HEAD # us = pre @ [a]" and cp: "vs @ [HEAD] = c # post"
    by (rule ring_split)
  have l: "links (nexts B) (prevs B) (pre @ a # b # c # post)" using assms(1) s by simp
  note L = links_neighbours [OF l]
  have u: "nexts (unlinked b B) = (nexts B)(a := c)" "prevs (unlinked b B) = (prevs B)(c := a)"
    using L(3,4) by (simp_all add: unlinked_def)
  have d1: "distinct (HEAD # us @ vs)" and d2: "distinct (us @ vs @ [HEAD])" using assms(2,3) by auto
  have "HEAD # us @ vs = pre @ [a] @ butlast (c # post)"
    using pa cp by (metis append_Cons append_assoc butlast_snoc)
  with d1 have a1: "a \<notin> set pre" "a \<notin> set (butlast (c # post))" by (simp_all only: distinct_append) auto
  have "us @ vs @ [HEAD] = tl (pre @ [a]) @ c # post" using pa cp by (metis list.sel(3))
  with d2 have c1: "c \<notin> set post" "c \<notin> set (tl (pre @ [a]))" by (simp_all only: distinct_append) auto
  have "HEAD # us @ vs @ [HEAD] = pre @ a # c # post"
    using pa cp by (metis append_Cons append_assoc append_Nil)
  then show ?thesis
    unfolding u using links_take_out [OF l a1 c1] by simp
qed

lemma links_front:
  assumes "links (nexts B) (prevs B) (HEAD # ys @ [HEAD])" "b \<noteq> HEAD" "b \<notin> set ys"
    "distinct ys" "HEAD \<notin> set ys"
  shows "links (nexts (linked_front b (linked_own b B))) (prevs (linked_front b (linked_own b B)))
           (HEAD # b # ys @ [HEAD])"
proof -
  obtain c post where cp: "ys @ [HEAD] = c # post" by (cases "ys @ [HEAD]") auto
  then have c: "b_next (B HEAD) = c" using assms(1) by (simp only:) simp
  have h: "b_next (linked_own b B HEAD) = c"
    using assms(2) c by (simp add: linked_own_def set_next_def set_prev_def)
  have ptr: "nexts (linked_front b (linked_own b B)) = (nexts B)(b := c, HEAD := b)"
    "prevs (linked_front b (linked_own b B)) = (prevs B)(b := HEAD, c := b)"
    using c h by (simp_all add: linked_front_def) (simp_all add: linked_own_def)
  have "b \<notin> set (c # post)" using assms(2,3) cp by (metis Un_iff empty_iff insert_iff list.set(1,2) set_append)
  moreover have "butlast (c # post) = ys" using cp by (metis butlast_snoc)
  moreover have "c \<notin> set post"
    using assms(4,5) cp by (metis distinct.simps(2) distinct1_rotate rotate1.simps(2))
  ultimately show ?thesis
    unfolding ptr cp using assms by (intro links_put_in) (simp_all add: cp)
qed

lemma ring_to_front:
  assumes "ring B (us @ b # vs)"
  shows "ring (to_front b B) (b # us @ vs)"
proof -
  have d: "distinct (us @ b # vs)" "set (us @ b # vs) = {0..<NBUF}"
    and l: "links (nexts B) (prevs B) (HEAD # us @ b # vs @ [HEAD])"
    using assms by (simp_all add: ring_def)
  have h: "HEAD \<notin> set (us @ b # vs)" using HEAD_notin [OF assms] .
  have "links (nexts (to_front b B)) (prevs (to_front b B)) (HEAD # b # (us @ vs) @ [HEAD])"
    unfolding to_front_def
    by (rule links_front) (use links_unlinked [OF l d(1) h] d(1) h in auto)
  with d show ?thesis by (auto simp: ring_def)
qed

lemma upd_buf_set [simp]:
  "upd_buf a (\<lambda>x. x\<lparr>b_prev := y\<rparr>) s = Ok () (s\<lparr>bufs := set_prev a y (bufs s)\<rparr>)"
  "upd_buf a (\<lambda>x. x\<lparr>b_next := y\<rparr>) s = Ok () (s\<lparr>bufs := set_next a y (bufs s)\<rparr>)"
  by (simp_all add: upd_buf_def set_prev_def set_next_def)

lemma set_prev_same [simp]:
  "b_prev (set_prev a (b_prev (B c)) B c) = b_prev (B c)"
  "b_next (set_prev a x B c) = b_next (B c)"
  by (simp_all add: set_prev_def)

lemma lru_move_eval: "lru_move b s = Ok () (s\<lparr>bufs := to_front b (bufs s)\<rparr>)"
  by (simp add: lru_move_def kseq_def kbind_def to_front_def linked_front_def linked_own_def unlinked_def)

section \<open>The invariant of the cache and its contents\<close>

definition valid :: "buf \<Rightarrow> bool" where
  "valid r \<longleftrightarrow> b_flags r AND B_VALID \<noteq> 0"

definition dirty :: "buf \<Rightarrow> bool" where
  "dirty r \<longleftrightarrow> b_flags r AND B_DIRTY \<noteq> 0"

definition locked_bufs :: "'x bio_st_scheme \<Rightarrow> nat \<Rightarrow> bool" where
  "locked_bufs s i = sl_locked (slocks s (SL_buf i))"

text \<open>The invariant is over the buffers, which of them are locked, the disk, and \<open>w i\<close>, the
  number of other threads that hold a reference to buffer \<open>i\<close> without its lock (they wait for
  it in \<open>acquiresleep\<close>).  A buffer's reference count is those threads and the holder of its
  lock; a block is in at most one buffer; a valid buffer nobody locked and \<open>log_write\<close> did not
  mark is a copy of its disk block.\<close>

definition cache_inv :: "(nat \<Rightarrow> nat) \<Rightarrow> (nat \<Rightarrow> buf) \<Rightarrow> (nat \<Rightarrow> bool) \<Rightarrow> (nat \<Rightarrow> block) \<Rightarrow> nat \<Rightarrow> bool" where
  "cache_inv w B lk D sz \<longleftrightarrow>
     (\<exists>xs. ring B xs)
   \<and> (\<forall>i < NBUF. \<forall>j < NBUF. b_dev (B i) = 1 \<and> b_dev (B j) = 1 \<and> b_blockno (B i) = b_blockno (B j) \<longrightarrow> i = j)
   \<and> (\<forall>i < NBUF. w i < NPROC \<and> unat (b_refcnt (B i)) = w i + (if lk i then 1 else 0))
   \<and> (\<forall>i < NBUF. dirty (B i) \<longrightarrow> valid (B i))
   \<and> (\<forall>i < NBUF. valid (B i) \<longrightarrow> b_dev (B i) = 1 \<and> unat (b_blockno (B i)) < sz \<and> length (b_data (B i)) = BSIZE)
   \<and> (\<forall>i < NBUF. valid (B i) \<and> \<not> dirty (B i) \<and> \<not> lk i \<longrightarrow> b_data (B i) = D (unat (b_blockno (B i))))
   \<and> (\<forall>n. length (D n) = BSIZE)"

definition bio_inv :: "(nat \<Rightarrow> nat) \<Rightarrow> 'x bio_st_scheme \<Rightarrow> bool" where
  "bio_inv w s = cache_inv w (bufs s) (locked_bufs s) (memdisk s) (disksize s)"

lemma cache_invD:
  assumes "cache_inv w B lk D sz"
  shows "\<exists>xs. ring B xs"
    "i < NBUF \<Longrightarrow> j < NBUF \<Longrightarrow> b_dev (B i) = 1 \<Longrightarrow> b_dev (B j) = 1
       \<Longrightarrow> b_blockno (B i) = b_blockno (B j) \<Longrightarrow> i = j"
    "i < NBUF \<Longrightarrow> w i < NPROC"
    "i < NBUF \<Longrightarrow> unat (b_refcnt (B i)) = w i + (if lk i then 1 else 0)"
    "i < NBUF \<Longrightarrow> dirty (B i) \<Longrightarrow> valid (B i)"
    "i < NBUF \<Longrightarrow> valid (B i) \<Longrightarrow> b_dev (B i) = 1"
    "i < NBUF \<Longrightarrow> valid (B i) \<Longrightarrow> unat (b_blockno (B i)) < sz"
    "i < NBUF \<Longrightarrow> valid (B i) \<Longrightarrow> length (b_data (B i)) = BSIZE"
    "i < NBUF \<Longrightarrow> valid (B i) \<Longrightarrow> \<not> dirty (B i) \<Longrightarrow> \<not> lk i \<Longrightarrow> b_data (B i) = D (unat (b_blockno (B i)))"
    "length (D n) = BSIZE"
  using assms unfolding cache_inv_def by blast+

lemma cache_invI:
  assumes "ring B xs"
    and "\<And>i j. i < NBUF \<Longrightarrow> j < NBUF \<Longrightarrow> b_dev (B i) = 1 \<Longrightarrow> b_dev (B j) = 1
       \<Longrightarrow> b_blockno (B i) = b_blockno (B j) \<Longrightarrow> i = j"
    and "\<And>i. i < NBUF \<Longrightarrow> w i < NPROC"
    and "\<And>i. i < NBUF \<Longrightarrow> unat (b_refcnt (B i)) = w i + (if lk i then 1 else 0)"
    and "\<And>i. i < NBUF \<Longrightarrow> dirty (B i) \<Longrightarrow> valid (B i)"
    and "\<And>i. i < NBUF \<Longrightarrow> valid (B i) \<Longrightarrow> b_dev (B i) = 1 \<and> unat (b_blockno (B i)) < sz
       \<and> length (b_data (B i)) = BSIZE"
    and "\<And>i. i < NBUF \<Longrightarrow> valid (B i) \<Longrightarrow> \<not> dirty (B i) \<Longrightarrow> \<not> lk i \<Longrightarrow> b_data (B i) = D (unat (b_blockno (B i)))"
    and "\<And>n. length (D n) = BSIZE"
  shows "cache_inv w B lk D sz"
  using assms unfolding cache_inv_def by blast

text \<open>The contents of block \<open>n\<close> as the kernel sees them: in its valid buffer, or on the disk.\<close>

definition holds :: "buf \<Rightarrow> nat \<Rightarrow> bool" where
  "holds r n \<longleftrightarrow> valid r \<and> unat (b_blockno r) = n"

definition cache_view :: "(nat \<Rightarrow> buf) \<Rightarrow> (nat \<Rightarrow> block) \<Rightarrow> nat \<Rightarrow> block" where
  "cache_view B D n = (case find (\<lambda>i. holds (B i) n) [0..<NBUF] of
     Some i \<Rightarrow> b_data (B i) | None \<Rightarrow> D n)"

definition view :: "'x bio_st_scheme \<Rightarrow> nat \<Rightarrow> block" where
  "view s = cache_view (bufs s) (memdisk s)"

lemma cache_view_hit:
  assumes "cache_inv w B lk D sz" "i < NBUF" "holds (B i) n"
  shows "cache_view B D n = b_data (B i)"
proof -
  obtain j where f: "find (\<lambda>i. holds (B i) n) [0..<NBUF] = Some j"
    using assms(2,3) by (cases "find (\<lambda>i. holds (B i) n) [0..<NBUF]") (auto simp: find_None_iff)
  then have "j < NBUF" "holds (B j) n" by (auto simp: find_Some_iff)
  then have "j = i"
    using cache_invD(2) [OF assms(1), of j i] cache_invD(6) [OF assms(1)] assms(2,3)
    by (auto simp: holds_def word_unat_eq_iff)
  with f show ?thesis by (simp add: cache_view_def)
qed

lemma cache_view_miss:
  assumes "\<And>i. i < NBUF \<Longrightarrow> \<not> holds (B i) n"
  shows "cache_view B D n = D n"
proof -
  have "find (\<lambda>i. holds (B i) n) [0..<NBUF] = None"
    using assms by (auto simp: find_None_iff)
  then show ?thesis by (simp add: cache_view_def)
qed

lemma length_cache_view: 
  assumes "cache_inv w B lk D sz"
  shows "length (cache_view B D n) = BSIZE"
  using cache_invD(8,10) [OF assms]
  by (auto simp: cache_view_def find_Some_iff holds_def split: option.split)

text \<open>Two states of the cache show the same contents if they agree block by block.\<close>

lemma cache_view_cong:
  assumes inv: "cache_inv w B lk D sz" "cache_inv w' B' lk' D' sz'"
    and hit: "\<And>i. i < NBUF \<Longrightarrow> holds (B' i) n \<Longrightarrow> b_data (B' i) = cache_view B D n"
    and miss: "(\<And>i. i < NBUF \<Longrightarrow> \<not> holds (B' i) n) \<Longrightarrow> D' n = cache_view B D n"
  shows "cache_view B' D' n = cache_view B D n"
proof (cases "\<exists>i < NBUF. holds (B' i) n")
  case True
  then obtain i where i: "i < NBUF" "holds (B' i) n" by blast
  then show ?thesis using cache_view_hit [OF inv(2) i] hit [OF i] by simp
next
  case False
  then have none: "\<And>i. i < NBUF \<Longrightarrow> \<not> holds (B' i) n" by blast
  show ?thesis by (simp add: cache_view_miss [OF none] miss [OF none])
qed

text \<open>Moves in the list change neither.\<close>

lemma same_coreD:
  assumes "same_core r r'"
  shows "b_flags r' = b_flags r" "b_dev r' = b_dev r" "b_blockno r' = b_blockno r"
    "b_refcnt r' = b_refcnt r" "b_data r' = b_data r" "valid r' = valid r" "dirty r' = dirty r"
    "holds r' n = holds r n"
  using assms by (simp_all add: same_core_def valid_def dirty_def holds_def)

lemma cache_view_core:
  assumes "\<And>i. same_core (B i) (B' i)"
  shows "cache_view B' D = cache_view B D"
  using same_coreD(8,5) [OF assms] by (simp add: cache_view_def fun_eq_iff split: option.split)

lemma cache_inv_core:
  assumes "cache_inv w B lk D sz" "\<And>i. same_core (B i) (B' i)" "\<exists>xs. ring B' xs"
  shows "cache_inv w B' lk D sz"
proof -
  note C = same_coreD [OF assms(2)]
  obtain xs where "ring B' xs" using assms(3) by blast
  then show ?thesis
    by (rule cache_invI) (use cache_invD [OF assms(1)] in \<open>simp_all add: C\<close>)
qed


text \<open>Replacing one buffer (its pointers aside), its lock, and its block on the disk.\<close>

lemma cache_inv_upd:
  assumes inv: "cache_inv w B lk D sz" and b: "b < NBUF"
    and ptr: "b_next r = b_next (B b)" "b_prev r = b_prev (B b)"
    and uniq: "b_dev r = 1 \<Longrightarrow> \<forall>i < NBUF. i \<noteq> b \<longrightarrow> b_dev (B i) = 1 \<longrightarrow> b_blockno (B i) \<noteq> b_blockno r"
    and ref: "unat (b_refcnt r) = w b + (if l then 1 else 0)"
    and dv: "dirty r \<Longrightarrow> valid r"
    and val: "valid r \<Longrightarrow> b_dev r = 1 \<and> unat (b_blockno r) < sz \<and> length (b_data r) = BSIZE"
    and clean: "valid r \<Longrightarrow> \<not> dirty r \<Longrightarrow> \<not> l \<Longrightarrow> b_data r = D' (unat (b_blockno r))"
    and disk: "\<And>n. D' n \<noteq> D n \<Longrightarrow> b_dev r = 1 \<and> n = unat (b_blockno r) \<and> length (D' n) = BSIZE"
  shows "cache_inv w (B(b := r)) (lk(b := l)) D' sz"
proof -
  note I = cache_invD [OF inv]
  obtain xs where "ring B xs" using I(1) by blast
  then have "ring (B(b := r)) xs" by (subst ring_cong [where B = B]) (simp_all add: ptr)
  then show ?thesis
  proof (rule cache_invI)
    fix i j assume "i < NBUF" "j < NBUF" "b_dev ((B(b := r)) i) = 1" "b_dev ((B(b := r)) j) = 1"
      "b_blockno ((B(b := r)) i) = b_blockno ((B(b := r)) j)"
    then show "i = j" using uniq I(2) [of i j] by (auto split: if_splits)
  next
    fix i assume i: "i < NBUF" "valid ((B(b := r)) i)" "\<not> dirty ((B(b := r)) i)" "\<not> (lk(b := l)) i"
    show "b_data ((B(b := r)) i) = D' (unat (b_blockno ((B(b := r)) i)))"
    proof (cases "i = b")
      case True
      then show ?thesis using i clean by simp
    next
      case False
      then have v: "b_dev (B i) = 1" "b_data (B i) = D (unat (b_blockno (B i)))"
        using i I(6) I(9) by simp_all
      have "D' (unat (b_blockno (B i))) = D (unat (b_blockno (B i)))"
      proof (rule ccontr)
        assume "D' (unat (b_blockno (B i))) \<noteq> D (unat (b_blockno (B i)))"
        from disk [OF this] uniq i(1) False v(1) show False by (auto simp: word_unat_eq_iff)
      qed
      with False v(2) show ?thesis by simp
    qed
  next
    fix n show "length (D' n) = BSIZE" using disk [of n] I(10) [of n] by (cases "D' n = D n") auto
  qed (use I b ref dv val in \<open>auto split: if_splits\<close>)
qed

lemma cache_view_upd:
  assumes inv: "cache_inv w B lk D sz" "cache_inv w' (B(b := r)) lk' D' sz'" and b: "b < NBUF"
    and val: "valid r \<Longrightarrow> b_data r = v (unat (b_blockno r))"
    and disk: "\<And>n. \<not> holds r n \<Longrightarrow> D' n = D n"
    and other: "\<And>n. \<not> holds r n \<Longrightarrow> v n = cache_view B D n"
    and drop: "valid (B b) \<Longrightarrow> \<not> holds r (unat (b_blockno (B b))) \<Longrightarrow> b_data (B b) = D (unat (b_blockno (B b)))"
  shows "cache_view (B(b := r)) D' = v"
proof
  fix n
  show "cache_view (B(b := r)) D' n = v n"
  proof (cases "holds r n")
    case True
    then have "cache_view (B(b := r)) D' n = b_data r"
      using cache_view_hit [OF inv(2) b] by simp
    also have "\<dots> = v n" using val True by (auto simp: holds_def)
    finally show ?thesis .
  next
    case False
    note n = False
    have "cache_view (B(b := r)) D' n = cache_view B D n"
    proof (rule cache_view_cong [OF inv])
      fix i assume "i < NBUF" "holds ((B(b := r)) i) n"
      with n have "i \<noteq> b" "holds (B i) n" by (auto split: if_splits)
      with cache_view_hit [OF inv(1) \<open>i < NBUF\<close>] show "b_data ((B(b := r)) i) = cache_view B D n" by simp
    next
      assume none: "\<And>i. i < NBUF \<Longrightarrow> \<not> holds ((B(b := r)) i) n"
      show "D' n = cache_view B D n"
      proof (cases "holds (B b) n")
        case True
        then have "valid (B b)" "n = unat (b_blockno (B b))" by (auto simp: holds_def)
        with drop n have "b_data (B b) = D n" by blast
        with cache_view_hit [OF inv(1) b True] disk [OF n] show ?thesis by simp
      next
        case False
        then have "\<And>i. i < NBUF \<Longrightarrow> \<not> holds (B i) n"
          using none by (metis fun_upd_other)
        then have "cache_view B D n = D n" by (rule cache_view_miss)
        with disk [OF n] show ?thesis by simp
      qed
    qed
    then show ?thesis using other n by simp
  qed
qed

lemma valid_bit: "valid r \<longleftrightarrow> bit (b_flags r) 1"
  using and_exp_eq_0_iff_not_bit [of "b_flags r" 1] by (simp add: valid_def B_VALID_def)

lemma dirty_bit: "dirty r \<longleftrightarrow> bit (b_flags r) 2"
  using and_exp_eq_0_iff_not_bit [of "b_flags r" 2] by (simp add: dirty_def B_DIRTY_def)

lemma flag_bits: "bit B_VALID n \<longleftrightarrow> n = 1" "bit B_DIRTY n \<longleftrightarrow> n = 2"
  using bit_exp_iff [where ?'a = "32 word", of 1 n] bit_exp_iff [where ?'a = "32 word", of 2 n]
  by (auto simp: B_VALID_def B_DIRTY_def possible_bit_word)

lemma nothing_to_do: "b_flags r AND (B_VALID OR B_DIRTY) = B_VALID \<longleftrightarrow> valid r \<and> \<not> dirty r"
proof
  assume *: "b_flags r AND (B_VALID OR B_DIRTY) = B_VALID"
  then have "bit (b_flags r AND (B_VALID OR B_DIRTY)) n = bit B_VALID n" for n by simp
  from this [of 1] this [of 2] show "valid r \<and> \<not> dirty r"
    by (simp add: valid_bit dirty_bit bit_and_iff bit_or_iff flag_bits)
next
  assume "valid r \<and> \<not> dirty r"
  then show "b_flags r AND (B_VALID OR B_DIRTY) = B_VALID"
    by (intro bit_word_eqI) (auto simp: valid_bit dirty_bit bit_and_iff bit_or_iff flag_bits)
qed

lemma flag_updates [simp]:
  "valid (r\<lparr>b_flags := f OR B_VALID\<rparr>)" 
  "dirty (r\<lparr>b_flags := f OR B_VALID\<rparr>) = dirty (r\<lparr>b_flags := f\<rparr>)"
  "\<not> dirty (r\<lparr>b_flags := f AND NOT B_DIRTY\<rparr>)"
  "dirty (r\<lparr>b_flags := f OR B_DIRTY\<rparr>)"
  "valid (r\<lparr>b_flags := f OR B_DIRTY\<rparr>) = valid (r\<lparr>b_flags := f\<rparr>)"
  "\<not> valid (r\<lparr>b_flags := 0\<rparr>)" "\<not> dirty (r\<lparr>b_flags := 0\<rparr>)"
  by (simp_all add: valid_bit dirty_bit bit_and_iff bit_or_iff bit_not_iff flag_bits)

lemma flag_other [simp]:
  "valid (r\<lparr>b_data := d\<rparr>) = valid r" "dirty (r\<lparr>b_data := d\<rparr>) = dirty r"
  "valid (r\<lparr>b_refcnt := k\<rparr>) = valid r" "dirty (r\<lparr>b_refcnt := k\<rparr>) = dirty r"
  "holds (r\<lparr>b_refcnt := k\<rparr>) n = holds r n" "holds (r\<lparr>b_data := d\<rparr>) n = holds r n"
  by (simp_all add: valid_def dirty_def holds_def)

section \<open>What the operations do\<close>

definition dset :: "(nat \<Rightarrow> buf) \<Rightarrow> nat set" where
  "dset B = {n. \<exists>i < NBUF. dirty (B i) \<and> unat (b_blockno (B i)) = n}"

text \<open>The running process holds buffer \<open>b\<close>; it is in step with the disk unless marked dirty.\<close>

definition held :: "'x bio_st_scheme \<Rightarrow> nat \<Rightarrow> bool" where
  "held s b \<longleftrightarrow> b < NBUF \<and> (\<exists>p. cur s = Some p
     \<and> slocks s (SL_buf b) = \<lparr>sl_locked = True, sl_pid = p_pid (ptable s p)\<rparr>)"

definition synced :: "'x bio_st_scheme \<Rightarrow> nat \<Rightarrow> bool" where
  "synced s b \<longleftrightarrow> (valid (bufs s b) \<longrightarrow> \<not> dirty (bufs s b) \<longrightarrow>
     b_data (bufs s b) = memdisk s (unat (b_blockno (bufs s b))))"

definition io_frame :: "nat \<Rightarrow> 'x bio_st_scheme \<Rightarrow> 'x bio_st_scheme \<Rightarrow> bool" where
  "io_frame b s t \<longleftrightarrow> thread_frame s t \<and> bio_st.more t = bio_st.more s \<and> disksize t = disksize s
     \<and> (\<forall>k. k \<noteq> SL_buf b \<longrightarrow> slocks t k = slocks s k)"

lemma bio_st_more:
  "sleep_st.more t = sleep_st.more s \<longleftrightarrow> bufs t = bufs s \<and> memdisk t = memdisk s
     \<and> disksize t = disksize s \<and> disk_writes t = disk_writes s \<and> bio_st.more t = bio_st.more s"
  by (cases s, cases t) auto

lemma cpu_bio_st [simp]:
  "found (s\<lparr>bufs := B\<rparr>) = found s" "cur (s\<lparr>bufs := B\<rparr>) = cur s"
  "thread_in L (s\<lparr>bufs := B\<rparr>) = thread_in L s"
  "found (disk_put n d s) = found s" "cur (disk_put n d s) = cur s" "thread_in L (disk_put n d s) = thread_in L s"
  by (simp_all add: found_def cur_def thread_in_def disk_put_def split: option.split)

lemma thread_frame_bufs [simp]:
  "thread_frame s (t\<lparr>bufs := B\<rparr>) = thread_frame s t"
  "thread_frame (s\<lparr>bufs := B\<rparr>) t = thread_frame s t"
  "thread_frame s (disk_put n d t) = thread_frame s t"
  by (simp_all add: thread_frame_def) (simp add: disk_put_def)

lemma io_frame_trans [trans]: "io_frame b s t \<Longrightarrow> io_frame b t u \<Longrightarrow> io_frame b s u"
  by (auto simp: io_frame_def intro: thread_frame_trans)

lemma io_frame_thread: "io_frame b s t \<Longrightarrow> thread_frame s t"
  by (simp add: io_frame_def)

lemma held_frame:
  assumes "thread_frame s t" "slocks t (SL_buf b) = slocks s (SL_buf b)"
  shows "held t b = held s b"
  using thread_frame_curD [OF assms(1)] thread_frame_procD(1) [OF assms(1)] assms(2)
  by (simp add: held_def)

lemma bufs_upd_more [simp]:
  "bio_st.more (s\<lparr>bufs := B\<rparr>) = bio_st.more s" "disksize (s\<lparr>bufs := B\<rparr>) = disksize s"
  "slocks (s\<lparr>bufs := B\<rparr>) = slocks s" "memdisk (s\<lparr>bufs := B\<rparr>) = memdisk s"
  "disk_writes (s\<lparr>bufs := B\<rparr>) = disk_writes s"
  by simp_all

text \<open>Taking a buffer's sleep lock with a reference in hand.\<close>

lemma acquire_buf:
  assumes "acquiresleep (SL_buf b) s = Ok u t" "b < NBUF"
  shows "thread_frame s t" "\<not> sl_locked (slocks s (SL_buf b))" "held t b" "io_frame b s t"
    "bufs t = bufs s" "memdisk t = memdisk s" "disk_writes t = disk_writes s" "disksize t = disksize s"
    "locked_bufs t = (locked_bufs s)(b := True)"
proof -
  note A = acquiresleep_Ok [OF assms(1)]
  show f: "thread_frame s t" and "\<not> sl_locked (slocks s (SL_buf b))" by (rule A)+
  show "bufs t = bufs s" "memdisk t = memdisk s" "disk_writes t = disk_writes s"
    and sz: "disksize t = disksize s"
    using A(2) by (simp_all add: bio_st_more)
  obtain p where p: "cur s = Some p" "slocks t = (slocks s)(SL_buf b :=
      \<lparr>sl_locked = True, sl_pid = p_pid (ptable s p)\<rparr>)" using A(4) by blast
  show "held t b" using p thread_frame_curD [OF f] thread_frame_procD(1) [OF f] assms(2)
    by (simp add: held_def)
  show "io_frame b s t" using f p A(2) by (simp add: io_frame_def bio_st_more)
  show "locked_bufs t = (locked_bufs s)(b := True)" using p(2) by (auto simp: locked_bufs_def fun_eq_iff)
qed

text \<open>What \<open>iderw\<close> does to a held buffer that passes its checks.\<close>

definition ide_buf :: "'x bio_st_scheme \<Rightarrow> nat \<Rightarrow> buf" where
  "ide_buf s b = (let r = bufs s b in
     if dirty r then r\<lparr>b_flags := (b_flags r AND NOT B_DIRTY) OR B_VALID\<rparr>
     else r\<lparr>b_flags := b_flags r OR B_VALID, b_data := memdisk s (unat (b_blockno r))\<rparr>)"

lemma iderw_eval:
  "iderw b s = kbind (holdingsleep (SL_buf b)) (\<lambda>h a.
     if \<not> h then Panic ''iderw: buf not locked''
     else if valid (bufs a b) \<and> \<not> dirty (bufs a b) then Panic ''iderw: nothing to do''
     else if b_dev (bufs a b) \<noteq> 1 then Panic ''iderw: request not for disk 1''
     else if disksize a \<le> unat (b_blockno (bufs a b)) then Panic ''iderw: block out of range''
     else Ok () (if dirty (bufs a b)
       then disk_put (unat (b_blockno (bufs a b))) (b_data (bufs a b)) (a\<lparr>bufs := (bufs a)(b := ide_buf a b)\<rparr>)
       else a\<lparr>bufs := (bufs a)(b := ide_buf a b)\<rparr>)) s"
  unfolding iderw_def
  by (rule arg_cong [where f = "\<lambda>f. kbind (holdingsleep (SL_buf b)) f s"])
    (auto simp: fun_eq_iff nothing_to_do kseq_def kbind_def upd_buf_def ide_buf_def Let_def disk_put_def
      dirty_def)

lemma iderw_Ok:
  assumes "iderw b s = Ok u t"
  shows "b < NBUF \<Longrightarrow> held s b" "\<not> (valid (bufs s b) \<and> \<not> dirty (bufs s b))" "b_dev (bufs s b) = 1"
    "unat (b_blockno (bufs s b)) < disksize s"
    "thread_frame s t" "slocks t = slocks s" "bio_st.more t = bio_st.more s" "disksize t = disksize s"
    "bufs t = (bufs s)(b := ide_buf s b)"
    "memdisk t = (if dirty (bufs s b) then (memdisk s)(unat (b_blockno (bufs s b)) := b_data (bufs s b)) else memdisk s)"
    "disk_writes t = (if dirty (bufs s b) then disk_writes s @ [(unat (b_blockno (bufs s b)), b_data (bufs s b))]
       else disk_writes s)"
proof -
  from assms obtain a where h: "holdingsleep (SL_buf b) s = Ok True a"
    and nd: "\<not> (valid (bufs a b) \<and> \<not> dirty (bufs a b))" and dev: "b_dev (bufs a b) = 1"
    and sz: "unat (b_blockno (bufs a b)) < disksize a"
    and t: "t = (if dirty (bufs a b)
       then disk_put (unat (b_blockno (bufs a b))) (b_data (bufs a b)) (a\<lparr>bufs := (bufs a)(b := ide_buf a b)\<rparr>)
       else a\<lparr>bufs := (bufs a)(b := ide_buf a b)\<rparr>)"
    by (auto simp: iderw_eval kbind_eq_Ok simp del: if_split split: if_splits)
  note H = holdingsleep_Ok [OF h]
  have m: "bufs a = bufs s" "memdisk a = memdisk s" "disksize a = disksize s"
    "disk_writes a = disk_writes s" "bio_st.more a = bio_st.more s"
    using H(2) by (simp_all add: bio_st_more)
  have i: "ide_buf a b = ide_buf s b" by (simp add: ide_buf_def m Let_def)
  obtain p where p: "cur s = Some p" "sl_locked (slocks s (SL_buf b))"
    "sl_pid (slocks s (SL_buf b)) = p_pid (ptable s p)" using H(4) by blast
  then have "slocks s (SL_buf b) = \<lparr>sl_locked = True, sl_pid = p_pid (ptable s p)\<rparr>"
    by (cases "slocks s (SL_buf b)") simp
  with p(1) show "b < NBUF \<Longrightarrow> held s b" by (simp add: held_def)
  show "\<not> (valid (bufs s b) \<and> \<not> dirty (bufs s b))" "b_dev (bufs s b) = 1"
    "unat (b_blockno (bufs s b)) < disksize s" using nd dev sz m by simp_all
  show "thread_frame s t" using H(1) by (simp add: t)
  show "slocks t = slocks s" "bio_st.more t = bio_st.more s" "disksize t = disksize s"
    "bufs t = (bufs s)(b := ide_buf s b)"
    "memdisk t = (if dirty (bufs s b) then (memdisk s)(unat (b_blockno (bufs s b)) := b_data (bufs s b)) else memdisk s)"
    "disk_writes t = (if dirty (bufs s b) then disk_writes s @ [(unat (b_blockno (bufs s b)), b_data (bufs s b))]
       else disk_writes s)"
    using H(3) m i by (simp_all add: t disk_put_def)
qed

text \<open>The two ways \<open>bget\<close> finds a buffer.\<close>

definition bget_hit :: "u32 \<Rightarrow> u32 \<Rightarrow> (nat \<Rightarrow> buf) \<Rightarrow> nat \<Rightarrow> bool" where
  "bget_hit dev n B b \<longleftrightarrow> b_dev (B b) = dev \<and> b_blockno (B b) = n"

definition bget_buf :: "u32 \<Rightarrow> u32 \<Rightarrow> buf \<Rightarrow> buf" where
  "bget_buf dev n r = (if b_dev r = dev \<and> b_blockno r = n then r\<lparr>b_refcnt := b_refcnt r + 1\<rparr>
     else r\<lparr>b_dev := dev, b_blockno := n, b_flags := 0, b_refcnt := 1\<rparr>)"

lemma find_ring:
  assumes "ring B xs" "find P ys = Some b" "set ys \<subseteq> set xs"
  shows "b < NBUF" "P b"
proof -
  have "b \<in> set ys" "P b" using assms(2) by (auto simp: find_Some_iff)
  with assms(1,3) show "b < NBUF" "P b" by (auto simp: ring_def)
qed

lemma bget_Ok_parts:
  assumes g: "bget dev n s = Ok b t" and inv: "bio_inv w s"
  shows "\<exists>a c. acquire L_bcache s = Ok () a \<and> b < NBUF
    \<and> (bget_hit dev n (bufs s) b \<or> (\<forall>i < NBUF. \<not> bget_hit dev n (bufs s) i)
        \<and> b_refcnt (bufs s b) = 0 \<and> \<not> dirty (bufs s b))
    \<and> release L_bcache (a\<lparr>bufs := (bufs s)(b := bget_buf dev n (bufs s b))\<rparr>) = Ok () c
    \<and> acquiresleep (SL_buf b) c = Ok () t"
proof -
  obtain xs where ring: "ring (bufs s) xs" using inv by (auto simp: bio_inv_def cache_inv_def)
  from g obtain a where a: "acquire L_bcache s = Ok () a"
    by (auto simp: bget_def kseq_eq_Ok)
  have B: "bufs a = bufs s" using acquire_thread(3) [OF a] by (simp add: bio_st_more)
  have n1: "bscan NBUF b_next P (b_next (bufs s HEAD)) a = Ok (find (\<lambda>i. P (bufs s i)) xs) a" for P
    using bscan_path [of b_next a _ xs NBUF P] ring_walk(1) [OF ring] length_ring [OF ring] B by simp
  have n2: "bscan NBUF b_prev P (b_prev (bufs s HEAD)) a = Ok (find (\<lambda>i. P (bufs s i)) (rev xs)) a" for P
    using bscan_path [of b_prev a _ "rev xs" NBUF P] ring_walk(2) [OF ring] length_ring [OF ring] B by simp
  let ?hit = "find (\<lambda>i. b_dev (bufs s i) = dev \<and> b_blockno (bufs s i) = n) xs"
  show ?thesis
  proof (cases ?hit)
    case (Some h)
    have h: "h < NBUF" "bget_hit dev n (bufs s) h"
      using find_ring [OF ring Some] by (auto simp: bget_hit_def)
    from g obtain c where "release L_bcache (a\<lparr>bufs := (bufs s)(h := (bufs s h)\<lparr>b_refcnt := b_refcnt (bufs s h) + 1\<rparr>)\<rparr>) = Ok () c"
      "acquiresleep (SL_buf h) c = Ok () t" "b = h"
      by (auto simp: bget_def kseq_def kbind_eq_Ok a n1 Some upd_buf_def B)
    with a h show ?thesis by (auto simp: bget_buf_def bget_hit_def)
  next
    case None
    then have none: "\<forall>i < NBUF. \<not> bget_hit dev n (bufs s) i"
      using ring by (auto simp: find_None_iff ring_def bget_hit_def)
    from g obtain h where h: "find (\<lambda>i. b_refcnt (bufs s i) = 0 \<and> b_flags (bufs s i) AND B_DIRTY = 0) (rev xs) = Some h"
      by (auto simp: bget_def kseq_def kbind_eq_Ok a n1 n2 None B split: option.splits)
    have hh: "h < NBUF" "b_refcnt (bufs s h) = 0" "\<not> dirty (bufs s h)"
      using find_ring [OF ring h] by (auto simp: dirty_def)
    have nb: "\<not> bget_hit dev n (bufs s) h" using none hh by blast
    from g obtain c where "release L_bcache (a\<lparr>bufs := (bufs s)(h := (bufs s h)\<lparr>b_dev := dev, b_blockno := n,
         b_flags := 0, b_refcnt := 1\<rparr>)\<rparr>) = Ok () c"
      "acquiresleep (SL_buf h) c = Ok () t" "b = h"
      by (auto simp: bget_def kseq_def kbind_eq_Ok a n1 n2 None h upd_buf_def B)
    with a hh nb none show ?thesis by (auto simp: bget_buf_def bget_hit_def)
  qed
qed


definition same_disk :: "'x bio_st_scheme \<Rightarrow> 'x bio_st_scheme \<Rightarrow> bool" where
  "same_disk s t \<longleftrightarrow> memdisk t = memdisk s \<and> disk_writes t = disk_writes s"

lemma same_disk_refl [simp]: "same_disk s s" by (simp add: same_disk_def)
lemma same_disk_trans [trans]: "same_disk s t \<Longrightarrow> same_disk t u \<Longrightarrow> same_disk s u"
  by (simp add: same_disk_def)

lemma dset_upd_same:
  assumes "dirty r = dirty (B b)" "dirty r \<Longrightarrow> b_blockno r = b_blockno (B b)"
  shows "dset (B(b := r)) = dset B"
  using assms unfolding dset_def by (intro set_eqI) (auto split: if_splits)

lemma bget_buf_props:
  assumes inv: "cache_inv w B lk D sz" and b: "b < NBUF" and nl: "\<not> lk b"
    and hit: "bget_hit 1 n B b \<or> (\<forall>i < NBUF. \<not> bget_hit 1 n B i) \<and> b_refcnt (B b) = 0 \<and> \<not> dirty (B b)"
  defines "r \<equiv> bget_buf 1 n (B b)"
  shows "cache_inv w (B(b := r)) (lk(b := True)) D sz"
    "cache_view (B(b := r)) D = cache_view B D" "dset (B(b := r)) = dset B"
    "b_dev r = 1" "b_blockno r = n"
    "valid r \<Longrightarrow> \<not> dirty r \<Longrightarrow> b_data r = D (unat n)"
proof -
  note I = cache_invD [OF inv]
  have ref: "unat (b_refcnt (B b)) = w b" "w b < NPROC" using I(3,4) [OF b] nl by simp_all
  have lt: "w b + 1 < 2 ^ 32" using ref by (simp add: NPROC_def)
  have r: "b_dev r = 1" "b_blockno r = n" "b_next r = b_next (B b)" "b_prev r = b_prev (B b)"
    by (simp_all add: r_def bget_buf_def)
  have hr: "bget_hit 1 n B b \<Longrightarrow> r = (B b)\<lparr>b_refcnt := b_refcnt (B b) + 1\<rparr>"
    "\<not> bget_hit 1 n B b \<Longrightarrow> \<not> valid r \<and> \<not> dirty r \<and> b_refcnt r = 1 \<and> w b = 0 \<and> \<not> dirty (B b)"
    using hit ref by (auto simp: r_def bget_buf_def bget_hit_def valid_def dirty_def)
  have rc: "unat (b_refcnt r) = w b + 1"
    using hr ref lt unat_add_nowrap32 [of "b_refcnt (B b)" 1] by (cases "bget_hit 1 n B b") auto
  have clean: "b_data (B b) = D (unat (b_blockno (B b)))" if "valid (B b)" "\<not> dirty (B b)"
    using I(9) [OF b that nl] .
  show inv': "cache_inv w (B(b := r)) (lk(b := True)) D sz"
  proof (rule cache_inv_upd [OF inv b r(3,4)])
    show "\<forall>i<NBUF. i \<noteq> b \<longrightarrow> b_dev (B i) = 1 \<longrightarrow> b_blockno (B i) \<noteq> b_blockno r"
      using hit I(2) [OF _ b] r by (auto simp: bget_hit_def)
    show "dirty r \<Longrightarrow> valid r" using hr I(5) [OF b] by (cases "bget_hit 1 n B b") auto
    show "valid r \<Longrightarrow> b_dev r = 1 \<and> unat (b_blockno r) < sz \<and> length (b_data r) = BSIZE"
      using hr r I(6-8) [OF b] by (cases "bget_hit 1 n B b") (auto simp: bget_hit_def)
  qed (use rc in auto)
  show "b_dev r = 1" "b_blockno r = n" by (rule r)+
  show d: "valid r \<Longrightarrow> \<not> dirty r \<Longrightarrow> b_data r = D (unat n)"
    using hr clean by (cases "bget_hit 1 n B b") (auto simp: bget_hit_def)
  show "cache_view (B(b := r)) D = cache_view B D"
  proof (rule cache_view_upd [OF inv inv' b])
    show "valid r \<Longrightarrow> b_data r = cache_view B D (unat (b_blockno r))"
    proof -
      assume v: "valid r"
      then have h: "bget_hit 1 n B b" using hr by blast
      then have "holds (B b) n'" if "n' = unat n" for n'
        using v hr that by (auto simp: holds_def bget_hit_def)
      from cache_view_hit [OF inv b this] show ?thesis
        using h hr r by simp
    qed
    assume vb: "valid (B b)" "\<not> holds r (unat (b_blockno (B b)))"
    then have "\<not> bget_hit 1 n B b" using hr by (auto simp: holds_def)
    with hr clean vb show "b_data (B b) = D (unat (b_blockno (B b)))" by blast
  qed simp_all
  show "dset (B(b := r)) = dset B"
    by (rule dset_upd_same) (use hr in \<open>cases "bget_hit 1 n B b"; auto\<close>)+
qed

lemma bget_Ok:
  assumes g: "bget 1 n s = Ok b t" and inv: "bio_inv w s"
  shows "bio_inv w t" "b < NBUF" "\<not> sl_locked (slocks s (SL_buf b))" "held t b" "io_frame b s t"
    "same_disk s t" "view t = view s" "dset (bufs t) = dset (bufs s)" "b_dev (bufs t b) = 1"
    "b_blockno (bufs t b) = n" "synced t b" "locked_bufs t = (locked_bufs s)(b := True)"
    "\<And>i. i \<noteq> b \<Longrightarrow> bufs t i = bufs s i"
proof -
  obtain a c where a: "acquire L_bcache s = Ok () a" and b: "b < NBUF"
    and hit: "bget_hit 1 n (bufs s) b \<or> (\<forall>i < NBUF. \<not> bget_hit 1 n (bufs s) i)
        \<and> b_refcnt (bufs s b) = 0 \<and> \<not> dirty (bufs s b)"
    and c: "release L_bcache (a\<lparr>bufs := (bufs s)(b := bget_buf 1 n (bufs s b))\<rparr>) = Ok () c"
    and q: "acquiresleep (SL_buf b) c = Ok () t"
    using bget_Ok_parts [OF g inv] by (elim exE conjE) (rule that)
  let ?r = "bget_buf 1 n (bufs s b)"
  note A = acquire_thread [OF a] and C = release_thread [OF c] and Q = acquire_buf [OF q b]
  have sc: "slocks c = slocks s" using A(2) C(2) by simp
  have fa: "memdisk a = memdisk s" "disk_writes a = disk_writes s"
    "disksize a = disksize s" "bio_st.more a = bio_st.more s" using A(3) by (simp_all add: bio_st_more)
  have fc: "bufs c = (bufs s)(b := ?r)" "memdisk c = memdisk s" "disk_writes c = disk_writes s"
    "disksize c = disksize s" "bio_st.more c = bio_st.more s"
    using C(3) fa by (simp_all add: bio_st_more)
  have f: "bufs t = (bufs s)(b := ?r)" "memdisk t = memdisk s" "disk_writes t = disk_writes s"
    "disksize t = disksize s" "bio_st.more t = bio_st.more s"
    using fc Q(4-8) by (simp_all add: io_frame_def)
  have nl: "\<not> locked_bufs s b" using Q(2) sc by (simp add: locked_bufs_def)
  then show "\<not> sl_locked (slocks s (SL_buf b))" by (simp add: locked_bufs_def)
  have lc: "locked_bufs c = locked_bufs s" using sc by (simp add: locked_bufs_def fun_eq_iff)
  show lk: "locked_bufs t = (locked_bufs s)(b := True)" using Q(9) lc by simp
  note P = bget_buf_props [OF inv [unfolded bio_inv_def] b nl hit]
  show "b < NBUF" "held t b" by (rule b Q)+
  show "bio_inv w t" using P(1) by (simp add: bio_inv_def f lk)
  show "same_disk s t" using f by (simp add: same_disk_def)
  show "view t = view s" using P(2) by (simp add: view_def f)
  show "dset (bufs t) = dset (bufs s)" using P(3) by (simp add: f)
  show "b_dev (bufs t b) = 1" "b_blockno (bufs t b) = n" using P(4,5) by (simp_all add: f)
  show "synced t b" using P(5,6) by (simp add: synced_def f)
  show "\<And>i. i \<noteq> b \<Longrightarrow> bufs t i = bufs s i" by (simp add: f)
  have "thread_frame s t" using A(1) C(1) Q(1) by (auto intro: thread_frame_trans)
  with Q(4) sc f show "io_frame b s t" by (simp add: io_frame_def)
qed

lemma held_lt: "held s b \<Longrightarrow> b < NBUF" by (simp add: held_def)
lemma held_locked: "held s b \<Longrightarrow> locked_bufs s b" by (auto simp: held_def locked_bufs_def)

text \<open>A held buffer is rewritten in place: its flags and data change, its lock stays.\<close>

lemma held_upd:
  assumes inv: "bio_inv w s" and h: "held s b" and lk: "locked_bufs t = locked_bufs s"
    and t: "bufs t = (bufs s)(b := r)" "disksize t = disksize s"
    and r: "b_next r = b_next (bufs s b)" "b_prev r = b_prev (bufs s b)" "b_dev r = 1"
      "b_dev (bufs s b) = 1" "b_blockno r = b_blockno (bufs s b)" "b_refcnt r = b_refcnt (bufs s b)"
      "valid r" "length (b_data r) = BSIZE" "unat (b_blockno r) < disksize s"
    and disk: "memdisk t = memdisk s \<or> memdisk t = (memdisk s)(unat (b_blockno r) := b_data r)"
  shows "bio_inv w t" "view t = (view s)(unat (b_blockno r) := b_data r)"
proof -
  note I = cache_invD [OF inv [unfolded bio_inv_def]]
  have b: "b < NBUF" by (rule held_lt [OF h])
  have lb: "locked_bufs t = (locked_bufs s)(b := True)" using held_locked [OF h] lk by (simp add: fun_upd_idem)
  have inv': "cache_inv w ((bufs s)(b := r)) ((locked_bufs s)(b := True)) (memdisk t) (disksize s)"
  proof (rule cache_inv_upd [OF inv [unfolded bio_inv_def] b r(1,2)])
    show "\<forall>i<NBUF. i \<noteq> b \<longrightarrow> b_dev (bufs s i) = 1 \<longrightarrow> b_blockno (bufs s i) \<noteq> b_blockno r"
      using I(2) [OF _ b] r(4,5) by auto
    show "unat (b_refcnt r) = w b + (if True then 1 else 0)" using I(4) [OF b] held_locked [OF h] r(6) by simp
    show "memdisk t n \<noteq> memdisk s n \<Longrightarrow> b_dev r = 1 \<and> n = unat (b_blockno r) \<and> length (memdisk t n) = BSIZE" for n
      using disk r(3,8) by (auto split: if_splits)
  qed (use r in simp_all)
  then show "bio_inv w t" by (simp add: bio_inv_def t lb)
  have hr: "holds r n \<longleftrightarrow> n = unat (b_blockno r)" for n using r(7) by (auto simp: holds_def)
  show "view t = (view s)(unat (b_blockno r) := b_data r)"
    unfolding view_def t
  proof (rule cache_view_upd [OF inv [unfolded bio_inv_def] inv' b])
    fix n assume "\<not> holds r n"
    then have n: "n \<noteq> unat (b_blockno r)" by (simp add: hr)
    from disk show "memdisk t n = memdisk s n" by (rule disjE) (simp_all add: n)
  qed (simp_all add: hr r(5))
qed

lemma ide_buf_simps [simp]:
  "b_next (ide_buf s b) = b_next (bufs s b)" "b_prev (ide_buf s b) = b_prev (bufs s b)"
  "b_dev (ide_buf s b) = b_dev (bufs s b)" "b_blockno (ide_buf s b) = b_blockno (bufs s b)"
  "b_refcnt (ide_buf s b) = b_refcnt (bufs s b)"
  "b_data (ide_buf s b) = (if dirty (bufs s b) then b_data (bufs s b) else memdisk s (unat (b_blockno (bufs s b))))"
  by (simp_all add: ide_buf_def Let_def)

lemma ide_buf_flags [simp]: "valid (ide_buf s b)" "\<not> dirty (ide_buf s b)"
  by (auto simp: ide_buf_def Let_def valid_bit dirty_bit bit_and_iff bit_or_iff bit_not_iff flag_bits)

lemma bread_Ok:
  assumes g: "bread 1 n s = Ok b t" and inv: "bio_inv w s"
  shows "bio_inv w t" "\<not> sl_locked (slocks s (SL_buf b))" "held t b" "io_frame b s t"
    "same_disk s t" "view t = view s" "dset (bufs t) = dset (bufs s)" "b_dev (bufs t b) = 1"
    "b_blockno (bufs t b) = n" "synced t b" "locked_bufs t = (locked_bufs s)(b := True)"
    "valid (bufs t b)" "b_data (bufs t b) = view s (unat n)" "unat n < disksize s"
proof -
  from g obtain m where m: "bget 1 n s = Ok b m"
    and t: "if valid (bufs m b) then t = m else iderw b m = Ok () t"
    by (auto simp: bread_def kbind_eq_Ok kseq_eq_Ok kwhen_eq_Ok valid_def split: if_splits)
  note M = bget_Ok [OF m inv]
  note I = cache_invD [OF M(1) [unfolded bio_inv_def]]
  have sz: "disksize m = disksize s" using M(5) by (simp add: io_frame_def)
  have "bio_inv w t \<and> held t b \<and> io_frame b s t \<and> same_disk s t \<and> view t = view s
    \<and> dset (bufs t) = dset (bufs s) \<and> b_dev (bufs t b) = 1 \<and> b_blockno (bufs t b) = n \<and> synced t b
    \<and> locked_bufs t = (locked_bufs s)(b := True) \<and> valid (bufs t b) \<and> unat n < disksize s"
  proof (cases "valid (bufs m b)")
    case True
    then show ?thesis using t M I(7) [OF M(2) True] sz by auto
  next
    case False
    then have d: "iderw b m = Ok () t" and nd: "\<not> dirty (bufs m b)" using t I(5) [OF M(2)] by auto
    note D = iderw_Ok [OF d]
    have lk: "locked_bufs t = locked_bufs m" using D(6) by (simp add: locked_bufs_def fun_eq_iff)
    have lt: "unat n < disksize m" using D(4) M(10) by simp
    have disk: "memdisk t = memdisk m" "disk_writes t = disk_writes m" using D(10,11) nd by simp_all
    have blk: "b_data (ide_buf m b) = memdisk m (unat n)" using nd M(10) by simp
    have none: "\<not> holds (bufs m i) (unat n)" if i: "i < NBUF" for i
    proof
      assume hi: "holds (bufs m i) (unat n)"
      then have "valid (bufs m i)" "b_blockno (bufs m i) = n" by (simp_all add: holds_def word_unat_eq_iff)
      then have "i = b" using I(2) [OF i M(2)] I(6) [OF i] M(9,10) by simp
      with False hi show False by (simp add: holds_def)
    qed
    have v: "view m (unat n) = memdisk m (unat n)"
      unfolding view_def by (rule cache_view_miss [OF none])
    have up: "bio_inv w t" "view t = (view m)(unat n := memdisk m (unat n))"
      using held_upd [OF M(1) M(4) lk D(9) D(8)] M(9,10) I(10) lt disk nd by (simp_all add: blk)
    have vt: "view t = view m" using up(2) v by auto
    have ht: "held t b" using M(4) held_frame [OF D(5)] D(6) by simp
    have fr: "io_frame b m t" using D(5-8) by (simp add: io_frame_def)
    have ds: "dset (bufs t) = dset (bufs m)"
      unfolding D(9) by (rule dset_upd_same) (simp_all add: nd)
    have sy: "synced t b" by (simp add: synced_def D(9) disk nd)
    show ?thesis
      using up(1) ht io_frame_trans [OF M(5) fr] M(6-10,12) disk vt ds sy lk lt sz
      by (simp add: D(9) same_disk_def)
  qed
  then show "bio_inv w t" "held t b" "io_frame b s t"
    "same_disk s t" "view t = view s" "dset (bufs t) = dset (bufs s)" "b_dev (bufs t b) = 1"
    "b_blockno (bufs t b) = n" "synced t b" "locked_bufs t = (locked_bufs s)(b := True)"
    "valid (bufs t b)" "unat n < disksize s" by simp_all
  then have inv': "bio_inv w t" and "holds (bufs t b) (unat n)" by (simp_all add: holds_def)
  from cache_view_hit [OF inv' [unfolded bio_inv_def] M(2) this(2)] \<open>view t = view s\<close>
  show "b_data (bufs t b) = view s (unat n)" by (metis view_def)
  show "\<not> sl_locked (slocks s (SL_buf b))" by (rule M(3))
qed

lemma bwrite_Ok:
  assumes g: "bwrite b s = Ok u t" and inv: "bio_inv w s" and b: "b < NBUF" and v: "valid (bufs s b)"
  defines "n \<equiv> unat (b_blockno (bufs s b))" and "d \<equiv> b_data (bufs s b)"
  shows "bio_inv w t" "held s b" "held t b" "io_frame b s t" "slocks t = slocks s"
    "memdisk t = (memdisk s)(n := d)" "disk_writes t = disk_writes s @ [(n, d)]"
    "view t = view s" "dset (bufs t) = dset (bufs s) - {n}" "synced t b" "valid (bufs t b)"
    "b_data (bufs t b) = d" "b_blockno (bufs t b) = b_blockno (bufs s b)" "n < disksize s"
    "\<And>i. i \<noteq> b \<Longrightarrow> bufs t i = bufs s i"
proof -
  from g obtain a where h: "holdingsleep (SL_buf b) s = Ok True a"
    and w: "iderw b (a\<lparr>bufs := (bufs a)(b := (bufs a b)\<lparr>b_flags := b_flags (bufs a b) OR B_DIRTY\<rparr>)\<rparr>) = Ok () t"
    by (auto simp: bwrite_def kbind_eq_Ok kseq_eq_Ok upd_buf_def split: if_splits)
  note H = holdingsleep_Ok [OF h]
  have m: "bufs a = bufs s" "memdisk a = memdisk s" "disksize a = disksize s"
    "disk_writes a = disk_writes s" "bio_st.more a = bio_st.more s"
    using H(2) by (simp_all add: bio_st_more)
  let ?r0 = "(bufs s b)\<lparr>b_flags := b_flags (bufs s b) OR B_DIRTY\<rparr>"
  let ?m = "a\<lparr>bufs := (bufs s)(b := ?r0)\<rparr>"
  have w': "iderw b ?m = Ok () t" using w m by simp
  note D = iderw_Ok [OF w']
  have tfr: "thread_frame s t" using H(1) D(5) by (auto intro: thread_frame_trans)
  have hs: "held s b" using D(1) b held_frame [of s ?m b] H(1,3) by simp
  note I = cache_invD [OF inv [unfolded bio_inv_def]]
  have d0: "dirty ?r0" by simp
  let ?r = "ide_buf ?m b"
  have t: "bufs t = (bufs s)(b := ?r)" "memdisk t = (memdisk s)(n := d)"
    "disk_writes t = disk_writes s @ [(n, d)]" "disksize t = disksize s" "bio_st.more t = bio_st.more s"
    "slocks t = slocks s" using D m H(3) d0 by (simp_all add: n_def d_def)
  have r: "b_data ?r = d" "b_blockno ?r = b_blockno (bufs s b)" using d0 by (simp_all add: d_def)
  have lk: "locked_bufs t = locked_bufs s" using t(6) by (simp add: locked_bufs_def fun_eq_iff)
  have up: "bio_inv w t" "view t = (view s)(n := d)"
    using held_upd [OF inv hs lk t(1) t(4)] I(6-8) [OF b v] t(2) r by (simp_all add: n_def d_def)
  show "bio_inv w t" by (rule up)
  have "view s n = d" unfolding view_def d_def
    by (rule cache_view_hit [OF inv [unfolded bio_inv_def] b]) (simp add: holds_def v n_def)
  then show "view t = view s" using up(2) by auto
  show "held s b" "held t b" using hs held_frame [OF tfr] t(6) by simp_all
  show "io_frame b s t" using tfr t by (simp add: io_frame_def)
  show "slocks t = slocks s" "memdisk t = (memdisk s)(n := d)" "disk_writes t = disk_writes s @ [(n, d)]"
    by (rule t)+
  show "n < disksize s" using I(7) [OF b v] by (simp add: n_def)
  show "synced t b" "valid (bufs t b)" "b_data (bufs t b) = d"
    "b_blockno (bufs t b) = b_blockno (bufs s b)" using r by (simp_all add: synced_def t n_def)
  show "\<And>i. i \<noteq> b \<Longrightarrow> bufs t i = bufs s i" by (simp add: t)
  show "dset (bufs t) = dset (bufs s) - {n}"
  proof (rule set_eqI, unfold t(1), rule iffI)
    fix k assume "k \<in> dset ((bufs s)(b := ?r))"
    then obtain i where i: "i < NBUF" "i \<noteq> b" "dirty (bufs s i)" "unat (b_blockno (bufs s i)) = k"
      by (auto simp: dset_def split: if_splits)
    then have "k \<noteq> n" using I(2) [OF i(1) b] I(5,6) [OF i(1)] I(6) [OF b v]
      by (auto simp: n_def word_unat_eq_iff)
    with i show "k \<in> dset (bufs s) - {n}" by (auto simp: dset_def)
  next
    fix k assume "k \<in> dset (bufs s) - {n}"
    then obtain i where i: "i < NBUF" "dirty (bufs s i)" "unat (b_blockno (bufs s i)) = k" "k \<noteq> n"
      by (auto simp: dset_def)
    then have "i \<noteq> b" by (auto simp: n_def)
    with i show "k \<in> dset ((bufs s)(b := ?r))" by (auto simp: dset_def)
  qed
qed

text \<open>Writes to the data of a held buffer, and the mark \<open>log_write\<close> puts on it.\<close>

definition mark_dirty :: "nat \<Rightarrow> (unit, 'x bio_st_scheme) kern" where
  "mark_dirty b = upd_buf b (\<lambda>r. r\<lparr>b_flags := b_flags r OR B_DIRTY\<rparr>)"

definition poked :: "nat \<Rightarrow> (nat \<Rightarrow> buf) \<Rightarrow> (nat \<Rightarrow> buf) \<Rightarrow> bool" where
  "poked b B B' \<longleftrightarrow> (\<forall>i. i \<noteq> b \<longrightarrow> B' i = B i)"

lemma held_bufs_upd [simp]: "held (s\<lparr>bufs := B\<rparr>) b = held s b"
  by (simp add: held_def)

lemma io_frame_upd [simp]: "io_frame b s (s\<lparr>bufs := B\<rparr>)" by (simp add: io_frame_def)

lemma buf_store_Ok:
  assumes g: "buf_store b d s = Ok u t" and inv: "bio_inv w s" and h: "held s b"
    and v: "valid (bufs s b)" and len: "length d = BSIZE"
  defines "n \<equiv> unat (b_blockno (bufs s b))"
  shows "bio_inv w t" "held t b" "io_frame b s t" "same_disk s t" "view t = (view s)(n := d)"
    "dset (bufs t) = dset (bufs s)" "valid (bufs t b)" "b_blockno (bufs t b) = b_blockno (bufs s b)"
    "b_data (bufs t b) = d" "slocks t = slocks s" "t = s\<lparr>bufs := (bufs s)(b := (bufs s b)\<lparr>b_data := d\<rparr>)\<rparr>"
proof -
  let ?r = "(bufs s b)\<lparr>b_data := d\<rparr>"
  have t: "t = s\<lparr>bufs := (bufs s)(b := ?r)\<rparr>"
    using g by (simp add: buf_store_def upd_buf_def)
  then show "t = s\<lparr>bufs := (bufs s)(b := ?r)\<rparr>" .
  note I = cache_invD [OF inv [unfolded bio_inv_def]]
  have b: "b < NBUF" by (rule held_lt [OF h])
  have up: "bio_inv w t" "view t = (view s)(n := d)"
    using held_upd [OF inv h, of t ?r] I(6,7) [OF b v] v len
    by (simp_all add: t locked_bufs_def fun_eq_iff n_def)
  show "bio_inv w t" "view t = (view s)(n := d)" by (rule up)+
  show "held t b" "io_frame b s t" "same_disk s t" "valid (bufs t b)"
    "b_blockno (bufs t b) = b_blockno (bufs s b)" "b_data (bufs t b) = d" "slocks t = slocks s"
    using h v by (simp_all add: t same_disk_def)
  show "dset (bufs t) = dset (bufs s)"
    by (simp add: t) (rule dset_upd_same; simp)
qed

lemma mark_dirty_Ok:
  assumes g: "mark_dirty b s = Ok u t" and inv: "bio_inv w s" and h: "held s b"
    and v: "valid (bufs s b)"
  defines "n \<equiv> unat (b_blockno (bufs s b))"
  shows "bio_inv w t" "held t b" "io_frame b s t" "same_disk s t" "view t = view s"
    "dset (bufs t) = insert n (dset (bufs s))" "valid (bufs t b)" "synced t b"
    "b_blockno (bufs t b) = b_blockno (bufs s b)" "b_data (bufs t b) = b_data (bufs s b)"
    "slocks t = slocks s"
proof -
  let ?r = "(bufs s b)\<lparr>b_flags := b_flags (bufs s b) OR B_DIRTY\<rparr>"
  have t: "t = s\<lparr>bufs := (bufs s)(b := ?r)\<rparr>"
    using g by (simp add: mark_dirty_def upd_buf_def)
  note I = cache_invD [OF inv [unfolded bio_inv_def]]
  have b: "b < NBUF" by (rule held_lt [OF h])
  have r: "valid ?r" "dirty ?r" using v by (simp_all add: valid_bit bit_or_iff)
  have up: "bio_inv w t" "view t = (view s)(n := b_data (bufs s b))"
    using held_upd [OF inv h, of t ?r] I(6-8) [OF b v] r
    by (simp_all add: t locked_bufs_def fun_eq_iff n_def)
  have "view s n = b_data (bufs s b)"
    unfolding view_def
    by (rule cache_view_hit [OF inv [unfolded bio_inv_def] b]) (simp add: holds_def v n_def)
  then show "bio_inv w t" "view t = view s" using up by auto
  show "held t b" "io_frame b s t" "same_disk s t" "valid (bufs t b)" "synced t b"
    "b_blockno (bufs t b) = b_blockno (bufs s b)" "b_data (bufs t b) = b_data (bufs s b)"
    "slocks t = slocks s"
    using h r by (simp_all add: t same_disk_def synced_def)
  show "dset (bufs t) = insert n (dset (bufs s))"
  proof (rule set_eqI)
    fix k
    have "k \<in> dset (bufs t) \<longleftrightarrow> (\<exists>i < NBUF. (i = b \<or> dirty (bufs s i)) \<and> unat (b_blockno (bufs s i)) = k)"
      unfolding dset_def t using r(2) by (auto split: if_splits)
    also have "\<dots> \<longleftrightarrow> k \<in> insert n (dset (bufs s))" using b by (auto simp: dset_def n_def)
    finally show "k \<in> dset (bufs t) \<longleftrightarrow> k \<in> insert n (dset (bufs s))" .
  qed
qed

lemma dset_core:
  assumes "\<And>i. same_core (B i) (B' i)"
  shows "dset B' = dset B"
  using same_coreD(3,7) [OF assms] by (simp add: dset_def)

lemma same_diskI: "sleep_st.more t = sleep_st.more s \<Longrightarrow> same_disk s t"
  by (simp add: same_disk_def bio_st_more)

lemma brelse_Ok:
  assumes g: "brelse b s = Ok u t" and inv: "bio_inv w s" and h: "held s b" and sy: "synced s b"
  shows "bio_inv w t" "io_frame b s t" "same_disk s t" "view t = view s"
    "dset (bufs t) = dset (bufs s)" "\<not> sl_locked (slocks t (SL_buf b))"
    "locked_bufs t = (locked_bufs s)(b := False)"
proof -
  obtain a c d where a: "holdingsleep (SL_buf b) s = Ok True a"
    and c: "releasesleep (SL_buf b) a = Ok () c" and d: "acquire L_bcache c = Ok () d"
    and r: "release L_bcache (let r = (bufs d b)\<lparr>b_refcnt := b_refcnt (bufs d b) - 1\<rparr>; B = (bufs d)(b := r)
       in d\<lparr>bufs := (if b_refcnt r = 0 then to_front b B else B)\<rparr>) = Ok () t"
  proof -
    from g obtain a c d e where *: "holdingsleep (SL_buf b) s = Ok True a" "releasesleep (SL_buf b) a = Ok () c"
      "acquire L_bcache c = Ok () d" "release L_bcache e = Ok () t"
      and e: "kwhen (b_refcnt (bufs d b) - 1 = 0) (lru_move b)
        (d\<lparr>bufs := (bufs d)(b := (bufs d b)\<lparr>b_refcnt := b_refcnt (bufs d b) - 1\<rparr>)\<rparr>) = Ok () e"
      by (auto simp: brelse_def kbind_eq_Ok kseq_eq_Ok upd_buf_def split: if_splits)
    have "e = (let r = (bufs d b)\<lparr>b_refcnt := b_refcnt (bufs d b) - 1\<rparr>; B = (bufs d)(b := r)
       in d\<lparr>bufs := (if b_refcnt r = 0 then to_front b B else B)\<rparr>)"
      using e by (simp add: kwhen_def lru_move_eval Let_def split: if_splits)
    with * show thesis by (intro that) simp_all
  qed
  define B1 where "B1 = (bufs s)(b := (bufs s b)\<lparr>b_refcnt := b_refcnt (bufs s b) - 1\<rparr>)"
  define B2 where "B2 = (if b_refcnt (B1 b) = 0 then to_front b B1 else B1)"
  note A = holdingsleep_Ok [OF a] and C = releasesleep_Ok [OF c] and D = acquire_thread [OF d]
  have bd: "bufs d = bufs s" "memdisk d = memdisk s" "disk_writes d = disk_writes s"
    "disksize d = disksize s" "bio_st.more d = bio_st.more s"
    using A(2) C(2) D(3) by (simp_all add: bio_st_more)
  have r': "release L_bcache (d\<lparr>bufs := B2\<rparr>) = Ok () t"
    using r by (simp add: Let_def bd(1) B1_def B2_def cong: if_cong)
  note R = release_thread [OF r']
  have t: "bufs t = B2" "memdisk t = memdisk s" "disk_writes t = disk_writes s"
    "disksize t = disksize s" "bio_st.more t = bio_st.more s"
    using R(3) bd by (simp_all add: bio_st_more)
  have sl: "slocks t = (slocks s)(SL_buf b := \<lparr>sl_locked = False, sl_pid = 0\<rparr>)"
    using R(2) D(2) C(3) A(3) by simp
  show nl: "\<not> sl_locked (slocks t (SL_buf b))" by (simp add: sl)
  show lk: "locked_bufs t = (locked_bufs s)(b := False)"
    by (auto simp: locked_bufs_def sl fun_eq_iff)
  have "thread_frame s t" using A(1) C(1) D(1) R(1) by (auto intro: thread_frame_trans)
  then show "io_frame b s t" by (simp add: io_frame_def t sl)
  show "same_disk s t" by (simp add: same_disk_def t)
  note I = cache_invD [OF inv [unfolded bio_inv_def]]
  have b: "b < NBUF" by (rule held_lt [OF h])
  have ref: "unat (b_refcnt (bufs s b)) = w b + 1" using I(4) [OF b] held_locked [OF h] by simp
  then have ref1: "unat (b_refcnt (bufs s b) - 1) = w b"
    by (simp add: unat_sub_if')
  have inv1: "cache_inv w B1 ((locked_bufs s)(b := False)) (memdisk s) (disksize s)"
    unfolding B1_def
  proof (rule cache_inv_upd [OF inv [unfolded bio_inv_def] b])
    show "b_dev ((bufs s b)\<lparr>b_refcnt := b_refcnt (bufs s b) - 1\<rparr>) = 1 \<Longrightarrow>
      \<forall>i<NBUF. i \<noteq> b \<longrightarrow> b_dev (bufs s i) = 1 \<longrightarrow>
        b_blockno (bufs s i) \<noteq> b_blockno ((bufs s b)\<lparr>b_refcnt := b_refcnt (bufs s b) - 1\<rparr>)"
      using I(2) [OF _ b] by auto
  qed (use ref1 I(5-8) [OF b] sy in \<open>auto simp: synced_def\<close>)
  have core: "same_core (B1 i) (B2 i)" for i by (simp add: B2_def to_front_core)
  have ring2: "\<exists>xs. ring B2 xs"
  proof -
    obtain xs where xs: "ring B1 xs" using cache_invD(1) [OF inv1] by blast
    then have "b \<in> set xs" using b by (simp add: ring_def)
    then obtain us vs where "xs = us @ b # vs" by (auto simp: in_set_conv_decomp)
    with xs ring_to_front [of B1 us b vs] show ?thesis by (auto simp: B2_def)
  qed
  have inv2: "cache_inv w B2 ((locked_bufs s)(b := False)) (memdisk s) (disksize s)"
    by (rule cache_inv_core [OF inv1 core ring2])
  then show "bio_inv w t" by (simp add: bio_inv_def t lk)
  have "cache_view B1 (memdisk s) = cache_view (bufs s) (memdisk s)"
  proof -
    have "holds (B1 i) n = holds (bufs s i) n" "b_data (B1 i) = b_data (bufs s i)" for i n
      by (simp_all add: B1_def)
    then show ?thesis by (simp add: cache_view_def fun_eq_iff split: option.split)
  qed
  then show "view t = view s" using cache_view_core [OF core] by (simp add: view_def t)
  have "dset B1 = dset (bufs s)" unfolding B1_def by (rule dset_upd_same) simp_all
  then show "dset (bufs t) = dset (bufs s)" using dset_core [OF core] by (simp add: t)
qed

text \<open>Initialisation: \<open>binit\<close> builds the ring, last buffer first.\<close>

lemma initsleeplock_eval:
  "initsleeplock k s = Ok () (s\<lparr>locks := (locks s)(sl_lk k := \<lparr>lk_locked = False, lk_cpu = None\<rparr>),
     slocks := (slocks s)(k := \<lparr>sl_locked = False, sl_pid = 0\<rparr>)\<rparr>)"
  by (cases "slocks s k") (simp add: initsleeplock_def initlock_def upd_lock_def upd_slock_def kseq_def kbind_def)

lemma same_core_set' [simp]:
  "same_core (set_next a x B i) r = same_core (B i) r"
  "same_core (set_prev a x B i) r = same_core (B i) r"
  by (simp_all add: same_core_def set_next_def set_prev_def)

definition binit_body :: "nat \<Rightarrow> (unit, 'x bio_st_scheme) kern" where
  "binit_body b =
        kbind (kget (\<lambda>s. b_next (bufs s HEAD))) (\<lambda>n.
        kseq (upd_buf b (\<lambda>r. r\<lparr>b_next := n\<rparr>)) (
        kseq (upd_buf b (\<lambda>r. r\<lparr>b_prev := HEAD\<rparr>)) (
        kseq (initsleeplock (SL_buf b)) (
        kbind (kget (\<lambda>s. b_next (bufs s HEAD))) (\<lambda>n.
        kseq (upd_buf n (\<lambda>r. r\<lparr>b_prev := b\<rparr>))
             (upd_buf HEAD (\<lambda>h. h\<lparr>b_next := b\<rparr>)))))))"

lemma binit_body_eval:
  "binit_body b s = Ok () (s\<lparr>locks := (locks s)(L_buf b := \<lparr>lk_locked = False, lk_cpu = None\<rparr>),
     slocks := (slocks s)(SL_buf b := \<lparr>sl_locked = False, sl_pid = 0\<rparr>),
     bufs := linked_front b (linked_own b (bufs s))\<rparr>)"
  by (simp add: binit_body_def kseq_def kbind_def initsleeplock_eval linked_front_def linked_own_def)

lemma binit_loop:
  assumes "links (nexts (bufs s)) (prevs (bufs s)) [HEAD, HEAD]" "n \<le> NBUF"
  shows "\<exists>t. kfor [0..<n] binit_body s = Ok () t
    \<and> links (nexts (bufs t)) (prevs (bufs t)) (HEAD # rev [0..<n] @ [HEAD])
    \<and> (\<forall>i. same_core (bufs s i) (bufs t i)) \<and> (\<forall>i < n. \<not> locked_bufs t i)
    \<and> memdisk t = memdisk s \<and> disksize t = disksize s \<and> disk_writes t = disk_writes s"
  using assms
proof (induction n)
  case (Suc n)
  then obtain t where t: "kfor [0..<n] binit_body s = Ok () t"
    and l: "links (nexts (bufs t)) (prevs (bufs t)) (HEAD # rev [0..<n] @ [HEAD])"
    and r: "\<forall>i. same_core (bufs s i) (bufs t i)" "\<forall>i < n. \<not> locked_bufs t i"
       "memdisk t = memdisk s" "disksize t = disksize s" "disk_writes t = disk_writes s"
    by auto
  let ?u = "t\<lparr>locks := (locks t)(L_buf n := \<lparr>lk_locked = False, lk_cpu = None\<rparr>),
     slocks := (slocks t)(SL_buf n := \<lparr>sl_locked = False, sl_pid = 0\<rparr>),
     bufs := linked_front n (linked_own n (bufs t))\<rparr>"
  have "kfor [0..<Suc n] binit_body s = Ok () ?u"
    using t by (simp add: kfor_append kseq_def kbind_def binit_body_eval)
  moreover have "links (nexts (bufs ?u)) (prevs (bufs ?u)) (HEAD # n # rev [0..<n] @ [HEAD])"
    using links_front [OF l, of n] Suc.prems by (simp add: HEAD_def)
  then have "links (nexts (bufs ?u)) (prevs (bufs ?u)) (HEAD # rev [0..<Suc n] @ [HEAD])" by simp
  moreover have "same_core (bufs s i) (bufs ?u i)" for i
    using r(1) by (simp add: linked_front_def linked_own_def)
  moreover have "\<forall>i < Suc n. \<not> locked_bufs ?u i"
    using r(2) by (auto simp: locked_bufs_def less_Suc_eq)
  ultimately show ?case using r(3-5) by (intro exI [of _ ?u] conjI allI) simp_all
qed (simp add: locked_bufs_def)

lemma binit_establishes:
  assumes "\<And>i. i < NBUF \<Longrightarrow> b_flags (bufs s i) = 0 \<and> b_dev (bufs s i) = 0 \<and> b_refcnt (bufs s i) = 0"
    and "\<And>n. length (memdisk s n) = BSIZE"
  shows "\<exists>t. binit s = Ok () t \<and> bio_inv (\<lambda>_. 0) t \<and> ring (bufs t) (rev [0..<NBUF])
    \<and> view t = memdisk s \<and> disk_writes t = disk_writes s"
proof -
  let ?h = "s\<lparr>locks := (locks s)(L_bcache := \<lparr>lk_locked = False, lk_cpu = None\<rparr>),
     bufs := set_next HEAD HEAD (set_prev HEAD HEAD (bufs s))\<rparr>"
  have hl: "links (nexts (bufs ?h)) (prevs (bufs ?h)) [HEAD, HEAD]"
    by simp
  obtain t where t: "kfor [0..<NBUF] binit_body ?h = Ok () t"
    and l: "links (nexts (bufs t)) (prevs (bufs t)) (HEAD # rev [0..<NBUF] @ [HEAD])"
    and r: "\<forall>i. same_core (bufs ?h i) (bufs t i)" "\<forall>i < NBUF. \<not> locked_bufs t i"
       "memdisk t = memdisk ?h" "disksize t = disksize ?h" "disk_writes t = disk_writes ?h"
    using binit_loop [OF hl order_refl] by blast
  have "binit s = Ok () t"
    using t unfolding binit_def binit_body_def [symmetric]
    by (simp add: kseq_def kbind_def initlock_def upd_lock_def)
  moreover have ring: "ring (bufs t) (rev [0..<NBUF])" using l by (simp add: ring_def)
  have "same_core (bufs s i) (bufs t i)" for i using r(1) [rule_format, of i] by simp
  note c = same_coreD [OF this]
  have z: "\<not> valid (bufs t i)" "\<not> dirty (bufs t i)" "b_dev (bufs t i) = 0" "b_refcnt (bufs t i) = 0" if "i < NBUF" for i
    using assms(1) [OF that] c(2,4,6,7) by (simp_all add: valid_def dirty_def)
  have "bio_inv (\<lambda>_. 0) t"
    unfolding bio_inv_def
    by (rule cache_invI [OF ring]) (use z r(2,3) assms(2) in \<open>simp_all add: NPROC_def\<close>)
  moreover have "view t = memdisk s"
  proof
    fix n
    show "view t n = memdisk s n"
      unfolding view_def by (subst cache_view_miss) (use z r(3) in \<open>auto simp: holds_def\<close>)
  qed
  ultimately show ?thesis using ring r(5) by auto
qed

text \<open>Total correctness: a thread that holds none of the locks involved gets its buffer when the
  block's buffer is not locked, or the block is not cached and a buffer can be recycled.\<close>

definition buf_avail :: "(nat \<Rightarrow> buf) \<Rightarrow> (nat \<Rightarrow> bool) \<Rightarrow> u32 \<Rightarrow> bool" where
  "buf_avail B lk n \<longleftrightarrow> (\<forall>i < NBUF. bget_hit 1 n B i \<longrightarrow> \<not> lk i)
     \<and> (\<exists>i < NBUF. bget_hit 1 n B i \<or> b_refcnt (B i) = 0 \<and> \<not> dirty (B i))"

lemma bget_in:
  assumes T: "thread_in L s" "L_bcache \<notin> L" "\<And>i. L_buf i \<notin> L" and inv: "bio_inv w s"
    and av: "buf_avail (bufs s) (locked_bufs s) n"
  shows "\<exists>b t. bget 1 n s = Ok b t \<and> thread_in L t"
proof -
  obtain xs where ring: "ring (bufs s) xs" using inv by (auto simp: bio_inv_def cache_inv_def)
  obtain a where a: "acquire L_bcache s = Ok () a" "thread_in (insert L_bcache L) a"
    using acquire_in [OF T(1,2)] by blast
  have B: "bufs a = bufs s" using acquire_thread(3) [OF a(1)] by (simp add: bio_st_more)
  have n1: "bscan NBUF b_next P (b_next (bufs s HEAD)) a = Ok (find (\<lambda>i. P (bufs s i)) xs) a" for P
    using bscan_path [of b_next a _ xs NBUF P] ring_walk(1) [OF ring] length_ring [OF ring] B by simp
  have n2: "bscan NBUF b_prev P (b_prev (bufs s HEAD)) a = Ok (find (\<lambda>i. P (bufs s i)) (rev xs)) a" for P
    using bscan_path [of b_prev a _ "rev xs" NBUF P] ring_walk(2) [OF ring] length_ring [OF ring] B by simp
  have fin: "\<exists>c t. release L_bcache (a\<lparr>bufs := X\<rparr>) = Ok () c \<and> acquiresleep (SL_buf b) c = Ok () t \<and> thread_in L t"
    if nl: "\<not> locked_bufs s b" for X b
  proof -
    obtain c where c: "release L_bcache (a\<lparr>bufs := X\<rparr>) = Ok () c" "thread_in (insert L_bcache L - {L_bcache}) c"
      using release_in [of "insert L_bcache L" "a\<lparr>bufs := X\<rparr>" L_bcache] a(2) by auto
    have e: "insert L_bcache L - {L_bcache} = L" using T(2) by auto
    have "slocks c = slocks s" using acquire_thread(2) [OF a(1)] release_thread(2) [OF c(1)] by simp
    then have "\<not> sl_locked (slocks c (SL_buf b))" using nl by (simp add: locked_bufs_def)
    then obtain t where "acquiresleep (SL_buf b) c = Ok () t" "thread_in L t"
      using acquiresleep_in [OF c(2) [unfolded e], of "SL_buf b"] T(3) by auto
    with c(1) show ?thesis by blast
  qed
  let ?hit = "find (\<lambda>i. b_dev (bufs s i) = 1 \<and> b_blockno (bufs s i) = n) xs"
  show ?thesis
  proof (cases ?hit)
    case (Some h)
    then have h: "h < NBUF" "bget_hit 1 n (bufs s) h"
      using find_ring [OF ring Some] by (auto simp: bget_hit_def)
    then have "\<not> locked_bufs s h" using av by (simp add: buf_avail_def)
    from fin [OF this] obtain c t where "release L_bcache (a\<lparr>bufs := (bufs s)(h := (bufs s h)\<lparr>b_refcnt := b_refcnt (bufs s h) + 1\<rparr>)\<rparr>) = Ok () c"
      "acquiresleep (SL_buf h) c = Ok () t" "thread_in L t" by blast
    then show ?thesis by (auto simp: bget_def kseq_def kbind_def a n1 Some upd_buf_def B)
  next
    case None
    let ?free = "find (\<lambda>i. b_refcnt (bufs s i) = 0 \<and> b_flags (bufs s i) AND B_DIRTY = 0) (rev xs)"
    have none: "\<not> bget_hit 1 n (bufs s) i" if "i < NBUF" for i
      using None ring that by (auto simp: find_None_iff ring_def bget_hit_def)
    then obtain i where i: "i < NBUF" "b_refcnt (bufs s i) = 0" "\<not> dirty (bufs s i)"
      using av by (auto simp: buf_avail_def)
    then have "i \<in> set (rev xs)" "b_flags (bufs s i) AND B_DIRTY = 0"
      using ring by (auto simp: ring_def dirty_def)
    with i(2) obtain h where h: "?free = Some h"
      by (cases ?free) (auto simp: find_None_iff)
    have hh: "h < NBUF" "b_refcnt (bufs s h) = 0" using find_ring [OF ring h] by auto
    have "\<not> locked_bufs s h"
      using cache_invD(4) [OF inv [unfolded bio_inv_def] hh(1)] hh(2) by (simp split: if_splits)
    from fin [OF this] obtain c t where "release L_bcache (a\<lparr>bufs := (bufs s)(h := (bufs s h)\<lparr>b_dev := 1, b_blockno := n,
         b_flags := 0, b_refcnt := 1\<rparr>)\<rparr>) = Ok () c"
      "acquiresleep (SL_buf h) c = Ok () t" "thread_in L t" by blast
    then show ?thesis by (auto simp: bget_def kseq_def kbind_def a n1 n2 None h upd_buf_def B)
  qed
qed

lemma holdingsleep_held:
  assumes "thread_in L s" "L_buf b \<notin> L" "held s b"
  shows "\<exists>t. holdingsleep (SL_buf b) s = Ok True t \<and> thread_in L t"
proof -
  obtain r t where "holdingsleep (SL_buf b) s = Ok r t" "thread_in L t"
    using holdingsleep_in [OF assms(1), of "SL_buf b"] assms(2) by auto
  moreover from this have r using holdingsleep_Ok(4) [of "SL_buf b" s r t] assms(3)
    by (auto simp: held_def)
  ultimately show ?thesis by auto
qed

lemma iderw_in:
  assumes T: "thread_in L s" "L_buf b \<notin> L" and h: "held s b"
    and ok: "\<not> (valid (bufs s b) \<and> \<not> dirty (bufs s b))" "b_dev (bufs s b) = 1"
      "unat (b_blockno (bufs s b)) < disksize s"
  shows "\<exists>t. iderw b s = Ok () t \<and> thread_in L t"
proof -
  obtain a where a: "holdingsleep (SL_buf b) s = Ok True a" "thread_in L a"
    using holdingsleep_held [OF T h] by blast
  have "bufs a = bufs s" "disksize a = disksize s"
    using holdingsleep_Ok(2) [OF a(1)] by (simp_all add: bio_st_more)
  with ok a show ?thesis by (auto simp: iderw_eval kbind_def)
qed

lemma bread_in:
  assumes T: "thread_in L s" "L_bcache \<notin> L" "\<And>i. L_buf i \<notin> L" and inv: "bio_inv w s"
    and av: "buf_avail (bufs s) (locked_bufs s) n" and sz: "unat n < disksize s"
  shows "\<exists>b t. bread 1 n s = Ok b t \<and> thread_in L t"
proof -
  obtain b m where m: "bget 1 n s = Ok b m" "thread_in L m" using bget_in [OF T inv av] by blast
  note M = bget_Ok [OF m(1) inv]
  show ?thesis
  proof (cases "valid (bufs m b)")
    case True
    then show ?thesis using m by (auto simp: bread_def kbind_def kseq_def valid_def)
  next
    case False
    have "disksize m = disksize s" using M(5) by (simp add: io_frame_def)
    then obtain t where "iderw b m = Ok () t" "thread_in L t"
      using iderw_in [OF m(2) T(3) M(4)] False M(9,10) sz by auto
    with False m show ?thesis by (auto simp: bread_def kbind_def kseq_def valid_def)
  qed
qed

lemma brelse_in:
  assumes T: "thread_in L s" "L_bcache \<notin> L" "L_ptable \<notin> L" "\<And>i. L_buf i \<notin> L" and h: "held s b"
  shows "\<exists>t. brelse b s = Ok () t \<and> thread_in L t"
proof -
  obtain a where a: "holdingsleep (SL_buf b) s = Ok True a" "thread_in L a"
    using holdingsleep_held [OF T(1) T(4) h] by blast
  obtain c where c: "releasesleep (SL_buf b) a = Ok () c" "thread_in L c"
    using releasesleep_in [OF a(2), of "SL_buf b"] T by auto
  obtain d where d: "acquire L_bcache c = Ok () d" "thread_in (insert L_bcache L) d"
    using acquire_in [OF c(2) T(2)] by blast
  let ?r = "(bufs d b)\<lparr>b_refcnt := b_refcnt (bufs d b) - 1\<rparr>"
  let ?B = "if b_refcnt ?r = 0 then to_front b ((bufs d)(b := ?r)) else (bufs d)(b := ?r)"
  have e: "insert L_bcache L - {L_bcache} = L" using T(2) by auto
  obtain t where t: "release L_bcache (d\<lparr>bufs := ?B\<rparr>) = Ok () t" "thread_in L t"
    using release_in [of "insert L_bcache L" "d\<lparr>bufs := ?B\<rparr>" L_bcache] d(2) e by auto
  then show ?thesis using a(1) c(1) d(1)
    by (auto simp: brelse_def kseq_def kbind_def upd_buf_def kwhen_def lru_move_eval)
qed

section \<open>Properties of the cache\<close>

text \<open>A freshly initialised cache over a disk of zeroes, for closed instances.\<close>

definition demo_buf :: "nat \<Rightarrow> buf" where
  "demo_buf i = \<lparr>b_flags = 0, b_dev = 0, b_blockno = 0, b_refcnt = 0,
     b_prev = (if i = 0 then HEAD else i - 1), b_next = (if i = HEAD then 0 else i + 1),
     b_data = replicate 512 0\<rparr>"

definition demo_bio_st :: bio_st where
  "demo_bio_st = \<lparr>ncpu = 1, cpus = demo_cpu True 0, lapic_id = 0, fl_if = True,
     locks = (\<lambda>_. \<lparr>lk_locked = False, lk_cpu = None\<rparr>),
     ptable = (\<lambda>_. zero_proc)(0 := zero_proc\<lparr>p_state := RUNNING, p_pid := 1\<rparr>),
     nextpid = 2, initproc = Some 0, ticks = 0,
     slocks = (\<lambda>_. \<lparr>sl_locked = False, sl_pid = 0\<rparr>),
     bufs = demo_buf, memdisk = (\<lambda>_. replicate 512 0), disksize = 1000, disk_writes = []\<rparr>"

lemma demo_ring: "ring demo_buf [0..<NBUF]"
proof -
  have "links (nexts demo_buf) (prevs demo_buf) (HEAD # [0..<NBUF] @ [HEAD])"
    by (simp add: demo_buf_def HEAD_def NBUF_def MAXOPBLOCKS_def upt_rec)
  then show ?thesis by (simp add: ring_def)
qed

lemma demo_bio_inv: "bio_inv (\<lambda>_. 0) demo_bio_st"
  unfolding bio_inv_def
  by (rule cache_invI [where xs = "[0..<NBUF]"])
    (simp_all add: demo_ring demo_bio_st_def demo_buf_def locked_bufs_def NPROC_def valid_def dirty_def BSIZE_def)

lemma demo_thread_in: "thread_in {} demo_bio_st"
  by (simp add: thread_in_def demo_bio_st_def demo_cpu_def found_def)

lemma brelse_bufs:
  assumes "brelse b s = Ok u t"
  shows "bufs t = (let r = (bufs s b)\<lparr>b_refcnt := b_refcnt (bufs s b) - 1\<rparr>; B = (bufs s)(b := r)
       in if b_refcnt r = 0 then to_front b B else B)"
proof -
  from assms obtain a c d e where *: "holdingsleep (SL_buf b) s = Ok True a" "releasesleep (SL_buf b) a = Ok () c"
      "acquire L_bcache c = Ok () d" "release L_bcache e = Ok () t"
      and e: "kwhen (b_refcnt (bufs d b) - 1 = 0) (lru_move b)
        (d\<lparr>bufs := (bufs d)(b := (bufs d b)\<lparr>b_refcnt := b_refcnt (bufs d b) - 1\<rparr>)\<rparr>) = Ok () e"
    by (auto simp: brelse_def kbind_eq_Ok kseq_eq_Ok upd_buf_def split: if_splits)
  have "bufs d = bufs s"
    using holdingsleep_Ok(2) [OF *(1)] releasesleep_Ok(2) [OF *(2)] acquire_thread(3) [OF *(3)]
    by (simp add: bio_st_more)
  moreover have "bufs t = bufs e" using release_thread(3) [OF *(4)] by (simp add: bio_st_more)
  ultimately show ?thesis
    using e by (auto simp: kwhen_def lru_move_eval Let_def split: if_splits)
qed

lemma demo_avail: "buf_avail (bufs demo_bio_st) (locked_bufs demo_bio_st) n"
proof -
  have none: "\<not> bget_hit 1 n demo_buf i" for i by (simp add: bget_hit_def demo_buf_def)
  have "b_refcnt (demo_buf 0) = 0 \<and> \<not> dirty (demo_buf 0)" by (simp add: demo_buf_def dirty_def)
  then have "\<exists>i < NBUF. b_refcnt (demo_buf i) = 0 \<and> \<not> dirty (demo_buf i)"
    by (intro exI [of _ 0]) (simp add: NBUF_def MAXOPBLOCKS_def)
  then show ?thesis
    by (simp add: buf_avail_def locked_bufs_def demo_bio_st_def none)
qed

lemma demo_read: "\<exists>b t u. bread 1 7 demo_bio_st = Ok b t \<and> brelse b t = Ok () u"
proof -
  obtain b t where t: "bread 1 7 demo_bio_st = Ok b t" "thread_in {} t"
    using bread_in [OF demo_thread_in _ _ demo_bio_inv demo_avail, of 7] by (auto simp: demo_bio_st_def)
  then show ?thesis using brelse_in [OF t(2) _ _ _ bread_Ok(3) [OF t(1) demo_bio_inv]] by auto
qed

text \<open>
  C3. Reading a block through the cache: a running thread without spin locks, with the block's
  buffer free to be taken, gets a buffer with the block's current contents from \<open>bread\<close>, can
  give it back with \<open>brelse\<close>, and the cache's invariant, the contents of every block and the
  disk are as before.
\<close>

theorem buffer_cache_read:
  assumes "thread_in {} s" and "bio_inv w s" and "buf_avail (bufs s) (locked_bufs s) n"
    and "unat n < disksize s"
  shows "\<exists>b t u. bread 1 n s = Ok b t \<and> b_data (bufs t b) = view s (unat n)
    \<and> held t b \<and> brelse b t = Ok () u \<and> bio_inv w u
    \<and> view u = view s \<and> same_disk s u \<and> locked_bufs u = locked_bufs s \<and> thread_in {} u"
proof -
  obtain b t where t: "bread 1 n s = Ok b t" "thread_in {} t"
    using bread_in [OF assms(1) _ _ assms(2,3,4)] by auto
  note R = bread_Ok [OF t(1) assms(2)]
  obtain u where u: "brelse b t = Ok () u" "thread_in {} u"
    using brelse_in [OF t(2) _ _ _ R(3)] by auto
  note U = brelse_Ok [OF u(1) R(1,3,10)]
  have "\<not> locked_bufs s b" using R(2) by (simp add: locked_bufs_def)
  then have "locked_bufs u = locked_bufs s" using U(7) R(11) by (simp add: fun_upd_idem)
  with t u R U show ?thesis by (intro exI [of _ b] exI [of _ t] exI [of _ u]) (auto intro: same_disk_trans)
qed

theorem buffer_cache_read_witness:
  "\<exists>b t u. bread 1 7 demo_bio_st = Ok b t \<and> b_data (bufs t b) = view demo_bio_st (unat (7 :: u32))
    \<and> held t b \<and> brelse b t = Ok () u \<and> bio_inv (\<lambda>_. 0) u
    \<and> view u = view demo_bio_st \<and> same_disk demo_bio_st u
    \<and> locked_bufs u = locked_bufs demo_bio_st \<and> thread_in {} u"
  by (rule buffer_cache_read [OF demo_thread_in demo_bio_inv demo_avail]) (simp add: demo_bio_st_def)

text \<open>
  C4. The list is kept in order of use: when the last reference to a buffer is given back,
  \<open>brelse\<close> moves it to the front of the recency order and keeps the order of the others (the
  doubly linked pointers implement the abstract list operation).
\<close>

theorem brelse_moves_to_front:
  assumes "ring (bufs s) (us @ b # vs)" and "bio_inv w s" and "held s b" and "w b = 0"
    and "brelse b s = Ok u t"
  shows "ring (bufs t) (b # us @ vs)"
proof -
  obtain B1 where B1: "B1 = (bufs s)(b := (bufs s b)\<lparr>b_refcnt := b_refcnt (bufs s b) - 1\<rparr>)" by simp
  have b: "b < NBUF" by (rule held_lt [OF assms(3)])
  have "unat (b_refcnt (bufs s b)) = 1"
    using cache_invD(4) [OF assms(2) [unfolded bio_inv_def] b] held_locked [OF assms(3)] assms(4) by simp
  then have "b_refcnt (bufs s b) = 1" by (simp add: word_unat_eq_iff)
  then have z: "b_refcnt (B1 b) = 0" by (simp add: B1)
  have "bufs t = to_front b B1" using brelse_bufs [OF assms(5)] z by (simp add: B1 Let_def)
  moreover have "ring B1 (us @ b # vs)"
    using assms(1) by (subst ring_cong [where B = "bufs s"]) (simp_all add: B1)
  ultimately show ?thesis using ring_to_front by simp
qed

theorem brelse_moves_to_front_witness:
  "\<exists>b t u us vs. bread 1 7 demo_bio_st = Ok b t \<and> ring (bufs t) (us @ b # vs)
     \<and> brelse b t = Ok () u \<and> ring (bufs u) (b # us @ vs)"
proof -
  obtain b t u where t: "bread 1 7 demo_bio_st = Ok b t" and u: "brelse b t = Ok () u"
    using demo_read by blast
  note R = bread_Ok [OF t demo_bio_inv]
  obtain xs where xs: "ring (bufs t) xs" using cache_invD(1) R(1) unfolding bio_inv_def by blast
  then have "b \<in> set xs" using held_lt [OF R(3)] by (simp add: ring_def)
  then obtain us vs where "xs = us @ b # vs" by (auto simp: in_set_conv_decomp)
  then show ?thesis using t u xs brelse_moves_to_front [OF _ R(1,3) _ u, of us vs] by auto
qed

text \<open>
  \<open>binit\<close> starts the cache: from the zeroed table of buffers it builds the circular list
  of all \<open>NBUF\<close> buffers and establishes the invariant with no reference outstanding, and the
  contents the kernel sees are those of the disk, of which nothing was written.
\<close>

theorem binit_starts_cache:
  assumes "\<forall>i < NBUF. b_flags (bufs s i) = 0 \<and> b_dev (bufs s i) = 0 \<and> b_refcnt (bufs s i) = 0"
    and "\<forall>n. length (memdisk s n) = BSIZE"
  shows "\<exists>t. binit s = Ok () t \<and> bio_inv (\<lambda>_. 0) t \<and> ring (bufs t) (rev [0..<NBUF])
    \<and> view t = memdisk s \<and> disk_writes t = disk_writes s"
  using binit_establishes [of s] assms by blast

theorem binit_starts_cache_witness:
  "\<exists>t. binit demo_bio_st = Ok () t \<and> bio_inv (\<lambda>_. 0) t \<and> ring (bufs t) (rev [0..<NBUF])
    \<and> view t = memdisk demo_bio_st \<and> disk_writes t = disk_writes demo_bio_st"
  by (rule binit_starts_cache) (simp_all add: demo_bio_st_def demo_buf_def BSIZE_def)

section \<open>Frames of whole operations\<close>

text \<open>Every buffer but \<open>b\<close> keeps its block and data (its place in the list may change).\<close>

definition others :: "nat \<Rightarrow> 'x bio_st_scheme \<Rightarrow> 'x bio_st_scheme \<Rightarrow> bool" where
  "others b s t \<longleftrightarrow> (\<forall>i. i \<noteq> b \<longrightarrow> same_core (bufs s i) (bufs t i))"

text \<open>What an operation that gives back every buffer it takes leaves alone: locks that were
  held, and the data under them.\<close>

definition op_frame :: "'x bio_st_scheme \<Rightarrow> 'x bio_st_scheme \<Rightarrow> bool" where
  "op_frame s t \<longleftrightarrow> thread_frame s t \<and> disksize t = disksize s
     \<and> (\<forall>k. sl_locked (slocks t k) = sl_locked (slocks s k))
     \<and> (\<forall>k. sl_locked (slocks s k) \<longrightarrow> slocks t k = slocks s k)
     \<and> (\<forall>i. locked_bufs s i \<longrightarrow> same_core (bufs s i) (bufs t i))"

lemma others_trans [trans]: "others b s t \<Longrightarrow> others b t u \<Longrightarrow> others b s u"
  by (auto simp: others_def intro: same_core_trans)

lemma others_refl [simp]: "others b s s" by (simp add: others_def)

lemma op_frame_refl [simp]: "op_frame s s" by (simp add: op_frame_def)

lemma op_frame_trans [trans]:
  assumes "op_frame s t" "op_frame t u"
  shows "op_frame s u"
  using assms unfolding op_frame_def locked_bufs_def
  by (auto intro: thread_frame_trans same_core_trans)

lemma op_frame_thread: "op_frame s t \<Longrightarrow> thread_frame s t" by (simp add: op_frame_def)
lemma op_frame_disksize: "op_frame s t \<Longrightarrow> disksize t = disksize s" by (simp add: op_frame_def)

lemma op_frame_locked: "op_frame s t \<Longrightarrow> locked_bufs t = locked_bufs s"
  by (simp add: op_frame_def locked_bufs_def fun_eq_iff)

lemma op_frame_held:
  assumes "op_frame s t" "held s b"
  shows "held t b" "same_core (bufs s b) (bufs t b)"
proof -
  have l: "sl_locked (slocks s (SL_buf b))" using held_locked [OF assms(2)] by (simp add: locked_bufs_def)
  have "slocks t (SL_buf b) = slocks s (SL_buf b)" using assms(1) l by (simp add: op_frame_def)
  then show "held t b" using held_frame [OF op_frame_thread [OF assms(1)]] assms(2) by simp
  show "same_core (bufs s b) (bufs t b)" using assms(1) l by (simp add: op_frame_def locked_bufs_def)
qed

text \<open>A run inside one buffer, from before its lock is taken until after it is given back.\<close>

lemma op_frameI:
  assumes "io_frame b s t" "others b s t" "\<not> locked_bufs s b" "\<not> locked_bufs t b"
  shows "op_frame s t"
proof -
  have k: "k \<noteq> SL_buf b \<Longrightarrow> slocks t k = slocks s k" for k using assms(1) by (simp add: io_frame_def)
  have b: "\<not> sl_locked (slocks s (SL_buf b))" "\<not> sl_locked (slocks t (SL_buf b))"
    using assms(3,4) by (simp_all add: locked_bufs_def)
  show ?thesis
    unfolding op_frame_def
  proof (intro conjI allI impI)
    show "thread_frame s t" "disksize t = disksize s" using assms(1) by (simp_all add: io_frame_def)
    fix k
    show "sl_locked (slocks t k) = sl_locked (slocks s k)" using k [of k] b by (cases "k = SL_buf b") auto
    show "sl_locked (slocks s k) \<Longrightarrow> slocks t k = slocks s k" using k [of k] b by (cases "k = SL_buf b") auto
  next
    fix i assume "locked_bufs s i"
    then have "i \<noteq> b" using assms(3) by auto
    then show "same_core (bufs s i) (bufs t i)" using assms(2) by (simp add: others_def)
  qed
qed

lemma bread_others:
  assumes g: "bread 1 n s = Ok b t" and inv: "bio_inv w s"
  shows "others b s t"
proof -
  from g obtain m where m: "bget 1 n s = Ok b m"
    and t: "if valid (bufs m b) then t = m else iderw b m = Ok () t"
    by (auto simp: bread_def kbind_eq_Ok kseq_eq_Ok kwhen_eq_Ok valid_def split: if_splits)
  have "i \<noteq> b \<Longrightarrow> bufs t i = bufs m i" for i
    using t iderw_Ok(9) [of b m "()" t] by (auto split: if_splits)
  with bget_Ok(13) [OF m inv] show ?thesis by (simp add: others_def)
qed

lemma bwrite_others:
  assumes "bwrite b s = Ok u t" "bio_inv w s" "b < NBUF" "valid (bufs s b)"
  shows "others b s t"
  using bwrite_Ok(15) [OF assms] by (simp add: others_def)

lemma brelse_others:
  assumes "brelse b s = Ok u t"
  shows "others b s t"
proof -
  have c: "same_core r (bufs s i) \<Longrightarrow> i \<noteq> b \<Longrightarrow> same_core r (to_front b ((bufs s)(b := x)) i)" for r x i
    using to_front_core [of "(bufs s)(b := x)" i b] by (auto intro: same_core_trans)
  show ?thesis
    using brelse_bufs [OF assms] c by (simp add: others_def Let_def)
qed

lemma others_store [simp]: "others b s (s\<lparr>bufs := (bufs s)(b := r)\<rparr>)"
  by (simp add: others_def)

lemma mark_dirty_others: "mark_dirty b s = Ok u t \<Longrightarrow> others b s t"
  by (auto simp: mark_dirty_def upd_buf_def)

lemma buf_store_others: "buf_store b d s = Ok u t \<Longrightarrow> others b s t"
  by (auto simp: buf_store_def upd_buf_def)

lemma io_frame_refl [simp]: "io_frame b s s" by (simp add: io_frame_def)

lemma io_frame_held:
  assumes "io_frame b s t" "held s c" "c \<noteq> b"
  shows "held t c"
  using held_frame [OF io_frame_thread [OF assms(1)], of c] assms by (simp add: io_frame_def)

end
