(* ===== verification/Log.thy ===== *)
theory Log
  imports Bio
begin

text \<open>
  The logging layer (\<open>log.c\<close>) and the superblock (\<open>fs.h\<close>, \<open>readsb\<close> of \<open>fs.c\<close>): transactions
  that make the writes of a file system call atomic across crashes.  C \<open>int\<close>s are \<open>int\<close>; block
  numbers are \<open>u32\<close>.  The last sections prove that a crash at any disk write of \<open>commit\<close> is
  recovered to the state before the transaction or to the state after it.
\<close>

section \<open>Data\<close>

definition LOGSIZE :: nat where [const_defs]: "LOGSIZE = MAXOPBLOCKS * 3"

record superblock =
  sb_size :: u32
  sb_nblocks :: u32
  sb_ninodes :: u32
  sb_nlog :: u32
  sb_logstart :: u32
  sb_inodestart :: u32
  sb_bmapstart :: u32

record logheader =
  lh_n :: int
  lh_block :: "u32 list"

record logrec =
  lg_start :: int
  lg_size :: int
  lg_outstanding :: int
  lg_committing :: bool
  lg_dev :: u32
  lg_lh :: logheader

record log_st = bio_st +
  lg :: logrec

definition upd_log :: "(logrec \<Rightarrow> logrec) \<Rightarrow> (unit, 'x log_st_scheme) kern" where
  "upd_log f = kmod (\<lambda>s. s\<lparr>lg := f (lg s)\<rparr>)"

definition upd_lh :: "(logheader \<Rightarrow> logheader) \<Rightarrow> (unit, 'x log_st_scheme) kern" where
  "upd_lh f = upd_log (\<lambda>l. l\<lparr>lg_lh := f (lg_lh l)\<rparr>)"

text \<open>The \<open>i\<close>-th \<open>uint\<close> of a block.\<close>

definition get32 :: "nat \<Rightarrow> block \<Rightarrow> u32" where
  "get32 i d = word32 (bslice (4 * i) 4 d)"

definition put32 :: "nat \<Rightarrow> u32 \<Rightarrow> block \<Rightarrow> block" where
  "put32 i v d = bsplice (4 * i) (bytes32 v) d"

text \<open>\<open>log.lh.block[i]\<close>; an index outside the array is an access the C program must not make.\<close>

definition lh_blk :: "nat \<Rightarrow> (u32, 'x log_st_scheme) kern" where
  "lh_blk i = kbind (kget (\<lambda>s. lh_block (lg_lh (lg s)))) (\<lambda>bs.
     if i < length bs then kret (bs ! i) else kundef)"

definition log_blockno :: "nat \<Rightarrow> 'x log_st_scheme \<Rightarrow> u32" where
  "log_blockno tail s = word_of_int (lg_start (lg s) + int tail + 1)"

section \<open>Operations\<close>

definition get_superblock :: "block \<Rightarrow> superblock" where
  "get_superblock d = \<lparr>sb_size = get32 0 d, sb_nblocks = get32 1 d, sb_ninodes = get32 2 d,
     sb_nlog = get32 3 d, sb_logstart = get32 4 d, sb_inodestart = get32 5 d, sb_bmapstart = get32 6 d\<rparr>"

definition readsb :: "u32 \<Rightarrow> (superblock, 'x bio_st_scheme) kern" where
  "readsb dev =
     kbind (bread dev 1) (\<lambda>b.
     kbind (buf_data b) (\<lambda>d.
     kseq (brelse b) (kret (get_superblock d))))"

definition install_trans :: "(unit, 'x log_st_scheme) kern" where
  "install_trans =
     kbind (kget (\<lambda>s. lh_n (lg_lh (lg s)))) (\<lambda>n.
     kfor [0..<nat n] (\<lambda>tail.
       kbind (kget (\<lambda>s. (lg_dev (lg s), log_blockno tail s))) (\<lambda>(dev, ln).
       kbind (bread dev ln) (\<lambda>lbuf.
       kbind (lh_blk tail) (\<lambda>home.
       kbind (bread dev home) (\<lambda>dbuf.
       kbind (buf_data lbuf) (\<lambda>d.
       kseq (buf_store dbuf d) (
       kseq (bwrite dbuf) (
       kseq (brelse lbuf)
            (brelse dbuf))))))))))"

text \<open>\<open>read_head\<close> copies \<open>lh->n\<close> entries; more than \<open>LOGSIZE\<close> of them overrun the array
  \<open>log.lh.block\<close>.\<close>

definition read_head :: "(unit, 'x log_st_scheme) kern" where
  "read_head =
     kbind (kget (\<lambda>s. (lg_dev (lg s), word_of_int (lg_start (lg s))))) (\<lambda>(dev, st).
     kbind (bread dev st) (\<lambda>b.
     kbind (buf_data b) (\<lambda>d.
     kseq (upd_lh (\<lambda>h. h\<lparr>lh_n := sint (get32 0 d)\<rparr>)) (
     kseq (kfor [0..<nat (sint (get32 0 d))] (\<lambda>i.
             if i < LOGSIZE then upd_lh (\<lambda>h. h\<lparr>lh_block := (lh_block h)[i := get32 (i + 1) d]\<rparr>)
             else kundef))
          (brelse b)))))"

definition write_head :: "(unit, 'x log_st_scheme) kern" where
  "write_head =
     kbind (kget (\<lambda>s. (lg_dev (lg s), word_of_int (lg_start (lg s))))) (\<lambda>(dev, st).
     kbind (bread dev st) (\<lambda>b.
     kbind (kget (\<lambda>s. lh_n (lg_lh (lg s)))) (\<lambda>n.
     kbind (buf_data b) (\<lambda>d.
     kseq (buf_store b (put32 0 (word_of_int n) d)) (
     kseq (kfor [0..<nat n] (\<lambda>i.
             kbind (lh_blk i) (\<lambda>v.
             kbind (buf_data b) (\<lambda>d.
             buf_store b (put32 (i + 1) v d)))))
          (kseq (bwrite b) (brelse b)))))))"

definition recover_from_log :: "(unit, 'x log_st_scheme) kern" where
  "recover_from_log =
     kseq read_head (
     kseq install_trans (
     kseq (upd_lh (\<lambda>h. h\<lparr>lh_n := 0\<rparr>))
          write_head))"

text \<open>\<open>sizeof(struct logheader)\<close> is \<open>4 * (LOGSIZE + 1)\<close>.\<close>

definition initlog :: "u32 \<Rightarrow> (unit, 'x log_st_scheme) kern" where
  "initlog dev =
     (if BSIZE \<le> 4 * (LOGSIZE + 1) then kpanic ''initlog: too big logheader''
      else
        kseq (initlock L_log) (
        kbind (readsb dev) (\<lambda>sb.
        kseq (upd_log (\<lambda>l. l\<lparr>lg_start := sint (sb_logstart sb)\<rparr>)) (
        kseq (upd_log (\<lambda>l. l\<lparr>lg_size := sint (sb_nlog sb)\<rparr>)) (
        kseq (upd_log (\<lambda>l. l\<lparr>lg_dev := dev\<rparr>))
             recover_from_log)))))"

text \<open>The loop of \<open>begin_op\<close>: both waits put the caller to sleep, and it tests again when it
  runs.\<close>

definition begin_op_loop :: "(unit, 'x log_st_scheme) kern" where
  "begin_op_loop =
     kbind (kget lg) (\<lambda>l.
     if lg_committing l then sleep ChLog L_log
     else if int LOGSIZE < lh_n (lg_lh l) + (lg_outstanding l + 1) * int MAXOPBLOCKS then sleep ChLog L_log
     else kseq (upd_log (\<lambda>l. l\<lparr>lg_outstanding := lg_outstanding l + 1\<rparr>))
               (release L_log))"

definition begin_op :: "(unit, 'x log_st_scheme) kern" where
  "begin_op = kseq (acquire L_log) begin_op_loop"

definition write_log :: "(unit, 'x log_st_scheme) kern" where
  "write_log =
     kbind (kget (\<lambda>s. lh_n (lg_lh (lg s)))) (\<lambda>n.
     kfor [0..<nat n] (\<lambda>tail.
       kbind (kget (\<lambda>s. (lg_dev (lg s), log_blockno tail s))) (\<lambda>(dev, ln).
       kbind (bread dev ln) (\<lambda>to.
       kbind (lh_blk tail) (\<lambda>home.
       kbind (bread dev home) (\<lambda>from.
       kbind (buf_data from) (\<lambda>d.
       kseq (buf_store to d) (
       kseq (bwrite to) (
       kseq (brelse from)
            (brelse to))))))))))"

definition commit :: "(unit, 'x log_st_scheme) kern" where
  "commit =
     kbind (kget (\<lambda>s. lh_n (lg_lh (lg s)))) (\<lambda>n.
     kwhen (0 < n) (
       kseq write_log (
       kseq write_head (
       kseq install_trans (
       kseq (upd_lh (\<lambda>h. h\<lparr>lh_n := 0\<rparr>))
            write_head)))))"

definition end_op :: "(unit, 'x log_st_scheme) kern" where
  "end_op =
     kseq (acquire L_log) (
     kseq (upd_log (\<lambda>l. l\<lparr>lg_outstanding := lg_outstanding l - 1\<rparr>)) (
     kbind (kget lg) (\<lambda>l.
     if lg_committing l then kpanic ''log.committing''
     else
       kseq (if lg_outstanding l = 0 then upd_log (\<lambda>l. l\<lparr>lg_committing := True\<rparr>) else wakeup ChLog) (
       kseq (release L_log)
       (kwhen (lg_outstanding l = 0) (
          kseq commit (
          kseq (acquire L_log) (
          kseq (upd_log (\<lambda>l. l\<lparr>lg_committing := False\<rparr>)) (
          kseq (wakeup ChLog)
               (release L_log))))))))))"

text \<open>The index of \<open>log_write\<close>'s search: the block's entry, or \<open>lh.n\<close>.\<close>

definition log_index :: "logheader \<Rightarrow> u32 \<Rightarrow> nat" where
  "log_index h bno = (case find (\<lambda>i. lh_block h ! i = bno) [0..<nat (lh_n h)] of
     Some i \<Rightarrow> i | None \<Rightarrow> nat (lh_n h))"

definition log_write :: "nat \<Rightarrow> (unit, 'x log_st_scheme) kern" where
  "log_write b =
     kbind (kget lg) (\<lambda>l.
     if int LOGSIZE \<le> lh_n (lg_lh l) \<or> lg_size l - 1 \<le> lh_n (lg_lh l) then kpanic ''too big a transaction''
     else if lg_outstanding l < 1 then kpanic ''log_write outside of trans''
     else
       kseq (acquire L_log) (
       kbind (kget (\<lambda>s. (lg_lh (lg s), b_blockno (bufs s b)))) (\<lambda>(h, bno).
       kbind (kret (log_index h bno)) (\<lambda>i.
       kseq (upd_lh (\<lambda>h. h\<lparr>lh_block := (lh_block h)[i := bno]\<rparr>)) (
       kseq (kwhen (int i = lh_n h) (upd_lh (\<lambda>h. h\<lparr>lh_n := lh_n h + 1\<rparr>))) (
       kseq (mark_dirty b)
            (release L_log)))))))"

section \<open>Copying one block to another through the cache\<close>

text \<open>Two buffers are held at once.\<close>

definition two_frame :: "nat \<Rightarrow> nat \<Rightarrow> 'x bio_st_scheme \<Rightarrow> 'x bio_st_scheme \<Rightarrow> bool" where
  "two_frame b c s t \<longleftrightarrow> thread_frame s t \<and> bio_st.more t = bio_st.more s \<and> disksize t = disksize s
     \<and> (\<forall>k. k \<noteq> SL_buf b \<longrightarrow> k \<noteq> SL_buf c \<longrightarrow> slocks t k = slocks s k)
     \<and> (\<forall>i. i \<noteq> b \<longrightarrow> i \<noteq> c \<longrightarrow> same_core (bufs s i) (bufs t i))"

lemma two_frame_trans [trans]: "two_frame b c s t \<Longrightarrow> two_frame b c t u \<Longrightarrow> two_frame b c s u"
  unfolding two_frame_def by (auto intro: thread_frame_trans same_core_trans)

lemma two_frameI:
  "io_frame b s t \<Longrightarrow> others b s t \<Longrightarrow> two_frame b c s t"
  "io_frame c s t \<Longrightarrow> others c s t \<Longrightarrow> two_frame b c s t"
  by (auto simp: two_frame_def io_frame_def others_def)

lemma op_frame_two:
  assumes "two_frame b c s t" "\<not> locked_bufs s b" "\<not> locked_bufs s c" "\<not> locked_bufs t b" "\<not> locked_bufs t c"
  shows "op_frame s t"
proof -
  have k: "k \<noteq> SL_buf b \<Longrightarrow> k \<noteq> SL_buf c \<Longrightarrow> slocks t k = slocks s k" for k
    using assms(1) by (simp add: two_frame_def)
  have b: "\<not> sl_locked (slocks s (SL_buf b))" "\<not> sl_locked (slocks t (SL_buf b))"
    "\<not> sl_locked (slocks s (SL_buf c))" "\<not> sl_locked (slocks t (SL_buf c))"
    using assms(2-5) by (simp_all add: locked_bufs_def)
  show ?thesis
    unfolding op_frame_def
  proof (intro conjI allI impI)
    show "thread_frame s t" "disksize t = disksize s" using assms(1) by (simp_all add: two_frame_def)
    fix k
    show "sl_locked (slocks t k) = sl_locked (slocks s k)"
      using k [of k] b by (cases "k = SL_buf b"; cases "k = SL_buf c") auto
    show "sl_locked (slocks s k) \<Longrightarrow> slocks t k = slocks s k"
      using k [of k] b by (cases "k = SL_buf b"; cases "k = SL_buf c") auto
  next
    fix i assume "locked_bufs s i"
    then have "i \<noteq> b" "i \<noteq> c" using assms(2,3) by auto
    then show "same_core (bufs s i) (bufs t i)" using assms(1) by (simp add: two_frame_def)
  qed
qed

text \<open>A held buffer with the current contents of block \<open>n\<close>.\<close>

definition has_block :: "'x bio_st_scheme \<Rightarrow> nat \<Rightarrow> u32 \<Rightarrow> bool" where
  "has_block s b n \<longleftrightarrow> held s b \<and> valid (bufs s b) \<and> b_dev (bufs s b) = 1 \<and> b_blockno (bufs s b) = n
     \<and> synced s b"

lemma has_blockD:
  assumes "has_block s b n"
  shows "held s b" "b < NBUF" "valid (bufs s b)" "b_dev (bufs s b) = 1" "b_blockno (bufs s b) = n" "synced s b"
  using assms held_lt by (auto simp: has_block_def)

lemma bread_has_block:
  assumes "bread 1 n s = Ok b t" "bio_inv w s"
  shows "has_block t b n"
  using bread_Ok [OF assms] by (simp add: has_block_def)

lemma has_block_data:
  assumes "has_block s b n" "bio_inv w s"
  shows "b_data (bufs s b) = view s (unat n)"
proof -
  have "holds (bufs s b) (unat n)" using has_blockD [OF assms(1)] by (simp add: holds_def)
  from cache_view_hit [OF assms(2) [unfolded bio_inv_def] has_blockD(2) [OF assms(1)] this]
  show ?thesis by (simp add: view_def)
qed

lemma has_block_inj:
  assumes "has_block s b n" "has_block s c n" "bio_inv w s"
  shows "b = c"
  using cache_invD(2) [OF assms(3) [unfolded bio_inv_def]] has_blockD [OF assms(1)] has_blockD [OF assms(2)]
  by simp

lemma has_block_other:
  assumes "has_block s b n" "io_frame c s t" "others c s t" "b \<noteq> c" "memdisk t (unat n) = memdisk s (unat n)"
  shows "has_block t b n"
proof -
  have sc: "same_core (bufs s b) (bufs t b)" using assms(3,4) by (simp add: others_def)
  have "held t b" by (rule io_frame_held [OF assms(2) has_blockD(1) [OF assms(1)] assms(4)])
  then show ?thesis
    using has_blockD [OF assms(1)] same_coreD [OF sc] assms(5) by (simp add: has_block_def synced_def)
qed

definition copy_tail :: "nat \<Rightarrow> nat \<Rightarrow> block \<Rightarrow> (unit, 'x bio_st_scheme) kern" where
  "copy_tail src dst d = kseq (buf_store dst d) (kseq (bwrite dst) (kseq (brelse src) (brelse dst)))"

lemma copy_tail_Ok:
  assumes g: "copy_tail src dst (b_data (bufs s src)) s = Ok u t" and inv: "bio_inv w s"
    and x: "has_block s src x" and y: "has_block s dst y" and ne: "src \<noteq> dst"
  defines "d \<equiv> view s (unat x)" and "n \<equiv> unat y"
  shows "bio_inv w t" "two_frame src dst s t" "memdisk t = (memdisk s)(n := d)"
    "disk_writes t = disk_writes s @ [(n, d)]" "view t = (view s)(n := d)"
    "dset (bufs t) = dset (bufs s) - {n}"
    "locked_bufs t = (locked_bufs s)(src := False, dst := False)"
proof -
  note X = has_blockD [OF x] and Y = has_blockD [OF y]
  have d: "b_data (bufs s src) = d" using has_block_data [OF x inv] by (simp add: d_def)
  have len: "length d = BSIZE" using cache_invD(8) [OF inv [unfolded bio_inv_def] X(2,3)] d by simp
  have xy: "unat x \<noteq> n"
  proof
    assume "unat x = n"
    then have "x = y" by (simp add: n_def word_unat_eq_iff)
    with has_block_inj [OF x _ inv, of dst] y ne show False by simp
  qed
  obtain a b c where a: "buf_store dst d s = Ok () a" and b: "bwrite dst a = Ok () b"
    and c: "brelse src b = Ok () c" and t: "brelse dst c = Ok () t"
    using g by (auto simp: copy_tail_def kseq_eq_Ok d)
  note A = buf_store_Ok [OF a inv Y(1,3) len]
  note B = bwrite_Ok [OF b A(1) Y(2) A(7)]
  have nb: "unat (b_blockno (bufs a dst)) = n" using A(8) Y(5) by (simp add: n_def)
  note oa = buf_store_others [OF a] and ob = bwrite_others [OF b A(1) Y(2) A(7)]
  have ma: "memdisk a = memdisk s" using A(4) by (simp add: same_disk_def)
  have xa: "has_block a src x" using has_block_other [OF x A(3) oa ne] ma by simp
  have xb: "has_block b src x"
    by (rule has_block_other [OF xa B(4) ob ne]) (use B(6) nb xy in simp)
  note C = brelse_Ok [OF c B(1) has_blockD(1,6) [OF xb]]
  have oc: "others src b c" by (rule brelse_others [OF c])
  have yb: "has_block b dst y"
    using B(3,10,11,13) A(8) Y(5) cache_invD(6) [OF B(1) [unfolded bio_inv_def] Y(2) B(11)]
    by (simp add: has_block_def)
  have yc: "has_block c dst y"
    by (rule has_block_other [OF yb C(2) oc]) (use ne C(3) in \<open>simp_all add: same_disk_def\<close>)
  note T = brelse_Ok [OF t C(1) has_blockD(1,6) [OF yc]]
  show "bio_inv w t" by (rule T)
  have "two_frame src dst s a" "two_frame src dst a b" "two_frame src dst b c" "two_frame src dst c t"
    using A(3) oa B(4) ob C(2) oc T(2) brelse_others [OF t] by (auto intro: two_frameI)
  then show "two_frame src dst s t" by (blast intro: two_frame_trans)
  show "memdisk t = (memdisk s)(n := d)" "disk_writes t = disk_writes s @ [(n, d)]"
    using T(3) C(3) B(6,7) A(4,9) nb by (simp_all add: same_disk_def)
  show "view t = (view s)(n := d)" using T(4) C(4) B(8) A(5) Y(5) by (simp add: n_def)
  show "dset (bufs t) = dset (bufs s) - {n}" using T(5) C(5) B(9) A(6) nb by simp
  have la: "locked_bufs a = locked_bufs s" using A(10) by (simp add: locked_bufs_def fun_eq_iff)
  have lb: "locked_bufs b = locked_bufs a" using B(5) by (simp add: locked_bufs_def fun_eq_iff)
  show "locked_bufs t = (locked_bufs s)(src := False, dst := False)" using T(7) C(7) lb la by simp
qed

text \<open>Both loops of the log copy a block: read source and destination in either order, then the
  tail.\<close>

lemma copy_block_Ok:
  assumes b: "bread 1 n1 s = Ok b1 m1" "bread 1 n2 m1 = Ok b2 m2" and inv: "bio_inv w s"
    and o: "src = b1 \<and> x = n1 \<and> dst = b2 \<and> y = n2 \<or> src = b2 \<and> x = n2 \<and> dst = b1 \<and> y = n1"
    and g: "copy_tail src dst (b_data (bufs m2 src)) m2 = Ok u t"
  defines "d \<equiv> view s (unat x)" and "n \<equiv> unat y"
  shows "bio_inv w t" "op_frame s t" "bio_st.more t = bio_st.more s" "memdisk t = (memdisk s)(n := d)"
    "disk_writes t = disk_writes s @ [(n, d)]" "view t = (view s)(n := d)"
    "dset (bufs t) = dset (bufs s) - {n}"
proof -
  note R1 = bread_Ok [OF b(1) inv] and h1 = bread_has_block [OF b(1) inv] and o1 = bread_others [OF b(1) inv]
  note R2 = bread_Ok [OF b(2) R1(1)] and h2 = bread_has_block [OF b(2) R1(1)] and o2 = bread_others [OF b(2) R1(1)]
  have ne: "b1 \<noteq> b2" using held_locked [OF R1(3)] R2(2) by (auto simp: locked_bufs_def)
  have h1': "has_block m2 b1 n1"
    using has_block_other [OF h1 R2(4) o2 ne] R2(5) by (simp add: same_disk_def)
  have src: "has_block m2 src x" and dst: "has_block m2 dst y" and sd: "src \<noteq> dst"
    using o h1' h2 ne by auto
  note T = copy_tail_Ok [OF g R2(1) src dst sd]
  have v: "view m2 = view s" using R1(6) R2(6) by simp
  have fr: "two_frame src dst s m1" "two_frame src dst m1 m2"
    using o two_frameI [OF R1(4) o1] two_frameI [OF R2(4) o2] by auto
  have tw: "two_frame src dst s t" by (rule two_frame_trans [OF fr(1) two_frame_trans [OF fr(2) T(2)]])
  have l1: "\<not> locked_bufs s b1" "\<not> locked_bufs m1 b2" using R1(2) R2(2) by (simp_all add: locked_bufs_def)
  have l2: "\<not> locked_bufs s b2" using l1(2) R1(11) ne by (simp split: if_splits)
  show "bio_inv w t" by (rule T)
  show "op_frame s t"
    by (rule op_frame_two [OF tw]) (use o l1 l2 T(7) in \<open>auto simp: fun_upd_apply\<close>)
  show "bio_st.more t = bio_st.more s" using tw by (simp add: two_frame_def)
  have m: "memdisk m2 = memdisk s" "disk_writes m2 = disk_writes s" "dset (bufs m2) = dset (bufs s)"
    using R1(5,7) R2(5,7) by (simp_all add: same_disk_def)
  show "memdisk t = (memdisk s)(n := d)" "disk_writes t = disk_writes s @ [(n, d)]"
    "view t = (view s)(n := d)" "dset (bufs t) = dset (bufs s) - {n}"
    using T(3-6) m v by (simp_all add: d_def n_def)
qed

section \<open>Traces of disk writes\<close>

fun apply_writes :: "(nat \<Rightarrow> block) \<Rightarrow> (nat \<times> block) list \<Rightarrow> nat \<Rightarrow> block" where
  "apply_writes D [] = D"
| "apply_writes D ((n, d) # ws) = apply_writes (D(n := d)) ws"

lemma apply_writes_append [simp]: "apply_writes D (vs @ ws) = apply_writes (apply_writes D vs) ws"
  by (induction vs arbitrary: D) auto

lemma apply_writes_other: "n \<notin> fst ` set ws \<Longrightarrow> apply_writes D ws n = D n"
  by (induction ws arbitrary: D) auto

text \<open>An operation that went through the cache and wrote \<open>ws\<close> to the disk, in this order.\<close>

definition wrote :: "(nat \<times> block) list \<Rightarrow> 'x bio_st_scheme \<Rightarrow> 'x bio_st_scheme \<Rightarrow> bool" where
  "wrote ws s t \<longleftrightarrow> memdisk t = apply_writes (memdisk s) ws \<and> view t = apply_writes (view s) ws
     \<and> disk_writes t = disk_writes s @ ws \<and> dset (bufs t) = dset (bufs s) - fst ` set ws
     \<and> op_frame s t"

lemma wrote_Nil [simp]: "wrote [] s s" by (simp add: wrote_def)

lemma wrote_trans [trans]: "wrote vs s t \<Longrightarrow> wrote ws t u \<Longrightarrow> wrote (vs @ ws) s u"
  by (auto simp: wrote_def intro: op_frame_trans)

lemma wroteD:
  assumes "wrote ws s t"
  shows "memdisk t = apply_writes (memdisk s) ws" "view t = apply_writes (view s) ws"
    "disk_writes t = disk_writes s @ ws" "dset (bufs t) = dset (bufs s) - fst ` set ws" "op_frame s t"
  using assms by (simp_all add: wrote_def)

lemma log_st_more:
  "bio_st.more t = bio_st.more s \<longleftrightarrow> lg t = lg s \<and> log_st.more t = log_st.more s"
  by (cases s, cases t) auto

text \<open>A loop that copies block \<open>A i\<close> to block \<open>B i\<close>, where no source is a destination.\<close>

lemma copy_loop:
  assumes body: "\<And>i s t u. i < n \<Longrightarrow> body i s = Ok u t \<Longrightarrow> bio_inv w s \<Longrightarrow> lg s = L \<Longrightarrow>
      bio_inv w t \<and> bio_st.more t = bio_st.more s \<and> wrote [(B i, view s (A i))] s t"
    and disj: "\<And>i j. i < n \<Longrightarrow> j < n \<Longrightarrow> A i \<noteq> B j"
    and run: "kfor [0..<n] body s = Ok u t" and inv: "bio_inv w s" and L: "lg s = L"
  shows "bio_inv w t \<and> bio_st.more t = bio_st.more s
    \<and> wrote (map (\<lambda>k. (B k, view s (A k))) [0..<n]) s t"
  using body disj run
proof (induction n arbitrary: t)
  case 0
  then show ?case using inv by simp
next
  case (Suc n)
  from Suc.prems(3) obtain m where m: "kfor [0..<n] body s = Ok () m" and t: "body n m = Ok () t"
    by (auto simp: kfor_append kseq_eq_Ok)
  have "bio_inv w m \<and> bio_st.more m = bio_st.more s \<and> wrote (map (\<lambda>k. (B k, view s (A k))) [0..<n]) s m"
  proof (rule Suc.IH)
    show "\<And>i s t u. i < n \<Longrightarrow> body i s = Ok u t \<Longrightarrow> bio_inv w s \<Longrightarrow> lg s = L \<Longrightarrow>
      bio_inv w t \<and> bio_st.more t = bio_st.more s \<and> wrote [(B i, view s (A i))] s t"
      by (rule Suc.prems(1)) (simp_all add: less_SucI)
    show "\<And>i j. i < n \<Longrightarrow> j < n \<Longrightarrow> A i \<noteq> B j" using Suc.prems(2) by simp
  qed (simp_all add: m)
  then have m': "bio_inv w m" "bio_st.more m = bio_st.more s" "lg m = L"
    "wrote (map (\<lambda>k. (B k, view s (A k))) [0..<n]) s m" using L by (simp_all add: log_st_more)
  have "A n \<noteq> B j" if "j < n" for j using Suc.prems(2) [of n j] that by simp
  then have "A n \<notin> fst ` set (map (\<lambda>k. (B k, view s (A k))) [0..<n])" by (simp add: image_iff)
  then have "view m (A n) = view s (A n)"
    using wroteD(2) [OF m'(4)] by (simp add: apply_writes_other)
  with Suc.prems(1) [OF _ t m'(1,3)] m' show ?case
    using wrote_trans [OF m'(4)] by auto
qed

text \<open>Positions of the log: header block, log block \<open>k\<close>, home of logged block \<open>k\<close>.\<close>

definition log_head :: "logrec \<Rightarrow> nat" where
  "log_head l = unat (word_of_int (lg_start l) :: u32)"

definition log_slot :: "logrec \<Rightarrow> nat \<Rightarrow> nat" where
  "log_slot l k = unat (word_of_int (lg_start l + int k + 1) :: u32)"

definition log_home :: "logrec \<Rightarrow> nat \<Rightarrow> nat" where
  "log_home l k = unat (lh_block (lg_lh l) ! k)"

definition log_len :: "logrec \<Rightarrow> nat" where
  "log_len l = nat (lh_n (lg_lh l))"

lemma lh_blk_Ok:
  "lh_blk i s = Ok v t \<longleftrightarrow> t = s \<and> i < length (lh_block (lg_lh (lg s))) \<and> v = lh_block (lg_lh (lg s)) ! i"
  by (auto simp: lh_blk_def)

lemma copy_wrote:
  assumes "bread 1 n1 s = Ok b1 m1" "bread 1 n2 m1 = Ok b2 m2" "bio_inv w s"
    "src = b1 \<and> x = n1 \<and> dst = b2 \<and> y = n2 \<or> src = b2 \<and> x = n2 \<and> dst = b1 \<and> y = n1"
    "copy_tail src dst (b_data (bufs m2 src)) m2 = Ok u t"
  shows "bio_inv w t \<and> bio_st.more t = bio_st.more s \<and> wrote [(unat y, view s (unat x))] s t"
  using copy_block_Ok [OF assms] by (simp add: wrote_def)

lemma write_log_Ok:
  assumes g: "write_log s = Ok u t" and inv: "bio_inv w s" and dev: "lg_dev (lg s) = 1"
    and disj: "\<And>i j. i < log_len (lg s) \<Longrightarrow> j < log_len (lg s) \<Longrightarrow> log_home (lg s) i \<noteq> log_slot (lg s) j"
  shows "bio_inv w t \<and> bio_st.more t = bio_st.more s
    \<and> wrote (map (\<lambda>k. (log_slot (lg s) k, view s (log_home (lg s) k))) [0..<log_len (lg s)]) s t"
proof (rule copy_loop [OF _ disj])
  show "kfor [0..<log_len (lg s)] (\<lambda>tail.
       kbind (kget (\<lambda>s. (lg_dev (lg s), log_blockno tail s))) (\<lambda>(dev, ln).
       kbind (bread dev ln) (\<lambda>to.
       kbind (lh_blk tail) (\<lambda>home.
       kbind (bread dev home) (\<lambda>from.
       kbind (buf_data from) (\<lambda>d. copy_tail from to d)))))) s = Ok u t"
    using g by (simp add: write_log_def copy_tail_def log_len_def)
next
  fix i m v r
  assume *: "kbind (kget (\<lambda>s. (lg_dev (lg s), log_blockno i s))) (\<lambda>(dev, ln).
       kbind (bread dev ln) (\<lambda>to.
       kbind (lh_blk i) (\<lambda>home.
       kbind (bread dev home) (\<lambda>from.
       kbind (buf_data from) (\<lambda>d. copy_tail from to d))))) m = Ok r v" and i: "bio_inv w m" and L: "lg m = lg s"
  from * dev L obtain b1 m1 b2 m2 where 1: "bread 1 (log_blockno i m) m = Ok b1 m1"
      and 2: "bread 1 (lh_block (lg_lh (lg m1)) ! i) m1 = Ok b2 m2"
      and 3: "copy_tail b2 b1 (b_data (bufs m2 b2)) m2 = Ok r v"
    by (auto simp: kbind_eq_Ok lh_blk_Ok buf_data_def)
  have "lg m1 = lg m" using bread_Ok(4) [OF 1 i] by (simp add: io_frame_def log_st_more)
  with copy_wrote [OF 1 2 i _ 3, of "lh_block (lg_lh (lg m1)) ! i" "log_blockno i m"]
  show "bio_inv w v \<and> bio_st.more v = bio_st.more m \<and> wrote [(log_slot (lg s) i, view m (log_home (lg s) i))] m v"
    by (simp add: log_slot_def log_home_def log_blockno_def L)
qed (simp_all add: inv)

lemma install_trans_Ok:
  assumes g: "install_trans s = Ok u t" and inv: "bio_inv w s" and dev: "lg_dev (lg s) = 1"
    and disj: "\<And>i j. i < log_len (lg s) \<Longrightarrow> j < log_len (lg s) \<Longrightarrow> log_slot (lg s) i \<noteq> log_home (lg s) j"
  shows "bio_inv w t \<and> bio_st.more t = bio_st.more s
    \<and> wrote (map (\<lambda>k. (log_home (lg s) k, view s (log_slot (lg s) k))) [0..<log_len (lg s)]) s t"
proof (rule copy_loop [OF _ disj])
  show "kfor [0..<log_len (lg s)] (\<lambda>tail.
       kbind (kget (\<lambda>s. (lg_dev (lg s), log_blockno tail s))) (\<lambda>(dev, ln).
       kbind (bread dev ln) (\<lambda>lbuf.
       kbind (lh_blk tail) (\<lambda>home.
       kbind (bread dev home) (\<lambda>dbuf.
       kbind (buf_data lbuf) (\<lambda>d. copy_tail lbuf dbuf d)))))) s = Ok u t"
    using g by (simp add: install_trans_def copy_tail_def log_len_def)
next
  fix i m v r
  assume *: "kbind (kget (\<lambda>s. (lg_dev (lg s), log_blockno i s))) (\<lambda>(dev, ln).
       kbind (bread dev ln) (\<lambda>lbuf.
       kbind (lh_blk i) (\<lambda>home.
       kbind (bread dev home) (\<lambda>dbuf.
       kbind (buf_data lbuf) (\<lambda>d. copy_tail lbuf dbuf d))))) m = Ok r v" and i: "bio_inv w m" and L: "lg m = lg s"
  from * dev L obtain b1 m1 b2 m2 where 1: "bread 1 (log_blockno i m) m = Ok b1 m1"
      and 2: "bread 1 (lh_block (lg_lh (lg m1)) ! i) m1 = Ok b2 m2"
      and 3: "copy_tail b1 b2 (b_data (bufs m2 b1)) m2 = Ok r v"
    by (auto simp: kbind_eq_Ok lh_blk_Ok buf_data_def)
  have "lg m1 = lg m" using bread_Ok(4) [OF 1 i] by (simp add: io_frame_def log_st_more)
  with copy_wrote [OF 1 2 i _ 3, of "log_blockno i m" "lh_block (lg_lh (lg m1)) ! i"]
  show "bio_inv w v \<and> bio_st.more v = bio_st.more m \<and> wrote [(log_home (lg s) i, view m (log_slot (lg s) i))] m v"
    by (simp add: log_slot_def log_home_def log_blockno_def L)
qed (simp_all add: inv)

section \<open>The header block\<close>

lemma length_put32 [simp]: "4 * i + 4 \<le> length d \<Longrightarrow> length (put32 i v d) = length d"
  by (simp add: put32_def)

lemma get32_put32 [simp]: "4 * i + 4 \<le> length d \<Longrightarrow> get32 i (put32 i v d) = v"
  by (simp add: get32_def put32_def)

lemma get32_put32_other:
  assumes "i \<noteq> j" "4 * i + 4 \<le> length d" "4 * j + 4 \<le> length d"
  shows "get32 i (put32 j v d) = get32 i d"
proof -
  have "4 * i + 4 \<le> 4 * j \<or> 4 * j + 4 \<le> 4 * i" using assms(1) by linarith
  then show ?thesis using assms(2,3) unfolding get32_def put32_def
    by (subst bslice_bsplice_other) simp_all
qed

definition put_blocks :: "nat \<Rightarrow> u32 list \<Rightarrow> block \<Rightarrow> block" where
  "put_blocks k bs d = fold (\<lambda>i d. put32 (i + 1) (bs ! i) d) [0..<k] d"

lemma put_blocks_simps [simp]:
  "put_blocks 0 bs d = d"
  "put_blocks (Suc k) bs d = put32 (k + 1) (bs ! k) (put_blocks k bs d)"
  by (simp_all add: put_blocks_def)

lemma length_put_blocks: "4 * k + 4 \<le> length d \<Longrightarrow> length (put_blocks k bs d) = length d"
  by (induction k) simp_all

lemma get32_put_blocks:
  assumes "4 * k + 4 \<le> length d" "4 * i + 4 \<le> length d"
  shows "get32 i (put_blocks k bs d) = (if 0 < i \<and> i \<le> k then bs ! (i - 1) else get32 i d)"
  using assms
proof (induction k)
  case (Suc k)
  have len: "length (put_blocks k bs d) = length d" using Suc.prems by (simp add: length_put_blocks)
  show ?case
  proof (cases "i = k + 1")
    case True
    then show ?thesis using Suc.prems len by simp
  next
    case False
    then show ?thesis using Suc len by (auto simp: get32_put32_other)
  qed
qed auto

definition header :: "int \<Rightarrow> u32 list \<Rightarrow> block \<Rightarrow> block" where
  "header n bs d = put_blocks (nat n) bs (put32 0 (word_of_int n) d)"

definition hdr_len :: "block \<Rightarrow> int" where
  "hdr_len d = sint (get32 0 d)"

definition hdr_block :: "block \<Rightarrow> nat \<Rightarrow> u32" where
  "hdr_block d i = get32 (i + 1) d"

lemma header_fits:
  assumes "length d = BSIZE" "0 \<le> n" "n \<le> int LOGSIZE"
  shows "length (header n bs d) = BSIZE" "hdr_len (header n bs d) = n"
    "i < nat n \<Longrightarrow> hdr_block (header n bs d) i = bs ! i"
proof -
  have b: "BSIZE = 512" "LOGSIZE = 30" by (simp_all add: BSIZE_def LOGSIZE_def MAXOPBLOCKS_def)
  have len: "length (put32 0 (word_of_int n) d) = 512" using assms(1) b by simp
  show "length (header n bs d) = BSIZE"
    using assms b len by (simp add: header_def length_put_blocks)
  have "sint (word_of_int n :: u32) = n"
    using assms(2,3) b by (simp add: sint_sbintrunc' signed_take_bit_int_eq_self)
  then show "hdr_len (header n bs d) = n"
    using assms b len by (simp add: header_def hdr_len_def get32_put_blocks)
  assume "i < nat n"
  then show "hdr_block (header n bs d) i = bs ! i"
    using assms b len by (simp add: header_def hdr_block_def get32_put_blocks)
qed

text \<open>A held buffer is changed and written out.\<close>

lemma write_through:
  assumes b: "bread 1 n s = Ok b m" and a: "buf_store b d m = Ok u a" and c: "bwrite b a = Ok v c"
    and t: "brelse b c = Ok x t" and inv: "bio_inv w s" and len: "length d = BSIZE"
  shows "bio_inv w t \<and> bio_st.more t = bio_st.more s \<and> wrote [(unat n, d)] s t"
proof -
  note R = bread_Ok [OF b inv] and h = bread_has_block [OF b inv]
  note H = has_blockD [OF h]
  note A = buf_store_Ok [OF a R(1) H(1,3) len]
  note C = bwrite_Ok [OF c A(1) H(2) A(7)]
  note T = brelse_Ok [OF t C(1,3,10)]
  have nb: "unat (b_blockno (bufs a b)) = unat n" using A(8) H(5) by simp
  have io: "io_frame b s t" using R(4) A(3) C(4) T(2) by (blast intro: io_frame_trans)
  have ot: "others b s t"
    using bread_others [OF b inv] buf_store_others [OF a] bwrite_others [OF c A(1) H(2) A(7)] brelse_others [OF t]
    by (blast intro: others_trans)
  have l: "\<not> locked_bufs s b" "\<not> locked_bufs t b" using R(2) T(6) by (simp_all add: locked_bufs_def)
  have "op_frame s t" by (rule op_frameI [OF io ot l])
  moreover have "memdisk t = (memdisk s)(unat n := d)" "disk_writes t = disk_writes s @ [(unat n, d)]"
    using R(5) A(4,9) C(6,7) T(3) nb by (simp_all add: same_disk_def)
  moreover have "view t = (view s)(unat n := d)" using R(6) A(5) C(8) T(4) H(5) by simp
  moreover have "dset (bufs t) = dset (bufs s) - {unat n}" using R(7) A(6) C(9) T(5) nb by simp
  moreover have "bio_st.more t = bio_st.more s" using io by (simp add: io_frame_def)
  ultimately show ?thesis using T(1) by (simp add: wrote_def)
qed

lemma buf_store_twice:
  "buf_store b d (s\<lparr>bufs := (bufs s)(b := r)\<rparr>) = Ok () (s\<lparr>bufs := (bufs s)(b := r\<lparr>b_data := d\<rparr>)\<rparr>)"
  by (simp add: buf_store_def upd_buf_def)

lemma store_loop:
  assumes "kfor [0..<k] (\<lambda>i. kbind (lh_blk i) (\<lambda>v. kbind (buf_data b) (\<lambda>d. buf_store b (put32 (i + 1) v d)))) s = Ok u t"
  shows "t = s\<lparr>bufs := (bufs s)(b := (bufs s b)\<lparr>b_data := put_blocks k (lh_block (lg_lh (lg s))) (b_data (bufs s b))\<rparr>)\<rparr>"
    "k \<le> length (lh_block (lg_lh (lg s)))"
  using assms
proof (induction k arbitrary: t)
  case 0
  { case 1 then show ?case by simp }
  { case 2 then show ?case by simp }
next
  case (Suc k)
  have *: "t = s\<lparr>bufs := (bufs s)(b := (bufs s b)\<lparr>b_data := put_blocks (Suc k) (lh_block (lg_lh (lg s))) (b_data (bufs s b))\<rparr>)\<rparr>
     \<and> Suc k \<le> length (lh_block (lg_lh (lg s)))" if run: "kfor [0..<Suc k] (\<lambda>i. kbind (lh_blk i) (\<lambda>v. kbind (buf_data b) (\<lambda>d. buf_store b (put32 (i + 1) v d)))) s = Ok u t" for t
  proof -
    from run obtain m where m: "kfor [0..<k] (\<lambda>i. kbind (lh_blk i) (\<lambda>v. kbind (buf_data b) (\<lambda>d. buf_store b (put32 (i + 1) v d)))) s = Ok u m"
      and t: "kbind (lh_blk k) (\<lambda>v. kbind (buf_data b) (\<lambda>d. buf_store b (put32 (k + 1) v d))) m = Ok () t"
      by (auto simp: kfor_append kseq_eq_Ok)
    note M = Suc.IH(1) [OF m]
    show ?thesis using t unfolding M(1) by (auto simp: kbind_eq_Ok lh_blk_Ok buf_data_def buf_store_twice)
  qed
  { case 1 from * [OF 1] show ?case by (rule conjunct1) }
  { case 2 from * [OF 2] show ?case by (rule conjunct2) }
qed

lemma write_head_Ok:
  assumes g: "write_head s = Ok u t" and inv: "bio_inv w s" and dev: "lg_dev (lg s) = 1"
    and n: "0 \<le> lh_n (lg_lh (lg s))" "lh_n (lg_lh (lg s)) \<le> int LOGSIZE"
  defines "st \<equiv> log_head (lg s)"
  shows "bio_inv w t \<and> bio_st.more t = bio_st.more s
    \<and> wrote [(st, header (lh_n (lg_lh (lg s))) (lh_block (lg_lh (lg s))) (view s st))] s t"
proof -
  let ?n = "lh_n (lg_lh (lg s))" and ?bs = "lh_block (lg_lh (lg s))" and ?x = "word_of_int (lg_start (lg s)) :: u32"
  from g dev obtain b m a c e where b: "bread 1 ?x s = Ok b m"
    and a: "buf_store b (put32 0 (word_of_int (lh_n (lg_lh (lg m)))) (b_data (bufs m b))) m = Ok () a"
    and l: "kfor [0..<nat (lh_n (lg_lh (lg m)))] (\<lambda>i. kbind (lh_blk i) (\<lambda>v. kbind (buf_data b) (\<lambda>d. buf_store b (put32 (i + 1) v d)))) a = Ok () c"
    and e: "bwrite b c = Ok () e" and t: "brelse b e = Ok () t"
    by (auto simp: write_head_def kbind_eq_Ok kseq_eq_Ok buf_data_def)
  note R = bread_Ok [OF b inv]
  have lg: "lg m = lg s" using R(4) by (simp add: io_frame_def log_st_more)
  have d: "b_data (bufs m b) = view s st" using R(13) by (simp add: st_def log_head_def)
  have a': "a = m\<lparr>bufs := (bufs m)(b := (bufs m b)\<lparr>b_data := put32 0 (word_of_int ?n) (view s st)\<rparr>)\<rparr>"
    using a by (simp add: buf_store_def upd_buf_def lg d)
  have c: "buf_store b (header ?n ?bs (view s st)) m = Ok () c"
    using store_loop(1) [OF l] by (simp add: a' lg buf_store_def upd_buf_def header_def)
  have "length (view s st) = BSIZE"
    using length_cache_view [OF inv [unfolded bio_inv_def]] by (simp add: view_def)
  then have "length (header ?n ?bs (view s st)) = BSIZE" by (rule header_fits(1) [OF _ n])
  from write_through [OF b c e t inv this] show ?thesis by (simp add: st_def log_head_def)
qed

section \<open>Commit and recovery on the disk\<close>

lemma apply_writes_map:
  "apply_writes D (map (\<lambda>k. (f k, g (f k))) ks) b = (if b \<in> f ` set ks then g b else D b)"
  by (induction ks arbitrary: D) auto

text \<open>The log region: header block \<open>st\<close>, slots \<open>st+1..st+LOGSIZE\<close>.\<close>

definition log_region :: "nat \<Rightarrow> nat set" where
  "log_region st = {st..st + LOGSIZE}"

text \<open>The layout \<open>initlog\<close> and \<open>log_write\<close> establish: the log is on device 1, its header fits, and no
  logged block lies in the log itself.\<close>

definition log_layout :: "logrec \<Rightarrow> bool" where
  "log_layout l \<longleftrightarrow> lg_dev l = 1 \<and> 0 \<le> lg_start l \<and> lg_start l + int LOGSIZE < 2 ^ 31
     \<and> 0 \<le> lh_n (lg_lh l) \<and> lh_n (lg_lh l) \<le> int LOGSIZE \<and> length (lh_block (lg_lh l)) = LOGSIZE
     \<and> (\<forall>i < log_len l. log_home l i \<notin> log_region (log_head l))"

lemma log_layoutD:
  assumes "log_layout l"
  shows "lg_dev l = 1" "0 \<le> lg_start l" "lg_start l + int LOGSIZE < 2 ^ 31" "0 \<le> lh_n (lg_lh l)"
    "lh_n (lg_lh l) \<le> int LOGSIZE" "length (lh_block (lg_lh l)) = LOGSIZE"
    "i < log_len l \<Longrightarrow> log_home l i \<notin> log_region (log_head l)" "log_len l \<le> LOGSIZE"
  using assms by (auto simp: log_layout_def log_len_def)

lemma log_positions:
  assumes "log_layout l"
  shows "log_head l = nat (lg_start l)" "k < LOGSIZE \<Longrightarrow> log_slot l k = log_head l + 1 + k"
proof -
  note L = log_layoutD [OF assms]
  have u: "unat (word_of_int i :: u32) = nat i" if "0 \<le> i" "i < 2 ^ 32" for i
    using that by (simp add: unat_eq_nat_uint uint_word_of_int)
  show h: "log_head l = nat (lg_start l)"
    using L(2,3) unfolding log_head_def by (intro u) simp_all
  show "log_slot l k = log_head l + 1 + k" if "k < LOGSIZE"
  proof -
    have "log_slot l k = nat (lg_start l + int k + 1)"
      using L(2,3) that unfolding log_slot_def by (intro u) simp_all
    then show ?thesis using h L(2) by simp
  qed
qed

lemma log_home_slot:
  assumes "log_layout l" "i < log_len l" "j < log_len l"
  shows "log_home l i \<noteq> log_slot l j" "log_home l i \<noteq> log_head l" "log_slot l j \<noteq> log_head l"
  using log_layoutD(7) [OF assms(1,2)] log_layoutD(8) [OF assms(1)] log_positions(2) [OF assms(1), of j] assms(3)
  by (auto simp: log_region_def)

definition hdr_on :: "logrec \<Rightarrow> (nat \<Rightarrow> block) \<Rightarrow> block" where
  "hdr_on l v = header (lh_n (lg_lh l)) (lh_block (lg_lh l)) (v (log_head l))"

definition commit_trace :: "logrec \<Rightarrow> (nat \<Rightarrow> block) \<Rightarrow> (nat \<times> block) list" where
  "commit_trace l v =
     map (\<lambda>k. (log_slot l k, v (log_home l k))) [0..<log_len l]
     @ (log_head l, hdr_on l v)
     # map (\<lambda>k. (log_home l k, v (log_home l k))) [0..<log_len l]
     @ [(log_head l, header 0 (lh_block (lg_lh l)) (hdr_on l v))]"

text \<open>What recovery makes of a disk: the blocks its header lists are copied home.\<close>

definition replay :: "nat \<Rightarrow> (nat \<Rightarrow> block) \<Rightarrow> (nat \<times> block) list" where
  "replay st D = map (\<lambda>k. (unat (hdr_block (D st) k), D (st + 1 + k))) [0..<nat (hdr_len (D st))]"

definition recovered :: "nat \<Rightarrow> (nat \<Rightarrow> block) \<Rightarrow> nat \<Rightarrow> block" where
  "recovered st D = apply_writes D (replay st D)"

text \<open>The disk before and after the transaction, outside the log.\<close>

definition txn_old :: "logrec \<Rightarrow> (nat \<Rightarrow> block) \<Rightarrow> (nat \<Rightarrow> block) \<Rightarrow> bool" where
  "txn_old l D E \<longleftrightarrow> (\<forall>b. b \<notin> log_region (log_head l) \<longrightarrow> E b = D b)"

definition txn_new :: "logrec \<Rightarrow> (nat \<Rightarrow> block) \<Rightarrow> (nat \<Rightarrow> block) \<Rightarrow> (nat \<Rightarrow> block) \<Rightarrow> bool" where
  "txn_new l v D E \<longleftrightarrow> (\<forall>b. b \<notin> log_region (log_head l) \<longrightarrow>
     E b = (if b \<in> log_home l ` {..<log_len l} then v b else D b))"

lemma slots_apply:
  assumes "log_layout l" "k \<le> log_len l"
  shows "apply_writes D (map (\<lambda>k. (log_slot l k, v (log_home l k))) [0..<k]) b
    = (if b \<in> {log_head l + 1..<log_head l + 1 + k} then v (log_home l (b - log_head l - 1)) else D b)"
proof -
  let ?st = "log_head l"
  have eq: "map (\<lambda>k. (log_slot l k, v (log_home l k))) [0..<k]
      = map (\<lambda>k. (?st + 1 + k, (\<lambda>m. v (log_home l (m - ?st - 1))) (?st + 1 + k))) [0..<k]"
    using log_positions(2) [OF assms(1)] log_layoutD(8) [OF assms(1)] assms(2) by simp
  have im: "(\<lambda>k. ?st + 1 + k) ` set [0..<k] = {?st + 1..<?st + 1 + k}"
  proof (rule set_eqI, rule iffI)
    fix b assume "b \<in> {?st + 1..<?st + 1 + k}"
    then have "b = ?st + 1 + (b - ?st - 1)" "b - ?st - 1 \<in> set [0..<k]" by auto
    then show "b \<in> (\<lambda>k. ?st + 1 + k) ` set [0..<k]" by (rule image_eqI)
  qed auto
  show ?thesis
    unfolding eq apply_writes_map [of D "\<lambda>k. ?st + 1 + k" "\<lambda>m. v (log_home l (m - ?st - 1))"] im by (rule refl)
qed

lemma take_map_upt: "k \<le> n \<Longrightarrow> take k (map f [0..<n]) = map f [0..<k]"
  by (simp add: take_map)

lemma crash_before_header:
  fixes v :: "nat \<Rightarrow> block"
  assumes l: "log_layout l" and D: "hdr_len (D (log_head l)) = 0" and k: "k \<le> log_len l"
  defines "E \<equiv> apply_writes D (map (\<lambda>k. (log_slot l k, v (log_home l k))) [0..<k])"
  shows "txn_old l D (recovered (log_head l) E)"
proof -
  have E: "E b = D b" if "b \<notin> {log_head l + 1..<log_head l + 1 + k}" for b
    unfolding E_def slots_apply [OF l k, of D v b] by (rule if_not_P [OF that])
  then have "replay (log_head l) E = []" using D by (simp add: replay_def)
  moreover have "E b = D b" if "b \<notin> log_region (log_head l)" for b
    using that k log_layoutD(8) [OF l] by (intro E) (auto simp: log_region_def)
  ultimately show ?thesis by (simp add: txn_old_def recovered_def)
qed

lemma homes_apply:
  "apply_writes D (map (\<lambda>k. (log_home l k, v (log_home l k))) ks) b
     = (if b \<in> log_home l ` set ks then v b else D b)"
  by (rule apply_writes_map)

lemma crash_after_header:
  fixes D :: "nat \<Rightarrow> block"
  assumes l: "log_layout l" and v: "length (v (log_head l)) = BSIZE" and j: "j \<le> log_len l"
  defines "E \<equiv> apply_writes D (map (\<lambda>k. (log_slot l k, v (log_home l k))) [0..<log_len l]
     @ (log_head l, hdr_on l v) # map (\<lambda>k. (log_home l k, v (log_home l k))) [0..<j])"
  shows "txn_new l v D (recovered (log_head l) E)"
proof -
  let ?st = "log_head l" and ?n = "log_len l"
  let ?E2 = "(apply_writes D (map (\<lambda>k. (log_slot l k, v (log_home l k))) [0..<?n]))(?st := hdr_on l v)"
  note L = log_layoutD [OF l]
  have E: "E b = (if b \<in> log_home l ` {0..<j} then v b else ?E2 b)" for b
    unfolding E_def by (simp add: homes_apply)
  have nh: "?st \<notin> log_home l ` {0..<j}" 
  proof
    assume "?st \<in> log_home l ` {0..<j}"
    then obtain i where i: "i < j" "log_home l i = ?st" by auto
    then show False using L(7) [of i] j by (simp add: log_region_def)
  qed
  have H: "E ?st = hdr_on l v" using E nh by simp
  have hl: "nat (hdr_len (E ?st)) = ?n"
    using header_fits(2) [OF v L(4,5)] by (simp add: H hdr_on_def log_len_def)
  have hb: "unat (hdr_block (E ?st) k) = log_home l k" if "k < ?n" for k
    using header_fits(3) [OF v L(4,5)] that by (simp add: H hdr_on_def log_len_def log_home_def)
  have es: "E (?st + 1 + k) = v (log_home l k)" if k: "k < ?n" for k
  proof -
    have "?st + 1 + k \<notin> log_home l ` {0..<j}"
    proof
      assume "?st + 1 + k \<in> log_home l ` {0..<j}"
      then obtain i where "i < j" "log_home l i = ?st + 1 + k" by auto
      with log_home_slot(1) [OF l, of i k] log_positions(2) [OF l, of k] k j L(8) show False by simp
    qed
    then have "E (?st + 1 + k) = apply_writes D (map (\<lambda>k. (log_slot l k, v (log_home l k))) [0..<?n]) (?st + 1 + k)"
      using E by simp
    also have "\<dots> = v (log_home l k)" using slots_apply [OF l order_refl, of D v "?st + 1 + k"] k by simp
    finally show ?thesis .
  qed
  have "replay ?st E = map (\<lambda>k. (log_home l k, v (log_home l k))) [0..<?n]"
    unfolding replay_def hl using hb es by simp
  then have R: "recovered ?st E b = (if b \<in> log_home l ` {0..<?n} then v b else E b)" for b
    by (simp add: recovered_def homes_apply)
  show ?thesis
    unfolding txn_new_def
  proof (intro allI impI)
    fix b assume b: "b \<notin> log_region ?st"
    have "apply_writes D (map (\<lambda>k. (log_slot l k, v (log_home l k))) [0..<?n]) b = D b"
      using slots_apply [OF l order_refl, of D v b] b L(8) by (auto simp: log_region_def)
    moreover have "b \<noteq> ?st" using b by (auto simp: log_region_def)
    moreover have "log_home l ` {0..<j} \<subseteq> log_home l ` {0..<?n}" using j by auto
    ultimately show "recovered ?st E b = (if b \<in> log_home l ` {..<?n} then v b else D b)"
      using R [of b] E [of b] by (auto simp: atLeast0LessThan)
  qed
qed

lemma crash_after_commit:
  assumes l: "log_layout l" and v: "length (v (log_head l)) = BSIZE"
  shows "txn_new l v D (recovered (log_head l) (apply_writes D (commit_trace l v)))"
    and "txn_new l v D (apply_writes D (commit_trace l v))"
    and "hdr_len (apply_writes D (commit_trace l v) (log_head l)) = 0"
proof -
  let ?st = "log_head l" and ?n = "log_len l"
  let ?E2 = "(apply_writes D (map (\<lambda>k. (log_slot l k, v (log_home l k))) [0..<?n]))(?st := hdr_on l v)"
  let ?H0 = "header 0 (lh_block (lg_lh l)) (hdr_on l v)"
  let ?E = "apply_writes D (commit_trace l v)"
  note L = log_layoutD [OF l]
  have E: "?E b = (if b = ?st then ?H0 else if b \<in> log_home l ` {0..<?n} then v b else ?E2 b)" for b
    by (simp add: commit_trace_def homes_apply)
  have lh: "length (hdr_on l v) = BSIZE" using header_fits(1) [OF v L(4,5)] by (simp add: hdr_on_def)
  then have h0: "hdr_len ?H0 = 0" by (rule header_fits(2)) simp_all
  then show "hdr_len (?E ?st) = 0" by (simp add: E)
  then have rE: "recovered ?st ?E = ?E" by (simp add: recovered_def replay_def)
  show new: "txn_new l v D ?E"
    unfolding txn_new_def
  proof (intro allI impI)
    fix b assume b: "b \<notin> log_region ?st"
    have "apply_writes D (map (\<lambda>k. (log_slot l k, v (log_home l k))) [0..<?n]) b = D b"
      using slots_apply [OF l order_refl, of D v b] b L(8) by (auto simp: log_region_def)
    moreover have "b \<noteq> ?st" using b by (auto simp: log_region_def)
    ultimately show "?E b = (if b \<in> log_home l ` {..<?n} then v b else D b)"
      using E [of b] by (auto simp: atLeast0LessThan)
  qed
  show "txn_new l v D (recovered ?st ?E)" using new rE by simp
qed

text \<open>A crash after any number of the writes of a commit.\<close>

lemma crash_anywhere:
  assumes l: "log_layout l" and D: "hdr_len (D (log_head l)) = 0" and v: "length (v (log_head l)) = BSIZE"
  defines "E \<equiv> \<lambda>k. apply_writes D (take k (commit_trace l v))"
  shows "txn_old l D (recovered (log_head l) (E k)) \<or> txn_new l v D (recovered (log_head l) (E k))"
proof -
  let ?n = "log_len l"
  let ?ws1 = "map (\<lambda>k. (log_slot l k, v (log_home l k))) [0..<?n]"
  let ?ws3 = "map (\<lambda>k. (log_home l k, v (log_home l k))) [0..<?n]"
  have len: "length (commit_trace l v) = 2 * ?n + 2" by (simp add: commit_trace_def)
  consider "k \<le> ?n" | j where "k = ?n + 1 + j" "j \<le> ?n" | "2 * ?n + 2 \<le> k"
  proof (cases "k \<le> ?n")
    case False
    then have "k = ?n + 1 + (k - ?n - 1)" by simp
    with that(2) [of "k - ?n - 1"] that(3) show thesis by linarith
  qed (rule that(1))
  then show ?thesis
  proof cases
    case 1
    then have "take k (commit_trace l v) = map (\<lambda>k. (log_slot l k, v (log_home l k))) [0..<k]"
      by (simp add: commit_trace_def take_map_upt)
    then show ?thesis using crash_before_header [where D = D and v = v, OF l D 1] by (simp add: E_def)
  next
    case 2
    then have "take k (commit_trace l v) = ?ws1 @ (log_head l, hdr_on l v) # map (\<lambda>k. (log_home l k, v (log_home l k))) [0..<j]"
      by (simp add: commit_trace_def take_map_upt)
    then show ?thesis using crash_after_header [where D = D and v = v, OF l v 2(2)] by (simp add: E_def)
  next
    case 3
    then have "take k (commit_trace l v) = commit_trace l v" using len by simp
    then show ?thesis using crash_after_commit(1) [where D = D and v = v, OF l v] by (simp add: E_def)
  qed
qed

section \<open>What commit and recovery do\<close>

lemma lg_upd_simps [simp]:
  "found (s\<lparr>lg := x\<rparr>) = found s" "cur (s\<lparr>lg := x\<rparr>) = cur s"
  "thread_in L (s\<lparr>lg := x\<rparr>) = thread_in L s" "view (s\<lparr>lg := x\<rparr>) = view s"
  "locked_bufs (s\<lparr>lg := x\<rparr>) = locked_bufs s" "held (s\<lparr>lg := x\<rparr>) b = held s b"
  by (simp_all add: found_def cur_def thread_in_def view_def locked_bufs_def fun_eq_iff held_def
      split: option.split)

lemma bio_inv_lg [simp]: "bio_inv w (s\<lparr>lg := x\<rparr>) = bio_inv w s"
  by (simp add: bio_inv_def)

lemma op_frame_lg [simp]: "op_frame s (s\<lparr>lg := x\<rparr>)"
  by (simp add: op_frame_def thread_frame_def)

lemma wrote_lg [simp]: "wrote [] s (s\<lparr>lg := x\<rparr>)"
  by (simp add: wrote_def)

lemma length_view: "bio_inv w s \<Longrightarrow> length (view s n) = BSIZE"
  using length_cache_view [of w "bufs s" "locked_bufs s" "memdisk s" "disksize s" n]
  by (simp add: bio_inv_def view_def)

definition emptied :: "logrec \<Rightarrow> logrec" where
  "emptied l = l\<lparr>lg_lh := (lg_lh l)\<lparr>lh_n := 0\<rparr>\<rparr>"

lemma emptied_simps [simp]:
  "lg_dev (emptied l) = lg_dev l" "lg_start (emptied l) = lg_start l" "lh_n (lg_lh (emptied l)) = 0"
  "lh_block (lg_lh (emptied l)) = lh_block (lg_lh l)" "log_head (emptied l) = log_head l"
  "lg_outstanding (emptied l) = lg_outstanding l" "lg_size (emptied l) = lg_size l"
  "lg_committing (emptied l) = lg_committing l" "log_len (emptied l) = 0"
  by (simp_all add: emptied_def log_head_def log_len_def)

lemma log_layout_emptied: "log_layout l \<Longrightarrow> log_layout (emptied l)"
  by (simp add: log_layout_def)

lemma commit_Ok:
  assumes g: "commit s = Ok u t" and inv: "bio_inv w s" and l: "log_layout (lg s)"
    and n: "0 < lh_n (lg_lh (lg s))"
  shows "bio_inv w t \<and> lg t = emptied (lg s) \<and> log_st.more t = log_st.more s
    \<and> wrote (commit_trace (lg s) (view s)) s t"
proof -
  let ?l = "lg s" and ?n = "log_len (lg s)" and ?v = "view s"
  note L = log_layoutD [OF l] and P = log_home_slot [OF l]
  from g n obtain a b c where a: "write_log s = Ok () a" and b: "write_head a = Ok () b"
    and c: "install_trans b = Ok () c" and t: "write_head (c\<lparr>lg := emptied (lg c)\<rparr>) = Ok () t"
    by (auto simp: commit_def kbind_eq_Ok kseq_eq_Ok kwhen_eq_Ok upd_lh_def upd_log_def emptied_def)
  let ?ws1 = "map (\<lambda>k. (log_slot ?l k, ?v (log_home ?l k))) [0..<?n]"
  have A: "bio_inv w a" "bio_st.more a = bio_st.more s" "wrote ?ws1 s a"
    using write_log_Ok [OF a inv L(1) P(1)] by auto
  have la: "lg a = ?l" "log_st.more a = log_st.more s" using A(2) by (simp_all add: log_st_more)
  have ha: "view a (log_head ?l) = ?v (log_head ?l)"
    using wroteD(2) [OF A(3)] slots_apply [OF l order_refl, of ?v ?v "log_head ?l"] by simp
  have B: "bio_inv w b" "bio_st.more b = bio_st.more a" "wrote [(log_head ?l, hdr_on ?l ?v)] a b"
    using write_head_Ok [OF b A(1)] L la ha by (simp_all add: hdr_on_def)
  have lb: "lg b = ?l" "log_st.more b = log_st.more s" using B(2) la by (simp_all add: log_st_more)
  have slots: "view b (log_slot ?l k) = ?v (log_home ?l k)" if k: "k < ?n" for k
  proof -
    have "view b (log_slot ?l k) = view a (log_slot ?l k)" using wroteD(2) [OF B(3)] P(3) [OF k k] by simp
    then show ?thesis
      using wroteD(2) [OF A(3)] slots_apply [OF l order_refl, of ?v ?v "log_slot ?l k"] k
        log_positions(2) [OF l, of k] L(8) by simp
  qed
  have eq: "map (\<lambda>k. (log_home ?l k, view b (log_slot ?l k))) [0..<?n]
      = map (\<lambda>k. (log_home ?l k, ?v (log_home ?l k))) [0..<?n]" using slots by simp
  have C0: "bio_inv w c \<and> bio_st.more c = bio_st.more b
      \<and> wrote (map (\<lambda>k. (log_home (lg b) k, view b (log_slot (lg b) k))) [0..<log_len (lg b)]) b c"
    by (rule install_trans_Ok [OF c B(1)]) (simp_all add: lb L(1) P(1) [symmetric])
  have C: "bio_inv w c" "bio_st.more c = bio_st.more b"
    "wrote (map (\<lambda>k. (log_home ?l k, ?v (log_home ?l k))) [0..<?n]) b c"
    using C0 by (simp_all only: lb eq)
  have lc: "lg c = ?l" "log_st.more c = log_st.more s" using C(2) lb by (simp_all add: log_st_more)
  have hb: "view b (log_head ?l) = hdr_on ?l ?v" using wroteD(2) [OF B(3)] by simp
  have "log_head ?l \<notin> fst ` set (map (\<lambda>k. (log_home ?l k, ?v (log_home ?l k))) [0..<?n])"
  proof
    assume "log_head ?l \<in> fst ` set (map (\<lambda>k. (log_home ?l k, ?v (log_home ?l k))) [0..<?n])"
    then obtain k where "k < ?n" "log_home ?l k = log_head ?l" by auto
    with P(2) show False by blast
  qed
  then have hc: "view c (log_head ?l) = hdr_on ?l ?v"
    using wroteD(2) [OF C(3)] hb by (simp add: apply_writes_other)
  have T: "bio_inv w t" "bio_st.more t = bio_st.more (c\<lparr>lg := emptied ?l\<rparr>)"
    "wrote [(log_head ?l, header 0 (lh_block (lg_lh ?l)) (hdr_on ?l ?v))] (c\<lparr>lg := emptied ?l\<rparr>) t"
    using write_head_Ok [OF t, of w] C(1) L(1) lc hc by simp_all
  have "wrote ([] @ [(log_head ?l, header 0 (lh_block (lg_lh ?l)) (hdr_on ?l ?v))]) c t"
    by (rule wrote_trans [OF wrote_lg T(3)])
  from wrote_trans [OF wrote_trans [OF wrote_trans [OF A(3) B(3)] C(3)] this]
  have "wrote (commit_trace ?l ?v) s t" by (simp add: commit_trace_def)
  with T(1,2) lc show ?thesis by (simp add: log_st_more)
qed

lemma read_loop:
  assumes "kfor [0..<k] (\<lambda>i. if i < LOGSIZE then upd_lh (\<lambda>h. h\<lparr>lh_block := (lh_block h)[i := f i]\<rparr>)
             else kundef) s = Ok u t"
  shows "t = s\<lparr>lg := (lg s)\<lparr>lg_lh := (lg_lh (lg s))\<lparr>lh_block :=
      fold (\<lambda>i bs. bs[i := f i]) [0..<k] (lh_block (lg_lh (lg s)))\<rparr>\<rparr>\<rparr> \<and> k \<le> LOGSIZE"
  using assms
proof (induction k arbitrary: t)
  case (Suc k)
  from Suc.prems obtain m where m: "kfor [0..<k] (\<lambda>i. if i < LOGSIZE then upd_lh (\<lambda>h. h\<lparr>lh_block := (lh_block h)[i := f i]\<rparr>)
             else kundef) s = Ok u m"
    and t: "(if k < LOGSIZE then upd_lh (\<lambda>h. h\<lparr>lh_block := (lh_block h)[k := f k]\<rparr>) else kundef) m = Ok () t"
    by (auto simp: kfor_append kseq_eq_Ok)
  from t have "k < LOGSIZE" "t = m\<lparr>lg := (lg m)\<lparr>lg_lh := (lg_lh (lg m))\<lparr>lh_block := (lh_block (lg_lh (lg m)))[k := f k]\<rparr>\<rparr>\<rparr>"
    by (auto simp: upd_lh_def upd_log_def split: if_splits)
  with Suc.IH [OF m] show ?case by simp
qed simp

lemma fold_upd:
  "length (fold (\<lambda>i bs. bs[i := f i]) [0..<k] bs) = length bs"
  "i < k \<Longrightarrow> k \<le> length bs \<Longrightarrow> fold (\<lambda>i bs. bs[i := f i]) [0..<k] bs ! i = f i"
proof -
  show l: "length (fold (\<lambda>i bs. bs[i := f i]) [0..<k] bs) = length bs" for k
    by (induction k) simp_all
  show "i < k \<Longrightarrow> k \<le> length bs \<Longrightarrow> fold (\<lambda>i bs. bs[i := f i]) [0..<k] bs ! i = f i"
    by (induction k) (auto simp: nth_list_update l)
qed

lemma read_head_Ok:
  assumes g: "read_head s = Ok u t" and inv: "bio_inv w s" and dev: "lg_dev (lg s) = 1"
    and len: "length (lh_block (lg_lh (lg s))) = LOGSIZE"
  defines "H \<equiv> view s (log_head (lg s))"
  shows "bio_inv w t" "wrote [] s t" "log_st.more t = log_st.more s"
    "hdr_len H \<le> int LOGSIZE"
    "\<exists>bs. lg t = (lg s)\<lparr>lg_lh := \<lparr>lh_n = hdr_len H, lh_block = bs\<rparr>\<rparr> \<and> length bs = LOGSIZE
       \<and> (\<forall>i < nat (hdr_len H). bs ! i = hdr_block H i)"
proof -
  let ?x = "word_of_int (lg_start (lg s)) :: u32"
  obtain b m c where b: "bread 1 ?x s = Ok b m"
    and l: "kfor [0..<nat (hdr_len (b_data (bufs m b)))] (\<lambda>i.
             if i < LOGSIZE then upd_lh (\<lambda>h. h\<lparr>lh_block := (lh_block h)[i := hdr_block (b_data (bufs m b)) i]\<rparr>)
             else kundef) (m\<lparr>lg := (lg m)\<lparr>lg_lh := (lg_lh (lg m))\<lparr>lh_n := hdr_len (b_data (bufs m b))\<rparr>\<rparr>\<rparr>) = Ok () c"
    and t: "brelse b c = Ok () t"
    using g dev unfolding read_head_def hdr_len_def [symmetric] hdr_block_def [symmetric]
    by (auto simp: kbind_eq_Ok kseq_eq_Ok buf_data_def upd_lh_def [of "\<lambda>h. h\<lparr>lh_n := k\<rparr>" for k] upd_log_def)
  note R = bread_Ok [OF b inv]
  have d: "b_data (bufs m b) = H" using R(13) by (simp add: H_def log_head_def)
  have lm: "lg m = lg s" "log_st.more m = log_st.more s" using R(4) by (simp_all add: io_frame_def log_st_more)
  let ?bs = "fold (\<lambda>i bs. bs[i := hdr_block H i]) [0..<nat (hdr_len H)] (lh_block (lg_lh (lg s)))"
  let ?x = "(lg s)\<lparr>lg_lh := \<lparr>lh_n = hdr_len H, lh_block = ?bs\<rparr>\<rparr>"
  have "(lg_lh (lg s))\<lparr>lh_n := hdr_len H, lh_block := ?bs\<rparr> = \<lparr>lh_n = hdr_len H, lh_block = ?bs\<rparr>"
    by (cases "lg_lh (lg s)") simp
  then have c: "c = m\<lparr>lg := ?x\<rparr>" and le: "nat (hdr_len H) \<le> LOGSIZE"
    using read_loop [OF l] by (simp_all add: d lm)
  show "hdr_len H \<le> int LOGSIZE" using le by simp
  have ic: "bio_inv w c" "held c b" "synced c b" using R(1,3,10) by (simp_all add: c synced_def)
  note T = brelse_Ok [OF t ic]
  have m': "bio_st.more c = bio_st.more (m\<lparr>lg := ?x\<rparr>)" by (simp add: c)
  have "lg t = ?x \<and> log_st.more t = log_st.more s"
    using T(2) lm by (simp add: io_frame_def log_st_more c)
  then show "log_st.more t = log_st.more s"
    "\<exists>bs. lg t = (lg s)\<lparr>lg_lh := \<lparr>lh_n = hdr_len H, lh_block = bs\<rparr>\<rparr> \<and> length bs = LOGSIZE
       \<and> (\<forall>i < nat (hdr_len H). bs ! i = hdr_block H i)"
    using le len by (auto simp: fold_upd)
  show "bio_inv w t" by (rule T)
  have l1: "\<not> locked_bufs s b" "\<not> locked_bufs t b" using R(2) T(6) by (simp_all add: locked_bufs_def)
  have th: "thread_frame s t" "disksize t = disksize s" "\<forall>k. k \<noteq> SL_buf b \<longrightarrow> slocks t k = slocks s k"
    using R(4) T(2) thread_frame_trans [of s m t] op_frame_lg [of m ?x]
    by (auto simp: io_frame_def c op_frame_def intro: thread_frame_trans)
  have ot: "others b s t"
  proof -
    have "others b m c" by (simp add: others_def c)
    then show ?thesis using bread_others [OF b inv] brelse_others [OF t] by (blast intro: others_trans)
  qed
  have "op_frame s t"
    unfolding op_frame_def
  proof (intro conjI allI impI)
    fix k
    show "sl_locked (slocks t k) = sl_locked (slocks s k)"
      using th(3) l1 by (cases "k = SL_buf b") (auto simp: locked_bufs_def)
    show "sl_locked (slocks s k) \<Longrightarrow> slocks t k = slocks s k"
      using th(3) l1 by (cases "k = SL_buf b") (auto simp: locked_bufs_def)
  next
    fix i assume "locked_bufs s i"
    then have "i \<noteq> b" using l1 by auto
    then show "same_core (bufs s i) (bufs t i)" using ot by (simp add: others_def)
  qed (use th in simp_all)
  then show "wrote [] s t"
    using R(5-7) T(3-5) by (simp add: wrote_def same_disk_def c)
qed

section \<open>Commit returns\<close>

text \<open>A quiet moment: the running thread holds no spin lock, and no thread holds or waits for a
  buffer.\<close>

definition calm :: "'x bio_st_scheme \<Rightarrow> bool" where
  "calm s \<longleftrightarrow> thread_in {} s \<and> bio_inv (\<lambda>_. 0) s \<and> (\<forall>i < NBUF. \<not> locked_bufs s i)"

lemma calmD:
  assumes "calm s"
  shows "thread_in {} s" "bio_inv (\<lambda>_. 0) s" "i < NBUF \<Longrightarrow> \<not> locked_bufs s i"
  using assms by (simp_all add: calm_def)

lemma calm_lg [simp]: "calm (s\<lparr>lg := x\<rparr>) = calm s"
  by (simp add: calm_def)

lemma dirty_inj:
  assumes "cache_inv w B lk D sz"
  shows "inj_on (\<lambda>i. unat (b_blockno (B i))) {i. i < NBUF \<and> dirty (B i)}"
  by (rule inj_onI) (use cache_invD(2,5,6) [OF assms] in \<open>auto simp: word_unat_eq_iff\<close>)

lemma dset_image: "dset B = (\<lambda>i. unat (b_blockno (B i))) ` {i. i < NBUF \<and> dirty (B i)}"
  by (auto simp: dset_def)

lemma finite_dset [simp]: "finite (dset B)"
  by (simp add: dset_image)

lemma clean_buffer:
  assumes inv: "cache_inv w B lk D sz" and X: "card (dset B) + card X < NBUF" "finite X"
  shows "\<exists>i < NBUF. i \<notin> X \<and> \<not> dirty (B i)"
proof (rule ccontr)
  assume "\<not> (\<exists>i < NBUF. i \<notin> X \<and> \<not> dirty (B i))"
  then have sub: "{0..<NBUF} \<subseteq> {i. i < NBUF \<and> dirty (B i)} \<union> X" by auto
  have "card (dset B) = card {i. i < NBUF \<and> dirty (B i)}"
    unfolding dset_image by (rule card_image [OF dirty_inj [OF inv]])
  moreover have "NBUF \<le> card ({i. i < NBUF \<and> dirty (B i)} \<union> X)"
    using card_mono [OF _ sub] X(2) by simp
  moreover have "card ({i. i < NBUF \<and> dirty (B i)} \<union> X) \<le> card {i. i < NBUF \<and> dirty (B i)} + card X"
    by (rule card_Un_le)
  ultimately show False using X(1) by linarith
qed

lemma avail_first:
  assumes "calm s" "card (dset (bufs s)) < NBUF"
  shows "buf_avail (bufs s) (locked_bufs s) n"
proof -
  note C = calmD [OF assms(1)]
  obtain i where i: "i < NBUF" "\<not> dirty (bufs s i)"
    using clean_buffer [OF C(2) [unfolded bio_inv_def], of "{}"] assms(2) by auto
  then have "unat (b_refcnt (bufs s i)) = 0"
    using cache_invD(4) [OF C(2) [unfolded bio_inv_def] i(1)] C(3) [OF i(1)] by simp
  then have "b_refcnt (bufs s i) = 0" by (simp add: unat_eq_0)
  with i C(3) show ?thesis by (auto simp: buf_avail_def)
qed

lemma avail_second:
  assumes "calm s" and b: "bread 1 n1 s = Ok b1 m" and ne: "n2 \<noteq> n1"
    and d: "unat n2 \<in> dset (bufs s) \<or> card (dset (bufs s)) + 1 < NBUF"
  shows "buf_avail (bufs m) (locked_bufs m) n2"
proof -
  note C = calmD [OF assms(1)] and R = bread_Ok [OF b calmD(2) [OF assms(1)]]
  note I = cache_invD [OF R(1) [unfolded bio_inv_def]]
  have ul: "\<not> locked_bufs m i" if "i < NBUF" "i \<noteq> b1" for i using C(3) [OF that(1)] R(11) that(2) by simp
  have hit: "i \<noteq> b1" if "bget_hit 1 n2 (bufs m) i" for i using that R(9) ne by (auto simp: bget_hit_def)
  have "\<exists>i < NBUF. bget_hit 1 n2 (bufs m) i \<or> b_refcnt (bufs m i) = 0 \<and> \<not> dirty (bufs m i)"
  proof (cases "unat n2 \<in> dset (bufs s)")
    case True
    then obtain i where i: "i < NBUF" "dirty (bufs m i)" "unat (b_blockno (bufs m i)) = unat n2"
      using R(7) by (auto simp: dset_def)
    then have "bget_hit 1 n2 (bufs m) i" using I(5,6) by (simp add: bget_hit_def word_unat_eq_iff)
    with i show ?thesis by blast
  next
    case False
    then have "card (dset (bufs m)) + card {b1} < NBUF" using d R(7) by simp
    then obtain i where i: "i < NBUF" "i \<noteq> b1" "\<not> dirty (bufs m i)"
      using clean_buffer [OF R(1) [unfolded bio_inv_def], of "{b1}"] by auto
    then have "unat (b_refcnt (bufs m i)) = 0" using I(4) [OF i(1)] ul by simp
    then have "b_refcnt (bufs m i) = 0" by (simp add: unat_eq_0)
    with i show ?thesis by blast
  qed
  with ul hit show ?thesis by (auto simp: buf_avail_def)
qed

lemma bwrite_in:
  assumes T: "thread_in L s" "L_buf b \<notin> L" and h: "held s b" and inv: "bio_inv w s" and v: "valid (bufs s b)"
  shows "\<exists>t. bwrite b s = Ok () t \<and> thread_in L t"
proof -
  obtain a where a: "holdingsleep (SL_buf b) s = Ok True a" "thread_in L a"
    using holdingsleep_held [OF T h] by blast
  note H = holdingsleep_Ok [OF a(1)]
  have m: "bufs a = bufs s" "disksize a = disksize s" using H(2) by (simp_all add: bio_st_more)
  let ?a = "a\<lparr>bufs := (bufs a)(b := (bufs a b)\<lparr>b_flags := b_flags (bufs a b) OR B_DIRTY\<rparr>)\<rparr>"
  note I = cache_invD [OF inv [unfolded bio_inv_def]]
  have "held ?a b" using h held_frame [OF H(1), of b] H(3) by simp
  then obtain t where "iderw b ?a = Ok () t" "thread_in L t"
    using iderw_in [of L ?a b] a(2) T(2) I(6,7) [OF held_lt [OF h] v] by (auto simp: m)
  then show ?thesis using a(1) by (auto simp: bwrite_def kseq_def kbind_def upd_buf_def)
qed

lemma thread_in_store: "buf_store b d s = Ok () (s\<lparr>bufs := (bufs s)(b := (bufs s b)\<lparr>b_data := d\<rparr>)\<rparr>)"
  by (simp add: buf_store_def upd_buf_def)

lemma copy_tail_in:
  assumes T: "thread_in {} s" and inv: "bio_inv w s"
    and x: "has_block s src x" and y: "has_block s dst y" and ne: "src \<noteq> dst"
  shows "\<exists>t. copy_tail src dst (b_data (bufs s src)) s = Ok () t \<and> thread_in {} t"
proof -
  note X = has_blockD [OF x] and Y = has_blockD [OF y]
  let ?d = "b_data (bufs s src)"
  have len: "length ?d = BSIZE" using cache_invD(8) [OF inv [unfolded bio_inv_def] X(2,3)] .
  let ?a = "s\<lparr>bufs := (bufs s)(dst := (bufs s dst)\<lparr>b_data := ?d\<rparr>)\<rparr>"
  have a: "buf_store dst ?d s = Ok () ?a" by (rule thread_in_store)
  note A = buf_store_Ok [OF a inv Y(1,3) len]
  have ta: "thread_in {} ?a" using T by simp
  obtain b where b: "bwrite dst ?a = Ok () b" "thread_in {} b"
    using bwrite_in [OF ta _ A(2) A(1) A(7)] by auto
  note B = bwrite_Ok [OF b(1) A(1) Y(2) A(7)]
  have hb: "held b src"
    by (rule io_frame_held [OF B(4) io_frame_held [OF A(3) X(1) ne] ne])
  obtain c where c: "brelse src b = Ok () c" "thread_in {} c"
    using brelse_in [OF b(2) _ _ _ hb] by auto
  have xy: "unat x \<noteq> unat y" using has_block_inj [OF x _ inv, of dst] y ne by (metis word_unat_eq_iff)
  have "same_core (bufs s src) (bufs b src)"
    using bwrite_others [OF b(1) A(1) Y(2) A(7)] ne by (simp add: others_def)
  note sc = same_coreD [OF this]
  have "synced b src" using X(5,6) sc B(6) Y(5) xy by (simp add: synced_def)
  note C = brelse_Ok [OF c(1) B(1) hb this]
  have "held c dst" by (rule io_frame_held [OF C(2) B(3)]) (use ne in simp)
  then obtain t where "brelse dst c = Ok () t" "thread_in {} t"
    using brelse_in [OF c(2), of dst] by auto
  then show ?thesis using a b(1) c(1) by (auto simp: copy_tail_def kseq_def kbind_def)
qed

lemma copy_block_in:
  assumes C: "calm s" and c: "card (dset (bufs s)) < NBUF" and ne: "n1 \<noteq> n2"
    and d: "unat n2 \<in> dset (bufs s) \<or> card (dset (bufs s)) + 1 < NBUF"
    and sz: "unat n1 < disksize s" "unat n2 < disksize s"
  shows "\<exists>b1 m1 b2 m2. bread 1 n1 s = Ok b1 m1 \<and> bread 1 n2 m1 = Ok b2 m2
    \<and> (\<exists>t. copy_tail b1 b2 (b_data (bufs m2 b1)) m2 = Ok () t \<and> thread_in {} t)
    \<and> (\<exists>t. copy_tail b2 b1 (b_data (bufs m2 b2)) m2 = Ok () t \<and> thread_in {} t)"
proof -
  note D = calmD [OF C]
  obtain b1 m1 where 1: "bread 1 n1 s = Ok b1 m1" "thread_in {} m1"
    using bread_in [OF D(1) _ _ D(2) avail_first [OF C c] sz(1)] by auto
  note R1 = bread_Ok [OF 1(1) D(2)]
  have "disksize m1 = disksize s" using R1(4) by (simp add: io_frame_def)
  then obtain b2 m2 where 2: "bread 1 n2 m1 = Ok b2 m2" "thread_in {} m2"
    using bread_in [OF 1(2) _ _ R1(1) avail_second [OF C 1(1) ne [symmetric] d]] sz(2) by auto
  note R2 = bread_Ok [OF 2(1) R1(1)]
  have nb: "b1 \<noteq> b2" using held_locked [OF R1(3)] R2(2) by (auto simp: locked_bufs_def)
  have h1: "has_block m2 b1 n1"
    using has_block_other [OF bread_has_block [OF 1(1) D(2)] R2(4) bread_others [OF 2(1) R1(1)] nb] R2(5)
    by (simp add: same_disk_def)
  have h2: "has_block m2 b2 n2" by (rule bread_has_block [OF 2(1) R1(1)])
  show ?thesis
    using 1(1) 2(1) copy_tail_in [OF 2(2) R2(1) h1 h2 nb] copy_tail_in [OF 2(2) R2(1) h2 h1 nb [symmetric]]
    by blast
qed

lemma calm_after:
  assumes "calm s" "thread_in {} t" "bio_inv (\<lambda>_. 0) t" "op_frame s t"
  shows "calm t"
  using assms op_frame_locked [OF assms(4)] by (simp add: calm_def)

lemma kfor_total:
  assumes "\<And>i s. i < n \<Longrightarrow> P i s \<Longrightarrow> \<exists>t. body i s = Ok () t \<and> P (Suc i) t" and "P 0 s"
  shows "\<exists>t. kfor [0..<n] body s = Ok () t \<and> P n t"
  using assms(1)
proof (induction n)
  case (Suc n)
  then obtain m where m: "kfor [0..<n] body s = Ok () m" "P n m" by force
  obtain t where "body n m = Ok () t" "P (Suc n) t" using Suc.prems(1) [OF lessI m(2)] by blast
  with m(1) show ?case by (auto simp: kfor_append kseq_def kbind_def)
qed (use assms(2) in simp)

text \<open>The positions of the log and the logged blocks lie on the disk, and the blocks pinned in the
  cache are exactly the logged ones.\<close>

definition log_room :: "'x log_st_scheme \<Rightarrow> bool" where
  "log_room s \<longleftrightarrow> log_layout (lg s) \<and> log_head (lg s) + LOGSIZE < disksize s
     \<and> (\<forall>i < log_len (lg s). log_home (lg s) i < disksize s)
     \<and> inj_on (log_home (lg s)) {..<log_len (lg s)} \<and> log_len (lg s) < NBUF"

definition log_pinned :: "'x log_st_scheme \<Rightarrow> bool" where
  "log_pinned s \<longleftrightarrow> dset (bufs s) = log_home (lg s) ` {..<log_len (lg s)}"

lemma log_roomD:
  assumes "log_room s"
  shows "log_layout (lg s)" "log_head (lg s) < disksize s" "i < log_len (lg s) \<Longrightarrow> log_slot (lg s) i < disksize s"
    "i < log_len (lg s) \<Longrightarrow> log_home (lg s) i < disksize s" "inj_on (log_home (lg s)) {..<log_len (lg s)}"
    "log_len (lg s) < NBUF"
  using assms log_positions(2) [of "lg s" i] log_layoutD(8) [of "lg s"] by (auto simp: log_room_def)

lemma log_home_notin:
  assumes "log_layout l"
  shows "j < log_len l \<Longrightarrow> log_slot l j \<notin> log_home l ` {..<log_len l}"
    and "log_head l \<notin> log_home l ` {..<log_len l}"
  using log_home_slot(1) [OF assms] log_layoutD(7) [OF assms]
  by (metis imageE lessThan_iff) (metis imageE lessThan_iff log_home_slot(2) [OF assms])

lemma lh_blk_eval:
  "i < length (lh_block (lg_lh (lg s))) \<Longrightarrow> lh_blk i s = Ok (lh_block (lg_lh (lg s)) ! i) s"
  by (simp add: lh_blk_def)

lemma log_slot_u32: "log_slot (lg s) k = unat (log_blockno k s)"
  by (simp add: log_slot_def log_blockno_def)

lemma bread_lg: "bread 1 n s = Ok b m \<Longrightarrow> bio_inv w s \<Longrightarrow> lg m = lg s"
  using bread_Ok(4) [of n s b m w] by (simp add: io_frame_def log_st_more)

lemma write_log_in:
  assumes C: "calm s" and r: "log_room s" and p: "log_pinned s"
  shows "\<exists>t. write_log s = Ok () t \<and> calm t"
proof -
  let ?l = "lg s" and ?n = "log_len (lg s)"
  note L = log_roomD [OF r] and Y = log_layoutD [OF log_roomD(1) [OF r]]
  let ?body = "\<lambda>tail. kbind (kget (\<lambda>s. (lg_dev (lg s), log_blockno tail s))) (\<lambda>(dev, ln).
       kbind (bread dev ln) (\<lambda>to. kbind (lh_blk tail) (\<lambda>home. kbind (bread dev home) (\<lambda>from.
       kbind (buf_data from) (\<lambda>d. copy_tail from to d)))))"
  have "\<exists>t. kfor [0..<?n] ?body s = Ok () t \<and> (calm t \<and> lg t = ?l \<and> dset (bufs t) = dset (bufs s) \<and> disksize t = disksize s)"
  proof (rule kfor_total [where P = "\<lambda>i t. calm t \<and> lg t = ?l \<and> dset (bufs t) = dset (bufs s) \<and> disksize t = disksize s"])
    fix i m assume i: "i < ?n" and m: "calm m \<and> lg m = ?l \<and> dset (bufs m) = dset (bufs s) \<and> disksize m = disksize s"
    let ?x = "log_blockno i m" and ?y = "lh_block (lg_lh ?l) ! i"
    have u: "unat ?x = log_slot ?l i" "unat ?y = log_home ?l i"
      using log_slot_u32 [of m i] m by (simp_all add: log_home_def)
    have ne: "?x \<noteq> ?y" using log_home_slot(1) [OF L(1) i i] u by auto
    have dm: "unat ?y \<in> dset (bufs m)" using p m u i by (auto simp: log_pinned_def)
    have cd: "card (dset (bufs m)) < NBUF"
      using p m L(5,6) by (simp add: log_pinned_def card_image)
    obtain b1 m1 b2 m2 t where 1: "bread 1 ?x m = Ok b1 m1" "bread 1 ?y m1 = Ok b2 m2"
      and t: "copy_tail b2 b1 (b_data (bufs m2 b2)) m2 = Ok () t" "thread_in {} t"
      using copy_block_in [OF conjunct1 [OF m] cd ne] dm L(3,4) [OF i] u m by fastforce
    note inv = calmD(2) [OF conjunct1 [OF m]]
    have W: "bio_inv (\<lambda>_. 0) t" "bio_st.more t = bio_st.more m" "wrote [(unat ?x, view m (unat ?y))] m t"
      using copy_wrote [OF 1 inv _ t(1), of ?y ?x] by auto
    have "unat ?x \<notin> dset (bufs s)"
      using p u log_home_notin(1) [OF L(1) i] by (simp add: log_pinned_def)
    then have "dset (bufs t) = dset (bufs s)" using wroteD(4) [OF W(3)] m by simp
    moreover have "calm t" by (rule calm_after [OF conjunct1 [OF m] t(2) W(1) wroteD(5) [OF W(3)]])
    moreover have "disksize t = disksize s" using op_frame_disksize [OF wroteD(5) [OF W(3)]] m by simp
    moreover have "?body i m = Ok () t"
      using 1 t(1) m bread_lg [OF 1(1) inv] Y(1,6) i Y(8)
      by (simp add: kbind_def lh_blk_eval buf_data_def)
    ultimately show "\<exists>t. ?body i m = Ok () t \<and> (calm t \<and> lg t = ?l \<and> dset (bufs t) = dset (bufs s) \<and> disksize t = disksize s)"
      using W(2) m by (auto simp: log_st_more)
  qed (use C in simp)
  then show ?thesis by (auto simp: write_log_def copy_tail_def log_len_def)
qed

lemma install_trans_in:
  assumes C: "calm s" and r: "log_room s"
    and p: "log_pinned s \<or> card (dset (bufs s)) + 1 < NBUF"
  shows "\<exists>t. install_trans s = Ok () t \<and> calm t"
proof -
  let ?l = "lg s" and ?n = "log_len (lg s)"
  note L = log_roomD [OF r] and Y = log_layoutD [OF log_roomD(1) [OF r]]
  let ?body = "\<lambda>tail. kbind (kget (\<lambda>s. (lg_dev (lg s), log_blockno tail s))) (\<lambda>(dev, ln).
       kbind (bread dev ln) (\<lambda>lbuf. kbind (lh_blk tail) (\<lambda>home. kbind (bread dev home) (\<lambda>dbuf.
       kbind (buf_data lbuf) (\<lambda>d. copy_tail lbuf dbuf d)))))"
  let ?P = "\<lambda>i t. calm t \<and> lg t = ?l \<and> dset (bufs t) = dset (bufs s) - log_home ?l ` {..<i} \<and> disksize t = disksize s"
  have "\<exists>t. kfor [0..<?n] ?body s = Ok () t \<and> ?P ?n t"
  proof (rule kfor_total [where P = ?P])
    fix i m assume i: "i < ?n" and m: "?P i m"
    let ?x = "log_blockno i m" and ?y = "lh_block (lg_lh ?l) ! i"
    have u: "unat ?x = log_slot ?l i" "unat ?y = log_home ?l i"
      using log_slot_u32 [of m i] m by (simp_all add: log_home_def)
    have ne: "?x \<noteq> ?y" using log_home_slot(1) [OF L(1) i i] u by auto
    have sub: "card (dset (bufs m)) \<le> card (dset (bufs s))" using m by (intro card_mono) auto
    have cd: "card (dset (bufs m)) < NBUF"
      using sub p L(5,6) by (auto simp: log_pinned_def card_image)
    have dm: "unat ?y \<in> dset (bufs m) \<or> card (dset (bufs m)) + 1 < NBUF"
    proof (cases "log_pinned s")
      case True
      have "log_home ?l i \<notin> log_home ?l ` {..<i}" 
      proof
        assume "log_home ?l i \<in> log_home ?l ` {..<i}"
        then obtain j where "j < i" "log_home ?l i = log_home ?l j" by auto
        then show False using inj_onD [OF L(5), of i j] i by simp
      qed
      then show ?thesis using True m u i by (auto simp: log_pinned_def)
    qed (use p sub in auto)
    obtain b1 m1 b2 m2 t where 1: "bread 1 ?x m = Ok b1 m1" "bread 1 ?y m1 = Ok b2 m2"
      and t: "copy_tail b1 b2 (b_data (bufs m2 b1)) m2 = Ok () t" "thread_in {} t"
      using copy_block_in [OF conjunct1 [OF m] cd ne dm] L(3,4) [OF i] u m by fastforce
    note inv = calmD(2) [OF conjunct1 [OF m]]
    have W: "bio_inv (\<lambda>_. 0) t" "bio_st.more t = bio_st.more m" "wrote [(unat ?y, view m (unat ?x))] m t"
      using copy_wrote [OF 1 inv _ t(1), of ?x ?y] by auto
    have "dset (bufs t) = dset (bufs s) - log_home ?l ` {..<Suc i}"
      using wroteD(4) [OF W(3)] m u by (auto simp: lessThan_Suc)
    moreover have "calm t" by (rule calm_after [OF conjunct1 [OF m] t(2) W(1) wroteD(5) [OF W(3)]])
    moreover have "disksize t = disksize s" using op_frame_disksize [OF wroteD(5) [OF W(3)]] m by simp
    moreover have "?body i m = Ok () t"
      using 1 t(1) m bread_lg [OF 1(1) inv] Y(1,6) i Y(8)
      by (simp add: kbind_def lh_blk_eval buf_data_def)
    ultimately show "\<exists>t. ?body i m = Ok () t \<and> ?P (Suc i) t"
      using W(2) m by (auto simp: log_st_more)
  qed (use C in simp)
  then show ?thesis by (auto simp: install_trans_def copy_tail_def log_len_def)
qed

lemma store_loop_in:
  assumes "k \<le> length (lh_block (lg_lh (lg s)))"
  shows "\<exists>t. kfor [0..<k] (\<lambda>i. kbind (lh_blk i) (\<lambda>v. kbind (buf_data b) (\<lambda>d. buf_store b (put32 (i + 1) v d)))) s = Ok () t
     \<and> lg t = lg s"
  by (rule kfor_total [where P = "\<lambda>_ t. lg t = lg s"])
    (use assms in \<open>auto simp: lh_blk_eval buf_data_def thread_in_store kbind_def\<close>)

lemma write_head_in:
  assumes C: "calm s" and c: "card (dset (bufs s)) < NBUF" and dev: "lg_dev (lg s) = 1"
    and sz: "log_head (lg s) < disksize s" and n: "0 \<le> lh_n (lg_lh (lg s))" "lh_n (lg_lh (lg s)) \<le> int LOGSIZE"
    and len: "length (lh_block (lg_lh (lg s))) = LOGSIZE"
  shows "\<exists>t. write_head s = Ok () t \<and> calm t"
proof -
  note D = calmD [OF C]
  let ?x = "word_of_int (lg_start (lg s)) :: u32" and ?n = "lh_n (lg_lh (lg s))" and ?bs = "lh_block (lg_lh (lg s))"
  obtain b m where 1: "bread 1 ?x s = Ok b m" "thread_in {} m"
    using bread_in [OF D(1) _ _ D(2) avail_first [OF C c], of ?x] sz by (auto simp: log_head_def)
  note R = bread_Ok [OF 1(1) D(2)] and h = bread_has_block [OF 1(1) D(2)]
  note H = has_blockD [OF h]
  have lg: "lg m = lg s" by (rule bread_lg [OF 1(1) D(2)])
  let ?d0 = "put32 0 (word_of_int ?n) (b_data (bufs m b))"
  let ?a = "m\<lparr>bufs := (bufs m)(b := (bufs m b)\<lparr>b_data := ?d0\<rparr>)\<rparr>"
  have a: "buf_store b ?d0 m = Ok () ?a" by (rule thread_in_store)
  have "nat ?n \<le> length (lh_block (lg_lh (lg ?a)))" using n(2) len lg by simp
  then obtain e where e: "kfor [0..<nat ?n] (\<lambda>i. kbind (lh_blk i) (\<lambda>v. kbind (buf_data b) (\<lambda>d. buf_store b (put32 (i + 1) v d)))) ?a = Ok () e"
    using store_loop_in [of "nat ?n" ?a b] by blast
  let ?d = "header ?n ?bs (b_data (bufs m b))"
  have st: "buf_store b ?d m = Ok () e"
    using store_loop(1) [OF e] by (simp add: lg buf_store_def upd_buf_def header_def)
  have "length ?d = BSIZE"
    by (rule header_fits(1) [OF _ n]) (rule cache_invD(8) [OF R(1) [unfolded bio_inv_def] H(2,3)])
  note E = buf_store_Ok [OF st R(1) H(1,3) this]
  have te: "thread_in {} e" using 1(2) by (simp add: E(11))
  obtain f where f: "bwrite b e = Ok () f" "thread_in {} f" using bwrite_in [OF te _ E(2,1,7)] by auto
  note F = bwrite_Ok [OF f(1) E(1) H(2) E(7)]
  obtain t where t: "brelse b f = Ok () t" "thread_in {} t" using brelse_in [OF f(2) _ _ _ F(3)] by auto
  have run: "write_head s = Ok () t"
    using 1(1) a e f(1) t(1) dev by (simp add: write_head_def kbind_def kseq_def buf_data_def lg)
  have W: "bio_inv (\<lambda>_. 0) t" "wrote [(log_head (lg s), header ?n ?bs (view s (log_head (lg s))))] s t"
    using write_head_Ok [OF run D(2) dev n] by auto
  with calm_after [OF C t(2) W(1) wroteD(5) [OF W(2)]] run show ?thesis by blast
qed

lemma commit_in:
  assumes C: "calm s" and r: "log_room s" and p: "log_pinned s" and n: "0 < lh_n (lg_lh (lg s))"
  shows "\<exists>t. commit s = Ok () t \<and> calm t"
proof -
  let ?l = "lg s"
  note L = log_roomD [OF r] and Y = log_layoutD [OF log_roomD(1) [OF r]]
  note D = calmD [OF C]
  have c: "card (dset (bufs s)) < NBUF" using p L(5,6) by (simp add: log_pinned_def card_image)
  obtain a where a: "write_log s = Ok () a" "calm a" using write_log_in [OF C r p] by blast
  have A: "bio_st.more a = bio_st.more s"
      "wrote (map (\<lambda>k. (log_slot ?l k, view s (log_home ?l k))) [0..<log_len ?l]) s a"
    using write_log_Ok [OF a(1) D(2) Y(1) log_home_slot(1) [OF L(1)]] by auto
  have la: "lg a = ?l" using A(1) by (simp add: log_st_more)
  have "x \<notin> fst ` set (map (\<lambda>k. (log_slot ?l k, view s (log_home ?l k))) [0..<log_len ?l])" if x: "x \<in> dset (bufs s)" for x
  proof
    assume "x \<in> fst ` set (map (\<lambda>k. (log_slot ?l k, view s (log_home ?l k))) [0..<log_len ?l])"
    then obtain j where "j < log_len ?l" "x = log_slot ?l j" by auto
    moreover obtain i where "i < log_len ?l" "x = log_home ?l i" using x p by (auto simp: log_pinned_def)
    ultimately show False using log_home_slot(1) [OF L(1), of i j] by simp
  qed
  then have da: "dset (bufs a) = dset (bufs s)" using wroteD(4) [OF A(2)] by blast
  have sa: "disksize a = disksize s" by (rule op_frame_disksize [OF wroteD(5) [OF A(2)]])
  obtain b where b: "write_head a = Ok () b" "calm b"
    using write_head_in [OF a(2)] da la sa c L(2) Y(1,4,5,6) by auto
  have B: "bio_st.more b = bio_st.more a"
    "wrote [(log_head ?l, hdr_on ?l (view a))] a b"
    using write_head_Ok [OF b(1) calmD(2) [OF a(2)]] la Y(1,4,5) by (simp_all add: hdr_on_def)
  have lb: "lg b = ?l" using B(1) la by (simp add: log_st_more)
  have "log_head ?l \<notin> dset (bufs s)" using p log_home_notin(2) [OF L(1)] by (simp add: log_pinned_def)
  then have db: "dset (bufs b) = dset (bufs s)" using wroteD(4) [OF B(2)] da by simp
  have sb: "disksize b = disksize s" using op_frame_disksize [OF wroteD(5) [OF B(2)]] sa by simp
  have rb: "log_room b" "log_pinned b" using r p by (simp_all add: log_room_def log_pinned_def lb sb db)
  obtain e where e: "install_trans b = Ok () e" "calm e" using install_trans_in [OF b(2) rb(1)] rb(2) by blast
  have E0: "bio_inv (\<lambda>_. 0) e \<and> bio_st.more e = bio_st.more b \<and>
      wrote (map (\<lambda>k. (log_home (lg b) k, view b (log_slot (lg b) k))) [0..<log_len (lg b)]) b e"
    by (rule install_trans_Ok [OF e(1) calmD(2) [OF b(2)]])
      (simp_all add: lb Y(1) log_home_slot(1) [OF L(1), symmetric])
  have E: "lg e = ?l" "wrote (map (\<lambda>k. (log_home ?l k, view b (log_slot ?l k))) [0..<log_len ?l]) b e"
    using E0 lb by (simp_all add: log_st_more)
  have se: "disksize e = disksize s" using op_frame_disksize [OF wroteD(5) [OF E(2)]] sb by simp
  have ce: "card (dset (bufs e)) < NBUF"
  proof -
    have "dset (bufs e) \<subseteq> dset (bufs s)" using wroteD(4) [OF E(2)] db by blast
    then have "card (dset (bufs e)) \<le> card (dset (bufs s))" by (intro card_mono) simp_all
    with c show ?thesis by simp
  qed
  obtain t where t: "write_head (e\<lparr>lg := emptied (lg e)\<rparr>) = Ok () t" "calm t"
    using write_head_in [of "e\<lparr>lg := emptied (lg e)\<rparr>"] e(2) ce E(1) se L(2) Y(1,6) by auto
  have "commit s = Ok () t"
    using a(1) b(1) e(1) t(1) n
    by (simp add: commit_def kbind_def kseq_def upd_lh_def upd_log_def emptied_def)
  with t(2) show ?thesis by blast
qed

section \<open>log_write\<close>

text \<open>The header after \<open>log_write\<close> of block \<open>bno\<close>.\<close>

definition lh_add :: "u32 \<Rightarrow> logheader \<Rightarrow> logheader" where
  "lh_add bno h = (let i = log_index h bno in
     \<lparr>lh_n = (if int i = lh_n h then lh_n h + 1 else lh_n h), lh_block = (lh_block h)[i := bno]\<rparr>)"

lemma upd_lh_eval: "upd_lh f s = Ok () (s\<lparr>lg := (lg s)\<lparr>lg_lh := f (lg_lh (lg s))\<rparr>\<rparr>)"
  by (simp add: upd_lh_def upd_log_def)

lemma lg_buf_swap: "(s\<lparr>lg := x\<rparr>)\<lparr>bufs := B\<rparr> = (s\<lparr>bufs := B\<rparr>)\<lparr>lg := x\<rparr>"
  by simp

lemma log_write_parts:
  assumes g: "log_write b s = Ok u t"
  shows "lh_n (lg_lh (lg s)) < int LOGSIZE" "lh_n (lg_lh (lg s)) < lg_size (lg s) - 1"
    "1 \<le> lg_outstanding (lg s)"
    "\<exists>a m. acquire L_log s = Ok () a
      \<and> mark_dirty b a = Ok () m
      \<and> release L_log (m\<lparr>lg := (lg s)\<lparr>lg_lh := lh_add (b_blockno (bufs s b)) (lg_lh (lg s))\<rparr>\<rparr>) = Ok () t"
proof -
  from g show "lh_n (lg_lh (lg s)) < int LOGSIZE" "lh_n (lg_lh (lg s)) < lg_size (lg s) - 1"
    "1 \<le> lg_outstanding (lg s)" by (auto simp: log_write_def split: if_splits)
  from g obtain a where a: "acquire L_log s = Ok () a"
    by (auto simp: log_write_def kseq_eq_Ok split: if_splits)
  have s: "bufs a = bufs s" "lg a = lg s" using acquire_thread(3) [OF a] by (auto simp: bio_st_more log_st_more)
  let ?h = "lg_lh (lg s)" and ?bno = "b_blockno (bufs s b)"
  let ?i = "log_index ?h ?bno"
  let ?m = "a\<lparr>bufs := (bufs a)(b := (bufs a b)\<lparr>b_flags := b_flags (bufs a b) OR B_DIRTY\<rparr>)\<rparr>"
  have h: "(if int ?i = lh_n ?h then ?h\<lparr>lh_block := (lh_block ?h)[?i := ?bno], lh_n := lh_n ?h + 1\<rparr>
      else ?h\<lparr>lh_block := (lh_block ?h)[?i := ?bno]\<rparr>) = lh_add ?bno ?h"
    by (cases ?h) (simp add: lh_add_def Let_def)
  have "release L_log (?m\<lparr>lg := (lg s)\<lparr>lg_lh := lh_add ?bno ?h\<rparr>\<rparr>) = Ok () t"
    using g by (auto simp: log_write_def kseq_eq_Ok kbind_eq_Ok a kwhen_def upd_lh_eval mark_dirty_def
      upd_buf_def s h [symmetric] lg_buf_swap split: if_splits)
  then show "\<exists>a m. acquire L_log s = Ok () a \<and> mark_dirty b a = Ok () m
      \<and> release L_log (m\<lparr>lg := (lg s)\<lparr>lg_lh := lh_add ?bno ?h\<rparr>\<rparr>) = Ok () t"
    using a by (intro exI [of _ a] exI [of _ ?m]) (simp add: mark_dirty_def upd_buf_def)
qed

lemma log_write_Ok:
  assumes g: "log_write b s = Ok u t" and inv: "bio_inv w s" and h: "held s b" and v: "valid (bufs s b)"
  defines "n \<equiv> unat (b_blockno (bufs s b))"
  shows "bio_inv w t" "held t b" "same_disk s t" "view t = view s" "synced t b" "valid (bufs t b)"
    "dset (bufs t) = insert n (dset (bufs s))" "others b s t" "thread_frame s t" "slocks t = slocks s"
    "disksize t = disksize s" "log_st.more t = log_st.more s"
    "lg t = (lg s)\<lparr>lg_lh := lh_add (b_blockno (bufs s b)) (lg_lh (lg s))\<rparr>"
    "b_blockno (bufs t b) = b_blockno (bufs s b)" "b_data (bufs t b) = b_data (bufs s b)"
proof -
  obtain a m where a: "acquire L_log s = Ok () a" and m: "mark_dirty b a = Ok () m"
    and r: "release L_log (m\<lparr>lg := (lg s)\<lparr>lg_lh := lh_add (b_blockno (bufs s b)) (lg_lh (lg s))\<rparr>\<rparr>) = Ok () t"
    using log_write_parts(4) [OF g] by (elim exE conjE) (rule that)
  note A = acquire_thread [OF a] and R = release_thread [OF r]
  let ?L = "(lg s)\<lparr>lg_lh := lh_add (b_blockno (bufs s b)) (lg_lh (lg s))\<rparr>"
  have a': "bufs a = bufs s" "memdisk a = memdisk s" "disk_writes a = disk_writes s" "disksize a = disksize s"
    "lg a = lg s" "log_st.more a = log_st.more s"
    using A(3) by (simp_all add: bio_st_more log_st_more)
  have ia: "bio_inv w a" "held a b" "view a = view s"
    using inv h held_frame [OF A(1), of b] A(2) by (simp_all add: bio_inv_def a' locked_bufs_def [abs_def] view_def)
  note M = mark_dirty_Ok [OF m ia(1,2), unfolded a'(1), OF v]
  have lm: "lg m = lg s" "log_st.more m = log_st.more s"
    using M(3) a' by (simp_all add: io_frame_def log_st_more)
  have t: "bufs t = bufs m" "memdisk t = memdisk m" "disk_writes t = disk_writes m" "disksize t = disksize m"
    "lg t = ?L" "log_st.more t = log_st.more s"
    using R(3) lm by (simp_all add: bio_st_more log_st_more)
  show "lg t = ?L" "log_st.more t = log_st.more s" by (rule t)+
  show sl: "slocks t = slocks s" using R(2) M(11) A(2) by simp
  have lk: "locked_bufs t = locked_bufs m" using R(2) by (simp add: locked_bufs_def fun_eq_iff)
  show "bio_inv w t" using M(1) by (simp add: bio_inv_def t lk)
  show tf: "thread_frame s t" using A(1) M(3) R(1) thread_frame_trans [of m "m\<lparr>lg := ?L\<rparr>" t]
      op_frame_thread [OF op_frame_lg [of m ?L]]
    by (auto simp: io_frame_def intro: thread_frame_trans)
  show "held t b" using h held_frame [OF tf] sl by simp
  show "same_disk s t" using M(4) by (simp add: same_disk_def t a')
  show "view t = view s" using M(5) ia(3) by (simp add: view_def t)
  show "synced t b" using M(8) by (simp add: synced_def t)
  show "valid (bufs t b)" using M(7) by (simp add: t)
  show "dset (bufs t) = insert n (dset (bufs s))" using M(6) by (simp add: t n_def)
  show "others b s t" using mark_dirty_others [OF m] by (simp add: others_def t a')
  show "disksize t = disksize s" using M(3) by (simp add: io_frame_def t a')
  show "b_blockno (bufs t b) = b_blockno (bufs s b)" "b_data (bufs t b) = b_data (bufs s b)"
    using M(9,10) by (simp_all add: t)
qed

text \<open>The blocks of a header, and what \<open>lh_add\<close> does to them.\<close>

definition lh_set :: "logheader \<Rightarrow> nat set" where
  "lh_set h = (\<lambda>i. unat (lh_block h ! i)) ` {..<nat (lh_n h)}"

lemma log_home_lh: "log_home l = (\<lambda>i. unat (lh_block (lg_lh l) ! i))"
  by (simp add: log_home_def fun_eq_iff)

lemma lh_set_home: "lh_set (lg_lh l) = log_home l ` {..<log_len l}"
  by (simp add: lh_set_def log_home_lh log_len_def)

lemma log_index_le: "log_index h bno \<le> nat (lh_n h)"
  by (auto simp: log_index_def find_Some_iff split: option.split)

lemma log_index_hit:
  assumes "log_index h bno < nat (lh_n h)"
  shows "lh_block h ! log_index h bno = bno"
proof (cases "find (\<lambda>i. lh_block h ! i = bno) [0..<nat (lh_n h)]")
  case (Some i)
  then have "lh_block h ! i = bno" by (simp add: find_Some_iff) metis
  with Some show ?thesis by (simp add: log_index_def)
qed (use assms in \<open>simp add: log_index_def\<close>)

lemma log_index_miss:
  assumes "log_index h bno = nat (lh_n h)" "i < nat (lh_n h)"
  shows "lh_block h ! i \<noteq> bno"
proof (cases "find (\<lambda>i. lh_block h ! i = bno) [0..<nat (lh_n h)]")
  case None
  then show ?thesis using assms(2) by (simp add: find_None_iff)
next
  case (Some j)
  then have "j < nat (lh_n h)" by (auto simp: find_Some_iff)
  with Some assms(1) show ?thesis by (simp add: log_index_def)
qed

lemma lh_add_props:
  assumes "0 \<le> lh_n h" "lh_n h < int (length (lh_block h))"
  shows "lh_set (lh_add bno h) = insert (unat bno) (lh_set h)"
    "length (lh_block (lh_add bno h)) = length (lh_block h)"
    "lh_n (lh_add bno h) \<le> lh_n h + 1" "0 \<le> lh_n (lh_add bno h)"
    "inj_on (\<lambda>i. unat (lh_block h ! i)) {..<nat (lh_n h)} \<Longrightarrow>
     inj_on (\<lambda>i. unat (lh_block (lh_add bno h) ! i)) {..<nat (lh_n (lh_add bno h))}"
proof -
  let ?i = "log_index h bno" and ?n = "nat (lh_n h)"
  show "length (lh_block (lh_add bno h)) = length (lh_block h)"
    "lh_n (lh_add bno h) \<le> lh_n h + 1" "0 \<le> lh_n (lh_add bno h)"
    using assms(1) by (simp_all add: lh_add_def Let_def)
  have len: "?n < length (lh_block h)" using assms by linarith
  consider "?i < ?n" | "?i = ?n" using log_index_le [of h bno] by linarith
  note cases = this
  have hit: "lh_add bno h = h" if i: "?i < ?n"
  proof -
    have "(lh_block h)[?i := bno] = lh_block h"
      using list_update_id [of "lh_block h" ?i] log_index_hit [OF i] by simp
    moreover have "int ?i \<noteq> lh_n h" using i assms(1) by auto
    ultimately show ?thesis by (simp add: lh_add_def Let_def)
  qed
  have miss: "?i = ?n \<Longrightarrow> lh_n (lh_add bno h) = int (Suc ?n) \<and> lh_block (lh_add bno h) = (lh_block h)[?n := bno]"
    using assms(1) by (simp add: lh_add_def Let_def)
  show "lh_set (lh_add bno h) = insert (unat bno) (lh_set h)"
  proof (rule cases)
    assume i: "?i < ?n"
    then have "unat bno \<in> lh_set h" using log_index_hit [OF i] unfolding lh_set_def
      by (intro image_eqI [of _ _ ?i]) auto
    then show ?thesis by (simp add: hit [OF i] insert_absorb)
  next
    assume i: "?i = ?n"
    have e: "nat (lh_n (lh_add bno h)) = Suc ?n" "lh_block (lh_add bno h) = (lh_block h)[?n := bno]"
      using miss [OF i] by (auto simp del: of_nat_Suc)
    have "(\<lambda>i. unat ((lh_block h)[?n := bno] ! i)) ` {..<?n} = (\<lambda>i. unat (lh_block h ! i)) ` {..<?n}"
      by (rule image_cong) simp_all
    then show ?thesis unfolding lh_set_def e lessThan_Suc image_insert using len by simp
  qed
  assume inj: "inj_on (\<lambda>i. unat (lh_block h ! i)) {..<?n}"
  show "inj_on (\<lambda>i. unat (lh_block (lh_add bno h) ! i)) {..<nat (lh_n (lh_add bno h))}"
  proof (rule cases)
    assume i: "?i = ?n"
    have ne: "unat bno \<noteq> unat (lh_block h ! k)" if "k < ?n" for k
      using log_index_miss [OF i that] by (simp add: word_unat_eq_iff eq_commute)
    have "inj_on (\<lambda>k. unat ((lh_block h)[?n := bno] ! k)) {..<?n}"
      using inj by (auto simp: inj_on_def nth_list_update)
    then have "inj_on (\<lambda>k. unat ((lh_block h)[?n := bno] ! k)) {..<Suc ?n}"
      using len by (simp add: lessThan_Suc image_iff ne)
    with miss [OF i] show ?thesis by (auto simp del: of_nat_Suc)
  qed (simp add: hit inj)
qed

text \<open>The log invariant between transactions' writes: \<open>log_room\<close> without the bound on the number
  of blocks, and the pinned blocks are the logged ones.\<close>

definition log_inv :: "'x log_st_scheme \<Rightarrow> bool" where
  "log_inv s \<longleftrightarrow> log_layout (lg s) \<and> log_head (lg s) + LOGSIZE < disksize s
     \<and> (\<forall>i < log_len (lg s). log_home (lg s) i < disksize s)
     \<and> inj_on (log_home (lg s)) {..<log_len (lg s)} \<and> log_len (lg s) < nat (lg_size (lg s))
     \<and> lg_size (lg s) \<le> int LOGSIZE \<and> log_pinned s"

lemma log_inv_room: "log_inv s \<Longrightarrow> log_room s \<and> log_pinned s"
  by (auto simp: log_inv_def log_room_def LOGSIZE_def NBUF_def)

lemma log_write_inv:
  assumes g: "log_write b s = Ok u t" and inv: "bio_inv w s" and h: "held s b" and v: "valid (bufs s b)"
    and li: "log_inv s" and out: "unat (b_blockno (bufs s b)) \<notin> log_region (log_head (lg s))"
  shows "log_inv t"
proof -
  let ?bno = "b_blockno (bufs s b)" and ?h = "lg_lh (lg s)"
  note T = log_write_Ok [OF g inv h v] and P = log_write_parts [OF g]
  have l: "log_layout (lg s)" using li by (simp add: log_inv_def)
  note L = log_layoutD [OF l]
  have A: "0 \<le> lh_n ?h" "lh_n ?h < int (length (lh_block ?h))" using L P by simp_all
  note X = lh_add_props [OF A, of ?bno]
  have lt: "lg_lh (lg t) = lh_add ?bno ?h" "lg_start (lg t) = lg_start (lg s)" "lg_dev (lg t) = lg_dev (lg s)"
    "lg_size (lg t) = lg_size (lg s)" "log_head (lg t) = log_head (lg s)"
    using T(13) by (simp_all add: log_head_def)
  have set: "log_home (lg t) ` {..<log_len (lg t)} = insert (unat ?bno) (log_home (lg s) ` {..<log_len (lg s)})"
    using X(1) lh_set_home [of "lg t"] lh_set_home [of "lg s"] lt(1) by simp
  have mem: "x \<in> insert (unat ?bno) (log_home (lg s) ` {..<log_len (lg s)})" if "x = log_home (lg t) i" "i < log_len (lg t)" for x i
    using set that by blast
  have reg: "log_home (lg t) i \<notin> log_region (log_head (lg s))" if "i < log_len (lg t)" for i
    using mem [OF refl that] out L(7) by (auto simp: log_region_def)
  have sz: "unat ?bno < disksize s" using cache_invD(7) [OF inv [unfolded bio_inv_def] held_lt [OF h] v] .
  have szs: "\<forall>i < log_len (lg s). log_home (lg s) i < disksize s" using li by (simp add: log_inv_def)
  have dsk: "log_home (lg t) i < disksize s" if "i < log_len (lg t)" for i
    using mem [OF refl that] sz szs by auto
  have lay: "log_layout (lg t)"
    using L(1-6) X(2-4) P(1) reg by (simp add: log_layout_def lt)
  have inj: "inj_on (log_home (lg t)) {..<log_len (lg t)}"
    using X(5) li by (simp add: log_inv_def log_home_lh log_len_def lt)
  have "log_len (lg t) < nat (lg_size (lg s))" using X(3) P(2) A(1) by (simp add: log_len_def lt)
  moreover have "log_pinned t" using T(7) set li by (simp add: log_inv_def log_pinned_def)
  ultimately show ?thesis using lay dsk inj li T(11) by (simp add: log_inv_def lt)
qed

section \<open>Properties of the log\<close>

lemma calm_clean_view:
  assumes "calm s" "b \<notin> dset (bufs s)"
  shows "view s b = memdisk s b"
proof (cases "\<exists>i < NBUF. holds (bufs s i) b")
  case True
  then obtain i where i: "i < NBUF" "holds (bufs s i) b" by blast
  note C = calmD [OF assms(1)]
  have v: "valid (bufs s i)" "unat (b_blockno (bufs s i)) = b" using i(2) by (simp_all add: holds_def)
  then have "\<not> dirty (bufs s i)" using assms(2) i(1) by (auto simp: dset_def)
  then show ?thesis
    using cache_view_hit [OF C(2) [unfolded bio_inv_def] i] cache_invD(9) [OF C(2) [unfolded bio_inv_def] i(1) v(1)] C(3) [OF i(1)] v(2)
    by (simp add: view_def)
next
  case False
  then have n: "\<And>i. i < NBUF \<Longrightarrow> \<not> holds (bufs s i) b" by blast
  show ?thesis unfolding view_def by (rule cache_view_miss [OF n])
qed

text \<open>What a commit at a quiet moment leaves.\<close>

lemma commit_result:
  assumes C: "calm s" and r: "log_room s" and p: "log_pinned s" and n: "0 < lh_n (lg_lh (lg s))"
  shows "\<exists>t. commit s = Ok () t \<and> calm t \<and> lg t = emptied (lg s) \<and> dset (bufs t) = {}
    \<and> log_st.more t = log_st.more s \<and> disksize t = disksize s
    \<and> disk_writes t = disk_writes s @ commit_trace (lg s) (view s)
    \<and> memdisk t = apply_writes (memdisk s) (commit_trace (lg s) (view s))
    \<and> view t = apply_writes (view s) (commit_trace (lg s) (view s))"
proof -
  obtain t where t: "commit s = Ok () t" "calm t" using commit_in [OF C r p n] by blast
  note T = commit_Ok [OF t(1) calmD(2) [OF C] log_roomD(1) [OF r] n]
  note W = wroteD [OF conjunct2 [OF conjunct2 [OF conjunct2 [OF T]]]]
  have "dset (bufs s) \<subseteq> fst ` set (commit_trace (lg s) (view s))"
    using p by (auto simp: log_pinned_def commit_trace_def image_Un image_image)
  then have "dset (bufs t) = {}" using W(4) by blast
  with t T W op_frame_disksize [OF W(5)] show ?thesis by auto
qed

text \<open>
  C5. Transactions are atomic across crashes: at a quiet moment with the logged blocks pinned in
  the cache and an empty log on the disk, \<open>commit\<close> returns having made some sequence of block
  writes; after any prefix of them, recovery of the disk gives, outside the log itself, either
  every block as it was before the transaction or every logged block with its new contents.
  When \<open>commit\<close> has returned the disk has the new contents and its log is empty again.
\<close>

theorem commit_crash_atomic:
  assumes "calm s" and "log_room s" and "log_pinned s" and "0 < lh_n (lg_lh (lg s))"
    and "hdr_len (memdisk s (log_head (lg s))) = 0"
  shows "\<exists>t ws. commit s = Ok () t \<and> disk_writes t = disk_writes s @ ws
    \<and> memdisk t = apply_writes (memdisk s) ws
    \<and> (\<forall>k. txn_old (lg s) (memdisk s) (recovered (log_head (lg s)) (apply_writes (memdisk s) (take k ws)))
         \<or> txn_new (lg s) (view s) (memdisk s) (recovered (log_head (lg s)) (apply_writes (memdisk s) (take k ws))))
    \<and> txn_new (lg s) (view s) (memdisk s) (memdisk t)
    \<and> hdr_len (memdisk t (log_head (lg s))) = 0 \<and> lh_n (lg_lh (lg t)) = 0"
proof -
  obtain t where t: "commit s = Ok () t" "lg t = emptied (lg s)"
    "disk_writes t = disk_writes s @ commit_trace (lg s) (view s)"
    "memdisk t = apply_writes (memdisk s) (commit_trace (lg s) (view s))"
    using commit_result [OF assms(1-4)] by blast
  note l = log_roomD(1) [OF assms(2)]
  note v = length_view [OF calmD(2) [OF assms(1)], of "log_head (lg s)"]
  show ?thesis
    using t crash_anywhere [where D = "memdisk s" and v = "view s", OF l assms(5) v]
      crash_after_commit(2,3) [where D = "memdisk s" and v = "view s", OF l v]
    by (intro exI [of _ t] exI [of _ "commit_trace (lg s) (view s)"]) simp
qed

text \<open>A state with one logged block, 100, whose new contents are in buffer 0.\<close>

definition demo_log_buf :: "nat \<Rightarrow> buf" where
  "demo_log_buf = demo_buf(0 := (demo_buf 0)\<lparr>b_flags := 6, b_dev := 1, b_blockno := 100,
     b_data := replicate 512 7\<rparr>)"

definition demo_log_st :: log_st where
  "demo_log_st = \<lparr>ncpu = 1, cpus = demo_cpu True 0, lapic_id = 0, fl_if = True,
     locks = (\<lambda>_. \<lparr>lk_locked = False, lk_cpu = None\<rparr>),
     ptable = (\<lambda>_. zero_proc)(0 := zero_proc\<lparr>p_state := RUNNING, p_pid := 1\<rparr>),
     nextpid = 2, initproc = Some 0, ticks = 0,
     slocks = (\<lambda>_. \<lparr>sl_locked = False, sl_pid = 0\<rparr>),
     bufs = demo_log_buf, memdisk = (\<lambda>_. replicate 512 0), disksize = 1000, disk_writes = [],
     lg = \<lparr>lg_start = 2, lg_size = 30, lg_outstanding = 1, lg_committing = False, lg_dev = 1,
       lg_lh = \<lparr>lh_n = 1, lh_block = 100 # replicate 29 0\<rparr>\<rparr>\<rparr>"

lemma demo_log_flags: "valid (demo_log_buf 0)" "dirty (demo_log_buf 0)"
  "i \<noteq> 0 \<Longrightarrow> \<not> valid (demo_log_buf i)" "i \<noteq> 0 \<Longrightarrow> \<not> dirty (demo_log_buf i)"
  by (simp_all add: demo_log_buf_def demo_buf_def valid_def dirty_def B_VALID_def B_DIRTY_def)

lemma demo_log_ring: "ring demo_log_buf [0..<NBUF]"
  by (subst ring_cong [where B = demo_buf]) (simp_all add: demo_log_buf_def demo_ring)

lemma demo_log_calm: "calm demo_log_st"
proof -
  have "bio_inv (\<lambda>_. 0) demo_log_st"
    unfolding bio_inv_def
  proof (rule cache_invI [where xs = "[0..<NBUF]"])
    fix i j :: nat
    assume *: "i < NBUF" "j < NBUF" "b_dev (bufs demo_log_st i) = 1" "b_dev (bufs demo_log_st j) = 1"
    have "b_dev (bufs demo_log_st k) = 1 \<Longrightarrow> k = 0" for k
      by (cases "k = 0") (simp_all add: demo_log_st_def demo_log_buf_def demo_buf_def)
    with * show "i = j" by blast
  next
    fix i :: nat assume "i < NBUF" "valid (bufs demo_log_st i)"
    then have "i = 0" using demo_log_flags(3) by (cases "i = 0") (simp_all add: demo_log_st_def)
    then show "b_dev (bufs demo_log_st i) = 1 \<and> unat (b_blockno (bufs demo_log_st i)) < disksize demo_log_st
        \<and> length (b_data (bufs demo_log_st i)) = BSIZE"
      by (simp add: demo_log_st_def demo_log_buf_def BSIZE_def)
  next
    fix i :: nat assume i: "i < NBUF" "valid (bufs demo_log_st i)" "\<not> dirty (bufs demo_log_st i)"
    then have "i = 0" using demo_log_flags(3) by (cases "i = 0") (simp_all add: demo_log_st_def)
    then show "b_data (bufs demo_log_st i) = memdisk demo_log_st (unat (b_blockno (bufs demo_log_st i)))"
      using i(3) demo_log_flags(2) by (simp add: demo_log_st_def)
  next
    fix i :: nat assume "i < NBUF" "dirty (bufs demo_log_st i)"
    then show "valid (bufs demo_log_st i)"
      using demo_log_flags(1,4) by (cases "i = 0") (simp_all add: demo_log_st_def)
  next
    show "ring (bufs demo_log_st) [0..<NBUF]" using demo_log_ring by (simp add: demo_log_st_def)
  qed (simp_all add: demo_log_st_def demo_log_buf_def demo_buf_def locked_bufs_def NPROC_def BSIZE_def)
  then show ?thesis
    by (simp add: calm_def locked_bufs_def) (simp add: demo_log_st_def thread_in_def demo_cpu_def found_def)
qed

lemma demo_log_inv: "log_inv demo_log_st"
proof -
  have d: "dset (bufs demo_log_st) = {100}"
  proof -
    have "dset demo_log_buf = {100}"
    proof (rule set_eqI)
      fix n
      have "(\<exists>i<NBUF. dirty (demo_log_buf i) \<and> unat (b_blockno (demo_log_buf i)) = n) \<longleftrightarrow> n = 100"
      proof
        assume "\<exists>i<NBUF. dirty (demo_log_buf i) \<and> unat (b_blockno (demo_log_buf i)) = n"
        then obtain i where i: "dirty (demo_log_buf i)" "unat (b_blockno (demo_log_buf i)) = n" by blast
        then have "i = 0" using demo_log_flags(4) by blast
        with i(2) show "n = 100" by (simp add: demo_log_buf_def)
      next
        assume "n = 100"
        then show "\<exists>i<NBUF. dirty (demo_log_buf i) \<and> unat (b_blockno (demo_log_buf i)) = n"
          using demo_log_flags(2) by (intro exI [of _ 0]) (simp add: demo_log_buf_def NBUF_def MAXOPBLOCKS_def)
      qed
      then show "n \<in> dset demo_log_buf \<longleftrightarrow> n \<in> {100}" by (simp add: dset_def)
    qed
    then show ?thesis by (simp add: demo_log_st_def)
  qed
  have h: "log_home (lg demo_log_st) 0 = 100" "log_len (lg demo_log_st) = 1" "log_head (lg demo_log_st) = 2"
    by (simp_all add: log_home_def demo_log_st_def log_len_def log_head_def)
  have "log_layout (lg demo_log_st)"
    using h by (simp add: log_layout_def log_region_def LOGSIZE_def MAXOPBLOCKS_def) (simp add: demo_log_st_def)
  then show ?thesis
    unfolding log_inv_def log_pinned_def using h d
    by (simp add: lessThan_Suc LOGSIZE_def MAXOPBLOCKS_def) (simp add: demo_log_st_def)
qed

lemma hdr_zero: "hdr_len (replicate 512 0) = 0"
proof -
  have "bslice 0 4 (replicate 512 (0 :: u8)) = [0, 0, 0, 0]" by (simp add: bslice_def numeral_eq_Suc)
  then show ?thesis by (simp add: hdr_len_def get32_def word32_def)
qed

theorem commit_crash_atomic_witness:
  "\<exists>t ws. commit demo_log_st = Ok () t \<and> disk_writes t = disk_writes demo_log_st @ ws
    \<and> memdisk t = apply_writes (memdisk demo_log_st) ws
    \<and> (\<forall>k. txn_old (lg demo_log_st) (memdisk demo_log_st) (recovered (log_head (lg demo_log_st)) (apply_writes (memdisk demo_log_st) (take k ws)))
         \<or> txn_new (lg demo_log_st) (view demo_log_st) (memdisk demo_log_st) (recovered (log_head (lg demo_log_st)) (apply_writes (memdisk demo_log_st) (take k ws))))
    \<and> txn_new (lg demo_log_st) (view demo_log_st) (memdisk demo_log_st) (memdisk t)
    \<and> hdr_len (memdisk t (log_head (lg demo_log_st))) = 0 \<and> lh_n (lg_lh (lg t)) = 0"
  by (rule commit_crash_atomic [OF demo_log_calm conjunct1 [OF log_inv_room [OF demo_log_inv]]
      conjunct2 [OF log_inv_room [OF demo_log_inv]]])
    (simp_all add: demo_log_st_def hdr_zero)

text \<open>Recovery: totality of \<open>read_head\<close> and of the whole.\<close>

lemma read_loop_in:
  assumes "k \<le> LOGSIZE"
  shows "\<exists>t. kfor [0..<k] (\<lambda>i. if i < LOGSIZE then upd_lh (\<lambda>h. h\<lparr>lh_block := (lh_block h)[i := f i]\<rparr>)
             else kundef) s = Ok () t"
  using assms
proof (induction k)
  case (Suc k)
  then obtain m where "kfor [0..<k] (\<lambda>i. if i < LOGSIZE then upd_lh (\<lambda>h. h\<lparr>lh_block := (lh_block h)[i := f i]\<rparr>)
             else kundef) s = Ok () m" by auto
  with Suc.prems show ?case by (simp add: kfor_append kseq_def kbind_def upd_lh_eval)
qed simp

lemma read_head_in:
  assumes C: "calm s" and d: "card (dset (bufs s)) < NBUF" and dev: "lg_dev (lg s) = 1"
    and sz: "log_head (lg s) < disksize s" and n: "hdr_len (view s (log_head (lg s))) \<le> int LOGSIZE"
  shows "\<exists>t. read_head s = Ok () t \<and> thread_in {} t"
proof -
  note D = calmD [OF C]
  let ?x = "word_of_int (lg_start (lg s)) :: u32"
  obtain b m where 1: "bread 1 ?x s = Ok b m" "thread_in {} m"
    using bread_in [OF D(1) _ _ D(2) avail_first [OF C d], of ?x] sz by (auto simp: log_head_def)
  note R = bread_Ok [OF 1(1) D(2)]
  let ?H = "b_data (bufs m b)"
  let ?m = "m\<lparr>lg := (lg m)\<lparr>lg_lh := (lg_lh (lg m))\<lparr>lh_n := hdr_len ?H\<rparr>\<rparr>\<rparr>"
  have H: "?H = view s (log_head (lg s))" using R(13) by (simp add: log_head_def)
  have nH: "nat (hdr_len ?H) \<le> LOGSIZE" using n H by simp
  obtain c where c: "kfor [0..<nat (hdr_len ?H)] (\<lambda>i.
             if i < LOGSIZE then upd_lh (\<lambda>h. h\<lparr>lh_block := (lh_block h)[i := hdr_block ?H i]\<rparr>)
             else kundef) ?m = Ok () c"
    using read_loop_in [OF nH, of "hdr_block ?H" ?m] by blast
  have c': "thread_in {} c" "held c b"
    using read_loop [OF c] 1(2) R(3) by simp_all
  obtain t where "brelse b c = Ok () t" "thread_in {} t"
    using brelse_in [OF c'(1) _ _ _ c'(2)] by auto
  then show ?thesis
    using 1(1) c dev unfolding read_head_def hdr_len_def [symmetric] hdr_block_def [symmetric]
    by (simp add: kbind_def kseq_def buf_data_def upd_lh_eval)
qed

text \<open>A header that \<open>write_head\<close> may have left on the disk.\<close>

definition header_ok :: "block \<Rightarrow> nat \<Rightarrow> nat \<Rightarrow> bool" where
  "header_ok H st sz \<longleftrightarrow> 0 \<le> hdr_len H \<and> hdr_len H < int LOGSIZE
     \<and> (\<forall>i < nat (hdr_len H). unat (hdr_block H i) \<notin> log_region st \<and> unat (hdr_block H i) < sz)
     \<and> inj_on (\<lambda>i. unat (hdr_block H i)) {..<nat (hdr_len H)}"

lemma recover_result:
  assumes C: "calm s" and dirty: "dset (bufs s) = {}" and dev: "lg_dev (lg s) = 1"
    and st: "0 \<le> lg_start (lg s)" "lg_start (lg s) + int LOGSIZE < 2 ^ 31" "log_head (lg s) + LOGSIZE < disksize s"
    and len: "length (lh_block (lg_lh (lg s))) = LOGSIZE"
    and H: "header_ok (memdisk s (log_head (lg s))) (log_head (lg s)) (disksize s)"
  shows "\<exists>t H0. recover_from_log s = Ok () t \<and> calm t \<and> dset (bufs t) = {} \<and> lh_n (lg_lh (lg t)) = 0
    \<and> memdisk t = (recovered (log_head (lg s)) (memdisk s))(log_head (lg s) := H0) \<and> hdr_len H0 = 0
    \<and> disk_writes t = disk_writes s @ replay (log_head (lg s)) (memdisk s) @ [(log_head (lg s), H0)]"
proof -
  let ?l = "lg s" and ?st = "log_head (lg s)"
  let ?H = "memdisk s ?st"
  note D = calmD [OF C]
  have nb: "0 < NBUF" "1 < NBUF" by (simp_all add: NBUF_def MAXOPBLOCKS_def)
  have v: "view s = memdisk s" using calm_clean_view [OF C] dirty by auto
  have hH: "0 \<le> hdr_len ?H" "hdr_len ?H < int LOGSIZE" using H by (simp_all add: header_ok_def)
  obtain a where a: "read_head s = Ok () a" "thread_in {} a"
    using read_head_in [OF C _ dev] dirty nb st(3) hH v by auto
  note A = read_head_Ok [OF a(1) D(2) dev len, unfolded v]
  have ca: "calm a" by (rule calm_after [OF C a(2) A(1) wroteD(5) [OF A(2)]])
  obtain bs where la: "lg a = ?l\<lparr>lg_lh := \<lparr>lh_n = hdr_len ?H, lh_block = bs\<rparr>\<rparr>" "length bs = LOGSIZE"
    "\<forall>i < nat (hdr_len ?H). bs ! i = hdr_block ?H i" using A(5) by blast
  have da: "dset (bufs a) = {}" "view a = memdisk s" "memdisk a = memdisk s" "disksize a = disksize s"
    "disk_writes a = disk_writes s"
    using wroteD [OF A(2)] dirty v op_frame_disksize [OF wroteD(5) [OF A(2)]] by simp_all
  have pos: "log_head (lg a) = ?st" "log_len (lg a) = nat (hdr_len ?H)"
    "\<And>i. i < nat (hdr_len ?H) \<Longrightarrow> log_home (lg a) i = unat (hdr_block ?H i)"
    using la by (simp_all add: log_head_def log_len_def log_home_def)
  have lay: "log_layout (lg a)"
    using H la st(1,2) dev hH pos by (simp add: log_layout_def header_ok_def)
  have room: "log_room a"
    using lay H da(4) st(3) pos hH
    by (auto simp: log_room_def header_ok_def inj_on_def LOGSIZE_def NBUF_def)
  have Y: "lg_dev (lg a) = 1" using la dev by simp
  obtain b where b: "install_trans a = Ok () b" "calm b"
    using install_trans_in [OF ca room] da(1) nb by auto
  have B: "bio_inv (\<lambda>_. 0) b \<and> bio_st.more b = bio_st.more a \<and>
      wrote (map (\<lambda>k. (log_home (lg a) k, view a (log_slot (lg a) k))) [0..<log_len (lg a)]) a b"
    by (rule install_trans_Ok [OF b(1) A(1) Y]) (simp_all add: log_home_slot(1) [OF lay, symmetric])
  have sl: "log_slot (lg a) k = ?st + 1 + k" if "k < nat (hdr_len ?H)" for k
    using log_positions(2) [OF lay, of k] pos(1) that hH(2) by simp
  have rp: "map (\<lambda>k. (log_home (lg a) k, view a (log_slot (lg a) k))) [0..<log_len (lg a)] = replay ?st (memdisk s)"
    unfolding replay_def pos(2) using pos(3) sl da(2) by simp
  have wb: "wrote (replay ?st (memdisk s)) a b" using B rp by simp
  have lb: "lg b = lg a" using B by (simp add: log_st_more)
  have db: "dset (bufs b) = {}" "disksize b = disksize s"
    using wroteD(4) [OF wb] da op_frame_disksize [OF wroteD(5) [OF wb]] by auto
  let ?b = "b\<lparr>lg := emptied (lg b)\<rparr>"
  obtain t where t: "write_head ?b = Ok () t" "calm t"
    using write_head_in [of ?b] b(2) db nb lb Y la pos(1) st(3) by auto
  let ?H0 = "header 0 bs (view b ?st)"
  have W: "wrote [(?st, ?H0)] ?b t" "lg t = emptied (lg b)"
    using write_head_Ok [OF t(1), of "\<lambda>_. 0"] calmD(2) [OF b(2)] lb Y la pos(1)
    by (simp_all add: log_st_more)
  have "hdr_len ?H0 = 0" by (rule header_fits(2) [OF length_view [OF calmD(2) [OF b(2)]]]) simp_all
  moreover have "recover_from_log s = Ok () t"
    using a(1) b(1) t(1) by (simp add: recover_from_log_def kseq_def kbind_def upd_lh_eval emptied_def)
  moreover have "memdisk t = (recovered ?st (memdisk s))(?st := ?H0)"
    using wroteD(1) [OF W(1)] wroteD(1) [OF wb] da by (simp add: recovered_def)
  moreover have "disk_writes t = disk_writes s @ replay ?st (memdisk s) @ [(?st, ?H0)]"
    using wroteD(3) [OF W(1)] wroteD(3) [OF wb] da by simp
  moreover have "dset (bufs t) = {}" using wroteD(4) [OF W(1)] db by simp
  ultimately show ?thesis using t(2) W(2) by (intro exI [of _ t] exI [of _ ?H0]) simp
qed

text \<open>
  C6. Recovery at boot: with nothing cached as modified and a header on the disk that a commit may
  have left, \<open>recover_from_log\<close> returns, copies every block the header lists from its log slot to
  its home, and clears the header; the disk is the recovered disk of the crash property, and a
  further crash and recovery changes nothing outside the header block.
\<close>

theorem recovery_replays_log:
  assumes "calm s" and "dset (bufs s) = {}" and "lg_dev (lg s) = 1" and "0 \<le> lg_start (lg s)"
    and "lg_start (lg s) + int LOGSIZE < 2 ^ 31" and "log_head (lg s) + LOGSIZE < disksize s"
    and "length (lh_block (lg_lh (lg s))) = LOGSIZE"
    and "header_ok (memdisk s (log_head (lg s))) (log_head (lg s)) (disksize s)"
  shows "\<exists>t. recover_from_log s = Ok () t \<and> calm t \<and> lh_n (lg_lh (lg t)) = 0
    \<and> hdr_len (memdisk t (log_head (lg s))) = 0
    \<and> (\<forall>b. b \<noteq> log_head (lg s) \<longrightarrow> memdisk t b = recovered (log_head (lg s)) (memdisk s) b)
    \<and> recovered (log_head (lg s)) (memdisk t) = memdisk t"
proof -
  obtain t H0 where t: "recover_from_log s = Ok () t" "calm t" "lh_n (lg_lh (lg t)) = 0" "hdr_len H0 = 0"
    "memdisk t = (recovered (log_head (lg s)) (memdisk s))(log_head (lg s) := H0)"
    using recover_result [OF assms] by blast
  then have "hdr_len (memdisk t (log_head (lg s))) = 0" by simp
  then have "recovered (log_head (lg s)) (memdisk t) = memdisk t" by (simp add: recovered_def replay_def)
  with t show ?thesis by auto
qed

text \<open>A machine that boots after a crash: block 2 is a header with one entry, block 100.\<close>

definition demo_boot_st :: log_st where
  "demo_boot_st = demo_log_st\<lparr>bufs := demo_buf,
     memdisk := (\<lambda>_. replicate 512 0)(2 := header 1 [100] (replicate 512 0), 3 := replicate 512 7)\<rparr>"

lemma demo_boot_header: "length (header 1 [100] (replicate 512 0)) = BSIZE"
  "hdr_len (header 1 [100] (replicate 512 0)) = 1" "hdr_block (header 1 [100] (replicate 512 0)) 0 = 100"
  using header_fits(1,2) [where d = "replicate 512 0" and n = 1 and bs = "[100]"]
    header_fits(3) [where d = "replicate 512 0" and n = 1 and bs = "[100]" and i = 0] by (simp_all add: BSIZE_def LOGSIZE_def MAXOPBLOCKS_def)

lemma demo_boot_calm: "calm demo_boot_st" "dset (bufs demo_boot_st) = {}"
proof -
  have "bio_inv (\<lambda>_. 0) demo_boot_st"
    unfolding bio_inv_def
    by (rule cache_invI [where xs = "[0..<NBUF]"])
      (simp_all add: demo_boot_st_def demo_log_st_def demo_ring demo_buf_def locked_bufs_def NPROC_def valid_def
        dirty_def demo_boot_header, simp_all add: BSIZE_def)
  then show "calm demo_boot_st"
    by (simp add: calm_def locked_bufs_def)
      (simp add: demo_boot_st_def demo_log_st_def thread_in_def demo_cpu_def found_def)
  show "dset (bufs demo_boot_st) = {}" by (simp add: dset_def demo_boot_st_def demo_buf_def dirty_def)
qed

theorem recovery_replays_log_witness:
  "\<exists>t. recover_from_log demo_boot_st = Ok () t \<and> calm t \<and> lh_n (lg_lh (lg t)) = 0
    \<and> hdr_len (memdisk t (log_head (lg demo_boot_st))) = 0
    \<and> (\<forall>b. b \<noteq> log_head (lg demo_boot_st) \<longrightarrow>
         memdisk t b = recovered (log_head (lg demo_boot_st)) (memdisk demo_boot_st) b)
    \<and> recovered (log_head (lg demo_boot_st)) (memdisk t) = memdisk t"
proof (rule recovery_replays_log [OF demo_boot_calm])
  have h: "log_head (lg demo_boot_st) = 2" by (simp add: log_head_def demo_boot_st_def demo_log_st_def)
  show "log_head (lg demo_boot_st) + LOGSIZE < disksize demo_boot_st" using h
    by (simp add: demo_boot_st_def demo_log_st_def LOGSIZE_def MAXOPBLOCKS_def)
  show "header_ok (memdisk demo_boot_st (log_head (lg demo_boot_st))) (log_head (lg demo_boot_st)) (disksize demo_boot_st)"
    unfolding h by (simp add: demo_boot_st_def demo_log_st_def header_ok_def demo_boot_header log_region_def
        LOGSIZE_def MAXOPBLOCKS_def lessThan_Suc)
qed (simp_all add: demo_boot_st_def demo_log_st_def LOGSIZE_def MAXOPBLOCKS_def)

text \<open>\<open>log_write\<close> returns inside a transaction that has room.\<close>

lemma log_write_in:
  assumes T: "thread_in L s" "L_log \<notin> L"
    and ok: "lh_n (lg_lh (lg s)) < int LOGSIZE" "lh_n (lg_lh (lg s)) < lg_size (lg s) - 1" "1 \<le> lg_outstanding (lg s)"
  shows "\<exists>t. log_write b s = Ok () t \<and> thread_in L t"
proof -
  obtain a where a: "acquire L_log s = Ok () a" "thread_in (insert L_log L) a"
    using acquire_in [OF T] by blast
  let ?h = "lg_lh (lg a)" and ?bno = "b_blockno (bufs a b)"
  let ?i = "log_index ?h ?bno"
  let ?h' = "if int ?i = lh_n ?h then ?h\<lparr>lh_block := (lh_block ?h)[?i := ?bno], lh_n := lh_n ?h + 1\<rparr>
      else ?h\<lparr>lh_block := (lh_block ?h)[?i := ?bno]\<rparr>"
  let ?m = "a\<lparr>lg := (lg a)\<lparr>lg_lh := ?h'\<rparr>, bufs := (bufs a)(b := (bufs a b)\<lparr>b_flags := b_flags (bufs a b) OR B_DIRTY\<rparr>)\<rparr>"
  have e: "insert L_log L - {L_log} = L" using T(2) by auto
  obtain t where t: "release L_log ?m = Ok () t" "thread_in L t"
    using release_in [of "insert L_log L" ?m L_log] a(2) e by auto
  then show ?thesis
    using a(1) ok by (auto simp: log_write_def kseq_def kbind_def kwhen_def upd_lh_eval mark_dirty_def upd_buf_def)
qed

text \<open>
  \<open>log_write\<close> of a held buffer inside a transaction with room returns, changes neither the
  contents of any block nor the disk, and records the block: afterwards the blocks pinned in the
  cache are exactly those listed in the header, each once (a second \<open>log_write\<close> of a block is
  absorbed), so the transaction's commit writes it.
\<close>

theorem log_write_records:
  assumes "thread_in {} s" and "bio_inv w s" and "held s b" and "valid (bufs s b)" and "log_inv s"
    and "1 \<le> lg_outstanding (lg s)" and "int (log_len (lg s)) < lg_size (lg s) - 1"
    and "unat (b_blockno (bufs s b)) \<notin> log_region (log_head (lg s))"
  shows "\<exists>t. log_write b s = Ok () t \<and> thread_in {} t \<and> bio_inv w t \<and> log_inv t \<and> held t b
    \<and> view t = view s \<and> same_disk s t
    \<and> lh_set (lg_lh (lg t)) = insert (unat (b_blockno (bufs s b))) (lh_set (lg_lh (lg s)))
    \<and> dset (bufs t) = lh_set (lg_lh (lg t))"
proof -
  have l: "log_layout (lg s)" "lg_size (lg s) \<le> int LOGSIZE" using assms(5) by (simp_all add: log_inv_def)
  note L = log_layoutD [OF l(1)]
  have n: "lh_n (lg_lh (lg s)) < lg_size (lg s) - 1" using assms(7) L(4) by (simp add: log_len_def)
  have n': "lh_n (lg_lh (lg s)) < int LOGSIZE" using n l(2) by linarith
  obtain t where t: "log_write b s = Ok () t" "thread_in {} t"
    using log_write_in [OF assms(1) _ n' n assms(6)] by auto
  note W = log_write_Ok [OF t(1) assms(2-4)]
  have i: "log_inv t" by (rule log_write_inv [OF t(1) assms(2-5,8)])
  then have "dset (bufs t) = lh_set (lg_lh (lg t))"
    by (simp add: log_inv_def log_pinned_def lh_set_home)
  moreover have "lh_set (lg_lh (lg t)) = insert (unat (b_blockno (bufs s b))) (lh_set (lg_lh (lg s)))"
    using lh_add_props(1) [of "lg_lh (lg s)"] L(4,6) n' W(13) by simp
  ultimately show ?thesis using t W i by auto
qed


lemma pinned_small: "log_room s \<Longrightarrow> log_pinned s \<Longrightarrow> card (dset (bufs s)) < NBUF"
  using log_roomD(5,6) [of s] by (simp add: log_pinned_def card_image)

lemma demo_log_bread:
  "\<exists>b m. bread 1 55 demo_log_st = Ok b m \<and> thread_in {} m \<and> lg m = lg demo_log_st"
proof -
  note C = calmD [OF demo_log_calm]
  have "card (dset (bufs demo_log_st)) < NBUF"
    using log_inv_room [OF demo_log_inv] by (auto intro: pinned_small)
  from bread_in [OF C(1) _ _ C(2) avail_first [OF demo_log_calm this], of 55]
  obtain b m where "bread 1 55 demo_log_st = Ok b m" "thread_in {} m" by (auto simp: demo_log_st_def)
  with bread_lg [OF _ C(2)] show ?thesis by blast
qed

lemma log_inv_frame:
  "log_inv s \<Longrightarrow> lg t = lg s \<Longrightarrow> disksize t = disksize s \<Longrightarrow> dset (bufs t) = dset (bufs s) \<Longrightarrow> log_inv t"
  by (simp add: log_inv_def log_pinned_def)

theorem log_write_records_witness:
  "\<exists>b m t. bread 1 55 demo_log_st = Ok b m \<and> log_write b m = Ok () t \<and> log_inv t
     \<and> lh_set (lg_lh (lg t)) = {55, 100}"
proof -
  obtain b m where b: "bread 1 55 demo_log_st = Ok b m" "thread_in {} m" and lg: "lg m = lg demo_log_st"
    using demo_log_bread by blast
  note R = bread_Ok [OF b(1) calmD(2) [OF demo_log_calm]]
  have dz: "disksize m = disksize demo_log_st" using R(4) by (simp add: io_frame_def)
  have li: "log_inv m" by (rule log_inv_frame [OF demo_log_inv lg dz R(7)])
  have h: "log_head (lg m) = 2" "log_len (lg m) = 1" "lg_size (lg m) = 30" "lg_outstanding (lg m) = 1"
    "lh_set (lg_lh (lg m)) = {100}"
    by (simp_all add: lg log_head_def log_len_def lh_set_def) (simp_all add: demo_log_st_def lessThan_Suc)
  from log_write_records [OF b(2) R(1,3,12) li] h R(9)
  obtain t where "log_write b m = Ok () t" "log_inv t" "lh_set (lg_lh (lg t)) = insert 55 {100}"
    by (auto simp: log_region_def LOGSIZE_def MAXOPBLOCKS_def)
  with b(1) show ?thesis by blast
qed

section \<open>begin_op and end_op\<close>

lemma upd_log_eval: "upd_log f s = Ok () (s\<lparr>lg := f (lg s)\<rparr>)"
  by (simp add: upd_log_def)

lemma bio_inv_bufs:
  assumes "bufs t = bufs s" "memdisk t = memdisk s" "disksize t = disksize s" "slocks t = slocks s"
  shows "bio_inv w t = bio_inv w s" "view t = view s" "locked_bufs t = locked_bufs s"
  using assms by (simp_all add: bio_inv_def view_def locked_bufs_def [abs_def])

lemma lock_same:
  assumes "acquire l s = Ok u t \<or> release l s = Ok u t \<or> wakeup ch s = Ok u t"
  shows "bufs t = bufs s" "memdisk t = memdisk s" "disksize t = disksize s" "disk_writes t = disk_writes s"
    "slocks t = slocks s" "lg t = lg s" "log_st.more t = log_st.more s" "thread_frame s t"
  using assms acquire_thread [of l s u t] release_thread [of l s u t] wakeup_thread [of ch s u t]
  by (auto simp: bio_st_more log_st_more)

lemma log_room_lg:
  assumes "lg_lh l' = lg_lh l" "lg_start l' = lg_start l" "lg_dev l' = lg_dev l"
  shows "log_head l' = log_head l" "log_slot l' = log_slot l" "log_home l' = log_home l" "log_len l' = log_len l"
    "log_layout l' = log_layout l" "commit_trace l' = commit_trace l" "txn_new l' = txn_new l"
  using assms
  by (simp_all add: log_head_def log_slot_def log_home_def log_len_def log_layout_def commit_trace_def
      hdr_on_def txn_new_def fun_eq_iff)

lemma log_room_cong:
  assumes "lg_lh (lg t) = lg_lh (lg s)" "lg_start (lg t) = lg_start (lg s)" "lg_dev (lg t) = lg_dev (lg s)"
    and "disksize t = disksize s" "bufs t = bufs s"
  shows "log_room t = log_room s" "log_pinned t = log_pinned s"
  unfolding log_room_def log_pinned_def log_room_lg [OF assms(1-3)] assms(4,5) by (rule refl)+

text \<open>
  C7. The last \<open>end_op\<close> commits: called at a quiet moment by the only outstanding operation, with
  the logged blocks pinned, it returns with no operation outstanding, no commit in progress, the
  log empty, nothing pinned, no spin lock held, and every block outside the log on the disk with
  the contents the kernel sees, which are those from before the call.
\<close>

theorem end_op_commits:
  assumes "calm s" and "log_inv s" and "lg_outstanding (lg s) = 1" and "\<not> lg_committing (lg s)"
  shows "\<exists>t. end_op s = Ok () t \<and> calm t \<and> lg_outstanding (lg t) = 0 \<and> \<not> lg_committing (lg t)
    \<and> log_len (lg t) = 0 \<and> dset (bufs t) = {}
    \<and> (\<forall>b. b \<notin> log_region (log_head (lg s)) \<longrightarrow> view t b = view s b \<and> memdisk t b = view s b)"
proof -
  note C = calmD [OF assms(1)]
  have rm: "log_room s" "log_pinned s" using log_inv_room [OF assms(2)] by auto
  let ?lo = "lg s" and ?l = "(lg s)\<lparr>lg_outstanding := 0, lg_committing := True\<rparr>"
  obtain a where a: "acquire L_log s = Ok () a" "thread_in {L_log} a" using acquire_in [OF C(1)] by blast
  note A = lock_same [OF disjI1 [OF a(1)]]
  let ?a = "a\<lparr>lg := ?l\<rparr>"
  obtain b where b: "release L_log ?a = Ok () b" "thread_in {} b" using release_in [of "{L_log}" ?a L_log] a(2) by auto
  note B = lock_same [OF disjI2 [OF disjI1 [OF b(1)]]]
  have sb: "bufs b = bufs s" "memdisk b = memdisk s" "disksize b = disksize s" "disk_writes b = disk_writes s"
    "slocks b = slocks s" "lg b = ?l" using A B by simp_all
  note E = bio_inv_bufs [OF sb(1,2,3,5)]
  have cb: "calm b" using C b(2) E by (simp add: calm_def)
  have lg: "lg_lh (lg b) = lg_lh ?lo" "lg_start (lg b) = lg_start ?lo" "lg_dev (lg b) = lg_dev ?lo"
    by (simp_all add: sb(6))
  note lr = log_room_lg [OF lg]
  have rb: "log_room b" "log_pinned b" using rm log_room_cong [of b s] sb(1,3,6) by simp_all
  have mid: "\<exists>t. commit b = Ok () t \<and> calm t \<and> lh_n (lg_lh (lg t)) \<le> 0 \<and> 0 \<le> lh_n (lg_lh (lg t)) \<and> dset (bufs t) = {}
    \<and> lg_outstanding (lg t) = 0 \<and> (\<forall>c. c \<notin> log_region (log_head ?lo) \<longrightarrow> view t c = view s c \<and> memdisk t c = view s c)"
  proof (cases "0 < lh_n (lg_lh (lg b))")
    case True
    obtain t where t: "commit b = Ok () t" "calm t" "lg t = emptied (lg b)" "dset (bufs t) = {}"
      "view t = apply_writes (view b) (commit_trace (lg b) (view b))"
      using commit_result [OF cb rb True] by blast
    have "view t c = view s c \<and> memdisk t c = view s c" if c: "c \<notin> log_region (log_head ?lo)" for c
    proof -
      note N = crash_after_commit(2) [where D = "view b" and v = "view b", OF log_roomD(1) [OF rb(1)] length_view [OF calmD(2) [OF cb]]]
      have "view t c = view b c" using N c by (simp add: txn_new_def t(5) lr)
      then have "view t c = view s c" by (simp add: E)
      with calm_clean_view [OF t(2)] t(4) show ?thesis by auto
    qed
    then show ?thesis using t sb(6) by (intro exI [of _ t]) simp
  next
    case False
    then have n0: "lh_n (lg_lh (lg b)) = 0" using log_layoutD(4) [OF log_roomD(1) [OF rb(1)]] by simp
    then have "dset (bufs b) = {}" using rb(2) by (simp add: log_pinned_def log_len_def)
    then have d: "memdisk b c = view s c" for c using calm_clean_view [OF cb, of c] by (simp add: E)
    have "commit b = Ok () b" using n0 by (simp add: commit_def)
    then show ?thesis using cb \<open>dset (bufs b) = {}\<close> n0 d E(2) sb(6) by (intro exI [of _ b]) simp
  qed
  obtain c where c0: "commit b = Ok () c \<and> calm c \<and> lh_n (lg_lh (lg c)) \<le> 0 \<and> 0 \<le> lh_n (lg_lh (lg c)) \<and> dset (bufs c) = {}
    \<and> lg_outstanding (lg c) = 0 \<and> (\<forall>x. x \<notin> log_region (log_head ?lo) \<longrightarrow> view c x = view s x \<and> memdisk c x = view s x)"
    by (rule exE [OF mid])
  then have c: "commit b = Ok () c" "calm c" "lh_n (lg_lh (lg c)) = 0" "dset (bufs c) = {}" "lg_outstanding (lg c) = 0"
    "\<forall>x. x \<notin> log_region (log_head ?lo) \<longrightarrow> view c x = view s x \<and> memdisk c x = view s x"
    by simp_all
  obtain d where d: "acquire L_log c = Ok () d" "thread_in {L_log} d" using acquire_in [OF calmD(1) [OF c(2)]] by blast
  note D = lock_same [OF disjI1 [OF d(1)]]
  let ?d = "d\<lparr>lg := (lg d)\<lparr>lg_committing := False\<rparr>\<rparr>"
  obtain e where e: "wakeup ChLog ?d = Ok () e" "thread_in {L_log} e" using wakeup_in [of "{L_log}" ?d] d(2) by auto
  note EE = lock_same [OF disjI2 [OF disjI2 [OF e(1)]]]
  obtain t where t: "release L_log e = Ok () t" "thread_in {} t" using release_in [OF e(2), of L_log] by auto
  note T = lock_same [OF disjI2 [OF disjI1 [OF t(1)]]]
  have st: "bufs t = bufs c" "memdisk t = memdisk c" "disksize t = disksize c" "slocks t = slocks c"
    "lg t = (lg c)\<lparr>lg_committing := False\<rparr>" using D EE T by simp_all
  note F = bio_inv_bufs [OF st(1,2,3,4)]
  have "calm t" using calmD [OF c(2)] t(2) F by (simp add: calm_def)
  moreover have "end_op s = Ok () t"
    using a(1) b(1) c(1) d(1) e(1) t(1) assms(3,4) A(6)
    by (simp add: end_op_def kseq_def kbind_def upd_log_eval)
  ultimately show ?thesis using c F st by (intro exI [of _ t]) (simp add: log_len_def)
qed

theorem end_op_commits_witness:
  "\<exists>t. end_op demo_log_st = Ok () t \<and> calm t \<and> lg_outstanding (lg t) = 0 \<and> \<not> lg_committing (lg t)
    \<and> log_len (lg t) = 0 \<and> dset (bufs t) = {}
    \<and> (\<forall>b. b \<notin> log_region (log_head (lg demo_log_st)) \<longrightarrow>
        view t b = view demo_log_st b \<and> memdisk t b = view demo_log_st b)"
  by (rule end_op_commits [OF demo_log_calm demo_log_inv]) (simp_all add: demo_log_st_def)

text \<open>\<open>begin_op\<close> admits an operation when its reservation fits.\<close>

lemma begin_op_in:
  assumes "calm s" "log_inv s" "\<not> lg_committing (lg s)"
    and "lh_n (lg_lh (lg s)) + (lg_outstanding (lg s) + 1) * int MAXOPBLOCKS \<le> int LOGSIZE"
  shows "\<exists>t. begin_op s = Ok () t \<and> calm t \<and> log_inv t \<and> disksize t = disksize s
    \<and> lg t = (lg s)\<lparr>lg_outstanding := lg_outstanding (lg s) + 1\<rparr>"
proof -
  note C = calmD [OF assms(1)]
  obtain a where a: "acquire L_log s = Ok () a" "thread_in {L_log} a" using acquire_in [OF C(1)] by blast
  note A = lock_same [OF disjI1 [OF a(1)]]
  let ?l = "(lg s)\<lparr>lg_outstanding := lg_outstanding (lg s) + 1\<rparr>" let ?a = "a\<lparr>lg := ?l\<rparr>"
  obtain t where t: "release L_log ?a = Ok () t" "thread_in {} t" using release_in [of "{L_log}" ?a L_log] a(2) by auto
  note T = lock_same [OF disjI2 [OF disjI1 [OF t(1)]]]
  have st: "bufs t = bufs s" "memdisk t = memdisk s" "disksize t = disksize s" "slocks t = slocks s" "lg t = ?l"
    using A T by simp_all
  note E = bio_inv_bufs [OF st(1,2,3,4)]
  have "calm t" using C t(2) E by (simp add: calm_def)
  moreover have "log_inv t" using assms(2) log_room_lg [of "lg t" "lg s"] unfolding log_inv_def log_pinned_def st by simp
  moreover have "begin_op s = Ok () t"
    using a(1) t assms(3,4) A(6) by (simp add: begin_op_def begin_op_loop_def kseq_def kbind_def upd_log_eval)
  ultimately show ?thesis using st by blast
qed

text \<open>A block that is not in the header yet takes its next place.\<close>

lemma lh_add_new:
  assumes "unat bno \<notin> lh_set h" "0 \<le> lh_n h"
  shows "lh_n (lh_add bno h) = lh_n h + 1"
proof -
  have "\<not> log_index h bno < nat (lh_n h)"
    using log_index_hit [of h bno] assms(1) by (force simp: lh_set_def)
  then show ?thesis using log_index_le [of h bno] assms(2) by (simp add: lh_add_def Let_def)
qed

end
