(* ===== verification/CString.thy ===== *)
theory CString
  imports Prelude
begin

text \<open>
  The C string and memory routines of the kernel (\<open>string.c\<close>) and of the user library
  (\<open>ulib.c\<close>).  A pointer is an address in a byte memory; the objects the routines work on do not
  wrap around the address space, so addresses are natural numbers.  \<open>char\<close> is an unsigned byte:
  the routines cast to \<open>uchar\<close> where the sign would show.  The loops count down a length or run
  to a NUL; \<open>strlen\<close>, \<open>strcpy\<close>, \<open>strcmp\<close> and \<open>strchr\<close> on memory without one do not end and
  are \<open>None\<close>.
\<close>

type_synonym mem = "nat \<Rightarrow> u8"

section \<open>string.c\<close>

text \<open>\<open>stosb\<close> and \<open>stosl\<close>: the byte \<open>c\<close>, or the little-endian word, \<open>n\<close> times from \<open>d\<close>.\<close>

fun stosb :: "nat \<Rightarrow> u8 \<Rightarrow> nat \<Rightarrow> mem \<Rightarrow> mem" where
  "stosb d c 0 m = m"
| "stosb d c (Suc n) m = stosb (d + 1) c n (m(d := c))"

fun stosl :: "nat \<Rightarrow> u32 \<Rightarrow> nat \<Rightarrow> mem \<Rightarrow> mem" where
  "stosl d w 0 m = m"
| "stosl d w (Suc n) m = stosl (d + 4) w n
     (m(d := ucast w, d + 1 := ucast (drop_bit 8 w), d + 2 := ucast (drop_bit 16 w),
        d + 3 := ucast (drop_bit 24 w)))"

definition memset :: "nat \<Rightarrow> u32 \<Rightarrow> nat \<Rightarrow> mem \<Rightarrow> mem" where
  "memset dst c n m =
     (if dst mod 4 = 0 \<and> n mod 4 = 0 then
        (let c = c AND 0xFF in
         stosl dst (push_bit 24 c OR push_bit 16 c OR push_bit 8 c OR c) (n div 4) m)
      else stosb dst (ucast c) n m)"

fun memcmp :: "nat \<Rightarrow> nat \<Rightarrow> nat \<Rightarrow> mem \<Rightarrow> int" where
  "memcmp s1 s2 0 m = 0"
| "memcmp s1 s2 (Suc n) m =
     (if m s1 \<noteq> m s2 then int (unat (m s1)) - int (unat (m s2)) else memcmp (s1 + 1) (s2 + 1) n m)"

text \<open>\<open>while(n-- > 0) *d++ = *s++;\<close> and, from the ends, \<open>*--d = *--s\<close>.\<close>

fun copy_up :: "nat \<Rightarrow> nat \<Rightarrow> nat \<Rightarrow> mem \<Rightarrow> mem" where
  "copy_up d s 0 m = m"
| "copy_up d s (Suc n) m = copy_up (d + 1) (s + 1) n (m(d := m s))"

fun copy_down :: "nat \<Rightarrow> nat \<Rightarrow> nat \<Rightarrow> mem \<Rightarrow> mem" where
  "copy_down d s 0 m = m"
| "copy_down d s (Suc n) m = copy_down d s n (m(d + n := m (s + n)))"

definition memmove :: "nat \<Rightarrow> nat \<Rightarrow> nat \<Rightarrow> mem \<Rightarrow> mem" where
  "memmove dst src n m = (if src < dst \<and> dst < src + n then copy_down dst src n m else copy_up dst src n m)"

definition memcpy :: "nat \<Rightarrow> nat \<Rightarrow> nat \<Rightarrow> mem \<Rightarrow> mem" where
  "memcpy dst src n m = memmove dst src n m"

fun strncmp :: "nat \<Rightarrow> nat \<Rightarrow> nat \<Rightarrow> mem \<Rightarrow> int" where
  "strncmp p q 0 m = 0"
| "strncmp p q (Suc n) m =
     (if m p \<noteq> 0 \<and> m p = m q then strncmp (p + 1) (q + 1) n m
      else int (unat (m p)) - int (unat (m q)))"

fun strncpy :: "nat \<Rightarrow> nat \<Rightarrow> nat \<Rightarrow> mem \<Rightarrow> mem" where
  "strncpy s t 0 m = m"
| "strncpy s t (Suc n) m =
     (if m t \<noteq> 0 then strncpy (s + 1) (t + 1) n (m(s := m t))
      else stosb (s + 1) 0 n (m(s := m t)))"

fun safestrcpy_loop :: "nat \<Rightarrow> nat \<Rightarrow> nat \<Rightarrow> mem \<Rightarrow> mem" where
  "safestrcpy_loop s t 0 m = m(s := 0)"
| "safestrcpy_loop s t (Suc n) m =
     (if m t \<noteq> 0 then safestrcpy_loop (s + 1) (t + 1) n (m(s := m t))
      else m(s := m t, s + 1 := 0))"

definition safestrcpy :: "nat \<Rightarrow> nat \<Rightarrow> int \<Rightarrow> mem \<Rightarrow> mem" where
  "safestrcpy s t n m = (if n \<le> 0 then m else safestrcpy_loop s t (nat n - 1) m)"

partial_function (option) strlen :: "nat \<Rightarrow> mem \<Rightarrow> nat option" where
  "strlen s m = (if m s = 0 then Some 0 else Option.bind (strlen (s + 1) m) (\<lambda>k. Some (Suc k)))"

section \<open>ulib.c\<close>

partial_function (option) strcpy :: "nat \<Rightarrow> nat \<Rightarrow> mem \<Rightarrow> mem option" where
  "strcpy s t m = (if m t = 0 then Some (m(s := m t)) else strcpy (s + 1) (t + 1) (m(s := m t)))"

partial_function (option) strcmp :: "nat \<Rightarrow> nat \<Rightarrow> mem \<Rightarrow> int option" where
  "strcmp p q m =
     (if m p \<noteq> 0 \<and> m p = m q then strcmp (p + 1) (q + 1) m
      else Some (int (unat (m p)) - int (unat (m q))))"

partial_function (option) strchr :: "nat \<Rightarrow> u8 \<Rightarrow> mem \<Rightarrow> nat option option" where
  "strchr s c m = (if m s = 0 then Some None else if m s = c then Some (Some s) else strchr (s + 1) c m)"

definition u_memset :: "nat \<Rightarrow> u8 \<Rightarrow> nat \<Rightarrow> mem \<Rightarrow> mem" where
  "u_memset dst c n m = stosb dst c n m"

text \<open>The user library's \<open>memmove\<close> only copies upwards.\<close>

definition u_memmove :: "nat \<Rightarrow> nat \<Rightarrow> int \<Rightarrow> mem \<Rightarrow> mem" where
  "u_memmove dst src n m = copy_up dst src (nat n) m"

text \<open>\<open>atoi\<close> on the bytes of a string; the \<open>int\<close> is unbounded here (longer numbers overflow in C).\<close>

fun atoi_from :: "int \<Rightarrow> u8 list \<Rightarrow> int" where
  "atoi_from n [] = n"
| "atoi_from n (c # cs) = (if 48 \<le> c \<and> c \<le> 57 then atoi_from (n * 10 + int (unat c) - 48) cs else n)"

definition atoi :: "u8 list \<Rightarrow> int" where
  "atoi s = atoi_from 0 s"

section \<open>What the routines do\<close>

lemma stosb_eval: "stosb d c n m a = (if d \<le> a \<and> a < d + n then c else m a)"
  by (induction n arbitrary: d m) auto

lemma copy_up_eval:
  "\<not> (s < d \<and> d < s + n) \<Longrightarrow> copy_up d s n m a = (if d \<le> a \<and> a < d + n then m (s + (a - d)) else m a)"
proof (induction n arbitrary: d s m)
  case (Suc n)
  define m' where "m' = m(d := m s)"
  have m': "m' d = m s" "\<And>a. a \<noteq> d \<Longrightarrow> m' a = m a" by (simp_all add: m'_def)
  have "\<not> (s + 1 < d + 1 \<and> d + 1 < s + 1 + n)" using Suc.prems by auto
  note IH = Suc.IH [OF this, of m']
  have run: "copy_up d s (Suc n) m = copy_up (d + 1) (s + 1) n m'" by (simp add: m'_def)
  show ?case
  proof (cases "a = d")
    case True
    then show ?thesis unfolding run IH using m' by simp
  next
    case False
    then show ?thesis unfolding run IH using m' Suc.prems
      by (cases "s + (a - d) = d") (auto simp: Suc_diff_Suc)
  qed
qed auto

lemma copy_down_eval:
  "s < d \<Longrightarrow> copy_down d s n m a = (if d \<le> a \<and> a < d + n then m (s + (a - d)) else m a)"
  by (induction d s n m rule: copy_down.induct) auto

text \<open>
  \<open>memmove\<close> is safe on overlapping objects: afterwards the destination holds what the source
  held before, and every other byte is unchanged.
\<close>

theorem memmove_copies:
  "memmove dst src n m a = (if dst \<le> a \<and> a < dst + n then m (src + (a - dst)) else m a)"
  by (simp add: memmove_def copy_up_eval copy_down_eval)

text \<open>A string at \<open>p\<close>: its bytes before the NUL.\<close>

definition cstr_at :: "mem \<Rightarrow> nat \<Rightarrow> u8 list \<Rightarrow> bool" where
  "cstr_at m p xs \<longleftrightarrow> (\<forall>i < length xs. m (p + i) = xs ! i \<and> xs ! i \<noteq> 0) \<and> m (p + length xs) = 0"

lemma cstr_at_Cons: "cstr_at m p (x # xs) \<longleftrightarrow> m p = x \<and> x \<noteq> 0 \<and> cstr_at m (p + 1) xs"
  by (auto simp: cstr_at_def All_less_Suc2)

lemma cstr_at_Nil [simp]: "cstr_at m p [] \<longleftrightarrow> m p = 0"
  by (simp add: cstr_at_def)

lemma strlen_cstr: "cstr_at m p xs \<Longrightarrow> strlen p m = Some (length xs)"
proof (induction xs arbitrary: p)
  case Nil
  then show ?case by (subst strlen.simps) simp
next
  case (Cons x xs)
  then show ?case by (subst strlen.simps) (simp add: cstr_at_Cons)
qed

lemma byte_diff: "unat (a :: u8) = unat b \<Longrightarrow> a = b"
  by (simp add: word_unat_eq_iff)

declare of_nat_unat [simp del]

lemma strncmp_zero_iff:
  assumes "cstr_at m p xs" "cstr_at m q ys"
  shows "strncmp p q n m = 0 \<longleftrightarrow> take n xs = take n ys"
  using assms
proof (induction p q n m arbitrary: xs ys rule: strncmp.induct)
  case (2 p q n m)
  show ?case
  proof (cases xs; cases ys)
    fix x xs' y ys' assume "xs = x # xs'" "ys = y # ys'"
    then show ?thesis using 2 by (auto simp: cstr_at_Cons dest: byte_diff)
  qed (use 2 in \<open>auto simp: cstr_at_Cons unat_eq_0\<close>)
qed simp

lemma safestrcpy_loop_str:
  assumes "cstr_at m t xs" "s + n < t \<or> t + length xs < s"
  shows "cstr_at (safestrcpy_loop s t n m) s (take n xs)
    \<and> (\<forall>a. a < s \<or> s + n < a \<longrightarrow> safestrcpy_loop s t n m a = m a)"
  using assms
proof (induction n arbitrary: s t m xs)
  case (Suc n)
  show ?case
  proof (cases xs)
    case Nil
    then show ?thesis using Suc.prems by (auto simp: cstr_at_def)
  next
    case (Cons x ys)
    then have mt: "m t = x" "x \<noteq> 0" "cstr_at m (t + 1) ys" using Suc.prems by (simp_all add: cstr_at_Cons)
    define m' where "m' = m(s := x)"
    have m': "m' s = x" "\<And>a. a \<noteq> s \<Longrightarrow> m' a = m a" by (simp_all add: m'_def)
    have far: "s + 1 + n < t + 1 \<or> t + 1 + length ys < s + 1" using Suc.prems(2) Cons by auto
    have "cstr_at m' (t + 1) ys"
      using mt(3) Suc.prems(2) Cons m'(2) unfolding cstr_at_def by auto
    note IH = Suc.IH [OF this far]
    have run: "safestrcpy_loop s t (Suc n) m = safestrcpy_loop (s + 1) (t + 1) n m'"
      using mt by (simp add: m'_def)
    show ?thesis unfolding run Cons using IH m' mt(2) by (auto simp: cstr_at_Cons)
  qed
qed simp

text \<open>
  \<open>safestrcpy\<close> always leaves a NUL-terminated string: it copies as much of the source string
  as fits in \<open>n - 1\<close> bytes, and writes nothing outside the \<open>n\<close> bytes of the destination.
\<close>

theorem safestrcpy_terminates:
  assumes "cstr_at m t xs" and "0 < n" and "s + nat n \<le> t \<or> t + length xs < s"
  shows "cstr_at (safestrcpy s t n m) s (take (nat n - 1) xs)
    \<and> (\<forall>a. a < s \<or> s + nat n \<le> a \<longrightarrow> safestrcpy s t n m a = m a)"
proof -
  have "s + (nat n - 1) < t \<or> t + length xs < s" using assms(2,3) by auto
  from safestrcpy_loop_str [OF assms(1) this] show ?thesis using assms(2) by (auto simp: safestrcpy_def)
qed

theorem safestrcpy_terminates_witness:
  "cstr_at (safestrcpy 100 0 3 ((\<lambda>_. 0)(0 := 97, 1 := 98, 2 := 99, 3 := 100))) 100 (take 2 [97, 98, 99, 100])"
proof -
  have "cstr_at ((\<lambda>_. 0)(0 := 97, 1 := 98, 2 := 99, 3 := 100)) 0 [97, 98, 99, 100 :: u8]"
    by (simp add: cstr_at_Cons)
  from safestrcpy_terminates [OF this, of 3 100] show ?thesis by simp
qed

text \<open>The user library's \<open>memmove\<close> is not: copying three bytes one place up smears the first.\<close>

lemma u_memmove_overlap:
  "u_memmove 1 0 3 ((\<lambda>_. 0)(0 := 1, 1 := 2, 2 := 3)) 3 = 1
   \<and> memmove 1 0 3 ((\<lambda>_. 0)(0 := 1, 1 := 2, 2 := 3)) 3 = 3"
  by (simp add: u_memmove_def memmove_def numeral_eq_Suc)

end
