(* ===== verification/Fs.thy ===== *)
theory Fs
  imports Log CString
begin

text \<open>
  The file system (\<open>fs.c\<close>, \<open>fs.h\<close>, \<open>stat.h\<close>, \<open>file.h\<close>): block allocation, inodes with their
  cache, inode contents, directories and path names.  Every access to a block goes through the
  buffer cache and the log.  An inode pointer is an index into \<open>icache.inode\<close>, \<open>None\<close> the null
  pointer; a path or name is the list of its bytes before the NUL; \<open>name[DIRSIZ]\<close> buffers are
  lists of \<open>DIRSIZ\<close> bytes.  \<open>readi\<close> returns its count and the bytes it puts at \<open>dst\<close>; \<open>writei\<close>
  takes the bytes at \<open>src\<close>.  The table \<open>devsw\<close> of device routines is an argument.
\<close>

section \<open>Data\<close>

definition NINODE :: nat where [const_defs]: "NINODE = 50"
definition NDEV :: nat where [const_defs]: "NDEV = 10"
definition ROOTDEV :: u32 where [const_defs]: "ROOTDEV = 1"
definition ROOTINO :: u32 where [const_defs]: "ROOTINO = 1"
definition NDIRECT :: nat where [const_defs]: "NDIRECT = 11"
definition NINDIRECT :: nat where [const_defs]: "NINDIRECT = BSIZE div 4"
definition MAXFILE :: nat where [const_defs]: "MAXFILE = NDIRECT + NINDIRECT"
definition DINODE_SIZE :: nat where [const_defs]: "DINODE_SIZE = 64"
definition IPB :: nat where [const_defs]: "IPB = BSIZE div DINODE_SIZE"
definition BPB :: nat where [const_defs]: "BPB = BSIZE * 8"
definition DIRSIZ :: nat where [const_defs]: "DIRSIZ = 14"
definition DIRENT_SIZE :: nat where [const_defs]: "DIRENT_SIZE = 16"
definition T_DIR :: u16 where [const_defs]: "T_DIR = 1"
definition T_FILE :: u16 where [const_defs]: "T_FILE = 2"
definition T_DEV :: u16 where [const_defs]: "T_DEV = 3"

record dinode =
  d_type :: u16
  d_major :: u16
  d_minor :: u16
  d_nlink :: u16
  d_size :: u32
  d_addrs :: "u32 list"
  d_mode :: u32

record inode =
  i_dev :: u32
  i_inum :: u32
  i_ref :: int
  i_valid :: bool
  i_type :: u16
  i_major :: u16
  i_minor :: u16
  i_nlink :: u16
  i_size :: u32
  i_addrs :: "u32 list"
  i_mode :: u32

record stat =
  st_type :: u16
  st_dev :: u32
  st_ino :: u32
  st_nlink :: u16
  st_size :: u32

record dirent =
  de_inum :: u16
  de_name :: "u8 list"

record fs_st = log_st +
  icache :: "nat \<Rightarrow> inode"
  fs_sb :: superblock

record 's devsw =
  dv_read :: "(nat \<Rightarrow> u32 \<Rightarrow> (int \<times> u8 list, 's) kern) option"
  dv_write :: "(nat \<Rightarrow> u8 list \<Rightarrow> u32 \<Rightarrow> (int, 's) kern) option"

definition upd_inode :: "nat \<Rightarrow> (inode \<Rightarrow> inode) \<Rightarrow> (unit, 'x fs_st_scheme) kern" where
  "upd_inode ip f = kmod (\<lambda>s. s\<lparr>icache := (icache s)(ip := f (icache s ip))\<rparr>)"

definition get_inode :: "nat \<Rightarrow> (inode, 'x fs_st_scheme) kern" where
  "get_inode ip = kget (\<lambda>s. icache s ip)"

section \<open>The layout of on-disk structures\<close>

definition get16 :: "nat \<Rightarrow> block \<Rightarrow> u16" where
  "get16 off d = word16 (bslice off 2 d)"

definition get_dinode :: "nat \<Rightarrow> block \<Rightarrow> dinode" where
  "get_dinode k d = (let b = bslice (DINODE_SIZE * k) DINODE_SIZE d in
     \<lparr>d_type = get16 0 b, d_major = get16 2 b, d_minor = get16 4 b, d_nlink = get16 6 b,
      d_size = get32 2 b, d_addrs = map (\<lambda>i. get32 (3 + i) b) [0..<NDIRECT + 1], d_mode = get32 15 b\<rparr>)"

definition dinode_bytes :: "dinode \<Rightarrow> u8 list" where
  "dinode_bytes di = bytes16 (d_type di) @ bytes16 (d_major di) @ bytes16 (d_minor di)
     @ bytes16 (d_nlink di) @ bytes32 (d_size di) @ concat (map bytes32 (d_addrs di)) @ bytes32 (d_mode di)"

definition put_dinode :: "nat \<Rightarrow> dinode \<Rightarrow> block \<Rightarrow> block" where
  "put_dinode k di d = bsplice (DINODE_SIZE * k) (dinode_bytes di) d"

definition IBLOCK :: "u32 \<Rightarrow> superblock \<Rightarrow> u32" where
  "IBLOCK i sb = i div of_nat IPB + sb_inodestart sb"

definition BBLOCK :: "u32 \<Rightarrow> superblock \<Rightarrow> u32" where
  "BBLOCK b sb = b div of_nat BPB + sb_bmapstart sb"

definition get_dirent :: "u8 list \<Rightarrow> dirent" where
  "get_dirent b = \<lparr>de_inum = get16 0 b, de_name = bslice 2 DIRSIZ b\<rparr>"

definition dirent_bytes :: "dirent \<Rightarrow> u8 list" where
  "dirent_bytes de = bytes16 (de_inum de) @ de_name de"

section \<open>Blocks\<close>

definition bzero :: "u32 \<Rightarrow> u32 \<Rightarrow> (unit, 'x fs_st_scheme) kern" where
  "bzero dev bno =
     kbind (bread dev bno) (\<lambda>bp.
     kseq (buf_store bp (replicate BSIZE 0)) (
     kseq (log_write bp)
          (brelse bp)))"

text \<open>Bit \<open>bi\<close> of a block of the free map.\<close>

definition bit_used :: "nat \<Rightarrow> block \<Rightarrow> bool" where
  "bit_used bi d = (d ! (bi div 8) AND push_bit (bi mod 8) 1 \<noteq> 0)"

definition bit_set :: "nat \<Rightarrow> block \<Rightarrow> block" where
  "bit_set bi d = d[bi div 8 := d ! (bi div 8) OR push_bit (bi mod 8) 1]"

definition bit_clear :: "nat \<Rightarrow> block \<Rightarrow> block" where
  "bit_clear bi d = d[bi div 8 := d ! (bi div 8) AND NOT (push_bit (bi mod 8) 1)]"

text \<open>The outer loop of \<open>balloc\<close> runs over the multiples of \<open>BPB\<close> below \<open>sb.size\<close>; the inner one
  searches the first clear bit.\<close>

definition balloc :: "u32 \<Rightarrow> (u32, 'x fs_st_scheme) kern" where
  "balloc dev =
     kbind (kget fs_sb) (\<lambda>sb.
     kbind (kloop (map (\<lambda>k. k * BPB) [0..<(unat (sb_size sb) + BPB - 1) div BPB]) (\<lambda>b.
       kbind (bread dev (BBLOCK (of_nat b) sb)) (\<lambda>bp.
       kbind (buf_data bp) (\<lambda>d.
       case find (\<lambda>bi. \<not> bit_used bi d) [0..<min BPB (unat (sb_size sb) - b)] of
         Some bi \<Rightarrow>
           kseq (buf_store bp (bit_set bi d)) (
           kseq (log_write bp) (
           kseq (brelse bp) (
           kseq (bzero dev (of_nat (b + bi)))
                (kret (Some (of_nat (b + bi)))))))
       | None \<Rightarrow> kseq (brelse bp) (kret None))))) (\<lambda>r.
     case r of Some a \<Rightarrow> kret a | None \<Rightarrow> kpanic ''balloc: out of blocks''))"

definition bfree :: "u32 \<Rightarrow> u32 \<Rightarrow> (unit, 'x fs_st_scheme) kern" where
  "bfree dev b =
     kbind (kget fs_sb) (\<lambda>sb.
     kbind (bread dev (BBLOCK b sb)) (\<lambda>bp.
     kbind (buf_data bp) (\<lambda>d.
     if \<not> bit_used (unat b mod BPB) d then kpanic ''freeing free block''
     else
       kseq (buf_store bp (bit_clear (unat b mod BPB) d)) (
       kseq (log_write bp)
            (brelse bp)))))"

section \<open>Inodes\<close>

text \<open>The scan of \<open>iget\<close> takes the first entry that holds the inode; failing that it recycles the
  first free one.\<close>

definition iget :: "u32 \<Rightarrow> u32 \<Rightarrow> (nat, 'x fs_st_scheme) kern" where
  "iget dev inum =
     kseq (acquire L_icache) (
     kbind (kget icache) (\<lambda>ic.
     case find (\<lambda>i. 0 < i_ref (ic i) \<and> i_dev (ic i) = dev \<and> i_inum (ic i) = inum) [0..<NINODE] of
       Some ip \<Rightarrow>
         kseq (upd_inode ip (\<lambda>r. r\<lparr>i_ref := i_ref r + 1\<rparr>)) (
         kseq (release L_icache) (kret ip))
     | None \<Rightarrow>
         (case find (\<lambda>i. i_ref (ic i) = 0) [0..<NINODE] of
            None \<Rightarrow> kpanic ''iget: no inodes''
          | Some ip \<Rightarrow>
              kseq (upd_inode ip (\<lambda>r. r\<lparr>i_dev := dev, i_inum := inum, i_ref := 1, i_valid := False, i_mode := 7\<rparr>)) (
              kseq (release L_icache) (kret ip)))))"

definition idup :: "nat \<Rightarrow> (nat, 'x fs_st_scheme) kern" where
  "idup ip =
     kseq (acquire L_icache) (
     kseq (upd_inode ip (\<lambda>r. r\<lparr>i_ref := i_ref r + 1\<rparr>)) (
     kseq (release L_icache) (kret ip)))"

definition zero_dinode :: dinode where
  "zero_dinode = \<lparr>d_type = 0, d_major = 0, d_minor = 0, d_nlink = 0, d_size = 0,
     d_addrs = replicate (NDIRECT + 1) 0, d_mode = 0\<rparr>"

definition ialloc :: "u32 \<Rightarrow> u16 \<Rightarrow> (nat, 'x fs_st_scheme) kern" where
  "ialloc dev type =
     kbind (kget fs_sb) (\<lambda>sb.
     kbind (kloop [1..<unat (sb_ninodes sb)] (\<lambda>inum.
       kbind (bread dev (IBLOCK (of_nat inum) sb)) (\<lambda>bp.
       kbind (buf_data bp) (\<lambda>d.
       if d_type (get_dinode (inum mod IPB) d) = 0 then
         kseq (buf_store bp (put_dinode (inum mod IPB) (zero_dinode\<lparr>d_type := type, d_mode := 7\<rparr>) d)) (
         kseq (log_write bp) (
         kseq (brelse bp)
              (kbind (iget dev (of_nat inum)) (\<lambda>ip. kret (Some ip)))))
       else kseq (brelse bp) (kret None))))) (\<lambda>r.
     case r of Some ip \<Rightarrow> kret ip | None \<Rightarrow> kpanic ''ialloc: no inodes''))"

definition dinode_of :: "inode \<Rightarrow> dinode" where
  "dinode_of r = \<lparr>d_type = i_type r, d_major = i_major r, d_minor = i_minor r, d_nlink = i_nlink r,
     d_size = i_size r, d_addrs = i_addrs r, d_mode = i_mode r\<rparr>"

definition iupdate :: "nat \<Rightarrow> (unit, 'x fs_st_scheme) kern" where
  "iupdate ip =
     kbind (get_inode ip) (\<lambda>r.
     kbind (kget fs_sb) (\<lambda>sb.
     kbind (bread (i_dev r) (IBLOCK (i_inum r) sb)) (\<lambda>bp.
     kbind (buf_data bp) (\<lambda>d.
     kseq (buf_store bp (put_dinode (unat (i_inum r) mod IPB) (dinode_of r) d)) (
     kseq (log_write bp)
          (brelse bp))))))"

definition load_dinode :: "dinode \<Rightarrow> inode \<Rightarrow> inode" where
  "load_dinode di r = r\<lparr>i_type := d_type di, i_major := d_major di, i_minor := d_minor di,
     i_nlink := d_nlink di, i_size := d_size di, i_addrs := d_addrs di, i_mode := d_mode di\<rparr>"

definition ilock :: "nat option \<Rightarrow> (unit, 'x fs_st_scheme) kern" where
  "ilock p =
     (case p of
        None \<Rightarrow> kpanic ''ilock''
      | Some ip \<Rightarrow>
          kbind (kget (\<lambda>s. i_ref (icache s ip))) (\<lambda>rf.
          if rf < 1 then kpanic ''ilock''
          else
            kseq (acquiresleep (SL_inode ip)) (
            kbind (get_inode ip) (\<lambda>r.
            kwhen (\<not> i_valid r) (
              kbind (kget fs_sb) (\<lambda>sb.
              kbind (bread (i_dev r) (IBLOCK (i_inum r) sb)) (\<lambda>bp.
              kbind (buf_data bp) (\<lambda>d.
              kseq (upd_inode ip (load_dinode (get_dinode (unat (i_inum r) mod IPB) d))) (
              kseq (brelse bp) (
              kseq (upd_inode ip (\<lambda>r. r\<lparr>i_valid := True\<rparr>)) (
              kbind (get_inode ip) (\<lambda>r.
              if i_type r = 0 then kpanic ''ilock: no type'' else kret ()))))))))))))"

definition iunlock :: "nat option \<Rightarrow> (unit, 'x fs_st_scheme) kern" where
  "iunlock p =
     (case p of
        None \<Rightarrow> kpanic ''iunlock''
      | Some ip \<Rightarrow>
          kbind (holdingsleep (SL_inode ip)) (\<lambda>h.
          kbind (get_inode ip) (\<lambda>r.
          if \<not> h \<or> i_ref r < 1 then kpanic ''iunlock''
          else releasesleep (SL_inode ip))))"

definition itrunc :: "nat \<Rightarrow> (unit, 'x fs_st_scheme) kern" where
  "itrunc ip =
     kseq (kfor [0..<NDIRECT] (\<lambda>i.
       kbind (get_inode ip) (\<lambda>r.
       kwhen (i_addrs r ! i \<noteq> 0) (
         kseq (bfree (i_dev r) (i_addrs r ! i))
              (upd_inode ip (\<lambda>r. r\<lparr>i_addrs := (i_addrs r)[i := 0]\<rparr>)))))) (
     kseq (
       kbind (get_inode ip) (\<lambda>r.
       kwhen (i_addrs r ! NDIRECT \<noteq> 0) (
         kbind (bread (i_dev r) (i_addrs r ! NDIRECT)) (\<lambda>bp.
         kbind (buf_data bp) (\<lambda>a.
         kseq (kfor [0..<NINDIRECT] (\<lambda>j.
           kwhen (get32 j a \<noteq> 0) (bfree (i_dev r) (get32 j a)))) (
         kseq (brelse bp) (
         kseq (bfree (i_dev r) (i_addrs r ! NDIRECT))
              (upd_inode ip (\<lambda>r. r\<lparr>i_addrs := (i_addrs r)[NDIRECT := 0]\<rparr>))))))))) (
     kseq (upd_inode ip (\<lambda>r. r\<lparr>i_size := 0\<rparr>))
          (iupdate ip)))"

definition iput :: "nat \<Rightarrow> (unit, 'x fs_st_scheme) kern" where
  "iput ip =
     kseq (acquiresleep (SL_inode ip)) (
     kbind (get_inode ip) (\<lambda>r.
     kseq (kwhen (i_valid r \<and> i_nlink r = 0) (
       kseq (acquire L_icache) (
       kbind (kget (\<lambda>s. i_ref (icache s ip))) (\<lambda>rf.
       kseq (release L_icache) (
       kwhen (rf = 1) (
         kseq (itrunc ip) (
         kseq (upd_inode ip (\<lambda>r. r\<lparr>i_type := 0\<rparr>)) (
         kseq (iupdate ip)
              (upd_inode ip (\<lambda>r. r\<lparr>i_valid := False\<rparr>)))))))))) (
     kseq (releasesleep (SL_inode ip)) (
     kseq (acquire L_icache) (
     kseq (upd_inode ip (\<lambda>r. r\<lparr>i_ref := i_ref r - 1\<rparr>))
          (release L_icache))))))"

definition iunlockput :: "nat \<Rightarrow> (unit, 'x fs_st_scheme) kern" where
  "iunlockput ip = kseq (iunlock (Some ip)) (iput ip)"

section \<open>Inode contents\<close>

definition bmap :: "nat \<Rightarrow> u32 \<Rightarrow> (u32, 'x fs_st_scheme) kern" where
  "bmap ip bn =
     (if unat bn < NDIRECT then
        kbind (get_inode ip) (\<lambda>r.
        if i_addrs r ! unat bn = 0 then
          kbind (balloc (i_dev r)) (\<lambda>addr.
          kseq (upd_inode ip (\<lambda>r. r\<lparr>i_addrs := (i_addrs r)[unat bn := addr]\<rparr>)) (kret addr))
        else kret (i_addrs r ! unat bn))
      else
        let bn = unat bn - NDIRECT in
        if bn < NINDIRECT then
          kbind (get_inode ip) (\<lambda>r.
          kbind (if i_addrs r ! NDIRECT = 0 then
              kbind (balloc (i_dev r)) (\<lambda>addr.
              kseq (upd_inode ip (\<lambda>r. r\<lparr>i_addrs := (i_addrs r)[NDIRECT := addr]\<rparr>)) (kret addr))
            else kret (i_addrs r ! NDIRECT)) (\<lambda>addr.
          kbind (bread (i_dev r) addr) (\<lambda>bp.
          kbind (buf_data bp) (\<lambda>a.
          if get32 bn a = 0 then
            kbind (balloc (i_dev r)) (\<lambda>addr.
            kbind (buf_data bp) (\<lambda>a.
            kseq (buf_store bp (put32 bn addr a)) (
            kseq (log_write bp) (
            kseq (brelse bp) (kret addr)))))
          else kseq (brelse bp) (kret (get32 bn a))))))
        else kpanic ''bmap: out of range'')"

definition stati :: "nat \<Rightarrow> (stat, 'x fs_st_scheme) kern" where
  "stati ip = kbind (get_inode ip) (\<lambda>r. kret
     \<lparr>st_type = i_type r, st_dev = i_dev r, st_ino = i_inum r, st_nlink = i_nlink r, st_size = i_size r\<rparr>)"

text \<open>The number of bytes one pass of the copy loops handles; positive while bytes are left.\<close>

definition chunk :: "nat \<Rightarrow> nat \<Rightarrow> nat \<Rightarrow> nat" where
  "chunk off tot n = min (n - tot) (BSIZE - off mod BSIZE)"

lemma chunk_pos: "tot < n \<Longrightarrow> 0 < chunk off tot n"
  by (simp add: chunk_def BSIZE_def)

lemma chunk_dec: "\<not> n \<le> tot \<Longrightarrow> n - (tot + chunk off tot n) < n - tot"
  using chunk_pos [of tot n off] by simp

text \<open>The passes of the copy loops: \<open>off\<close>, \<open>tot\<close> and \<open>m\<close> of each, in order.\<close>

function chunks :: "nat \<Rightarrow> nat \<Rightarrow> nat \<Rightarrow> (nat \<times> nat \<times> nat) list" where
  "chunks off tot n =
     (if n \<le> tot then []
      else (off, tot, chunk off tot n) # chunks (off + chunk off tot n) (tot + chunk off tot n) n)"
  by pat_completeness auto

termination by (relation "measure (\<lambda>(off, tot, n). n - tot)") (simp, simp only: in_measure split_conv, erule chunk_dec)

declare chunks.simps [simp del]

fun readi_loop :: "nat \<Rightarrow> (nat \<times> nat \<times> nat) list \<Rightarrow> (u8 list, 'x fs_st_scheme) kern" where
  "readi_loop ip [] = kret []"
| "readi_loop ip ((off, tot, m) # cs) =
     kbind (get_inode ip) (\<lambda>r.
     kbind (bmap ip (of_nat (off div BSIZE))) (\<lambda>addr.
     kbind (bread (i_dev r) addr) (\<lambda>bp.
     kbind (buf_data bp) (\<lambda>d.
     kseq (brelse bp) (
     kbind (readi_loop ip cs) (\<lambda>rest.
     kret (bslice (off mod BSIZE) m d @ rest)))))))"

definition readi :: "(nat \<Rightarrow> 'x fs_st_scheme devsw) \<Rightarrow> nat \<Rightarrow> u32 \<Rightarrow> u32 \<Rightarrow> (int \<times> u8 list, 'x fs_st_scheme) kern" where
  "readi devsw ip off n =
     kbind (get_inode ip) (\<lambda>r.
     if i_type r = T_DEV then
       (if sint (i_major r) < 0 \<or> int NDEV \<le> sint (i_major r) then kret (-1, [])
        else case dv_read (devsw (unat (i_major r))) of
          None \<Rightarrow> kret (-1, [])
        | Some rd \<Rightarrow> rd ip n)
     else if i_size r < off \<or> off + n < off then kret (-1, [])
     else
       let n' = (if i_size r < off + n then i_size r - off else n) in
       kbind (readi_loop ip (chunks (unat off) 0 (unat n'))) (\<lambda>bs.
       kret (sint n', bs)))"

fun writei_loop :: "nat \<Rightarrow> u8 list \<Rightarrow> (nat \<times> nat \<times> nat) list \<Rightarrow> (unit, 'x fs_st_scheme) kern" where
  "writei_loop ip src [] = kret ()"
| "writei_loop ip src ((off, tot, m) # cs) =
     kbind (get_inode ip) (\<lambda>r.
     kbind (bmap ip (of_nat (off div BSIZE))) (\<lambda>addr.
     kbind (bread (i_dev r) addr) (\<lambda>bp.
     kbind (buf_data bp) (\<lambda>d.
     kseq (buf_store bp (bsplice (off mod BSIZE) (bslice tot m src) d)) (
     kseq (log_write bp) (
     kseq (brelse bp)
          (writei_loop ip src cs)))))))"

definition writei :: "(nat \<Rightarrow> 'x fs_st_scheme devsw) \<Rightarrow> nat \<Rightarrow> u8 list \<Rightarrow> u32 \<Rightarrow> u32 \<Rightarrow> (int, 'x fs_st_scheme) kern" where
  "writei devsw ip src off n =
     kbind (get_inode ip) (\<lambda>r.
     if i_type r = T_DEV then
       (if sint (i_major r) < 0 \<or> int NDEV \<le> sint (i_major r) then kret (-1)
        else case dv_write (devsw (unat (i_major r))) of
          None \<Rightarrow> kret (-1)
        | Some wr \<Rightarrow> wr ip src n)
     else if i_size r < off \<or> off + n < off then kret (-1)
     else if of_nat (MAXFILE * BSIZE) < off + n then kret (-1)
     else
       kseq (writei_loop ip src (chunks (unat off) 0 (unat n))) (
       kbind (get_inode ip) (\<lambda>r.
       kseq (kwhen (0 < n \<and> i_size r < off + n) (
               kseq (upd_inode ip (\<lambda>r. r\<lparr>i_size := off + n\<rparr>)) (iupdate ip)))
            (kret (sint n)))))"

section \<open>Directories\<close>

text \<open>Two byte strings side by side in memory, each followed by NULs up to \<open>DIRSIZ\<close>.\<close>

definition byte_at :: "u8 list \<Rightarrow> nat \<Rightarrow> u8" where
  "byte_at xs i = (if i < length xs then xs ! i else 0)"

definition two_names :: "u8 list \<Rightarrow> u8 list \<Rightarrow> mem" where
  "two_names s t a = (if a < DIRSIZ then byte_at s a else byte_at t (a - DIRSIZ))"

definition namecmp :: "u8 list \<Rightarrow> u8 list \<Rightarrow> int" where
  "namecmp s t = strncmp 0 DIRSIZ DIRSIZ (two_names s t)"

definition dirlookup ::
  "(nat \<Rightarrow> 'x fs_st_scheme devsw) \<Rightarrow> nat \<Rightarrow> u8 list \<Rightarrow> ((nat \<times> u32) option, 'x fs_st_scheme) kern" where
  "dirlookup devsw dp name =
     kbind (get_inode dp) (\<lambda>r.
     if i_type r \<noteq> T_DIR then kpanic ''dirlookup not DIR''
     else
       kloop (map (\<lambda>k. k * DIRENT_SIZE) [0..<(unat (i_size r) + DIRENT_SIZE - 1) div DIRENT_SIZE]) (\<lambda>off.
         kbind (readi devsw dp (of_nat off) (of_nat DIRENT_SIZE)) (\<lambda>(k, bs).
         if k \<noteq> int DIRENT_SIZE then kpanic ''dirlookup read''
         else
           let de = get_dirent bs in
           if de_inum de = 0 then kret None
           else if namecmp name (de_name de) = 0 then
             kbind (iget (i_dev r) (ucast (de_inum de))) (\<lambda>ip. kret (Some (ip, of_nat off)))
           else kret None)))"

text \<open>The search of \<open>dirlink\<close> for a free entry: its offset, or the directory's size, and the last
  entry read (whose name \<open>strncpy\<close> overwrites).\<close>

definition strncpy_name :: "u8 list \<Rightarrow> u8 list" where
  "strncpy_name name = (let m = strncpy 0 DIRSIZ DIRSIZ (two_names [] name) in map m [0..<DIRSIZ])"

definition dirlink ::
  "(nat \<Rightarrow> 'x fs_st_scheme devsw) \<Rightarrow> nat \<Rightarrow> u8 list \<Rightarrow> u32 \<Rightarrow> (int, 'x fs_st_scheme) kern" where
  "dirlink devsw dp name inum =
     kbind (dirlookup devsw dp name) (\<lambda>found.
     case found of
       Some (ip, off) \<Rightarrow> kseq (iput ip) (kret (-1))
     | None \<Rightarrow>
         kbind (get_inode dp) (\<lambda>r.
         kbind (kloop (map (\<lambda>k. k * DIRENT_SIZE) [0..<(unat (i_size r) + DIRENT_SIZE - 1) div DIRENT_SIZE]) (\<lambda>off.
           kbind (readi devsw dp (of_nat off) (of_nat DIRENT_SIZE)) (\<lambda>(k, bs).
           if k \<noteq> int DIRENT_SIZE then kpanic ''dirlink read''
           else kret (if de_inum (get_dirent bs) = 0 then Some off else None)))) (\<lambda>fr.
         let off = (case fr of Some off \<Rightarrow> off
                    | None \<Rightarrow> (unat (i_size r) + DIRENT_SIZE - 1) div DIRENT_SIZE * DIRENT_SIZE);
             de = \<lparr>de_inum = ucast inum, de_name = strncpy_name name\<rparr>
         in kbind (writei devsw dp (dirent_bytes de) (of_nat off) (of_nat DIRENT_SIZE)) (\<lambda>k.
            if k \<noteq> int DIRENT_SIZE then kpanic ''dirlink'' else kret 0))))"

section \<open>Paths\<close>

definition SLASH :: u8 where "SLASH = 47"

text \<open>\<open>skipelem\<close>: the rest of the path and the name buffer with the element copied in.\<close>

definition skipelem :: "u8 list \<Rightarrow> u8 list \<Rightarrow> (u8 list \<times> u8 list) option" where
  "skipelem path name =
     (let p = dropWhile (\<lambda>c. c = SLASH) path in
      if p = [] then None
      else
        let s = takeWhile (\<lambda>c. c \<noteq> SLASH) p;
            rest = dropWhile (\<lambda>c. c = SLASH) (dropWhile (\<lambda>c. c \<noteq> SLASH) p)
        in if DIRSIZ \<le> length s then Some (rest, bsplice 0 (take DIRSIZ s) name)
           else Some (rest, bsplice 0 (s @ [0]) name))"

text \<open>The name in a buffer: its bytes before the first NUL.\<close>

definition name_str :: "u8 list \<Rightarrow> u8 list" where
  "name_str name = takeWhile (\<lambda>c. c \<noteq> 0) name"

lemma skipelem_shorter: "skipelem path name = Some (rest, nm) \<Longrightarrow> length rest < length path"
proof -
  assume "skipelem path name = Some (rest, nm)"
  then have ne: "dropWhile (\<lambda>c. c = SLASH) path \<noteq> []"
    and r: "rest = dropWhile (\<lambda>c. c = SLASH) (dropWhile (\<lambda>c. c \<noteq> SLASH) (dropWhile (\<lambda>c. c = SLASH) path))"
    by (auto simp: skipelem_def Let_def split: if_splits)
  obtain c cs where p: "dropWhile (\<lambda>c. c = SLASH) path = c # cs" by (rule list.exhaust [of "dropWhile (\<lambda>c. c = SLASH) path"]) (use ne in blast)
  then have c: "c \<noteq> SLASH" using hd_dropWhile [OF ne] by simp
  have "length rest \<le> length (dropWhile (\<lambda>c. c \<noteq> SLASH) (c # cs))"
    unfolding r p by (rule length_dropWhile_le)
  also have "\<dots> \<le> length cs" using c length_dropWhile_le [of "\<lambda>c. c \<noteq> SLASH" cs] by simp
  finally have "length rest \<le> length cs" .
  moreover have "Suc (length cs) \<le> length path" using p length_dropWhile_le [of "\<lambda>c. c = SLASH" path] by simp
  ultimately show ?thesis by simp
qed

text \<open>The successive results of \<open>skipelem\<close> along a path.\<close>

function path_steps :: "u8 list \<Rightarrow> u8 list \<Rightarrow> (u8 list \<times> u8 list) list" where
  "path_steps path name =
     (case skipelem path name of None \<Rightarrow> []
      | Some (rest, nm) \<Rightarrow> (rest, nm) # path_steps rest nm)"
  by pat_completeness auto

termination by (relation "measure (\<lambda>(path, name). length path)")
    (simp, hypsubst, simp only: in_measure split_conv, erule skipelem_shorter)

declare path_steps.simps [simp del]

text \<open>The loop of \<open>namex\<close> over them: the inode reached (or null) and the name buffer.\<close>

fun namex_loop ::
  "(nat \<Rightarrow> 'x fs_st_scheme devsw) \<Rightarrow> bool \<Rightarrow> nat \<Rightarrow> (u8 list \<times> u8 list) list \<Rightarrow> u8 list
     \<Rightarrow> (nat option \<times> u8 list, 'x fs_st_scheme) kern" where
  "namex_loop devsw parent ip [] name =
     (if parent then kseq (iput ip) (kret (None, name)) else kret (Some ip, name))"
| "namex_loop devsw parent ip ((rest, nm) # steps) name =
     kseq (ilock (Some ip)) (
     kbind (get_inode ip) (\<lambda>r.
     if i_type r \<noteq> T_DIR then kseq (iunlockput ip) (kret (None, nm))
     else if parent \<and> rest = [] then kseq (iunlock (Some ip)) (kret (Some ip, nm))
     else
       kbind (dirlookup devsw ip (name_str nm)) (\<lambda>next.
       case next of
         None \<Rightarrow> kseq (iunlockput ip) (kret (None, nm))
       | Some (nip, off) \<Rightarrow>
           kseq (iunlockput ip) (namex_loop devsw parent nip steps nm))))"

definition namex ::
  "(nat \<Rightarrow> 'x fs_st_scheme devsw) \<Rightarrow> u8 list \<Rightarrow> bool \<Rightarrow> u8 list
     \<Rightarrow> (nat option \<times> u8 list, 'x fs_st_scheme) kern" where
  "namex devsw path parent name =
     kbind (if path \<noteq> [] \<and> hd path = SLASH then iget ROOTDEV ROOTINO
            else kbind curproc (\<lambda>p. kbind (kget (\<lambda>s. p_cwd (ptable s p))) (\<lambda>c.
                 case c of Some cwd \<Rightarrow> idup cwd | None \<Rightarrow> kundef))) (\<lambda>ip.
     namex_loop devsw parent ip (path_steps path name) name)"

definition namei :: "(nat \<Rightarrow> 'x fs_st_scheme devsw) \<Rightarrow> u8 list \<Rightarrow> (nat option, 'x fs_st_scheme) kern" where
  "namei devsw path = kbind (namex devsw path False (replicate DIRSIZ 0)) (\<lambda>(ip, name). kret ip)"

definition nameiparent ::
  "(nat \<Rightarrow> 'x fs_st_scheme devsw) \<Rightarrow> u8 list \<Rightarrow> u8 list \<Rightarrow> (nat option \<times> u8 list, 'x fs_st_scheme) kern" where
  "nameiparent devsw path name = namex devsw path True name"

section \<open>Transactional updates of blocks\<close>

text \<open>Read a block, change it, log it, give it back: the pattern of every metadata update.\<close>

definition rmw :: "u32 \<Rightarrow> u32 \<Rightarrow> (block \<Rightarrow> block) \<Rightarrow> (unit, 'x fs_st_scheme) kern" where
  "rmw dev n f =
     kbind (bread dev n) (\<lambda>bp.
     kbind (buf_data bp) (\<lambda>d.
     kseq (buf_store bp (f d)) (
     kseq (log_write bp)
          (brelse bp))))"

definition rd :: "u32 \<Rightarrow> u32 \<Rightarrow> (block, 'x fs_st_scheme) kern" where
  "rd dev n = kbind (bread dev n) (\<lambda>bp. kbind (buf_data bp) (\<lambda>d. kseq (brelse bp) (kret d)))"

text \<open>What a block update needs of the state and keeps: the cache and the log in order, with \<open>w\<close>
  waiting threads per buffer.\<close>

definition txn_inv :: "(nat \<Rightarrow> nat) \<Rightarrow> 'x log_st_scheme \<Rightarrow> bool" where
  "txn_inv w s \<longleftrightarrow> bio_inv w s \<and> log_inv s"

definition in_log :: "'x log_st_scheme \<Rightarrow> nat \<Rightarrow> bool" where
  "in_log s n \<longleftrightarrow> n \<in> log_region (log_head (lg s))"

text \<open>What no block operation touches: the inode cache, the superblock, the place of the log, the
  running process and the locks held.\<close>

definition fs_frame :: "'x log_st_scheme \<Rightarrow> 'x log_st_scheme \<Rightarrow> bool" where
  "fs_frame s t \<longleftrightarrow> op_frame s t \<and> log_st.more t = log_st.more s \<and> same_disk s t
     \<and> log_head (lg t) = log_head (lg s)"

lemma fs_frame_refl [simp]: "fs_frame s s" by (simp add: fs_frame_def)

lemma fs_frame_trans [trans]: "fs_frame s t \<Longrightarrow> fs_frame t u \<Longrightarrow> fs_frame s u"
  by (auto simp: fs_frame_def intro: op_frame_trans same_disk_trans)

lemma fs_st_more:
  "log_st.more t = log_st.more s \<longleftrightarrow> icache t = icache s \<and> fs_sb t = fs_sb s \<and> fs_st.more t = fs_st.more s"
  by (cases s, cases t) auto

lemma fs_frameD:
  assumes "fs_frame s t"
  shows "icache t = icache s" "fs_sb t = fs_sb s" "fs_st.more t = fs_st.more s" "disksize t = disksize s"
    "in_log t = in_log s"
  using assms op_frame_disksize [of s t]
  by (auto simp: fs_frame_def fs_st_more in_log_def fun_eq_iff)

lemma op_frameI':
  assumes "thread_frame s t" "disksize t = disksize s" "\<forall>k. k \<noteq> SL_buf b \<longrightarrow> slocks t k = slocks s k"
    "others b s t" "\<not> locked_bufs s b" "\<not> locked_bufs t b"
  shows "op_frame s t"
  using assms(1,2,4) unfolding op_frame_def others_def
  by (intro conjI allI impI) (use assms(3,5,6) in \<open>(auto simp: locked_bufs_def; metis)+\<close>)

lemma rmw_Ok:
  assumes g: "rmw 1 n f s = Ok u t" and inv: "txn_inv w s" and out: "\<not> in_log s (unat n)"
    and len: "\<And>d. length d = BSIZE \<Longrightarrow> length (f d) = BSIZE"
  shows "txn_inv w t" "view t = (view s)(unat n := f (view s (unat n)))" "fs_frame s t"
    "unat n < disksize s"
proof -
  have i: "bio_inv w s" "log_inv s" using inv by (simp_all add: txn_inv_def)
  from g obtain b m a c where m: "bread 1 n s = Ok b m" and a: "buf_store b (f (b_data (bufs m b))) m = Ok () a"
    and c: "log_write b a = Ok () c" and t: "brelse b c = Ok () t"
    by (auto simp: rmw_def kbind_eq_Ok kseq_eq_Ok buf_data_def)
  note R = bread_Ok [OF m i(1)] and H = has_blockD [OF bread_has_block [OF m i(1)]]
  have ln: "length (f (b_data (bufs m b))) = BSIZE"
    using len length_view [OF i(1)] R(13) by simp
  note A = buf_store_Ok [OF a R(1) H(1,3) ln]
  note C = log_write_Ok [OF c A(1,2,7)]
  note T = brelse_Ok [OF t C(1,2,5)]
  have nb: "unat (b_blockno (bufs a b)) = unat n" using A(8) H(5) by simp
  have lm: "lg m = lg s" "log_st.more m = log_st.more s" "disksize m = disksize s"
    using R(4) by (simp_all add: io_frame_def log_st_more)
  have la: "lg a = lg s" "log_st.more a = log_st.more s" "disksize a = disksize s" "dset (bufs a) = dset (bufs s)"
    using A(6,11) R(7) lm by simp_all
  have lt: "lg t = lg c" "log_st.more t = log_st.more c" "disksize t = disksize c"
    using T(2) by (simp_all add: io_frame_def log_st_more)
  have ia: "log_inv a" by (rule log_inv_frame [OF i(2) la(1,3,4)])
  have ic: "log_inv c"
    by (rule log_write_inv [OF c A(1,2,7) ia]) (use out nb la in \<open>simp add: in_log_def\<close>)
  have "log_inv t" by (rule log_inv_frame [OF ic lt(1,3) T(5)])
  with T(1) show "txn_inv w t" by (simp add: txn_inv_def)
  show "view t = (view s)(unat n := f (view s (unat n)))"
    using T(4) C(4) A(5) R(6,13) H(5) by simp
  show "unat n < disksize s" by (rule R)
  have l1: "\<not> locked_bufs s b" "\<not> locked_bufs t b" using R(2) T(6) by (simp_all add: locked_bufs_def)
  have sl: "\<forall>k. k \<noteq> SL_buf b \<longrightarrow> slocks t k = slocks s k"
    using R(4) A(10) C(10) T(2) by (simp add: io_frame_def)
  have th: "thread_frame s t"
    using io_frame_thread [OF R(4)] io_frame_thread [OF A(3)] C(9) io_frame_thread [OF T(2)]
    by (blast intro: thread_frame_trans)
  have dz: "disksize t = disksize s" using lt C(11) la by simp
  have ot: "others b s t"
    using bread_others [OF m i(1)] buf_store_others [OF a] C(8) brelse_others [OF t] by (blast intro: others_trans)
  have of: "op_frame s t" by (rule op_frameI' [OF th dz sl ot l1])
  have sd: "same_disk s t" using R(5) A(4) C(3) T(3) by (blast intro: same_disk_trans)
  show "fs_frame s t" using of sd lt C(12,13) la by (simp add: fs_frame_def log_head_def)
qed

lemma rd_Ok:
  assumes g: "rd 1 n s = Ok d t" and inv: "txn_inv w s"
  shows "txn_inv w t" "view t = view s" "fs_frame s t" "d = view s (unat n)" "lg t = lg s" "unat n < disksize s"
proof -
  have i: "bio_inv w s" "log_inv s" using inv by (simp_all add: txn_inv_def)
  from g obtain b m where m: "bread 1 n s = Ok b m" and d: "d = b_data (bufs m b)" and t: "brelse b m = Ok () t"
    by (auto simp: rd_def kbind_eq_Ok kseq_eq_Ok buf_data_def)
  note R = bread_Ok [OF m i(1)] and H = has_blockD [OF bread_has_block [OF m i(1)]]
  note T = brelse_Ok [OF t R(1,3,10)]
  have io: "io_frame b s t" using R(4) T(2) by (rule io_frame_trans)
  then have l: "lg t = lg s" "log_st.more t = log_st.more s" "disksize t = disksize s"
    by (simp_all add: io_frame_def log_st_more)
  have "log_inv t" by (rule log_inv_frame [OF i(2) l(1,3)]) (use T(5) R(7) in simp)
  with T(1) show "txn_inv w t" by (simp add: txn_inv_def)
  show "view t = view s" using T(4) R(6) by simp
  show "d = view s (unat n)" "unat n < disksize s" using d R(13,14) by simp_all
  show "lg t = lg s" by (rule l)
  have "op_frame s t"
    by (rule op_frameI [OF io]) (use bread_others [OF m i(1)] brelse_others [OF t] R(2) T(6) in
      \<open>auto simp: locked_bufs_def intro: others_trans\<close>)
  moreover have "same_disk s t" using R(5) T(3) by (rule same_disk_trans)
  ultimately show "fs_frame s t" using l by (simp add: fs_frame_def)
qed

text \<open>The state in which file system calls begin and end: no spin lock held, no buffer held or
  waited for, and the log in order, with room for \<open>k\<close> more blocks in the running transaction.\<close>

definition quiet :: "'x log_st_scheme \<Rightarrow> bool" where
  "quiet s \<longleftrightarrow> calm s \<and> log_inv s"

definition room :: "nat \<Rightarrow> 'x log_st_scheme \<Rightarrow> bool" where
  "room k s \<longleftrightarrow> 1 \<le> lg_outstanding (lg s) \<and> int (log_len (lg s)) + int k < lg_size (lg s)"

lemma quiet_txn: "quiet s \<Longrightarrow> txn_inv (\<lambda>_. 0) s"
  by (simp add: quiet_def txn_inv_def calm_def)

lemma quiet_avail:
  assumes "quiet s"
  shows "buf_avail (bufs s) (locked_bufs s) n"
proof -
  have c: "calm s" "log_inv s" using assms by (simp_all add: quiet_def)
  show ?thesis by (rule avail_first [OF c(1) pinned_small]) (use log_inv_room [OF c(2)] in simp_all)
qed

lemma quiet_after:
  assumes "quiet s" "thread_in {} t" "txn_inv (\<lambda>_. 0) t" "fs_frame s t"
  shows "quiet t"
  using assms calm_after [of s t] by (simp add: quiet_def txn_inv_def fs_frame_def)

lemma room_lg: "lg t = lg s \<Longrightarrow> room k t = room k s" by (simp add: room_def)

lemma room_mono: "room k s \<Longrightarrow> j \<le> k \<Longrightarrow> room j s" by (auto simp: room_def)

lemma room_add:
  assumes "room (Suc k) s" "log_inv s" "lg t = (lg s)\<lparr>lg_lh := lh_add bno (lg_lh (lg s))\<rparr>"
  shows "room k t"
proof -
  have l: "log_layout (lg s)" "lg_size (lg s) \<le> int LOGSIZE" using assms(2) by (simp_all add: log_inv_def)
  note L = log_layoutD [OF l(1)]
  have "lh_n (lg_lh (lg s)) < int (length (lh_block (lg_lh (lg s))))"
    using L(4,6) l(2) assms(1) by (simp add: room_def log_len_def)
  from lh_add_props(3,4) [OF L(4) this, of bno] show ?thesis
    using assms(1,3) L(4) by (simp add: room_def log_len_def)
qed

lemma rd_in:
  assumes q: "quiet s" and sz: "unat n < disksize s"
  shows "\<exists>t. rd 1 n s = Ok (view s (unat n)) t \<and> quiet t \<and> fs_frame s t \<and> view t = view s \<and> lg t = lg s"
proof -
  note C = calmD [of s]
  have c: "calm s" using q by (simp add: quiet_def)
  obtain b m where m: "bread 1 n s = Ok b m" "thread_in {} m"
    using bread_in [OF C(1) [OF c] _ _ C(2) [OF c] quiet_avail [OF q] sz] by auto
  note R = bread_Ok [OF m(1) C(2) [OF c]]
  obtain t where t: "brelse b m = Ok () t" "thread_in {} t" using brelse_in [OF m(2) _ _ _ R(3)] by auto
  have g: "rd 1 n s = Ok (b_data (bufs m b)) t"
    using m(1) t(1) by (simp add: rd_def kbind_def kseq_def buf_data_def)
  note T = rd_Ok [OF g quiet_txn [OF q]]
  show ?thesis
    using g T quiet_after [OF q t(2) T(1,3)] by auto
qed

lemma rmw_in:
  assumes q: "quiet s" and sz: "unat n < disksize s" and rm: "room (Suc k) s" and out: "\<not> in_log s (unat n)"
    and len: "\<And>d. length d = BSIZE \<Longrightarrow> length (f d) = BSIZE"
  shows "\<exists>t. rmw 1 n f s = Ok () t \<and> quiet t \<and> fs_frame s t \<and> view t = (view s)(unat n := f (view s (unat n)))
    \<and> room k t \<and> lg t = (lg s)\<lparr>lg_lh := lh_add n (lg_lh (lg s))\<rparr>"
proof -
  note C = calmD [of s]
  have c: "calm s" and li: "log_inv s" using q by (simp_all add: quiet_def)
  obtain b m where m: "bread 1 n s = Ok b m" "thread_in {} m"
    using bread_in [OF C(1) [OF c] _ _ C(2) [OF c] quiet_avail [OF q] sz] by auto
  note R = bread_Ok [OF m(1) C(2) [OF c]] and H = has_blockD [OF bread_has_block [OF m(1) C(2) [OF c]]]
  let ?d = "f (b_data (bufs m b))"
  let ?a = "m\<lparr>bufs := (bufs m)(b := (bufs m b)\<lparr>b_data := ?d\<rparr>)\<rparr>"
  have a: "buf_store b ?d m = Ok () ?a" by (rule thread_in_store)
  have "length ?d = BSIZE" using len length_view [OF C(2) [OF c]] R(13) by simp
  note A = buf_store_Ok [OF a R(1) H(1,3) this]
  have lm: "lg ?a = lg s" using R(4) by (simp add: io_frame_def log_st_more)
  have "log_layout (lg s)" "lg_size (lg s) \<le> int LOGSIZE" using li by (simp_all add: log_inv_def)
  with rm have n: "lh_n (lg_lh (lg s)) < int LOGSIZE" "lh_n (lg_lh (lg s)) < lg_size (lg s) - 1" "1 \<le> lg_outstanding (lg s)"
    using log_layoutD(4) [of "lg s"] by (auto simp: room_def log_len_def)
  obtain e where e: "log_write b ?a = Ok () e" "thread_in {} e"
    using log_write_in [of "{}" ?a b] m(2) n unfolding lm by auto
  note W = log_write_Ok [OF e(1) A(1,2,7)]
  obtain t where t: "brelse b e = Ok () t" "thread_in {} t" using brelse_in [OF e(2) _ _ _ W(2)] by auto
  have g: "rmw 1 n f s = Ok () t"
    using m(1) a e(1) t(1) by (simp add: rmw_def kbind_def kseq_def buf_data_def)
  note T = rmw_Ok [OF g quiet_txn [OF q] out len]
  have le: "lg t = lg e" using brelse_Ok(2) [OF t(1) W(1,2,5)] by (simp add: io_frame_def log_st_more)
  then have "room k t" using room_add [OF rm li, of t] W(13) lm by simp
  moreover have "b_blockno (bufs ?a b) = n" using A(8) H(5) by simp
  then have "lg t = (lg s)\<lparr>lg_lh := lh_add n (lg_lh (lg s))\<rparr>" using le W(13) lm by simp
  moreover note g T quiet_after [OF q t(2) T(1,3)]
  ultimately show ?thesis by auto
qed

section \<open>Dinodes in a block\<close>

lemma get16_splice [simp]: "off + 2 \<le> length d \<Longrightarrow> get16 off (bsplice off (bytes16 v) d) = v"
  by (simp add: get16_def)

lemma length_dinode_bytes [simp]:
  assumes "length (d_addrs di) = NDIRECT + 1"
  shows "length (dinode_bytes di) = DINODE_SIZE"
proof -
  have "length (concat (map bytes32 xs)) = 4 * length xs" for xs by (induction xs) simp_all
  with assms show ?thesis by (simp add: dinode_bytes_def DINODE_SIZE_def NDIRECT_def)
qed

lemma bslice_append1: "i + n \<le> length xs \<Longrightarrow> bslice i n (xs @ ys) = bslice i n xs"
  by (simp add: bslice_def)

lemma bslice_append2: "length xs \<le> i \<Longrightarrow> bslice i n (xs @ ys) = bslice (i - length xs) n ys"
  by (simp add: bslice_def)

lemma bslice_all: "n = length xs \<Longrightarrow> bslice 0 n xs = xs" by (simp add: bslice_def)

lemma bslice_words: "i < length ws \<Longrightarrow> bslice (4 * i) 4 (concat (map bytes32 ws)) = bytes32 (ws ! i)"
proof (induction ws arbitrary: i)
  case (Cons w ws)
  show ?case
  proof (cases i)
    case 0
    then show ?thesis by (simp add: bslice_append1 bslice_all)
  next
    case (Suc j)
    then show ?thesis using Cons by (simp add: bslice_append2)
  qed
qed simp

text \<open>Reading a dinode from the bytes \<open>iupdate\<close> copies gives the dinode back.\<close>

lemma dinode_codec:
  assumes len: "length (d_addrs di) = NDIRECT + 1"
  shows "get_dinode 0 (dinode_bytes di) = di"
proof -
  let ?b = "dinode_bytes di"
  have W: "length (concat (map bytes32 (d_addrs di))) = 48"
    using length_dinode_bytes [OF len] by (simp add: dinode_bytes_def DINODE_SIZE_def)
  have h: "get16 0 ?b = d_type di" "get16 2 ?b = d_major di" "get16 4 ?b = d_minor di" "get16 6 ?b = d_nlink di"
    "get32 2 ?b = d_size di" "get32 15 ?b = d_mode di"
    by (simp_all add: get16_def get32_def dinode_bytes_def bslice_append1 bslice_append2 bslice_all W)
  have a: "get32 (3 + i) ?b = d_addrs di ! i" if "i < NDIRECT + 1" for i
  proof -
    have "bslice (4 * (3 + i)) 4 ?b = bslice (4 * i) 4 (concat (map bytes32 (d_addrs di)) @ bytes32 (d_mode di))"
      by (simp add: dinode_bytes_def bslice_append2)
    also have "\<dots> = bslice (4 * i) 4 (concat (map bytes32 (d_addrs di)))"
      by (rule bslice_append1) (use that W in \<open>simp add: NDIRECT_def\<close>)
    also have "\<dots> = bytes32 (d_addrs di ! i)" by (rule bslice_words) (use that len in simp)
    finally show ?thesis by (simp add: get32_def)
  qed
  have "map (\<lambda>i. get32 (3 + i) ?b) [0..<NDIRECT + 1] = d_addrs di"
    by (rule nth_equalityI) (use len a in \<open>auto simp del: upt_Suc\<close>)
  moreover have "bslice 0 DINODE_SIZE ?b = ?b" by (rule bslice_all) (simp add: len)
  ultimately show ?thesis by (simp add: get_dinode_def Let_def h)
qed

lemma get_dinode_slice:
  "get_dinode k d = get_dinode 0 (bslice (DINODE_SIZE * k) DINODE_SIZE d)"
  by (simp add: get_dinode_def bslice_def)

lemma dinode_fits: "k < IPB \<Longrightarrow> DINODE_SIZE * k + DINODE_SIZE \<le> BSIZE"
  by (simp add: IPB_def DINODE_SIZE_def BSIZE_def)

lemma get_put_dinode:
  assumes "k < IPB" "length d = BSIZE" "length (d_addrs di) = NDIRECT + 1"
  shows "get_dinode k (put_dinode k di d) = di"
  unfolding get_dinode_slice [of k] put_dinode_def
  using dinode_fits [OF assms(1)] assms(2,3) by (simp add: dinode_codec)

lemma get_put_dinode_other:
  assumes "k < IPB" "j < IPB" "j \<noteq> k" "length d = BSIZE" "length (d_addrs di) = NDIRECT + 1"
  shows "get_dinode j (put_dinode k di d) = get_dinode j d"
proof -
  have "bslice (DINODE_SIZE * j) DINODE_SIZE (bsplice (DINODE_SIZE * k) (dinode_bytes di) d)
      = bslice (DINODE_SIZE * j) DINODE_SIZE d"
  proof (rule bslice_bsplice_other)
    have "j < k \<or> k < j" using assms(3) by linarith
    then show "DINODE_SIZE * j + DINODE_SIZE \<le> DINODE_SIZE * k
        \<or> DINODE_SIZE * k + length (dinode_bytes di) \<le> DINODE_SIZE * j"
      using assms(5) by (auto simp: DINODE_SIZE_def)
  qed (use dinode_fits [OF assms(1)] dinode_fits [OF assms(2)] assms(4,5) in simp_all)
  then show ?thesis unfolding get_dinode_slice [of j] put_dinode_def by simp
qed

lemma length_put_dinode [simp]:
  assumes "k < IPB" "length d = BSIZE" "length (d_addrs di) = NDIRECT + 1"
  shows "length (put_dinode k di d) = BSIZE"
  using dinode_fits [OF assms(1)] assms(2,3) by (simp add: put_dinode_def)

section \<open>Properties of inodes on disk\<close>

lemma iupdate_rmw:
  "iupdate ip s = rmw (i_dev (icache s ip)) (IBLOCK (i_inum (icache s ip)) (fs_sb s))
     (put_dinode (unat (i_inum (icache s ip)) mod IPB) (dinode_of (icache s ip))) s"
  by (simp add: iupdate_def rmw_def get_inode_def)

text \<open>The dinode of inode number \<open>inum\<close>, in the blocks \<open>v\<close>.\<close>

definition dinode_at :: "superblock \<Rightarrow> (nat \<Rightarrow> block) \<Rightarrow> u32 \<Rightarrow> dinode" where
  "dinode_at sb v inum = get_dinode (unat inum mod IPB) (v (unat (IBLOCK inum sb)))"

text \<open>Inode numbers whose block is on the disk and outside the log.\<close>

definition inum_ok :: "'x fs_st_scheme \<Rightarrow> u32 \<Rightarrow> bool" where
  "inum_ok s inum \<longleftrightarrow> unat (IBLOCK inum (fs_sb s)) < disksize s \<and> \<not> in_log s (unat (IBLOCK inum (fs_sb s)))"

lemma IBLOCK_inj:
  assumes "unat i mod IPB = unat j mod IPB" "IBLOCK i sb = IBLOCK j sb"
  shows "i = j"
proof -
  have "i div of_nat IPB = j div of_nat IPB" using assms(2) by (simp add: IBLOCK_def)
  then have "unat (i div 8) = unat (j div 8)" by (simp add: IPB_def BSIZE_def DINODE_SIZE_def)
  then have "unat i div 8 = unat j div 8" by (simp add: unat_div)
  moreover have "unat i mod 8 = unat j mod 8" using assms(1) by (simp add: IPB_def BSIZE_def DINODE_SIZE_def)
  ultimately show ?thesis by (metis div_mult_mod_eq word_unat_eq_iff)
qed

lemma IPB_pos [simp]: "0 < IPB" by (simp add: IPB_def BSIZE_def DINODE_SIZE_def)

lemma dinode_at_put:
  fixes inum j :: u32
  assumes "length (v (unat (IBLOCK inum sb))) = BSIZE" "length (d_addrs di) = NDIRECT + 1"
  defines "v' \<equiv> v(unat (IBLOCK inum sb) := put_dinode (unat inum mod IPB) di (v (unat (IBLOCK inum sb))))"
  shows "dinode_at sb v' j = (if j = inum then di else dinode_at sb v j)"
proof (cases "j = inum")
  case True
  then show ?thesis using assms by (simp add: dinode_at_def get_put_dinode)
next
  case False
  then have "IBLOCK j sb = IBLOCK inum sb \<Longrightarrow> unat j mod IPB \<noteq> unat inum mod IPB"
    using IBLOCK_inj by blast
  then show ?thesis using False assms
    by (simp add: dinode_at_def word_unat_eq_iff [symmetric] get_put_dinode_other)
qed

text \<open>
  C9. \<open>iupdate\<close>, called inside a transaction with room for a block, returns, and the inode table on
  disk (as the kernel sees it) then holds exactly the in-memory inode under its number: the
  dinodes of all other inode numbers, also those in the same block, every other block, and the
  inode cache are as before.  Reading the dinode back the way \<open>ilock\<close> does gives the inode copied.
\<close>

theorem iupdate_writes_inode:
  assumes "quiet s" and "room (Suc k) s" and "inum_ok s (i_inum (icache s ip))"
    and "i_dev (icache s ip) = 1" and "length (i_addrs (icache s ip)) = NDIRECT + 1"
  shows "\<exists>t. iupdate ip s = Ok () t \<and> quiet t \<and> room k t \<and> icache t = icache s \<and> fs_sb t = fs_sb s
    \<and> dinode_at (fs_sb s) (view t)
        = (dinode_at (fs_sb s) (view s))(i_inum (icache s ip) := dinode_of (icache s ip))
    \<and> (\<forall>n. n \<noteq> unat (IBLOCK (i_inum (icache s ip)) (fs_sb s)) \<longrightarrow> view t n = view s n)
    \<and> load_dinode (dinode_at (fs_sb s) (view t) (i_inum (icache s ip))) (icache s ip) = icache s ip"
proof -
  let ?r = "icache s ip"
  let ?n = "IBLOCK (i_inum ?r) (fs_sb s)" and ?f = "put_dinode (unat (i_inum ?r) mod IPB) (dinode_of ?r)"
  have la: "length (d_addrs (dinode_of ?r)) = NDIRECT + 1" using assms(5) by (simp add: dinode_of_def)
  have len: "length (?f d) = BSIZE" if "length d = BSIZE" for d
    by (rule length_put_dinode) (use that la in \<open>simp_all\<close>)
  from assms(3) have io: "unat ?n < disksize s" "\<not> in_log s (unat ?n)" by (simp_all add: inum_ok_def)
  obtain t where t: "rmw 1 ?n ?f s = Ok () t" "quiet t" "fs_frame s t" "view t = (view s)(unat ?n := ?f (view s (unat ?n)))" "room k t"
    using rmw_in [where f = ?f, OF assms(1) io(1) assms(2) io(2) len] by blast
  have lv: "length (view s (unat ?n)) = BSIZE"
    using assms(1) length_view [of "\<lambda>_. 0" s] by (simp add: quiet_def calm_def)
  have d: "dinode_at (fs_sb s) (view t) = (dinode_at (fs_sb s) (view s))(i_inum ?r := dinode_of ?r)"
    using dinode_at_put [where v = "view s" and inum = "i_inum ?r" and sb = "fs_sb s", OF lv la] by (auto simp: t(4) fun_eq_iff)
  have l: "load_dinode (dinode_of r) r = r" for r by (simp add: load_dinode_def dinode_of_def)
  show ?thesis
    using t(1,2,5) fs_frameD [OF t(3)] d assms(4)
    by (intro exI [of _ t]) (simp add: iupdate_rmw l, simp add: t(4))
qed

text \<open>A quiet state of the file system with an inode, number 9, in entry 3 of the inode cache.\<close>

definition demo_inode :: inode where
  "demo_inode = \<lparr>i_dev = 1, i_inum = 9, i_ref = 1, i_valid = True, i_type = T_FILE, i_major = 0, i_minor = 0,
     i_nlink = 1, i_size = 700, i_addrs = [60, 61] @ replicate 10 0, i_mode = 7\<rparr>"

definition demo_sb :: superblock where
  "demo_sb = \<lparr>sb_size = 1000, sb_nblocks = 941, sb_ninodes = 200, sb_nlog = 30, sb_logstart = 2,
     sb_inodestart = 32, sb_bmapstart = 58\<rparr>"

definition demo_fs_st :: fs_st where
  "demo_fs_st = log_st.extend demo_log_st (fs_st.fields ((\<lambda>_. demo_inode\<lparr>i_ref := 0, i_valid := False\<rparr>)(3 := demo_inode)) demo_sb)"

lemma quiet_extend:
  "quiet (log_st.extend s m) = quiet s" "room k (log_st.extend s m) = room k s"
  "in_log (log_st.extend s m) n = in_log s n"
  by (simp_all add: quiet_def calm_def thread_in_def found_def bio_inv_def locked_bufs_def [abs_def] log_inv_def log_pinned_def
     room_def in_log_def log_st.defs)

lemma demo_fs_simps [simp]:
  "icache demo_fs_st 3 = demo_inode" "fs_sb demo_fs_st = demo_sb" "disksize demo_fs_st = 1000"
  by (simp_all add: demo_fs_st_def log_st.defs fs_st.defs demo_log_st_def)

lemma demo_fs_quiet: "quiet demo_fs_st" "room 20 demo_fs_st" "in_log demo_fs_st n \<longleftrightarrow> n \<in> {2..32}"
proof -
  have h: "log_head (lg demo_log_st) = 2" "log_len (lg demo_log_st) = 1"
    by (simp_all add: log_head_def log_len_def demo_log_st_def)
  show "quiet demo_fs_st" using demo_log_calm demo_log_inv
    unfolding demo_fs_st_def quiet_extend by (simp add: quiet_def)
  show "room 20 demo_fs_st" unfolding demo_fs_st_def quiet_extend unfolding room_def h by (simp add: demo_log_st_def)
  show "in_log demo_fs_st n \<longleftrightarrow> n \<in> {2..32}"
    unfolding demo_fs_st_def quiet_extend unfolding in_log_def h by (simp add: log_region_def LOGSIZE_def MAXOPBLOCKS_def)
qed

theorem iupdate_writes_inode_witness:
  "\<exists>t. iupdate 3 demo_fs_st = Ok () t \<and> d_size (dinode_at demo_sb (view t) 9) = 700"
proof -
  have b: "unat (IBLOCK 9 demo_sb) = 33"
    by (simp add: IBLOCK_def demo_sb_def IPB_def BSIZE_def DINODE_SIZE_def)
  have "inum_ok demo_fs_st 9" using b by (simp add: inum_ok_def demo_fs_quiet)
  then show ?thesis
    using iupdate_writes_inode [of demo_fs_st 19 3] demo_fs_quiet
    by (simp add: demo_inode_def NDIRECT_def) (auto simp: dinode_of_def)
qed

section \<open>The reservation of the log\<close>

text \<open>Updates of distinct new blocks, as long as the transaction has room.\<close>

lemma rmw_blocks:
  assumes "quiet s" "distinct bs" "room (length bs) s" "\<forall>b \<in> set bs. unat b < disksize s \<and> \<not> in_log s (unat b) \<and> unat b \<notin> lh_set (lg_lh (lg s))"
    and len: "\<And>d. length d = BSIZE \<Longrightarrow> length (f d) = BSIZE"
  shows "\<exists>t. kfor bs (\<lambda>b. rmw 1 b f) s = Ok () t \<and> quiet t \<and> fs_frame s t \<and> room 0 t
    \<and> lh_n (lg_lh (lg t)) = lh_n (lg_lh (lg s)) + int (length bs) \<and> lg_size (lg t) = lg_size (lg s)"
  using assms(1-4)
proof (induction bs arbitrary: s)
  case Nil
  then show ?case by auto
next
  case (Cons b bs)
  have b: "unat b < disksize s" "\<not> in_log s (unat b)" "unat b \<notin> lh_set (lg_lh (lg s))" using Cons.prems(4) by auto
  have r: "room (Suc (length bs)) s" using Cons.prems(3) by simp
  obtain t where t: "rmw 1 b f s = Ok () t" "quiet t" "fs_frame s t" "room (length bs) t"
    "lg t = (lg s)\<lparr>lg_lh := lh_add b (lg_lh (lg s))\<rparr>" using rmw_in [where f = f, OF Cons.prems(1) b(1) r b(2) len] by blast
  have li: "log_layout (lg s)" "lg_size (lg s) \<le> int LOGSIZE" using Cons.prems(1) by (simp_all add: quiet_def log_inv_def)
  note L = log_layoutD [OF li(1)]
  have n: "lh_n (lg_lh (lg s)) < int (length (lh_block (lg_lh (lg s))))" using L(4,6) li(2) r by (simp add: room_def log_len_def)
  have set: "lh_set (lg_lh (lg t)) = insert (unat b) (lh_set (lg_lh (lg s)))" using lh_add_props(1) [OF L(4) n, of b] t(5) by simp
  have one: "lh_n (lg_lh (lg t)) = lh_n (lg_lh (lg s)) + 1" using lh_add_new [OF b(3) L(4)] t(5) by simp
  have fr: "disksize t = disksize s" "in_log t x = in_log s x" for x using t(3) by (simp_all add: fs_frame_def same_disk_def op_frame_disksize in_log_def)
  have ne: "unat c \<noteq> unat b" if "c \<in> set bs" for c using Cons.prems(2) that by (auto simp: word_unat_eq_iff [symmetric])
  obtain u where u: "kfor bs (\<lambda>b. rmw 1 b f) t = Ok () u" "quiet u" "fs_frame t u" "room 0 u"
    "lh_n (lg_lh (lg u)) = lh_n (lg_lh (lg t)) + int (length bs)" "lg_size (lg u) = lg_size (lg t)"
    using Cons.IH [OF t(2) _ t(4)] Cons.prems(2,4) fr set ne by auto
  have "fs_frame s u" using t(3) u(3) by (rule fs_frame_trans)
  then show ?case using t(1,5) u one by (simp add: kseq_def kbind_def)
qed

text \<open>\<open>log_write\<close> refuses a block when the log is full but for one.\<close>

lemma rmw_full:
  assumes "quiet s" "unat n < disksize s" "lg_size (lg s) - 1 \<le> lh_n (lg_lh (lg s))"
  shows "rmw 1 n f s = Panic ''too big a transaction''"
proof -
  have c: "calm s" using assms(1) by (simp add: quiet_def)
  note C = calmD [OF c]
  obtain b m where m: "bread 1 n s = Ok b m" using bread_in [OF C(1) _ _ C(2) quiet_avail [OF assms(1)] assms(2)] by auto
  have "lg m = lg s" using bread_Ok(4) [OF m C(2)] by (simp add: io_frame_def log_st_more)
  then show ?thesis
    using m assms(3) thread_in_store [of b _ m] by (simp add: rmw_def kbind_def kseq_def buf_data_def log_write_def)
qed

text \<open>
  C8. The reservation of \<open>begin_op\<close> is too large by one block.  From any state between two
  transactions, with an empty log of the \<open>LOGSIZE\<close> blocks that \<open>mkfs\<close> makes, three operations are
  admitted one after the other, which reserves \<open>MAXOPBLOCKS = 10\<close> blocks for each; of any 30
  distinct blocks that they then update, the first 29 are logged, and \<open>log_write\<close> panics at the
  last, although every operation has kept to its ten blocks: the log area holds one block less
  than \<open>LOGSIZE\<close>, since its first block is the header.
\<close>

theorem log_reservation_overruns:
  assumes "quiet s" and "\<not> lg_committing (lg s)" and "lg_outstanding (lg s) = 0" and "lh_n (lg_lh (lg s)) = 0"
    and "lg_size (lg s) = int LOGSIZE"
    and "length bs = 3 * MAXOPBLOCKS" "distinct bs" "\<forall>b \<in> set bs. unat b < disksize s \<and> \<not> in_log s (unat b)"
    and len: "\<And>d. length d = BSIZE \<Longrightarrow> length (f d) = BSIZE"
  shows "\<exists>t u. krep 3 begin_op s = Ok () t \<and> lg_outstanding (lg t) = 3
    \<and> kfor (butlast bs) (\<lambda>b. rmw 1 b f) t = Ok () u \<and> lh_n (lg_lh (lg u)) = 29
    \<and> rmw 1 (last bs) f u = Panic ''too big a transaction''"
proof -
  have q: "calm s" "log_inv s" using assms(1) by (simp_all add: quiet_def)
  note num = LOGSIZE_def MAXOPBLOCKS_def
  obtain a where a: "begin_op s = Ok () a" "calm a" "log_inv a" "disksize a = disksize s" "lg a = (lg s)\<lparr>lg_outstanding := 1\<rparr>"
    using begin_op_in [OF q assms(2)] assms(3,4) by (auto simp: num)
  obtain b where b: "begin_op a = Ok () b" "calm b" "log_inv b" "disksize b = disksize s" "lg b = (lg s)\<lparr>lg_outstanding := 2\<rparr>"
    using begin_op_in [OF a(2,3)] a(4,5) assms(2,4) by (auto simp: num)
  obtain t where t: "begin_op b = Ok () t" "calm t" "log_inv t" "disksize t = disksize s" "lg t = (lg s)\<lparr>lg_outstanding := 3\<rparr>"
    using begin_op_in [OF b(2,3)] b(4,5) assms(2,4) by (auto simp: num)
  have k: "krep 3 begin_op s = Ok () t" using a(1) b(1) t(1) by (simp add: numeral_3_eq_3 kseq_def kbind_def)
  have qt: "quiet t" using t(2,3) by (simp add: quiet_def)
  have ne: "bs \<noteq> []" and lb: "length (butlast bs) = 29" using assms(6) by (auto simp: num)
  have rm: "room (length (butlast bs)) t" unfolding lb using t(5) assms(4,5) by (simp add: room_def log_len_def num)
  have head: "log_head (lg t) = log_head (lg s)" by (simp add: t(5) log_head_def)
  have "lh_set (lg_lh (lg t)) = {}" using t(5) assms(4) by (simp add: lh_set_def)
  then have bl: "\<forall>b \<in> set (butlast bs). unat b < disksize t \<and> \<not> in_log t (unat b) \<and> unat b \<notin> lh_set (lg_lh (lg t))"
    using assms(8) t(4) head by (auto simp: in_log_def dest: in_set_butlastD)
  obtain u where u: "kfor (butlast bs) (\<lambda>b. rmw 1 b f) t = Ok () u" "quiet u" "fs_frame t u"
    "lh_n (lg_lh (lg u)) = lh_n (lg_lh (lg t)) + 29" "lg_size (lg u) = lg_size (lg t)"
    using rmw_blocks [where f = f, OF qt distinct_butlast [OF assms(7)] rm bl len] unfolding lb by auto
  have "disksize u = disksize s" using t(4) u(3) op_frame_disksize [of t u] by (simp add: fs_frame_def)
  then have "unat (last bs) < disksize u" using assms(8) ne by simp
  then have "rmw 1 (last bs) f u = Panic ''too big a transaction''"
    using u(4,5) t(5) assms(4,5) by (intro rmw_full [OF u(2)]) (simp_all add: num)
  then show ?thesis using k t(5) u assms(4) by (intro exI [of _ t] exI [of _ u]) simp
qed

text \<open>The state after recovery of an empty log.\<close>

definition demo_idle_st :: fs_st where
  "demo_idle_st = log_st.extend (demo_boot_st\<lparr>lg := (lg demo_log_st)\<lparr>lg_outstanding := 0,
     lg_lh := \<lparr>lh_n = 0, lh_block = replicate 30 0\<rparr>\<rparr>\<rparr>) (fs_st.fields (\<lambda>_. demo_inode) demo_sb)"

theorem log_reservation_overruns_witness:
  "\<exists>t u. krep 3 begin_op demo_idle_st = Ok () t \<and> kfor (map of_nat [100..<129]) (\<lambda>b. rmw 1 b (\<lambda>d. d)) t = Ok () u
    \<and> rmw 1 129 (\<lambda>d. d) u = Panic ''too big a transaction''"
proof -
  let ?s = "demo_boot_st\<lparr>lg := (lg demo_log_st)\<lparr>lg_outstanding := 0, lg_lh := \<lparr>lh_n = 0, lh_block = replicate 30 0\<rparr>\<rparr>\<rparr>"
  have d: "disksize demo_idle_st = 1000" "lg demo_idle_st = lg ?s" by (simp_all add: demo_idle_st_def log_st.defs demo_boot_st_def demo_log_st_def)
  have lg: "log_len (lg ?s) = 0" "log_head (lg ?s) = 2" by (simp_all add: log_len_def log_head_def demo_log_st_def)
  have lg1: "lg_dev (lg ?s) = 1" "lg_start (lg ?s) = 2" "lh_n (lg_lh (lg ?s)) = 0" "length (lh_block (lg_lh (lg ?s))) = 30"
    "lg_size (lg ?s) = 30" "disksize ?s = 1000" "bufs ?s = bufs demo_boot_st" by (simp_all add: demo_log_st_def demo_boot_st_def)
  have "log_inv ?s" using demo_boot_calm(2)
    unfolding log_inv_def log_layout_def log_pinned_def lg lg1 by (simp add: LOGSIZE_def MAXOPBLOCKS_def)
  then have q: "quiet demo_idle_st" unfolding demo_idle_st_def quiet_extend using demo_boot_calm(1) by (simp add: quiet_def)
  have out: "in_log demo_idle_st n \<longleftrightarrow> n \<in> {2..32}" for n
    unfolding demo_idle_st_def quiet_extend unfolding in_log_def lg by (simp add: log_region_def LOGSIZE_def MAXOPBLOCKS_def)
  let ?bs = "map of_nat [100..<130] :: u32 list"
  have l: "butlast ?bs = map of_nat [100..<129]" "last ?bs = 129" by (simp_all add: map_butlast [symmetric] last_map)
  have "distinct ?bs" by (simp add: distinct_map inj_on_def word_unat_eq_iff unat_of_nat)
  moreover have "\<forall>b \<in> set ?bs. unat b < disksize demo_idle_st \<and> \<not> in_log demo_idle_st (unat b)"
    unfolding out d by (auto simp: unat_of_nat)
  ultimately show ?thesis
    using log_reservation_overruns [OF q, of ?bs "\<lambda>d. d"] unfolding l d
    by (auto simp: demo_log_st_def LOGSIZE_def MAXOPBLOCKS_def)
qed

section \<open>The free map\<close>

lemma bit_used_bit: "bit_used bi d \<longleftrightarrow> bit (d ! (bi div 8)) (bi mod 8)"
  by (simp add: bit_used_def bit_iff_and_push_bit_not_eq_0)

lemma div_mod_inj8: "i div 8 = j div 8 \<Longrightarrow> i mod 8 = j mod 8 \<Longrightarrow> i = (j::nat)"
  by (metis div_mult_mod_eq)

lemma bit_used_updates:
  assumes "length d = BSIZE" "i < BPB" "j < BPB"
  shows "bit_used j (bit_set i d) \<longleftrightarrow> j = i \<or> bit_used j d"
    "bit_used j (bit_clear i d) \<longleftrightarrow> j \<noteq> i \<and> bit_used j d"
proof -
  have b: "i div 8 < length d" "j div 8 < length d" using assms by (simp_all add: BPB_def BSIZE_def)
  have m: "bit (push_bit (i mod 8) (1 :: u8)) (j mod 8) \<longleftrightarrow> i mod 8 = j mod 8"
    by (auto simp: bit_simps)
  have "j mod 8 < 8" by simp
  then show "bit_used j (bit_set i d) \<longleftrightarrow> j = i \<or> bit_used j d"
    "bit_used j (bit_clear i d) \<longleftrightarrow> j \<noteq> i \<and> bit_used j d"
    using b m div_mod_inj8 [of i j]
    by (auto simp: bit_used_bit bit_set_def bit_clear_def nth_list_update bit_or_iff bit_and_iff bit_not_iff)
qed

lemma length_bits [simp]: "length (bit_set i d) = length d" "length (bit_clear i d) = length d"
  by (simp_all add: bit_set_def bit_clear_def)

definition free_at :: "superblock \<Rightarrow> (nat \<Rightarrow> block) \<Rightarrow> u32 \<Rightarrow> bool" where
  "free_at sb v b \<longleftrightarrow> \<not> bit_used (unat b mod BPB) (v (unat (BBLOCK b sb)))"

text \<open>What \<open>mkfs\<close> sets up: the blocks of the free map are on the disk and outside the log, and they
  and the log are marked as used in it.\<close>

definition bitmap_ok :: "'x fs_st_scheme \<Rightarrow> bool" where
  "bitmap_ok s \<longleftrightarrow> unat (sb_size (fs_sb s)) \<le> disksize s
     \<and> (\<forall>b < sb_size (fs_sb s). unat (BBLOCK b (fs_sb s)) < disksize s \<and> \<not> in_log s (unat (BBLOCK b (fs_sb s)))
          \<and> (free_at (fs_sb s) (view s) b \<longrightarrow> \<not> in_log s (unat b) \<and> (\<forall>c < sb_size (fs_sb s). BBLOCK c (fs_sb s) \<noteq> b)))"

lemma div_BPB_bound: "unat (x :: u32) div BPB < 2 ^ 32"
  by (rule le_less_trans [OF div_le_dividend]) (use unsigned_less [of x] in simp)

lemma BBLOCK_unat: "BBLOCK b sb = of_nat (unat b div BPB) + sb_bmapstart sb"
proof -
  have "b div of_nat BPB = of_nat (unat b div BPB)"
    unfolding word_unat_eq_iff unat_of_nat32 [OF div_BPB_bound] by (simp add: unat_div BPB_def BSIZE_def)
  then show ?thesis by (simp add: BBLOCK_def)
qed

lemma BBLOCK_inj:
  assumes "BBLOCK b sb = BBLOCK c sb" "unat b mod BPB = unat c mod BPB"
  shows "b = c"
proof -
  have "(of_nat (unat b div BPB) :: u32) = of_nat (unat c div BPB)" using assms(1) by (simp add: BBLOCK_unat)
  then have "unat b div BPB = unat c div BPB" using div_BPB_bound by (metis unat_of_nat32)
  then show ?thesis using assms(2) by (metis div_mult_mod_eq word_unat_eq_iff)
qed

lemma BPB_pos [simp]: "0 < BPB" by (simp add: BPB_def BSIZE_def)

lemma free_at_set:
  assumes "length (v (unat (BBLOCK b sb))) = BSIZE"
  defines "n \<equiv> unat (BBLOCK b sb)" and "bi \<equiv> unat b mod BPB"
  shows "free_at sb (v(n := bit_set bi (v n))) c \<longleftrightarrow> c \<noteq> b \<and> free_at sb v c"
    "free_at sb (v(n := bit_clear bi (v n))) c \<longleftrightarrow> c = b \<or> free_at sb v c"
proof -
  have u: "bit_used j (bit_set bi (v n)) \<longleftrightarrow> j = bi \<or> bit_used j (v n)"
    "bit_used j (bit_clear bi (v n)) \<longleftrightarrow> j \<noteq> bi \<and> bit_used j (v n)" if "j < BPB" for j
    using bit_used_updates [of "v n" bi j] assms(1) that by (simp_all add: n_def bi_def)
  show "free_at sb (v(n := bit_set bi (v n))) c \<longleftrightarrow> c \<noteq> b \<and> free_at sb v c"
    "free_at sb (v(n := bit_clear bi (v n))) c \<longleftrightarrow> c = b \<or> free_at sb v c"
    by (cases "c = b"; cases "BBLOCK c sb = BBLOCK b sb";
        use BBLOCK_inj [of c sb b] u [of "unat c mod BPB"] in
        \<open>auto simp: free_at_def n_def bi_def word_unat_eq_iff\<close>)+
qed

lemma quiet_length: "quiet s \<Longrightarrow> length (view s n) = BSIZE"
  using length_view [of "\<lambda>_. 0" s] by (simp add: quiet_def calm_def)

lemma quiet_bread:
  assumes "quiet s" "unat n < disksize s"
  shows "\<exists>b m. bread 1 n s = Ok b m \<and> b_data (bufs m b) = view s (unat n)"
proof -
  have c: "calm s" using assms(1) by (simp add: quiet_def)
  note C = calmD [OF c]
  obtain b m where m: "bread 1 n s = Ok b m"
    using bread_in [OF C(1) _ _ C(2) quiet_avail [OF assms(1)] assms(2)] by auto
  with bread_Ok(13) [OF m C(2)] show ?thesis by auto
qed

text \<open>\<open>bfree\<close> is the update of its bit when the bit is set, and a panic otherwise.\<close>

lemma bfree_eval:
  assumes "quiet s" "unat (BBLOCK b (fs_sb s)) < disksize s"
  shows "bfree 1 b s = (if free_at (fs_sb s) (view s) b then Panic ''freeing free block''
     else rmw 1 (BBLOCK b (fs_sb s)) (bit_clear (unat b mod BPB)) s)"
proof -
  obtain bp m where m: "bread 1 (BBLOCK b (fs_sb s)) s = Ok bp m" "b_data (bufs m bp) = view s (unat (BBLOCK b (fs_sb s)))"
    using quiet_bread [OF assms] by blast
  then show ?thesis by (simp add: bfree_def rmw_def kbind_def buf_data_def free_at_def)
qed

lemma bfree_in:
  assumes q: "quiet s" and rm: "room (Suc k) s" and ok: "bitmap_ok s" "b < sb_size (fs_sb s)"
    and used: "\<not> free_at (fs_sb s) (view s) b"
  shows "\<exists>t. bfree 1 b s = Ok () t \<and> quiet t \<and> room k t \<and> fs_frame s t
    \<and> view t = (view s)(unat (BBLOCK b (fs_sb s)) := bit_clear (unat b mod BPB) (view s (unat (BBLOCK b (fs_sb s)))))
    \<and> (\<forall>c. free_at (fs_sb s) (view t) c \<longleftrightarrow> c = b \<or> free_at (fs_sb s) (view s) c)"
proof -
  let ?n = "BBLOCK b (fs_sb s)"
  have n: "unat ?n < disksize s" "\<not> in_log s (unat ?n)" using ok by (simp_all add: bitmap_ok_def)
  obtain t where t: "rmw 1 ?n (bit_clear (unat b mod BPB)) s = Ok () t" "quiet t" "fs_frame s t" "room k t"
    "view t = (view s)(unat ?n := bit_clear (unat b mod BPB) (view s (unat ?n)))"
    using rmw_in [OF q n(1) rm n(2), of "bit_clear (unat b mod BPB)"] by auto
  then show ?thesis
    using bfree_eval [OF q n(1)] used free_at_set(2) [of "view s" b "fs_sb s"] quiet_length [OF q] by auto
qed

text \<open>One pass of the outer loop of \<open>balloc\<close>: the block of the map at \<open>b\<close>.\<close>

definition map_scan :: "superblock \<Rightarrow> (nat \<Rightarrow> block) \<Rightarrow> nat \<Rightarrow> nat option" where
  "map_scan sb v b = find (\<lambda>bi. \<not> bit_used bi (v (unat (BBLOCK (of_nat b) sb)))) [0..<min BPB (unat (sb_size sb) - b)]"

definition balloc_pass :: "u32 \<Rightarrow> superblock \<Rightarrow> nat \<Rightarrow> (u32 option, 'x fs_st_scheme) kern" where
  "balloc_pass dev sb b =
     kbind (bread dev (BBLOCK (of_nat b) sb)) (\<lambda>bp.
     kbind (buf_data bp) (\<lambda>d.
     case find (\<lambda>bi. \<not> bit_used bi d) [0..<min BPB (unat (sb_size sb) - b)] of
       Some bi \<Rightarrow>
         kseq (buf_store bp (bit_set bi d)) (
         kseq (log_write bp) (
         kseq (brelse bp) (
         kseq (bzero dev (of_nat (b + bi)))
              (kret (Some (of_nat (b + bi)))))))
     | None \<Rightarrow> kseq (brelse bp) (kret None)))"

lemma balloc_passes:
  "balloc dev s = kbind (kloop (map (\<lambda>k. k * BPB) [0..<(unat (sb_size (fs_sb s)) + BPB - 1) div BPB]) (balloc_pass dev (fs_sb s)))
     (\<lambda>r. case r of Some a \<Rightarrow> kret a | None \<Rightarrow> kpanic ''balloc: out of blocks'') s"
  by (simp add: balloc_def balloc_pass_def [abs_def])

lemma balloc_pass_eval:
  assumes "quiet s" "unat (BBLOCK (of_nat b) sb) < disksize s"
  shows "balloc_pass 1 sb b s = (case map_scan sb (view s) b of
      Some bi \<Rightarrow> kseq (rmw 1 (BBLOCK (of_nat b) sb) (bit_set bi))
        (kseq (rmw 1 (of_nat (b + bi)) (\<lambda>_. replicate BSIZE 0)) (kret (Some (of_nat (b + bi))))) s
    | None \<Rightarrow> kbind (rd 1 (BBLOCK (of_nat b) sb)) (\<lambda>_. kret None) s)"
proof -
  obtain bp m where m: "bread 1 (BBLOCK (of_nat b) sb) s = Ok bp m" "b_data (bufs m bp) = view s (unat (BBLOCK (of_nat b) sb))"
    using quiet_bread [OF assms] by blast
  have z: "bzero 1 n = rmw 1 n (\<lambda>_. replicate BSIZE 0)" for n
    by (simp add: bzero_def rmw_def fun_eq_iff buf_data_def kbind_def split: res.splits)
  show ?thesis using m
    by (simp add: balloc_pass_def rmw_def rd_def kbind_def kseq_def buf_data_def map_scan_def z [unfolded rmw_def kbind_def kseq_def]
        split: option.split res.split)
qed

lemma find_first:
  assumes "i < n" "P i" "\<And>j. j < i \<Longrightarrow> \<not> P j"
  shows "find P [0..<n] = Some i"
  using assms by (auto simp: find_Some_iff)

lemma BBLOCK_pass:
  assumes "b < 2 ^ 32" "b div BPB = unat a div BPB"
  shows "BBLOCK (of_nat b) sb = BBLOCK a sb"
  using assms by (simp add: BBLOCK_unat unat_of_nat32)

text \<open>The passes before the block of the map that has the first free bit find nothing.\<close>

lemma balloc_skip:
  assumes "quiet s" "bitmap_ok s"
    and "\<And>b. b < sb_size (fs_sb s) \<Longrightarrow> unat b div BPB < n \<Longrightarrow> \<not> free_at (fs_sb s) (view s) b"
    and "n * BPB \<le> unat (sb_size (fs_sb s))"
  shows "\<exists>t. kloop (map (\<lambda>k. k * BPB) [0..<n]) (balloc_pass 1 (fs_sb s)) s = Ok None t
    \<and> quiet t \<and> fs_frame s t \<and> view t = view s \<and> lg t = lg s"
  using assms(3,4)
proof (induction n)
  case 0
  then show ?case using assms by simp
next
  case (Suc n)
  let ?sb = "fs_sb s"
  obtain m where m: "kloop (map (\<lambda>k. k * BPB) [0..<n]) (balloc_pass 1 ?sb) s = Ok None m"
    "quiet m" "fs_frame s m" "view m = view s" "lg m = lg s"
  proof -
    have "\<exists>t. kloop (map (\<lambda>k. k * BPB) [0..<n]) (balloc_pass 1 ?sb) s = Ok None t
      \<and> quiet t \<and> fs_frame s t \<and> view t = view s \<and> lg t = lg s"
    proof (rule Suc.IH)
      show "n * BPB \<le> unat (sb_size ?sb)" using Suc.prems(2) by simp
      show "\<not> free_at ?sb (view s) b" if "b < sb_size ?sb" "unat b div BPB < n" for b
        by (rule Suc.prems(1) [OF that(1) less_SucI [OF that(2)]])
    qed
    then show thesis by (elim exE conjE) (rule that)
  qed
  have lt: "n * BPB + bi < unat (sb_size ?sb)" if "bi < BPB" for bi using Suc.prems(2) that by simp
  have l32: "x < 2 ^ 32" if "x < unat (sb_size ?sb)" for x
    using less_trans [OF that unsigned_less] by simp
  have none: "map_scan ?sb (view m) (n * BPB) = None"
    unfolding map_scan_def find_None_iff m(4)
  proof (clarify)
    fix bi assume "bi \<in> set [0..<min BPB (unat (sb_size ?sb) - n * BPB)]"
      and f: "\<not> bit_used bi (view s (unat (BBLOCK (word_of_nat (n * BPB)) ?sb)))"
    then have bi: "bi < BPB" by simp
    let ?b = "of_nat (n * BPB + bi) :: u32"
    have u: "unat ?b = n * BPB + bi" by (rule unat_of_nat32 [OF l32 [OF lt [OF bi]]])
    have d: "unat ?b div BPB = n" "unat ?b mod BPB = bi" unfolding u using bi by simp_all
    have "n * BPB < 2 ^ 32" using l32 [OF lt [OF BPB_pos]] by simp
    then have e: "BBLOCK (of_nat (n * BPB)) ?sb = BBLOCK ?b ?sb" by (rule BBLOCK_pass) (subst d(1), simp)
    have "free_at ?sb (view s) ?b" using f unfolding free_at_def d(2) e .
    moreover have "?b < sb_size ?sb" using lt [OF bi] by (simp only: word_less_nat_alt u)
    ultimately show False using Suc.prems(1) [of ?b] d(1) by simp
  qed
  have "of_nat (n * BPB) < sb_size ?sb"
    using lt [OF BPB_pos] l32 [OF lt [OF BPB_pos]] by (simp only: word_less_nat_alt unat_of_nat32 add_0_right)
  then have sz: "unat (BBLOCK (of_nat (n * BPB)) ?sb) < disksize m"
    using assms(2) fs_frameD(4) [OF m(3)] by (simp add: bitmap_ok_def)
  obtain t where t: "rd 1 (BBLOCK (of_nat (n * BPB)) ?sb) m = Ok (view m (unat (BBLOCK (of_nat (n * BPB)) ?sb))) t"
    "quiet t" "fs_frame m t" "view t = view m" "lg t = lg m"
    using rd_in [OF m(2) sz] by blast
  have "balloc_pass 1 ?sb (n * BPB) m = Ok None t"
    unfolding balloc_pass_eval [OF m(2) sz] none using t(1) by (simp add: kbind_def)
  with m t show ?case by (auto simp: kloop_append kbind_def intro: fs_frame_trans)
qed

text \<open>
  C10. \<open>balloc\<close>, called in a transaction with room for two blocks while the free map has a clear bit
  below \<open>sb.size\<close>, returns the first such block \<open>a\<close>.  Afterwards exactly \<open>a\<close> is no longer free,
  \<open>a\<close> is filled with zeroes, and every block but \<open>a\<close> and its block of the map is unchanged.
\<close>

theorem balloc_takes_first_free:
  assumes "quiet s" and "room (Suc (Suc k)) s" and "bitmap_ok s" and "a < sb_size (fs_sb s)"
    and "free_at (fs_sb s) (view s) a" and "\<forall>b < a. \<not> free_at (fs_sb s) (view s) b"
  shows "\<exists>t. balloc 1 s = Ok a t \<and> quiet t \<and> room k t \<and> icache t = icache s
    \<and> (\<forall>b < sb_size (fs_sb s). free_at (fs_sb s) (view t) b \<longleftrightarrow> b \<noteq> a \<and> free_at (fs_sb s) (view s) b)
    \<and> view t (unat a) = replicate BSIZE 0
    \<and> (\<forall>n. n \<noteq> unat a \<longrightarrow> n \<noteq> unat (BBLOCK a (fs_sb s)) \<longrightarrow> view t n = view s n)"
proof -
  let ?sb = "fs_sb s" and ?n = "unat a div BPB"
  let ?N = "(unat (sb_size ?sb) + BPB - 1) div BPB"
  have as: "unat a < unat (sb_size ?sb)" using assms(4) by (simp add: word_less_nat_alt)
  have e: "?n * BPB + unat a mod BPB = unat a" by simp
  have nN: "?n < ?N"
  proof -
    have "?n < ?N \<longleftrightarrow> Suc ?n * BPB \<le> unat (sb_size ?sb) + BPB - 1"
      by (simp only: less_eq_div_iff_mult_less_eq [OF BPB_pos] Suc_le_eq [symmetric])
    moreover have "Suc ?n * BPB \<le> unat (sb_size ?sb) + BPB - 1" unfolding mult_Suc using as e by linarith
    ultimately show ?thesis by blast
  qed
  have le: "?n * BPB \<le> unat (sb_size ?sb)" using as e by linarith
  have nofree: "\<not> free_at ?sb (view s) b" if "b < sb_size ?sb" "unat b div BPB < ?n" for b
  proof -
    have "\<not> unat a \<le> unat b" using that div_le_mono [of "unat a" "unat b" BPB] by auto
    then have "b < a" by (simp add: word_less_nat_alt)
    then show ?thesis using assms(6) by blast
  qed
  obtain m where m: "kloop (map (\<lambda>k. k * BPB) [0..<?n]) (balloc_pass 1 ?sb) s = Ok None m"
    "quiet m" "fs_frame s m" "view m = view s" "lg m = lg s"
    using balloc_skip [OF assms(1,3) nofree le] by blast
  note F = fs_frameD [OF m(3)]
  have eB: "BBLOCK (of_nat (?n * BPB)) ?sb = BBLOCK a ?sb"
  proof (rule BBLOCK_pass)
    show "?n * BPB < 2 ^ 32" by (rule le_less_trans [OF div_times_less_eq_dividend]) (use unsigned_less [of a] in simp)
  qed simp
  have scan: "map_scan ?sb (view m) (?n * BPB) = Some (unat a mod BPB)"
    unfolding map_scan_def eB m(4)
  proof (rule find_first)
    show "unat a mod BPB < min BPB (unat (sb_size ?sb) - ?n * BPB)" using as e by (simp add: less_diff_conv)
    show "\<not> bit_used (unat a mod BPB) (view s (unat (BBLOCK a ?sb)))" using assms(5) by (simp add: free_at_def)
    fix j assume j: "j < unat a mod BPB"
    then have jB: "j < BPB" using order.strict_trans [OF j mod_less_divisor [OF BPB_pos]] by blast
    let ?b = "of_nat (?n * BPB + j) :: u32"
    have u: "unat ?b = ?n * BPB + j" 
      by (rule unat_of_nat32, rule less_trans [of _ "unat a"]) (use j e unsigned_less [of a] in \<open>linarith, simp\<close>)
    then have "?b < a" using j e by (simp only: word_less_nat_alt)
    moreover have "unat ?b div BPB = ?n" "unat ?b mod BPB = j" unfolding u using jB by simp_all
    ultimately show "\<not> \<not> bit_used j (view s (unat (BBLOCK a ?sb)))"
      using assms(6) by (auto simp: free_at_def BBLOCK_unat)
  qed
  have bm: "unat (BBLOCK a ?sb) < disksize m" "\<not> in_log m (unat (BBLOCK a ?sb))" "unat a < disksize m" "\<not> in_log m (unat a)"
    and nb: "\<forall>c < sb_size ?sb. BBLOCK c ?sb \<noteq> a"
    using assms(3-5) F as by (auto simp: bitmap_ok_def)
  have rm: "room (Suc (Suc k)) m" using assms(2) room_lg [OF m(5)] by simp
  obtain c where c: "rmw 1 (BBLOCK a ?sb) (bit_set (unat a mod BPB)) m = Ok () c" "quiet c" "fs_frame m c" "room (Suc k) c"
    "view c = (view m)(unat (BBLOCK a ?sb) := bit_set (unat a mod BPB) (view m (unat (BBLOCK a ?sb))))"
    using rmw_in [OF m(2) bm(1) rm bm(2), of "bit_set (unat a mod BPB)"] by auto
  note Fc = fs_frameD [OF c(3)]
  obtain t where t: "rmw 1 a (\<lambda>_. replicate BSIZE 0) c = Ok () t" "quiet t" "fs_frame c t" "room k t"
    "view t = (view c)(unat a := replicate BSIZE 0)"
    using rmw_in [OF c(2) _ c(4), of a "\<lambda>_. replicate BSIZE 0"] bm(3,4) Fc by auto
  have "of_nat (?n * BPB + unat a mod BPB) = a" unfolding e by simp
  then have "balloc_pass 1 ?sb (?n * BPB) m = Ok (Some a) t"
    using balloc_pass_eval [OF m(2), of "?n * BPB" ?sb] bm(1) c(1) t(1)
    unfolding eB scan by (simp add: kseq_def kbind_def)
  moreover have "[0..<?N] = [0..<?n] @ ?n # [Suc ?n..<?N]" 
  proof -
    obtain j where "?N = ?n + Suc j" using less_imp_Suc_add [OF nN] by auto
    then show ?thesis using upt_add_eq_append [of 0 ?n "Suc j"] upt_conv_Cons [of ?n ?N] by simp
  qed
  ultimately have "balloc 1 s = Ok a t"
    unfolding balloc_passes using m(1) by (simp add: kloop_append kbind_def)
  moreover have "\<forall>b < sb_size ?sb. free_at ?sb (view t) b \<longleftrightarrow> b \<noteq> a \<and> free_at ?sb (view s) b"
  proof (intro allI impI)
    fix b assume "b < sb_size ?sb"
    then have "unat (BBLOCK b ?sb) \<noteq> unat a" using nb by (auto simp: word_unat_eq_iff)
    then have "free_at ?sb (view t) b = free_at ?sb (view c) b" by (simp add: free_at_def t(5))
    also have "\<dots> \<longleftrightarrow> b \<noteq> a \<and> free_at ?sb (view s) b"
      using free_at_set(1) [of "view s" a ?sb] quiet_length [OF assms(1)] by (simp add: c(5) m(4))
    finally show "free_at ?sb (view t) b \<longleftrightarrow> b \<noteq> a \<and> free_at ?sb (view s) b" .
  qed
  ultimately show ?thesis
    using t(2,4) fs_frameD [OF t(3)] Fc F by (intro exI [of _ t]) (simp add: t(5) c(5) m(4))
qed


text \<open>The demo state with a free map in which the blocks from 60 on are clear.\<close>

definition demo_map :: block where
  "demo_map = replicate 7 255 @ [15] @ replicate 504 0"

definition demo_disk :: "nat \<Rightarrow> block" where
  "demo_disk = (\<lambda>_. replicate 512 0)(58 := demo_map)"

definition demo_alloc_st :: fs_st where
  "demo_alloc_st = demo_fs_st\<lparr>memdisk := demo_disk\<rparr>"

lemma quiet_memdisk:
  assumes "quiet s" "\<forall>i < NBUF. valid (bufs s i) \<longrightarrow> dirty (bufs s i)" "\<forall>n. length (D n) = BSIZE"
  shows "quiet (s\<lparr>memdisk := D\<rparr>)"
proof -
  have t: "thread_in {} (s\<lparr>memdisk := D\<rparr>) = thread_in {} s" by (simp add: thread_in_def found_def)
  have l: "locked_bufs (s\<lparr>memdisk := D\<rparr>) = locked_bufs s" by (simp add: locked_bufs_def fun_eq_iff)
  have "log_inv (s\<lparr>memdisk := D\<rparr>) = log_inv s" by (simp add: log_inv_def log_pinned_def)
  moreover have "cache_inv (\<lambda>_. 0) (bufs s) (locked_bufs s) D (disksize s)"
    using assms unfolding quiet_def calm_def bio_inv_def cache_inv_def by blast
  ultimately show ?thesis using assms(1) by (simp add: quiet_def calm_def t l bio_inv_def)
qed

lemma demo_alloc_simps [simp]:
  "fs_sb demo_alloc_st = demo_sb" "disksize demo_alloc_st = 1000" "icache demo_alloc_st = icache demo_fs_st"
  "bufs demo_alloc_st = demo_log_buf" "lg demo_alloc_st = lg demo_fs_st"
  by (simp_all add: demo_alloc_st_def) (simp add: demo_fs_st_def demo_log_st_def log_st.defs)

lemma demo_alloc_quiet: "quiet demo_alloc_st" "room 20 demo_alloc_st"
proof -
  have b: "bufs demo_fs_st = demo_log_buf" by (simp add: demo_fs_st_def demo_log_st_def log_st.defs)
  show "quiet demo_alloc_st"
    unfolding demo_alloc_st_def
  proof (rule quiet_memdisk [OF demo_fs_quiet(1)])
    show "\<forall>i<NBUF. valid (bufs demo_fs_st i) \<longrightarrow> dirty (bufs demo_fs_st i)"
      using demo_log_flags by (auto simp: b) (metis demo_log_flags(2,3))
  qed (simp add: demo_disk_def demo_map_def BSIZE_def)
  show "room 20 demo_alloc_st" using demo_fs_quiet(2) by (simp add: room_def)
qed

lemma demo_alloc_view: "view demo_alloc_st n = (if n = 100 then replicate 512 7 else demo_disk n)"
proof (cases "n = 100")
  case True
  have "cache_view (bufs demo_alloc_st) (memdisk demo_alloc_st) n = b_data (bufs demo_alloc_st 0)"
    by (rule cache_view_hit [OF quiet_txn [OF demo_alloc_quiet(1), unfolded txn_inv_def bio_inv_def, THEN conjunct1]])
      (use demo_log_flags(1) True in \<open>simp_all add: holds_def NBUF_def MAXOPBLOCKS_def\<close>, simp add: demo_log_buf_def)
  then show ?thesis using True by (simp add: view_def demo_log_buf_def)
next
  case False
  have "cache_view (bufs demo_alloc_st) (memdisk demo_alloc_st) n = memdisk demo_alloc_st n"
  proof (rule cache_view_miss)
    fix i
    show "\<not> holds (bufs demo_alloc_st i) n"
      using demo_log_flags(3) [of i] False by (cases "i = 0") (auto simp: holds_def, simp add: demo_log_buf_def)
  qed
  then show ?thesis using False by (simp add: view_def) (simp add: demo_alloc_st_def)
qed

lemma demo_alloc_free:
  assumes "b < 1000"
  shows "BBLOCK b demo_sb = 58" "free_at demo_sb (view demo_alloc_st) b \<longleftrightarrow> 60 \<le> b"
proof -
  have u: "unat b < 1000" using assms by (simp add: word_less_nat_alt)
  then have d: "unat b div BPB = 0" "unat b mod BPB = unat b" by (simp_all add: BPB_def BSIZE_def)
  show B: "BBLOCK b demo_sb = 58" by (simp add: BBLOCK_unat d demo_sb_def)
  have "\<forall>i < 1000. bit_used i demo_map \<longleftrightarrow> i < 60"
  proof (intro allI impI)
    fix i :: nat assume "i < 1000"
    have nth: "demo_map ! k = (if k < 7 then 255 else if k = 7 then 15 else 0)" if "k < 512" for k
      using that by (auto simp: demo_map_def nth_append nth_Cons')
    have small: "i mod 8 < 8" by simp
    have n255: "bit (255 :: u8) m" if "m < 8" for m
      using that by (simp add: bit_numeral_word_iff) (auto simp: numeral_eq_Suc less_Suc_eq)
    have n15: "bit (15 :: u8) m \<longleftrightarrow> m < 4" if "m < 8" for m
      using that by (simp add: bit_numeral_word_iff) (auto simp: numeral_eq_Suc less_Suc_eq)
    consider "i div 8 < 7" | "i div 8 = 7" | "7 < i div 8" by linarith
    then show "bit_used i demo_map \<longleftrightarrow> i < 60"
    proof cases
      case 1
      then have "i < 56" by linarith
      moreover have "bit_used i demo_map" unfolding bit_used_bit using 1 n255 [OF small] by (simp only: nth) simp
      ultimately show ?thesis by simp
    next
      case 2
      then have "i = 56 + i mod 8" using div_mult_mod_eq [of i 8] by simp
      moreover have "bit_used i demo_map \<longleftrightarrow> i mod 8 < 4" using 2 unfolding bit_used_bit using 2 n15 [OF small] by (simp only: nth) simp
      ultimately show ?thesis by linarith
    next
      case 3
      then show ?thesis using \<open>i < 1000\<close> by (simp add: bit_used_bit nth)
    qed
  qed
  then have "bit_used (unat b) demo_map \<longleftrightarrow> unat b < 60" using u by blast
  then show "free_at demo_sb (view demo_alloc_st) b \<longleftrightarrow> 60 \<le> b"
    by (simp add: free_at_def B d demo_alloc_view demo_disk_def word_le_nat_alt not_less)
qed

lemma demo_bitmap_ok: "bitmap_ok demo_alloc_st"
proof -
  have i: "in_log demo_alloc_st n \<longleftrightarrow> n \<in> {2..32}" for n
    using demo_fs_quiet(3) [of n] by (simp add: in_log_def)
  have s: "sb_size demo_sb = 1000" by (simp add: demo_sb_def)
  show ?thesis
    unfolding bitmap_ok_def demo_alloc_simps s
  proof (intro conjI allI impI)
    fix b c :: u32 assume b: "b < 1000" and f: "free_at demo_sb (view demo_alloc_st) b" and c: "c < 1000"
    from f have "60 \<le> b" by (simp add: demo_alloc_free(2) [OF b])
    then have "60 \<le> unat b" by (simp add: word_le_nat_alt)
    then show "\<not> in_log demo_alloc_st (unat b)" "BBLOCK c demo_sb \<noteq> b" by (auto simp: i demo_alloc_free(1) [OF c])
  qed (simp_all add: demo_alloc_free(1) i)
qed

theorem balloc_takes_first_free_witness:
  "\<exists>t. balloc 1 demo_alloc_st = Ok 60 t \<and> view t 60 = replicate BSIZE 0
     \<and> free_at demo_sb (view t) 61 \<and> \<not> free_at demo_sb (view t) 60"
proof -
  have s: "sb_size demo_sb = 1000" by (simp add: demo_sb_def)
  have l: "b < 60 \<Longrightarrow> \<not> free_at demo_sb (view demo_alloc_st) b" for b
    using demo_alloc_free(2) [of b] by (simp add: word_less_nat_alt word_le_nat_alt)
  have r: "room (Suc (Suc 0)) demo_alloc_st" by (rule room_mono [OF demo_alloc_quiet(2)]) simp
  then show ?thesis
    using balloc_takes_first_free [OF demo_alloc_quiet(1) r demo_bitmap_ok, of 60] l
      demo_alloc_free(2) [of 60] demo_alloc_free(2) [of 61]
    by (auto simp: s)
qed

text \<open>
  \<open>bfree\<close> of a block that is in use, in a transaction with room for one block, returns and makes
  exactly that block free, changing no block but its block of the free map; freeing it a second
  time is the panic \<open>freeing free block\<close>.
\<close>

theorem bfree_frees_once:
  assumes "quiet s" and "room (Suc k) s" and "bitmap_ok s" and "b < sb_size (fs_sb s)"
    and "\<not> free_at (fs_sb s) (view s) b"
  shows "\<exists>t. bfree 1 b s = Ok () t \<and> quiet t \<and> room k t
    \<and> (\<forall>c. free_at (fs_sb s) (view t) c \<longleftrightarrow> c = b \<or> free_at (fs_sb s) (view s) c)
    \<and> (\<forall>n. n \<noteq> unat (BBLOCK b (fs_sb s)) \<longrightarrow> view t n = view s n)
    \<and> bfree 1 b t = Panic ''freeing free block''"
proof -
  let ?n = "BBLOCK b (fs_sb s)"
  obtain t where t: "bfree 1 b s = Ok () t" "quiet t" "room k t" "fs_frame s t"
    "view t = (view s)(unat ?n := bit_clear (unat b mod BPB) (view s (unat ?n)))"
    "\<forall>c. free_at (fs_sb s) (view t) c \<longleftrightarrow> c = b \<or> free_at (fs_sb s) (view s) c"
    using bfree_in [OF assms] by (elim exE conjE) (rule that)
  note F = fs_frameD [OF t(4)]
  have "unat ?n < disksize s" using assms(3,4) by (simp add: bitmap_ok_def)
  then have "bfree 1 b t = Panic ''freeing free block''"
    using bfree_eval [OF t(2), of b] F t(6) by simp
  with t show ?thesis by auto
qed

theorem bfree_frees_once_witness:
  "\<exists>t. bfree 1 59 demo_alloc_st = Ok () t \<and> free_at demo_sb (view t) 59
     \<and> bfree 1 59 t = Panic ''freeing free block''"
proof -
  have r: "room (Suc 0) demo_alloc_st" by (rule room_mono [OF demo_alloc_quiet(2)]) simp
  show ?thesis
    using bfree_frees_once [OF demo_alloc_quiet(1) r demo_bitmap_ok, of 59] demo_alloc_free(2) [of 59]
    by (auto simp: demo_sb_def)
qed

section \<open>Path names\<close>

lemma elements_dec:
  assumes "dropWhile (\<lambda>c. c = SLASH) p = q # qs"
  shows "length (dropWhile (\<lambda>c. c \<noteq> SLASH) (q # qs)) < length p"
proof -
  have "q \<noteq> SLASH" using hd_dropWhile [of "\<lambda>c. c = SLASH" p] assms by simp
  then have "length (dropWhile (\<lambda>c. c \<noteq> SLASH) (q # qs)) \<le> length qs"
    using length_dropWhile_le [of "\<lambda>c. c \<noteq> SLASH" qs] by simp
  also have "\<dots> < length (dropWhile (\<lambda>c. c = SLASH) p)" by (simp add: assms)
  also have "\<dots> \<le> length p" by (rule length_dropWhile_le)
  finally show ?thesis .
qed

text \<open>The elements of a path: the maximal runs of bytes other than a slash.\<close>

function elements :: "u8 list \<Rightarrow> u8 list list" where
  "elements p = (case dropWhile (\<lambda>c. c = SLASH) p of [] \<Rightarrow> []
     | q # qs \<Rightarrow> takeWhile (\<lambda>c. c \<noteq> SLASH) (q # qs) # elements (dropWhile (\<lambda>c. c \<noteq> SLASH) (q # qs)))"
  by pat_completeness auto

termination by (relation "measure length") (simp, simp only: in_measure, erule elements_dec)

declare elements.simps [simp del]

text \<open>What \<open>skipelem\<close> leaves in the name buffer for an element.\<close>

definition put_name :: "u8 list \<Rightarrow> u8 list \<Rightarrow> u8 list" where
  "put_name e name = bsplice 0 (if DIRSIZ \<le> length e then take DIRSIZ e else e @ [0]) name"

lemma drop_slashes: "dropWhile (\<lambda>c. c = SLASH) (dropWhile (\<lambda>c. c = SLASH) p) = dropWhile (\<lambda>c. c = SLASH) p"
  by (simp add: dropWhile_idem)

lemma elements_drop: "elements (dropWhile (\<lambda>c. c = SLASH) p) = elements p"
  by (subst (1 2) elements.simps) (simp add: drop_slashes)

lemma skipelem_None: "skipelem p name = None \<longleftrightarrow> elements p = []"
  by (subst elements.simps) (auto simp: skipelem_def Let_def split: list.split simp del: dropWhile_eq_Nil_conv)

lemma skipelem_Some:
  assumes "skipelem p name = Some (rest, nm)"
  shows "elements p = takeWhile (\<lambda>c. c \<noteq> SLASH) (dropWhile (\<lambda>c. c = SLASH) p) # elements rest"
    "nm = put_name (takeWhile (\<lambda>c. c \<noteq> SLASH) (dropWhile (\<lambda>c. c = SLASH) p)) name"
    "rest = [] \<longleftrightarrow> elements rest = []"
proof -
  let ?q = "dropWhile (\<lambda>c. c = SLASH) p"
  have r: "rest = dropWhile (\<lambda>c. c = SLASH) (dropWhile (\<lambda>c. c \<noteq> SLASH) ?q)" and ne: "?q \<noteq> []"
    using assms by (auto simp: skipelem_def Let_def split: if_splits)
  show "elements p = takeWhile (\<lambda>c. c \<noteq> SLASH) ?q # elements rest"
    by (subst elements.simps) (use ne in \<open>auto simp: r elements_drop split: list.split\<close>)
  show "nm = put_name (takeWhile (\<lambda>c. c \<noteq> SLASH) ?q) name"
    using assms by (auto simp: skipelem_def Let_def put_name_def split: if_splits)
  have "rest = dropWhile (\<lambda>c. c = SLASH) rest" by (simp add: r dropWhile_idem)
  then show "rest = [] \<longleftrightarrow> elements rest = []"
    by (subst elements.simps) (auto split: list.split)
qed

text \<open>The name in the buffer is the element, cut to \<open>DIRSIZ\<close> bytes.\<close>

lemma put_name_str:
  assumes "length name = DIRSIZ" "0 \<notin> set e"
  shows "name_str (put_name e name) = take DIRSIZ e" "length (put_name e name) = DIRSIZ"
proof -
  have t: "takeWhile (\<lambda>c. c \<noteq> 0) (xs @ ys) = xs @ takeWhile (\<lambda>c. c \<noteq> 0) ys" if "0 \<notin> set xs" for xs ys :: "u8 list"
    using that by (intro takeWhile_append2) auto
  have "0 \<notin> set (take DIRSIZ e)" using assms(2) in_set_takeD by fastforce
  then show "name_str (put_name e name) = take DIRSIZ e"
    using assms t [of "take DIRSIZ e"] t [of e] by (auto simp: name_str_def put_name_def bsplice_def)
  show "length (put_name e name) = DIRSIZ" using assms(1) by (auto simp: put_name_def bsplice_def)
qed

lemma path_steps_names:
  "length name = DIRSIZ \<Longrightarrow> 0 \<notin> set path \<Longrightarrow>
     map (\<lambda>st. name_str (snd st)) (path_steps path name) = map (take DIRSIZ) (elements path)
   \<and> map (\<lambda>st. fst st = []) (path_steps path name) = map (\<lambda>i. Suc i = length (elements path)) [0..<length (elements path)]"
proof (induction path name rule: path_steps.induct)
  case (1 path name)
  show ?case
  proof (cases "skipelem path name")
    case None
    then have "path_steps path name = []" by (simp add: path_steps.simps [of path])
    moreover have "elements path = []" using None by (simp only: skipelem_None)
    ultimately have "path_steps path name = []" "elements path = []" by simp_all
    then show ?thesis by simp
  next
    case (Some rn)
    obtain rest nm where rn: "rn = (rest, nm)" by fastforce
    let ?e = "takeWhile (\<lambda>c. c \<noteq> SLASH) (dropWhile (\<lambda>c. c = SLASH) path)"
    note S = skipelem_Some [OF Some [unfolded rn]]
    have st: "path_steps path name = (rest, nm) # path_steps rest nm"
      by (simp add: path_steps.simps [of path] Some rn)
    have e0: "0 \<notin> set ?e" using "1.prems"(2) set_takeWhileD set_dropWhileD by metis
    have "rest = dropWhile (\<lambda>c. c = SLASH) (dropWhile (\<lambda>c. c \<noteq> SLASH) (dropWhile (\<lambda>c. c = SLASH) path))"
      using Some rn by (auto simp: skipelem_def Let_def split: if_splits)
    then have r0: "0 \<notin> set rest" using "1.prems"(2) set_dropWhileD by metis
    note P = put_name_str [OF "1.prems"(1) e0, folded S(2)]
    note IH = "1.IH" [OF Some rn [symmetric] P(2) r0]
    have "[0..<Suc n] = 0 # map Suc [0..<n]" for n by (simp add: map_Suc_upt upt_conv_Cons del: upt_Suc)
    with IH S(1,3) P(1) st show ?thesis by (auto simp del: upt_Suc)
  qed
qed

text \<open>
  C11. The successive calls of \<open>skipelem\<close> in \<open>namex\<close> enumerate the elements of the path, the
  non-empty strings between slashes, in order: the names looked up are the elements, each cut to
  \<open>DIRSIZ\<close> bytes, and the rest of the path is empty exactly when the element is the last one (the
  test with which \<open>nameiparent\<close> stops one level early), trailing and repeated slashes included.
\<close>

theorem path_steps_elements:
  assumes "length name = DIRSIZ" and "0 \<notin> set path"
  shows "map (\<lambda>st. name_str (snd st)) (path_steps path name) = map (take DIRSIZ) (elements path)
    \<and> map (\<lambda>st. fst st = []) (path_steps path name)
      = map (\<lambda>i. Suc i = length (elements path)) [0..<length (elements path)]"
  using path_steps_names [OF assms] by simp

theorem path_steps_elements_witness:
  "map (\<lambda>st. name_str (snd st)) (path_steps [47, 47, 97, 47, 98, 98, 47, 47] (replicate DIRSIZ 0)) = [[97], [98, 98]]"
proof -
  let ?p = "[47, 47, 97, 47, 98, 98, 47, 47] :: u8 list"
  have e: "elements ?p = [[97], [98, 98]]"
    by (simp add: elements.simps [of ?p] elements.simps [of "[47, 98, 98, 47, 47]"] elements.simps [of "[47, 47]"] SLASH_def)
  show ?thesis
    using path_steps_elements [of "replicate DIRSIZ 0" ?p] by (simp add: e DIRSIZ_def)
qed

section \<open>Locked inodes\<close>

definition iheld :: "'x fs_st_scheme \<Rightarrow> nat \<Rightarrow> bool" where
  "iheld s ip \<longleftrightarrow> (\<exists>p. cur s = Some p
     \<and> slocks s (SL_inode ip) = \<lparr>sl_locked = True, sl_pid = p_pid (ptable s p)\<rparr>)"

lemma iunlock_in:
  assumes T: "thread_in L s" "L_inode ip \<notin> L" "L_ptable \<notin> L" and h: "iheld s ip" "1 \<le> i_ref (icache s ip)"
  shows "\<exists>t. iunlock (Some ip) s = Ok () t \<and> thread_in L t \<and> thread_frame s t \<and> sleep_st.more t = sleep_st.more s
    \<and> slocks t = (slocks s)(SL_inode ip := \<lparr>sl_locked = False, sl_pid = 0\<rparr>)"
proof -
  obtain r a where a: "holdingsleep (SL_inode ip) s = Ok r a" "thread_in L a"
    using holdingsleep_in [OF T(1), of "SL_inode ip"] T(2) by auto
  note A = holdingsleep_Ok [OF a(1)]
  have r using A(4) h(1) by (auto simp: iheld_def)
  obtain t where t: "releasesleep (SL_inode ip) a = Ok () t" "thread_in L t"
    using releasesleep_in [OF a(2), of "SL_inode ip"] T(2,3) by auto
  note R = releasesleep_Ok [OF t(1)]
  have "icache a = icache s" using A(2) by (simp add: bio_st_more log_st_more fs_st_more)
  then have "iunlock (Some ip) s = Ok () t"
    using a(1) t(1) \<open>r\<close> h(2) by (simp add: iunlock_def kbind_def get_inode_def)
  then show ?thesis using t(2) A(1-3) R thread_frame_trans [OF A(1) R(1)] by auto
qed

lemma ilock_valid_in:
  assumes T: "thread_in L s" "L_inode ip \<notin> L" and h: "\<not> sl_locked (slocks s (SL_inode ip))"
    "1 \<le> i_ref (icache s ip)" "i_valid (icache s ip)"
  shows "\<exists>t. ilock (Some ip) s = Ok () t \<and> thread_in L t \<and> thread_frame s t \<and> sleep_st.more t = sleep_st.more s
    \<and> iheld t ip"
proof -
  obtain t where t: "acquiresleep (SL_inode ip) s = Ok () t" "thread_in L t"
    using acquiresleep_in [OF T(1), of "SL_inode ip"] T(2) h(1) by auto
  note A = acquiresleep_Ok [OF t(1)]
  have ic: "icache t = icache s" using A(2) by (simp add: bio_st_more log_st_more fs_st_more)
  have "iheld t ip"
    using A(4) thread_frame_curD [OF A(1)] thread_frame_procD(1) [OF A(1)] by (auto simp: iheld_def)
  moreover have "ilock (Some ip) s = Ok () t"
    using t(1) h ic by (simp add: ilock_def kbind_def kseq_def get_inode_def)
  ultimately show ?thesis using t(2) A by blast
qed

end
