(* ===== verification/Ring.thy ===== *)
theory Ring
  imports Prelude
begin

text \<open>
  Circular byte buffers indexed by free-running 32-bit counters, \<open>buf[i++ % size]\<close>, as the
  pipes and the console input use them.  The size divides \<open>2 ^ 32\<close>, so the counters may wrap
  around.  \<open>ring_bytes\<close> is the abstraction: the \<open>n\<close> bytes from counter \<open>a\<close> on.
\<close>

definition ring_at :: "nat \<Rightarrow> u8 list \<Rightarrow> u32 \<Rightarrow> u8" where
  "ring_at m buf a = buf ! (unat a mod m)"

definition ring_put :: "nat \<Rightarrow> u8 list \<Rightarrow> u32 \<Rightarrow> u8 \<Rightarrow> u8 list" where
  "ring_put m buf a c = buf[unat a mod m := c]"

definition ring_bytes :: "nat \<Rightarrow> u8 list \<Rightarrow> u32 \<Rightarrow> nat \<Rightarrow> u8 list" where
  "ring_bytes m buf a n = map (\<lambda>i. ring_at m buf (a + of_nat i)) [0..<n]"

lemma length_ring_bytes [simp]: "length (ring_bytes m buf a n) = n"
  by (simp add: ring_bytes_def)

lemma ring_bytes_0 [simp]: "ring_bytes m buf a 0 = []"
  by (simp add: ring_bytes_def)

lemma ring_bytes_Suc: "ring_bytes m buf a (Suc n) = ring_bytes m buf a n @ [ring_at m buf (a + of_nat n)]"
  by (simp add: ring_bytes_def)

lemma ring_bytes_Cons: "ring_bytes m buf a (Suc n) = ring_at m buf a # ring_bytes m buf (a + 1) n"
  by (rule nth_equalityI) (auto simp: ring_bytes_def nth_Cons algebra_simps simp del: upt_Suc split: nat.split)

lemma ring_bytes_append: "ring_bytes m buf a (n + k) = ring_bytes m buf a n @ ring_bytes m buf (a + of_nat n) k"
  by (induction k) (simp_all add: ring_bytes_Suc algebra_simps)

lemma butlast_ring: "butlast (ring_bytes m buf a n) = ring_bytes m buf a (n - 1)"
  by (cases n) (simp_all add: ring_bytes_Suc)

text \<open>The number of bytes between two counters.\<close>

lemma unat_diff_add: "unat (c - b :: u32) + unat (b - a) < 2 ^ 32 \<Longrightarrow> unat (c - a) = unat (c - b) + unat (b - a)"
proof -
  assume "unat (c - b) + unat (b - a) < 2 ^ 32"
  then have "unat ((c - b) + (b - a)) = unat (c - b) + unat (b - a)" by (rule unat_add_nowrap32)
  then show ?thesis by simp
qed

lemma unat_minus1: "(b :: u32) \<noteq> a \<Longrightarrow> unat (b - 1 - a) = unat (b - a) - 1"
proof -
  assume "b \<noteq> a"
  then have "b - a \<noteq> 0" by simp
  then have "unat ((b - a) - 1) = unat (b - a) - 1" by (rule unat_minus_one)
  then show ?thesis by (simp add: algebra_simps)
qed

lemma unat_plus1: "unat (b - a :: u32) < 2 ^ 32 - 1 \<Longrightarrow> unat (b + 1 - a) = Suc (unat (b - a))"
proof -
  assume "unat (b - a) < 2 ^ 32 - 1"
  then have "unat ((b - a) + 1) = unat (b - a) + unat (1 :: u32)" by (intro unat_add_nowrap32) simp
  then show ?thesis by (simp add: algebra_simps)
qed

text \<open>What a circular buffer needs of its size.\<close>

locale ring_buffer =
  fixes m :: nat
  assumes m_pos: "0 < m"
    and m_dvd: "m dvd 2 ^ 32"
begin

lemma index_add: "unat (a + of_nat i :: u32) mod m = (unat a + i) mod m"
proof -
  have "unat (a + of_nat i) = (unat a + i mod 2 ^ 32) mod 2 ^ 32"
    by (simp add: unat_word_ariths unat_of_nat take_bit_eq_mod)
  also have "\<dots> mod m = (unat a + i mod 2 ^ 32) mod m"
    by (rule mod_mod_cancel [OF m_dvd])
  also have "\<dots> = (unat a + i mod 2 ^ 32 mod m) mod m" by (rule mod_add_right_eq [symmetric])
  also have "\<dots> = (unat a + i mod m) mod m" by (simp only: mod_mod_cancel [OF m_dvd])
  also have "\<dots> = (unat a + i) mod m" by (rule mod_add_right_eq)
  finally show ?thesis .
qed

lemma index_less: "unat (a :: u32) mod m < m"
  using m_pos by simp

lemma index_distinct:
  assumes "i < n" "n < i + m"
  shows "unat (a + of_nat i :: u32) mod m \<noteq> unat (a + of_nat n :: u32) mod m"
proof
  assume "unat (a + of_nat i :: u32) mod m = unat (a + of_nat n :: u32) mod m"
  then have "(unat a + i) mod m = (unat a + n) mod m" by (simp only: index_add)
  then have "(unat a + n) mod m = (unat a + i) mod m" by simp
  then have "m dvd (unat a + n) - (unat a + i)" using assms(1) mod_eq_dvd_iff_nat [of "unat a + i" "unat a + n" m] by simp
  then have "m dvd n - i" by simp
  with assms show False by (auto dest: dvd_imp_le)
qed

lemma put_same: "length buf = m \<Longrightarrow> ring_at m (ring_put m buf a c) a = c"
  using index_less by (simp add: ring_at_def ring_put_def)

text \<open>Storing at the end of at most \<open>m - 1\<close> bytes changes none of them.\<close>

lemma put_end:
  assumes "n < m"
  shows "ring_bytes m (ring_put m buf (a + of_nat n) c) a n = ring_bytes m buf a n"
proof (rule nth_equalityI)
  fix i assume "i < length (ring_bytes m (ring_put m buf (a + of_nat n) c) a n)"
  then have i: "i < n" by simp
  then have "unat (a + of_nat i) mod m \<noteq> unat (a + of_nat n) mod m"
    using assms by (intro index_distinct) auto
  then show "ring_bytes m (ring_put m buf (a + of_nat n) c) a n ! i = ring_bytes m buf a n ! i"
    using i by (simp add: ring_bytes_def ring_at_def ring_put_def)
qed simp

lemma enqueue:
  assumes "length buf = m" "unat (e - a) = n" "n < m"
  shows "ring_bytes m (ring_put m buf e c) a (Suc n) = ring_bytes m buf a n @ [c]"
proof -
  have e: "a + of_nat n = e" unfolding assms(2) [symmetric] by (simp add: algebra_simps)
  show ?thesis using put_end [OF assms(3), of buf a c] put_same [OF assms(1), of e c] by (simp add: ring_bytes_Suc e)
qed

end

interpretation ring128: ring_buffer 128 by unfold_locales simp_all
interpretation ring512: ring_buffer 512 by unfold_locales simp_all

end
