(* ===== verification/Console.thy ===== *)
theory Console
  imports Fs Ring
begin

text \<open>
  The console (\<open>console.c\<close>) and the keyboard driver (\<open>kbd.c\<close>, \<open>kbd.h\<close>) of xv6-public_1: formatted
  kernel output on the CGA screen and the serial line, the line editor that interrupts run, and
  the console device's read and write.  Characters are C \<open>int\<close>s; \<open>BACKSPACE\<close> is the out-of-band
  one.  The hardware is the CGA memory with its cursor register, the bytes sent to the UART, and
  the sequence of codes \<open>getc\<close> delivers until it returns a negative number.
\<close>

section \<open>State\<close>

definition INPUT_BUF :: nat where [const_defs]: "INPUT_BUF = 128"
definition BACKSPACE :: int where [const_defs]: "BACKSPACE = 0x100"
definition CONSOLE :: nat where [const_defs]: "CONSOLE = 1"

text \<open>\<open>C('x')\<close>, and the bytes of a string constant.\<close>

definition ctrl :: "char \<Rightarrow> int" where
  "ctrl c = int (of_char c) - 64"

definition str :: "string \<Rightarrow> u8 list" where
  "str cs = map of_char cs"

record con_st = fs_st +
  con_locking :: bool
  con_panicked :: bool
  con_buf :: "u8 list"
  con_r :: u32
  con_w :: u32
  con_e :: u32
  crt :: "nat \<Rightarrow> u16"
  crt_pos :: nat
  uart_on :: bool
  uart_out :: "u8 list"

section \<open>Characters on the screen and the serial line\<close>

text \<open>The UART's transmitter is ready within the polls of \<open>uartputc\<close>.\<close>

definition uartputc :: "int \<Rightarrow> (unit, 'x con_st_scheme) kern" where
  "uartputc c = kmod (\<lambda>s. if uart_on s then s\<lparr>uart_out := uart_out s @ [word_of_int c]\<rparr> else s)"

text \<open>Where the cursor goes, and \<open>crt[]\<close> after the character was stored.\<close>

definition cga_move :: "int \<Rightarrow> nat \<Rightarrow> nat" where
  "cga_move c pos =
     (if c = 10 then pos + (80 - pos mod 80)
      else if c = BACKSPACE then (if 0 < pos then pos - 1 else pos)
      else pos + 1)"

definition cga_store :: "int \<Rightarrow> nat \<Rightarrow> (nat \<Rightarrow> u16) \<Rightarrow> nat \<Rightarrow> u16" where
  "cga_store c pos m = (if c = 10 \<or> c = BACKSPACE then m
      else m(pos := (word_of_int c AND 0xff) OR 0x0700))"

text \<open>Moving the rows up by one and clearing from \<open>pos\<close> to the end of row 24.\<close>

definition cga_scroll :: "nat \<Rightarrow> (nat \<Rightarrow> u16) \<Rightarrow> nat \<Rightarrow> u16" where
  "cga_scroll pos m i =
     (if pos \<le> i \<and> i < 24 * 80 then 0 else if i < 23 * 80 then m (i + 80) else m i)"

definition cgaputc :: "int \<Rightarrow> (unit, 'x con_st_scheme) kern" where
  "cgaputc c =
     kbind (kget crt_pos) (\<lambda>p0.
     kbind (kget crt) (\<lambda>m0.
     let pos = cga_move c p0; m = cga_store c p0 m0 in
     if 25 * 80 < pos then kpanic ''pos under/overflow''
     else
       let (pos, m) = (if 24 \<le> pos div 80 then (pos - 80, cga_scroll (pos - 80) m) else (pos, m)) in
       kmod (\<lambda>s. s\<lparr>crt_pos := pos, crt := m(pos := 0x20 OR 0x0700)\<rparr>)))"

definition consputc :: "int \<Rightarrow> (unit, 'x con_st_scheme) kern" where
  "consputc c =
     kbind (kget con_panicked) (\<lambda>p.
     if p then kseq cli kspin
     else
       kseq (if c = BACKSPACE then kseq (uartputc 8) (kseq (uartputc 32) (uartputc 8)) else uartputc c)
            (cgaputc c))"

definition consputs :: "u8 list \<Rightarrow> (unit, 'x con_st_scheme) kern" where
  "consputs cs = kfor cs (\<lambda>c. consputc (uint c))"

section \<open>Formatted output\<close>

text \<open>The digits of \<open>x\<close>, least significant first: the \<open>do\<close>-loop of \<open>printint\<close>.\<close>

function digits_of :: "nat \<Rightarrow> nat \<Rightarrow> nat list" where
  "digits_of base x = x mod base # (if 2 \<le> base \<and> x div base \<noteq> 0 then digits_of base (x div base) else [])"
  by pat_completeness auto

termination by (relation "measure (\<lambda>(base, x). x)") (auto simp: div_greater_zero_iff)

declare digits_of.simps [simp del]

definition hex_digits :: "u8 list" where
  "hex_digits = str ''0123456789abcdef''"

text \<open>\<open>buf\<close> of \<open>printint\<close>, from its last byte to its first.\<close>

definition int_text :: "u8 list \<Rightarrow> int \<Rightarrow> nat \<Rightarrow> bool \<Rightarrow> u8 list" where
  "int_text digits xx base sg =
     (let neg = sg \<and> xx < 0;
          x = nat ((if neg then - xx else xx) mod 2 ^ 32)
      in (if neg then [45] else []) @ rev (map (\<lambda>d. digits ! d) (digits_of base x)))"

definition printint :: "int \<Rightarrow> nat \<Rightarrow> bool \<Rightarrow> (unit, 'x con_st_scheme) kern" where
  "printint xx base sg = consputs (int_text hex_digits xx base sg)"

text \<open>The words after \<open>fmt\<close>: numbers, or pointers to strings (\<open>None\<close> the null pointer).\<close>

datatype carg = ANum u32 | AStr "u8 list option"

fun cprintf_loop :: "u8 list \<Rightarrow> carg list \<Rightarrow> (unit, 'x con_st_scheme) kern" where
  "cprintf_loop [] args = kret ()"
| "cprintf_loop [c] args = (if c = 37 then kret () else consputc (uint c))"
| "cprintf_loop (c # d # fmt) args =
     (if c \<noteq> 37 then kseq (consputc (uint c)) (cprintf_loop (d # fmt) args)
      else if d = of_char CHR ''d'' then
        (case args of ANum n # rest \<Rightarrow> kseq (printint (sint n) 10 True) (cprintf_loop fmt rest) | _ \<Rightarrow> kundef)
      else if d = of_char CHR ''x'' \<or> d = of_char CHR ''p'' then
        (case args of ANum n # rest \<Rightarrow> kseq (printint (sint n) 16 False) (cprintf_loop fmt rest) | _ \<Rightarrow> kundef)
      else if d = of_char CHR ''s'' then
        (case args of AStr p # rest \<Rightarrow>
            kseq (consputs (case p of None \<Rightarrow> str ''(null)'' | Some cs \<Rightarrow> cs)) (cprintf_loop fmt rest)
          | _ \<Rightarrow> kundef)
      else if d = 37 then kseq (consputc 37) (cprintf_loop fmt args)
      else kseq (consputc 37) (kseq (consputc (uint d)) (cprintf_loop fmt args)))"

definition cprintf :: "u8 list option \<Rightarrow> carg list \<Rightarrow> (unit, 'x con_st_scheme) kern" where
  "cprintf fmt args =
     kbind (kget con_locking) (\<lambda>locking.
     kseq (kwhen locking (acquire L_cons)) (
     case fmt of
       None \<Rightarrow> kpanic ''null fmt''
     | Some f \<Rightarrow> kseq (cprintf_loop f args) (kwhen locking (release L_cons))))"

definition printk :: "string \<Rightarrow> carg list \<Rightarrow> (unit, 'x con_st_scheme) kern" where
  "printk fmt args = cprintf (Some (str fmt)) args"

section \<open>procdump\<close>

fun state_name :: "procstate \<Rightarrow> string" where
  "state_name UNUSED = ''unused''"
| "state_name EMBRYO = ''embryo''"
| "state_name SLEEPING = ''sleep ''"
| "state_name RUNNABLE = ''runble''"
| "state_name RUNNING = ''run   ''"
| "state_name ZOMBIE = ''zombie''"
| "state_name CUSTOM_WAIT = ''???''"

text \<open>The return addresses \<open>getcallerpcs\<close> finds on the kernel stack of a sleeping process are an
  argument (kernel stacks are not part of the model); \<open>procdump\<close> prints those before the first
  zero, ten at most.\<close>

definition procdump :: "(nat \<Rightarrow> u32 list) \<Rightarrow> (unit, 'x con_st_scheme) kern" where
  "procdump callerpcs =
     kfor [0..<NPROC] (\<lambda>i.
       kbind (kget (\<lambda>s. ptable s i)) (\<lambda>p.
       if p_state p = UNUSED then kret ()
       else
         kseq (printk ''%d %s %s'' [ANum (word_of_int (p_pid p)), AStr (Some (str (state_name (p_state p)))),
                 AStr (Some (takeWhile (\<lambda>c. c \<noteq> 0) (p_name p)))]) (
         kseq (kwhen (p_state p = SLEEPING)
                (kfor (takeWhile (\<lambda>pc. pc \<noteq> 0) (take 10 (callerpcs i))) (\<lambda>pc. printk '' %p'' [ANum pc])))
              (printk [CHR 0x0A] []))))"

section \<open>Input\<close>

definition ibuf_set :: "u32 \<Rightarrow> u8 \<Rightarrow> (unit, 'x con_st_scheme) kern" where
  "ibuf_set i c = kmod (\<lambda>s. s\<lparr>con_buf := (con_buf s)[unat i mod INPUT_BUF := c]\<rparr>)"

definition ibuf_at :: "'x con_st_scheme \<Rightarrow> u32 \<Rightarrow> u8" where
  "ibuf_at s i = con_buf s ! (unat i mod INPUT_BUF)"

text \<open>\<open>C('U')\<close>: take back the characters up to the previous newline; \<open>k\<close> counts the characters
  between \<open>w\<close> and \<open>e\<close>.\<close>

fun kill_line :: "nat \<Rightarrow> (unit, 'x con_st_scheme) kern" where
  "kill_line 0 = kret ()"
| "kill_line (Suc k) =
     kbind (kget (\<lambda>s. ibuf_at s (con_e s - 1))) (\<lambda>c.
     if c = 10 then kret ()
     else
       kseq (kmod (\<lambda>s. s\<lparr>con_e := con_e s - 1\<rparr>)) (
       kseq (consputc BACKSPACE)
            (kill_line k)))"

text \<open>One character from \<open>getc\<close>; the result tells whether \<open>C('P')\<close> asked for a process listing.\<close>

definition consoleintr_char :: "int \<Rightarrow> (bool, 'x con_st_scheme) kern" where
  "consoleintr_char c =
     (if c = ctrl CHR ''P'' then kret True
      else if c = ctrl CHR ''U'' then
        kbind (kget (\<lambda>s. unat (con_e s - con_w s))) (\<lambda>k. kseq (kill_line k) (kret False))
      else if c = ctrl CHR ''H'' \<or> c = 0x7f then
        kbind (kget (\<lambda>s. con_e s \<noteq> con_w s)) (\<lambda>b.
        kseq (kwhen b (kseq (kmod (\<lambda>s. s\<lparr>con_e := con_e s - 1\<rparr>)) (consputc BACKSPACE)))
             (kret False))
      else
        kbind (kget (\<lambda>s. c \<noteq> 0 \<and> con_e s - con_r s < of_nat INPUT_BUF)) (\<lambda>b.
        kseq (kwhen b (
          let c' = (if c = 13 then 10 else c) in
          kbind (kget con_e) (\<lambda>e.
          kseq (ibuf_set e (word_of_int c')) (
          kseq (kmod (\<lambda>s. s\<lparr>con_e := con_e s + 1\<rparr>)) (
          kseq (consputc c') (
          kbind (kget (\<lambda>s. c' = 10 \<or> c' = ctrl CHR ''D'' \<or> con_e s = con_r s + of_nat INPUT_BUF)) (\<lambda>full.
          kwhen full (
            kseq (kmod (\<lambda>s. s\<lparr>con_w := con_e s\<rparr>))
                 (wakeup ChInput)))))))))
             (kret False)))"

fun consoleintr_loop :: "int list \<Rightarrow> bool \<Rightarrow> (bool, 'x con_st_scheme) kern" where
  "consoleintr_loop [] dump = kret dump"
| "consoleintr_loop (c # cs) dump =
     (if c < 0 then kret dump
      else kbind (consoleintr_char c) (\<lambda>d. consoleintr_loop cs (dump \<or> d)))"

definition consoleintr :: "(nat \<Rightarrow> u32 list) \<Rightarrow> int list \<Rightarrow> (unit, 'x con_st_scheme) kern" where
  "consoleintr callerpcs codes =
     kseq (acquire L_cons) (
     kbind (consoleintr_loop codes False) (\<lambda>dump.
     kseq (release L_cons)
          (kwhen dump (procdump callerpcs))))"

text \<open>\<open>iinit\<close> of \<open>fs.c\<close> reports the superblock on the console.\<close>

definition iinit :: "u32 \<Rightarrow> (unit, 'x con_st_scheme) kern" where
  "iinit dev =
     kseq (initlock L_icache) (
     kseq (kfor [0..<NINODE] (\<lambda>i. initsleeplock (SL_inode i))) (
     kbind (readsb dev) (\<lambda>sb.
     kseq (kmod (\<lambda>s. s\<lparr>fs_sb := sb\<rparr>))
          (printk (''sb: size %d nblocks %d ninodes %d nlog %d logstart %d'' @ '' inodestart %d bmap start %d'' @ [CHR 0x0A])
             [ANum (sb_size sb), ANum (sb_nblocks sb), ANum (sb_ninodes sb), ANum (sb_nlog sb), ANum (sb_logstart sb),
              ANum (sb_inodestart sb), ANum (sb_bmapstart sb)]))))"

section \<open>The console device\<close>

text \<open>\<open>sleep\<close> inside a loop: the run ends with \<open>Switch\<close>; when the thread runs again, after
  \<open>sleep_return\<close>, it goes through the enclosing loop from the state of that moment.\<close>

definition sleeping :: "chan \<Rightarrow> lockid \<Rightarrow> ('a, 'x proc_st_scheme) kern" where
  "sleeping ch lk = kseq (sleep ch lk) kspin"

text \<open>The copy loop of \<open>consoleread\<close> with \<open>n\<close> bytes to go of \<open>target\<close>: what is left of \<open>n\<close>, or \<open>None\<close>
  when the process was killed, and the bytes copied so far in either case.\<close>

fun consoleread_loop :: "nat \<Rightarrow> nat \<Rightarrow> (nat option \<times> u8 list, 'x con_st_scheme) kern" where
  "consoleread_loop target 0 = kret (Some 0, [])"
| "consoleread_loop target (Suc n) =
     kbind (kget (\<lambda>s. con_r s = con_w s)) (\<lambda>empty.
     if empty then
       kbind curproc (\<lambda>p.
       kbind (kget (\<lambda>s. p_killed (ptable s p))) (\<lambda>kl.
       if kl then kret (None, []) else sleeping ChInput L_cons))
     else
       kbind (kget (\<lambda>s. ibuf_at s (con_r s))) (\<lambda>c.
       kseq (kmod (\<lambda>s. s\<lparr>con_r := con_r s + 1\<rparr>)) (
       if uint c = ctrl CHR ''D'' then
         kseq (kwhen (Suc n < target) (kmod (\<lambda>s. s\<lparr>con_r := con_r s - 1\<rparr>)))
              (kret (Some (Suc n), []))
       else if c = 10 then kret (Some n, [c])
       else
         kbind (consoleread_loop target n) (\<lambda>(m, cs). kret (m, c # cs)))))"

definition consoleread :: "nat \<Rightarrow> u32 \<Rightarrow> (int \<times> u8 list, 'x con_st_scheme) kern" where
  "consoleread ip n =
     kseq (iunlock (Some ip)) (
     kseq (acquire L_cons) (
     kbind (consoleread_loop (nat (sint n)) (nat (sint n))) (\<lambda>(r, cs).
     kseq (release L_cons) (
     kseq (ilock (Some ip)) (
     case r of
       None \<Rightarrow> kret (-1, cs)
     | Some m \<Rightarrow> kret ((if 0 \<le> sint n then sint n - int m else 0), cs))))))"

definition consolewrite :: "nat \<Rightarrow> u8 list \<Rightarrow> u32 \<Rightarrow> (int, 'x con_st_scheme) kern" where
  "consolewrite ip buf n =
     kseq (iunlock (Some ip)) (
     kseq (acquire L_cons) (
     kseq (if nat (sint n) \<le> length buf then consputs (take (nat (sint n)) buf) else kundef) (
     kseq (release L_cons) (
     kseq (ilock (Some ip))
          (kret (sint n))))))"

text \<open>\<open>consoleinit\<close> sets the lock and its use; the entry it makes in \<open>devsw\<close> is \<open>console_dev\<close>
  (\<open>ioapicenable\<close> is hardware).\<close>

definition console_dev :: "(nat \<Rightarrow> 'x con_st_scheme devsw) \<Rightarrow> nat \<Rightarrow> 'x con_st_scheme devsw" where
  "console_dev d = d(CONSOLE := \<lparr>dv_read = Some consoleread, dv_write = Some consolewrite\<rparr>)"

definition consoleinit :: "(unit, 'x con_st_scheme) kern" where
  "consoleinit = kseq (initlock L_cons) (kmod (\<lambda>s. s\<lparr>con_locking := True\<rparr>))"

section \<open>The keyboard\<close>

definition K_SHIFT :: u32 where [const_defs]: "K_SHIFT = 1"
definition K_CTL :: u32 where [const_defs]: "K_CTL = 2"
definition K_ALT :: u32 where [const_defs]: "K_ALT = 4"
definition K_CAPSLOCK :: u32 where [const_defs]: "K_CAPSLOCK = 8"
definition K_NUMLOCK :: u32 where [const_defs]: "K_NUMLOCK = 16"
definition K_SCROLLLOCK :: u32 where [const_defs]: "K_SCROLLLOCK = 32"
definition K_E0ESC :: u32 where [const_defs]: "K_E0ESC = 64"

definition shiftcode :: "nat \<Rightarrow> u32" where
  "shiftcode d = (if d = 0x1D then K_CTL else if d = 0x2A then K_SHIFT else if d = 0x36 then K_SHIFT
     else if d = 0x38 then K_ALT else if d = 0x9D then K_CTL else if d = 0xB8 then K_ALT else 0)"

definition togglecode :: "nat \<Rightarrow> u32" where
  "togglecode d = (if d = 0x3A then K_CAPSLOCK else if d = 0x45 then K_NUMLOCK
     else if d = 0x46 then K_SCROLLLOCK else 0)"

text \<open>The entries above 0x7F, shared by the three maps but for the code of KP_Enter and KP_Div.\<close>

definition keypad :: "u32 \<Rightarrow> u32 \<Rightarrow> nat \<Rightarrow> u32" where
  "keypad enter slash d =
     (if d = 0x9C then enter else if d = 0xB5 then slash
      else if d = 0xC8 then 0xE2 else if d = 0xD0 then 0xE3
      else if d = 0xC9 then 0xE6 else if d = 0xD1 then 0xE7
      else if d = 0xCB then 0xE4 else if d = 0xCD then 0xE5
      else if d = 0x97 then 0xE0 else if d = 0xCF then 0xE1
      else if d = 0xD2 then 0xE8 else if d = 0xD3 then 0xE9 else 0)"

definition key_table :: "nat list \<Rightarrow> u32 \<Rightarrow> u32 \<Rightarrow> nat \<Rightarrow> u32" where
  "key_table xs enter slash d = (if d < length xs then of_nat (xs ! d) else keypad enter slash d)"

definition normalmap :: "nat \<Rightarrow> u32" where
  "normalmap = key_table ([0, 0x1B] @ map of_char ''1234567890-='' @ [8, 9]
     @ map of_char ''qwertyuiop[]'' @ [10, 0] @ map of_char ''asdfghjkl;'' @ [39] @ map of_char ''`''
     @ [0, 92] @ map of_char ''zxcvbnm,./'' @ [0] @ map of_char ''*'' @ [0] @ map of_char '' ''
     @ replicate 13 0 @ map of_char ''789-456+1230.'' @ replicate 4 0) 10 (of_char CHR ''/'')"

definition shiftmap :: "nat \<Rightarrow> u32" where
  "shiftmap = key_table ([0, 27] @ map of_char ''!@#$%^&*()_+'' @ [8, 9]
     @ map of_char ''QWERTYUIOP{}'' @ [10, 0] @ map of_char ''ASDFGHJKL:'' @ [34] @ map of_char ''~''
     @ [0] @ map of_char ''|ZXCVBNM<>?'' @ [0] @ map of_char ''*'' @ [0] @ map of_char '' ''
     @ replicate 13 0 @ map of_char ''789-456+1230.'' @ replicate 4 0) 10 (of_char CHR ''/'')"

definition key_ctl :: "string \<Rightarrow> nat list" where
  "key_ctl cs = map (\<lambda>c. of_char c - 64) cs"

definition ctlmap :: "nat \<Rightarrow> u32" where
  "ctlmap = key_table (replicate 16 0 @ key_ctl ''QWERTYUIOP'' @ [0, 0, 13, 0]
     @ key_ctl ''ASDFGHJKL'' @ replicate 4 0 @ [28] @ key_ctl ''ZXCVBNM'' @ [0, 0, 239, 0, 0])
     13 239"

text \<open>\<open>kbdgetc\<close>: the shift state and the character, from the byte in the controller's output buffer
  (\<open>None\<close> when the status says there is none); \<open>-1\<close> no data, \<open>0\<close> nothing to deliver.\<close>

definition kbdgetc :: "u8 option \<Rightarrow> u32 \<Rightarrow> int \<times> u32" where
  "kbdgetc inp shift =
     (case inp of
        None \<Rightarrow> (-1, shift)
      | Some byte \<Rightarrow>
          let data = (ucast byte :: u32) in
          if data = 0xE0 then (0, shift OR K_E0ESC)
          else if data AND 0x80 \<noteq> 0 then
            let data = (if shift AND K_E0ESC \<noteq> 0 then data else data AND 0x7F)
            in (0, shift AND NOT (shiftcode (unat data) OR K_E0ESC))
          else
            let (data, shift) = (if shift AND K_E0ESC \<noteq> 0 then (data OR 0x80, shift AND NOT K_E0ESC) else (data, shift));
                shift = shift OR shiftcode (unat data);
                shift = xor shift (togglecode (unat data));
                m = shift AND (K_CTL OR K_SHIFT);
                c = (if m = 0 then normalmap else if m = 1 then shiftmap else ctlmap) (unat data);
                c = (if shift AND K_CAPSLOCK \<noteq> 0 then
                       (if 97 \<le> c \<and> c \<le> 122 then c - 32
                        else if 65 \<le> c \<and> c \<le> 90 then c + 32 else c)
                     else c)
            in (sint c, shift))"

text \<open>The codes the interrupt handler reads until \<open>kbdgetc\<close> has no more data.\<close>

fun kbd_codes :: "u8 list \<Rightarrow> u32 \<Rightarrow> int list \<times> u32" where
  "kbd_codes [] shift = ([], shift)"
| "kbd_codes (b # bs) shift =
     (let (c, shift') = kbdgetc (Some b) shift; (cs, shift'') = kbd_codes bs shift' in (c # cs, shift''))"

section \<open>The screen\<close>

definition on_screen :: "'x con_st_scheme \<Rightarrow> bool" where
  "on_screen s \<longleftrightarrow> crt_pos s < 24 * 80 \<and> \<not> con_panicked s"

text \<open>Output changes the screen, the cursor and the serial line only.\<close>

definition printed :: "'x con_st_scheme \<Rightarrow> 'x con_st_scheme \<Rightarrow> bool" where
  "printed s t \<longleftrightarrow> (\<exists>m p u. t = s\<lparr>crt := m, crt_pos := p, uart_out := u\<rparr>)"

lemma printed_refl [simp]: "printed s s"
  unfolding printed_def
  by (rule exI [of _ "crt s"], rule exI [of _ "crt_pos s"], rule exI [of _ "uart_out s"]) simp

lemma printed_trans [trans]:
  assumes "printed s t" "printed t u"
  shows "printed s u"
proof -
  from assms obtain m p v m' p' v' where "t = s\<lparr>crt := m, crt_pos := p, uart_out := v\<rparr>"
    "u = t\<lparr>crt := m', crt_pos := p', uart_out := v'\<rparr>" unfolding printed_def by blast
  then have "u = s\<lparr>crt := m', crt_pos := p', uart_out := v'\<rparr>" by simp
  then show ?thesis unfolding printed_def by blast
qed

lemma printed_same:
  assumes "printed s t"
  shows "con_buf t = con_buf s" "con_r t = con_r s" "con_w t = con_w s" "con_e t = con_e s"
    "con_panicked t = con_panicked s" "con_locking t = con_locking s" "thread_in L t = thread_in L s"
    "ptable t = ptable s" "thread_frame s t"
  using assms by (auto simp: printed_def thread_in_def found_def thread_frame_def cur_def split: option.split)

lemma cga_move_bound:
  assumes "pos < 24 * 80"
  shows "cga_move c pos \<le> 24 * 80"
proof -
  have "pos + (80 - pos mod 80) \<le> 24 * 80"
  proof -
    have "pos div 80 < 24" using assms by linarith
    moreover have "pos mod 80 < 80" by simp
    ultimately show ?thesis using div_mult_mod_eq [of pos 80] by linarith
  qed
  then show ?thesis using assms by (auto simp: cga_move_def)
qed

lemma cga_move_last:
  assumes "pos < 25 * 80"
  shows "cga_move c pos \<le> 25 * 80"
proof -
  have "pos div 80 < 25" "pos mod 80 < 80" using assms by auto
  then have "pos + (80 - pos mod 80) \<le> 25 * 80" using div_mult_mod_eq [of pos 80] by linarith
  then show ?thesis using assms by (auto simp: cga_move_def)
qed

lemma cgaputc_in:
  assumes "on_screen s"
  shows "\<exists>t. cgaputc c s = Ok () t \<and> printed s t \<and> on_screen t \<and> uart_out t = uart_out s"
proof -
  have p: "crt_pos s < 24 * 80" "\<not> con_panicked s" using assms by (simp_all add: on_screen_def)
  let ?p = "cga_move c (crt_pos s)" and ?m = "cga_store c (crt_pos s) (crt s)"
  have b: "?p \<le> 24 * 80" by (rule cga_move_bound [OF p(1)])
  let ?q = "if 24 \<le> ?p div 80 then ?p - 80 else ?p"
  let ?n = "if 24 \<le> ?p div 80 then cga_scroll (?p - 80) ?m else ?m"
  have q: "?q < 24 * 80" using b by auto
  have e: "cgaputc c s = Ok () (s\<lparr>crt_pos := ?q, crt := ?n(?q := 0x20 OR 0x0700)\<rparr>)"
    using b by (simp add: cgaputc_def Let_def)
  have "s\<lparr>crt_pos := a, crt := x\<rparr> = s\<lparr>crt := x, crt_pos := a, uart_out := uart_out s\<rparr>" for a x by simp
  then have "printed s (s\<lparr>crt_pos := ?q, crt := ?n(?q := 0x20 OR 0x0700)\<rparr>)" unfolding printed_def by blast
  then show ?thesis unfolding e using q p(2) by (auto simp: on_screen_def)
qed

lemma uartputc_in: "\<exists>t. uartputc c s = Ok () t \<and> printed s t \<and> (on_screen s \<longrightarrow> on_screen t)"
proof -
  have "s\<lparr>uart_out := u\<rparr> = s\<lparr>crt := crt s, crt_pos := crt_pos s, uart_out := u\<rparr>" for u by simp
  then have "printed s (s\<lparr>uart_out := u\<rparr>)" for u unfolding printed_def by blast
  then show ?thesis by (auto simp: uartputc_def on_screen_def)
qed

lemma consputc_in:
  assumes "on_screen s"
  shows "\<exists>t. consputc c s = Ok () t \<and> printed s t \<and> on_screen t"
proof -
  have s: "\<not> con_panicked s" using assms by (simp add: on_screen_def)
  obtain a where a: "uartputc 8 s = Ok () a" "printed s a" "on_screen a" using uartputc_in assms by blast
  obtain b where b: "uartputc 32 a = Ok () b" "printed a b" "on_screen b" using uartputc_in a(3) by blast
  obtain d where d: "uartputc 8 b = Ok () d" "printed b d" "on_screen d" using uartputc_in b(3) by blast
  obtain e where e: "uartputc c s = Ok () e" "printed s e" "on_screen e" using uartputc_in assms by blast
  obtain t where t: "cgaputc c d = Ok () t" "printed d t" "on_screen t" using cgaputc_in d(3) by blast
  obtain u where u: "cgaputc c e = Ok () u" "printed e u" "on_screen u" using cgaputc_in e(3) by blast
  have "printed s t" "printed s u" using a b d t e u by (blast intro: printed_trans)+
  then show ?thesis using s a b d t e u by (auto simp: consputc_def kseq_def kbind_def)
qed

lemma consputs_in:
  "on_screen s \<Longrightarrow> \<exists>t. consputs cs s = Ok () t \<and> printed s t \<and> on_screen t"
proof (induction cs arbitrary: s)
  case (Cons c cs)
  obtain a where a: "consputc (uint c) s = Ok () a" "printed s a" "on_screen a" using consputc_in Cons.prems by blast
  obtain t where t: "consputs cs a = Ok () t" "printed a t" "on_screen t" using Cons.IH [OF a(3)] by blast
  then show ?case using a by (auto simp: consputs_def kseq_def kbind_def intro: printed_trans)
qed (simp add: consputs_def)

text \<open>
  C12. The console never runs off the screen: from any cursor position on the 25 rows of the
  hardware, any character (newline, backspace at the top left corner and the last cell included)
  is displayed without the panic \<open>pos under/overflow\<close>; the cursor is then on the first 24 rows or
  at the start of the 25th, and on the first 24 if it was there before; the cell under it is
  blank, and nothing but the screen and the cursor changes.
\<close>

theorem cgaputc_stays_on_screen:
  assumes "crt_pos s < 25 * 80"
  shows "\<exists>m p. cgaputc c s = Ok () (s\<lparr>crt_pos := p, crt := m\<rparr>) \<and> p \<le> 24 * 80
    \<and> (crt_pos s < 24 * 80 \<longrightarrow> p < 24 * 80) \<and> m p = 0x0720"
proof -
  let ?p = "cga_move c (crt_pos s)" and ?m = "cga_store c (crt_pos s) (crt s)"
  have b: "?p \<le> 25 * 80" by (rule cga_move_last [OF assms])
  let ?q = "if 24 \<le> ?p div 80 then ?p - 80 else ?p"
  let ?n = "if 24 \<le> ?p div 80 then cga_scroll (?p - 80) ?m else ?m"
  have "cgaputc c s = Ok () (s\<lparr>crt_pos := ?q, crt := ?n(?q := 0x20 OR 0x0700)\<rparr>)"
    using b by (simp add: cgaputc_def Let_def)
  moreover have "?q \<le> 24 * 80" using b by auto
  moreover have "?q < 24 * 80" if "crt_pos s < 24 * 80" using cga_move_bound [OF that, of c] by auto
  ultimately show ?thesis by (intro exI [of _ "?n(?q := 0x20 OR 0x0700)"] exI [of _ ?q]) simp
qed

definition demo_con_st :: con_st where
  "demo_con_st = fs_st.extend demo_fs_st (con_st.fields True False (replicate 128 0) 0 0 0 (\<lambda>_. 0) (24 * 80 - 1) False [])"

theorem cgaputc_stays_on_screen_witness:
  "\<exists>m p. cgaputc 65 demo_con_st = Ok () (demo_con_st\<lparr>crt_pos := p, crt := m\<rparr>) \<and> p < 24 * 80 \<and> m p = 0x0720"
  using cgaputc_stays_on_screen [of demo_con_st 65] by (auto simp: demo_con_st_def fs_st.defs con_st.defs)

section \<open>The line editor\<close>

text \<open>The abstraction of the input buffer: the committed bytes, which \<open>consoleread\<close> may take, and
  the line being edited.\<close>

definition committed :: "'x con_st_scheme \<Rightarrow> u8 list" where
  "committed s = ring_bytes 128 (con_buf s) (con_r s) (unat (con_w s - con_r s))"

definition pending :: "'x con_st_scheme \<Rightarrow> u8 list" where
  "pending s = ring_bytes 128 (con_buf s) (con_w s) (unat (con_e s - con_w s))"

definition con_inv :: "'x con_st_scheme \<Rightarrow> bool" where
  "con_inv s \<longleftrightarrow> length (con_buf s) = 128 \<and> unat (con_w s - con_r s) + unat (con_e s - con_w s) \<le> 128
     \<and> 10 \<notin> set (pending s)"

text \<open>What a line editor is: the two byte strings under one character.\<close>

fun line_char :: "int \<Rightarrow> u8 list \<times> u8 list \<Rightarrow> u8 list \<times> u8 list" where
  "line_char c (com, line) =
     (if c = ctrl CHR ''P'' then (com, line)
      else if c = ctrl CHR ''U'' then (com, [])
      else if c = ctrl CHR ''H'' \<or> c = 0x7f then (com, butlast line)
      else if c \<noteq> 0 \<and> length com + length line < 128 then
        let c' = (if c = 13 then 10 else c); line' = line @ [word_of_int c'] in
        if c' = 10 \<or> c' = ctrl CHR ''D'' \<or> length com + length line' = 128 then (com @ line', [])
        else (com, line')
      else (com, line))"

declare line_char.simps [simp del]

definition con_abs :: "'x con_st_scheme \<Rightarrow> u8 list \<times> u8 list" where
  "con_abs s = (committed s, pending s)"

lemma ibuf_ring: "ibuf_at s i = ring_at 128 (con_buf s) i"
  by (simp add: ibuf_at_def ring_at_def INPUT_BUF_def)

lemma con_same:
  assumes "con_buf t = con_buf s" "con_r t = con_r s" "con_w t = con_w s" "con_e t = con_e s"
  shows "committed t = committed s" "pending t = pending s" "con_inv t = con_inv s" "con_abs t = con_abs s"
  using assms by (simp_all add: committed_def pending_def con_inv_def con_abs_def)

lemma con_count:
  assumes "con_inv s"
  shows "unat (con_e s - con_r s) = unat (con_w s - con_r s) + unat (con_e s - con_w s)"
    "unat (con_e s - con_r s) \<le> 128" "length (committed s) + length (pending s) = unat (con_e s - con_r s)"
    "con_buf s \<noteq> []"
proof -
  have l: "unat (con_w s - con_r s) + unat (con_e s - con_w s) \<le> 128" "length (con_buf s) = 128"
    using assms by (simp_all add: con_inv_def)
  then show "unat (con_e s - con_r s) = unat (con_w s - con_r s) + unat (con_e s - con_w s)"
    using unat_diff_add [of "con_e s" "con_w s" "con_r s"] by simp
  then show "unat (con_e s - con_r s) \<le> 128" "length (committed s) + length (pending s) = unat (con_e s - con_r s)"
    using l by (simp_all add: committed_def pending_def)
  show "con_buf s \<noteq> []" using l(2) by auto
qed

lemma con_whole:
  assumes "unat (con_e s - con_r s) = unat (con_w s - con_r s) + unat (con_e s - con_w s)"
  shows "ring_bytes 128 (con_buf s) (con_r s) (unat (con_e s - con_r s)) = committed s @ pending s"
  unfolding assms ring_bytes_append by (simp add: committed_def pending_def)

lemma con_abs_simps [simp]: "con_abs s = (committed s, pending s)"
  by (simp add: con_abs_def)

text \<open>Taking back the last character.\<close>

lemma con_back:
  assumes "con_inv s" "con_e s \<noteq> con_w s"
  defines "t \<equiv> s\<lparr>con_e := con_e s - 1\<rparr>"
  shows "con_inv t" "committed t = committed s" "pending t = butlast (pending s)"
    "unat (con_e t - con_w t) = unat (con_e s - con_w s) - 1"
proof -
  have u: "unat (con_e s - 1 - con_w s) = unat (con_e s - con_w s) - 1" by (rule unat_minus1 [OF assms(2)])
  show "unat (con_e t - con_w t) = unat (con_e s - con_w s) - 1" using u by (simp add: t_def)
  show c: "committed t = committed s" by (simp add: committed_def t_def)
  show p: "pending t = butlast (pending s)" by (simp add: pending_def t_def u butlast_ring)
  have "10 \<notin> set (butlast (pending s))" using assms(1) in_set_butlastD [of 10 "pending s"] by (auto simp: con_inv_def)
  then show "con_inv t" using assms(1) p u by (simp add: con_inv_def t_def) linarith
qed

lemma kill_line_in:
  assumes "con_inv s" "on_screen s" "k = unat (con_e s - con_w s)"
  shows "\<exists>t. kill_line k s = Ok () t \<and> con_inv t \<and> on_screen t \<and> committed t = committed s \<and> pending t = []
    \<and> thread_in L t = thread_in L s"
  using assms
proof (induction k arbitrary: s)
  case 0
  then have "pending s = []" by (simp add: pending_def)
  with 0 show ?case by simp
next
  case (Suc k)
  have ne: "con_e s \<noteq> con_w s" using Suc.prems(3) by auto
  have e: "con_w s + of_nat k = con_e s - 1"
  proof -
    have "(of_nat (Suc k) :: u32) = con_e s - con_w s" unfolding Suc.prems(3) by simp
    then show ?thesis by (simp add: algebra_simps)
  qed
  have "pending s = ring_bytes 128 (con_buf s) (con_w s) k @ [ibuf_at s (con_e s - 1)]"
    unfolding pending_def Suc.prems(3) [symmetric] by (simp add: ring_bytes_Suc e ibuf_ring)
  then have c: "ibuf_at s (con_e s - 1) \<noteq> 10" using Suc.prems(1) by (auto simp: con_inv_def)
  let ?a = "s\<lparr>con_e := con_e s - 1\<rparr>"
  note B = con_back [OF Suc.prems(1) ne]
  have "on_screen ?a" using Suc.prems(2) by (simp add: on_screen_def)
  then obtain m where m: "consputc BACKSPACE ?a = Ok () m" "printed ?a m" "on_screen m" using consputc_in by blast
  note P = printed_same [OF m(2)]
  note S = con_same [OF P(1-4)]
  have im: "con_inv m" using S(3) B(1) by simp
  have k: "k = unat (con_e m - con_w m)" using P(3,4) B(4) Suc.prems(3) by simp
  obtain t where t: "kill_line k m = Ok () t" "con_inv t" "on_screen t" "committed t = committed m" "pending t = []"
    "thread_in L t = thread_in L m" using Suc.IH [OF im m(3) k] by blast
  have "thread_in L m = thread_in L s" using P(7) by (simp add: thread_in_def found_def)
  then show ?case using c m(1) t S(1) B(2) by (auto simp: kseq_def kbind_def)
qed

lemma con_wakeup:
  assumes "thread_in L s" "L_ptable \<notin> L"
  shows "\<exists>t. wakeup ChInput s = Ok () t \<and> thread_in L t \<and> con_buf t = con_buf s \<and> con_r t = con_r s
    \<and> con_w t = con_w s \<and> con_e t = con_e s \<and> on_screen t = on_screen s"
proof -
  obtain t where t: "wakeup ChInput s = Ok () t" "thread_in L t" using wakeup_in [OF assms] by blast
  have "sleep_st.more t = sleep_st.more s" using wakeup_thread [OF t(1)] by simp
  then have "fs_st.more t = fs_st.more s" by (simp add: bio_st_more log_st_more fs_st_more)
  then have "con_buf t = con_buf s \<and> con_r t = con_r s \<and> con_w t = con_w s \<and> con_e t = con_e s
    \<and> crt_pos t = crt_pos s \<and> con_panicked t = con_panicked s" by (cases s, cases t) simp
  with t show ?thesis by (simp add: on_screen_def)
qed


text \<open>One character from the interrupt.\<close>

lemma consoleintr_char_in:
  assumes I: "con_inv s" "on_screen s" "thread_in L s" "L_ptable \<notin> L" and c: "c \<noteq> ctrl CHR ''P''" "0 \<le> c" "c < 256"
  shows "\<exists>t. consoleintr_char c s = Ok False t \<and> con_inv t \<and> on_screen t \<and> thread_in L t
    \<and> con_abs t = line_char c (con_abs s)"
proof -
  note N = con_count [OF I(1)]
  have w: "con_e s = con_w s \<longleftrightarrow> pending s = []"
    using length_0_conv [of "pending s"] by (simp add: pending_def unat_eq_0)
  consider (kill) "c = ctrl CHR ''U''" | (del) "c = ctrl CHR ''H'' \<or> c = 0x7f"
    | (put) "c \<noteq> ctrl CHR ''U''" "\<not> (c = ctrl CHR ''H'' \<or> c = 0x7f)" "c \<noteq> 0 \<and> con_e s - con_r s < of_nat INPUT_BUF"
    | (drop) "c \<noteq> ctrl CHR ''U''" "\<not> (c = ctrl CHR ''H'' \<or> c = 0x7f)" "\<not> (c \<noteq> 0 \<and> con_e s - con_r s < of_nat INPUT_BUF)"
    by blast
  then show ?thesis
  proof cases
    case kill
    obtain t where "kill_line (unat (con_e s - con_w s)) s = Ok () t" "con_inv t" "on_screen t" "committed t = committed s"
      "pending t = []" "thread_in L t = thread_in L s" using kill_line_in [OF I(1,2) refl] by blast
    then show ?thesis using kill I c
      by (auto simp: consoleintr_char_def ctrl_def kseq_def kbind_def con_abs_def line_char.simps)
  next
    case del
    show ?thesis
    proof (cases "con_e s = con_w s")
      case True
      then show ?thesis using del I c w
        by (auto simp: consoleintr_char_def ctrl_def kseq_def kbind_def con_abs_def line_char.simps)
    next
      case False
      let ?a = "s\<lparr>con_e := con_e s - 1\<rparr>"
      note B = con_back [OF I(1) False]
      have "on_screen ?a" using I(2) by (simp add: on_screen_def)
      then obtain m where m: "consputc BACKSPACE ?a = Ok () m" "printed ?a m" "on_screen m" using consputc_in by blast
      note P = printed_same [OF m(2)]
      note S = con_same [OF P(1-4)]
      have "thread_in L m" using P(7) I(3) by (simp add: thread_in_def found_def)
      then show ?thesis using del False m S B(1-3) c
        by (auto simp: consoleintr_char_def ctrl_def kseq_def kbind_def con_abs_def line_char.simps)
    qed
  next
    case put
    let ?c = "if c = 13 then 10 else c :: int"
    have room: "unat (con_e s - con_r s) < 128" using put(3) by (simp add: word_less_nat_alt INPUT_BUF_def)
    let ?b = "s\<lparr>con_buf := (con_buf s)[unat (con_e s) mod INPUT_BUF := word_of_int ?c]\<rparr>"
    let ?a = "?b\<lparr>con_e := con_e s + 1\<rparr>"
    have "on_screen ?a" using I(2) by (simp add: on_screen_def)
    then obtain m where m: "consputc ?c ?a = Ok () m" "printed ?a m" "on_screen m" using consputc_in by blast
    note P = printed_same [OF m(2)]
    have tm: "thread_in L m" using P(7) I(3) by (simp add: thread_in_def found_def)
    have lb: "length (con_buf s) = 128" using I(1) by (simp add: con_inv_def)
    have buf: "con_buf m = ring_put 128 (con_buf s) (con_e s) (word_of_int ?c)" "con_r m = con_r s" "con_w m = con_w s"
      "con_e m = con_e s + 1" using P by (simp_all add: ring_put_def INPUT_BUF_def)
    have l: "unat (con_e s - con_w s) < 128" using room N(1) by simp
    have lw: "unat (con_e m - con_w m) = Suc (unat (con_e s - con_w s))"
      unfolding buf by (rule unat_plus1) (use l in simp)
    have pm: "pending m = pending s @ [word_of_int ?c]"
      unfolding pending_def buf(1,3) lw [unfolded buf(3)] using ring128.enqueue [OF lb refl l] by simp
    have sum: "unat (con_e m - con_r m) = unat (con_w m - con_r m) + unat (con_e m - con_w m)"
      and n2: "unat (con_e m - con_r m) = Suc (unat (con_e s - con_r s))"
      using unat_plus1 [of "con_e s" "con_r s"] lw N(1) room by (simp_all add: buf)
    have whole: "committed m @ pending m = (committed s @ pending s) @ [word_of_int ?c]"
      unfolding con_whole [OF sum, symmetric] con_whole [OF N(1), symmetric] buf(1,2) n2 [unfolded buf(2)]
      using ring128.enqueue [OF lb refl room] by simp
    then have cm: "committed m = committed s" using pm by simp
    have full: "con_e m = con_r m + of_nat INPUT_BUF \<longleftrightarrow> length (committed s) + length (pending m) = 128"
    proof -
      have "con_e m = con_r m + of_nat INPUT_BUF \<longleftrightarrow> con_e m - con_r m = 128"
        by (auto simp: INPUT_BUF_def algebra_simps)
      also have "\<dots> \<longleftrightarrow> unat (con_e m - con_r m) = 128" by (simp add: word_unat_eq_iff)
      also have "\<dots> \<longleftrightarrow> length (committed s) + length (pending m) = 128" using n2 N(3) by (simp add: pm)
      finally show ?thesis .
    qed
    let ?fin = "?c = 10 \<or> ?c = ctrl CHR ''D'' \<or> con_e m = con_r m + of_nat INPUT_BUF"
    have run: "consoleintr_char c s = kbind (kwhen ?fin (kseq (kmod (\<lambda>s. s\<lparr>con_w := con_e s\<rparr>)) (wakeup ChInput))) (\<lambda>_. kret False) m"
      using put c m(1) by (simp add: consoleintr_char_def Let_def ibuf_set_def kseq_def kbind_def)
    have spec: "line_char c (con_abs s) = (if ?fin then (committed m @ pending m, []) else (committed m, pending m))"
      using put(1,2) c room put(3) N(3) by (simp add: line_char.simps Let_def full cm) (simp add: pm)
    have sl: "unat (con_w m - con_r m) + unat (con_e m - con_w m) \<le> 128" using sum n2 room by linarith
    have lm: "length (con_buf m) = 128" by (simp add: buf ring_put_def lb)
    show ?thesis
    proof (cases ?fin)
      case False
      have "word_of_int ?c \<noteq> (10 :: u8)"
      proof
        assume "word_of_int ?c = (10 :: u8)"
        then have "uint (word_of_int ?c :: u8) = 10" by simp
        then show False using False c by (auto simp: uint_word_of_int)
      qed
      then have "con_inv m" using lm sl I(1) by (simp add: con_inv_def pm)
      then show ?thesis using run spec False m(3) tm by (simp add: kbind_def)
    next
      case True
      let ?w = "m\<lparr>con_w := con_e m\<rparr>"
      have tw: "thread_in L ?w" using tm by (simp add: thread_in_def found_def)
      obtain t where t: "wakeup ChInput ?w = Ok () t" "thread_in L t" "con_buf t = con_buf ?w" "con_r t = con_r ?w"
        "con_w t = con_w ?w" "con_e t = con_e ?w" "on_screen t = on_screen ?w" using con_wakeup [OF tw I(4)] by blast
      have ps: "pending ?w = []" "committed ?w = committed m @ pending m"
        by (simp add: pending_def) (simp add: con_whole [OF sum, symmetric], simp add: committed_def)
      have iw: "con_inv ?w" using lm ps(1) n2 room by (simp add: con_inv_def)
      note S = con_same [OF t(3-6)]
      have "on_screen t" using t(7) m(3) by (simp add: on_screen_def)
      then show ?thesis using run spec True t(1,2) S ps iw by (simp add: kbind_def kseq_def)
    qed
  next
    case drop
    have "\<not> (c \<noteq> 0 \<and> length (committed s) + length (pending s) < 128)"
      using drop(3) N(3) by (simp add: word_less_nat_alt INPUT_BUF_def)
    then show ?thesis using drop I c
      by (auto simp: consoleintr_char_def ctrl_def kseq_def kbind_def con_abs_def line_char.simps)
  qed
qed

lemma con_more:
  assumes "fs_st.more t = fs_st.more s"
  shows "con_abs t = con_abs s" "con_inv t = con_inv s" "on_screen t = on_screen s"
proof -
  have *: "con_buf t = con_buf s" "con_r t = con_r s" "con_w t = con_w s" "con_e t = con_e s"
    "crt_pos t = crt_pos s" "con_panicked t = con_panicked s"
    using assms by (cases s, cases t, simp)+
  show "con_abs t = con_abs s" "con_inv t = con_inv s" using con_same [OF *(1-4)] by simp_all
  show "on_screen t = on_screen s" using * by (simp add: on_screen_def)
qed

lemma con_below: "sleep_st.more t = sleep_st.more s \<Longrightarrow> fs_st.more t = fs_st.more s \<and> icache t = icache s"
  by (simp add: bio_st_more log_st_more fs_st_more)

lemma consoleintr_loop_in:
  assumes "con_inv s" "on_screen s" "thread_in L s" "L_ptable \<notin> L"
    and "\<forall>c \<in> set cs. 0 \<le> c \<and> c < 256 \<and> c \<noteq> ctrl CHR ''P''"
  shows "\<exists>t. consoleintr_loop cs d s = Ok d t \<and> con_inv t \<and> on_screen t \<and> thread_in L t
    \<and> con_abs t = fold line_char cs (con_abs s)"
  using assms
proof (induction cs arbitrary: s)
  case (Cons c cs)
  obtain m where m: "consoleintr_char c s = Ok False m" "con_inv m" "on_screen m" "thread_in L m"
    "con_abs m = line_char c (con_abs s)"
    using consoleintr_char_in [OF Cons.prems(1-4), of c] Cons.prems(5) by auto
  from Cons.IH [OF m(2-4) Cons.prems(4)] Cons.prems(5) m Cons.prems(5)
  show ?case by (auto simp: kbind_def)
qed simp

text \<open>
  C13. The console interrupt is a line editor.  From an input buffer in order, with the cursor on the
  screen and the running thread holding no spin lock, \<open>consoleintr\<close> on any list of character
  codes (bytes, none of them \<open>C('P')\<close>) returns; the buffer is in order again, and the committed
  bytes and the line being edited are those of the abstract editor \<open>line_char\<close> run over the list:
  \<open>C('U')\<close> empties the line, backspace and DEL drop its last byte and never reach into committed
  input, a carriage return counts as newline, newline, \<open>C('D')\<close> or a full buffer commit the
  line, and characters are dropped when the buffer holds 128 bytes, wherever the three 32-bit
  counters stand.
\<close>

theorem console_line_discipline:
  assumes "con_inv s" and "on_screen s" and "thread_in {} s"
    and "\<forall>c \<in> set codes. 0 \<le> c \<and> c < 256 \<and> c \<noteq> ctrl CHR ''P''"
  shows "\<exists>t. consoleintr pcs codes s = Ok () t \<and> con_inv t \<and> on_screen t \<and> thread_in {} t
    \<and> con_abs t = fold line_char codes (con_abs s)"
proof -
  obtain a where a: "acquire L_cons s = Ok () a" "thread_in {L_cons} a"
    using acquire_in [OF assms(3), of L_cons] by auto
  note A = con_more [OF con_below [OF acquire_thread(3) [OF a(1)], THEN conjunct1]]
  obtain b where b: "consoleintr_loop codes False a = Ok False b" "con_inv b" "on_screen b" "thread_in {L_cons} b"
    "con_abs b = fold line_char codes (con_abs a)"
    using consoleintr_loop_in [OF _ _ a(2) _ assms(4)] A assms(1,2) by auto
  obtain t where t: "release L_cons b = Ok () t" "thread_in {} t" using release_in [OF b(4), of L_cons] by auto
  note R = con_more [OF con_below [OF release_thread(3) [OF t(1)], THEN conjunct1]]
  show ?thesis using a(1) b t A R by (auto simp: consoleintr_def kseq_def kbind_def)
qed

lemma con_extend_in: "thread_in L (fs_st.extend s m) = thread_in L s"
  by (simp add: thread_in_def found_def fs_st.defs)

lemma demo_con: "con_inv demo_con_st" "on_screen demo_con_st" "thread_in {} demo_con_st" "con_abs demo_con_st = ([], [])"
proof -
  have "calm demo_fs_st" using demo_fs_quiet(1) by (simp add: quiet_def)
  then show "thread_in {} demo_con_st" unfolding demo_con_st_def con_extend_in by (rule calmD)
qed (simp_all add: demo_con_st_def fs_st.defs con_st.defs con_inv_def committed_def pending_def on_screen_def)

theorem console_line_discipline_witness:
  "\<exists>t. consoleintr (\<lambda>_. []) [97, 98, 8, 99, 13, 100] demo_con_st = Ok () t \<and> con_abs t = ([97, 99, 10], [100])"
proof -
  have "fold line_char [97, 98, 8, 99, 13, 100] ([], []) = ([97, 99, 10], [100])"
    by (simp add: line_char.simps ctrl_def Let_def)
  then show ?thesis
    using console_line_discipline [OF demo_con(1-3), of "[97, 98, 8, 99, 13, 100]" "\<lambda>_. []"] demo_con(4)
    by (auto simp: ctrl_def)
qed

text \<open>Reading: what \<open>consoleread\<close> takes of the committed bytes for \<open>n\<close> more of \<open>target\<close> bytes, and
  what it leaves; \<open>None\<close> when it has to wait for input.\<close>

fun take_line :: "nat \<Rightarrow> nat \<Rightarrow> u8 list \<Rightarrow> (u8 list \<times> u8 list) option" where
  "take_line target 0 com = Some ([], com)"
| "take_line target (Suc n) [] = None"
| "take_line target (Suc n) (c # com) =
     (if uint c = ctrl CHR ''D'' then Some ([], if Suc n < target then c # com else com)
      else if c = 10 then Some ([c], com)
      else map_option (\<lambda>(cs, rest). (c # cs, rest)) (take_line target n com))"

lemma take_line_length: "take_line target n com = Some (cs, rest) \<Longrightarrow> length cs \<le> n"
proof (induction target n com arbitrary: cs rest rule: take_line.induct)
  case (3 target n c com)
  then show ?case by (auto split: if_splits)
qed auto

lemma con_next:
  assumes "con_inv s" "committed s = c # com"
  defines "t \<equiv> s\<lparr>con_r := con_r s + 1\<rparr>"
  shows "con_r s \<noteq> con_w s" "ibuf_at s (con_r s) = c" "con_inv t" "committed t = com" "pending t = pending s"
proof -
  obtain k where k: "unat (con_w s - con_r s) = Suc k"
    using assms(2) by (cases "unat (con_w s - con_r s)") (auto simp: committed_def)
  then show ne: "con_r s \<noteq> con_w s" by auto
  have k': "unat (con_w s - (con_r s + 1)) = k"
  proof -
    have "con_w s - con_r s \<noteq> 0" using ne by simp
    then have "unat ((con_w s - con_r s) - 1) = unat (con_w s - con_r s) - 1" by (rule unat_minus_one)
    then show ?thesis using k by (simp add: algebra_simps)
  qed
  show "ibuf_at s (con_r s) = c" "committed t = com"
    using assms(2) by (simp_all add: committed_def k k' ring_bytes_Cons ibuf_ring t_def)
  show p: "pending t = pending s" by (simp add: pending_def t_def)
  show "con_inv t" using assms(1) k k' p by (simp add: con_inv_def) (simp add: t_def)
qed

lemma consoleread_loop_in:
  assumes "take_line target n (committed s) = Some (cs, rest)" "con_inv s"
  shows "\<exists>t m. consoleread_loop target n s = Ok (Some m, cs) t \<and> n = m + length cs \<and> con_inv t
    \<and> con_abs t = (rest, pending s) \<and> (\<exists>r. t = s\<lparr>con_r := r\<rparr>)"
  using assms
proof (induction n arbitrary: s cs)
  case 0
  then show ?case by (auto intro: exI [of _ "con_r s"])
next
  case (Suc n)
  obtain c com where com: "committed s = c # com" using Suc.prems(1) by (cases "committed s") auto
  let ?t = "s\<lparr>con_r := con_r s + 1\<rparr>"
  note N = con_next [OF Suc.prems(2) com]
  show ?case
  proof (cases "uint c = ctrl CHR ''D''")
    case True
    have e: "?t\<lparr>con_r := con_r ?t - 1\<rparr> = s" by simp
    show ?thesis
    proof (cases "Suc n < target")
      case t: True
      have r: "consoleread_loop target (Suc n) s = Ok (Some (Suc n), []) s"
        using True N(1,2) t by (simp add: kseq_def kbind_def)
      have e: "cs = []" "rest = committed s" using True t Suc.prems(1) com by simp_all
      show ?thesis
      proof (intro exI conjI)
        show "consoleread_loop target (Suc n) s = Ok (Some (Suc n), cs) s" unfolding e by (rule r)
        show "con_abs s = (rest, pending s)" unfolding e by (rule con_abs_def)
        show "s = s\<lparr>con_r := con_r s\<rparr>" by simp
      qed (use e Suc.prems(2) in simp_all)
    next
      case f: False
      have r: "consoleread_loop target (Suc n) s = Ok (Some (Suc n), []) ?t"
        using True N(1,2) f by (simp add: kseq_def kbind_def)
      have e: "cs = []" "rest = com" using True f Suc.prems(1) com by simp_all
      show ?thesis
      proof (intro exI conjI)
        show "consoleread_loop target (Suc n) s = Ok (Some (Suc n), cs) ?t" unfolding e by (rule r)
        show "con_abs ?t = (rest, pending s)" unfolding e con_abs_def using N(4,5) by simp
        show "?t = s\<lparr>con_r := con_r s + 1\<rparr>" by simp
      qed (use e N(3) in simp_all)
    qed
  next
    case False
    show ?thesis
    proof (cases "c = 10")
      case True
      have r: "consoleread_loop target (Suc n) s = Ok (Some n, [c]) ?t"
        using False True N(1,2) by (simp add: kseq_def kbind_def)
      have e: "cs = [c]" "rest = com" using False True Suc.prems(1) com by simp_all
      show ?thesis
      proof (intro exI conjI)
        show "consoleread_loop target (Suc n) s = Ok (Some n, cs) ?t" unfolding e by (rule r)
        show "con_abs ?t = (rest, pending s)" unfolding e con_abs_def using N(4,5) by simp
        show "?t = s\<lparr>con_r := con_r s + 1\<rparr>" by simp
      qed (use e N(3) in simp_all)
    next
      case nl: False
      from Suc.prems(1) com False nl obtain ds where ds: "take_line target n com = Some (ds, rest)" "cs = c # ds"
        by auto
      obtain t m where t: "consoleread_loop target n ?t = Ok (Some m, ds) t" "n = m + length ds" "con_inv t"
        "con_abs t = (rest, pending ?t)" "\<exists>r. t = ?t\<lparr>con_r := r\<rparr>"
        using Suc.IH [of ?t ds] ds(1) N(3,4) by auto
      then obtain r where r: "t = s\<lparr>con_r := r\<rparr>" by auto
      have run: "consoleread_loop target (Suc n) s = Ok (Some m, c # ds) t"
        using False nl N(1,2) t(1) by (simp add: kseq_def kbind_def)
      show ?thesis
      proof (intro exI conjI)
        show "consoleread_loop target (Suc n) s = Ok (Some m, cs) t" unfolding ds(2) by (rule run)
        show "con_abs t = (rest, pending s)" using t(4) N(5) by simp
        show "t = s\<lparr>con_r := r\<rparr>" by (rule r)
      qed (use t(2,3) ds(2) in simp_all)
    qed
  qed
qed

text \<open>
  C14. \<open>consoleread\<close> of a locked, cached inode returns what is committed of the next line: with
  \<open>take_line\<close> as the specification (at most \<open>n\<close> bytes, up to and including a newline, up to a
  \<open>C('D')\<close>, which is swallowed only when nothing was read before it and otherwise stays for
  the next call), it returns their number and the bytes, leaves the rest of the committed bytes
  and the line being edited in the buffer, and gives the inode back locked with no spin lock
  held.
\<close>

theorem consoleread_next_line:
  assumes "con_inv s" and "thread_in {} s" and "iheld s ip" and "1 \<le> i_ref (icache s ip)" and "i_valid (icache s ip)"
    and "0 \<le> sint n" and "take_line (nat (sint n)) (nat (sint n)) (committed s) = Some (cs, rest)"
  shows "\<exists>t. consoleread ip n s = Ok (int (length cs), cs) t \<and> thread_in {} t \<and> iheld t ip \<and> con_inv t
    \<and> con_abs t = (rest, pending s)"
proof -
  let ?n = "nat (sint n)"
  obtain a where a: "iunlock (Some ip) s = Ok () a" "thread_in {} a" "sleep_st.more a = sleep_st.more s"
    "slocks a = (slocks s)(SL_inode ip := \<lparr>sl_locked = False, sl_pid = 0\<rparr>)"
    using iunlock_in [OF assms(2) _ _ assms(3,4)] by auto
  obtain b where b: "acquire L_cons a = Ok () b" "thread_in {L_cons} b"
    using acquire_in [OF a(2), of L_cons] by auto
  note B = acquire_thread [OF b(1)]
  have more: "fs_st.more b = fs_st.more s" "icache b = icache s"
    using con_below [OF a(3)] con_below [OF B(3)] by simp_all
  note M = con_more [OF more(1)]
  obtain c m r where c: "consoleread_loop ?n ?n b = Ok (Some m, cs) c" "?n = m + length cs" "con_inv c"
    "con_abs c = (rest, pending b)" "c = b\<lparr>con_r := r\<rparr>"
    using consoleread_loop_in [of ?n ?n b cs rest] assms(1,7) M by auto
  have tc: "thread_in {L_cons} c" using b(2) by (simp add: c(5) thread_in_def found_def)
  obtain d where d: "release L_cons c = Ok () d" "thread_in {} d" using release_in [OF tc, of L_cons] by auto
  note D = release_thread [OF d(1)]
  have ld: "icache d = icache s" "fs_st.more d = fs_st.more c" "slocks d = slocks a"
    using con_below [OF D(3)] more(2) D(2) B(2) by (simp_all add: c(5))
  obtain t where t: "ilock (Some ip) d = Ok () t" "thread_in {} t" "sleep_st.more t = sleep_st.more d" "iheld t ip"
    using ilock_valid_in [OF d(2), of ip] ld a(4) assms(4,5) by auto
  note T = con_more [OF con_below [OF t(3), THEN conjunct1]] and Dm = con_more [OF ld(2)]
  have "consoleread ip n s = Ok (sint n - int m, cs) t"
    using a(1) b(1) c(1) d(1) t(1) assms(6) by (simp add: consoleread_def kseq_def kbind_def)
  moreover have "sint n - int m = int (length cs)" using c(2) assms(6) by linarith
  ultimately show ?thesis using t(2,4) T Dm c(3,4) M by auto
qed

text \<open>The demo state with inode entry 3 locked by the running process and the line \<open>ls\<close> typed.\<close>

definition demo_read_st :: con_st where
  "demo_read_st = demo_con_st\<lparr>slocks := (slocks demo_con_st)(SL_inode 3 := \<lparr>sl_locked = True, sl_pid = 1\<rparr>),
     con_buf := [108, 115, 10, 120] @ replicate 124 0, con_w := 3, con_e := 4\<rparr>"

theorem consoleread_next_line_witness:
  "\<exists>t. consoleread 3 100 demo_read_st = Ok (3, [108, 115, 10]) t \<and> con_abs t = ([], [120])"
proof -
  have "committed demo_read_st = [108, 115, 10]" "pending demo_read_st = [120]"
    by (simp_all add: committed_def pending_def ring_bytes_def ring_at_def demo_read_st_def demo_con_st_def fs_st.defs con_st.defs upt_rec)
  moreover have "con_inv demo_read_st" using calculation(2)
    by (simp add: con_inv_def) (simp add: demo_read_st_def demo_con_st_def fs_st.defs con_st.defs)
  moreover have "thread_in {} demo_read_st" using demo_con(3)
    by (simp add: demo_read_st_def thread_in_def found_def)
  moreover have "cur demo_read_st = Some 0" "p_pid (ptable demo_read_st 0) = 1"
    by (simp_all add: demo_read_st_def demo_con_st_def demo_fs_st_def demo_log_st_def log_st.defs fs_st.defs cur_def found_def demo_cpu_def)
  then have "iheld demo_read_st 3" by (simp add: iheld_def) (simp add: demo_read_st_def)
  moreover have "icache demo_read_st 3 = demo_inode"
    using demo_fs_simps(1) by (simp add: demo_read_st_def demo_con_st_def fs_st.defs)
  moreover have "take_line 100 100 [108, 115, 10] = Some ([108, 115, 10], [])"
  proof -
    have "(100 :: nat) = Suc (Suc (Suc 97))" by simp
    then show ?thesis by (simp only: take_line.simps) (simp add: ctrl_def)
  qed
  ultimately show ?thesis
    using consoleread_next_line [of demo_read_st 3 100 "[108, 115, 10]" "[]"] by (auto simp: demo_inode_def)
qed

section \<open>Formatted output does not fail\<close>

text \<open>The arguments fit the format.\<close>

fun fmt_ok :: "u8 list \<Rightarrow> carg list \<Rightarrow> bool" where
  "fmt_ok [] args \<longleftrightarrow> True"
| "fmt_ok [c] args \<longleftrightarrow> True"
| "fmt_ok (c # d # fmt) args \<longleftrightarrow>
     (if c \<noteq> 37 then fmt_ok (d # fmt) args
      else if d = of_char CHR ''d'' \<or> d = of_char CHR ''x'' \<or> d = of_char CHR ''p'' then
        (case args of ANum n # rest \<Rightarrow> fmt_ok fmt rest | _ \<Rightarrow> False)
      else if d = of_char CHR ''s'' then (case args of AStr p # rest \<Rightarrow> fmt_ok fmt rest | _ \<Rightarrow> False)
      else fmt_ok fmt args)"

lemma printed_seq:
  assumes "\<exists>t. f s = Ok () t \<and> printed s t \<and> on_screen t"
    and "\<And>t. on_screen t \<Longrightarrow> \<exists>u. g t = Ok () u \<and> printed t u \<and> on_screen u"
  shows "\<exists>u. kseq f g s = Ok () u \<and> printed s u \<and> on_screen u"
  using assms by (auto simp: kseq_def kbind_def) (metis printed_trans res.simps(23))

lemma cprintf_loop_in:
  fixes s :: "'x con_st_scheme"
  shows "on_screen s \<Longrightarrow> fmt_ok fmt args \<Longrightarrow> \<exists>t. cprintf_loop fmt args s = Ok () t \<and> printed s t \<and> on_screen t"
proof (induction fmt args arbitrary: s rule: cprintf_loop.induct)
  case (1 args)
  then show ?case by simp
next
  case (2 c args)
  then show ?case using consputc_in [of s "uint c"] by simp
next
  case (3 c d fmt args)
  have p: "\<exists>t. consputc k s = Ok () t \<and> printed s t \<and> on_screen t" for k by (rule consputc_in [OF 3(7)])
  have q: "\<exists>t. consputs cs s = Ok () t \<and> printed s t \<and> on_screen t" for cs by (rule consputs_in [OF 3(7)])
  show ?case
  proof (cases "c = 37")
    case False
    with 3 have "\<And>t :: 'x con_st_scheme. on_screen t \<Longrightarrow> \<exists>u. cprintf_loop (d # fmt) args t = Ok () u \<and> printed t u \<and> on_screen u" by simp
    with False show ?thesis using printed_seq [of "consputc (uint c)" s, OF p] by simp
  next
    case c: True
    consider (num) "d = of_char CHR ''d'' \<or> d = of_char CHR ''x'' \<or> d = of_char CHR ''p''"
      | (str) "d = of_char CHR ''s''" "\<not> (d = of_char CHR ''d'' \<or> d = of_char CHR ''x'' \<or> d = of_char CHR ''p'')"
      | (other) "d \<noteq> of_char CHR ''s''" "\<not> (d = of_char CHR ''d'' \<or> d = of_char CHR ''x'' \<or> d = of_char CHR ''p'')" by blast
    then show ?thesis
    proof cases
      case num
      then obtain n rest where a: "args = ANum n # rest" "fmt_ok fmt rest"
        using 3(8) c by (auto split: list.splits carg.splits)
      then have "\<And>t :: 'x con_st_scheme. on_screen t \<Longrightarrow> \<exists>u. cprintf_loop fmt rest t = Ok () u \<and> printed t u \<and> on_screen u"
        using 3(2,3) c num by auto
      then show ?thesis using c num a(1) printed_seq [of "consputs cs" s for cs, OF q] by (auto simp: printint_def)
    next
      case str
      then obtain n rest where a: "args = AStr n # rest" "fmt_ok fmt rest"
        using 3(8) c by (auto split: list.splits carg.splits)
      then have "\<And>t :: 'x con_st_scheme. on_screen t \<Longrightarrow> \<exists>u. cprintf_loop fmt rest t = Ok () u \<and> printed t u \<and> on_screen u"
        using 3(4) c str by auto
      then show ?thesis using c str a(1) printed_seq [of "consputs cs" s for cs, OF q] by auto
    next
      case other
      then have r: "\<And>t :: 'x con_st_scheme. on_screen t \<Longrightarrow> \<exists>u. cprintf_loop fmt args t = Ok () u \<and> printed t u \<and> on_screen u"
        using 3(5,6,8) c by (cases "d = 37") auto
      have r2: "\<And>t :: 'x con_st_scheme. on_screen t \<Longrightarrow> \<exists>u. kseq (consputc (uint d)) (cprintf_loop fmt args) t = Ok () u \<and> printed t u \<and> on_screen u"
        by (rule printed_seq) (use consputc_in r in auto)
      show ?thesis using c other printed_seq [of "consputc 37" s, OF p r] printed_seq [of "consputc 37" s, OF p r2] by auto
    qed
  qed
qed

text \<open>What printing leaves alone: everything but the screen, the serial line and the locks.\<close>

definition out_frame :: "'x con_st_scheme \<Rightarrow> 'x con_st_scheme \<Rightarrow> bool" where
  "out_frame s t \<longleftrightarrow> cur t = cur s \<and> ptable t = ptable s \<and> nextpid t = nextpid s \<and> initproc t = initproc s
     \<and> ticks t = ticks s \<and> slocks t = slocks s \<and> bufs t = bufs s \<and> memdisk t = memdisk s \<and> disksize t = disksize s
     \<and> disk_writes t = disk_writes s \<and> lg t = lg s \<and> icache t = icache s \<and> fs_sb t = fs_sb s
     \<and> con_buf t = con_buf s \<and> con_r t = con_r s \<and> con_w t = con_w s \<and> con_e t = con_e s \<and> con_st.more t = con_st.more s"

lemma out_frame_refl [simp]: "out_frame s s" by (simp add: out_frame_def)

lemma out_frame_trans [trans]: "out_frame s t \<Longrightarrow> out_frame t u \<Longrightarrow> out_frame s u"
  by (simp add: out_frame_def)

lemma out_frame_printed: "printed s t \<Longrightarrow> out_frame s t"
  by (auto simp: printed_def out_frame_def cur_def found_def split: option.split)

lemma out_frame_cpu:
  assumes "cpu_frame s t"
  shows "out_frame s t" "crt_pos t = crt_pos s" "con_panicked t = con_panicked s" "con_locking t = con_locking s"
  using assms by (cases s, cases t, simp add: cpu_frame_def out_frame_def)+

lemma printed_in: "printed s t \<Longrightarrow> thread_in L s \<Longrightarrow> thread_in L t"
  by (auto simp: printed_def thread_in_def found_def)

lemma cprintf_in:
  assumes "thread_in L s" "L_cons \<notin> L" "on_screen s" "fmt_ok fmt args"
  shows "\<exists>t. cprintf (Some fmt) args s = Ok () t \<and> thread_in L t \<and> on_screen t \<and> out_frame s t"
proof (cases "con_locking s")
  case False
  obtain t where "cprintf_loop fmt args s = Ok () t" "printed s t" "on_screen t"
    using cprintf_loop_in [OF assms(3,4)] by blast
  then show ?thesis using False assms(1) by (auto simp: cprintf_def kseq_def kbind_def intro: printed_in out_frame_printed)
next
  case True
  obtain a where a: "acquire L_cons s = Ok () a" "thread_in (insert L_cons L) a" "cpu_frame s a"
    using acquire_frame [OF assms(1,2)] by blast
  have "on_screen a" using out_frame_cpu [OF a(3)] assms(3) by (simp add: on_screen_def)
  then obtain b where b: "cprintf_loop fmt args a = Ok () b" "printed a b" "on_screen b"
    using cprintf_loop_in [OF _ assms(4)] by blast
  obtain t where t: "release L_cons b = Ok () t" "thread_in (insert L_cons L - {L_cons}) t" "cpu_frame b t"
    using release_frame [OF printed_in [OF b(2) a(2)], of L_cons] by auto
  have "on_screen t" using out_frame_cpu [OF t(3)] b(3) by (simp add: on_screen_def)
  moreover have "out_frame s t"
    using out_frame_cpu(1) [OF a(3)] out_frame_printed [OF b(2)] out_frame_cpu(1) [OF t(3)] by (blast intro: out_frame_trans)
  moreover have "cprintf (Some fmt) args s = Ok () t"
    using True a(1) b(1) t(1) by (simp add: cprintf_def kseq_def kbind_def)
  moreover have "thread_in L t" using t(2) assms(2) by simp
  ultimately show ?thesis by blast
qed

section \<open>Numbers as text\<close>

lemma digits_of_less: "2 \<le> base \<Longrightarrow> d \<in> set (digits_of base x) \<Longrightarrow> d < base"
proof (induction base x rule: digits_of.induct)
  case (1 base x)
  then show ?case by (subst (asm) digits_of.simps) (auto split: if_splits)
qed

lemma atoi_from_digits:
  "\<forall>d \<in> set ds. d < 10 \<Longrightarrow> atoi_from n (map (\<lambda>d. of_nat (48 + d)) ds @ rest) = atoi_from (foldl (\<lambda>n d. n * 10 + int d) n ds) rest"
proof (induction ds arbitrary: n)
  case (Cons d ds)
  have "unat (of_nat (48 + d) :: u8) = 48 + d" using Cons.prems by (simp add: unsigned_of_nat take_bit_nat_eq_self del: of_nat_add)
  then have "atoi_from n ((of_nat (48 + d) :: u8) # xs) = atoi_from (n * 10 + int d) xs" for xs
    using Cons.prems by (simp add: word_le_nat_alt of_nat_add [where 'a = int] del: of_nat_add)
  then show ?case using Cons by simp
qed simp

lemma foldl_digits: "foldl (\<lambda>n d. n * 10 + int d) 0 (rev (digits_of 10 x)) = int x"
proof (induction "10 :: nat" x rule: digits_of.induct)
  case (1 x)
  show ?case
    by (subst digits_of.simps) (use 1 in \<open>auto simp: zdiv_int zmod_int\<close>)
qed

lemma hex_digit_10: "d < 10 \<Longrightarrow> hex_digits ! d = of_nat (48 + d)"
proof -
  assume "d < 10"
  then have "d \<in> set [0..<10]" by simp
  then show ?thesis by (auto simp: upt_rec hex_digits_def str_def)
qed

text \<open>
  What \<open>cprintf("%d")\<close> prints, \<open>atoi\<close> reads back: for a number of the range of \<open>int\<close> that is
  not negative the text of \<open>printint\<close>, followed by the end of the string or by anything that does
  not start with a digit, is converted to that number.
\<close>

theorem atoi_reads_printint:
  assumes "0 \<le> n" "n < 2 ^ 31" "rest = [] \<or> \<not> (48 \<le> hd rest \<and> hd rest \<le> 57)"
  shows "atoi (int_text hex_digits n 10 True @ rest) = n"
proof -
  have d: "\<forall>d \<in> set (rev (digits_of 10 (nat n))). d < 10" using digits_of_less [of 10] by auto
  have "int_text hex_digits n 10 True = map (\<lambda>d. of_nat (48 + d)) (rev (digits_of 10 (nat n)))"
    using assms(1,2) d by (simp add: int_text_def Let_def rev_map hex_digit_10)
  moreover have "atoi_from m rest = m" for m using assms(3) by (cases rest) auto
  ultimately show ?thesis
    using atoi_from_digits [OF d, of 0 rest] foldl_digits [of "nat n"] assms(1) by (simp add: atoi_def)
qed

theorem atoi_reads_printint_witness:
  "atoi (int_text hex_digits 2147483647 10 True @ str '' KB'') = 2147483647"
  by (rule atoi_reads_printint) (simp_all add: str_def)

end
