(* ===== verification/Kalloc.thy ===== *)
theory Kalloc
  imports Console
begin

text \<open>
  Physical memory and its allocator (\<open>kalloc.c\<close>, the address macros of \<open>memlayout.h\<close> and
  \<open>mmu.h\<close>).  Memory is a map from kernel virtual addresses (as numbers) to bytes; all physical
  memory below \<open>PHYSTOP\<close> is mapped there at \<open>KERNBASE\<close>.  The free list is the linked list the
  code builds inside the free pages: the first word of a free page is the address of the next
  one.  \<open>kend\<close> is the linker's symbol \<open>end\<close>.
\<close>

section \<open>Addresses\<close>

definition PGSIZE :: u32 where [const_defs]: "PGSIZE = 4096"
definition EXTMEM :: u32 where [const_defs]: "EXTMEM = 0x100000"
definition PHYSTOP :: u32 where [const_defs]: "PHYSTOP = 0xE000000"
definition DEVSPACE :: u32 where [const_defs]: "DEVSPACE = 0xFE000000"
definition KERNBASE :: u32 where [const_defs]: "KERNBASE = 0x80000000"
definition KERNLINK :: u32 where [const_defs]: "KERNLINK = KERNBASE + EXTMEM"

definition V2P :: "u32 \<Rightarrow> u32" where "V2P a = a - KERNBASE"
definition P2V :: "u32 \<Rightarrow> u32" where "P2V a = a + KERNBASE"

definition PGROUNDUP :: "u32 \<Rightarrow> u32" where
  "PGROUNDUP sz = (sz + PGSIZE - 1) AND NOT (PGSIZE - 1)"

definition PGROUNDDOWN :: "u32 \<Rightarrow> u32" where
  "PGROUNDDOWN a = a AND NOT (PGSIZE - 1)"

section \<open>Memory\<close>

record mem_st = con_st +
  kmem :: mem
  freelist :: u32
  use_lock :: bool
  kend :: u32
  kdata :: u32
  kpgdir :: u32
  cr3 :: u32

text \<open>A 32-bit word in memory.\<close>

definition ld32 :: "u32 \<Rightarrow> mem \<Rightarrow> u32" where
  "ld32 a m = word32 (map (\<lambda>i. m (unat a + i)) [0..<4])"

definition st32 :: "u32 \<Rightarrow> u32 \<Rightarrow> mem \<Rightarrow> mem" where
  "st32 a v m = (\<lambda>b. if unat a \<le> b \<and> b < unat a + 4 then bytes32 v ! (b - unat a) else m b)"

definition upd_mem :: "(mem \<Rightarrow> mem) \<Rightarrow> (unit, 'x mem_st_scheme) kern" where
  "upd_mem f = kmod (\<lambda>s. s\<lparr>kmem := f (kmem s)\<rparr>)"

section \<open>The allocator\<close>

definition kfree :: "u32 \<Rightarrow> (unit, 'x mem_st_scheme) kern" where
  "kfree v =
     kbind (kget kend) (\<lambda>e.
     if v mod PGSIZE \<noteq> 0 \<or> v < e \<or> PHYSTOP \<le> V2P v then kpanic ''kfree''
     else
       kseq (upd_mem (memset (unat v) 1 (unat PGSIZE))) (
       kbind (kget use_lock) (\<lambda>ul.
       kseq (kwhen ul (acquire L_kmem)) (
       kseq (kmod (\<lambda>s. s\<lparr>kmem := st32 v (freelist s) (kmem s)\<rparr>)) (
       kseq (kmod (\<lambda>s. s\<lparr>freelist := v\<rparr>)) (
       kbind (kget use_lock) (\<lambda>ul.
       kwhen ul (release L_kmem))))))))"

definition kalloc :: "(u32, 'x mem_st_scheme) kern" where
  "kalloc =
     kbind (kget use_lock) (\<lambda>ul.
     kseq (kwhen ul (acquire L_kmem)) (
     kbind (kget freelist) (\<lambda>r.
     kseq (kwhen (r \<noteq> 0) (kmod (\<lambda>s. s\<lparr>freelist := ld32 r (kmem s)\<rparr>))) (
     kbind (kget use_lock) (\<lambda>ul.
     kseq (kwhen ul (release L_kmem)) (kret r))))))"

text \<open>The pages \<open>freerange\<close> frees: the whole pages between its bounds, lowest first.  The bounds
  come from the linker script and \<open>PHYSTOP\<close>; \<open>p + PGSIZE\<close> does not wrap below \<open>DEVSPACE\<close>.\<close>

definition page_range :: "u32 \<Rightarrow> u32 \<Rightarrow> u32 list" where
  "page_range vstart vend =
     (let p = unat (PGROUNDUP vstart) in
      map (\<lambda>i. of_nat (p + i * 4096)) [0..<(unat vend - p) div 4096])"

definition freerange :: "u32 \<Rightarrow> u32 \<Rightarrow> (unit, 'x mem_st_scheme) kern" where
  "freerange vstart vend = kfor (page_range vstart vend) kfree"

definition kinit1 :: "u32 \<Rightarrow> u32 \<Rightarrow> (unit, 'x mem_st_scheme) kern" where
  "kinit1 vstart vend =
     kseq (initlock L_kmem) (
     kseq (kmod (\<lambda>s. s\<lparr>use_lock := False\<rparr>))
          (freerange vstart vend))"

definition kinit2 :: "u32 \<Rightarrow> u32 \<Rightarrow> (unit, 'x mem_st_scheme) kern" where
  "kinit2 vstart vend =
     kseq (freerange vstart vend)
          (kmod (\<lambda>s. s\<lparr>use_lock := True\<rparr>))"

section \<open>Reading and writing memory\<close>

lemma ld32_st32 [simp]: "ld32 a (st32 a v m) = v"
proof -
  have "map (\<lambda>i. st32 a v m (unat a + i)) [0..<4] = bytes32 v"
    by (rule nth_equalityI) (simp_all add: st32_def)
  then show ?thesis by (simp add: ld32_def)
qed

lemma ld32_cong: "(\<And>i. i < 4 \<Longrightarrow> m (unat a + i) = m' (unat a + i)) \<Longrightarrow> ld32 a m = ld32 a m'"
  unfolding ld32_def by (intro arg_cong [where f = word32] map_cong) auto

lemma ld32_st32_other:
  assumes "unat a + 4 \<le> unat b \<or> unat b + 4 \<le> unat a"
  shows "ld32 a (st32 b v m) = ld32 a m"
  by (rule ld32_cong) (use assms in \<open>auto simp: st32_def\<close>)

lemma stosl_eval:
  assumes "ucast w = b" "ucast (drop_bit 8 w) = b" "ucast (drop_bit 16 w) = b" "ucast (drop_bit 24 w) = b"
  shows "stosl d w n m a = (if d \<le> a \<and> a < d + 4 * n then b else m a)"
proof (induction n arbitrary: d m)
  case (Suc n)
  show ?case using Suc [of "d + 4"] assms by auto
qed auto

lemma memset_eval: "memset d c n m a = (if d \<le> a \<and> a < d + n then ucast c else m a)"
proof (cases "d mod 4 = 0 \<and> n mod 4 = 0")
  case True
  let ?c = "c AND 0xFF"
  let ?w = "push_bit 24 ?c OR push_bit 16 ?c OR push_bit 8 ?c OR ?c"
  have b: "ucast ?w = (ucast c :: u8)" "ucast (drop_bit 8 ?w) = (ucast c :: u8)"
    "ucast (drop_bit 16 ?w) = (ucast c :: u8)" "ucast (drop_bit 24 ?w) = (ucast c :: u8)"
  proof -
    have m: "?c = take_bit 8 c" by (simp add: take_bit_eq_mask mask_eq_exp_minus_1)
    show "ucast ?w = (ucast c :: u8)" "ucast (drop_bit 8 ?w) = (ucast c :: u8)"
      "ucast (drop_bit 16 ?w) = (ucast c :: u8)" "ucast (drop_bit 24 ?w) = (ucast c :: u8)"
      unfolding m by (rule bit_word_eqI; auto simp: bit_simps; fail)+
  qed
  have "4 * (n div 4) = n" using True by auto
  then show ?thesis using True stosl_eval [OF b, of d "n div 4" m a] by (simp add: memset_def Let_def)
qed (auto simp: memset_def stosb_eval)

text \<open>The pages the allocator manages, and the free list in memory as a path of them.\<close>

definition page_ok :: "u32 \<Rightarrow> u32 \<Rightarrow> bool" where
  "page_ok e p \<longleftrightarrow> p mod PGSIZE = 0 \<and> e \<le> p \<and> V2P p < PHYSTOP \<and> p \<noteq> 0"

fun flist :: "mem \<Rightarrow> u32 \<Rightarrow> u32 list \<Rightarrow> bool" where
  "flist m p [] \<longleftrightarrow> p = 0"
| "flist m p (x # xs) \<longleftrightarrow> p = x \<and> x \<noteq> 0 \<and> flist m (ld32 x m) xs"

definition alloc_inv :: "lockid set \<Rightarrow> 'x mem_st_scheme \<Rightarrow> u32 list \<Rightarrow> bool" where
  "alloc_inv L s ps \<longleftrightarrow> flist (kmem s) (freelist s) ps \<and> distinct ps \<and> (\<forall>p \<in> set ps. page_ok (kend s) p)
     \<and> L_kmem \<notin> L \<and> (use_lock s \<longrightarrow> thread_in L s)"

lemma page_aligned:
  fixes p q :: u32
  assumes "p mod PGSIZE = 0" "q mod PGSIZE = 0" "p \<noteq> q"
  shows "unat p + 4096 \<le> unat q \<or> unat q + 4096 \<le> unat p"
proof -
  have "unat p mod 4096 = 0" "unat q mod 4096 = 0"
    using assms(1,2) by (simp_all add: PGSIZE_def word_unat_eq_iff unat_mod)
  then obtain a b where "unat p = 4096 * a" "unat q = 4096 * b" by (auto simp: mod_eq_0_iff_dvd elim!: dvdE)
  moreover have "unat p \<noteq> unat q" using assms(3) by (simp add: word_unat_eq_iff)
  ultimately show ?thesis by auto
qed

text \<open>The list does not depend on memory outside its pages.\<close>

lemma flist_cong:
  assumes "flist m p ps" "\<And>x i. x \<in> set ps \<Longrightarrow> i < 4 \<Longrightarrow> m' (unat x + i) = m (unat x + i)"
  shows "flist m' p ps"
  using assms
proof (induction ps arbitrary: p)
  case (Cons x xs)
  have "ld32 x m' = ld32 x m" by (rule ld32_cong) (simp add: Cons.prems(2))
  then show ?case using Cons by auto
qed simp

lemma flist_hd: "flist m p ps \<Longrightarrow> p = (case ps of [] \<Rightarrow> 0 | x # xs \<Rightarrow> x)"
  by (cases ps) auto

text \<open>Taking and giving back the allocator's lock changes nothing the allocator looks at.\<close>

lemma mem_more:
  assumes "sleep_st.more t = sleep_st.more s"
  shows "kmem t = kmem s" "freelist t = freelist s" "use_lock t = use_lock s" "kend t = kend s"
    "mem_st.more t = mem_st.more s" "kpgdir t = kpgdir s" "kdata t = kdata s" "cr3 t = cr3 s"
proof -
  have f: "fs_st.more t = fs_st.more s" using con_below [OF assms] by simp
  show "kmem t = kmem s" "freelist t = freelist s" "use_lock t = use_lock s" "kend t = kend s"
    "mem_st.more t = mem_st.more s" "kpgdir t = kpgdir s" "kdata t = kdata s" "cr3 t = cr3 s"
    using f by (cases s, cases t, simp)+
qed

lemma opt_acquire:
  assumes "b \<longrightarrow> thread_in L s" "L_kmem \<notin> L"
  shows "\<exists>t. kwhen b (acquire L_kmem) s = Ok () t \<and> (b \<longrightarrow> thread_in (insert L_kmem L) t)
    \<and> thread_frame s t \<and> slocks t = slocks s \<and> sleep_st.more t = sleep_st.more s"
proof (cases b)
  case True
  then obtain t where t: "acquire L_kmem s = Ok () t" "thread_in (insert L_kmem L) t"
    using acquire_in [of L s L_kmem] assms by auto
  with acquire_thread [OF t(1)] True show ?thesis by auto
qed simp

lemma opt_release:
  assumes "b \<longrightarrow> thread_in (insert L_kmem L) s" "L_kmem \<notin> L"
  shows "\<exists>t. kwhen b (release L_kmem) s = Ok () t \<and> (b \<longrightarrow> thread_in L t)
    \<and> thread_frame s t \<and> slocks t = slocks s \<and> sleep_st.more t = sleep_st.more s"
proof (cases b)
  case True
  moreover have "insert L_kmem L - {L_kmem} = L" using assms(2) by auto
  ultimately obtain t where t: "release L_kmem s = Ok () t" "thread_in L t"
    using release_in [of "insert L_kmem L" s L_kmem] assms by auto
  with release_thread [OF t(1)] True show ?thesis by auto
qed simp

lemma mem_upd_simps [simp]:
  "thread_in L (s\<lparr>kmem := m\<rparr>) = thread_in L s" "thread_in L (s\<lparr>freelist := p\<rparr>) = thread_in L s"
  "thread_frame s (t\<lparr>kmem := m\<rparr>) = thread_frame s t" "thread_frame s (t\<lparr>freelist := p\<rparr>) = thread_frame s t"
  "thread_frame (s\<lparr>kmem := m\<rparr>) t = thread_frame s t" "thread_frame (s\<lparr>freelist := p\<rparr>) t = thread_frame s t"
  by (simp_all add: thread_in_def found_def thread_frame_def cur_def split: option.split)

lemma flist_st32:
  assumes "flist m p ps" "\<forall>x \<in> set ps. x mod PGSIZE = 0" "v mod PGSIZE = 0" "v \<notin> set ps"
    "\<And>x i. x \<in> set ps \<Longrightarrow> i < 4 \<Longrightarrow> m' (unat x + i) = m (unat x + i)" "v \<noteq> 0"
  shows "flist (st32 v p m') v (v # ps)"
proof -
  have "flist (st32 v p m') p ps"
  proof (rule flist_cong [OF assms(1)])
    fix x and i :: nat assume x: "x \<in> set ps" "i < 4"
    then have "x \<noteq> v" using assms(4) by auto
    with x have "unat x + 4096 \<le> unat v \<or> unat v + 4096 \<le> unat x"
      using page_aligned [of x v] assms(2,3) by auto
    then show "st32 v p m' (unat x + i) = m (unat x + i)" using x assms(5) by (auto simp: st32_def)
  qed
  then show ?thesis using assms(6) by simp
qed

text \<open>What the allocator leaves alone: all but its lock, the free list and memory.\<close>

definition con_part :: "'x con_st_scheme \<Rightarrow> _" where
  "con_part s = (con_locking s, con_panicked s, con_buf s, con_r s, con_w s, con_e s, crt s, crt_pos s, uart_on s, uart_out s)"

definition disk_part :: "'x fs_st_scheme \<Rightarrow> _" where
  "disk_part s = (bufs s, memdisk s, disksize s, disk_writes s, lg s, icache s, fs_sb s)"

definition alloc_frame :: "'x mem_st_scheme \<Rightarrow> 'x mem_st_scheme \<Rightarrow> bool" where
  "alloc_frame s t \<longleftrightarrow> thread_frame s t \<and> slocks t = slocks s \<and> disk_part t = disk_part s \<and> con_part t = con_part s
     \<and> use_lock t = use_lock s \<and> kend t = kend s \<and> kdata t = kdata s \<and> kpgdir t = kpgdir s \<and> cr3 t = cr3 s
     \<and> mem_st.more t = mem_st.more s"

lemma alloc_frame_refl [simp]: "alloc_frame s s" by (simp add: alloc_frame_def)

lemma alloc_frame_trans [trans]: "alloc_frame s t \<Longrightarrow> alloc_frame t u \<Longrightarrow> alloc_frame s u"
  by (auto simp: alloc_frame_def intro: thread_frame_trans)

lemma alloc_frame_upd [simp]:
  "alloc_frame s (t\<lparr>kmem := m\<rparr>) = alloc_frame s t" "alloc_frame s (t\<lparr>freelist := p\<rparr>) = alloc_frame s t"
  by (simp_all add: alloc_frame_def con_part_def disk_part_def)

lemma alloc_frame_lock:
  assumes "thread_frame s t" "slocks t = slocks s" "sleep_st.more t = sleep_st.more s"
  shows "alloc_frame s t"
proof -
  have f: "fs_st.more t = fs_st.more s" using con_below [OF assms(3)] by simp
  have "con_part t = con_part s" using f by (cases s, cases t) (simp add: con_part_def)
  moreover have "disk_part t = disk_part s" using assms(3) by (simp add: disk_part_def bio_st_more log_st_more fs_st_more)
  ultimately show ?thesis using assms mem_more [OF assms(3)] by (simp add: alloc_frame_def)
qed

text \<open>\<open>kfree\<close> of a page that is not free puts it in front of the list; \<open>kalloc\<close> takes the first one.\<close>

lemma kfree_in:
  assumes inv: "alloc_inv L s ps" and v: "page_ok (kend s) v" "v \<notin> set ps"
  shows "\<exists>t. kfree v s = Ok () t \<and> alloc_inv L t (v # ps) \<and> alloc_frame s t \<and> (use_lock s \<longrightarrow> thread_in L t)
    \<and> (\<forall>a. a < unat v \<or> unat v + 4096 \<le> a \<longrightarrow> kmem t a = kmem s a)
    \<and> (\<forall>i \<in> {4..<4096}. kmem t (unat v + i) = 1)"
proof -
  note I = inv [unfolded alloc_inv_def]
  let ?m = "memset (unat v) 1 4096 (kmem s)"
  let ?s = "s\<lparr>kmem := ?m\<rparr>"
  obtain a where a: "kwhen (use_lock s) (acquire L_kmem) ?s = Ok () a"
    "use_lock s \<longrightarrow> thread_in (insert L_kmem L) a" "thread_frame ?s a" "slocks a = slocks ?s" "sleep_st.more a = sleep_st.more ?s"
    using opt_acquire [of "use_lock s" L ?s] I by auto
  note A = mem_more [OF a(5)]
  let ?b = "a\<lparr>kmem := st32 v (freelist a) (kmem a), freelist := v\<rparr>"
  have tb: "use_lock s \<longrightarrow> thread_in (insert L_kmem L) ?b" using a(2) by simp
  obtain t where t: "kwhen (use_lock s) (release L_kmem) ?b = Ok () t" "use_lock s \<longrightarrow> thread_in L t"
    "thread_frame ?b t" "slocks t = slocks ?b" "sleep_st.more t = sleep_st.more ?b"
    using opt_release [OF tb] I by auto
  note T = mem_more [OF t(5)]
  have run: "kfree v s = Ok () t"
    using v(1) a(1) t(1) A by (simp add: kfree_def page_ok_def upd_mem_def kseq_def kbind_def PGSIZE_def not_less not_le)
  have m: "kmem t = st32 v (freelist s) ?m" "freelist t = v" using T A by simp_all
  have out: "kmem t b = kmem s b" if "b < unat v \<or> unat v + 4096 \<le> b" for b
    using that by (auto simp: m st32_def memset_eval)
  have pg: "\<forall>x \<in> set ps. x mod PGSIZE = 0" using I by (auto simp: page_ok_def)
  have "flist (kmem t) v (v # ps)"
    unfolding m
  proof (rule flist_st32)
    show "flist (kmem s) (freelist s) ps" "v \<notin> set ps" "v mod PGSIZE = 0" "v \<noteq> 0" using I v by (simp_all add: page_ok_def)
    fix x and i :: nat assume x: "x \<in> set ps" "i < 4"
    then have "x \<noteq> v" using v(2) by auto
    with x have "unat x + 4096 \<le> unat v \<or> unat v + 4096 \<le> unat x"
      using page_aligned [of x v] pg v(1) by (auto simp: page_ok_def)
    then show "?m (unat x + i) = kmem s (unat x + i)" using x by (auto simp: memset_eval)
  qed (rule pg)
  then have "alloc_inv L t (v # ps)"
    using I v T A t(2) by (simp add: alloc_inv_def m)
  moreover have "alloc_frame s t"
    using alloc_frame_lock [OF a(3-5)] alloc_frame_lock [OF t(3-5)]
    by (simp add: alloc_frame_def con_part_def disk_part_def) (blast intro: thread_frame_trans)
  moreover have "\<forall>i \<in> {4..<4096}. kmem t (unat v + i) = 1"
    by (simp add: m st32_def memset_eval)
  ultimately show ?thesis using run out t(2) by blast
qed

lemma kalloc_in:
  assumes inv: "alloc_inv L s ps"
  shows "\<exists>t. kalloc s = Ok (case ps of [] \<Rightarrow> 0 | p # _ \<Rightarrow> p) t \<and> alloc_inv L t (tl ps) \<and> alloc_frame s t
    \<and> kmem t = kmem s \<and> (use_lock s \<longrightarrow> thread_in L t)"
proof -
  note I = inv [unfolded alloc_inv_def]
  obtain a where a: "kwhen (use_lock s) (acquire L_kmem) s = Ok () a"
    "use_lock s \<longrightarrow> thread_in (insert L_kmem L) a" "thread_frame s a" "slocks a = slocks s" "sleep_st.more a = sleep_st.more s"
    using opt_acquire [of "use_lock s" L s] I by auto
  note A = mem_more [OF a(5)]
  let ?b = "if freelist s = 0 then a else a\<lparr>freelist := ld32 (freelist s) (kmem s)\<rparr>"
  have tb: "use_lock s \<longrightarrow> thread_in (insert L_kmem L) ?b" using a(2) by simp
  obtain t where t: "kwhen (use_lock s) (release L_kmem) ?b = Ok () t" "use_lock s \<longrightarrow> thread_in L t"
    "thread_frame ?b t" "slocks t = slocks ?b" "sleep_st.more t = sleep_st.more ?b"
    using opt_release [OF tb] I by auto
  note T = mem_more [OF t(5)]
  have fl: "freelist s = (case ps of [] \<Rightarrow> 0 | p # _ \<Rightarrow> p)" using I flist_hd [of "kmem s" "freelist s" ps] by simp
  have ub: "use_lock ?b = use_lock s" using A by simp
  have run: "kalloc s = Ok (freelist s) t"
    using a(1) t(1) A by (cases "freelist s = 0") (simp_all add: kalloc_def kseq_def kbind_def)
  have "flist (kmem s) (freelist t) (tl ps) \<and> kmem t = kmem s"
    using I T A fl by (cases ps) auto
  then have "alloc_inv L t (tl ps)"
    using I T A t(2) by (cases ps) (auto simp: alloc_inv_def)
  moreover have "alloc_frame s t"
    using alloc_frame_lock [OF a(3-5)] alloc_frame_lock [OF t(3-5)]
    by (cases "freelist s = 0") (auto simp: alloc_frame_def con_part_def disk_part_def intro: thread_frame_trans)
  ultimately show ?thesis using run fl T A t(2) by auto
qed

text \<open>The contract of a page allocator over an abstract free list, and what follows from it.\<close>

fun allocs :: "('p, 's) kern \<Rightarrow> nat \<Rightarrow> ('p list, 's) kern" where
  "allocs alloc 0 = kret []"
| "allocs alloc (Suc n) = kbind alloc (\<lambda>p. kbind (allocs alloc n) (\<lambda>ps. kret (p # ps)))"

locale page_allocator =
  fixes inv :: "'s \<Rightarrow> 'p list \<Rightarrow> bool" and alloc :: "('p, 's) kern" and free :: "'p \<Rightarrow> (unit, 's) kern"
    and null :: 'p and good :: "'s \<Rightarrow> 'p \<Rightarrow> bool"
  assumes alloc_empty: "inv s [] \<Longrightarrow> \<exists>t. alloc s = Ok null t \<and> inv t []"
    and alloc_first: "inv s (p # ps) \<Longrightarrow> \<exists>t. alloc s = Ok p t \<and> inv t ps \<and> good t p"
    and free_first: "inv s ps \<Longrightarrow> good s p \<Longrightarrow> p \<notin> set ps \<Longrightarrow> \<exists>t. free p s = Ok () t \<and> inv t (p # ps)"
    and inv_distinct: "inv s ps \<Longrightarrow> distinct ps \<and> null \<notin> set ps"
begin

text \<open>Successive allocations return the free pages in order, so never the same page twice.\<close>

lemma allocs_prefix: "inv s (ps @ qs) \<Longrightarrow> \<exists>t. allocs alloc (length ps) s = Ok ps t \<and> inv t qs"
proof (induction ps arbitrary: s)
  case (Cons p ps)
  then obtain m where m: "alloc s = Ok p m" "inv m (ps @ qs)" using alloc_first [of s p "ps @ qs"] by auto
  obtain t where "allocs alloc (length ps) m = Ok ps t" "inv t qs" using Cons.IH [OF m(2)] by blast
  with m(1) show ?case by (auto simp: kbind_def)
qed auto

lemma allocs_distinct:
  assumes "inv s (ps @ qs)"
  shows "\<exists>t. allocs alloc (length ps) s = Ok ps t \<and> inv t qs \<and> distinct ps \<and> null \<notin> set ps \<and> set ps \<inter> set qs = {}"
  using allocs_prefix [OF assms] inv_distinct [OF assms] by auto

text \<open>A page given back is the next one handed out.\<close>

lemma free_then_alloc:
  assumes "inv s ps" "good s p" "p \<notin> set ps"
  shows "\<exists>t u. free p s = Ok () t \<and> alloc t = Ok p u \<and> inv u ps"
  using free_first [OF assms] alloc_first [of _ p ps] by blast

lemma exhaust: "inv s ps \<Longrightarrow> \<exists>t u. allocs alloc (length ps) s = Ok ps t \<and> alloc t = Ok null u \<and> inv u []"
  using allocs_prefix [of s ps "[]"] alloc_empty by fastforce

end

interpretation ka: page_allocator "alloc_inv L" kalloc kfree 0 "\<lambda>s. page_ok (kend s)" for L
proof
  fix s :: "'x mem_st_scheme" and p :: u32 and ps
  show "alloc_inv L s [] \<Longrightarrow> \<exists>t. kalloc s = Ok 0 t \<and> alloc_inv L t []"
    using kalloc_in [of L s "[]"] by auto
  show "alloc_inv L s (p # ps) \<Longrightarrow> \<exists>t. kalloc s = Ok p t \<and> alloc_inv L t ps \<and> page_ok (kend t) p"
    using kalloc_in [of L s "p # ps"] by (auto simp: alloc_inv_def alloc_frame_def)
  show "alloc_inv L s ps \<Longrightarrow> page_ok (kend s) p \<Longrightarrow> p \<notin> set ps \<Longrightarrow> \<exists>t. kfree p s = Ok () t \<and> alloc_inv L t (p # ps)"
    using kfree_in [of L s ps p] by blast
  show "alloc_inv L s ps \<Longrightarrow> distinct ps \<and> 0 \<notin> set ps"
    by (auto simp: alloc_inv_def page_ok_def)
qed

section \<open>Rounding to pages\<close>

lemma page_mask: "NOT (PGSIZE - 1) = NOT (mask 12)"
  by (simp add: PGSIZE_def mask_eq_exp_minus_1)

lemma PGROUNDDOWN_unat: "unat (PGROUNDDOWN a) = unat a div 4096 * 4096"
proof -
  have "PGROUNDDOWN a = push_bit 12 (drop_bit 12 a)"
    unfolding PGROUNDDOWN_def page_mask by (rule bit_word_eqI) (auto simp: bit_simps)
  moreover have "unat (push_bit 12 (drop_bit 12 a)) = take_bit 32 (push_bit 12 (unat (drop_bit 12 a)))"
    by (subst unsigned_push_bit_eq) simp
  moreover have "unat (drop_bit 12 a) = unat a div 4096"
    by (simp add: drop_bit_eq_div unat_div)
  moreover have "unat a div 4096 * 4096 < 2 ^ 32"
    by (rule le_less_trans [OF div_times_less_eq_dividend]) (use unsigned_less [of a] in simp)
  ultimately show ?thesis
    by (simp only: push_bit_eq_mult) (simp add: take_bit_nat_eq_self)
qed

lemma PGROUNDUP_unat:
  assumes "unat a + 4095 < 2 ^ 32"
  shows "unat (PGROUNDUP a) = (unat a + 4095) div 4096 * 4096"
proof -
  have "PGROUNDUP a = PGROUNDDOWN (a + 4095)" by (simp add: PGROUNDUP_def PGROUNDDOWN_def PGSIZE_def add.commute)
  moreover have "unat (a + 4095) = unat a + 4095" using unat_add_nowrap32 [of a 4095] assms by simp
  ultimately show ?thesis by (simp add: PGROUNDDOWN_unat)
qed

text \<open>The pages of a range are whole pages inside it.\<close>

lemma page_range_ok:
  assumes le: "kend s \<le> vstart" "unat vstart + 4096 < 2 ^ 32" "unat vend \<le> unat (P2V PHYSTOP)" "KERNBASE \<le> vstart"
  shows "distinct (page_range vstart vend)" "\<forall>p \<in> set (page_range vstart vend). page_ok (kend s) p"
    "p \<in> set (page_range vstart vend) \<longleftrightarrow> p mod PGSIZE = 0 \<and> vstart \<le> p \<and> unat p + 4096 \<le> unat vend"
proof -
  let ?p = "unat (PGROUNDUP vstart)"
  have P: "?p = (unat vstart + 4095) div 4096 * 4096" by (rule PGROUNDUP_unat) (use le(2) in simp)
  have ge: "unat vstart \<le> ?p" unfolding P by linarith
  have pt: "unat (P2V PHYSTOP) = 0x8E000000" by (simp add: P2V_def PHYSTOP_def KERNBASE_def)
  have kb: "2147483648 \<le> unat vstart" using le(4) by (simp add: KERNBASE_def word_le_nat_alt)
  have u: "unat (of_nat (?p + i * 4096) :: u32) = ?p + i * 4096" and le': "?p + i * 4096 + 4096 \<le> unat vend"
    if i: "i < (unat vend - ?p) div 4096" for i
  proof -
    have "Suc i \<le> (unat vend - ?p) div 4096" using i by simp
    then have "Suc i * 4096 \<le> (unat vend - ?p) div 4096 * 4096" by (rule mult_le_mono1)
    also have "\<dots> \<le> unat vend - ?p" by (rule div_times_less_eq_dividend)
    finally have "Suc i * 4096 \<le> unat vend - ?p" .
    then show "?p + i * 4096 + 4096 \<le> unat vend" by simp
    then show "unat (of_nat (?p + i * 4096) :: u32) = ?p + i * 4096" using le(3) pt by (intro unat_of_nat32) simp
  qed
  show "distinct (page_range vstart vend)"
    unfolding page_range_def Let_def distinct_map using u by (auto intro!: inj_onI) (metis add_left_cancel mult_right_cancel u zero_neq_numeral)
  have mem: "p \<in> set (page_range vstart vend) \<longleftrightarrow> p mod PGSIZE = 0 \<and> vstart \<le> p \<and> unat p + 4096 \<le> unat vend" for p
  proof
    assume "p \<in> set (page_range vstart vend)"
    then obtain i where i: "i < (unat vend - ?p) div 4096" "p = of_nat (?p + i * 4096)"
      by (auto simp: page_range_def Let_def)
    have "unat p = ?p + i * 4096" using u [OF i(1)] i(2) by simp
    then show "p mod PGSIZE = 0 \<and> vstart \<le> p \<and> unat p + 4096 \<le> unat vend"
      using le' [OF i(1)] ge by (simp add: PGSIZE_def word_unat_eq_iff unat_mod word_le_nat_alt) (simp add: P)
  next
    assume p: "p mod PGSIZE = 0 \<and> vstart \<le> p \<and> unat p + 4096 \<le> unat vend"
    then have m: "unat p mod 4096 = 0" and ge2: "unat vstart \<le> unat p"
      by (simp_all add: PGSIZE_def word_unat_eq_iff unat_mod word_le_nat_alt)
    then obtain k where k: "unat p = 4096 * k" by (auto simp: mod_eq_0_iff_dvd elim!: dvdE)
    have "(unat vstart + 4095) div 4096 < Suc k" by (rule less_mult_imp_div_less) (use ge2 k in simp)
    then have jk: "(unat vstart + 4095) div 4096 \<le> k" by simp
    define i where "i = k - (unat vstart + 4095) div 4096"
    have i: "unat p = ?p + i * 4096" using jk unfolding i_def P k by (simp add: diff_mult_distrib)
    have "Suc i * 4096 \<le> unat vend - ?p" using p i unfolding mult_Suc by linarith
    then have "i < (unat vend - ?p) div 4096" by (simp add: less_eq_div_iff_mult_less_eq Suc_le_eq [symmetric])
    moreover have "p = of_nat (?p + i * 4096)" unfolding i [symmetric] by simp
    ultimately show "p \<in> set (page_range vstart vend)" unfolding page_range_def Let_def by auto
  qed
  show "p \<in> set (page_range vstart vend) \<longleftrightarrow> p mod PGSIZE = 0 \<and> vstart \<le> p \<and> unat p + 4096 \<le> unat vend" by (rule mem)
  show "\<forall>p \<in> set (page_range vstart vend). page_ok (kend s) p"
  proof
    fix p assume "p \<in> set (page_range vstart vend)"
    then have p: "p mod PGSIZE = 0" "vstart \<le> p" "unat p + 4096 \<le> unat vend" by (simp_all add: mem)
    have "KERNBASE \<le> p" using p(2) le(4) by simp
    then have "unat (V2P p) = unat p - 2147483648" by (simp add: V2P_def KERNBASE_def unat_sub)
    then have "V2P p < PHYSTOP" using p(3) le(3) pt by (simp add: word_less_nat_alt PHYSTOP_def)
    moreover have "p \<noteq> 0" using \<open>KERNBASE \<le> p\<close> by (auto simp: KERNBASE_def)
    ultimately show "page_ok (kend s) p" using p le(1) by (auto simp: page_ok_def)
  qed
qed

lemma freerange_in:
  assumes "alloc_inv L s ps" "distinct (qs @ ps)" "\<forall>p \<in> set qs. page_ok (kend s) p"
  shows "\<exists>t. kfor qs kfree s = Ok () t \<and> alloc_inv L t (rev qs @ ps) \<and> alloc_frame s t"
  using assms
proof (induction qs arbitrary: s ps)
  case (Cons q qs)
  obtain m where m: "kfree q s = Ok () m" "alloc_inv L m (q # ps)" "alloc_frame s m"
    using kfree_in [OF Cons.prems(1), of q] Cons.prems(2,3) by auto
  have "kend m = kend s" using m(3) by (simp add: alloc_frame_def)
  then obtain t where "kfor qs kfree m = Ok () t" "alloc_inv L t (rev qs @ q # ps)" "alloc_frame m t"
    using Cons.IH [OF m(2)] Cons.prems(2,3) by auto
  with m show ?case by (auto simp: kseq_def kbind_def intro: alloc_frame_trans)
qed auto

lemma kinit1_in:
  assumes "freelist s = 0" and "kend s \<le> vstart" and "KERNBASE \<le> vstart" and "unat vstart + 4096 < 2 ^ 32"
    and "unat vend \<le> unat (P2V PHYSTOP)"
  shows "\<exists>t. kinit1 vstart vend s = Ok () t \<and> alloc_inv {} t (rev (page_range vstart vend))
    \<and> kend t = kend s \<and> kdata t = kdata s"
proof -
  obtain a where a: "initlock L_kmem s = Ok () a" "freelist a = freelist s" "kend a = kend s" "kdata a = kdata s"
    by (simp add: initlock_def upd_lock_def)
  let ?a = "a\<lparr>use_lock := False\<rparr>"
  have i: "alloc_inv {} ?a []" using a(2) assms(1) by (simp add: alloc_inv_def)
  have k: "kend ?a = kend s" using a(3) by simp
  note R = page_range_ok [of ?a vstart vend, unfolded k, OF assms(2,4,5,3)]
  obtain t where t: "kfor (page_range vstart vend) kfree ?a = Ok () t" "alloc_inv {} t (rev (page_range vstart vend))" "alloc_frame ?a t"
    using freerange_in [OF i, of "page_range vstart vend"] R(1,2) k by auto
  have "kinit1 vstart vend s = Ok () t" using a(1) t(1) by (simp add: kinit1_def freerange_def kseq_def kbind_def)
  then show ?thesis using t(2,3) a(3,4) by (auto simp: alloc_frame_def)
qed

text \<open>
  \<open>kinit1\<close> over a range of kernel memory above \<open>end\<close> and below \<open>PHYSTOP\<close> returns with the
  allocator managing exactly the whole pages of the range (page-aligned, from \<open>vstart\<close> on, ending
  at or before \<open>vend\<close>), each once, on the linked list in the pages themselves.
\<close>

theorem kinit1_free_pages:
  assumes "freelist s = 0" and "kend s \<le> vstart" and "KERNBASE \<le> vstart" and "unat vstart + 4096 < 2 ^ 32"
    and "unat vend \<le> unat (P2V PHYSTOP)"
  shows "\<exists>t ps. kinit1 vstart vend s = Ok () t \<and> alloc_inv {} t ps
    \<and> (\<forall>p. p \<in> set ps \<longleftrightarrow> p mod PGSIZE = 0 \<and> vstart \<le> p \<and> unat p + 4096 \<le> unat vend)"
  using kinit1_in [OF assms] page_range_ok(3) [OF assms(2,4,5,3)] by (metis set_rev)

definition demo_mem_st :: mem_st where
  "demo_mem_st = con_st.extend demo_con_st (mem_st.fields (\<lambda>_. 0) 0 False 0x80115000 0x80108000 0 0)"

theorem kinit1_free_pages_witness:
  "\<exists>t ps. kinit1 0x80115000 0x80400000 demo_mem_st = Ok () t \<and> alloc_inv {} t ps \<and> 0x80116000 \<in> set ps"
proof -
  have k: "freelist demo_mem_st = 0" "kend demo_mem_st = 0x80115000"
    by (simp_all add: demo_mem_st_def con_st.defs mem_st.defs)
  have "\<exists>t ps. kinit1 0x80115000 0x80400000 demo_mem_st = Ok () t \<and> alloc_inv {} t ps
    \<and> (\<forall>p. p \<in> set ps \<longleftrightarrow> p mod PGSIZE = 0 \<and> (0x80115000 :: u32) \<le> p \<and> unat p + 4096 \<le> unat (0x80400000 :: u32))"
    by (rule kinit1_free_pages) (simp_all add: k KERNBASE_def P2V_def PHYSTOP_def)
  then obtain t ps where t: "kinit1 0x80115000 0x80400000 demo_mem_st = Ok () t" "alloc_inv {} t ps"
    and mem: "\<And>p. p \<in> set ps \<longleftrightarrow> p mod PGSIZE = 0 \<and> (0x80115000 :: u32) \<le> p \<and> unat p + 4096 \<le> unat (0x80400000 :: u32)"
    by blast
  have "0x80116000 \<in> set ps" unfolding mem by (simp add: PGSIZE_def)
  with t show ?thesis by blast
qed

text \<open>
  C15. The allocator never hands out a page twice: from a free list \<open>ps @ qs\<close>, \<open>length ps\<close> calls of
  \<open>kalloc\<close> return the pages \<open>ps\<close> in order, all different, none of them null, and none still
  free; when the list is used up \<open>kalloc\<close> returns the null pointer.
\<close>

theorem kalloc_distinct:
  assumes "alloc_inv L s (ps @ qs)"
  shows "\<exists>t. allocs kalloc (length ps) s = Ok ps t \<and> alloc_inv L t qs \<and> distinct ps \<and> 0 \<notin> set ps
    \<and> set ps \<inter> set qs = {} \<and> (qs = [] \<longrightarrow> (\<exists>u. kalloc t = Ok 0 u))"
proof -
  obtain t where t: "allocs kalloc (length ps) s = Ok ps t" "alloc_inv L t qs" "distinct ps" "0 \<notin> set ps" "set ps \<inter> set qs = {}"
    using ka.allocs_distinct [OF assms] by blast
  have "qs = [] \<Longrightarrow> \<exists>u. kalloc t = Ok 0 u" using ka.alloc_empty [of L t] t(2) by auto
  with t show ?thesis by blast
qed

theorem kalloc_distinct_witness:
  "\<exists>s t p. kinit1 0x80115000 0x80400000 demo_mem_st = Ok () s \<and> kalloc s = Ok p t \<and> p \<noteq> 0"
proof -
  have k: "kend demo_mem_st = 0x80115000" "freelist demo_mem_st = 0" by (simp_all add: demo_mem_st_def con_st.defs mem_st.defs)
  obtain s where s: "kinit1 0x80115000 0x80400000 demo_mem_st = Ok () s" "alloc_inv {} s (rev (page_range 0x80115000 0x80400000))"
    using kinit1_in [of demo_mem_st "0x80115000" "0x80400000"] k by (auto simp: KERNBASE_def P2V_def PHYSTOP_def)
  have "(0x80116000 :: u32) \<in> set (rev (page_range 0x80115000 0x80400000))"
    using page_range_ok(3) [of demo_mem_st "0x80115000" "0x80400000"] k by (simp add: KERNBASE_def P2V_def PHYSTOP_def PGSIZE_def)
  then obtain p qs where p: "rev (page_range 0x80115000 0x80400000) = [p :: u32] @ qs"
    by (cases "rev (page_range 0x80115000 0x80400000)") auto
  from kalloc_distinct [of "{}" s "[p]" qs] s(2) p obtain t where "allocs kalloc 1 s = Ok [p] t" "p \<noteq> 0" by auto
  then have "\<exists>u. kalloc s = Ok p u" by (auto simp: kbind_def split: res.splits)
  with s(1) \<open>p \<noteq> 0\<close> show ?thesis by blast
qed

end
