(* ===== verification/Vm.thy ===== *)
theory Vm
  imports Kalloc
begin

text \<open>
  Virtual memory (\<open>vm.c\<close>, \<open>mmu.h\<close>): page tables in physical memory, user address spaces built,
  grown, copied and freed, and copies to user memory.  A page table is the address of its page
  directory; \<open>0\<close> is the null pointer.  The CPU's own translation through the page table in
  \<open>cr3\<close>, which kernel code that reads user memory directly relies on, is \<open>mmu_addr\<close>.
  Segment descriptors and the task state segment are hardware and are left out.
\<close>

section \<open>Addresses and entries\<close>

definition NPDENTRIES :: nat where [const_defs]: "NPDENTRIES = 1024"
definition PTE_P :: u32 where [const_defs]: "PTE_P = 0x001"
definition PTE_W :: u32 where [const_defs]: "PTE_W = 0x002"
definition PTE_U :: u32 where [const_defs]: "PTE_U = 0x004"

definition PDX :: "u32 \<Rightarrow> u32" where "PDX va = drop_bit 22 va AND 0x3FF"
definition PTX :: "u32 \<Rightarrow> u32" where "PTX va = drop_bit 12 va AND 0x3FF"

definition PGADDR :: "u32 \<Rightarrow> u32 \<Rightarrow> u32 \<Rightarrow> u32" where
  "PGADDR d t off = push_bit 22 d OR push_bit 12 t OR off"

definition PTE_ADDR :: "u32 \<Rightarrow> u32" where "PTE_ADDR pte = pte AND NOT 0xFFF"
definition PTE_FLAGS :: "u32 \<Rightarrow> u32" where "PTE_FLAGS pte = pte AND 0xFFF"

definition rd32 :: "u32 \<Rightarrow> (u32, 'x mem_st_scheme) kern" where
  "rd32 a = kget (\<lambda>s. ld32 a (kmem s))"

definition wr32 :: "u32 \<Rightarrow> u32 \<Rightarrow> (unit, 'x mem_st_scheme) kern" where
  "wr32 a v = upd_mem (st32 a v)"

text \<open>Bytes copied to or from kernel memory, as \<open>memmove\<close> with a buffer on the other side does.\<close>

definition st_bytes :: "nat \<Rightarrow> u8 list \<Rightarrow> mem \<Rightarrow> mem" where
  "st_bytes a bs m = (\<lambda>b. if a \<le> b \<and> b < a + length bs then bs ! (b - a) else m b)"

definition ld_bytes :: "nat \<Rightarrow> nat \<Rightarrow> mem \<Rightarrow> u8 list" where
  "ld_bytes a n m = map (\<lambda>i. m (a + i)) [0..<n]"

section \<open>Page tables\<close>

definition walkpgdir :: "u32 \<Rightarrow> u32 \<Rightarrow> bool \<Rightarrow> (u32, 'x mem_st_scheme) kern" where
  "walkpgdir pgdir va alloc =
     (let pde = pgdir + 4 * PDX va in
      kbind (rd32 pde) (\<lambda>e.
      if e AND PTE_P \<noteq> 0 then kret (P2V (PTE_ADDR e) + 4 * PTX va)
      else if \<not> alloc then kret 0
      else
        kbind kalloc (\<lambda>pgtab.
        if pgtab = 0 then kret 0
        else
          kseq (upd_mem (memset (unat pgtab) 0 (unat PGSIZE))) (
          kseq (wr32 pde (V2P pgtab OR PTE_P OR PTE_W OR PTE_U))
               (kret (pgtab + 4 * PTX va))))))"

text \<open>The loop of \<open>mappages\<close> from page \<open>a\<close> on, with \<open>n\<close> more pages after it up to \<open>last\<close>.\<close>

fun mappages_loop :: "u32 \<Rightarrow> u32 \<Rightarrow> u32 \<Rightarrow> u32 \<Rightarrow> nat \<Rightarrow> (int, 'x mem_st_scheme) kern" where
  "mappages_loop pgdir a pa perm n =
     kbind (walkpgdir pgdir a True) (\<lambda>pte.
     if pte = 0 then kret (-1)
     else
       kbind (rd32 pte) (\<lambda>e.
       if e AND PTE_P \<noteq> 0 then kpanic ''remap''
       else
         kseq (wr32 pte (pa OR perm OR PTE_P)) (
         case n of
           0 \<Rightarrow> kret 0
         | Suc k \<Rightarrow> mappages_loop pgdir (a + PGSIZE) (pa + PGSIZE) perm k)))"

declare mappages_loop.simps [simp del]

definition mappages :: "u32 \<Rightarrow> u32 \<Rightarrow> u32 \<Rightarrow> u32 \<Rightarrow> u32 \<Rightarrow> (int, 'x mem_st_scheme) kern" where
  "mappages pgdir va sz pa perm =
     (let a = PGROUNDDOWN va; last = PGROUNDDOWN (va + sz - 1)
      in mappages_loop pgdir a pa perm (unat (last - a) div 4096))"

text \<open>The loop of \<open>deallocuvm\<close>: the fuel \<open>2 ^ 20\<close>, the number of pages of the address space, is
  enough because \<open>a\<close> goes up by a page at least; it runs out only when \<open>a\<close> wraps around, where
  the loop of the code does not end either.\<close>

definition pgdir_next :: "u32 \<Rightarrow> u32" where
  "pgdir_next a = PGADDR (PDX a + 1) 0 0 - PGSIZE"

fun deallocuvm_loop :: "u32 \<Rightarrow> u32 \<Rightarrow> u32 \<Rightarrow> nat \<Rightarrow> (unit, 'x mem_st_scheme) kern" where
  "deallocuvm_loop pgdir oldsz a 0 = (if a < oldsz then kspin else kret ())"
| "deallocuvm_loop pgdir oldsz a (Suc fuel) =
     (if a < oldsz then
        kbind (walkpgdir pgdir a False) (\<lambda>pte.
        if pte = 0 then deallocuvm_loop pgdir oldsz (pgdir_next a + PGSIZE) fuel
        else
          kbind (rd32 pte) (\<lambda>e.
          if e AND PTE_P \<noteq> 0 then
            if PTE_ADDR e = 0 then kpanic ''kfree''
            else
              kseq (kfree (P2V (PTE_ADDR e))) (
              kseq (wr32 pte 0)
                   (deallocuvm_loop pgdir oldsz (a + PGSIZE) fuel))
          else deallocuvm_loop pgdir oldsz (a + PGSIZE) fuel))
      else kret ())"

definition deallocuvm :: "u32 \<Rightarrow> u32 \<Rightarrow> u32 \<Rightarrow> (u32, 'x mem_st_scheme) kern" where
  "deallocuvm pgdir oldsz newsz =
     (if oldsz \<le> newsz then kret oldsz
      else kseq (deallocuvm_loop pgdir oldsz (PGROUNDUP newsz) (2 ^ 20)) (kret newsz))"

definition freevm :: "u32 \<Rightarrow> (unit, 'x mem_st_scheme) kern" where
  "freevm pgdir =
     (if pgdir = 0 then kpanic ''freevm: no pgdir''
      else
        kseq (deallocuvm pgdir KERNBASE 0) (
        kseq (kfor [0..<NPDENTRIES] (\<lambda>i.
          kbind (rd32 (pgdir + 4 * of_nat i)) (\<lambda>e.
          kwhen (e AND PTE_P \<noteq> 0) (kfree (P2V (PTE_ADDR e))))))
             (kfree pgdir)))"

record kmap =
  km_virt :: u32
  km_start :: u32
  km_end :: u32
  km_perm :: u32

text \<open>The table of kernel mappings; \<open>data\<close> is the linker's symbol.\<close>

definition kmap_table :: "u32 \<Rightarrow> kmap list" where
  "kmap_table data =
     [\<lparr>km_virt = KERNBASE, km_start = 0, km_end = EXTMEM, km_perm = PTE_W\<rparr>,
      \<lparr>km_virt = KERNLINK, km_start = V2P KERNLINK, km_end = V2P data, km_perm = 0\<rparr>,
      \<lparr>km_virt = data, km_start = V2P data, km_end = PHYSTOP, km_perm = PTE_W\<rparr>,
      \<lparr>km_virt = DEVSPACE, km_start = DEVSPACE, km_end = 0, km_perm = PTE_W\<rparr>]"

definition setupkvm :: "(u32, 'x mem_st_scheme) kern" where
  "setupkvm =
     kbind kalloc (\<lambda>pgdir.
     if pgdir = 0 then kret 0
     else
       kseq (upd_mem (memset (unat pgdir) 0 (unat PGSIZE))) (
       if DEVSPACE < P2V PHYSTOP then kpanic ''PHYSTOP too high''
       else
         kbind (kget kdata) (\<lambda>data.
         kbind (kloop (kmap_table data) (\<lambda>k.
           kbind (mappages pgdir (km_virt k) (km_end k - km_start k) (km_start k) (km_perm k)) (\<lambda>r.
           if r < 0 then kseq (freevm pgdir) (kret (Some 0)) else kret None))) (\<lambda>r.
         case r of Some v \<Rightarrow> kret v | None \<Rightarrow> kret pgdir))))"

definition switchkvm :: "(unit, 'x mem_st_scheme) kern" where
  "switchkvm = kmod (\<lambda>s. s\<lparr>cr3 := V2P (kpgdir s)\<rparr>)"

definition kvmalloc :: "(unit, 'x mem_st_scheme) kern" where
  "kvmalloc = kbind setupkvm (\<lambda>d. kseq (kmod (\<lambda>s. s\<lparr>kpgdir := d\<rparr>)) switchkvm)"

text \<open>\<open>switchuvm\<close> without the task state segment it fills in.\<close>

definition switchuvm :: "nat option \<Rightarrow> (unit, 'x mem_st_scheme) kern" where
  "switchuvm p =
     (case p of
        None \<Rightarrow> kpanic ''switchuvm: no process''
      | Some i \<Rightarrow>
          kbind (kget (\<lambda>s. ptable s i)) (\<lambda>r.
          if p_kstack r = 0 then kpanic ''switchuvm: no kstack''
          else if p_pgdir r = 0 then kpanic ''switchuvm: no pgdir''
          else
            kseq pushcli (
            kbind mycpu (\<lambda>c.
            kseq (kmod (\<lambda>s. s\<lparr>cr3 := V2P (p_pgdir r)\<rparr>))
                 popcli))))"

section \<open>User memory\<close>

text \<open>\<open>inituvm\<close> does not check \<open>kalloc\<close>: without memory it writes through the null pointer.\<close>

definition inituvm :: "u32 \<Rightarrow> u8 list \<Rightarrow> (unit, 'x mem_st_scheme) kern" where
  "inituvm pgdir init =
     (if 4096 \<le> length init then kpanic ''inituvm: more than a page''
      else
        kbind kalloc (\<lambda>m.
        if m = 0 then kundef
        else
          kseq (upd_mem (memset (unat m) 0 (unat PGSIZE))) (
          kbind (mappages pgdir 0 PGSIZE (V2P m) (PTE_W OR PTE_U)) (\<lambda>r.
          upd_mem (st_bytes (unat m) init)))))"

text \<open>The page offsets \<open>0, PGSIZE, ...\<close> below \<open>sz\<close>.\<close>

definition page_offsets :: "u32 \<Rightarrow> u32 list" where
  "page_offsets sz = map (\<lambda>k. of_nat (k * 4096)) [0..<(unat sz + 4095) div 4096]"

definition loaduvm ::
  "(nat \<Rightarrow> 'x mem_st_scheme devsw) \<Rightarrow> u32 \<Rightarrow> u32 \<Rightarrow> nat \<Rightarrow> u32 \<Rightarrow> u32 \<Rightarrow> (int, 'x mem_st_scheme) kern" where
  "loaduvm devsw pgdir addr ip offset sz =
     (if addr mod PGSIZE \<noteq> 0 then kpanic ''loaduvm: addr must be page aligned''
      else
        kbind (kloop (page_offsets sz) (\<lambda>i.
          kbind (walkpgdir pgdir (addr + i) False) (\<lambda>pte.
          if pte = 0 then kpanic ''loaduvm: address should exist''
          else
            kbind (rd32 pte) (\<lambda>e.
            let n = (if sz - i < PGSIZE then sz - i else PGSIZE) in
            kbind (readi devsw ip (offset + i) n) (\<lambda>(k, bs).
            kseq (upd_mem (st_bytes (unat (P2V (PTE_ADDR e))) bs))
                 (kret (if k \<noteq> uint n then Some (-1) else None))))))) (\<lambda>r.
        case r of Some v \<Rightarrow> kret v | None \<Rightarrow> kret 0))"

definition allocuvm :: "u32 \<Rightarrow> u32 \<Rightarrow> u32 \<Rightarrow> (u32, 'x mem_st_scheme) kern" where
  "allocuvm pgdir oldsz newsz =
     (if KERNBASE \<le> newsz then kret 0
      else if newsz < oldsz then kret oldsz
      else
        let a0 = PGROUNDUP oldsz in
        kbind (kloop (map (\<lambda>i. a0 + i) (if a0 < newsz then page_offsets (newsz - a0) else [])) (\<lambda>a.
          kbind kalloc (\<lambda>m.
          if m = 0 then
            kseq (printk (''allocuvm out of memory'' @ [CHR 0x0A]) []) (
            kbind (deallocuvm pgdir newsz oldsz) (\<lambda>_.
            kret (Some 0)))
          else
            kseq (upd_mem (memset (unat m) 0 (unat PGSIZE))) (
            kbind (mappages pgdir a PGSIZE (V2P m) (PTE_W OR PTE_U)) (\<lambda>r.
            if r < 0 then
              kseq (printk (''allocuvm out of memory (2)'' @ [CHR 0x0A]) []) (
              kbind (deallocuvm pgdir newsz oldsz) (\<lambda>_.
              kseq (kfree m) (kret (Some 0))))
            else kret None))))) (\<lambda>r.
        case r of Some v \<Rightarrow> kret v | None \<Rightarrow> kret newsz))"

definition clearpteu :: "u32 \<Rightarrow> u32 \<Rightarrow> (unit, 'x mem_st_scheme) kern" where
  "clearpteu pgdir uva =
     kbind (walkpgdir pgdir uva False) (\<lambda>pte.
     if pte = 0 then kpanic ''clearpteu''
     else kbind (rd32 pte) (\<lambda>e. wr32 pte (e AND NOT PTE_U)))"

definition copyuvm :: "u32 \<Rightarrow> u32 \<Rightarrow> (u32, 'x mem_st_scheme) kern" where
  "copyuvm pgdir sz =
     kbind setupkvm (\<lambda>d.
     if d = 0 then kret 0
     else
       kbind (kloop (page_offsets sz) (\<lambda>i.
         kbind (walkpgdir pgdir i False) (\<lambda>pte.
         if pte = 0 then kpanic ''copyuvm: pte should exist''
         else
           kbind (rd32 pte) (\<lambda>e.
           if e AND PTE_P = 0 then kpanic ''copyuvm: page not present''
           else
             kbind kalloc (\<lambda>m.
             if m = 0 then kret (Some ())
             else
               kseq (upd_mem (memmove (unat m) (unat (P2V (PTE_ADDR e))) (unat PGSIZE))) (
               kbind (mappages d i PGSIZE (V2P m) (PTE_FLAGS e)) (\<lambda>r.
               if r < 0 then kseq (kfree m) (kret (Some ())) else kret None))))))) (\<lambda>bad.
       case bad of
         Some _ \<Rightarrow> kseq (freevm d) (kret 0)
       | None \<Rightarrow> kret d))"

text \<open>\<open>uva2ka\<close> reads the entry without a test for the null pointer.\<close>

definition uva2ka :: "u32 \<Rightarrow> u32 \<Rightarrow> (u32, 'x mem_st_scheme) kern" where
  "uva2ka pgdir uva =
     kbind (walkpgdir pgdir uva False) (\<lambda>pte.
     if pte = 0 then kundef
     else
       kbind (rd32 pte) (\<lambda>e.
       if e AND PTE_P = 0 then kret 0
       else if e AND PTE_U = 0 then kret 0
       else kret (P2V (PTE_ADDR e))))"

text \<open>The pieces of \<open>copyout\<close>: the user address, the position in the buffer and the length of each;
  no piece crosses a page boundary.\<close>

function pieces :: "nat \<Rightarrow> nat \<Rightarrow> nat \<Rightarrow> (nat \<times> nat \<times> nat) list" where
  "pieces va pos len =
     (if len = 0 then []
      else (va, pos, min len (4096 - va mod 4096))
        # pieces (va + min len (4096 - va mod 4096)) (pos + min len (4096 - va mod 4096))
            (len - min len (4096 - va mod 4096)))"
  by pat_completeness auto

termination by (relation "measure (\<lambda>(va, pos, len). len)") (auto simp: min_def)

declare pieces.simps [simp del]

definition copyout :: "u32 \<Rightarrow> u32 \<Rightarrow> u8 list \<Rightarrow> (int, 'x mem_st_scheme) kern" where
  "copyout pgdir va buf =
     kbind (kloop (pieces (unat va) 0 (length buf)) (\<lambda>(v, pos, n).
       let va = of_nat v; va0 = PGROUNDDOWN va in
       kbind (uva2ka pgdir va0) (\<lambda>pa0.
       if pa0 = 0 then kret (Some (-1))
       else
         kseq (upd_mem (st_bytes (unat (pa0 + (va - va0))) (bslice pos n buf)))
              (kret None)))) (\<lambda>r.
     case r of Some v \<Rightarrow> kret v | None \<Rightarrow> kret 0)"

section \<open>Counting pages (xv6-public_3)\<close>

definition NPTENTRIES :: nat where [const_defs]: "NPTENTRIES = 1024"

definition pgtab_count :: "mem \<Rightarrow> u32 \<Rightarrow> nat" where
  "pgtab_count m pgtab =
     length (filter (\<lambda>j. ld32 (pgtab + 4 * of_nat j) m AND PTE_P \<noteq> 0) [0..<NPTENTRIES])"

definition countphysicalpages :: "u32 \<Rightarrow> (int, 'x mem_st_scheme) kern" where
  "countphysicalpages pgdir =
     kget (\<lambda>s. int (sum_list (map (\<lambda>i.
       let e = ld32 (pgdir + 4 * of_nat i) (kmem s) in
       if e AND PTE_P \<noteq> 0 then pgtab_count (kmem s) (P2V (PTE_ADDR e)) else 0) [0..<512])))"

section \<open>The processor's translation\<close>

text \<open>The kernel address of the byte a supervisor access to \<open>va\<close> reaches through the page table in
  \<open>cr3\<close>; \<open>None\<close> is a page fault.  \<open>need\<close> are the flags both entries must have: \<open>PTE_P\<close>, and
  \<open>PTE_W\<close> for a write (\<open>CR0_WP\<close> is on).\<close>

definition mmu_addr :: "mem \<Rightarrow> u32 \<Rightarrow> u32 \<Rightarrow> u32 \<Rightarrow> u32 option" where
  "mmu_addr m pgd need va =
     (let e = ld32 (pgd + 4 * PDX va) m in
      if e AND need \<noteq> need then None
      else
        let f = ld32 (P2V (PTE_ADDR e) + 4 * PTX va) m in
        if f AND need \<noteq> need then None
        else Some (P2V (PTE_ADDR f) + (va AND 0xFFF)))"

definition user_byte :: "'x mem_st_scheme \<Rightarrow> u32 \<Rightarrow> u8 option" where
  "user_byte s va = map_option (\<lambda>a. kmem s (unat a)) (mmu_addr (kmem s) (P2V (cr3 s)) PTE_P va)"

text \<open>A read of \<open>n\<close> bytes of user memory by kernel code; a page fault in the kernel is a panic in
  \<open>trap\<close>.\<close>

fun user_bytes :: "u32 \<Rightarrow> nat \<Rightarrow> (u8 list, 'x mem_st_scheme) kern" where
  "user_bytes va 0 = kret []"
| "user_bytes va (Suc n) =
     kbind (kget (\<lambda>s. user_byte s va)) (\<lambda>b.
     case b of
       None \<Rightarrow> kpanic ''trap''
     | Some c \<Rightarrow> kbind (user_bytes (va + 1) n) (\<lambda>cs. kret (c # cs)))"

text \<open>And a write.\<close>

fun user_store :: "u32 \<Rightarrow> u8 list \<Rightarrow> (unit, 'x mem_st_scheme) kern" where
  "user_store va [] = kret ()"
| "user_store va (c # cs) =
     kbind (kget (\<lambda>s. mmu_addr (kmem s) (P2V (cr3 s)) (PTE_P OR PTE_W) va)) (\<lambda>a.
     case a of
       None \<Rightarrow> kpanic ''trap''
     | Some k \<Rightarrow> kseq (upd_mem (\<lambda>m. m(unat k := c))) (user_store (va + 1) cs))"

end
