(* ===== verification/Paging.thy ===== *)
theory Paging
  imports Vm
begin

text \<open>
  What the page tables of \<open>vm.c\<close> mean: the walk of \<open>walkpgdir\<close> and \<open>uva2ka\<close> against the
  processor's translation \<open>mmu_addr\<close>, the bytes a walk reads, the copy to user memory of
  \<open>copyout\<close>, and the page \<open>mappages\<close> adds to an address space.
\<close>


section \<open>Pages and offsets\<close>

lemma page_bits: "PGROUNDDOWN a = a AND NOT 0xFFF" "PTE_ADDR a = PGROUNDDOWN a"
  by (simp_all add: PGROUNDDOWN_def PGSIZE_def PTE_ADDR_def)

lemma low12: "(a :: u32) AND 0xFFF = take_bit 12 a"
  by (simp add: take_bit_eq_mask mask_eq_exp_minus_1)

lemma unat_low12: "unat ((a :: u32) AND 0xFFF) = unat a mod 4096"
  unfolding low12 by (simp add: unsigned_take_bit_eq take_bit_nat_def)

lemma low12_of_PGROUNDDOWN: "a - PGROUNDDOWN a = a AND 0xFFF"
proof -
  have "unat (PGROUNDDOWN a) \<le> unat a" by (simp add: PGROUNDDOWN_unat)
  then have "unat (a - PGROUNDDOWN a) = unat a mod 4096"
    by (simp add: unat_sub word_le_nat_alt PGROUNDDOWN_unat minus_div_mult_eq_mod)
  then show ?thesis by (simp add: word_unat_eq_iff unat_low12)
qed

lemma mask10: "(0x3FF :: u32) = mask 10"
  by (simp add: mask_eq_exp_minus_1)

lemma PDX_PGROUNDDOWN [simp]: "PDX (PGROUNDDOWN a) = PDX a"
  unfolding PDX_def PGROUNDDOWN_def page_mask mask10 by (rule bit_word_eqI) (auto simp: bit_simps)

lemma PTX_PGROUNDDOWN [simp]: "PTX (PGROUNDDOWN a) = PTX a"
  unfolding PTX_def PGROUNDDOWN_def page_mask mask10 by (rule bit_word_eqI) (auto simp: bit_simps)

lemma PTE_ADDR_mod: "unat (P2V (PTE_ADDR e)) mod 4096 = 0"
proof -
  have "unat (P2V x) mod 4096 = (unat x + 2147483648) mod 4096" for x
    by (simp add: P2V_def KERNBASE_def unat_word_ariths mod_mod_cancel)
  then show ?thesis by (simp add: page_bits(2) PGROUNDDOWN_unat mod_add_eq [symmetric, of _ 2147483648])
qed

lemma P2V_page: "unat (P2V (PTE_ADDR e) + (a AND 0xFFF)) = unat (P2V (PTE_ADDR e)) + unat a mod 4096"
proof -
  obtain k where k: "unat (P2V (PTE_ADDR e)) = 4096 * k"
    using PTE_ADDR_mod by (metis mod_eq_0_iff_dvd dvdE)
  have "unat (P2V (PTE_ADDR e)) < 2 ^ 32" using unsigned_less [of "P2V (PTE_ADDR e)"] by simp
  then have "4096 * k < 4096 * 1048576" using k by simp
  then have "k \<le> 1048575" by simp
  moreover have "unat a mod 4096 < 4096" by simp
  ultimately have "unat (P2V (PTE_ADDR e)) + unat a mod 4096 < 2 ^ 32" using k by simp
  then show ?thesis by (simp add: unat_word_ariths unat_low12)
qed

section \<open>What a walk reads\<close>

text \<open>The two entries a walk for \<open>va\<close> reads, and the bytes they occupy.\<close>

definition pde_at :: "u32 \<Rightarrow> u32 \<Rightarrow> u32" where "pde_at d va = d + 4 * PDX va"

definition pte_at :: "mem \<Rightarrow> u32 \<Rightarrow> u32 \<Rightarrow> u32" where
  "pte_at m d va = P2V (PTE_ADDR (ld32 (pde_at d va) m)) + 4 * PTX va"

definition walk_bytes :: "mem \<Rightarrow> u32 \<Rightarrow> u32 \<Rightarrow> nat set" where
  "walk_bytes m d va = {unat (pde_at d va)..<unat (pde_at d va) + 4} \<union> {unat (pte_at m d va)..<unat (pte_at m d va) + 4}"

definition PTE_PU :: u32 where [const_defs]: "PTE_PU = PTE_P OR PTE_U"

lemma walk_cong:
  assumes "\<And>b. b \<in> walk_bytes m d va \<Longrightarrow> m' b = m b"
  shows "ld32 (pde_at d va) m' = ld32 (pde_at d va) m" "pte_at m' d va = pte_at m d va"
    "ld32 (pte_at m d va) m' = ld32 (pte_at m d va) m" "walk_bytes m' d va = walk_bytes m d va"
    "mmu_addr m' d need va = mmu_addr m d need va"
proof -
  show 1: "ld32 (pde_at d va) m' = ld32 (pde_at d va) m"
    by (rule ld32_cong) (auto intro!: assms simp: walk_bytes_def)
  show 2: "pte_at m' d va = pte_at m d va" by (simp add: pte_at_def 1)
  show 3: "ld32 (pte_at m d va) m' = ld32 (pte_at m d va) m"
    by (rule ld32_cong) (auto intro!: assms simp: walk_bytes_def)
  show "walk_bytes m' d va = walk_bytes m d va" by (simp add: walk_bytes_def 2)
  show "mmu_addr m' d need va = mmu_addr m d need va"
    using 1 3 by (simp add: mmu_addr_def pde_at_def pte_at_def Let_def)
qed

lemma walkpgdir_look:
  "walkpgdir d va False s = Ok (if ld32 (pde_at d va) (kmem s) AND PTE_P \<noteq> 0 then pte_at (kmem s) d va else 0) s"
  by (simp add: walkpgdir_def pde_at_def pte_at_def rd32_def kbind_def Let_def)

lemma and_sub: "(e :: u32) AND n = n \<Longrightarrow> n AND p = p \<Longrightarrow> e AND p = p"
  by (metis and.assoc and.commute)

lemma and_single: "(e :: u32) AND push_bit n 1 = (if bit e n then push_bit n 1 else 0)"
  by (rule bit_word_eqI) (auto simp: bit_simps)

lemma pte_flag_bits:
  "(e :: u32) AND PTE_P = (if bit e 0 then 1 else 0)" "e AND PTE_W = (if bit e 1 then 2 else 0)"
  "e AND PTE_U = (if bit e 2 then 4 else 0)"
  using and_single [of e 0] and_single [of e 1] and_single [of e 2]
  by (simp_all add: PTE_P_def PTE_W_def PTE_U_def)

lemma PU_bits: "(e :: u32) AND PTE_PU = PTE_PU \<longleftrightarrow> bit e 0 \<and> bit e 2"
proof
  assume "e AND PTE_PU = PTE_PU"
  then have "e AND PTE_P = PTE_P" "e AND PTE_U = PTE_U"
    by (auto elim!: and_sub simp: PTE_PU_def PTE_P_def PTE_U_def)
  then show "bit e 0 \<and> bit e 2" by (simp add: pte_flag_bits) (simp add: PTE_P_def PTE_U_def split: if_splits)
next
  assume "bit e 0 \<and> bit e 2"
  then have "e AND PTE_P = PTE_P" "e AND PTE_U = PTE_U" by (simp_all add: pte_flag_bits) (simp_all add: PTE_P_def PTE_U_def)
  then show "e AND PTE_PU = PTE_PU" by (simp add: PTE_PU_def bit.conj_disj_distrib)
qed

text \<open>A user address that user code can reach, and the kernel address of its byte.  (Neither null
  pointer the kernel tests for occurs: tables and frames are below 2 GB.)\<close>

definition frame_at :: "mem \<Rightarrow> u32 \<Rightarrow> u32 \<Rightarrow> u32" where
  "frame_at m d va = P2V (PTE_ADDR (ld32 (pte_at m d va) m))"

definition user_ok :: "mem \<Rightarrow> u32 \<Rightarrow> u32 \<Rightarrow> bool" where
  "user_ok m d va \<longleftrightarrow> mmu_addr m d PTE_PU va \<noteq> None \<and> pte_at m d va \<noteq> 0 \<and> frame_at m d va \<noteq> 0"

definition kaddr :: "mem \<Rightarrow> u32 \<Rightarrow> u32 \<Rightarrow> nat" where
  "kaddr m d va = unat (frame_at m d va) + unat va mod 4096"

definition apart :: "mem \<Rightarrow> u32 \<Rightarrow> u32 set \<Rightarrow> bool" where
  "apart m d A \<longleftrightarrow> (\<forall>u \<in> A. \<forall>v \<in> A. kaddr m d u \<notin> walk_bytes m d v) \<and> inj_on (kaddr m d) A"

lemma mmu_addr_alt:
  "mmu_addr m d need va =
     (if ld32 (pde_at d va) m AND need = need \<and> ld32 (pte_at m d va) m AND need = need
      then Some (frame_at m d va + (va AND 0xFFF)) else None)"
  by (simp add: mmu_addr_def frame_at_def pte_at_def pde_at_def Let_def)

lemma user_ok_alt:
  "user_ok m d va \<longleftrightarrow> bit (ld32 (pde_at d va) m) 0 \<and> bit (ld32 (pde_at d va) m) 2
     \<and> bit (ld32 (pte_at m d va) m) 0 \<and> bit (ld32 (pte_at m d va) m) 2 \<and> pte_at m d va \<noteq> 0 \<and> frame_at m d va \<noteq> 0"
  by (auto simp: user_ok_def mmu_addr_alt PU_bits)

lemma unat_kaddr: "unat (frame_at m d va + (va AND 0xFFF)) = kaddr m d va"
  by (simp add: kaddr_def frame_at_def P2V_page)

lemma same_page:
  assumes "PGROUNDDOWN u = PGROUNDDOWN v"
  shows "pde_at d u = pde_at d v" "pte_at m d u = pte_at m d v" "frame_at m d u = frame_at m d v"
    "user_ok m d u = user_ok m d v" "walk_bytes m d u = walk_bytes m d v"
proof -
  have x: "PDX u = PDX v" "PTX u = PTX v" using assms by (metis PDX_PGROUNDDOWN, metis PTX_PGROUNDDOWN)
  then show "pde_at d u = pde_at d v" "pte_at m d u = pte_at m d v" "frame_at m d u = frame_at m d v"
     "user_ok m d u = user_ok m d v" "walk_bytes m d u = walk_bytes m d v"
    by (simp_all add: pde_at_def pte_at_def frame_at_def user_ok_alt walk_bytes_def)
qed

lemma PGROUNDDOWN_idem [simp]: "PGROUNDDOWN (PGROUNDDOWN a) = PGROUNDDOWN a"
  by (simp add: word_unat_eq_iff PGROUNDDOWN_unat)

lemma uva2ka_look:
  assumes "ld32 (pde_at d va) (kmem s) AND PTE_P \<noteq> 0" "pte_at (kmem s) d va \<noteq> 0"
  shows "uva2ka d va s =
    Ok (if bit (ld32 (pte_at (kmem s) d va) (kmem s)) 0 \<and> bit (ld32 (pte_at (kmem s) d va) (kmem s)) 2
        then frame_at (kmem s) d va else 0) s"
  using assms by (simp add: uva2ka_def walkpgdir_look kbind_def rd32_def frame_at_def pte_flag_bits(1,3))

lemma walk_cong_user:
  assumes "\<And>b. b \<in> walk_bytes m d va \<Longrightarrow> m' b = m b"
  shows "user_ok m' d va = user_ok m d va" "frame_at m' d va = frame_at m d va" "kaddr m' d va = kaddr m d va"
  using walk_cong [OF assms] by (simp_all add: user_ok_alt frame_at_def kaddr_def)

text \<open>Copying byte \<open>i\<close> of \<open>bs\<close> to address \<open>f i\<close>, for all \<open>i < n\<close>, and nothing else.\<close>

definition copied :: "mem \<Rightarrow> mem \<Rightarrow> (nat \<Rightarrow> nat) \<Rightarrow> u8 list \<Rightarrow> nat \<Rightarrow> bool" where
  "copied m m' f bs n \<longleftrightarrow> (\<forall>i < n. m' (f i) = bs ! i) \<and> (\<forall>k. (\<forall>i < n. f i \<noteq> k) \<longrightarrow> m' k = m k)"

lemma copied_cong:
  "(\<And>i. i < n \<Longrightarrow> f i = g i) \<Longrightarrow> copied m m' f bs n = copied m m' g bs n"
  by (simp add: copied_def)

lemma copied_append:
  assumes "copied m m1 f bs a" "copied m1 m2 (\<lambda>i. f (a + i)) (drop a bs) b"
    and "inj_on f {..<a + b}" "a + b \<le> length bs"
  shows "copied m m2 f bs (a + b)"
  unfolding copied_def
proof (intro conjI allI impI)
  fix i assume i: "i < a + b"
  show "m2 (f i) = bs ! i"
  proof (cases "i < a")
    case True
    have "f (a + j) \<noteq> f i" if "j < b" for j
      using assms(3) that True i by (auto dest!: inj_onD)
    then have "m2 (f i) = m1 (f i)" using assms(2) by (auto simp: copied_def)
    then show ?thesis using assms(1) True by (auto simp: copied_def)
  next
    case False
    then obtain j where "i = a + j" "j < b" using i by (metis add_less_cancel_left le_Suc_ex not_less)
    then show ?thesis using assms(2,4) by (auto simp: copied_def)
  qed
next
  fix k assume k: "\<forall>i < a + b. f i \<noteq> k"
  have "m2 k = m1 k" using assms(2) k by (auto simp: copied_def)
  moreover have "m1 k = m k" using assms(1) k by (auto simp: copied_def)
  ultimately show "m2 k = m k" by simp
qed


section \<open>copyout\<close>

definition copyout_piece :: "u32 \<Rightarrow> u8 list \<Rightarrow> nat \<times> nat \<times> nat \<Rightarrow> (int option, 'x mem_st_scheme) kern" where
  "copyout_piece pgdir buf = (\<lambda>(v, pos, n).
       let va = of_nat v; va0 = PGROUNDDOWN va in
       kbind (uva2ka pgdir va0) (\<lambda>pa0.
       if pa0 = 0 then kret (Some (-1))
       else
         kseq (upd_mem (st_bytes (unat (pa0 + (va - va0))) (bslice pos n buf)))
              (kret None)))"

lemma copyout_alt:
  "copyout d va buf =
     kbind (kloop (pieces (unat va) 0 (length buf)) (copyout_piece d buf)) (\<lambda>r. case r of Some v \<Rightarrow> kret v | None \<Rightarrow> kret 0)"
  unfolding copyout_def copyout_piece_def ..

lemma copyout_piece_ok:
  assumes "v < 2 ^ 32" "user_ok (kmem s) d (of_nat v)"
  shows "copyout_piece d buf (v, pos, n) s =
    Ok None (s\<lparr>kmem := st_bytes (kaddr (kmem s) d (of_nat v)) (bslice pos n buf) (kmem s)\<rparr>)"
proof -
  let ?v = "of_nat v :: u32"
  have p: "ld32 (pde_at d ?v) (kmem s) AND PTE_P \<noteq> 0" "pte_at (kmem s) d ?v \<noteq> 0"
    using assms(2) by (auto simp: user_ok_alt pte_flag_bits)
  have "uva2ka d (PGROUNDDOWN ?v) s = Ok (frame_at (kmem s) d ?v) s"
    using uva2ka_look [of d "PGROUNDDOWN ?v" s] p assms(2) same_page [of "PGROUNDDOWN ?v" ?v]
    by (simp add: user_ok_alt)
  then show ?thesis
    using assms(2) by (simp add: copyout_piece_def kbind_def kseq_def upd_mem_def Let_def user_ok_alt
        low12_of_PGROUNDDOWN unat_kaddr)
qed

lemma unat_of_nat_lt: "n < 2 ^ 32 \<Longrightarrow> unat (of_nat n :: u32) = n"
  by (simp add: unsigned_of_nat take_bit_nat_eq_self)

lemma same_page_of_nat:
  assumes "v + j < 2 ^ 32" "v mod 4096 + j < 4096"
  shows "PGROUNDDOWN (of_nat (v + j)) = PGROUNDDOWN (of_nat v)" 
    "unat (of_nat (v + j) :: u32) mod 4096 = v mod 4096 + j"
proof -
  have e: "v + j = (v mod 4096 + j) + 4096 * (v div 4096)" using mult_div_mod_eq [of 4096 v] by simp
  have "(v + j) div 4096 = v div 4096" "(v + j) mod 4096 = v mod 4096 + j"
    unfolding e div_mult_self2 [OF zero_neq_numeral [symmetric]] mod_mult_self2 using assms(2) by simp_all
  moreover have "unat (of_nat (v + j) :: u32) = v + j" by (rule unat_of_nat_lt) (use assms(1) in simp)
  moreover have "unat (of_nat v :: u32) = v" by (rule unat_of_nat_lt) (use assms(1) in simp)
  ultimately show "PGROUNDDOWN (of_nat (v + j)) = PGROUNDDOWN (of_nat v)"
    "unat (of_nat (v + j) :: u32) mod 4096 = v mod 4096 + j"
    unfolding word_unat_eq_iff PGROUNDDOWN_unat by (simp_all del: of_nat_add)
qed

lemma kaddr_in_page:
  assumes "v + j < 2 ^ 32" "v mod 4096 + j < 4096"
  shows "kaddr m d (of_nat (v + j)) = kaddr m d (of_nat v) + j"
proof -
  have "unat (of_nat v :: u32) = v" using assms(1) by (simp add: unat_of_nat)
  then show ?thesis
    using same_page_of_nat [OF assms] same_page(3) [OF same_page_of_nat(1) [OF assms]] by (simp add: kaddr_def)
qed


text \<open>Writing bytes of \<open>A\<close> leaves every walk for \<open>A\<close> as it was.\<close>

lemma apart_cong:
  assumes "apart m d A" "\<And>a b. a \<in> A \<Longrightarrow> b \<in> walk_bytes m d a \<Longrightarrow> m' b = m b"
  shows "apart m' d A" "a \<in> A \<Longrightarrow> user_ok m' d a = user_ok m d a" "a \<in> A \<Longrightarrow> kaddr m' d a = kaddr m d a"
    "a \<in> A \<Longrightarrow> walk_bytes m' d a = walk_bytes m d a"
proof -
  have k: "user_ok m' d a = user_ok m d a" "kaddr m' d a = kaddr m d a" "walk_bytes m' d a = walk_bytes m d a" if "a \<in> A" for a
    using walk_cong_user [of m d a m'] walk_cong(4) [of m d a m'] assms(2) that by auto
  then show "a \<in> A \<Longrightarrow> user_ok m' d a = user_ok m d a" "a \<in> A \<Longrightarrow> kaddr m' d a = kaddr m d a"
    "a \<in> A \<Longrightarrow> walk_bytes m' d a = walk_bytes m d a" by auto
  show "apart m' d A" using assms(1) k by (auto simp: apart_def inj_on_def)
qed

lemma copyout_loop:
  assumes "v + len \<le> 2 ^ 32" "pos + len \<le> length buf" "apart (kmem s) d A"
    and "\<And>i. i < len \<Longrightarrow> of_nat (v + i) \<in> A \<and> user_ok (kmem s) d (of_nat (v + i))"
  shows "\<exists>m'. kloop (pieces v pos len) (copyout_piece d buf) s = Ok None (s\<lparr>kmem := m'\<rparr>)
    \<and> copied (kmem s) m' (\<lambda>i. kaddr (kmem s) d (of_nat (v + i))) (drop pos buf) len
    \<and> (\<forall>a \<in> A. \<forall>b \<in> walk_bytes (kmem s) d a. m' b = kmem s b)"
  using assms
proof (induction v pos len arbitrary: s rule: pieces.induct)
  case (1 v pos len)
  show ?case
  proof (cases "len = 0")
    case True
    then show ?thesis by (intro exI [of _ "kmem s"]) (simp add: pieces.simps copied_def)
  next
    case False
    define n where "n = min len (4096 - v mod 4096)"
    have "v mod 4096 < 4096" by simp
    then have n: "0 < n" "n \<le> len" "v mod 4096 + n \<le> 4096" using False by (auto simp: n_def)
    let ?m = "kmem s" let ?f = "\<lambda>i. kaddr (kmem s) d (of_nat (v + i))"
    let ?m1 = "st_bytes (kaddr ?m d (of_nat v)) (bslice pos n buf) ?m"
    let ?s1 = "s\<lparr>kmem := ?m1\<rparr>"
    have f: "?f j = kaddr ?m d (of_nat v) + j" if "j < n" for j
      by (rule kaddr_in_page) (use that n 1(2) in auto)
    have run: "copyout_piece d buf (v, pos, n) s = Ok None ?s1"
      by (rule copyout_piece_ok) (use 1(2) 1(5) [of 0] False in auto)
    have lb: "length (bslice pos n buf) = n" using n 1(3) by simp
    have c1: "copied ?m ?m1 ?f (drop pos buf) n"
      unfolding copied_def st_bytes_def lb
    proof (intro conjI allI impI)
      fix i assume "i < n"
      then show "(if kaddr ?m d (of_nat v) \<le> ?f i \<and> ?f i < kaddr ?m d (of_nat v) + n
          then bslice pos n buf ! (?f i - kaddr ?m d (of_nat v)) else ?m (?f i)) = drop pos buf ! i"
        using n 1(3) by (simp add: f nth_bslice del: of_nat_add)
    next
      fix k assume k: "\<forall>i<n. ?f i \<noteq> k"
      have "\<not> (kaddr ?m d (of_nat v) \<le> k \<and> k < kaddr ?m d (of_nat v) + n)"
      proof
        assume a: "kaddr ?m d (of_nat v) \<le> k \<and> k < kaddr ?m d (of_nat v) + n"
        then have "k - kaddr ?m d (of_nat v) < n" by auto
        with k f a show False by fastforce
      qed
      then show "(if kaddr ?m d (of_nat v) \<le> k \<and> k < kaddr ?m d (of_nat v) + n
          then bslice pos n buf ! (k - kaddr ?m d (of_nat v)) else ?m k) = ?m k" by (rule if_not_P)
    qed
    have w1: "?m1 b = ?m b" if "a \<in> A" "b \<in> walk_bytes ?m d a" for a b
    proof -
      have "?f i \<noteq> b" if "i < n" for i
        using 1(4) 1(5) [of i] \<open>a \<in> A\<close> \<open>b \<in> _\<close> that n by (auto simp: apart_def simp del: of_nat_add)
      then show ?thesis using c1 by (auto simp: copied_def)
    qed
    have C: "apart ?m1 d A" "\<And>a. a \<in> A \<Longrightarrow> user_ok ?m1 d a = user_ok ?m d a"
      "\<And>a. a \<in> A \<Longrightarrow> kaddr ?m1 d a = kaddr ?m d a" "\<And>a. a \<in> A \<Longrightarrow> walk_bytes ?m1 d a = walk_bytes ?m d a"
      using apart_cong [of ?m d A ?m1, OF 1(4)] w1 by blast+
    obtain m' where m': "kloop (pieces (v + n) (pos + n) (len - n)) (copyout_piece d buf) ?s1 = Ok None (s\<lparr>kmem := m'\<rparr>)"
      "copied ?m1 m' (\<lambda>i. kaddr ?m1 d (of_nat (v + n + i))) (drop (pos + n) buf) (len - n)"
      "\<forall>a \<in> A. \<forall>b \<in> walk_bytes ?m1 d a. m' b = ?m1 b"
    proof -
      have "\<exists>m'. kloop (pieces (v + n) (pos + n) (len - n)) (copyout_piece d buf) ?s1 = Ok None (?s1\<lparr>kmem := m'\<rparr>)
        \<and> copied (kmem ?s1) m' (\<lambda>i. kaddr (kmem ?s1) d (of_nat (v + n + i))) (drop (pos + n) buf) (len - n)
        \<and> (\<forall>a \<in> A. \<forall>b \<in> walk_bytes (kmem ?s1) d a. m' b = kmem ?s1 b)"
      proof (rule 1(1) [OF False, folded n_def])
        show "v + n + (len - n) \<le> 2 ^ 32" "pos + n + (len - n) \<le> length buf" using 1(2,3) n by auto
        show "apart (kmem ?s1) d A" using C(1) by simp
        fix i assume "i < len - n"
        then show "of_nat (v + n + i) \<in> A \<and> user_ok (kmem ?s1) d (of_nat (v + n + i))"
          using 1(5) [of "n + i"] C(2) n by (simp add: add.assoc)
      qed
      then show ?thesis using that by auto
    qed
    have "kaddr ?m1 d (of_nat (v + n + i)) = ?f (n + i)" if "i < len - n" for i
      using C(3) [of "of_nat (v + (n + i))"] 1(5) [of "n + i"] that by (simp add: add.assoc)
    then have c2: "copied ?m1 m' (\<lambda>i. ?f (n + i)) (drop n (drop pos buf)) (len - n)"
      using m'(2) copied_cong [of "len - n" "\<lambda>i. kaddr ?m1 d (of_nat (v + n + i))" "\<lambda>i. ?f (n + i)" ?m1 m']
      by (simp add: drop_drop add.commute [of n pos])
    have "inj_on ?f {..<n + (len - n)}"
    proof (rule inj_onI)
      fix i j assume ij: "i \<in> {..<n + (len - n)}" "j \<in> {..<n + (len - n)}" "?f i = ?f j"
      then have "(of_nat (v + i) :: u32) = of_nat (v + j)"
        using 1(4) 1(5) [of i] 1(5) [of j] n by (auto simp: apart_def dest: inj_onD simp del: of_nat_add)
      moreover have "v + i < 2 ^ 32" "v + j < 2 ^ 32" using ij 1(2) n by auto
      ultimately show "i = j" by (metis add_left_cancel unat_of_nat_lt)
    qed
    then have "copied ?m m' ?f (drop pos buf) (n + (len - n))"
      using copied_append [OF c1 c2] 1(3) n by simp
    moreover have "kloop (pieces v pos len) (copyout_piece d buf) s = Ok None (s\<lparr>kmem := m'\<rparr>)"
      using False run m'(1) by (subst pieces.simps) (simp add: n_def [symmetric] kbind_def)
    moreover have "\<forall>a \<in> A. \<forall>b \<in> walk_bytes ?m d a. m' b = ?m b"
      using m'(3) w1 C(4) by auto
    ultimately show ?thesis using n by auto
  qed
qed


text \<open>The byte user code reads at \<open>va\<close>, if it may.\<close>

definition user_view :: "mem \<Rightarrow> u32 \<Rightarrow> u32 \<Rightarrow> u8 option" where
  "user_view m d va = map_option (\<lambda>a. m (unat a)) (mmu_addr m d PTE_PU va)"

lemma user_view_ok: "user_ok m d va \<Longrightarrow> user_view m d va = Some (m (kaddr m d va))"
  by (auto simp: user_view_def user_ok_def mmu_addr_alt unat_kaddr split: if_splits)

lemma copyout_in:
  assumes "unat va + length buf \<le> 2 ^ 32" "apart (kmem s) d A"
    and "\<And>i. i < length buf \<Longrightarrow> va + of_nat i \<in> A \<and> user_ok (kmem s) d (va + of_nat i)"
  shows "\<exists>m'. copyout d va buf s = Ok 0 (s\<lparr>kmem := m'\<rparr>)
    \<and> copied (kmem s) m' (\<lambda>i. kaddr (kmem s) d (va + of_nat i)) buf (length buf)
    \<and> (\<forall>a \<in> A. \<forall>b \<in> walk_bytes (kmem s) d a. m' b = kmem s b)"
  using copyout_loop [of "unat va" "length buf" 0 buf s d A] assms
  by (auto simp: copyout_alt kbind_def)

lemma copied_view:
  assumes "copied m m' (\<lambda>i. kaddr m d (va + of_nat i)) buf n" "\<forall>a \<in> A. \<forall>b \<in> walk_bytes m d a. m' b = m b"
    and "va + of_nat i \<in> A" "user_ok m d (va + of_nat i)" "i < n"
  shows "user_view m' d (va + of_nat i) = Some (buf ! i)"
proof -
  have "user_ok m' d (va + of_nat i) = user_ok m d (va + of_nat i)" "kaddr m' d (va + of_nat i) = kaddr m d (va + of_nat i)"
    using walk_cong_user [of m d "va + of_nat i" m'] assms(2,3) by auto
  then show ?thesis using user_view_ok [of m' d "va + of_nat i"] assms by (simp add: copied_def)
qed

text \<open>
  C16. What the kernel copies out is what the process reads: when the bytes of the range are
  mapped for user access (and lie neither in the page tables of the walk nor twice in memory),
  \<open>copyout\<close> returns 0, afterwards a user access to byte \<open>i\<close> of the range, translated by the
  processor through the page table, gives byte \<open>i\<close> of the buffer, wherever the range crosses
  pages, and no other byte of memory and no other part of the state has changed.
\<close>

theorem copyout_reaches_user:
  assumes "unat va + length buf \<le> 2 ^ 32" "apart (kmem s) d {va + of_nat i | i. i < length buf}"
    and "\<forall>i < length buf. user_ok (kmem s) d (va + of_nat i)"
  shows "\<exists>m'. copyout d va buf s = Ok 0 (s\<lparr>kmem := m'\<rparr>)
    \<and> (\<forall>i < length buf. user_view m' d (va + of_nat i) = Some (buf ! i))
    \<and> (\<forall>k. (\<forall>i < length buf. kaddr (kmem s) d (va + of_nat i) \<noteq> k) \<longrightarrow> m' k = kmem s k)"
proof -
  let ?A = "{va + of_nat i | i. i < length buf}"
  obtain m' where m': "copyout d va buf s = Ok 0 (s\<lparr>kmem := m'\<rparr>)"
    "copied (kmem s) m' (\<lambda>i. kaddr (kmem s) d (va + of_nat i)) buf (length buf)"
    "\<forall>a \<in> ?A. \<forall>b \<in> walk_bytes (kmem s) d a. m' b = kmem s b"
    using copyout_in [OF assms(1,2)] assms(3) by blast
  have "user_view m' d (va + of_nat i) = Some (buf ! i)" if "i < length buf" for i
    by (rule copied_view [OF m'(2,3)]) (use that assms(3) in auto)
  with m' show ?thesis by (auto simp: copied_def)
qed

text \<open>A process with the user pages 0 and 1.\<close>

definition demo_user_mem :: mem where
  "demo_user_mem = st32 0x80400000 0x401007 (st32 0x80401000 0x402007 (st32 0x80401004 0x403007 (\<lambda>_. 0)))"

lemma demo_walk:
  "ld32 0x80400000 demo_user_mem = 0x401007" "ld32 0x80401000 demo_user_mem = 0x402007"
  "ld32 0x80401004 demo_user_mem = 0x403007"
  by (simp_all add: demo_user_mem_def ld32_st32_other)

lemma demo_pages:
  "pde_at 0x80400000 0xFFE = 0x80400000" "pde_at 0x80400000 0xFFF = 0x80400000" 
  "pde_at 0x80400000 0x1000 = 0x80400000"
  "pte_at demo_user_mem 0x80400000 0xFFE = 0x80401000" "pte_at demo_user_mem 0x80400000 0xFFF = 0x80401000" 
  "pte_at demo_user_mem 0x80400000 0x1000 = 0x80401004"
  by (simp_all add: pde_at_def pte_at_def PDX_def PTX_def demo_walk P2V_def PTE_ADDR_def KERNBASE_def)

lemma demo_user_ok:
  "user_ok demo_user_mem 0x80400000 0xFFE" "user_ok demo_user_mem 0x80400000 0xFFF" "user_ok demo_user_mem 0x80400000 0x1000"
  "kaddr demo_user_mem 0x80400000 0xFFE = 0x80402FFE" "kaddr demo_user_mem 0x80400000 0xFFF = 0x80402FFF"
  "kaddr demo_user_mem 0x80400000 0x1000 = 0x80403000"
  by (simp_all add: user_ok_alt kaddr_def demo_pages demo_walk frame_at_def P2V_def PTE_ADDR_def KERNBASE_def)

lemma demo_apart: "apart demo_user_mem 0x80400000 {0xFFE, 0xFFF, 0x1000}"
  by (simp add: apart_def walk_bytes_def demo_pages demo_user_ok)


theorem copyout_reaches_user_witness:
  "\<exists>m'. copyout 0x80400000 0xFFE [7, 8, 9] (demo_mem_st\<lparr>kmem := demo_user_mem\<rparr>) = Ok 0 (demo_mem_st\<lparr>kmem := m'\<rparr>)
    \<and> user_view m' 0x80400000 0x1000 = Some 9 \<and> m' 0x80403001 = 0"
proof -
  define b where "b = [7, 8, 9 :: u8]"
  let ?s = "demo_mem_st\<lparr>kmem := demo_user_mem\<rparr>"
  have lt3: "i < 3 \<longleftrightarrow> i = 0 \<or> i = 1 \<or> i = 2" for i :: nat by auto
  have len: "length b = 3" by (simp add: b_def)
  have "{0xFFE + of_nat i | i. i < length b} = (\<lambda>i. 0xFFE + of_nat i :: u32) ` {0, 1, 2}"
    unfolding len lt3 by blast
  also have "\<dots> = {0xFFE, 0xFFF, 0x1000}" by simp
  finally have "\<exists>m'. copyout 0x80400000 0xFFE b ?s = Ok 0 (?s\<lparr>kmem := m'\<rparr>)
    \<and> (\<forall>i < length b. user_view m' 0x80400000 (0xFFE + of_nat i) = Some (b ! i))
    \<and> (\<forall>k. (\<forall>i < length b. kaddr (kmem ?s) 0x80400000 (0xFFE + of_nat i) \<noteq> k) \<longrightarrow> m' k = kmem ?s k)"
    by (intro copyout_reaches_user) (auto simp: demo_apart demo_user_ok lt3 len)
  then obtain m' where m': "copyout 0x80400000 0xFFE b ?s = Ok 0 (?s\<lparr>kmem := m'\<rparr>)"
    "\<forall>i < length b. user_view m' 0x80400000 (0xFFE + of_nat i) = Some (b ! i)"
    "\<forall>k. (\<forall>i < length b. kaddr demo_user_mem 0x80400000 (0xFFE + of_nat i) \<noteq> k) \<longrightarrow> m' k = demo_user_mem k" by auto
  have "m' 0x80403001 = demo_user_mem 0x80403001" using m'(3) unfolding len by (auto simp: lt3 demo_user_ok)
  then have "m' 0x80403001 = 0" by (simp add: demo_user_mem_def st32_def)
  moreover have "user_view m' 0x80400000 0x1000 = Some 9" using m'(2) [rule_format, of 2] by (simp add: b_def)
  ultimately show ?thesis using m'(1) by (auto simp: b_def)
qed

section \<open>Adding a page to an address space\<close>

text \<open>The page table a directory entry refers to, and page tables in order: the directory and the
  tables are different pages, and none of them is free.\<close>

definition pde_word :: "mem \<Rightarrow> u32 \<Rightarrow> u32 \<Rightarrow> u32" where "pde_word m d i = ld32 (d + 4 * i) m"

definition table_of :: "mem \<Rightarrow> u32 \<Rightarrow> u32 \<Rightarrow> u32" where "table_of m d i = P2V (PTE_ADDR (pde_word m d i))"

definition PTE_PWU :: u32 where [const_defs]: "PTE_PWU = PTE_P OR PTE_W OR PTE_U"

definition pt_ok :: "mem \<Rightarrow> u32 \<Rightarrow> u32 set \<Rightarrow> bool" where
  "pt_ok m d F \<longleftrightarrow> d mod PGSIZE = 0 \<and> d \<notin> F \<and> (\<forall>i < 1024. bit (pde_word m d i) 0 \<longrightarrow>
     pde_word m d i AND PTE_PWU = PTE_PWU \<and> table_of m d i \<noteq> d \<and> table_of m d i \<notin> F \<and> table_of m d i \<noteq> 0
     \<and> (\<forall>j < 1024. j \<noteq> i \<longrightarrow> bit (pde_word m d j) 0 \<longrightarrow> table_of m d j \<noteq> table_of m d i))"

lemma unat_mask10: "unat ((a :: u32) AND mask 10) < 1024"
  by (simp add: take_bit_eq_mask [symmetric] unsigned_take_bit_eq take_bit_nat_def)

lemma PDX_less: "PDX va < 1024" and PTX_less: "PTX va < 1024"
  using unat_mask10 by (simp_all add: PDX_def PTX_def mask10 word_less_nat_alt)

lemma page_mult: "(p :: u32) mod PGSIZE = 0 \<Longrightarrow> \<exists>k \<le> 1048575. unat p = 4096 * k"
proof -
  assume "p mod PGSIZE = 0"
  then have "unat p mod 4096 = 0" by (simp add: PGSIZE_def word_unat_eq_iff unat_mod)
  then obtain k where k: "unat p = 4096 * k" by (auto simp: mod_eq_0_iff_dvd elim: dvdE)
  have "unat p < 2 ^ 32" using unsigned_less [of p] by simp
  then show ?thesis using k by (intro exI [of _ k]) simp
qed

lemma entry_unat:
  fixes p i :: u32
  assumes "p mod PGSIZE = 0" "i < 1024"
  shows "unat (p + 4 * i) = unat p + 4 * unat i"
proof -
  obtain k where k: "k \<le> 1048575" "unat p = 4096 * k" using page_mult [OF assms(1)] by blast
  have i: "unat i < 1024" using assms(2) by (simp add: word_less_nat_alt)
  then have "unat (4 * i) = 4 * unat i" by (simp add: unat_word_ariths)
  then show ?thesis using k i by (simp add: unat_word_ariths)
qed

lemma entries_apart:
  fixes p q i j :: u32
  assumes "p mod PGSIZE = 0" "q mod PGSIZE = 0" "i < 1024" "j < 1024" "p \<noteq> q \<or> i \<noteq> j"
  shows "unat (p + 4 * i) + 4 \<le> unat (q + 4 * j) \<or> unat (q + 4 * j) + 4 \<le> unat (p + 4 * i)"
proof -
  have ij: "unat i < 1024" "unat j < 1024" using assms(3,4) by (simp_all add: word_less_nat_alt)
  show ?thesis
  proof (cases "p = q")
    case True
    then have "unat i \<noteq> unat j" using assms(5) by (simp add: word_unat_eq_iff)
    then show ?thesis using True assms by (auto simp: entry_unat)
  next
    case False
    then show ?thesis using page_aligned [OF assms(1,2)] assms ij by (auto simp: entry_unat)
  qed
qed

lemma entry_in_page:
  fixes p i :: u32
  assumes "p mod PGSIZE = 0" "i < 1024" "unat (p + 4 * i) \<le> b" "b < unat (p + 4 * i) + 4"
  shows "unat p \<le> b \<and> b < unat p + 4096"
  using assms by (simp add: entry_unat word_less_nat_alt)

lemma P2V_V2P [simp]: "P2V (V2P p) = p" "V2P (P2V p) = p"
  by (simp_all add: P2V_def V2P_def)

lemma page_split: "PGROUNDDOWN a = push_bit 22 (PDX a) OR push_bit 12 (PTX a)"
  unfolding PGROUNDDOWN_def page_mask PDX_def PTX_def mask10
proof (rule bit_word_eqI)
  fix n assume "n < LENGTH(32)"
  then show "bit (a AND NOT (mask 12)) n
    = bit (push_bit 22 (drop_bit 22 a AND mask 10) OR push_bit 12 (drop_bit 12 a AND mask 10)) n"
    by (cases "n < 22") (auto simp: bit_simps)
qed

lemma same_page_iff: "PGROUNDDOWN u = PGROUNDDOWN v \<longleftrightarrow> PDX u = PDX v \<and> PTX u = PTX v"
  using page_split [of u] page_split [of v] by (metis PDX_PGROUNDDOWN PTX_PGROUNDDOWN)

lemma PTE_ADDR_page [simp]: "PTE_ADDR e mod PGSIZE = 0" "P2V (PTE_ADDR e) mod PGSIZE = 0"
  using PTE_ADDR_mod [of e] by (simp_all add: word_unat_eq_iff unat_mod PGSIZE_def page_bits(2) PGROUNDDOWN_unat)

lemma PTE_ADDR_id: "p mod PGSIZE = 0 \<Longrightarrow> PTE_ADDR p = p"
  using page_mult [of p] by (auto simp: page_bits(2) word_unat_eq_iff PGROUNDDOWN_unat)

lemma PTE_ADDR_flags:
  assumes "p mod PGSIZE = 0" "f < 4096"
  shows "PTE_ADDR (p OR f) = p"
proof -
  have "f AND NOT 0xFFF = 0"
  proof -
    have "PGROUNDDOWN f = 0" using assms(2) by (simp add: word_unat_eq_iff PGROUNDDOWN_unat word_less_nat_alt)
    then show ?thesis by (simp add: page_bits(1))
  qed
  then show ?thesis using PTE_ADDR_id [OF assms(1)] by (simp add: PTE_ADDR_def bit.conj_disj_distrib2)
qed

lemma V2P_P2V: "V2P p = P2V p"
proof -
  have "p - KERNBASE = p + KERNBASE - (KERNBASE + KERNBASE)" by simp
  also have "KERNBASE + KERNBASE = 0" by (simp add: KERNBASE_def)
  finally show ?thesis by (simp add: V2P_def P2V_def)
qed

lemma V2P_page: "p mod PGSIZE = 0 \<Longrightarrow> V2P p mod PGSIZE = 0"
  using PTE_ADDR_page(2) [of p] by (simp add: PTE_ADDR_id V2P_P2V)

text \<open>What a store to one entry does to the other entries.\<close>

lemma pde_word_at: "ld32 (pde_at d va) m = pde_word m d (PDX va)" and
  pte_at_table: "pte_at m d va = table_of m d (PDX va) + 4 * PTX va"
  by (simp_all add: pde_at_def pde_word_def pte_at_def table_of_def)

lemma table_page [simp]: "table_of m d i mod PGSIZE = 0"
  by (simp add: table_of_def)

lemma entry_store:
  assumes "p mod PGSIZE = 0" "q mod PGSIZE = 0" "i < 1024" "j < 1024"
  shows "ld32 (p + 4 * i) (st32 (q + 4 * j) e m) = (if p = q \<and> i = j then e else ld32 (p + 4 * i) m)"
  using entries_apart [OF assms] by (auto intro: ld32_st32_other)

text \<open>The processor's translation in terms of entries.\<close>

lemma mmu_addr_tables:
  "mmu_addr m d need va =
     (let e = pde_word m d (PDX va); f = ld32 (table_of m d (PDX va) + 4 * PTX va) m
      in if e AND need = need \<and> f AND need = need then Some (P2V (PTE_ADDR f) + (va AND 0xFFF)) else None)"
  by (simp add: mmu_addr_alt pde_word_at frame_at_def pte_at_table Let_def)

lemma need_present: "e AND need = need \<Longrightarrow> need AND PTE_P = PTE_P \<Longrightarrow> bit e 0"
  using and_sub [of e need PTE_P] unfolding pte_flag_bits(1) by (simp add: PTE_P_def split: if_splits)

text \<open>A store to the page table entry of \<open>va\<close> changes the translation of its page only.\<close>

lemma pte_store:
  fixes e :: u32
  assumes pt: "pt_ok m d F" and P: "bit (pde_word m d (PDX va)) 0" and need: "need AND PTE_P = PTE_P"
    and m': "m' = st32 (pte_at m d va) e m"
  shows "pt_ok m' d F"
    and "mmu_addr m' d need v =
      (if PGROUNDDOWN v = PGROUNDDOWN va
       then if pde_word m d (PDX va) AND need = need \<and> e AND need = need then Some (P2V (PTE_ADDR e) + (v AND 0xFFF)) else None
       else mmu_addr m d need v)"
    and "i < 1024 \<Longrightarrow> pde_word m' d i = pde_word m d i"
proof -
  let ?t = "table_of m d (PDX va)"
  have d: "d mod PGSIZE = 0" "?t \<noteq> d" using pt P PDX_less by (auto simp: pt_ok_def)
  have w: "pde_word m' d i = pde_word m d i" if "i < 1024" for i
    using entry_store [of d ?t i "PTX va" e m] d that PTX_less by (simp add: pde_word_def m' pte_at_table)
  then show "i < 1024 \<Longrightarrow> pde_word m' d i = pde_word m d i" by simp
  have t: "table_of m' d i = table_of m d i" if "i < 1024" for i using w that by (simp add: table_of_def)
  show "pt_ok m' d F" using pt w t by (auto simp: pt_ok_def)
  have f: "ld32 (table_of m d (PDX v) + 4 * PTX v) m' =
      (if table_of m d (PDX v) = ?t \<and> PTX v = PTX va then e else ld32 (table_of m d (PDX v) + 4 * PTX v) m)"
    unfolding m' pte_at_table by (rule entry_store) (simp_all add: PTX_less)
  have f': "ld32 (?t + 4 * PTX va) m' = e" by (simp add: m' pte_at_table)
  show "mmu_addr m' d need v =
      (if PGROUNDDOWN v = PGROUNDDOWN va
       then if pde_word m d (PDX va) AND need = need \<and> e AND need = need then Some (P2V (PTE_ADDR e) + (v AND 0xFFF)) else None
       else mmu_addr m d need v)"
  proof (cases "bit (pde_word m d (PDX v)) 0")
    case True
    then have "table_of m d (PDX v) = ?t \<longleftrightarrow> PDX v = PDX va" using pt P PDX_less by (auto simp: pt_ok_def)
    then show ?thesis
      by (cases "PDX v = PDX va \<and> PTX v = PTX va") (auto simp: mmu_addr_tables w t PDX_less f f' same_page_iff Let_def)
  next
    case False
    then have "PDX v \<noteq> PDX va" "pde_word m d (PDX v) AND need \<noteq> need" using P need_present [OF _ need] by auto
    then show ?thesis by (simp add: mmu_addr_tables w t PDX_less same_page_iff Let_def)
  qed
qed


text \<open>A fresh zeroed page as page table for the region of \<open>va\<close> changes no translation.\<close>

lemma ld32_memset0:
  assumes "q mod PGSIZE = 0" "j < 1024"
  shows "ld32 (q + 4 * j) (memset (unat q) 0 4096 m) = 0"
proof -
  have "memset (unat q) 0 4096 m (unat (q + 4 * j) + i) = 0" if "i < 4" for i
    using entry_in_page [OF assms, of "unat (q + 4 * j) + i"] that by (simp add: memset_eval)
  then have "ld32 (q + 4 * j) (memset (unat q) 0 4096 m) = word32 (replicate 4 0)"
    unfolding ld32_def by (intro arg_cong [where f = word32] nth_equalityI) simp_all
  then show ?thesis by (simp add: word32_def numeral_eq_Suc)
qed

lemma ld32_memset_other:
  assumes "p mod PGSIZE = 0" "q mod PGSIZE = 0" "j < 1024" "p \<noteq> q"
  shows "ld32 (p + 4 * j) (memset (unat q) c 4096 m) = ld32 (p + 4 * j) m"
proof (rule ld32_cong)
  fix i :: nat assume "i < 4"
  then have "unat p \<le> unat (p + 4 * j) + i" "unat (p + 4 * j) + i < unat p + 4096"
    using entry_in_page [OF assms(1,3), of "unat (p + 4 * j) + i"] by auto
  then show "memset (unat q) c 4096 m (unat (p + 4 * j) + i) = m (unat (p + 4 * j) + i)"
    using page_aligned [OF assms(1,2,4)] by (auto simp: memset_eval)
qed

lemma new_table:
  assumes pt: "pt_ok m d F" and P: "\<not> bit (pde_word m d (PDX va)) 0"
    and q: "q mod PGSIZE = 0" "q \<noteq> 0" "q \<in> F" and need: "need AND PTE_P = PTE_P"
    and m': "m' = st32 (pde_at d va) (V2P q OR PTE_PWU) (memset (unat q) 0 4096 m)"
  shows "pt_ok m' d (F - {q})" "pde_word m' d (PDX va) = V2P q OR PTE_PWU"
    "pte_at m' d va = q + 4 * PTX va" "ld32 (q + 4 * PTX va) m' = 0"
    "mmu_addr m' d need v = mmu_addr m d need v"
    "i < 1024 \<Longrightarrow> pde_word m' d i = (if i = PDX va then V2P q OR PTE_PWU else pde_word m d i)"
proof -
  have d: "d mod PGSIZE = 0" "d \<noteq> q" using pt q by (auto simp: pt_ok_def)
  have w: "pde_word m' d i = (if i = PDX va then V2P q OR PTE_PWU else pde_word m d i)" if "i < 1024" for i
    using that d q
    by (simp add: pde_word_def m' pde_at_def entry_store PDX_less ld32_memset_other)
  show wva: "pde_word m' d (PDX va) = V2P q OR PTE_PWU" by (simp add: w PDX_less)
  show "i < 1024 \<Longrightarrow> pde_word m' d i = (if i = PDX va then V2P q OR PTE_PWU else pde_word m d i)" by (rule w)
  have fl: "PTE_PWU < 4096" by (simp add: PTE_PWU_def PTE_P_def PTE_W_def PTE_U_def)
  have t: "table_of m' d i = (if i = PDX va then q else table_of m d i)" if "i < 1024" for i
    using that PTE_ADDR_flags [OF V2P_page [OF q(1)] fl] by (simp add: table_of_def w)
  show "pte_at m' d va = q + 4 * PTX va" by (simp add: pte_at_table t PDX_less)
  have old: "ld32 (p + 4 * j) m' = ld32 (p + 4 * j) m"
    if "p mod PGSIZE = 0" "j < 1024" "p \<noteq> d" "p \<noteq> q" for p j
    using that d q by (simp add: m' pde_at_def entry_store PDX_less ld32_memset_other)
  show z: "ld32 (q + 4 * PTX va) m' = 0"
    using d q by (simp add: m' pde_at_def entry_store PDX_less PTX_less ld32_memset0)
  have z': "ld32 (q + 4 * j) m' = 0" if "j < 1024" for j
    using d q that by (simp add: m' pde_at_def entry_store PDX_less PTX_less ld32_memset0)
  have T: "table_of m d i \<noteq> d" "table_of m d i \<noteq> q" if "i < 1024" "bit (pde_word m d i) 0" for i
    using pt that q by (auto simp: pt_ok_def)
  have "(V2P q OR PTE_PWU) AND PTE_PWU = PTE_PWU" by (rule bit_word_eqI) (auto simp: bit_simps)
  then show "pt_ok m' d (F - {q})"
    using pt P d q T by (auto simp: pt_ok_def w t split: if_splits)
  show "mmu_addr m' d need v = mmu_addr m d need v"
  proof (cases "PDX v = PDX va")
    case True
    have "(0 :: u32) AND need \<noteq> need" using need by (auto simp: PTE_P_def)
    moreover have "pde_word m d (PDX va) AND need \<noteq> need" using P need_present [OF _ need] by auto
    ultimately show ?thesis by (simp add: mmu_addr_tables True t PDX_less z' PTX_less Let_def)
  next
    case False
    show ?thesis
    proof (cases "bit (pde_word m d (PDX v)) 0")
      case True
      then show ?thesis using False T [OF PDX_less True]
        by (simp add: mmu_addr_tables w t PDX_less old PTX_less Let_def)
    next
      case np: False
      then have "pde_word m d (PDX v) AND need \<noteq> need" using need_present [OF _ need] by auto
      then show ?thesis using False by (simp add: mmu_addr_tables w PDX_less Let_def)
    qed
  qed
qed


lemma alloc_inv_mem:
  assumes "alloc_inv L t qs" "\<And>x i. x \<in> set qs \<Longrightarrow> i < 4 \<Longrightarrow> m (unat x + i) = kmem t (unat x + i)"
  shows "alloc_inv L (t\<lparr>kmem := m\<rparr>) qs"
  using assms flist_cong [of "kmem t" "freelist t" qs m] by (simp add: alloc_inv_def)

lemma alloc_inv_page: "alloc_inv L s ps \<Longrightarrow> p \<in> set ps \<Longrightarrow> p mod PGSIZE = 0 \<and> p \<noteq> 0"
  by (auto simp: alloc_inv_def page_ok_def)

lemma alloc_inv_store:
  assumes "alloc_inv L t qs" "p mod PGSIZE = 0" "j < 1024" "p \<notin> set qs"
  shows "alloc_inv L (t\<lparr>kmem := st32 (p + 4 * j) e (kmem t)\<rparr>) qs"
proof (rule alloc_inv_mem [OF assms(1)])
  fix x and i :: nat assume x: "x \<in> set qs" "i < 4"
  then have "x mod PGSIZE = 0" "x \<noteq> p" using alloc_inv_page [OF assms(1) x(1)] assms(4) by auto
  then have "unat x + 4096 \<le> unat p \<or> unat p + 4096 \<le> unat x" using page_aligned [of x p] assms(2) by simp
  then show "st32 (p + 4 * j) e (kmem t) (unat x + i) = kmem t (unat x + i)"
    using x assms(2,3) by (auto simp: st32_def entry_unat word_less_nat_alt)
qed

lemma alloc_inv_memset:
  assumes "alloc_inv L t qs" "q mod PGSIZE = 0" "q \<notin> set qs"
  shows "alloc_inv L (t\<lparr>kmem := memset (unat q) c 4096 (kmem t)\<rparr>) qs"
proof (rule alloc_inv_mem [OF assms(1)])
  fix x and i :: nat assume x: "x \<in> set qs" "i < 4"
  then have "x mod PGSIZE = 0" "x \<noteq> q" using alloc_inv_page [OF assms(1)] assms(3) by auto
  then show "memset (unat q) c 4096 (kmem t) (unat x + i) = kmem t (unat x + i)"
    using page_aligned [of x q] assms(2) x by (auto simp: memset_eval)
qed

lemma walkpgdir_alloc:
  assumes inv: "alloc_inv L s ps" and pt: "pt_ok (kmem s) d (set ps)" and P: "\<not> bit (pde_word (kmem s) d (PDX va)) 0"
  shows "case ps of
      [] \<Rightarrow> \<exists>t. walkpgdir d va True s = Ok 0 t \<and> kmem t = kmem s \<and> alloc_inv L t [] \<and> alloc_frame s t
    | q # qs \<Rightarrow> \<exists>t. walkpgdir d va True s = Ok (q + 4 * PTX va) t \<and> alloc_inv L t qs \<and> alloc_frame s t
        \<and> kmem t = st32 (pde_at d va) (V2P q OR PTE_PWU) (memset (unat q) 0 4096 (kmem s))"
proof -
  obtain t where t: "kalloc s = Ok (case ps of [] \<Rightarrow> 0 | p # _ \<Rightarrow> p) t" "alloc_inv L t (tl ps)" "alloc_frame s t" "kmem t = kmem s"
    using kalloc_in [OF inv] by blast
  have e: "ld32 (d + 4 * PDX va) (kmem s) AND PTE_P = 0" using P by (simp add: pde_word_def pte_flag_bits(1))
  show ?thesis
  proof (cases ps)
    case Nil
    then show ?thesis using t e by (auto simp: walkpgdir_def rd32_def kbind_def Let_def)
  next
    case (Cons q qs)
    let ?m = "memset (unat q) 0 4096 (kmem s)"
    have q: "q mod PGSIZE = 0" "q \<noteq> 0" "q \<notin> set qs" "d mod PGSIZE = 0" "d \<notin> set ps"
      using alloc_inv_page [OF inv] inv Cons pt by (auto simp: alloc_inv_def pt_ok_def)
    have "alloc_inv L (t\<lparr>kmem := ?m\<rparr>) qs" using alloc_inv_memset [of L t qs q 0] t(2,4) Cons q by simp
    then have "alloc_inv L (t\<lparr>kmem := ?m, kmem := st32 (d + 4 * PDX va) (V2P q OR PTE_PWU) ?m\<rparr>) qs"
      using alloc_inv_store [of L "t\<lparr>kmem := ?m\<rparr>" qs d "PDX va"] q Cons by (simp add: PDX_less)
    moreover have "walkpgdir d va True s = Ok (q + 4 * PTX va) (t\<lparr>kmem := st32 (d + 4 * PDX va) (V2P q OR PTE_PWU) ?m\<rparr>)"
      using t e q Cons
      by (simp add: walkpgdir_def rd32_def wr32_def upd_mem_def kbind_def kseq_def Let_def PGSIZE_def PTE_PWU_def or.assoc)
    ultimately show ?thesis using Cons t(3) by (auto simp: pde_at_def)
  qed
qed

lemma page_last: "va mod PGSIZE = 0 \<Longrightarrow> PGROUNDDOWN (va + PGSIZE - 1) = va \<and> PGROUNDDOWN va = va"
proof -
  assume a: "va mod PGSIZE = 0"
  then obtain k where k: "k \<le> 1048575" "unat va = 4096 * k" using page_mult [OF a] by blast
  have "va + PGSIZE - 1 = va + 4095" by (simp add: PGSIZE_def)
  moreover have "unat (va + 4095) = 4096 * k + 4095" using k by (simp add: unat_word_ariths)
  ultimately show ?thesis using k by (simp add: word_unat_eq_iff PGROUNDDOWN_unat)
qed

text \<open>Mapping one page, as \<open>allocuvm\<close>, \<open>copyuvm\<close> and \<open>inituvm\<close> do.\<close>

lemma mappages_one:
  assumes "va mod PGSIZE = 0"
  shows "mappages d va PGSIZE pa perm s =
    kbind (walkpgdir d va True) (\<lambda>pte.
      if pte = 0 then kret (-1)
      else kbind (rd32 pte) (\<lambda>e. if e AND PTE_P \<noteq> 0 then kpanic ''remap'' else kseq (wr32 pte (pa OR perm OR PTE_P)) (kret 0))) s"
proof -
  have "mappages d va PGSIZE pa perm s = mappages_loop d va pa perm 0 s"
    using page_last [OF assms] by (simp add: mappages_def Let_def)
  also have "\<dots> = kbind (walkpgdir d va True) (\<lambda>pte.
      if pte = 0 then kret (-1)
      else kbind (rd32 pte) (\<lambda>e. if e AND PTE_P \<noteq> 0 then kpanic ''remap'' else kseq (wr32 pte (pa OR perm OR PTE_P)) (kret 0))) s"
    by (subst mappages_loop.simps) (simp only: nat.case)
  finally show ?thesis .
qed

definition mapped_to :: "u32 \<Rightarrow> u32 \<Rightarrow> u32 \<Rightarrow> u32 \<Rightarrow> u32 option" where
  "mapped_to pa perm need v = (if (perm OR PTE_P) AND need = need then Some (P2V pa + (v AND 0xFFF)) else None)"

lemma mappages_store:
  assumes inv: "alloc_inv L s ps" and pt: "pt_ok (kmem s) d (set ps)" and va: "va mod PGSIZE = 0"
    and pa: "pa mod PGSIZE = 0" "perm < 4096" and un: "mmu_addr (kmem s) d PTE_P va = None"
    and need: "need AND PTE_P = PTE_P" "PTE_PWU AND need = need" and P: "bit (pde_word (kmem s) d (PDX va)) 0"
  shows "\<exists>t. mappages_loop d va pa perm 0 s = Ok 0 t \<and> alloc_inv L t ps \<and> pt_ok (kmem t) d (set ps) \<and> alloc_frame s t
    \<and> (\<forall>i < 1024. pde_word (kmem t) d i = pde_word (kmem s) d i)
    \<and> (\<forall>v. mmu_addr (kmem t) d need v = (if PGROUNDDOWN v = va then mapped_to pa perm need v else mmu_addr (kmem s) d need v))"
proof -
  let ?m = "kmem s" let ?t = "table_of ?m d (PDX va)" let ?e = "pa OR perm OR PTE_P"
  let ?m' = "st32 (pte_at ?m d va) ?e ?m"
  have w: "walkpgdir d va True s = Ok (pte_at ?m d va) s"
    using P by (simp add: walkpgdir_def rd32_def kbind_def Let_def pte_at_table table_of_def pde_word_def pte_flag_bits(1))
  have fl: "perm OR PTE_P < 4096"
  proof -
    have "PGROUNDDOWN (perm OR PTE_P) = 0"
    proof -
      have "PGROUNDDOWN perm = 0" "PGROUNDDOWN PTE_P = 0"
        using pa(2) by (simp_all add: word_unat_eq_iff PGROUNDDOWN_unat word_less_nat_alt PTE_P_def)
      then show ?thesis by (simp add: page_bits(1) bit.conj_disj_distrib2)
    qed
    then have "unat (perm OR PTE_P) div 4096 * 4096 = 0" by (metis PGROUNDDOWN_unat unat_0)
    then show ?thesis by (simp add: word_less_nat_alt div_eq_0_iff)
  qed
  have A: "PTE_ADDR ?e = pa" by (rule PTE_ADDR_flags [OF pa(1) fl])
  have "pa AND need = 0"
  proof -
    have "pa AND PTE_PWU = (pa AND NOT 0xFFF) AND PTE_PWU"
      using PTE_ADDR_id [OF pa(1)] by (simp add: PTE_ADDR_def)
    also have "\<dots> = 0" by (simp add: and.assoc PTE_PWU_def PTE_P_def PTE_W_def PTE_U_def)
    finally have z: "pa AND PTE_PWU = 0" .
    have "pa AND need = (pa AND PTE_PWU) AND need" by (simp only: and.assoc need(2))
    then show ?thesis by (simp add: z)
  qed
  then have N: "?e AND need = need \<longleftrightarrow> (perm OR PTE_P) AND need = need"
    by (simp add: bit.conj_disj_distrib2)
  have pn: "pde_word ?m d (PDX va) AND need = need"
  proof (rule and_sub [OF _ need(2)])
    show "pde_word ?m d (PDX va) AND PTE_PWU = PTE_PWU" using pt P PDX_less by (auto simp: pt_ok_def)
  qed
  have z: "ld32 (pte_at ?m d va) ?m AND PTE_P = 0"
    using un P by (auto simp: mmu_addr_tables pte_at_table pte_flag_bits(1) Let_def) (auto simp: PTE_P_def split: if_splits)
  have tn: "?t \<notin> set ps" "?t \<noteq> 0" using pt P PDX_less by (auto simp: pt_ok_def)
  have nz: "pte_at ?m d va \<noteq> 0"
  proof
    assume "pte_at ?m d va = 0"
    then have "unat (?t + 4 * PTX va) = 0" by (simp add: pte_at_table)
    then show False using entry_unat [of ?t "PTX va"] tn(2) by (simp add: PTX_less unat_eq_zero)
  qed
  have run: "mappages_loop d va pa perm 0 s = Ok 0 (s\<lparr>kmem := ?m'\<rparr>)"
    using w nz z by (subst mappages_loop.simps) (simp add: kbind_def rd32_def kseq_def wr32_def upd_mem_def)
  note S = pte_store [of ?m d "set ps" va need ?m' ?e, OF pt P need(1) refl]
  have "alloc_inv L (s\<lparr>kmem := ?m'\<rparr>) ps"
    unfolding pte_at_table by (rule alloc_inv_store [OF inv]) (use tn PTX_less in simp_all)
  moreover have "mmu_addr ?m' d need v = (if PGROUNDDOWN v = va then mapped_to pa perm need v else mmu_addr ?m d need v)" for v
    using S(2) [of v] page_last [OF va] by (simp add: A N pn mapped_to_def)
  ultimately show ?thesis using run S(1,3) by (intro exI [of _ "s\<lparr>kmem := ?m'\<rparr>"]) simp
qed


text \<open>The accesses a page can be asked for: reads, with or without writes and user mode.\<close>

definition access :: "u32 \<Rightarrow> bool" where
  "access need \<longleftrightarrow> need AND PTE_P = PTE_P \<and> PTE_PWU AND need = need"

text \<open>The directory entries in use, and the pages of their tables.\<close>

definition pde_set :: "mem \<Rightarrow> u32 \<Rightarrow> u32 set" where "pde_set m d = {i. i < 1024 \<and> bit (pde_word m d i) 0}"

definition tables :: "mem \<Rightarrow> u32 \<Rightarrow> u32 set" where "tables m d = table_of m d ` pde_set m d"

lemma tables_cong:
  assumes "\<forall>i < 1024. pde_word m' d i = pde_word m d i"
  shows "pde_set m' d = pde_set m d" "tables m' d = tables m d"
  using assms by (auto simp: pde_set_def tables_def table_of_def intro!: image_eqI)

text \<open>One page is mapped, with a page for its table where that is missing.\<close>

lemma page_mapped:
  assumes inv: "alloc_inv L s ps" and pt: "pt_ok (kmem s) d (set ps)" and va: "va mod PGSIZE = 0"
    and pa: "pa mod PGSIZE = 0" "perm < 4096" and un: "mmu_addr (kmem s) d PTE_P va = None"
    and room: "ps \<noteq> [] \<or> bit (pde_word (kmem s) d (PDX va)) 0"
  obtains t where "mappages_loop d va pa perm 0 s = Ok 0 t"
    and "alloc_inv L t (if bit (pde_word (kmem s) d (PDX va)) 0 then ps else tl ps)"
    and "pt_ok (kmem t) d (set (if bit (pde_word (kmem s) d (PDX va)) 0 then ps else tl ps))"
    and "alloc_frame s t"
    and "pde_set (kmem t) d = insert (PDX va) (pde_set (kmem s) d)"
    and "tables (kmem t) d \<union> set (if bit (pde_word (kmem s) d (PDX va)) 0 then ps else tl ps) = tables (kmem s) d \<union> set ps"
    and "\<forall>need v. access need \<longrightarrow> mmu_addr (kmem t) d need v
             = (if PGROUNDDOWN v = va then mapped_to pa perm need v else mmu_addr (kmem s) d need v)"
proof -
  have P: "access PTE_P" by (simp add: access_def PTE_PWU_def PTE_P_def PTE_W_def PTE_U_def)
  have store: "\<exists>t. mappages_loop d va pa perm 0 u = Ok 0 t \<and> alloc_inv L t qs \<and> pt_ok (kmem t) d (set qs) \<and> alloc_frame u t
      \<and> (\<forall>i < 1024. pde_word (kmem t) d i = pde_word (kmem u) d i)
      \<and> (\<forall>need v. access need \<longrightarrow> mmu_addr (kmem t) d need v
             = (if PGROUNDDOWN v = va then mapped_to pa perm need v else mmu_addr (kmem u) d need v))"
    if u: "alloc_inv L u qs" "pt_ok (kmem u) d (set qs)" "mmu_addr (kmem u) d PTE_P va = None" "bit (pde_word (kmem u) d (PDX va)) 0"
    for u :: "'a mem_st_scheme" and qs
  proof -
    note S = mappages_store [OF u(1,2) va pa u(3) _ _ u(4)]
    obtain t where t: "mappages_loop d va pa perm 0 u = Ok 0 t" "alloc_inv L t qs" "pt_ok (kmem t) d (set qs)" "alloc_frame u t"
      "\<forall>i < 1024. pde_word (kmem t) d i = pde_word (kmem u) d i"
      using S [of PTE_P] P unfolding access_def by blast
    have "\<forall>v. mmu_addr (kmem t) d need v = (if PGROUNDDOWN v = va then mapped_to pa perm need v else mmu_addr (kmem u) d need v)"
      if "access need" for need
      using S [of need] that t(1) unfolding access_def by auto
    then show ?thesis using t by blast
  qed
  show ?thesis
  proof (cases "bit (pde_word (kmem s) d (PDX va)) 0")
    case True
    obtain t where t: "mappages_loop d va pa perm 0 s = Ok 0 t" "alloc_inv L t ps" "pt_ok (kmem t) d (set ps)" "alloc_frame s t"
      "\<forall>i < 1024. pde_word (kmem t) d i = pde_word (kmem s) d i"
      "\<forall>need v. access need \<longrightarrow> mmu_addr (kmem t) d need v
             = (if PGROUNDDOWN v = va then mapped_to pa perm need v else mmu_addr (kmem s) d need v)"
      using store [OF inv pt un True] by blast
    have "insert (PDX va) (pde_set (kmem s) d) = pde_set (kmem s) d" using True PDX_less by (auto simp: pde_set_def)
    then show ?thesis by (intro that [OF t(1) _ _ t(4)]) (use True t tables_cong [OF t(5)] in auto)
  next
    case False
    then obtain q qs where ps: "ps = q # qs" using room by (cases ps) auto
    obtain t where t: "walkpgdir d va True s = Ok (q + 4 * PTX va) t" "alloc_inv L t qs" "alloc_frame s t"
      "kmem t = st32 (pde_at d va) (V2P q OR PTE_PWU) (memset (unat q) 0 4096 (kmem s))"
      using walkpgdir_alloc [OF inv pt False] ps by auto
    have q: "q mod PGSIZE = 0" "q \<noteq> 0" "q \<in> set ps" using alloc_inv_page [OF inv] ps by auto
    note N = new_table [OF pt False q _ t(4)]
    have need: "need AND PTE_P = PTE_P" if "access need" for need using that by (simp add: access_def)
    have w: "i < 1024 \<Longrightarrow> pde_word (kmem t) d i = (if i = PDX va then V2P q OR PTE_PWU else pde_word (kmem s) d i)" for i
      using N(6) [OF need [OF P]] by blast
    have Pt: "bit (pde_word (kmem t) d (PDX va)) 0"
      using w [OF PDX_less, of va] by (simp add: bit_or_iff PTE_PWU_def PTE_P_def PTE_W_def PTE_U_def)
    have bits: "pde_set (kmem t) d = insert (PDX va) (pde_set (kmem s) d)"
      using w Pt PDX_less [of va] by (auto simp: pde_set_def)
    have "PTE_PWU < 4096" by (simp add: PTE_PWU_def PTE_P_def PTE_W_def PTE_U_def)
    then have tq: "i < 1024 \<Longrightarrow> table_of (kmem t) d i = (if i = PDX va then q else table_of (kmem s) d i)" for i
      using w [of i] PTE_ADDR_flags [OF V2P_page [OF q(1)], of PTE_PWU] by (simp add: table_of_def)
    have "table_of (kmem t) d ` pde_set (kmem s) d = table_of (kmem s) d ` pde_set (kmem s) d"
      by (rule image_cong) (use False tq in \<open>auto simp: pde_set_def\<close>)
    then have tabs: "tables (kmem t) d = insert q (tables (kmem s) d)"
      unfolding tables_def bits using tq [OF PDX_less, of va] by simp
    have qs: "set ps - {q} = set qs" using inv ps by (auto simp: alloc_inv_def)
    have ptt: "pt_ok (kmem t) d (set qs)" using N(1) [OF need [OF P]] qs by simp
    have un': "mmu_addr (kmem t) d PTE_P va = None" using N(5) [OF need [OF P]] un by simp
    have "walkpgdir d va True t = Ok (q + 4 * PTX va) t"
      using Pt N(3) [OF need [OF P]]
      by (simp add: walkpgdir_def rd32_def kbind_def Let_def pte_at_table table_of_def pde_word_def pte_flag_bits(1))
    then have run: "mappages_loop d va pa perm 0 s = mappages_loop d va pa perm 0 t"
      using t(1) by (simp add: mappages_loop.simps [of d va pa perm 0] kbind_def)
    obtain u where u: "mappages_loop d va pa perm 0 t = Ok 0 u" "alloc_inv L u qs" "pt_ok (kmem u) d (set qs)" "alloc_frame t u"
      "\<forall>i < 1024. pde_word (kmem u) d i = pde_word (kmem t) d i"
      "\<forall>need v. access need \<longrightarrow> mmu_addr (kmem u) d need v
             = (if PGROUNDDOWN v = va then mapped_to pa perm need v else mmu_addr (kmem t) d need v)"
      using store [OF t(2) ptt un' Pt] by blast
    have "\<forall>need v. access need \<longrightarrow> mmu_addr (kmem u) d need v
             = (if PGROUNDDOWN v = va then mapped_to pa perm need v else mmu_addr (kmem s) d need v)"
      using u(6) N(5) [OF need] by simp
    moreover have "alloc_frame s u" using t(3) u(4) by (rule alloc_frame_trans)
    ultimately show ?thesis by (intro that [of u]) (use False ps run u bits tabs tables_cong [OF u(5)] in auto)
  qed
qed


end
