(* ===== verification/File.thy ===== *)
theory File
  imports Paging
begin

text \<open>
  Open files and pipes (\<open>file.c\<close>, \<open>pipe.c\<close>, \<open>file.h\<close>).  A file is an index into
  \<open>ftable.file\<close>; a pipe is the address of the page \<open>kalloc\<close> gave for it, its fields being kept
  in a map of their own (the page is used for nothing else between \<open>pipealloc\<close> and the \<open>kfree\<close> in
  \<open>pipeclose\<close>).  Reads return the bytes put at \<open>addr\<close>, writes take the bytes found there.
\<close>

section \<open>Data\<close>

definition NFILE :: nat where [const_defs]: "NFILE = 100"
definition PIPESIZE :: nat where [const_defs]: "PIPESIZE = 512"

datatype fdtype = FD_NONE | FD_PIPE | FD_INODE

record openfile =
  f_type :: fdtype
  f_ref :: int
  f_readable :: bool
  f_writable :: bool
  f_pipe :: u32
  f_ip :: "nat option"
  f_off :: u32

record pipe =
  pi_data :: "u8 list"
  pi_nread :: u32
  pi_nwrite :: u32
  pi_readopen :: bool
  pi_writeopen :: bool

record file_st = mem_st +
  ftable :: "nat \<Rightarrow> openfile"
  pipes :: "u32 \<Rightarrow> pipe"

definition upd_file :: "nat \<Rightarrow> (openfile \<Rightarrow> openfile) \<Rightarrow> (unit, 'x file_st_scheme) kern" where
  "upd_file f g = kmod (\<lambda>s. s\<lparr>ftable := (ftable s)(f := g (ftable s f))\<rparr>)"

definition get_file :: "nat \<Rightarrow> (openfile, 'x file_st_scheme) kern" where
  "get_file f = kget (\<lambda>s. ftable s f)"

definition upd_pipe :: "u32 \<Rightarrow> (pipe \<Rightarrow> pipe) \<Rightarrow> (unit, 'x file_st_scheme) kern" where
  "upd_pipe p g = kmod (\<lambda>s. s\<lparr>pipes := (pipes s)(p := g (pipes s p))\<rparr>)"

definition get_pipe :: "u32 \<Rightarrow> (pipe, 'x file_st_scheme) kern" where
  "get_pipe p = kget (\<lambda>s. pipes s p)"

definition killed :: "(bool, 'x proc_st_scheme) kern" where
  "killed = kbind curproc (\<lambda>p. kget (\<lambda>s. p_killed (ptable s p)))"

section \<open>pipe.c: closing, writing, reading\<close>

definition pipeclose :: "u32 \<Rightarrow> bool \<Rightarrow> (unit, 'x file_st_scheme) kern" where
  "pipeclose p writable =
     kseq (acquire (L_pipe p)) (
     kseq (if writable then
             kseq (upd_pipe p (\<lambda>r. r\<lparr>pi_writeopen := False\<rparr>)) (wakeup (ChPipeRead p))
           else
             kseq (upd_pipe p (\<lambda>r. r\<lparr>pi_readopen := False\<rparr>)) (wakeup (ChPipeWrite p))) (
     kbind (get_pipe p) (\<lambda>r.
     if \<not> pi_readopen r \<and> \<not> pi_writeopen r then
       kseq (release (L_pipe p)) (kfree p)
     else release (L_pipe p))))"

text \<open>\<open>p->data[p->nwrite++ % PIPESIZE] = c\<close>, and \<open>p->data[p->nread++ % PIPESIZE]\<close>.\<close>

definition pipe_put :: "u8 \<Rightarrow> pipe \<Rightarrow> pipe" where
  "pipe_put c r = r\<lparr>pi_data := (pi_data r)[unat (pi_nwrite r) mod PIPESIZE := c], pi_nwrite := pi_nwrite r + 1\<rparr>"

definition pipe_get :: "pipe \<Rightarrow> u8 \<times> pipe" where
  "pipe_get r = (pi_data r ! (unat (pi_nread r) mod PIPESIZE), r\<lparr>pi_nread := pi_nread r + 1\<rparr>)"

text \<open>The copy loop of \<open>pipewrite\<close>; false when it gave up.\<close>

fun pipewrite_loop :: "u32 \<Rightarrow> u8 list \<Rightarrow> (bool, 'x file_st_scheme) kern" where
  "pipewrite_loop p [] = kret True"
| "pipewrite_loop p (c # cs) =
     kbind (get_pipe p) (\<lambda>r.
     if pi_nwrite r = pi_nread r + of_nat PIPESIZE then
       kbind (if \<not> pi_readopen r then kret True else killed) (\<lambda>stop.
       if stop then kret False
       else
         kseq (wakeup (ChPipeRead p))
              (sleeping (ChPipeWrite p) (L_pipe p)))
     else
       kseq (upd_pipe p (pipe_put c))
            (pipewrite_loop p cs))"

definition pipewrite :: "u32 \<Rightarrow> u8 list \<Rightarrow> (int, 'x file_st_scheme) kern" where
  "pipewrite p bs =
     kseq (acquire (L_pipe p)) (
     kbind (pipewrite_loop p bs) (\<lambda>fin.
     if \<not> fin then kseq (release (L_pipe p)) (kret (-1))
     else
       kseq (wakeup (ChPipeRead p)) (
       kseq (release (L_pipe p)) (kret (int (length bs))))))"

fun piperead_copy :: "u32 \<Rightarrow> nat \<Rightarrow> (u8 list, 'x file_st_scheme) kern" where
  "piperead_copy p 0 = kret []"
| "piperead_copy p (Suc n) =
     kbind (get_pipe p) (\<lambda>r.
     if pi_nread r = pi_nwrite r then kret []
     else
       kseq (upd_pipe p (\<lambda>r. snd (pipe_get r))) (
       kbind (piperead_copy p n) (\<lambda>cs.
       kret (fst (pipe_get r) # cs))))"

definition piperead :: "u32 \<Rightarrow> int \<Rightarrow> (int \<times> u8 list, 'x file_st_scheme) kern" where
  "piperead p n =
     kseq (acquire (L_pipe p)) (
     kbind (get_pipe p) (\<lambda>r.
     if pi_nread r = pi_nwrite r \<and> pi_writeopen r then
       kbind killed (\<lambda>k.
       if k then kseq (release (L_pipe p)) (kret (-1, []))
       else sleeping (ChPipeRead p) (L_pipe p))
     else
       kbind (piperead_copy p (nat n)) (\<lambda>cs.
       kseq (wakeup (ChPipeWrite p)) (
       kseq (release (L_pipe p)) (kret (int (length cs), cs))))))"

section \<open>file.c\<close>

definition fileinit :: "(unit, 'x file_st_scheme) kern" where
  "fileinit = initlock L_ftable"

definition filealloc :: "(nat option, 'x file_st_scheme) kern" where
  "filealloc =
     kseq (acquire L_ftable) (
     kbind (kget (\<lambda>s. find (\<lambda>f. f_ref (ftable s f) = 0) [0..<NFILE])) (\<lambda>r.
     case r of
       Some f \<Rightarrow>
         kseq (upd_file f (\<lambda>r. r\<lparr>f_ref := 1\<rparr>)) (
         kseq (release L_ftable) (kret (Some f)))
     | None \<Rightarrow> kseq (release L_ftable) (kret None)))"

definition filedup :: "nat \<Rightarrow> (nat, 'x file_st_scheme) kern" where
  "filedup f =
     kseq (acquire L_ftable) (
     kbind (get_file f) (\<lambda>r.
     if f_ref r < 1 then kpanic ''filedup''
     else
       kseq (upd_file f (\<lambda>r. r\<lparr>f_ref := f_ref r + 1\<rparr>)) (
       kseq (release L_ftable) (kret f))))"

definition fileclose :: "nat \<Rightarrow> (unit, 'x file_st_scheme) kern" where
  "fileclose f =
     kseq (acquire L_ftable) (
     kbind (get_file f) (\<lambda>r.
     if f_ref r < 1 then kpanic ''fileclose''
     else
       kseq (upd_file f (\<lambda>r. r\<lparr>f_ref := f_ref r - 1\<rparr>)) (
       if 0 < f_ref r - 1 then release L_ftable
       else
         kbind (get_file f) (\<lambda>ff.
         kseq (upd_file f (\<lambda>r. r\<lparr>f_ref := 0\<rparr>)) (
         kseq (upd_file f (\<lambda>r. r\<lparr>f_type := FD_NONE\<rparr>)) (
         kseq (release L_ftable) (
         case f_type ff of
           FD_PIPE \<Rightarrow> pipeclose (f_pipe ff) (f_writable ff)
         | FD_INODE \<Rightarrow>
             (case f_ip ff of
                None \<Rightarrow> kundef
              | Some ip \<Rightarrow> kseq begin_op (kseq (iput ip) end_op))
         | FD_NONE \<Rightarrow> kret ())))))))"

definition filestat :: "nat \<Rightarrow> (stat option, 'x file_st_scheme) kern" where
  "filestat f =
     kbind (get_file f) (\<lambda>r.
     if f_type r = FD_INODE then
       (case f_ip r of
          None \<Rightarrow> kpanic ''ilock''
        | Some ip \<Rightarrow>
            kseq (ilock (Some ip)) (
            kbind (stati ip) (\<lambda>st.
            kseq (iunlock (Some ip)) (kret (Some st)))))
     else kret None)"

definition fileread ::
  "(nat \<Rightarrow> 'x file_st_scheme devsw) \<Rightarrow> nat \<Rightarrow> int \<Rightarrow> (int \<times> u8 list, 'x file_st_scheme) kern" where
  "fileread devsw f n =
     kbind (get_file f) (\<lambda>r.
     if \<not> f_readable r then kret (-1, [])
     else
       case f_type r of
         FD_PIPE \<Rightarrow> piperead (f_pipe r) n
       | FD_INODE \<Rightarrow>
           (case f_ip r of
              None \<Rightarrow> kpanic ''ilock''
            | Some ip \<Rightarrow>
                kseq (ilock (Some ip)) (
                kbind (get_file f) (\<lambda>r.
                kbind (readi devsw ip (f_off r) (word_of_int n)) (\<lambda>(k, cs).
                kseq (kwhen (0 < k) (upd_file f (\<lambda>r. r\<lparr>f_off := f_off r + word_of_int k\<rparr>))) (
                kseq (iunlock (Some ip)) (kret (k, cs)))))))
       | FD_NONE \<Rightarrow> kpanic ''fileread'')"

definition WRITE_MAX :: nat where [const_defs]: "WRITE_MAX = ((MAXOPBLOCKS - 1 - 1 - 2) div 2) * 512"

text \<open>The parts of the buffer the passes of \<open>filewrite\<close> write.\<close>

function write_parts :: "'a list \<Rightarrow> 'a list list" where
  "write_parts bs = (if bs = [] then [] else take WRITE_MAX bs # write_parts (drop WRITE_MAX bs))"
  by pat_completeness auto

termination by (relation "measure length") (simp_all add: WRITE_MAX_def MAXOPBLOCKS_def)

declare write_parts.simps [simp del]

definition filewrite ::
  "(nat \<Rightarrow> 'x file_st_scheme devsw) \<Rightarrow> nat \<Rightarrow> u8 list \<Rightarrow> (int, 'x file_st_scheme) kern" where
  "filewrite devsw f bs =
     kbind (get_file f) (\<lambda>r.
     if \<not> f_writable r then kret (-1)
     else
       case f_type r of
         FD_PIPE \<Rightarrow> pipewrite (f_pipe r) bs
       | FD_INODE \<Rightarrow>
           kbind (kloop (write_parts bs) (\<lambda>part.
             kseq begin_op (
             case f_ip r of
               None \<Rightarrow> kpanic ''ilock''
             | Some ip \<Rightarrow>
                 kseq (ilock (Some ip)) (
                 kbind (get_file f) (\<lambda>r.
                 kbind (writei devsw ip part (f_off r) (of_nat (length part))) (\<lambda>k.
                 kseq (kwhen (0 < k) (upd_file f (\<lambda>r. r\<lparr>f_off := f_off r + word_of_int k\<rparr>))) (
                 kseq (iunlock (Some ip)) (
                 kseq end_op (
                 if k < 0 then kret (Some ())
                 else if k \<noteq> int (length part) then kpanic ''short filewrite''
                 else kret None))))))))) (\<lambda>broke.
           kret (if broke = None then int (length bs) else -1))
       | FD_NONE \<Rightarrow> kpanic ''filewrite'')"

section \<open>pipealloc\<close>

definition pipe_bad :: "u32 \<Rightarrow> nat option \<Rightarrow> nat option \<Rightarrow> ((nat \<times> nat) option, 'x file_st_scheme) kern" where
  "pipe_bad p f0 f1 =
     kseq (kwhen (p \<noteq> 0) (kfree p)) (
     kseq (case f0 of None \<Rightarrow> kret () | Some f \<Rightarrow> fileclose f) (
     kseq (case f1 of None \<Rightarrow> kret () | Some f \<Rightarrow> fileclose f)
          (kret None)))"

definition pipealloc :: "((nat \<times> nat) option, 'x file_st_scheme) kern" where
  "pipealloc =
     kbind filealloc (\<lambda>r0.
     case r0 of
       None \<Rightarrow> pipe_bad 0 None None
     | Some f0 \<Rightarrow>
         kbind filealloc (\<lambda>r1.
         case r1 of
           None \<Rightarrow> pipe_bad 0 (Some f0) None
         | Some f1 \<Rightarrow>
             kbind kalloc (\<lambda>p.
             if p = 0 then pipe_bad p (Some f0) (Some f1)
             else
               kseq (upd_pipe p (\<lambda>r. r\<lparr>pi_readopen := True, pi_writeopen := True, pi_nwrite := 0, pi_nread := 0\<rparr>)) (
               kseq (initlock (L_pipe p)) (
               kseq (upd_file f0 (\<lambda>r. r\<lparr>f_type := FD_PIPE, f_readable := True, f_writable := False, f_pipe := p\<rparr>)) (
               kseq (upd_file f1 (\<lambda>r. r\<lparr>f_type := FD_PIPE, f_readable := False, f_writable := True, f_pipe := p\<rparr>))
                    (kret (Some (f0, f1)))))))))"

section \<open>The pipe as a bounded queue\<close>

definition pipe_inv :: "pipe \<Rightarrow> bool" where
  "pipe_inv r \<longleftrightarrow> length (pi_data r) = PIPESIZE \<and> unat (pi_nwrite r - pi_nread r) \<le> PIPESIZE"

definition fifo :: "pipe \<Rightarrow> u8 list" where
  "fifo r = ring_bytes PIPESIZE (pi_data r) (pi_nread r) (unat (pi_nwrite r - pi_nread r))"

lemma length_fifo [simp]: "length (fifo r) = unat (pi_nwrite r - pi_nread r)"
  by (simp add: fifo_def)

lemma pipe_full: "pi_nwrite r = pi_nread r + of_nat PIPESIZE \<longleftrightarrow> length (fifo r) = PIPESIZE"
proof -
  have "pi_nwrite r = pi_nread r + of_nat PIPESIZE \<longleftrightarrow> pi_nwrite r - pi_nread r = of_nat PIPESIZE"
    by (simp add: diff_eq_eq add.commute)
  then show ?thesis by (simp add: word_unat_eq_iff PIPESIZE_def)
qed

lemma pipe_empty: "pi_nread r = pi_nwrite r \<longleftrightarrow> fifo r = []"
proof -
  have "fifo r = [] \<longleftrightarrow> pi_nwrite r - pi_nread r = 0" by (simp add: length_0_conv [symmetric] unat_eq_zero del: length_0_conv)
  then show ?thesis by auto
qed

lemma pipe_put_fifo:
  assumes "pipe_inv r" "length (fifo r) < PIPESIZE"
  shows "fifo (pipe_put c r) = fifo r @ [c]" "pipe_inv (pipe_put c r)"
proof -
  let ?n = "unat (pi_nwrite r - pi_nread r)"
  have n: "?n < 512" "length (pi_data r) = 512" using assms by (simp_all add: pipe_inv_def PIPESIZE_def)
  then have s: "unat (pi_nwrite r + 1 - pi_nread r) = Suc ?n" by (intro unat_plus1) simp
  show "fifo (pipe_put c r) = fifo r @ [c]"
    using ring512.enqueue [OF n(2) refl n(1), of c] s by (simp add: fifo_def pipe_put_def PIPESIZE_def ring_put_def)
  show "pipe_inv (pipe_put c r)" using n s by (simp add: pipe_inv_def pipe_put_def PIPESIZE_def)
qed

lemma pipe_get_fifo:
  assumes "pipe_inv r" "fifo r \<noteq> []"
  shows "fst (pipe_get r) = hd (fifo r)" "fifo (snd (pipe_get r)) = tl (fifo r)" "pipe_inv (snd (pipe_get r))"
proof -
  let ?n = "unat (pi_nwrite r - pi_nread r)"
  have ne: "pi_nwrite r \<noteq> pi_nread r" using assms(2) pipe_empty [of r] by auto
  have "unat (pi_nwrite r - (pi_nread r + 1)) = ?n - 1"
    using unat_minus1 [OF ne] by (simp add: algebra_simps)
  moreover have "?n \<noteq> 0" using ne by (simp add: unat_eq_zero)
  then obtain k where "?n = Suc k" by (cases ?n) auto
  ultimately show "fst (pipe_get r) = hd (fifo r)" "fifo (snd (pipe_get r)) = tl (fifo r)" "pipe_inv (snd (pipe_get r))"
    using assms(1) by (simp_all add: fifo_def pipe_get_def ring_bytes_Cons ring_at_def pipe_inv_def)
qed

lemma pipe_put_ends [simp]: "pi_readopen (pipe_put c r) = pi_readopen r" "pi_writeopen (pipe_put c r) = pi_writeopen r"
  "pi_readopen (snd (pipe_get r)) = pi_readopen r" "pi_writeopen (snd (pipe_get r)) = pi_writeopen r"
  by (simp_all add: pipe_put_def pipe_get_def)

text \<open>The copy loops, as long as there is room, and as long as there are bytes.\<close>

lemma pipewrite_loop_room:
  assumes "pipe_inv (pipes s p)" "length (fifo (pipes s p)) + length bs \<le> PIPESIZE"
  shows "\<exists>r. pipewrite_loop p (bs @ cs) s = pipewrite_loop p cs (s\<lparr>pipes := (pipes s)(p := r)\<rparr>)
    \<and> fifo r = fifo (pipes s p) @ bs \<and> pipe_inv r \<and> pi_readopen r = pi_readopen (pipes s p)
    \<and> pi_writeopen r = pi_writeopen (pipes s p)"
  using assms
proof (induction bs arbitrary: s)
  case Nil
  then show ?case by (intro exI [of _ "pipes s p"]) simp
next
  case (Cons b bs)
  let ?r = "pipes s p"
  have lt: "length (fifo ?r) < PIPESIZE" using Cons.prems by simp
  note P = pipe_put_fifo [OF Cons.prems(1) lt, of b]
  let ?s = "s\<lparr>pipes := (pipes s)(p := pipe_put b ?r)\<rparr>"
  have upd: "?s\<lparr>pipes := (pipes ?s)(p := r)\<rparr> = s\<lparr>pipes := (pipes s)(p := r)\<rparr>" for r by simp
  have step: "pipewrite_loop p ((b # bs) @ cs) s = pipewrite_loop p (bs @ cs) ?s"
    using lt pipe_full [of ?r] by (simp add: get_pipe_def upd_pipe_def kbind_def kseq_def)
  have "length (fifo (pipe_put b ?r)) + length bs \<le> PIPESIZE" using Cons.prems(2) unfolding P(1) by simp
  then obtain r where r: "pipewrite_loop p (bs @ cs) ?s = pipewrite_loop p cs (s\<lparr>pipes := (pipes s)(p := r)\<rparr>)"
    "fifo r = fifo (pipe_put b ?r) @ bs" "pipe_inv r" "pi_readopen r = pi_readopen ?r" "pi_writeopen r = pi_writeopen ?r"
    using Cons.IH [of ?s] P(2) unfolding upd by auto
  show ?case unfolding step by (intro exI [of _ r] conjI r(1,3-5)) (simp add: r(2) P(1))
qed

lemma piperead_copy_eval:
  assumes "pipe_inv (pipes s p)"
  shows "\<exists>r. piperead_copy p n s = Ok (take n (fifo (pipes s p))) (s\<lparr>pipes := (pipes s)(p := r)\<rparr>)
    \<and> fifo r = drop n (fifo (pipes s p)) \<and> pipe_inv r \<and> pi_readopen r = pi_readopen (pipes s p)
    \<and> pi_writeopen r = pi_writeopen (pipes s p)"
  using assms
proof (induction n arbitrary: s)
  case 0
  then show ?case by (intro exI [of _ "pipes s p"]) simp
next
  case (Suc n)
  let ?r = "pipes s p"
  show ?case
  proof (cases "fifo ?r = []")
    case True
    then show ?thesis using Suc.prems pipe_empty [of ?r] by (intro exI [of _ ?r]) (simp add: get_pipe_def kbind_def)
  next
    case False
    note P = pipe_get_fifo [OF Suc.prems False]
    let ?s = "s\<lparr>pipes := (pipes s)(p := snd (pipe_get ?r))\<rparr>"
    have upd: "?s\<lparr>pipes := (pipes ?s)(p := r)\<rparr> = s\<lparr>pipes := (pipes s)(p := r)\<rparr>" for r by simp
    obtain r where r: "piperead_copy p n ?s = Ok (take n (tl (fifo ?r))) (s\<lparr>pipes := (pipes s)(p := r)\<rparr>)"
      "fifo r = drop n (tl (fifo ?r))" "pipe_inv r" "pi_readopen r = pi_readopen ?r" "pi_writeopen r = pi_writeopen ?r"
      using Suc.IH [of ?s] P unfolding upd by auto
    have c: "fst (pipe_get ?r) # take n (tl (fifo ?r)) = take (Suc n) (fifo ?r)" "drop n (tl (fifo ?r)) = drop (Suc n) (fifo ?r)"
      unfolding P(1) using False by (cases "fifo ?r"; simp)+
    have "piperead_copy p (Suc n) s = Ok (fst (pipe_get ?r) # take n (tl (fifo ?r))) (s\<lparr>pipes := (pipes s)(p := r)\<rparr>)"
      using False pipe_empty [of ?r] r(1) by (simp add: get_pipe_def upd_pipe_def kbind_def kseq_def del: take_tl)
    then show ?thesis unfolding c r(2) [symmetric] using r(3-5) c(2) by (intro exI [of _ r] conjI) (assumption | simp only: r(2))+
  qed
qed


lemma file_more:
  assumes "sleep_st.more t = sleep_st.more s"
  shows "pipes t = pipes s" "ftable t = ftable s"
proof -
  have f: "mem_st.more t = mem_st.more s" by (rule mem_more [OF assms])
  show "pipes t = pipes s" "ftable t = ftable s" using f by (cases s, cases t, simp)+
qed

lemma frame_sleep_more: "cpu_frame s t \<Longrightarrow> sleep_st.more t = sleep_st.more s" for s t :: "'x sleep_st_scheme"
  using cpu_frame_proc_st(5) [of s t] by (simp add: sleep_st_more)

lemma pipe_lock:
  assumes "thread_in {} s"
  shows "\<exists>t. acquire (L_pipe p) s = Ok () t \<and> thread_in {L_pipe p} t \<and> cur t = cur s \<and> pipes t = pipes s \<and> ptable t = ptable s"
proof -
  obtain t where t: "acquire (L_pipe p) s = Ok () t" "thread_in {L_pipe p} t" "cpu_frame s t"
    using acquire_frame [OF assms, of "L_pipe p"] by auto
  then show ?thesis using file_more [OF frame_sleep_more [OF t(3)]] cpu_frame_proc_st [OF t(3)]
    by (auto simp: cpu_frame_def)
qed

lemma pipe_unlock:
  assumes "thread_in {L_pipe p} s"
  shows "\<exists>t. release (L_pipe p) s = Ok () t \<and> thread_in {} t \<and> pipes t = pipes s \<and> ptable t = ptable s"
proof -
  obtain t where t: "release (L_pipe p) s = Ok () t" "thread_in {} t" "cpu_frame s t"
    using release_frame [OF assms, of "L_pipe p"] by auto
  then show ?thesis using file_more [OF frame_sleep_more [OF t(3)]] cpu_frame_proc_st [OF t(3)] by auto
qed

lemma pipe_wakeup:
  assumes "thread_in {L_pipe p} s"
  shows "\<exists>t. wakeup ch s = Ok () t \<and> thread_in {L_pipe p} t \<and> cur t = cur s \<and> pipes t = pipes s
    \<and> (\<forall>i. p_killed (ptable t i) = p_killed (ptable s i))"
proof -
  obtain t where t: "wakeup ch s = Ok () t" "thread_in {L_pipe p} t" using wakeup_in [OF assms, of ch] by auto
  have k: "p_killed (ptable t i) = p_killed (ptable s i)" for i
    using wakeup_Ok(5) [OF t(1)] by (simp add: woken_table_def woken_def)
  show ?thesis using t file_more(1) [OF wakeup_thread(3) [OF t(1)]] k wakeup_Ok(2) [OF t(1)] by auto
qed

lemma thread_in_held: "thread_in {l} s \<Longrightarrow> cur s = Some q \<Longrightarrow> \<exists>c. found s = Some c \<and> cproc (cpus s c) = Some q
    \<and> ncli (cpus s c) = 1 \<and> \<not> fl_if s \<and> locks s l = \<lparr>lk_locked = True, lk_cpu = Some c\<rparr> \<and> (\<forall>k. k \<noteq> l \<longrightarrow> \<not> lk_locked (locks s k))"
  by (auto simp: thread_in_def cur_def intro!: spinlock.equality)

lemma pipe_sleeps:
  assumes "thread_in {L_pipe p} s" "cur s = Some q"
  shows "\<exists>t. sleeping ch (L_pipe p) s = Switch t \<and> pipes t = pipes s
    \<and> p_state (ptable t q) = SLEEPING \<and> p_chan (ptable t q) = Some ch \<and> \<not> lk_locked (locks t (L_pipe p))"
proof -
  obtain c where c: "found s = Some c" "cproc (cpus s c) = Some q" "ncli (cpus s c) = 1" "\<not> fl_if s"
    "locks s (L_pipe p) = \<lparr>lk_locked = True, lk_cpu = Some c\<rparr>" "\<not> lk_locked (locks s L_ptable)"
    using thread_in_held [OF assms] by auto
  obtain t where t: "sleep ch (L_pipe p) s = Switch t"
    "ptable t = (ptable s)(q := (ptable s q)\<lparr>p_chan := Some ch, p_state := SLEEPING\<rparr>)"
    "locks t = (locks s)(L_ptable := \<lparr>lk_locked = True, lk_cpu = Some c\<rparr>, L_pipe p := \<lparr>lk_locked = False, lk_cpu = None\<rparr>)"
    "proc_st.more t = proc_st.more s"
    using sleep_eval [OF c(1-5) _ c(6), of ch] by auto
  have "pipes t = pipes s" using t(4) by (intro file_more) (simp add: sleep_st_more)
  then show ?thesis using t by (intro exI [of _ t]) (simp add: sleeping_def kseq_def kbind_def)
qed

lemma killed_in:
  assumes "thread_in {l} s" "cur s = Some q"
  shows "killed s = Ok (p_killed (ptable s q)) s"
proof -
  obtain c where c: "found s = Some c" "cproc (cpus s c) = Some q" "ncli (cpus s c) = 1" "\<not> fl_if s"
    using thread_in_held [OF assms] by auto
  then have "myproc s = Ok (Some q) s"
    by (simp add: myproc_def kseq_def kbind_def pushcli_eval mycpu_eval popcli_eval popped_pushed_nested)
  then show ?thesis by (simp add: killed_def curproc_def kbind_def)
qed

lemma thread_in_pipes [simp]:
  "thread_in L (s\<lparr>pipes := f\<rparr>) = thread_in L s" "cur (s\<lparr>pipes := f\<rparr>) = cur s"
  by (simp_all add: thread_in_def found_def cur_def split: option.split)


text \<open>
  C18. A pipe is a bounded queue for its writer.  Called with no lock held, \<open>pipewrite\<close> of bytes
  that fit appends them to the queue and returns their number.  Otherwise it appends as many as
  fit; then it gives up with \<open>-1\<close> if the read end is closed or the process was killed, and else
  sleeps on the write channel, with the pipe's lock free.  No byte is lost or overwritten, whatever
  the (wrapping) counters are.
\<close>

theorem pipewrite_bounded_queue:
  assumes "thread_in {} s" "cur s = Some q" "pipe_inv (pipes s p)"
    and "space = PIPESIZE - length (fifo (pipes s p))"
  shows "if length bs \<le> space
    then \<exists>t. pipewrite p bs s = Ok (int (length bs)) t \<and> thread_in {} t
        \<and> fifo (pipes t p) = fifo (pipes s p) @ bs \<and> pipe_inv (pipes t p)
    else \<exists>t. pipewrite p bs s = (if \<not> pi_readopen (pipes s p) \<or> p_killed (ptable s q) then Ok (-1) t else Switch t)
        \<and> fifo (pipes t p) = fifo (pipes s p) @ take space bs \<and> pipe_inv (pipes t p)
        \<and> \<not> lk_locked (locks t (L_pipe p))
        \<and> (pi_readopen (pipes s p) \<and> \<not> p_killed (ptable s q)
            \<longrightarrow> p_state (ptable t q) = SLEEPING \<and> p_chan (ptable t q) = Some (ChPipeWrite p))"
proof -
  obtain a where a: "acquire (L_pipe p) s = Ok () a" "thread_in {L_pipe p} a" "cur a = cur s" "pipes a = pipes s" "ptable a = ptable s"
    using pipe_lock [OF assms(1)] by blast
  have le: "length (fifo (pipes s p)) \<le> PIPESIZE" using assms(3) by (simp add: pipe_inv_def)
  have fit: "length (fifo (pipes a p)) + length (take space bs) \<le> PIPESIZE"
    using assms(4) le a(4) by (simp del: length_fifo)
  have i: "pipe_inv (pipes a p)" using assms(3) a(4) by simp
  show ?thesis
  proof (cases "length bs \<le> space")
    case True
    obtain r where r: "pipewrite_loop p (bs @ []) a = pipewrite_loop p [] (a\<lparr>pipes := (pipes a)(p := r)\<rparr>)"
      "fifo r = fifo (pipes s p) @ bs" "pipe_inv r"
      using pipewrite_loop_room [OF i fit, of "[]"] True a(4) by auto
    let ?b = "a\<lparr>pipes := (pipes a)(p := r)\<rparr>"
    obtain w where w: "wakeup (ChPipeRead p) ?b = Ok () w" "thread_in {L_pipe p} w" "pipes w = pipes ?b"
      using pipe_wakeup [of p ?b] a(2) by auto
    obtain t where t: "release (L_pipe p) w = Ok () t" "thread_in {} t" "pipes t = pipes w"
      using pipe_unlock [OF w(2)] by blast
    have "pipewrite p bs s = Ok (int (length bs)) t"
      using a(1) r(1) w(1) t(1) by (simp add: pipewrite_def kseq_def kbind_def)
    then show ?thesis using True t(2,3) w(3) r(2,3) by auto
  next
    case False
    obtain r where r: "pipewrite_loop p bs a = pipewrite_loop p (drop space bs) (a\<lparr>pipes := (pipes a)(p := r)\<rparr>)"
      "fifo r = fifo (pipes s p) @ take space bs" "pipe_inv r" "pi_readopen r = pi_readopen (pipes s p)"
      using pipewrite_loop_room [OF i fit, of "drop space bs"] a(4) by auto
    let ?b = "a\<lparr>pipes := (pipes a)(p := r)\<rparr>"
    obtain c cs where c: "drop space bs = c # cs" using False by (cases "drop space bs") auto
    have full: "pi_nwrite r = pi_nread r + of_nat PIPESIZE"
      unfolding pipe_full r(2) using False assms(4) le by simp
    have kb: "killed ?b = Ok (p_killed (ptable s q)) ?b"
      using killed_in [of "L_pipe p" ?b q] a(2,3,5) assms(2) by simp
    show ?thesis
    proof (cases "\<not> pi_readopen (pipes s p) \<or> p_killed (ptable s q)")
      case stop: True
      obtain t where t: "release (L_pipe p) ?b = Ok () t" "thread_in {} t" "pipes t = pipes ?b"
        using pipe_unlock [of p ?b] a(2) by auto
      have "pipewrite_loop p bs a = Ok False ?b"
        unfolding r(1) c using full stop kb r(4) by (auto simp: get_pipe_def kbind_def)
      then have "pipewrite p bs s = Ok (-1) t"
        using a(1) t(1) by (simp add: pipewrite_def kseq_def kbind_def)
      moreover have "\<not> lk_locked (locks t (L_pipe p))" using t(2) by (auto simp: thread_in_def)
      ultimately show ?thesis using False stop t(3) r(2,3) by auto
    next
      case go: False
      obtain w where w: "wakeup (ChPipeRead p) ?b = Ok () w" "thread_in {L_pipe p} w" "pipes w = pipes ?b" "cur w = cur ?b"
        using pipe_wakeup [of p ?b] a(2) by auto
      obtain t where t: "(sleeping (ChPipeWrite p) (L_pipe p) :: (bool, _) kern) w = Switch t" "pipes t = pipes w"
        "p_state (ptable t q) = SLEEPING" "p_chan (ptable t q) = Some (ChPipeWrite p)" "\<not> lk_locked (locks t (L_pipe p))"
        using pipe_sleeps [OF w(2), of q "ChPipeWrite p"] w(4) a(3) assms(2) by auto
      have "pipewrite_loop p bs a = Switch t"
        unfolding r(1) c using full go kb r(4) w(1) t(1) by (simp add: get_pipe_def kbind_def kseq_def)
      then have "pipewrite p bs s = Switch t"
        using a(1) by (simp add: pipewrite_def kseq_def kbind_def)
      then show ?thesis using False go t(2-5) w(3) r(2,3) by auto
    qed
  qed
qed


text \<open>A machine with one pipe that holds the bytes \<open>1, 2, 3\<close> at the end of its counters' range.\<close>

definition demo_pipe :: pipe where
  "demo_pipe = \<lparr>pi_data = (replicate 512 0)[510 := 1, 511 := 2, 0 := 3], pi_nread = 0xFFFFFFFE, pi_nwrite = 1,
     pi_readopen = True, pi_writeopen = True\<rparr>"

definition demo_file_st :: file_st where
  "demo_file_st = mem_st.extend demo_mem_st
     (file_st.fields (\<lambda>_. \<lparr>f_type = FD_NONE, f_ref = 0, f_readable = False, f_writable = False, f_pipe = 0, f_ip = None, f_off = 0\<rparr>)
        (\<lambda>_. demo_pipe))"

lemma demo_pipe: "pipe_inv demo_pipe" "fifo demo_pipe = [1, 2, 3]"
proof -
  have n: "unat (pi_nwrite demo_pipe - pi_nread demo_pipe) = 3" by (simp add: demo_pipe_def)
  show "pipe_inv demo_pipe" unfolding pipe_inv_def n by (simp add: demo_pipe_def PIPESIZE_def)
  have u: "[0..<3] = [0, 1, 2 :: nat]" by (simp add: upt_rec)
  show "fifo demo_pipe = [1, 2, 3]"
    unfolding fifo_def n ring_bytes_def u by (simp add: ring_at_def demo_pipe_def PIPESIZE_def)
qed

lemma demo_file: "thread_in {} demo_file_st" "cur demo_file_st = Some 0" "pipes demo_file_st = (\<lambda>_. demo_pipe)"
  "\<not> p_killed (ptable demo_file_st 0)"
proof -
  have f: "found demo_file_st = found demo_con_st" "cpus demo_file_st = cpus demo_con_st"
     "fl_if demo_file_st = fl_if demo_con_st" "locks demo_file_st = locks demo_con_st" "ptable demo_file_st = ptable demo_con_st"
    by (simp_all add: demo_file_st_def found_def file_st.defs mem_st.defs con_st.defs demo_mem_st_def)
  show "thread_in {} demo_file_st" using demo_con(3) unfolding thread_in_def f .
  have "cur demo_con_st = Some 0"
    by (simp add: cur_def found_def demo_con_st_def demo_fs_st_def demo_log_st_def demo_cpu_def fs_st.defs log_st.defs)
  then show "cur demo_file_st = Some 0" unfolding cur_def f .
  show "pipes demo_file_st = (\<lambda>_. demo_pipe)" by (simp add: demo_file_st_def mem_st.defs file_st.defs)
  show "\<not> p_killed (ptable demo_file_st 0)"
    unfolding f by (simp add: demo_con_st_def demo_fs_st_def demo_log_st_def fs_st.defs log_st.defs zero_proc_def)
qed

theorem pipewrite_bounded_queue_witness:
  "\<exists>t u. pipewrite 0 [4, 5] demo_file_st = Ok 2 t \<and> fifo (pipes t 0) = [1, 2, 3, 4, 5]
    \<and> pipewrite 0 (replicate 600 7) demo_file_st = Switch u \<and> length (fifo (pipes u 0)) = 512"
proof -
  have sp: "509 = PIPESIZE - length (fifo (pipes demo_file_st 0))"
    using demo_pipe(2) by (simp add: demo_file(3) PIPESIZE_def del: length_fifo)
  have i: "pipe_inv (pipes demo_file_st 0)" "pi_readopen (pipes demo_file_st 0)"
    using demo_pipe(1) by (simp_all add: demo_file(3)) (simp add: demo_pipe_def)
  have "\<exists>t. pipewrite 0 [4, 5] demo_file_st = Ok 2 t \<and> fifo (pipes t 0) = [1, 2, 3, 4, 5]"
    using pipewrite_bounded_queue [OF demo_file(1,2) i(1) sp, of "[4, 5]"] demo_pipe(2)
    by (auto simp: demo_file(3) simp del: length_fifo)
  moreover have "\<exists>u. pipewrite 0 (replicate 600 7) demo_file_st = Switch u \<and> fifo (pipes u 0) = [1, 2, 3] @ replicate 509 7"
    using pipewrite_bounded_queue [OF demo_file(1,2) i(1) sp, of "replicate 600 7"] i(2) demo_file(4) demo_pipe(2)
    by (auto simp: demo_file(3) simp del: length_fifo)
  then have "\<exists>u. pipewrite 0 (replicate 600 7) demo_file_st = Switch u \<and> length (fifo (pipes u 0)) = 512"
    by (auto simp del: length_fifo)
  ultimately show ?thesis by blast
qed

text \<open>
  C19. And for its reader: \<open>piperead\<close> of at most \<open>n\<close> bytes takes the first \<open>n\<close> bytes of the queue, in
  the order they were written, all of them if there are fewer, and returns their number.  From an
  empty pipe it returns 0 once the write end is closed, \<open>-1\<close> if the process was killed, and
  otherwise sleeps on the read channel, with the pipe's lock free.
\<close>

theorem piperead_takes_first:
  assumes "thread_in {} s" "cur s = Some q" "pipe_inv (pipes s p)" "xs = fifo (pipes s p)"
  shows "if xs = [] \<and> pi_writeopen (pipes s p)
    then \<exists>t. piperead p n s = (if p_killed (ptable s q) then Ok (-1, []) t else Switch t)
        \<and> pipes t p = pipes s p \<and> \<not> lk_locked (locks t (L_pipe p))
        \<and> (\<not> p_killed (ptable s q) \<longrightarrow> p_state (ptable t q) = SLEEPING \<and> p_chan (ptable t q) = Some (ChPipeRead p))
    else \<exists>t. piperead p n s = Ok (int (min (nat n) (length xs)), take (nat n) xs) t \<and> thread_in {} t
        \<and> fifo (pipes t p) = drop (nat n) xs \<and> pipe_inv (pipes t p)"
proof -
  obtain a where a: "acquire (L_pipe p) s = Ok () a" "thread_in {L_pipe p} a" "cur a = cur s" "pipes a = pipes s" "ptable a = ptable s"
    using pipe_lock [OF assms(1)] by blast
  have ka: "killed a = Ok (p_killed (ptable s q)) a" using killed_in [OF a(2), of q] a(3,5) assms(2) by simp
  show ?thesis
  proof (cases "xs = [] \<and> pi_writeopen (pipes s p)")
    case True
    then have e: "pi_nread (pipes a p) = pi_nwrite (pipes a p)" "pi_writeopen (pipes a p)"
      using a(4) assms(4) pipe_empty [of "pipes s p"] by auto
    show ?thesis
    proof (cases "p_killed (ptable s q)")
      case k: True
      obtain t where t: "release (L_pipe p) a = Ok () t" "thread_in {} t" "pipes t = pipes a"
        using pipe_unlock [OF a(2)] by blast
      have "piperead p n s = Ok (-1, []) t"
        using a(1) e ka k t(1) by (simp add: piperead_def get_pipe_def kseq_def kbind_def)
      moreover have "\<not> lk_locked (locks t (L_pipe p))" using t(2) by (auto simp: thread_in_def)
      ultimately show ?thesis using True k t(3) a(4) by auto
    next
      case k: False
      obtain t where t: "(sleeping (ChPipeRead p) (L_pipe p) :: (int \<times> u8 list, _) kern) a = Switch t" "pipes t = pipes a"
        "p_state (ptable t q) = SLEEPING" "p_chan (ptable t q) = Some (ChPipeRead p)" "\<not> lk_locked (locks t (L_pipe p))"
        using pipe_sleeps [OF a(2), of q "ChPipeRead p"] a(3) assms(2) by auto
      have "piperead p n s = Switch t"
        using a(1) e ka k t(1) by (simp add: piperead_def get_pipe_def kseq_def kbind_def)
      then show ?thesis using True k t(2-5) a(4) by auto
    qed
  next
    case False
    then have e: "\<not> (pi_nread (pipes a p) = pi_nwrite (pipes a p) \<and> pi_writeopen (pipes a p))"
      using a(4) assms(4) pipe_empty [of "pipes s p"] by auto
    obtain r where r: "piperead_copy p (nat n) a = Ok (take (nat n) xs) (a\<lparr>pipes := (pipes a)(p := r)\<rparr>)"
      "fifo r = drop (nat n) xs" "pipe_inv r"
      using piperead_copy_eval [of a p "nat n"] a(4) assms(3,4) by auto
    let ?b = "a\<lparr>pipes := (pipes a)(p := r)\<rparr>"
    obtain w where w: "wakeup (ChPipeWrite p) ?b = Ok () w" "thread_in {L_pipe p} w" "pipes w = pipes ?b"
      using pipe_wakeup [of p ?b] a(2) by auto
    obtain t where t: "release (L_pipe p) w = Ok () t" "thread_in {} t" "pipes t = pipes w"
      using pipe_unlock [OF w(2)] by blast
    have "piperead p n s = Ok (int (length (take (nat n) xs)), take (nat n) xs) t"
      using a(1) e r(1) w(1) t(1)
      by (cases "pi_writeopen (pipes a p)") (simp_all add: piperead_def get_pipe_def kseq_def kbind_def del: length_take)
    then show ?thesis using False t(2,3) w(3) r(2,3) by (auto simp: min.commute)
  qed
qed

theorem piperead_takes_first_witness:
  "\<exists>t. piperead 0 2 demo_file_st = Ok (2, [1, 2]) t \<and> fifo (pipes t 0) = [3]"
  using piperead_takes_first [OF demo_file(1,2), of 0 "[1, 2, 3]" 2] demo_pipe
  by (auto simp: demo_file(3))

end
