(* ===== verification/Procs.thy ===== *)
theory Procs
  imports File
begin

text \<open>
  The life of a process (\<open>proc.c\<close> of xv6-public_1): \<open>allocproc\<close>, \<open>userinit\<close>, \<open>growproc\<close>,
  \<open>fork\<close>, \<open>exit\<close> with the exit history, \<open>wait\<close>, the scheduler and \<open>forkret\<close>.  The trap frame
  and the context at the top of the kernel stack are kept by value in the process; the return
  address between them is stored in the stack page.  The addresses of the routines
  \<open>forkret\<close> and \<open>trapret\<close> are constants of the kernel image, kept in the state.
\<close>

section \<open>Data\<close>

definition MAX_LIMIT :: nat where [const_defs]: "MAX_LIMIT = 64"
definition FL_IF :: u32 where [const_defs]: "FL_IF = 0x200"
definition DPL_USER :: u16 where [const_defs]: "DPL_USER = 3"
definition SEG_UCODE :: u16 where [const_defs]: "SEG_UCODE = 3"
definition SEG_UDATA :: u16 where [const_defs]: "SEG_UDATA = 4"

record history_struct =
  h_pid :: int
  h_name :: "u8 list"
  h_total :: u32
  h_time :: u32

record run_st = file_st +
  hist_arr :: "history_struct list"
  hist_count :: nat
  forkret_first :: bool
  sym_forkret :: u32
  sym_trapret :: u32
  kbd_shift :: u32

text \<open>\<open>safestrcpy(name, t, 16)\<close> into a 16-byte name.\<close>

definition safestrcpy_name :: "u8 list \<Rightarrow> u8 list \<Rightarrow> u8 list" where
  "safestrcpy_name old t =
     (let m = safestrcpy 0 16 16 (\<lambda>a. if a < 16 then old ! a else byte_at t (a - 16)) in map m [0..<16])"

section \<open>Creating processes\<close>

definition allocproc :: "(nat option, 'x run_st_scheme) kern" where
  "allocproc =
     kseq (acquire L_ptable) (
     kbind (kget (\<lambda>s. find (\<lambda>i. p_state (ptable s i) = UNUSED) [0..<NPROC])) (\<lambda>r.
     case r of
       None \<Rightarrow> kseq (release L_ptable) (kret None)
     | Some p \<Rightarrow>
         kseq (upd_proc p (\<lambda>r. r\<lparr>p_state := EMBRYO\<rparr>)) (
         kseq (kmod (\<lambda>s. s\<lparr>ptable := (ptable s)(p := (ptable s p)\<lparr>p_pid := nextpid s\<rparr>), nextpid := nextpid s + 1\<rparr>)) (
         kseq (upd_proc p (\<lambda>r. r\<lparr>p_check := False\<rparr>)) (
         kseq (release L_ptable) (
         kbind kalloc (\<lambda>k.
         kseq (upd_proc p (\<lambda>r. r\<lparr>p_kstack := k\<rparr>)) (
         if k = 0 then
           kseq (upd_proc p (\<lambda>r. r\<lparr>p_state := UNUSED\<rparr>)) (kret None)
         else
           kbind (kget sym_trapret) (\<lambda>tr.
           kbind (kget sym_forkret) (\<lambda>fr.
           kseq (wr32 (k + KSTACKSIZE - 76 - 4) tr) (
           kseq (upd_proc p (\<lambda>r. r\<lparr>p_context := zero_context\<lparr>ctx_eip := fr\<rparr>\<rparr>))
                (kret (Some p)))))))))))))"

text \<open>\<open>init\<close> is the image \<open>_binary_initcode_start\<close> that the build links in.\<close>

definition userinit ::
  "(nat \<Rightarrow> 'x run_st_scheme devsw) \<Rightarrow> u8 list \<Rightarrow> (unit, 'x run_st_scheme) kern" where
  "userinit devsw init =
     kbind allocproc (\<lambda>r.
     kseq (kmod (\<lambda>s. s\<lparr>initproc := r\<rparr>)) (
     case r of
       None \<Rightarrow> kundef
     | Some p \<Rightarrow>
         kbind setupkvm (\<lambda>d.
         kseq (upd_proc p (\<lambda>r. r\<lparr>p_pgdir := d\<rparr>)) (
         if d = 0 then kpanic ''userinit: out of memory?''
         else
           kseq (inituvm d init) (
           kseq (upd_proc p (\<lambda>r. r\<lparr>p_sz := PGSIZE\<rparr>)) (
           kseq (upd_proc p (\<lambda>r. r\<lparr>p_tf := zero_tf\<lparr>tf_cs := push_bit 3 SEG_UCODE OR DPL_USER,
                   tf_ds := push_bit 3 SEG_UDATA OR DPL_USER, tf_es := push_bit 3 SEG_UDATA OR DPL_USER,
                   tf_ss := push_bit 3 SEG_UDATA OR DPL_USER, tf_eflags := FL_IF, tf_esp := PGSIZE,
                   tf_eip := 0\<rparr>\<rparr>)) (
           kseq (upd_proc p (\<lambda>r. r\<lparr>p_name := safestrcpy_name (p_name r) (str ''initcode'')\<rparr>)) (
           kbind (namei devsw (str ''/'')) (\<lambda>c.
           kseq (upd_proc p (\<lambda>r. r\<lparr>p_cwd := c\<rparr>)) (
           kseq (acquire L_ptable) (
           kseq (upd_proc p (\<lambda>r. r\<lparr>p_state := RUNNABLE\<rparr>))
                (release L_ptable))))))))))))"

definition growproc :: "int \<Rightarrow> (int, 'x run_st_scheme) kern" where
  "growproc n =
     kbind curproc (\<lambda>p.
     kbind (kget (\<lambda>s. ptable s p)) (\<lambda>r.
     kbind (if 0 < n then
              kbind (allocuvm (p_pgdir r) (p_sz r) (p_sz r + word_of_int n)) (\<lambda>sz. kret (if sz = 0 then None else Some sz))
            else if n < 0 then
              kbind (deallocuvm (p_pgdir r) (p_sz r) (p_sz r + word_of_int n)) (\<lambda>sz. kret (if sz = 0 then None else Some sz))
            else kret (Some (p_sz r))) (\<lambda>sz.
     case sz of
       None \<Rightarrow> kret (-1)
     | Some sz \<Rightarrow>
         kseq (upd_proc p (\<lambda>r. r\<lparr>p_sz := sz\<rparr>)) (
         kseq (switchuvm (Some p)) (kret 0)))))"

definition fork :: "(int, 'x run_st_scheme) kern" where
  "fork =
     kbind curproc (\<lambda>cp.
     kbind allocproc (\<lambda>r.
     case r of
       None \<Rightarrow> kret (-1)
     | Some np \<Rightarrow>
         kbind (kget (\<lambda>s. ptable s cp)) (\<lambda>c.
         kbind (copyuvm (p_pgdir c) (p_sz c)) (\<lambda>d.
         kseq (upd_proc np (\<lambda>r. r\<lparr>p_pgdir := d\<rparr>)) (
         if d = 0 then
           kbind (kget (\<lambda>s. p_kstack (ptable s np))) (\<lambda>k.
           kseq (kfree k) (
           kseq (upd_proc np (\<lambda>r. r\<lparr>p_kstack := 0, p_state := UNUSED\<rparr>))
                (kret (-1))))
         else
           kseq (upd_proc np (\<lambda>r. r\<lparr>p_sz := p_sz c, p_parent := Some cp, p_tf := (p_tf c)\<lparr>tf_eax := 0\<rparr>\<rparr>)) (
           kseq (kfor [0..<NOFILE] (\<lambda>i.
             kbind (kget (\<lambda>s. p_ofile (ptable s cp) ! i)) (\<lambda>f.
             case f of
               None \<Rightarrow> kret ()
             | Some f \<Rightarrow>
                 kbind (filedup f) (\<lambda>g.
                 upd_proc np (\<lambda>r. r\<lparr>p_ofile := (p_ofile r)[i := Some g]\<rparr>))))) (
           kbind (kget (\<lambda>s. p_cwd (ptable s cp))) (\<lambda>w.
           case w of
             None \<Rightarrow> kundef
           | Some ip \<Rightarrow>
               kbind (idup ip) (\<lambda>ip.
               kseq (upd_proc np (\<lambda>r. r\<lparr>p_cwd := Some ip\<rparr>)) (
               kseq (upd_proc np (\<lambda>r. r\<lparr>p_name := safestrcpy_name (p_name r) (p_name c)\<rparr>)) (
               kbind (kget (\<lambda>s. p_pid (ptable s np))) (\<lambda>pid.
               kseq (upd_proc np (\<lambda>r. r\<lparr>p_shell_pid := p_shell_pid c\<rparr>)) (
               kseq (upd_proc np (\<lambda>r. r\<lparr>p_blocked := p_blocked c\<rparr>)) (
               kseq (acquire L_ptable) (
               kseq (upd_proc np (\<lambda>r. r\<lparr>p_state := RUNNABLE\<rparr>)) (
               kseq (release L_ptable) (kret pid)))))))))))))))))"

section \<open>exit and wait\<close>

text \<open>The record \<open>exit\<close> adds to the history.\<close>

definition record_exit :: "nat \<Rightarrow> (unit, 'x run_st_scheme) kern" where
  "record_exit cp =
     kbind (kget (\<lambda>s. p_sz (ptable s cp))) (\<lambda>memUsage.
     kseq (acquire L_hist) (
     kseq (kmod (\<lambda>s. if hist_count s < MAX_LIMIT \<and> p_check (ptable s cp) then
         s\<lparr>hist_arr := (hist_arr s)[hist_count s := (hist_arr s ! hist_count s)\<lparr>h_pid := p_pid (ptable s cp),
              h_name := safestrcpy_name (h_name (hist_arr s ! hist_count s)) (p_name (ptable s cp)),
              h_total := memUsage\<rparr>],
           hist_count := hist_count s + 1\<rparr>
       else s))
          (release L_hist)))"

definition exit :: "(unit, 'x run_st_scheme) kern" where
  "exit =
     kbind curproc (\<lambda>cp.
     kbind (kget (\<lambda>s. initproc s = Some cp)) (\<lambda>b.
     if b then kpanic ''init exiting''
     else
       kseq (kfor [0..<NOFILE] (\<lambda>fd.
         kbind (kget (\<lambda>s. p_ofile (ptable s cp) ! fd)) (\<lambda>f.
         case f of
           None \<Rightarrow> kret ()
         | Some f \<Rightarrow>
             kseq (fileclose f)
                  (upd_proc cp (\<lambda>r. r\<lparr>p_ofile := (p_ofile r)[fd := None]\<rparr>))))) (
       kseq begin_op (
       kbind (kget (\<lambda>s. p_cwd (ptable s cp))) (\<lambda>w.
       kseq (case w of None \<Rightarrow> kundef | Some ip \<Rightarrow> iput ip) (
       kseq end_op (
       kseq (upd_proc cp (\<lambda>r. r\<lparr>p_cwd := None\<rparr>)) (
       kseq (acquire L_ptable) (
       kbind (kget (\<lambda>s. p_parent (ptable s cp))) (\<lambda>pp.
       kseq (case pp of None \<Rightarrow> kret () | Some q \<Rightarrow> wakeup1 (ChProc q)) (
       kbind (kget initproc) (\<lambda>ip.
       kseq (kfor [0..<NPROC] (\<lambda>i.
         kbind (kget (\<lambda>s. ptable s i)) (\<lambda>r.
         if p_parent r = Some cp then
           kseq (upd_proc i (\<lambda>r. r\<lparr>p_parent := ip\<rparr>))
                (kwhen (p_state r = ZOMBIE) (case ip of None \<Rightarrow> kret () | Some q \<Rightarrow> wakeup1 (ChProc q)))
         else kret ()))) (
       kseq (record_exit cp) (
       kseq (upd_proc cp (\<lambda>r. r\<lparr>p_state := ZOMBIE\<rparr>)) (
       kseq sched (kpanic ''zombie exit''))))))))))))))))"

text \<open>What \<open>wait\<close> does with a zombie child.\<close>

definition reap :: "nat \<Rightarrow> (int, 'x run_st_scheme) kern" where
  "reap i =
     kbind (kget (\<lambda>s. ptable s i)) (\<lambda>r.
     kseq (kfree (p_kstack r)) (
     kseq (upd_proc i (\<lambda>r. r\<lparr>p_kstack := 0\<rparr>)) (
     kseq (freevm (p_pgdir r)) (
     kseq (upd_proc i (\<lambda>r. r\<lparr>p_pid := 0, p_parent := None, p_name := (p_name r)[0 := 0], p_killed := False,
             p_state := UNUSED\<rparr>)) (
     kseq (release L_ptable)
          (kret (p_pid r)))))))"

text \<open>One pass of its loop; when there is a child but no zombie it ends in \<open>sleep\<close>.\<close>

definition wait_loop :: "(int, 'x run_st_scheme) kern" where
  "wait_loop =
     kbind curproc (\<lambda>cp.
     kbind (kget (\<lambda>s. find (\<lambda>i. p_parent (ptable s i) = Some cp \<and> p_state (ptable s i) = ZOMBIE) [0..<NPROC])) (\<lambda>z.
     case z of
       Some i \<Rightarrow> reap i
     | None \<Rightarrow>
         kbind (kget (\<lambda>s. \<exists>i \<in> set [0..<NPROC]. p_parent (ptable s i) = Some cp)) (\<lambda>havekids.
         kbind (kget (\<lambda>s. p_killed (ptable s cp))) (\<lambda>kl.
         if \<not> havekids \<or> kl then kseq (release L_ptable) (kret (-1))
         else sleeping (ChProc cp) L_ptable))))"

definition wait :: "(int, 'x run_st_scheme) kern" where
  "wait = kseq (acquire L_ptable) wait_loop"

section \<open>The scheduler\<close>

text \<open>\<open>scheduler_from i\<close> is the scan of the process table from entry \<open>i\<close> on: it switches to the
  first runnable process (\<open>swtch\<close> ends the run of the scheduler's thread), or ends the round by
  releasing \<open>ptable.lock\<close>.  \<open>scheduler_back i\<close> is what runs when the process in entry \<open>i\<close>
  switches back.\<close>

definition scheduler_from :: "nat \<Rightarrow> (unit, 'x run_st_scheme) kern" where
  "scheduler_from i =
     kbind mycpu (\<lambda>c.
     kbind (kget (\<lambda>s. find (\<lambda>p. p_state (ptable s p) = RUNNABLE) [i..<NPROC])) (\<lambda>r.
     case r of
       None \<Rightarrow> release L_ptable
     | Some p \<Rightarrow>
         kseq (upd_cpu c (\<lambda>r. r\<lparr>cproc := Some p\<rparr>)) (
         kseq (switchuvm (Some p)) (
         kseq (upd_proc p (\<lambda>r. r\<lparr>p_state := RUNNING\<rparr>))
              (\<lambda>s. Switch s)))))"

definition scheduler_back :: "nat \<Rightarrow> (unit, 'x run_st_scheme) kern" where
  "scheduler_back i =
     kseq switchkvm (
     kbind mycpu (\<lambda>c.
     kseq (upd_cpu c (\<lambda>r. r\<lparr>cproc := None\<rparr>))
          (scheduler_from (i + 1))))"

definition scheduler_round :: "(unit, 'x run_st_scheme) kern" where
  "scheduler_round = kseq sti (kseq (acquire L_ptable) (scheduler_from 0))"

definition forkret :: "(unit, 'x run_st_scheme) kern" where
  "forkret =
     kseq (release L_ptable) (
     kbind (kget forkret_first) (\<lambda>b.
     kwhen b (
       kseq (kmod (\<lambda>s. s\<lparr>forkret_first := False\<rparr>)) (
       kseq (iinit ROOTDEV)
            (initlog ROOTDEV)))))"

section \<open>Locks leave the rest of the state alone\<close>

lemma run_more:
  assumes "cpu_frame s t"
  shows "ptable t = ptable s" "nextpid t = nextpid s" "initproc t = initproc s" "ticks t = ticks s"
    "kmem t = kmem s" "kend t = kend s" "cr3 t = cr3 s" "ftable t = ftable s" "pipes t = pipes s"
    "hist_arr t = hist_arr s" "hist_count t = hist_count s" "cur t = cur s" "found t = found s"
    "freelist t = freelist s" "use_lock t = use_lock s"
  using assms by (cases s, cases t, simp add: cpu_frame_def)+

lemma thread_in_upd [simp]:
  "thread_in L (s\<lparr>kmem := m\<rparr>) = thread_in L s" "thread_in L (s\<lparr>hist_arr := h\<rparr>) = thread_in L s"
  "thread_in L (s\<lparr>hist_count := n\<rparr>) = thread_in L s" "thread_in L (s\<lparr>ptable := f\<rparr>) = thread_in L s"
  "thread_in L (s\<lparr>pipes := p\<rparr>) = thread_in L s" "thread_in L (s\<lparr>ftable := g\<rparr>) = thread_in L s"
  "cur (s\<lparr>kmem := m\<rparr>) = cur s" "cur (s\<lparr>hist_arr := h\<rparr>) = cur s" "cur (s\<lparr>ptable := f\<rparr>) = cur s"
  "cur (s\<lparr>hist_count := n\<rparr>) = cur s" "cur (s\<lparr>pipes := p\<rparr>) = cur s" "cur (s\<lparr>ftable := g\<rparr>) = cur s"
  by (simp_all add: thread_in_def found_def cur_def split: option.split)



text \<open>A machine that runs process 0 with the user pages 0 and 1, for closed instances.\<close>

definition demo_run_st :: run_st where
  "demo_run_st = file_st.extend (mem_st.extend
      (demo_mem_st\<lparr>kmem := demo_user_mem, cr3 := 0x400000, freelist := 0x80404000,
         ptable := (\<lambda>_. zero_proc)(0 := zero_proc\<lparr>p_state := RUNNING, p_pid := 1, p_pgdir := 0x80400000,
           p_sz := 0x2000, p_kstack := 0x80405000\<rparr>)\<rparr>)
      (file_st.fields (\<lambda>_. \<lparr>f_type = FD_NONE, f_ref = 0, f_readable = False, f_writable = False, f_pipe = 0, f_ip = None, f_off = 0\<rparr>)
        (\<lambda>_. \<lparr>pi_data = replicate 512 0, pi_nread = 0, pi_nwrite = 0, pi_readopen = False, pi_writeopen = False\<rparr>)))
    (run_st.fields (replicate 64 \<lparr>h_pid = 0, h_name = replicate 16 0, h_total = 0, h_time = 0\<rparr>) 0 True 0x80103000 0x80105000 0)"

lemma demo_run_fields:
  "kmem demo_run_st = demo_user_mem" "freelist demo_run_st = 0x80404000" "use_lock demo_run_st = False"
  "kend demo_run_st = 0x80115000" "cr3 demo_run_st = 0x400000"
  "ptable demo_run_st = (\<lambda>_. zero_proc)(0 := zero_proc\<lparr>p_state := RUNNING, p_pid := 1, p_pgdir := 0x80400000,
           p_sz := 0x2000, p_kstack := 0x80405000\<rparr>)"
  "hist_arr demo_run_st = replicate 64 \<lparr>h_pid = 0, h_name = replicate 16 0, h_total = 0, h_time = 0\<rparr>"
  "hist_count demo_run_st = 0"
  by (simp_all add: demo_run_st_def file_st.defs mem_st.defs run_st.defs con_st.defs demo_mem_st_def demo_con_st_def)

lemma demo_run_in: "thread_in {} demo_run_st" "cur demo_run_st = Some 0"
proof -
  have f: "found demo_run_st = found demo_con_st" "cpus demo_run_st = cpus demo_con_st"
     "fl_if demo_run_st = fl_if demo_con_st" "locks demo_run_st = locks demo_con_st"
    by (simp_all add: demo_run_st_def found_def file_st.defs mem_st.defs run_st.defs con_st.defs demo_mem_st_def)
  show "thread_in {} demo_run_st" using demo_con(3) unfolding thread_in_def f .
  have "cur demo_con_st = Some 0"
    by (simp add: cur_def found_def demo_con_st_def demo_fs_st_def demo_log_st_def demo_cpu_def fs_st.defs log_st.defs)
  then show "cur demo_run_st = Some 0" unfolding cur_def f .
qed

section \<open>What the scheduler does\<close>

lemma found_cr3 [simp]: "found (s\<lparr>cr3 := x\<rparr>) = found s"
  by (simp add: found_def)

lemma nested_switchuvm:
  assumes "found s = Some c" "\<not> fl_if s" "0 < ncli (cpus s c)"
    and "p_kstack (ptable s p) \<noteq> 0" "p_pgdir (ptable s p) \<noteq> 0"
  shows "switchuvm (Some p) s = Ok () (s\<lparr>cr3 := V2P (p_pgdir (ptable s p))\<rparr>)"
proof -
  let ?u = "(pushed c s)\<lparr>cr3 := V2P (p_pgdir (ptable s p))\<rparr>"
  have "?u = pushed c (s\<lparr>cr3 := V2P (p_pgdir (ptable s p))\<rparr>)" by (simp add: pushed_def)
  moreover have "popped c (pushed c (s\<lparr>cr3 := V2P (p_pgdir (ptable s p))\<rparr>)) = s\<lparr>cr3 := V2P (p_pgdir (ptable s p))\<rparr>"
    using assms by (intro popped_pushed_nested) auto
  moreover have "found ?u = Some c" "ncli (cpus ?u c) = ncli (cpus s c) + 1" "\<not> fl_if ?u"
    using assms(1) by simp_all
  moreover have "popcli ?u = Ok () (popped c ?u)"
    using assms(3) calculation(3-5) by (simp add: popcli_eval)
  ultimately show ?thesis
    using assms by (simp add: switchuvm_def kbind_def kseq_def pushcli_eval mycpu_eval)
qed

definition first_runnable :: "(nat \<Rightarrow> proc) \<Rightarrow> nat \<Rightarrow> nat option" where
  "first_runnable pt i = find (\<lambda>p. p_state (pt p) = RUNNABLE) [i..<NPROC]"

definition dispatched :: "nat \<Rightarrow> nat \<Rightarrow> 'x mem_st_scheme \<Rightarrow> 'x mem_st_scheme" where
  "dispatched c p s = s\<lparr>cpus := (cpus s)(c := (cpus s c)\<lparr>cproc := Some p\<rparr>), cr3 := V2P (p_pgdir (ptable s p)),
     ptable := (ptable s)(p := (ptable s p)\<lparr>p_state := RUNNING\<rparr>)\<rparr>"

lemma cur_dispatched: "found s = Some c \<Longrightarrow> cur (dispatched c p s) = Some p"
proof -
  assume a: "found s = Some c"
  have "found (dispatched c p s) = found (s\<lparr>cpus := (cpus s)(c := (cpus s c)\<lparr>cproc := Some p\<rparr>)\<rparr>)"
    by (simp add: dispatched_def found_def)
  also have "\<dots> = Some c" using a by (simp add: found_upd_cpus)
  finally have f: "found (dispatched c p s) = Some c" .
  show ?thesis unfolding cur_def f by (simp add: dispatched_def)
qed

lemma first_runnable_Some:
  assumes "first_runnable pt i = Some p"
  shows "i \<le> p" "p < NPROC" "p_state (pt p) = RUNNABLE" "\<And>q. i \<le> q \<Longrightarrow> q < p \<Longrightarrow> p_state (pt q) \<noteq> RUNNABLE"
proof -
  obtain n where n: "n < length [i..<NPROC]" "p_state (pt ([i..<NPROC] ! n)) = RUNNABLE" "p = [i..<NPROC] ! n"
    "\<forall>m < n. p_state (pt ([i..<NPROC] ! m)) \<noteq> RUNNABLE"
    using assms by (auto simp: first_runnable_def find_Some_iff)
  then have p: "p = i + n" "i + n < NPROC" by auto
  then show "i \<le> p" "p < NPROC" "p_state (pt p) = RUNNABLE" using n by auto
  fix q assume q: "i \<le> q" "q < p"
  then have "q - i < n" "[i..<NPROC] ! (q - i) = q" using p by auto
  then show "p_state (pt q) \<noteq> RUNNABLE" using n(4) by metis
qed

lemma first_runnable_None: "first_runnable pt i = None \<longleftrightarrow> (\<forall>q. i \<le> q \<and> q < NPROC \<longrightarrow> p_state (pt q) \<noteq> RUNNABLE)"
  by (auto simp: first_runnable_def find_None_iff)

lemma scheduler_from_eval:
  assumes "found s = Some c" "\<not> fl_if s" "0 < ncli (cpus s c)"
  shows "scheduler_from i s =
    (case first_runnable (ptable s) i of
       None \<Rightarrow> release L_ptable s
     | Some p \<Rightarrow>
         if p_kstack (ptable s p) = 0 then Panic ''switchuvm: no kstack''
         else if p_pgdir (ptable s p) = 0 then Panic ''switchuvm: no pgdir''
         else Switch (dispatched c p s))"
proof (cases "first_runnable (ptable s) i")
  case None
  then show ?thesis using assms by (simp add: scheduler_from_def first_runnable_def kbind_def mycpu_eval)
next
  case (Some p)
  let ?s = "s\<lparr>cpus := (cpus s)(c := (cpus s c)\<lparr>cproc := Some p\<rparr>)\<rparr>"
  have f: "found ?s = Some c" "\<not> fl_if ?s" "0 < ncli (cpus ?s c)" using assms by (simp_all add: found_upd_cpus)
  consider "p_kstack (ptable s p) = 0" | "p_kstack (ptable s p) \<noteq> 0" "p_pgdir (ptable s p) = 0"
    | "p_kstack (ptable s p) \<noteq> 0" "p_pgdir (ptable s p) \<noteq> 0" by blast
  then show ?thesis
  proof cases
    case 3
    then show ?thesis
      using Some assms nested_switchuvm [OF f, of p]
      by (simp add: scheduler_from_def first_runnable_def kbind_def kseq_def mycpu_eval upd_cpu_def upd_proc_def dispatched_def)
  qed (use Some assms in \<open>simp_all add: scheduler_from_def first_runnable_def kbind_def kseq_def mycpu_eval upd_cpu_def switchuvm_def\<close>)
qed

text \<open>
  A round of the scheduler, with \<open>ptable.lock\<close> held, dispatches the first runnable process at or
  after the entry the scan has reached: it becomes RUNNING and the CPU's process, the processor
  uses its page table, and no other process changes; the scheduler's thread stops there.  If no
  entry is runnable the round ends by giving \<open>ptable.lock\<close> back.
\<close>

theorem scheduler_dispatches_first:
  assumes "found s = Some c" "\<not> fl_if s" "0 < ncli (cpus s c)" "locks s L_ptable = \<lparr>lk_locked = True, lk_cpu = Some c\<rparr>"
    and "\<forall>p < NPROC. p_state (ptable s p) = RUNNABLE \<longrightarrow> p_kstack (ptable s p) \<noteq> 0 \<and> p_pgdir (ptable s p) \<noteq> 0"
  shows "(\<exists>p t. scheduler_from i s = Switch t \<and> i \<le> p \<and> p < NPROC \<and> p_state (ptable s p) = RUNNABLE
        \<and> (\<forall>q. i \<le> q \<and> q < p \<longrightarrow> p_state (ptable s q) \<noteq> RUNNABLE)
        \<and> ptable t = (ptable s)(p := (ptable s p)\<lparr>p_state := RUNNING\<rparr>)
        \<and> cur t = Some p \<and> cr3 t = V2P (p_pgdir (ptable s p)) \<and> locks t = locks s)
    \<or> (\<exists>t. scheduler_from i s = Ok () t \<and> (\<forall>q. i \<le> q \<and> q < NPROC \<longrightarrow> p_state (ptable s q) \<noteq> RUNNABLE)
        \<and> \<not> lk_locked (locks t L_ptable) \<and> ptable t = ptable s)"
proof (cases "first_runnable (ptable s) i")
  case None
  then have "\<forall>q. i \<le> q \<and> q < NPROC \<longrightarrow> p_state (ptable s q) \<noteq> RUNNABLE"
    by (simp add: first_runnable_None)
  moreover obtain t where t: "scheduler_from i s = Ok () t" "release L_ptable s = Ok () t"
    using scheduler_from_eval [OF assms(1-3), of i] release_eval [OF assms(1,3,2), of L_ptable] assms(4) None by auto
  ultimately show ?thesis
    using release_Ok [OF t(2)] cpu_frame_proc_st(1) [of s t] by (intro disjI2 exI [of _ t]) simp
next
  case (Some p)
  note p = first_runnable_Some [OF Some]
  have "scheduler_from i s = Switch (dispatched c p s)"
    using scheduler_from_eval [OF assms(1-3), of i] Some assms(5) p by simp
  moreover have "cur (dispatched c p s) = Some p" by (rule cur_dispatched [OF assms(1)])
  ultimately show ?thesis using p by (intro disjI1 exI [of _ p] exI [of _ "dispatched c p s"]) (simp add: dispatched_def)
qed

text \<open>A scheduler thread over a table in which the processes \<open>R\<close> are runnable.\<close>

definition demo_sched :: "nat set \<Rightarrow> run_st" where
  "demo_sched R = demo_run_st\<lparr>fl_if := False, cpus := demo_cpu True 1,
      locks := (locks demo_run_st)(L_ptable := \<lparr>lk_locked = True, lk_cpu = Some 0\<rparr>),
      ptable := (\<lambda>i. if i \<in> R then (ptable demo_run_st 0)\<lparr>p_state := RUNNABLE\<rparr> else zero_proc)\<rparr>"

lemma demo_sched:
  "found (demo_sched R) = Some 0" "\<not> fl_if (demo_sched R)" "0 < ncli (cpus (demo_sched R) 0)"
  "locks (demo_sched R) L_ptable = \<lparr>lk_locked = True, lk_cpu = Some 0\<rparr>"
  "p_state (ptable (demo_sched R) i) = RUNNABLE \<longleftrightarrow> i \<in> R"
  "i \<in> R \<Longrightarrow> p_kstack (ptable (demo_sched R) i) \<noteq> 0 \<and> p_pgdir (ptable (demo_sched R) i) \<noteq> 0"
proof -
  show "found (demo_sched R) = Some 0"
    by (simp add: demo_sched_def found_def demo_cpu_def demo_run_st_def file_st.defs mem_st.defs con_st.defs fs_st.defs log_st.defs
        demo_mem_st_def demo_con_st_def demo_fs_st_def demo_log_st_def)
qed (simp_all add: demo_sched_def demo_cpu_def demo_run_fields zero_proc_def)

lemma demo_sched_runs:
  assumes "first_runnable (ptable (demo_sched R)) i = Some p"
  shows "scheduler_from i (demo_sched R) = Switch (dispatched 0 p (demo_sched R))"
  using scheduler_from_eval [OF demo_sched(1-3) [of R], of i] assms first_runnable_Some(3) [OF assms] demo_sched(5,6) [where R = R] by simp

theorem scheduler_dispatches_first_witness:
  "\<exists>t. scheduler_from 0 (demo_sched {3, 5}) = Switch t \<and> p_state (ptable t 3) = RUNNING \<and> cur t = Some 3"
proof -
  let ?s = "demo_sched {3, 5}"
  have "(\<exists>p t. scheduler_from 0 ?s = Switch t \<and> 0 \<le> p \<and> p < NPROC \<and> p_state (ptable ?s p) = RUNNABLE
        \<and> (\<forall>q. 0 \<le> q \<and> q < p \<longrightarrow> p_state (ptable ?s q) \<noteq> RUNNABLE)
        \<and> ptable t = (ptable ?s)(p := (ptable ?s p)\<lparr>p_state := RUNNING\<rparr>)
        \<and> cur t = Some p \<and> cr3 t = V2P (p_pgdir (ptable ?s p)) \<and> locks t = locks ?s)
    \<or> (\<exists>t. scheduler_from 0 ?s = Ok () t \<and> (\<forall>q. 0 \<le> q \<and> q < NPROC \<longrightarrow> p_state (ptable ?s q) \<noteq> RUNNABLE)
        \<and> \<not> lk_locked (locks t L_ptable) \<and> ptable t = ptable ?s)"
    by (rule scheduler_dispatches_first [OF demo_sched(1-4)]) (use demo_sched(5,6) in auto)
  then show ?thesis
  proof (elim disjE exE conjE)
    fix p t assume *: "scheduler_from 0 ?s = Switch t" "p_state (ptable ?s p) = RUNNABLE" "cur t = Some p"
      "\<forall>q. 0 \<le> q \<and> q < p \<longrightarrow> p_state (ptable ?s q) \<noteq> RUNNABLE" "ptable t = (ptable ?s)(p := (ptable ?s p)\<lparr>p_state := RUNNING\<rparr>)"
    then have "p = 3" unfolding demo_sched(5) by (auto dest: spec [of _ 3])
    with * show ?thesis by auto
  next
    assume "\<forall>q. 0 \<le> q \<and> q < NPROC \<longrightarrow> p_state (ptable ?s q) \<noteq> RUNNABLE"
    then show ?thesis by (auto simp: demo_sched(5) NPROC_def dest: spec [of _ 3])
  qed
qed

text \<open>A round, as seen from process \<open>k\<close>: the processes dispatched, in order, by a scheduler thread that
  enters the scan of the table (\<open>None\<close>), or gets the CPU back from process \<open>p\<close> (\<open>Some p\<close>), each time
  in whatever state the machine is in then, until the scan ends.  Process \<open>k\<close> stays runnable until it
  is dispatched.\<close>

definition sched_thread :: "'x mem_st_scheme \<Rightarrow> bool" where
  "sched_thread s \<longleftrightarrow> (\<exists>c. found s = Some c \<and> \<not> fl_if s \<and> 0 < ncli (cpus s c))"

definition enter :: "nat option \<Rightarrow> (unit, 'x run_st_scheme) kern" where
  "enter prev = (case prev of None \<Rightarrow> scheduler_from 0 | Some p \<Rightarrow> scheduler_back p)"

definition scan_start :: "nat option \<Rightarrow> nat" where
  "scan_start prev = (case prev of None \<Rightarrow> 0 | Some p \<Rightarrow> p + 1)"

inductive sched_round :: "nat \<Rightarrow> nat option \<Rightarrow> nat list \<Rightarrow> bool" for k where
  ends: "enter prev (s :: run_st) = Ok () t \<Longrightarrow> sched_thread s \<Longrightarrow> p_state (ptable s k) = RUNNABLE \<Longrightarrow> sched_round k prev []"
| serves: "enter prev (s :: run_st) = Switch t \<Longrightarrow> sched_thread s \<Longrightarrow> cur t = Some k \<Longrightarrow> sched_round k prev (k # ps)"
| other: "enter prev (s :: run_st) = Switch t \<Longrightarrow> sched_thread s \<Longrightarrow> p_state (ptable s k) = RUNNABLE \<Longrightarrow> cur t = Some p \<Longrightarrow>
     sched_round k (Some p) ps \<Longrightarrow> sched_round k prev (p # ps)"

lemma enter_eval:
  assumes "sched_thread s"
  shows "\<exists>c s'. enter prev s = scheduler_from (scan_start prev) s' \<and> ptable s' = ptable s
    \<and> found s' = Some c \<and> \<not> fl_if s' \<and> 0 < ncli (cpus s' c)"
proof -
  obtain c where c: "found s = Some c" "\<not> fl_if s" "0 < ncli (cpus s c)" using assms by (auto simp: sched_thread_def)
  show ?thesis
  proof (cases prev)
    case None
    then show ?thesis using c by (auto simp: enter_def scan_start_def)
  next
    case (Some p)
    let ?s = "s\<lparr>cr3 := V2P (kpgdir s), cpus := (cpus s)(c := (cpus s c)\<lparr>cproc := None\<rparr>)\<rparr>"
    have "enter prev s = scheduler_from (scan_start prev) ?s"
      using c Some by (simp add: enter_def scan_start_def scheduler_back_def switchkvm_def kseq_def kbind_def mycpu_eval upd_cpu_def)
    moreover have "found ?s = Some c" using c(1) by (simp add: found_upd_cpus)
    ultimately show ?thesis using c by (intro exI [of _ c] exI [of _ ?s]) simp
  qed
qed

lemma enter_first:
  assumes "sched_thread s" "p_state (ptable s k) = RUNNABLE" "scan_start prev \<le> k" "k < NPROC"
  shows "enter prev s \<noteq> Ok () t" "enter prev s = Switch t \<Longrightarrow> cur t = Some p \<Longrightarrow> scan_start prev \<le> p \<and> p \<le> k"
proof -
  obtain c s' where s': "enter prev s = scheduler_from (scan_start prev) s'" "ptable s' = ptable s"
    "found s' = Some c" "\<not> fl_if s'" "0 < ncli (cpus s' c)"
    using enter_eval [OF assms(1)] by blast
  obtain q where q: "first_runnable (ptable s') (scan_start prev) = Some q"
    using first_runnable_None [of "ptable s'" "scan_start prev"] assms(2-4) s'(2) by fastforce
  have le: "scan_start prev \<le> q" "q \<le> k"
    using first_runnable_Some [OF q] assms(2,3) s'(2) by (auto simp: not_less [symmetric])
  show "enter prev s \<noteq> Ok () t" using scheduler_from_eval [OF s'(3-5)] s'(1) q by simp
  assume t: "enter prev s = Switch t" "cur t = Some p"
  then have "t = dispatched c q s'" using scheduler_from_eval [OF s'(3-5)] s'(1) q by (simp split: if_splits)
  then show "scan_start prev \<le> p \<and> p \<le> k" using t(2) cur_dispatched [OF s'(3), of q] le by simp
qed

lemma round_serves: "sched_round k prev ps \<Longrightarrow> scan_start prev \<le> k \<Longrightarrow> k < NPROC \<Longrightarrow> \<exists>j \<le> k - scan_start prev. j < length ps \<and> ps ! j = k"
proof (induction prev ps rule: sched_round.induct)
  case (ends prev s t)
  then show ?case using enter_first(1) by blast
next
  case (serves prev s t ps)
  then show ?case by (intro exI [of _ 0]) simp
next
  case (other prev s t p ps)
  have p: "scan_start prev \<le> p" "p \<le> k" using enter_first(2) [OF other(2,3)] other by blast+
  show ?case
  proof (cases "p = k")
    case True
    then show ?thesis by (intro exI [of _ 0]) simp
  next
    case False
    then obtain j where "j \<le> k - scan_start (Some p)" "j < length ps" "ps ! j = k"
      using other.IH other.prems p by (auto simp: scan_start_def)
    then show ?thesis using p False by (intro exI [of _ "Suc j"]) (simp add: scan_start_def)
  qed
qed

text \<open>
  C22. No process starves in a round: a process that stays runnable until it is given the CPU is
  dispatched before the round ends, after at most as many others as there are entries before its
  own, whatever the dispatched processes do to the table meanwhile.
\<close>

theorem scheduler_round_fair:
  assumes "sched_round k None ps" "k < NPROC"
  shows "k \<in> set (take (k + 1) ps)"
proof -
  obtain j where "j \<le> k" "j < length ps" "ps ! j = k"
    using round_serves [OF assms(1) _ assms(2)] by (auto simp: scan_start_def)
  then show ?thesis by (auto simp: in_set_conv_nth intro!: exI [of _ j])
qed


theorem scheduler_round_fair_witness: "sched_round 3 None [1, 3] \<and> 3 \<in> set (take 4 [1, 3 :: nat])"
proof -
  have sk: "sched_thread (demo_sched R)" for R using demo_sched(1-3) [of R] by (auto simp: sched_thread_def)
  have f: "first_runnable (ptable (demo_sched {1, 3})) 0 = Some 1"
    by (simp add: first_runnable_def demo_sched(5) NPROC_def upt_rec)
  then have a: "enter None (demo_sched {1, 3}) = Switch (dispatched 0 1 (demo_sched {1, 3}))"
    by (simp add: enter_def demo_sched_runs)
  obtain c s' where s': "enter (Some 1) (demo_sched {3}) = scheduler_from 2 s'" "ptable s' = ptable (demo_sched {3})"
    "found s' = Some c" "\<not> fl_if s'" "0 < ncli (cpus s' c)"
    using enter_eval [OF sk, of "Some 1" "{3}"] by (auto simp: scan_start_def numeral_2_eq_2)
  have g: "first_runnable (ptable s') 2 = Some 3"
    by (simp add: s'(2) first_runnable_def demo_sched(5) NPROC_def upt_rec)
  have b: "enter (Some 1) (demo_sched {3}) = Switch (dispatched c 3 s')"
    unfolding s'(1) using scheduler_from_eval [OF s'(3-5), of 2] g s'(2) demo_sched(6) [of 3 "{3}"] by simp
  have "sched_round 3 (Some 1) [3]" by (rule sched_round.serves [OF b sk cur_dispatched [OF s'(3)]])
  then have "sched_round 3 None [1, 3]"
    by (rule sched_round.other [OF a sk _ cur_dispatched [OF demo_sched(1)], rotated]) (simp add: demo_sched(5))
  then show ?thesis using scheduler_round_fair [of 3 "[1, 3]"] by (simp add: NPROC_def)
qed

end
