(* ===== verification/Sysarg.thy ===== *)
theory Sysarg
  imports Procs
begin

text \<open>
  System call arguments (\<open>syscall.c\<close> of xv6-public_1): words, pointers and strings fetched from
  the memory of the calling process, every one checked against the process's size.  A pointer
  into user memory is its user address; \<open>-1\<close> is \<open>None\<close>; of a string the bytes before the NUL are
  returned with its address.
\<close>

definition fetchint :: "u32 \<Rightarrow> (u32 option, 'x mem_st_scheme) kern" where
  "fetchint addr =
     kbind curproc (\<lambda>p.
     kbind (kget (\<lambda>s. p_sz (ptable s p))) (\<lambda>sz.
     if sz \<le> addr \<or> sz < addr + 4 then kret None
     else kbind (user_bytes addr 4) (\<lambda>bs. kret (Some (word32 bs)))))"

text \<open>The scan for the NUL, over the \<open>n\<close> bytes left up to \<open>ep\<close>.\<close>

fun fetchstr_loop :: "u32 \<Rightarrow> nat \<Rightarrow> (u8 list option, 'x mem_st_scheme) kern" where
  "fetchstr_loop a 0 = kret None"
| "fetchstr_loop a (Suc n) =
     kbind (kget (\<lambda>s. user_byte s a)) (\<lambda>b.
     case b of
       None \<Rightarrow> kpanic ''trap''
     | Some c \<Rightarrow>
         if c = 0 then kret (Some [])
         else kbind (fetchstr_loop (a + 1) n) (\<lambda>r. kret (map_option (\<lambda>cs. c # cs) r)))"

definition fetchstr :: "u32 \<Rightarrow> (u8 list option, 'x mem_st_scheme) kern" where
  "fetchstr addr =
     kbind curproc (\<lambda>p.
     kbind (kget (\<lambda>s. p_sz (ptable s p))) (\<lambda>sz.
     if sz \<le> addr then kret None
     else fetchstr_loop addr (unat (sz - addr))))"

definition argint :: "nat \<Rightarrow> (u32 option, 'x mem_st_scheme) kern" where
  "argint n =
     kbind curproc (\<lambda>p.
     kbind (kget (\<lambda>s. tf_esp (p_tf (ptable s p)))) (\<lambda>esp.
     fetchint (esp + 4 + 4 * of_nat n)))"

definition argptr :: "nat \<Rightarrow> int \<Rightarrow> (u32 option, 'x mem_st_scheme) kern" where
  "argptr n sz =
     kbind curproc (\<lambda>p.
     kbind (argint n) (\<lambda>r.
     case r of
       None \<Rightarrow> kret None
     | Some i \<Rightarrow>
         kbind (kget (\<lambda>s. p_sz (ptable s p))) (\<lambda>lim.
         if sz < 0 \<or> lim \<le> i \<or> lim < i + word_of_int sz then kret None
         else kret (Some i))))"

definition argstr :: "nat \<Rightarrow> (u8 list option, 'x mem_st_scheme) kern" where
  "argstr n =
     kbind (argint n) (\<lambda>r.
     case r of None \<Rightarrow> kret None | Some addr \<Rightarrow> fetchstr addr)"

end
