(* ===== verification/Exec.thy ===== *)
theory Exec
  imports Sysarg "HOL-Library.Multiset"
begin

text \<open>
  \<open>exec.c\<close> of xv6-public_1: loading a program (\<open>exec\<close>), file permissions (\<open>chmod_actual\<close>), the
  history of exited processes (\<open>gethistory_actual\<close>, a bubble sort of the array and a copy to user
  memory) and the per-process table of blocked system calls (\<open>block_actual\<close>,
  \<open>unblock_actual\<close>).  A string in kernel memory is the list of its bytes before the NUL.
\<close>

section \<open>Data of elf.h, param.h and syscall.h\<close>

definition MAXARG :: nat where [const_defs]: "MAXARG = 32"
definition ELF_MAGIC :: u32 where [const_defs]: "ELF_MAGIC = 0x464C457F"
definition ELF_PROG_LOAD :: u32 where [const_defs]: "ELF_PROG_LOAD = 1"
definition ELFHDR_SIZE :: nat where [const_defs]: "ELFHDR_SIZE = 52"
definition PROGHDR_SIZE :: nat where [const_defs]: "PROGHDR_SIZE = 32"

definition SYS_fork :: int where [const_defs]: "SYS_fork = 1"
definition SYS_exit :: int where [const_defs]: "SYS_exit = 2"
definition SYS_exec :: int where [const_defs]: "SYS_exec = 7"
definition NBLOCKED :: nat where [const_defs]: "NBLOCKED = 32"

record elfhdr =
  e_magic :: u32
  e_entry :: u32
  e_phoff :: u32
  e_phnum :: u16

record proghdr =
  ph_type :: u32
  ph_off :: u32
  ph_vaddr :: u32
  ph_filesz :: u32
  ph_memsz :: u32

definition get_elfhdr :: "u8 list \<Rightarrow> elfhdr" where
  "get_elfhdr bs = \<lparr>e_magic = word32 (bslice 0 4 bs), e_entry = word32 (bslice 24 4 bs),
     e_phoff = word32 (bslice 28 4 bs), e_phnum = word16 (bslice 44 2 bs)\<rparr>"

definition get_proghdr :: "u8 list \<Rightarrow> proghdr" where
  "get_proghdr bs = \<lparr>ph_type = word32 (bslice 0 4 bs), ph_off = word32 (bslice 4 4 bs),
     ph_vaddr = word32 (bslice 8 4 bs), ph_filesz = word32 (bslice 16 4 bs), ph_memsz = word32 (bslice 20 4 bs)\<rparr>"

text \<open>\<open>strcmp\<close> of two strings of kernel memory.\<close>

fun k_strcmp :: "u8 list \<Rightarrow> u8 list \<Rightarrow> int" where
  "k_strcmp [] [] = 0"
| "k_strcmp [] (d # ds) = - int (unat d)"
| "k_strcmp (c # cs) [] = int (unat c)"
| "k_strcmp (c # cs) (d # ds) = (if c = d then k_strcmp cs ds else int (unat c) - int (unat d))"

section \<open>exec\<close>

text \<open>The loop over the program headers, \<open>n\<close> of them from file offset \<open>off\<close>; \<open>None\<close> is
  \<open>goto bad\<close>.\<close>

fun exec_load ::
  "(nat \<Rightarrow> 'x mem_st_scheme devsw) \<Rightarrow> u32 \<Rightarrow> nat \<Rightarrow> nat \<Rightarrow> u32 \<Rightarrow> u32 \<Rightarrow> (u32 option, 'x mem_st_scheme) kern" where
  "exec_load devsw pgdir ip 0 off sz = kret (Some sz)"
| "exec_load devsw pgdir ip (Suc n) off sz =
     kbind (readi devsw ip off (of_nat PROGHDR_SIZE)) (\<lambda>(k, bs).
     if k \<noteq> int PROGHDR_SIZE then kret None
     else
       let ph = get_proghdr bs in
       if ph_type ph \<noteq> ELF_PROG_LOAD then exec_load devsw pgdir ip n (off + of_nat PROGHDR_SIZE) sz
       else if ph_memsz ph < ph_filesz ph then kret None
       else if ph_vaddr ph + ph_memsz ph < ph_vaddr ph then kret None
       else
         kbind (allocuvm pgdir sz (ph_vaddr ph + ph_memsz ph)) (\<lambda>sz.
         if sz = 0 then kret None
         else if ph_vaddr ph mod PGSIZE \<noteq> 0 then kret None
         else
           kbind (loaduvm devsw pgdir (ph_vaddr ph) ip (ph_off ph) (ph_filesz ph)) (\<lambda>r.
           if r < 0 then kret None
           else exec_load devsw pgdir ip n (off + of_nat PROGHDR_SIZE) sz)))"

text \<open>The loop that pushes the argument strings: the stack pointer and the addresses pushed.\<close>

fun exec_push :: "u32 \<Rightarrow> u8 list list \<Rightarrow> nat \<Rightarrow> u32 \<Rightarrow> u32 list \<Rightarrow> ((u32 \<times> u32 list) option, 'x mem_st_scheme) kern" where
  "exec_push pgdir [] argc sp us = kret (Some (sp, us))"
| "exec_push pgdir (a # as) argc sp us =
     (if MAXARG \<le> argc then kret None
      else
        let sp = (sp - of_nat (length a + 1)) AND NOT 3 in
        kbind (copyout pgdir sp (a @ [0])) (\<lambda>r.
        if r < 0 then kret None
        else exec_push pgdir as (argc + 1) sp (us @ [sp])))"

definition ustack_bytes :: "u32 \<Rightarrow> u32 list \<Rightarrow> u8 list" where
  "ustack_bytes sp us =
     concat (map bytes32 ([0xffffffff, of_nat (length us), sp - (of_nat (length us) + 1) * 4] @ us @ [0]))"

text \<open>\<open>last\<close>: the part of the path after its last slash.\<close>

fun last_elem :: "u8 list \<Rightarrow> u8 list \<Rightarrow> u8 list" where
  "last_elem [] lst = lst"
| "last_elem (c # cs) lst = (if c = SLASH then last_elem cs cs else last_elem cs lst)"

definition exec_bad :: "u32 \<Rightarrow> nat option \<Rightarrow> (int, 'x mem_st_scheme) kern" where
  "exec_bad pgdir ip =
     kseq (kwhen (pgdir \<noteq> 0) (freevm pgdir)) (
     kseq (case ip of None \<Rightarrow> kret () | Some i \<Rightarrow> kseq (iunlockput i) end_op)
          (kret (-1)))"

definition exec_stack :: "u8 list \<Rightarrow> u8 list list \<Rightarrow> u32 \<Rightarrow> u32 \<Rightarrow> u32 \<Rightarrow> (int, 'x mem_st_scheme) kern" where
  "exec_stack path argv entry pgdir sz =
     (let sz = PGROUNDUP sz in
      kbind (allocuvm pgdir sz (sz + 2 * PGSIZE)) (\<lambda>sz.
      if sz = 0 then exec_bad pgdir None
      else
        kseq (clearpteu pgdir (sz - 2 * PGSIZE)) (
        kbind (exec_push pgdir argv 0 sz []) (\<lambda>r.
        case r of
          None \<Rightarrow> exec_bad pgdir None
        | Some (sp, us) \<Rightarrow>
            let ub = ustack_bytes sp us; sp = sp - (3 + of_nat (length us) + 1) * 4 in
            kbind (copyout pgdir sp ub) (\<lambda>r.
            if r < 0 then exec_bad pgdir None
            else
              kbind curproc (\<lambda>p.
              kseq (upd_proc p (\<lambda>r. r\<lparr>p_name := safestrcpy_name (p_name r) (last_elem path path)\<rparr>)) (
              kbind (kget (\<lambda>s. p_pgdir (ptable s p))) (\<lambda>oldpgdir.
              kseq (upd_proc p (\<lambda>r. r\<lparr>p_pgdir := pgdir, p_sz := sz, p_check := True,
                      p_tf := (p_tf r)\<lparr>tf_eip := entry, tf_esp := sp\<rparr>\<rparr>)) (
              kseq (switchuvm (Some p)) (
              kseq (freevm oldpgdir) (kret 0)))))))))))"

definition exec ::
  "(nat \<Rightarrow> 'x mem_st_scheme devsw) \<Rightarrow> u8 list \<Rightarrow> u8 list list \<Rightarrow> (int, 'x mem_st_scheme) kern" where
  "exec devsw path argv =
     kbind curproc (\<lambda>p.
     kseq begin_op (
     kbind (namei devsw path) (\<lambda>r.
     case r of
       None \<Rightarrow> kseq end_op (kseq (printk (''exec: fail'' @ [CHR 0x0A]) []) (kret (-1)))
     | Some ip \<Rightarrow>
         kseq (ilock (Some ip)) (
         kbind (kget (\<lambda>s. i_mode (icache s ip))) (\<lambda>mode.
         if mode AND 4 = 0 then
           kseq (iunlockput ip) (kseq end_op (
           kseq (printk (''Operation execute failed'' @ [CHR 0x0A]) []) (kret (-1))))
         else
           kbind (readi devsw ip 0 (of_nat ELFHDR_SIZE)) (\<lambda>(k, bs).
           if k \<noteq> int ELFHDR_SIZE \<or> e_magic (get_elfhdr bs) \<noteq> ELF_MAGIC then exec_bad 0 (Some ip)
           else
             let elf = get_elfhdr bs in
             kbind setupkvm (\<lambda>pgdir.
             if pgdir = 0 then exec_bad 0 (Some ip)
             else
               kbind (exec_load devsw pgdir ip (unat (e_phnum elf)) (e_phoff elf) 0) (\<lambda>r.
               case r of
                 None \<Rightarrow> exec_bad pgdir (Some ip)
               | Some sz \<Rightarrow>
                   kseq (iunlockput ip) (
                   kseq end_op (
                   exec_stack path argv (e_entry elf) pgdir sz)))))))))) "

section \<open>chmod\<close>

text \<open>The message of its first test is passed as the second argument of \<open>cprintf\<close>, whose format is
  then the string at user address 2.\<close>

definition chmod_actual :: "(nat \<Rightarrow> 'x mem_st_scheme devsw) \<Rightarrow> u8 list \<Rightarrow> u32 \<Rightarrow> (int, 'x mem_st_scheme) kern" where
  "chmod_actual devsw path mode =
     (if k_strcmp path (str ''chmod'') = 0 then
        kbind (fetchstr_loop 2 (2 ^ 32 - 2)) (\<lambda>fmt.
        kseq (cprintf fmt [AStr (Some (str (''Operation chmod failed: cannot modify chmod itself.'' @ [CHR 0x0A])))])
             (kret (-1)))
      else if 7 < mode then
        kseq (printk ([CHR 0x0A] @ ''Operation chmod failed: invalid minor %d. Allowed range is 0-7.'' @ [CHR 0x0A]) [ANum mode])
             (kret (-1))
      else
        kseq begin_op (
        kbind (namei devsw path) (\<lambda>r.
        case r of
          None \<Rightarrow> kseq end_op (kret (-1))
        | Some ip \<Rightarrow>
            kseq (ilock (Some ip)) (
            kseq (printk (''Value is %d'' @ [CHR 0x0A]) [ANum mode]) (
            kseq (upd_inode ip (\<lambda>r. r\<lparr>i_mode := mode\<rparr>)) (
            kseq (iupdate ip) (
            kseq (iunlockput ip) (
            kseq end_op (kret 0)))))))))"

section \<open>The history\<close>

definition cmp_swap :: "nat \<Rightarrow> history_struct list \<Rightarrow> history_struct list" where
  "cmp_swap j h = (if h_pid (h ! j) > h_pid (h ! (j + 1)) then h[j := h ! (j + 1), j + 1 := h ! j] else h)"

definition sort_pass :: "nat \<Rightarrow> history_struct list \<Rightarrow> history_struct list" where
  "sort_pass n h = fold cmp_swap [0..<n] h"

definition hist_sort :: "nat \<Rightarrow> history_struct list \<Rightarrow> history_struct list" where
  "hist_sort cnt h = fold (\<lambda>i. sort_pass (cnt - i - 1)) [0..<cnt - 1] h"

definition history_bytes :: "history_struct \<Rightarrow> u8 list" where
  "history_bytes h = bytes32 (word_of_int (h_pid h)) @ h_name h @ bytes32 (h_total h) @ bytes32 (h_time h)"

definition gethistory_actual :: "u32 \<Rightarrow> (int, 'x run_st_scheme) kern" where
  "gethistory_actual user_buffer =
     kseq (acquire L_hist) (
     kbind (kget hist_count) (\<lambda>cnt.
     kseq (kmod (\<lambda>s. s\<lparr>hist_arr := hist_sort cnt (hist_arr s)\<rparr>)) (
     kbind curproc (\<lambda>p.
     kbind (kget (\<lambda>s. p_pgdir (ptable s p))) (\<lambda>d.
     kbind (kget (\<lambda>s. concat (map history_bytes (take cnt (hist_arr s))))) (\<lambda>bs.
     kbind (copyout d user_buffer bs) (\<lambda>r.
     if r < 0 then kseq (release L_hist) (kret (-1))
     else kseq (release L_hist) (kret (int cnt)))))))))"

section \<open>Blocking system calls\<close>

definition block_actual :: "int \<Rightarrow> (int, 'x mem_st_scheme) kern" where
  "block_actual sid =
     (if sid = SYS_fork \<or> sid = SYS_exit then kret (-1)
      else
        kbind curproc (\<lambda>p.
        if sid < 0 \<or> int NBLOCKED \<le> sid then kret (-1)
        else kseq (upd_proc p (\<lambda>r. r\<lparr>p_blocked := (p_blocked r)[nat sid := 1]\<rparr>)) (kret 0)))"

definition unblock_actual :: "int \<Rightarrow> (int, 'x mem_st_scheme) kern" where
  "unblock_actual sid =
     kbind curproc (\<lambda>p.
     if sid < 0 \<or> int NBLOCKED \<le> sid then kret (-1)
     else kseq (upd_proc p (\<lambda>r. r\<lparr>p_blocked := (p_blocked r)[nat sid := 0]\<rparr>)) (kret 0))"

section \<open>The history is sorted by process id\<close>

lemma length_cmp_swap [simp]: "length (cmp_swap j h) = length h"
  by (simp add: cmp_swap_def)

lemma mset_cmp_swap [simp]: "j + 1 < length h \<Longrightarrow> mset (cmp_swap j h) = mset h"
  unfolding cmp_swap_def using mset_swap [of j h "j + 1"]
  by (simp add: list_update_swap)

lemma cmp_swap_le: "j + 1 < length h \<Longrightarrow> h_pid (cmp_swap j h ! j) \<le> h_pid (cmp_swap j h ! (j + 1))"
  by (auto simp: cmp_swap_def)

lemma cmp_swap_other: "i \<noteq> j \<Longrightarrow> i \<noteq> j + 1 \<Longrightarrow> cmp_swap j h ! i = h ! i"
  by (simp add: cmp_swap_def)

text \<open>A pass over the first \<open>n + 1\<close> records permutes them and puts the greatest last.\<close>

lemma sort_pass_Suc: "sort_pass (Suc n) h = cmp_swap n (sort_pass n h)"
  by (simp add: sort_pass_def)

lemma sort_pass_0 [simp]: "sort_pass 0 h = h"
  by (simp add: sort_pass_def)

lemma length_sort_pass [simp]: "length (sort_pass n h) = length h"
  by (induction n) (simp_all add: sort_pass_Suc)

lemma mset_sort_pass [simp]: "n < length h \<Longrightarrow> mset (sort_pass n h) = mset h"
  by (induction n) (simp_all add: sort_pass_Suc)

lemma sort_pass_beyond: "n < i \<Longrightarrow> sort_pass n h ! i = h ! i"
  by (induction n) (simp_all add: sort_pass_Suc cmp_swap_other)

lemma sort_pass_max:
  "n < length h \<Longrightarrow> i \<le> n \<Longrightarrow> h_pid (sort_pass n h ! i) \<le> h_pid (sort_pass n h ! n)"
proof (induction n arbitrary: i)
  case (Suc n)
  let ?g = "sort_pass n h"
  have top: "h_pid (?g ! j) \<le> h_pid (?g ! n)" if "j \<le> n" for j using Suc that by simp
  show ?case
    using Suc.prems top [of i]
    by (cases "i = Suc n"; cases "i = n") (auto simp: sort_pass_Suc cmp_swap_def nth_list_update)
qed simp

lemma take_drop_of_mset:
  assumes "length xs = length ys" "mset xs = mset ys" "drop k xs = drop k ys"
  shows "mset (take k xs) = mset (take k ys)"
  using assms by (metis add_right_cancel append_take_drop_id mset_append)

lemma sort_pass_take:
  assumes "n < length h"
  shows "mset (take (Suc n) (sort_pass n h)) = mset (take (Suc n) h)"
  using assms by (intro take_drop_of_mset) (simp_all add: list_eq_iff_nth_eq sort_pass_beyond)

text \<open>After \<open>i\<close> passes the last \<open>i\<close> of the first \<open>n\<close> records are in place.\<close>

definition topped :: "nat \<Rightarrow> nat \<Rightarrow> history_struct list \<Rightarrow> bool" where
  "topped n i h \<longleftrightarrow> (\<forall>b < n. n - i \<le> b \<longrightarrow> (\<forall>a \<le> b. h_pid (h ! a) \<le> h_pid (h ! b)))"

lemma sort_pass_topped:
  assumes "n \<le> length h" "i + 1 < n" "topped n i h"
  shows "topped n (Suc i) (sort_pass (n - i - 1) h)"
  unfolding topped_def
proof (intro allI impI)
  fix b a assume b: "b < n" "n - Suc i \<le> b" "a \<le> b"
  let ?m = "n - i - 1"
  have m: "?m < length h" "Suc ?m = n - i" "?m \<le> b" using assms(1,2) b by auto
  show "h_pid (sort_pass ?m h ! a) \<le> h_pid (sort_pass ?m h ! b)"
  proof (cases "b = ?m")
    case True
    then show ?thesis using sort_pass_max [OF m(1)] b by auto
  next
    case False
    then have bm: "?m < b" "n - i \<le> b" using m by auto
    have "\<exists>a' \<le> b. sort_pass ?m h ! a = h ! a'"
    proof (cases "?m < a")
      case True then show ?thesis using b(3) by (auto simp: sort_pass_beyond)
    next
      case a: False
      have "sort_pass ?m h ! a \<in> set (take (Suc ?m) (sort_pass ?m h))"
        using a m(1) by (auto simp: in_set_conv_nth intro!: exI [of _ a])
      then have "sort_pass ?m h ! a \<in> set (take (Suc ?m) h)"
        using sort_pass_take [OF m(1)] by (metis set_mset_mset)
      then obtain a' where "a' < Suc ?m" "sort_pass ?m h ! a = h ! a'"
        by (auto simp: in_set_conv_nth)
      then show ?thesis using bm by (intro exI [of _ a']) auto
    qed
    then show ?thesis using assms(3) b bm by (auto simp: topped_def sort_pass_beyond)
  qed
qed

lemma hist_sort_passes:
  assumes "n \<le> length h" "k \<le> n - 1"
  defines "g \<equiv> fold (\<lambda>i. sort_pass (n - i - 1)) [0..<k] h"
  shows "length g = length h \<and> mset g = mset h \<and> drop n g = drop n h \<and> topped n k g"
  using assms(2) unfolding g_def
proof (induction k)
  case 0
  then show ?case by (simp add: topped_def)
next
  case (Suc k)
  let ?g = "fold (\<lambda>i. sort_pass (n - i - 1)) [0..<k] h"
  have IH: "length ?g = length h" "mset ?g = mset h" "drop n ?g = drop n h" "topped n k ?g"
    using Suc by auto
  have "topped n (Suc k) (sort_pass (n - k - 1) ?g)"
    using IH Suc.prems assms(1) by (intro sort_pass_topped) auto
  moreover have "drop n (sort_pass (n - k - 1) ?g) = drop n ?g"
    using Suc.prems by (intro nth_equalityI) (auto simp: sort_pass_beyond)
  ultimately show ?case using IH Suc.prems assms(1) by simp
qed

lemma hist_sort_sorts:
  assumes "n \<le> length h"
  shows "sorted (map h_pid (take n (hist_sort n h))) \<and> mset (take n (hist_sort n h)) = mset (take n h)
    \<and> drop n (hist_sort n h) = drop n h \<and> length (hist_sort n h) = length h"
proof -
  let ?g = "hist_sort n h"
  have g: "length ?g = length h" "mset ?g = mset h" "drop n ?g = drop n h" "topped n (n - 1) ?g"
    using hist_sort_passes [OF assms, of "n - 1"] by (auto simp: hist_sort_def)
  have "sorted (map h_pid (take n ?g))"
    unfolding sorted_iff_nth_mono
  proof (intro allI impI)
    fix i j assume ij: "i \<le> j" "j < length (map h_pid (take n ?g))"
    then have "j < n" "j < length ?g" by auto
    then show "map h_pid (take n ?g) ! i \<le> map h_pid (take n ?g) ! j"
      using ij g(4) by (cases "i = j") (auto simp: topped_def)
  qed
  with g show ?thesis using take_drop_of_mset [of ?g h n] by simp
qed

text \<open>
  C20. \<open>gethistory\<close> returns the number of recorded processes, and the process reads in its buffer,
  through its own page table, the recorded entries sorted by process id: the first \<open>hist_count\<close>
  records of the array are permuted into ascending order (the bubble sort is right), the rest of
  the array is as it was, and the bytes of the buffer are those of the sorted records.
\<close>

theorem gethistory_returns_sorted:
  assumes "thread_in L s" "L_hist \<notin> L" "cur s = Some p" "hist_count s \<le> length (hist_arr s)"
    and "n = length (concat (map history_bytes (take (hist_count s) (hist_sort (hist_count s) (hist_arr s)))))"
    and "unat ub + n \<le> 2 ^ 32" "apart (kmem s) (p_pgdir (ptable s p)) {ub + of_nat i | i. i < n}"
    and "\<forall>i < n. user_ok (kmem s) (p_pgdir (ptable s p)) (ub + of_nat i)"
  shows "\<exists>t. gethistory_actual ub s = Ok (int (hist_count s)) t \<and> thread_in L t
    \<and> sorted (map h_pid (take (hist_count s) (hist_arr t)))
    \<and> mset (take (hist_count s) (hist_arr t)) = mset (take (hist_count s) (hist_arr s))
    \<and> drop (hist_count s) (hist_arr t) = drop (hist_count s) (hist_arr s)
    \<and> (\<forall>i < n. user_view (kmem t) (p_pgdir (ptable s p)) (ub + of_nat i)
         = Some (concat (map history_bytes (take (hist_count s) (hist_arr t))) ! i))"
proof -
  let ?c = "hist_count s" and ?d = "p_pgdir (ptable s p)"
  let ?h = "hist_sort ?c (hist_arr s)"
  let ?bs = "concat (map history_bytes (take ?c ?h))"
  obtain a where a: "acquire L_hist s = Ok () a" "thread_in (insert L_hist L) a" "cpu_frame s a"
    using acquire_frame [OF assms(1,2)] by blast
  note A = run_more [OF a(3)]
  obtain b where b: "curproc (a\<lparr>hist_arr := ?h\<rparr>) = Ok p b" "thread_in (insert L_hist L) b" "cpu_frame (a\<lparr>hist_arr := ?h\<rparr>) b"
    using curproc_frame [of "insert L_hist L" "a\<lparr>hist_arr := ?h\<rparr>" p] a(2) A assms(3) by auto
  note B = run_more [OF b(3)]
  let ?A = "{ub + of_nat i | i. i < n}"
  obtain m' where m': "copyout ?d ub ?bs b = Ok 0 (b\<lparr>kmem := m'\<rparr>)"
    "copied (kmem b) m' (\<lambda>i. kaddr (kmem b) ?d (ub + of_nat i)) ?bs n"
    "\<forall>x \<in> ?A. \<forall>y \<in> walk_bytes (kmem b) ?d x. m' y = kmem b y"
    using copyout_in [of ub ?bs b ?d ?A] assms A B by auto
  have view: "user_view m' ?d (ub + of_nat i) = Some (?bs ! i)" if "i < n" for i
    by (rule copied_view [OF m'(2,3)]) (use that assms(8) A B in auto)
  obtain t where t: "release L_hist (b\<lparr>kmem := m'\<rparr>) = Ok () t" "thread_in L t" "cpu_frame (b\<lparr>kmem := m'\<rparr>) t"
    using release_frame [of "insert L_hist L" "b\<lparr>kmem := m'\<rparr>" L_hist] b(2) assms(2) by auto
  note T = run_more [OF t(3)]
  have "gethistory_actual ub s = Ok (int ?c) t"
    using a(1) b(1) m'(1) t(1) A B by (simp add: gethistory_actual_def kseq_def kbind_def)
  then show ?thesis using t(2) T A B view hist_sort_sorts [OF assms(4)] by auto
qed


lemma demo_page1:
  assumes "i < 4096"
  shows "user_ok demo_user_mem 0x80400000 (0x1000 + of_nat i)"
    and "kaddr demo_user_mem 0x80400000 (0x1000 + of_nat i) = 0x80403000 + i"
    and "walk_bytes demo_user_mem 0x80400000 (0x1000 + of_nat i) = {0x80400000..<0x80400004} \<union> {0x80401004..<0x80401008}"
proof -
  have p: "PGROUNDDOWN (0x1000 + of_nat i) = PGROUNDDOWN 0x1000"
    using same_page_of_nat(1) [of 4096 i] assms by simp
  show "user_ok demo_user_mem 0x80400000 (0x1000 + of_nat i)" using same_page(4) [OF p] demo_user_ok(3) by simp
  show "kaddr demo_user_mem 0x80400000 (0x1000 + of_nat i) = 0x80403000 + i"
    using kaddr_in_page [where v = 4096 and j = i and m = demo_user_mem and d = "0x80400000"] assms demo_user_ok(6) by simp
  have "walk_bytes demo_user_mem 0x80400000 0x1000 = {0x80400000..<0x80400004} \<union> {0x80401004..<0x80401008}"
    by (simp add: walk_bytes_def demo_pages)
  then show "walk_bytes demo_user_mem 0x80400000 (0x1000 + of_nat i) = {0x80400000..<0x80400004} \<union> {0x80401004..<0x80401008}"
    using same_page(5) [OF p, of demo_user_mem] by simp
qed

lemma demo_page1_apart: "n \<le> 4096 \<Longrightarrow> apart demo_user_mem 0x80400000 {0x1000 + of_nat i | i. i < n}"
  by (auto simp: apart_def demo_page1 intro!: inj_onI)

definition demo_history :: "history_struct list" where
  "demo_history = [\<lparr>h_pid = 5, h_name = replicate 16 98, h_total = 8192, h_time = 0\<rparr>,
     \<lparr>h_pid = 3, h_name = replicate 16 97, h_total = 4096, h_time = 0\<rparr>]"

theorem gethistory_returns_sorted_witness:
  "\<exists>t. gethistory_actual 0x1000 (demo_run_st\<lparr>hist_arr := demo_history, hist_count := 2\<rparr>) = Ok 2 t
    \<and> sorted (map h_pid (hist_arr t)) \<and> user_view (kmem t) 0x80400000 0x1000 = Some 3"
proof -
  let ?s = "demo_run_st\<lparr>hist_arr := demo_history, hist_count := 2\<rparr>"
  have so: "hist_sort 2 demo_history = rev demo_history"
    by (simp add: hist_sort_def demo_history_def sort_pass_def cmp_swap_def numeral_2_eq_2)
  have len: "length (concat (map history_bytes (take (hist_count ?s) (hist_sort (hist_count ?s) (hist_arr ?s))))) = 56"
    by (simp add: so) (simp add: demo_history_def history_bytes_def)
  have pg: "p_pgdir (ptable ?s 0) = 0x80400000" "kmem ?s = demo_user_mem"
    by (simp_all add: demo_run_fields)
  obtain t where t: "gethistory_actual 0x1000 ?s = Ok (int (hist_count ?s)) t"
    "sorted (map h_pid (take (hist_count ?s) (hist_arr t)))" 
    "mset (take (hist_count ?s) (hist_arr t)) = mset (take (hist_count ?s) (hist_arr ?s))"
    "drop (hist_count ?s) (hist_arr t) = drop (hist_count ?s) (hist_arr ?s)"
    "\<forall>i < 56. user_view (kmem t) 0x80400000 (0x1000 + of_nat i)
         = Some (concat (map history_bytes (take (hist_count ?s) (hist_arr t))) ! i)"
    using gethistory_returns_sorted [where L = "{}" and s = ?s and p = 0 and n = 56 and ub = "0x1000", unfolded len pg] demo_run_in demo_page1_apart [of 56] demo_page1(1)
    by (auto simp: pg demo_history_def)
  have two: "hist_count ?s = 2" "take 2 (hist_arr ?s) = demo_history" "drop 2 (hist_arr ?s) = []"
    by (simp_all add: demo_history_def)
  have d: "take 2 (hist_arr t) = hist_arr t" "mset (hist_arr t) = mset demo_history" "sorted (map h_pid (hist_arr t))"
    using t(2-4) unfolding two by auto
  obtain u v where uv: "hist_arr t = [u, v]"
    using mset_eq_length [OF d(2)] by (auto simp: demo_history_def length_Suc_conv)
  have "hist_arr t = rev demo_history"
    using d(2,3) unfolding uv demo_history_def by (auto simp: add_eq_conv_diff)
  then have "user_view (kmem t) 0x80400000 0x1000 = Some 3"
    using t(5) [rule_format, of 0] d(1) by (simp add: pg demo_history_def history_bytes_def bytes32_def two)
  then show ?thesis using t(1) d(3) by auto
qed

end
