(* ===== verification/Sysfile.thy ===== *)
theory Sysfile
  imports Exec
begin

text \<open>
  The file system calls (\<open>sysfile.c\<close> of xv6-public_1): checks of the arguments, the file
  descriptor table of the process, and the calls into \<open>file.c\<close> and \<open>fs.c\<close> inside transactions.
  The name buffers on the stack start as zeros.  Every call returns the \<open>int\<close> the process finds
  in \<open>eax\<close>.
\<close>

section \<open>File descriptors\<close>

definition O_WRONLY :: u32 where [const_defs]: "O_WRONLY = 1"
definition O_RDWR :: u32 where [const_defs]: "O_RDWR = 2"
definition O_CREATE :: u32 where [const_defs]: "O_CREATE = 0x200"

definition argfd :: "nat \<Rightarrow> ((nat \<times> nat) option, 'x mem_st_scheme) kern" where
  "argfd n =
     kbind (argint n) (\<lambda>r.
     case r of
       None \<Rightarrow> kret None
     | Some fd \<Rightarrow>
         if sint fd < 0 \<or> int NOFILE \<le> sint fd then kret None
         else
           kbind curproc (\<lambda>p.
           kbind (kget (\<lambda>s. p_ofile (ptable s p) ! unat fd)) (\<lambda>f.
           kret (map_option (\<lambda>f. (unat fd, f)) f))))"

definition fdalloc :: "nat \<Rightarrow> (nat option, 'x mem_st_scheme) kern" where
  "fdalloc f =
     kbind curproc (\<lambda>p.
     kbind (kget (\<lambda>s. find (\<lambda>fd. p_ofile (ptable s p) ! fd = None) [0..<NOFILE])) (\<lambda>r.
     case r of
       None \<Rightarrow> kret None
     | Some fd \<Rightarrow> kseq (upd_proc p (\<lambda>r. r\<lparr>p_ofile := (p_ofile r)[fd := Some f]\<rparr>)) (kret (Some fd))))"

definition sys_dup :: "(int, 'x file_st_scheme) kern" where
  "sys_dup =
     kbind (argfd 0) (\<lambda>r.
     case r of
       None \<Rightarrow> kret (-1)
     | Some (_, f) \<Rightarrow>
         kbind (fdalloc f) (\<lambda>r.
         case r of
           None \<Rightarrow> kret (-1)
         | Some fd \<Rightarrow> kseq (kbind (filedup f) (\<lambda>_. kret ())) (kret (int fd))))"

text \<open>The mode test of \<open>sys_read\<close> and \<open>sys_write\<close> follows \<open>f->ip\<close> whatever the type of the file.\<close>

definition sys_read :: "(nat \<Rightarrow> 'x file_st_scheme devsw) \<Rightarrow> (int, 'x file_st_scheme) kern" where
  "sys_read devsw =
     kbind (argfd 0) (\<lambda>r.
     case r of
       None \<Rightarrow> kret (-1)
     | Some (_, f) \<Rightarrow>
         kbind (argint 2) (\<lambda>r.
         case r of
           None \<Rightarrow> kret (-1)
         | Some n \<Rightarrow>
             kbind (argptr 1 (sint n)) (\<lambda>r.
             case r of
               None \<Rightarrow> kret (-1)
             | Some p \<Rightarrow>
                 kbind (get_file f) (\<lambda>fr.
                 case f_ip fr of
                   None \<Rightarrow> kundef
                 | Some ip \<Rightarrow>
                     kbind (kget (\<lambda>s. i_mode (icache s ip))) (\<lambda>mode.
                     if mode AND 1 = 0 then
                       kseq (printk (''Operation read failed'' @ [CHR 0x0A]) []) (kret (-1))
                     else
                       kbind (fileread devsw f (sint n)) (\<lambda>(k, bs).
                       kseq (user_store p bs) (kret k)))))))"

definition sys_write :: "(nat \<Rightarrow> 'x file_st_scheme devsw) \<Rightarrow> (int, 'x file_st_scheme) kern" where
  "sys_write devsw =
     kbind (argfd 0) (\<lambda>r.
     case r of
       None \<Rightarrow> kret (-1)
     | Some (_, f) \<Rightarrow>
         kbind (argint 2) (\<lambda>r.
         case r of
           None \<Rightarrow> kret (-1)
         | Some n \<Rightarrow>
             kbind (argptr 1 (sint n)) (\<lambda>r.
             case r of
               None \<Rightarrow> kret (-1)
             | Some p \<Rightarrow>
                 kbind (get_file f) (\<lambda>fr.
                 case f_ip fr of
                   None \<Rightarrow> kundef
                 | Some ip \<Rightarrow>
                     kbind (kget (\<lambda>s. i_mode (icache s ip))) (\<lambda>mode.
                     if mode AND 2 = 0 then
                       kseq (printk (''Operation write failed'' @ [CHR 0x0A]) []) (kret (-1))
                     else
                       kbind (user_bytes p (unat n)) (\<lambda>bs. filewrite devsw f bs))))))"

definition sys_close :: "(int, 'x file_st_scheme) kern" where
  "sys_close =
     kbind (argfd 0) (\<lambda>r.
     case r of
       None \<Rightarrow> kret (-1)
     | Some (fd, f) \<Rightarrow>
         kbind curproc (\<lambda>p.
         kseq (upd_proc p (\<lambda>r. r\<lparr>p_ofile := (p_ofile r)[fd := None]\<rparr>)) (
         kseq (fileclose f) (kret 0))))"

text \<open>The fields \<open>stati\<close> writes, at their offsets in the user's \<open>struct stat\<close>.\<close>

definition stat_store :: "u32 \<Rightarrow> stat \<Rightarrow> (unit, 'x mem_st_scheme) kern" where
  "stat_store a st =
     kseq (user_store (a + 4) (bytes32 (st_dev st))) (
     kseq (user_store (a + 8) (bytes32 (st_ino st))) (
     kseq (user_store a (bytes16 (st_type st))) (
     kseq (user_store (a + 12) (bytes16 (st_nlink st)))
          (user_store (a + 16) (bytes32 (st_size st))))))"

definition sys_fstat :: "(int, 'x file_st_scheme) kern" where
  "sys_fstat =
     kbind (argfd 0) (\<lambda>r.
     case r of
       None \<Rightarrow> kret (-1)
     | Some (_, f) \<Rightarrow>
         kbind (argptr 1 20) (\<lambda>r.
         case r of
           None \<Rightarrow> kret (-1)
         | Some a \<Rightarrow>
             kbind (filestat f) (\<lambda>r.
             case r of
               None \<Rightarrow> kret (-1)
             | Some st \<Rightarrow> kseq (stat_store a st) (kret 0))))"

section \<open>Links and directories\<close>

definition link_bad :: "nat \<Rightarrow> (int, 'x mem_st_scheme) kern" where
  "link_bad ip =
     kseq (ilock (Some ip)) (
     kseq (upd_inode ip (\<lambda>r. r\<lparr>i_nlink := i_nlink r - 1\<rparr>)) (
     kseq (iupdate ip) (
     kseq (iunlockput ip) (
     kseq end_op (kret (-1))))))"

definition sys_link :: "(nat \<Rightarrow> 'x mem_st_scheme devsw) \<Rightarrow> (int, 'x mem_st_scheme) kern" where
  "sys_link devsw =
     kbind (argstr 0) (\<lambda>r.
     case r of
       None \<Rightarrow> kret (-1)
     | Some old \<Rightarrow>
         kbind (argstr 1) (\<lambda>r.
         case r of
           None \<Rightarrow> kret (-1)
         | Some new \<Rightarrow>
             kseq begin_op (
             kbind (namei devsw old) (\<lambda>r.
             case r of
               None \<Rightarrow> kseq end_op (kret (-1))
             | Some ip \<Rightarrow>
                 kseq (ilock (Some ip)) (
                 kbind (get_inode ip) (\<lambda>i.
                 if i_type i = T_DIR then kseq (iunlockput ip) (kseq end_op (kret (-1)))
                 else
                   kseq (upd_inode ip (\<lambda>r. r\<lparr>i_nlink := i_nlink r + 1\<rparr>)) (
                   kseq (iupdate ip) (
                   kseq (iunlock (Some ip)) (
                   kbind (nameiparent devsw new (replicate DIRSIZ 0)) (\<lambda>(r, name).
                   case r of
                     None \<Rightarrow> link_bad ip
                   | Some dp \<Rightarrow>
                       kseq (ilock (Some dp)) (
                       kbind (kget (\<lambda>s. i_dev (icache s dp) \<noteq> i_dev (icache s ip))) (\<lambda>other.
                       kbind (if other then kret (-1)
                              else kbind (get_inode ip) (\<lambda>i. dirlink devsw dp name (i_inum i))) (\<lambda>k.
                       if k < 0 then kseq (iunlockput dp) (link_bad ip)
                       else
                         kseq (iunlockput dp) (
                         kseq (iput ip) (
                         kseq end_op (kret 0))))))))))))))))"

definition isdirempty :: "(nat \<Rightarrow> 'x mem_st_scheme devsw) \<Rightarrow> nat \<Rightarrow> (bool, 'x mem_st_scheme) kern" where
  "isdirempty devsw dp =
     kbind (get_inode dp) (\<lambda>r.
     kbind (kloop (map (\<lambda>k. k * DIRENT_SIZE) [2..<(unat (i_size r) + DIRENT_SIZE - 1) div DIRENT_SIZE]) (\<lambda>off.
       kbind (readi devsw dp (of_nat off) (of_nat DIRENT_SIZE)) (\<lambda>(k, bs).
       if k \<noteq> int DIRENT_SIZE then kpanic ''isdirempty: readi''
       else kret (if de_inum (get_dirent bs) \<noteq> 0 then Some () else None)))) (\<lambda>r.
     kret (r = None)))"

definition unlink_bad :: "nat \<Rightarrow> (int, 'x mem_st_scheme) kern" where
  "unlink_bad dp = kseq (iunlockput dp) (kseq end_op (kret (-1)))"

definition sys_unlink :: "(nat \<Rightarrow> 'x mem_st_scheme devsw) \<Rightarrow> (int, 'x mem_st_scheme) kern" where
  "sys_unlink devsw =
     kbind (argstr 0) (\<lambda>r.
     case r of
       None \<Rightarrow> kret (-1)
     | Some path \<Rightarrow>
         kseq begin_op (
         kbind (nameiparent devsw path (replicate DIRSIZ 0)) (\<lambda>(r, name).
         case r of
           None \<Rightarrow> kseq end_op (kret (-1))
         | Some dp \<Rightarrow>
             kseq (ilock (Some dp)) (
             if namecmp name (str ''.'') = 0 \<or> namecmp name (str ''..'') = 0 then unlink_bad dp
             else
               kbind (dirlookup devsw dp name) (\<lambda>r.
               case r of
                 None \<Rightarrow> unlink_bad dp
               | Some (ip, off) \<Rightarrow>
                   kseq (ilock (Some ip)) (
                   kbind (get_inode ip) (\<lambda>i.
                   if sint (i_nlink i) < 1 then kpanic ''unlink: nlink < 1''
                   else
                     kbind (if i_type i = T_DIR then isdirempty devsw ip else kret True) (\<lambda>e.
                     if \<not> e then kseq (iunlockput ip) (unlink_bad dp)
                     else
                       kbind (writei devsw dp (replicate DIRENT_SIZE 0) off (of_nat DIRENT_SIZE)) (\<lambda>k.
                       if k \<noteq> int DIRENT_SIZE then kpanic ''unlink: writei''
                       else
                         kseq (kwhen (i_type i = T_DIR) (
                                kseq (upd_inode dp (\<lambda>r. r\<lparr>i_nlink := i_nlink r - 1\<rparr>)) (iupdate dp))) (
                         kseq (iunlockput dp) (
                         kseq (upd_inode ip (\<lambda>r. r\<lparr>i_nlink := i_nlink r - 1\<rparr>)) (
                         kseq (iupdate ip) (
                         kseq (iunlockput ip) (
                         kseq end_op (kret 0)))))))))))))))"

definition create ::
  "(nat \<Rightarrow> 'x mem_st_scheme devsw) \<Rightarrow> u8 list \<Rightarrow> u16 \<Rightarrow> u16 \<Rightarrow> u16 \<Rightarrow> (nat option, 'x mem_st_scheme) kern" where
  "create devsw path type major minor =
     kbind (nameiparent devsw path (replicate DIRSIZ 0)) (\<lambda>(r, name).
     case r of
       None \<Rightarrow> kret None
     | Some dp \<Rightarrow>
         kseq (ilock (Some dp)) (
         kbind (dirlookup devsw dp name) (\<lambda>r.
         case r of
           Some (ip, _) \<Rightarrow>
             kseq (iunlockput dp) (
             kseq (ilock (Some ip)) (
             kbind (get_inode ip) (\<lambda>i.
             if type = T_FILE \<and> i_type i = T_FILE then kret (Some ip)
             else kseq (iunlockput ip) (kret None))))
         | None \<Rightarrow>
             kbind (get_inode dp) (\<lambda>d.
             kbind (ialloc (i_dev d) type) (\<lambda>ip.
             kseq (ilock (Some ip)) (
             kseq (upd_inode ip (\<lambda>r. r\<lparr>i_major := major, i_minor := minor, i_nlink := 1\<rparr>)) (
             kseq (iupdate ip) (
             kseq (kwhen (type = T_DIR) (
                    kseq (upd_inode dp (\<lambda>r. r\<lparr>i_nlink := i_nlink r + 1\<rparr>)) (
                    kseq (iupdate dp) (
                    kbind (get_inode ip) (\<lambda>i.
                    kbind (dirlink devsw ip (str ''.'') (i_inum i)) (\<lambda>k.
                    if k < 0 then kpanic ''create dots''
                    else
                      kbind (dirlink devsw ip (str ''..'') (i_inum d)) (\<lambda>k.
                      kwhen (k < 0) (kpanic ''create dots'')))))))) (
             kbind (get_inode ip) (\<lambda>i.
             kbind (dirlink devsw dp name (i_inum i)) (\<lambda>k.
             if k < 0 then kpanic ''create: dirlink''
             else kseq (iunlockput dp) (kret (Some ip)))))))))))))"

section \<open>Opening files\<close>

definition sys_open_end :: "u32 \<Rightarrow> nat \<Rightarrow> (int, 'x file_st_scheme) kern" where
  "sys_open_end omode ip =
     kbind filealloc (\<lambda>f.
     kbind (case f of None \<Rightarrow> kret None | Some f \<Rightarrow> fdalloc f) (\<lambda>fd.
     case (f, fd) of
       (Some f, Some fd) \<Rightarrow>
         kseq (iunlock (Some ip)) (
         kseq end_op (
         kseq (upd_file f (\<lambda>r. r\<lparr>f_type := FD_INODE, f_ip := Some ip, f_off := 0,
                 f_readable := (omode AND O_WRONLY = 0),
                 f_writable := (omode AND O_WRONLY \<noteq> 0 \<or> omode AND O_RDWR \<noteq> 0)\<rparr>))
              (kret (int fd))))
     | _ \<Rightarrow>
         kseq (case f of None \<Rightarrow> kret () | Some f \<Rightarrow> fileclose f) (
         kseq (iunlockput ip) (
         kseq end_op (kret (-1))))))"

definition sys_open :: "(nat \<Rightarrow> 'x file_st_scheme devsw) \<Rightarrow> (int, 'x file_st_scheme) kern" where
  "sys_open devsw =
     kbind (argstr 0) (\<lambda>r.
     case r of
       None \<Rightarrow> kret (-1)
     | Some path \<Rightarrow>
         kbind (argint 1) (\<lambda>r.
         case r of
           None \<Rightarrow> kret (-1)
         | Some omode \<Rightarrow>
             kseq begin_op (
             if omode AND O_CREATE \<noteq> 0 then
               kbind (create devsw path T_FILE 0 0) (\<lambda>r.
               case r of
                 None \<Rightarrow> kseq end_op (kret (-1))
               | Some ip \<Rightarrow> sys_open_end omode ip)
             else
               kbind (namei devsw path) (\<lambda>r.
               case r of
                 None \<Rightarrow> kseq end_op (kret (-1))
               | Some ip \<Rightarrow>
                   kseq (ilock (Some ip)) (
                   kbind (get_inode ip) (\<lambda>i.
                   if i_type i = T_DIR \<and> omode \<noteq> 0 then kseq (iunlockput ip) (kseq end_op (kret (-1)))
                   else sys_open_end omode ip))))))"

definition sys_mkdir :: "(nat \<Rightarrow> 'x mem_st_scheme devsw) \<Rightarrow> (int, 'x mem_st_scheme) kern" where
  "sys_mkdir devsw =
     kseq begin_op (
     kbind (argstr 0) (\<lambda>r.
     kbind (case r of None \<Rightarrow> kret None | Some path \<Rightarrow> create devsw path T_DIR 0 0) (\<lambda>ip.
     case ip of
       None \<Rightarrow> kseq end_op (kret (-1))
     | Some ip \<Rightarrow> kseq (iunlockput ip) (kseq end_op (kret 0)))))"

definition sys_mknod :: "(nat \<Rightarrow> 'x mem_st_scheme devsw) \<Rightarrow> (int, 'x mem_st_scheme) kern" where
  "sys_mknod devsw =
     kseq begin_op (
     kbind (argstr 0) (\<lambda>r0.
     kbind (if r0 = None then kret None else argint 1) (\<lambda>r1.
     kbind (if r1 = None then kret None else argint 2) (\<lambda>r2.
     kbind (case (r0, r1, r2) of
              (Some path, Some major, Some minor) \<Rightarrow> create devsw path T_DEV (ucast major) (ucast minor)
            | _ \<Rightarrow> kret None) (\<lambda>ip.
     case ip of
       None \<Rightarrow> kseq end_op (kret (-1))
     | Some ip \<Rightarrow> kseq (iunlockput ip) (kseq end_op (kret 0)))))))"

definition sys_chdir :: "(nat \<Rightarrow> 'x mem_st_scheme devsw) \<Rightarrow> (int, 'x mem_st_scheme) kern" where
  "sys_chdir devsw =
     kbind curproc (\<lambda>p.
     kseq begin_op (
     kbind (argstr 0) (\<lambda>r.
     kbind (case r of None \<Rightarrow> kret None | Some path \<Rightarrow> namei devsw path) (\<lambda>ip.
     case ip of
       None \<Rightarrow> kseq end_op (kret (-1))
     | Some ip \<Rightarrow>
         kseq (ilock (Some ip)) (
         kbind (get_inode ip) (\<lambda>i.
         if i_type i \<noteq> T_DIR then kseq (iunlockput ip) (kseq end_op (kret (-1)))
         else
           kseq (iunlock (Some ip)) (
           kbind (kget (\<lambda>s. p_cwd (ptable s p))) (\<lambda>w.
           kseq (case w of None \<Rightarrow> kundef | Some old \<Rightarrow> iput old) (
           kseq end_op (
           kseq (upd_proc p (\<lambda>r. r\<lparr>p_cwd := Some ip\<rparr>)) (kret 0)))))))))))"

section \<open>exec and pipe\<close>

text \<open>The loop of \<open>sys_exec\<close> from argument \<open>MAXARG - n\<close> on, whose pointer is at \<open>a\<close>.\<close>

fun exec_args :: "u32 \<Rightarrow> nat \<Rightarrow> (u8 list list option, 'x mem_st_scheme) kern" where
  "exec_args a 0 = kret None"
| "exec_args a (Suc n) =
     kbind (fetchint a) (\<lambda>r.
     case r of
       None \<Rightarrow> kret None
     | Some uarg \<Rightarrow>
         if uarg = 0 then kret (Some [])
         else
           kbind (fetchstr uarg) (\<lambda>r.
           case r of
             None \<Rightarrow> kret None
           | Some arg \<Rightarrow> kbind (exec_args (a + 4) n) (\<lambda>r. kret (map_option (\<lambda>as. arg # as) r))))"

definition sys_exec :: "(nat \<Rightarrow> 'x mem_st_scheme devsw) \<Rightarrow> (int, 'x mem_st_scheme) kern" where
  "sys_exec devsw =
     kbind (argstr 0) (\<lambda>r.
     case r of
       None \<Rightarrow> kret (-1)
     | Some path \<Rightarrow>
         kbind (argint 1) (\<lambda>r.
         case r of
           None \<Rightarrow> kret (-1)
         | Some uargv \<Rightarrow>
             kbind (exec_args uargv MAXARG) (\<lambda>r.
             case r of None \<Rightarrow> kret (-1) | Some argv \<Rightarrow> exec devsw path argv)))"

definition sys_pipe :: "(int, 'x file_st_scheme) kern" where
  "sys_pipe =
     kbind (argptr 0 8) (\<lambda>r.
     case r of
       None \<Rightarrow> kret (-1)
     | Some a \<Rightarrow>
         kbind pipealloc (\<lambda>r.
         case r of
           None \<Rightarrow> kret (-1)
         | Some (rfile, wfile) \<Rightarrow>
             kbind (fdalloc rfile) (\<lambda>fd0.
             kbind (if fd0 = None then kret None else fdalloc wfile) (\<lambda>fd1.
             case (fd0, fd1) of
               (Some fd0, Some fd1) \<Rightarrow>
                 kseq (user_store a (bytes32 (of_nat fd0))) (
                 kseq (user_store (a + 4) (bytes32 (of_nat fd1))) (kret 0))
             | _ \<Rightarrow>
                 kseq (case fd0 of
                         None \<Rightarrow> kret ()
                       | Some fd \<Rightarrow> kbind curproc (\<lambda>p. upd_proc p (\<lambda>r. r\<lparr>p_ofile := (p_ofile r)[fd := None]\<rparr>))) (
                 kseq (fileclose rfile) (
                 kseq (fileclose wfile) (kret (-1))))))))"

end
