(* ===== verification/Syscall.thy ===== *)
theory Syscall
  imports Sysfile
begin

text \<open>
  The remaining system calls (\<open>sysproc.c\<close>), the dispatcher with its table of blocked calls
  (\<open>syscall.c\<close>) and the trap handler (\<open>trap.c\<close>) of xv6-public_1.  What the devices deliver at an
  interrupt (scan codes, characters of the serial line) and the fault address are arguments.
\<close>

section \<open>sysproc.c\<close>

definition sys_fork :: "(int, 'x run_st_scheme) kern" where "sys_fork = fork"
definition sys_exit :: "(int, 'x run_st_scheme) kern" where "sys_exit = kseq exit (kret 0)"
definition sys_wait :: "(int, 'x run_st_scheme) kern" where "sys_wait = wait"

definition sys_kill :: "(int, 'x mem_st_scheme) kern" where
  "sys_kill =
     kbind (argint 0) (\<lambda>r. case r of None \<Rightarrow> kret (-1) | Some pid \<Rightarrow> kill (sint pid))"

definition sys_getpid :: "(int, 'x proc_st_scheme) kern" where
  "sys_getpid = kbind curproc (\<lambda>p. kget (\<lambda>s. p_pid (ptable s p)))"

definition sys_sbrk :: "(int, 'x run_st_scheme) kern" where
  "sys_sbrk =
     kbind (argint 0) (\<lambda>r.
     case r of
       None \<Rightarrow> kret (-1)
     | Some n \<Rightarrow>
         kbind curproc (\<lambda>p.
         kbind (kget (\<lambda>s. p_sz (ptable s p))) (\<lambda>addr.
         kbind (growproc (sint n)) (\<lambda>k.
         if k < 0 then kret (-1) else kret (sint addr)))))"

text \<open>One pass of the loop of \<open>sys_sleep\<close>; the comparison is unsigned.\<close>

definition sys_sleep_loop :: "u32 \<Rightarrow> u32 \<Rightarrow> (int, 'x proc_st_scheme) kern" where
  "sys_sleep_loop ticks0 n =
     kbind (kget ticks) (\<lambda>t.
     if t - ticks0 < n then
       kbind curproc (\<lambda>p.
       kbind (kget (\<lambda>s. p_killed (ptable s p))) (\<lambda>k.
       if k then kseq (release L_ticks) (kret (-1))
       else sleeping ChTicks L_ticks))
     else kseq (release L_ticks) (kret 0))"

definition sys_sleep :: "(int, 'x mem_st_scheme) kern" where
  "sys_sleep =
     kbind (argint 0) (\<lambda>r.
     case r of
       None \<Rightarrow> kret (-1)
     | Some n \<Rightarrow>
         kseq (acquire L_ticks) (
         kbind (kget ticks) (\<lambda>ticks0. sys_sleep_loop ticks0 n)))"

definition sys_uptime :: "(int, 'x proc_st_scheme) kern" where
  "sys_uptime =
     kseq (acquire L_ticks) (
     kbind (kget ticks) (\<lambda>xticks.
     kseq (release L_ticks) (kret (sint xticks))))"

definition sys_chmod :: "(nat \<Rightarrow> 'x mem_st_scheme devsw) \<Rightarrow> (int, 'x mem_st_scheme) kern" where
  "sys_chmod devsw =
     kbind (argstr 0) (\<lambda>r.
     case r of
       None \<Rightarrow> kret (-1)
     | Some path \<Rightarrow>
         kbind (argint 1) (\<lambda>r.
         case r of
           None \<Rightarrow> kret (-1)
         | Some mode \<Rightarrow>
             kseq (cprintf (Some path) [])
                  (chmod_actual devsw path mode)))"

definition sys_gethistory :: "(int, 'x run_st_scheme) kern" where
  "sys_gethistory =
     kbind (argptr 0 (28 * int MAX_LIMIT)) (\<lambda>r.
     case r of None \<Rightarrow> kret (-1) | Some a \<Rightarrow> gethistory_actual a)"

definition sys_block :: "(int, 'x mem_st_scheme) kern" where
  "sys_block =
     kbind (argint 0) (\<lambda>r.
     case r of
       None \<Rightarrow> kret (-1)
     | Some n \<Rightarrow>
         if sint n = SYS_fork \<or> sint n = SYS_exit then kret (-1) else block_actual (sint n))"

definition sys_unblock :: "(int, 'x mem_st_scheme) kern" where
  "sys_unblock =
     kbind (argint 0) (\<lambda>r. case r of None \<Rightarrow> kret (-1) | Some n \<Rightarrow> unblock_actual (sint n))"

section \<open>The dispatcher\<close>

definition SYS_block :: int where [const_defs]: "SYS_block = 23"
definition SYS_unblock :: int where [const_defs]: "SYS_unblock = 24"

lemmas SYS_defs = SYS_fork_def SYS_exit_def SYS_exec_def SYS_block_def SYS_unblock_def

definition syscall_table ::
  "(nat \<Rightarrow> 'x run_st_scheme devsw) \<Rightarrow> ((int, 'x run_st_scheme) kern) list" where
  "syscall_table devsw =
     [sys_fork, sys_exit, sys_wait, sys_pipe, sys_read devsw, sys_kill, sys_exec devsw, sys_fstat,
      sys_chdir devsw, sys_dup, sys_getpid, sys_sbrk, sys_sleep, sys_uptime, sys_open devsw,
      sys_write devsw, sys_mknod devsw, sys_unlink devsw, sys_link devsw, sys_mkdir devsw, sys_close,
      sys_gethistory, sys_block, sys_unblock, sys_chmod devsw]"

text \<open>\<open>syscalls[num]\<close>; the entries are the calls 1 to 25.\<close>

definition syscalls ::
  "(nat \<Rightarrow> 'x run_st_scheme devsw) \<Rightarrow> int \<Rightarrow> ((int, 'x run_st_scheme) kern) option" where
  "syscalls devsw num =
     (if 0 < num \<and> num < 26 then Some (syscall_table devsw ! (nat num - 1)) else None)"

definition strncmp_str :: "u8 list \<Rightarrow> u8 list \<Rightarrow> nat \<Rightarrow> int" where
  "strncmp_str s t n =
     strncmp 0 (length s + 1) n (\<lambda>a. if a \<le> length s then byte_at s a else byte_at t (a - (length s + 1)))"

text \<open>An \<open>exec\<close> of a path that starts with \<open>unblock\<close> is let through.\<close>

definition exec_allowed :: "int \<Rightarrow> (bool, 'x mem_st_scheme) kern" where
  "exec_allowed num =
     (if num = SYS_exec then
        kbind (argstr 0) (\<lambda>r. kret (case r of None \<Rightarrow> False | Some path \<Rightarrow> strncmp_str path (str ''unblock'') 7 = 0))
      else kret False)"

text \<open>\<open>curproc->blocked_syscalls[num]\<close>: outside the array of 32 the read is undefined.\<close>

definition blocked :: "int \<Rightarrow> (bool, 'x proc_st_scheme) kern" where
  "blocked num =
     kbind curproc (\<lambda>p.
     if 0 \<le> num \<and> num < int NBLOCKED then kget (\<lambda>s. p_blocked (ptable s p) ! nat num \<noteq> 0) else kundef)"

definition set_eax :: "nat \<Rightarrow> int \<Rightarrow> (unit, 'x proc_st_scheme) kern" where
  "set_eax p v = upd_proc p (\<lambda>r. r\<lparr>p_tf := (p_tf r)\<lparr>tf_eax := word_of_int v\<rparr>\<rparr>)"

definition syscall :: "(nat \<Rightarrow> 'x run_st_scheme devsw) \<Rightarrow> (unit, 'x run_st_scheme) kern" where
  "syscall devsw =
     kbind curproc (\<lambda>p.
     kbind (kget (\<lambda>s. sint (tf_eax (p_tf (ptable s p))))) (\<lambda>num.
     kbind (exec_allowed num) (\<lambda>allowed.
     kbind (if \<not> allowed \<and> num \<noteq> SYS_fork \<and> num \<noteq> SYS_exit then blocked num else kret False) (\<lambda>b.
     if b then
       kseq (printk (''syscall %d is blocked'' @ [CHR 0x0A]) [ANum (word_of_int num)])
            (set_eax p (-1))
     else
       case syscalls devsw num of
         Some call \<Rightarrow> kbind call (\<lambda>v. set_eax p v)
       | None \<Rightarrow>
           kbind (kget (\<lambda>s. ptable s p)) (\<lambda>r.
           kseq (printk (''%d %s: unknown sys call %d'' @ [CHR 0x0A])
                   [ANum (word_of_int (p_pid r)), AStr (Some (takeWhile (\<lambda>c. c \<noteq> 0) (p_name r))), ANum (word_of_int num)])
                (set_eax p (-1)))))))"

section \<open>Traps\<close>

definition kbdintr :: "(nat \<Rightarrow> u32 list) \<Rightarrow> u8 list \<Rightarrow> (unit, 'x run_st_scheme) kern" where
  "kbdintr callerpcs bs =
     kbind (kget kbd_shift) (\<lambda>sh.
     case kbd_codes bs sh of
       (cs, sh') \<Rightarrow> kseq (kmod (\<lambda>s. s\<lparr>kbd_shift := sh'\<rparr>)) (consoleintr callerpcs cs))"

text \<open>\<open>uartgetc\<close> gives \<open>-1\<close> when there is no uart, else the bytes received.\<close>

definition uartintr :: "(nat \<Rightarrow> u32 list) \<Rightarrow> u8 list \<Rightarrow> (unit, 'x con_st_scheme) kern" where
  "uartintr callerpcs bs =
     kbind (kget uart_on) (\<lambda>u. consoleintr callerpcs (if u then map uint bs else []))"

record trap_input =
  in_cr2 :: u32
  in_kbd :: "u8 list"
  in_uart :: "u8 list"

definition killed_exit :: "u16 \<Rightarrow> (unit, 'x run_st_scheme) kern" where
  "killed_exit cs =
     kbind myproc (\<lambda>p.
     case p of
       None \<Rightarrow> kret ()
     | Some i \<Rightarrow>
         kbind (kget (\<lambda>s. p_killed (ptable s i))) (\<lambda>k.
         kwhen (k \<and> cs AND 3 = DPL_USER) exit))"

definition timer_intr :: "(unit, 'x proc_st_scheme) kern" where
  "timer_intr =
     kbind cpuid (\<lambda>c.
     kwhen (c = 0) (
       kseq (acquire L_ticks) (
       kseq (kmod (\<lambda>s. s\<lparr>ticks := ticks s + 1\<rparr>)) (
       kseq (wakeup ChTicks) (release L_ticks)))))"

definition trap_default :: "u32 \<Rightarrow> trapframe \<Rightarrow> (unit, 'x run_st_scheme) kern" where
  "trap_default cr2 tf =
     kbind myproc (\<lambda>mp.
     kbind cpuid (\<lambda>c.
     case (if tf_cs tf AND 3 = 0 then None else mp) of
       None \<Rightarrow>
         kseq (printk (''unexpected trap %d from cpu %d eip %x (cr2=0x%x)'' @ [CHR 0x0A])
                 [ANum (tf_trapno tf), ANum (of_nat c), ANum (tf_eip tf), ANum cr2])
              (kpanic ''trap'')
     | Some p \<Rightarrow>
         kbind (kget (\<lambda>s. ptable s p)) (\<lambda>r.
         kseq (printk (''pid %d %s: trap %d err %d on cpu %d eip 0x%x addr 0x%x--kill proc'' @ [CHR 0x0A])
                 [ANum (word_of_int (p_pid r)), AStr (Some (takeWhile (\<lambda>c. c \<noteq> 0) (p_name r))), ANum (tf_trapno tf),
                  ANum (tf_err tf), ANum (of_nat c), ANum (tf_eip tf), ANum cr2])
              (upd_proc p (\<lambda>r. r\<lparr>p_killed := True\<rparr>)))))"

definition trap ::
  "(nat \<Rightarrow> 'x run_st_scheme devsw) \<Rightarrow> (nat \<Rightarrow> u32 list) \<Rightarrow> trap_input \<Rightarrow> trapframe \<Rightarrow> (unit, 'x run_st_scheme) kern" where
  "trap devsw callerpcs inp tf =
     (if tf_trapno tf = 64 then
        kbind curproc (\<lambda>p.
        kbind killed (\<lambda>k.
        kseq (kwhen k exit) (
        kseq (upd_proc p (\<lambda>r. r\<lparr>p_tf := tf\<rparr>)) (
        kseq (syscall devsw) (
        kbind killed (\<lambda>k. kwhen k exit))))))
      else
        kseq (if tf_trapno tf = 32 then timer_intr
              else if tf_trapno tf = 46 \<or> tf_trapno tf = 47 then kret ()
              else if tf_trapno tf = 33 then kbdintr callerpcs (in_kbd inp)
              else if tf_trapno tf = 36 then uartintr callerpcs (in_uart inp)
              else if tf_trapno tf = 39 \<or> tf_trapno tf = 63 then
                kbind cpuid (\<lambda>c.
                printk (''cpu%d: spurious interrupt at %x:%x'' @ [CHR 0x0A])
                  [ANum (of_nat c), ANum (ucast (tf_cs tf)), ANum (tf_eip tf)])
              else trap_default (in_cr2 inp) tf) (
        kseq (killed_exit (tf_cs tf)) (
        kseq (kbind myproc (\<lambda>p.
                case p of
                  None \<Rightarrow> kret ()
                | Some i \<Rightarrow>
                    kbind (kget (\<lambda>s. p_state (ptable s i))) (\<lambda>st.
                    kwhen (st = RUNNING \<and> tf_trapno tf = 32) yield)))
             (killed_exit (tf_cs tf)))))"

section \<open>Blocking system calls\<close>

lemma out_frame_ptable: "out_frame s t \<Longrightarrow> out_frame (s\<lparr>ptable := f\<rparr>) (t\<lparr>ptable := f\<rparr>)"
  by (simp add: out_frame_def)

lemma out_frame_proc:
  assumes "out_frame s t"
  shows "out_frame (s\<lparr>ptable := (ptable s)(p := g (ptable s p))\<rparr>) (t\<lparr>ptable := (ptable t)(p := g (ptable t p))\<rparr>)"
proof -
  have "ptable t = ptable s" using assms by (simp add: out_frame_def)
  then show ?thesis using out_frame_ptable [OF assms] by simp
qed

lemma on_screen_cpu: "cpu_frame s t \<Longrightarrow> on_screen t = on_screen s"
  using out_frame_cpu [of s t] by (simp add: on_screen_def)

lemma on_screen_ptable [simp]: "on_screen (s\<lparr>ptable := f\<rparr>) = on_screen s"
  by (simp add: on_screen_def)

lemma curproc_out:
  assumes "thread_in L s" "cur s = Some p"
  shows "\<exists>t. curproc s = Ok p t \<and> thread_in L t \<and> out_frame s t \<and> on_screen t = on_screen s"
  using curproc_frame [OF assms] out_frame_cpu(1) on_screen_cpu by blast

lemma blocked_in:
  assumes "thread_in L s" "cur s = Some p" "0 \<le> num" "num < 32"
  shows "\<exists>t. blocked num s = Ok (p_blocked (ptable s p) ! nat num \<noteq> 0) t \<and> thread_in L t \<and> out_frame s t \<and> on_screen t = on_screen s"
proof -
  obtain t where t: "curproc s = Ok p t" "thread_in L t" "out_frame s t" "on_screen t = on_screen s"
    using curproc_out [OF assms(1,2)] by blast
  then show ?thesis using assms(3,4) by (auto simp: blocked_def kbind_def NBLOCKED_def out_frame_def)
qed

text \<open>Process \<open>p\<close> is running in a state in which its list of blocked calls is \<open>fl\<close>.\<close>

definition runs_with :: "lockid set \<Rightarrow> nat \<Rightarrow> int list \<Rightarrow> 'x run_st_scheme \<Rightarrow> bool" where
  "runs_with L p fl s \<longleftrightarrow> thread_in L s \<and> on_screen s \<and> cur s = Some p \<and> p_blocked (ptable s p) = fl"

text \<open>It asks for the system call \<open>num\<close>; the first argument on its stack is \<open>v\<close>.\<close>

definition asks :: "nat \<Rightarrow> int \<Rightarrow> 'x run_st_scheme \<Rightarrow> bool" where
  "asks p num s \<longleftrightarrow> sint (tf_eax (p_tf (ptable s p))) = num"

definition with_arg :: "nat \<Rightarrow> u32 \<Rightarrow> 'x mem_st_scheme \<Rightarrow> bool" where
  "with_arg p v s \<longleftrightarrow> (let a = tf_esp (p_tf (ptable s p)) + 4 in
     a < p_sz (ptable s p) \<and> a + 4 \<le> p_sz (ptable s p) \<and> (\<exists>bs. user_bytes a 4 s = Ok bs s \<and> word32 bs = v))"

text \<open>The system call has come back with \<open>v\<close>, and the list of blocked calls is \<open>fl\<close>.\<close>

definition came_back :: "nat \<Rightarrow> int list \<Rightarrow> int \<Rightarrow> 'x run_st_scheme \<Rightarrow> 'x run_st_scheme" where
  "came_back p fl v s = s\<lparr>ptable := (ptable s)(p := (ptable s p)\<lparr>p_blocked := fl,
     p_tf := (p_tf (ptable s p))\<lparr>tf_eax := word_of_int v\<rparr>\<rparr>)\<rparr>"

lemma runs_withD:
  assumes "runs_with L p fl s"
  shows "thread_in L s" "on_screen s" "cur s = Some p" "p_blocked (ptable s p) = fl"
  using assms by (simp_all add: runs_with_def)

lemma runs_with_frame: "runs_with L p fl s \<Longrightarrow> thread_in L t \<Longrightarrow> out_frame s t \<Longrightarrow> on_screen t \<Longrightarrow> runs_with L p fl t"
  by (simp add: runs_with_def out_frame_def)

lemma came_back_frame: "out_frame s t \<Longrightarrow> out_frame (came_back p fl v s) (came_back p fl v t)"
  unfolding came_back_def by (rule out_frame_proc)

lemma came_back_runs [simp]: "runs_with L p fl' (came_back p fl v s) \<longleftrightarrow> thread_in L s \<and> on_screen s \<and> cur s = Some p \<and> fl' = fl"
  by (auto simp: runs_with_def came_back_def)

text \<open>Arguments are read without changing anything but the CPU's nesting state.\<close>

lemma user_bytes_same:
  assumes "kmem t = kmem s" "cr3 t = cr3 s"
  shows "user_bytes a n s = Ok bs s' \<Longrightarrow> user_bytes a n t = Ok bs t \<and> s' = s"
proof (induction n arbitrary: a bs)
  case (Suc n)
  have "user_byte t a = user_byte s a" using assms by (simp add: user_byte_def)
  then show ?case using Suc by (auto simp: kbind_eq_Ok split: option.splits)
qed simp

lemma frame_user:
  assumes "out_frame s t"
  shows "kmem t = kmem s" "cr3 t = cr3 s" "ptable t = ptable s" "cur t = cur s"
proof -
  have "con_st.more t = con_st.more s" "ptable t = ptable s" "cur t = cur s" using assms by (simp_all add: out_frame_def)
  then show "kmem t = kmem s" "cr3 t = cr3 s" "ptable t = ptable s" "cur t = cur s" by (cases s, cases t, simp)+
qed

lemma argint_in:
  assumes "thread_in L s" "cur s = Some p" "with_arg p v s"
  shows "\<exists>t. argint 0 s = Ok (Some v) t \<and> thread_in L t \<and> out_frame s t \<and> on_screen t = on_screen s"
proof -
  obtain a where a: "curproc s = Ok p a" "thread_in L a" "out_frame s a" "on_screen a = on_screen s"
    using curproc_out [OF assms(1,2)] by blast
  note A = frame_user [OF a(3)]
  obtain b where b: "curproc a = Ok p b" "thread_in L b" "out_frame a b" "on_screen b = on_screen a"
    using curproc_out [OF a(2)] A(4) assms(2) by auto
  note B = frame_user [OF b(3)]
  let ?a = "tf_esp (p_tf (ptable s p)) + 4"
  obtain bs where bs: "user_bytes ?a 4 s = Ok bs s" "word32 bs = v" "?a < p_sz (ptable s p)" "?a + 4 \<le> p_sz (ptable s p)"
    using assms(3) by (auto simp: with_arg_def Let_def)
  have "user_bytes ?a 4 b = Ok bs b" using user_bytes_same [of b s, OF _ _ bs(1)] A B by simp
  then have "argint 0 s = Ok (Some v) b"
    using a(1) b(1) A B bs(2-4) by (simp add: argint_def fetchint_def kbind_def not_le not_less)
  moreover have "out_frame s b" using a(3) b(3) by (rule out_frame_trans)
  ultimately show ?thesis using b a(4) by auto
qed

lemma syscall_enters:
  assumes r: "runs_with L p fl s" and n: "asks p num s" "0 \<le> num" "num < 32" "num \<notin> {SYS_fork, SYS_exit, SYS_exec}"
  shows "\<exists>u. out_frame s u \<and> runs_with L p fl u \<and> syscall devsw s =
    (if fl ! nat num \<noteq> 0 then kseq (printk (''syscall %d is blocked'' @ [CHR 0x0A]) [ANum (word_of_int num)]) (set_eax p (-1)) u
     else case syscalls devsw num of
         Some call \<Rightarrow> kbind call (\<lambda>v. set_eax p v) u
       | None \<Rightarrow>
           kbind (kget (\<lambda>s. ptable s p)) (\<lambda>r.
           kseq (printk (''%d %s: unknown sys call %d'' @ [CHR 0x0A])
                   [ANum (word_of_int (p_pid r)), AStr (Some (takeWhile (\<lambda>c. c \<noteq> 0) (p_name r))), ANum (word_of_int num)])
                (set_eax p (-1))) u)"
proof -
  note R = runs_withD [OF r]
  obtain a where a: "curproc s = Ok p a" "thread_in L a" "out_frame s a" "on_screen a = on_screen s" using curproc_out [OF R(1,3)] by blast
  note A = frame_user [OF a(3)]
  obtain b where b: "blocked num a = Ok (fl ! nat num \<noteq> 0) b" "thread_in L b" "out_frame a b" "on_screen b = on_screen a"
    using blocked_in [OF a(2) _ n(2,3)] A R(3,4) by auto
  have "out_frame s b" using a(3) b(3) by (rule out_frame_trans)
  moreover have "runs_with L p fl b" using runs_with_frame [OF r b(2)] calculation a(4) b(4) R(2) by simp
  moreover have "syscall devsw s = kbind (kret (fl ! nat num \<noteq> 0)) (\<lambda>c. if c then kseq (printk (''syscall %d is blocked'' @ [CHR 0x0A]) [ANum (word_of_int num)]) (set_eax p (-1))
     else case syscalls devsw num of
         Some call \<Rightarrow> kbind call (\<lambda>v. set_eax p v)
       | None \<Rightarrow>
           kbind (kget (\<lambda>s. ptable s p)) (\<lambda>r.
           kseq (printk (''%d %s: unknown sys call %d'' @ [CHR 0x0A])
                   [ANum (word_of_int (p_pid r)), AStr (Some (takeWhile (\<lambda>c. c \<noteq> 0) (p_name r))), ANum (word_of_int num)])
                (set_eax p (-1)))) b"
    using a(1) b(1) A(3) n(1,4) by (simp add: syscall_def kbind_def exec_allowed_def asks_def)
  ultimately show ?thesis by (intro exI [of _ b]) (simp split: option.split)
qed

lemma set_eax_frame:
  assumes "runs_with L p fl u" "out_frame s u"
  shows "\<exists>t. set_eax p v u = Ok () t \<and> runs_with L p fl t \<and> out_frame (came_back p fl v s) t"
proof -
  let ?t = "came_back p fl v u"
  have "p_blocked (ptable u p) = fl" using assms(1) by (simp add: runs_with_def)
  then have e: "(ptable u p)\<lparr>p_blocked := fl\<rparr> = ptable u p" by (cases "ptable u p") simp
  have "set_eax p v u = Ok () ?t" unfolding came_back_def e by (simp add: set_eax_def upd_proc_def)
  then show ?thesis using assms came_back_frame [OF assms(2), of p fl v] runs_withD [OF assms(1)] by (intro exI [of _ ?t]) simp
qed

lemma call_refused:
  assumes "runs_with L p fl s" "L_cons \<notin> L" "asks p num s" "0 \<le> num" "num < 32" "num \<notin> {SYS_fork, SYS_exit, SYS_exec}"
    and "fl ! nat num \<noteq> 0"
  shows "\<exists>t. syscall devsw s = Ok () t \<and> runs_with L p fl t \<and> out_frame (came_back p fl (-1) s) t"
proof -
  obtain u where u: "out_frame s u" "runs_with L p fl u"
    "syscall devsw s = kseq (printk (''syscall %d is blocked'' @ [CHR 0x0A]) [ANum (word_of_int num)]) (set_eax p (-1)) u"
    using syscall_enters [OF assms(1,3,4,5,6), of devsw] assms(7) by auto
  note R = runs_withD [OF u(2)]
  have "fmt_ok (str (''syscall %d is blocked'' @ [CHR 0x0A])) [ANum (word_of_int num)]" by (simp add: str_def)
  from cprintf_in [OF R(1) assms(2) R(2) this] obtain c where
    c: "printk (''syscall %d is blocked'' @ [CHR 0x0A]) [ANum (word_of_int num)] u = Ok () c" "thread_in L c" "on_screen c" "out_frame u c"
    unfolding printk_def by blast
  have "out_frame s c" using u(1) c(4) by (rule out_frame_trans)
  from set_eax_frame [OF runs_with_frame [OF u(2) c(2,4,3)] this] show ?thesis
    using u(3) c(1) by (auto simp: kseq_def kbind_def)
qed

lemma call_dispatched:
  assumes "runs_with L p fl s" "asks p num s" "0 < num" "num < 26" "num \<notin> {SYS_fork, SYS_exit, SYS_exec}" "fl ! nat num = 0"
  shows "\<exists>u call. syscalls devsw num = Some call \<and> out_frame s u \<and> runs_with L p fl u \<and> syscall devsw s = kbind call (set_eax p) u"
proof -
  obtain call where call: "syscalls devsw num = Some call" using assms(3,4) by (simp add: syscalls_def)
  obtain u where "out_frame s u" "runs_with L p fl u" "syscall devsw s = kbind call (\<lambda>v. set_eax p v) u"
    using syscall_enters [OF assms(1,2) _ _ assms(5), of devsw] assms(3,4,6) call by auto
  then show ?thesis using call by blast
qed

text \<open>\<open>sys_block\<close> and \<open>sys_unblock\<close> set and clear one entry of the list.\<close>

lemma flag_call:
  assumes "runs_with L p fl u" "with_arg p v u" "num = sint v" "0 \<le> num" "num < 32" "num \<notin> {SYS_fork, SYS_exit}"
  shows "\<exists>t. sys_block u = Ok 0 t \<and> runs_with L p (fl[nat num := 1]) t
      \<and> out_frame (u\<lparr>ptable := (ptable u)(p := (ptable u p)\<lparr>p_blocked := fl[nat num := 1]\<rparr>)\<rparr>) t"
    "\<exists>t. sys_unblock u = Ok 0 t \<and> runs_with L p (fl[nat num := 0]) t
      \<and> out_frame (u\<lparr>ptable := (ptable u)(p := (ptable u p)\<lparr>p_blocked := fl[nat num := 0]\<rparr>)\<rparr>) t"
proof -
  note R = runs_withD [OF assms(1)]
  obtain a where a: "argint 0 u = Ok (Some v) a" "thread_in L a" "out_frame u a" "on_screen a = on_screen u"
    using argint_in [OF R(1,3) assms(2)] by blast
  have ra: "runs_with L p fl a" using runs_with_frame [OF assms(1) a(2,3)] a(4) R(2) by simp
  note A = runs_withD [OF ra]
  obtain b where b: "curproc a = Ok p b" "thread_in L b" "out_frame a b" "on_screen b = on_screen a" using curproc_out [OF A(1,3)] by blast
  have rb: "runs_with L p fl b" using runs_with_frame [OF ra b(2,3)] b(4) A(2) by simp
  have F: "out_frame u b" using a(3) b(3) by (rule out_frame_trans)
  have pb: "p_blocked (ptable b p) = fl" "p_blocked (ptable u p) = fl" using rb assms(1) by (simp_all add: runs_with_def)
  let ?t = "\<lambda>x. b\<lparr>ptable := (ptable b)(p := (ptable b p)\<lparr>p_blocked := (p_blocked (ptable b p))[nat num := x]\<rparr>)\<rparr>"
  have T: "runs_with L p (fl[nat num := x]) (?t x)" for x using rb pb by (simp add: runs_with_def)
  have G: "out_frame (u\<lparr>ptable := (ptable u)(p := (ptable u p)\<lparr>p_blocked := fl[nat num := x]\<rparr>)\<rparr>) (?t x)" for x
    using out_frame_proc [OF F, of p "\<lambda>r. r\<lparr>p_blocked := (p_blocked r)[nat num := x]\<rparr>"] pb by simp
  have "sys_block u = Ok 0 (?t 1)"
    using a(1) b(1) assms(3-6) by (simp add: sys_block_def block_actual_def kbind_def kseq_def upd_proc_def NBLOCKED_def)
  then show "\<exists>t. sys_block u = Ok 0 t \<and> runs_with L p (fl[nat num := 1]) t
      \<and> out_frame (u\<lparr>ptable := (ptable u)(p := (ptable u p)\<lparr>p_blocked := fl[nat num := 1]\<rparr>)\<rparr>) t" using T G by blast
  have "sys_unblock u = Ok 0 (?t 0)"
    using a(1) b(1) assms(3-6) by (simp add: sys_unblock_def unblock_actual_def kbind_def kseq_def upd_proc_def NBLOCKED_def)
  then show "\<exists>t. sys_unblock u = Ok 0 t \<and> runs_with L p (fl[nat num := 0]) t
      \<and> out_frame (u\<lparr>ptable := (ptable u)(p := (ptable u p)\<lparr>p_blocked := fl[nat num := 0]\<rparr>)\<rparr>) t" using T G by blast
qed

lemma with_arg_frame: "out_frame s t \<Longrightarrow> with_arg p v s \<Longrightarrow> with_arg p v t"
proof -
  assume f: "out_frame s t" "with_arg p v s"
  note F = frame_user [OF f(1)]
  show "with_arg p v t" using f(2) user_bytes_same [OF F(1,2)] F(3) by (auto simp: with_arg_def Let_def)
qed

lemma flag_call_returns:
  assumes "runs_with L p fl s" "asks p c s" "c \<in> {SYS_block, SYS_unblock}" "with_arg p v s" "num = sint v" "0 \<le> num" "num < 32"
    and "num \<notin> {SYS_fork, SYS_exit}" "fl ! nat c = 0"
  defines "fl' \<equiv> fl[nat num := (if c = SYS_block then 1 else 0)]"
  shows "\<exists>t. syscall devsw s = Ok () t \<and> runs_with L p fl' t \<and> out_frame (came_back p fl' 0 s) t"
proof -
  have c: "0 < c" "c < 26" "c \<notin> {SYS_fork, SYS_exit, SYS_exec}" using assms(3) by (auto simp: SYS_defs)
  obtain u call where u: "syscalls devsw c = Some call" "out_frame s u" "runs_with L p fl u" "syscall devsw s = kbind call (set_eax p) u"
    using call_dispatched [OF assms(1,2) c assms(9), of devsw] by blast
  have call: "call = (if c = SYS_block then sys_block else sys_unblock)"
    using u(1) assms(3) by (auto simp: syscalls_def syscall_table_def SYS_defs)
  let ?fl = "\<lambda>r. r\<lparr>p_blocked := fl'\<rparr>"
  obtain t where t: "call u = Ok 0 t" "runs_with L p fl' t" "out_frame (u\<lparr>ptable := (ptable u)(p := ?fl (ptable u p))\<rparr>) t"
    using flag_call [OF u(3) with_arg_frame [OF u(2) assms(4)] assms(5-8)] unfolding call fl'_def by (cases "c = SYS_block") auto
  have "out_frame (s\<lparr>ptable := (ptable s)(p := ?fl (ptable s p))\<rparr>) t"
    by (rule out_frame_trans [OF out_frame_proc [where p = p and g = ?fl, OF u(2)] t(3)])
  from set_eax_frame [OF t(2) this, of 0] show ?thesis using u(4) t(1) by (auto simp: kbind_def came_back_def)
qed

text \<open>
  C21. Blocking works, until \<open>unblock\<close>.  Consider a process whose list of blocked calls is \<open>fl\<close>, and
  a call number \<open>num\<close> of the table other than \<open>fork\<close>, \<open>exit\<close> and \<open>exec\<close> (which is let through or
  not by its path).  In any state in which it asks for \<open>block(num)\<close> the call returns 0 and the list has
  \<open>num\<close> set; in any state with that list in which it asks for \<open>num\<close>, whatever the arguments, the
  call is not executed and \<open>-1\<close> comes back, and it stays so; in any state with that list in which it
  asks for \<open>unblock(num)\<close> the entry is cleared again; and with that list \<open>num\<close> goes to its handler.
  Nothing but the list, \<open>eax\<close> and the screen changes on the way.
\<close>

theorem block_refuses_call:
  assumes "L_cons \<notin> L" "length fl = 32" "0 < num" "num < 26" "num \<notin> {SYS_fork, SYS_exit, SYS_exec, SYS_unblock}"
    and "fl ! nat SYS_block = 0" "fl ! nat SYS_unblock = 0" "num = sint v"
  shows "let blk = fl[nat num := 1]; unb = fl[nat num := 0] in
    (\<forall>s. runs_with L p fl s \<and> asks p SYS_block s \<and> with_arg p v s \<longrightarrow>
       (\<exists>t. syscall devsw s = Ok () t \<and> runs_with L p blk t \<and> out_frame (came_back p blk 0 s) t))
    \<and> (\<forall>s. runs_with L p blk s \<and> asks p num s \<longrightarrow>
       (\<exists>t. syscall devsw s = Ok () t \<and> runs_with L p blk t \<and> out_frame (came_back p blk (-1) s) t))
    \<and> (\<forall>s. runs_with L p blk s \<and> asks p SYS_unblock s \<and> with_arg p v s \<longrightarrow>
       (\<exists>t. syscall devsw s = Ok () t \<and> runs_with L p unb t \<and> out_frame (came_back p unb 0 s) t))
    \<and> (\<forall>s. runs_with L p unb s \<and> asks p num s \<longrightarrow>
       (\<exists>t call. syscalls devsw num = Some call \<and> out_frame s t \<and> runs_with L p unb t \<and> syscall devsw s = kbind call (set_eax p) t))"
  unfolding Let_def
proof (intro conjI allI impI; elim conjE)
  have n: "0 \<le> num" "num < 32" "num \<notin> {SYS_fork, SYS_exit}" "num \<notin> {SYS_fork, SYS_exit, SYS_exec}" "nat num < length fl" "num \<noteq> SYS_unblock"
    using assms(2-5) by simp_all
  have off: "fl[nat num := 1] ! nat SYS_unblock = 0" using assms(7) n(1,6) by (simp add: nth_list_update SYS_defs nat_eq_iff)
  have bu: "SYS_block \<in> {SYS_block, SYS_unblock}" "SYS_unblock \<in> {SYS_block, SYS_unblock}" "SYS_unblock \<noteq> SYS_block" by (simp_all add: SYS_defs)
  fix s :: "'a run_st_scheme"
  show "\<exists>t. syscall devsw s = Ok () t \<and> runs_with L p (fl[nat num := 1]) t \<and> out_frame (came_back p (fl[nat num := 1]) 0 s) t"
    if "runs_with L p fl s" "asks p SYS_block s" "with_arg p v s"
    using flag_call_returns [OF that(1,2) bu(1) that(3) assms(8) n(1-3) assms(6), of devsw] by simp
  show "\<exists>t. syscall devsw s = Ok () t \<and> runs_with L p (fl[nat num := 1]) t \<and> out_frame (came_back p (fl[nat num := 1]) (-1) s) t"
    if "runs_with L p (fl[nat num := 1]) s" "asks p num s"
    using call_refused [OF that(1) assms(1) that(2) n(1,2,4), of devsw] n(5) by simp
  show "\<exists>t. syscall devsw s = Ok () t \<and> runs_with L p (fl[nat num := 0]) t \<and> out_frame (came_back p (fl[nat num := 0]) 0 s) t"
    if "runs_with L p (fl[nat num := 1]) s" "asks p SYS_unblock s" "with_arg p v s"
    using flag_call_returns [OF that(1,2) bu(2) that(3) assms(8) n(1-3) off, of devsw] bu(3) by simp
  show "\<exists>t call. syscalls devsw num = Some call \<and> out_frame s t \<and> runs_with L p (fl[nat num := 0]) t \<and> syscall devsw s = kbind call (set_eax p) t"
    if "runs_with L p (fl[nat num := 0]) s" "asks p num s"
    using call_dispatched [OF that assms(3,4) n(4), of devsw] n(5) by simp
qed

definition no_devices :: "nat \<Rightarrow> 's devsw" where
  "no_devices = (\<lambda>_. \<lparr>dv_read = None, dv_write = None\<rparr>)"

lemma user_bytes_4:
  "user_bytes a 4 s = kbind (kget (\<lambda>s. (user_byte s a, user_byte s (a + 1), user_byte s (a + 1 + 1), user_byte s (a + 1 + 1 + 1))))
     (\<lambda>(b, c, d, e). case (b, c, d, e) of (Some b, Some c, Some d, Some e) \<Rightarrow> kret [b, c, d, e] | _ \<Rightarrow> kpanic ''trap'') s"
  by (simp add: numeral_eq_Suc kbind_def split: option.split)

text \<open>Process 0 with its stack at the start of its second page, where the word 11 (\<open>getpid\<close>) is.\<close>

definition demo_block_mem :: mem where
  "demo_block_mem = st32 0x80403000 11 demo_user_mem"

definition demo_block_st :: run_st where
  "demo_block_st = demo_run_st\<lparr>kmem := demo_block_mem, cr3 := 0x400000,
     ptable := (\<lambda>_. zero_proc)(0 := zero_proc\<lparr>p_state := RUNNING, p_pid := 1, p_sz := 0x2000,
       p_tf := zero_tf\<lparr>tf_eax := 23, tf_esp := 0xFFC\<rparr>\<rparr>)\<rparr>"

lemma demo_block_word: "with_arg 0 11 demo_block_st"
proof -
  have w: "ld32 0x80400000 demo_block_mem = 0x401007" "ld32 0x80401004 demo_block_mem = 0x403007"
    by (simp_all add: demo_block_mem_def ld32_st32_other demo_walk)
  have m: "mmu_addr demo_block_mem 0x80400000 PTE_P v = Some (0x80403000 + (v AND 0xFFF))" if "PDX v = 0" "PTX v = 1" for v
    by (simp add: mmu_addr_alt pde_at_def pte_at_def frame_at_def that w P2V_def KERNBASE_def PTE_ADDR_def PTE_P_def)
  have c: "kmem demo_block_st = demo_block_mem" "P2V (cr3 demo_block_st) = 0x80400000"
    by (simp_all add: demo_block_st_def P2V_def KERNBASE_def)
  have b: "user_byte demo_block_st v = Some (demo_block_mem (unat (0x80403000 + (v AND 0xFFF))))" if "PDX v = 0" "PTX v = 1" for v
    using m [OF that] by (simp add: user_byte_def c)
  have b4: "user_byte demo_block_st 0x1000 = Some (demo_block_mem (0x80403000 + 0))" "user_byte demo_block_st 0x1001 = Some (demo_block_mem (0x80403000 + 1))"
    "user_byte demo_block_st 0x1002 = Some (demo_block_mem (0x80403000 + 2))" "user_byte demo_block_st 0x1003 = Some (demo_block_mem (0x80403000 + 3))"
    using b [of "0x1000"] b [of "0x1001"] b [of "0x1002"] b [of "0x1003"] by (simp_all add: PDX_def PTX_def)
  have "word32 (map (\<lambda>i. demo_block_mem (0x80403000 + i)) [0..<4]) = 11"
    using ld32_st32 [of "0x80403000" 11 demo_user_mem] by (simp add: demo_block_mem_def ld32_def upt_rec)
  moreover have "user_bytes 0x1000 4 demo_block_st = Ok (map (\<lambda>i. demo_block_mem (0x80403000 + i)) [0..<4]) demo_block_st"
    using b4 by (simp add: user_bytes_4 kbind_def upt_rec)
  ultimately show ?thesis by (simp add: with_arg_def) (simp add: demo_block_st_def zero_tf_def)
qed

theorem block_refuses_call_witness:
  "\<exists>t u. syscall no_devices demo_block_st = Ok () t \<and> p_blocked (ptable t 0) ! 11 = 1
    \<and> syscall no_devices (came_back 0 (p_blocked (ptable t 0)) 11 t) = Ok () u \<and> tf_eax (p_tf (ptable u 0)) = -1"
proof -
  let ?fl = "replicate 32 0 :: int list"
  have on: "on_screen demo_run_st"
    by (simp add: on_screen_def demo_run_st_def file_st.defs mem_st.defs run_st.defs con_st.defs fs_st.defs demo_mem_st_def demo_con_st_def)
  have f: "found demo_block_st = found demo_run_st" "cpus demo_block_st = cpus demo_run_st" "fl_if demo_block_st = fl_if demo_run_st"
    "locks demo_block_st = locks demo_run_st" by (simp_all add: demo_block_st_def found_def)
  have "thread_in {} demo_block_st" using demo_run_in(1) unfolding thread_in_def f .
  moreover have "cur demo_block_st = Some 0" using demo_run_in(2) unfolding cur_def f .
  moreover have "on_screen demo_block_st" using on by (simp add: on_screen_def demo_block_st_def)
  moreover have "p_blocked (ptable demo_block_st 0) = ?fl" by (simp add: demo_block_st_def zero_proc_def)
  ultimately have r: "runs_with {} 0 ?fl demo_block_st" by (simp add: runs_with_def)
  have r2: "asks 0 SYS_block demo_block_st" by (simp add: asks_def demo_block_st_def SYS_defs)
  note B = block_refuses_call [of "{}" ?fl 11 11 0 no_devices, unfolded Let_def]
  have side: "L_cons \<notin> {}" "length ?fl = 32" "(0 :: int) < 11" "(11 :: int) < 26" "(11 :: int) \<notin> {SYS_fork, SYS_exit, SYS_exec, SYS_unblock}" "?fl ! nat SYS_block = 0"
    "?fl ! nat SYS_unblock = 0" "(11 :: int) = sint (11 :: u32)" by (simp_all add: SYS_defs)
  note C = B [OF side]
  obtain t where t: "syscall no_devices demo_block_st = Ok () t" "runs_with {} 0 (?fl[nat 11 := 1]) t"
    using conjunct1 [OF C] r r2 demo_block_word by blast
  let ?s = "came_back 0 (p_blocked (ptable t 0)) 11 t"
  have s: "runs_with {} 0 (?fl[nat 11 := 1]) ?s" "asks 0 11 ?s"
    using runs_withD [OF t(2)] by simp_all (simp add: asks_def came_back_def)
  obtain u where u: "syscall no_devices ?s = Ok () u" "out_frame (came_back 0 (?fl[nat 11 := 1]) (-1) ?s) u"
    using conjunct1 [OF conjunct2 [OF C]] s by blast
  have "tf_eax (p_tf (ptable u 0)) = -1" using frame_user(3) [OF u(2)] by (simp add: came_back_def)
  then show ?thesis using t u(1) by (intro exI [of _ t] exI [of _ u]) (simp add: runs_with_def)
qed

end
