(* ===== verification/Kernel2.thy ===== *)
theory Kernel2
  imports Syscall
begin

text \<open>
  What the kernel of xv6-public_2 does differently: processes forked to start later or to run for a
  bounded time, the scheduler by dynamic priority with its profile, the keys that stop, suspend and
  resume the user's processes, and a signal handler in user space.  The files the two kernels
  share are those of the theories above; the fields its \<open>struct proc\<close> adds are a second table.
  C integers are kept as integers, and an operation that leaves their range is undefined.
\<close>

section \<open>Data\<close>

definition INIT_PRIORITY :: int where [const_defs]: "INIT_PRIORITY = 50"
definition ALPHA :: int where [const_defs]: "ALPHA = 1"
definition BETA :: int where [const_defs]: "BETA = 2"
definition SIGBG :: int where [const_defs]: "SIGBG = 2"
definition SIGFG :: int where [const_defs]: "SIGFG = 3"
definition MAGIC_SIGRET :: u32 where [const_defs]: "MAGIC_SIGRET = 0xDEADBEEF"

text \<open>\<open>q_saved\<close> is \<open>saved_tf\<close>: the page it points to, with the frame stored there.\<close>

record proc2 =
  q_b :: bool
  q_pending :: bool
  q_handler :: u32
  q_saved :: "(u32 \<times> trapframe) option"
  q_custom :: bool
  q_start_later :: int
  q_exec_time :: int
  q_creation :: int
  q_first_cpu :: int
  q_finish :: int
  q_rtime :: int
  q_switches :: int
  q_init_priority :: int
  q_waiting :: int

record v2_st = run_st +
  px :: "nat \<Rightarrow> proc2"
  prev_proc :: "nat option"

definition upd_px :: "nat \<Rightarrow> (proc2 \<Rightarrow> proc2) \<Rightarrow> (unit, 'x v2_st_scheme) kern" where
  "upd_px i f = kmod (\<lambda>s. s\<lparr>px := (px s)(i := f (px s i))\<rparr>)"

definition cint :: "int \<Rightarrow> (int, 's) kern" where
  "cint n = (if - (2 ^ 31) \<le> n \<and> n < 2 ^ 31 then kret n else kundef)"

section \<open>Creating processes\<close>

definition allocproc2 :: "(nat option, 'x v2_st_scheme) kern" where
  "allocproc2 =
     kseq (acquire L_ptable) (
     kbind (kget (\<lambda>s. find (\<lambda>i. p_state (ptable s i) = UNUSED) [0..<NPROC])) (\<lambda>r.
     case r of
       None \<Rightarrow> kseq (release L_ptable) (kret None)
     | Some p \<Rightarrow>
         kseq (upd_proc p (\<lambda>r. r\<lparr>p_state := EMBRYO\<rparr>)) (
         kseq (kmod (\<lambda>s. s\<lparr>ptable := (ptable s)(p := (ptable s p)\<lparr>p_pid := nextpid s\<rparr>), nextpid := nextpid s + 1\<rparr>)) (
         kbind (kget ticks) (\<lambda>now.
         kseq (upd_px p (\<lambda>q. q\<lparr>q_creation := sint now, q_first_cpu := -1, q_finish := 0, q_rtime := 0, q_switches := 0,
             q_init_priority := INIT_PRIORITY\<rparr>)) (
         kseq (release L_ptable) (
         kbind kalloc (\<lambda>k.
         kseq (upd_proc p (\<lambda>r. r\<lparr>p_kstack := k\<rparr>)) (
         if k = 0 then
           kseq (upd_proc p (\<lambda>r. r\<lparr>p_state := UNUSED\<rparr>)) (kret None)
         else
           kbind (kget sym_trapret) (\<lambda>tr.
           kbind (kget sym_forkret) (\<lambda>fr.
           kseq (wr32 (k + KSTACKSIZE - 76 - 4) tr) (
           kseq (upd_proc p (\<lambda>r. r\<lparr>p_context := zero_context\<lparr>ctx_eip := fr\<rparr>\<rparr>))
                (kret (Some p))))))))))))))"

text \<open>
  What \<open>fork\<close> and \<open>custom_fork\<close> have in common; they differ in the flags they set on the new
  process and in how they make it start.
\<close>

definition fork_as :: "(proc2 \<Rightarrow> proc2) \<Rightarrow> (nat \<Rightarrow> (unit, 'x v2_st_scheme) kern) \<Rightarrow> (int, 'x v2_st_scheme) kern" where
  "fork_as flags start =
     kbind curproc (\<lambda>cp.
     kbind allocproc2 (\<lambda>r.
     case r of
       None \<Rightarrow> kret (-1)
     | Some np \<Rightarrow>
         kbind (kget (\<lambda>s. ptable s cp)) (\<lambda>c.
         kbind (copyuvm (p_pgdir c) (p_sz c)) (\<lambda>d.
         kseq (upd_proc np (\<lambda>r. r\<lparr>p_pgdir := d\<rparr>)) (
         if d = 0 then
           kbind (kget (\<lambda>s. p_kstack (ptable s np))) (\<lambda>k.
           kseq (kfree k) (
           kseq (upd_proc np (\<lambda>r. r\<lparr>p_kstack := 0, p_state := UNUSED\<rparr>))
                (kret (-1))))
         else
           kseq (upd_proc np (\<lambda>r. r\<lparr>p_sz := p_sz c, p_parent := Some cp, p_tf := (p_tf c)\<lparr>tf_eax := 0\<rparr>\<rparr>)) (
           kseq (kfor [0..<NOFILE] (\<lambda>i.
             kbind (kget (\<lambda>s. p_ofile (ptable s cp) ! i)) (\<lambda>f.
             case f of
               None \<Rightarrow> kret ()
             | Some f \<Rightarrow>
                 kbind (filedup f) (\<lambda>g.
                 upd_proc np (\<lambda>r. r\<lparr>p_ofile := (p_ofile r)[i := Some g]\<rparr>))))) (
           kbind (kget (\<lambda>s. p_cwd (ptable s cp))) (\<lambda>w.
           case w of
             None \<Rightarrow> kundef
           | Some ip \<Rightarrow>
               kbind (idup ip) (\<lambda>ip.
               kseq (upd_proc np (\<lambda>r. r\<lparr>p_cwd := Some ip\<rparr>)) (
               kseq (upd_proc np (\<lambda>r. r\<lparr>p_name := safestrcpy_name (p_name r) (p_name c)\<rparr>)) (
               kseq (upd_px np flags) (
               kbind (kget (\<lambda>s. p_pid (ptable s np))) (\<lambda>pid.
               kseq (acquire L_ptable) (
               kseq (start np) (
               kseq (release L_ptable) (kret pid))))))))))))))))"

definition fork2 :: "(int, 'x v2_st_scheme) kern" where
  "fork2 = fork_as (\<lambda>q. q) (\<lambda>np.
     kseq (upd_proc np (\<lambda>r. r\<lparr>p_state := RUNNABLE\<rparr>))
          (upd_px np (\<lambda>q. q\<lparr>q_b := False\<rparr>)))"

definition custom_fork :: "int \<Rightarrow> int \<Rightarrow> (int, 'x v2_st_scheme) kern" where
  "custom_fork start_later exec_time =
     fork_as (\<lambda>q. q\<lparr>q_custom := True, q_start_later := start_later, q_exec_time := exec_time, q_rtime := 0\<rparr>) (\<lambda>np.
       if start_later \<noteq> 0 then upd_proc np (\<lambda>r. r\<lparr>p_state := CUSTOM_WAIT\<rparr>)
       else kseq (upd_proc np (\<lambda>r. r\<lparr>p_state := RUNNABLE\<rparr>))
                 (upd_px np (\<lambda>q. q\<lparr>q_b := False\<rparr>)))"

definition sys_custom_fork :: "(int, 'x v2_st_scheme) kern" where
  "sys_custom_fork =
     kbind (argint 0) (\<lambda>r.
     case r of
       None \<Rightarrow> kret (-1)
     | Some start_later \<Rightarrow>
         kbind (argint 1) (\<lambda>r.
         case r of
           None \<Rightarrow> kret (-1)
         | Some exec_time \<Rightarrow> custom_fork (sint start_later) (sint exec_time)))"

definition sys_scheduler_start :: "(int, 'x v2_st_scheme) kern" where
  "sys_scheduler_start =
     kseq (acquire L_ptable) (
     kseq (kfor [0..<NPROC] (\<lambda>i.
       kbind (kget (\<lambda>s. p_state (ptable s i))) (\<lambda>st.
       kwhen (st = CUSTOM_WAIT) (upd_proc i (\<lambda>r. r\<lparr>p_state := RUNNABLE\<rparr>))))) (
     kseq (release L_ptable) (kret 0)))"

section \<open>exit and wait\<close>

text \<open>The profile \<open>exit\<close> prints.\<close>

definition print_profile :: "nat \<Rightarrow> (unit, 'x v2_st_scheme) kern" where
  "print_profile cp =
     kbind (kget ticks) (\<lambda>now.
     kseq (upd_px cp (\<lambda>q. q\<lparr>q_finish := sint now\<rparr>)) (
     kbind (kget (\<lambda>s. px s cp)) (\<lambda>q.
     kbind (cint (q_finish q - q_creation q)) (\<lambda>tat.
     kbind (if q_first_cpu q < 0 then kret 0 else cint (q_first_cpu q - q_creation q)) (\<lambda>rt.
     let wt = (if q_waiting q < 0 then 0 else q_waiting q) in
     kbind (kget (\<lambda>s. p_pid (ptable s cp))) (\<lambda>pid.
     printk (''PID: %d'' @ [CHR 0x0A] @ ''TAT: %d'' @ [CHR 0x0A] @ ''WT: %d'' @ [CHR 0x0A] @ ''RT: %d'' @ [CHR 0x0A]
         @ ''#CS: %d'' @ [CHR 0x0A])
       [ANum (word_of_int pid), ANum (word_of_int tat), ANum (word_of_int wt), ANum (word_of_int rt),
        ANum (word_of_int (q_switches q))]))))))"

definition exit2 :: "(unit, 'x v2_st_scheme) kern" where
  "exit2 =
     kbind curproc (\<lambda>cp.
     kbind (kget (\<lambda>s. initproc s = Some cp)) (\<lambda>b.
     if b then kpanic ''init exiting''
     else
       kseq (kfor [0..<NOFILE] (\<lambda>fd.
         kbind (kget (\<lambda>s. p_ofile (ptable s cp) ! fd)) (\<lambda>f.
         case f of
           None \<Rightarrow> kret ()
         | Some f \<Rightarrow>
             kseq (fileclose f)
                  (upd_proc cp (\<lambda>r. r\<lparr>p_ofile := (p_ofile r)[fd := None]\<rparr>))))) (
       kseq begin_op (
       kbind (kget (\<lambda>s. p_cwd (ptable s cp))) (\<lambda>w.
       kseq (case w of None \<Rightarrow> kundef | Some ip \<Rightarrow> iput ip) (
       kseq end_op (
       kseq (upd_proc cp (\<lambda>r. r\<lparr>p_cwd := None\<rparr>)) (
       kseq (acquire L_ptable) (
       kseq (print_profile cp) (
       kbind (kget (\<lambda>s. p_parent (ptable s cp))) (\<lambda>pp.
       kseq (case pp of None \<Rightarrow> kret () | Some q \<Rightarrow> wakeup1 (ChProc q)) (
       kbind (kget initproc) (\<lambda>ip.
       kseq (kfor [0..<NPROC] (\<lambda>i.
         kbind (kget (\<lambda>s. ptable s i)) (\<lambda>r.
         if p_parent r = Some cp then
           kseq (upd_proc i (\<lambda>r. r\<lparr>p_parent := ip\<rparr>))
                (kwhen (p_state r = ZOMBIE) (case ip of None \<Rightarrow> kret () | Some q \<Rightarrow> wakeup1 (ChProc q)))
         else kret ()))) (
       kseq (upd_proc cp (\<lambda>r. r\<lparr>p_state := ZOMBIE\<rparr>)) (
       kseq sched (kpanic ''zombie exit''))))))))))))))))"

text \<open>
  The scan of \<open>wait\<close> stops at a zombie child, or, for the shell (pid 2), at a child in the
  background; in the second case it returns the variable \<open>pid\<close>, which was never set.
\<close>

definition wait2_loop :: "(int, 'x v2_st_scheme) kern" where
  "wait2_loop =
     kbind curproc (\<lambda>cp.
     kbind (kget (\<lambda>s. find (\<lambda>i. p_parent (ptable s i) = Some cp
         \<and> (p_state (ptable s i) = ZOMBIE \<or> q_b (px s i) \<and> p_pid (ptable s cp) = 2)) [0..<NPROC])) (\<lambda>z.
     case z of
       Some i \<Rightarrow>
         kbind (kget (\<lambda>s. p_state (ptable s i))) (\<lambda>st.
         if st = ZOMBIE then reap i
         else kseq (release L_ptable) kundef)
     | None \<Rightarrow>
         kbind (kget (\<lambda>s. \<exists>i \<in> set [0..<NPROC]. p_parent (ptable s i) = Some cp)) (\<lambda>havekids.
         kbind (kget (\<lambda>s. p_killed (ptable s cp))) (\<lambda>kl.
         if \<not> havekids \<or> kl then kseq (release L_ptable) (kret (-1))
         else sleeping (ChProc cp) L_ptable))))"

definition wait2 :: "(int, 'x v2_st_scheme) kern" where
  "wait2 = kseq (acquire L_ptable) wait2_loop"

section \<open>The scheduler\<close>

definition calculate_dynamic_priority :: "nat \<Rightarrow> (int, 'x v2_st_scheme) kern" where
  "calculate_dynamic_priority p =
     kbind (kget (\<lambda>s. px s p)) (\<lambda>q.
     kbind (cint (ALPHA * q_rtime q)) (\<lambda>a.
     kbind (cint (q_init_priority q - a)) (\<lambda>d.
     kbind (cint (BETA * q_waiting q)) (\<lambda>w.
     cint (d + w)))))"

text \<open>\<open>best\<close> is \<open>chosen\<close> with \<open>best_priority\<close>.\<close>

fun pick :: "(nat \<times> int) option \<Rightarrow> nat list \<Rightarrow> ((nat \<times> int) option, 'x v2_st_scheme) kern" where
  "pick best [] = kret best"
| "pick best (p # ps) =
     kbind (kget (\<lambda>s. p_state (ptable s p) \<noteq> RUNNABLE \<or> q_b (px s p))) (\<lambda>skip.
     if skip then pick best ps
     else
       kbind (kget (\<lambda>s. q_waiting (px s p))) (\<lambda>w.
       kbind (cint (w + 1)) (\<lambda>w.
       kseq (upd_px p (\<lambda>q. q\<lparr>q_waiting := w\<rparr>)) (
       kbind (calculate_dynamic_priority p) (\<lambda>d.
       kbind (kget ptable) (\<lambda>pt.
       pick (case best of
               None \<Rightarrow> Some (p, d)
             | Some (c, b) \<Rightarrow>
                 if b < d then Some (p, d)
                 else if d = b \<and> p_pid (pt p) < p_pid (pt c) then Some (p, d)
                 else best) ps))))))"

text \<open>One turn of the scheduler's loop up to \<open>swtch\<close>, and what follows it, with \<open>start_run\<close> from
  the scheduler's stack.\<close>

definition scheduler2_scan :: "(unit, 'x v2_st_scheme) kern" where
  "scheduler2_scan =
     kbind (pick None [0..<NPROC]) (\<lambda>best.
     case best of
       None \<Rightarrow> release L_ptable
     | Some (p, _) \<Rightarrow>
         kbind mycpu (\<lambda>c.
         kseq (kmod (\<lambda>s. if q_first_cpu (px s p) < 0 then s\<lparr>px := (px s)(p := (px s p)\<lparr>q_first_cpu := sint (ticks s)\<rparr>)\<rparr> else s)) (
         kbind (kget (\<lambda>s. q_waiting (px s p))) (\<lambda>w.
         kbind (cint (w - 1)) (\<lambda>w.
         kseq (upd_px p (\<lambda>q. q\<lparr>q_waiting := w\<rparr>)) (
         kseq (upd_cpu c (\<lambda>r. r\<lparr>cproc := Some p\<rparr>)) (
         kseq (upd_proc p (\<lambda>r. r\<lparr>p_state := RUNNING\<rparr>)) (
         kseq (switchuvm (Some p))
              (\<lambda>s. Switch s)))))))))"

definition scheduler2 :: "(unit, 'x v2_st_scheme) kern" where
  "scheduler2 = kseq sti (kseq (acquire L_ptable) scheduler2_scan)"

definition scheduler2_back :: "nat \<Rightarrow> int \<Rightarrow> (unit, 'x v2_st_scheme) kern" where
  "scheduler2_back p start_run =
     kseq switchkvm (
     kbind (kget (\<lambda>s. sint (ticks s))) (\<lambda>end_run.
     kbind (cint (end_run - start_run)) (\<lambda>d.
     kbind (kget (\<lambda>s. q_rtime (px s p))) (\<lambda>r.
     kbind (cint (r + d)) (\<lambda>r.
     kseq (upd_px p (\<lambda>q. q\<lparr>q_rtime := r\<rparr>)) (
     kbind (kget prev_proc) (\<lambda>prev.
     kseq (kwhen (prev \<noteq> Some p)
             (kbind (kget (\<lambda>s. q_switches (px s p))) (\<lambda>n.
              kbind (cint (n + 1)) (\<lambda>n. upd_px p (\<lambda>q. q\<lparr>q_switches := n\<rparr>))))) (
     kseq (kmod (\<lambda>s. s\<lparr>prev_proc := Some p\<rparr>)) (
     kbind (kget (\<lambda>s. px s p)) (\<lambda>q.
     kseq (kwhen (0 < q_exec_time q \<and> q_exec_time q \<le> q_rtime q) (upd_proc p (\<lambda>r. r\<lparr>p_killed := True\<rparr>))) (
     kbind mycpu (\<lambda>c.
     kseq (upd_cpu c (\<lambda>r. r\<lparr>cproc := None\<rparr>))
          (release L_ptable)))))))))))))"

section \<open>Signals\<close>

definition sys_signal :: "(int, 'x v2_st_scheme) kern" where
  "sys_signal =
     kbind (argptr 0 4) (\<lambda>r.
     case r of
       None \<Rightarrow> kret (-1)
     | Some handler \<Rightarrow>
         kbind curproc (\<lambda>p.
         kseq (upd_px p (\<lambda>q. q\<lparr>q_handler := handler\<rparr>)) (kret 0)))"

text \<open>\<open>memmove(p->tf, p->saved_tf, ...)\<close>, \<open>kfree\<close>, \<open>p->saved_tf = 0\<close>.\<close>

definition restore_tf :: "nat \<Rightarrow> u32 \<Rightarrow> trapframe \<Rightarrow> (unit, 'x v2_st_scheme) kern" where
  "restore_tf p page tf =
     kseq (upd_proc p (\<lambda>r. r\<lparr>p_tf := tf\<rparr>)) (
     kseq (kfree page)
          (upd_px p (\<lambda>q. q\<lparr>q_saved := None\<rparr>)))"

definition sys_sigreturn :: "(int, 'x v2_st_scheme) kern" where
  "sys_sigreturn =
     kbind curproc (\<lambda>p.
     kbind (kget (\<lambda>s. q_saved (px s p))) (\<lambda>sv.
     case sv of
       None \<Rightarrow> kret (-1)
     | Some (page, tf) \<Rightarrow> kseq (restore_tf p page tf) (kret 0)))"

definition send_sigcustom :: "(unit, 'x v2_st_scheme) kern" where
  "send_sigcustom =
     kbind myproc (\<lambda>p.
     case p of None \<Rightarrow> kret () | Some i \<Rightarrow> upd_px i (\<lambda>q. q\<lparr>q_pending := True\<rparr>))"

text \<open>The end of \<open>trap\<close>: a pending signal makes the process return into its handler, with the
  magic return address on its stack.\<close>

definition deliver :: "nat \<Rightarrow> (unit, 'x v2_st_scheme) kern" where
  "deliver p =
     kbind kalloc (\<lambda>page.
     kbind (kget (\<lambda>s. p_tf (ptable s p))) (\<lambda>tf.
     kseq (upd_px p (\<lambda>q. q\<lparr>q_saved := (if page = 0 then None else Some (page, tf))\<rparr>)) (
     kseq (kwhen (page = 0) (printk (''send_sigcustom: kalloc failed'' @ [CHR 0x0A]) [])) (
     kseq (upd_proc p (\<lambda>r. r\<lparr>p_tf := (p_tf r)\<lparr>tf_esp := tf_esp (p_tf r) - 4\<rparr>\<rparr>)) (
     kbind (kget (\<lambda>s. ptable s p)) (\<lambda>r.
     kbind (copyout (p_pgdir r) (tf_esp (p_tf r)) [0xEF, 0xBE, 0xAD, 0xDE]) (\<lambda>e.
     kseq (kwhen (e < 0) (printk (''copyout failed in sigcustom delivery'' @ [CHR 0x0A]) [])) (
     kseq (kbind (kget (\<lambda>s. q_handler (px s p))) (\<lambda>h. upd_proc p (\<lambda>r. r\<lparr>p_tf := (p_tf r)\<lparr>tf_eip := h\<rparr>\<rparr>)))
          (upd_px p (\<lambda>q. q\<lparr>q_pending := False\<rparr>))))))))))"

definition deliver_pending :: "(unit, 'x v2_st_scheme) kern" where
  "deliver_pending =
     kbind myproc (\<lambda>mp.
     case mp of
       None \<Rightarrow> kret ()
     | Some p \<Rightarrow>
         kbind (kget (\<lambda>s. q_pending (px s p) \<and> q_handler (px s p) \<noteq> 0)) (\<lambda>b.
         kwhen b (deliver p)))"

section \<open>Keys\<close>

text \<open>What the loop of \<open>consoleintr\<close> has seen: \<open>doprocdump\<close> and the two bits of \<open>flags\<close>.\<close>

record key_flags =
  k_dump :: bool
  k_ctrlb :: bool
  k_ctrlf :: bool

definition consoleintr2_char :: "int \<Rightarrow> key_flags \<Rightarrow> (key_flags, 'x v2_st_scheme) kern" where
  "consoleintr2_char c fl =
     (if c = ctrl CHR ''C'' then
        kseq (consputs (str ([CHR 0x0A] @ ''Ctrl-C is detected by xv6'' @ [CHR 0x0A]))) (
        kseq (acquire L_ptable) (
        kseq (kfor [0..<NPROC] (\<lambda>i.
          kbind (kget (\<lambda>s. p_pid (ptable s i))) (\<lambda>pid.
          kwhen (3 \<le> pid) (upd_proc i (\<lambda>r. r\<lparr>p_killed := True\<rparr>))))) (
        kseq (release L_ptable) (kret fl))))
      else if c = ctrl CHR ''B'' then kret (fl\<lparr>k_ctrlb := True\<rparr>)
      else if c = ctrl CHR ''F'' then kret (fl\<lparr>k_ctrlf := True\<rparr>)
      else if c = ctrl CHR ''G'' then
        kseq (consputs (str ([CHR 0x0A] @ ''Ctrl-G is detected by xv6'' @ [CHR 0x0A]))) (
        kseq send_sigcustom (kret fl))
      else kbind (consoleintr_char c) (\<lambda>d. kret (fl\<lparr>k_dump := k_dump fl \<or> d\<rparr>)))"

fun consoleintr2_loop :: "int list \<Rightarrow> key_flags \<Rightarrow> (key_flags, 'x v2_st_scheme) kern" where
  "consoleintr2_loop [] fl = kret fl"
| "consoleintr2_loop (c # cs) fl =
     (if c < 0 then kret fl
      else kbind (consoleintr2_char c fl) (\<lambda>fl. consoleintr2_loop cs fl))"

text \<open>\<open>wakeup(sh->chan)\<close>, whatever the pointer is.\<close>

definition wakeup_ptr :: "chan option \<Rightarrow> (unit, 'x proc_st_scheme) kern" where
  "wakeup_ptr ch =
     kseq (acquire L_ptable) (
     kseq (kfor [0..<NPROC] (\<lambda>i.
       kbind (kget (\<lambda>s. p_state (ptable s i) = SLEEPING \<and> p_chan (ptable s i) = ch)) (\<lambda>b.
       kwhen b (upd_proc i (\<lambda>r. r\<lparr>p_state := RUNNABLE\<rparr>)))))
          (release L_ptable))"

text \<open>Ctrl-B: every living user process goes to the background, and the shell is woken.\<close>

definition to_background :: "(unit, 'x v2_st_scheme) kern" where
  "to_background =
     kseq (acquire L_ptable) (
     kseq (kfor [0..<NPROC] (\<lambda>i.
       kbind (kget (\<lambda>s. 2 < p_pid (ptable s i) \<and> p_state (ptable s i) \<noteq> ZOMBIE)) (\<lambda>b.
       kwhen b (upd_px i (\<lambda>q. q\<lparr>q_b := True\<rparr>))))) (
     kbind (kget (\<lambda>s. find (\<lambda>i. p_pid (ptable s i) = 2) [0..<NPROC])) (\<lambda>sh.
     case sh of
       None \<Rightarrow> release L_ptable
     | Some i \<Rightarrow>
         kseq (upd_proc i (\<lambda>r. r\<lparr>p_state := RUNNABLE\<rparr>)) (
         kseq (release L_ptable) (
         kbind (kget (\<lambda>s. p_chan (ptable s i))) (\<lambda>ch. wakeup_ptr ch))))))"

text \<open>Ctrl-F: the processes in the background run again, and the shell is put to sleep.\<close>

definition to_foreground :: "(unit, 'x v2_st_scheme) kern" where
  "to_foreground =
     kseq (acquire L_ptable) (
     kseq (kfor [0..<NPROC] (\<lambda>i.
       kbind (kget (\<lambda>s. (p_pid (ptable s i), q_b (px s i)))) (\<lambda>(pid, b).
       if 2 < pid \<and> b then
         kseq (upd_px i (\<lambda>q. q\<lparr>q_b := False\<rparr>))
              (upd_proc i (\<lambda>r. r\<lparr>p_state := RUNNABLE\<rparr>))
       else kwhen (pid = 2) (upd_proc i (\<lambda>r. r\<lparr>p_state := SLEEPING\<rparr>)))))
          (release L_ptable))"

text \<open>The result is \<open>SIGBG\<close>, \<open>SIGFG\<close> or, where the function ends without \<open>return\<close>, none (its
  two callers ignore it).\<close>

definition consoleintr2 :: "(nat \<Rightarrow> u32 list) \<Rightarrow> int list \<Rightarrow> (int option, 'x v2_st_scheme) kern" where
  "consoleintr2 callerpcs codes =
     kseq (acquire L_cons) (
     kbind (consoleintr2_loop codes \<lparr>k_dump = False, k_ctrlb = False, k_ctrlf = False\<rparr>) (\<lambda>fl.
     kseq (release L_cons) (
     kseq (kwhen (k_dump fl) (procdump callerpcs)) (
     if k_ctrlb fl then
       kseq (printk (''Ctrl-B is detected by xv6'' @ [CHR 0x0A]) []) (
       kseq to_background (kret (Some SIGBG)))
     else if k_ctrlf fl then
       kseq (printk (''Ctrl-F is detected by xv6'' @ [CHR 0x0A]) []) (
       kseq to_foreground (kret (Some SIGFG)))
     else kret None))))"

section \<open>System calls and traps\<close>

definition syscall_table2 ::
  "(nat \<Rightarrow> 'x v2_st_scheme devsw) \<Rightarrow> ((int, 'x v2_st_scheme) kern) list" where
  "syscall_table2 devsw =
     [fork2, kseq exit2 (kret 0), wait2, sys_pipe, sys_read devsw, sys_kill, sys_exec devsw, sys_fstat,
      sys_chdir devsw, sys_dup, sys_getpid, sys_sbrk, sys_sleep, sys_uptime, sys_open devsw,
      sys_write devsw, sys_mknod devsw, sys_unlink devsw, sys_link devsw, sys_mkdir devsw, sys_close,
      sys_signal, sys_sigreturn, sys_custom_fork, sys_scheduler_start]"

definition syscall2 :: "(nat \<Rightarrow> 'x v2_st_scheme devsw) \<Rightarrow> (unit, 'x v2_st_scheme) kern" where
  "syscall2 devsw =
     kbind curproc (\<lambda>p.
     kbind (kget (\<lambda>s. sint (tf_eax (p_tf (ptable s p))))) (\<lambda>num.
     if 0 < num \<and> num < 26 then
       kbind (syscall_table2 devsw ! (nat num - 1)) (\<lambda>v. set_eax p v)
     else
       kbind (kget (\<lambda>s. ptable s p)) (\<lambda>r.
       kseq (printk (''%d %s: unknown sys call %d'' @ [CHR 0x0A])
               [ANum (word_of_int (p_pid r)), AStr (Some (takeWhile (\<lambda>c. c \<noteq> 0) (p_name r))), ANum (word_of_int num)])
            (set_eax p (-1)))))"

text \<open>A page fault: at the magic address it ends the handler, elsewhere it kills the process.\<close>

definition page_fault :: "u32 \<Rightarrow> trapframe \<Rightarrow> (unit, 'x v2_st_scheme) kern" where
  "page_fault fault_addr tf =
     kbind myproc (\<lambda>mp.
     kbind (kget (\<lambda>s. case mp of None \<Rightarrow> None | Some p \<Rightarrow> map_option (\<lambda>v. (p, v)) (q_saved (px s p)))) (\<lambda>sv.
     case (if fault_addr = MAGIC_SIGRET then sv else None) of
       Some (p, page, saved) \<Rightarrow> restore_tf p page saved
     | None \<Rightarrow>
         kbind curproc (\<lambda>p.
         kbind cpuid (\<lambda>c.
         kbind (kget (\<lambda>s. ptable s p)) (\<lambda>r.
         kseq (printk (''pid %d %s: trap %d err %d on cpu %d eip 0x%x addr 0x%x--kill proc'' @ [CHR 0x0A])
                 [ANum (word_of_int (p_pid r)), AStr (Some (takeWhile (\<lambda>c. c \<noteq> 0) (p_name r))), ANum (tf_trapno tf),
                  ANum (tf_err tf), ANum (of_nat c), ANum (tf_eip tf), ANum fault_addr])
              (upd_proc p (\<lambda>r. r\<lparr>p_killed := True\<rparr>)))))))"

definition killed_exit2 :: "u16 \<Rightarrow> (unit, 'x v2_st_scheme) kern" where
  "killed_exit2 cs =
     kbind myproc (\<lambda>p.
     case p of
       None \<Rightarrow> kret ()
     | Some i \<Rightarrow>
         kbind (kget (\<lambda>s. p_killed (ptable s i))) (\<lambda>k.
         kwhen (k \<and> cs AND 3 = DPL_USER) exit2))"

text \<open>
  The frame of a trap from user mode lies at the top of the process's kernel stack, which is where
  \<open>p->tf\<close> points: \<open>tf\<close> and \<open>p->tf\<close> are then the same object.
\<close>

definition push_frame :: "trapframe \<Rightarrow> (unit, 'x proc_st_scheme) kern" where
  "push_frame tf =
     kmod (\<lambda>s. case cur s of
       Some p \<Rightarrow> if tf_cs tf AND 3 = DPL_USER then s\<lparr>ptable := (ptable s)(p := (ptable s p)\<lparr>p_tf := tf\<rparr>)\<rparr> else s
     | None \<Rightarrow> s)"

definition frame_now :: "trapframe \<Rightarrow> (trapframe, 'x proc_st_scheme) kern" where
  "frame_now tf =
     kget (\<lambda>s. case cur s of
       Some p \<Rightarrow> if tf_cs tf AND 3 = DPL_USER then p_tf (ptable s p) else tf
     | None \<Rightarrow> tf)"

text \<open>What is left of \<open>trap\<close> after \<open>yield\<close> (which ends the run of the thread; it goes on here
  when it is switched back to).\<close>

definition trap2_tail :: "u16 \<Rightarrow> (unit, 'x v2_st_scheme) kern" where
  "trap2_tail cs = kseq (killed_exit2 cs) deliver_pending"

definition trap2 ::
  "(nat \<Rightarrow> 'x v2_st_scheme devsw) \<Rightarrow> (nat \<Rightarrow> u32 list) \<Rightarrow> trap_input \<Rightarrow> trapframe \<Rightarrow> (unit, 'x v2_st_scheme) kern" where
  "trap2 devsw callerpcs inp tf =
     (if tf_trapno tf = 64 then
        kbind curproc (\<lambda>p.
        kbind killed (\<lambda>k.
        kseq (kwhen k exit2) (
        kseq (upd_proc p (\<lambda>r. r\<lparr>p_tf := tf\<rparr>)) (
        kseq (syscall2 devsw) (
        kbind killed (\<lambda>k. kwhen k exit2))))))
      else
        kseq (push_frame tf) (
        kseq (if tf_trapno tf = 32 then timer_intr
              else if tf_trapno tf = 46 \<or> tf_trapno tf = 47 then kret ()
              else if tf_trapno tf = 33 then
                kbind (kget kbd_shift) (\<lambda>sh.
                case kbd_codes (in_kbd inp) sh of
                  (cs, sh') \<Rightarrow>
                    kseq (kmod (\<lambda>s. s\<lparr>kbd_shift := sh'\<rparr>)) (
                    kseq (consoleintr2 callerpcs cs) (kret ())))
              else if tf_trapno tf = 36 then
                kbind (kget uart_on) (\<lambda>u.
                kseq (consoleintr2 callerpcs (if u then map uint (in_uart inp) else [])) (kret ()))
              else if tf_trapno tf = 39 \<or> tf_trapno tf = 63 then
                kbind cpuid (\<lambda>c.
                printk (''cpu%d: spurious interrupt at %x:%x'' @ [CHR 0x0A])
                  [ANum (of_nat c), ANum (ucast (tf_cs tf)), ANum (tf_eip tf)])
              else if tf_trapno tf = 14 then page_fault (in_cr2 inp) tf
              else trap_default (in_cr2 inp) tf) (
        kbind (frame_now tf) (\<lambda>tf.
        kseq (killed_exit2 (tf_cs tf)) (
        kseq (kbind myproc (\<lambda>p.
                case p of
                  None \<Rightarrow> kret ()
                | Some i \<Rightarrow>
                    kbind (kget (\<lambda>s. p_state (ptable s i))) (\<lambda>st.
                    kwhen (st = RUNNING \<and> tf_trapno tf = 32) yield)))
             (trap2_tail (tf_cs tf)))))))"

section \<open>What the scheduler chooses\<close>

definition eligible :: "'x v2_st_scheme \<Rightarrow> nat \<Rightarrow> bool" where
  "eligible s p \<longleftrightarrow> p_state (ptable s p) = RUNNABLE \<and> \<not> q_b (px s p)"

text \<open>The priority with which a process enters the comparison: it has waited one more turn.\<close>

definition turn_priority :: "proc2 \<Rightarrow> int" where
  "turn_priority q = q_init_priority q - ALPHA * q_rtime q + BETA * (q_waiting q + 1)"

definition beats :: "int \<Rightarrow> int \<Rightarrow> int \<Rightarrow> int \<Rightarrow> bool" where
  "beats d pid d' pid' \<longleftrightarrow> d' < d \<or> d = d' \<and> pid \<le> pid'"

lemma beats_refl: "beats d pid d pid"
  by (simp add: beats_def)

lemma beats_trans: "beats d p d' p' \<Longrightarrow> beats d' p' d'' p'' \<Longrightarrow> beats d p d'' p''"
  by (auto simp: beats_def)

text \<open>Counters far from the limits of \<open>int\<close>.\<close>

definition counters_ok :: "proc2 \<Rightarrow> bool" where
  "counters_ok q \<longleftrightarrow> \<bar>q_init_priority q\<bar> < 2 ^ 28 \<and> \<bar>q_rtime q\<bar> < 2 ^ 28 \<and> \<bar>q_waiting q\<bar> < 2 ^ 28"

definition waited :: "'x v2_st_scheme \<Rightarrow> nat set \<Rightarrow> nat \<Rightarrow> proc2" where
  "waited s A = (\<lambda>i. if i \<in> A \<and> eligible s i then (px s i)\<lparr>q_waiting := q_waiting (px s i) + 1\<rparr> else px s i)"

lemma px_upd_id [simp]: "s\<lparr>px := px s\<rparr> = (s :: 'x v2_st_scheme)"
  by simp

lemma cint_eval [simp]: "- (2 ^ 31) \<le> n \<Longrightarrow> n < 2 ^ 31 \<Longrightarrow> cint n = kret n"
  by (simp add: cint_def)

lemma dynamic_priority_eval:
  assumes "counters_ok ((px s p)\<lparr>q_waiting := q_waiting (px s p) - 1\<rparr>)"
  shows "calculate_dynamic_priority p s
    = Ok (q_init_priority (px s p) - ALPHA * q_rtime (px s p) + BETA * q_waiting (px s p)) s"
proof -
  let ?q = "px s p"
  have "- (2 ^ 28) < q_init_priority ?q" "q_init_priority ?q < 2 ^ 28" "- (2 ^ 28) < q_rtime ?q" "q_rtime ?q < 2 ^ 28"
      "- (2 ^ 28) \<le> q_waiting ?q" "q_waiting ?q \<le> 2 ^ 28"
    using assms by (simp_all add: counters_ok_def abs_less_iff)
  then show ?thesis
    by (simp add: calculate_dynamic_priority_def ALPHA_def BETA_def)
qed

lemma pick_in:
  assumes "distinct ps" and "\<forall>p \<in> set ps. counters_ok (px s p)"
  shows "\<exists>best'. pick best ps s = Ok best' (s\<lparr>px := waited s (set ps)\<rparr>)
    \<and> (best' = best \<or> (\<exists>p \<in> set ps. eligible s p \<and> best' = Some (p, turn_priority (px s p))))
    \<and> (\<forall>c b. best = Some (c, b) \<longrightarrow>
         (\<exists>c' b'. best' = Some (c', b') \<and> beats b' (p_pid (ptable s c')) b (p_pid (ptable s c))))
    \<and> (\<forall>p \<in> set ps. eligible s p \<longrightarrow>
         (\<exists>c' b'. best' = Some (c', b')
            \<and> beats b' (p_pid (ptable s c')) (turn_priority (px s p)) (p_pid (ptable s p))))"
  using assms
proof (induction ps arbitrary: best s)
  case Nil
  have "waited s {} = px s" by (simp add: waited_def)
  then show ?case by (auto simp: beats_def)
next
  case (Cons p ps)
  show ?case
  proof (cases "eligible s p")
    case False
    then have "pick best (p # ps) s = pick best ps s" by (auto simp: eligible_def)
    moreover have "waited s (set (p # ps)) = waited s (set ps)" using False by (auto simp: waited_def)
    ultimately show ?thesis using Cons.IH [of s best] Cons.prems False by auto
  next
    case True
    let ?q = "(px s p)\<lparr>q_waiting := q_waiting (px s p) + 1\<rparr>"
    let ?s = "s\<lparr>px := (px s)(p := ?q)\<rparr>"
    let ?d = "turn_priority (px s p)" and ?pid = "\<lambda>c. p_pid (ptable s c)"
    define best1 where "best1 = (case best of
               None \<Rightarrow> Some (p, ?d)
             | Some (c, b) \<Rightarrow>
                 if b < ?d then Some (p, ?d)
                 else if ?d = b \<and> ?pid p < ?pid c then Some (p, ?d)
                 else best)"
    have ok: "counters_ok (px s p)" using Cons.prems(2) by simp
    have run: "pick best (p # ps) s = pick best1 ps ?s"
    proof -
      have "cint (q_waiting (px s p) + 1) = (kret (q_waiting (px s p) + 1) :: (int, 'a v2_st_scheme) kern)"
        using ok by (intro cint_eval) (simp_all add: counters_ok_def abs_less_iff)
      moreover have "calculate_dynamic_priority p ?s = Ok ?d ?s"
        using dynamic_priority_eval [of ?s p] ok by (simp add: turn_priority_def)
      ultimately show ?thesis
        using True by (simp add: eligible_def upd_px_def kseq_def kbind_def best1_def)
    qed
    have same: "eligible ?s x = eligible s x" "x \<in> set ps \<Longrightarrow> px ?s x = px s x" for x
      using Cons.prems(1) by (auto simp: eligible_def)
    have w: "waited ?s (set ps) = waited s (set (p # ps))"
      using Cons.prems(1) True same(1) by (auto simp: waited_def)
    obtain best' where b: "pick best1 ps ?s = Ok best' (?s\<lparr>px := waited ?s (set ps)\<rparr>)"
      "best' = best1 \<or> (\<exists>x \<in> set ps. eligible s x \<and> best' = Some (x, turn_priority (px s x)))"
      "\<And>c b. best1 = Some (c, b) \<Longrightarrow> \<exists>c' b'. best' = Some (c', b') \<and> beats b' (?pid c') b (?pid c)"
      "\<And>x. x \<in> set ps \<Longrightarrow> eligible s x \<Longrightarrow>
         \<exists>c' b'. best' = Some (c', b') \<and> beats b' (?pid c') (turn_priority (px s x)) (?pid x)"
      using Cons.IH [of ?s best1] Cons.prems same by auto
    obtain c1 b1 where b1: "best1 = Some (c1, b1)" "beats b1 (?pid c1) ?d (?pid p)"
        "\<And>c b. best = Some (c, b) \<Longrightarrow> beats b1 (?pid c1) b (?pid c)"
        "best1 = best \<or> best1 = Some (p, ?d)"
    proof (cases best)
      case None
      then show thesis using that [of p ?d] by (simp add: best1_def beats_refl)
    next
      case (Some a)
      obtain c b where a: "a = (c, b)" by (cases a)
      show thesis
      proof (cases "b < ?d \<or> ?d = b \<and> ?pid p < ?pid c")
        case True
        then show thesis using that [of p ?d] Some a by (auto simp: best1_def beats_def)
      next
        case False
        then show thesis by (intro that [of c b]) (use Some a in \<open>auto simp: best1_def beats_def\<close>)
      qed
    qed
    obtain c2 b2 where b2: "best' = Some (c2, b2)" "beats b2 (?pid c2) b1 (?pid c1)" using b(3) [OF b1(1)] by blast
    have "pick best (p # ps) s = Ok best' (s\<lparr>px := waited s (set (p # ps))\<rparr>)"
      using run b(1) w by simp
    moreover have "best' = best \<or> (\<exists>x \<in> set (p # ps). eligible s x \<and> best' = Some (x, turn_priority (px s x)))"
      using b(2) b1(4) True by auto
    moreover have "\<exists>c' b'. best' = Some (c', b') \<and> beats b' (?pid c') b0 (?pid c0)" if "best = Some (c0, b0)" for c0 b0
      using b2 beats_trans [OF b2(2) b1(3) [OF that]] by blast
    moreover have "\<exists>c' b'. best' = Some (c', b') \<and> beats b' (?pid c') (turn_priority (px s x)) (?pid x)"
      if "x \<in> set (p # ps)" "eligible s x" for x
      using that b(4) b2 beats_trans [OF b2(2) b1(2)] by auto
    ultimately show ?thesis by (intro exI [of _ best'] conjI allI ballI impI) blast+
  qed
qed


lemma found_px [simp]: "found (s\<lparr>px := f\<rparr>) = found s" "cur (s\<lparr>px := f\<rparr>) = cur s"
  by (simp_all add: found_def cur_def split: option.split)

text \<open>
  C27.  With \<open>ptable.lock\<close> held, a turn of the scheduler of xv6-public_2 gives the CPU to a runnable
  process outside the background whose dynamic priority is the highest, the smallest pid first
  among equals; it becomes RUNNING under its own page table, every other process that was considered
  has waited one turn more, and the chosen one has not.  When there is no candidate the turn ends by
  releasing the lock, and nothing has changed.
\<close>

theorem scheduler2_picks_best:
  assumes "found s = Some c" "\<not> fl_if s" "0 < ncli (cpus s c)" "locks s L_ptable = \<lparr>lk_locked = True, lk_cpu = Some c\<rparr>"
    and "\<forall>p < NPROC. counters_ok (px s p)"
    and "\<forall>p < NPROC. p_state (ptable s p) = RUNNABLE \<longrightarrow> p_kstack (ptable s p) \<noteq> 0 \<and> p_pgdir (ptable s p) \<noteq> 0"
  shows "(\<exists>p t. scheduler2_scan s = Switch t \<and> p < NPROC \<and> eligible s p
        \<and> (\<forall>q < NPROC. eligible s q \<longrightarrow>
             beats (turn_priority (px s p)) (p_pid (ptable s p)) (turn_priority (px s q)) (p_pid (ptable s q)))
        \<and> ptable t = (ptable s)(p := (ptable s p)\<lparr>p_state := RUNNING\<rparr>)
        \<and> cur t = Some p \<and> cr3 t = V2P (p_pgdir (ptable s p)) \<and> locks t = locks s
        \<and> (\<forall>q < NPROC. q_waiting (px t q) = q_waiting (px s q) + (if eligible s q \<and> q \<noteq> p then 1 else 0)))
    \<or> (\<exists>t. scheduler2_scan s = Ok () t \<and> (\<forall>q < NPROC. \<not> eligible s q)
        \<and> \<not> lk_locked (locks t L_ptable) \<and> ptable t = ptable s \<and> px t = px s)"
proof -
  let ?w = "waited s (set [0..<NPROC])" and ?s = "s\<lparr>px := waited s (set [0..<NPROC])\<rparr>"
  obtain best where run: "pick None [0..<NPROC] s = Ok best ?s"
    and which: "best = None \<or> (\<exists>p < NPROC. eligible s p \<and> best = Some (p, turn_priority (px s p)))"
    and all: "\<And>p. p < NPROC \<Longrightarrow> eligible s p \<Longrightarrow> \<exists>c' b'. best = Some (c', b')
        \<and> beats b' (p_pid (ptable s c')) (turn_priority (px s p)) (p_pid (ptable s p))"
    using pick_in [of "[0..<NPROC]" s None] assms(5) by auto
  show ?thesis
  proof (cases best)
    case None
    then have none: "\<forall>q < NPROC. \<not> eligible s q" using all by auto
    then have "?w = px s" by (auto simp: waited_def)
    with run None have s: "pick None [0..<NPROC] s = Ok None s" by (simp only: px_upd_id)
    obtain t where t: "release L_ptable s = Ok () t" using release_eval [OF assms(1,3,2)] assms(4) by auto
    then have "scheduler2_scan s = Ok () t" by (simp add: scheduler2_scan_def kbind_def s)
    moreover have "px t = px s" "ptable t = ptable s"
      using release_Ok [OF t] cpu_frame_proc_st(1) [of s t] by (cases s, cases t, simp add: cpu_frame_def)+
    ultimately show ?thesis using none release_Ok [OF t] by (intro disjI2 exI [of _ t]) simp
  next
    case (Some a)
    then obtain p where p: "p < NPROC" "eligible s p" "a = (p, turn_priority (px s p))" using which by auto
    define q where "q = (let r = ?w p in (if q_first_cpu r < 0 then r\<lparr>q_first_cpu := sint (ticks s)\<rparr> else r)\<lparr>q_waiting := q_waiting (px s p)\<rparr>)"
    let ?u = "s\<lparr>px := ?w(p := q)\<rparr>"
    have wp: "?w p = (px s p)\<lparr>q_waiting := q_waiting (px s p) + 1\<rparr>" using p by (simp add: waited_def)
    have bound: "- (2 ^ 31) \<le> q_waiting (px s p)" "q_waiting (px s p) < 2 ^ 31"
      using assms(5) p(1) by (auto simp: counters_ok_def abs_less_iff)
    have st: "p_state (ptable s p) = RUNNABLE" using p(2) by (simp add: eligible_def)
    have "scheduler2_scan s = kbind mycpu (\<lambda>c.
         kseq (upd_cpu c (\<lambda>r. r\<lparr>cproc := Some p\<rparr>)) (
         kseq (upd_proc p (\<lambda>r. r\<lparr>p_state := RUNNING\<rparr>)) (
         kseq (switchuvm (Some p)) (\<lambda>s. Switch s)))) ?u"
      using run Some p(3) wp bound assms(1,2)
      by (simp add: scheduler2_scan_def kbind_def kseq_def mycpu_eval upd_px_def q_def Let_def cint_def)
    also have "\<dots> = Switch ((dispatched c p ?u))"
    proof -
      let ?v = "?u\<lparr>cpus := (cpus s)(c := (cpus s c)\<lparr>cproc := Some p\<rparr>), ptable := (ptable s)(p := (ptable s p)\<lparr>p_state := RUNNING\<rparr>)\<rparr>"
      have "found ?v = found (s\<lparr>cpus := (cpus s)(c := (cpus s c)\<lparr>cproc := Some p\<rparr>)\<rparr>)" by (simp add: found_def)
      then have f: "found ?v = Some c" "\<not> fl_if ?v" "0 < ncli (cpus ?v c)"
        using assms(1-3) by (simp_all add: found_upd_cpus)
      show ?thesis
        using assms(1,2,6) p(1) st nested_switchuvm [OF f, of p]
        by (simp add: kbind_def kseq_def mycpu_eval upd_cpu_def upd_proc_def dispatched_def)
    qed
    finally have sw: "scheduler2_scan s = Switch (dispatched c p ?u)" .
    have "cur (dispatched c p ?u) = Some p" by (rule cur_dispatched) (simp add: assms(1))
    moreover have "\<forall>x < NPROC. q_waiting (px (dispatched c p ?u) x) = q_waiting (px s x) + (if eligible s x \<and> x \<noteq> p then 1 else 0)"
      by (auto simp: dispatched_def q_def waited_def Let_def)
    moreover have "\<forall>x < NPROC. eligible s x \<longrightarrow>
        beats (turn_priority (px s p)) (p_pid (ptable s p)) (turn_priority (px s x)) (p_pid (ptable s x))"
      using all Some p(3) by auto
    ultimately show ?thesis
      using sw p by (intro disjI1 exI [of _ p] exI [of _ "dispatched c p ?u"]) (simp add: dispatched_def)
  qed
qed


text \<open>A scheduler thread over the runnable processes \<open>R\<close>, process \<open>p\<close> having waited \<open>w p\<close> turns.\<close>

definition demo_proc2 :: "int \<Rightarrow> proc2" where
  "demo_proc2 w = \<lparr>q_b = False, q_pending = False, q_handler = 0, q_saved = None, q_custom = False, q_start_later = 0,
     q_exec_time = 0, q_creation = 0, q_first_cpu = -1, q_finish = 0, q_rtime = 0, q_switches = 0,
     q_init_priority = 50, q_waiting = w\<rparr>"

definition demo_v2 :: "nat set \<Rightarrow> (nat \<Rightarrow> int) \<Rightarrow> v2_st" where
  "demo_v2 R w = run_st.extend (demo_sched R) (v2_st.fields (\<lambda>p. demo_proc2 (w p)) None)"

lemma demo_v2:
  "found (demo_v2 R w) = Some 0" "\<not> fl_if (demo_v2 R w)" "0 < ncli (cpus (demo_v2 R w) 0)"
  "locks (demo_v2 R w) L_ptable = \<lparr>lk_locked = True, lk_cpu = Some 0\<rparr>"
  "px (demo_v2 R w) i = demo_proc2 (w i)" "ptable (demo_v2 R w) = ptable (demo_sched R)"
proof -
  have "found (demo_v2 R w) = found (demo_sched R)" by (simp add: demo_v2_def found_def run_st.defs v2_st.defs)
  then show "found (demo_v2 R w) = Some 0" using demo_sched(1) by simp
qed (use demo_sched(2-4) [of R] in \<open>simp_all add: demo_v2_def run_st.defs v2_st.defs\<close>)

theorem scheduler2_picks_best_witness:
  "\<exists>t. scheduler2_scan (demo_v2 {3, 5} (\<lambda>p. if p = 5 then 10 else 0)) = Switch t
     \<and> cur t = Some 5 \<and> q_waiting (px t 3) = 1 \<and> q_waiting (px t 5) = 10"
proof -
  let ?s = "demo_v2 {3, 5} (\<lambda>p. if p = 5 then 10 else 0)"
  have el: "eligible ?s q \<longleftrightarrow> q = 3 \<or> q = 5" for q
    unfolding eligible_def demo_v2 demo_sched(5) by (auto simp: demo_proc2_def)
  have c: "\<forall>p < NPROC. counters_ok (px ?s p)" by (simp add: demo_v2 counters_ok_def demo_proc2_def)
  have k: "\<forall>p < NPROC. p_state (ptable ?s p) = RUNNABLE \<longrightarrow> p_kstack (ptable ?s p) \<noteq> 0 \<and> p_pgdir (ptable ?s p) \<noteq> 0"
    unfolding demo_v2 demo_sched(5) using demo_sched(6) by blast
  from scheduler2_picks_best [OF demo_v2(1-4) c k] show ?thesis
  proof (elim disjE exE conjE)
    fix p t
    assume *: "scheduler2_scan ?s = Switch t" "eligible ?s p" "cur t = Some p"
      "\<forall>q < NPROC. eligible ?s q \<longrightarrow>
         beats (turn_priority (px ?s p)) (p_pid (ptable ?s p)) (turn_priority (px ?s q)) (p_pid (ptable ?s q))"
      "\<forall>q < NPROC. q_waiting (px t q) = q_waiting (px ?s q) + (if eligible ?s q \<and> q \<noteq> p then 1 else 0)"
    have "p = 5"
    proof (rule ccontr)
      assume "p \<noteq> 5"
      then have "p = 3" using *(2) el by blast
      then show False using *(4) [rule_format, of 5]
        by (simp add: el NPROC_def beats_def demo_v2(5) turn_priority_def demo_proc2_def BETA_def)
    qed
    then have "cur t = Some 5" "q_waiting (px t 3) = 1" "q_waiting (px t 5) = 10"
      using *(3) *(5) [rule_format, of 3] *(5) [rule_format, of 5]
      by (simp_all add: el NPROC_def demo_v2(5) demo_proc2_def)
    with *(1) show ?thesis by blast
  next
    assume "\<forall>q < NPROC. \<not> eligible ?s q"
    then have "\<not> eligible ?s 3" by (simp add: NPROC_def)
    then show ?thesis by (simp add: el)
  qed
qed

section \<open>A signal and the return from its handler\<close>

lemma thread_in_px [simp]:
  "thread_in L (s\<lparr>px := f\<rparr>) = thread_in L s" "thread_in L (s\<lparr>ptable := g\<rparr>) = thread_in L s"
  "cur (s\<lparr>ptable := g\<rparr>) = cur s"
  by (simp_all add: thread_in_def found_def cur_def split: option.split)

lemma alloc_inv_px [simp]:
  "alloc_inv L (s\<lparr>px := f\<rparr>) ps = alloc_inv L s ps" "alloc_inv L (s\<lparr>ptable := g\<rparr>) ps = alloc_inv L s ps"
  by (simp_all add: alloc_inv_def)

lemma cpu_frame_v2:
  assumes "cpu_frame s t"
  shows "px t = px s" "ptable t = ptable s" "kmem t = kmem s" "freelist t = freelist s" "kend t = kend s"
    "use_lock t = use_lock s" "cur t = cur s"
  using assms by (cases s, cases t, simp add: cpu_frame_def)+

lemma alloc_frame_v2:
  assumes "alloc_frame s t"
  shows "px t = px s" "cur t = cur s" "kend t = kend s" "use_lock t = use_lock s" "\<exists>st. ptable t i = (ptable s i)\<lparr>p_state := st\<rparr>"
proof -
  show "px t = px s" using assms by (cases s, cases t, simp add: alloc_frame_def)
qed (use assms in \<open>auto simp: alloc_frame_def thread_frame_def\<close>)

lemma myproc_frame:
  assumes "thread_in L s" "cur s = Some p"
  shows "\<exists>t. myproc s = Ok (Some p) t \<and> thread_in L t \<and> cpu_frame s t"
proof -
  obtain q t where t: "myproc s = Ok (Some q) t" "thread_in L t" using myproc_in [OF assms(1)] by blast
  then have "cpu_frame s t" "Some q = cur s" using myproc_Ok by blast+
  then show ?thesis using t assms(2) by auto
qed

lemma alloc_inv_frame:
  fixes s :: "'x v2_st_scheme"
  assumes "alloc_inv L s ps" "cpu_frame s t" "thread_in L t"
  shows "alloc_inv L t ps"
  using assms cpu_frame_v2 [OF assms(2)] by (simp add: alloc_inv_def)

lemma deliver_in:
  assumes "alloc_inv L s (g # ps)" "thread_in L s"
    and d: "d = p_pgdir (ptable s p)" and sp: "sp = tf_esp (p_tf (ptable s p)) - 4"
    and "unat sp + 4 \<le> 2 ^ 32" "apart (kmem s) d {sp + of_nat i | i. i < 4}"
    and "\<forall>i < 4. user_ok (kmem s) d (sp + of_nat i)"
    and "\<forall>x \<in> set ps. \<forall>i < 4. \<forall>j < 4. kaddr (kmem s) d (sp + of_nat i) \<noteq> unat x + j"
  shows "\<exists>t. deliver p s = Ok () t \<and> alloc_inv L t ps \<and> cur t = cur s \<and> kend t = kend s
    \<and> use_lock t = use_lock s
    \<and> p_tf (ptable t p) = (p_tf (ptable s p))\<lparr>tf_esp := sp, tf_eip := q_handler (px s p)\<rparr>
    \<and> px t p = (px s p)\<lparr>q_saved := Some (g, p_tf (ptable s p)), q_pending := False\<rparr>
    \<and> (\<forall>i < 4. user_view (kmem t) d (sp + of_nat i) = Some ([0xEF, 0xBE, 0xAD, 0xDE] ! i))"
proof -
  let ?magic = "[0xEF, 0xBE, 0xAD, 0xDE] :: u8 list" and ?tf = "p_tf (ptable s p)"
  let ?A = "{sp + of_nat i | i. i < length ?magic}"
  obtain a where a: "kalloc s = Ok g a" "alloc_inv L a ps" "alloc_frame s a" "kmem a = kmem s" "use_lock s \<longrightarrow> thread_in L a"
    using kalloc_in [OF assms(1)] by auto
  note A = alloc_frame_v2 [OF a(3)]
  obtain st where st: "ptable a p = (ptable s p)\<lparr>p_state := st\<rparr>" using A(5) by blast
  have g: "g \<noteq> 0" using assms(1) by (auto simp: alloc_inv_def page_ok_def)
  let ?b = "a\<lparr>px := (px a)(p := (px a p)\<lparr>q_saved := Some (g, ?tf)\<rparr>),
     ptable := (ptable a)(p := (ptable a p)\<lparr>p_tf := ?tf\<lparr>tf_esp := sp\<rparr>\<rparr>)\<rparr>"
  have four: "length ?magic = 4" by simp
  have "apart (kmem ?b) d ?A" using assms(6) a(4) unfolding four by simp
  moreover have "sp + of_nat i \<in> ?A \<and> user_ok (kmem ?b) d (sp + of_nat i)" if "i < length ?magic" for i
    using that assms(7) a(4) unfolding four by auto
  moreover have "unat sp + length ?magic \<le> 2 ^ 32" using assms(5) by simp
  ultimately obtain m' where m': "copyout d sp ?magic ?b = Ok 0 (?b\<lparr>kmem := m'\<rparr>)"
    "copied (kmem ?b) m' (\<lambda>i. kaddr (kmem ?b) d (sp + of_nat i)) ?magic (length ?magic)"
    "\<forall>x \<in> ?A. \<forall>y \<in> walk_bytes (kmem ?b) d x. m' y = kmem ?b y"
    using copyout_in [of sp ?magic ?b d ?A] by blast
  have view: "user_view m' d (sp + of_nat i) = Some (?magic ! i)" if "i < 4" for i
  proof (rule copied_view [OF m'(2,3), of i])
    show "sp + of_nat i \<in> ?A" using that unfolding four by blast
    show "user_ok (kmem ?b) d (sp + of_nat i)" using that assms(7) a(4) by simp
  qed (use that in simp)
  have other: "m' y = kmem s y" if "\<forall>i < 4. kaddr (kmem s) d (sp + of_nat i) \<noteq> y" for y
    using m'(2) that a(4) by (auto simp: copied_def)
  let ?t = "?b\<lparr>kmem := m', ptable := (ptable ?b)(p := (ptable ?b p)\<lparr>p_tf := (p_tf (ptable ?b p))\<lparr>tf_eip := q_handler (px s p)\<rparr>\<rparr>),
     px := (px ?b)(p := (px ?b p)\<lparr>q_pending := False\<rparr>)\<rparr>"
  have "deliver p s = Ok () ?t"
    using a(1) g st m'(1) A(1)
    by (simp add: deliver_def kbind_def kseq_def upd_px_def upd_proc_def d [symmetric] sp [symmetric])
  moreover have "alloc_inv L ?t ps"
  proof -
    have "flist (kmem a) (freelist a) ps" using a(2) by (simp add: alloc_inv_def)
    then have "flist m' (freelist a) ps"
      by (rule flist_cong) (use other assms(8) a(4) in auto)
    then show ?thesis using a(2) by (simp add: alloc_inv_def)
  qed
  ultimately show ?thesis using A st view a(5) by (intro exI [of _ ?t]) (auto simp: )
qed


lemma restore_in:
  assumes "alloc_inv L s ps" "page_ok (kend s) g" "g \<notin> set ps"
  shows "\<exists>t. restore_tf p g tf s = Ok () t \<and> alloc_inv L t (g # ps) \<and> p_tf (ptable t p) = tf
    \<and> q_saved (px t p) = None"
proof -
  let ?s = "s\<lparr>ptable := (ptable s)(p := (ptable s p)\<lparr>p_tf := tf\<rparr>)\<rparr>"
  obtain t where t: "kfree g ?s = Ok () t" "alloc_inv L t (g # ps)" "alloc_frame ?s t"
    using kfree_in [of L ?s ps g] assms by auto
  obtain st where "ptable t p = (ptable ?s p)\<lparr>p_state := st\<rparr>" using alloc_frame_v2(5) [OF t(3)] by blast
  then show ?thesis using t(1,2) by (auto simp: restore_tf_def upd_proc_def upd_px_def kseq_def kbind_def)
qed

text \<open>
  C28.  A signal interrupts a process and leaves no trace.  When one is pending, a handler is
  registered, a page is free and the word below the user stack is mapped, the end of \<open>trap\<close> makes
  the process return into the handler with the magic return address on its stack; and whenever
  later the page fault at that address comes, whatever frame and memory the handler has left and
  whatever pages are free by then, the process gets back the frame it was interrupted with, the page
  that kept it is free again, and no second return is possible.
\<close>

theorem signal_round_trip:
  assumes "cur s = Some p" "use_lock s" "alloc_inv L s (g # ps)" "q_pending (px s p)" "q_handler (px s p) \<noteq> 0"
    and "d = p_pgdir (ptable s p)" "sp = tf_esp (p_tf (ptable s p)) - 4"
    and "unat sp + 4 \<le> 2 ^ 32" "apart (kmem s) d {sp + of_nat i | i. i < 4}"
    and "\<forall>i < 4. user_ok (kmem s) d (sp + of_nat i)"
    and "\<forall>x \<in> set ps. \<forall>i < 4. \<forall>j < 4. kaddr (kmem s) d (sp + of_nat i) \<noteq> unat x + j"
  shows "\<exists>t. deliver_pending s = Ok () t \<and> alloc_inv L t ps \<and> \<not> q_pending (px t p)
    \<and> cur t = Some p \<and> use_lock t \<and> kend t = kend s
    \<and> p_tf (ptable t p) = (p_tf (ptable s p))\<lparr>tf_esp := sp, tf_eip := q_handler (px s p)\<rparr>
    \<and> (\<forall>i < 4. user_view (kmem t) d (sp + of_nat i) = Some ([0xEF, 0xBE, 0xAD, 0xDE] ! i))
    \<and> (\<forall>u qs tf. cur u = Some p \<and> use_lock u \<and> kend u = kend s \<and> px u p = px t p \<and> alloc_inv L u qs \<and> g \<notin> set qs \<longrightarrow>
         (\<exists>v. page_fault MAGIC_SIGRET tf u = Ok () v \<and> p_tf (ptable v p) = p_tf (ptable s p)
            \<and> alloc_inv L v (g # qs) \<and> q_saved (px v p) = None))"
proof -
  have th: "thread_in L s" using assms(2,3) by (simp add: alloc_inv_def)
  obtain a where a: "myproc s = Ok (Some p) a" "thread_in L a" "cpu_frame s a"
    using myproc_frame [OF th assms(1)] by blast
  note A = cpu_frame_v2 [OF a(3)]
  have inv: "alloc_inv L a (g # ps)" by (rule alloc_inv_frame [OF assms(3) a(3,2)])
  obtain t where t: "deliver p a = Ok () t" "alloc_inv L t ps"
      "cur t = cur s" "use_lock t = use_lock s" "kend t = kend s"
      "p_tf (ptable t p) = (p_tf (ptable s p))\<lparr>tf_esp := sp, tf_eip := q_handler (px s p)\<rparr>"
      "px t p = (px s p)\<lparr>q_saved := Some (g, p_tf (ptable s p)), q_pending := False\<rparr>"
      "\<forall>i < 4. user_view (kmem t) d (sp + of_nat i) = Some ([0xEF, 0xBE, 0xAD, 0xDE] ! i)"
    using deliver_in [OF inv a(2), of d p sp] assms(6-11) unfolding A by blast
  have run: "deliver_pending s = Ok () t"
    using a(1) t(1) assms(4,5) A by (simp add: deliver_pending_def kbind_def)
  have g: "page_ok (kend s) g" using assms(3) by (simp add: alloc_inv_def)
  have resume: "\<exists>v. page_fault MAGIC_SIGRET tf u = Ok () v \<and> p_tf (ptable v p) = p_tf (ptable s p)
            \<and> alloc_inv L v (g # qs) \<and> q_saved (px v p) = None"
    if u: "cur u = Some p" "use_lock u" "kend u = kend s" "px u p = px t p" "alloc_inv L u qs" "g \<notin> set qs" for u qs tf
  proof -
    have "thread_in L u" using u(2,5) by (simp add: alloc_inv_def)
    then obtain b where b: "myproc u = Ok (Some p) b" "thread_in L b" "cpu_frame u b"
      using myproc_frame u(1) by blast
    note B = cpu_frame_v2 [OF b(3)]
    have "alloc_inv L b qs" by (rule alloc_inv_frame [OF u(5) b(3,2)])
    moreover have "page_ok (kend b) g" using g u(3) B(5) by simp
    ultimately obtain v where "restore_tf p g (p_tf (ptable s p)) b = Ok () v" "alloc_inv L v (g # qs)"
        "p_tf (ptable v p) = p_tf (ptable s p)" "q_saved (px v p) = None"
      using restore_in u(6) by blast
    then show ?thesis using b(1) u(4) t(7) B by (simp add: page_fault_def kbind_def)
  qed
  show ?thesis using run t resume assms(1,2) by (intro exI [of _ t] conjI allI impI) (simp_all, blast)
qed


text \<open>Process 0 of the demonstration machine, interrupted with its stack at 0x1004.\<close>

definition demo_signal :: v2_st where
  "demo_signal = run_st.extend
     (demo_run_st\<lparr>use_lock := True, ptable := (\<lambda>_. zero_proc)(0 := (ptable demo_run_st 0)\<lparr>p_tf := zero_tf\<lparr>tf_esp := 0x1004, tf_eip := 0x77\<rparr>\<rparr>)\<rparr>)
     (v2_st.fields (\<lambda>_. (demo_proc2 0)\<lparr>q_pending := True, q_handler := 0x40\<rparr>) None)"

lemma demo_signal_fields:
  "kmem demo_signal = demo_user_mem" "freelist demo_signal = 0x80404000" "use_lock demo_signal = True"
  "kend demo_signal = 0x80115000" "p_pgdir (ptable demo_signal 0) = 0x80400000"
  "p_tf (ptable demo_signal 0) = zero_tf\<lparr>tf_esp := 0x1004, tf_eip := 0x77\<rparr>"
  "q_pending (px demo_signal 0)" "q_handler (px demo_signal 0) = 0x40"
  by (simp_all add: demo_signal_def run_st.defs v2_st.defs demo_run_fields)

lemma demo_signal_in: "thread_in {} demo_signal" "cur demo_signal = Some 0"
proof -
  have f: "found demo_signal = found demo_run_st" "cpus demo_signal = cpus demo_run_st"
     "fl_if demo_signal = fl_if demo_run_st" "locks demo_signal = locks demo_run_st"
    by (simp_all add: demo_signal_def found_def run_st.defs v2_st.defs)
  show "thread_in {} demo_signal" using demo_run_in(1) unfolding thread_in_def f .
  show "cur demo_signal = Some 0" using demo_run_in(2) unfolding cur_def f .
qed

lemma demo_stack:
  assumes "i < 4"
  shows "user_ok demo_user_mem 0x80400000 (0x1000 + of_nat i)"
    and "kaddr demo_user_mem 0x80400000 (0x1000 + of_nat i) = 0x80403000 + i"
    and "walk_bytes demo_user_mem 0x80400000 (0x1000 + of_nat i) \<subseteq> {0x80400000..<0x80402000}"
proof -
  have "i = 0 \<or> i = 1 \<or> i = 2 \<or> i = 3" using assms by auto
  then show "user_ok demo_user_mem 0x80400000 (0x1000 + of_nat i)"
    and "kaddr demo_user_mem 0x80400000 (0x1000 + of_nat i) = 0x80403000 + i"
    and "walk_bytes demo_user_mem 0x80400000 (0x1000 + of_nat i) \<subseteq> {0x80400000..<0x80402000}"
    by (elim disjE; simp add: user_ok_alt kaddr_def walk_bytes_def pde_at_def pte_at_def frame_at_def PDX_def PTX_def demo_walk
        P2V_def PTE_ADDR_def KERNBASE_def)+
qed

lemma demo_signal_free: "alloc_inv {} demo_signal [0x80404000]"
    using demo_signal_in(1) by (simp add: alloc_inv_def demo_signal_fields demo_user_mem_def ld32_st32_other page_ok_def
        PGSIZE_def V2P_def KERNBASE_def PHYSTOP_def) (simp add: ld32_def word32_def upt_rec)

theorem signal_round_trip_witness:
  "\<exists>t v. deliver_pending demo_signal = Ok () t \<and> tf_eip (p_tf (ptable t 0)) = 0x40
     \<and> page_fault MAGIC_SIGRET zero_tf (t\<lparr>ptable := (ptable t)(0 := (ptable t 0)\<lparr>p_tf := zero_tf\<rparr>)\<rparr>) = Ok () v
     \<and> p_tf (ptable v 0) = zero_tf\<lparr>tf_esp := 0x1004, tf_eip := 0x77\<rparr>"
proof -
  let ?s = demo_signal
  note free = demo_signal_free
  have apart: "apart demo_user_mem 0x80400000 {0x1000 + of_nat i | i. i < (4 :: nat)}"
  proof -
    have "kaddr demo_user_mem 0x80400000 (0x1000 + of_nat i) \<notin> walk_bytes demo_user_mem 0x80400000 (0x1000 + of_nat j)"
      if "i < 4" "j < 4" for i j :: nat
      using demo_stack(2) [OF that(1)] demo_stack(3) [OF that(2)] by auto
    moreover have "inj_on (kaddr demo_user_mem 0x80400000) {0x1000 + of_nat i | i. i < (4 :: nat)}"
      by (rule inj_onI) (auto simp: demo_stack(2))
    ultimately show ?thesis unfolding apart_def by blast
  qed
  have sp: "0x1000 = tf_esp (p_tf (ptable ?s 0)) - 4" and h: "q_handler (px ?s 0) \<noteq> 0" by (simp_all add: demo_signal_fields)
  have stack: "apart (kmem ?s) 0x80400000 {0x1000 + of_nat i | i. i < (4 :: nat)}"
      "\<forall>i < (4 :: nat). user_ok (kmem ?s) 0x80400000 (0x1000 + of_nat i)"
      "unat (0x1000 :: u32) + 4 \<le> 2 ^ 32"
    using apart demo_stack(1) by (simp_all add: demo_signal_fields(1))
  have none: "\<forall>x \<in> set []. \<forall>i < (4 :: nat). \<forall>j < 4. kaddr (kmem ?s) 0x80400000 (0x1000 + of_nat i) \<noteq> unat (x :: u32) + j"
    by simp
  obtain t where t: "deliver_pending ?s = Ok () t" "alloc_inv {} t []" "cur t = Some 0" "use_lock t" "kend t = kend ?s"
      "p_tf (ptable t 0) = (p_tf (ptable ?s 0))\<lparr>tf_esp := 0x1000, tf_eip := q_handler (px ?s 0)\<rparr>"
      "\<And>(u :: v2_st) qs tf. cur u = Some 0 \<Longrightarrow> use_lock u \<Longrightarrow> kend u = kend ?s \<Longrightarrow> px u 0 = px t 0 \<Longrightarrow> alloc_inv {} u qs
         \<Longrightarrow> 0x80404000 \<notin> set qs \<Longrightarrow>
         \<exists>v. page_fault MAGIC_SIGRET tf u = Ok () v \<and> p_tf (ptable v 0) = p_tf (ptable ?s 0)"
    using signal_round_trip [OF demo_signal_in(2) _ free demo_signal_fields(7) h demo_signal_fields(5) [symmetric] sp
        stack(3,1,2) none] demo_signal_fields(3) by blast
  let ?u = "t\<lparr>ptable := (ptable t)(0 := (ptable t 0)\<lparr>p_tf := zero_tf\<rparr>)\<rparr>"
  have "\<exists>v. page_fault MAGIC_SIGRET zero_tf ?u = Ok () v \<and> p_tf (ptable v 0) = p_tf (ptable ?s 0)"
    by (rule t(7) [of ?u "[]"]) (use t in simp_all)
  then show ?thesis using t(1,6) by (auto simp: demo_signal_fields)
qed

section \<open>What a reused entry keeps\<close>

text \<open>The fields that neither \<open>allocproc\<close> nor \<open>fork\<close> sets.\<close>

definition left_over :: "proc2 \<Rightarrow> int \<times> bool \<times> int \<times> bool \<times> u32 \<times> (u32 \<times> trapframe) option" where
  "left_over q = (q_exec_time q, q_custom q, q_waiting q, q_pending q, q_handler q, q_saved q)"

lemma thread_in_nextpid [simp]:
  "thread_in L (s\<lparr>nextpid := n\<rparr>) = thread_in L s" "alloc_inv L (s\<lparr>nextpid := n\<rparr>) ps = alloc_inv L s ps"
  by (simp_all add: thread_in_def found_def alloc_inv_def)

lemma allocproc2_in:
  assumes "alloc_inv {} s (k # ks)" "use_lock s"
    and free: "find (\<lambda>i. p_state (ptable s i) = UNUSED) [0..<NPROC] = Some np"
  shows "\<exists>t. allocproc2 s = Ok (Some np) t \<and> p_pid (ptable t np) = nextpid s \<and> q_rtime (px t np) = 0
    \<and> left_over (px t np) = left_over (px s np)"
proof -
  have th: "thread_in {} s" using assms(1,2) by (simp add: alloc_inv_def)
  obtain a where a: "acquire L_ptable s = Ok () a" "thread_in {L_ptable} a" "cpu_frame s a"
    using acquire_frame [OF th, of L_ptable] by auto
  note A = cpu_frame_v2 [OF a(3)] run_more(2,4) [OF a(3)]
  let ?q = "(px s np)\<lparr>q_creation := sint (ticks s), q_first_cpu := -1, q_finish := 0, q_rtime := 0, q_switches := 0,
             q_init_priority := INIT_PRIORITY\<rparr>"
  let ?b = "a\<lparr>ptable := (ptable s)(np := (ptable s np)\<lparr>p_state := EMBRYO, p_pid := nextpid s\<rparr>), nextpid := nextpid s + 1,
     px := (px s)(np := ?q)\<rparr>"
  have "thread_in {L_ptable} ?b" using a(2) by simp
  then obtain c where c: "release L_ptable ?b = Ok () c" "thread_in {} c" "cpu_frame ?b c"
    using release_frame [of "{L_ptable}" ?b L_ptable] by auto
  note C = cpu_frame_v2 [OF c(3)]
  have "alloc_inv {} c (k # ks)" using assms(1) c(2) C A by (simp add: alloc_inv_def)
  then obtain d where d: "kalloc c = Ok k d" "alloc_frame c d" using kalloc_in [of "{}" c "k # ks"] by auto
  note D = alloc_frame_v2 [OF d(2)]
  obtain st where st: "ptable d np = (ptable c np)\<lparr>p_state := st\<rparr>" using D(5) by blast
  have k: "k \<noteq> 0" using assms(1) by (auto simp: alloc_inv_def page_ok_def)
  have "\<exists>t. allocproc2 s = Ok (Some np) t \<and> px t = px d \<and> p_pid (ptable t np) = p_pid (ptable d np)"
    using a(1) c(1) d(1) free k A
    by (simp add: allocproc2_def kseq_def kbind_def upd_proc_def upd_px_def wr32_def upd_mem_def)
  then show ?thesis using C D(1) st by (auto simp: left_over_def)
qed

lemma found_prev [simp]: "found (s\<lparr>prev_proc := x\<rparr>) = found s"
  by (simp add: found_def)

lemma scheduler2_back_kills:
  assumes "found u = Some c" "\<not> fl_if u" "0 < ncli (cpus u c)" "locks u L_ptable = \<lparr>lk_locked = True, lk_cpu = Some c\<rparr>"
    and "counters_ok (px u p)" "\<bar>q_switches (px u p)\<bar> < 2 ^ 30" "0 \<le> start" "start \<le> sint (ticks u)" "sint (ticks u) < 2 ^ 30"
    and "0 < q_exec_time (px u p)" "q_exec_time (px u p) \<le> q_rtime (px u p) + (sint (ticks u) - start)"
  shows "\<exists>v. scheduler2_back p start u = Ok () v \<and> p_killed (ptable v p)"
proof -
  define d where "d = sint (ticks u) - start"
  define q where "q = (px u p)\<lparr>q_rtime := q_rtime (px u p) + d\<rparr>"
  define q' where "q' = (if prev_proc u \<noteq> Some p then q\<lparr>q_switches := q_switches q + 1\<rparr> else q)"
  let ?w = "u\<lparr>cr3 := V2P (kpgdir u), px := (px u)(p := q'), prev_proc := Some p,
      ptable := (ptable u)(p := (ptable u p)\<lparr>p_killed := True\<rparr>), cpus := (cpus u)(c := (cpus u c)\<lparr>cproc := None\<rparr>)\<rparr>"
  have d: "0 \<le> d" "d < 2 ^ 30" using assms(7-9) by (auto simp: d_def)
  have c1: "cint d = (kret d :: (int, 'a v2_st_scheme) kern)" using d by simp
  have c2: "cint (q_rtime (px u p) + d) = (kret (q_rtime (px u p) + d) :: (int, 'a v2_st_scheme) kern)"
    using d assms(5) by (intro cint_eval) (auto simp: counters_ok_def abs_less_iff)
  have c3: "cint (q_switches (px u p) + 1) = (kret (q_switches (px u p) + 1) :: (int, 'a v2_st_scheme) kern)"
    using assms(6) by (intro cint_eval) (auto simp: abs_less_iff)
  have kill: "0 < q_exec_time (px u p)" "q_exec_time (px u p) \<le> q_rtime (px u p) + d" using assms(10,11) by (simp_all add: d_def)
  have run: "scheduler2_back p start u = release L_ptable ?w"
    using assms(1,2) c1 c2 c3 kill
    by (simp add: scheduler2_back_def switchkvm_def kseq_def kbind_def upd_px_def upd_proc_def upd_cpu_def mycpu_eval
        d_def [symmetric] q_def q'_def)
  have "found ?w = found (u\<lparr>cpus := (cpus u)(c := (cpus u c)\<lparr>cproc := None\<rparr>)\<rparr>)" by (simp add: found_def)
  also have "\<dots> = Some c" using assms(1) by (simp add: found_upd_cpus)
  finally have f: "found ?w = Some c" .
  obtain v where v: "release L_ptable ?w = Ok () v"
    using release_eval [OF f, of L_ptable] assms(2-4) by auto
  have "ptable v = ptable ?w" using release_Ok [OF v] cpu_frame_proc_st(1) [of ?w v] by simp
  then show ?thesis using run v by auto
qed

text \<open>
  C29.  Neither \<open>allocproc\<close> nor \<open>fork\<close> resets what \<open>custom_fork\<close>, the signals and the
  waiting left in an entry of the process table: the process created in a reused entry starts with the run
  time zero but with the time limit, the pending signal, the handler and the saved frame of the
  entry's previous process, and the scheduler kills it when it has run that long.
\<close>

theorem reused_entry_inherits_limit:
  assumes "alloc_inv {} s (k # ks)" "use_lock s"
    and "find (\<lambda>i. p_state (ptable s i) = UNUSED) [0..<NPROC] = Some np"
  shows "\<exists>t. allocproc2 s = Ok (Some np) t \<and> p_pid (ptable t np) = nextpid s \<and> q_rtime (px t np) = 0
    \<and> left_over (px t np) = left_over (px s np)
    \<and> (\<forall>u :: 'x v2_st_scheme. \<forall>c start. found u = Some c \<and> \<not> fl_if u \<and> 0 < ncli (cpus u c)
         \<and> locks u L_ptable = \<lparr>lk_locked = True, lk_cpu = Some c\<rparr>
         \<and> counters_ok (px u np) \<and> \<bar>q_switches (px u np)\<bar> < 2 ^ 30
         \<and> 0 \<le> start \<and> start \<le> sint (ticks u) \<and> sint (ticks u) < 2 ^ 30
         \<and> q_exec_time (px u np) = q_exec_time (px t np) \<and> 0 < q_exec_time (px s np)
         \<and> q_exec_time (px s np) \<le> q_rtime (px u np) + (sint (ticks u) - start)
         \<longrightarrow> (\<exists>v. scheduler2_back np start u = Ok () v \<and> p_killed (ptable v np)))"
proof -
  obtain t where t: "allocproc2 s = Ok (Some np) t" "p_pid (ptable t np) = nextpid s" "q_rtime (px t np) = 0"
    "left_over (px t np) = left_over (px s np)"
    using allocproc2_in [OF assms] by blast
  have "q_exec_time (px t np) = q_exec_time (px s np)" using t(4) by (simp add: left_over_def)
  with t show ?thesis by (intro exI [of _ t] conjI allI impI) (auto intro: scheduler2_back_kills)
qed

theorem reused_entry_inherits_limit_witness:
  "\<exists>t. allocproc2 (demo_signal\<lparr>px := (\<lambda>_. (demo_proc2 0)\<lparr>q_exec_time := 5, q_handler := 0x40\<rparr>)\<rparr>) = Ok (Some 1) t
     \<and> q_exec_time (px t 1) = 5 \<and> q_rtime (px t 1) = 0 \<and> q_handler (px t 1) = 0x40"
proof -
  let ?s = "demo_signal\<lparr>px := (\<lambda>_. (demo_proc2 0)\<lparr>q_exec_time := 5, q_handler := 0x40\<rparr>)\<rparr>"
  have free: "find (\<lambda>i. p_state (ptable ?s i) = UNUSED) [0..<NPROC] = Some 1"
    by (simp add: NPROC_def upt_rec demo_signal_def run_st.defs v2_st.defs demo_run_fields zero_proc_def)
  have "use_lock ?s" by (simp add: demo_signal_fields)
  from reused_entry_inherits_limit [OF _ this free, of "0x80404000" "[]"] demo_signal_free
  show ?thesis by (auto simp: left_over_def)
qed

end
