(* ===== verification/Kvm.thy ===== *)
theory Kvm
  imports Paging
begin

text \<open>
  Address spaces built page by page: \<open>mappages\<close> over a range of pages, the kernel's half of an
  address space built by \<open>setupkvm\<close>, and \<open>freevm\<close> giving its pages back.
\<close>


section \<open>A range of pages\<close>

text \<open>Memory that is touched only in the pages \<open>P\<close>.\<close>

definition bytes_kept :: "u32 set \<Rightarrow> mem \<Rightarrow> mem \<Rightarrow> bool" where
  "bytes_kept P m m' \<longleftrightarrow> (\<forall>b. (\<forall>p \<in> P. b < unat p \<or> unat p + 4096 \<le> b) \<longrightarrow> m' b = m b)"

lemma bytes_kept_refl [simp]: "bytes_kept P m m"
  by (simp add: bytes_kept_def)

lemma bytes_kept_trans: "bytes_kept P m m' \<Longrightarrow> bytes_kept Q m' m'' \<Longrightarrow> P \<union> Q \<subseteq> R \<Longrightarrow> bytes_kept R m m''"
  unfolding bytes_kept_def by (metis UnCI subsetD)

lemma bytes_kept_same: "bytes_kept P m m' \<Longrightarrow> bytes_kept P m' m'' \<Longrightarrow> bytes_kept P m m''"
  by (simp add: bytes_kept_def)

lemma bytes_kept_mono: "bytes_kept P m m' \<Longrightarrow> P \<subseteq> Q \<Longrightarrow> bytes_kept Q m m'"
  unfolding bytes_kept_def by blast

lemma bytes_kept_entry:
  assumes "p mod PGSIZE = 0" "j < 1024"
  shows "bytes_kept {p} m (st32 (p + 4 * j) e m)"
  using assms by (auto simp: bytes_kept_def st32_def entry_unat word_less_nat_alt)

lemma bytes_kept_memset: "bytes_kept {p} m (memset (unat p) c 4096 m)"
  by (auto simp: bytes_kept_def memset_eval)

text \<open>Mapping a page writes in the directory, the table of the page and the page taken for a new table.\<close>

lemma one_page_bytes:
  assumes inv: "alloc_inv L s ps" and pt: "pt_ok (kmem s) d (set ps)" and run: "mappages_loop d va pa perm 0 s = Ok r t"
  shows "bytes_kept (insert d (tables (kmem s) d \<union> set ps)) (kmem s) (kmem t)"
proof (cases "bit (pde_word (kmem s) d (PDX va)) 0")
  case True
  let ?T = "table_of (kmem s) d (PDX va)"
  have T: "?T \<in> tables (kmem s) d" using True PDX_less by (auto simp: tables_def pde_set_def)
  have "walkpgdir d va True s = Ok (?T + 4 * PTX va) s"
    using True by (simp add: walkpgdir_def rd32_def kbind_def Let_def table_of_def pde_word_def pte_flag_bits(1))
  then have "kmem t = kmem s \<or> (\<exists>e. kmem t = st32 (?T + 4 * PTX va) e (kmem s))"
    using run by (auto simp: mappages_loop.simps [of d va pa perm 0] kbind_def kseq_def rd32_def wr32_def upd_mem_def split: if_splits)
  then have "bytes_kept {?T} (kmem s) (kmem t)" by (auto simp: bytes_kept_entry PTX_less)
  then show ?thesis by (rule bytes_kept_mono) (use T in simp)
next
  case False
  show ?thesis
  proof (cases ps)
    case Nil
    then obtain u where "walkpgdir d va True s = Ok 0 u" "kmem u = kmem s" using walkpgdir_alloc [OF inv pt False] by auto
    then show ?thesis using run by (auto simp: mappages_loop.simps [of d va pa perm 0] kbind_def)
  next
    case (Cons q qs)
    then obtain u where u: "walkpgdir d va True s = Ok (q + 4 * PTX va) u"
      "kmem u = st32 (pde_at d va) (V2P q OR PTE_PWU) (memset (unat q) 0 4096 (kmem s))"
      using walkpgdir_alloc [OF inv pt False] by auto
    have q: "q mod PGSIZE = 0" "d mod PGSIZE = 0" using alloc_inv_page [OF inv] Cons pt by (auto simp: pt_ok_def)
    have "kmem t = kmem u \<or> (\<exists>e. kmem t = st32 (q + 4 * PTX va) e (kmem u))"
      using run u(1) by (auto simp: mappages_loop.simps [of d va pa perm 0] kbind_def kseq_def rd32_def wr32_def upd_mem_def split: if_splits)
    then have 2: "bytes_kept {q} (kmem u) (kmem t)" by (auto simp: bytes_kept_entry [OF q(1) PTX_less])
    have "bytes_kept {d} (memset (unat q) 0 4096 (kmem s)) (kmem u)"
      unfolding u(2) pde_at_def by (rule bytes_kept_entry [OF q(2) PDX_less])
    then have "bytes_kept {q, d} (kmem s) (kmem u)" by (rule bytes_kept_trans [OF bytes_kept_memset]) simp
    then show ?thesis by (rule bytes_kept_trans [OF _ 2]) (use Cons in simp)
  qed
qed

lemma mappages_step:
  "mappages_loop d a pa perm 0 s = Ok 0 t \<Longrightarrow>
     mappages_loop d a pa perm (Suc n) s = mappages_loop d (a + PGSIZE) (pa + PGSIZE) perm n t"
  "mappages_loop d a pa perm 0 s = Ok (-1) t \<Longrightarrow> mappages_loop d a pa perm n s = Ok (-1) t"
  by (auto simp: mappages_loop.simps [of d a pa perm] kbind_def kseq_def split: res.splits if_splits nat.splits)

lemma page_fails:
  assumes "alloc_inv L s []" "\<not> bit (pde_word (kmem s) d (PDX va)) 0"
  shows "\<exists>t. mappages_loop d va pa perm n s = Ok (-1) t \<and> kmem t = kmem s \<and> alloc_inv L t [] \<and> alloc_frame s t"
proof -
  have e: "ld32 (d + 4 * PDX va) (kmem s) AND PTE_P = 0" using assms(2) by (simp add: pde_word_def pte_flag_bits(1))
  obtain t where t: "kalloc s = Ok 0 t" "alloc_inv L t []" "alloc_frame s t" "kmem t = kmem s"
    using kalloc_in [OF assms(1)] by auto
  then have "walkpgdir d va True s = Ok 0 t" using e by (simp add: walkpgdir_def rd32_def kbind_def Let_def)
  then have "mappages_loop d va pa perm 0 s = Ok (-1) t" by (simp add: mappages_loop.simps kbind_def)
  then show ?thesis using t mappages_step(2) by blast
qed

text \<open>The directory entries a range of \<open>n + 1\<close> pages uses, and the translation of a range that is
  mapped to consecutive pages.\<close>

definition pdx_range :: "u32 \<Rightarrow> nat \<Rightarrow> u32 set" where
  "pdx_range va n = (\<lambda>k. PDX (va + of_nat k * PGSIZE)) ` {..n}"

definition linear :: "u32 \<Rightarrow> u32 \<Rightarrow> u32 \<Rightarrow> u32 \<Rightarrow> u32 \<Rightarrow> u32 option" where
  "linear va pa perm need v = (if (perm OR PTE_P) AND need = need then Some (P2V pa + (v - va)) else None)"

definition in_pages :: "u32 \<Rightarrow> nat \<Rightarrow> u32 \<Rightarrow> bool" where
  "in_pages va n v \<longleftrightarrow> va \<le> v \<and> unat v < unat va + 4096 * Suc n"

lemma pdx_range_Suc: "pdx_range va (Suc n) = insert (PDX va) (pdx_range (va + PGSIZE) n)"
  unfolding pdx_range_def atMost_Suc_eq_insert_0 by (simp add: image_image algebra_simps)

lemma pdx_range_0: "pdx_range va 0 = {PDX va}"
  by (simp add: pdx_range_def)

lemma pdx_range_finite [simp]: "finite (pdx_range va n)"
  by (simp add: pdx_range_def)

lemma in_pages_page: "va mod PGSIZE = 0 \<Longrightarrow> in_pages va 0 v \<longleftrightarrow> PGROUNDDOWN v = va"
proof -
  assume "va mod PGSIZE = 0"
  then obtain k where k: "unat va = 4096 * k" using page_mult [of va] by auto
  have "4096 * k \<le> unat v \<and> unat v < 4096 * k + 4096 \<longleftrightarrow> unat v div 4096 = k" by (auto simp: div_nat_eqI)
  then show ?thesis using k by (auto simp: in_pages_def word_le_nat_alt word_unat_eq_iff PGROUNDDOWN_unat)
qed

lemma mapped_linear:
  assumes "PGROUNDDOWN v = va"
  shows "mapped_to pa perm need v = linear va pa perm need v"
proof -
  have "v AND 0xFFF = v - va" using low12_of_PGROUNDDOWN [of v] assms by simp
  then show ?thesis by (simp add: mapped_to_def linear_def)
qed

lemma linear_step: "linear (va + PGSIZE) (pa + PGSIZE) perm need v = linear va pa perm need v"
  by (simp add: linear_def P2V_def)

lemma in_pages_Suc:
  assumes "unat va + 4096 * Suc (Suc n) \<le> 2 ^ 32"
  shows "in_pages va (Suc n) v \<longleftrightarrow> in_pages va 0 v \<or> in_pages (va + PGSIZE) n v"
proof -
  have "unat (va + PGSIZE) = unat va + 4096"
    using assms unat_add_nowrap32 [of va PGSIZE] by (simp add: PGSIZE_def)
  then show ?thesis using assms by (auto simp: in_pages_def word_le_nat_alt)
qed

lemma page_add: "va mod PGSIZE = 0 \<Longrightarrow> (va + PGSIZE) mod PGSIZE = 0"
proof -
  assume "va mod PGSIZE = 0"
  then obtain k where k: "unat va = 4096 * k" using page_mult [of va] by auto
  have "(4096 * k + 4096) mod 4294967296 mod 4096 = (4096 * k + 4096) mod (4096 :: nat)"
    by (rule mod_mod_cancel) simp
  then show ?thesis by (simp add: PGSIZE_def word_unat_eq_iff unat_mod unat_word_ariths k)
qed

text \<open>Mapping a range: what the caller of \<open>mappages_loop\<close> relies on.\<close>

definition range_mapped :: "lockid set \<Rightarrow> 'x mem_st_scheme \<Rightarrow> u32 list \<Rightarrow> 'x mem_st_scheme \<Rightarrow> u32 list
    \<Rightarrow> u32 \<Rightarrow> u32 \<Rightarrow> u32 \<Rightarrow> u32 \<Rightarrow> nat \<Rightarrow> bool" where
  "range_mapped L s ps t qs d va pa perm n \<longleftrightarrow>
     alloc_inv L t qs \<and> pt_ok (kmem t) d (set qs) \<and> alloc_frame s t
     \<and> length qs + card (pdx_range va n - pde_set (kmem s) d) = length ps
     \<and> pde_set (kmem t) d = pde_set (kmem s) d \<union> pdx_range va n
     \<and> tables (kmem t) d \<union> set qs = tables (kmem s) d \<union> set ps
     \<and> bytes_kept (insert d (tables (kmem s) d \<union> set ps)) (kmem s) (kmem t)
     \<and> (\<forall>need v. access need \<longrightarrow> mmu_addr (kmem t) d need v
           = (if in_pages va n v then linear va pa perm need v else mmu_addr (kmem s) d need v))"

text \<open>One page, with the bookkeeping of its table.\<close>

lemma one_page_mapped:
  assumes "alloc_inv L s ps" "pt_ok (kmem s) d (set ps)" "va mod PGSIZE = 0" "pa mod PGSIZE = 0" "perm < 4096"
    and "mmu_addr (kmem s) d PTE_P va = None" "ps \<noteq> [] \<or> PDX va \<in> pde_set (kmem s) d"
  shows "\<exists>t qs. mappages_loop d va pa perm 0 s = Ok 0 t \<and> range_mapped L s ps t qs d va pa perm 0"
proof -
  let ?b = "bit (pde_word (kmem s) d (PDX va)) 0"
  have b: "PDX va \<in> pde_set (kmem s) d \<longleftrightarrow> ?b" using PDX_less by (simp add: pde_set_def)
  obtain t where t: "mappages_loop d va pa perm 0 s = Ok 0 t"
    and "alloc_inv L t (if ?b then ps else tl ps)" and "pt_ok (kmem t) d (set (if ?b then ps else tl ps))" and "alloc_frame s t"
    and "pde_set (kmem t) d = insert (PDX va) (pde_set (kmem s) d)"
    and "tables (kmem t) d \<union> set (if ?b then ps else tl ps) = tables (kmem s) d \<union> set ps"
    and "\<forall>need v. access need \<longrightarrow> mmu_addr (kmem t) d need v
             = (if PGROUNDDOWN v = va then mapped_to pa perm need v else mmu_addr (kmem s) d need v)"
    by (rule page_mapped [OF assms(1-6)]) (use assms(7) b in auto)
  moreover have "length (if ?b then ps else tl ps) + card (pdx_range va 0 - pde_set (kmem s) d) = length ps"
    using assms(7) by (cases ps) (auto simp: pdx_range_0 insert_Diff_if b)
  ultimately have "range_mapped L s ps t (if ?b then ps else tl ps) d va pa perm 0"
    using in_pages_page [OF assms(3)] mapped_linear [of _ va pa perm] one_page_bytes [OF assms(1,2) t] by (simp add: range_mapped_def pdx_range_0)
  with t show ?thesis by blast
qed

lemma tables_needed_step:
  assumes "range_mapped L s ps t qs d va pa perm 0"
  shows "card (pdx_range va (Suc n) - pde_set (kmem s) d)
    = card ({PDX va} - pde_set (kmem s) d) + card (pdx_range (va + PGSIZE) n - pde_set (kmem t) d)"
proof -
  let ?R = "pdx_range (va + PGSIZE) n" let ?P = "pde_set (kmem s) d"
  have A: "pde_set (kmem t) d = insert (PDX va) ?P" using assms by (simp add: range_mapped_def pdx_range_0)
  have "insert (PDX va) ?R - ?P = ({PDX va} - ?P) \<union> (?R - pde_set (kmem t) d)" using A by auto
  moreover have "({PDX va} - ?P) \<inter> (?R - pde_set (kmem t) d) = {}" using A by auto
  ultimately show ?thesis unfolding pdx_range_Suc by (simp add: card_Un_disjoint)
qed

lemma range_mapped_trans:
  assumes "range_mapped L s ps t qs d va pa perm 0"
    and "range_mapped L t qs u rs d (va + PGSIZE) (pa + PGSIZE) perm n" "unat va + 4096 * Suc (Suc n) \<le> 2 ^ 32"
  shows "range_mapped L s ps u rs d va pa perm (Suc n)"
proof -
  note A = assms(1) [unfolded range_mapped_def pdx_range_0] and B = assms(2) [unfolded range_mapped_def]
  note c = tables_needed_step [OF assms(1), of n]
  have f: "alloc_frame s u" using A B alloc_frame_trans by blast
  have b: "bytes_kept (insert d (tables (kmem s) d \<union> set ps)) (kmem s) (kmem t)"
    "bytes_kept (insert d (tables (kmem s) d \<union> set ps)) (kmem t) (kmem u)" using A B by simp_all
  have b': "bytes_kept (insert d (tables (kmem s) d \<union> set ps)) (kmem s) (kmem u)" by (rule bytes_kept_trans [OF b]) simp
  have m: "\<forall>need v. access need \<longrightarrow> mmu_addr (kmem u) d need v
           = (if in_pages va (Suc n) v then linear va pa perm need v else mmu_addr (kmem s) d need v)"
    using A B by (simp add: in_pages_Suc [OF assms(3)] linear_step)
  show ?thesis unfolding range_mapped_def using A B c f b' m by (simp add: pdx_range_Suc)
qed

text \<open>Running out of pages: every free page has become a table, and nothing outside the range has
  changed.\<close>

definition range_failed :: "lockid set \<Rightarrow> 'x mem_st_scheme \<Rightarrow> u32 list \<Rightarrow> 'x mem_st_scheme
    \<Rightarrow> u32 \<Rightarrow> u32 \<Rightarrow> nat \<Rightarrow> bool" where
  "range_failed L s ps t d va n \<longleftrightarrow>
     alloc_inv L t [] \<and> pt_ok (kmem t) d {} \<and> alloc_frame s t
     \<and> pde_set (kmem t) d \<subseteq> pde_set (kmem s) d \<union> pdx_range va n
     \<and> tables (kmem t) d = tables (kmem s) d \<union> set ps
     \<and> bytes_kept (insert d (tables (kmem s) d \<union> set ps)) (kmem s) (kmem t)
     \<and> (\<forall>need v. access need \<and> \<not> in_pages va n v \<longrightarrow> mmu_addr (kmem t) d need v = mmu_addr (kmem s) d need v)"

lemma range_failed_trans:
  assumes "range_mapped L s ps t qs d va pa perm 0" "range_failed L t qs u d (va + PGSIZE) n"
    and "unat va + 4096 * Suc (Suc n) \<le> 2 ^ 32"
  shows "range_failed L s ps u d va (Suc n)"
  using assms(1,2) alloc_frame_trans [of s t u] bytes_kept_same [of "insert d (tables (kmem s) d \<union> set ps)" "kmem s" "kmem t" "kmem u"]
  by (auto simp: range_mapped_def range_failed_def in_pages_Suc [OF assms(3)] pdx_range_Suc pdx_range_0)

lemma page_failed:
  assumes "alloc_inv L s []" "pt_ok (kmem s) d {}" "PDX va \<notin> pde_set (kmem s) d"
  shows "\<exists>t. mappages_loop d va pa perm n s = Ok (-1) t \<and> range_failed L s [] t d va n"
proof -
  have "\<not> bit (pde_word (kmem s) d (PDX va)) 0" using assms(3) PDX_less by (simp add: pde_set_def)
  then show ?thesis using page_fails [OF assms(1), of d va pa perm n] assms(2) by (auto simp: range_failed_def)
qed

lemma access_P: "access PTE_P"
  by (simp add: access_def PTE_PWU_def PTE_P_def PTE_W_def PTE_U_def)

lemma range_step:
  assumes "range_mapped L s ps t qs d va pa perm 0" "unat va + 4096 * Suc (Suc n) \<le> 2 ^ 32" "va mod PGSIZE = 0"
    and "\<forall>v. in_pages va (Suc n) v \<longrightarrow> mmu_addr (kmem s) d PTE_P v = None"
  shows "unat (va + PGSIZE) + 4096 * Suc n \<le> 2 ^ 32"
    "\<forall>v. in_pages (va + PGSIZE) n v \<longrightarrow> mmu_addr (kmem t) d PTE_P v = None"
proof -
  have p: "unat (va + PGSIZE) = unat va + 4096"
    using assms(2) unat_add_nowrap32 [of va PGSIZE] by (simp add: PGSIZE_def)
  then show "unat (va + PGSIZE) + 4096 * Suc n \<le> 2 ^ 32" using assms(2) by simp
  have "\<not> in_pages va 0 v" if "in_pages (va + PGSIZE) n v" for v
    using that p by (simp add: in_pages_def word_le_nat_alt)
  then show "\<forall>v. in_pages (va + PGSIZE) n v \<longrightarrow> mmu_addr (kmem t) d PTE_P v = None"
    using assms(1,4) access_P in_pages_Suc [OF assms(2)] by (simp add: range_mapped_def)
qed

lemma range_run:
  assumes "alloc_inv L s ps" "pt_ok (kmem s) d (set ps)" "va mod PGSIZE = 0" "pa mod PGSIZE = 0" "perm < 4096"
    and "unat va + 4096 * Suc n \<le> 2 ^ 32" "\<forall>v. in_pages va n v \<longrightarrow> mmu_addr (kmem s) d PTE_P v = None"
  shows "if card (pdx_range va n - pde_set (kmem s) d) \<le> length ps
    then \<exists>t qs. mappages_loop d va pa perm n s = Ok 0 t \<and> range_mapped L s ps t qs d va pa perm n
    else \<exists>t. mappages_loop d va pa perm n s = Ok (-1) t \<and> range_failed L s ps t d va n"
  using assms
proof (induction n arbitrary: va pa s ps)
  case 0
  have "in_pages va 0 va" using in_pages_page [OF 0(3)] page_last [OF 0(3)] by simp
  then have "mmu_addr (kmem s) d PTE_P va = None" using 0(7) by blast
  then show ?case
    using one_page_mapped [OF 0(1-5)] page_failed [of L s d va pa perm 0] 0(1,2)
    by (cases ps) (auto simp: pdx_range_0 insert_Diff_if)
next
  case (Suc n)
  let ?P = "pde_set (kmem s) d"
  have "in_pages va (Suc n) va" by (simp add: in_pages_def)
  then have un: "mmu_addr (kmem s) d PTE_P va = None" using Suc.prems(7) by blast
  show ?case
  proof (cases "ps \<noteq> [] \<or> PDX va \<in> ?P")
    case True
    obtain t qs where t: "mappages_loop d va pa perm 0 s = Ok 0 t" "range_mapped L s ps t qs d va pa perm 0"
      using one_page_mapped [OF Suc.prems(1-5) un True] by blast
    note R = range_step [OF t(2) Suc.prems(6,3,7)]
    have I: "alloc_inv L t qs" "pt_ok (kmem t) d (set qs)" using t(2) by (auto simp: range_mapped_def)
    note IH = Suc.IH [OF I page_add [OF Suc.prems(3)] page_add [OF Suc.prems(4)] Suc.prems(5) R]
    have "card (pdx_range va (Suc n) - ?P) = card ({PDX va} - ?P) + card (pdx_range (va + PGSIZE) n - pde_set (kmem t) d)"
      by (rule tables_needed_step [OF t(2)])
    moreover have "length ps = length qs + card ({PDX va} - ?P)" using t(2) by (simp add: range_mapped_def pdx_range_0)
    ultimately have "card (pdx_range va (Suc n) - ?P) \<le> length ps
        \<longleftrightarrow> card (pdx_range (va + PGSIZE) n - pde_set (kmem t) d) \<le> length qs" by simp
    then show ?thesis
      using IH mappages_step(1) [OF t(1)] range_mapped_trans [OF t(2) _ Suc.prems(6)] range_failed_trans [OF t(2) _ Suc.prems(6)]
      by (fastforce split: if_splits)
  next
    case False
    then have "PDX va \<in> pdx_range va (Suc n) - ?P" by (simp add: pdx_range_Suc)
    then have "\<not> card (pdx_range va (Suc n) - ?P) \<le> length ps" using False by (auto simp: card_eq_0_iff)
    then show ?thesis using page_failed [of L s d va pa perm "Suc n"] Suc.prems(1,2) False by auto
  qed
qed

section \<open>mappages\<close>

text \<open>The addresses of the pages \<open>mappages\<close> maps for the range of \<open>sz\<close> bytes from \<open>va\<close>.\<close>

definition spanned :: "u32 \<Rightarrow> u32 \<Rightarrow> u32 set" where
  "spanned va sz = {v. PGROUNDDOWN va \<le> v \<and> PGROUNDDOWN v \<le> PGROUNDDOWN (va + sz - 1)}"

lemma PGROUNDDOWN_aligned [simp]: "PGROUNDDOWN a mod PGSIZE = 0"
  by (simp add: word_unat_eq_iff unat_mod PGROUNDDOWN_unat PGSIZE_def)

lemma unat_last:
  fixes va sz :: u32
  assumes "0 < sz" "unat va + unat sz \<le> 2 ^ 32"
  shows "unat (va + sz - 1) = unat va + unat sz - (1 :: nat)"
proof -
  have "unat (sz - 1) = unat sz - 1" using assms(1) by (simp add: unat_minus_one unat_gt_0)
  moreover have "unat (va + (sz - 1)) = unat va + unat (sz - 1)"
    by (rule unat_add_nowrap32) (simp add: \<open>unat (sz - 1) = unat sz - 1\<close>, use assms in \<open>simp add: word_less_nat_alt\<close>)
  ultimately show ?thesis using assms(1) by (simp add: add_diff_eq word_less_nat_alt)
qed

lemma span_pages:
  assumes "0 < sz" "unat va + unat sz \<le> 2 ^ 32" "n = unat (PGROUNDDOWN (va + sz - 1) - PGROUNDDOWN va) div 4096"
  shows "unat (PGROUNDDOWN (va + sz - 1)) = unat (PGROUNDDOWN va) + 4096 * n"
    "unat (PGROUNDDOWN va) + 4096 * Suc n \<le> 2 ^ 32"
    "in_pages (PGROUNDDOWN va) n v \<longleftrightarrow> v \<in> spanned va sz"
proof -
  let ?a = "PGROUNDDOWN va" let ?l = "va + sz - 1"
  have sz: "0 < unat sz" using assms(1) by (simp add: word_less_nat_alt)
  note l = unat_last [OF assms(1,2)]
  have le: "?a \<le> PGROUNDDOWN ?l" unfolding word_le_nat_alt PGROUNDDOWN_unat l using sz by (intro mult_le_mono1 div_le_mono) simp
  then have "unat (PGROUNDDOWN ?l - ?a) = unat (PGROUNDDOWN ?l) - unat ?a" by (simp add: unat_sub)
  then show n: "unat (PGROUNDDOWN ?l) = unat ?a + 4096 * n"
    using le unfolding assms(3) word_le_nat_alt by (auto simp: PGROUNDDOWN_unat le_iff_add algebra_simps)
  have "unat (PGROUNDDOWN ?l) < 2 ^ 32" by (rule order_less_le_trans [OF unsigned_less]) simp
  then show "unat ?a + 4096 * Suc n \<le> 2 ^ 32" using n by (simp add: PGROUNDDOWN_unat)
  have "unat v < unat (PGROUNDDOWN ?l) + 4096 \<longleftrightarrow> PGROUNDDOWN v \<le> PGROUNDDOWN ?l"
    using div_less_iff_less_mult [of 4096 "unat v" "unat ?l div 4096 + 1"]
    by (simp add: word_le_nat_alt PGROUNDDOWN_unat less_Suc_eq_le add.commute)
  then show "in_pages ?a n v \<longleftrightarrow> v \<in> spanned va sz" using n by (simp add: in_pages_def spanned_def ac_simps)
qed

lemma pdx_range_pages:
  assumes "a mod PGSIZE = 0" "unat a + 4096 * Suc n \<le> 2 ^ 32"
  shows "pdx_range a n = PDX ` {v. in_pages a n v}"
proof (intro set_eqI iffI)
  fix x assume "x \<in> pdx_range a n"
  then obtain k where k: "k \<le> n" "x = PDX (a + of_nat k * PGSIZE)" by (auto simp: pdx_range_def)
  have "unat (a + of_nat k * PGSIZE) = unat a + 4096 * k"
    using k(1) assms(2) by (simp add: PGSIZE_def unat_word_ariths unat_of_nat)
  then have "in_pages a n (a + of_nat k * PGSIZE)" using k(1) by (simp add: in_pages_def word_le_nat_alt)
  then show "x \<in> PDX ` {v. in_pages a n v}" using k(2) by blast
next
  fix x assume "x \<in> PDX ` {v. in_pages a n v}"
  then obtain v where v: "in_pages a n v" "x = PDX v" by blast
  obtain j where j: "unat a = 4096 * j" using page_mult [of a] assms(1) by auto
  define k where "k = unat v div 4096 - j"
  have b: "4096 * j \<le> unat v" "unat v < 4096 * j + 4096 * Suc n" using v(1) j by (auto simp: in_pages_def word_le_nat_alt)
  have "unat v div 4096 < j + Suc n" "j \<le> unat v div 4096"
    using b by (simp_all add: div_less_iff_less_mult less_eq_div_iff_mult_less_eq algebra_simps)
  then have k: "k \<le> n" "unat v div 4096 = j + k" by (auto simp: k_def)
  have "unat (PGROUNDDOWN v) = unat a + 4096 * k" using k j by (simp add: PGROUNDDOWN_unat)
  then have "PGROUNDDOWN v = a + of_nat k * PGSIZE"
    using k assms(2) by (simp add: PGSIZE_def word_unat_eq_iff unat_word_ariths unat_of_nat)
  then have "x = PDX (a + of_nat k * PGSIZE)" using v(2) by (metis PDX_PGROUNDDOWN)
  then show "x \<in> pdx_range a n" using k by (auto simp: pdx_range_def)
qed

lemma mappages_span:
  assumes "0 < sz" "unat va + unat sz \<le> 2 ^ 32"
  shows "\<exists>n. mappages d va sz pa perm = mappages_loop d (PGROUNDDOWN va) pa perm n
    \<and> unat (PGROUNDDOWN va) + 4096 * Suc n \<le> 2 ^ 32
    \<and> (\<forall>v. in_pages (PGROUNDDOWN va) n v \<longleftrightarrow> v \<in> spanned va sz)
    \<and> pdx_range (PGROUNDDOWN va) n = PDX ` spanned va sz"
proof -
  define n where "n = unat (PGROUNDDOWN (va + sz - 1) - PGROUNDDOWN va) div 4096"
  note S = span_pages [OF assms n_def]
  have "mappages d va sz pa perm = mappages_loop d (PGROUNDDOWN va) pa perm n"
    by (rule ext) (simp add: mappages_def n_def Let_def)
  then show ?thesis using S(2,3) pdx_range_pages [OF PGROUNDDOWN_aligned S(2)] by auto
qed

text \<open>What \<open>mappages\<close> leaves, over a set \<open>X\<close> of addresses.\<close>

definition mapped :: "lockid set \<Rightarrow> 'x mem_st_scheme \<Rightarrow> u32 list \<Rightarrow> 'x mem_st_scheme \<Rightarrow> u32 list
    \<Rightarrow> u32 \<Rightarrow> u32 set \<Rightarrow> u32 \<Rightarrow> u32 \<Rightarrow> u32 \<Rightarrow> bool" where
  "mapped L s ps t qs d X va pa perm \<longleftrightarrow>
     alloc_inv L t qs \<and> pt_ok (kmem t) d (set qs) \<and> alloc_frame s t
     \<and> length qs + card (PDX ` X - pde_set (kmem s) d) = length ps
     \<and> pde_set (kmem t) d = pde_set (kmem s) d \<union> PDX ` X
     \<and> tables (kmem t) d \<union> set qs = tables (kmem s) d \<union> set ps
     \<and> bytes_kept (insert d (tables (kmem s) d \<union> set ps)) (kmem s) (kmem t)
     \<and> (\<forall>need v. access need \<longrightarrow> mmu_addr (kmem t) d need v
           = (if v \<in> X then linear va pa perm need v else mmu_addr (kmem s) d need v))"

definition unmapped_out :: "lockid set \<Rightarrow> 'x mem_st_scheme \<Rightarrow> u32 list \<Rightarrow> 'x mem_st_scheme \<Rightarrow> u32 \<Rightarrow> u32 set \<Rightarrow> bool" where
  "unmapped_out L s ps t d X \<longleftrightarrow>
     alloc_inv L t [] \<and> pt_ok (kmem t) d {} \<and> alloc_frame s t
     \<and> pde_set (kmem t) d \<subseteq> pde_set (kmem s) d \<union> PDX ` X
     \<and> tables (kmem t) d = tables (kmem s) d \<union> set ps
     \<and> bytes_kept (insert d (tables (kmem s) d \<union> set ps)) (kmem s) (kmem t)
     \<and> (\<forall>need v. access need \<and> v \<notin> X \<longrightarrow> mmu_addr (kmem t) d need v = mmu_addr (kmem s) d need v)"

lemma mappages_in:
  assumes "alloc_inv L s ps" "pt_ok (kmem s) d (set ps)" "0 < sz" "unat va + unat sz \<le> 2 ^ 32"
    and "pa mod PGSIZE = 0" "perm < 4096" "\<forall>v \<in> spanned va sz. mmu_addr (kmem s) d PTE_P v = None"
  shows "if card (PDX ` spanned va sz - pde_set (kmem s) d) \<le> length ps
    then \<exists>t qs. mappages d va sz pa perm s = Ok 0 t \<and> mapped L s ps t qs d (spanned va sz) (PGROUNDDOWN va) pa perm
    else \<exists>t. mappages d va sz pa perm s = Ok (-1) t \<and> unmapped_out L s ps t d (spanned va sz)"
proof -
  obtain n where n: "mappages d va sz pa perm s = mappages_loop d (PGROUNDDOWN va) pa perm n s"
    "unat (PGROUNDDOWN va) + 4096 * Suc n \<le> 2 ^ 32" "\<forall>v. in_pages (PGROUNDDOWN va) n v \<longleftrightarrow> v \<in> spanned va sz"
    "pdx_range (PGROUNDDOWN va) n = PDX ` spanned va sz"
    using mappages_span [OF assms(3,4)] by metis
  have "\<forall>v. in_pages (PGROUNDDOWN va) n v \<longrightarrow> mmu_addr (kmem s) d PTE_P v = None" using assms(7) n(3) by blast
  note R = range_run [OF assms(1,2) PGROUNDDOWN_aligned assms(5,6) n(2) this]
  have "range_mapped L s ps t qs d (PGROUNDDOWN va) pa perm n = mapped L s ps t qs d (spanned va sz) (PGROUNDDOWN va) pa perm"
    "range_failed L s ps t d (PGROUNDDOWN va) n = unmapped_out L s ps t d (spanned va sz)" for t qs
    using n(3) by (simp_all add: range_mapped_def mapped_def range_failed_def unmapped_out_def n(4))
  then show ?thesis using R by (simp add: n(1,4) split: if_splits)
qed

text \<open>
  C17. Mapping a range does what it says and nothing else.  For a well-formed page table disjoint
  from the free pages and a range none of whose pages is mapped, \<open>mappages\<close> returns 0 exactly when
  there is a free page for each page table the range still lacks; then the processor's translation,
  for any kind of access \<open>need\<close>, takes the pages of the range to consecutive frames from \<open>pa\<close> on
  under the permissions \<open>perm\<close>, and every other address translates as before.  Otherwise it returns
  \<open>-1\<close>, with no page left, and no address outside the range translates differently.  It never
  panics.
\<close>

theorem mappages_maps_range:
  assumes "alloc_inv L s ps" and "pt_ok (kmem s) d (set ps)" and "0 < sz" and "unat va + unat sz \<le> 2 ^ 32"
    and "pa mod PGSIZE = 0" and "perm < 4096" and "\<forall>v \<in> spanned va sz. mmu_addr (kmem s) d PTE_P v = None"
  shows "if card (PDX ` spanned va sz - pde_set (kmem s) d) \<le> length ps
    then \<exists>t qs. mappages d va sz pa perm s = Ok 0 t \<and> alloc_inv L t qs \<and> pt_ok (kmem t) d (set qs)
      \<and> (\<forall>need v. access need \<longrightarrow> mmu_addr (kmem t) d need v
           = (if v \<in> spanned va sz then linear (PGROUNDDOWN va) pa perm need v else mmu_addr (kmem s) d need v))
    else \<exists>t. mappages d va sz pa perm s = Ok (-1) t \<and> alloc_inv L t [] \<and> pt_ok (kmem t) d {}
      \<and> (\<forall>need v. access need \<and> v \<notin> spanned va sz \<longrightarrow> mmu_addr (kmem t) d need v = mmu_addr (kmem s) d need v)"
  using mappages_in [OF assms] by (force simp: mapped_def unmapped_out_def split: if_splits)

text \<open>A process with the user pages 0 and 1, and one free page.\<close>

definition demo_free_st :: mem_st where
  "demo_free_st = demo_mem_st\<lparr>kmem := demo_user_mem, freelist := 0x80404000\<rparr>"

lemma ld32_zero: "ld32 a (\<lambda>_. 0) = 0"
  by (simp add: ld32_def word32_def)

lemma demo_pde: "i < 1024 \<Longrightarrow> pde_word demo_user_mem 0x80400000 i = (if i = 0 then 0x401007 else 0)"
proof -
  assume i: "i < 1024"
  have m: "demo_user_mem = st32 (0x80400000 + 4 * 0) 0x401007 (st32 (0x80401000 + 4 * 0) 0x402007 (st32 (0x80401000 + 4 * 1) 0x403007 (\<lambda>_. 0)))"
    by (simp add: demo_user_mem_def)
  show ?thesis
    unfolding pde_word_def m
    using i entry_store [where p = "0x80400000" and q = "0x80400000" and i = i and j = 0] entry_store [where p = "0x80400000" and q = "0x80401000" and i = i and j = 0] entry_store [where p = "0x80400000" and q = "0x80401000" and i = i and j = 1]
    by (simp add: PGSIZE_def ld32_zero)
qed

lemma demo_pt_ok: "pt_ok demo_user_mem 0x80400000 {0x80404000}"
  by (auto simp: pt_ok_def demo_pde table_of_def PTE_PWU_def PTE_P_def PTE_W_def PTE_U_def PGSIZE_def P2V_def
      PTE_ADDR_def KERNBASE_def)

lemma demo_free_inv: "alloc_inv {} demo_free_st [0x80404000]"
proof -
  have "ld32 0x80404000 demo_user_mem = 0"
    by (simp add: demo_user_mem_def ld32_st32_other ld32_zero)
  then show ?thesis
    by (simp add: alloc_inv_def demo_free_st_def demo_mem_st_def con_st.defs mem_st.defs page_ok_def PGSIZE_def V2P_def
        KERNBASE_def PHYSTOP_def)
qed

lemma PDX_unat: "unat (PDX v) = unat v div 4194304"
proof -
  have "unat v < 1024 * 4194304" using unsigned_less [of v] by simp
  then have "unat v div 4194304 < 1024" by (simp add: div_less_iff_less_mult)
  then show ?thesis
    by (simp add: PDX_def mask10 flip: take_bit_eq_mask) (simp add: unsigned_take_bit_eq take_bit_nat_def unat_drop_bit_eq drop_bit_eq_div unat_div)
qed

lemma spanned_unat:
  assumes "0 < sz" "unat va + unat sz \<le> 2 ^ 32" "va mod PGSIZE = 0" "unat sz mod 4096 = 0"
  shows "v \<in> spanned va sz \<longleftrightarrow> unat va \<le> unat v \<and> unat v < unat va + unat sz"
proof -
  define n where "n = unat (PGROUNDDOWN (va + sz - 1) - PGROUNDDOWN va) div 4096"
  note S = span_pages [OF assms(1,2) n_def]
  have va: "PGROUNDDOWN va = va" using page_last [OF assms(3)] by simp
  obtain j where j: "unat va = 4096 * j" using page_mult [of va] assms(3) by auto
  obtain k where k: "unat sz = 4096 * k" using assms(4) by (auto simp: mod_eq_0_iff_dvd elim: dvdE)
  have k0: "0 < k" using assms(1) k by (simp add: word_less_nat_alt)
  have "unat (PGROUNDDOWN (va + sz - 1)) = (4096 * (j + k) - 1) div 4096 * 4096"
    unfolding PGROUNDDOWN_unat unat_last [OF assms(1,2)] j k by (simp add: distrib_left)
  moreover have "(4096 * (j + k) - 1) div 4096 = j + k - 1" using k0 by (intro div_nat_eqI) auto
  ultimately have "4096 * j + 4096 * n = 4096 * (j + k - 1)" using S(1) va j by simp
  then have "n = k - 1" using k0 by simp
  then show ?thesis using S(3) [of v] k0 by (simp add: in_pages_def word_le_nat_alt va k)
qed

theorem mappages_maps_range_witness:
  "\<exists>t. mappages 0x80400000 0x800000 0x2000 0x405000 6 demo_free_st = Ok 0 t
    \<and> mmu_addr (kmem t) 0x80400000 PTE_P 0x801123 = Some 0x80406123
    \<and> mmu_addr (kmem t) 0x80400000 PTE_P 0x802000 = None"
proof -
  let ?X = "spanned 0x800000 0x2000"
  have m: "kmem demo_free_st = demo_user_mem" by (simp add: demo_free_st_def)
  have X: "v \<in> ?X \<longleftrightarrow> 0x800000 \<le> unat v \<and> unat v < 0x802000" for v
    using spanned_unat [of "0x2000" "0x800000" v] by (simp add: PGSIZE_def)
  have P: "PDX v = 2" if "0x800000 \<le> unat v" "unat v < 0xC00000" for v
  proof -
    have "unat v div 4194304 = 2" using that by (intro div_nat_eqI) auto
    then show ?thesis by (simp add: word_unat_eq_iff PDX_unat)
  qed
  have un: "mmu_addr demo_user_mem 0x80400000 PTE_P v = None" if "0x800000 \<le> unat v" "unat v < 0xC00000" for v
    by (simp add: mmu_addr_tables P [OF that] demo_pde Let_def) (simp add: PTE_P_def)
  have "PDX ` ?X - pde_set demo_user_mem 0x80400000 \<subseteq> {2}" using P by (auto simp: X)
  then have c: "card (PDX ` ?X - pde_set (kmem demo_free_st) 0x80400000) \<le> 1" unfolding m by (metis card_mono card_1_singleton_iff One_nat_def finite.emptyI finite.insertI)
  have "if card (PDX ` ?X - pde_set (kmem demo_free_st) 0x80400000) \<le> length [0x80404000 :: u32]
    then \<exists>t qs. mappages 0x80400000 0x800000 0x2000 0x405000 6 demo_free_st = Ok 0 t \<and> alloc_inv {} t qs \<and> pt_ok (kmem t) 0x80400000 (set qs)
      \<and> (\<forall>need v. access need \<longrightarrow> mmu_addr (kmem t) 0x80400000 need v
           = (if v \<in> ?X then linear (PGROUNDDOWN 0x800000) 0x405000 6 need v else mmu_addr (kmem demo_free_st) 0x80400000 need v))
    else \<exists>t. mappages 0x80400000 0x800000 0x2000 0x405000 6 demo_free_st = Ok (-1) t \<and> alloc_inv {} t [] \<and> pt_ok (kmem t) 0x80400000 {}
      \<and> (\<forall>need v. access need \<and> v \<notin> ?X \<longrightarrow> mmu_addr (kmem t) 0x80400000 need v = mmu_addr (kmem demo_free_st) 0x80400000 need v)"
    by (rule mappages_maps_range) (use demo_free_inv demo_pt_ok un in \<open>auto simp: m X PGSIZE_def\<close>)
  then obtain t where t: "mappages 0x80400000 0x800000 0x2000 0x405000 6 demo_free_st = Ok 0 t"
    and v: "\<And>v. mmu_addr (kmem t) 0x80400000 PTE_P v
        = (if v \<in> ?X then linear (PGROUNDDOWN 0x800000) 0x405000 6 PTE_P v else mmu_addr demo_user_mem 0x80400000 PTE_P v)"
    using c access_P unfolding m by auto
  have "mmu_addr (kmem t) 0x80400000 PTE_P 0x801123 = Some 0x80406123"
    unfolding v by (simp add: X linear_def page_bits PTE_P_def P2V_def KERNBASE_def)
  moreover have "mmu_addr (kmem t) 0x80400000 PTE_P 0x802000 = None" unfolding v by (simp add: X un)
  ultimately show ?thesis using t by blast
qed

end
