(* ===== verification/Kernel3.thy ===== *)
theory Kernel3
  imports Procs Kvm
begin

text \<open>
  The third kernel (\<open>xv6-public_3\<close>): the memory printer.  Ctrl-I on the console lists, for every
  process that sleeps, runs or is ready to run, its pid and the number of its pages in memory
  (\<open>collect_proc_pages\<close> in \<open>proc.c\<close>, \<open>print_num\<close> and the case of \<open>consoleintr\<close> in \<open>console.c\<close>,
  \<open>countphysicalpages\<close> in \<open>vm.c\<close>, here \<open>Vm.countphysicalpages\<close>).
\<close>

section \<open>Collecting and printing\<close>

record proc_page_info =
  pi_pid :: int
  pi_pages :: int

record v3_st = run_st +
  pp_info :: "proc_page_info list"
  pp_count :: nat

text \<open>Storing the entry \<open>pp_info[pp_count]\<close> (the array has \<open>NPROC\<close> entries).\<close>

definition put_info :: "int \<Rightarrow> int \<Rightarrow> (unit, 'x v3_st_scheme) kern" where
  "put_info pid n =
     kbind (kget (\<lambda>s. pp_count s < length (pp_info s))) (\<lambda>b.
     if b then
       kmod (\<lambda>s. s\<lparr>pp_info := (pp_info s)[pp_count s := \<lparr>pi_pid = pid, pi_pages = n\<rparr>], pp_count := pp_count s + 1\<rparr>)
     else kundef)"

text \<open>What the loop of \<open>collect_proc_pages\<close> does for process \<open>i\<close>.\<close>

definition collect_one :: "nat \<Rightarrow> (unit, 'x v3_st_scheme) kern" where
  "collect_one i =
     kbind (kget (\<lambda>s. ptable s i)) (\<lambda>p.
     kwhen (p_state p \<noteq> UNUSED \<and> 1 \<le> p_pid p \<and> (p_state p = SLEEPING \<or> p_state p = RUNNING \<or> p_state p = RUNNABLE))
       (kbind (countphysicalpages (p_pgdir p)) (\<lambda>n. put_info (p_pid p) n)))"

definition collect_proc_pages :: "(unit, 'x v3_st_scheme) kern" where
  "collect_proc_pages =
     kseq (kmod (\<lambda>s. s\<lparr>pp_count := 0\<rparr>)) (
     kseq (acquire L_ptable) (
     kseq (kfor [0..<NPROC] collect_one)
          (release L_ptable)))"

text \<open>The loop of \<open>print_num\<close> computes the digits, the last one first; for a negative number C's
  \<open>%\<close> gives one negative digit and the loop ends.\<close>

definition num_digits :: "int \<Rightarrow> int list" where
  "num_digits n = (if n < 0 then [- ((- n) mod 10)] else map int (digits_of 10 (nat n)))"

definition print_num :: "int \<Rightarrow> (unit, 'x con_st_scheme) kern" where
  "print_num n = kfor (rev (num_digits n)) (\<lambda>d. consputc (48 + d))"

definition print_info :: "proc_page_info \<Rightarrow> (unit, 'x con_st_scheme) kern" where
  "print_info i =
     kseq (print_num (pi_pid i)) (
     kseq (consputc 32) (
     kseq (print_num (pi_pages i))
          (consputc 10)))"

text \<open>One character: Ctrl-I, and the cases this kernel shares with \<open>xv6-public_1\<close>.\<close>

definition consoleintr3_char :: "int \<Rightarrow> (bool, 'x v3_st_scheme) kern" where
  "consoleintr3_char c =
     (if c = ctrl CHR ''I'' then
        kseq (release L_cons) (
        kseq collect_proc_pages (
        kseq (consputc 10) (
        kseq (consputs (str (''Ctrl+I detected'' @ [CHR 0x0A]))) (
        kbind (kget pp_count) (\<lambda>n.
        kseq (kfor [0..<n] (\<lambda>i.
          kbind (kget (\<lambda>s. pp_info s ! i)) (\<lambda>p. print_info p))) (
        kseq (acquire L_cons) (kret False)))))))
      else consoleintr_char c)"

fun consoleintr3_loop :: "int list \<Rightarrow> bool \<Rightarrow> (bool, 'x v3_st_scheme) kern" where
  "consoleintr3_loop [] dump = kret dump"
| "consoleintr3_loop (c # cs) dump =
     (if c < 0 then kret dump
      else kbind (consoleintr3_char c) (\<lambda>d. consoleintr3_loop cs (dump \<or> d)))"

definition consoleintr3 :: "(nat \<Rightarrow> u32 list) \<Rightarrow> int list \<Rightarrow> (unit, 'x v3_st_scheme) kern" where
  "consoleintr3 callerpcs codes =
     kseq (acquire L_cons) (
     kbind (consoleintr3_loop codes False) (\<lambda>dump.
     kseq (release L_cons)
          (kwhen dump (procdump callerpcs))))"

section \<open>Which characters are printed\<close>

lemma uartputc_out: "\<exists>t. uartputc c s = Ok () t \<and> printed s t \<and> (on_screen s \<longrightarrow> on_screen t) \<and> uart_on t = uart_on s
    \<and> uart_out t = uart_out s @ (if uart_on s then [word_of_int c] else [])"
proof -
  have "s\<lparr>uart_out := u\<rparr> = s\<lparr>crt := crt s, crt_pos := crt_pos s, uart_out := u\<rparr>" for u by simp
  then have "printed s (s\<lparr>uart_out := u\<rparr>)" for u unfolding printed_def by blast
  then show ?thesis by (auto simp: uartputc_def on_screen_def)
qed

text \<open>The state after text was printed: the text went out on the serial line.\<close>

definition wrote :: "u8 list \<Rightarrow> 'x con_st_scheme \<Rightarrow> 'x con_st_scheme \<Rightarrow> bool" where
  "wrote cs s t \<longleftrightarrow> printed s t \<and> on_screen t \<and> uart_out t = uart_out s @ (if uart_on s then cs else [])"

lemma wrote_on: "printed s t \<Longrightarrow> uart_on t = uart_on s"
  by (auto simp: printed_def)

lemma shown_wrote_trans: "wrote cs s t \<Longrightarrow> wrote ds t u \<Longrightarrow> wrote (cs @ ds) s u"
  using wrote_on [of s t] by (auto simp: wrote_def intro: printed_trans)

lemma wrote_nil: "on_screen s \<Longrightarrow> wrote [] s s"
  by (simp add: wrote_def)

text \<open>Programs that print a fixed text.\<close>

definition prints :: "u8 list \<Rightarrow> (unit, 'x con_st_scheme) kern \<Rightarrow> bool" where
  "prints cs f \<longleftrightarrow> (\<forall>s. on_screen s \<longrightarrow> (\<exists>t. f s = Ok () t \<and> wrote cs s t))"

lemma prints_consputc:
  assumes "c \<noteq> BACKSPACE"
  shows "prints [word_of_int c] (consputc c)"
  unfolding prints_def
proof (intro allI impI)
  fix s :: "'x con_st_scheme" assume s: "on_screen s"
  then have p: "\<not> con_panicked s" by (simp add: on_screen_def)
  obtain e where e: "uartputc c s = Ok () e" "printed s e" "on_screen e"
    "uart_out e = uart_out s @ (if uart_on s then [word_of_int c] else [])" using uartputc_out s by blast
  obtain u where u: "cgaputc c e = Ok () u" "printed e u" "on_screen u" "uart_out u = uart_out e" using cgaputc_in e(3) by blast
  then show "\<exists>t. consputc c s = Ok () t \<and> wrote [word_of_int c] s t"
    using p e assms by (auto simp: consputc_def kseq_def kbind_def wrote_def intro: printed_trans)
qed

lemma prints_kseq:
  fixes f g :: "(unit, 'x con_st_scheme) kern"
  assumes "prints cs f" "prints ds g"
  shows "prints (cs @ ds) (kseq f g)"
  using assms
  unfolding prints_def
proof (intro allI impI)
  fix s :: "'x con_st_scheme"
  assume f: "\<forall>s :: 'x con_st_scheme. on_screen s \<longrightarrow> (\<exists>t. f s = Ok () t \<and> wrote cs s t)"
    and g: "\<forall>s :: 'x con_st_scheme. on_screen s \<longrightarrow> (\<exists>t. g s = Ok () t \<and> wrote ds s t)" and s: "on_screen s"
  obtain t where t: "f s = Ok () t" "wrote cs s t" using f s by blast
  then have "on_screen t" by (simp add: wrote_def)
  then obtain u where u: "g t = Ok () u" "wrote ds t u" using g by blast
  show "\<exists>t. kseq f g s = Ok () t \<and> wrote (cs @ ds) s t"
    using t(1) u(1) shown_wrote_trans [OF t(2) u(2)] by (simp add: kseq_def kbind_def)
qed

lemma prints_kfor:
  "(\<And>x. x \<in> set xs \<Longrightarrow> prints (h x) (f x)) \<Longrightarrow> prints (concat (map h xs)) (kfor xs f)"
proof (induction xs)
  case Nil
  then show ?case by (simp add: prints_def wrote_nil)
next
  case (Cons x xs)
  then show ?case using prints_kseq [of "h x" "f x" "concat (map h xs)" "kfor xs f"] by simp
qed

lemma prints_consputs: "prints cs (consputs cs :: (unit, 'x con_st_scheme) kern)"
proof -
  have "prints [c] (consputc (uint c) :: (unit, 'x con_st_scheme) kern)" for c :: u8
  proof -
    have "uint c < 256" using uint_lt2p [of c] by simp
    then show ?thesis using prints_consputc [of "uint c"] by (simp add: BACKSPACE_def)
  qed
  then show ?thesis using prints_kfor [of cs "\<lambda>c. [c]" "\<lambda>c. consputc (uint c) :: (unit, 'x con_st_scheme) kern"] by (simp add: consputs_def concat_map_singleton)
qed

lemma kfor_map: "kfor (map g xs) f = kfor xs (\<lambda>x. f (g x))"
  by (induction xs) simp_all

text \<open>\<open>print_num\<close> prints what \<open>printint\<close> prints in base 10.\<close>

definition decimal :: "int \<Rightarrow> u8 list" where
  "decimal n = int_text hex_digits n 10 True"

lemma prints_print_num:
  assumes "0 \<le> n" "n < 2 ^ 31"
  shows "prints (decimal n) (print_num n :: (unit, 'x con_st_scheme) kern)"
proof -
  have d: "\<forall>d \<in> set (rev (digits_of 10 (nat n))). d < 10" using digits_of_less [of 10] by auto
  have p: "prints [of_nat (48 + d)] (consputc (48 + int d) :: (unit, 'x con_st_scheme) kern)" if "d < 10" for d
    using prints_consputc [of "48 + int d"] that by (simp add: BACKSPACE_def)
  have "decimal n = concat (map (\<lambda>d. [of_nat (48 + d)]) (rev (digits_of 10 (nat n))))"
    using assms d by (simp add: decimal_def int_text_def Let_def rev_map hex_digit_10 concat_map_singleton)
  moreover have "print_num n = (kfor (rev (digits_of 10 (nat n))) (\<lambda>d. consputc (48 + int d)) :: (unit, 'x con_st_scheme) kern)"
    using assms by (simp add: print_num_def num_digits_def rev_map kfor_map)
  ultimately show ?thesis using prints_kfor [of "rev (digits_of 10 (nat n))" "\<lambda>d. [of_nat (48 + d)]" "\<lambda>d. consputc (48 + int d) :: (unit, 'x con_st_scheme) kern"] p d by simp
qed

section \<open>What is counted\<close>

text \<open>The pages below \<open>KERNBASE\<close> that the processor translates through the directory \<open>d\<close>.\<close>

definition user_pages :: "mem \<Rightarrow> u32 \<Rightarrow> u32 set" where
  "user_pages m d = {v. v mod PGSIZE = 0 \<and> v < KERNBASE \<and> mmu_addr m d PTE_P v \<noteq> None}"

lemma PTX_unat: "unat (PTX v) = unat v div 4096 mod 1024"
proof -
  have "unat (PTX v) = unat (drop_bit 12 v) mod 1024"
    by (simp add: PTX_def mask10 flip: take_bit_eq_mask) (simp add: unsigned_take_bit_eq take_bit_nat_def)
  also have "unat (drop_bit 12 v) = unat v div 4096" by (simp only: unat_drop_bit_eq) (simp add: drop_bit_eq_div)
  finally show ?thesis .
qed

lemma present_flag: "e AND PTE_P = PTE_P \<longleftrightarrow> e AND PTE_P \<noteq> 0"
  unfolding pte_flag_bits(1) by (auto simp: PTE_P_def and_one_eq split: if_splits)

definition present_at :: "mem \<Rightarrow> u32 \<Rightarrow> nat \<Rightarrow> nat \<Rightarrow> bool" where
  "present_at m d i j \<longleftrightarrow> ld32 (d + 4 * of_nat i) m AND PTE_P \<noteq> 0
     \<and> ld32 (P2V (PTE_ADDR (ld32 (d + 4 * of_nat i) m)) + 4 * of_nat j) m AND PTE_P \<noteq> 0"

lemma aligned_page:
  assumes "(v :: u32) mod PGSIZE = 0"
  shows "PGROUNDDOWN v = v"
proof -
  obtain k where "unat v = 4096 * k" using page_mult [OF assms] by blast
  then show ?thesis by (simp add: word_unat_eq_iff PGROUNDDOWN_unat)
qed

lemma user_pages_indices:
  "card (user_pages m d) = card (SIGMA i:{..<512}. {j. j < 1024 \<and> present_at m d i j})"
proof (rule bij_betw_same_card [of "\<lambda>v. (unat (PDX v), unat (PTX v))"], unfold bij_betw_def, intro conjI)
  show "inj_on (\<lambda>v. (unat (PDX v), unat (PTX v))) (user_pages m d)"
  proof (rule inj_onI)
    fix u v assume "u \<in> user_pages m d" "v \<in> user_pages m d" "(unat (PDX u), unat (PTX u)) = (unat (PDX v), unat (PTX v))"
    then show "u = v" using same_page_iff [of u v] by (simp add: user_pages_def aligned_page flip: word_unat_eq_iff)
  qed
  show "(\<lambda>v. (unat (PDX v), unat (PTX v))) ` user_pages m d = (SIGMA i:{..<512}. {j. j < 1024 \<and> present_at m d i j})"
  proof (intro set_eqI iffI)
    fix x assume "x \<in> (\<lambda>v. (unat (PDX v), unat (PTX v))) ` user_pages m d"
    then obtain v where v: "x = (unat (PDX v), unat (PTX v))" "v \<in> user_pages m d" by blast
    then have "unat v < 2147483648" by (simp add: user_pages_def KERNBASE_def word_less_nat_alt)
    then have "unat (PDX v) < 512" by (simp add: PDX_unat div_less_iff_less_mult)
    then show "x \<in> (SIGMA i:{..<512}. {j. j < 1024 \<and> present_at m d i j})"
      using v PTX_less [of v] by (auto simp: user_pages_def present_at_def mmu_addr_def Let_def present_flag word_less_nat_alt split: if_splits)
  next
    fix x assume "x \<in> (SIGMA i:{..<512}. {j. j < 1024 \<and> present_at m d i j})"
    then obtain i j where x: "x = (i, j)" "i < 512" "j < 1024" "present_at m d i j" by auto
    define v where "v = (of_nat (4194304 * i + 4096 * j) :: u32)"
    have lt: "4194304 * i + 4096 * j < 2147483648" using x(2,3) by simp
    then have u: "unat v = 4194304 * i + 4096 * j" unfolding v_def by (intro unat_of_nat_lt) simp
    have m: "(4194304 * i + 4096 * j) div 4096 = 1024 * i + j" by simp
    have n: "unat (PDX v) = i" "unat (PTX v) = j" using x(3) unfolding PDX_unat PTX_unat u by simp_all
    have "of_nat (unat (PDX v)) = PDX v" "of_nat (unat (PTX v)) = PTX v" by simp_all
    then have w: "PDX v = of_nat i" "PTX v = of_nat j" by (simp_all add: n)
    have "v mod PGSIZE = 0" by (simp add: word_unat_eq_iff unat_mod PGSIZE_def u)
    moreover have "v < KERNBASE" using lt u by (simp add: word_less_nat_alt KERNBASE_def)
    ultimately have "v \<in> user_pages m d"
      using x(4) by (simp add: user_pages_def mmu_addr_def present_at_def present_flag w)
    then show "x \<in> (\<lambda>v. (unat (PDX v), unat (PTX v))) ` user_pages m d" using n x(1) by force
  qed
qed

lemma countphysicalpages_counts: "countphysicalpages d s = Ok (int (card (user_pages (kmem s) d))) s"
proof -
  have c: "pgtab_count m t = card {j. j < 1024 \<and> ld32 (t + 4 * of_nat j) m AND PTE_P \<noteq> 0}" for m t
    unfolding pgtab_count_def NPTENTRIES_def length_filter_conv_card by (rule arg_cong [where f = card]) auto
  let ?m = "kmem s"
  have i: "(let e = ld32 (d + 4 * of_nat i) ?m in if e AND PTE_P \<noteq> 0 then pgtab_count ?m (P2V (PTE_ADDR e)) else 0)
    = card {j. j < 1024 \<and> present_at ?m d i j}" for i
    unfolding c present_at_def Let_def by simp
  have "sum_list (map (\<lambda>i. card {j. j < 1024 \<and> present_at ?m d i j}) [0..<512]) = (\<Sum>i<512. card {j. j < 1024 \<and> present_at ?m d i j})"
    unfolding interv_sum_list_conv_sum_set_nat set_upt atLeast0LessThan by (rule refl)
  also have "\<dots> = card (SIGMA i:{..<512}. {j. j < 1024 \<and> present_at ?m d i j})" by (rule card_SigmaI [symmetric]) simp_all
  finally show ?thesis unfolding countphysicalpages_def kget_def i user_pages_indices by (simp only:)
qed

lemma user_pages_few: "card (user_pages m d) \<le> 524288"
proof -
  have "card (SIGMA i:{..<512}. {j. j < 1024 \<and> present_at m d i j}) \<le> card ({..<512 :: nat} \<times> {..<1024 :: nat})"
    by (rule card_mono) auto
  then show ?thesis by (simp add: user_pages_indices)
qed

section \<open>The list of processes\<close>

definition listed :: "(nat \<Rightarrow> proc) \<Rightarrow> nat \<Rightarrow> bool" where
  "listed pt i \<longleftrightarrow> 1 \<le> p_pid (pt i) \<and> p_state (pt i) \<in> {SLEEPING, RUNNING, RUNNABLE}"

definition page_info :: "mem \<Rightarrow> (nat \<Rightarrow> proc) \<Rightarrow> nat \<Rightarrow> proc_page_info" where
  "page_info m pt i = \<lparr>pi_pid = p_pid (pt i), pi_pages = int (card (user_pages m (p_pgdir (pt i))))\<rparr>"

text \<open>The line Ctrl-I prints for process \<open>i\<close>.\<close>

definition info_line :: "mem \<Rightarrow> (nat \<Rightarrow> proc) \<Rightarrow> nat \<Rightarrow> u8 list" where
  "info_line m pt i = decimal (p_pid (pt i)) @ [32] @ decimal (int (card (user_pages m (p_pgdir (pt i))))) @ [10]"

lemma collect_one_listed:
  assumes "listed (ptable s) i" "pp_count s < length (pp_info s)"
  shows "collect_one i s = Ok () (s\<lparr>pp_info := (pp_info s)[pp_count s := page_info (kmem s) (ptable s) i], pp_count := pp_count s + 1\<rparr>)"
  using assms by (auto simp: collect_one_def listed_def countphysicalpages_counts put_info_def kbind_def page_info_def)

lemma collect_one_other: "\<not> listed (ptable s) i \<Longrightarrow> collect_one i s = Ok () s"
  by (auto simp: collect_one_def listed_def kbind_def)

lemma collect_loop:
  assumes "pp_count s + length is \<le> length (pp_info s)" "take (pp_count s) (pp_info s) = xs"
  shows "\<exists>I n. kfor is collect_one s = Ok () (s\<lparr>pp_info := I, pp_count := n\<rparr>)
     \<and> take n I = xs @ map (page_info (kmem s) (ptable s)) (filter (listed (ptable s)) is) \<and> length I = length (pp_info s) \<and> n \<le> length I"
  using assms
proof (induction "is" arbitrary: s xs)
  case Nil
  have "s = s\<lparr>pp_info := pp_info s, pp_count := pp_count s\<rparr>" by simp
  then show ?case using Nil by (intro exI [of _ "pp_info s"] exI [of _ "pp_count s"]) simp
next
  case (Cons i "is")
  show ?case
  proof (cases "listed (ptable s) i")
    case True
    define t where "t = s\<lparr>pp_info := (pp_info s)[pp_count s := page_info (kmem s) (ptable s) i], pp_count := pp_count s + 1\<rparr>"
    have b: "collect_one i s = Ok () t" using collect_one_listed [OF True] Cons.prems(1) by (simp add: t_def)
    have "take (pp_count t) (pp_info t) = xs @ [page_info (kmem s) (ptable s) i]"
      using Cons.prems by (simp add: t_def take_Suc_conv_app_nth)
    moreover have "pp_count t + length is \<le> length (pp_info t)" using Cons.prems(1) by (simp add: t_def)
    ultimately obtain I n where "kfor is collect_one t = Ok () (t\<lparr>pp_info := I, pp_count := n\<rparr>)"
      "take n I = (xs @ [page_info (kmem s) (ptable s) i]) @ map (page_info (kmem t) (ptable t)) (filter (listed (ptable t)) is)"
      "length I = length (pp_info t)" "n \<le> length I"
      using Cons.IH by blast
    then show ?thesis using b True by (intro exI [of _ I] exI [of _ n]) (simp add: kseq_def kbind_def t_def)
  next
    case False
    have "pp_count s + length is \<le> length (pp_info s)" using Cons.prems(1) by simp
    from Cons.IH [OF this Cons.prems(2)] collect_one_other [OF False] False show ?thesis by (simp add: kseq_def kbind_def)
  qed
qed

lemma v3_frame:
  assumes "cpu_frame s (t :: 'x v3_st_scheme)"
  shows "pp_info t = pp_info s" "pp_count t = pp_count s" "kmem t = kmem s" "ptable t = ptable s" "uart_on t = uart_on s"
    "uart_out t = uart_out s" "on_screen t = on_screen s"
  using assms by (cases s, cases t, simp add: cpu_frame_def on_screen_def)+

lemma info_cur:
  "found (s\<lparr>pp_info := I, pp_count := n\<rparr>) = found s" "cur (s\<lparr>pp_info := I, pp_count := n\<rparr>) = cur s"
  "found (s\<lparr>pp_count := n\<rparr>) = found s" "cur (s\<lparr>pp_count := n\<rparr>) = cur s"
  "found (s\<lparr>pp_info := I\<rparr>) = found s" "cur (s\<lparr>pp_info := I\<rparr>) = cur s"
  by (simp_all add: found_def cur_def split: option.split)

lemma info_frame:
  assumes "cpu_frame (s\<lparr>pp_count := m\<rparr>) a"
  shows "cpu_frame (s\<lparr>pp_info := I, pp_count := n\<rparr>) (a\<lparr>pp_info := I, pp_count := n\<rparr>)"
proof -
  have "cpu_state.more (a\<lparr>pp_info := I, pp_count := n\<rparr>) = cpu_state.more (s\<lparr>pp_info := I, pp_count := n\<rparr>)"
    using assms by (cases s, cases a) (simp add: cpu_frame_def)
  then show ?thesis using assms by (simp add: cpu_frame_def info_cur)
qed

text \<open>Everything but the processor's locks and the two variables of the printer.\<close>

definition v3_rest :: "'x v3_st_scheme \<Rightarrow> 'x v3_st_scheme \<Rightarrow> bool" where
  "v3_rest s t \<longleftrightarrow> (\<exists>I n. cpu_frame (s\<lparr>pp_info := I, pp_count := n\<rparr>) t)"

lemma collect_in:
  assumes "thread_in {} s" "length (pp_info s) = NPROC"
  shows "\<exists>t. collect_proc_pages s = Ok () t \<and> thread_in {} t \<and> v3_rest s t \<and> length (pp_info t) = NPROC
    \<and> pp_count t \<le> NPROC
    \<and> take (pp_count t) (pp_info t) = map (page_info (kmem s) (ptable s)) (filter (listed (ptable s)) [0..<NPROC])"
proof -
  let ?s = "s\<lparr>pp_count := 0\<rparr>"
  have th: "thread_in {} ?s" using assms(1) by (simp add: thread_in_def found_def)
  obtain a where a: "acquire L_ptable ?s = Ok () a" "thread_in {L_ptable} a" "cpu_frame ?s a"
    using acquire_frame [OF th, of L_ptable] by auto
  note A = v3_frame [OF a(3)]
  obtain I n where l: "kfor [0..<NPROC] collect_one a = Ok () (a\<lparr>pp_info := I, pp_count := n\<rparr>)"
     "take n I = [] @ map (page_info (kmem a) (ptable a)) (filter (listed (ptable a)) [0..<NPROC])" "length I = length (pp_info a)" "n \<le> length I"
    using collect_loop [of a "[0..<NPROC]" "[]"] A assms(2) by auto
  let ?b = "a\<lparr>pp_info := I, pp_count := n\<rparr>"
  have "thread_in {L_ptable} ?b" using a(2) by (simp add: thread_in_def found_def)
  then obtain t where t: "release L_ptable ?b = Ok () t" "thread_in {} t" "cpu_frame ?b t"
    using release_frame [of "{L_ptable}" ?b L_ptable] by auto
  note T = v3_frame [OF t(3)]
  have "cpu_frame (s\<lparr>pp_info := I, pp_count := n\<rparr>) ?b"
    by (rule info_frame [OF a(3)])
  then have "cpu_frame (s\<lparr>pp_info := I, pp_count := n\<rparr>) t" using t(3) by (simp add: cpu_frame_def)
  then have "v3_rest s t" unfolding v3_rest_def by blast
  then show ?thesis using a(1) l t(1,2) T A assms(2) by (intro exI [of _ t]) (simp add: collect_proc_pages_def kseq_def kbind_def)
qed

section \<open>Ctrl-I\<close>

text \<open>What the console and the memory keep.\<close>

definition kept :: "'x v3_st_scheme \<Rightarrow> 'x v3_st_scheme \<Rightarrow> bool" where
  "kept s t \<longleftrightarrow> con_buf t = con_buf s \<and> con_r t = con_r s \<and> con_w t = con_w s \<and> con_e t = con_e s
     \<and> ptable t = ptable s \<and> kmem t = kmem s \<and> uart_on t = uart_on s"

lemma shown_kept_trans: "kept s t \<Longrightarrow> kept t u \<Longrightarrow> kept s u"
  by (simp add: kept_def)

lemma kept_cpu: "cpu_frame s t \<Longrightarrow> kept s t"
  by (cases s, cases t, simp add: cpu_frame_def kept_def)

lemma kept_printed: "printed s (t :: 'x v3_st_scheme) \<Longrightarrow> kept s t \<and> pp_info t = pp_info s \<and> pp_count t = pp_count s"
  by (auto simp: printed_def kept_def)

lemma kept_rest: "v3_rest s t \<Longrightarrow> kept s t \<and> on_screen t = on_screen s \<and> uart_out t = uart_out s"
  by (cases s, cases t, auto simp: v3_rest_def cpu_frame_def kept_def on_screen_def)

lemma kept_line: "kept s t \<Longrightarrow> con_inv t = con_inv s \<and> con_abs t = con_abs s"
  unfolding kept_def using con_same [of t s] by blast

lemma prints_info:
  assumes "0 \<le> pi_pid i" "pi_pid i < 2 ^ 31" "0 \<le> pi_pages i" "pi_pages i < 2 ^ 31"
  shows "prints (decimal (pi_pid i) @ [32] @ decimal (pi_pages i) @ [10]) (print_info i :: (unit, 'x con_st_scheme) kern)"
proof -
  have "prints [32] (consputc 32 :: (unit, 'x con_st_scheme) kern)" "prints [10] (consputc 10 :: (unit, 'x con_st_scheme) kern)"
    using prints_consputc [of 32] prints_consputc [of 10] by (simp_all add: BACKSPACE_def)
  then show ?thesis unfolding print_info_def using assms by (intro prints_kseq prints_print_num) simp_all
qed

text \<open>What Ctrl-I prints.\<close>

definition report :: "mem \<Rightarrow> (nat \<Rightarrow> proc) \<Rightarrow> u8 list" where
  "report m pt = [10] @ str (''Ctrl+I detected'' @ [CHR 0x0A]) @ concat (map (info_line m pt) (filter (listed pt) [0..<NPROC]))"

definition pids_ok :: "(nat \<Rightarrow> proc) \<Rightarrow> bool" where
  "pids_ok pt \<longleftrightarrow> (\<forall>i < NPROC. p_pid (pt i) < 2 ^ 31)"

lemma prints_report:
  fixes s :: "'x v3_st_scheme"
  assumes "take (pp_count s) (pp_info s) = map (page_info m pt) (filter (listed pt) [0..<NPROC])" "pp_count s \<le> length (pp_info s)"
    and "pids_ok pt" and "on_screen s"
  shows "\<exists>t. kseq (consputc 10) (kseq (consputs (str (''Ctrl+I detected'' @ [CHR 0x0A]))) (kbind (kget pp_count) (\<lambda>n.
      kfor [0..<n] (\<lambda>i. kbind (kget (\<lambda>s. pp_info s ! i)) (\<lambda>p. print_info p))))) s = Ok () t \<and> wrote (report m pt) s t"
proof -
  let ?xs = "take (pp_count s) (pp_info s)"
  have info: "prints (decimal (pi_pid p) @ [32] @ decimal (pi_pages p) @ [10]) (print_info p :: (unit, 'x v3_st_scheme) kern)"
    if p: "p \<in> set ?xs" for p
  proof -
    obtain i where i: "p = page_info m pt i" "listed pt i" "i < NPROC" using p assms(1) by auto
    have "int (card (user_pages m (p_pgdir (pt i)))) < 2 ^ 31" using user_pages_few [of m "p_pgdir (pt i)"] by simp
    then show ?thesis using i assms(3) by (intro prints_info) (simp_all add: page_info_def listed_def pids_ok_def)
  qed
  have "prints [10] (consputc 10 :: (unit, 'x v3_st_scheme) kern)"
    using prints_consputc [of 10] by (simp add: BACKSPACE_def)
  then have "prints ([10] @ str (''Ctrl+I detected'' @ [CHR 0x0A]))
      (kseq (consputc 10) (consputs (str (''Ctrl+I detected'' @ [CHR 0x0A]))) :: (unit, 'x v3_st_scheme) kern)"
    by (rule prints_kseq [OF _ prints_consputs])
  then obtain a where a: "kseq (consputc 10) (consputs (str (''Ctrl+I detected'' @ [CHR 0x0A]))) s = Ok () a"
    "wrote ([10] @ str (''Ctrl+I detected'' @ [CHR 0x0A])) s a" using assms(4) unfolding prints_def by blast
  have A: "pp_info a = pp_info s" "pp_count a = pp_count s" "on_screen a" using a(2) kept_printed [of s a] by (auto simp: wrote_def)
  have loop: "kfor is (\<lambda>i. kbind (kget (\<lambda>s. pp_info s ! i)) (\<lambda>p. print_info p)) b
      = kfor (map (\<lambda>i. pp_info b ! i) is) print_info b"
    if "\<forall>i \<in> set is. pp_info b ! i \<in> set ?xs" "on_screen b" for "is" and b :: "'x v3_st_scheme"
    using that
  proof (induction "is" arbitrary: b)
    case (Cons i "is")
    obtain c where c: "print_info (pp_info b ! i) b = Ok () c" "printed b c" "on_screen c"
      using info [of "pp_info b ! i"] Cons.prems unfolding prints_def wrote_def by force
    have "pp_info c = pp_info b" using kept_printed [OF c(2)] by simp
    then show ?case using Cons.IH [of c] Cons.prems c by (simp add: kseq_def kbind_def)
  qed simp
  have m: "map (\<lambda>i. pp_info a ! i) [0..<pp_count a] = ?xs" using A assms(2) by (intro nth_equalityI) simp_all
  have "\<forall>i \<in> set [0..<pp_count a]. pp_info a ! i \<in> set ?xs" using m by (metis imageI list.set_map)
  from loop [OF this A(3)] m have l: "kfor [0..<pp_count a] (\<lambda>i. kbind (kget (\<lambda>s. pp_info s ! i)) (\<lambda>p. print_info p)) a = kfor ?xs print_info a"
    by simp
  have "prints (concat (map (\<lambda>p. decimal (pi_pid p) @ [32] @ decimal (pi_pages p) @ [10]) ?xs)) (kfor ?xs print_info :: (unit, 'x v3_st_scheme) kern)"
    by (rule prints_kfor [OF info])
  moreover have "map (\<lambda>p. decimal (pi_pid p) @ [32] @ decimal (pi_pages p) @ [10]) ?xs = map (info_line m pt) (filter (listed pt) [0..<NPROC])"
    by (simp add: assms(1) page_info_def info_line_def)
  ultimately obtain t where t: "kfor ?xs print_info a = Ok () t" "wrote (concat (map (info_line m pt) (filter (listed pt) [0..<NPROC]))) a t"
    using A(3) unfolding prints_def by metis
  have "wrote (report m pt) s t" using shown_wrote_trans [OF a(2) t(2)] by (simp add: report_def)
  then show ?thesis using a(1) l t(1) by (auto simp: kseq_def kbind_def split: res.splits)
qed

lemma ctrl_I_in:
  fixes s :: "'x v3_st_scheme"
  assumes "thread_in {L_cons} s" "length (pp_info s) = NPROC" "pids_ok (ptable s)" "on_screen s"
  shows "\<exists>t. consoleintr3_char (ctrl CHR ''I'') s = Ok False t \<and> thread_in {L_cons} t \<and> on_screen t \<and> kept s t
    \<and> length (pp_info t) = NPROC \<and> uart_out t = uart_out s @ (if uart_on s then report (kmem s) (ptable s) else [])"
proof -
  obtain a where a: "release L_cons s = Ok () a" "thread_in {} a" "cpu_frame s a"
    using release_frame [OF assms(1), of L_cons] by auto
  note A = v3_frame [OF a(3)]
  obtain b where b: "collect_proc_pages a = Ok () b" "thread_in {} b" "v3_rest a b" "length (pp_info b) = NPROC" "pp_count b \<le> NPROC"
    "take (pp_count b) (pp_info b) = map (page_info (kmem s) (ptable s)) (filter (listed (ptable s)) [0..<NPROC])"
    using collect_in [OF a(2)] A assms(2) by auto
  note B = kept_rest [OF b(3)]
  obtain c where c: "kseq (consputc 10) (kseq (consputs (str (''Ctrl+I detected'' @ [CHR 0x0A]))) (kbind (kget pp_count) (\<lambda>n.
      kfor [0..<n] (\<lambda>i. kbind (kget (\<lambda>s. pp_info s ! i)) (\<lambda>p. print_info p))))) b = Ok () c" "wrote (report (kmem s) (ptable s)) b c"
    using prints_report [OF b(6)] b(4,5) B A assms(3,4) by auto
  have C: "printed b c" "on_screen c" using c(2) by (auto simp: wrote_def)
  obtain t where t: "acquire L_cons c = Ok () t" "thread_in {L_cons} t" "cpu_frame c t"
    using acquire_frame [OF printed_in [OF C(1) b(2)], of L_cons] by auto
  note T = v3_frame [OF t(3)]
  have "kept s t"
    using kept_cpu [OF a(3)] B kept_printed [OF C(1)] kept_cpu [OF t(3)] by (blast intro: shown_kept_trans)
  moreover have "consoleintr3_char (ctrl CHR ''I'') s = Ok False t"
    using a(1) b(1) c(1) t(1) by (auto simp: consoleintr3_char_def kseq_def kbind_def split: res.splits)
  moreover have "uart_out t = uart_out s @ (if uart_on s then report (kmem s) (ptable s) else [])"
    using c(2) T A B by (simp add: wrote_def kept_def)
  ultimately show ?thesis using t(2) T C kept_printed [OF C(1)] b(4) by auto
qed

text \<open>
  C40. The memory printer tells the truth: when Ctrl-I is typed, \<open>consoleintr\<close> prints one line for
  every process of the table that sleeps, runs or is ready to run and has a pid, in the order of the
  table, with its pid and the number of pages below \<open>KERNBASE\<close> that the processor translates through
  its page directory, whatever an earlier Ctrl-I left in \<open>pp_info\<close>.  The line being edited, the
  table and memory are untouched, the cursor stays on the screen, and no spin lock is held.
\<close>

theorem memory_printer_reports:
  assumes "thread_in {} s" "on_screen s" "length (pp_info s) = NPROC" "\<forall>i < NPROC. p_pid (ptable s i) < 2 ^ 31"
  shows "\<exists>t. consoleintr3 pcs [ctrl CHR ''I''] s = Ok () t \<and> thread_in {} t \<and> on_screen t
    \<and> uart_out t = uart_out s @ (if uart_on s then report (kmem s) (ptable s) else [])
    \<and> con_abs t = con_abs s \<and> ptable t = ptable s \<and> kmem t = kmem s"
proof -
  obtain a where a: "acquire L_cons s = Ok () a" "thread_in {L_cons} a" "cpu_frame s a"
    using acquire_frame [OF assms(1), of L_cons] by auto
  note A = v3_frame [OF a(3)]
  obtain b where b: "consoleintr3_char (ctrl CHR ''I'') a = Ok False b" "thread_in {L_cons} b" "on_screen b" "kept a b"
    "uart_out b = uart_out a @ (if uart_on a then report (kmem a) (ptable a) else [])"
    using ctrl_I_in [OF a(2)] A assms(2,3,4) by (auto simp: pids_ok_def)
  obtain t where t: "release L_cons b = Ok () t" "thread_in {} t" "cpu_frame b t" using release_frame [OF b(2), of L_cons] by auto
  note T = v3_frame [OF t(3)]
  have "kept s t" using kept_cpu [OF a(3)] b(4) kept_cpu [OF t(3)] by (blast intro: shown_kept_trans)
  moreover have "0 \<le> ctrl CHR ''I''" by (simp add: ctrl_def)
  ultimately show ?thesis
    using a(1) b t T A kept_line [of s t] by (auto simp: consoleintr3_def kseq_def kbind_def kept_def)
qed

definition demo_v3 :: v3_st where
  "demo_v3 = run_st.extend (demo_run_st\<lparr>uart_on := True\<rparr>) (v3_st.fields (replicate 64 \<lparr>pi_pid = 99, pi_pages = 99\<rparr>) 7)"

lemma demo_v3:
  "thread_in {} demo_v3" "on_screen demo_v3" "length (pp_info demo_v3) = NPROC" "uart_on demo_v3" "uart_out demo_v3 = []"
  "ptable demo_v3 = (\<lambda>_. zero_proc)(0 := zero_proc\<lparr>p_state := RUNNING, p_pid := 1, p_pgdir := 0x80400000,
           p_sz := 0x2000, p_kstack := 0x80405000\<rparr>)" "kmem demo_v3 = demo_user_mem"
proof -
  have "thread_in {} demo_run_st" by (rule demo_run_in(1))
  then show "thread_in {} demo_v3" by (simp add: demo_v3_def thread_in_def found_def run_st.defs v3_st.defs)
  show "on_screen demo_v3" using demo_con(2)
    by (simp add: demo_v3_def demo_run_st_def demo_mem_st_def on_screen_def con_st.defs mem_st.defs file_st.defs run_st.defs v3_st.defs)
qed (simp_all add: demo_v3_def demo_run_st_def demo_mem_st_def demo_con_st_def NPROC_def fs_st.defs con_st.defs mem_st.defs file_st.defs run_st.defs v3_st.defs)

lemma demo_user_pages: "card (user_pages demo_user_mem 0x80400000) = 2"
proof -
  have pd: "ld32 (0x80400000 + 4 * of_nat i) demo_user_mem = (if i = 0 then 0x401007 else 0)" if "i < 512" for i :: nat
  proof -
    have u: "unat (of_nat i :: u32) = i" using that by (intro unat_of_nat_lt) simp
    then have "(of_nat i :: u32) < 1024" using that by (simp add: word_less_nat_alt)
    then show ?thesis using demo_pde [of "of_nat i"] u by (auto simp: pde_word_def)
  qed
  have pt: "ld32 (0x80401000 + 4 * of_nat j) demo_user_mem AND PTE_P \<noteq> 0 \<longleftrightarrow> j = 0 \<or> j = 1" if "j < 1024" for j :: nat
  proof -
    have u: "unat (of_nat j :: u32) = j" using that by (intro unat_of_nat_lt) simp
    then have j: "(of_nat j :: u32) < 1024" "(of_nat j :: u32) = 0 \<longleftrightarrow> j = 0" "(of_nat j :: u32) = 1 \<longleftrightarrow> j = 1"
      using that by (simp_all add: word_less_nat_alt word_unat_eq_iff)
    let ?a = "0x80401000 + 4 * of_nat j :: u32"
    have "ld32 ?a (st32 (0x80400000 + 4 * 0) 0x401007 m) = ld32 ?a m" for m
      by (rule ld32_st32_other, rule entries_apart) (use j(1) in \<open>simp_all add: PGSIZE_def\<close>)
    moreover have "ld32 ?a (st32 (0x80401000 + 4 * k) v m) = ld32 ?a m" if "of_nat j \<noteq> k" "k < 1024" for k v m
      by (rule ld32_st32_other, rule entries_apart) (use j(1) that in \<open>simp_all add: PGSIZE_def\<close>)
    from this [of 0] this [of 1] have "ld32 ?a (st32 0x80401000 v m) = ld32 ?a m" "ld32 ?a (st32 0x80401004 v m) = ld32 ?a m"
      if "j \<noteq> 0" "j \<noteq> 1" for v m using that j by simp_all
    ultimately have "ld32 ?a demo_user_mem = 0" if "j \<noteq> 0" "j \<noteq> 1" using that by (simp add: demo_user_mem_def ld32_zero)
    then show ?thesis using demo_walk by (cases "j = 0 \<or> j = 1") (auto simp: PTE_P_def)
  qed
  have t: "P2V (PTE_ADDR 0x401007) = 0x80401000" by (simp add: P2V_def PTE_ADDR_def KERNBASE_def)
  have "present_at demo_user_mem 0x80400000 i j \<longleftrightarrow> i = 0 \<and> (j = 0 \<or> j = 1)" if "i < 512" "j < 1024" for i j
  proof (cases "i = 0")
    case True
    have "(0x401007 :: u32) AND PTE_P \<noteq> 0" by (simp add: PTE_P_def)
    then show ?thesis unfolding present_at_def pd [OF that(1)] using True pt [OF that(2)] by (simp add: t)
  next
    case False
    then show ?thesis unfolding present_at_def pd [OF that(1)] by simp
  qed
  then have "(SIGMA i:{..<512}. {j. j < 1024 \<and> present_at demo_user_mem 0x80400000 i j}) = {(0, 0), (0, 1)}" by auto
  then show ?thesis by (simp add: user_pages_indices)
qed

theorem memory_printer_reports_witness:
  "\<exists>t. consoleintr3 (\<lambda>_. []) [9] demo_v3 = Ok () t \<and> uart_out t = str ([CHR 0x0A] @ ''Ctrl+I detected'' @ [CHR 0x0A] @ ''1 2'' @ [CHR 0x0A])"
proof -
  have l: "filter (listed (ptable demo_v3)) [0..<NPROC] = [0]"
    by (simp add: demo_v3(6) listed_def NPROC_def upt_rec zero_proc_def)
  have "decimal 1 = [49]" "decimal 2 = [50]"
    by (simp_all add: decimal_def int_text_def digits_of.simps hex_digits_def str_def)
  then have r: "report (kmem demo_v3) (ptable demo_v3) = str ([CHR 0x0A] @ ''Ctrl+I detected'' @ [CHR 0x0A] @ ''1 2'' @ [CHR 0x0A])"
    unfolding report_def l by (simp add: info_line_def demo_v3(6,7) demo_user_pages str_def)
  have "\<forall>i < NPROC. p_pid (ptable demo_v3 i) < 2 ^ 31" by (simp add: demo_v3(6) zero_proc_def)
  from memory_printer_reports [OF demo_v3(1-3) this, of "\<lambda>_. []"] r demo_v3(4,5) show ?thesis by (auto simp: ctrl_def)
qed

end
