(* ===== verification/Grep.thy ===== *)
theory Grep
  imports CString
begin

text \<open>
  The user program \<open>grep.c\<close>: the matcher (\<open>match\<close>, \<open>matchhere\<close>, \<open>matchstar\<close>) against a
  declarative meaning of patterns, and the loop over the input buffer.  A string is the list of
  its bytes before the NUL.
\<close>

section \<open>The matcher\<close>

abbreviation (input) DOT :: u8 where "DOT \<equiv> 46"
abbreviation (input) STAR :: u8 where "STAR \<equiv> 42"
abbreviation (input) DOLLAR :: u8 where "DOLLAR \<equiv> 36"
abbreviation (input) CARET :: u8 where "CARET \<equiv> 94"

function matchhere :: "u8 list \<Rightarrow> u8 list \<Rightarrow> bool" and matchstar :: "u8 \<Rightarrow> u8 list \<Rightarrow> u8 list \<Rightarrow> bool" where
  "matchhere re text =
     (case re of
        [] \<Rightarrow> True
      | r # re' \<Rightarrow>
          (case re' of
             s # re'' \<Rightarrow>
               if s = STAR then matchstar r re'' text
               else (case text of t # ts \<Rightarrow> (r = DOT \<or> r = t) \<and> matchhere re' ts | [] \<Rightarrow> False)
           | [] \<Rightarrow>
               if r = DOLLAR then text = []
               else (case text of t # ts \<Rightarrow> (r = DOT \<or> r = t) \<and> matchhere re' ts | [] \<Rightarrow> False)))"
| "matchstar c re text =
     (matchhere re text
      \<or> (case text of t # ts \<Rightarrow> (t = c \<or> c = DOT) \<and> matchstar c re ts | [] \<Rightarrow> False))"
  by pat_completeness auto

termination
  by (relation "measure (\<lambda>x. case x of Inl (re, text) \<Rightarrow> 2 * (length re + length text)
        | Inr (c, re, text) \<Rightarrow> 2 * (length re + length text) + 1)") auto

declare matchhere.simps [simp del] matchstar.simps [simp del]

fun match_any :: "u8 list \<Rightarrow> u8 list \<Rightarrow> bool" where
  "match_any re [] = matchhere re []"
| "match_any re (t # ts) = (matchhere re (t # ts) \<or> match_any re ts)"

definition match :: "u8 list \<Rightarrow> u8 list \<Rightarrow> bool" where
  "match re text =
     (case re of r # re' \<Rightarrow> if r = CARET then matchhere re' text else match_any re text
               | [] \<Rightarrow> match_any re text)"

section \<open>The meaning of a pattern\<close>

text \<open>A pattern is a sequence of characters, of which a dot stands for any, each once or starred;
  a dollar at its very end asks for the end of the text.\<close>

datatype item = One u8 | Many u8

definition fits :: "u8 \<Rightarrow> u8 \<Rightarrow> bool" where
  "fits r c \<longleftrightarrow> r = DOT \<or> r = c"

fun items :: "u8 list \<Rightarrow> item list" where
  "items [] = []"
| "items [r] = (if r = DOLLAR then [] else [One r])"
| "items (r # s # re) = (if s = STAR then Many r # items re else One r # items (s # re))"

fun at_end :: "u8 list \<Rightarrow> bool" where
  "at_end [] = False"
| "at_end [r] = (r = DOLLAR)"
| "at_end (r # s # re) = (if s = STAR then at_end re else at_end (s # re))"

fun lang :: "item list \<Rightarrow> u8 list set" where
  "lang [] = {[]}"
| "lang (One r # is) = {c # w | c w. fits r c \<and> w \<in> lang is}"
| "lang (Many r # is) = {u @ w | u w. (\<forall>c \<in> set u. fits r c) \<and> w \<in> lang is}"

text \<open>The text starts with a word of the items, all of it if the dollar asks for that.\<close>

definition begins :: "item list \<Rightarrow> bool \<Rightarrow> u8 list \<Rightarrow> bool" where
  "begins its e w \<longleftrightarrow> (\<exists>u v. w = u @ v \<and> u \<in> lang its \<and> (e \<longrightarrow> v = []))"

lemma beginsI: "u \<in> lang its \<Longrightarrow> (e \<Longrightarrow> v = []) \<Longrightarrow> begins its e (u @ v)"
  by (auto simp: begins_def)

lemma begins_Nil [simp]: "begins [] e w \<longleftrightarrow> (e \<longrightarrow> w = [])"
  by (simp add: begins_def)

lemma begins_One [simp]:
  "begins (One r # its) e w \<longleftrightarrow> (\<exists>t ts. w = t # ts \<and> fits r t \<and> begins its e ts)"
proof
  assume "begins (One r # its) e w"
  then obtain y v where y: "w = y @ v" "y \<in> lang (One r # its)" "e \<longrightarrow> v = []"
    unfolding begins_def by blast
  then obtain c u where "y = c # u" "fits r c" "u \<in> lang its" by auto
  with y have "w = c # (u @ v)" "fits r c" "u \<in> lang its" "e \<longrightarrow> v = []" by simp_all
  then show "\<exists>t ts. w = t # ts \<and> fits r t \<and> begins its e ts" by (blast intro: beginsI)
next
  assume "\<exists>t ts. w = t # ts \<and> fits r t \<and> begins its e ts"
  then obtain t u v where t: "w = (t # u) @ v" "fits r t" "u \<in> lang its" "e \<longrightarrow> v = []"
    by (auto simp: begins_def)
  then have "t # u \<in> lang (One r # its)" by simp
  with t show "begins (One r # its) e w" unfolding t(1) by (blast intro: beginsI)
qed

lemma lang_Many_step: "fits r c \<Longrightarrow> w \<in> lang (Many r # its) \<Longrightarrow> c # w \<in> lang (Many r # its)"
proof -
  assume c: "fits r c" and "w \<in> lang (Many r # its)"
  then obtain u v where u: "w = u @ v" "\<forall>x \<in> set u. fits r x" "v \<in> lang its" by auto
  with c have "c # w = (c # u) @ v" "\<forall>x \<in> set (c # u). fits r x" by auto
  with u(3) show ?thesis unfolding lang.simps by blast
qed

lemma lang_Many_base: "w \<in> lang its \<Longrightarrow> w \<in> lang (Many r # its)"
  by (auto intro: exI [of _ "[]"])

lemma begins_Many:
  "begins (Many r # its) e w \<longleftrightarrow>
     begins its e w \<or> (\<exists>t ts. w = t # ts \<and> fits r t \<and> begins (Many r # its) e ts)"
proof
  assume "begins (Many r # its) e w"
  then obtain y v where y: "w = y @ v" "y \<in> lang (Many r # its)" "e \<longrightarrow> v = []"
    unfolding begins_def by blast
  then obtain u x where "y = u @ x" "\<forall>c \<in> set u. fits r c" "x \<in> lang its" by auto
  with y have w: "w = u @ (x @ v)" "\<forall>c \<in> set u. fits r c" "x \<in> lang its" "e \<longrightarrow> v = []" by simp_all
  show "begins its e w \<or> (\<exists>t ts. w = t # ts \<and> fits r t \<and> begins (Many r # its) e ts)"
  proof (cases u)
    case Nil
    then show ?thesis using w by (auto intro: beginsI)
  next
    case (Cons c u')
    then have "u' @ x \<in> lang (Many r # its)" using w by auto
    then have "begins (Many r # its) e ((u' @ x) @ v)" using w(4) by (blast intro: beginsI)
    then show ?thesis using w Cons by simp
  qed
next
  assume "begins its e w \<or> (\<exists>t ts. w = t # ts \<and> fits r t \<and> begins (Many r # its) e ts)"
  then show "begins (Many r # its) e w"
  proof (elim disjE exE conjE)
    assume "begins its e w"
    then show ?thesis unfolding begins_def using lang_Many_base by blast
  next
    fix t ts
    assume w: "w = t # ts" "fits r t" and "begins (Many r # its) e ts"
    then obtain u v where "ts = u @ v" "u \<in> lang (Many r # its)" "e \<longrightarrow> v = []" by (auto simp: begins_def)
    with w show ?thesis using lang_Many_step beginsI [of "t # u" "Many r # its" e v] by simp
  qed
qed

lemma matchhere_begins: "matchhere re w \<longleftrightarrow> begins (items re) (at_end re) w"
  and matchstar_begins: "matchstar c re w \<longleftrightarrow> begins (Many c # items re) (at_end re) w"
proof (induction re w and c re w rule: matchhere_matchstar.induct)
  case (1 re w)
  show ?case
  proof (cases re rule: items.cases)
    case 1
    then show ?thesis by (simp add: matchhere.simps [of "[]" w])
  next
    case (2 r)
    then show ?thesis using "1.IH"
      by (auto simp: matchhere.simps [of "[r]" w] matchhere.simps [of "[]"] fits_def split: list.splits)
  next
    case (3 r s re')
    then show ?thesis using "1.IH" [of r "s # re'"]
      by (auto simp: matchhere.simps [of "r # s # re'" w] fits_def split: list.splits)
  qed
next
  case (2 c re w)
  then show ?case
    unfolding matchstar.simps [of c re w] begins_Many [of c "items re" "at_end re" w]
    by (auto simp: fits_def split: list.splits)
qed

lemma match_any_begins: "match_any re w \<longleftrightarrow> (\<exists>pre post. w = pre @ post \<and> begins (items re) (at_end re) post)"
proof (induction w)
  case Nil
  then show ?case by (simp add: matchhere_begins)
next
  case (Cons t ts)
  have "(\<exists>pre post. t # ts = pre @ post \<and> P post) \<longleftrightarrow> P (t # ts) \<or> (\<exists>pre post. ts = pre @ post \<and> P post)"
    for P :: "u8 list \<Rightarrow> bool"
    by (metis append_Cons append_Nil append_eq_Cons_conv)
  then show ?case using Cons by (simp add: matchhere_begins)
qed

text \<open>
  C23.  \<open>match\<close> decides the declarative meaning of the pattern: the text has a part in the language
  of the pattern's items, which is at the beginning of the text when the pattern starts with
  \<open>^\<close> and at its end when the pattern ends in \<open>$\<close>.
\<close>

theorem match_decides_pattern:
  "match re w \<longleftrightarrow>
     (let anchored = (re \<noteq> [] \<and> hd re = CARET); body = (if anchored then tl re else re)
      in \<exists>pre u post. w = pre @ u @ post \<and> u \<in> lang (items body)
           \<and> \<not> (anchored \<and> pre \<noteq> []) \<and> \<not> (at_end body \<and> post \<noteq> []))"
proof (cases "re \<noteq> [] \<and> hd re = CARET")
  case True
  then have "match re w \<longleftrightarrow> begins (items (tl re)) (at_end (tl re)) w"
    by (cases re) (simp_all add: match_def matchhere_begins)
  then show ?thesis using True unfolding begins_def by (simp add: Let_def)
next
  case False
  then have "match re w \<longleftrightarrow> match_any re w" by (auto simp: match_def split: list.split)
  then have "match re w \<longleftrightarrow> (\<exists>pre u v. w = pre @ u @ v \<and> u \<in> lang (items re) \<and> (at_end re \<longrightarrow> v = []))"
    unfolding match_any_begins begins_def by blast
  then show ?thesis using False by auto
qed

section \<open>The loop over the input\<close>

text \<open>
  \<open>sizeof(buf)\<close> is 1024 and the last byte is kept for the NUL.  \<open>strchr\<close> finds a newline only
  before the first NUL.
\<close>

abbreviation (input) NL :: u8 where "NL \<equiv> 10"

definition GREP_ROOM :: nat where
  "GREP_ROOM = 1023"

fun nl_split :: "u8 list \<Rightarrow> (u8 list \<times> u8 list) option" where
  "nl_split [] = None"
| "nl_split (c # cs) =
     (if c = NL then Some ([], cs) else if c = 0 then None
      else map_option (\<lambda>(l, r). (c # l, r)) (nl_split cs))"

lemma nl_split_Some:
  "nl_split b = Some (l, r) \<longleftrightarrow> b = l @ NL # r \<and> NL \<notin> set l \<and> 0 \<notin> set l"
  by (induction b arbitrary: l r) (auto simp: Cons_eq_append_conv)

lemma nl_split_shorter: "nl_split b = Some (l, r) \<Longrightarrow> length r < length b"
  by (simp add: nl_split_Some)

text \<open>The inner loop gives the writes and what is left of the buffer from \<open>p\<close>.\<close>

function grep_scan :: "u8 list \<Rightarrow> u8 list \<Rightarrow> u8 list list \<times> u8 list" where
  "grep_scan re b =
     (case nl_split b of
        None \<Rightarrow> ([], b)
      | Some (l, r) \<Rightarrow>
          (case grep_scan re r of
             (out, rest) \<Rightarrow> ((if match re l then (l @ [NL]) # out else out), rest)))"
  by pat_completeness auto

termination
  by (relation "measure (\<lambda>(re, b). length b)") (auto dest: nl_split_shorter)

declare grep_scan.simps [simp del]

text \<open>
  \<open>rd n f\<close> is the call \<open>read(fd, _, n)\<close> on the open file \<open>f\<close>; an empty result stands for \<open>n \<le> 0\<close>.
  \<open>m\<close> holds the bytes of the buffer kept from the round before.
\<close>

partial_function (option) grep_loop ::
  "(nat \<Rightarrow> 'f \<Rightarrow> u8 list \<times> 'f) \<Rightarrow> u8 list \<Rightarrow> u8 list \<Rightarrow> 'f \<Rightarrow> u8 list list option" where
  "grep_loop rd re m f =
     (case rd (GREP_ROOM - length m) f of
        (chunk, f') \<Rightarrow>
          if chunk = [] then Some []
          else let b = m @ chunk; (out, rest) = grep_scan re b
               in Option.bind (grep_loop rd re (if length rest = length b then [] else rest) f')
                    (\<lambda>out'. Some (out @ out')))"

definition grep :: "(nat \<Rightarrow> 'f \<Rightarrow> u8 list \<times> 'f) \<Rightarrow> u8 list \<Rightarrow> 'f \<Rightarrow> u8 list list option" where
  "grep rd re f = grep_loop rd re [] f"

text \<open>A regular file gives all that is asked for and present.\<close>

definition file_read :: "nat \<Rightarrow> u8 list \<Rightarrow> u8 list \<times> u8 list" where
  "file_read n f = (take n f, drop n f)"

text \<open>The complete lines of a text, without their newlines.\<close>

fun lines_from :: "u8 list \<Rightarrow> u8 list \<Rightarrow> u8 list list" where
  "lines_from cur [] = []"
| "lines_from cur (c # cs) = (if c = NL then cur # lines_from [] cs else lines_from (cur @ [c]) cs)"

definition full_lines :: "u8 list \<Rightarrow> u8 list list" where
  "full_lines t = lines_from [] t"

lemma lines_from_line: "NL \<notin> set l \<Longrightarrow> lines_from cur (l @ NL # r) = (cur @ l) # lines_from [] r"
  by (induction l arbitrary: cur) auto

lemma lines_from_none: "NL \<notin> set l \<Longrightarrow> lines_from cur l = []"
  by (induction l arbitrary: cur) auto

lemma full_lines_Cons: "NL \<notin> set l \<Longrightarrow> full_lines (l @ NL # r) = l # full_lines r"
  by (simp add: full_lines_def lines_from_line)

lemma full_lines_none [simp]: "NL \<notin> set l \<Longrightarrow> full_lines l = []"
  by (simp add: full_lines_def lines_from_none)

lemma full_lines_long:
  assumes "NL \<notin> set b" and "\<forall>l \<in> set (full_lines (b @ r)). length l < length b"
  shows "full_lines (b @ r) = [] \<and> NL \<notin> set r"
proof (cases "NL \<in> set r")
  case True
  then obtain x y where r: "r = x @ NL # y" "NL \<notin> set x" by (metis split_list_first)
  then have "full_lines (b @ r) = (b @ x) # full_lines y"
    using full_lines_Cons [of "b @ x" y] assms(1) by simp
  then show ?thesis using assms(2) by simp
next
  case False
  then show ?thesis using assms(1) by simp
qed

lemma grep_scan_lines:
  assumes "0 \<notin> set b" and "grep_scan re b = (out, rest)"
  shows "\<exists>done'. b = done' @ rest \<and> NL \<notin> set rest \<and> (NL \<notin> set b \<longrightarrow> done' = [])
     \<and> (NL \<in> set b \<longrightarrow> length rest < length b)
     \<and> (\<forall>t. full_lines (b @ t) = full_lines done' @ full_lines (rest @ t))
     \<and> out = map (\<lambda>l. l @ [NL]) (filter (match re) (full_lines done'))"
  using assms
proof (induction re b arbitrary: out rest rule: grep_scan.induct)
  case (1 re b)
  show ?case
  proof (cases "nl_split b")
    case None
    then have "NL \<notin> set b" using "1.prems"(1)
      by (metis UnCI nl_split_Some option.distinct(1) set_append split_list_first)
    then show ?thesis using None "1.prems"(2) by (auto simp: grep_scan.simps [of re b])
  next
    case (Some lr)
    obtain l r where lr: "lr = (l, r)" by (cases lr)
    with Some have b: "b = l @ NL # r" "NL \<notin> set l" by (simp_all add: nl_split_Some)
    obtain o' where scan: "grep_scan re r = (o', rest)"
        and out: "out = (if match re l then (l @ [NL]) # o' else o')"
      using "1.prems"(2) Some lr by (auto simp: grep_scan.simps [of re b] split: prod.splits if_splits)
    have "0 \<notin> set r" using "1.prems"(1) b by simp
    from "1.IH" [OF Some lr [symmetric] this scan] obtain d where
      d: "r = d @ rest" "NL \<notin> set rest" "\<forall>t. full_lines (r @ t) = full_lines d @ full_lines (rest @ t)"
        "o' = map (\<lambda>l. l @ [NL]) (filter (match re) (full_lines d))"
      by blast
    show ?thesis
      using d b out full_lines_Cons [OF b(2)]
      by (intro exI [of _ "l @ NL # d"]) auto
  qed
qed

lemma grep_loop_file:
  assumes "0 \<notin> set (m @ f)" and "NL \<notin> set m" and "length m < GREP_ROOM"
    and "\<forall>l \<in> set (full_lines (m @ f)). length l < GREP_ROOM"
  shows "grep_loop file_read re m f =
     Some (map (\<lambda>l. l @ [NL]) (filter (match re) (full_lines (m @ f))))"
  using assms
proof (induction "length f" arbitrary: m f rule: less_induct)
  case less
  let ?n = "GREP_ROOM - length m"
  show ?case
  proof (cases f)
    case Nil
    then show ?thesis using less.prems by (simp add: grep_loop.simps [of _ _ m] file_read_def)
  next
    case (Cons c cs)
    define b where "b = m @ take ?n f"
    define r where "r = drop ?n f"
    obtain out rest where scan: "grep_scan re b = (out, rest)" by (cases "grep_scan re b")
    have all: "b @ r = m @ f" by (simp add: b_def r_def)
    have nul: "0 \<notin> set b" "0 \<notin> set r" using less.prems(1) unfolding all [symmetric] by auto
    have n: "0 < ?n" using less.prems(3) by simp
    have shorter: "length r < length f" using n Cons by (simp add: r_def)
    have short: "\<forall>l \<in> set (full_lines (b @ r)). length l < GREP_ROOM" using less.prems(4) all by simp
    have lenb: "length b \<le> GREP_ROOM" using less.prems(3) by (simp add: b_def)
    have step: "grep_loop file_read re m f =
        Option.bind (grep_loop file_read re (if length rest = length b then [] else rest) r)
          (\<lambda>out'. Some (out @ out'))"
    proof -
      have "take ?n f \<noteq> []" using n Cons by simp
      then show ?thesis
        unfolding grep_loop.simps [of _ _ m f] file_read_def [of ?n f] r_def [symmetric]
        using scan unfolding b_def by (simp add: Let_def)
    qed
    from grep_scan_lines [OF nul(1) scan] obtain d where
      d: "b = d @ rest" "NL \<notin> set rest" "NL \<notin> set b \<longrightarrow> d = []" "NL \<in> set b \<longrightarrow> length rest < length b"
         "full_lines (b @ r) = full_lines d @ full_lines (rest @ r)"
         "out = map (\<lambda>l. l @ [NL]) (filter (match re) (full_lines d))"
      by blast
    show ?thesis
    proof (cases "NL \<in> set b")
      case True
      have "grep_loop file_read re rest r =
          Some (map (\<lambda>l. l @ [NL]) (filter (match re) (full_lines (rest @ r))))"
      proof (rule less.hyps [OF shorter])
        show "0 \<notin> set (rest @ r)" using nul d(1) by auto
        show "length rest < GREP_ROOM" using d(4) True lenb by simp
        show "\<forall>l \<in> set (full_lines (rest @ r)). length l < GREP_ROOM" using short d(5) by auto
      qed (fact d(2))
      then show ?thesis unfolding step all [symmetric] d(5) using d True by simp
    next
      case False
      have none: "full_lines (b @ r) = [] \<and> NL \<notin> set r"
      proof (cases "r = []")
        case True
        then show ?thesis using False by simp
      next
        case False
        then have "length b = GREP_ROOM" using less.prems(3) by (simp add: b_def r_def)
        then show ?thesis using full_lines_long [OF \<open>NL \<notin> set b\<close>, of r] short by simp
      qed
      have "grep_loop file_read re [] r =
          Some (map (\<lambda>l. l @ [NL]) (filter (match re) (full_lines ([] @ r))))"
        by (rule less.hyps [OF shorter]) (use nul none in \<open>simp_all add: GREP_ROOM_def\<close>)
      then show ?thesis unfolding step all [symmetric] using d False none by simp
    qed
  qed
qed

text \<open>
  C24.  On a regular file whose lines, with their newlines, fit into the 1023 bytes of the buffer
  and hold no NUL, \<open>grep\<close> returns and writes exactly the complete lines that match, in order,
  wherever the reads cut the file.
\<close>

theorem grep_writes_matching_lines:
  assumes "0 \<notin> set f" and "\<forall>l \<in> set (full_lines f). length l + 1 \<le> GREP_ROOM"
  shows "grep file_read re f = Some (map (\<lambda>l. l @ [NL]) (filter (match re) (full_lines f)))"
proof -
  have "\<forall>l \<in> set (full_lines ([] @ f)). length l < GREP_ROOM" using assms(2) by auto
  then show ?thesis unfolding grep_def using grep_loop_file [of "[]" f re] assms(1) by (simp add: GREP_ROOM_def)
qed

lemma grep_writes_matching_lines_witness:
  "grep file_read [CARET, 97] [97, 98, NL, 98, NL, 97, NL, 97] = Some [[97, 98, NL], [97, NL]]"
  using grep_writes_matching_lines [of "[97, 98, NL, 98, NL, 97, NL, 97]" "[CARET, 97]"]
  by (simp add: full_lines_def GREP_ROOM_def match_def matchhere.simps)

text \<open>A longer line loses what fills the buffer, also in a regular file: its rest is matched and
  written as a line.\<close>

lemma grep_drops_long_line:
  assumes "length b = GREP_ROOM" "NL \<notin> set b"
  shows "grep file_read re (b @ r) = grep file_read re r"
proof -
  have b: "b \<noteq> []" "file_read (GREP_ROOM - length []) (b @ r) = (b, r)" using assms(1) by (auto simp: file_read_def GREP_ROOM_def)
  have "NL \<in> set b" if "nl_split b = Some (x, y)" for x y using that by (simp add: nl_split_Some)
  then have "nl_split b = None" using assms(2) by (cases "nl_split b") auto
  then have "grep_scan re b = ([], b)" by (simp add: grep_scan.simps [of re b])
  then have "grep_loop file_read re [] (b @ r) = Option.bind (grep_loop file_read re [] r) (\<lambda>out'. Some out')"
    unfolding grep_loop.simps [of _ _ "[]" "b @ r"] b(2) using b(1) by simp
  then show ?thesis by (simp add: grep_def)
qed

lemma grep_matches_tail:
  "grep file_read [CARET, 99] (replicate GREP_ROOM 97 @ [99, NL]) = Some [[99, NL]]"
  by (subst grep_drops_long_line)
    (simp_all add: GREP_ROOM_def grep_def grep_loop.simps file_read_def grep_scan.simps match_def matchhere.simps)

text \<open>
  A pipe may give a line in pieces: the piece without a newline is dropped, and the rest of the
  line is matched as if the line began there.
\<close>

definition pipe_read :: "nat \<Rightarrow> u8 list list \<Rightarrow> u8 list \<times> u8 list list" where
  "pipe_read n f = (case f of [] \<Rightarrow> ([], []) | c # cs \<Rightarrow> (c, cs))"

lemma grep_drops_partial_reads:
  "grep pipe_read [CARET, 99] [[97, 98], [99, NL]] = Some [[99, NL]]
   \<and> match [CARET, 99] [97, 98, 99] = False"
  by (simp add: grep_def grep_loop.simps pipe_read_def grep_scan.simps match_def matchhere.simps)

end
