(* ===== verification/Shell.thy ===== *)
theory Shell
  imports CString
begin

text \<open>
  The shell \<open>sh.c\<close>: its lexer (\<open>peek\<close>, \<open>gettoken\<close>), its parser and \<open>nulterminate\<close>.  The line is
  the list \<open>b\<close> of its bytes before the NUL, a pointer into it is an index, and \<open>es\<close> is
  \<open>length b\<close>.  \<open>malloc\<close> in the constructors is taken to succeed; the \<open>leftovers\<close> message of \<open>parsecmd\<close>
  is printed by \<open>parse_and_run\<close> of theory \<open>Runcmd\<close>.
\<close>

section \<open>Tokens\<close>

definition whitespace :: "u8 list" where "whitespace = [32, 9, 13, 10, 11]"
definition symbols :: "u8 list" where "symbols = [60, 124, 62, 38, 59, 40, 41]"
definition MAXARGS :: nat where "MAXARGS = 10"

abbreviation (input) T_LT :: u8 where "T_LT \<equiv> 60"
abbreviation (input) T_BAR :: u8 where "T_BAR \<equiv> 124"
abbreviation (input) T_GT :: u8 where "T_GT \<equiv> 62"
abbreviation (input) T_AMP :: u8 where "T_AMP \<equiv> 38"
abbreviation (input) T_SEMI :: u8 where "T_SEMI \<equiv> 59"
abbreviation (input) T_LPAR :: u8 where "T_LPAR \<equiv> 40"
abbreviation (input) T_RPAR :: u8 where "T_RPAR \<equiv> 41"
abbreviation (input) T_PLUS :: u8 where "T_PLUS \<equiv> 43"
abbreviation (input) T_WORD :: u8 where "T_WORD \<equiv> 97"

text \<open>\<open>*s\<close>, where the NUL at \<open>es\<close> can be read.\<close>

definition char_at :: "u8 list \<Rightarrow> nat \<Rightarrow> u8" where
  "char_at b s = (if s < length b then b ! s else 0)"

function skip_chars :: "(u8 \<Rightarrow> bool) \<Rightarrow> u8 list \<Rightarrow> nat \<Rightarrow> nat" where
  "skip_chars P b s = (if s < length b \<and> P (b ! s) then skip_chars P b (s + 1) else s)"
  by pat_completeness auto

termination
  by (relation "measure (\<lambda>(P, b, s). length b - s)") auto

declare skip_chars.simps [simp del]

definition skip_ws :: "u8 list \<Rightarrow> nat \<Rightarrow> nat" where
  "skip_ws b s = skip_chars (\<lambda>c. c \<in> set whitespace) b s"

definition word_char :: "u8 \<Rightarrow> bool" where
  "word_char c \<longleftrightarrow> c \<notin> set whitespace \<and> c \<notin> set symbols"

text \<open>The token's kind, where it begins and ends, and where the next one begins.\<close>

definition gettoken :: "u8 list \<Rightarrow> nat \<Rightarrow> u8 \<times> nat \<times> nat \<times> nat" where
  "gettoken b s =
     (let q = skip_ws b s;
          c = char_at b q;
          (ret, eq) =
            (if c = 0 then (0, q)
             else if c \<in> {T_BAR, T_LPAR, T_RPAR, T_SEMI, T_AMP, T_LT} then (c, q + 1)
             else if c = T_GT then
               (if char_at b (q + 1) = T_GT then (T_PLUS, q + 2) else (c, q + 1))
             else (T_WORD, skip_chars word_char b q))
      in (ret, q, eq, skip_ws b eq))"

definition peek :: "u8 list \<Rightarrow> nat \<Rightarrow> u8 list \<Rightarrow> nat \<times> bool" where
  "peek b s toks =
     (let s' = skip_ws b s in (s', char_at b s' \<noteq> 0 \<and> char_at b s' \<in> set toks))"

section \<open>Commands\<close>

text \<open>A word is the pair of its two pointers in the parser, and its bytes in the specification.\<close>

datatype 'w cmd =
    EXEC "'w list"
  | REDIR "'w cmd" 'w int nat
  | PIPE "'w cmd" "'w cmd"
  | LIST "'w cmd" "'w cmd"
  | BACK "'w cmd"

type_synonym token = "nat \<times> nat"

datatype 'a parsed = NoFuel | Panic string | Parsed 'a nat

primrec pbind :: "'a parsed \<Rightarrow> ('a \<Rightarrow> nat \<Rightarrow> 'b parsed) \<Rightarrow> 'b parsed" where
  "pbind NoFuel f = NoFuel"
| "pbind (Panic m) f = Panic m"
| "pbind (Parsed a s) f = f a s"

text \<open>
  \<open>cmd->argv[argc] = q\<close> reaches the \<open>execcmd\<close> under the redirections that were put around it.
\<close>

fun add_arg :: "'w \<Rightarrow> 'w cmd \<Rightarrow> 'w cmd" where
  "add_arg w (EXEC ws) = EXEC (ws @ [w])"
| "add_arg w (REDIR c f m fd) = REDIR (add_arg w c) f m fd"
| "add_arg w c = c"

definition redir_flags :: "u8 \<Rightarrow> int \<times> nat" where
  "redir_flags tok = (if tok = T_LT then (0, 0) else (0x201, 1))"

section \<open>Positions\<close>

lemma skip_chars_go [simp]: "s < length b \<Longrightarrow> P (b ! s) \<Longrightarrow> skip_chars P b s = skip_chars P b (Suc s)"
  by (simp add: skip_chars.simps [of P b s])

lemma skip_chars_halt [simp]: "\<not> (s < length b \<and> P (b ! s)) \<Longrightarrow> skip_chars P b s = s"
  by (metis skip_chars.simps)

lemma skip_chars_le: "s \<le> skip_chars P b s"
proof (induction P b s rule: skip_chars.induct)
  case (1 P b s)
  then show ?case by (cases "s < length b \<and> P (b ! s)") (auto simp del: not_less de_Morgan_conj)
qed

lemma skip_chars_bound: "s \<le> length b \<Longrightarrow> skip_chars P b s \<le> length b"
proof (induction P b s rule: skip_chars.induct)
  case (1 P b s)
  then show ?case by (cases "s < length b \<and> P (b ! s)") (auto simp del: not_less de_Morgan_conj)
qed

lemma skip_chars_in: "s \<le> i \<Longrightarrow> i < skip_chars P b s \<Longrightarrow> i < length b \<and> P (b ! i)"
proof (induction P b s rule: skip_chars.induct)
  case (1 P b s)
  show ?case
  proof (cases "s < length b \<and> P (b ! s)")
    case True
    then show ?thesis using 1 by (cases "i = s") auto
  next
    case False
    then show ?thesis using 1 skip_chars_halt [of s b P] by simp
  qed
qed

lemma skip_chars_stop: "skip_chars P b s < length b \<Longrightarrow> \<not> P (b ! skip_chars P b s)"
proof (induction P b s rule: skip_chars.induct)
  case (1 P b s)
  then show ?case by (cases "s < length b \<and> P (b ! s)") (auto simp del: not_less de_Morgan_conj)
qed

lemma skip_ws_le: "s \<le> skip_ws b s"
  by (simp add: skip_ws_def skip_chars_le)

lemma skip_ws_bound: "s \<le> length b \<Longrightarrow> skip_ws b s \<le> length b"
  by (simp add: skip_ws_def skip_chars_bound)

lemma skip_ws_nonwhite: "skip_ws b s < length b \<Longrightarrow> b ! skip_ws b s \<notin> set whitespace"
  unfolding skip_ws_def by (drule skip_chars_stop)

lemma peek_pos: "peek b s toks = (s', r) \<Longrightarrow> s' = skip_ws b s"
  by (auto simp: peek_def Let_def)

text \<open>A token is consumed unless the line is at its end.\<close>

lemma gettoken_pos:
  assumes "gettoken b s = (ret, q, eq, s')" and "s \<le> length b"
  shows "s \<le> q \<and> q \<le> eq \<and> eq \<le> s' \<and> s' \<le> length b \<and> (char_at b (skip_ws b s) \<noteq> 0 \<longrightarrow> q < eq)"
proof -
  let ?q = "skip_ws b s"
  have q: "s \<le> ?q" "?q \<le> length b" using skip_ws_le skip_ws_bound assms(2) by auto
  have word: "?q < skip_chars word_char b ?q"
    if "char_at b ?q \<noteq> 0" "char_at b ?q \<notin> set symbols"
  proof -
    have "?q < length b" using that q by (auto simp: char_at_def split: if_splits)
    then show ?thesis
      using that skip_ws_nonwhite [of b s] skip_chars_le [of "?q + 1" word_char b]
      by (simp add: skip_chars.simps [of word_char b ?q] char_at_def word_char_def)
  qed
  have "char_at b ?q \<noteq> 0 \<Longrightarrow> ?q < length b" by (auto simp: char_at_def split: if_splits)
  moreover have "char_at b (Suc ?q) \<noteq> 0 \<Longrightarrow> Suc ?q < length b" by (auto simp: char_at_def split: if_splits)
  ultimately show ?thesis
    using assms q word skip_chars_le [of ?q word_char b] skip_chars_bound [of ?q b word_char]
      skip_ws_le [of _ b] skip_ws_bound [of _ b]
    by (auto simp: gettoken_def Let_def symbols_def split: if_splits)
qed

lemma gettoken_peeked:
  assumes "peek b s toks = (s', True)" and "s \<le> length b" and "gettoken b s' = (ret, q, eq, s'')"
  shows "s < s''" and "s'' \<le> length b"
proof -
  have s': "s' = skip_ws b s" by (rule peek_pos [OF assms(1)])
  have "skip_ws b s' = s'"
    unfolding s' skip_ws_def [of b "skip_ws b s"] by (rule skip_chars_halt) (use skip_ws_nonwhite [of b s] in blast)
  then have "char_at b (skip_ws b s') \<noteq> 0" using assms(1) by (simp add: s' peek_def Let_def)
  then show "s < s''" "s'' \<le> length b"
    using gettoken_pos [OF assms(3)] skip_ws_le [of s b] skip_ws_bound [OF assms(2)] by (auto simp: s')
qed

lemma peek_True:
  assumes "peek b s toks = (s', True)"
  shows "s \<le> s'" and "s' < length b" and "s' = skip_ws b s" and "b ! s' \<in> set toks"
  using assms skip_ws_le [of s b] by (auto simp: peek_def Let_def char_at_def split: if_splits)

lemma peek_le: "peek b s toks = (s', r) \<Longrightarrow> s \<le> s'"
  using skip_ws_le [of s b] by (auto simp: peek_def Let_def)

lemma peek_bound: "peek b s toks = (s', r) \<Longrightarrow> s \<le> length b \<Longrightarrow> s' \<le> length b"
  using skip_ws_bound [of s b] by (auto simp: peek_def Let_def)

lemma gettoken_after_peek:
  assumes "peek b s toks = (s', True)" and "gettoken b s' = (ret, q, eq, s'')"
  shows "s < s''" and "s'' \<le> length b"
  using gettoken_peeked [OF assms(1) _ assms(2)] peek_True [OF assms(1)] by auto

lemma pbind_cong [fundef_cong]:
  "m = m' \<Longrightarrow> (\<And>a s. m' = Parsed a s \<Longrightarrow> f a s = f' a s) \<Longrightarrow> pbind m f = pbind m' f'"
  by (cases m') simp_all

lemma pbind_Parsed:
  "pbind m f = Parsed c s' \<longleftrightarrow> (\<exists>a s. m = Parsed a s \<and> f a s = Parsed c s')"
  by (cases m) simp_all

lemma pbind_NoFuel: "pbind m f = NoFuel \<longleftrightarrow> m = NoFuel \<or> (\<exists>a s. m = Parsed a s \<and> f a s = NoFuel)"
  by (cases m) simp_all

text \<open>What a token that \<open>peek\<close> saw and the one after it take off the rest of the line.\<close>

lemma token_less:
  assumes "peek b s toks = (s1, True)" and "gettoken b s1 = (tok, q, eq, s2)"
  shows "length b - s2 < length b - s"
  using gettoken_after_peek [OF assms] by simp

lemma two_tokens_less:
  assumes "peek b s toks = (s1, True)" and "gettoken b s1 = (tok, q, eq, s2)"
    and "gettoken b s2 = (tok', q', eq', s3)"
  shows "length b - s3 < length b - s"
  using gettoken_after_peek [OF assms(1,2)] gettoken_pos [OF assms(3)] peek_True [OF assms(1)] by auto

section \<open>The parser\<close>

function parseredirs :: "token cmd \<Rightarrow> u8 list \<Rightarrow> nat \<Rightarrow> token cmd parsed" where
  "parseredirs cmd b s =
     (case peek b s [T_LT, T_GT] of (s1, more) \<Rightarrow>
        if \<not> more then Parsed cmd s1
        else (case gettoken b s1 of (tok, _, _, s2) \<Rightarrow>
                case gettoken b s2 of (w, q, eq, s3) \<Rightarrow>
                  if w \<noteq> T_WORD then Panic ''missing file for redirection''
                  else (case redir_flags tok of (mode, fd) \<Rightarrow>
                          parseredirs (REDIR cmd (q, eq) mode fd) b s3)))"
  by pat_completeness auto

termination
  by (relation "measure (\<lambda>(cmd, b, s). length b - s)") (simp, clarsimp, metis two_tokens_less)

declare parseredirs.simps [simp del]

function parseargs :: "token cmd \<Rightarrow> nat \<Rightarrow> u8 list \<Rightarrow> nat \<Rightarrow> token cmd parsed" where
  "parseargs ret argc b s =
     (case peek b s [T_BAR, T_RPAR, T_AMP, T_SEMI] of (s1, stop) \<Rightarrow>
        if stop then Parsed ret s1
        else (case gettoken b s1 of (tok, q, eq, s2) \<Rightarrow>
                if tok = 0 then Parsed ret s2
                else if tok \<noteq> T_WORD then Panic ''syntax''
                else if argc + 1 \<ge> MAXARGS then Panic ''too many args''
                else pbind (parseredirs (add_arg (q, eq) ret) b s2)
                       (\<lambda>ret' s3. parseargs ret' (argc + 1) b s3)))"
  by pat_completeness auto

termination
  by (relation "measure (\<lambda>(ret, argc, b, s). MAXARGS - argc)") auto

declare parseargs.simps [simp del]

function parseamps :: "token cmd \<Rightarrow> u8 list \<Rightarrow> nat \<Rightarrow> token cmd \<times> nat" where
  "parseamps cmd b s =
     (case peek b s [T_AMP] of (s1, more) \<Rightarrow>
        if \<not> more then (cmd, s1)
        else (case gettoken b s1 of (_, _, _, s2) \<Rightarrow> parseamps (BACK cmd) b s2))"
  by pat_completeness auto

termination
  by (relation "measure (\<lambda>(cmd, b, s). length b - s)") (simp, clarsimp, metis token_less)

declare parseamps.simps [simp del]

text \<open>
  The four functions that call each other; the first argument bounds the depth of the calls, and
  \<open>parsecmd\<close> passes a bound that is never reached.
\<close>

fun parseline :: "nat \<Rightarrow> u8 list \<Rightarrow> nat \<Rightarrow> token cmd parsed"
  and parsepipe :: "nat \<Rightarrow> u8 list \<Rightarrow> nat \<Rightarrow> token cmd parsed"
  and parseblock :: "nat \<Rightarrow> u8 list \<Rightarrow> nat \<Rightarrow> token cmd parsed"
  and parseexec :: "nat \<Rightarrow> u8 list \<Rightarrow> nat \<Rightarrow> token cmd parsed" where
  "parseline 0 b s = NoFuel"
| "parseline (Suc n) b s =
     pbind (parsepipe n b s) (\<lambda>cmd s1.
     case parseamps cmd b s1 of (cmd', s2) \<Rightarrow>
     case peek b s2 [T_SEMI] of (s3, semi) \<Rightarrow>
       if semi then
         (case gettoken b s3 of (_, _, _, s4) \<Rightarrow>
            pbind (parseline n b s4) (\<lambda>r s5. Parsed (LIST cmd' r) s5))
       else Parsed cmd' s3)"
| "parsepipe 0 b s = NoFuel"
| "parsepipe (Suc n) b s =
     pbind (parseexec n b s) (\<lambda>cmd s1.
     case peek b s1 [T_BAR] of (s2, bar) \<Rightarrow>
       if bar then
         (case gettoken b s2 of (_, _, _, s3) \<Rightarrow>
            pbind (parsepipe n b s3) (\<lambda>r s4. Parsed (PIPE cmd r) s4))
       else Parsed cmd s2)"
| "parseblock 0 b s = NoFuel"
| "parseblock (Suc n) b s =
     (case peek b s [T_LPAR] of (s1, open) \<Rightarrow>
        if \<not> open then Panic ''parseblock''
        else (case gettoken b s1 of (_, _, _, s2) \<Rightarrow>
          pbind (parseline n b s2) (\<lambda>cmd s3.
          case peek b s3 [T_RPAR] of (s4, closed) \<Rightarrow>
            if \<not> closed then Panic ''syntax - missing )''
            else (case gettoken b s4 of (_, _, _, s5) \<Rightarrow> parseredirs cmd b s5))))"
| "parseexec 0 b s = NoFuel"
| "parseexec (Suc n) b s =
     (case peek b s [T_LPAR] of (s1, open) \<Rightarrow>
        if open then parseblock n b s1
        else pbind (parseredirs (EXEC []) b s1) (\<lambda>ret s2. parseargs ret 0 b s2))"

text \<open>\<open>nulterminate\<close> writes a NUL at the end of every word.\<close>

fun nulterminate :: "token cmd \<Rightarrow> u8 list \<Rightarrow> u8 list" where
  "nulterminate (EXEC ws) buf = fold (\<lambda>(q, eq) m. m[eq := 0]) ws buf"
| "nulterminate (REDIR c (q, eq) m fd) buf = (nulterminate c buf)[eq := 0]"
| "nulterminate (PIPE l r) buf = nulterminate r (nulterminate l buf)"
| "nulterminate (LIST l r) buf = nulterminate r (nulterminate l buf)"
| "nulterminate (BACK c) buf = nulterminate c buf"

definition parse_fuel :: "u8 list \<Rightarrow> nat" where
  "parse_fuel b = 4 * length b + 4"

text \<open>The tree, with the line's buffer (and its last NUL) afterwards.\<close>

definition parsecmd :: "u8 list \<Rightarrow> (token cmd \<times> u8 list) parsed" where
  "parsecmd b =
     pbind (parseline (parse_fuel b) b 0) (\<lambda>cmd s.
     case peek b s [] of (s', _) \<Rightarrow>
       if s' \<noteq> length b then Panic ''syntax''
       else Parsed (cmd, nulterminate cmd (b @ [0])) s')"

section \<open>What the parser returns\<close>

text \<open>A word of the line: it cannot be extended, and no byte of it separates words.\<close>

definition word_token :: "u8 list \<Rightarrow> token \<Rightarrow> bool" where
  "word_token b t \<longleftrightarrow>
     (case t of (q, eq) \<Rightarrow>
        q < eq \<and> eq \<le> length b \<and> (\<forall>i. q \<le> i \<and> i < eq \<longrightarrow> word_char (b ! i) \<and> b ! i \<noteq> 0)
        \<and> \<not> (eq < length b \<and> word_char (b ! eq)))"

definition parse_ok :: "u8 list \<Rightarrow> nat \<Rightarrow> token cmd parsed \<Rightarrow> bool" where
  "parse_ok b s m \<longleftrightarrow>
     (\<forall>c s'. m = Parsed c s' \<longrightarrow> s \<le> s' \<and> s' \<le> length b \<and> (\<forall>t \<in> set_cmd c. word_token b t))"

lemma parse_ok_simps [simp]:
  "parse_ok b s NoFuel"
  "parse_ok b s (Panic m)"
  "parse_ok b s (Parsed c s') \<longleftrightarrow> s \<le> s' \<and> s' \<le> length b \<and> (\<forall>t \<in> set_cmd c. word_token b t)"
  by (simp_all add: parse_ok_def)

lemma parse_okD:
  assumes "parse_ok b s m" and "m = Parsed c s'"
  shows "s \<le> s'" and "s' \<le> length b" and "\<forall>t \<in> set_cmd c. word_token b t"
  using assms by (auto simp: parse_ok_def)

lemma parse_ok_mono: "parse_ok b s' m \<Longrightarrow> s \<le> s' \<Longrightarrow> parse_ok b s m"
  by (auto simp: parse_ok_def)

lemma parse_ok_bind:
  assumes "parse_ok b s m"
    and "\<And>c s'. m = Parsed c s' \<Longrightarrow> s \<le> s' \<Longrightarrow> s' \<le> length b \<Longrightarrow> (\<forall>t \<in> set_cmd c. word_token b t)
      \<Longrightarrow> parse_ok b s (f c s')"
  shows "parse_ok b s (pbind m f)"
  using assms by (cases m) auto

lemma gettoken_word:
  assumes "gettoken b s = (T_WORD, q, eq, s')" and "0 \<notin> set b" and "s \<le> length b"
  shows "word_token b (q, eq)"
proof -
  have q: "q = skip_ws b s" and nz: "char_at b q \<noteq> 0" and ns: "char_at b q \<notin> set symbols"
      and eq: "eq = skip_chars word_char b q"
    using assms(1) by (auto simp: gettoken_def Let_def symbols_def split: if_splits)
  have "q < eq" using gettoken_pos [OF assms(1,3)] nz q by simp
  moreover have "eq \<le> length b" using gettoken_pos [OF assms(1,3)] by simp
  moreover have "word_char (b ! i) \<and> b ! i \<noteq> 0" if "q \<le> i" "i < eq" for i
  proof -
    have "i < length b \<and> word_char (b ! i)" using skip_chars_in that unfolding eq by blast
    then show ?thesis using assms(2) nth_mem [of i b] by metis
  qed
  moreover have "\<not> (eq < length b \<and> word_char (b ! eq))"
    using skip_chars_stop [of word_char b q] unfolding eq by blast
  ultimately show ?thesis unfolding word_token_def by blast
qed

lemma set_add_arg: "set_cmd (add_arg w c) \<subseteq> insert w (set_cmd c)"
  by (induction w c rule: add_arg.induct) auto

lemma parseredirs_ok:
  assumes "0 \<notin> set b"
  shows "s \<le> length b \<Longrightarrow> \<forall>t \<in> set_cmd cmd. word_token b t \<Longrightarrow> parse_ok b s (parseredirs cmd b s)"
  using assms
proof (induction cmd b s rule: parseredirs.induct)
  case (1 cmd b s)
  obtain s1 more where p: "peek b s [T_LT, T_GT] = (s1, more)" by fastforce
  obtain tok q0 e0 s2 where g: "gettoken b s1 = (tok, q0, e0, s2)" by (cases "gettoken b s1") auto
  obtain w q eq s3 where h: "gettoken b s2 = (w, q, eq, s3)" by (cases "gettoken b s2") auto
  obtain mode fd where f: "redir_flags tok = (mode, fd)" by fastforce
  show ?case
  proof (cases "more \<and> w = T_WORD")
    case False
    then show ?thesis using p g h peek_le [OF p] peek_bound [OF p] 1(2,3)
      by (auto simp: parseredirs.simps [of cmd b s])
  next
    case True
    then have le: "s < s2" "s2 \<le> length b" using gettoken_after_peek p g by auto
    then have "s2 \<le> s3" "s3 \<le> length b" using gettoken_pos [OF h] by auto
    moreover have "word_token b (q, eq)" using gettoken_word h True le(2) 1(4) by blast
    ultimately have "parse_ok b s3 (parseredirs (REDIR cmd (q, eq) mode fd) b s3)"
      using 1 p g h f True by auto
    then show ?thesis
      using parse_ok_mono p g h f True le \<open>s2 \<le> s3\<close> by (simp add: parseredirs.simps [of cmd b s])
  qed
qed

lemma parseargs_ok:
  assumes "0 \<notin> set b"
  shows "s \<le> length b \<Longrightarrow> \<forall>t \<in> set_cmd ret. word_token b t \<Longrightarrow> parse_ok b s (parseargs ret argc b s)"
  using assms
proof (induction ret argc b s rule: parseargs.induct)
  case (1 ret argc b s)
  obtain s1 stop where p: "peek b s [T_BAR, T_RPAR, T_AMP, T_SEMI] = (s1, stop)" by fastforce
  obtain tok q eq s2 where g: "gettoken b s1 = (tok, q, eq, s2)" by (cases "gettoken b s1") auto
  have s1: "s \<le> s1" "s1 \<le> length b" using peek_le [OF p] peek_bound [OF p 1(2)] by auto
  then have s2: "s1 \<le> s2" "s2 \<le> length b" using gettoken_pos [OF g] by auto
  show ?case
  proof (cases "\<not> stop \<and> tok = T_WORD \<and> argc + 1 < MAXARGS")
    case False
    then show ?thesis using p g s1 s2 1(3) by (auto simp: parseargs.simps [of ret argc b s])
  next
    case True
    have "word_token b (q, eq)" using gettoken_word g True s1(2) 1(4) by blast
    then have t: "\<forall>t \<in> set_cmd (add_arg (q, eq) ret). word_token b t"
      using set_add_arg [of "(q, eq)" ret] 1(3) by auto
    have "parse_ok b s2 (pbind (parseredirs (add_arg (q, eq) ret) b s2) (\<lambda>ret' s3. parseargs ret' (argc + 1) b s3))"
    proof (rule parse_ok_bind [OF parseredirs_ok [OF 1(4) s2(2) t]])
      fix c s'
      assume r: "parseredirs (add_arg (q, eq) ret) b s2 = Parsed c s'" "s2 \<le> s'" "s' \<le> length b"
        "\<forall>t \<in> set_cmd c. word_token b t"
      then have "parse_ok b s' (parseargs c (argc + 1) b s')"
        using 1(1) [OF p [symmetric] _ g [symmetric] refl refl _ _ _ r(1) r(3,4) 1(4)] True by simp
      then show "parse_ok b s2 (parseargs c (argc + 1) b s')" using parse_ok_mono r(2) by blast
    qed
    then show ?thesis using parse_ok_mono p g True s1 s2 by (simp add: parseargs.simps [of ret argc b s])
  qed
qed

lemma parseamps_ok:
  assumes "s \<le> length b" and "parseamps cmd b s = (c, s')"
  shows "s \<le> s' \<and> s' \<le> length b \<and> set_cmd c = set_cmd cmd"
  using assms
proof (induction cmd b s rule: parseamps.induct)
  case (1 cmd b s)
  obtain s1 more where p: "peek b s [T_AMP] = (s1, more)" by fastforce
  obtain tok q eq s2 where g: "gettoken b s1 = (tok, q, eq, s2)" by (cases "gettoken b s1") auto
  show ?case
  proof (cases more)
    case False
    then show ?thesis using p 1(2,3) peek_le [OF p] peek_bound [OF p] by (simp add: parseamps.simps [of cmd b s])
  next
    case True
    have le: "s < s2" "s2 \<le> length b" using gettoken_after_peek p g True by auto
    have "parseamps (BACK cmd) b s2 = (c, s')" using 1(3) p g True by (simp add: parseamps.simps [of cmd b s])
    then show ?thesis using 1(1) [OF p [symmetric] _ g [symmetric] refl refl le(2)] True le by simp
  qed
qed

lemma parser_ok:
  assumes "0 \<notin> set b"
  shows "s \<le> length b \<Longrightarrow> parse_ok b s (parseline n b s)"
    and "s \<le> length b \<Longrightarrow> parse_ok b s (parsepipe n b s)"
    and "s \<le> length b \<Longrightarrow> parse_ok b s (parseblock n b s)"
    and "s \<le> length b \<Longrightarrow> parse_ok b s (parseexec n b s)"
  using assms
proof (induction n b s and n b s and n b s and n b s rule: parseline_parsepipe_parseblock_parseexec.induct)
  case (2 n b s)
  show ?case unfolding parseline.simps
  proof (rule parse_ok_bind [OF 2(1) [OF 2(3,4)]])
    fix c s1
    assume c: "parsepipe n b s = Parsed c s1" "s \<le> s1" "s1 \<le> length b" "\<forall>t \<in> set_cmd c. word_token b t"
    obtain c' s2 where a: "parseamps c b s1 = (c', s2)" by fastforce
    obtain s3 semi where p: "peek b s2 [T_SEMI] = (s3, semi)" by fastforce
    obtain tok q eq s4 where g: "gettoken b s3 = (tok, q, eq, s4)" by (cases "gettoken b s3") auto
    have a': "s1 \<le> s2" "s2 \<le> length b" "set_cmd c' = set_cmd c" using parseamps_ok [OF c(3) a] by auto
    have p': "s2 \<le> s3" "s3 \<le> length b" using peek_le [OF p] peek_bound [OF p a'(2)] by auto
    have g': "s3 \<le> s4" "s4 \<le> length b" using gettoken_pos [OF g p'(2)] by auto
    have r: "parse_ok b s4 (parseline n b s4)" if semi
      using 2(2) [OF c(1) a [symmetric] p [symmetric] that g [symmetric] refl refl g'(2) 2(4)] .
    then show "parse_ok b s (case parseamps c b s1 of (cmd', s2) \<Rightarrow>
       case peek b s2 [T_SEMI] of (s3, semi) \<Rightarrow>
       if semi then (case gettoken b s3 of (_, _, _, s4) \<Rightarrow> pbind (parseline n b s4) (\<lambda>r s5. Parsed (LIST cmd' r) s5))
       else Parsed cmd' s3)"
      using a p g a' p' g' c by (auto intro!: parse_ok_bind [OF parse_ok_mono [OF r]])
  qed
next
  case (4 n b s)
  show ?case unfolding parsepipe.simps
  proof (rule parse_ok_bind [OF 4(1) [OF 4(3,4)]])
    fix c s1
    assume c: "parseexec n b s = Parsed c s1" "s \<le> s1" "s1 \<le> length b" "\<forall>t \<in> set_cmd c. word_token b t"
    obtain s2 bar where p: "peek b s1 [T_BAR] = (s2, bar)" by fastforce
    obtain tok q eq s3 where g: "gettoken b s2 = (tok, q, eq, s3)" by (cases "gettoken b s2") auto
    have p': "s1 \<le> s2" "s2 \<le> length b" using peek_le [OF p] peek_bound [OF p c(3)] by auto
    have g': "s2 \<le> s3" "s3 \<le> length b" using gettoken_pos [OF g p'(2)] by auto
    have r: "parse_ok b s3 (parsepipe n b s3)" if bar
      using 4(2) [OF c(1) p [symmetric] that g [symmetric] refl refl g'(2) 4(4)] .
    then show "parse_ok b s (case peek b s1 [T_BAR] of (s2, bar) \<Rightarrow>
       if bar then (case gettoken b s2 of (_, _, _, s3) \<Rightarrow> pbind (parsepipe n b s3) (\<lambda>r s4. Parsed (PIPE c r) s4))
       else Parsed c s2)"
      using p g p' g' c by (auto intro!: parse_ok_bind [OF parse_ok_mono [OF r]])
  qed
next
  case (6 n b s)
  obtain s1 op where p: "peek b s [T_LPAR] = (s1, op)" by fastforce
  obtain tok q eq s2 where g: "gettoken b s1 = (tok, q, eq, s2)" by (cases "gettoken b s1") auto
  show ?case
  proof (cases op)
    case False
    then show ?thesis using p by simp
  next
    case True
    have s2: "s < s2" "s2 \<le> length b" using gettoken_after_peek p g True by auto
    have ok: "parse_ok b s2 (parseline n b s2)"
      using 6(1) [OF p [symmetric] _ g [symmetric] refl refl s2(2) 6(3)] True by simp
    have "parse_ok b s2 (case peek b s3 [T_RPAR] of (s4, closed) \<Rightarrow>
            if \<not> closed then Panic ''syntax - missing )''
            else (case gettoken b s4 of (_, _, _, s5) \<Rightarrow> parseredirs c b s5))"
      if c: "s2 \<le> s3" "s3 \<le> length b" "\<forall>t \<in> set_cmd c. word_token b t" for c s3
    proof -
      obtain s4 closed where p2: "peek b s3 [T_RPAR] = (s4, closed)" by fastforce
      obtain tok' q' eq' s5 where g2: "gettoken b s4 = (tok', q', eq', s5)" by (cases "gettoken b s4") auto
      have "s3 < s5 \<and> s5 \<le> length b" if closed using gettoken_after_peek [OF _ g2] p2 that by auto
      then show ?thesis
        using p2 g2 c parseredirs_ok [OF 6(3), of s5 c] parse_ok_mono [of b s5 "parseredirs c b s5" s2] by auto
    qed
    then have "parse_ok b s2 (pbind (parseline n b s2) (\<lambda>cmd s3.
          case peek b s3 [T_RPAR] of (s4, closed) \<Rightarrow>
            if \<not> closed then Panic ''syntax - missing )''
            else (case gettoken b s4 of (_, _, _, s5) \<Rightarrow> parseredirs cmd b s5)))"
      by (intro parse_ok_bind [OF ok])
    then show ?thesis using p g True parse_ok_mono s2(1) by (simp add: less_imp_le)
  qed
next
  case (8 n b s)
  obtain s1 op where p: "peek b s [T_LPAR] = (s1, op)" by fastforce
  have s1: "s \<le> s1" "s1 \<le> length b" using peek_le [OF p] peek_bound [OF p 8(2)] by auto
  have "parse_ok b s1 (parseblock n b s1)" if op using 8(1) [OF p [symmetric] that s1(2) 8(3)] .
  moreover have "parse_ok b s1 (pbind (parseredirs (EXEC []) b s1) (\<lambda>ret s2. parseargs ret 0 b s2))"
    by (rule parse_ok_bind [OF parseredirs_ok [OF 8(3) s1(2)]])
      (auto intro: parse_ok_mono parseargs_ok [OF 8(3)])
  ultimately show ?case using p s1 parse_ok_mono by auto
qed simp_all

lemma parseredirs_fuel: "parseredirs cmd b s \<noteq> NoFuel"
proof (induction cmd b s rule: parseredirs.induct)
  case (1 cmd b s)
  then show ?case by (subst parseredirs.simps) (auto split: prod.split)
qed

lemma parseargs_fuel: "parseargs ret argc b s \<noteq> NoFuel"
proof (induction ret argc b s rule: parseargs.induct)
  case (1 ret argc b s)
  then show ?case
    by (subst parseargs.simps) (auto simp: pbind_NoFuel parseredirs_fuel split: prod.split)
qed

text \<open>The bound on the depth that \<open>parsecmd\<close> passes is never reached.\<close>

lemma parser_fuel:
  assumes "0 \<notin> set b"
  shows "s \<le> length b \<Longrightarrow> 4 * (length b - s) + 4 \<le> n \<Longrightarrow> parseline n b s \<noteq> NoFuel"
    and "s \<le> length b \<Longrightarrow> 4 * (length b - s) + 3 \<le> n \<Longrightarrow> parsepipe n b s \<noteq> NoFuel"
    and "s \<le> length b \<Longrightarrow> 4 * (length b - s) + 1 \<le> n \<Longrightarrow> parseblock n b s \<noteq> NoFuel"
    and "s \<le> length b \<Longrightarrow> 4 * (length b - s) + 2 \<le> n \<Longrightarrow> parseexec n b s \<noteq> NoFuel"
  using assms
proof (induction n b s and n b s and n b s and n b s rule: parseline_parsepipe_parseblock_parseexec.induct)
  case (2 n b s)
  have "parseline n b s4 \<noteq> NoFuel"
    if "parsepipe n b s = Parsed c s1" "parseamps c b s1 = (c', s2)" "peek b s2 [T_SEMI] = (s3, True)"
      "gettoken b s3 = (tok, q, eq, s4)" for c s1 c' s2 s3 tok q eq s4
  proof -
    have s1: "s \<le> s1" "s1 \<le> length b" using parse_okD [OF parser_ok(2) [OF 2(5,3)] that(1)] by auto
    have "s1 \<le> s2" using parseamps_ok [OF s1(2) that(2)] by simp
    moreover have "s2 < s4" "s4 \<le> length b" using gettoken_after_peek [OF that(3,4)] by auto
    ultimately show ?thesis
      using 2(2) [OF that(1) that(2) [symmetric] that(3) [symmetric] _ that(4) [symmetric] refl refl _ _ 2(5)] 2(4) s1
      by simp
  qed
  then show ?case using 2 by (auto simp: pbind_NoFuel split: prod.splits)
next
  case (4 n b s)
  have "parsepipe n b s3 \<noteq> NoFuel"
    if "parseexec n b s = Parsed c s1" "peek b s1 [T_BAR] = (s2, True)" "gettoken b s2 = (tok, q, eq, s3)"
    for c s1 s2 tok q eq s3
  proof -
    have s1: "s \<le> s1" "s1 \<le> length b" using parse_okD [OF parser_ok(4) [OF 4(5,3)] that(1)] by auto
    moreover have "s1 < s3" "s3 \<le> length b" using gettoken_after_peek [OF that(2,3)] by auto
    ultimately show ?thesis
      using 4(2) [OF that(1) that(2) [symmetric] _ that(3) [symmetric] refl refl _ _ 4(5)] 4(4) by simp
  qed
  then show ?case using 4 by (auto simp: pbind_NoFuel split: prod.splits)
next
  case (6 n b s)
  have "parseline n b s2 \<noteq> NoFuel"
    if "peek b s [T_LPAR] = (s1, True)" "gettoken b s1 = (tok, q, eq, s2)" for s1 tok q eq s2
  proof -
    have "s < s2" "s2 \<le> length b" using gettoken_after_peek [OF that] by auto
    then show ?thesis
      using 6(1) [OF that(1) [symmetric] _ that(2) [symmetric] refl refl _ _ 6(4)] 6(3) by simp
  qed
  then show ?case by (auto simp: pbind_NoFuel parseredirs_fuel split: prod.splits)
next
  case (8 n b s)
  have "parseblock n b s1 \<noteq> NoFuel" if "peek b s [T_LPAR] = (s1, True)" for s1
    using 8(1) [OF that [symmetric] _ _ _ 8(4)] 8(3) peek_le [OF that] peek_bound [OF that 8(2)] by simp
  then show ?case by (auto simp: pbind_NoFuel parseredirs_fuel parseargs_fuel split: prod.splits)
qed simp_all

section \<open>The words after \<open>nulterminate\<close>\<close>

definition string_from :: "u8 list \<Rightarrow> nat \<Rightarrow> u8 list" where
  "string_from buf q = takeWhile (\<lambda>c. c \<noteq> 0) (drop q buf)"

definition word_of :: "u8 list \<Rightarrow> token \<Rightarrow> u8 list" where
  "word_of b t = (case t of (q, eq) \<Rightarrow> take (eq - q) (drop q b))"

lemma nth_update_at: "i < length xs \<Longrightarrow> xs[j := x] ! i = (if i = j then x else xs ! i)"
  by (cases "i = j") simp_all

lemma fold_nul_nth:
  "i < length buf \<Longrightarrow> fold (\<lambda>(q, eq) m. m[eq := 0]) ws buf ! i = (if i \<in> snd ` set ws then (0 :: u8) else buf ! i)"
  by (induction ws arbitrary: buf) (simp_all add: nth_update_at split_beta)

lemma length_fold_nul [simp]: "length (fold (\<lambda>(q, eq) m. m[eq := (0 :: u8)]) ws buf) = length buf"
  by (induction ws arbitrary: buf) auto

lemma length_nulterminate [simp]: "length (nulterminate c buf) = length buf"
  by (induction c buf rule: nulterminate.induct) auto

lemma nulterminate_nth:
  "i < length buf \<Longrightarrow> nulterminate c buf ! i = (if i \<in> snd ` set_cmd c then 0 else buf ! i)"
  by (induction c buf rule: nulterminate.induct) (simp_all add: fold_nul_nth nth_update_at image_Un)

lemma nulterminate_word:
  assumes "\<forall>t \<in> set_cmd c. word_token b t" and "(q, eq) \<in> set_cmd c"
  shows "string_from (nulterminate c (b @ [0])) q = word_of b (q, eq)"
proof -
  let ?m = "nulterminate c (b @ [0])"
  have t: "q < eq" "eq \<le> length b" "\<And>i. q \<le> i \<Longrightarrow> i < eq \<Longrightarrow> word_char (b ! i) \<and> b ! i \<noteq> 0"
    using assms by (auto simp: word_token_def)
  have keep: "i \<notin> snd ` set_cmd c" if "q \<le> i" "i < eq" for i
    using assms(1) t(2) t(3) [OF that] that by (fastforce simp: word_token_def)
  have word: "?m ! i = b ! i" if "q \<le> i" "i < eq" for i
    using keep [OF that] that t(2) by (simp add: nulterminate_nth nth_append)
  have nul: "?m ! eq = 0" using assms(2) t(2) by (force simp: nulterminate_nth)
  have pieces: "drop q ?m = take (eq - q) (drop q ?m) @ 0 # drop (Suc eq) ?m"
    using id_take_nth_drop [of "eq - q" "drop q ?m"] t(1,2) nul by (simp add: add.commute)
  have take: "take (eq - q) (drop q ?m) = word_of b (q, eq)"
    using t(1,2) by (intro nth_equalityI) (simp_all add: word_of_def word)
  have "\<forall>x \<in> set (word_of b (q, eq)). x \<noteq> 0"
    using t by (auto simp: word_of_def in_set_conv_nth)
  then show ?thesis
    unfolding string_from_def by (subst pieces) (simp add: take takeWhile_append2)
qed

text \<open>
  C25.  \<open>parsecmd\<close> always comes back on a line without NULs, however deeply it nests: it panics with
  a message, or it returns a tree whose words are maximal runs of word characters of the line, and
  in the buffer that \<open>nulterminate\<close> leaves each of their pointers is the C string of exactly that
  word.
\<close>

theorem parsecmd_returns_words:
  assumes "0 \<notin> set b"
  shows "(\<exists>msg. parsecmd b = Panic msg) \<or>
     (\<exists>c buf. parsecmd b = Parsed (c, buf) (length b)
        \<and> (\<forall>(q, eq) \<in> set_cmd c. word_token b (q, eq) \<and> string_from buf q = word_of b (q, eq)))"
proof (cases "parseline (parse_fuel b) b 0")
  case NoFuel
  then show ?thesis using parser_fuel(1) [OF assms, of 0] by (simp add: parse_fuel_def)
next
  case (Panic m)
  then show ?thesis by (simp add: parsecmd_def)
next
  case (Parsed c s)
  have "\<forall>t \<in> set_cmd c. word_token b t" using parse_okD(3) [OF parser_ok(1) [OF assms] Parsed] by simp
  then have "\<forall>(q, eq) \<in> set_cmd c. word_token b (q, eq)
      \<and> string_from (nulterminate c (b @ [0])) q = word_of b (q, eq)"
    using nulterminate_word by blast
  then show ?thesis using Parsed by (auto simp: parsecmd_def split: prod.split)
qed

lemma parsecmd_returns_words_witness:
  "\<exists>c buf. parsecmd [97, 98, 124, 99] = Parsed (c, buf) 4
     \<and> string_from buf 0 = [97, 98] \<and> c = PIPE (EXEC [(0, 2)]) (EXEC [(3, 4)])"
proof -
  have "(0 :: u8) \<notin> set [97, 98, 124, 99]" by simp
  moreover have "parsecmd [97, 98, 124, 99] = Parsed (PIPE (EXEC [(0, 2)]) (EXEC [(3, 4)]), [97, 98, 0, 99, 0]) 4"
    by code_simp
  ultimately show ?thesis using parsecmd_returns_words [of "[97, 98, 124, 99]"] by (auto simp: word_of_def)
qed

section \<open>Printing and parsing\<close>

text \<open>
  The grammar of the shell, apart from any buffer: what a line means and how it can be written,
  each token followed by a space.
\<close>

datatype redir = Redir u8 "u8 list"

datatype line = Line1 pline nat | LineSeq pline nat line
  and pline = Pipe1 eline | PipeTo eline pline
  and eline = Simple "redir list" "(u8 list \<times> redir list) list" | Block line "redir list"

definition amps_text :: "nat \<Rightarrow> u8 list" where
  "amps_text n = concat (replicate n [T_AMP, 32])"

primrec redir_text :: "redir \<Rightarrow> u8 list" where
  "redir_text (Redir k w) = (if k = T_PLUS then [T_GT, T_GT, 32] else [k, 32]) @ w @ [32]"

definition redirs_text :: "redir list \<Rightarrow> u8 list" where
  "redirs_text rs = concat (map redir_text rs)"

definition args_text :: "(u8 list \<times> redir list) list \<Rightarrow> u8 list" where
  "args_text ws = concat (map (\<lambda>(w, rs). w @ 32 # redirs_text rs) ws)"

primrec line_text :: "line \<Rightarrow> u8 list"
  and pline_text :: "pline \<Rightarrow> u8 list"
  and eline_text :: "eline \<Rightarrow> u8 list" where
  "line_text (Line1 p n) = pline_text p @ amps_text n"
| "line_text (LineSeq p n l) = pline_text p @ amps_text n @ [T_SEMI, 32] @ line_text l"
| "pline_text (Pipe1 e) = eline_text e"
| "pline_text (PipeTo e p) = eline_text e @ [T_BAR, 32] @ pline_text p"
| "eline_text (Simple rs ws) = redirs_text rs @ args_text ws"
| "eline_text (Block l rs) = [T_LPAR, 32] @ line_text l @ [T_RPAR, 32] @ redirs_text rs"

primrec redir_cmd :: "redir \<Rightarrow> u8 list cmd \<Rightarrow> u8 list cmd" where
  "redir_cmd (Redir k w) c = (case redir_flags k of (mode, fd) \<Rightarrow> REDIR c w mode fd)"

primrec line_cmd :: "line \<Rightarrow> u8 list cmd"
  and pline_cmd :: "pline \<Rightarrow> u8 list cmd"
  and eline_cmd :: "eline \<Rightarrow> u8 list cmd" where
  "line_cmd (Line1 p n) = (BACK ^^ n) (pline_cmd p)"
| "line_cmd (LineSeq p n l) = LIST ((BACK ^^ n) (pline_cmd p)) (line_cmd l)"
| "pline_cmd (Pipe1 e) = eline_cmd e"
| "pline_cmd (PipeTo e p) = PIPE (eline_cmd e) (pline_cmd p)"
| "eline_cmd (Simple rs ws) = fold redir_cmd (rs @ concat (map snd ws)) (EXEC (map fst ws))"
| "eline_cmd (Block l rs) = fold redir_cmd rs (line_cmd l)"

definition word_ok :: "u8 list \<Rightarrow> bool" where
  "word_ok w \<longleftrightarrow> w \<noteq> [] \<and> (\<forall>c \<in> set w. word_char c \<and> c \<noteq> 0)"

primrec redir_ok :: "redir \<Rightarrow> bool" where
  "redir_ok (Redir k w) = (k \<in> {T_LT, T_GT, T_PLUS} \<and> word_ok w)"

primrec line_ok :: "line \<Rightarrow> bool"
  and pline_ok :: "pline \<Rightarrow> bool"
  and eline_ok :: "eline \<Rightarrow> bool" where
  "line_ok (Line1 p n) = pline_ok p"
| "line_ok (LineSeq p n l) = (pline_ok p \<and> line_ok l)"
| "pline_ok (Pipe1 e) = eline_ok e"
| "pline_ok (PipeTo e p) = (eline_ok e \<and> pline_ok p)"
| "eline_ok (Simple rs ws) =
     (list_all redir_ok rs \<and> list_all (\<lambda>(w, rs). word_ok w \<and> list_all redir_ok rs) ws
      \<and> length ws < MAXARGS)"
| "eline_ok (Block l rs) = (line_ok l \<and> list_all redir_ok rs)"

subsection \<open>Tokens at a position\<close>

text \<open>\<open>x\<close> is the rest of the line from a position where a token, or the end, is.\<close>

definition at_token :: "u8 list \<Rightarrow> bool" where
  "at_token x \<longleftrightarrow> (x = [] \<or> hd x \<noteq> 0 \<and> hd x \<notin> set whitespace)"

lemma drop_nth: "drop s b = c # x \<Longrightarrow> s < length b \<and> b ! s = c \<and> drop (Suc s) b = x"
  by (metis Cons_nth_drop_Suc drop_all list.distinct(1) list.inject not_le_imp_less)

lemma skip_ws_here:
  assumes "drop s b = x" and "at_token x"
  shows "skip_ws b s = s"
proof (cases x)
  case Nil
  then show ?thesis using assms(1) by (simp add: skip_ws_def)
next
  case (Cons c y)
  then show ?thesis using assms drop_nth [of s b c y] by (simp add: skip_ws_def at_token_def)
qed

lemma skip_ws_space:
  assumes "drop s b = 32 # x" and "at_token x"
  shows "skip_ws b s = Suc s"
proof -
  have "s < length b" "b ! s = 32" "drop (Suc s) b = x" using drop_nth [OF assms(1)] by auto
  then show ?thesis using skip_ws_here [of "Suc s" b x] assms(2)
    by (simp add: skip_ws_def skip_chars_go [of s] whitespace_def)
qed

lemma char_at_here: "drop s b = x \<Longrightarrow> char_at b s = (case x of [] \<Rightarrow> 0 | c # _ \<Rightarrow> c)"
  using drop_nth [of s b] by (auto simp: char_at_def split: list.split)

lemma peek_here:
  assumes "drop s b = x" and "at_token x"
  shows "peek b s toks = (s, x \<noteq> [] \<and> hd x \<in> set toks)"
  using assms skip_ws_here [OF assms] char_at_here [OF assms(1)]
  by (auto simp: peek_def Let_def at_token_def split: list.split)

lemma gettoken_symbol:
  assumes "drop s b = c # 32 # x" and "at_token x"
    and "c \<in> {T_BAR, T_LPAR, T_RPAR, T_SEMI, T_AMP, T_LT, T_GT}"
  shows "gettoken b s = (c, s, s + 1, s + 2)"
proof -
  have "at_token (c # 32 # x)" using assms(3) by (auto simp: at_token_def whitespace_def)
  then have q: "skip_ws b s = s" using skip_ws_here assms(1) by blast
  have d: "drop (Suc s) b = 32 # x" using drop_nth [OF assms(1)] by simp
  show ?thesis
    using q char_at_here [OF assms(1)] char_at_here [OF d] skip_ws_space [OF d assms(2)] assms(3)
    by (auto simp: gettoken_def Let_def)
qed

lemma gettoken_append:
  assumes "drop s b = T_GT # T_GT # 32 # x" and "at_token x"
  shows "gettoken b s = (T_PLUS, s, s + 2, s + 3)"
proof -
  have "at_token (T_GT # T_GT # 32 # x)" by (simp add: at_token_def whitespace_def)
  then have q: "skip_ws b s = s" using skip_ws_here assms(1) by blast
  have d: "drop (Suc s) b = T_GT # 32 # x" using drop_nth [OF assms(1)] by simp
  then have d2: "drop (Suc (Suc s)) b = 32 # x" using drop_nth [OF d] by simp
  show ?thesis
    using q char_at_here [OF assms(1)] char_at_here [OF d] skip_ws_space [OF d2 assms(2)]
    by (simp add: gettoken_def Let_def)
qed

lemma skip_chars_word:
  "drop s b = w @ 32 # x \<Longrightarrow> (\<forall>c \<in> set w. word_char c) \<Longrightarrow> skip_chars word_char b s = s + length w"
proof (induction w arbitrary: s)
  case Nil
  then show ?case using drop_nth [of s b 32 x] by (simp add: word_char_def whitespace_def)
next
  case (Cons c w)
  then have "s < length b" "b ! s = c" "drop (Suc s) b = w @ 32 # x" using drop_nth [of s b c] by auto
  then show ?case using Cons by simp
qed

lemma gettoken_a_word:
  assumes "drop s b = w @ 32 # x" and "at_token x" and "word_ok w"
  shows "gettoken b s = (T_WORD, s, s + length w, s + length w + 1)" and "word_of b (s, s + length w) = w"
proof -
  obtain c v where w: "w = c # v" "word_char c" "c \<noteq> 0" using assms(3) by (cases w) (auto simp: word_ok_def)
  then have "at_token (w @ 32 # x)" by (auto simp: at_token_def word_char_def)
  then have q: "skip_ws b s = s" using skip_ws_here assms(1) by blast
  have e: "skip_chars word_char b s = s + length w"
    using skip_chars_word [OF assms(1)] assms(3) by (simp add: word_ok_def)
  have "drop (s + length w) b = 32 # x" using assms(1) by (metis add.commute append_eq_conv_conj drop_drop)
  from skip_ws_space [OF this assms(2)] show "gettoken b s = (T_WORD, s, s + length w, s + length w + 1)"
    using q e char_at_here [OF assms(1)] w by (auto simp: gettoken_def Let_def word_char_def symbols_def)
  show "word_of b (s, s + length w) = w" using assms(1) by (simp add: word_of_def)
qed

subsection \<open>Parsing what was printed\<close>

lemma map_add_arg: "map_cmd f (add_arg w c) = add_arg (f w) (map_cmd f c)"
  by (induction w c rule: add_arg.induct) simp_all

lemma add_arg_redirs: "add_arg w (fold redir_cmd rs c) = fold redir_cmd rs (add_arg w c)"
proof (induction rs arbitrary: c)
  case (Cons r rs)
  then show ?case by (cases r) (simp add: split_beta)
qed simp

lemma args_redirs:
  "fold (\<lambda>(w, rs) c. fold redir_cmd rs (add_arg w c)) ws (fold redir_cmd rs (EXEC as)) =
     fold redir_cmd (rs @ concat (map snd ws)) (EXEC (as @ map fst ws))"
proof (induction ws arbitrary: rs as)
  case (Cons a ws)
  obtain w rs' where a: "a = (w, rs')" by (cases a)
  have "fold redir_cmd rs' (add_arg w (fold redir_cmd rs (EXEC as))) =
      fold redir_cmd (rs @ rs') (EXEC (as @ [w]))"
    by (simp add: add_arg_redirs)
  then show ?case using Cons [of "rs @ rs'" "as @ [w]"] by (simp add: a)
qed simp

lemma map_backs: "map_cmd f ((BACK ^^ n) c) = (BACK ^^ n) (map_cmd f c)"
  by (induction n) simp_all

definition follows :: "u8 set \<Rightarrow> u8 list \<Rightarrow> bool" where
  "follows F x \<longleftrightarrow> at_token x \<and> (x = [] \<or> hd x \<in> F)"

lemma follows_token: "follows F x \<Longrightarrow> at_token x"
  by (simp add: follows_def)

lemma follows_mono: "follows F x \<Longrightarrow> F \<subseteq> G \<Longrightarrow> follows G x"
  by (auto simp: follows_def)

lemma peek_follows:
  "drop s b = x \<Longrightarrow> follows F x \<Longrightarrow> F \<inter> set toks = {} \<Longrightarrow> peek b s toks = (s, False)"
  using peek_here [of s b x toks] by (auto simp: follows_def)

lemma follows_Cons: "c \<noteq> 0 \<Longrightarrow> c \<notin> set whitespace \<Longrightarrow> c \<in> F \<Longrightarrow> follows F (c # x)"
  by (simp add: follows_def at_token_def)

lemma follows_redirs:
  "list_all redir_ok rs \<Longrightarrow> follows F x \<Longrightarrow> follows (insert T_LT (insert T_GT F)) (redirs_text rs @ x)"
proof (cases rs)
  case (Cons r rs')
  moreover assume "list_all redir_ok rs"
  ultimately show ?thesis
    by (cases r) (auto simp: redirs_text_def follows_def at_token_def whitespace_def)
qed (auto simp: redirs_text_def follows_def)

lemma follows_args:
  assumes "list_all (\<lambda>(w, rs). word_ok w \<and> list_all redir_ok rs) ws" and "follows F x"
  shows "follows (Collect word_char \<union> F) (args_text ws @ x)"
proof (cases ws)
  case (Cons a ws')
  obtain w rs where a: "a = (w, rs)" by (cases a)
  then obtain c v where "w = c # v" "word_char c" "c \<noteq> 0"
    using assms(1) Cons by (cases w) (auto simp: word_ok_def)
  then show ?thesis by (simp add: Cons a args_text_def follows_def at_token_def word_char_def)
qed (use assms in \<open>auto simp: args_text_def follows_def\<close>)

lemma drop_past: "drop s b = u @ x \<Longrightarrow> drop (s + length u) b = x"
  by (metis add.commute append_eq_conv_conj drop_drop)

lemma parseredirs_text:
  assumes "list_all redir_ok rs" and "drop s b = redirs_text rs @ x"
    and "follows F x" and "F \<inter> {T_LT, T_GT} = {}"
  shows "\<exists>c'. parseredirs c b s = Parsed c' (s + length (redirs_text rs))
     \<and> map_cmd (word_of b) c' = fold redir_cmd rs (map_cmd (word_of b) c)"
  using assms(1,2)
proof (induction rs arbitrary: c s)
  case Nil
  then show ?case
    using peek_follows [of s b x F "[T_LT, T_GT]"] assms(3,4)
    by (simp add: redirs_text_def parseredirs.simps [of c b s])
next
  case (Cons r rs)
  obtain k w where r: "r = Redir k w" by (cases r)
  have ok: "k \<in> {T_LT, T_GT, T_PLUS}" "word_ok w" "list_all redir_ok rs" using Cons.prems(1) by (auto simp: r)
  define kt where "kt = (if k = T_PLUS then [T_GT, T_GT, 32] else [k, 32])"
  let ?rest = "redirs_text rs @ x"
  have all: "drop s b = kt @ w @ 32 # ?rest" using Cons.prems(2) by (simp add: r kt_def redirs_text_def)
  have rest: "at_token ?rest" using follows_redirs [OF ok(3) assms(3)] by (rule follows_token)
  have wt: "at_token (w @ 32 # ?rest)" using ok(2) by (cases w) (auto simp: word_ok_def at_token_def word_char_def)
  have at: "at_token (kt @ w @ 32 # ?rest)" using ok(1) by (auto simp: kt_def at_token_def whitespace_def)
  have p: "peek b s [T_LT, T_GT] = (s, True)"
    using peek_here [OF all at] ok(1) by (auto simp: kt_def)
  have g: "\<exists>eq. gettoken b s = (k, s, eq, s + length kt)"
  proof (cases "k = T_PLUS")
    case True
    then show ?thesis using gettoken_append [of s b "w @ 32 # ?rest"] all wt by (simp add: kt_def numeral_3_eq_3)
  next
    case False
    then show ?thesis using gettoken_symbol [of s b k "w @ 32 # ?rest"] all wt ok(1) by (auto simp: kt_def)
  qed
  let ?s2 = "s + length kt"
  have d2: "drop ?s2 b = w @ 32 # ?rest" using drop_past [OF all] .
  note h = gettoken_a_word [OF d2 rest ok(2)]
  let ?s3 = "?s2 + length w + 1"
  have "drop ?s3 b = ?rest" using drop_past [of ?s2 b "w @ [32]"] d2 by simp
  from Cons.IH [OF ok(3) this]
  obtain c' where c': "parseredirs (REDIR c (?s2, ?s2 + length w) (fst (redir_flags k)) (snd (redir_flags k))) b ?s3
        = Parsed c' (?s3 + length (redirs_text rs))"
      "map_cmd (word_of b) c' = fold redir_cmd rs
         (map_cmd (word_of b) (REDIR c (?s2, ?s2 + length w) (fst (redir_flags k)) (snd (redir_flags k))))"
    by blast
  have len: "length (redirs_text (r # rs)) = length kt + length w + 1 + length (redirs_text rs)"
    by (simp add: r kt_def redirs_text_def)
  show ?case
    using p g h c' len by (auto simp: parseredirs.simps [of c b s] r split_beta add.assoc)
qed

lemma parseargs_text:
  assumes "list_all (\<lambda>(w, rs). word_ok w \<and> list_all redir_ok rs) ws"
    and "drop s b = args_text ws @ x" and "argc + length ws < MAXARGS"
    and "follows {T_BAR, T_RPAR, T_AMP, T_SEMI} x"
  shows "\<exists>c'. parseargs c argc b s = Parsed c' (s + length (args_text ws))
     \<and> map_cmd (word_of b) c' =
         fold (\<lambda>(w, rs) c. fold redir_cmd rs (add_arg w c)) ws (map_cmd (word_of b) c)"
  using assms(1-3)
proof (induction ws arbitrary: c s argc)
  case Nil
  have p: "peek b s [T_BAR, T_RPAR, T_AMP, T_SEMI] = (s, x \<noteq> [])"
    using peek_here [of s b x] Nil(2) assms(4) by (auto simp: args_text_def follows_def)
  have "gettoken b s = (0, s, s, s)" if "x = []"
    using that Nil(2) skip_ws_here [of s b "[]"] char_at_here [of s b "[]"]
    by (simp add: args_text_def gettoken_def Let_def at_token_def)
  then show ?case using p by (auto simp: args_text_def parseargs.simps [of c argc b s])
next
  case (Cons a ws)
  obtain w rs where a: "a = (w, rs)" by (cases a)
  have ok: "word_ok w" "list_all redir_ok rs" "list_all (\<lambda>(w, rs). word_ok w \<and> list_all redir_ok rs) ws"
    using Cons.prems(1) by (auto simp: a)
  let ?r2 = "args_text ws @ x" and ?r1 = "redirs_text rs @ args_text ws @ x"
  have all: "drop s b = w @ 32 # ?r1" using Cons.prems(2) by (simp add: a args_text_def)
  have f2: "follows (Collect word_char \<union> {T_BAR, T_RPAR, T_AMP, T_SEMI}) ?r2"
    by (rule follows_args [OF ok(3) assms(4)])
  have f1: "at_token ?r1" using follows_redirs [OF ok(2) f2] by (rule follows_token)
  have f0: "follows (Collect word_char) (w @ 32 # ?r1)"
    using ok(1) by (cases w) (auto simp: word_ok_def follows_def at_token_def word_char_def)
  have p: "peek b s [T_BAR, T_RPAR, T_AMP, T_SEMI] = (s, False)"
    using peek_follows [OF all f0] by (auto simp: word_char_def symbols_def)
  note g = gettoken_a_word [OF all f1 ok(1)]
  let ?s2 = "s + length w + 1"
  have d2: "drop ?s2 b = ?r1" using drop_past [of s b "w @ [32]"] all by simp
  have disj: "(Collect word_char \<union> {T_BAR, T_RPAR, T_AMP, T_SEMI}) \<inter> {T_LT, T_GT} = {}"
    by (auto simp: word_char_def symbols_def)
  obtain c1 where c1: "parseredirs (add_arg (s, s + length w) c) b ?s2 = Parsed c1 (?s2 + length (redirs_text rs))"
      "map_cmd (word_of b) c1 = fold redir_cmd rs (map_cmd (word_of b) (add_arg (s, s + length w) c))"
    using parseredirs_text [OF ok(2) d2 f2 disj, where c = "add_arg (s, s + length w) c"] by blast
  let ?s3 = "?s2 + length (redirs_text rs)"
  have d3: "drop ?s3 b = ?r2" using drop_past [OF d2] by simp
  have "argc + 1 + length ws < MAXARGS" using Cons.prems(3) by simp
  then obtain c2 where c2: "parseargs c1 (argc + 1) b ?s3 = Parsed c2 (?s3 + length (args_text ws))"
      "map_cmd (word_of b) c2 =
         fold (\<lambda>(w, rs) c. fold redir_cmd rs (add_arg w c)) ws (map_cmd (word_of b) c1)"
    using Cons.IH [OF ok(3) d3, where c = c1] by blast
  have len: "length (args_text (a # ws)) = length w + 1 + length (redirs_text rs) + length (args_text ws)"
    by (simp add: a args_text_def)
  show ?case
    using p g c1 c2 len Cons.prems(3)
    by (auto simp: parseargs.simps [of c argc b s] a map_add_arg add.assoc)
qed

lemma parseamps_text:
  assumes "drop s b = amps_text n @ x" and "follows F x" and "T_AMP \<notin> F"
  shows "parseamps c b s = ((BACK ^^ n) c, s + length (amps_text n))"
  using assms(1)
proof (induction n arbitrary: c s)
  case 0
  then show ?case
    using peek_follows [of s b x F "[T_AMP]"] assms(2,3) by (simp add: amps_text_def parseamps.simps [of c b s])
next
  case (Suc n)
  have all: "drop s b = T_AMP # 32 # amps_text n @ x" using Suc.prems by (simp add: amps_text_def)
  have f: "at_token (amps_text n @ x)"
    using assms(2) by (cases n) (auto simp: amps_text_def follows_def at_token_def whitespace_def)
  have p: "peek b s [T_AMP] = (s, True)"
    using peek_here [OF all, of "[T_AMP]"] by (simp add: at_token_def whitespace_def)
  have g: "gettoken b s = (T_AMP, s, s + 1, s + 2)" by (rule gettoken_symbol [OF all f]) simp
  have "drop (s + 2) b = amps_text n @ x" using drop_past [of s b "[T_AMP, 32]"] all by simp
  from Suc.IH [OF this] show ?case
    using p g by (simp add: parseamps.simps [of c b s] amps_text_def funpow_swap1)
qed

lemma follows_amps: "follows F x \<Longrightarrow> follows (insert T_AMP F) (amps_text n @ x)"
  by (cases n) (auto simp: amps_text_def follows_def at_token_def whitespace_def)

lemma peek_symbol:
  assumes "drop s b = c # x" and "c \<in> {T_BAR, T_LPAR, T_RPAR, T_SEMI, T_AMP, T_LT, T_GT}"
  shows "peek b s [c] = (s, True)"
  using peek_here [OF assms(1), of "[c]"] assms(2) by (auto simp: at_token_def whitespace_def)

definition parses_to :: "u8 list \<Rightarrow> token cmd parsed \<Rightarrow> nat \<Rightarrow> u8 list cmd \<Rightarrow> bool" where
  "parses_to b m s c \<longleftrightarrow> (\<exists>c'. m = Parsed c' s \<and> map_cmd (word_of b) c' = c)"

lemma line_starts:
  "line_ok l \<Longrightarrow> follows {T_RPAR} x \<Longrightarrow> at_token (line_text l @ x)"
  "pline_ok p \<Longrightarrow> follows {T_RPAR, T_SEMI, T_AMP} x \<Longrightarrow> at_token (pline_text p @ x)"
  "eline_ok e \<Longrightarrow> follows {T_RPAR, T_SEMI, T_AMP, T_BAR} x \<Longrightarrow> at_token (eline_text e @ x)"
proof (induction l and p and e arbitrary: x and x and x)
  case (Line1 p n)
  then show ?case using follows_amps [of "{T_RPAR}" x n] by (auto intro!: Line1.IH elim: follows_mono)
next
  case (LineSeq p n l)
  have "follows {T_SEMI} (T_SEMI # 32 # line_text l @ x)" by (rule follows_Cons) (simp_all add: whitespace_def)
  from follows_amps [OF this, of n] show ?case using LineSeq by (auto intro!: LineSeq.IH(1) elim: follows_mono)
next
  case (Pipe1 e)
  have "follows {T_RPAR, T_SEMI, T_AMP, T_BAR} x" by (rule follows_mono [OF Pipe1.prems(2)]) auto
  then show ?case using Pipe1.IH Pipe1.prems(1) by simp
next
  case (PipeTo e p)
  have "follows {T_RPAR, T_SEMI, T_AMP, T_BAR} (T_BAR # 32 # pline_text p @ x)"
    by (rule follows_Cons) (simp_all add: whitespace_def)
  then show ?case using PipeTo by auto
next
  case (Simple rs ws)
  then have "follows (insert T_LT (insert T_GT (Collect word_char \<union> {T_RPAR, T_SEMI, T_AMP, T_BAR})))
      (redirs_text rs @ args_text ws @ x)"
    by (intro follows_redirs follows_args) simp_all
  then show ?case by (simp add: follows_token)
next
  case (Block l rs)
  then show ?case by (simp add: at_token_def whitespace_def)
qed

lemma simple_start:
  assumes "eline_ok (Simple rs ws)" and "follows F x" and "T_LPAR \<notin> F" and "drop s b = eline_text (Simple rs ws) @ x"
  shows "peek b s [T_LPAR] = (s, False)"
proof -
  have "follows (insert T_LT (insert T_GT (Collect word_char \<union> F))) (redirs_text rs @ args_text ws @ x)"
    using assms(1,2) by (intro follows_redirs follows_args) simp_all
  then show ?thesis using assms(3,4) peek_follows [of s b] by (auto simp: word_char_def symbols_def)
qed

lemma parser_text:
  "line_ok l \<Longrightarrow> drop s b = line_text l @ x \<Longrightarrow> follows {T_RPAR} x
     \<Longrightarrow> 4 * length (line_text l @ x) + 4 \<le> n
     \<Longrightarrow> parses_to b (parseline n b s) (s + length (line_text l)) (line_cmd l)"
  "pline_ok p \<Longrightarrow> drop s b = pline_text p @ x \<Longrightarrow> follows {T_RPAR, T_SEMI, T_AMP} x
     \<Longrightarrow> 4 * length (pline_text p @ x) + 3 \<le> n
     \<Longrightarrow> parses_to b (parsepipe n b s) (s + length (pline_text p)) (pline_cmd p)"
  "eline_ok e \<Longrightarrow> drop s b = eline_text e @ x \<Longrightarrow> follows {T_RPAR, T_SEMI, T_AMP, T_BAR} x
     \<Longrightarrow> 4 * length (eline_text e @ x) + 2 \<le> n
     \<Longrightarrow> parses_to b (parseexec n b s) (s + length (eline_text e)) (eline_cmd e)"
proof (induction l and p and e arbitrary: n s x and n s x and n s x)
  case (Line1 p k)
  obtain m where n: "n = Suc m" using Line1.prems(4) by (cases n) auto
  have f: "follows {T_RPAR, T_SEMI, T_AMP} (amps_text k @ x)"
    by (rule follows_mono [OF follows_amps [OF Line1.prems(3)]]) auto
  have d: "drop s b = pline_text p @ (amps_text k @ x)" using Line1.prems(2) by simp
  obtain c where c: "parsepipe m b s = Parsed c (s + length (pline_text p))" "map_cmd (word_of b) c = pline_cmd p"
    using Line1.IH [OF _ d f, of m] Line1.prems n by (auto simp: parses_to_def)
  note d2 = drop_past [OF d]
  have a: "parseamps c b (s + length (pline_text p)) = ((BACK ^^ k) c, s + length (pline_text p) + length (amps_text k))"
    by (rule parseamps_text [OF d2 Line1.prems(3)]) simp
  have "peek b (s + length (pline_text p) + length (amps_text k)) [T_SEMI] = (s + length (pline_text p) + length (amps_text k), False)"
    by (rule peek_follows [OF drop_past [OF d2] Line1.prems(3)]) simp
  then show ?case using n c a by (simp add: parses_to_def map_backs add.assoc)
next
  case (LineSeq p k l)
  obtain m where n: "n = Suc m" using LineSeq.prems(4) by (cases n) auto
  let ?y = "T_SEMI # 32 # line_text l @ x"
  have fy: "follows {T_SEMI} ?y" by (rule follows_Cons) (simp_all add: whitespace_def)
  have f: "follows {T_RPAR, T_SEMI, T_AMP} (amps_text k @ ?y)"
    by (rule follows_mono [OF follows_amps [OF fy]]) auto
  have d: "drop s b = pline_text p @ (amps_text k @ ?y)" using LineSeq.prems(2) by simp
  obtain c where c: "parsepipe m b s = Parsed c (s + length (pline_text p))" "map_cmd (word_of b) c = pline_cmd p"
    using LineSeq.IH(1) [OF _ d f, of m] LineSeq.prems n by (auto simp: parses_to_def)
  note d2 = drop_past [OF d]
  let ?s2 = "s + length (pline_text p) + length (amps_text k)"
  have a: "parseamps c b (s + length (pline_text p)) = ((BACK ^^ k) c, ?s2)"
    by (rule parseamps_text [OF d2 fy]) simp
  have d3: "drop ?s2 b = ?y" by (rule drop_past [OF d2])
  have p: "peek b ?s2 [T_SEMI] = (?s2, True)" by (rule peek_symbol [OF d3]) simp
  have g: "gettoken b ?s2 = (T_SEMI, ?s2, ?s2 + 1, ?s2 + 2)"
    by (rule gettoken_symbol [OF d3 line_starts(1) [OF _ LineSeq.prems(3)]]) (use LineSeq.prems(1) in simp_all)
  have d4: "drop (?s2 + 2) b = line_text l @ x" using drop_past [of ?s2 b "[T_SEMI, 32]"] d3 by simp
  obtain c2 where "parseline m b (?s2 + 2) = Parsed c2 (?s2 + 2 + length (line_text l))" "map_cmd (word_of b) c2 = line_cmd l"
    using LineSeq.IH(2) [OF _ d4 LineSeq.prems(3), of m] LineSeq.prems n by (auto simp: parses_to_def)
  then show ?case using n c a p g by (simp add: parses_to_def map_backs add.assoc)
next
  case (Pipe1 e)
  obtain m where n: "n = Suc m" using Pipe1.prems(4) by (cases n) auto
  have f: "follows {T_RPAR, T_SEMI, T_AMP, T_BAR} x" by (rule follows_mono [OF Pipe1.prems(3)]) auto
  have d: "drop s b = eline_text e @ x" using Pipe1.prems(2) by simp
  obtain c where c: "parseexec m b s = Parsed c (s + length (eline_text e))" "map_cmd (word_of b) c = eline_cmd e"
    using Pipe1.IH [OF _ d f, of m] Pipe1.prems n by (auto simp: parses_to_def)
  have "peek b (s + length (eline_text e)) [T_BAR] = (s + length (eline_text e), False)"
    by (rule peek_follows [OF drop_past [OF d] Pipe1.prems(3)]) simp
  then show ?case using n c by (simp add: parses_to_def)
next
  case (PipeTo e p)
  obtain m where n: "n = Suc m" using PipeTo.prems(4) by (cases n) auto
  let ?y = "T_BAR # 32 # pline_text p @ x"
  have fy: "follows {T_RPAR, T_SEMI, T_AMP, T_BAR} ?y" by (rule follows_Cons) (simp_all add: whitespace_def)
  have d: "drop s b = eline_text e @ ?y" using PipeTo.prems(2) by simp
  obtain c where c: "parseexec m b s = Parsed c (s + length (eline_text e))" "map_cmd (word_of b) c = eline_cmd e"
    using PipeTo.IH(1) [OF _ d fy, of m] PipeTo.prems n by (auto simp: parses_to_def)
  let ?s2 = "s + length (eline_text e)"
  note d2 = drop_past [OF d]
  have p: "peek b ?s2 [T_BAR] = (?s2, True)" by (rule peek_symbol [OF d2]) simp
  have g: "gettoken b ?s2 = (T_BAR, ?s2, ?s2 + 1, ?s2 + 2)"
    by (rule gettoken_symbol [OF d2 line_starts(2) [OF _ PipeTo.prems(3)]]) (use PipeTo.prems(1) in simp_all)
  have d3: "drop (?s2 + 2) b = pline_text p @ x" using drop_past [of ?s2 b "[T_BAR, 32]"] d2 by simp
  obtain c2 where "parsepipe m b (?s2 + 2) = Parsed c2 (?s2 + 2 + length (pline_text p))" "map_cmd (word_of b) c2 = pline_cmd p"
    using PipeTo.IH(2) [OF _ d3 PipeTo.prems(3), of m] PipeTo.prems n by (auto simp: parses_to_def)
  then show ?case using n c p g by (simp add: parses_to_def add.assoc)
next
  case (Simple rs ws)
  obtain m where n: "n = Suc m" using Simple.prems(4) by (cases n) auto
  have p: "peek b s [T_LPAR] = (s, False)" by (rule simple_start [OF Simple.prems(1,3) _ Simple.prems(2)]) simp
  have ok: "list_all redir_ok rs" "list_all (\<lambda>(w, rs). word_ok w \<and> list_all redir_ok rs) ws" "length ws < MAXARGS"
    using Simple.prems(1) by simp_all
  have d: "drop s b = redirs_text rs @ (args_text ws @ x)" using Simple.prems(2) by simp
  have disj: "(Collect word_char \<union> {T_RPAR, T_SEMI, T_AMP, T_BAR}) \<inter> {T_LT, T_GT} = {}"
    by (auto simp: word_char_def symbols_def)
  obtain c where c: "parseredirs (EXEC []) b s = Parsed c (s + length (redirs_text rs))"
      "map_cmd (word_of b) c = fold redir_cmd rs (EXEC [])"
    using parseredirs_text [OF ok(1) d follows_args [OF ok(2) Simple.prems(3)] disj, where c = "EXEC []"] by auto
  have x: "follows {T_BAR, T_RPAR, T_AMP, T_SEMI} x" by (rule follows_mono [OF Simple.prems(3)]) auto
  obtain c2 where "parseargs c 0 b (s + length (redirs_text rs))
        = Parsed c2 (s + length (redirs_text rs) + length (args_text ws))"
      "map_cmd (word_of b) c2 =
         fold (\<lambda>(w, rs) c. fold redir_cmd rs (add_arg w c)) ws (map_cmd (word_of b) c)"
    using parseargs_text [OF ok(2) drop_past [OF d] _ x, where c = c and argc = 0] ok(3) by auto
  then show ?case using n p c args_redirs [of ws rs "[]"] by (simp add: parses_to_def add.assoc)
next
  case (Block l rs)
  obtain m where n: "n = Suc (Suc m)" using Block.prems(4) by (cases n; cases "n - 1") auto
  have ok: "line_ok l" "list_all redir_ok rs" using Block.prems(1) by simp_all
  let ?y = "T_RPAR # 32 # redirs_text rs @ x"
  have all: "drop s b = T_LPAR # 32 # line_text l @ ?y" using Block.prems(2) by simp
  have fy: "follows {T_RPAR} ?y" by (rule follows_Cons) (simp_all add: whitespace_def)
  have p: "peek b s [T_LPAR] = (s, True)" by (rule peek_symbol [OF all]) simp
  have g: "gettoken b s = (T_LPAR, s, s + 1, s + 2)"
    by (rule gettoken_symbol [OF all line_starts(1) [OF ok(1) fy]]) simp
  have d2: "drop (s + 2) b = line_text l @ ?y" using drop_past [of s b "[T_LPAR, 32]"] all by simp
  obtain c where c: "parseline m b (s + 2) = Parsed c (s + 2 + length (line_text l))" "map_cmd (word_of b) c = line_cmd l"
    using Block.IH [OF ok(1) d2 fy, of m] Block.prems(4) n by (auto simp: parses_to_def)
  let ?s3 = "s + 2 + length (line_text l)"
  have d3: "drop ?s3 b = ?y" by (rule drop_past [OF d2])
  have p3: "peek b ?s3 [T_RPAR] = (?s3, True)" by (rule peek_symbol [OF d3]) simp
  have fr: "at_token (redirs_text rs @ x)" using follows_redirs [OF ok(2) Block.prems(3)] by (rule follows_token)
  have g3: "gettoken b ?s3 = (T_RPAR, ?s3, ?s3 + 1, ?s3 + 2)" by (rule gettoken_symbol [OF d3 fr]) simp
  have d4: "drop (?s3 + 2) b = redirs_text rs @ x" using drop_past [of ?s3 b "[T_RPAR, 32]"] d3 by simp
  obtain c2 where "parseredirs c b (?s3 + 2) = Parsed c2 (?s3 + 2 + length (redirs_text rs))"
      "map_cmd (word_of b) c2 = fold redir_cmd rs (map_cmd (word_of b) c)"
    using parseredirs_text [OF ok(2) d4 Block.prems(3), where c = c] by auto
  then show ?case using n p g c p3 g3 by (simp add: parses_to_def add.assoc)
qed

lemma redirs_no_nul: "list_all redir_ok rs \<Longrightarrow> 0 \<notin> set (redirs_text rs)"
proof (induction rs)
  case (Cons r rs)
  then show ?case by (cases r) (auto simp: redirs_text_def word_ok_def)
qed (simp add: redirs_text_def)

lemma text_no_nul:
  "line_ok l \<Longrightarrow> 0 \<notin> set (line_text l)"
  "pline_ok p \<Longrightarrow> 0 \<notin> set (pline_text p)"
  "eline_ok e \<Longrightarrow> 0 \<notin> set (eline_text e)"
proof (induction l and p and e)
  case (Simple rs ws)
  have "0 \<notin> set (args_text ws)"
    using Simple redirs_no_nul by (fastforce simp: args_text_def list_all_iff word_ok_def)
  then show ?case using Simple redirs_no_nul by simp
next
  case (Block l rs)
  then show ?case using redirs_no_nul by simp
qed (auto simp: amps_text_def)

lemma parsecmd_text:
  assumes "line_ok l"
  shows "\<exists>c buf. parsecmd (line_text l) = Parsed (c, buf) (length (line_text l))
     \<and> map_cmd (\<lambda>(q, eq). string_from buf q) c = line_cmd l"
proof -
  let ?b = "line_text l"
  have nul: "0 \<notin> set ?b" by (rule text_no_nul(1) [OF assms])
  obtain c where c: "parseline (parse_fuel ?b) ?b 0 = Parsed c (length ?b)" "map_cmd (word_of ?b) c = line_cmd l"
    using parser_text(1) [of l 0 ?b "[]" "parse_fuel ?b"] assms
    by (auto simp: parses_to_def follows_def at_token_def parse_fuel_def)
  have "\<forall>t \<in> set_cmd c. word_token ?b t" using parse_okD(3) [OF parser_ok(1) [OF nul] c(1)] by simp
  then have "map_cmd (\<lambda>(q, eq). string_from (nulterminate c (?b @ [0])) q) c = map_cmd (word_of ?b) c"
    using nulterminate_word by (intro cmd.map_cong refl) auto
  moreover have "peek ?b (length ?b) [] = (length ?b, False)"
    using peek_here [of "length ?b" ?b "[]" "[]"] by (simp add: at_token_def)
  ultimately show ?thesis using c by (simp add: parsecmd_def)
qed

text \<open>
  C26.  Whatever line of the shell's grammar is written out, \<open>parsecmd\<close> reads it back: pipes,
  lists, background marks, blocks, arguments and redirections in the structure they were written
  in, with, at each pointer of the tree, the C string of the word that stood there.
\<close>

theorem parsecmd_reads_line:
  assumes "line_ok l"
  shows "\<exists>c buf. parsecmd (line_text l) = Parsed (c, buf) (length (line_text l))
     \<and> map_cmd (\<lambda>(q, eq). string_from buf q) c = line_cmd l"
  by (rule parsecmd_text [OF assms])

lemma parsecmd_reads_line_witness:
  "\<exists>c buf. parsecmd [97, 32, 124, 32, 98, 32, 62, 32, 99, 32] = Parsed (c, buf) 10
     \<and> map_cmd (\<lambda>(q, eq). string_from buf q) c = PIPE (EXEC [[97]]) (REDIR (EXEC [[98]]) [99] 0x201 1)"
proof -
  let ?l = "Line1 (PipeTo (Simple [] [([97], [])]) (Pipe1 (Simple [] [([98], [Redir T_GT [99]])]))) 0"
  have ok: "line_ok ?l" by (simp add: word_ok_def word_char_def whitespace_def symbols_def MAXARGS_def)
  have shown: "line_text ?l = [97, 32, 124, 32, 98, 32, 62, 32, 99, 32]"
    by (simp add: amps_text_def redirs_text_def args_text_def)
  have len: "length [97, 32, 124, 32, 98, 32, 62, 32, 99, 32 :: u8] = 10" by simp
  have tree: "line_cmd ?l = PIPE (EXEC [[97]]) (REDIR (EXEC [[98]]) [99] 0x201 1)"
    by (simp add: redir_flags_def)
  show ?thesis using parsecmd_reads_line [OF ok] unfolding shown tree len .
qed

end
