(* ===== verification/User.thy ===== *)
theory User
  imports Console
begin

text \<open>
  User programs.  A program is a tree of system calls, each with a continuation for every reply of
  the kernel; \<open>fork\<close> is a call like the others, whose reply 0 continues in the child.  This theory
  holds the calls, the library routines that use them (\<open>ulib.c\<close>, \<open>printf.c\<close>), the small programs and
  \<open>init.c\<close> with its login.  A string is the list of its bytes before the NUL.  A loop that the
  program does not bound has fuel, one unit for each pass.
\<close>

section \<open>Programs\<close>

datatype sys_call =
    S_fork | S_wait | S_pipe | S_uptime
  | S_read int nat | S_write int "u8 list" | S_close int | S_dup int | S_fstat int
  | S_open "u8 list" nat | S_mknod "u8 list" int int | S_unlink "u8 list" | S_link "u8 list" "u8 list"
  | S_mkdir "u8 list" | S_chdir "u8 list" | S_exec "u8 list" "u8 list list"
  | S_kill int | S_sleep int | S_gethistory | S_block int | S_unblock int | S_chmod "u8 list" int

text \<open>What comes back: the value, and what the call stored through its pointer arguments: the bytes
  read, the descriptors of a pipe, the status of a file, the recorded processes.\<close>

record reply =
  rv :: int
  rdata :: "u8 list"
  rfds :: "int \<times> int"
  rstat :: stat
  rhist :: "(u32 \<times> u8 list \<times> u32) list"

datatype 'a prog =
    Return 'a
  | Exit
  | Fault
  | NoFuel
  | Call sys_call "reply \<Rightarrow> 'a prog"

primrec ubind :: "'a prog \<Rightarrow> ('a \<Rightarrow> 'b prog) \<Rightarrow> 'b prog" where
  "ubind (Return a) f = f a"
| "ubind Exit f = Exit"
| "ubind Fault f = Fault"
| "ubind NoFuel f = NoFuel"
| "ubind (Call c k) f = Call c (\<lambda>r. ubind (k r) f)"

definition useq :: "'a prog \<Rightarrow> 'b prog \<Rightarrow> 'b prog" where
  "useq m n = ubind m (\<lambda>_. n)"

definition syscall_int :: "sys_call \<Rightarrow> int prog" where
  "syscall_int c = Call c (\<lambda>r. Return (rv r))"

definition ucall :: "sys_call \<Rightarrow> unit prog" where
  "ucall c = Call c (\<lambda>r. Return ())"

definition uwhen :: "bool \<Rightarrow> unit prog \<Rightarrow> unit prog" where
  "uwhen b m = (if b then m else Return ())"

fun ufor :: "'i list \<Rightarrow> ('i \<Rightarrow> unit prog) \<Rightarrow> unit prog" where
  "ufor [] body = Return ()"
| "ufor (i # is) body = useq (body i) (ufor is body)"

text \<open>A run of a program in an environment that answers its calls.\<close>

datatype 'a outcome = Returned 'a | Exited | Faulted | Stuck

primrec run :: "'a prog \<Rightarrow> ('w \<Rightarrow> sys_call \<Rightarrow> reply \<times> 'w) \<Rightarrow> 'w \<Rightarrow> 'a outcome \<times> 'w" where
  "run (Return a) os w = (Returned a, w)"
| "run Exit os w = (Exited, w)"
| "run Fault os w = (Faulted, w)"
| "run NoFuel os w = (Stuck, w)"
| "run (Call c k) os w = run (k (fst (os w c))) os (snd (os w c))"

text \<open>The calls of a run, in order.\<close>

primrec calls :: "'a prog \<Rightarrow> ('w \<Rightarrow> sys_call \<Rightarrow> reply \<times> 'w) \<Rightarrow> 'w \<Rightarrow> sys_call list" where
  "calls (Return a) os w = []"
| "calls Exit os w = []"
| "calls Fault os w = []"
| "calls NoFuel os w = []"
| "calls (Call c k) os w = c # calls (k (fst (os w c))) os (snd (os w c))"

lemma ubind_Return [simp]: "ubind m Return = m"
  by (induction m) simp_all

lemma useq_simps [simp]:
  "useq (Return a) n = n"
  "useq Exit n = Exit"
  "useq Fault n = Fault"
  "useq NoFuel n = NoFuel"
  "useq (Call c k) n = Call c (\<lambda>r. useq (k r) n)"
  by (simp_all add: useq_def)

lemma uwhen_simps [simp]:
  "uwhen True m = m"
  "uwhen False m = Return ()"
  by (simp_all add: uwhen_def)

lemma ubind_call [simp]: "ubind (syscall_int c) f = Call c (\<lambda>r. f (rv r))"
  by (simp add: syscall_int_def)

lemma useq_call [simp]:
  "useq (ucall c) n = Call c (\<lambda>r. n)"
  "ubind (ucall c) f = Call c (\<lambda>r. f ())"
  by (simp_all add: ucall_def)

lemma run_ubind:
  "run (ubind m f) os w =
     (case run m os w of
        (Returned a, u) \<Rightarrow> run (f a) os u
      | (Exited, u) \<Rightarrow> (Exited, u)
      | (Faulted, u) \<Rightarrow> (Faulted, u)
      | (Stuck, u) \<Rightarrow> (Stuck, u))"
  by (induction m arbitrary: w) simp_all

lemma run_useq: "run m os w = (Returned a, u) \<Longrightarrow> run (useq m n) os w = run n os u"
  by (simp add: useq_def run_ubind)

lemma run_ubindI: "run m os w = (Returned a, u) \<Longrightarrow> run (ubind m f) os w = run (f a) os u"
  by (simp add: run_ubind)

lemma calls_ubind:
  "calls (ubind m f) os w =
     calls m os w @ (case run m os w of (Returned a, u) \<Rightarrow> calls (f a) os u | _ \<Rightarrow> [])"
  by (induction m arbitrary: w) (simp_all split: prod.splits outcome.splits)

section \<open>The library\<close>

text \<open>\<open>gets(buf, nbuf)\<close>: the bytes it stores before the NUL it adds; \<open>n\<close> is \<open>nbuf - 1 - i\<close>.\<close>

fun gets_loop :: "nat \<Rightarrow> u8 list prog" where
  "gets_loop 0 = Return []"
| "gets_loop (Suc n) =
     Call (S_read 0 1) (\<lambda>r.
       if rv r < 1 then Return []
       else let c = hd (rdata r) in
         if c = 10 \<or> c = 13 then Return [c]
         else ubind (gets_loop n) (\<lambda>cs. Return (c # cs)))"

definition gets :: "nat \<Rightarrow> u8 list prog" where
  "gets nbuf = gets_loop (nbuf - 1)"

text \<open>\<open>stat\<close> of \<open>ulib.c\<close>: \<open>None\<close> for a negative result.\<close>

definition ustat :: "u8 list \<Rightarrow> stat option prog" where
  "ustat n =
     ubind (syscall_int (S_open n 0)) (\<lambda>fd.
       if fd < 0 then Return None
       else Call (S_fstat fd) (\<lambda>r.
         useq (ucall (S_close fd)) (Return (if rv r < 0 then None else Some (rstat r)))))"

definition uputc :: "int \<Rightarrow> u8 \<Rightarrow> unit prog" where
  "uputc fd c = ucall (S_write fd [c])"

definition uputs :: "int \<Rightarrow> u8 list \<Rightarrow> unit prog" where
  "uputs fd cs = ufor cs (uputc fd)"

definition upper_digits :: "u8 list" where
  "upper_digits = str ''0123456789ABCDEF''"

definition uprintint :: "int \<Rightarrow> int \<Rightarrow> nat \<Rightarrow> bool \<Rightarrow> unit prog" where
  "uprintint fd xx base sg = uputs fd (int_text upper_digits xx base sg)"

text \<open>\<open>pct\<close> is the state: a percent sign has been read.\<close>

fun uprintf_loop :: "int \<Rightarrow> bool \<Rightarrow> u8 list \<Rightarrow> carg list \<Rightarrow> unit prog" where
  "uprintf_loop fd pct [] args = Return ()"
| "uprintf_loop fd pct (c # fmt) args =
     (if \<not> pct then
        (if c = 37 then uprintf_loop fd True fmt args
         else useq (uputc fd c) (uprintf_loop fd False fmt args))
      else if c = of_char CHR ''d'' then
        (case args of ANum n # rest \<Rightarrow> useq (uprintint fd (sint n) 10 True) (uprintf_loop fd False fmt rest) | _ \<Rightarrow> Fault)
      else if c = of_char CHR ''x'' \<or> c = of_char CHR ''p'' then
        (case args of ANum n # rest \<Rightarrow> useq (uprintint fd (sint n) 16 False) (uprintf_loop fd False fmt rest) | _ \<Rightarrow> Fault)
      else if c = of_char CHR ''s'' then
        (case args of AStr p # rest \<Rightarrow>
            useq (uputs fd (case p of None \<Rightarrow> str ''(null)'' | Some cs \<Rightarrow> cs)) (uprintf_loop fd False fmt rest)
          | _ \<Rightarrow> Fault)
      else if c = of_char CHR ''c'' then
        (case args of ANum n # rest \<Rightarrow> useq (uputc fd (ucast n)) (uprintf_loop fd False fmt rest) | _ \<Rightarrow> Fault)
      else if c = 37 then useq (uputc fd c) (uprintf_loop fd False fmt args)
      else useq (uputc fd 37) (useq (uputc fd c) (uprintf_loop fd False fmt args)))"

definition uprintf :: "int \<Rightarrow> u8 list \<Rightarrow> carg list \<Rightarrow> unit prog" where
  "uprintf fd fmt args = uprintf_loop fd False fmt args"

text \<open>A constant format, with a newline where C has \<open>\n\<close>.\<close>

definition say :: "int \<Rightarrow> string \<Rightarrow> carg list \<Rightarrow> unit prog" where
  "say fd fmt args = uprintf fd (str fmt) args"

definition sayln :: "int \<Rightarrow> string \<Rightarrow> carg list \<Rightarrow> unit prog" where
  "sayln fd fmt args = uprintf fd (str fmt @ [10]) args"

section \<open>Small programs\<close>

text \<open>\<open>main\<close> of a program, given the strings of \<open>argv\<close>; the strings after \<open>argv[0]\<close> are its arguments.\<close>

fun echo_args :: "u8 list list \<Rightarrow> unit prog" where
  "echo_args [] = Exit"
| "echo_args (a # rest) =
     useq (say 1 ''%s%s'' [AStr (Some a), AStr (Some (if rest \<noteq> [] then [32] else [10]))]) (echo_args rest)"

definition echo_main :: "u8 list list \<Rightarrow> unit prog" where
  "echo_main argv = echo_args (drop 1 argv)"

definition kill_main :: "u8 list list \<Rightarrow> unit prog" where
  "kill_main argv =
     (if length argv < 2 then useq (sayln 2 ''usage: kill pid...'' []) Exit
      else useq (ufor (drop 1 argv) (\<lambda>a. ucall (S_kill (atoi a)))) Exit)"

definition ln_main :: "u8 list list \<Rightarrow> unit prog" where
  "ln_main argv =
     (case argv of
        [_, old, new] \<Rightarrow>
          ubind (syscall_int (S_link old new)) (\<lambda>r.
          useq (uwhen (r < 0) (sayln 2 ''link %s %s: failed'' [AStr (Some old), AStr (Some new)])) Exit)
      | _ \<Rightarrow> useq (sayln 2 ''Usage: ln old new'' []) Exit)"

fun mkdir_args :: "u8 list list \<Rightarrow> unit prog" where
  "mkdir_args [] = Exit"
| "mkdir_args (a # rest) =
     ubind (syscall_int (S_mkdir a)) (\<lambda>r.
       if r < 0 then useq (sayln 2 ''mkdir: %s failed to create'' [AStr (Some a)]) Exit
       else mkdir_args rest)"

definition mkdir_main :: "u8 list list \<Rightarrow> unit prog" where
  "mkdir_main argv =
     (if length argv < 2 then useq (sayln 2 ''Usage: mkdir files...'' []) Exit else mkdir_args (drop 1 argv))"

fun rm_args :: "u8 list list \<Rightarrow> unit prog" where
  "rm_args [] = Exit"
| "rm_args (a # rest) =
     ubind (syscall_int (S_unlink a)) (\<lambda>r.
       if r < 0 then useq (sayln 2 ''rm: %s failed to delete'' [AStr (Some a)]) Exit
       else rm_args rest)"

definition rm_main :: "u8 list list \<Rightarrow> unit prog" where
  "rm_main argv =
     (if length argv < 2 then useq (sayln 2 ''Usage: rm files...'' []) Exit else rm_args (drop 1 argv))"

definition zombie_main :: "unit prog" where
  "zombie_main = ubind (syscall_int S_fork) (\<lambda>pid. useq (uwhen (pid > 0) (ucall (S_sleep 5))) Exit)"

subsection \<open>\<open>cat\<close>\<close>

text \<open>The buffer of \<open>cat\<close>, \<open>wc\<close> and \<open>ls\<close> has 512 bytes.\<close>

fun cat_loop :: "nat \<Rightarrow> int \<Rightarrow> unit prog" where
  "cat_loop 0 fd = NoFuel"
| "cat_loop (Suc fuel) fd =
     Call (S_read fd 512) (\<lambda>r.
       if rv r > 0 then
         ubind (syscall_int (S_write 1 (take (nat (rv r)) (rdata r)))) (\<lambda>m.
           if m \<noteq> rv r then useq (sayln 1 ''cat: write error'' []) Exit
           else cat_loop fuel fd)
       else if rv r < 0 then useq (sayln 1 ''cat: read error'' []) Exit
       else Return ())"

fun cat_args :: "nat \<Rightarrow> u8 list list \<Rightarrow> unit prog" where
  "cat_args fuel [] = Exit"
| "cat_args fuel (a # rest) =
     ubind (syscall_int (S_open a 0)) (\<lambda>fd.
       if fd < 0 then useq (sayln 1 ''cat: cannot open %s'' [AStr (Some a)]) Exit
       else useq (cat_loop fuel fd) (useq (ucall (S_close fd)) (cat_args fuel rest)))"

definition cat_main :: "nat \<Rightarrow> u8 list list \<Rightarrow> unit prog" where
  "cat_main fuel argv =
     (if length argv \<le> 1 then useq (cat_loop fuel 0) Exit else cat_args fuel (drop 1 argv))"

subsection \<open>\<open>wc\<close>\<close>

text \<open>The counts of lines, words and characters, and whether the position is inside a word.\<close>

record wc_st =
  wc_l :: nat
  wc_w :: nat
  wc_c :: nat
  inword :: bool

definition wc_space :: "u8 \<Rightarrow> bool" where
  "wc_space c \<longleftrightarrow> c \<in> {32, 13, 9, 10, 11}"

definition wc_char :: "u8 \<Rightarrow> wc_st \<Rightarrow> wc_st" where
  "wc_char c s =
     (let s1 = s\<lparr>wc_c := wc_c s + 1, wc_l := (if c = 10 then wc_l s + 1 else wc_l s)\<rparr>
      in if wc_space c then s1\<lparr>inword := False\<rparr>
         else if \<not> inword s1 then s1\<lparr>wc_w := wc_w s1 + 1, inword := True\<rparr>
         else s1)"

fun wc_loop :: "nat \<Rightarrow> int \<Rightarrow> wc_st \<Rightarrow> wc_st prog" where
  "wc_loop 0 fd s = NoFuel"
| "wc_loop (Suc fuel) fd s =
     Call (S_read fd 512) (\<lambda>r.
       if rv r > 0 then wc_loop fuel fd (fold wc_char (take (nat (rv r)) (rdata r)) s)
       else if rv r < 0 then useq (sayln 1 ''wc: read error'' []) Exit
       else Return s)"

definition wc :: "nat \<Rightarrow> int \<Rightarrow> u8 list \<Rightarrow> unit prog" where
  "wc fuel fd name =
     ubind (wc_loop fuel fd \<lparr>wc_l = 0, wc_w = 0, wc_c = 0, inword = False\<rparr>) (\<lambda>s.
       sayln 1 ''%d %d %d %s''
         [ANum (of_nat (wc_l s)), ANum (of_nat (wc_w s)), ANum (of_nat (wc_c s)), AStr (Some name)])"

fun wc_args :: "nat \<Rightarrow> u8 list list \<Rightarrow> unit prog" where
  "wc_args fuel [] = Exit"
| "wc_args fuel (a # rest) =
     ubind (syscall_int (S_open a 0)) (\<lambda>fd.
       if fd < 0 then useq (sayln 1 ''wc: cannot open %s'' [AStr (Some a)]) Exit
       else useq (wc fuel fd a) (useq (ucall (S_close fd)) (wc_args fuel rest)))"

definition wc_main :: "nat \<Rightarrow> u8 list list \<Rightarrow> unit prog" where
  "wc_main fuel argv =
     (if length argv \<le> 1 then useq (wc fuel 0 []) Exit else wc_args fuel (drop 1 argv))"

subsection \<open>\<open>ls\<close>\<close>

text \<open>The name after the last slash, padded with blanks to \<open>DIRSIZ\<close>.\<close>

definition fmtname :: "u8 list \<Rightarrow> u8 list" where
  "fmtname path =
     (let p = rev (takeWhile (\<lambda>c. c \<noteq> 47) (rev path))
      in if length p \<ge> DIRSIZ then p else p @ replicate (DIRSIZ - length p) 32)"

definition ls_entry :: "u8 list \<Rightarrow> stat \<Rightarrow> unit prog" where
  "ls_entry path st =
     sayln 1 ''%s %d %d %d''
       [AStr (Some (fmtname path)), ANum (ucast (st_type st)), ANum (st_ino st), ANum (st_size st)]"

text \<open>The entries of a directory: 2 bytes of inode number, then the name.\<close>

fun ls_dir :: "nat \<Rightarrow> int \<Rightarrow> u8 list \<Rightarrow> unit prog" where
  "ls_dir 0 fd path = NoFuel"
| "ls_dir (Suc fuel) fd path =
     Call (S_read fd (2 + DIRSIZ)) (\<lambda>r.
       if rv r \<noteq> int (2 + DIRSIZ) then Return ()
       else if rdata r ! 0 = 0 \<and> rdata r ! 1 = 0 then ls_dir fuel fd path
       else let buf = path @ [47] @ takeWhile (\<lambda>c. c \<noteq> 0) (take DIRSIZ (drop 2 (rdata r))) in
         ubind (ustat buf) (\<lambda>st.
           useq (case st of None \<Rightarrow> sayln 1 ''ls: cannot stat %s'' [AStr (Some buf)] | Some st \<Rightarrow> ls_entry buf st)
             (ls_dir fuel fd path)))"

definition ls :: "nat \<Rightarrow> u8 list \<Rightarrow> unit prog" where
  "ls fuel path =
     ubind (syscall_int (S_open path 0)) (\<lambda>fd.
       if fd < 0 then sayln 2 ''ls: cannot open %s'' [AStr (Some path)]
       else Call (S_fstat fd) (\<lambda>r.
         if rv r < 0 then useq (sayln 2 ''ls: cannot stat %s'' [AStr (Some path)]) (ucall (S_close fd))
         else let st = rstat r in
           useq (if st_type st = T_FILE then ls_entry path st
                 else if st_type st = T_DIR then
                   (if length path + 1 + DIRSIZ + 1 > 512 then sayln 1 ''ls: path too long'' []
                    else ls_dir fuel fd path)
                 else Return ())
             (ucall (S_close fd))))"

definition ls_main :: "nat \<Rightarrow> u8 list list \<Rightarrow> unit prog" where
  "ls_main fuel argv =
     (if length argv < 2 then useq (ls fuel (str ''.'')) Exit
      else useq (ufor (drop 1 argv) (ls fuel)) Exit)"

section \<open>\<open>init\<close> and its login\<close>

text \<open>What the user types for a line of the login: the buffer has 32 bytes, and a newline at the
  end of the string in it is taken off.  \<open>USERNAME\<close> and \<open>PASSWORD\<close> come from the Makefile and are
  arguments.\<close>

definition typed :: "u8 list \<Rightarrow> u8 list" where
  "typed got =
     (let s = takeWhile (\<lambda>c. c \<noteq> 0) got
      in if s \<noteq> [] \<and> last s = 10 then butlast s else s)"

fun login_loop :: "u8 list \<Rightarrow> u8 list \<Rightarrow> nat \<Rightarrow> unit prog" where
  "login_loop USERNAME PASSWORD 0 = ucall (S_sleep 100000)"
| "login_loop USERNAME PASSWORD (Suc n) =
     useq (say 1 ''Enter username: '' []) (
     ubind (gets 32) (\<lambda>uname.
       if typed uname \<noteq> USERNAME then
         useq (sayln 1 ''Incorrect username.'' []) (login_loop USERNAME PASSWORD n)
       else
         useq (say 1 ''Enter password: '' []) (
         ubind (gets 32) (\<lambda>pword.
           if typed pword = PASSWORD then Return ()
           else useq (sayln 1 ''Incorrect password.'' []) (login_loop USERNAME PASSWORD n)))))"

definition login :: "u8 list \<Rightarrow> u8 list \<Rightarrow> unit prog" where
  "login USERNAME PASSWORD = login_loop USERNAME PASSWORD 3"

definition init_child :: "u8 list \<Rightarrow> u8 list \<Rightarrow> unit prog" where
  "init_child USERNAME PASSWORD =
     useq (login USERNAME PASSWORD) (
     useq (ucall (S_exec (str ''sh'') [str ''sh''])) (
     useq (sayln 1 ''init: exec sh failed'' []) Exit))"

fun init_wait :: "nat \<Rightarrow> int \<Rightarrow> unit prog" where
  "init_wait 0 pid = NoFuel"
| "init_wait (Suc fuel) pid =
     ubind (syscall_int S_wait) (\<lambda>wpid.
       if wpid \<ge> 0 \<and> wpid \<noteq> pid then useq (sayln 1 ''zombie!'' []) (init_wait fuel pid)
       else Return ())"

fun init_loop :: "nat \<Rightarrow> u8 list \<Rightarrow> u8 list \<Rightarrow> unit prog" where
  "init_loop 0 USERNAME PASSWORD = NoFuel"
| "init_loop (Suc fuel) USERNAME PASSWORD =
     useq (sayln 1 ''init: starting sh'' []) (
     ubind (syscall_int S_fork) (\<lambda>pid.
       if pid < 0 then useq (sayln 1 ''init: fork failed'' []) Exit
       else if pid = 0 then init_child USERNAME PASSWORD
       else useq (init_wait fuel pid) (init_loop fuel USERNAME PASSWORD)))"

definition init_main :: "nat \<Rightarrow> u8 list \<Rightarrow> u8 list \<Rightarrow> unit prog" where
  "init_main fuel USERNAME PASSWORD =
     ubind (syscall_int (S_open (str ''console'') 2)) (\<lambda>fd.
     useq (uwhen (fd < 0)
        (useq (ucall (S_mknod (str ''console'') 1 1)) (ucall (S_open (str ''console'') 2)))) (
     useq (ucall (S_dup 0)) (useq (ucall (S_dup 0)) (init_loop fuel USERNAME PASSWORD))))"

section \<open>Printing\<close>

text \<open>The text of a format, and when its arguments fit it.\<close>

fun utext :: "bool \<Rightarrow> u8 list \<Rightarrow> carg list \<Rightarrow> u8 list" where
  "utext pct [] args = []"
| "utext pct (c # fmt) args =
     (if \<not> pct then (if c = 37 then utext True fmt args else c # utext False fmt args)
      else if c = of_char CHR ''d'' then
        int_text upper_digits (case hd args of ANum n \<Rightarrow> sint n) 10 True @ utext False fmt (tl args)
      else if c = of_char CHR ''x'' \<or> c = of_char CHR ''p'' then
        int_text upper_digits (case hd args of ANum n \<Rightarrow> sint n) 16 False @ utext False fmt (tl args)
      else if c = of_char CHR ''s'' then
        (case hd args of AStr (Some cs) \<Rightarrow> cs | _ \<Rightarrow> str ''(null)'') @ utext False fmt (tl args)
      else if c = of_char CHR ''c'' then (case hd args of ANum n \<Rightarrow> ucast n) # utext False fmt (tl args)
      else if c = 37 then c # utext False fmt args
      else 37 # c # utext False fmt args)"

fun ufmt_ok :: "bool \<Rightarrow> u8 list \<Rightarrow> carg list \<Rightarrow> bool" where
  "ufmt_ok pct [] args = True"
| "ufmt_ok pct (c # fmt) args =
     (if \<not> pct then ufmt_ok (c = 37) fmt args
      else if c = of_char CHR ''d'' \<or> c = of_char CHR ''x'' \<or> c = of_char CHR ''p'' \<or> c = of_char CHR ''c'' then
        (case args of ANum n # rest \<Rightarrow> ufmt_ok False fmt rest | _ \<Rightarrow> False)
      else if c = of_char CHR ''s'' then
        (case args of AStr p # rest \<Rightarrow> ufmt_ok False fmt rest | _ \<Rightarrow> False)
      else ufmt_ok False fmt args)"

text \<open>Printing writes the bytes of the text one by one.\<close>

fun puts_prog :: "int \<Rightarrow> u8 list \<Rightarrow> 'a prog \<Rightarrow> 'a prog" where
  "puts_prog fd [] p = p"
| "puts_prog fd (c # cs) p = Call (S_write fd [c]) (\<lambda>r. puts_prog fd cs p)"

lemma puts_append: "puts_prog fd (cs @ ds) p = puts_prog fd cs (puts_prog fd ds p)"
  by (induction cs) simp_all

lemma useq_putc: "useq (uputc fd c) p = puts_prog fd [c] p"
  by (simp add: uputc_def)

lemma useq_puts: "useq (uputs fd cs) p = puts_prog fd cs p"
proof (induction cs)
  case (Cons c cs)
  then show ?case by (simp add: uputs_def uputc_def)
qed (simp add: uputs_def)

lemma useq_assoc: "useq (useq a b) c = useq a (useq b c)"
  unfolding useq_def by (induction a) simp_all

lemma useq_puts_prog: "useq (puts_prog fd cs p) q = puts_prog fd cs (useq p q)"
  by (induction cs) simp_all

lemma uprintf_loop_text:
  "ufmt_ok pct fmt args \<Longrightarrow> uprintf_loop fd pct fmt args = puts_prog fd (utext pct fmt args) (Return ())"
proof (induction fmt arbitrary: pct args)
  case (Cons c fmt)
  note puts = useq_putc useq_puts uprintint_def puts_append
  show ?case
  proof (cases pct)
    case False
    then show ?thesis using Cons by (cases "c = 37") (simp_all add: useq_putc)
  next
    case True
    show ?thesis
    proof (cases "c \<in> {of_char CHR ''d'', of_char CHR ''x'', of_char CHR ''p'', of_char CHR ''c''}")
      case num: True
      then have "c = of_char CHR ''d'' \<or> c = of_char CHR ''x'' \<or> c = of_char CHR ''p'' \<or> c = of_char CHR ''c''" by blast
      with Cons.prems True obtain n rest where a: "args = ANum n # rest" "ufmt_ok False fmt rest"
        by (simp only: ufmt_ok.simps) (auto split: list.splits carg.splits)
      show ?thesis using num True Cons.IH [OF a(2)] a(1) by (elim insertE) (simp_all add: puts)
    next
      case other: False
      show ?thesis
      proof (cases "c = of_char CHR ''s''")
        case s: True
        with Cons.prems True other obtain q rest where a: "args = AStr q # rest" "ufmt_ok False fmt rest"
          by (simp only: ufmt_ok.simps) (auto split: list.splits carg.splits)
        then show ?thesis using True s Cons.IH [OF a(2)] by (cases q) (simp_all add: puts)
      next
        case no: False
        then have "ufmt_ok False fmt args" using Cons.prems True other by simp
        then show ?thesis using True no other Cons.IH by (simp add: puts)
      qed
    qed
  qed
qed simp

lemma uprintf_text:
  "ufmt_ok False fmt args \<Longrightarrow> useq (uprintf fd fmt args) p = puts_prog fd (utext False fmt args) p"
  by (simp add: uprintf_def uprintf_loop_text useq_puts_prog)

section \<open>Login\<close>

text \<open>The environment after the bytes were written.\<close>

definition after_puts :: "('w \<Rightarrow> sys_call \<Rightarrow> reply \<times> 'w) \<Rightarrow> int \<Rightarrow> u8 list \<Rightarrow> 'w \<Rightarrow> 'w" where
  "after_puts os fd cs w = fold (\<lambda>c w. snd (os w (S_write fd [c]))) cs w"

lemma run_puts: "run (puts_prog fd cs p) os w = run p os (after_puts os fd cs w)"
  by (induction cs arbitrary: w) (simp_all add: after_puts_def)

lemma calls_puts:
  "calls (puts_prog fd cs p) os w = map (\<lambda>c. S_write fd [c]) cs @ calls p os (after_puts os fd cs w)"
  by (induction cs arbitrary: w) (simp_all add: after_puts_def)

lemma say_text:
  "ufmt_ok False (str fmt) args \<Longrightarrow> useq (say fd fmt args) p = puts_prog fd (utext False (str fmt) args) p"
  "ufmt_ok False (str fmt @ [10]) args
     \<Longrightarrow> useq (sayln fd fmt args) p = puts_prog fd (utext False (str fmt @ [10]) args) p"
  by (simp_all add: say_def sayln_def uprintf_text)

lemma gets_loop_returns: "\<exists>cs u. run (gets_loop n) os w = (Returned cs, u) \<and> length cs \<le> n"
proof (induction n arbitrary: w)
  case (Suc n)
  let ?r = "fst (os w (S_read 0 1))" and ?w = "snd (os w (S_read 0 1))"
  obtain cs u where "run (gets_loop n) os ?w = (Returned cs, u)" "length cs \<le> n" using Suc by blast
  then have "run (ubind (gets_loop n) (\<lambda>cs. Return (hd (rdata ?r) # cs))) os ?w = (Returned (hd (rdata ?r) # cs), u)"
    by (simp add: run_ubind)
  then show ?case using \<open>length cs \<le> n\<close> by (auto simp: Let_def)
qed simp

lemma gets_loop_calls: "set (calls (gets_loop n) os w) \<subseteq> {S_read 0 1}"
proof (induction n arbitrary: w)
  case (Suc n)
  let ?r = "fst (os w (S_read 0 1))" and ?w = "snd (os w (S_read 0 1))"
  have "set (calls (ubind (gets_loop n) (\<lambda>cs. Return (hd (rdata ?r) # cs))) os ?w) \<subseteq> {S_read 0 1}"
    using Suc [of ?w] by (auto simp: calls_ubind split: outcome.splits prod.splits)
  then show ?case by (simp add: Let_def)
qed simp

definition sleeps :: "sys_call list \<Rightarrow> sys_call list" where
  "sleeps = filter (\<lambda>c. case c of S_sleep n \<Rightarrow> True | _ \<Rightarrow> False)"

lemma sleeps_simps [simp]:
  "sleeps [] = []"
  "sleeps (a @ b) = sleeps a @ sleeps b"
  "sleeps (map (\<lambda>c. S_write fd [c]) cs) = []"
  by (simp_all add: sleeps_def)

lemma sleeps_gets [simp]: "sleeps (calls (gets n) os w) = []"
proof -
  have "c = S_read 0 1" if "c \<in> set (calls (gets n) os w)" for c
    using gets_loop_calls [of "n - 1" os w] that by (auto simp: gets_def)
  then show ?thesis unfolding sleeps_def by (force simp: filter_empty_conv)
qed

lemma prompts_ok [simp]:
  "ufmt_ok False (str ''Enter username: '') []"
  "ufmt_ok False (str ''Enter password: '') []"
  "ufmt_ok False (str ''Incorrect username.'' @ [10]) []"
  "ufmt_ok False (str ''Incorrect password.'' @ [10]) []"
  by (simp_all add: str_def)

lemma login_loop_runs:
  "\<exists>u. run (login_loop U P n) os w = (Returned (), u)
     \<and> sleeps (calls (login_loop U P n) os w) \<in> {[], [S_sleep 100000]}"
proof (induction n arbitrary: w)
  case 0
  then show ?case by (simp add: ucall_def sleeps_def)
next
  case (Suc n)
  let ?w1 = "after_puts os 1 (utext False (str ''Enter username: '') []) w"
  obtain nm w2 where nm: "run (gets 32) os ?w1 = (Returned nm, w2)"
    using gets_loop_returns [of 31 os ?w1] by (auto simp: gets_def)
  note start = nm say_text run_puts calls_puts calls_ubind run_ubind
  show ?case
  proof (cases "typed nm = U")
    case False
    obtain u where "run (login_loop U P n) os (after_puts os 1 (utext False (str ''Incorrect username.'' @ [10]) []) w2) = (Returned (), u)"
      "sleeps (calls (login_loop U P n) os (after_puts os 1 (utext False (str ''Incorrect username.'' @ [10]) []) w2)) \<in> {[], [S_sleep 100000]}"
      using Suc by blast
    then show ?thesis using False by (simp add: start)
  next
    case True
    let ?w3 = "after_puts os 1 (utext False (str ''Enter password: '') []) w2"
    obtain pw w4 where pw: "run (gets 32) os ?w3 = (Returned pw, w4)"
      using gets_loop_returns [of 31 os ?w3] by (auto simp: gets_def)
    obtain u where "run (login_loop U P n) os (after_puts os 1 (utext False (str ''Incorrect password.'' @ [10]) []) w4) = (Returned (), u)"
      "sleeps (calls (login_loop U P n) os (after_puts os 1 (utext False (str ''Incorrect password.'' @ [10]) []) w4)) \<in> {[], [S_sleep 100000]}"
      using Suc by blast
    then show ?thesis using True by (cases "typed pw = P") (simp_all add: start pw)
  qed
qed

text \<open>
  C30. The login keeps nobody out.  Whatever the console delivers and whatever the user name and the
  password are, \<open>login\<close> returns, after at most one \<open>sleep\<close> (the penalty of a third failure), and the
  child of \<open>init\<close> goes on to \<open>exec\<close> the shell.
\<close>

theorem login_admits_everyone:
  "(\<exists>u. run (login U P) os w = (Returned (), u))
   \<and> sleeps (calls (login U P) os w) \<in> {[], [S_sleep 100000]}
   \<and> S_exec (str ''sh'') [str ''sh''] \<in> set (calls (init_child U P) os w)"
proof -
  obtain u where u: "run (login U P) os w = (Returned (), u)"
      "sleeps (calls (login U P) os w) \<in> {[], [S_sleep 100000]}"
    using login_loop_runs [of U P 3 os w] by (auto simp: login_def)
  then have "S_exec (str ''sh'') [str ''sh''] \<in> set (calls (init_child U P) os w)"
    by (simp add: init_child_def useq_def calls_ubind ucall_def)
  then show ?thesis using u by blast
qed

section \<open>Reading files\<close>

text \<open>
  An environment for a program that reads its input and writes its output: what each descriptor
  still delivers, in the portions in which reads get it, and what was written to it.  The end of
  the input is a read of 0 bytes; every other call fails.
\<close>

record world =
  inp :: "int \<Rightarrow> u8 list list"
  out :: "int \<Rightarrow> u8 list"

definition answer :: "int \<Rightarrow> u8 list \<Rightarrow> reply" where
  "answer n bs = \<lparr>rv = n, rdata = bs, rfds = (0, 0),
     rstat = \<lparr>st_type = 0, st_dev = 0, st_ino = 0, st_nlink = 0, st_size = 0\<rparr>, rhist = []\<rparr>"

fun io :: "world \<Rightarrow> sys_call \<Rightarrow> reply \<times> world" where
  "io w (S_read fd n) =
     (case inp w fd of
        [] \<Rightarrow> (answer 0 [], w)
      | c # cs \<Rightarrow> (answer (int (length (take n c))) (take n c),
          w\<lparr>inp := (inp w)(fd := (if n < length c then drop n c # cs else cs))\<rparr>))"
| "io w (S_write fd bs) = (answer (int (length bs)) bs, w\<lparr>out := (out w)(fd := out w fd @ bs)\<rparr>)"
| "io w c = (answer (-1) [], w)"

definition delivers :: "world \<Rightarrow> int \<Rightarrow> u8 list \<Rightarrow> bool" where
  "delivers w fd t \<longleftrightarrow> concat (inp w fd) = t \<and> [] \<notin> set (inp w fd)"

definition consumed :: "int \<Rightarrow> world \<Rightarrow> world" where
  "consumed fd w = w\<lparr>inp := (inp w)(fd := [])\<rparr>"

definition wrote_out :: "int \<Rightarrow> u8 list \<Rightarrow> world \<Rightarrow> world" where
  "wrote_out fd bs w = w\<lparr>out := (out w)(fd := out w fd @ bs)\<rparr>"

lemma answer_simps [simp]: "rv (answer n bs) = n" "rdata (answer n bs) = bs"
  by (simp_all add: answer_def)

lemma delivers_out [simp]: "delivers (wrote_out fd bs w) fd' t = delivers w fd' t"
  by (simp add: delivers_def wrote_out_def)

lemma io_write [simp]: "io w (S_write fd bs) = (answer (int (length bs)) bs, wrote_out fd bs w)"
  by (simp add: wrote_out_def)

declare io.simps(1,2) [simp del]

lemma wrote_out_append [simp]: "wrote_out fd b (wrote_out fd a w) = wrote_out fd (a @ b) w"
  by (simp add: wrote_out_def)

lemma wrote_out_Nil [simp]: "wrote_out fd [] w = w"
  by (simp add: wrote_out_def)

lemma after_puts_io: "after_puts io fd cs w = wrote_out fd cs w"
  by (induction cs arbitrary: w) (simp_all add: after_puts_def)

text \<open>A read with room for at least one byte takes a part of the text from its front.\<close>

lemma read_delivers:
  assumes "delivers w fd t" and "0 < n"
  obtains (fin) "t = []" and "io w (S_read fd n) = (answer 0 [], w)" and "consumed fd w = w"
  | (part) a u w' where "t = a @ u" and "a \<noteq> []" and "length a \<le> n" and "delivers w' fd u"
      and "io w (S_read fd n) = (answer (int (length a)) a, w')"
      and "consumed fd w' = consumed fd w" and "out w' = out w"
proof (cases "inp w fd")
  case Nil
  then have "(inp w)(fd := []) = inp w" by auto
  then have "consumed fd w = w" by (cases w) (simp add: consumed_def)
  then show ?thesis using Nil assms that(1) by (simp add: delivers_def io.simps)
next
  case (Cons c cs)
  let ?cs = "if n < length c then drop n c # cs else cs"
  let ?w = "w\<lparr>inp := (inp w)(fd := ?cs)\<rparr>"
  have "t = take n c @ concat ?cs" "c \<noteq> []" "[] \<notin> set cs" using Cons assms(1) by (auto simp: delivers_def)
  moreover from this have "delivers ?w fd (concat ?cs)" by (auto simp: delivers_def)
  ultimately show ?thesis using Cons assms(2) that(2) [of "take n c" "concat ?cs" ?w] by (simp add: consumed_def io.simps)
qed

lemma consumed_out: "consumed fd (wrote_out fd' bs w) = wrote_out fd' bs (consumed fd w)"
  by (simp add: consumed_def wrote_out_def)

text \<open>\<open>cat\<close> copies the file to its output, in whatever portions it is read.\<close>

lemma cat_copies:
  "delivers w fd t \<Longrightarrow> length t < fuel \<Longrightarrow> run (cat_loop fuel fd) io w = (Returned (), wrote_out 1 t (consumed fd w))"
proof (induction fuel arbitrary: w t)
  case (Suc fuel)
  have n: "0 < (512 :: nat)" by simp
  from Suc.prems(1) n show ?case
  proof (cases rule: read_delivers)
    case (part a u w')
    have "delivers (wrote_out 1 a w') fd u" using part(4) by simp
    moreover have "length u < fuel" using part(1,2) Suc.prems(2) by (cases a) auto
    ultimately have "run (cat_loop fuel fd) io (wrote_out 1 a w') = (Returned (), wrote_out 1 u (consumed fd (wrote_out 1 a w')))"
      by (rule Suc.IH)
    then show ?thesis using part by (simp add: consumed_out)
  qed (use Suc.prems(2) in simp)
qed simp

subsection \<open>What \<open>wc\<close> counts\<close>

definition count_lines :: "u8 list \<Rightarrow> nat" where
  "count_lines t = length (filter (\<lambda>c. c = 10) t)"

text \<open>Words begin where a character that is no space follows a space or the beginning.\<close>

definition word_starts :: "u8 list \<Rightarrow> nat set" where
  "word_starts t = {i. i < length t \<and> \<not> wc_space (t ! i) \<and> (i = 0 \<or> wc_space (t ! (i - 1)))}"

lemma finite_word_starts [simp]: "finite (word_starts t)"
  by (simp add: word_starts_def)

lemma word_starts_snoc:
  "word_starts (t @ [c]) =
     word_starts t \<union> (if \<not> wc_space c \<and> (t = [] \<or> wc_space (last t)) then {length t} else {})"
proof (rule set_eqI)
  fix i
  consider "i < length t" | "i = length t" | "length t < i" by linarith
  then show "i \<in> word_starts (t @ [c]) \<longleftrightarrow>
      i \<in> word_starts t \<union> (if \<not> wc_space c \<and> (t = [] \<or> wc_space (last t)) then {length t} else {})"
    by cases (cases "t = []"; auto simp: word_starts_def nth_append last_conv_nth)+
qed

definition wc_after :: "u8 list \<Rightarrow> wc_st" where
  "wc_after t = \<lparr>wc_l = count_lines t, wc_w = card (word_starts t), wc_c = length t,
     inword = (t \<noteq> [] \<and> \<not> wc_space (last t))\<rparr>"

lemma wc_char_after: "wc_char c (wc_after t) = wc_after (t @ [c])"
proof -
  have "length t \<notin> word_starts t" by (simp add: word_starts_def)
  then show ?thesis
    by (auto simp: wc_char_def wc_after_def Let_def word_starts_snoc count_lines_def)
qed

lemma wc_chars_after: "fold wc_char u (wc_after t) = wc_after (t @ u)"
  by (induction u arbitrary: t) (simp_all add: wc_char_after)

lemma wc_loop_counts:
  "delivers w fd u \<Longrightarrow> length u < fuel
     \<Longrightarrow> run (wc_loop fuel fd (wc_after t)) io w = (Returned (wc_after (t @ u)), consumed fd w)"
proof (induction fuel arbitrary: w t u)
  case (Suc fuel)
  have n: "0 < (512 :: nat)" by simp
  from Suc.prems(1) n show ?case
  proof (cases rule: read_delivers)
    case (part a v w')
    have "length v < fuel" using part(1,2) Suc.prems(2) by (cases a) auto
    from Suc.IH [OF part(4) this, of "t @ a"] show ?thesis using part by (simp add: wc_chars_after)
  qed (use Suc.prems(2) in simp)
qed simp

text \<open>
  C31. \<open>wc\<close> counts what it claims, in whatever portions the file is read: it prints the number of
  newlines, the number of words (positions that are not a space and that a space or the beginning
  of the file precedes, also across two reads) and the number of bytes, reads the file to its end
  and changes nothing else.  One unit of fuel more than the file has bytes is enough.
\<close>

theorem wc_counts_file:
  assumes "delivers w fd t" and "length t < fuel"
  shows "run (wc fuel fd name) io w =
           (Returned (),
            wrote_out 1 (utext False (str ''%d %d %d %s'' @ [10])
                [ANum (of_nat (count_lines t)), ANum (of_nat (card (word_starts t))), ANum (of_nat (length t)),
                 AStr (Some name)])
              (consumed fd w))"
proof -
  have z: "\<lparr>wc_l = 0, wc_w = 0, wc_c = 0, inword = False\<rparr> = wc_after []"
    by (simp add: wc_after_def count_lines_def word_starts_def)
  have ok: "ufmt_ok False (str ''%d %d %d %s'' @ [10]) [ANum a, ANum b, ANum c, AStr d]" for a b c d
    by (simp add: str_def)
  have "run (sayln 1 ''%d %d %d %s'' [ANum a, ANum b, ANum c, AStr d]) io v =
        (Returned (), wrote_out 1 (utext False (str ''%d %d %d %s'' @ [10]) [ANum a, ANum b, ANum c, AStr d]) v)" for a b c d v
    using ok [of a b c d] by (simp add: sayln_def uprintf_def uprintf_loop_text run_puts after_puts_io)
  then show ?thesis
    using wc_loop_counts [OF assms, of "[]"] unfolding wc_def z by (simp add: run_ubind wc_after_def)
qed

theorem wc_counts_file_witness:
  "run (wc 20 3 (str ''f'')) io \<lparr>inp = (\<lambda>_. [str ''two wo'', str ''rds'' @ [10]]), out = (\<lambda>_. [])\<rparr>
     = (Returned (), wrote_out 1 (str ''1 2 10 f'' @ [10]) (consumed 3 \<lparr>inp = (\<lambda>_. [str ''two wo'', str ''rds'' @ [10]]), out = (\<lambda>_. [])\<rparr>))"
proof -
  let ?w = "\<lparr>inp = (\<lambda>_. [str ''two wo'', str ''rds'' @ [10]]), out = (\<lambda>_. [])\<rparr>"
  let ?t = "str ''two wo'' @ str ''rds'' @ [10]"
  have w: "delivers ?w 3 ?t" by (simp add: delivers_def str_def)
  have ws: "word_starts ?t = {0, 4}"
  proof -
    have "word_starts ?t = set (filter (\<lambda>i. \<not> wc_space (?t ! i) \<and> (i = 0 \<or> wc_space (?t ! (i - 1)))) [0..<10])"
      by (auto simp: word_starts_def str_def)
    then show ?thesis by (simp add: upt_rec str_def wc_space_def) (simp add: eval_nat_numeral)
  qed
  have digits: "int_text upper_digits 1 10 True = [49]" "int_text upper_digits 2 10 True = [50]"
      "int_text upper_digits 10 10 True = [49, 48]"
    by (simp_all add: int_text_def upper_digits_def str_def digits_of.simps [of 10 "Suc 0"] digits_of.simps [of 10 2]
        digits_of.simps [of 10 10])
  have "utext False (str ''%d %d %d %s'' @ [10]) [ANum 1, ANum 2, ANum 10, AStr (Some (str ''f''))] = str ''1 2 10 f'' @ [10]"
    using digits by (simp add: str_def)
  moreover have "count_lines ?t = 1" "length ?t = 10" by (simp_all add: count_lines_def str_def)
  ultimately show ?thesis using wc_counts_file [OF w, of 20 "str ''f''"] ws by simp
qed

end
