(* ===== verification/Runcmd.thy ===== *)
theory Runcmd
  imports Shell User
begin

text \<open>
  The shell as a program: \<open>runcmd\<close>, which runs a parsed command in processes of its own, \<open>getcmd\<close>
  and the loop of \<open>main\<close> with the built-in commands.  The meaning of a command is the list of the
  programs it starts, each with its arguments and its open files.
\<close>

section \<open>Running a command\<close>

definition panic :: "u8 list \<Rightarrow> 'a prog" where
  "panic s = ubind (sayln 2 ''%s'' [AStr (Some s)]) (\<lambda>_. Exit)"

definition fork1 :: "int prog" where
  "fork1 = ubind (syscall_int S_fork) (\<lambda>pid. if pid = -1 then panic (str ''fork'') else Return pid)"

fun runcmd :: "u8 list cmd \<Rightarrow> unit prog" where
  "runcmd (EXEC []) = Exit"
| "runcmd (EXEC (w # ws)) =
     useq (ucall (S_exec w (w # ws))) (useq (sayln 2 ''exec %s failed'' [AStr (Some w)]) Exit)"
| "runcmd (REDIR c f mode fd) =
     useq (ucall (S_close (int fd))) (
     ubind (syscall_int (S_open f (nat mode))) (\<lambda>r.
       if r < 0 then useq (sayln 2 ''open %s failed'' [AStr (Some f)]) Exit
       else useq (runcmd c) Exit))"
| "runcmd (LIST l r) =
     ubind fork1 (\<lambda>pid.
     useq (uwhen (pid = 0) (runcmd l)) (
     useq (ucall S_wait) (
     useq (runcmd r) Exit)))"
| "runcmd (PIPE l r) =
     Call S_pipe (\<lambda>p.
       if rv p < 0 then panic (str ''pipe'')
       else case rfds p of (p0, p1) \<Rightarrow>
         ubind fork1 (\<lambda>pid.
         useq (uwhen (pid = 0)
            (useq (ucall (S_close 1)) (useq (ucall (S_dup p1)) (
             useq (ucall (S_close p0)) (useq (ucall (S_close p1)) (runcmd l)))))) (
         ubind fork1 (\<lambda>pid.
         useq (uwhen (pid = 0)
            (useq (ucall (S_close 0)) (useq (ucall (S_dup p0)) (
             useq (ucall (S_close p0)) (useq (ucall (S_close p1)) (runcmd r)))))) (
         useq (ucall (S_close p0)) (useq (ucall (S_close p1)) (
         useq (ucall S_wait) (useq (ucall S_wait) Exit))))))))"
| "runcmd (BACK c) =
     ubind fork1 (\<lambda>pid. useq (uwhen (pid = 0) (runcmd c)) Exit)"

text \<open>The child's \<open>runcmd(parsecmd(buf))\<close>; where the parser stopped early, the \<open>leftovers\<close> message
  that \<open>parsecmd\<close> prints before its panic is printed here, since the parser itself makes no calls.\<close>

definition parse_and_run :: "u8 list \<Rightarrow> unit prog" where
  "parse_and_run b =
     (case parsecmd b of
        parsed.NoFuel \<Rightarrow> prog.NoFuel
      | parsed.Panic m \<Rightarrow>
          useq (case parseline (parse_fuel b) b 0 of
                  Parsed cmd s \<Rightarrow> sayln 2 ''leftovers: %s'' [AStr (Some (drop (fst (peek b s [])) b))]
                | _ \<Rightarrow> Return ())
            (panic (str m))
      | Parsed (c, buf) _ \<Rightarrow> runcmd (map_cmd (\<lambda>(q, eq). string_from buf q) c))"

section \<open>The loop of the shell\<close>

text \<open>\<open>buf\<close> as an array of \<open>nbuf\<close> bytes, \<open>None\<close> for the end of the input.\<close>

definition getcmd :: "nat \<Rightarrow> u8 list option prog" where
  "getcmd nbuf =
     useq (say 2 ''$ '' []) (
     ubind (gets nbuf) (\<lambda>cs.
       let buf = take nbuf (cs @ replicate nbuf 0) in
       Return (if buf ! 0 = 0 then None else Some buf)))"

text \<open>\<open>buf[strlen(buf)-1] = 0\<close>.\<close>

definition chop :: "u8 list \<Rightarrow> u8 list" where
  "chop buf = buf[length (string_from buf 0) - 1 := 0]"

definition starts :: "string \<Rightarrow> u8 list \<Rightarrow> bool" where
  "starts w buf \<longleftrightarrow> take (length w) buf = str w"

definition cd_cmd :: "u8 list \<Rightarrow> unit prog" where
  "cd_cmd buf =
     (let dir = string_from (chop buf) 3 in
      ubind (syscall_int (S_chdir dir)) (\<lambda>r.
        uwhen (r < 0) (sayln 2 ''cannot cd %s'' [AStr (Some dir)])))"

definition chmod_cmd :: "u8 list \<Rightarrow> unit prog" where
  "chmod_cmd buf =
     (let p = dropWhile (\<lambda>c. c = 32) (string_from (chop buf) 6);
          fileName = take 63 (takeWhile (\<lambda>c. c \<noteq> 32) p);
          q = dropWhile (\<lambda>c. c = 32) (drop (length fileName) p);
          modeStr = take 9 (takeWhile (\<lambda>c. c \<noteq> 32) q);
          mode = atoi modeStr
      in ubind (syscall_int (S_chmod fileName mode)) (\<lambda>r.
           if r < 0 then sayln 2 ''chmod %s failed'' [AStr (Some fileName)]
           else uprintf 1 (str ''chmod %s succeeded'' @ [10] @ str ''new mode is %d'' @ [10])
                  [AStr (Some fileName), ANum (word_of_int mode)]))"

definition history_cmd :: "unit prog" where
  "history_cmd =
     Call S_gethistory (\<lambda>r.
       if rv r < 0 then sayln 2 ''Error retrieving history'' []
       else ufor (take (nat (rv r)) (rhist r)) (\<lambda>(pid, name, total).
         sayln 1 ''%d %s %d'' [ANum pid, AStr (Some name), ANum total]))"

text \<open>\<open>block\<close> and \<open>unblock\<close>: \<open>n\<close> is the length of the command's name.\<close>

definition blank_args :: "nat \<Rightarrow> u8 list \<Rightarrow> u8 list" where
  "blank_args n buf = dropWhile (\<lambda>c. c = 32 \<or> c = 9) (string_from (chop buf) n)"

definition block_cmd :: "u8 list \<Rightarrow> unit prog" where
  "block_cmd buf =
     (let p = blank_args 5 buf in
      if p = [] then sayln 2 ''Usage: block <syscall_id>'' []
      else ubind (syscall_int (S_block (atoi p))) (\<lambda>r.
        if r = 0 then sayln 1 ''Blocked syscall %d'' [ANum (word_of_int (atoi p))]
        else sayln 1 ''Failed to block syscall %d'' [ANum (word_of_int (atoi p))]))"

definition unblock_cmd :: "u8 list \<Rightarrow> unit prog" where
  "unblock_cmd buf =
     (let p = blank_args 7 buf in
      if p = [] then sayln 2 ''Usage: unblock <syscall_id>'' []
      else ubind (syscall_int (S_unblock (atoi p))) (\<lambda>r.
        if r = 0 then sayln 1 ''Unblocked syscall %d'' [ANum (word_of_int (atoi p))]
        else sayln 1 ''Failed to unblock syscall %d'' [ANum (word_of_int (atoi p))]))"

text \<open>One pass of the loop for the line in \<open>buf\<close>.\<close>

definition sh_line :: "u8 list \<Rightarrow> unit prog" where
  "sh_line buf =
     (if starts ''cd '' buf then cd_cmd buf
      else if starts ''chmod '' buf then chmod_cmd buf
      else if starts ''history'' buf \<and> (buf ! 7 = 10 \<or> buf ! 7 = 0) then history_cmd
      else if starts ''block'' buf \<and> (buf ! 5 = 32 \<or> buf ! 5 = 9) then block_cmd buf
      else if starts ''unblock'' buf \<and> (buf ! 7 = 32 \<or> buf ! 7 = 9) then unblock_cmd buf
      else ubind fork1 (\<lambda>pid.
        useq (uwhen (pid = 0) (parse_and_run (string_from buf 0))) (ucall S_wait)))"

fun sh_loop :: "nat \<Rightarrow> unit prog" where
  "sh_loop 0 = prog.NoFuel"
| "sh_loop (Suc fuel) =
     ubind (getcmd 100) (\<lambda>b. case b of None \<Rightarrow> Exit | Some buf \<Rightarrow> useq (sh_line buf) (sh_loop fuel))"

fun open_console :: "nat \<Rightarrow> unit prog" where
  "open_console 0 = prog.NoFuel"
| "open_console (Suc fuel) =
     ubind (syscall_int (S_open (str ''console'') 2)) (\<lambda>fd.
       if fd < 0 then Return ()
       else if fd \<ge> 3 then ucall (S_close fd)
       else open_console fuel)"

definition sh_main :: "nat \<Rightarrow> unit prog" where
  "sh_main fuel = useq (open_console fuel) (sh_loop fuel)"

section \<open>What a command runs\<close>

text \<open>
  The processes of a program, as far as the shell needs them: each has a table of descriptors with
  at most \<open>NOFILE\<close> entries, \<open>open\<close>, \<open>dup\<close> and \<open>pipe\<close> take the lowest free ones, \<open>fork\<close> copies
  the table, and a successful \<open>exec\<close> ends the program.  \<open>fork\<close> is taken to succeed here: the branch of
  \<open>fork1\<close> for \<open>-1\<close> is part of the program but not of the runs this section follows.  \<open>has\<close> says which programs exist, \<open>can\<close>
  which files open in which mode; pipes are numbered.  The result lists the programs started, with
  their arguments and their descriptors.
\<close>

datatype obj = Inherited nat | Opened "u8 list" nat | PipeRead nat | PipeWrite nat

type_synonym fdtab = "obj option list"

definition lowest :: "fdtab \<Rightarrow> nat option" where
  "lowest f = find (\<lambda>i. f ! i = None) [0..<length f]"

text \<open>Puts an object at the lowest free descriptor.\<close>

definition alloc_fd :: "obj option \<Rightarrow> fdtab \<Rightarrow> int \<times> fdtab" where
  "alloc_fd x f = (case lowest f of None \<Rightarrow> (-1, f) | Some i \<Rightarrow> (int i, f[i := x]))"

definition alloc_pipe :: "nat \<Rightarrow> fdtab \<Rightarrow> (int \<times> int) \<times> fdtab" where
  "alloc_pipe n f =
     (case alloc_fd (Some (PipeRead n)) f of (a, f1) \<Rightarrow>
      case alloc_fd (Some (PipeWrite n)) f1 of (b, f2) \<Rightarrow> if a < 0 \<or> b < 0 then ((-1, -1), f) else ((a, b), f2))"

type_synonym started = "(u8 list list \<times> fdtab) list"

primrec starts_of ::
  "'a prog \<Rightarrow> (u8 list \<Rightarrow> bool) \<Rightarrow> (u8 list \<Rightarrow> nat \<Rightarrow> bool) \<Rightarrow> nat \<Rightarrow> fdtab \<Rightarrow> started \<times> nat" where
  "starts_of (Return a) has can n f = ([], n)"
| "starts_of Exit has can n f = ([], n)"
| "starts_of Fault has can n f = ([], n)"
| "starts_of prog.NoFuel has can n f = ([], n)"
| "starts_of (Call c k) has can n f =
     (case c of
        S_fork \<Rightarrow>
          (case starts_of (k (answer 0 [])) has can n f of (xs, n1) \<Rightarrow>
           case starts_of (k (answer 1 [])) has can n1 f of (ys, n2) \<Rightarrow> (xs @ ys, n2))
      | S_exec path argv \<Rightarrow>
          if has path then ([(argv, f)], n) else starts_of (k (answer (-1) [])) has can n f
      | S_close fd \<Rightarrow> starts_of (k (answer 0 [])) has can n (f[nat fd := None])
      | S_open path mode \<Rightarrow>
          if can path mode then
            (case alloc_fd (Some (Opened path mode)) f of (fd, g) \<Rightarrow> starts_of (k (answer fd [])) has can n g)
          else starts_of (k (answer (-1) [])) has can n f
      | S_dup fd \<Rightarrow>
          (case alloc_fd (f ! nat fd) f of (fd, g) \<Rightarrow> starts_of (k (answer fd [])) has can n g)
      | S_pipe \<Rightarrow>
          (case alloc_pipe n f of (p, g) \<Rightarrow>
             starts_of (k ((answer (if fst p < 0 then -1 else 0) [])\<lparr>rfds := p\<rparr>)) has can (n + 1) g)
      | _ \<Rightarrow> starts_of (k (answer 0 [])) has can n f)"

text \<open>
  What the command means: the arguments of each simple command, with standard input and output
  where the redirections and pipes put them and every other descriptor as the shell has it.
\<close>

fun meaning ::
  "u8 list cmd \<Rightarrow> (u8 list \<Rightarrow> bool) \<Rightarrow> (u8 list \<Rightarrow> nat \<Rightarrow> bool) \<Rightarrow> nat \<Rightarrow> fdtab \<Rightarrow> started \<times> nat" where
  "meaning (EXEC []) has can n f = ([], n)"
| "meaning (EXEC (w # ws)) has can n f = (if has w then ([(w # ws, f)], n) else ([], n))"
| "meaning (REDIR c file mode fd) has can n f =
     (if can file (nat mode) then meaning c has can n (f[fd := Some (Opened file (nat mode))]) else ([], n))"
| "meaning (PIPE l r) has can n f =
     (case meaning l has can (n + 1) (f[1 := Some (PipeWrite n)]) of (xs, n1) \<Rightarrow>
      case meaning r has can n1 (f[0 := Some (PipeRead n)]) of (ys, n2) \<Rightarrow> (xs @ ys, n2))"
| "meaning (LIST l r) has can n f =
     (case meaning l has can n f of (xs, n1) \<Rightarrow>
      case meaning r has can n1 f of (ys, n2) \<Rightarrow> (xs @ ys, n2))"
| "meaning (BACK c) has can n f = meaning c has can n f"

text \<open>Standard input, output and error are open, and there is room for a pipe.\<close>

definition std_fds :: "fdtab \<Rightarrow> bool" where
  "std_fds f \<longleftrightarrow> 3 \<le> length f \<and> f ! 0 \<noteq> None \<and> f ! 1 \<noteq> None \<and> f ! 2 \<noteq> None
     \<and> (\<exists>i j. i < j \<and> j < length f \<and> f ! i = None \<and> f ! j = None)"

fun redirs_std :: "'w cmd \<Rightarrow> bool" where
  "redirs_std (EXEC ws) = True"
| "redirs_std (REDIR c file mode fd) = (fd \<le> 1 \<and> redirs_std c)"
| "redirs_std (PIPE l r) = (redirs_std l \<and> redirs_std r)"
| "redirs_std (LIST l r) = (redirs_std l \<and> redirs_std r)"
| "redirs_std (BACK c) = redirs_std c"

lemma lowestI: "i < length f \<Longrightarrow> f ! i = None \<Longrightarrow> (\<forall>j < i. f ! j \<noteq> None) \<Longrightarrow> lowest f = Some i"
  unfolding lowest_def by (subst find_Some_iff) (auto intro!: exI [of _ i])

lemma alloc_fdI:
  "i < length f \<Longrightarrow> f ! i = None \<Longrightarrow> (\<forall>j < i. f ! j \<noteq> None) \<Longrightarrow> alloc_fd x f = (int i, f[i := x])"
  by (simp add: alloc_fd_def lowestI)

lemma std_fdsD:
  assumes "std_fds f"
  shows "3 \<le> length f" "f ! 0 \<noteq> None" "f ! 1 \<noteq> None" "f ! 2 \<noteq> None"
  using assms by (auto simp: std_fds_def)

lemma std_fds_set: "std_fds f \<Longrightarrow> fd \<le> 1 \<Longrightarrow> std_fds (f[fd := Some x])"
proof -
  assume f: "std_fds f" and fd: "fd \<le> 1"
  then obtain i j where ij: "i < j" "j < length f" "f ! i = None" "f ! j = None" by (auto simp: std_fds_def)
  have d: "f ! fd \<noteq> None" using std_fdsD(2,3) [OF f] fd by (cases fd) auto
  then have "fd \<noteq> i" "fd \<noteq> j" using ij by auto
  then have "\<exists>i j. i < j \<and> j < length f \<and> f[fd := Some x] ! i = None \<and> f[fd := Some x] ! j = None"
    using ij by (intro exI [of _ i] exI [of _ j]) simp
  moreover have "fd < length f" using std_fdsD(1) [OF f] fd by simp
  ultimately show ?thesis using std_fdsD [OF f] by (simp add: std_fds_def nth_list_update)
qed

lemma std_fds_room:
  assumes "std_fds f"
  obtains i j where "2 < i" "i < j" "j < length f" "f ! i = None" "f ! j = None"
    "\<forall>k < i. f ! k \<noteq> None" "\<forall>k < j. k \<noteq> i \<longrightarrow> f ! k \<noteq> None"
proof -
  obtain k l where kl: "k < l" "l < length f" "f ! k = None" "f ! l = None" using assms by (auto simp: std_fds_def)
  define i where "i = (LEAST k. k < length f \<and> f ! k = None)"
  define j where "j = (LEAST k. k < length f \<and> k \<noteq> i \<and> f ! k = None)"
  have p1: "k < length f \<and> f ! k = None" using kl by simp
  have i: "i < length f" "f ! i = None" using LeastI [where P = "\<lambda>k. k < length f \<and> f ! k = None", OF p1] by (simp_all add: i_def)
  have li: "\<forall>k < i. f ! k \<noteq> None"
  proof (intro allI impI notI)
    fix k assume "k < i" "f ! k = None"
    then show False
      using not_less_Least [of k "\<lambda>k. k < length f \<and> f ! k = None"] i(1) by (simp add: i_def [symmetric])
  qed
  have "\<exists>k. k < length f \<and> k \<noteq> i \<and> f ! k = None" using kl by (metis nat_neq_iff order.strict_trans)
  then have "j < length f \<and> j \<noteq> i \<and> f ! j = None" unfolding j_def by (rule LeastI_ex)
  then have j: "j < length f" "j \<noteq> i" "f ! j = None" by simp_all
  have lj: "\<forall>k < j. k \<noteq> i \<longrightarrow> f ! k \<noteq> None"
  proof (intro allI impI notI)
    fix k assume "k < j" "k \<noteq> i" "f ! k = None"
    then show False
      using not_less_Least [of k "\<lambda>k. k < length f \<and> k \<noteq> i \<and> f ! k = None"] j(1) by (simp add: j_def [symmetric])
  qed
  have "i < j" using li j by (metis linorder_neqE_nat)
  moreover have "2 < i"
    using i(2) std_fdsD(2-4) [OF assms] by (cases "i = 0"; cases "i = 1"; cases "i = 2") auto
  ultimately show ?thesis using that i j li lj by blast
qed

text \<open>Messages do not matter for what is started.\<close>

lemma starts_of_puts [simp]: "starts_of (puts_prog fd cs p) has can n f = starts_of p has can n f"
  by (induction cs) simp_all

lemma sh_prompts_ok [simp]:
  "ufmt_ok False (str ''%s'' @ [10]) [AStr p]"
  "ufmt_ok False (str ''exec %s failed'' @ [10]) [AStr p]"
  "ufmt_ok False (str ''open %s failed'' @ [10]) [AStr p]"
  "ufmt_ok False (str ''leftovers: %s'' @ [10]) [AStr p]"
  by (simp_all add: str_def)

text \<open>\<open>runcmd\<close> does not return, so what follows a call of it is not run.\<close>

primrec never_returns :: "'a prog \<Rightarrow> bool" where
  "never_returns (Return a) = False"
| "never_returns Exit = True"
| "never_returns Fault = True"
| "never_returns prog.NoFuel = True"
| "never_returns (Call c k) = (\<forall>r. never_returns (k r))"

lemma starts_of_never:
  "never_returns m \<Longrightarrow> starts_of (useq m p) has can n f = starts_of m has can n f"
  by (induction m arbitrary: n f) (simp_all split: sys_call.split prod.split)

lemma never_ubind: "never_returns m \<Longrightarrow> never_returns (ubind m f)"
  by (induction m) simp_all

lemma never_puts [simp]: "never_returns (puts_prog fd cs p) = never_returns p"
  by (induction cs) simp_all

lemma ubind_sayln:
  "ufmt_ok False (str fmt @ [10]) args \<Longrightarrow> ubind (sayln fd fmt args) (\<lambda>_. p) = puts_prog fd (utext False (str fmt @ [10]) args) p"
  using say_text(2) [of fmt args fd p] by (simp add: useq_def)

lemma panic_alt: "panic s = puts_prog 2 (utext False (str ''%s'' @ [10]) [AStr (Some s)]) Exit"
  by (simp add: panic_def ubind_sayln)

lemma ubind_puts: "ubind (puts_prog fd cs p) g = puts_prog fd cs (ubind p g)"
  by (induction cs) simp_all

lemma ubind_fork1:
  "ubind fork1 g = Call S_fork (\<lambda>r. if rv r = -1 then puts_prog 2 (utext False (str ''%s'' @ [10]) [AStr (Some (str ''fork''))]) Exit else g (rv r))"
  by (simp add: fork1_def panic_alt ubind_puts if_distrib [of "\<lambda>m. ubind m g"] cong: if_cong)

lemma never_useq: "never_returns m \<or> never_returns p \<Longrightarrow> never_returns (useq m p)"
  unfolding useq_def by (induction m) auto

lemma runcmd_never [simp]: "never_returns (runcmd c)"
  by (induction c rule: runcmd.induct)
    (auto simp: say_text ubind_fork1 panic_alt ucall_def never_useq split: prod.splits)

lemma starts_of_fork1:
  "starts_of (ubind fork1 g) has can n f =
     (case starts_of (g 0) has can n f of (xs, n1) \<Rightarrow>
      case starts_of (g 1) has can n1 f of (ys, n2) \<Rightarrow> (xs @ ys, n2))"
  by (simp add: ubind_fork1)

lemma runcmd_meaning:
  "std_fds f \<Longrightarrow> redirs_std c \<Longrightarrow> starts_of (runcmd c) has can n f = meaning c has can n f"
proof (induction c has can n f rule: meaning.induct)
  case (3 c path mode fd has can n f)
  have len: "fd < length f" "\<forall>j < fd. f ! j \<noteq> None" using std_fdsD [OF 3(2)] 3(3) by (auto simp: less_Suc_eq_le le_Suc_eq)
  have "alloc_fd x (f[fd := None]) = (int fd, f[fd := x])" for x
    using alloc_fdI [of fd "f[fd := None]" x] len by simp
  then show ?case using 3 std_fds_set by (simp add: say_text starts_of_never)
next
  case (4 l r has can n f)
  obtain i j where ij: "2 < i" "i < j" "j < length f" "f ! i = None" "f ! j = None"
    "\<forall>k < i. f ! k \<noteq> None" "\<forall>k < j. k \<noteq> i \<longrightarrow> f ! k \<noteq> None" using std_fds_room [OF 4(3)] by metis
  have a: "alloc_pipe n f = ((int i, int j), f[i := Some (PipeRead n), j := Some (PipeWrite n)])"
    using alloc_fdI [of i f "Some (PipeRead n)"] alloc_fdI [of j "f[i := Some (PipeRead n)]" "Some (PipeWrite n)"] ij
    by (simp add: alloc_pipe_def nth_list_update)
  have undo: "f[i := None] = f" "f[j := None] = f" using ij by (metis list_update_id)+
  let ?g = "f[i := Some (PipeRead n), j := Some (PipeWrite n)]"
  have left: "alloc_fd (?g[1 := None] ! j) (?g[1 := None]) = (1, ?g[1 := Some (PipeWrite n)])"
    using alloc_fdI [of 1 "?g[1 := None]"] ij std_fdsD(2) [OF 4(3)] by simp
  have "f \<noteq> []" using ij by auto
  then have right: "alloc_fd (?g[0 := None] ! i) (?g[0 := None]) = (0, ?g[0 := Some (PipeRead n)])"
    using alloc_fdI [of 0 "?g[0 := None]"] ij \<open>f \<noteq> []\<close> by simp
  have l2: "?g[1 := Some (PipeWrite n), i := None, j := None] = f[1 := Some (PipeWrite n)]"
    using ij undo by (simp add: list_update_swap)
  have r2: "?g[0 := Some (PipeRead n), i := None, j := None] = f[0 := Some (PipeRead n)]"
    using ij undo by (simp add: list_update_swap)
  show ?case using 4 std_fds_set a left right l2 r2
    by (simp add: starts_of_fork1 starts_of_never panic_alt split: prod.split)
next
  case (5 l r has can n f)
  then show ?case by (simp add: starts_of_fork1 starts_of_never split: prod.split)
qed (simp_all add: say_text starts_of_fork1 starts_of_never)

lemma redir_cmd_std: "redirs_std (redir_cmd r c) = redirs_std c"
  by (cases r) (simp add: redir_flags_def)

lemma redirs_cmd_std: "redirs_std (fold redir_cmd rs c) = redirs_std c"
  by (induction rs arbitrary: c) (simp_all add: redir_cmd_std)

lemma backs_std: "redirs_std ((BACK ^^ n) c) = redirs_std c"
  by (induction n) simp_all

lemma line_cmd_std: "redirs_std (line_cmd l)" "redirs_std (pline_cmd p)" "redirs_std (eline_cmd e)"
  by (induction l and p and e) (simp_all add: redirs_cmd_std backs_std)

text \<open>
  C32. The shell runs what the line says.  For every line of its grammar the child that parses and
  runs it starts exactly the programs of the line, each with its arguments, with standard input
  and output where its redirections and pipes put them, and with every other descriptor as the
  shell has it: no program inherits a stray end of a pipe.  The shell needs its three standard
  descriptors and two free ones; programs that do not exist and files that do not open are left
  to the environment.
\<close>

theorem shell_runs_line:
  assumes "line_ok l" and "std_fds f"
  shows "starts_of (parse_and_run (line_text l)) has can n f = meaning (line_cmd l) has can n f"
proof -
  obtain c buf where "parsecmd (line_text l) = Parsed (c, buf) (length (line_text l))"
      "map_cmd (\<lambda>(q, eq). string_from buf q) c = line_cmd l"
    using parsecmd_text [OF assms(1)] by blast
  then have "parse_and_run (line_text l) = runcmd (line_cmd l)" by (simp add: parse_and_run_def)
  then show ?thesis using runcmd_meaning [OF assms(2) line_cmd_std(1)] by simp
qed

theorem shell_runs_line_witness:
  "starts_of (parse_and_run [97, 32, 124, 32, 98, 32, 62, 32, 99, 32]) (\<lambda>_. True) (\<lambda>_ _. True) 0
      [Some (Inherited 0), Some (Inherited 1), Some (Inherited 2), None, None]
     = ([([[97]], [Some (Inherited 0), Some (PipeWrite 0), Some (Inherited 2), None, None]),
         ([[98]], [Some (PipeRead 0), Some (Opened [99] 0x201), Some (Inherited 2), None, None])], 1)"
proof -
  let ?l = "Line1 (PipeTo (Simple [] [([97], [])]) (Pipe1 (Simple [] [([98], [Redir T_GT [99]])]))) 0"
  let ?f = "[Some (Inherited 0), Some (Inherited 1), Some (Inherited 2), None, None]"
  have ok: "line_ok ?l" by (simp add: word_ok_def word_char_def whitespace_def symbols_def MAXARGS_def)
  have shown: "line_text ?l = [97, 32, 124, 32, 98, 32, 62, 32, 99, 32]"
    by (simp add: amps_text_def redirs_text_def args_text_def)
  have tree: "line_cmd ?l = PIPE (EXEC [[97]]) (REDIR (EXEC [[98]]) [99] 0x201 1)"
    by (simp add: redir_flags_def)
  have "\<exists>i j. i < j \<and> j < length ?f \<and> ?f ! i = None \<and> ?f ! j = None"
    by (intro exI [of _ 3] exI [of _ 4]) simp
  then have std: "std_fds ?f" by (simp add: std_fds_def)
  show ?thesis using shell_runs_line [OF ok std, of "\<lambda>_. True" "\<lambda>_ _. True" 0] unfolding shown tree by simp
qed

end
