(* ===== verification/Umalloc.thy ===== *)
theory Umalloc
  imports Kalloc
begin

text \<open>
  The allocator of user programs (\<open>umalloc.c\<close>): a circular list of free blocks in the order of
  their addresses, each with a header of 8 bytes (the next block, and the size in units of 8 bytes
  that counts the header).  Memory is a map from user addresses to bytes; \<open>base\<close> is where the
  static header lies.
\<close>

section \<open>The heap\<close>

text \<open>\<open>ubrk\<close> is the size of the process, and \<open>grows\<close> says whether the kernel can extend it to an
  address.\<close>

record heap =
  umem :: mem
  freep :: u32
  base :: u32
  ubrk :: u32
  grows :: "u32 \<Rightarrow> bool"

definition hptr :: "u32 \<Rightarrow> heap \<Rightarrow> u32" where
  "hptr p s = ld32 p (umem s)"

definition hsize :: "u32 \<Rightarrow> heap \<Rightarrow> u32" where
  "hsize p s = ld32 (p + 4) (umem s)"

definition set_hptr :: "u32 \<Rightarrow> u32 \<Rightarrow> heap \<Rightarrow> heap" where
  "set_hptr p v s = s\<lparr>umem := st32 p v (umem s)\<rparr>"

definition set_hsize :: "u32 \<Rightarrow> u32 \<Rightarrow> heap \<Rightarrow> heap" where
  "set_hsize p v s = s\<lparr>umem := st32 (p + 4) v (umem s)\<rparr>"

text \<open>\<open>sbrk\<close>: the old size, or \<open>-1\<close>.  A negative argument shrinks the process; a size that is too
  large for the address space is refused.\<close>

definition sbrk :: "u32 \<Rightarrow> heap \<Rightarrow> u32 \<times> heap" where
  "sbrk n s =
     (if sint n < 0 then (ubrk s, s\<lparr>ubrk := ubrk s + n\<rparr>)
      else if unat (ubrk s) + unat n < unat KERNBASE \<and> grows s (ubrk s + n) then (ubrk s, s\<lparr>ubrk := ubrk s + n\<rparr>)
      else (-1, s))"

section \<open>The allocator\<close>

text \<open>The loop of \<open>free\<close>: the block after which \<open>bp\<close> belongs.\<close>

partial_function (option) free_scan :: "u32 \<Rightarrow> u32 \<Rightarrow> heap \<Rightarrow> u32 option" where
  "free_scan bp p s =
     (if p < bp \<and> bp < hptr p s then Some p
      else if hptr p s \<le> p \<and> (p < bp \<or> bp < hptr p s) then Some p
      else free_scan bp (hptr p s) s)"

definition join_upper :: "u32 \<Rightarrow> u32 \<Rightarrow> heap \<Rightarrow> heap" where
  "join_upper bp p s =
     (if bp + 8 * hsize bp s = hptr p s then
        let s1 = set_hsize bp (hsize bp s + hsize (hptr p s) s) s
        in set_hptr bp (hptr (hptr p s1) s1) s1
      else set_hptr bp (hptr p s) s)"

definition join_lower :: "u32 \<Rightarrow> u32 \<Rightarrow> heap \<Rightarrow> heap" where
  "join_lower bp p s =
     (if p + 8 * hsize p s = bp then
        let s1 = set_hsize p (hsize p s + hsize bp s) s
        in set_hptr p (hptr bp s1) s1
      else set_hptr p bp s)"

definition ufree :: "u32 \<Rightarrow> heap \<Rightarrow> heap option" where
  "ufree ap s =
     (let bp = ap - 8 in
      Option.bind (free_scan bp (freep s) s) (\<lambda>p.
      Some ((join_lower bp p (join_upper bp p s))\<lparr>freep := p\<rparr>)))"

definition morecore :: "u32 \<Rightarrow> heap \<Rightarrow> (u32 \<times> heap) option" where
  "morecore nu s =
     (let nu = (if nu < 4096 then 4096 else nu) in
      case sbrk (nu * 8) s of (p, s1) \<Rightarrow>
        if p = -1 then Some (0, s1)
        else Option.bind (ufree (p + 8) (set_hsize p nu s1)) (\<lambda>s2. Some (freep s2, s2)))"

text \<open>Takes \<open>n\<close> units from the block \<open>p\<close> that follows \<open>prevp\<close>: all of it, or its upper end.\<close>

definition take_block :: "u32 \<Rightarrow> u32 \<Rightarrow> u32 \<Rightarrow> heap \<Rightarrow> u32 \<times> heap" where
  "take_block n prevp p s =
     (if hsize p s = n then (p + 8, (set_hptr prevp (hptr p s) s)\<lparr>freep := prevp\<rparr>)
      else
        let s1 = set_hsize p (hsize p s - n) s;
            q = p + 8 * hsize p s1
        in (q + 8, (set_hsize q n s1)\<lparr>freep := prevp\<rparr>))"

partial_function (option) malloc_loop :: "u32 \<Rightarrow> u32 \<Rightarrow> u32 \<Rightarrow> heap \<Rightarrow> (u32 \<times> heap) option" where
  "malloc_loop n prevp p s =
     (if n \<le> hsize p s then Some (take_block n prevp p s)
      else if p = freep s then
        Option.bind (morecore n s) (\<lambda>(q, s1).
          if q = 0 then Some (0, s1) else malloc_loop n q (hptr q s1) s1)
      else malloc_loop n p (hptr p s) s)"

definition units :: "u32 \<Rightarrow> u32" where
  "units nbytes = (nbytes + 8 - 1) div 8 + 1"

definition malloc :: "u32 \<Rightarrow> heap \<Rightarrow> (u32 \<times> heap) option" where
  "malloc nbytes s =
     (let s1 = (if freep s = 0 then set_hsize (base s) 0 ((set_hptr (base s) (base s) s)\<lparr>freep := base s\<rparr>) else s)
      in malloc_loop (units nbytes) (freep s1) (hptr (freep s1) s1) s1)"

section \<open>Blocks\<close>

lemma heap_more [simp]:
  "freep (set_hptr p v s) = freep s" "base (set_hptr p v s) = base s" "ubrk (set_hptr p v s) = ubrk s"
  "grows (set_hptr p v s) = grows s"
  "freep (set_hsize p v s) = freep s" "base (set_hsize p v s) = base s" "ubrk (set_hsize p v s) = ubrk s"
  "grows (set_hsize p v s) = grows s"
  "hptr a (s\<lparr>freep := q\<rparr>) = hptr a s" "hsize a (s\<lparr>freep := q\<rparr>) = hsize a s"
  "hptr a (s\<lparr>ubrk := q\<rparr>) = hptr a s" "hsize a (s\<lparr>ubrk := q\<rparr>) = hsize a s"
  by (simp_all add: set_hptr_def set_hsize_def hptr_def hsize_def)

text \<open>Headers that do not overlap.\<close>

definition cells :: "u32 set \<Rightarrow> bool" where
  "cells A \<longleftrightarrow> (\<forall>a \<in> A. unat a + 8 \<le> 2 ^ 31)
     \<and> (\<forall>a \<in> A. \<forall>b \<in> A. a \<noteq> b \<longrightarrow> unat a + 8 \<le> unat b \<or> unat b + 8 \<le> unat a)"

lemma unat_plus4: "unat a + 8 \<le> 2 ^ 31 \<Longrightarrow> unat (a + 4 :: u32) = unat a + 4"
  by (rule unat_add_nowrap32 [of a 4, simplified]) simp

lemma cell_apart:
  assumes "cells A" "a \<in> A" "b \<in> A"
  shows "unat (a + 4) = unat a + 4" "unat (b + 4) = unat b + 4"
    "a \<noteq> b \<Longrightarrow> unat a + 8 \<le> unat b \<or> unat b + 8 \<le> unat a"
  using assms by (auto simp: cells_def intro: unat_plus4)

lemma hptr_set [simp]:
  assumes "cells A" "a \<in> A" "b \<in> A"
  shows "hptr a (set_hptr b v s) = (if a = b then v else hptr a s)"
    and "hsize a (set_hptr b v s) = hsize a s"
    and "hptr a (set_hsize b v s) = hptr a s"
    and "hsize a (set_hsize b v s) = (if a = b then v else hsize a s)"
proof -
  note c = cell_apart [OF assms]
  show "hptr a (set_hptr b v s) = (if a = b then v else hptr a s)"
    using c(3) by (auto simp: hptr_def set_hptr_def ld32_st32_other)
  have "ld32 (a + 4) (st32 b v (umem s)) = ld32 (a + 4) (umem s)"
    by (rule ld32_st32_other) (use c in \<open>cases "a = b"; auto\<close>)
  then show "hsize a (set_hptr b v s) = hsize a s" by (simp add: hsize_def set_hptr_def)
  have "ld32 a (st32 (b + 4) v (umem s)) = ld32 a (umem s)"
    by (rule ld32_st32_other) (use c in \<open>cases "a = b"; auto\<close>)
  then show "hptr a (set_hsize b v s) = hptr a s" by (simp add: hptr_def set_hsize_def)
  show "hsize a (set_hsize b v s) = (if a = b then v else hsize a s)"
  proof (cases "a = b")
    case False
    then have "ld32 (a + 4) (st32 (b + 4) v (umem s)) = ld32 (a + 4) (umem s)"
      by (intro ld32_st32_other) (use c in auto)
    then show ?thesis using False by (simp add: hsize_def set_hsize_def)
  qed (simp add: hsize_def set_hsize_def)
qed

declare hptr_set [simp del]

definition end_of :: "heap \<Rightarrow> u32 \<Rightarrow> nat" where
  "end_of s a = unat a + 8 * unat (hsize a s)"

text \<open>The blocks of \<open>B\<close> lie one beside the other above the static header and below the end of the
  process.\<close>

definition heap_ok :: "heap \<Rightarrow> u32 set \<Rightarrow> bool" where
  "heap_ok s B \<longleftrightarrow> base s \<noteq> 0 \<and> hsize (base s) s = 0 \<and> unat (base s) + 8 \<le> unat (ubrk s)
     \<and> unat (ubrk s) \<le> 2 ^ 31
     \<and> (\<forall>a \<in> B. 0 < hsize a s \<and> unat (base s) + 8 \<le> unat a \<and> end_of s a \<le> unat (ubrk s))
     \<and> (\<forall>a \<in> B. \<forall>b \<in> B. a \<noteq> b \<longrightarrow> end_of s a \<le> unat b \<or> end_of s b \<le> unat a)"

lemma heap_okD:
  assumes "heap_ok s B"
  shows "base s \<noteq> 0" "hsize (base s) s = 0" "unat (base s) + 8 \<le> unat (ubrk s)" "unat (ubrk s) \<le> 2 ^ 31"
    "a \<in> B \<Longrightarrow> 0 < unat (hsize a s)" "a \<in> B \<Longrightarrow> unat (base s) + 8 \<le> unat a"
    "a \<in> B \<Longrightarrow> end_of s a \<le> unat (ubrk s)"
    "a \<in> B \<Longrightarrow> b \<in> B \<Longrightarrow> a \<noteq> b \<Longrightarrow> end_of s a \<le> unat b \<or> end_of s b \<le> unat a"
    "base s \<notin> B"
  using assms by (auto simp: heap_ok_def unat_gt_0)

lemma end_of_header: "0 < unat (hsize a s) \<Longrightarrow> unat a + 8 \<le> end_of s a"
  by (simp add: end_of_def)

lemma heap_cells: "heap_ok s B \<Longrightarrow> cells (insert (base s) B)"
  unfolding cells_def
proof (intro conjI ballI impI)
  fix a
  assume s: "heap_ok s B" and "a \<in> insert (base s) B"
  then consider "a = base s" | "a \<in> B" by auto
  then show "unat a + 8 \<le> 2 ^ 31"
    by cases (use heap_okD [OF s] end_of_header [of a s] in \<open>fastforce+\<close>)
next
  fix a b
  assume s: "heap_ok s B" and ab: "a \<in> insert (base s) B" "b \<in> insert (base s) B" "a \<noteq> b"
  have h: "unat x + 8 \<le> end_of s x" if "x \<in> B" for x using end_of_header heap_okD(5) [OF s that] by blast
  consider "a = base s" "b \<in> B" | "b = base s" "a \<in> B" | "a \<in> B" "b \<in> B" using ab by auto
  then show "unat a + 8 \<le> unat b \<or> unat b + 8 \<le> unat a"
  proof cases
    case 3
    then show ?thesis using heap_okD(8) [OF s 3 ab(3)] h [of a] h [of b] by linarith
  qed (use heap_okD(6) [OF s] in blast)+
qed

lemma heap_ok_subset: "heap_ok s B \<Longrightarrow> A \<subseteq> B \<Longrightarrow> heap_ok s A"
  unfolding heap_ok_def by blast

lemma heap_ok_freep [simp]: "heap_ok (s\<lparr>freep := p\<rparr>) B = heap_ok s B"
  by (simp add: heap_ok_def end_of_def)

lemma heap_ok_cong:
  assumes "heap_ok s B" and "base t = base s" and "ubrk t = ubrk s"
    and "\<And>a. a \<in> insert (base s) B \<Longrightarrow> hsize a t = hsize a s"
  shows "heap_ok t B"
proof -
  have e: "end_of t a = end_of s a" if "a \<in> B" for a using assms(4) that by (simp add: end_of_def)
  show ?thesis using assms(1) e assms(4) unfolding heap_ok_def assms(2,3) by simp
qed

lemma heap_ok_ptr: "heap_ok s B \<Longrightarrow> a \<in> insert (base s) B \<Longrightarrow> heap_ok (set_hptr a v s) B"
  by (rule heap_ok_cong [where s = s]) (simp_all add: hptr_set(2) [OF heap_cells [of s B]])

lemma unat_8: "8 * unat (k :: u32) < 2 ^ 32 \<Longrightarrow> unat (8 * k) = 8 * unat k"
  by (simp add: unat_word_ariths)

lemma end_of_unat: "heap_ok s B \<Longrightarrow> a \<in> B \<Longrightarrow> unat (a + 8 * hsize a s) = end_of s a"
proof -
  assume s: "heap_ok s B" and a: "a \<in> B"
  have e: "end_of s a \<le> 2 ^ 31" using heap_okD(4,7) [OF s] a by (meson order_trans)
  then have "unat (8 * hsize a s) = 8 * unat (hsize a s)"
    by (intro unat_8) (simp add: end_of_def)
  then show ?thesis using e by (simp add: end_of_def unat_add_nowrap32)
qed

text \<open>Two neighbours become one block; one block becomes two.\<close>

lemma join_blocks:
  assumes s: "heap_ok s B" and ab: "a \<in> B" "b \<in> B" "a + 8 * hsize a s = b"
  defines "t \<equiv> set_hsize a (hsize a s + hsize b s) s"
  shows "heap_ok t (B - {b})" and "a \<noteq> b" and "unat (hsize a t) = unat (hsize a s) + unat (hsize b s)"
proof -
  have eb: "end_of s a = unat b" using end_of_unat [OF s ab(1)] ab(3) by simp
  then show ne: "a \<noteq> b" using heap_okD(5) [OF s ab(1)] by (auto simp: end_of_def)
  have "end_of s b \<le> 2 ^ 31" using heap_okD(4,7) [OF s] ab(2) by (meson order_trans)
  then have u: "unat (hsize a s + hsize b s) = unat (hsize a s) + unat (hsize b s)"
    using eb by (intro unat_add_nowrap32) (simp add: end_of_def)
  have sz: "hsize x t = (if x = a then hsize a s + hsize b s else hsize x s)" if "x \<in> insert (base s) B" for x
    using that ab(1) unfolding t_def by (simp add: hptr_set(4) [OF heap_cells [OF s]])
  then show "unat (hsize a t) = unat (hsize a s) + unat (hsize b s)" using ab(1) u by simp
  have e: "end_of t x = (if x = a then end_of s b else end_of s x)" if "x \<in> B" for x
    using sz [of x] that eb u by (simp add: end_of_def)
  have simps: "base t = base s" "ubrk t = ubrk s" by (simp_all add: t_def)
  have n0: "a \<noteq> base s" using heap_okD(9) [OF s] ab(1) by blast
  show "heap_ok t (B - {b})" unfolding heap_ok_def simps
  proof (intro conjI ballI impI)
    show "hsize (base s) t = 0" using sz [of "base s"] n0 heap_okD(2) [OF s] by simp
    fix x assume x: "x \<in> B - {b}"
    show "0 < hsize x t" using sz [of x] x heap_okD(5) [OF s, of x] heap_okD(5) [OF s ab(1)] u by (auto simp: word_less_nat_alt)
    show "unat (base s) + 8 \<le> unat x" using heap_okD(6) [OF s] x by blast
    show "end_of t x \<le> unat (ubrk s)" using e [of x] x heap_okD(7) [OF s] ab(2) by auto
    fix y assume y: "y \<in> B - {b}" "x \<noteq> y"
    have f: "end_of s b \<le> unat z \<or> end_of s z \<le> unat a" if z: "z \<in> B" "z \<noteq> a" "z \<noteq> b" for z
    proof -
      have "unat z + 8 \<le> end_of s z" using end_of_header heap_okD(5) [OF s z(1)] by blast
      then show ?thesis using heap_okD(8) [OF s ab(2) z(1)] heap_okD(8) [OF s ab(1) z(1)] z eb by (cases "end_of s b \<le> unat z") auto
    qed
    show "end_of t x \<le> unat y \<or> end_of t y \<le> unat x"
      using e [of x] e [of y] x y f [of x] f [of y] heap_okD(8) [OF s, of x y] by (cases "x = a"; cases "y = a") auto
  qed (use heap_okD [OF s] in simp_all)
qed

lemma split_block:
  assumes s: "heap_ok s B" and a: "a \<in> B" "0 < n" "n < hsize a s"
  defines "q \<equiv> a + 8 * (hsize a s - n)"
  defines "t \<equiv> set_hsize q n (set_hsize a (hsize a s - n) s)"
  shows "heap_ok t (insert q B)" and "q \<notin> insert (base s) B" and "unat (hsize q t) = unat n"
    and "unat q + 8 * unat n = end_of s a" and "unat a + 8 \<le> unat q"
    and "\<And>x. x \<in> insert (base s) B \<Longrightarrow> hptr x t = hptr x s"
    and "\<And>x. x \<in> B \<Longrightarrow> x \<noteq> a \<Longrightarrow> hsize x t = hsize x s"
proof -
  have e: "end_of s a \<le> 2 ^ 31" using heap_okD(4,7) [OF s] a(1) by (meson order_trans)
  have n: "0 < unat n" "unat n < unat (hsize a s)" using a(2,3) by (simp_all add: word_less_nat_alt unat_gt_0)
  have d: "unat (hsize a s - n) = unat (hsize a s) - unat n" using a(3) by (simp add: unat_sub)
  then have "unat (8 * (hsize a s - n)) = 8 * (unat (hsize a s) - unat n)"
    using e by (subst unat_8) (simp_all add: end_of_def)
  then have q: "unat q = unat a + 8 * (unat (hsize a s) - unat n)"
    unfolding q_def using e n by (subst unat_add_nowrap32) (simp_all add: end_of_def)
  then show qe: "unat q + 8 * unat n = end_of s a" using n by (simp add: end_of_def)
  show qa: "unat a + 8 \<le> unat q" using q n by linarith
  have out: "end_of s x \<le> unat a \<or> end_of s a \<le> unat x" if "x \<in> B" "x \<noteq> a" for x
    using heap_okD(8) [OF s a(1) that(1)] that by auto
  have hd: "unat x + 8 \<le> end_of s x" if "x \<in> B" for x using end_of_header heap_okD(5) [OF s that] by blast
  have ba: "unat (base s) + 8 \<le> unat a" using heap_okD(6) [OF s a(1)] .
  show qB: "q \<notin> insert (base s) B"
  proof
    assume "q \<in> insert (base s) B"
    then consider "q = base s" | "q = a" | "q \<in> B" "q \<noteq> a" by auto
    then show False
      by cases (use ba qa qe n out [of q] hd [of q] in \<open>auto\<close>)
  qed
  have "unat x + 8 \<le> unat q \<or> unat q + 8 \<le> unat x" if "x \<in> insert (base s) B" for x
  proof -
    consider "x = base s" | "x = a" | "x \<in> B" "x \<noteq> a" using \<open>x \<in> insert (base s) B\<close> by auto
    then show ?thesis by cases (use ba qa qe n out [of x] hd [of x] in \<open>auto\<close>)
  qed
  moreover have "unat q + 8 \<le> 2 ^ 31" using qe e n by linarith
  ultimately have "cells (insert q (insert (base s) B))"
    using heap_cells [OF s] unfolding cells_def by blast
  note c = hptr_set [OF this]
  have sz: "hsize x t = (if x = q then n else if x = a then hsize a s - n else hsize x s)" if "x \<in> insert q (insert (base s) B)" for x
  proof -
    have m: "a \<in> insert q (insert (base s) B)" "q \<in> insert q (insert (base s) B)" using a(1) by auto
    show ?thesis unfolding t_def c(4) [OF that m(2)] c(4) [OF that m(1)] by simp
  qed
  show "unat (hsize q t) = unat n" using sz by simp
  show "hptr x t = hptr x s" if "x \<in> insert (base s) B" for x using that a(1) unfolding t_def by (simp add: c(3))
  show "hsize x t = hsize x s" if "x \<in> B" "x \<noteq> a" for x using sz [of x] that qB by auto
  have ends: "end_of t x = (if x = q then end_of s a else if x = a then unat q else end_of s x)" if "x \<in> insert q B" for x
    using sz [of x] that qe q d n by (auto simp: end_of_def)
  have simps: "base t = base s" "ubrk t = ubrk s" by (simp_all add: t_def)
  have aq: "a \<noteq> q" "base s \<noteq> q" "base s \<noteq> a" using qa ba qB by auto
  show "heap_ok t (insert q B)" unfolding heap_ok_def simps
  proof (intro conjI ballI impI)
    show "hsize (base s) t = 0" using sz [of "base s"] aq heap_okD(2) [OF s] by simp
    fix x assume x: "x \<in> insert q B"
    show "0 < hsize x t" using sz [of x] x heap_okD(5) [OF s, of x] n d by (auto simp: word_less_nat_alt)
    show "unat (base s) + 8 \<le> unat x" using heap_okD(6) [OF s, of x] x qa ba by auto
    show "end_of t x \<le> unat (ubrk s)" using ends [of x] x heap_okD(7) [OF s, of x] heap_okD(7) [OF s a(1)] qe by auto
    fix y assume y: "y \<in> insert q B" "x \<noteq> y"
    show "end_of t x \<le> unat y \<or> end_of t y \<le> unat x"
      using ends [OF x] ends [OF y(1)] x y aq out [of x] out [of y] heap_okD(8) [OF s, of x y] qa qe
      by (cases "x = q"; cases "y = q"; cases "x = a"; cases "y = a") auto
  qed (use heap_okD [OF s] in simp_all)
qed

section \<open>The free list\<close>

fun chain :: "heap \<Rightarrow> u32 list \<Rightarrow> bool" where
  "chain s (a # b # xs) \<longleftrightarrow> hptr a s = b \<and> chain s (b # xs)"
| "chain s xs \<longleftrightarrow> True"

lemma chain_append: "chain s (xs @ p # ys) \<longleftrightarrow> chain s (xs @ [p]) \<and> chain s (p # ys)"
proof (induction xs)
  case (Cons x xs)
  then show ?case by (cases xs) auto
qed simp

lemma chain_cong: "chain s xs \<Longrightarrow> (\<And>a. a \<in> set (butlast xs) \<Longrightarrow> hptr a t = hptr a s) \<Longrightarrow> chain t xs"
  by (induction s xs rule: chain.induct) auto

lemma chain_next: "chain s (a # ys @ [b]) \<Longrightarrow> hptr a s = hd (ys @ [b])"
  by (cases ys) simp_all

lemma chain_Cons: "hptr a t = hd (ys @ [b]) \<Longrightarrow> chain t (ys @ [b]) \<Longrightarrow> chain t (a # ys @ [b])"
  by (cases ys) simp_all

text \<open>The free blocks \<open>bs\<close> and the blocks \<open>L\<close> in use.\<close>

definition heap_inv :: "heap \<Rightarrow> u32 list \<Rightarrow> u32 set \<Rightarrow> bool" where
  "heap_inv s bs L \<longleftrightarrow> heap_ok s (set bs \<union> L) \<and> set bs \<inter> L = {} \<and> sorted_wrt (<) (base s # bs)
     \<and> chain s (base s # bs @ [base s]) \<and> freep s \<in> insert (base s) (set bs)"

text \<open>The bytes of the blocks in \<open>B\<close> are as before.\<close>

definition kept :: "heap \<Rightarrow> heap \<Rightarrow> u32 set \<Rightarrow> bool" where
  "kept s t B \<longleftrightarrow> base t = base s \<and> grows t = grows s
     \<and> (\<forall>x \<in> B. \<forall>i. unat x \<le> i \<and> i < end_of s x \<longrightarrow> umem t i = umem s i)"

lemma kept_refl [simp]: "kept s s B"
  by (simp add: kept_def)

lemma kept_freep [simp]: "kept s (t\<lparr>freep := p\<rparr>) B = kept s t B"
  by (simp add: kept_def)

lemma kept_header:
  assumes s: "heap_ok s C" "B \<subseteq> C" and k: "kept s t B" and x: "x \<in> B"
  shows "hptr x t = hptr x s" "hsize x t = hsize x s"
proof -
  have xC: "x \<in> C" using x s(2) by blast
  have h: "unat x + 8 \<le> end_of s x" using end_of_header heap_okD(5) [OF s(1) xC] by blast
  have u: "unat (x + 4) = unat x + 4" using cell_apart(1) [OF heap_cells [OF s(1)]] xC by blast
  have m: "umem t i = umem s i" if "unat x \<le> i" "i < unat x + 8" for i
    using k x that h by (simp add: kept_def)
  show "hptr x t = hptr x s" unfolding hptr_def by (rule ld32_cong) (use m in simp)
  show "hsize x t = hsize x s" unfolding hsize_def by (rule ld32_cong) (use m u in simp)
qed

lemma kept_trans:
  assumes s: "heap_ok s C" "B \<subseteq> C" and k: "kept s t B" "kept t u B"
  shows "kept s u B"
proof -
  have "end_of t x = end_of s x" if "x \<in> B" for x
    using kept_header(2) [OF s k(1) that] by (simp add: end_of_def)
  then show ?thesis using k by (simp add: kept_def)
qed

lemma kept_set:
  assumes s: "heap_ok s C" "B \<subseteq> C" and b: "b \<in> insert (base s) C" "b \<notin> B"
  shows "kept s (set_hptr b v s) B" "kept s (set_hsize b v s) B"
proof -
  have out: "i < unat b \<or> unat b + 8 \<le> i" if x: "x \<in> B" "unat x \<le> i" "i < end_of s x" for x i
  proof -
    have xC: "x \<in> C" using x(1) s(2) by blast
    consider "b = base s" | "b \<in> C" "b \<noteq> x" using b x(1) by auto
    then show ?thesis
    proof cases
      case 1
      then show ?thesis using heap_okD(6) [OF s(1) xC] x(2) by auto
    next
      case 2
      have "unat b + 8 \<le> end_of s b" using end_of_header heap_okD(5) [OF s(1) 2(1)] by blast
      then show ?thesis using heap_okD(8) [OF s(1) 2(1) xC 2(2)] x(2,3) by auto
    qed
  qed
  have u: "unat (b + 4) = unat b + 4" using cell_apart(1) [OF heap_cells [OF s(1)] b(1) b(1)] .
  show "kept s (set_hptr b v s) B" unfolding kept_def by (auto simp: set_hptr_def st32_def dest: out)
  show "kept s (set_hsize b v s) B" unfolding kept_def by (auto simp: set_hsize_def st32_def u dest: out)
qed

section \<open>\<open>free\<close>\<close>

text \<open>The scan finds the place of \<open>bp\<close> from wherever in the list it starts.\<close>

lemma scan_up:
  "chain s (p # xs @ [q]) \<Longrightarrow> sorted_wrt (<) (p # xs) \<Longrightarrow> \<forall>a \<in> set (p # xs). a < bp
     \<Longrightarrow> (q \<le> last (p # xs) \<or> bp < q) \<Longrightarrow> free_scan bp p s = Some (last (p # xs))"
proof (induction xs arbitrary: p)
  case Nil
  then show ?case by (subst free_scan.simps) auto
next
  case (Cons a xs)
  then have "p < a" "a < bp" "hptr p s = a" by auto
  then have "free_scan bp p s = free_scan bp a s" by (subst free_scan.simps) auto
  then show ?case using Cons by simp
qed

lemma scan_wrap:
  "chain s (p # xs @ [b]) \<Longrightarrow> sorted_wrt (<) (p # xs) \<Longrightarrow> \<forall>a \<in> set (p # xs). bp < a \<and> b \<le> a \<Longrightarrow> b < bp
     \<Longrightarrow> free_scan bp p s = free_scan bp b s"
proof (induction xs arbitrary: p)
  case Nil
  then show ?case by (subst free_scan.simps) auto
next
  case (Cons a xs)
  then have "p < a" "bp < p" "hptr p s = a" by auto
  then have "free_scan bp p s = free_scan bp a s" by (subst free_scan.simps) auto
  then show ?case using Cons by simp
qed

lemma sorted_split:
  fixes l :: "u32 list"
  assumes "sorted_wrt (<) l" "b \<notin> set l"
  shows "\<exists>xs ys. l = xs @ ys \<and> (\<forall>a \<in> set xs. a < b) \<and> (\<forall>a \<in> set ys. b < a)"
  using assms
proof (induction l)
  case (Cons a l)
  then obtain xs ys where l: "l = xs @ ys" "\<forall>x \<in> set xs. x < b" "\<forall>y \<in> set ys. b < y" by auto
  show ?case
  proof (cases "a < b")
    case True
    then show ?thesis using l by (intro exI [of _ "a # xs"] exI [of _ ys]) auto
  next
    case False
    then have "b < a" using Cons.prems by auto
    then show ?thesis using Cons.prems by (intro exI [of _ "[]"] exI [of _ "a # l"]) auto
  qed
qed simp

lemma free_scan_finds:
  assumes inv: "heap_inv s bs L" and bp: "bp \<in> L"
  obtains xs p ys where "base s # bs = xs @ p # ys" "free_scan bp (freep s) s = Some p"
    "\<forall>a \<in> set (xs @ [p]). a < bp" "\<forall>a \<in> set ys. bp < a"
proof -
  let ?b = "base s"
  have ok: "heap_ok s (set bs \<union> L)" "set bs \<inter> L = {}" "sorted_wrt (<) (?b # bs)" "chain s (?b # bs @ [?b])"
    "freep s \<in> insert ?b (set bs)" using inv by (simp_all add: heap_inv_def)
  have bb: "?b < bp" using heap_okD(6) [OF ok(1), of bp] bp by (simp add: word_less_nat_alt)
  have "bp \<notin> set (?b # bs)" using ok(2) bp bb by auto
  from sorted_split [OF ok(3) this] obtain us ys where
    us: "?b # bs = us @ ys" "\<forall>a \<in> set us. a < bp" "\<forall>a \<in> set ys. bp < a" by blast
  have "us \<noteq> []" using us bb by (cases us) auto
  then obtain xs p where xp: "us = xs @ [p]" by (metis rev_exhaust)
  have sorted: "sorted_wrt (<) (xs @ p # ys)" using ok(3) us(1) xp by simp
  have ch: "chain s (xs @ p # ys @ [?b])" using ok(4) us(1) xp by (metis append.assoc append_Cons append_Nil)
  have low: "free_scan bp a s = Some p" if a: "a \<in> set us" for a
  proof -
    obtain u v where uv: "us = u @ a # v" using split_list [OF a] by blast
    define q where "q = hd (ys @ [?b])"
    have "chain s (a # v @ [q])"
    proof -
      have "xs @ p # ys @ [?b] = u @ (a # v) @ q # tl (ys @ [?b])" using uv xp unfolding q_def by (cases ys) auto
      then have "chain s ((u @ a # v) @ q # tl (ys @ [?b]))" using ch by simp
      then have "chain s ((u @ a # v) @ [q])" by (rule iffD1 [OF chain_append, THEN conjunct1])
      then show ?thesis using chain_append [of s u a "v @ [q]"] by simp
    qed
    moreover have "sorted_wrt (<) (a # v)" using sorted uv xp by (metis append.assoc append_Cons append_Nil sorted_wrt_append)
    moreover have l: "last (a # v) = p" using uv xp by (metis last_appendR last_snoc list.distinct(1))
    moreover have "q \<le> p \<or> bp < q"
    proof (cases ys)
      case Nil
      have "?b \<le> p" using us(1) sorted xp Nil by (cases xs) (auto simp: sorted_wrt_append)
      then show ?thesis using Nil by (simp add: q_def)
    qed (use us(3) in \<open>simp add: q_def\<close>)
    ultimately show ?thesis using scan_up [of s a v q bp] us(2) uv by auto
  qed
  have "free_scan bp (freep s) s = Some p"
  proof (cases "freep s \<in> set us")
    case False
    then have fy: "freep s \<in> set ys" using ok(5) us(1) by (metis Un_iff list.set(2) set_append)
    then obtain u v where uv: "ys = u @ freep s # v" by (meson split_list)
    have "chain s (freep s # v @ [?b])" using ch uv chain_append [of s "xs @ p # u" "freep s" "v @ [?b]"] by simp
    moreover have "sorted_wrt (<) (freep s # v)" using sorted uv by (simp add: sorted_wrt_append)
    moreover have "\<forall>a \<in> set (freep s # v). bp < a \<and> ?b \<le> a" using us(3) uv bb by (auto intro: less_imp_le order.strict_trans [of ?b bp])
    ultimately have "free_scan bp (freep s) s = free_scan bp ?b s" using scan_wrap bb by blast
    also have "... = Some p" using low us(1) \<open>us \<noteq> []\<close> by (cases us) auto
    finally show ?thesis .
  qed (rule low)
  then show ?thesis using that [of xs p ys] us xp by simp
qed

text \<open>The two halves of the insertion, for a block \<open>bp\<close> whose place is after \<open>p\<close>.\<close>

lemma join_upper_ok:
  assumes s: "heap_ok s (insert bp B)" and B: "bp \<notin> B" "p \<in> insert (base s) B" "set ys \<subseteq> B"
    and ch: "chain s (p # ys @ [base s])" and d: "distinct (p # ys)"
  defines "t \<equiv> join_upper bp p s"
  obtains ys' where "ys' = ys \<or> (\<exists>q. ys = q # ys')"
    and "heap_ok t (insert bp (B - (set ys - set ys')))" and "chain t (bp # ys' @ [base s])"
    and "unat (hsize bp s) \<le> unat (hsize bp t)"
    and "\<forall>x \<in> insert (base s) B. hptr x t = hptr x s"
    and "\<forall>C. C \<subseteq> B \<longrightarrow> kept s t C"
    and "base t = base s" and "ubrk t = ubrk s" and "freep t = freep s"
proof -
  note cell = heap_cells [OF s]
  have bp: "bp \<in> insert (base s) (insert bp B)" by simp
  have m: "x \<in> insert (base s) (insert bp B)" if "x \<in> insert (base s) B" for x using that by blast
  have ne: "x \<noteq> bp" if "x \<in> insert (base s) B" for x using that B(1) heap_okD(9) [OF s] by blast
  have nxt: "hptr p s = hd (ys @ [base s])" by (rule chain_next [OF ch])
  have tail: "chain s (ys @ [base s])" using ch by (cases ys) simp_all
  have ps: "p \<in> insert (base s) (insert bp B)" using B(2) by blast
  show ?thesis
  proof (cases "bp + 8 * hsize bp s = hptr p s")
    case False
    then have t: "t = set_hptr bp (hptr p s) s" by (simp add: t_def join_upper_def)
    have p: "hptr x t = hptr x s" "hsize x t = hsize x s" if "x \<in> insert (base s) B" for x
      using hptr_set(1,2) [OF cell m [OF that] bp] ne [OF that] by (simp_all add: t)
    have "chain t (ys @ [base s])" using tail by (rule chain_cong) (use p B(3) in \<open>auto simp: butlast_append\<close>)
    moreover have "hptr bp t = hd (ys @ [base s])" using hptr_set(1) [OF cell bp bp] nxt by (simp add: t)
    ultimately have c: "chain t (bp # ys @ [base s])" by (intro chain_Cons)
    have z: "hsize bp t = hsize bp s" using hptr_set(2) [OF cell bp bp] by (simp add: t)
    have h: "heap_ok t (insert bp B)" unfolding t by (rule heap_ok_ptr [OF s bp])
    have k: "kept s t C" if "C \<subseteq> B" for C
      unfolding t by (rule kept_set(1) [OF s _ bp]) (use that B(1) in auto)
    show ?thesis by (rule that [of ys]) (use c z h k p in \<open>simp_all add: t\<close>)
  next
    case True
    have bb: "unat (base s) + 8 \<le> unat bp" using heap_okD(6) [OF s] by blast
    have e: "end_of s bp = unat (hptr p s)" using end_of_unat [OF s insertI1] True by simp
    have "ys \<noteq> []"
    proof
      assume "ys = []"
      then have "end_of s bp = unat (base s)" using e nxt by simp
      then show False using bb by (simp add: end_of_def)
    qed
    then obtain q ys' where ys: "ys = q # ys'" by (cases ys) auto
    have q: "hptr p s = q" "q \<in> B" "q \<noteq> bp" using nxt B(1,3) ys by auto
    have pq: "p \<noteq> q" using d ys by simp
    let ?s1 = "set_hsize bp (hsize bp s + hsize q s) s"
    have qs: "q \<in> insert (base s) (insert bp B)" "q \<in> insert bp B" using q by auto
    have j: "heap_ok ?s1 (insert bp B - {q})" "unat (hsize bp ?s1) = unat (hsize bp s) + unat (hsize q s)"
      using join_blocks(1,3) [OF s _ qs(2)] True q by simp_all
    have h1: "hptr p ?s1 = q" using hptr_set(3) [OF cell ps bp] q(1) by simp
    have t: "t = set_hptr bp (hptr q ?s1) ?s1"
      using True h1 q(1) unfolding t_def join_upper_def Let_def by simp
    have p1: "hptr x t = hptr x s" "hsize x t = hsize x s" if "x \<in> insert (base s) B" for x
      using hptr_set [OF cell m [OF that] bp] ne [OF that] by (simp_all add: t)
    have z: "unat (hsize bp s) \<le> unat (hsize bp t)" using hptr_set(2) [OF cell bp bp] j(2) by (simp add: t)
    have eq: "insert bp (B - (set ys - set ys')) = insert bp B - {q}" using ys d q(3) by auto
    have "heap_ok t (insert bp B - {q})" unfolding t by (rule heap_ok_ptr [OF j(1)]) (use q(3) in simp)
    then have h: "heap_ok t (insert bp (B - (set ys - set ys')))" unfolding eq .
    have "chain s (ys' @ [base s])" using tail ys by (cases ys') simp_all
    then have "chain t (ys' @ [base s])" by (rule chain_cong) (use p1 B(3) ys in \<open>auto simp: butlast_append\<close>)
    moreover have "hptr bp t = hd (ys' @ [base s])"
    proof -
      have "hptr q s = hd (ys' @ [base s])" using tail ys chain_next [of s q ys' "base s"] by simp
      then show ?thesis using hptr_set(1) [OF cell bp bp] hptr_set(3) [OF cell qs(1) bp] by (simp add: t)
    qed
    ultimately have c: "chain t (bp # ys' @ [base s])" by (intro chain_Cons)
    have k: "kept s t C" if C: "C \<subseteq> B" for C
    proof -
      have nC: "bp \<notin> C" "C \<subseteq> insert bp B" using C B(1) by auto
      have k1: "kept s ?s1 C" by (rule kept_set(2) [OF s nC(2) bp nC(1)])
      have s1c: "cells (insert (base s) (insert bp B))" by (rule cell)
      have "umem t i = umem ?s1 i" if "x \<in> C" "unat x \<le> i" "i < end_of s x" for x i
      proof -
        have "kept s (set_hptr bp (hptr q ?s1) s) C" by (rule kept_set(1) [OF s nC(2) bp nC(1)])
        moreover have "umem t i = (if unat bp \<le> i \<and> i < unat bp + 4 then umem (set_hptr bp (hptr q ?s1) s) i else umem ?s1 i)"
          by (simp add: t set_hptr_def set_hsize_def st32_def)
        ultimately show ?thesis using that k1 by (auto simp: kept_def)
      qed
      then show ?thesis using k1 by (simp add: kept_def t)
    qed
    show ?thesis by (rule that [of ys']) (use ys c z h k p1 in \<open>simp_all add: t\<close>)
  qed
qed

lemma join_lower_ok:
  assumes s: "heap_ok s (insert bp B)" and B: "bp \<notin> B" "p \<in> insert (base s) B" "set ys \<subseteq> B"
    and ch: "chain s (bp # ys @ [base s])" and ys: "p \<notin> set ys"
  defines "t \<equiv> join_lower bp p s"
  obtains zs where "zs = ys \<and> p \<noteq> base s \<and> unat (hsize bp s) \<le> unat (hsize p t) \<or> zs = bp # ys \<and> hsize bp t = hsize bp s"
    and "heap_ok t ((B - {p}) \<union> ({p} - {base s}) \<union> (set zs - set ys))" and "chain t (p # zs @ [base s])"
    and "\<forall>x \<in> insert (base s) B - {p}. hptr x t = hptr x s"
    and "\<forall>C. C \<subseteq> B - {p} \<longrightarrow> kept s t C"
    and "base t = base s" and "ubrk t = ubrk s" and "freep t = freep s"
proof -
  note cell = heap_cells [OF s]
  have bp: "bp \<in> insert (base s) (insert bp B)" by simp
  have m: "x \<in> insert (base s) (insert bp B)" if "x \<in> insert (base s) B" for x using that by blast
  have ps: "p \<in> insert (base s) (insert bp B)" using B(2) by blast
  have pbp: "p \<noteq> bp" using B(1,2) heap_okD(9) [OF s] by blast
  have nbp: "bp \<notin> set ys" using B by blast
  have tail: "chain s (ys @ [base s])" using ch by (cases ys) simp_all
  have nb: "base s \<notin> B" using heap_okD(9) [OF s] by blast
  have bb: "base s \<noteq> bp" using heap_okD(9) [OF s] by blast
  have "B - {p} \<union> ({p} - {base s}) = B" using B(2) nb by auto
  note eqB = this
  show ?thesis
  proof (cases "p + 8 * hsize p s = bp")
    case False
    then have t: "t = set_hptr p bp s" by (simp add: t_def join_lower_def)
    have p: "hptr x t = (if x = p then bp else hptr x s)" "hsize x t = hsize x s"
      if "x \<in> insert (base s) (insert bp B)" for x
      using hptr_set(1,2) [OF cell that ps] by (simp_all add: t)
    have "chain t (bp # ys @ [base s])"
      using ch by (rule chain_cong) (use p pbp ys B(3) in \<open>auto simp: butlast_append\<close>)
    then have c: "chain t (p # (bp # ys) @ [base s])" using p(1) [OF ps] by simp
    have h: "heap_ok t (insert bp B)" unfolding t by (rule heap_ok_ptr [OF s ps])
    have k: "kept s t C" if "C \<subseteq> B - {p}" for C
      unfolding t by (rule kept_set(1) [OF s _ ps]) (use that in auto)
    have eq: "(B - {p}) \<union> ({p} - {base s}) \<union> (set (bp # ys) - set ys) = insert bp B" using eqB nbp by auto
    have h': "heap_ok t ((B - {p}) \<union> ({p} - {base s}) \<union> (set (bp # ys) - set ys))" using h unfolding eq .
    show ?thesis by (rule that [OF _ h' c]) (use k p [OF m] p [OF bp] in \<open>simp_all add: t\<close>)
  next
    case True
    have p0: "p \<noteq> base s" using True heap_okD(2) [OF s] bb by auto
    then have pB: "p \<in> B" "p \<in> insert bp B" using B(2) by auto
    let ?s1 = "set_hsize p (hsize p s + hsize bp s) s"
    have j: "heap_ok ?s1 (insert bp B - {bp})" "unat (hsize p ?s1) = unat (hsize p s) + unat (hsize bp s)"
      using join_blocks(1,3) [OF s pB(2) _ True] by simp_all
    have t: "t = set_hptr p (hptr bp ?s1) ?s1" using True by (simp add: t_def join_lower_def Let_def)
    have hb: "hptr bp ?s1 = hd (ys @ [base s])" using hptr_set(3) [OF cell bp ps] chain_next [OF ch] by simp
    have p1: "hptr x t = (if x = p then hd (ys @ [base s]) else hptr x s)" if "x \<in> insert (base s) (insert bp B)" for x
      using hptr_set [OF cell that ps] hb by (simp add: t)
    have "chain t (ys @ [base s])"
      using tail by (rule chain_cong) (use p1 ys B(3) in \<open>auto simp: butlast_append\<close>)
    moreover have "hptr p t = hd (ys @ [base s])" using p1 [OF ps] by simp
    ultimately have c: "chain t (p # ys @ [base s])" by (intro chain_Cons)
    have "insert bp B - {bp} = B" using B(1) by auto
    then have "heap_ok t B" using heap_ok_ptr [OF j(1)] pB(1) unfolding t by simp
    then have h: "heap_ok t ((B - {p}) \<union> ({p} - {base s}) \<union> (set ys - set ys))" using eqB by simp
    have z: "unat (hsize bp s) \<le> unat (hsize p t)" using hptr_set(2) [OF cell ps ps] j(2) by (simp add: t)
    have k: "kept s t C" if C: "C \<subseteq> B - {p}" for C
    proof -
      have nC: "p \<notin> C" "C \<subseteq> insert bp B" using C by auto
      have k1: "kept s ?s1 C" by (rule kept_set(2) [OF s nC(2) ps nC(1)])
      have "umem t i = umem ?s1 i" if "x \<in> C" "unat x \<le> i" "i < end_of s x" for x i
      proof -
        have "kept s (set_hptr p (hptr bp ?s1) s) C" by (rule kept_set(1) [OF s nC(2) ps nC(1)])
        moreover have "umem t i = (if unat p \<le> i \<and> i < unat p + 4 then umem (set_hptr p (hptr bp ?s1) s) i else umem ?s1 i)"
          by (simp add: t set_hptr_def set_hsize_def st32_def)
        ultimately show ?thesis using that k1 by (auto simp: kept_def)
      qed
      then show ?thesis using k1 by (simp add: kept_def t)
    qed
    show ?thesis by (rule that [of ys]) (use c h k p0 z p1 [OF m] in \<open>simp_all add: t\<close>)
  qed
qed

text \<open>\<open>free\<close> returns, gives the block back to the list and touches no other block in use.\<close>

lemma ufree_inv:
  assumes inv: "heap_inv s bs L" and bp: "bp \<in> L"
  obtains t bs2 z where "ufree (bp + 8) s = Some t" and "heap_inv t bs2 (L - {bp})"
    and "kept s t (L - {bp})" and "ubrk t = ubrk s"
    and "z \<in> set bs2" and "unat (hsize bp s) \<le> unat (hsize z t)"
proof -
  let ?b = "base s"
  obtain xs p ys where list: "?b # bs = xs @ p # ys" and scan: "free_scan bp (freep s) s = Some p"
    and lo: "\<forall>a \<in> set (xs @ [p]). a < bp" and hi: "\<forall>a \<in> set ys. bp < a"
    using free_scan_finds [OF inv bp] by blast
  have ok: "heap_ok s (set bs \<union> L)" "set bs \<inter> L = {}" "sorted_wrt (<) (xs @ p # ys)" "chain s (xs @ p # ys @ [?b])"
    using inv list unfolding heap_inv_def by (metis append.assoc append_Cons)+
  define B where "B = (set bs \<union> L) - {bp}"
  have s: "heap_ok s (insert bp B)" using ok(1) bp unfolding B_def by (simp add: insert_absorb)
  have nb: "?b \<notin> set bs \<union> L" using heap_okD(9) [OF ok(1)] .
  have sets: "insert ?b (set bs) = insert p (set xs \<union> set ys)" using list by (metis list.set(2) set_append Un_insert_right)
  have ysbs: "set ys \<subseteq> set bs" using list by (cases xs) auto
  have bpbs: "bp \<notin> set bs" using ok(2) bp by blast
  have dist: "distinct (xs @ p # ys)" using strict_sorted_iff ok(3) by blast
  have pB: "p \<in> insert ?b B" "set ys \<subseteq> B" "bp \<notin> B"
  proof -
    have "p \<in> insert ?b (set bs)" "p \<noteq> bp" using sets lo by auto
    then show "p \<in> insert ?b B" "set ys \<subseteq> B" "bp \<notin> B" using bpbs ysbs unfolding B_def by blast+
  qed
  have c1: "chain s (xs @ [p])" "chain s (p # ys @ [?b])" using ok(4) chain_append [of s xs p "ys @ [?b]"] by blast+
  have dy: "distinct (p # ys)" using dist by simp
  obtain ys' where u: "ys' = ys \<or> (\<exists>q. ys = q # ys')"
    "heap_ok (join_upper bp p s) (insert bp (B - (set ys - set ys')))" "chain (join_upper bp p s) (bp # ys' @ [?b])"
    "unat (hsize bp s) \<le> unat (hsize bp (join_upper bp p s))"
    "\<forall>x \<in> insert ?b B. hptr x (join_upper bp p s) = hptr x s"
    "\<forall>C. C \<subseteq> B \<longrightarrow> kept s (join_upper bp p s) C"
    "base (join_upper bp p s) = ?b" "ubrk (join_upper bp p s) = ubrk s"
    by (rule join_upper_ok [OF s pB(3,1,2) c1(2) dy])
  define t1 where "t1 = join_upper bp p s"
  define B1 where "B1 = B - (set ys - set ys')"
  note u = u [folded t1_def, folded B1_def]
  have ys': "set ys' \<subseteq> set ys" "sorted_wrt (<) (xs @ p # ys')" using u(1) ok(3) by (auto simp: sorted_wrt_append)
  have B1: "bp \<notin> B1" "p \<in> insert (base t1) B1" "set ys' \<subseteq> B1" "p \<notin> set ys'"
    using pB dy ys'(1) unfolding B1_def u(7) by auto
  have ch1: "chain t1 (bp # ys' @ [base t1])" using u(3,7) by simp
  obtain zs where w: "zs = ys' \<and> p \<noteq> ?b \<and> unat (hsize bp t1) \<le> unat (hsize p (join_lower bp p t1))
        \<or> zs = bp # ys' \<and> hsize bp (join_lower bp p t1) = hsize bp t1"
    "heap_ok (join_lower bp p t1) ((B1 - {p}) \<union> ({p} - {?b}) \<union> (set zs - set ys'))" "chain (join_lower bp p t1) (p # zs @ [?b])"
    "\<forall>x \<in> insert ?b B1 - {p}. hptr x (join_lower bp p t1) = hptr x t1"
    "\<forall>C. C \<subseteq> B1 - {p} \<longrightarrow> kept t1 (join_lower bp p t1) C"
    "base (join_lower bp p t1) = ?b" "ubrk (join_lower bp p t1) = ubrk s"
    by (rule join_lower_ok [OF u(2) B1(1,2,3) ch1 B1(4), unfolded u(7,8)])
  define t where "t = (join_lower bp p t1)\<lparr>freep := p\<rparr>"
  define bs2 where "bs2 = tl (xs @ p # zs)"
  have l2: "?b # bs2 = xs @ p # zs" using list unfolding bs2_def by (cases xs) auto
  have s2: "insert ?b (set bs2) = insert p (set xs \<union> set zs)" using l2 by (metis list.set(2) set_append Un_insert_right)
  have zset: "set zs - set ys' \<subseteq> {bp}" "set ys' \<subseteq> set zs" using w(1) by auto
  have hi': "\<forall>a \<in> set ys'. bp < a" using hi ys'(1) by blast
  have sorted: "sorted_wrt (<) (?b # bs2)" unfolding l2
    using w(1) ys'(2) lo hi' by (auto simp: sorted_wrt_append)
  have nb2: "?b \<notin> set bs2" using sorted by auto
  have bs2: "set bs2 \<subseteq> insert bp (set bs)"
  proof
    fix x assume x: "x \<in> set bs2"
    then have "x \<noteq> ?b" using nb2 by blast
    moreover have "x = p \<or> x \<in> set xs \<or> x \<in> set zs" using s2 x by blast
    moreover have "x \<in> insert ?b (set bs)" if "x = p \<or> x \<in> set xs \<or> x \<in> set ys" using that sets by blast
    ultimately show "x \<in> insert bp (set bs)" using zset ys'(1) by blast
  qed
  have inB1: "x \<in> B1 - {p}" if "x \<in> set bs \<union> L" "x \<noteq> bp" "x \<noteq> p" "x \<notin> set ys" for x
    using that unfolding B1_def B_def by blast
  have xsB: "set xs - {?b} \<subseteq> B1 - {p}"
  proof
    fix x assume x: "x \<in> set xs - {?b}"
    then have "x \<noteq> p" "x \<notin> set ys" "x \<noteq> bp" using dist lo by auto
    moreover have "x \<in> insert ?b (set bs)" unfolding sets using x by blast
    ultimately show "x \<in> B1 - {p}" using inB1 x by blast
  qed
  have LB: "L - {bp} \<subseteq> B1 - {p}"
  proof
    fix x assume x: "x \<in> L - {bp}"
    then have "x \<notin> insert ?b (set bs)" using ok(2) nb by blast
    then have "x \<noteq> p" "x \<notin> set ys" unfolding sets by blast+
    then show "x \<in> B1 - {p}" using inB1 x by blast
  qed
  have sub: "set bs2 \<union> (L - {bp}) \<subseteq> (B1 - {p}) \<union> ({p} - {?b}) \<union> (set zs - set ys')"
  proof -
    have "set bs2 \<subseteq> (set xs - {?b}) \<union> ({p} - {?b}) \<union> (set zs - {?b})" using s2 nb2 by blast
    moreover have "set ys' \<subseteq> B1 - {p}" using B1(3,4) by blast
    ultimately show ?thesis using xsB LB by blast
  qed
  have "chain t1 (xs @ [p])" using c1(1)
  proof (rule chain_cong)
    fix a assume "a \<in> set (butlast (xs @ [p]))"
    then have "a \<in> insert ?b B" using xsB unfolding B1_def by auto
    then show "hptr a t1 = hptr a s" using u(5) by blast
  qed
  then have "chain (join_lower bp p t1) (xs @ [p])"
  proof (rule chain_cong)
    fix a assume "a \<in> set (butlast (xs @ [p]))"
    then have "a \<in> set xs" "a \<noteq> p" using dist by auto
    then show "hptr a (join_lower bp p t1) = hptr a t1" using w(4) xsB by blast
  qed
  then have "chain (join_lower bp p t1) (xs @ p # zs @ [?b])" using w(3) chain_append [of _ xs p "zs @ [?b]"] by blast
  then have "chain (join_lower bp p t1) (?b # bs2 @ [?b])" using l2 by (metis append.assoc append_Cons)
  moreover have "chain t vs = chain (join_lower bp p t1) vs" for vs
    by (auto simp: t_def intro: chain_cong)
  ultimately have ch: "chain t (?b # bs2 @ [?b])" by simp
  have inv2: "heap_inv t bs2 (L - {bp})" unfolding heap_inv_def
    using heap_ok_subset [OF w(2) sub] ch sorted w(6) bs2 ok(2) s2 by (auto simp: t_def)
  have k: "kept s t (L - {bp})"
  proof -
    have sB: "L - {bp} \<subseteq> B" using LB unfolding B1_def by blast
    have "kept s (join_lower bp p t1) (L - {bp})"
      using kept_trans [OF s _ u(6) [rule_format, OF sB] w(5) [rule_format, OF LB]] sB by blast
    then show ?thesis by (simp add: t_def)
  qed
  have "\<exists>z \<in> set bs2. unat (hsize bp s) \<le> unat (hsize z t)"
  proof -
    from w(1) consider "p \<noteq> ?b" "unat (hsize bp t1) \<le> unat (hsize p (join_lower bp p t1))"
      | "zs = bp # ys'" "hsize bp (join_lower bp p t1) = hsize bp t1" by blast
    then show ?thesis
    proof cases
      case 1
      then have "p \<in> set bs2" using s2 by blast
      then show ?thesis using 1(2) u(4) by (intro bexI [of _ p]) (simp_all add: t_def)
    next
      case 2
      have "bp \<noteq> ?b" using nb bp by blast
      then have "bp \<in> set bs2" using s2 2(1) by auto
      then show ?thesis using 2(2) u(4) by (intro bexI [of _ bp]) (simp_all add: t_def)
    qed
  qed
  then obtain z where z: "z \<in> set bs2" "unat (hsize bp s) \<le> unat (hsize z t)" by blast
  have "ufree (bp + 8) s = Some t" by (simp add: ufree_def scan t_def t1_def)
  then show ?thesis using that [OF _ inv2 k _ z] w(7) by (simp add: t_def)
qed

section \<open>\<open>malloc\<close>\<close>

lemma heap_invD:
  assumes "heap_inv s bs L"
  shows "heap_ok s (set bs \<union> L)" "set bs \<inter> L = {}" "sorted_wrt (<) (base s # bs)"
    "chain s (base s # bs @ [base s])" "freep s \<in> insert (base s) (set bs)"
  using assms by (simp_all add: heap_inv_def)

text \<open>Taking units from a block of the list.\<close>

lemma take_block_inv:
  assumes inv: "heap_inv s bs L" and q: "q \<in> insert (base s) (set bs)" "hptr q s = p"
    and n: "0 < n" "n \<le> hsize p s"
  obtains blk t bs2 where "take_block n q p s = (blk + 8, t)" and "heap_inv t bs2 (insert blk L)"
    and "blk \<notin> L" and "unat (hsize blk t) = unat n" and "kept s t L" and "ubrk t = ubrk s"
proof -
  let ?b = "base s"
  note ok = heap_invD [OF inv]
  have nb: "?b \<notin> set bs \<union> L" using heap_okD(9) [OF ok(1)] .
  have pb: "p \<noteq> ?b" using n heap_okD(2) [OF ok(1)] by auto
  obtain us ws where uw: "?b # bs = us @ q # ws" using q(1) by (metis split_list list.set(2))
  have ch: "chain s (us @ q # ws @ [?b])" using ok(4) uw by (metis append.assoc append_Cons)
  have "chain s (q # ws @ [?b])" using ch chain_append [of s us q "ws @ [?b]"] by blast
  then have "hd (ws @ [?b]) = p" using chain_next q(2) by metis
  then obtain vs where ws: "ws = p # vs" using pb by (cases ws) auto
  have list: "?b # bs = us @ q # p # vs" using uw ws by simp
  have dist: "distinct (us @ q # p # vs)" using ok(3) list strict_sorted_iff by metis
  have p: "p \<in> set bs" using list pb by (metis in_set_conv_decomp set_ConsD append.assoc append_Cons append_Nil)
  have pL: "p \<in> set bs \<union> L" "p \<notin> L" using p ok(2) by auto
  note cell = heap_cells [OF ok(1)]
  have qs: "q \<in> insert ?b (set bs \<union> L)" using q(1) by blast
  show ?thesis
  proof (cases "hsize p s = n")
    case True
    define t where "t = (set_hptr q (hptr p s) s)\<lparr>freep := q\<rparr>"
    define bs2 where "bs2 = tl (us @ q # vs)"
    have l2: "?b # bs2 = us @ q # vs" using list unfolding bs2_def by (cases us) auto
    have tk: "take_block n q p s = (p + 8, t)" using True by (simp add: take_block_def t_def)
    have hp: "hptr x t = (if x = q then hptr p s else hptr x s)" "hsize x t = hsize x s"
      if "x \<in> insert ?b (set bs \<union> L)" for x
      using hptr_set(1,2) [OF cell that qs] by (simp_all add: t_def)
    have "heap_ok t (set bs \<union> L)" unfolding t_def using heap_ok_ptr [OF ok(1) qs] by simp
    moreover have sets: "set bs = insert p (set bs2)" "p \<notin> set bs2"
    proof -
      have "insert ?b (set bs) = insert p (insert ?b (set bs2))" using list l2
        by (metis (no_types, lifting) insert_commute list.simps(15) set_append Un_insert_right)
      moreover have "distinct (?b # bs2)" "p \<notin> set (?b # bs2)" unfolding l2 using dist by auto
      ultimately have "insert ?b (set bs) = insert ?b (insert p (set bs2))" "?b \<notin> insert p (set bs2)" "p \<notin> set bs2"
        using pb by (auto simp: insert_commute)
      moreover have "?b \<notin> set bs" using nb by blast
      ultimately show "set bs = insert p (set bs2)" "p \<notin> set bs2" by (simp_all add: insert_ident)
    qed
    ultimately have h: "heap_ok t (set bs2 \<union> insert p L)" by (simp add: insert_commute)
    have c1: "chain s (us @ [q])" using ch chain_append [of s us q "ws @ [?b]"] by blast
    have c2: "chain s (p # vs @ [?b])"
      using ch ws chain_append [of s "us @ [q]" p "vs @ [?b]"] by simp
    have mem: "x \<in> insert ?b (set bs \<union> L)" if "x \<in> set (us @ q # p # vs)" for x
      using that list by (metis Un_iff insert_iff list.set(2))
    have "chain t (us @ [q])" using c1
    proof (rule chain_cong)
      fix a assume "a \<in> set (butlast (us @ [q]))"
      then have "a \<noteq> q" "a \<in> set (us @ q # p # vs)" using dist by auto
      then show "hptr a t = hptr a s" using hp(1) [OF mem] by simp
    qed
    moreover have "chain t (q # vs @ [?b])"
    proof (rule chain_Cons)
      have "hptr q t = hptr p s" using hp(1) [OF qs] by simp
      then show "hptr q t = hd (vs @ [?b])" using chain_next [OF c2] by simp
      have "chain s (vs @ [?b])" using c2 by (cases vs) simp_all
      then show "chain t (vs @ [?b])"
      proof (rule chain_cong)
        fix a assume "a \<in> set (butlast (vs @ [?b]))"
        then have "a \<noteq> q" "a \<in> set (us @ q # p # vs)" using dist by auto
        then show "hptr a t = hptr a s" using hp(1) [OF mem] by simp
      qed
    qed
    ultimately have "chain t (us @ q # vs @ [?b])" using chain_append [of t us q "vs @ [?b]"] by blast
    then have c: "chain t (?b # bs2 @ [?b])" using l2 by (metis append.assoc append_Cons)
    have "sorted_wrt (<) (us @ q # p # vs)" using ok(3) list by simp
    then have "sorted_wrt (<) (us @ q # vs)" by (auto simp: sorted_wrt_append)
    then have srt: "sorted_wrt (<) (?b # bs2)" using l2 by simp
    have "q \<in> insert ?b (set bs2)" using l2 by (metis in_set_conv_decomp list.set(2))
    then have "heap_inv t bs2 (insert p L)" unfolding heap_inv_def
      using h c srt ok(2) sets by (auto simp: t_def)
    moreover have "kept s t L"
    proof -
      have "q \<notin> L" using q(1) ok(2) nb by blast
      then show ?thesis unfolding t_def using kept_set(1) [OF ok(1) _ qs] by simp
    qed
    moreover have "hsize p t = n" using hp(2) [of p] pL True by simp
    ultimately show ?thesis using that [OF tk] pL(2) by (simp add: t_def)
  next
    case False
    then have n2: "n < hsize p s" using n(2) by simp
    define blk where "blk = p + 8 * (hsize p s - n)"
    define u where "u = set_hsize blk n (set_hsize p (hsize p s - n) s)"
    note sp = split_block [OF ok(1) pL(1) n(1) n2, folded blk_def, folded u_def]
    define t where "t = u\<lparr>freep := q\<rparr>"
    have "hsize p (set_hsize p (hsize p s - n) s) = hsize p s - n"
      using hptr_set(4) [OF cell, of p p] pL(1) by simp
    then have tk: "take_block n q p s = (blk + 8, t)" using False
      by (simp add: take_block_def Let_def blk_def u_def t_def)
    have bu: "base u = ?b" "ubrk u = ubrk s" by (simp_all add: u_def)
    have "chain u (?b # bs @ [?b])" using ok(4)
    proof (rule chain_cong)
      fix a assume "a \<in> set (butlast (?b # bs @ [?b]))"
      then have "a \<in> insert ?b (set bs \<union> L)" by (auto simp: butlast_append split: if_splits)
      then show "hptr a u = hptr a s" by (rule sp(6))
    qed
    moreover have "chain t vs = chain u vs" for vs by (auto simp: t_def intro: chain_cong)
    ultimately have "heap_inv t bs (insert blk L)" unfolding heap_inv_def
      using sp(1,2) ok(2,3) q(1) by (simp add: t_def bu)
    moreover have "kept s t L"
    proof -
      have out: "i < unat p \<or> end_of s p \<le> i" if "x \<in> L" "unat x \<le> i" "i < end_of s x" for x i
      proof -
        have "p \<noteq> x" "x \<in> set bs \<union> L" using that(1) pL(2) by auto
        then show ?thesis using heap_okD(8) [OF ok(1) pL(1), of x] that(2,3) by auto
      qed
      have k1: "kept s (set_hsize p (hsize p s - n) s) L"
        by (rule kept_set(2) [OF ok(1)]) (use p pL in auto)
      have "0 < unat n" using n(1) by (simp add: unat_gt_0)
      then have b8: "unat blk + 8 \<le> end_of s p" using sp(4) by linarith
      have "end_of s p \<le> 2 ^ 31" using heap_okD(4,7) [OF ok(1)] pL(1) by (meson order_trans)
      then have b4: "unat (blk + 4) = unat blk + 4" using b8 by (intro unat_plus4) linarith
      have "umem u i = umem s i" if x: "x \<in> L" "unat x \<le> i" "i < end_of s x" for x i
      proof -
        have "i < unat (blk + 4) \<or> unat (blk + 4) + 4 \<le> i" using out [OF x] sp(5) b8 unfolding b4 by linarith
        then have "umem u i = umem (set_hsize p (hsize p s - n) s) i"
          unfolding u_def set_hsize_def [of blk] by (auto simp: st32_def)
        then show ?thesis using k1 x by (simp add: kept_def)
      qed
      then show ?thesis using bu by (simp add: kept_def t_def u_def)
    qed
    moreover have "unat (hsize blk t) = unat n" using sp(3) by (simp add: t_def)
    ultimately show ?thesis using that [OF tk] sp(2) bu by (simp add: t_def)
  qed
qed

text \<open>The loop of \<open>malloc\<close> goes once round the list.\<close>

lemma loop_fits:
  "chain s (q # zs) \<Longrightarrow> \<exists>z \<in> set zs. n \<le> hsize z s \<Longrightarrow> freep s \<notin> set (butlast zs) \<Longrightarrow>
     \<exists>q' p. malloc_loop n q (hd zs) s = Some (take_block n q' p s) \<and> q' \<in> set (q # zs)
        \<and> hptr q' s = p \<and> n \<le> hsize p s"
proof (induction zs arbitrary: q)
  case (Cons a zs)
  then have q: "hptr q s = a" by simp
  show ?case
  proof (cases "n \<le> hsize a s")
    case True
    then show ?thesis using q by (subst malloc_loop.simps) auto
  next
    case False
    then have z: "\<exists>z \<in> set zs. n \<le> hsize z s" using Cons.prems(2) by auto
    then obtain b vs where zs: "zs = b # vs" by (cases zs) auto
    have "a \<noteq> freep s" "freep s \<notin> set (butlast zs)" "hptr a s = b" using Cons.prems zs by auto
    then have "malloc_loop n q a s = malloc_loop n a (hd zs) s"
      using False zs by (subst malloc_loop.simps) auto
    then show ?thesis using Cons.IH [of a] Cons.prems(1) z \<open>freep s \<notin> set (butlast zs)\<close> by auto
  qed
qed simp

lemma loop_grows:
  "chain s (q # zs @ [freep s]) \<Longrightarrow> \<forall>z \<in> set (zs @ [freep s]). \<not> n \<le> hsize z s \<Longrightarrow> freep s \<notin> set zs \<Longrightarrow>
     malloc_loop n q (hd (zs @ [freep s])) s =
       Option.bind (morecore n s) (\<lambda>(p, s1). if p = 0 then Some (0, s1) else malloc_loop n p (hptr p s1) s1)"
proof (induction zs arbitrary: q)
  case Nil
  then show ?case by (subst malloc_loop.simps) auto
next
  case (Cons a zs)
  have "hptr a s = hd (zs @ [freep s])" using Cons.prems(1) chain_next [of s a zs "freep s"] by simp
  then have "malloc_loop n q a s = malloc_loop n a (hd (zs @ [freep s])) s"
    using Cons.prems by (subst malloc_loop.simps) auto
  then show ?case using Cons by simp
qed

lemma ring_from_freep:
  assumes inv: "heap_inv s bs L"
  obtains zs where "chain s (freep s # zs @ [freep s])" "freep s \<notin> set zs"
    "insert (base s) (set bs) = insert (freep s) (set zs)"
proof -
  let ?b = "base s" and ?f = "freep s"
  note ok = heap_invD [OF inv]
  obtain us ws where uw: "?b # bs = us @ ?f # ws" using ok(5) by (metis split_list list.set(2))
  have ch: "chain s (us @ ?f # ws @ [?b])" using ok(4) uw by (metis append.assoc append_Cons)
  have c: "chain s (us @ [?f])" "chain s (?f # ws @ [?b])" using ch chain_append [of s us ?f "ws @ [?b]"] by blast+
  have dist: "distinct (us @ ?f # ws)" using ok(3) uw strict_sorted_iff by metis
  have b: "hd (us @ [?f]) = ?b" using uw by (cases us) auto
  have "chain s ((?f # ws) @ us @ [?f])"
  proof (cases us)
    case Nil
    then show ?thesis using c b by simp
  next
    case (Cons a us')
    then have "a = ?b" using b by simp
    then show ?thesis using c Cons chain_append [of s "?f # ws" a "us' @ [?f]"] by simp
  qed
  moreover have "?f \<notin> set (ws @ us)" using dist by auto
  moreover have "insert ?b (set bs) = insert ?f (set (ws @ us))"
    using uw by (metis (no_types, lifting) Un_commute Un_insert_right list.set(2) set_append)
  ultimately show ?thesis using that [of "ws @ us"] by simp
qed

lemma heap_inv_freep: "heap_inv s bs L \<Longrightarrow> freep s \<noteq> 0"
proof -
  assume inv: "heap_inv s bs L"
  note ok = heap_invD [OF inv]
  have "unat (base s) + 8 \<le> unat a" if "a \<in> set bs" for a using heap_okD(6) [OF ok(1)] that by blast
  then show ?thesis using ok(5) heap_okD(1) [OF ok(1)] by force
qed

lemma sint_small: "unat (w :: u32) < 2 ^ 31 \<Longrightarrow> sint w = int (unat w)"
proof -
  assume "unat w < 2 ^ 31"
  then have "uint w < 2 ^ 31" by (metis of_nat_less_numeral_power_cancel_iff uint_nat)
  moreover have "- (2 ^ 31) \<le> uint w" by (rule order_trans [OF _ unsigned_greater_eq]) simp
  ultimately have "signed_take_bit 31 (uint w) = uint w" by (intro signed_take_bit_int_eq_self) simp_all
  then show ?thesis by (simp add: sint_uint)
qed

lemma ufree_address [simp]: "(p + 8 :: u32) - 8 = p"
  by simp

text \<open>The kernel would extend the process by the \<open>n\<close> units, or the 4096 that \<open>morecore\<close> asks for at least.\<close>

definition can_grow :: "heap \<Rightarrow> u32 \<Rightarrow> bool" where
  "can_grow s n \<longleftrightarrow> (let nu = max n 4096 in
     unat (ubrk s) + 8 * unat nu < unat KERNBASE \<and> grows s (ubrk s + 8 * nu))"

text \<open>When no block fits, the new memory becomes a block of the list that does.\<close>

lemma morecore_inv:
  assumes inv: "heap_inv s bs L" and n: "0 < n" "8 * unat n < 2 ^ 31"
  shows "morecore n s = Some (0, s) \<and> \<not> can_grow s n
    \<or> (\<exists>t bs2. morecore n s = Some (freep t, t) \<and> heap_inv t bs2 L \<and> kept s t L
         \<and> (\<exists>z \<in> set bs2. n \<le> hsize z t))"
proof -
  note ok = heap_invD [OF inv]
  define nu where "nu = (if n < 4096 then 4096 else n)"
  have nu: "8 * unat nu < 2 ^ 31" "n \<le> nu" "0 < nu" using n by (auto simp: nu_def)
  have u8: "unat (nu * 8) = 8 * unat nu" using unat_8 [of nu] nu(1) by (simp add: mult.commute)
  then have si: "\<not> sint (nu * 8) < 0" using nu(1) by (simp add: sint_small)
  show ?thesis
  proof (cases "unat (ubrk s) + unat (nu * 8) < unat KERNBASE \<and> grows s (ubrk s + nu * 8)")
    case False
    then have "sbrk (nu * 8) s = (-1, s)" using si by (auto simp: sbrk_def)
    moreover have "nu = max n 4096" by (auto simp: nu_def max_def)
    then have "\<not> can_grow s n" using False u8 by (simp add: can_grow_def Let_def mult.commute)
    ultimately show ?thesis by (simp add: morecore_def nu_def [symmetric])
  next
    case True
    let ?p = "ubrk s"
    let ?s1 = "s\<lparr>ubrk := ubrk s + nu * 8\<rparr>"
    have room: "unat ?p + 8 * unat nu < 2 ^ 31" using True u8 by (simp add: KERNBASE_def)
    then have nb: "unat (?p + nu * 8) = unat ?p + 8 * unat nu" using u8 by (simp add: unat_add_nowrap32)
    have sb: "sbrk (nu * 8) s = (?p, ?s1)" using si True by (simp add: sbrk_def)
    have p1: "?p \<noteq> -1"
    proof
      assume "?p = -1"
      then have "unat ?p = unat (-1 :: u32)" by simp
      also have "... = 2 ^ 32 - 1" by (simp add: unsigned_minus_1_eq_mask mask_eq_exp_minus_1)
      finally show False using room by simp
    qed
    define s2 where "s2 = set_hsize ?p nu ?s1"
    have end_b: "unat x + 8 \<le> unat ?p" if "x \<in> insert (base s) (set bs \<union> L)" for x
      using that heap_okD(3) [OF ok(1)] heap_okD(7) [OF ok(1)] end_of_header heap_okD(5) [OF ok(1)]
      by (metis insertE order_trans)
    have pn: "?p \<notin> insert (base s) (set bs \<union> L)" using end_b by fastforce
    have nz: "0 < unat nu" using nu(3) by (simp add: unat_gt_0)
    have "cells (insert ?p (insert (base s) (set bs \<union> L)))"
      using heap_cells [OF ok(1)] end_b room nz unfolding cells_def by auto
    note cell = hptr_set [OF this]
    have old: "hptr x s2 = hptr x s" "hsize x s2 = hsize x s" if "x \<in> insert (base s) (set bs \<union> L)" for x
      using cell(3,4) [of x ?p nu ?s1] that pn by (auto simp: s2_def)
    have new: "hsize ?p s2 = nu" using cell(4) [of ?p ?p nu ?s1] by (simp add: s2_def)
    have e: "end_of s2 x = (if x = ?p then unat ?p + 8 * unat nu else end_of s x)" if "x \<in> insert ?p (set bs \<union> L)" for x
      using that old(2) [of x] new by (auto simp: end_of_def)
    have simps: "base s2 = base s" "ubrk s2 = ?p + nu * 8" "freep s2 = freep s" "grows s2 = grows s" by (simp_all add: s2_def)
    have h2: "heap_ok s2 (insert ?p (set bs \<union> L))" unfolding heap_ok_def simps
    proof (intro conjI ballI impI)
      show "base s \<noteq> 0" "hsize (base s) s2 = 0" using heap_okD(1,2) [OF ok(1)] old(2) [of "base s"] by simp_all
      show "unat (base s) + 8 \<le> unat (?p + nu * 8)" "unat (?p + nu * 8) \<le> 2 ^ 31"
        using heap_okD(3) [OF ok(1)] room nb by simp_all
      fix x assume x: "x \<in> insert ?p (set bs \<union> L)"
      show "0 < hsize x s2" using x old(2) [of x] new nu(3) heap_okD(5) [OF ok(1), of x] by (auto simp: word_less_nat_alt)
      show "unat (base s) + 8 \<le> unat x" using x heap_okD(3,6) [OF ok(1)] by blast
      show "end_of s2 x \<le> unat (?p + nu * 8)"
        using e [OF x] x nb heap_okD(7) [OF ok(1), of x] by auto
      fix y assume y: "y \<in> insert ?p (set bs \<union> L)" "x \<noteq> y"
      show "end_of s2 x \<le> unat y \<or> end_of s2 y \<le> unat x"
        using e [OF x] e [OF y(1)] x y heap_okD(7,8) [OF ok(1)] by (cases "x = ?p"; cases "y = ?p") auto
    qed
    have c2: "chain s2 (base s # bs @ [base s])" using ok(4)
    proof (rule chain_cong)
      fix a assume "a \<in> set (butlast (base s # bs @ [base s]))"
      then show "hptr a s2 = hptr a s" by (intro old(1)) (auto simp: butlast_append split: if_splits)
    qed
    have inv2: "heap_inv s2 bs (insert ?p L)" unfolding heap_inv_def simps
      using h2 c2 ok(2,3,5) pn by simp
    have k2: "kept s s2 L"
    proof -
      have p4: "unat (?p + 4) = unat ?p + 4" using room nz by (intro unat_plus4) linarith
      have "umem s2 i = umem s i" if "x \<in> L" "i < end_of s x" for x i
        using heap_okD(7) [OF ok(1), of x] that p4 by (simp add: s2_def set_hsize_def st32_def)
      then show ?thesis by (simp add: kept_def simps)
    qed
    obtain t bs2 z where t: "ufree (?p + 8) s2 = Some t" "heap_inv t bs2 (insert ?p L - {?p})"
      "kept s2 t (insert ?p L - {?p})" "z \<in> set bs2" "unat (hsize ?p s2) \<le> unat (hsize z t)"
      using ufree_inv [OF inv2 insertI1] by metis
    have L: "insert ?p L - {?p} = L" using pn by auto
    have "kept s t L" using kept_trans [OF ok(1) _ k2 t(3) [unfolded L]] by blast
    moreover have "n \<le> hsize z t" using t(5) new nu(2) by (simp add: word_le_nat_alt)
    moreover have "morecore n s = Some (freep t, t)"
      using t(1) sb p1 by (simp add: morecore_def nu_def [symmetric] s2_def)
    ultimately show ?thesis using t(2,4) unfolding L by blast
  qed
qed

lemma malloc_loop_inv:
  assumes inv: "heap_inv s bs L" and n: "0 < n" "8 * unat n < 2 ^ 31"
  obtains r t where "malloc_loop n (freep s) (hptr (freep s) s) s = Some (r, t)" and "kept s t L"
    and "r = 0 \<and> \<not> can_grow s n \<and> (\<exists>bs2. heap_inv t bs2 L)
       \<or> (\<exists>blk bs2. r = blk + 8 \<and> blk \<notin> L \<and> heap_inv t bs2 (insert blk L) \<and> unat (hsize blk t) = unat n)"
proof -
  have fit: "\<exists>r t. malloc_loop n (freep u) (hptr (freep u) u) u = Some (r, t) \<and> kept u t L
      \<and> (\<exists>blk bs2. r = blk + 8 \<and> blk \<notin> L \<and> heap_inv t bs2 (insert blk L) \<and> unat (hsize blk t) = unat n)"
    if u: "heap_inv u cs L" and z: "\<exists>z \<in> set cs. n \<le> hsize z u" for u cs
  proof -
    obtain zs where zs: "chain u (freep u # zs @ [freep u])" "freep u \<notin> set zs"
      "insert (base u) (set cs) = insert (freep u) (set zs)" using ring_from_freep [OF u] .
    have ex: "\<exists>z \<in> set (zs @ [freep u]). n \<le> hsize z u" using z zs(3) by (metis insert_iff set_append Un_iff list.set(2) insertCI)
    obtain q p where qp: "malloc_loop n (freep u) (hd (zs @ [freep u])) u = Some (take_block n q p u)"
      "q \<in> set (freep u # zs @ [freep u])" "hptr q u = p" "n \<le> hsize p u"
      using loop_fits [OF zs(1) ex] zs(2) by (metis butlast_snoc)
    have q: "q \<in> insert (base u) (set cs)" using qp(2) unfolding zs(3) by auto
    obtain blk t bs2 where "take_block n q p u = (blk + 8, t)" "heap_inv t bs2 (insert blk L)" "blk \<notin> L"
      "unat (hsize blk t) = unat n" "kept u t L" by (rule take_block_inv [OF u q qp(3) n(1) qp(4)])
    then show ?thesis using qp(1) chain_next [OF zs(1)] by metis
  qed
  show ?thesis
  proof (cases "\<exists>z \<in> set bs. n \<le> hsize z s")
    case True
    then show ?thesis using fit [OF inv] that by blast
  next
    case False
    note ok = heap_invD [OF inv]
    obtain zs where zs: "chain s (freep s # zs @ [freep s])" "freep s \<notin> set zs"
      "insert (base s) (set bs) = insert (freep s) (set zs)" using ring_from_freep [OF inv] .
    have "\<not> n \<le> hsize (base s) s" using n(1) heap_okD(2) [OF ok(1)] by simp
    then have "\<forall>z \<in> insert (base s) (set bs). \<not> n \<le> hsize z s" using False by blast
    then have "\<forall>z \<in> set (zs @ [freep s]). \<not> n \<le> hsize z s" unfolding zs(3) by auto
    from loop_grows [OF zs(1) this zs(2)]
    have run: "malloc_loop n (freep s) (hptr (freep s) s) s =
       Option.bind (morecore n s) (\<lambda>(p, s1). if p = 0 then Some (0, s1) else malloc_loop n p (hptr p s1) s1)"
      using chain_next [OF zs(1)] by simp
    from morecore_inv [OF inv n] show ?thesis
    proof (elim disjE exE conjE)
      assume "morecore n s = Some (0, s)" "\<not> can_grow s n"
      then show ?thesis using run that [of 0 s] inv by auto
    next
      fix t bs2 assume t: "morecore n s = Some (freep t, t)" "heap_inv t bs2 L" "kept s t L" "\<exists>z \<in> set bs2. n \<le> hsize z t"
      have "malloc_loop n (freep s) (hptr (freep s) s) s = malloc_loop n (freep t) (hptr (freep t) t) t"
        using run t(1) heap_inv_freep [OF t(2)] by simp
      moreover obtain r u where "malloc_loop n (freep t) (hptr (freep t) t) t = Some (r, u)" "kept t u L"
        "\<exists>blk bs2. r = blk + 8 \<and> blk \<notin> L \<and> heap_inv u bs2 (insert blk L) \<and> unat (hsize blk u) = unat n"
        using fit [OF t(2,4)] by blast
      moreover have "kept s u L" using kept_trans [OF ok(1) _ t(3)] \<open>kept t u L\<close> by blast
      ultimately show ?thesis using that by metis
    qed
  qed
qed

section \<open>Programs that use the allocator\<close>

text \<open>The blocks of a program, as pointers with the sizes it asked for, with the heap that belongs to
  them; \<open>freep\<close> is 0 before the first \<open>malloc\<close>.\<close>

definition fresh_heap :: "heap \<Rightarrow> bool" where
  "fresh_heap s \<longleftrightarrow> freep s = 0 \<and> base s \<noteq> 0 \<and> unat (base s) + 8 \<le> unat (ubrk s) \<and> unat (ubrk s) \<le> 2 ^ 31"

definition owns :: "heap \<Rightarrow> (u32 \<rightharpoonup> nat) \<Rightarrow> u32 list \<Rightarrow> u32 set \<Rightarrow> bool" where
  "owns s m bs L \<longleftrightarrow> heap_inv s bs L \<and> dom m = (\<lambda>b. b + 8) ` L
     \<and> (\<forall>b \<in> L. \<forall>k. m (b + 8) = Some k \<longrightarrow> k + 8 \<le> 8 * unat (hsize b s))"

text \<open>The sizes \<open>malloc\<close> can serve; its own arithmetic wraps around only far above.\<close>

definition size_ok :: "u32 \<Rightarrow> bool" where
  "size_ok n \<longleftrightarrow> unat n + 15 < 2 ^ 31"

text \<open>What a program can do: allocate, free a block it owns, and write into its blocks.\<close>

inductive uses :: "heap \<Rightarrow> (u32 \<rightharpoonup> nat) \<Rightarrow> bool" where
  start: "fresh_heap s \<Longrightarrow> uses s Map.empty"
| got: "uses s m \<Longrightarrow> size_ok n \<Longrightarrow> malloc n s = Some (r, t) \<Longrightarrow> r \<noteq> 0 \<Longrightarrow> uses t (m(r \<mapsto> unat n))"
| null: "uses s m \<Longrightarrow> size_ok n \<Longrightarrow> malloc n s = Some (0, t) \<Longrightarrow> uses t m"
| freed: "uses s m \<Longrightarrow> r \<in> dom m \<Longrightarrow> ufree r s = Some t \<Longrightarrow> uses t (m(r := None))"
| wrote: "uses s m \<Longrightarrow> m r = Some k \<Longrightarrow> unat r \<le> i \<Longrightarrow> i < unat r + k \<Longrightarrow> uses (s\<lparr>umem := (umem s)(i := v)\<rparr>) m"

lemma unat_units: "size_ok n \<Longrightarrow> unat (units n) = (unat n + 7) div 8 + 1"
proof -
  assume n: "size_ok n"
  then have w: "n + 8 - 1 = n + 7" "unat (n + 7) = unat n + 7"
    by (simp_all add: size_ok_def unat_add_nowrap32)
  have "unat (8 :: u32) = 8" by simp
  then have "unat ((n + 8 - 1) div 8) = (unat n + 7) div 8" unfolding w(1) unat_div w(2) by (rule arg_cong)
  then show ?thesis unfolding units_def using n by (subst unat_add_nowrap32) (auto simp: size_ok_def)
qed

lemma units_ok:
  assumes "size_ok n"
  shows "0 < units n" "8 * unat (units n) < 2 ^ 31" "unat n + 8 \<le> 8 * unat (units n)"
proof -
  have "8 * unat (units n) = 8 * ((unat n + 7) div 8) + 8" using unat_units [OF assms] by simp
  moreover have "unat n \<le> 8 * ((unat n + 7) div 8)" "8 * ((unat n + 7) div 8) \<le> unat n + 7" by linarith+
  ultimately show "8 * unat (units n) < 2 ^ 31" "unat n + 8 \<le> 8 * unat (units n)"
    using assms by (auto simp: size_ok_def)
  have "0 < unat (units n)" using unat_units [OF assms] by simp
  then show "0 < units n" by (simp add: word_less_nat_alt)
qed

lemma fresh_inv:
  assumes "fresh_heap s"
  defines "t \<equiv> set_hsize (base s) 0 ((set_hptr (base s) (base s) s)\<lparr>freep := base s\<rparr>)"
  shows "heap_inv t [] {}" "malloc n s = malloc_loop (units n) (freep t) (hptr (freep t) t) t" "ubrk t = ubrk s" "grows t = grows s"
    "base t = base s"
proof -
  have "cells {base s}" using assms(1) by (simp add: cells_def fresh_heap_def)
  note c = hptr_set [OF this, of "base s" "base s"]
  have "hptr (base s) t = base s" "hsize (base s) t = 0" by (simp_all add: t_def c)
  then show "heap_inv t [] {}" using assms(1)
    by (simp add: heap_inv_def heap_ok_def t_def fresh_heap_def)
  show "malloc n s = malloc_loop (units n) (freep t) (hptr (freep t) t) t" "ubrk t = ubrk s" "grows t = grows s"
    "base t = base s"
    using assms(1) by (simp_all add: malloc_def t_def fresh_heap_def Let_def)
qed

text \<open>Every state of a program is one of these two.\<close>

lemma malloc_owned:
  assumes s: "fresh_heap s \<and> m = Map.empty \<or> owns s m bs L" and n: "size_ok n"
  obtains r t cs K where "malloc n s = Some (r, t)" and "kept s t (if m = Map.empty then {} else L)"
    and "r = 0 \<and> \<not> can_grow s (units n) \<and> owns t m cs K \<or> r \<noteq> 0 \<and> r \<notin> dom m \<and> owns t (m(r \<mapsto> unat n)) cs K"
proof -
  note u = units_ok [OF n]
  have "\<exists>s1 bs1 L1. owns s1 m bs1 L1 \<and> malloc n s = malloc_loop (units n) (freep s1) (hptr (freep s1) s1) s1
      \<and> kept s s1 (if m = Map.empty then {} else L1) \<and> (m = Map.empty \<or> L1 = L) \<and> ubrk s1 = ubrk s \<and> grows s1 = grows s"
    using s
  proof (elim disjE conjE)
    assume f: "fresh_heap s" "m = Map.empty"
    note i = fresh_inv [OF f(1)]
    show ?thesis
      by (rule exI, rule exI [of _ "[]"], rule exI [of _ "{}"])
        (use i(1,3-5) i(2) [of n] f(2) in \<open>auto simp: owns_def kept_def\<close>)
  next
    assume o: "owns s m bs L"
    then have "freep s \<noteq> 0" using heap_inv_freep by (auto simp: owns_def)
    then have "malloc n s = malloc_loop (units n) (freep s) (hptr (freep s) s) s" by (simp add: malloc_def)
    then show ?thesis using o by (intro exI [of _ s] exI [of _ bs] exI [of _ L]) simp
  qed
  then obtain s1 bs1 L1 where o: "owns s1 m bs1 L1" and run: "malloc n s = malloc_loop (units n) (freep s1) (hptr (freep s1) s1) s1"
    and k: "kept s s1 (if m = Map.empty then {} else L1)" "m = Map.empty \<or> L1 = L"
    and e: "ubrk s1 = ubrk s" "grows s1 = grows s" by blast
  have inv: "heap_inv s1 bs1 L1" using o by (simp add: owns_def)
  note ok = heap_invD [OF inv]
  obtain r t where t: "malloc_loop (units n) (freep s1) (hptr (freep s1) s1) s1 = Some (r, t)" "kept s1 t L1"
    "r = 0 \<and> \<not> can_grow s1 (units n) \<and> (\<exists>bs2. heap_inv t bs2 L1)
     \<or> (\<exists>blk bs2. r = blk + 8 \<and> blk \<notin> L1 \<and> heap_inv t bs2 (insert blk L1) \<and> unat (hsize blk t) = unat (units n))"
    using malloc_loop_inv [OF inv u(1,2)] by metis
  have sz: "hsize b t = hsize b s1" if "b \<in> L1" for b using kept_header(2) [OF ok(1) _ t(2) that] by simp
  have kept: "kept s t (if m = Map.empty then {} else L)"
  proof (cases "m = Map.empty")
    case True
    then show ?thesis using k(1) t(2) by (simp add: kept_def)
  next
    case False
    then have L: "L1 = L" using k(2) by simp
    then have os: "owns s m bs L" using s False by simp
    then have "heap_ok s (set bs \<union> L)" using heap_invD(1) by (simp add: owns_def)
    then show ?thesis using kept_trans [of s "set bs \<union> L" L s1 t] k(1) t(2) False L by simp
  qed
  have cg: "can_grow s1 = can_grow s" using e by (simp add: can_grow_def fun_eq_iff)
  from t(3) show ?thesis
  proof (elim disjE exE conjE)
    fix bs2 assume a: "r = 0" "\<not> can_grow s1 (units n)" "heap_inv t bs2 L1"
    then have "owns t m bs2 L1" using o sz by (auto simp: owns_def)
    then show ?thesis using that [OF _ kept] run t(1) a cg by simp
  next
    fix blk bs2
    assume a: "r = blk + 8" "blk \<notin> L1" "heap_inv t bs2 (insert blk L1)" "unat (hsize blk t) = unat (units n)"
    note ok2 = heap_invD [OF a(3)]
    have "unat blk + 8 \<le> 2 ^ 31" using heap_cells [OF ok2(1)] unfolding cells_def by blast
    then have ur: "unat r = unat blk + 8" using a(1) by (simp add: unat_add_nowrap32)
    have r0: "r \<noteq> 0" using ur by auto
    have rm: "r \<notin> dom m" using a(1,2) o by (auto simp: owns_def)
    have "owns t (m(r \<mapsto> unat n)) bs2 (insert blk L1)" unfolding owns_def
    proof (intro conjI ballI allI impI)
      show "dom (m(r \<mapsto> unat n)) = (\<lambda>b. b + 8) ` insert blk L1" using o a(1) by (simp add: owns_def)
      fix b k assume b: "b \<in> insert blk L1" "(m(r \<mapsto> unat n)) (b + 8) = Some k"
      show "k + 8 \<le> 8 * unat (hsize b t)"
        using b a(1,4) u(3) o sz [of b] by (cases "b = blk") (auto simp: owns_def)
    qed (rule a(3))
    then show ?thesis using that [OF _ kept] run t(1) r0 rm by simp
  qed
qed

lemma ufree_owned:
  assumes o: "owns s m bs L" and r: "r \<in> dom m"
  obtains t cs where "ufree r s = Some t" and "kept s t (L - {r - 8})" and "owns t (m(r := None)) cs (L - {r - 8})"
proof -
  have inv: "heap_inv s bs L" and b: "r - 8 \<in> L" using o r by (auto simp: owns_def)
  obtain t cs where t: "ufree (r - 8 + 8) s = Some t" "heap_inv t cs (L - {r - 8})" "kept s t (L - {r - 8})"
    using ufree_inv [OF inv b] by metis
  have sz: "hsize x t = hsize x s" if "x \<in> L - {r - 8}" for x
    using kept_header(2) [OF heap_invD(1) [OF inv] _ t(3) that] by blast
  have "owns t (m(r := None)) cs (L - {r - 8})" unfolding owns_def
  proof (intro conjI ballI allI impI)
    show "dom (m(r := None)) = (\<lambda>b. b + 8) ` (L - {r - 8})" using o by (auto simp: owns_def image_iff)
    fix x k assume "x \<in> L - {r - 8}" "(m(r := None)) (x + 8) = Some k"
    then show "k + 8 \<le> 8 * unat (hsize x t)" using o sz [of x] by (auto simp: owns_def split: if_splits)
  qed (rule t(2))
  then show ?thesis using that t(1,3) by simp
qed

text \<open>A write into a block in use leaves every header alone.\<close>

lemma owned_range:
  assumes o: "owns s m bs L" and r: "m r = Some k"
  shows "r - 8 \<in> L" "unat r = unat (r - 8) + 8" "unat r + k \<le> end_of s (r - 8)"
proof -
  have "r \<in> dom m" using r by blast
  then show b: "r - 8 \<in> L" using o by (auto simp: owns_def)
  have "heap_ok s (set bs \<union> L)" using o heap_invD(1) by (simp add: owns_def)
  then have "unat (r - 8) + 8 \<le> 2 ^ 31" using heap_cells b unfolding cells_def by blast
  then have "unat (r - 8 + 8) = unat (r - 8) + 8" by (subst unat_add_nowrap32) simp_all
  then show u: "unat r = unat (r - 8) + 8" by simp
  have "k + 8 \<le> 8 * unat (hsize (r - 8) s)" using o b r by (auto simp: owns_def)
  then show "unat r + k \<le> end_of s (r - 8)" using u by (simp add: end_of_def)
qed

lemma write_owned:
  assumes o: "owns s m bs L" and r: "m r = Some k" and i: "unat r \<le> i" "i < unat r + k"
  shows "owns (s\<lparr>umem := (umem s)(i := v)\<rparr>) m bs L"
proof -
  let ?t = "s\<lparr>umem := (umem s)(i := v)\<rparr>"
  have inv: "heap_inv s bs L" using o by (simp add: owns_def)
  note ok = heap_invD [OF inv] and rng = owned_range [OF o r]
  have out: "i < unat x \<or> unat x + 8 \<le> i" if x: "x \<in> insert (base s) (set bs \<union> L)" for x
  proof -
    consider "x = base s" | "x = r - 8" | "x \<in> set bs \<union> L" "x \<noteq> r - 8" using x by blast
    then show ?thesis
    proof cases
      case 1
      have "unat (base s) + 8 \<le> unat (r - 8)" using heap_okD(6) [OF ok(1)] rng(1) by blast
      then show ?thesis using 1 i(1) rng(2) by auto
    next
      case 3
      have "unat x + 8 \<le> end_of s x" using end_of_header heap_okD(5) [OF ok(1) 3(1)] by blast
      then show ?thesis using heap_okD(8) [OF ok(1) 3(1), of "r - 8"] rng i 3(2) by auto
    qed (use i rng(2) in auto)
  qed
  have u4: "unat (x + 4) = unat x + 4" if "x \<in> insert (base s) (set bs \<union> L)" for x
    using cell_apart(1) [OF heap_cells [OF ok(1)] that that] .
  have same: "hptr x ?t = hptr x s" "hsize x ?t = hsize x s" if x: "x \<in> insert (base s) (set bs \<union> L)" for x
  proof -
    show "hptr x ?t = hptr x s" unfolding hptr_def by (rule ld32_cong) (use out [OF x] in auto)
    show "hsize x ?t = hsize x s" unfolding hsize_def by (rule ld32_cong) (use out [OF x] u4 [OF x] in auto)
  qed
  have "heap_ok ?t (set bs \<union> L)" using heap_ok_cong [OF ok(1), of ?t] same(2) by simp
  moreover have "chain ?t (base s # bs @ [base s])" using ok(4)
  proof (rule chain_cong)
    fix a assume "a \<in> set (butlast (base s # bs @ [base s]))"
    then show "hptr a ?t = hptr a s" by (intro same(1)) (auto simp: butlast_append split: if_splits)
  qed
  ultimately have "heap_inv ?t bs L" using ok by (simp add: heap_inv_def)
  then show ?thesis using o same(2) by (simp add: owns_def)
qed

lemma uses_inv: "uses s m \<Longrightarrow> fresh_heap s \<and> m = Map.empty \<or> (\<exists>bs L. owns s m bs L)"
proof (induction rule: uses.induct)
  case (got s m n r t)
  then obtain bs L where "fresh_heap s \<and> m = Map.empty \<or> owns s m bs L" by blast
  from malloc_owned [OF this got(2)] got(3,4) show ?case by (metis option.inject prod.inject)
next
  case (null s m n t)
  then obtain bs L where "fresh_heap s \<and> m = Map.empty \<or> owns s m bs L" by blast
  from malloc_owned [OF this null(2)] null(3) show ?case by (metis option.inject prod.inject)
next
  case (freed s m r t)
  then obtain bs L where "owns s m bs L" by auto
  from ufree_owned [OF this freed(2)] freed(3) show ?case by (metis option.inject)
next
  case (wrote s m r k i v)
  then obtain bs L where "owns s m bs L" by auto
  from write_owned [OF this wrote(2-4)] show ?case by blast
qed simp

text \<open>
  C33. However a program allocates, frees and writes, with sizes below 2 GB (\<open>size_ok\<close>), the blocks it
  holds lie in the memory above the static header and below the end of the process, and no two of
  them overlap.
\<close>

theorem malloc_blocks_disjoint:
  assumes "uses s m" and "m r = Some k"
  shows "unat (base s) + 16 \<le> unat r \<and> unat r + k \<le> unat (ubrk s)
    \<and> (\<forall>r' k'. m r' = Some k' \<longrightarrow> r' = r \<or> unat r + k \<le> unat r' \<or> unat r' + k' \<le> unat r)"
proof -
  obtain bs L where o: "owns s m bs L" using uses_inv [OF assms(1)] assms(2) by auto
  have ok: "heap_ok s (set bs \<union> L)" using o heap_invD(1) by (simp add: owns_def)
  note r = owned_range [OF o assms(2)]
  have "unat r + k \<le> unat r' \<or> unat r' + k' \<le> unat r" if r': "m r' = Some k'" "r' \<noteq> r" for r' k'
  proof -
    note q = owned_range [OF o r'(1)]
    have "r - 8 \<noteq> r' - 8" using r'(2) by simp
    then show ?thesis using heap_okD(8) [OF ok, of "r - 8" "r' - 8"] r q by auto
  qed
  moreover have "unat (base s) + 8 \<le> unat (r - 8)" "end_of s (r - 8) \<le> unat (ubrk s)"
    using heap_okD(6,7) [OF ok] r(1) by blast+
  ultimately show ?thesis using r(2,3) by auto
qed

text \<open>
  C34. \<open>malloc\<close> and \<open>free\<close> return, whatever the program did before: \<open>malloc\<close> gives a pointer that is not
  in use, or null when the kernel refuses to extend the process; \<open>free\<close> takes back any block in
  use; neither changes a byte of any other block of the program.
\<close>

theorem malloc_free_return:
  assumes "uses s m" and "size_ok n"
  shows "(\<exists>p t. malloc n s = Some (p, t) \<and> p \<notin> dom m \<and> (p = 0 \<longrightarrow> \<not> can_grow s (units n))
            \<and> (\<forall>r k i. m r = Some k \<and> i < k \<longrightarrow> umem t (unat r + i) = umem s (unat r + i)))
     \<and> (\<forall>q \<in> dom m. \<exists>t. ufree q s = Some t
            \<and> (\<forall>r k i. m r = Some k \<and> r \<noteq> q \<and> i < k \<longrightarrow> umem t (unat r + i) = umem s (unat r + i)))"
proof -
  obtain bs L where o: "fresh_heap s \<and> m = Map.empty \<or> owns s m bs L" using uses_inv [OF assms(1)] by blast
  have byte: "umem t (unat r + i) = umem s (unat r + i)"
    if "kept s t K" "r - 8 \<in> K" "m r = Some k" "i < k" for t r k i K
  proof -
    have "owns s m bs L" using o that(3) by auto
    note rng = owned_range [OF this that(3)]
    show ?thesis using that rng(2,3) by (simp add: kept_def)
  qed
  have L: "r - 8 \<in> L" if r: "m r = Some k" for r k
  proof -
    have "owns s m bs L" using o r by auto
    then show ?thesis using r by (rule owned_range(1))
  qed
  have z: "0 \<notin> dom m"
  proof
    assume "0 \<in> dom m"
    then obtain k where "m 0 = Some k" by blast
    then show False using owned_range(2) [of s m bs L 0 k] o by auto
  qed
  obtain p t where "malloc n s = Some (p, t)" "kept s t (if m = Map.empty then {} else L)"
    "p = 0 \<and> \<not> can_grow s (units n) \<or> p \<noteq> 0 \<and> p \<notin> dom m"
    using malloc_owned [OF o assms(2)] by metis
  moreover from this have "\<forall>r k i. m r = Some k \<and> i < k \<longrightarrow> umem t (unat r + i) = umem s (unat r + i)"
    using byte [of t L] L by (cases "m = Map.empty") auto
  moreover have "\<exists>t. ufree q s = Some t
      \<and> (\<forall>r k i. m r = Some k \<and> r \<noteq> q \<and> i < k \<longrightarrow> umem t (unat r + i) = umem s (unat r + i))"
    if q: "q \<in> dom m" for q
  proof -
    have os: "owns s m bs L" using o q by auto
    obtain t where t: "ufree q s = Some t" "kept s t (L - {q - 8})" using ufree_owned [OF os q] by metis
    have "umem t (unat r + i) = umem s (unat r + i)" if "m r = Some k" "r \<noteq> q" "i < k" for r k i
      using byte [OF t(2) _ that(1,3)] L [OF that(1)] that(2) by simp
    then show ?thesis using t(1) by blast
  qed
  ultimately show ?thesis using z by blast
qed

definition demo_heap :: heap where
  "demo_heap = \<lparr>umem = (\<lambda>_. 0), freep = 0, base = 0x1000, ubrk = 0x2000, grows = (\<lambda>_. True)\<rparr>"

lemma demo_fresh: "uses demo_heap Map.empty" "fresh_heap demo_heap" "size_ok 10" "can_grow demo_heap (units 10)"
proof -
  show f: "fresh_heap demo_heap" by (simp add: fresh_heap_def demo_heap_def)
  show "uses demo_heap Map.empty" using f by (rule uses.start)
  show s: "size_ok 10" by (simp add: size_ok_def)
  have u: "unat (units 10) = 3" using unat_units [OF s] by simp
  then have "max (units 10) 4096 = 4096" by (simp add: max_def word_le_nat_alt)
  then show "can_grow demo_heap (units 10)" by (simp add: can_grow_def demo_heap_def KERNBASE_def)
qed

theorem malloc_blocks_disjoint_witness:
  "\<exists>s m r. uses s m \<and> m r = Some 10 \<and> unat (base s) + 16 \<le> unat r \<and> unat r + 10 \<le> unat (ubrk s)"
proof -
  have "fresh_heap demo_heap \<and> Map.empty = Map.empty \<or> owns demo_heap Map.empty [] {}" using demo_fresh by blast
  from malloc_owned [OF this demo_fresh(3)] obtain r t where "malloc 10 demo_heap = Some (r, t)" "r \<noteq> 0"
    using demo_fresh(4) by metis
  from uses.got [OF demo_fresh(1,3) this] have u: "uses t [r \<mapsto> 10]" by simp
  from malloc_blocks_disjoint [OF this, of r 10] u show ?thesis by (intro exI [of _ t] exI [of _ "[r \<mapsto> 10]"] exI [of _ r]) simp
qed

theorem malloc_free_return_witness:
  "\<exists>p t. malloc 10 demo_heap = Some (p, t) \<and> p \<noteq> 0"
proof -
  obtain p t where "malloc 10 demo_heap = Some (p, t)" "p = 0 \<longrightarrow> \<not> can_grow demo_heap (units 10)"
    using malloc_free_return [OF demo_fresh(1,3)] by blast
  then show ?thesis using demo_fresh(4) by blast
qed

text \<open>The sizes \<open>size_ok\<close> excludes: close to the end of the range the number of units wraps around
  to 1, the header alone, and \<open>malloc\<close> would serve such a request from any block.\<close>

lemma units_wrap: "0xFFFFFFF9 \<le> n \<Longrightarrow> units n = 1"
proof -
  assume n: "0xFFFFFFF9 \<le> n"
  have "n + 8 - 1 = n + 7" by simp
  moreover have "unat (7 :: u32) = 7" by simp
  ultimately have "unat (n + 8 - 1) = (unat n + 7) mod 2 ^ LENGTH(32)" by (simp only: unat_word_ariths(1))
  moreover have "unat n < 2 ^ 32" by (rule order_less_le_trans [OF unsigned_less]) simp
  then obtain k where "unat n + 7 = k + 2 ^ 32" "k < 8"
    using n by (intro that [of "unat n + 7 - 2 ^ 32"]) (auto simp: word_le_nat_alt)
  ultimately have "unat (n + 8 - 1) < 8" by simp
  then have "unat ((n + 8 - 1) div 8) = 0" unfolding unat_div by simp
  then have "(n + 8 - 1) div 8 = 0" by (simp only: unat_eq_0)
  then show ?thesis by (simp add: units_def)
qed

end
