(* ===== verification/Freevm.thy ===== *)
theory Freevm
  imports Kvm
begin

text \<open>
  Giving an address space back: the loop of \<open>deallocuvm\<close>, which frees the user pages of a range
  and skips missing page tables, and \<open>freevm\<close>, which frees user pages, page tables and directory.
\<close>

section \<open>Freeing user pages\<close>

text \<open>The pages behind the mapped addresses of \<open>X\<close>, and what an address space may count on: each of
  them is a page of the allocator, none is free, a page table or mapped twice.\<close>

definition frames :: "mem \<Rightarrow> u32 \<Rightarrow> u32 set \<Rightarrow> u32 set" where
  "frames m d X = frame_at m d ` {v \<in> X. mmu_addr m d PTE_P v \<noteq> None}"

definition owned :: "mem \<Rightarrow> u32 \<Rightarrow> u32 set \<Rightarrow> u32 \<Rightarrow> u32 set \<Rightarrow> bool" where
  "owned m d F e X \<longleftrightarrow> (\<forall>p \<in> frames m d X. page_ok e p \<and> p \<notin> F \<and> p \<noteq> d \<and> p \<notin> tables m d)
     \<and> (\<forall>u \<in> X. \<forall>v \<in> X. mmu_addr m d PTE_P u \<noteq> None \<longrightarrow> mmu_addr m d PTE_P v \<noteq> None
           \<longrightarrow> frame_at m d u = frame_at m d v \<longrightarrow> PGROUNDDOWN u = PGROUNDDOWN v)"

lemma mmu_frame: "mmu_addr m d PTE_P v \<noteq> None \<Longrightarrow> mmu_addr m d PTE_P v = Some (frame_at m d v + (v AND 0xFFF))"
  by (simp add: mmu_addr_alt split: if_splits)

lemma frame_determined:
  assumes "mmu_addr m' d PTE_P v = mmu_addr m d PTE_P v" "mmu_addr m d PTE_P v \<noteq> None"
  shows "frame_at m' d v = frame_at m d v"
  using assms mmu_frame [of m d v] mmu_frame [of m' d v] by simp

lemma frames_cong:
  assumes "\<And>v. v \<in> X \<Longrightarrow> mmu_addr m' d PTE_P v = mmu_addr m d PTE_P v"
  shows "frames m' d X = frames m d X"
proof -
  have "{v \<in> X. mmu_addr m' d PTE_P v \<noteq> None} = {v \<in> X. mmu_addr m d PTE_P v \<noteq> None}" using assms by auto
  moreover have "frame_at m' d v = frame_at m d v" if "v \<in> {v \<in> X. mmu_addr m d PTE_P v \<noteq> None}" for v
    using that assms frame_determined [of m' d v m] by simp
  ultimately show ?thesis unfolding frames_def by (metis (no_types, lifting) image_cong)
qed

lemma frames_mono: "X \<subseteq> Y \<Longrightarrow> frames m d X \<subseteq> frames m d Y"
  unfolding frames_def by (rule image_mono) auto

lemma owned_cong:
  assumes "owned m d F e Y" "X \<subseteq> Y" "\<And>v. v \<in> X \<Longrightarrow> mmu_addr m' d PTE_P v = mmu_addr m d PTE_P v"
    and "tables m' d = tables m d" "F' \<inter> frames m d X \<subseteq> F"
  shows "owned m' d F' e X"
  unfolding owned_def
proof (intro conjI ballI impI)
  fix p assume p: "p \<in> frames m' d X"
  then have q: "p \<in> frames m d X" "p \<in> frames m d Y" using frames_cong [OF assms(3)] frames_mono [OF assms(2), of m d] by blast+
  then show "page_ok e p" "p \<noteq> d" "p \<notin> tables m' d" using assms(1,4) unfolding owned_def by auto
  show "p \<notin> F'" using q assms(1,5) unfolding owned_def by blast
next
  fix u v assume u: "u \<in> X" "v \<in> X" "mmu_addr m' d PTE_P u \<noteq> None" "mmu_addr m' d PTE_P v \<noteq> None"
    "frame_at m' d u = frame_at m' d v"
  then have M: "mmu_addr m d PTE_P u \<noteq> None" "mmu_addr m d PTE_P v \<noteq> None" "u \<in> Y" "v \<in> Y"
    using assms(2) assms(3) by auto
  then have "frame_at m d u = frame_at m d v"
    using u frame_determined [OF assms(3) M(1)] frame_determined [OF assms(3) M(2)] by simp
  with M show "PGROUNDDOWN u = PGROUNDDOWN v" using assms(1) unfolding owned_def by blast
qed

lemma table_in: "i < 1024 \<Longrightarrow> bit (pde_word m d i) 0 \<Longrightarrow> table_of m d i \<in> tables m d"
  by (auto simp: tables_def pde_set_def)

text \<open>Memory that changes only in a page that is neither the directory nor a table.\<close>

lemma other_words:
  assumes "f mod PGSIZE = 0" "\<forall>b. b < unat f \<or> unat f + 4096 \<le> b \<longrightarrow> m' b = m b"
    and "p mod PGSIZE = 0" "p \<noteq> f" "j < 1024"
  shows "ld32 (p + 4 * j) m' = ld32 (p + 4 * j) m"
proof (rule ld32_cong)
  fix k :: nat assume "k < 4"
  then have "unat p \<le> unat (p + 4 * j) + k" "unat (p + 4 * j) + k < unat p + 4096"
    using entry_in_page [OF assms(3,5), of "unat (p + 4 * j) + k"] by auto
  then show "m' (unat (p + 4 * j) + k) = m (unat (p + 4 * j) + k)"
    using page_aligned [OF assms(3,1,4)] assms(2) by auto
qed

lemma other_page:
  assumes "f mod PGSIZE = 0" "d mod PGSIZE = 0" "f \<noteq> d" "f \<notin> tables m d"
    and "\<forall>b. b < unat f \<or> unat f + 4096 \<le> b \<longrightarrow> m' b = m b"
  shows "i < 1024 \<Longrightarrow> pde_word m' d i = pde_word m d i"
    and "access need \<Longrightarrow> mmu_addr m' d need v = mmu_addr m d need v"
proof -
  note w = other_words [OF assms(1,5)]
  have pw: "pde_word m' d i = pde_word m d i" if "i < 1024" for i
    using w [of d i] assms that by (simp add: pde_word_def)
  then show "i < 1024 \<Longrightarrow> pde_word m' d i = pde_word m d i" .
  assume a: "access need"
  show "mmu_addr m' d need v = mmu_addr m d need v"
  proof (cases "bit (pde_word m d (PDX v)) 0")
    case True
    then have "table_of m d (PDX v) \<noteq> f" using table_in [OF PDX_less True] assms(4) by auto
    then have "ld32 (table_of m d (PDX v) + 4 * PTX v) m' = ld32 (table_of m d (PDX v) + 4 * PTX v) m"
      by (rule w [OF table_page _ PTX_less])
    then show ?thesis using pw [OF PDX_less, of v] by (simp add: mmu_addr_tables table_of_def)
  next
    case False
    then have "pde_word m d (PDX v) AND need \<noteq> need" using need_present a unfolding access_def by blast
    then show ?thesis using pw [OF PDX_less, of v] by (simp add: mmu_addr_tables)
  qed
qed

lemma pt_ok_words:
  assumes "pt_ok m d F" "\<forall>i < 1024. pde_word m' d i = pde_word m d i" "F' \<inter> insert d (tables m d) \<subseteq> F"
  shows "pt_ok m' d F'"
proof -
  have "table_of m d i \<in> tables m d" if "i < 1024" "bit (pde_word m d i) 0" for i using table_in that .
  then show ?thesis using assms unfolding pt_ok_def table_of_def by auto
qed

lemma mapped_dir: "mmu_addr m d PTE_P v \<noteq> None \<Longrightarrow> bit (pde_word m d (PDX v)) 0"
  by (auto simp: mmu_addr_tables need_present Let_def split: if_splits)

lemma pte_at_nonzero:
  assumes "pt_ok m d F" "bit (pde_word m d (PDX v)) 0"
  shows "pte_at m d v \<noteq> 0"
proof
  assume "pte_at m d v = 0"
  then have "unat (table_of m d (PDX v) + 4 * PTX v) = 0" by (simp add: pte_at_table)
  moreover have "table_of m d (PDX v) \<noteq> 0" using assms PDX_less by (auto simp: pt_ok_def)
  ultimately show False using entry_unat [of "table_of m d (PDX v)" "PTX v"] by (simp add: PTX_less unat_eq_zero)
qed

text \<open>One mapped page given back and its entry cleared.\<close>

lemma free_page:
  assumes inv: "alloc_inv L s qs" and pt: "pt_ok (kmem s) d (set qs)" and a: "mmu_addr (kmem s) d PTE_P a \<noteq> None"
    and f: "f = frame_at (kmem s) d a" "page_ok (kend s) f" "f \<notin> set qs" "f \<noteq> d" "f \<notin> tables (kmem s) d"
  shows "\<exists>t. kfree f s = Ok () t \<and> (let u = t\<lparr>kmem := st32 (pte_at (kmem s) d a) 0 (kmem t)\<rparr> in
    alloc_inv L u (f # qs) \<and> pt_ok (kmem u) d (set (f # qs)) \<and> alloc_frame s u
    \<and> (\<forall>i < 1024. pde_word (kmem u) d i = pde_word (kmem s) d i)
    \<and> bytes_kept (insert f (tables (kmem s) d)) (kmem s) (kmem u)
    \<and> (\<forall>need v. access need \<longrightarrow> mmu_addr (kmem u) d need v
         = (if PGROUNDDOWN v = PGROUNDDOWN a then None else mmu_addr (kmem s) d need v)))"
proof -
  let ?T = "table_of (kmem s) d (PDX a)"
  obtain t where t: "kfree f s = Ok () t" "alloc_inv L t (f # qs)" "alloc_frame s t"
    "\<forall>b. b < unat f \<or> unat f + 4096 \<le> b \<longrightarrow> kmem t b = kmem s b"
    using kfree_in [OF inv f(2,3)] by blast
  have d: "d mod PGSIZE = 0" "f mod PGSIZE = 0" using pt f(2) by (auto simp: pt_ok_def page_ok_def)
  have w: "\<forall>i < 1024. pde_word (kmem t) d i = pde_word (kmem s) d i" using other_page(1) [OF d(2,1) f(4,5) t(4)] by blast
  have tr: "access need \<Longrightarrow> mmu_addr (kmem t) d need v = mmu_addr (kmem s) d need v" for need v
    using other_page(2) [OF d(2,1) f(4,5) t(4)] by blast
  have ptt: "pt_ok (kmem t) d (set (f # qs))" by (rule pt_ok_words [OF pt w]) (use f in auto)
  have P: "bit (pde_word (kmem s) d (PDX a)) 0" using mapped_dir [OF a] .
  then have Pt: "bit (pde_word (kmem t) d (PDX a)) 0" using w PDX_less by auto
  have pa: "pte_at (kmem t) d a = pte_at (kmem s) d a" using w PDX_less by (simp add: pte_at_table table_of_def)
  let ?u = "t\<lparr>kmem := st32 (pte_at (kmem s) d a) 0 (kmem t)\<rparr>"
  note S = pte_store [OF ptt Pt _ refl, where e = 0, unfolded pa]
  have z: "(0 :: u32) AND need \<noteq> need" if "access need" for need using that by (auto simp: access_def PTE_P_def)
  have "?T \<notin> set (f # qs)" using pt P PDX_less f(5) table_in [OF PDX_less P] by (auto simp: pt_ok_def)
  then have "alloc_inv L ?u (f # qs)" unfolding pte_at_table by (intro alloc_inv_store [OF t(2)]) (simp_all add: PTX_less)
  moreover have "mmu_addr (kmem ?u) d need v = (if PGROUNDDOWN v = PGROUNDDOWN a then None else mmu_addr (kmem s) d need v)"
    if "access need" for need v
    using S(2) [where need = need and v = v] that z [OF that] tr [OF that] by (simp add: access_def)
  moreover have "pt_ok (kmem ?u) d (set (f # qs))" using S(1) [where need = PTE_P] by simp
  moreover have "\<forall>i < 1024. pde_word (kmem ?u) d i = pde_word (kmem s) d i" using S(3) [where need = PTE_P] w by simp
  moreover have "bytes_kept (insert f (tables (kmem s) d)) (kmem s) (kmem ?u)"
  proof (rule bytes_kept_trans)
    show "bytes_kept {f} (kmem s) (kmem t)" using t(4) by (simp add: bytes_kept_def)
    show "bytes_kept {?T} (kmem t) (kmem ?u)" unfolding pte_at_table by (simp add: bytes_kept_entry PTX_less)
    show "{f} \<union> {?T} \<subseteq> insert f (tables (kmem s) d)" using table_in [OF PDX_less P] by simp
  qed
  ultimately show ?thesis using t(1,3) by (intro exI [of _ t]) (simp add: Let_def)
qed

text \<open>The three cases of the loop of \<open>deallocuvm\<close>.\<close>

lemma walk_false:
  "bit (pde_word (kmem s) d (PDX a)) 0 \<Longrightarrow> walkpgdir d a False s = Ok (pte_at (kmem s) d a) s"
  "\<not> bit (pde_word (kmem s) d (PDX a)) 0 \<Longrightarrow> walkpgdir d a False s = Ok 0 s"
  by (simp_all add: walkpgdir_look pde_word_at pte_flag_bits(1))

lemma dealloc_no_table:
  assumes "\<not> bit (pde_word (kmem s) d (PDX a)) 0" "a < oldsz"
  shows "deallocuvm_loop d oldsz a (Suc n) s = deallocuvm_loop d oldsz (pgdir_next a + PGSIZE) n s"
  using assms by (simp add: kbind_def walk_false)

lemma dealloc_absent:
  assumes "pt_ok (kmem s) d F" "bit (pde_word (kmem s) d (PDX a)) 0" "mmu_addr (kmem s) d PTE_P a = None" "a < oldsz"
  shows "deallocuvm_loop d oldsz a (Suc n) s = deallocuvm_loop d oldsz (a + PGSIZE) n s"
proof -
  have "ld32 (pte_at (kmem s) d a) (kmem s) AND PTE_P = 0"
    using assms(2,3) by (auto simp: mmu_addr_tables pte_at_table pte_flag_bits(1) Let_def) (auto simp: PTE_P_def split: if_splits)
  then show ?thesis
    using assms pte_at_nonzero [OF assms(1,2)] by (simp add: kbind_def walk_false rd32_def)
qed

lemma dealloc_mapped:
  assumes "pt_ok (kmem s) d F" "mmu_addr (kmem s) d PTE_P a \<noteq> None" "a < oldsz"
    and "kfree (frame_at (kmem s) d a) s = Ok () t" "frame_at (kmem s) d a \<noteq> KERNBASE"
  shows "deallocuvm_loop d oldsz a (Suc n) s
    = deallocuvm_loop d oldsz (a + PGSIZE) n (t\<lparr>kmem := st32 (pte_at (kmem s) d a) 0 (kmem t)\<rparr>)"
proof -
  let ?e = "ld32 (pte_at (kmem s) d a) (kmem s)"
  have P: "bit (pde_word (kmem s) d (PDX a)) 0" using mapped_dir [OF assms(2)] .
  have "?e AND PTE_P = PTE_P" using assms(2) by (simp add: mmu_addr_alt split: if_splits)
  then have "?e AND PTE_P \<noteq> 0" by (simp add: PTE_P_def)
  moreover have "PTE_ADDR ?e \<noteq> 0" using assms(5) by (auto simp: frame_at_def P2V_def)
  ultimately show ?thesis
    using assms(3,4) pte_at_nonzero [OF assms(1) P] P
    by (simp add: kbind_def walk_false rd32_def kseq_def wr32_def upd_mem_def frame_at_def)
qed

text \<open>What freeing the pages of \<open>X\<close> leaves.\<close>

definition freed :: "lockid set \<Rightarrow> 'x mem_st_scheme \<Rightarrow> u32 list \<Rightarrow> 'x mem_st_scheme \<Rightarrow> u32 list \<Rightarrow> u32 \<Rightarrow> u32 set \<Rightarrow> bool" where
  "freed L s qs t ps d X \<longleftrightarrow>
     alloc_inv L t ps \<and> set ps = frames (kmem s) d X \<union> set qs \<and> pt_ok (kmem t) d (set ps) \<and> alloc_frame s t
     \<and> (\<forall>i < 1024. pde_word (kmem t) d i = pde_word (kmem s) d i)
     \<and> bytes_kept (frames (kmem s) d X \<union> tables (kmem s) d) (kmem s) (kmem t)
     \<and> (\<forall>need v. access need \<longrightarrow> mmu_addr (kmem t) d need v = (if v \<in> X then None else mmu_addr (kmem s) d need v))"

lemma mmu_none: "access need \<Longrightarrow> mmu_addr m d PTE_P v = None \<Longrightarrow> mmu_addr m d need v = None"
  using and_sub [of _ need PTE_P] by (auto simp: mmu_addr_alt access_def split: if_splits)

lemma frames_empty [simp]: "frames m d {} = {}" by (simp add: frames_def)

lemma frames_Un: "frames m d (X \<union> Y) = frames m d X \<union> frames m d Y"
  by (auto simp: frames_def)

lemma frames_none: "(\<And>v. v \<in> X \<Longrightarrow> mmu_addr m d PTE_P v = None) \<Longrightarrow> frames m d X = {}"
  by (auto simp: frames_def)

lemma freed_none:
  assumes "alloc_inv L s qs" "pt_ok (kmem s) d (set qs)" "\<And>v. v \<in> X \<Longrightarrow> mmu_addr (kmem s) d PTE_P v = None"
  shows "freed L s qs s qs d X"
  using assms frames_none [OF assms(3)] mmu_none by (auto simp: freed_def)

lemma freed_trans:
  assumes X: "freed L s qs u rs d X" and Y: "freed L u rs t ps d Y" and "X \<inter> Y = {}"
  shows "freed L s qs t ps d (X \<union> Y)"
proof -
  have fr: "frames (kmem u) d Y = frames (kmem s) d Y"
    by (rule frames_cong) (use X assms(3) access_P in \<open>auto simp: freed_def\<close>)
  have ta: "tables (kmem u) d = tables (kmem s) d" using X tables_cong(2) unfolding freed_def by blast
  have b: "bytes_kept (frames (kmem s) d X \<union> tables (kmem s) d) (kmem s) (kmem u)"
    "bytes_kept (frames (kmem s) d Y \<union> tables (kmem s) d) (kmem u) (kmem t)"
    using X Y fr ta unfolding freed_def by metis+
  have "bytes_kept (frames (kmem s) d (X \<union> Y) \<union> tables (kmem s) d) (kmem s) (kmem t)"
    by (rule bytes_kept_trans [OF b]) (auto simp: frames_Un)
  moreover have "set ps = frames (kmem s) d (X \<union> Y) \<union> set qs" using X Y fr by (auto simp: freed_def frames_Un)
  moreover have "alloc_frame s t" using X Y alloc_frame_trans by (auto simp: freed_def)
  moreover have "\<forall>need v. access need \<longrightarrow> mmu_addr (kmem t) d need v = (if v \<in> X \<union> Y then None else mmu_addr (kmem s) d need v)"
    using X Y by (simp add: freed_def)
  moreover have "alloc_inv L t ps" "pt_ok (kmem t) d (set ps)" using Y unfolding freed_def by blast+
  moreover have "\<forall>i < 1024. pde_word (kmem t) d i = pde_word (kmem s) d i" using X Y unfolding freed_def by simp
  ultimately show ?thesis unfolding freed_def by (intro conjI)
qed

lemma page_freed:
  assumes inv: "alloc_inv L s qs" and pt: "pt_ok (kmem s) d (set qs)" and own: "owned (kmem s) d (set qs) (kend s) Y" "a \<in> Y"
    and a: "mmu_addr (kmem s) d PTE_P a \<noteq> None" "a mod PGSIZE = 0"
  shows "\<exists>t. kfree (frame_at (kmem s) d a) s = Ok () t
    \<and> freed L s qs (t\<lparr>kmem := st32 (pte_at (kmem s) d a) 0 (kmem t)\<rparr>) (frame_at (kmem s) d a # qs) d {v. PGROUNDDOWN v = a}"
proof -
  let ?f = "frame_at (kmem s) d a"
  have f: "?f \<in> frames (kmem s) d Y" using own(2) a(1) by (auto simp: frames_def)
  have aa: "PGROUNDDOWN a = a" using page_last [OF a(2)] by simp
  have "frames (kmem s) d {v. PGROUNDDOWN v = a} = {?f}"
  proof -
    have "frame_at (kmem s) d v = ?f" if "PGROUNDDOWN v = a" for v
      by (rule same_page(3)) (simp only: that aa)
    then have "frames (kmem s) d {v. PGROUNDDOWN v = a} \<subseteq> {?f}" unfolding frames_def by blast
    moreover have "?f \<in> frames (kmem s) d {v. PGROUNDDOWN v = a}" unfolding frames_def using aa a(1) by blast
    ultimately show ?thesis by blast
  qed
  then have F: "set (?f # qs) = frames (kmem s) d {v. PGROUNDDOWN v = a} \<union> set qs"
    "insert ?f (tables (kmem s) d) = frames (kmem s) d {v. PGROUNDDOWN v = a} \<union> tables (kmem s) d" by simp_all
  have o: "page_ok (kend s) ?f" "?f \<notin> set qs" "?f \<noteq> d" "?f \<notin> tables (kmem s) d" using own(1) f by (auto simp: owned_def)
  show ?thesis
    using free_page [OF inv pt a(1) refl o] unfolding freed_def F Let_def aa mem_Collect_eq by (elim ex_forward) (intro conjI refl; elim conjE)
qed

text \<open>The addresses the loop of \<open>deallocuvm\<close> still has before it at \<open>a\<close>.\<close>

definition to_free :: "u32 \<Rightarrow> u32 \<Rightarrow> u32 set" where
  "to_free a oldsz = {v. a \<le> v \<and> PGROUNDDOWN v < oldsz}"

lemma PGROUNDDOWN_ge: "a mod PGSIZE = 0 \<Longrightarrow> a \<le> v \<Longrightarrow> a \<le> PGROUNDDOWN v"
proof -
  assume a: "a mod PGSIZE = 0" "a \<le> v"
  then obtain k where k: "unat a = 4096 * k" using page_mult [of a] by auto
  have "k \<le> unat v div 4096" using a(2) k by (simp add: word_le_nat_alt less_eq_div_iff_mult_less_eq mult.commute)
  then show ?thesis using k by (simp add: word_le_nat_alt PGROUNDDOWN_unat)
qed

lemma to_free_empty: "a mod PGSIZE = 0 \<Longrightarrow> oldsz \<le> a \<Longrightarrow> to_free a oldsz = {}"
  unfolding to_free_def using PGROUNDDOWN_ge [of a] by (metis (mono_tags, lifting) Collect_empty_eq leD order_trans)

lemma to_free_page:
  assumes "a mod PGSIZE = 0" "a < oldsz" "unat a < 2 ^ 31"
  shows "to_free a oldsz = {v. PGROUNDDOWN v = a} \<union> to_free (a + PGSIZE) oldsz"
    "{v. PGROUNDDOWN v = a} \<inter> to_free (a + PGSIZE) oldsz = {}"
proof -
  have p: "unat (a + PGSIZE) = unat a + 4096"
    using assms(3) unat_add_nowrap32 [of a PGSIZE] by (simp add: PGSIZE_def)
  have page: "PGROUNDDOWN v = a \<longleftrightarrow> a \<le> v \<and> \<not> a + PGSIZE \<le> v" for v
    using in_pages_page [OF assms(1), of v] p by (simp add: in_pages_def word_le_nat_alt not_le)
  show "to_free a oldsz = {v. PGROUNDDOWN v = a} \<union> to_free (a + PGSIZE) oldsz"
  proof (intro set_eqI iffI)
    fix v assume "v \<in> to_free a oldsz"
    then show "v \<in> {v. PGROUNDDOWN v = a} \<union> to_free (a + PGSIZE) oldsz" using page by (simp add: to_free_def)
  next
    fix v assume "v \<in> {v. PGROUNDDOWN v = a} \<union> to_free (a + PGSIZE) oldsz"
    moreover have "a \<le> a + PGSIZE" using p by (simp add: word_le_nat_alt)
    ultimately show "v \<in> to_free a oldsz" using page [of v] assms(2) by (auto simp: to_free_def)
  qed
  show "{v. PGROUNDDOWN v = a} \<inter> to_free (a + PGSIZE) oldsz = {}" using page by (auto simp: to_free_def)
qed

lemma next_dir:
  assumes "unat a < 2 ^ 31"
  shows "unat (pgdir_next a + PGSIZE) = (unat a div 4194304 + 1) * 4194304" "(pgdir_next a + PGSIZE) mod PGSIZE = 0"
    "to_free (pgdir_next a + PGSIZE) oldsz \<subseteq> to_free a oldsz"
    "v \<in> to_free a oldsz - to_free (pgdir_next a + PGSIZE) oldsz \<Longrightarrow> PDX v = PDX a"
proof -
  have q: "unat a div 4194304 < 512" using assms by (simp add: div_less_iff_less_mult)
  have "unat (PDX a + 1) = unat a div 4194304 + 1" using q by (simp add: unat_word_ariths PDX_unat)
  then have "unat (push_bit 22 (PDX a + 1)) = (unat a div 4194304 + 1) * 4194304"
    using q by (simp add: push_bit_eq_mult unat_word_ariths PDX_unat)
  then show n: "unat (pgdir_next a + PGSIZE) = (unat a div 4194304 + 1) * 4194304"
    by (simp add: pgdir_next_def PGADDR_def)
  show "(pgdir_next a + PGSIZE) mod PGSIZE = 0"
    unfolding PGSIZE_def word_unat_eq_iff unat_mod using n by (simp add: PGSIZE_def mod_mult_right_eq mult.commute)
  have "unat a < (unat a div 4194304 + 1) * 4194304" by (simp add: div_less_iff_less_mult [symmetric])
  then show "to_free (pgdir_next a + PGSIZE) oldsz \<subseteq> to_free a oldsz"
    unfolding to_free_def word_le_nat_alt n by auto
  assume "v \<in> to_free a oldsz - to_free (pgdir_next a + PGSIZE) oldsz"
  then have "unat a \<le> unat v" "unat v < (unat a div 4194304 + 1) * 4194304"
    unfolding to_free_def word_le_nat_alt n by auto
  then have "unat a div 4194304 \<le> unat v div 4194304" "unat v div 4194304 < unat a div 4194304 + 1"
    by (simp_all add: div_le_mono div_less_iff_less_mult)
  then show "PDX v = PDX a" by (simp add: word_unat_eq_iff PDX_unat)
qed

lemma owned_freed:
  assumes "owned (kmem s) d (set qs) (kend s) (X \<union> Y)" "freed L s qs u rs d X" "X \<inter> Y = {}"
    and "\<And>x y. x \<in> X \<Longrightarrow> y \<in> Y \<Longrightarrow> PGROUNDDOWN x \<noteq> PGROUNDDOWN y"
  shows "owned (kmem u) d (set rs) (kend u) Y"
proof -
  have k: "kend u = kend s" using assms(2) by (auto simp: freed_def alloc_frame_def)
  have "frames (kmem s) d X \<inter> frames (kmem s) d Y = {}"
  proof (rule ccontr)
    assume "frames (kmem s) d X \<inter> frames (kmem s) d Y \<noteq> {}"
    then obtain x y where xy: "x \<in> X" "y \<in> Y" "mmu_addr (kmem s) d PTE_P x \<noteq> None" "mmu_addr (kmem s) d PTE_P y \<noteq> None"
      "frame_at (kmem s) d x = frame_at (kmem s) d y" unfolding frames_def by blast
    then have "PGROUNDDOWN x = PGROUNDDOWN y" using assms(1) unfolding owned_def by blast
    then show False using assms(4) xy by blast
  qed
  moreover have "set rs = frames (kmem s) d X \<union> set qs" using assms(2) by (simp add: freed_def)
  ultimately have "set rs \<inter> frames (kmem s) d Y \<subseteq> set qs" by auto
  moreover have "tables (kmem u) d = tables (kmem s) d" by (rule tables_cong) (use assms(2) in \<open>auto simp: freed_def\<close>)
  moreover have "mmu_addr (kmem u) d PTE_P v = mmu_addr (kmem s) d PTE_P v" if "v \<in> Y" for v
    using assms(2,3) that access_P by (auto simp: freed_def)
  ultimately show ?thesis unfolding k by (intro owned_cong [OF assms(1)]) auto
qed

lemma dealloc_step:
  assumes "alloc_inv L s qs" "pt_ok (kmem s) d (set qs)" "owned (kmem s) d (set qs) (kend s) (to_free a oldsz)"
    and "a mod PGSIZE = 0" "a < oldsz" "unat a < 2 ^ 31" "KERNBASE < kend s"
  shows "\<exists>u rs b. deallocuvm_loop d oldsz a (Suc n) s = deallocuvm_loop d oldsz b n u
    \<and> b mod PGSIZE = 0 \<and> unat a + 4096 \<le> unat b \<and> unat b \<le> 2 ^ 31
    \<and> freed L s qs u rs d (to_free a oldsz - to_free b oldsz) \<and> to_free b oldsz \<subseteq> to_free a oldsz
    \<and> owned (kmem u) d (set rs) (kend u) (to_free b oldsz)"
proof (cases "bit (pde_word (kmem s) d (PDX a)) 0")
  case False
  let ?b = "pgdir_next a + PGSIZE"
  note N = next_dir [OF assms(6)]
  have "mmu_addr (kmem s) d PTE_P v = None" if "v \<in> to_free a oldsz - to_free ?b oldsz" for v
    by (rule ccontr) (use N(4) [OF that] False mapped_dir [of "kmem s" d v] in simp)
  then have f: "freed L s qs s qs d (to_free a oldsz - to_free ?b oldsz)" by (rule freed_none [OF assms(1,2)])
  have "owned (kmem s) d (set qs) (kend s) (to_free ?b oldsz)" by (rule owned_cong [OF assms(3) N(3)]) auto
  moreover have "unat a + 4096 \<le> unat ?b \<and> unat ?b \<le> 2 ^ 31"
  proof -
    obtain k where k: "unat a = 4096 * k" using page_mult [of a] assms(4) by auto
    have "k div 1024 < 512" using assms(6) k by (simp add: div_less_iff_less_mult)
    moreover have "unat a div 4194304 = k div 1024" by (simp add: k)
    moreover have "k < (k div 1024 + 1) * 1024" by (simp only: div_less_iff_less_mult [symmetric])
    ultimately show ?thesis using N(1) k by simp
  qed
  ultimately show ?thesis
    using dealloc_no_table [OF False assms(5), of n] N(2,3) f by (intro exI [of _ s] exI [of _ qs] exI [of _ ?b]) simp
next
  case True
  let ?b = "a + PGSIZE" let ?X = "{v. PGROUNDDOWN v = a}"
  note T = to_free_page [OF assms(4-6)]
  have D: "to_free a oldsz - to_free ?b oldsz = ?X" using T by auto
  have b: "unat ?b = unat a + 4096" using assms(6) unat_add_nowrap32 [of a PGSIZE] by (simp add: PGSIZE_def)
  have b': "unat ?b \<le> 2 ^ 31"
  proof -
    obtain k where k: "unat a = 4096 * k" using page_mult [of a] assms(4) by auto
    then show ?thesis using b assms(6) by simp
  qed
  have pg: "PGROUNDDOWN x \<noteq> PGROUNDDOWN y" if "x \<in> ?X" "y \<in> to_free ?b oldsz" for x y using that T(2) by auto
  have "\<exists>u rs. deallocuvm_loop d oldsz a (Suc n) s = deallocuvm_loop d oldsz ?b n u \<and> freed L s qs u rs d ?X"
  proof (cases "mmu_addr (kmem s) d PTE_P a = None")
    case None: True
    have "mmu_addr (kmem s) d PTE_P v = None" if "v \<in> ?X" for v
      using None that mmu_addr_tables [of "kmem s" d PTE_P v] mmu_addr_tables [of "kmem s" d PTE_P a] same_page_iff [of v a]
        page_last [OF assms(4)] by (auto simp: Let_def split: if_splits)
    then have "freed L s qs s qs d ?X" by (rule freed_none [OF assms(1,2)])
    then show ?thesis using dealloc_absent [OF assms(2) True None assms(5), of n] by blast
  next
    case Some: False
    have a: "a \<in> to_free a oldsz" using assms(5) page_last [OF assms(4)] by (simp add: to_free_def)
    then have "page_ok (kend s) (frame_at (kmem s) d a)" using assms(3) Some by (auto simp: owned_def frames_def)
    then have "frame_at (kmem s) d a \<noteq> KERNBASE" using assms(7) by (auto simp: page_ok_def)
    then show ?thesis
      using page_freed [OF assms(1-3) a Some assms(4)] dealloc_mapped [OF assms(2) Some assms(5)] by blast
  qed
  then obtain u rs where u: "deallocuvm_loop d oldsz a (Suc n) s = deallocuvm_loop d oldsz ?b n u" "freed L s qs u rs d ?X" by blast
  have "owned (kmem u) d (set rs) (kend u) (to_free ?b oldsz)"
    by (rule owned_freed [OF _ u(2) T(2) pg]) (use assms(3) T(1) in auto)
  then show ?thesis using u b b' D T(1) page_add [OF assms(4)] by (intro exI [of _ u] exI [of _ rs] exI [of _ ?b]) auto
qed

lemma dealloc_loop:
  assumes "alloc_inv L s qs" "pt_ok (kmem s) d (set qs)" "owned (kmem s) d (set qs) (kend s) (to_free a oldsz)"
    and "a mod PGSIZE = 0" "oldsz \<le> KERNBASE" "unat a \<le> 2 ^ 31" "KERNBASE < kend s" "unat oldsz \<le> unat a + 4096 * n"
  shows "\<exists>t ps. deallocuvm_loop d oldsz a n s = Ok () t \<and> freed L s qs t ps d (to_free a oldsz)"
  using assms
proof (induction n arbitrary: s qs a)
  case 0
  then have "\<not> a < oldsz" by (simp add: word_less_nat_alt)
  then show ?case using freed_none [OF 0(1,2), of "{}"] to_free_empty [OF 0(4), of oldsz] by auto
next
  case (Suc n)
  show ?case
  proof (cases "a < oldsz")
    case False
    then show ?thesis using freed_none [OF Suc.prems(1,2), of "{}"] to_free_empty [OF Suc.prems(4), of oldsz] by auto
  next
    case True
    then have a: "unat a < 2 ^ 31" using Suc.prems(5) by (auto simp: word_less_nat_alt word_le_nat_alt KERNBASE_def)
    obtain u rs b where b: "deallocuvm_loop d oldsz a (Suc n) s = deallocuvm_loop d oldsz b n u"
      "b mod PGSIZE = 0" "unat a + 4096 \<le> unat b" "unat b \<le> 2 ^ 31"
      "freed L s qs u rs d (to_free a oldsz - to_free b oldsz)" "to_free b oldsz \<subseteq> to_free a oldsz"
      "owned (kmem u) d (set rs) (kend u) (to_free b oldsz)"
      using dealloc_step [OF Suc.prems(1-4) True a Suc.prems(7), of n] by (elim exE conjE) (rule that)
    have u: "alloc_inv L u rs" "pt_ok (kmem u) d (set rs)" "kend u = kend s"
      using b(5) by (auto simp: freed_def alloc_frame_def)
    obtain t ps where t: "deallocuvm_loop d oldsz b n u = Ok () t" "freed L u rs t ps d (to_free b oldsz)"
      using Suc.IH [OF u(1,2) b(7,2) Suc.prems(5) b(4)] Suc.prems(7,8) u(3) b(3) by auto
    have "(to_free a oldsz - to_free b oldsz) \<union> to_free b oldsz = to_free a oldsz" using b(6) by auto
    then show ?thesis using freed_trans [OF b(5) t(2)] t(1) b(1) by auto
  qed
qed

lemma deallocuvm_in:
  assumes "alloc_inv L s qs" "pt_ok (kmem s) d (set qs)" "owned (kmem s) d (set qs) (kend s) (to_free (PGROUNDUP newsz) oldsz)"
    and "oldsz \<le> KERNBASE" "KERNBASE < kend s" "newsz < oldsz"
  shows "\<exists>t ps. deallocuvm d oldsz newsz s = Ok newsz t \<and> freed L s qs t ps d (to_free (PGROUNDUP newsz) oldsz)"
proof -
  have n: "unat newsz < 2 ^ 31" "unat oldsz \<le> 2 ^ 31"
    using assms(4,6) by (simp_all add: word_less_nat_alt word_le_nat_alt KERNBASE_def)
  then have up: "unat (PGROUNDUP newsz) = (unat newsz + 4095) div 4096 * 4096" by (intro PGROUNDUP_unat) simp
  have "(unat newsz + 4095) div 4096 < 524289" using n(1) by (simp add: div_less_iff_less_mult)
  then have a: "unat (PGROUNDUP newsz) \<le> 2 ^ 31" unfolding up by simp
  have m: "PGROUNDUP newsz mod PGSIZE = 0" by (simp add: word_unat_eq_iff unat_mod up PGSIZE_def)
  have "unat oldsz \<le> unat (PGROUNDUP newsz) + 4096 * 2 ^ 20" using n(2) by simp
  then show ?thesis
    using dealloc_loop [OF assms(1-3) m assms(4) a assms(5), of "2 ^ 20"] assms(6)
    by (auto simp: deallocuvm_def kseq_def kbind_def not_le simp del: deallocuvm_loop.simps)
qed

section \<open>freevm\<close>

text \<open>The body of the loop of \<open>freevm\<close>.\<close>

definition free_table :: "u32 \<Rightarrow> nat \<Rightarrow> (unit, 'x mem_st_scheme) kern" where
  "free_table d i = kbind (rd32 (d + 4 * of_nat i)) (\<lambda>e. kwhen (e AND PTE_P \<noteq> 0) (kfree (P2V (PTE_ADDR e))))"

lemma free_table_run:
  "free_table d i s = (let e = ld32 (d + 4 * of_nat i) (kmem s) in if bit e 0 then kfree (P2V (PTE_ADDR e)) s else Ok () s)"
  by (simp add: free_table_def kbind_def rd32_def pte_flag_bits(1) Let_def kwhen_def)

lemma free_tables:
  assumes "alloc_inv L s qs" "d mod PGSIZE = 0" "distinct js" "\<forall>i < 1024. pde_word (kmem s) d i = pde_word m d i"
    and "\<forall>j \<in> set js. j < 1024 \<and> (bit (pde_word m d (of_nat j)) 0 \<longrightarrow> page_ok (kend s) (table_of m d (of_nat j))
          \<and> table_of m d (of_nat j) \<notin> set qs \<and> table_of m d (of_nat j) \<noteq> d)"
    and "inj_on (\<lambda>j. table_of m d (of_nat j)) {j \<in> set js. bit (pde_word m d (of_nat j)) 0}"
  shows "\<exists>t ps. kfor js (free_table d) s = Ok () t
    \<and> alloc_inv L t ps \<and> set ps = (\<lambda>j. table_of m d (of_nat j)) ` {j \<in> set js. bit (pde_word m d (of_nat j)) 0} \<union> set qs
    \<and> alloc_frame s t \<and> bytes_kept ((\<lambda>j. table_of m d (of_nat j)) ` {j \<in> set js. bit (pde_word m d (of_nat j)) 0}) (kmem s) (kmem t)"
  using assms
proof (induction js arbitrary: s qs)
  case Nil
  then show ?case by auto
next
  case (Cons j js)
  let ?T = "\<lambda>j. table_of m d (of_nat j)" let ?P = "\<lambda>j. bit (pde_word m d (of_nat j)) 0"
  have j: "(of_nat j :: u32) < 1024" using Cons.prems(5) by (simp add: word_less_nat_alt unat_of_nat_lt)
  have w: "ld32 (d + 4 * of_nat j) (kmem s) = pde_word m d (of_nat j)" using Cons.prems(4) j by (simp add: pde_word_def)
  show ?case
  proof (cases "?P j")
    case False
    have S: "{i \<in> set (j # js). ?P i} = {i \<in> set js. ?P i}" using False by auto
    show ?thesis
      unfolding S using Cons.IH [of s qs] Cons.prems False w unfolding S by (simp add: free_table_run [of d j s] kseq_def kbind_def)
  next
    case True
    have f: "page_ok (kend s) (?T j)" "?T j \<notin> set qs" "?T j \<noteq> d" using Cons.prems(5) True by auto
    obtain t where t: "kfree (?T j) s = Ok () t" "alloc_inv L t (?T j # qs)" "alloc_frame s t"
      "\<forall>b. b < unat (?T j) \<or> unat (?T j) + 4096 \<le> b \<longrightarrow> kmem t b = kmem s b"
      using kfree_in [OF Cons.prems(1) f(1,2)] by blast
    have k: "kend t = kend s" using t(3) by (simp add: alloc_frame_def)
    have "\<forall>i < 1024. pde_word (kmem t) d i = pde_word m d i"
      using other_words [OF _ t(4) Cons.prems(2)] f Cons.prems(4) by (simp add: pde_word_def page_ok_def)
    moreover have "?T i \<noteq> ?T j" if "i \<in> set js" "?P i" for i
      using inj_onD [OF Cons.prems(6), of i j] that True Cons.prems(3) by auto
    moreover have "inj_on ?T {i \<in> set js. ?P i}" by (rule inj_on_subset [OF Cons.prems(6)]) auto
    ultimately obtain u ps where u: "kfor js (free_table d) t = Ok () u"
      "alloc_inv L u ps" "set ps = ?T ` {i \<in> set js. ?P i} \<union> set (?T j # qs)" "alloc_frame t u"
      "bytes_kept (?T ` {i \<in> set js. ?P i}) (kmem t) (kmem u)"
      using Cons.IH [OF t(2) Cons.prems(2)] Cons.prems(3,5) k by auto
    have I: "{i \<in> set (j # js). ?P i} = insert j {i \<in> set js. ?P i}" using True by auto
    have "bytes_kept {?T j} (kmem s) (kmem t)" using t(4) by (simp add: bytes_kept_def)
    then have "bytes_kept (?T ` {i \<in> set (j # js). ?P i}) (kmem s) (kmem u)"
      unfolding I by (rule bytes_kept_trans [OF _ u(5)]) simp
    moreover from I have "set ps = ?T ` {i \<in> set (j # js). ?P i} \<union> set qs" using u(3) by simp
    moreover have "alloc_frame s u" using t(3) u(4) by (rule alloc_frame_trans)
    moreover have "P2V (PTE_ADDR (pde_word m d (of_nat j))) = ?T j" by (simp add: table_of_def)
    ultimately show ?thesis
      using u(1,2) t(1) w True by (intro exI [of _ u] exI [of _ ps]) (simp add: free_table_run [of d j s] kseq_def kbind_def Let_def)
  qed
qed

lemma of_nat_range: "(of_nat :: nat \<Rightarrow> u32) ` {..<1024} = {i. i < 1024}"
proof (intro set_eqI iffI)
  fix i :: u32 assume "i \<in> {i. i < 1024}"
  then have "unat i < 1024" "of_nat (unat i) = i" by (simp_all add: word_less_nat_alt)
  then show "i \<in> of_nat ` {..<1024}" by (metis image_eqI lessThan_iff)
qed (auto simp: word_less_nat_alt unat_of_nat_lt)

lemma tables_apart:
  assumes "pt_ok m d F"
  shows "d \<notin> F" "d \<notin> tables m d" "tables m d \<inter> F = {}"
  using assms by (auto simp: pt_ok_def tables_def pde_set_def)

text \<open>The tables by the index of their directory entry.\<close>

lemma dir_tables:
  fixes m d
  defines "J \<equiv> {j \<in> set [0..<NPDENTRIES]. bit (pde_word m d (of_nat j)) 0}"
  assumes "pt_ok m d F"
  shows "(\<lambda>j. table_of m d (of_nat j)) ` J = tables m d" "inj_on (\<lambda>j. table_of m d (of_nat j)) J"
proof -
  have J: "of_nat ` J = pde_set m d"
  proof -
    have "of_nat ` J = of_nat ` {..<1024} \<inter> {i :: u32. bit (pde_word m d i) 0}" by (auto simp: J_def NPDENTRIES_def)
    then show ?thesis unfolding of_nat_range by (auto simp: pde_set_def)
  qed
  then show "(\<lambda>j. table_of m d (of_nat j)) ` J = tables m d" unfolding tables_def by (metis image_image)
  show "inj_on (\<lambda>j. table_of m d (of_nat j)) J"
  proof (rule inj_onI)
    fix i j assume ij: "i \<in> J" "j \<in> J" "table_of m d (of_nat i) = table_of m d (of_nat j)"
    then have "(of_nat i :: u32) \<in> pde_set m d" "(of_nat j :: u32) \<in> pde_set m d" unfolding J [symmetric] by blast+
    then have "(of_nat i :: u32) = of_nat j" using assms(2) ij(3) unfolding pt_ok_def pde_set_def by blast
    moreover have "i < 2 ^ 32" "j < 2 ^ 32" using ij(1,2) by (simp_all add: J_def NPDENTRIES_def)
    ultimately show "i = j" by (metis unat_of_nat_lt)
  qed
qed

lemma to_free_all: "to_free (PGROUNDUP 0) KERNBASE = {v. v < KERNBASE}"
proof -
  have z: "PGROUNDUP 0 = 0" by (simp add: word_unat_eq_iff PGROUNDUP_unat)
  have "PGROUNDDOWN v < KERNBASE \<longleftrightarrow> v < KERNBASE" for v
  proof -
    have "unat v div 4096 * 4096 < 524288 * 4096 \<longleftrightarrow> unat v < 524288 * 4096"
      by (simp add: div_less_iff_less_mult)
    then show ?thesis by (simp add: word_less_nat_alt PGROUNDDOWN_unat KERNBASE_def)
  qed
  then show ?thesis by (simp add: to_free_def z)
qed

lemma freevm_in:
  assumes "alloc_inv L s qs" and "pt_ok (kmem s) d (set qs)" and "owned (kmem s) d (set qs) (kend s) {v. v < KERNBASE}"
    and "\<forall>p \<in> insert d (tables (kmem s) d). page_ok (kend s) p" and "KERNBASE < kend s"
  shows "\<exists>t ps. freevm d s = Ok () t \<and> alloc_inv L t ps \<and> alloc_frame s t
    \<and> set ps = set qs \<union> insert d (tables (kmem s) d) \<union> frames (kmem s) d {v. v < KERNBASE}
    \<and> bytes_kept (insert d (tables (kmem s) d \<union> frames (kmem s) d {v. v < KERNBASE})) (kmem s) (kmem t)"
proof -
  let ?U = "{v. v < KERNBASE}" let ?m = "kmem s" let ?T = "\<lambda>j. table_of ?m d (of_nat j)"
  let ?J = "{j \<in> set [0..<NPDENTRIES]. bit (pde_word ?m d (of_nat j)) 0}"
  have d: "d mod PGSIZE = 0" "d \<noteq> 0" "d \<notin> set qs" using assms(2,4) by (auto simp: pt_ok_def page_ok_def)
  have own: "owned ?m d (set qs) (kend s) (to_free (PGROUNDUP 0) KERNBASE)" using assms(3) to_free_all by simp
  have "(0 :: u32) < KERNBASE" by (simp add: KERNBASE_def)
  then obtain t ps where t: "deallocuvm d KERNBASE 0 s = Ok 0 t" "freed L s qs t ps d ?U"
    using deallocuvm_in [OF assms(1,2) own order_refl assms(5)] to_free_all by auto
  note F = t(2) [unfolded freed_def]
  have k: "kend t = kend s" using F by (simp add: alloc_frame_def)
  note J = dir_tables [OF assms(2)]
  have dist: "insert d (tables ?m d) \<inter> (frames ?m d ?U \<union> set qs) = {}" "d \<notin> tables ?m d"
    using tables_apart [OF assms(2)] assms(3) by (auto simp: owned_def)
  have B: "\<forall>j \<in> set [0..<NPDENTRIES]. j < 1024 \<and> (bit (pde_word ?m d (of_nat j)) 0 \<longrightarrow> page_ok (kend t) (?T j)
      \<and> ?T j \<notin> set ps \<and> ?T j \<noteq> d)"
  proof (intro ballI conjI impI)
    fix j assume j: "j \<in> set [0..<NPDENTRIES]" 
    then show "j < 1024" by (simp add: NPDENTRIES_def)
    assume "bit (pde_word ?m d (of_nat j)) 0"
    then have "?T j \<in> tables ?m d" using j J(1) by blast
    then show "page_ok (kend t) (?T j)" "?T j \<notin> set ps" "?T j \<noteq> d" using assms(4) k F dist by auto
  qed
  obtain u rs where u: "kfor [0..<NPDENTRIES] (free_table d) t = Ok () u" "alloc_inv L u rs"
    "set rs = tables ?m d \<union> set ps" "alloc_frame t u" "bytes_kept (tables ?m d) (kmem t) (kmem u)"
    using free_tables [OF _ d(1) distinct_upt _ B J(2)] F unfolding J(1) by blast
  have "page_ok (kend u) d" "d \<notin> set rs" using assms(4) k u(3,4) F dist d(3) by (auto simp: alloc_frame_def)
  then obtain w where w: "kfree d u = Ok () w" "alloc_inv L w (d # rs)" "alloc_frame u w"
    "\<forall>b. b < unat d \<or> unat d + 4096 \<le> b \<longrightarrow> kmem w b = kmem u b" using kfree_in [OF u(2)] by blast
  have "bytes_kept {d} (kmem u) (kmem w)" using w(4) by (simp add: bytes_kept_def)
  then have b2: "bytes_kept (insert d (tables ?m d)) (kmem t) (kmem w)" by (rule bytes_kept_trans [OF u(5)]) simp
  have "bytes_kept (frames ?m d ?U \<union> tables ?m d) ?m (kmem t)" using F by blast
  then have "bytes_kept (insert d (tables ?m d \<union> frames ?m d ?U)) ?m (kmem w)"
    by (rule bytes_kept_trans [OF _ b2]) auto
  moreover have "freevm d s = Ok () w"
    using t(1) u(1) w(1) d(2) by (simp add: freevm_def free_table_def [symmetric] kseq_def kbind_def)
  moreover have "alloc_frame s w" using F u(4) w(3) by (meson alloc_frame_trans)
  ultimately show ?thesis using w(2) u(3) F by (intro exI [of _ w] exI [of _ "d # rs"]) auto
qed

text \<open>
  C35. \<open>freevm\<close> gives back all an address space holds, each page once: for a well-formed page table
  whose directory, tables and user frames are different pages of the allocator, none of them free,
  \<open>freevm\<close> returns, and afterwards the free list holds what it held before, the directory, every
  page table and every frame a user address translates to, without duplicates (\<open>alloc_inv\<close>).  It
  neither panics (a double or a bad free would) nor leaks a page.
\<close>

theorem freevm_frees_all:
  assumes "alloc_inv L s qs" and "pt_ok (kmem s) d (set qs)" and "owned (kmem s) d (set qs) (kend s) {v. v < KERNBASE}"
    and "\<forall>p \<in> insert d (tables (kmem s) d). page_ok (kend s) p" and "KERNBASE < kend s"
  shows "\<exists>t ps. freevm d s = Ok () t \<and> alloc_inv L t ps \<and> alloc_frame s t
    \<and> set ps = set qs \<union> insert d (tables (kmem s) d) \<union> frames (kmem s) d {v. v < KERNBASE}"
  using freevm_in [OF assms] by blast

text \<open>The address space with the user pages 0 and 1.\<close>

lemma demo_pte:
  "j < 1024 \<Longrightarrow> ld32 (0x80401000 + 4 * j) demo_user_mem = (if j = 0 then 0x402007 else if j = 1 then 0x403007 else 0)"
proof -
  assume j: "j < 1024"
  have m: "demo_user_mem = st32 (0x80400000 + 4 * 0) 0x401007 (st32 (0x80401000 + 4 * 0) 0x402007 (st32 (0x80401000 + 4 * 1) 0x403007 (\<lambda>_. 0)))"
    by (simp add: demo_user_mem_def)
  show ?thesis
    unfolding m
    using j entry_store [where p = "0x80401000" and q = "0x80400000" and i = j and j = 0] entry_store [where p = "0x80401000" and q = "0x80401000" and i = j and j = 0] entry_store [where p = "0x80401000" and q = "0x80401000" and i = j and j = 1]
    by (simp add: PGSIZE_def ld32_zero)
qed

lemma demo_dir: "pde_set demo_user_mem 0x80400000 = {0}" "tables demo_user_mem 0x80400000 = {0x80401000}"
proof -
  have "bit (0x401007 :: u32) 0" by simp
  then show "pde_set demo_user_mem 0x80400000 = {0}" by (auto simp: pde_set_def demo_pde split: if_splits)
  then show "tables demo_user_mem 0x80400000 = {0x80401000}"
    by (simp add: tables_def table_of_def demo_pde PTE_ADDR_def P2V_def KERNBASE_def)
qed

lemma demo_mapped:
  "mmu_addr demo_user_mem 0x80400000 PTE_P v \<noteq> None \<longleftrightarrow> PDX v = 0 \<and> (PTX v = 0 \<or> PTX v = 1)"
  "PDX v = 0 \<Longrightarrow> PTX v = 0 \<Longrightarrow> frame_at demo_user_mem 0x80400000 v = 0x80402000"
  "PDX v = 0 \<Longrightarrow> PTX v = 1 \<Longrightarrow> frame_at demo_user_mem 0x80400000 v = 0x80403000"
  by (auto simp: mmu_addr_tables frame_at_def pte_at_table table_of_def demo_pde demo_pte demo_walk PDX_less PTX_less PTE_P_def PTE_ADDR_def
      P2V_def KERNBASE_def Let_def split: if_splits)

lemma demo_frames: "frames demo_user_mem 0x80400000 {v. v < KERNBASE} = {0x80402000, 0x80403000}"
proof (intro set_eqI iffI)
  fix p assume "p \<in> frames demo_user_mem 0x80400000 {v. v < KERNBASE}"
  then show "p \<in> {0x80402000, 0x80403000}" using demo_mapped by (auto simp: frames_def)
next
  fix p :: u32 assume p: "p \<in> {0x80402000, 0x80403000}"
  have "PDX 0 = 0" "PTX 0 = 0" "PDX 0x1000 = 0" "PTX 0x1000 = 1" by (simp_all add: PDX_def PTX_def)
  then have "(0 :: u32) \<in> {v \<in> {v. v < KERNBASE}. mmu_addr demo_user_mem 0x80400000 PTE_P v \<noteq> None}"
    "(0x1000 :: u32) \<in> {v \<in> {v. v < KERNBASE}. mmu_addr demo_user_mem 0x80400000 PTE_P v \<noteq> None}"
    "frame_at demo_user_mem 0x80400000 0 = 0x80402000" "frame_at demo_user_mem 0x80400000 0x1000 = 0x80403000"
    unfolding mem_Collect_eq demo_mapped(1) by (simp_all add: KERNBASE_def demo_mapped)
  then show "p \<in> frames demo_user_mem 0x80400000 {v. v < KERNBASE}" unfolding frames_def using p by (metis (no_types, lifting) image_eqI insertE singletonD)
qed

lemma demo_owned: "owned demo_user_mem 0x80400000 {0x80404000} 0x80115000 {v. v < KERNBASE}"
  unfolding owned_def demo_frames demo_mapped(1)
proof (intro conjI ballI impI)
  fix u v assume "PDX u = 0 \<and> (PTX u = 0 \<or> PTX u = 1)" "PDX v = 0 \<and> (PTX v = 0 \<or> PTX v = 1)"
    "frame_at demo_user_mem 0x80400000 u = frame_at demo_user_mem 0x80400000 v"
  then show "PGROUNDDOWN u = PGROUNDDOWN v" unfolding same_page_iff by (elim conjE disjE) (simp_all add: demo_mapped)
qed (auto simp: demo_dir page_ok_def PGSIZE_def V2P_def KERNBASE_def PHYSTOP_def)

theorem freevm_frees_all_witness:
  "\<exists>t ps. freevm 0x80400000 demo_free_st = Ok () t \<and> alloc_inv {} t ps
    \<and> set ps = {0x80400000, 0x80401000, 0x80402000, 0x80403000, 0x80404000}"
proof -
  have m: "kmem demo_free_st = demo_user_mem" "kend demo_free_st = 0x80115000"
    by (simp_all add: demo_free_st_def demo_mem_st_def con_st.defs mem_st.defs)
  have "\<exists>t ps. freevm 0x80400000 demo_free_st = Ok () t \<and> alloc_inv {} t ps \<and> alloc_frame demo_free_st t
    \<and> set ps = set [0x80404000] \<union> insert 0x80400000 (tables (kmem demo_free_st) 0x80400000)
        \<union> frames (kmem demo_free_st) 0x80400000 {v. v < KERNBASE}"
    by (rule freevm_frees_all)
      (use demo_free_inv demo_pt_ok demo_owned in \<open>simp_all add: m demo_dir page_ok_def PGSIZE_def V2P_def KERNBASE_def PHYSTOP_def\<close>)
  moreover have "set [0x80404000] \<union> insert 0x80400000 {0x80401000} \<union> {0x80402000, 0x80403000}
    = {0x80400000, 0x80401000, 0x80402000, 0x80403000, 0x80404000 :: u32}" by auto
  ultimately show ?thesis unfolding m demo_dir demo_frames by auto
qed

end
