(* ===== verification/Setupkvm.thy ===== *)
theory Setupkvm
  imports Freevm
begin

text \<open>
  The kernel's half of an address space (\<open>setupkvm\<close> over \<open>kmap\<close>): what the four mappings amount to,
  the pages they take, and what happens when there are too few.
\<close>

section \<open>The kernel's mappings\<close>

text \<open>The loop of \<open>setupkvm\<close> over its table, one entry at a time.\<close>

definition map_entry :: "u32 \<Rightarrow> kmap \<Rightarrow> (u32 option, 'x mem_st_scheme) kern" where
  "map_entry d k = kbind (mappages d (km_virt k) (km_end k - km_start k) (km_start k) (km_perm k)) (\<lambda>r.
     if r < 0 then kseq (freevm d) (kret (Some 0)) else kret None)"

definition kspan :: "kmap \<Rightarrow> u32 set" where "kspan k = spanned (km_virt k) (km_end k - km_start k)"

definition kmap_ok :: "kmap \<Rightarrow> bool" where
  "kmap_ok k \<longleftrightarrow> km_virt k mod PGSIZE = 0 \<and> km_start k mod PGSIZE = 0 \<and> km_perm k < 4096 \<and> km_start k \<noteq> km_end k
     \<and> unat (km_virt k) + unat (km_end k - km_start k) \<le> 2 ^ 32"

fun kmap_addr :: "kmap list \<Rightarrow> u32 \<Rightarrow> u32 \<Rightarrow> u32 option" where
  "kmap_addr [] need v = None"
| "kmap_addr (k # ks) need v =
     (if v \<in> kspan k then linear (km_virt k) (km_start k) (km_perm k) need v else kmap_addr ks need v)"

definition kspans :: "kmap list \<Rightarrow> u32 set" where "kspans ks = (\<Union>k \<in> set ks. kspan k)"

fun kdisjoint :: "kmap list \<Rightarrow> bool" where
  "kdisjoint [] \<longleftrightarrow> True"
| "kdisjoint (k # ks) \<longleftrightarrow> kspan k \<inter> kspans ks = {} \<and> kdisjoint ks"

lemma kspans_simps [simp]: "kspans [] = {}" "kspans (k # ks) = kspan k \<union> kspans ks"
  by (simp_all add: kspans_def)

text \<open>The pages a table of mappings needs, and what is there when it has been run.\<close>

definition all_mapped :: "lockid set \<Rightarrow> 'x mem_st_scheme \<Rightarrow> u32 list \<Rightarrow> 'x mem_st_scheme \<Rightarrow> u32 list \<Rightarrow> u32 \<Rightarrow> kmap list \<Rightarrow> bool" where
  "all_mapped L s ps t qs d ks \<longleftrightarrow>
     alloc_inv L t qs \<and> pt_ok (kmem t) d (set qs) \<and> alloc_frame s t
     \<and> length qs + card (PDX ` kspans ks - pde_set (kmem s) d) = length ps
     \<and> tables (kmem t) d \<union> set qs = tables (kmem s) d \<union> set ps
     \<and> bytes_kept (insert d (tables (kmem s) d \<union> set ps)) (kmem s) (kmem t)
     \<and> (\<forall>need v. access need \<longrightarrow> mmu_addr (kmem t) d need v
           = (if v \<in> kspans ks then kmap_addr ks need v else mmu_addr (kmem s) d need v))"

definition none_left :: "lockid set \<Rightarrow> 'x mem_st_scheme \<Rightarrow> u32 list \<Rightarrow> 'x mem_st_scheme \<Rightarrow> u32 \<Rightarrow> kmap list \<Rightarrow> bool" where
  "none_left L s ps t d ks \<longleftrightarrow>
     alloc_inv L t [] \<and> pt_ok (kmem t) d {} \<and> alloc_frame s t
     \<and> pde_set (kmem t) d \<subseteq> pde_set (kmem s) d \<union> PDX ` kspans ks
     \<and> tables (kmem t) d = tables (kmem s) d \<union> set ps
     \<and> bytes_kept (insert d (tables (kmem s) d \<union> set ps)) (kmem s) (kmem t)"

lemma needed_split:
  fixes A B P :: "u32 set"
  shows "card (A \<union> B - P) = card (A - P) + card (B - (P \<union> A))"
proof -
  have "A \<union> B - P = (A - P) \<union> (B - (P \<union> A))" by auto
  moreover have "(A - P) \<inter> (B - (P \<union> A)) = {}" by auto
  ultimately show ?thesis by (simp add: card_Un_disjoint)
qed

lemma kmap_run:
  assumes "alloc_inv L s ps" "pt_ok (kmem s) d (set ps)" "kmap_ok k" "\<forall>v \<in> kspan k. mmu_addr (kmem s) d PTE_P v = None"
  shows "if card (PDX ` kspan k - pde_set (kmem s) d) \<le> length ps
    then \<exists>t qs. map_entry d k s = Ok None t \<and> mapped L s ps t qs d (kspan k) (km_virt k) (km_start k) (km_perm k)
    else \<exists>t. map_entry d k s = kseq (freevm d) (kret (Some 0)) t \<and> unmapped_out L s ps t d (kspan k)"
proof -
  let ?sz = "km_end k - km_start k"
  have k: "0 < ?sz" "PGROUNDDOWN (km_virt k) = km_virt k" using assms(3) page_last [of "km_virt k"]
    by (auto simp: kmap_ok_def word_gt_0)
  have "if card (PDX ` kspan k - pde_set (kmem s) d) \<le> length ps
    then \<exists>t qs. mappages d (km_virt k) ?sz (km_start k) (km_perm k) s = Ok 0 t \<and> mapped L s ps t qs d (kspan k) (km_virt k) (km_start k) (km_perm k)
    else \<exists>t. mappages d (km_virt k) ?sz (km_start k) (km_perm k) s = Ok (-1) t \<and> unmapped_out L s ps t d (kspan k)"
    using mappages_in [OF assms(1,2) k(1), of "km_virt k" "km_start k" "km_perm k", unfolded k(2)] assms(3,4)
    unfolding kspan_def kmap_ok_def by blast
  then show ?thesis by (cases "card (PDX ` kspan k - pde_set (kmem s) d) \<le> length ps") (auto simp: map_entry_def kbind_def)
qed

lemma all_mapped_Cons:
  assumes "mapped L s ps t qs d (kspan k) (km_virt k) (km_start k) (km_perm k)" "all_mapped L t qs u rs d ks" "kdisjoint (k # ks)"
  shows "all_mapped L s ps u rs d (k # ks)"
proof -
  note A = assms(1) [unfolded mapped_def] and B = assms(2) [unfolded all_mapped_def]
  have "card (PDX ` kspans (k # ks) - pde_set (kmem s) d) = card (PDX ` kspan k - pde_set (kmem s) d) + card (PDX ` kspans ks - pde_set (kmem t) d)"
    using needed_split [of "PDX ` kspan k" "PDX ` kspans ks" "pde_set (kmem s) d"] A by (simp add: image_Un)
  moreover have "alloc_frame s u" using A B alloc_frame_trans by blast
  moreover have "bytes_kept (insert d (tables (kmem s) d \<union> set ps)) (kmem s) (kmem u)"
    using A B bytes_kept_same [of "insert d (tables (kmem s) d \<union> set ps)" "kmem s" "kmem t" "kmem u"] by simp
  moreover have "mmu_addr (kmem u) d need v = (if v \<in> kspans (k # ks) then kmap_addr (k # ks) need v else mmu_addr (kmem s) d need v)"
    if "access need" for need v using A B assms(3) that by auto
  ultimately show ?thesis using A B unfolding all_mapped_def by simp
qed

lemma none_left_Cons:
  assumes "mapped L s ps t qs d (kspan k) (km_virt k) (km_start k) (km_perm k)" "none_left L t qs u d ks"
  shows "none_left L s ps u d (k # ks)"
  using assms alloc_frame_trans [of s t u] bytes_kept_same [of "insert d (tables (kmem s) d \<union> set ps)" "kmem s" "kmem t" "kmem u"]
  by (auto simp: mapped_def none_left_def image_Un)

lemma map_entries:
  assumes "alloc_inv L s ps" "pt_ok (kmem s) d (set ps)" "\<forall>k \<in> set ks. kmap_ok k" "kdisjoint ks"
    and "\<forall>v \<in> kspans ks. mmu_addr (kmem s) d PTE_P v = None"
  shows "if card (PDX ` kspans ks - pde_set (kmem s) d) \<le> length ps
    then \<exists>t qs. kloop ks (map_entry d) s = Ok None t \<and> all_mapped L s ps t qs d ks
    else \<exists>t. kloop ks (map_entry d) s = kseq (freevm d) (kret (Some 0)) t \<and> none_left L s ps t d ks"
  using assms
proof (induction ks arbitrary: s ps)
  case Nil
  then show ?case by (auto simp: all_mapped_def)
next
  case (Cons k ks)
  let ?P = "pde_set (kmem s) d"
  have k: "kmap_ok k" "\<forall>v \<in> kspan k. mmu_addr (kmem s) d PTE_P v = None" using Cons.prems by auto
  note K = kmap_run [OF Cons.prems(1,2) k]
  show ?case
  proof (cases "card (PDX ` kspan k - ?P) \<le> length ps")
    case True
    then obtain t qs where t: "map_entry d k s = Ok None t" "mapped L s ps t qs d (kspan k) (km_virt k) (km_start k) (km_perm k)"
      using K by auto
    note A = t(2) [unfolded mapped_def]
    have un: "\<forall>v \<in> kspans ks. mmu_addr (kmem t) d PTE_P v = None"
      using A Cons.prems(4,5) access_P by auto
    have c: "card (PDX ` kspans (k # ks) - ?P) \<le> length ps \<longleftrightarrow> card (PDX ` kspans ks - pde_set (kmem t) d) \<le> length qs"
      using needed_split [of "PDX ` kspan k" "PDX ` kspans ks" ?P] A by (simp add: image_Un) linarith
    have run: "kloop (k # ks) (map_entry d) s = kloop ks (map_entry d) t" using t(1) by (simp add: kbind_def)
    have I: "alloc_inv L t qs" "pt_ok (kmem t) d (set qs)" "\<forall>k \<in> set ks. kmap_ok k" "kdisjoint ks"
      using A Cons.prems(3,4) by auto
    note IH = Cons.IH [OF I un]
    show ?thesis
    proof (cases "card (PDX ` kspans ks - pde_set (kmem t) d) \<le> length qs")
      case True
      then obtain u rs where "kloop ks (map_entry d) t = Ok None u" "all_mapped L t qs u rs d ks" using IH by auto
      with all_mapped_Cons [OF t(2) _ Cons.prems(4)] c True run show ?thesis by auto
    next
      case False
      then obtain u where "kloop ks (map_entry d) t = kseq (freevm d) (kret (Some 0)) u" "none_left L t qs u d ks" using IH by auto
      with none_left_Cons [OF t(2)] c False run show ?thesis by auto
    qed
  next
    case False
    then obtain t where t: "map_entry d k s = kseq (freevm d) (kret (Some 0)) t" "unmapped_out L s ps t d (kspan k)"
      using K by auto
    have "\<not> card (PDX ` kspans (k # ks) - ?P) \<le> length ps"
      using False needed_split [of "PDX ` kspan k" "PDX ` kspans ks" ?P] by (simp add: image_Un)
    moreover have "kloop (k # ks) (map_entry d) s = kseq (freevm d) (kret (Some 0)) t"
      using t(1) by (auto simp: kbind_def kseq_def split: res.splits)
    moreover have "none_left L s ps t d (k # ks)" using t(2) by (auto simp: unmapped_out_def none_left_def)
    ultimately show ?thesis by auto
  qed
qed

text \<open>A new, empty directory.\<close>

lemma new_dir:
  assumes "alloc_inv L s (d # ps)"
  shows "\<exists>t. kalloc s = Ok d t \<and> (let u = t\<lparr>kmem := memset (unat d) 0 4096 (kmem t)\<rparr> in
    alloc_inv L u ps \<and> pt_ok (kmem u) d (set ps) \<and> alloc_frame s u \<and> pde_set (kmem u) d = {} \<and> tables (kmem u) d = {}
    \<and> bytes_kept {d} (kmem s) (kmem u)
    \<and> (\<forall>need v. access need \<longrightarrow> mmu_addr (kmem u) d need v = None))"
proof -
  obtain t where t: "kalloc s = Ok d t" "alloc_inv L t ps" "alloc_frame s t" "kmem t = kmem s" using kalloc_in [OF assms] by auto
  have d: "d mod PGSIZE = 0" "d \<notin> set ps" using alloc_inv_page [OF assms] assms by (auto simp: alloc_inv_def)
  let ?m = "memset (unat d) 0 4096 (kmem t)"
  have z: "i < 1024 \<Longrightarrow> pde_word ?m d i = 0" for i using ld32_memset0 [OF d(1)] by (simp add: pde_word_def)
  then have p: "pde_set ?m d = {}" by (auto simp: pde_set_def)
  moreover have "pt_ok ?m d (set ps)" using d z by (auto simp: pt_ok_def)
  moreover have "mmu_addr ?m d need v = None" if "access need" for need v
    using that z [OF PDX_less] by (auto simp: mmu_addr_tables access_def PTE_P_def Let_def)
  moreover have "tables ?m d = {}" using p by (simp add: tables_def)
  moreover have "bytes_kept {d} (kmem s) ?m" using t(4) by (simp add: bytes_kept_memset)
  ultimately show ?thesis using t alloc_inv_memset [OF t(2) d] by (auto simp: Let_def)
qed

text \<open>The spans of the four entries.\<close>

definition kernel_layout :: "u32 \<Rightarrow> bool" where
  "kernel_layout data \<longleftrightarrow> data mod PGSIZE = 0 \<and> KERNLINK < data \<and> data < P2V PHYSTOP"

lemma layout_unat:
  assumes "kernel_layout data"
  shows "0x80100000 < unat data" "unat data < 0x8E000000" "unat data mod 4096 = 0"
    "unat (V2P data) = unat data - 0x80000000" "unat (V2P data - V2P KERNLINK) = unat data - 0x80100000"
    "unat (PHYSTOP - V2P data) = 0x8E000000 - unat data"
proof -
  have le: "KERNBASE \<le> data" "KERNLINK \<le> data" and lt: "0x80100000 < unat data" "unat data < 0x8E000000"
    using assms by (simp_all add: kernel_layout_def KERNLINK_def KERNBASE_def EXTMEM_def P2V_def PHYSTOP_def word_less_nat_alt word_le_nat_alt)
  show "0x80100000 < unat data" "unat data < 0x8E000000" by (rule lt)+
  show "unat data mod 4096 = 0" using assms by (simp add: kernel_layout_def PGSIZE_def word_unat_eq_iff unat_mod)
  show v: "unat (V2P data) = unat data - 0x80000000" using le(1) by (simp add: V2P_def unat_sub) (simp add: KERNBASE_def)
  have "V2P data - V2P KERNLINK = data - KERNLINK" by (simp add: V2P_def)
  then show "unat (V2P data - V2P KERNLINK) = unat data - 0x80100000"
    using le(2) by (simp add: unat_sub) (simp add: KERNLINK_def KERNBASE_def EXTMEM_def)
  have "V2P data \<le> PHYSTOP" using v lt by (simp add: word_le_nat_alt PHYSTOP_def)
  then show "unat (PHYSTOP - V2P data) = 0x8E000000 - unat data" using v lt by (simp add: unat_sub) (simp add: PHYSTOP_def)
qed

lemma kmap_table_ok:
  assumes "kernel_layout data"
  shows "\<forall>k \<in> set (kmap_table data). kmap_ok k \<and> unat (km_end k - km_start k) mod 4096 = 0"
proof -
  note L = layout_unat [OF assms]
  have m: "V2P data mod PGSIZE = 0" using assms V2P_page by (simp add: kernel_layout_def)
  have n: "V2P data \<noteq> V2P KERNLINK" "V2P data \<noteq> PHYSTOP" using L(1,2,4)
    by (simp_all add: word_unat_eq_iff) (simp_all add: KERNLINK_def KERNBASE_def EXTMEM_def PHYSTOP_def V2P_def)
  obtain k where k: "unat data = 4096 * k" using L(3) by (auto simp: mod_eq_0_iff_dvd elim: dvdE)
  have "unat data - 0x80100000 = 4096 * (k - 524544)" "0x8E000000 - unat data = 4096 * (581632 - k)"
    by (simp_all add: k diff_mult_distrib2)
  then have "(unat data - 0x80100000) mod 4096 = 0" "(0x8E000000 - unat data) mod 4096 = 0" by simp_all
  then show ?thesis
    using assms L m n
    by (simp add: kmap_table_def kmap_ok_def kernel_layout_def)
       (simp add: KERNLINK_def KERNBASE_def EXTMEM_def PHYSTOP_def DEVSPACE_def V2P_def PTE_W_def PGSIZE_def)
qed

lemma kspan_unat:
  assumes "kmap_ok k" "unat (km_end k - km_start k) mod 4096 = 0"
  shows "v \<in> kspan k \<longleftrightarrow> unat (km_virt k) \<le> unat v \<and> unat v < unat (km_virt k) + unat (km_end k - km_start k)"
  unfolding kspan_def by (rule spanned_unat) (use assms in \<open>auto simp: kmap_ok_def word_gt_0\<close>)

lemma kernel_spans:
  assumes "kernel_layout data"
  shows "v \<in> kspan \<lparr>km_virt = KERNBASE, km_start = 0, km_end = EXTMEM, km_perm = PTE_W\<rparr> \<longleftrightarrow> 0x80000000 \<le> unat v \<and> unat v < 0x80100000"
    "v \<in> kspan \<lparr>km_virt = KERNLINK, km_start = V2P KERNLINK, km_end = V2P data, km_perm = 0\<rparr> \<longleftrightarrow> 0x80100000 \<le> unat v \<and> unat v < unat data"
    "v \<in> kspan \<lparr>km_virt = data, km_start = V2P data, km_end = PHYSTOP, km_perm = PTE_W\<rparr> \<longleftrightarrow> unat data \<le> unat v \<and> unat v < 0x8E000000"
    "v \<in> kspan \<lparr>km_virt = DEVSPACE, km_start = DEVSPACE, km_end = 0, km_perm = PTE_W\<rparr> \<longleftrightarrow> 0xFE000000 \<le> unat v"
proof -
  note K = kmap_table_ok [OF assms, unfolded kmap_table_def, simplified] and L = layout_unat [OF assms]
  have top: "unat v < 0x100000000" using unsigned_less [of v] by simp
  have ks: "unat KERNLINK = 0x80100000" "unat KERNBASE = 0x80000000" "unat DEVSPACE = 0xFE000000" "unat EXTMEM = 0x100000"
    "unat (- DEVSPACE) = 0x2000000"
    by (simp_all add: KERNLINK_def KERNBASE_def EXTMEM_def DEVSPACE_def)
  show "v \<in> kspan \<lparr>km_virt = KERNBASE, km_start = 0, km_end = EXTMEM, km_perm = PTE_W\<rparr> \<longleftrightarrow> 0x80000000 \<le> unat v \<and> unat v < 0x80100000"
    using K by (subst kspan_unat) (simp_all add: ks)
  show "v \<in> kspan \<lparr>km_virt = KERNLINK, km_start = V2P KERNLINK, km_end = V2P data, km_perm = 0\<rparr> \<longleftrightarrow> 0x80100000 \<le> unat v \<and> unat v < unat data"
    using K L by (subst kspan_unat) (simp_all add: ks)
  show "v \<in> kspan \<lparr>km_virt = data, km_start = V2P data, km_end = PHYSTOP, km_perm = PTE_W\<rparr> \<longleftrightarrow> unat data \<le> unat v \<and> unat v < 0x8E000000"
    using K L by (subst kspan_unat) (simp_all add: ks)
  show "v \<in> kspan \<lparr>km_virt = DEVSPACE, km_start = DEVSPACE, km_end = 0, km_perm = PTE_W\<rparr> \<longleftrightarrow> 0xFE000000 \<le> unat v"
    using K top by (subst kspan_unat) (simp_all add: ks)
qed

lemma kernel_kspans:
  assumes "kernel_layout data"
  shows "v \<in> kspans (kmap_table data) \<longleftrightarrow> 0x80000000 \<le> unat v \<and> unat v < 0x8E000000 \<or> 0xFE000000 \<le> unat v"
    "kdisjoint (kmap_table data)"
  using layout_unat(1,2) [OF assms] by (auto simp: kmap_table_def kernel_spans [OF assms] disjoint_iff)

lemma PDX_image:
  assumes "b \<le> 1024"
  shows "unat ` PDX ` {v. a * 4194304 \<le> unat v \<and> unat v < b * 4194304} = {a..<b}"
proof (intro set_eqI iffI)
  fix i assume "i \<in> unat ` PDX ` {v. a * 4194304 \<le> unat v \<and> unat v < b * 4194304}"
  then obtain v :: u32 where "i = unat (PDX v)" "a * 4194304 \<le> unat v" "unat v < b * 4194304" by blast
  then show "i \<in> {a..<b}" by (simp add: PDX_unat div_less_iff_less_mult less_eq_div_iff_mult_less_eq)
next
  fix i assume i: "i \<in> {a..<b}"
  then have "i * 4194304 \<le> 1023 * 4194304" using assms by (intro mult_le_mono1) simp
  then have n: "unat (of_nat (i * 4194304) :: u32) = i * 4194304" by (intro unat_of_nat_lt) simp
  define v where "v = (of_nat (i * 4194304) :: u32)"
  have v: "unat v = i * 4194304" unfolding v_def by (rule n)
  have "v \<in> {v. a * 4194304 \<le> unat v \<and> unat v < b * 4194304}" using i by (simp add: v)
  moreover have "unat (PDX v) = i" by (simp add: PDX_unat v)
  ultimately show "i \<in> unat ` PDX ` {v. a * 4194304 \<le> unat v \<and> unat v < b * 4194304}" by blast
qed

text \<open>56 page tables for the kernel's memory and 8 for the devices.\<close>

lemma kernel_tables:
  assumes "kernel_layout data"
  shows "unat ` PDX ` kspans (kmap_table data) = {512..<568} \<union> {1016..<1024}" "card (PDX ` kspans (kmap_table data)) = 64"
proof -
  have top: "unat v < 4294967296" for v :: u32 using unsigned_less [of v] by simp
  have "kspans (kmap_table data) = {v. 512 * 4194304 \<le> unat v \<and> unat v < 568 * 4194304}
      \<union> {v. 1016 * 4194304 \<le> unat v \<and> unat v < 1024 * 4194304}"
    using kernel_kspans(1) [OF assms] top by auto
  then show I: "unat ` PDX ` kspans (kmap_table data) = {512..<568} \<union> {1016..<1024}"
    using PDX_image [of 568 512] PDX_image [of 1024 1016] by (simp only: image_Un)
  have "card (unat ` PDX ` kspans (kmap_table data)) = card (PDX ` kspans (kmap_table data))"
    by (rule card_image) (simp add: inj_on_def word_unat_eq_iff)
  then show "card (PDX ` kspans (kmap_table data)) = 64" unfolding I by (simp add: card_Un_disjoint)
qed

text \<open>What the kernel's half of every address space is: kernel addresses stand for themselves, the
  text and read-only data cannot be written, devices are where the bus has them, user mode has no
  access, and below \<open>KERNBASE\<close> there is nothing.\<close>

definition kernel_addr :: "u32 \<Rightarrow> u32 \<Rightarrow> u32 \<Rightarrow> u32 option" where
  "kernel_addr data need v =
     (if need AND PTE_U \<noteq> 0 then None
      else if KERNBASE \<le> v \<and> v < KERNLINK \<or> data \<le> v \<and> v < P2V PHYSTOP then Some v
      else if KERNLINK \<le> v \<and> v < data then if need AND PTE_W \<noteq> 0 then None else Some v
      else if DEVSPACE \<le> v then Some (P2V v)
      else None)"

lemma access_cases: "access need \<longleftrightarrow> need \<in> {1, 3, 5, 7}"
proof
  assume a: "access need"
  then have "need AND mask 3 = need"
    by (simp add: access_def PTE_PWU_def PTE_P_def PTE_W_def PTE_U_def mask_eq_exp_minus_1 and.commute)
  then have "unat (take_bit 3 need) = unat need" by (simp add: take_bit_eq_mask)
  then have "unat need mod 8 = unat need" by (simp add: unsigned_take_bit_eq take_bit_nat_def)
  then have "unat need < 8" by (metis mod_less_divisor zero_less_numeral)
  then have "unat need \<in> {0, 1, 2, 3, 4, 5, 6, 7}" by auto
  then have "need \<in> {0, 1, 2, 3, 4, 5, 6, 7}" by (auto simp: word_unat_eq_iff)
  then show "need \<in> {1, 3, 5, 7}" using a by (auto simp: access_def PTE_P_def)
qed (auto simp: access_def PTE_PWU_def PTE_P_def PTE_W_def PTE_U_def)

lemma kmap_kernel_addr:
  assumes "kernel_layout data" "access need"
  shows "(if v \<in> kspans (kmap_table data) then kmap_addr (kmap_table data) need v else None) = kernel_addr data need v"
proof -
  note L = layout_unat [OF assms(1)]
  have n: "KERNBASE \<le> v \<longleftrightarrow> 0x80000000 \<le> unat v" "v < KERNLINK \<longleftrightarrow> unat v < 0x80100000" "KERNLINK \<le> v \<longleftrightarrow> 0x80100000 \<le> unat v"
    "v < P2V PHYSTOP \<longleftrightarrow> unat v < 0x8E000000" "DEVSPACE \<le> v \<longleftrightarrow> 0xFE000000 \<le> unat v"
    by (simp_all add: word_le_nat_alt word_less_nat_alt KERNBASE_def KERNLINK_def EXTMEM_def P2V_def PHYSTOP_def DEVSPACE_def)
  have l: "linear KERNBASE 0 PTE_W need v = (if need AND PTE_U \<noteq> 0 then None else Some v)"
    "linear KERNLINK (V2P KERNLINK) 0 need v = (if need AND PTE_U \<noteq> 0 \<or> need AND PTE_W \<noteq> 0 then None else Some v)"
    "linear data (V2P data) PTE_W need v = (if need AND PTE_U \<noteq> 0 then None else Some v)"
    "linear DEVSPACE DEVSPACE PTE_W need v = (if need AND PTE_U \<noteq> 0 then None else Some (P2V v))"
    using assms(2) [unfolded access_cases] by (auto simp: linear_def PTE_W_def PTE_P_def PTE_U_def V2P_def P2V_def)
  have d: "data \<le> v \<longleftrightarrow> unat data \<le> unat v" "v < data \<longleftrightarrow> unat v < unat data" by (simp_all add: word_le_nat_alt word_less_nat_alt)
  show ?thesis
    using L(1,2) unfolding kernel_kspans(1) [OF assms(1)] kernel_addr_def n d
    by (simp add: kmap_table_def kernel_spans [OF assms(1)] l)
qed

section \<open>setupkvm\<close>

lemma setupkvm_steps:
  "setupkvm s = kbind kalloc (\<lambda>d. if d = 0 then kret 0 else
     kseq (upd_mem (memset (unat d) 0 4096)) (
     kbind (kget kdata) (\<lambda>data.
     kbind (kloop (kmap_table data) (map_entry d)) (\<lambda>r. case r of Some v \<Rightarrow> kret v | None \<Rightarrow> kret d)))) s"
proof -
  have "\<not> DEVSPACE < P2V PHYSTOP" by (simp add: DEVSPACE_def P2V_def PHYSTOP_def KERNBASE_def)
  note n = if_not_P [OF this]
  have z: "unat PGSIZE = 4096" by (simp add: PGSIZE_def)
  show ?thesis unfolding setupkvm_def map_entry_def [abs_def] n z ..
qed

text \<open>A page table with no user pages owns nothing below \<open>KERNBASE\<close>.\<close>

lemma kernel_only:
  assumes "pde_set m d \<subseteq> PDX ` kspans (kmap_table data)" "kernel_layout data"
  shows "frames m d {v. v < KERNBASE} = {}" "owned m d F e {v. v < KERNBASE}"
proof -
  have "mmu_addr m d PTE_P v = None" if "v < KERNBASE" for v
  proof (rule ccontr)
    assume "mmu_addr m d PTE_P v \<noteq> None"
    then have "PDX v \<in> pde_set m d" using mapped_dir PDX_less by (auto simp: pde_set_def)
    then have "unat (PDX v) \<in> {512..<568} \<union> {1016..<1024}" using assms(1) kernel_tables(1) [OF assms(2)] by blast
    moreover have "unat v div 4194304 < 512" using that by (simp add: word_less_nat_alt KERNBASE_def div_less_iff_less_mult)
    ultimately show False by (simp add: PDX_unat)
  qed
  then show "frames m d {v. v < KERNBASE} = {}" by (intro frames_none) simp
  then show "owned m d F e {v. v < KERNBASE}" using \<open>\<And>v. v < KERNBASE \<Longrightarrow> mmu_addr m d PTE_P v = None\<close> by (simp add: owned_def)
qed

text \<open>Building the kernel's half takes 65 pages; short of that, all that were taken are given back.\<close>

lemma setupkvm_in:
  assumes inv: "alloc_inv L s ps" and lay: "kernel_layout (kdata s)" and e: "KERNBASE < kend s"
  shows "if 65 \<le> length ps
    then \<exists>d t qs. setupkvm s = Ok d t \<and> d \<noteq> 0 \<and> alloc_inv L t qs \<and> pt_ok (kmem t) d (set qs) \<and> alloc_frame s t
      \<and> length qs + 65 = length ps \<and> insert d (tables (kmem t) d) \<union> set qs = set ps
      \<and> bytes_kept (set ps) (kmem s) (kmem t)
      \<and> (\<forall>need v. access need \<longrightarrow> mmu_addr (kmem t) d need v = kernel_addr (kdata s) need v)
    else \<exists>t qs. setupkvm s = Ok 0 t \<and> alloc_inv L t qs \<and> set qs = set ps \<and> alloc_frame s t
      \<and> bytes_kept (set ps) (kmem s) (kmem t)"
proof (cases ps)
  case Nil
  then obtain t where "kalloc s = Ok 0 t" "alloc_inv L t []" "alloc_frame s t" "kmem t = kmem s" using kalloc_in [OF inv] by auto
  then show ?thesis using Nil by (auto simp: setupkvm_steps kbind_def)
next
  case (Cons d rs)
  let ?ks = "kmap_table (kdata s)"
  obtain t0 where t0: "kalloc s = Ok d t0" and N: "let u = t0\<lparr>kmem := memset (unat d) 0 4096 (kmem t0)\<rparr> in
    alloc_inv L u rs \<and> pt_ok (kmem u) d (set rs) \<and> alloc_frame s u \<and> pde_set (kmem u) d = {} \<and> tables (kmem u) d = {} \<and> bytes_kept {d} (kmem s) (kmem u)
    \<and> (\<forall>need v. access need \<longrightarrow> mmu_addr (kmem u) d need v = None)"
    using new_dir [of L s d rs] inv Cons by blast
  define u where "u = t0\<lparr>kmem := memset (unat d) 0 4096 (kmem t0)\<rparr>"
  note U = N [folded u_def, unfolded Let_def]
  have d: "d \<noteq> 0" "page_ok (kend s) d" "d \<notin> set rs" using inv Cons by (auto simp: alloc_inv_def page_ok_def)
  have k: "kdata u = kdata s" "kend u = kend s" using U by (auto simp: alloc_frame_def)
  have run: "setupkvm s = kbind (kloop ?ks (map_entry d)) (\<lambda>r. case r of Some v \<Rightarrow> kret v | None \<Rightarrow> kret d) u"
    using t0 d(1) k(1) by (simp add: setupkvm_steps kbind_def kseq_def upd_mem_def u_def)
  have ok: "\<forall>k \<in> set ?ks. kmap_ok k" using kmap_table_ok [OF lay] by blast
  have un: "\<forall>v \<in> kspans ?ks. mmu_addr (kmem u) d PTE_P v = None" using U access_P by blast
  have c: "card (PDX ` kspans ?ks - pde_set (kmem u) d) = 64" using U kernel_tables(2) [OF lay] by simp
  note M = map_entries [OF _ _ ok kernel_kspans(2) [OF lay] un, of L rs, unfolded c]
  show ?thesis
  proof (cases "64 \<le> length rs")
    case True
    then obtain t qs where t: "kloop ?ks (map_entry d) u = Ok None t" "all_mapped L u rs t qs d ?ks" using M U by auto
    note A = t(2) [unfolded all_mapped_def c]
    have "mmu_addr (kmem t) d need v = kernel_addr (kdata s) need v" if "access need" for need v
      using A U that kmap_kernel_addr [OF lay that, of v] by (auto split: if_splits)
    moreover have "alloc_frame s t" using A U alloc_frame_trans by blast
    moreover have "insert d (tables (kmem t) d) \<union> set qs = set ps" using A U Cons by auto
    moreover have "bytes_kept (set ps) (kmem s) (kmem t)"
      using A U Cons bytes_kept_trans [of "{d}" "kmem s" "kmem u" "insert d (set rs)" "kmem t" "set ps"] by simp
    ultimately show ?thesis
      using A True Cons d(1) run t(1) by (intro if_P [THEN iffD2] exI [of _ d] exI [of _ t] exI [of _ qs]) (simp_all add: kbind_def)
  next
    case False
    then obtain t where t: "kloop ?ks (map_entry d) u = kseq (freevm d) (kret (Some 0)) t" "none_left L u rs t d ?ks" using M U by auto
    note A = t(2) [unfolded none_left_def]
    have T: "tables (kmem t) d = set rs" "pde_set (kmem t) d \<subseteq> PDX ` kspans ?ks" "kend t = kend s"
      using A U k(2) by (auto simp: alloc_frame_def)
    have pg: "\<forall>p \<in> insert d (tables (kmem t) d). page_ok (kend t) p" using inv Cons T(1,3) by (auto simp: alloc_inv_def)
    obtain w qs where w: "freevm d t = Ok () w" "alloc_inv L w qs" "alloc_frame t w"
      "set qs = set [] \<union> insert d (tables (kmem t) d) \<union> frames (kmem t) d {v. v < KERNBASE}"
      "bytes_kept (insert d (tables (kmem t) d \<union> frames (kmem t) d {v. v < KERNBASE})) (kmem t) (kmem w)"
      using freevm_in [of L t "[]" d] A kernel_only(2) [OF T(2) lay] pg e T(3) by auto
    have "set qs = set ps" using w(4) T(1) kernel_only(1) [OF T(2) lay] Cons by simp
    moreover have "alloc_frame s w" using U A w(3) by (meson alloc_frame_trans)
    moreover have "bytes_kept (set ps) (kmem s) (kmem w)"
    proof (rule bytes_kept_trans)
      show "bytes_kept {d} (kmem s) (kmem u)" using U by blast
      have "bytes_kept (set ps) (kmem u) (kmem t)" using A U Cons by simp
      then show "bytes_kept (set ps) (kmem u) (kmem w)"
        by (rule bytes_kept_trans [OF _ w(5)]) (use T(1) kernel_only(1) [OF T(2) lay] Cons in simp)
    qed (use Cons in simp)
    ultimately show ?thesis using False Cons run t(1) w(1,2) by (auto simp: kbind_def kseq_def)
  qed
qed

text \<open>
  C36. \<open>setupkvm\<close> is all or nothing.  For a kernel whose data starts on a page between \<open>KERNLINK\<close> and
  \<open>PHYSTOP\<close>: with at least 65 free pages it returns a page directory under which, for every kind of
  access, the processor translates exactly the kernel's addresses (each to itself, text and read-only
  data not for writing, the device addresses to the device bus, nothing for user mode, nothing below
  \<open>KERNBASE\<close>), built from 65 pages of the free list: the directory and 64 tables.  With fewer it
  returns 0 and the free list holds the same pages as before.
\<close>

theorem setupkvm_all_or_nothing:
  assumes "alloc_inv L s ps" and "kernel_layout (kdata s)" and "KERNBASE < kend s"
  shows "if 65 \<le> length ps
    then \<exists>d t qs. setupkvm s = Ok d t \<and> d \<noteq> 0 \<and> alloc_inv L t qs \<and> pt_ok (kmem t) d (set qs)
      \<and> length qs + 65 = length ps \<and> insert d (tables (kmem t) d) \<union> set qs = set ps
      \<and> (\<forall>need v. access need \<longrightarrow> mmu_addr (kmem t) d need v = kernel_addr (kdata s) need v)
    else \<exists>t qs. setupkvm s = Ok 0 t \<and> alloc_inv L t qs \<and> set qs = set ps"
proof (cases "65 \<le> length ps")
  case True
  then show ?thesis unfolding if_P [OF True] using setupkvm_in [OF assms, unfolded if_P [OF True]] by blast
next
  case False
  then show ?thesis unfolding if_not_P [OF False] using setupkvm_in [OF assms, unfolded if_not_P [OF False]] by blast
qed

theorem setupkvm_all_or_nothing_witness:
  "\<exists>t qs. setupkvm demo_free_st = Ok 0 t \<and> alloc_inv {} t qs \<and> set qs = {0x80404000}"
proof -
  have "kdata demo_free_st = 0x80108000" "kend demo_free_st = 0x80115000"
    by (simp_all add: demo_free_st_def demo_mem_st_def con_st.defs mem_st.defs)
  then show ?thesis
    using setupkvm_all_or_nothing [OF demo_free_inv]
    by (simp add: kernel_layout_def KERNBASE_def KERNLINK_def EXTMEM_def PGSIZE_def P2V_def PHYSTOP_def)
qed

end
