(* ===== verification/Uvm.thy ===== *)
theory Uvm
  imports Setupkvm
begin

text \<open>
  The user half of an address space as a whole: \<open>uspace\<close> is what has to hold of a page table whose
  process has \<open>sz\<close> bytes; \<open>allocuvm\<close> and \<open>deallocuvm\<close> take a space of one size to a space of
  another, keeping what the process sees below the smaller size and giving zeros above it.
\<close>

section \<open>Well-formed address spaces\<close>

text \<open>The pages of the user half: its frames and all tables.\<close>

definition spages :: "mem \<Rightarrow> u32 \<Rightarrow> u32 set" where
  "spages m d = insert d (tables m d \<union> frames m d {v. v < KERNBASE})"

definition uspace :: "lockid set \<Rightarrow> 'x mem_st_scheme \<Rightarrow> u32 list \<Rightarrow> u32 \<Rightarrow> u32 \<Rightarrow> bool" where
  "uspace L s ps d sz \<longleftrightarrow> alloc_inv L s ps \<and> pt_ok (kmem s) d (set ps) \<and> owned (kmem s) d (set ps) (kend s) {v. v < KERNBASE}
     \<and> (\<forall>p \<in> insert d (tables (kmem s) d). page_ok (kend s) p) \<and> sz \<le> KERNBASE \<and> KERNBASE < kend s
     \<and> (\<forall>v < KERNBASE. mmu_addr (kmem s) d PTE_P v \<noteq> None \<longleftrightarrow> PGROUNDDOWN v < sz)"

text \<open>What an access of kind \<open>need\<close> to \<open>v\<close> finds.\<close>

definition seen :: "mem \<Rightarrow> u32 \<Rightarrow> u32 \<Rightarrow> u32 \<Rightarrow> u8 option" where
  "seen m d need v = map_option (\<lambda>a. m (unat a)) (mmu_addr m d need v)"

lemma uspaceD:
  assumes "uspace L s ps d sz"
  shows "alloc_inv L s ps" "pt_ok (kmem s) d (set ps)" "owned (kmem s) d (set ps) (kend s) {v. v < KERNBASE}"
    "\<forall>p \<in> insert d (tables (kmem s) d). page_ok (kend s) p" "sz \<le> KERNBASE" "KERNBASE < kend s"
    "v < KERNBASE \<Longrightarrow> mmu_addr (kmem s) d PTE_P v \<noteq> None \<longleftrightarrow> PGROUNDDOWN v < sz"
  using assms unfolding uspace_def by blast+

lemma spages_ok:
  assumes "uspace L s ps d sz"
  shows "spages (kmem s) d \<inter> set ps = {}" "p \<in> spages (kmem s) d \<Longrightarrow> page_ok (kend s) p"
proof -
  note U = uspaceD [OF assms]
  show "spages (kmem s) d \<inter> set ps = {}" using tables_apart [OF U(2)] U(3) by (auto simp: spages_def owned_def)
  show "p \<in> spages (kmem s) d \<Longrightarrow> page_ok (kend s) p" using U(3,4) by (auto simp: spages_def owned_def)
qed

lemma low_page: "v < KERNBASE \<longleftrightarrow> PGROUNDDOWN v < KERNBASE"
proof -
  have "unat v div 4096 * 4096 < 524288 * 4096 \<longleftrightarrow> unat v < 524288 * 4096" by (simp add: div_less_iff_less_mult)
  then show ?thesis by (simp add: word_less_nat_alt PGROUNDDOWN_unat KERNBASE_def)
qed

lemma mmu_P: "access need \<Longrightarrow> mmu_addr m d need v = Some a \<Longrightarrow> mmu_addr m d PTE_P v \<noteq> None \<and> a = frame_at m d v + (v AND 0xFFF)"
proof -
  assume a: "access need" "mmu_addr m d need v = Some a"
  then have "mmu_addr m d PTE_P v \<noteq> None" using mmu_none [of need m d v] by auto
  then show ?thesis using a(2) by (simp add: mmu_addr_alt split: if_splits)
qed

lemma frame_byte: "unat (frame_at m d v) \<le> unat (frame_at m d v + (v AND 0xFFF))"
    "unat (frame_at m d v + (v AND 0xFFF)) < unat (frame_at m d v) + 4096"
  using P2V_page [of "ld32 (pte_at m d v) m" v] by (simp_all add: frame_at_def)

lemma frame_page [simp]: "frame_at m d v mod PGSIZE = 0"
  by (simp add: frame_at_def)

text \<open>A byte keeps its value where its translation does and its frame is not written.\<close>

lemma seen_same:
  assumes "bytes_kept P m m'" "\<forall>p \<in> P. p mod PGSIZE = 0" "access need" "mmu_addr m' d need v = mmu_addr m d need v"
    and "mmu_addr m d PTE_P v \<noteq> None \<longrightarrow> frame_at m d v \<notin> P"
  shows "seen m' d need v = seen m d need v"
proof (cases "mmu_addr m d need v")
  case None
  then show ?thesis using assms(4) by (simp add: seen_def)
next
  case (Some a)
  have a: "mmu_addr m d PTE_P v \<noteq> None" "a = frame_at m d v + (v AND 0xFFF)" using mmu_P [OF assms(3) Some] by blast+
  have "unat a < unat p \<or> unat p + 4096 \<le> unat a" if "p \<in> P" for p
  proof -
    have "frame_at m d v \<noteq> p" using assms(5) a(1) that by auto
    then have "unat (frame_at m d v) + 4096 \<le> unat p \<or> unat p + 4096 \<le> unat (frame_at m d v)"
      using page_aligned [of "frame_at m d v" p] assms(2) that by simp
    then show ?thesis using frame_byte [of m d v] unfolding a(2) by linarith
  qed
  then have "m' (unat a) = m (unat a)" using assms(1) unfolding bytes_kept_def by blast
  then show ?thesis using Some assms(4) by (simp add: seen_def)
qed

lemma mappages_single: "va mod PGSIZE = 0 \<Longrightarrow> mappages d va PGSIZE pa perm = mappages_loop d va pa perm 0"
  using page_last [of va] by (intro ext) (simp add: mappages_def Let_def)

text \<open>Memory written only outside a space.\<close>

lemma kept_page:
  assumes "bytes_kept P m m'" "\<forall>q \<in> P. q mod PGSIZE = 0" "p mod PGSIZE = 0" "p \<notin> P" "unat p \<le> b" "b < unat p + 4096"
  shows "m' b = m b"
proof -
  have "b < unat q \<or> unat q + 4096 \<le> b" if "q \<in> P" for q
  proof -
    have "p \<noteq> q" using assms(4) that by auto
    then have "unat p + 4096 \<le> unat q \<or> unat q + 4096 \<le> unat p" using page_aligned [of p q] assms(2,3) that by simp
    then show ?thesis using assms(5,6) by linarith
  qed
  then show ?thesis using assms(1) unfolding bytes_kept_def by blast
qed

lemma kept_entry:
  assumes "bytes_kept P m m'" "\<forall>q \<in> P. q mod PGSIZE = 0" "p mod PGSIZE = 0" "p \<notin> P" "j < 1024"
  shows "ld32 (p + 4 * j) m' = ld32 (p + 4 * j) m"
proof (rule ld32_cong)
  fix k :: nat assume "k < 4"
  then have "unat p \<le> unat (p + 4 * j) + k" "unat (p + 4 * j) + k < unat p + 4096"
    using entry_in_page [OF assms(3,5), of "unat (p + 4 * j) + k"] by auto
  then show "m' (unat (p + 4 * j) + k) = m (unat (p + 4 * j) + k)" by (rule kept_page [OF assms(1-4)])
qed

lemma kept_words:
  assumes "bytes_kept P m m'" "\<forall>q \<in> P. q mod PGSIZE = 0" "d mod PGSIZE = 0" "insert d (tables m d) \<inter> P = {}"
  shows "\<forall>i < 1024. pde_word m' d i = pde_word m d i" "\<forall>need v. access need \<longrightarrow> mmu_addr m' d need v = mmu_addr m d need v"
proof -
  show w: "\<forall>i < 1024. pde_word m' d i = pde_word m d i"
    using kept_entry [OF assms(1-3)] assms(4) by (simp add: pde_word_def)
  show "\<forall>need v. access need \<longrightarrow> mmu_addr m' d need v = mmu_addr m d need v"
  proof (intro allI impI)
    fix need v assume a: "access need"
    have e: "pde_word m' d (PDX v) = pde_word m d (PDX v)" using w PDX_less by blast
    show "mmu_addr m' d need v = mmu_addr m d need v"
    proof (cases "bit (pde_word m d (PDX v)) 0")
      case True
      then have "table_of m d (PDX v) \<notin> P" using table_in [OF PDX_less True] assms(4) by auto
      then have "ld32 (table_of m d (PDX v) + 4 * PTX v) m' = ld32 (table_of m d (PDX v) + 4 * PTX v) m"
        by (rule kept_entry [OF assms(1,2) table_page _ PTX_less])
      then show ?thesis by (simp add: mmu_addr_tables table_of_def e)
    next
      case False
      then have "pde_word m d (PDX v) AND need \<noteq> need" using need_present a unfolding access_def by blast
      then show ?thesis by (simp add: mmu_addr_tables e)
    qed
  qed
qed

lemma frame_in: "v < KERNBASE \<Longrightarrow> mmu_addr m d PTE_P v \<noteq> None \<Longrightarrow> frame_at m d v \<in> spages m d"
  by (auto simp: spages_def frames_def)

text \<open>A space is not affected by what happens to other pages.\<close>

lemma uspace_other:
  assumes U: "uspace L s ps d z" and b: "bytes_kept P (kmem s) (kmem t)" "\<forall>q \<in> P. q mod PGSIZE = 0" "spages (kmem s) d \<inter> P = {}"
    and t: "alloc_inv L t qs" "kend t = kend s" "spages (kmem s) d \<inter> set qs = {}"
  shows "uspace L t qs d z" "spages (kmem t) d = spages (kmem s) d" "pde_set (kmem t) d = pde_set (kmem s) d"
    "access need \<Longrightarrow> mmu_addr (kmem t) d need v = mmu_addr (kmem s) d need v"
    "access need \<Longrightarrow> v < KERNBASE \<Longrightarrow> seen (kmem t) d need v = seen (kmem s) d need v"
proof -
  note D = uspaceD [OF U]
  have d: "d mod PGSIZE = 0" "insert d (tables (kmem s) d) \<inter> P = {}" using D(2) b(3) by (auto simp: pt_ok_def spages_def)
  note W = kept_words [OF b(1,2) d]
  note T = tables_cong [OF W(1)]
  show m: "access need \<Longrightarrow> mmu_addr (kmem t) d need v = mmu_addr (kmem s) d need v" for need v using W(2) by blast
  have f: "frames (kmem t) d {v. v < KERNBASE} = frames (kmem s) d {v. v < KERNBASE}" by (rule frames_cong) (rule m [OF access_P])
  show "spages (kmem t) d = spages (kmem s) d" using T f by (simp add: spages_def)
  show "pde_set (kmem t) d = pde_set (kmem s) d" by (rule T(1))
  show "uspace L t qs d z"
    unfolding uspace_def t(2)
  proof (intro conjI)
    show "pt_ok (kmem t) d (set qs)" by (rule pt_ok_words [OF D(2) W(1)]) (use t(3) in \<open>auto simp: spages_def\<close>)
    show "owned (kmem t) d (set qs) (kend s) {v. v < KERNBASE}"
      by (rule owned_cong [OF D(3) order_refl m [OF access_P] T(2)]) (use t(3) in \<open>auto simp: spages_def\<close>)
  qed (use D t(1) T m [OF access_P] in simp_all)
  show "seen (kmem t) d need v = seen (kmem s) d need v" if "access need" "v < KERNBASE"
    by (rule seen_same [OF b(1,2) that(1) m [OF that(1)]]) (use frame_in [OF that(2)] b(3) in auto)
qed

section \<open>One more page\<close>

text \<open>A page \<open>q\<close> taken from the free list and filled somehow.\<close>

lemma fresh_page:
  assumes "uspace L s (q # ps) d z"
  shows "\<exists>t. kalloc s = Ok q t \<and> q \<noteq> 0 \<and> kmem t = kmem s \<and> alloc_frame s t \<and> page_ok (kend s) q \<and> q \<notin> spages (kmem s) d \<and> q \<notin> set ps
    \<and> (\<forall>m. bytes_kept {q} (kmem s) m \<longrightarrow> alloc_inv L (t\<lparr>kmem := m\<rparr>) ps)"
proof -
  note U = uspaceD [OF assms]
  obtain t where t: "kalloc s = Ok q t" "alloc_inv L t ps" "alloc_frame s t" "kmem t = kmem s" using kalloc_in [OF U(1)] by auto
  have q: "page_ok (kend s) q" "q \<notin> set ps" "q mod PGSIZE = 0" "q \<noteq> 0" using U(1) by (auto simp: alloc_inv_def page_ok_def)
  have no: "q \<notin> spages (kmem s) d" using spages_ok(1) [OF assms] by auto
  have "alloc_inv L (t\<lparr>kmem := m\<rparr>) ps" if m: "bytes_kept {q} (kmem s) m" for m
  proof (rule alloc_inv_mem [OF t(2)])
    fix x and i :: nat assume x: "x \<in> set ps" "i < 4"
    then have "x mod PGSIZE = 0" "x \<notin> {q}" using alloc_inv_page [OF t(2)] q(2) by auto
    moreover have "unat x \<le> unat x + i" "unat x + i < unat x + 4096" using x(2) by linarith+
    ultimately show "m (unat x + i) = kmem t (unat x + i)"
      unfolding t(4) using kept_page [OF m, of x "unat x + i"] q(3) by simp
  qed
  then show ?thesis using t q no by blast
qed

lemma fresh_space:
  assumes U: "uspace L s (q # ps) d z"
    and t: "bytes_kept {q} (kmem s) (kmem t)" "alloc_inv L t ps" "alloc_frame s t"
  shows "uspace L t ps d z" "spages (kmem t) d = spages (kmem s) d" "pde_set (kmem t) d = pde_set (kmem s) d"
    "access need \<Longrightarrow> mmu_addr (kmem t) d need v = mmu_addr (kmem s) d need v"
    "access need \<Longrightarrow> v < KERNBASE \<Longrightarrow> seen (kmem t) d need v = seen (kmem s) d need v"
proof -
  have k: "kend t = kend s" using t(3) by (simp add: alloc_frame_def)
  have q: "\<forall>p \<in> {q}. p mod PGSIZE = 0" using uspaceD(1) [OF U] by (auto simp: alloc_inv_def page_ok_def)
  have s: "spages (kmem s) d \<inter> set ps = {}" "spages (kmem s) d \<inter> {q} = {}" using spages_ok(1) [OF U] by auto
  note O = uspace_other [OF U t(1) q s(2) t(2) k s(1)]
  show "uspace L t ps d z" "spages (kmem t) d = spages (kmem s) d" "pde_set (kmem t) d = pde_set (kmem s) d"
    "access need \<Longrightarrow> mmu_addr (kmem t) d need v = mmu_addr (kmem s) d need v"
    "access need \<Longrightarrow> v < KERNBASE \<Longrightarrow> seen (kmem t) d need v = seen (kmem s) d need v" using O by simp_all
qed

lemma frame_mapped_to:
  assumes "mmu_addr m d PTE_P v = mapped_to (V2P q) perm PTE_P v"
  shows "mmu_addr m d PTE_P v \<noteq> None" "frame_at m d v = q"
proof -
  have "(perm OR PTE_P) AND PTE_P = PTE_P" by (rule bit_word_eqI) (auto simp: bit_simps)
  then have "mmu_addr m d PTE_P v = Some (q + (v AND 0xFFF))" using assms by (simp add: mapped_to_def)
  then show "mmu_addr m d PTE_P v \<noteq> None" "frame_at m d v = q" using mmu_frame [of m d v] by simp_all
qed

lemma page_step_less:
  assumes "z mod PGSIZE = 0" "z < KERNBASE"
  shows "z + PGSIZE \<le> KERNBASE" "PGROUNDDOWN v < z + PGSIZE \<longleftrightarrow> PGROUNDDOWN v < z \<or> PGROUNDDOWN v = z"
    "(z + PGSIZE) mod PGSIZE = 0" "PGROUNDDOWN z = z" "unat (z + PGSIZE) = unat z + 4096"
proof -
  obtain k where k: "unat z = 4096 * k" using page_mult [OF assms(1)] by blast
  have z: "unat z < 2147483648" using assms(2) by (simp add: word_less_nat_alt KERNBASE_def)
  show u: "unat (z + PGSIZE) = unat z + 4096" using unat_add_nowrap32 [of z PGSIZE] z by (simp add: PGSIZE_def)
  show "z + PGSIZE \<le> KERNBASE" using u z k by (simp add: word_le_nat_alt KERNBASE_def)
  show "PGROUNDDOWN v < z + PGSIZE \<longleftrightarrow> PGROUNDDOWN v < z \<or> PGROUNDDOWN v = z"
    unfolding word_less_nat_alt word_unat_eq_iff u PGROUNDDOWN_unat k by auto
  show "(z + PGSIZE) mod PGSIZE = 0" by (rule page_add [OF assms(1)])
  show "PGROUNDDOWN z = z" using page_last [OF assms(1)] by simp
qed

text \<open>The page after the last one is mapped to \<open>q\<close>.\<close>

lemma page_added:
  assumes U: "uspace L s ps d z" and z: "z mod PGSIZE = 0" "z < KERNBASE"
    and q: "page_ok (kend s) q" "q \<notin> spages (kmem s) d" "q \<notin> set ps" and perm: "perm < 4096"
    and room: "ps \<noteq> [] \<or> PDX z \<in> pde_set (kmem s) d"
  shows "\<exists>t qs. mappages d z PGSIZE (V2P q) perm s = Ok 0 t \<and> uspace L t qs d (z + PGSIZE) \<and> alloc_frame s t
    \<and> length qs + card ({PDX z} - pde_set (kmem s) d) = length ps \<and> pde_set (kmem t) d = insert (PDX z) (pde_set (kmem s) d)
    \<and> spages (kmem t) d \<union> set qs = insert q (spages (kmem s) d \<union> set ps)
    \<and> bytes_kept (insert d (tables (kmem s) d \<union> set ps)) (kmem s) (kmem t)
    \<and> (\<forall>need v. access need \<longrightarrow> mmu_addr (kmem t) d need v
          = (if PGROUNDDOWN v = z then mapped_to (V2P q) perm need v else mmu_addr (kmem s) d need v))"
proof -
  note D = uspaceD [OF U] and Z = page_step_less [OF z]
  let ?L = "{v. v < KERNBASE}"
  have un: "mmu_addr (kmem s) d PTE_P z = None" using D(7) [of z] z(2) Z(4) by auto
  have qm: "q mod PGSIZE = 0" using q(1) by (simp add: page_ok_def)
  obtain t qs where t: "mappages_loop d z (V2P q) perm 0 s = Ok 0 t" "range_mapped L s ps t qs d z (V2P q) perm 0"
    using one_page_mapped [OF D(1,2) z(1) V2P_page [OF qm] perm un room] by blast
  note R = t(2) [unfolded range_mapped_def pdx_range_0]
  have m: "mmu_addr (kmem t) d need v = (if PGROUNDDOWN v = z then mapped_to (V2P q) perm need v else mmu_addr (kmem s) d need v)"
    if "access need" for need v
    using R that in_pages_page [OF z(1)] mapped_linear [of v z "V2P q" perm need] by simp
  have new: "mmu_addr (kmem t) d PTE_P v \<noteq> None" "frame_at (kmem t) d v = q" if "PGROUNDDOWN v = z" for v
    using frame_mapped_to [of "kmem t" d v q perm] m [OF access_P, of v] that by simp_all
  have old: "mmu_addr (kmem t) d PTE_P v = mmu_addr (kmem s) d PTE_P v" if "PGROUNDDOWN v \<noteq> z" for v
    using m [OF access_P, of v] that by simp
  have zl: "v < KERNBASE" if "PGROUNDDOWN v = z" for v using low_page [of v] that z(2) by simp
  have none: "mmu_addr (kmem s) d PTE_P v = None" if "PGROUNDDOWN v = z" for v
    using D(7) [OF zl [OF that]] that by simp
  have split: "?L = {v \<in> ?L. PGROUNDDOWN v \<noteq> z} \<union> {v. PGROUNDDOWN v = z}" using zl by auto
  have f1: "frames (kmem t) d {v \<in> ?L. PGROUNDDOWN v \<noteq> z} = frames (kmem s) d {v \<in> ?L. PGROUNDDOWN v \<noteq> z}"
    by (rule frames_cong) (use old in auto)
  have f2: "frames (kmem t) d {v. PGROUNDDOWN v = z} = {q}" using new Z(4) unfolding frames_def by (auto intro!: image_eqI [of _ _ z])
  have f3: "frames (kmem s) d {v. PGROUNDDOWN v = z} = {}" by (rule frames_none) (use none in simp)
  have "frames m d ?L = frames m d {v \<in> ?L. PGROUNDDOWN v \<noteq> z} \<union> frames m d {v. PGROUNDDOWN v = z}" for m
    using split frames_Un by metis
  then have fr: "frames (kmem t) d ?L = insert q (frames (kmem s) d ?L)" using f1 f2 f3 by simp
  have tq: "tables (kmem t) d \<union> set qs = tables (kmem s) d \<union> set ps" using R by blast
  have sp: "spages (kmem t) d \<union> set qs = insert q (spages (kmem s) d \<union> set ps)" using tq fr by (auto simp: spages_def)
  note A = tables_apart [OF D(2)]
  have k: "kend t = kend s" using R by (simp add: alloc_frame_def)
  have fo: "page_ok (kend s) p \<and> p \<notin> set qs \<and> p \<noteq> d \<and> p \<notin> tables (kmem t) d" if "p \<in> frames (kmem t) d ?L" for p
  proof -
    have "p = q \<or> p \<in> frames (kmem s) d ?L" using that fr by simp
    then have "page_ok (kend s) p \<and> p \<notin> tables (kmem s) d \<union> set ps \<and> p \<noteq> d" using D(3) q by (auto simp: owned_def spages_def)
    then show ?thesis using tq by blast
  qed
  have inj: "PGROUNDDOWN u = PGROUNDDOWN v"
    if u: "u \<in> ?L" "v \<in> ?L" "mmu_addr (kmem t) d PTE_P u \<noteq> None" "mmu_addr (kmem t) d PTE_P v \<noteq> None" "frame_at (kmem t) d u = frame_at (kmem t) d v" for u v
  proof -
    have fs: "frame_at (kmem t) d w = frame_at (kmem s) d w \<and> frame_at (kmem s) d w \<noteq> q" if w: "w \<in> ?L" "mmu_addr (kmem t) d PTE_P w \<noteq> None" "PGROUNDDOWN w \<noteq> z" for w
    proof -
      have M: "mmu_addr (kmem s) d PTE_P w \<noteq> None" using old [OF w(3)] w(2) by simp
      then have "frame_at (kmem s) d w \<in> spages (kmem s) d" using frame_in [OF _ M] w(1) by simp
      then show ?thesis using frame_determined [OF old [OF w(3)] M] q(2) by auto
    qed
    have qz: "frame_at (kmem t) d w = q \<longleftrightarrow> PGROUNDDOWN w = z" if "w \<in> ?L" "mmu_addr (kmem t) d PTE_P w \<noteq> None" for w
      using fs [OF that] new(2) [of w] by metis
    have uv: "PGROUNDDOWN u = z \<longleftrightarrow> PGROUNDDOWN v = z" using qz [OF u(1,3)] qz [OF u(2,4)] u(5) by simp
    show ?thesis
    proof (cases "PGROUNDDOWN u = z")
      case True
      then show ?thesis using uv by simp
    next
      case False
      then have "frame_at (kmem s) d u = frame_at (kmem s) d v" using fs [of u] fs [of v] u uv by simp
      moreover have "mmu_addr (kmem s) d PTE_P u \<noteq> None" "mmu_addr (kmem s) d PTE_P v \<noteq> None" using old u False uv by simp_all
      ultimately show ?thesis using D(3) u(1,2) unfolding owned_def by blast
    qed
  qed
  have "uspace L t qs d (z + PGSIZE)"
    unfolding uspace_def k
  proof (intro conjI)
    show "owned (kmem t) d (set qs) (kend s) ?L" unfolding owned_def using fo inj by blast
    show "\<forall>p \<in> insert d (tables (kmem t) d). page_ok (kend s) p" using D(1,4) tq by (auto simp: alloc_inv_def)
    show "\<forall>v < KERNBASE. mmu_addr (kmem t) d PTE_P v \<noteq> None \<longleftrightarrow> PGROUNDDOWN v < z + PGSIZE"
    proof (intro allI impI)
      fix v assume v: "v < KERNBASE"
      show "mmu_addr (kmem t) d PTE_P v \<noteq> None \<longleftrightarrow> PGROUNDDOWN v < z + PGSIZE"
        unfolding Z(2) using new(1) [of v] old [of v] D(7) [OF v] by (cases "PGROUNDDOWN v = z") simp_all
    qed
  qed (use R D Z in simp_all)
  then show ?thesis using t(1) R sp m by (intro exI [of _ t] exI [of _ qs]) (simp add: mappages_single [OF z(1)])
qed

lemma page_refused:
  assumes U: "uspace L s [] d z" and z: "z mod PGSIZE = 0" "PDX z \<notin> pde_set (kmem s) d"
  shows "\<exists>t. mappages d z PGSIZE pa perm s = Ok (-1) t \<and> kmem t = kmem s \<and> alloc_inv L t [] \<and> alloc_frame s t"
proof -
  have "\<not> bit (pde_word (kmem s) d (PDX z)) 0" using z(2) PDX_less by (simp add: pde_set_def)
  then show ?thesis using page_fails [OF uspaceD(1) [OF U], of d z pa perm 0] by (simp add: mappages_single [OF z(1)])
qed

section \<open>deallocuvm\<close>

lemma PGROUNDUP_le:
  assumes "a \<le> KERNBASE"
  shows "PGROUNDUP a \<le> v \<longleftrightarrow> a \<le> PGROUNDDOWN v"
proof -
  have a: "unat a \<le> 2147483648" using assms by (simp add: word_le_nat_alt KERNBASE_def)
  then have u: "unat (PGROUNDUP a) = (unat a + 4095) div 4096 * 4096" by (intro PGROUNDUP_unat) simp
  have "(unat a + 4095) div 4096 * 4096 \<le> unat v \<longleftrightarrow> (unat a + 4095) div 4096 \<le> unat v div 4096"
    by (simp add: less_eq_div_iff_mult_less_eq)
  also have "\<dots> \<longleftrightarrow> (unat a + 4095) div 4096 < unat v div 4096 + 1" by (simp only: less_Suc_eq_le Suc_eq_plus1 [symmetric])
  also have "\<dots> \<longleftrightarrow> unat a + 4095 < (unat v div 4096 + 1) * 4096" by (simp only: div_less_iff_less_mult zero_less_numeral)
  also have "\<dots> \<longleftrightarrow> unat a \<le> unat v div 4096 * 4096" by auto
  finally show ?thesis by (simp add: word_le_nat_alt u PGROUNDDOWN_unat)
qed

lemma shrink_in:
  assumes U: "uspace L s ps d z" and old: "old < new" "new \<le> KERNBASE" "old \<le> z"
    and z: "\<forall>v. PGROUNDDOWN v < z \<longrightarrow> PGROUNDDOWN v < new"
  shows "\<exists>t rs. deallocuvm d new old s = Ok old t \<and> uspace L t rs d old \<and> alloc_frame s t
    \<and> spages (kmem t) d \<union> set rs = spages (kmem s) d \<union> set ps \<and> set ps \<subseteq> set rs
    \<and> (\<forall>need v. access need \<longrightarrow> PGROUNDDOWN v < old \<or> KERNBASE \<le> v \<longrightarrow> mmu_addr (kmem t) d need v = mmu_addr (kmem s) d need v)
    \<and> (\<forall>need v. access need \<longrightarrow> PGROUNDDOWN v < old \<longrightarrow> seen (kmem t) d need v = seen (kmem s) d need v)"
proof -
  note D = uspaceD [OF U]
  let ?m = "kmem s" let ?L = "{v. v < KERNBASE}"
  define X where "X = to_free (PGROUNDUP old) new"
  have oK: "old \<le> KERNBASE" using old(1,2) by simp
  have X: "v \<in> X \<longleftrightarrow> old \<le> PGROUNDDOWN v \<and> PGROUNDDOWN v < new" for v by (simp add: X_def to_free_def PGROUNDUP_le [OF oK])
  have XL: "X \<subseteq> ?L"
  proof
    fix v assume "v \<in> X"
    then have "PGROUNDDOWN v < KERNBASE" using X old(2) by (blast intro: order_less_le_trans)
    then show "v \<in> ?L" by (simp add: low_page [of v])
  qed
  have "owned ?m d (set ps) (kend s) X" by (rule owned_cong [OF D(3) XL]) auto
  then obtain t rs where t: "deallocuvm d new old s = Ok old t" "freed L s ps t rs d X"
    using deallocuvm_in [OF D(1,2) _ old(2) D(6) old(1)] unfolding X_def by blast
  note F = t(2) [unfolded freed_def]
  have k: "kend t = kend s" using F by (simp add: alloc_frame_def)
  have own: "owned (kmem t) d (set rs) (kend t) (?L - X)"
  proof (rule owned_freed [OF _ t(2)])
    show "owned ?m d (set ps) (kend s) (X \<union> (?L - X))" using D(3) XL by (simp add: Un_absorb1)
    show "PGROUNDDOWN x \<noteq> PGROUNDDOWN y" if "x \<in> X" "y \<in> ?L - X" for x y
    proof
      assume "PGROUNDDOWN x = PGROUNDDOWN y"
      then have "y \<in> X" using that(1) unfolding X by simp
      then show False using that(2) by simp
    qed
  qed blast
  have none: "mmu_addr (kmem t) d PTE_P v = None" if "v \<in> X" for v using F access_P that by simp
  have keep: "mmu_addr (kmem t) d need v = mmu_addr ?m d need v" if "access need" "v \<notin> X" for need v using F that by simp
  have ft: "frames (kmem t) d ?L = frames ?m d (?L - X)"
  proof -
    have "frames (kmem t) d ?L = frames (kmem t) d X \<union> frames (kmem t) d (?L - X)" using XL frames_Un [of "kmem t" d X "?L - X"] by (simp add: Un_absorb1)
    moreover have "frames (kmem t) d X = {}" by (rule frames_none [OF none])
    moreover have "frames (kmem t) d (?L - X) = frames ?m d (?L - X)" by (rule frames_cong) (use keep access_P in auto)
    ultimately show ?thesis by simp
  qed
  have fs: "frames ?m d ?L = frames ?m d X \<union> frames ?m d (?L - X)" using XL frames_Un [of ?m d X "?L - X"] by (simp add: Un_absorb1)
  have T: "tables (kmem t) d = tables ?m d" using F tables_cong(2) by blast
  have sp: "spages (kmem t) d \<union> set rs = spages ?m d \<union> set ps" using F ft fs T by (auto simp: spages_def)
  have "owned (kmem t) d (set rs) (kend s) ?L"
    using own none ft unfolding owned_def k by (metis (no_types, lifting) Diff_iff fs frames_cong keep access_P)
  moreover have "\<forall>v < KERNBASE. mmu_addr (kmem t) d PTE_P v \<noteq> None \<longleftrightarrow> PGROUNDDOWN v < old"
  proof (intro allI impI)
    fix v assume v: "v < KERNBASE"
    show "mmu_addr (kmem t) d PTE_P v \<noteq> None \<longleftrightarrow> PGROUNDDOWN v < old"
    proof (cases "v \<in> X")
      case True
      then show ?thesis using none [OF True] X [of v] by auto
    next
      case False
      then have "PGROUNDDOWN v < old \<or> \<not> PGROUNDDOWN v < new" using X [of v] by auto
      moreover have "PGROUNDDOWN v < old \<Longrightarrow> PGROUNDDOWN v < z" using old(3) by simp
      ultimately show ?thesis using keep [OF access_P False] D(7) [OF v] z by metis
    qed
  qed
  moreover have "alloc_inv L t rs" "pt_ok (kmem t) d (set rs)" using F by blast+
  ultimately have "uspace L t rs d old" using D(4,6) oK by (simp add: uspace_def T k)
  moreover have "seen (kmem t) d need v = seen ?m d need v" if "access need" "PGROUNDDOWN v < old" for need v
  proof -
    have v: "v \<notin> X" "v < KERNBASE" using that X [of v] oK low_page [of v] by auto
    have "frame_at ?m d v \<notin> frames ?m d X \<union> tables ?m d" if "mmu_addr ?m d PTE_P v \<noteq> None"
    proof -
      have "frame_at ?m d v \<in> frames ?m d ?L" using that v(2) by (auto simp: frames_def)
      then have "frame_at ?m d v \<notin> tables ?m d" using D(3) by (auto simp: owned_def)
      moreover have "frame_at ?m d v \<noteq> frame_at ?m d u" if "u \<in> X" "mmu_addr ?m d PTE_P u \<noteq> None" for u
      proof
        assume "frame_at ?m d v = frame_at ?m d u"
        then have "PGROUNDDOWN v = PGROUNDDOWN u" using D(3) that XL v(2) \<open>mmu_addr ?m d PTE_P v \<noteq> None\<close> unfolding owned_def by blast
        then show False using X [of u] X [of v] v(1) that(1) by simp
      qed
      ultimately show ?thesis by (auto simp: frames_def)
    qed
    moreover have "\<forall>p \<in> frames ?m d X \<union> tables ?m d. p mod PGSIZE = 0" by (auto simp: frames_def tables_def)
    ultimately show ?thesis using F by (intro seen_same [OF _ _ that(1) keep [OF that(1) v(1)]]) auto
  qed
  moreover have "v \<notin> X" if "PGROUNDDOWN v < old \<or> KERNBASE \<le> v" for v using that X [of v] XL by auto
  ultimately show ?thesis using t(1) F sp keep by (intro exI [of _ t] exI [of _ rs]) simp
qed

section \<open>allocuvm\<close>

text \<open>The body of its loop.\<close>

definition grow_page :: "u32 \<Rightarrow> u32 \<Rightarrow> u32 \<Rightarrow> u32 \<Rightarrow> (u32 option, 'x mem_st_scheme) kern" where
  "grow_page pgdir oldsz newsz a =
     kbind kalloc (\<lambda>m.
     if m = 0 then
       kseq (printk (''allocuvm out of memory'' @ [CHR 0x0A]) []) (
       kbind (deallocuvm pgdir newsz oldsz) (\<lambda>_.
       kret (Some 0)))
     else
       kseq (upd_mem (memset (unat m) 0 (unat PGSIZE))) (
       kbind (mappages pgdir a PGSIZE (V2P m) (PTE_W OR PTE_U)) (\<lambda>r.
       if r < 0 then
         kseq (printk (''allocuvm out of memory (2)'' @ [CHR 0x0A]) []) (
         kbind (deallocuvm pgdir newsz oldsz) (\<lambda>_.
         kseq (kfree m) (kret (Some 0))))
       else kret None)))"

lemma allocuvm_alt:
  "allocuvm pgdir oldsz newsz =
     (if KERNBASE \<le> newsz then kret 0
      else if newsz < oldsz then kret oldsz
      else
        let a0 = PGROUNDUP oldsz in
        kbind (kloop (map (\<lambda>i. a0 + i) (if a0 < newsz then page_offsets (newsz - a0) else [])) (grow_page pgdir oldsz newsz)) (\<lambda>r.
        case r of Some v \<Rightarrow> kret v | None \<Rightarrow> kret newsz))"
  unfolding allocuvm_def grow_page_def [abs_def] ..

text \<open>Printing leaves a space alone.\<close>

lemma print_space:
  assumes "uspace L s ps d z" "use_lock s" "L_cons \<notin> L" "on_screen s" "fmt_ok (str fmt) args"
  shows "\<exists>t. printk fmt args s = Ok () t \<and> uspace L t ps d z \<and> kmem t = kmem s \<and> use_lock t \<and> on_screen t \<and> kend t = kend s"
proof -
  have th: "thread_in L s" using uspaceD(1) [OF assms(1)] assms(2) by (simp add: alloc_inv_def)
  obtain t where t: "printk fmt args s = Ok () t" "thread_in L t" "on_screen t" "out_frame s t"
    using cprintf_in [OF th assms(3-5)] unfolding printk_def by blast
  have "con_st.more t = con_st.more s" using t(4) by (simp add: out_frame_def)
  then have "kmem t = kmem s" "freelist t = freelist s" "use_lock t = use_lock s" "kend t = kend s"
    by (cases s, cases t, simp)+
  then show ?thesis using t assms(1,2) by (auto simp: uspace_def alloc_inv_def)
qed

text \<open>What the growing process has at every moment, against the state \<open>s0\<close> it started from.\<close>

definition grown :: "lockid set \<Rightarrow> 'x mem_st_scheme \<Rightarrow> u32 list \<Rightarrow> u32 \<Rightarrow> u32 \<Rightarrow> 'x mem_st_scheme \<Rightarrow> u32 list \<Rightarrow> u32 \<Rightarrow> bool" where
  "grown L s0 ps0 d old s ps z \<longleftrightarrow> uspace L s ps d z \<and> use_lock s \<and> on_screen s \<and> kend s = kend s0
     \<and> spages (kmem s) d \<union> set ps = spages (kmem s0) d \<union> set ps0
     \<and> (\<forall>need v. access need \<longrightarrow> PGROUNDDOWN v < old \<or> KERNBASE \<le> v \<longrightarrow> mmu_addr (kmem s) d need v = mmu_addr (kmem s0) d need v)
     \<and> (\<forall>need v. access need \<longrightarrow> PGROUNDDOWN v < old \<longrightarrow> seen (kmem s) d need v = seen (kmem s0) d need v)"

definition zeroed :: "mem \<Rightarrow> u32 \<Rightarrow> u32 \<Rightarrow> u32 \<Rightarrow> bool" where
  "zeroed m d old z \<longleftrightarrow> (\<forall>v. old \<le> PGROUNDDOWN v \<longrightarrow> PGROUNDDOWN v < z \<longrightarrow> seen m d PTE_PWU v = Some 0)"

lemma alloc_frame_keep: "alloc_frame s t \<Longrightarrow> on_screen t = on_screen s \<and> use_lock t = use_lock s \<and> kend t = kend s"
  by (auto simp: alloc_frame_def con_part_def on_screen_def)

lemma grown_refl: "uspace L s ps d z \<Longrightarrow> use_lock s \<Longrightarrow> on_screen s \<Longrightarrow> grown L s ps d old s ps z"
  by (simp add: grown_def)

lemma grown_trans:
  assumes "grown L s0 ps0 d old s ps z" "grown L s ps d old t qs z'"
  shows "grown L s0 ps0 d old t qs z'"
  using assms unfolding grown_def by metis

lemma grown_print:
  assumes "grown L s0 ps0 d old s ps z" "L_cons \<notin> L" "fmt_ok (str fmt) args"
  shows "\<exists>t. printk fmt args s = Ok () t \<and> grown L s0 ps0 d old t ps z \<and> kmem t = kmem s"
proof -
  obtain t where "printk fmt args s = Ok () t" "uspace L t ps d z" "kmem t = kmem s" "use_lock t" "on_screen t" "kend t = kend s"
    using print_space [of L s ps d z fmt args] assms unfolding grown_def by blast
  with assms(1) show ?thesis unfolding grown_def by auto
qed

lemma grown_shrink:
  assumes G: "grown L s0 ps0 d old s ps z" and n: "old < new" "new \<le> KERNBASE" "old \<le> z" "\<forall>v. PGROUNDDOWN v < z \<longrightarrow> PGROUNDDOWN v < new"
  shows "\<exists>t qs. deallocuvm d new old s = Ok old t \<and> grown L s0 ps0 d old t qs old"
proof -
  have U: "uspace L s ps d z" using G by (simp add: grown_def)
  obtain t qs where t: "deallocuvm d new old s = Ok old t" "uspace L t qs d old" "alloc_frame s t"
    "spages (kmem t) d \<union> set qs = spages (kmem s) d \<union> set ps"
    "\<forall>need v. access need \<longrightarrow> PGROUNDDOWN v < old \<or> KERNBASE \<le> v \<longrightarrow> mmu_addr (kmem t) d need v = mmu_addr (kmem s) d need v"
    "\<forall>need v. access need \<longrightarrow> PGROUNDDOWN v < old \<longrightarrow> seen (kmem t) d need v = seen (kmem s) d need v"
    using shrink_in [OF U n] by (elim exE conjE) (rule that)
  have "grown L s ps d old t qs old" using t alloc_frame_keep [OF t(3)] G by (simp add: grown_def)
  then show ?thesis using grown_trans [OF G] t(1) by blast
qed

lemma frame_outside:
  assumes "uspace L s ps d z" "v < KERNBASE" "mmu_addr (kmem s) d PTE_P v \<noteq> None"
  shows "frame_at (kmem s) d v \<notin> insert d (tables (kmem s) d \<union> set ps)"
proof -
  have "frame_at (kmem s) d v \<in> frames (kmem s) d {v. v < KERNBASE}" using assms(2,3) by (auto simp: frames_def)
  then show ?thesis using uspaceD(3) [OF assms(1)] by (auto simp: owned_def)
qed

lemma space_pages:
  assumes "uspace L s ps d z"
  shows "\<forall>p \<in> insert d (tables (kmem s) d \<union> set ps). p mod PGSIZE = 0"
  using uspaceD(1,4) [OF assms] by (auto simp: alloc_inv_def page_ok_def)

text \<open>Old contents stay, whatever page is added after them; so does what the new page was filled with.\<close>

lemma added_seen:
  assumes U: "uspace L s ps d z" and z: "z mod PGSIZE = 0" "z < KERNBASE" and q: "q mod PGSIZE = 0" "q \<notin> spages (kmem s) d" "q \<notin> set ps"
    and b: "bytes_kept (insert d (tables (kmem s) d \<union> set ps)) (kmem s) (kmem t)"
    and m: "\<forall>need v. access need \<longrightarrow> mmu_addr (kmem t) d need v
          = (if PGROUNDDOWN v = z then mapped_to (V2P q) perm need v else mmu_addr (kmem s) d need v)"
  shows "access need \<Longrightarrow> PGROUNDDOWN v < z \<Longrightarrow> seen (kmem t) d need v = seen (kmem s) d need v"
    "access need \<Longrightarrow> PGROUNDDOWN v = z \<Longrightarrow> seen (kmem t) d need v
       = (if (perm OR PTE_P) AND need = need then Some (kmem s (unat q + unat v mod 4096)) else None)"
proof -
  assume a: "access need"
  show "seen (kmem t) d need v = seen (kmem s) d need v" if "PGROUNDDOWN v < z"
  proof (rule seen_same [OF b space_pages [OF U] a])
    show "mmu_addr (kmem t) d need v = mmu_addr (kmem s) d need v" using m a that by auto
    have "PGROUNDDOWN v < KERNBASE" using that z(2) by (rule order_less_trans)
    then show "mmu_addr (kmem s) d PTE_P v \<noteq> None \<longrightarrow> frame_at (kmem s) d v \<notin> insert d (tables (kmem s) d \<union> set ps)"
      using frame_outside [OF U] by (simp add: low_page [of v])
  qed
  show "seen (kmem t) d need v = (if (perm OR PTE_P) AND need = need then Some (kmem s (unat q + unat v mod 4096)) else None)"
    if "PGROUNDDOWN v = z"
  proof -
    obtain k where k: "k \<le> 1048575" "unat q = 4096 * k" using page_mult [OF q(1)] by blast
    have o: "unat v mod 4096 < 4096" by simp
    have "unat (v AND 0xFFF) = unat v mod 4096" by (rule unat_low12)
    then have A: "unat (q + (v AND 0xFFF)) = unat q + unat v mod 4096"
      using unat_add_nowrap32 [of q "v AND 0xFFF"] k o by simp
    have "q \<notin> insert d (tables (kmem s) d \<union> set ps)" using q(2,3) by (auto simp: spages_def)
    then have "kmem t (unat q + unat v mod 4096) = kmem s (unat q + unat v mod 4096)"
      by (intro kept_page [OF b space_pages [OF U] q(1)]) simp_all
    then show ?thesis using m a that A by (simp add: seen_def mapped_to_def)
  qed
qed

lemma flags_WU: "access need \<Longrightarrow> ((PTE_W OR PTE_U) OR PTE_P) AND need = need"
  unfolding access_cases by (auto simp: PTE_W_def PTE_U_def PTE_P_def)

lemma access_PWU: "access PTE_PWU"
  unfolding access_cases by (simp add: PTE_PWU_def PTE_W_def PTE_U_def PTE_P_def)

lemma grow_page_ok:
  assumes G: "grown L s0 ps0 d old s (q # ps) z" and Z: "zeroed (kmem s) d old z" and z: "z mod PGSIZE = 0" "z < KERNBASE" "old \<le> z"
    and room: "ps \<noteq> [] \<or> PDX z \<in> pde_set (kmem s) d"
  shows "\<exists>t qs. grow_page d old new z s = Ok None t \<and> grown L s0 ps0 d old t qs (z + PGSIZE) \<and> zeroed (kmem t) d old (z + PGSIZE)
    \<and> length qs + card ({PDX z} - pde_set (kmem s) d) = length ps \<and> pde_set (kmem t) d = insert (PDX z) (pde_set (kmem s) d)"
proof -
  have U: "uspace L s (q # ps) d z" using G by (simp add: grown_def)
  obtain a where a: "kalloc s = Ok q a" "q \<noteq> 0" "kmem a = kmem s" "alloc_frame s a" "page_ok (kend s) q" "q \<notin> spages (kmem s) d" "q \<notin> set ps"
    "\<forall>m. bytes_kept {q} (kmem s) m \<longrightarrow> alloc_inv L (a\<lparr>kmem := m\<rparr>) ps" using fresh_page [OF U] by blast
  have qm: "q mod PGSIZE = 0" using a(5) by (simp add: page_ok_def)
  define u where "u = a\<lparr>kmem := memset (unat q) 0 4096 (kmem a)\<rparr>"
  have u: "bytes_kept {q} (kmem s) (kmem u)" "alloc_inv L u ps" "alloc_frame s u"
    using a(3,4,8) bytes_kept_memset by (simp_all add: u_def)
  note F = fresh_space [OF U u]
  have k: "kend u = kend s" using u(3) by (simp add: alloc_frame_def)
  have q: "page_ok (kend u) q" "q \<notin> spages (kmem u) d" using a(5,6) k F(2) by simp_all
  have perm: "PTE_W OR PTE_U < 4096" by (simp add: PTE_W_def PTE_U_def)
  have "ps \<noteq> [] \<or> PDX z \<in> pde_set (kmem u) d" using room F(3) by simp
  then obtain t qs where t: "mappages d z PGSIZE (V2P q) (PTE_W OR PTE_U) u = Ok 0 t" "uspace L t qs d (z + PGSIZE)" "alloc_frame u t"
    "length qs + card ({PDX z} - pde_set (kmem u) d) = length ps" "pde_set (kmem t) d = insert (PDX z) (pde_set (kmem u) d)"
    "spages (kmem t) d \<union> set qs = insert q (spages (kmem u) d \<union> set ps)"
    "bytes_kept (insert d (tables (kmem u) d \<union> set ps)) (kmem u) (kmem t)"
    "\<forall>need v. access need \<longrightarrow> mmu_addr (kmem t) d need v
          = (if PGROUNDDOWN v = z then mapped_to (V2P q) (PTE_W OR PTE_U) need v else mmu_addr (kmem u) d need v)"
    using page_added [OF F(1) z(1,2) q a(7) perm] by blast
  note S = added_seen [OF F(1) z(1,2) qm q(2) a(7) t(7,8)]
  have low: "v < KERNBASE" if "PGROUNDDOWN v < z" for v
    using that z(2) order_less_trans by (subst low_page) blast
  have old: "access need \<Longrightarrow> PGROUNDDOWN v < z \<Longrightarrow> seen (kmem t) d need v = seen (kmem s) d need v" for need v
    using S(1) F(5) low by simp
  have "grown L s (q # ps) d old t qs (z + PGSIZE)"
    unfolding grown_def
  proof (intro conjI allI impI)
    show "use_lock t" "on_screen t" "kend t = kend s"
      using G alloc_frame_keep [OF u(3)] alloc_frame_keep [OF t(3)] by (simp_all add: grown_def)
    show "spages (kmem t) d \<union> set qs = spages (kmem s) d \<union> set (q # ps)" using t(6) F(2) by auto
    fix need v assume n: "access need"
    { assume "PGROUNDDOWN v < old \<or> KERNBASE \<le> v"
      then have "PGROUNDDOWN v \<noteq> z" using z(2,3) low_page [of v] by auto
      then show "mmu_addr (kmem t) d need v = mmu_addr (kmem s) d need v" using t(8) n F(4) by simp }
    { assume "PGROUNDDOWN v < old"
      then have "PGROUNDDOWN v < z" using z(3) by simp
      then show "seen (kmem t) d need v = seen (kmem s) d need v" by (rule old [OF n]) }
  qed (use t(2) in simp)
  then have "grown L s0 ps0 d old t qs (z + PGSIZE)" by (rule grown_trans [OF G])
  moreover have "zeroed (kmem t) d old (z + PGSIZE)"
    unfolding zeroed_def
  proof (intro allI impI)
    fix v assume v: "old \<le> PGROUNDDOWN v" "PGROUNDDOWN v < z + PGSIZE"
    show "seen (kmem t) d PTE_PWU v = Some 0"
    proof (cases "PGROUNDDOWN v = z")
      case True
      have "kmem u (unat q + unat v mod 4096) = 0" by (simp add: u_def memset_eval)
      then show ?thesis using S(2) [OF access_PWU True] flags_WU [OF access_PWU] by simp
    next
      case False
      then have "PGROUNDDOWN v < z" using v(2) page_step_less(2) [OF z(1,2)] by blast
      then show ?thesis using old [OF access_PWU] Z v(1) by (simp add: zeroed_def)
    qed
  qed
  moreover have "grow_page d old new z s = Ok None t"
    using a(1,2) t(1) by (simp add: grow_page_def kbind_def kseq_def upd_mem_def u_def PGSIZE_def)
  ultimately show ?thesis using t(4,5) F(3) by (intro exI [of _ t] exI [of _ qs]) simp
qed

lemma msgs_ok: "fmt_ok (str (''allocuvm out of memory'' @ [CHR 0x0A])) []" "fmt_ok (str (''allocuvm out of memory (2)'' @ [CHR 0x0A])) []"
  by (simp_all add: str_def)

lemma grow_page_fails:
  assumes G: "grown L s0 ps0 d old s ps z" and z: "z mod PGSIZE = 0" "z < new" "old \<le> z" and new: "new \<le> KERNBASE" and L: "L_cons \<notin> L"
    and room: "ps = [] \<or> (\<exists>q. ps = [q] \<and> PDX z \<notin> pde_set (kmem s) d)"
  shows "\<exists>t qs. grow_page d old new z s = Ok (Some 0) t \<and> grown L s0 ps0 d old t qs old"
proof -
  have on: "old < new" "\<forall>v. PGROUNDDOWN v < z \<longrightarrow> PGROUNDDOWN v < new" using z by auto
  have U: "uspace L s ps d z" using G by (simp add: grown_def)
  from room show ?thesis
  proof (elim disjE exE conjE)
    assume ps: "ps = []"
    obtain a where a: "kalloc s = Ok 0 a" "alloc_inv L a []" "alloc_frame s a" "kmem a = kmem s" using kalloc_in [OF uspaceD(1) [OF U]] ps by auto
    have "uspace L a [] d z" using uspaceD [OF U] a(2,4) alloc_frame_keep [OF a(3)] ps by (simp add: uspace_def)
    then have "grown L s0 ps0 d old a [] z" using G a(4) alloc_frame_keep [OF a(3)] ps unfolding grown_def by simp
    then obtain b where b: "printk (''allocuvm out of memory'' @ [CHR 0x0A]) [] a = Ok () b" "grown L s0 ps0 d old b [] z"
      using grown_print [OF _ L msgs_ok(1)] by blast
    obtain t qs where t: "deallocuvm d new old b = Ok old t" "grown L s0 ps0 d old t qs old"
      using grown_shrink [OF b(2) on(1) new z(3) on(2)] by blast
    have "grow_page d old new z s = Ok (Some 0) t" using a(1) b(1) t(1) by (simp add: grow_page_def kbind_def kseq_def)
    then show ?thesis using t(2) by blast
  next
    fix q assume q: "ps = [q]" "PDX z \<notin> pde_set (kmem s) d"
    note U = U [unfolded q(1)]
    obtain a where a: "kalloc s = Ok q a" "q \<noteq> 0" "kmem a = kmem s" "alloc_frame s a" "page_ok (kend s) q" "q \<notin> spages (kmem s) d"
      "\<forall>m. bytes_kept {q} (kmem s) m \<longrightarrow> alloc_inv L (a\<lparr>kmem := m\<rparr>) []" using fresh_page [OF U] by blast
    define u where "u = a\<lparr>kmem := memset (unat q) 0 4096 (kmem a)\<rparr>"
    have u: "bytes_kept {q} (kmem s) (kmem u)" "alloc_inv L u []" "alloc_frame s u"
      using a(3,4,7) bytes_kept_memset by (simp_all add: u_def)
    note F = fresh_space [OF U u]
    obtain b where b: "mappages d z PGSIZE (V2P q) (PTE_W OR PTE_U) u = Ok (-1) b" "kmem b = kmem u" "alloc_inv L b []" "alloc_frame u b"
      using page_refused [OF F(1) z(1), of "V2P q" "PTE_W OR PTE_U"] q(2) F(3) by auto
    have "uspace L b [] d z" using uspaceD [OF F(1)] b(2,3) alloc_frame_keep [OF b(4)] by (simp add: uspace_def)
    moreover have ub: "use_lock b" "on_screen b" "kend b = kend s"
      using G alloc_frame_keep [OF u(3)] alloc_frame_keep [OF b(4)] by (simp_all add: grown_def)
    ultimately have "grown L b [] d old b [] z" by (intro grown_refl)
    then obtain c where c: "printk (''allocuvm out of memory (2)'' @ [CHR 0x0A]) [] b = Ok () c" "grown L b [] d old c [] z"
      using grown_print [OF _ L msgs_ok(2)] by blast
    obtain t qs where t: "deallocuvm d new old c = Ok old t" "grown L b [] d old t qs old"
      using grown_shrink [OF c(2) on(1) new z(3) on(2)] by blast
    note T = t(2) [unfolded grown_def]
    have sp: "spages (kmem t) d \<union> set qs = spages (kmem s) d" using T b(2) F(2) by simp
    have q1: "page_ok (kend t) q" "q \<notin> set qs" "q \<notin> spages (kmem t) d" using T ub(3) a(5,6) sp by auto
    have Ut: "uspace L t qs d old" using T by blast
    obtain w where w: "kfree q t = Ok () w" "alloc_inv L w (q # qs)" "alloc_frame t w"
      "\<forall>b. b < unat q \<or> unat q + 4096 \<le> b \<longrightarrow> kmem w b = kmem t b" using kfree_in [OF uspaceD(1) [OF Ut] q1(1,2)] by blast
    have bk: "bytes_kept {q} (kmem t) (kmem w)" using w(4) by (simp add: bytes_kept_def)
    have dis: "\<forall>p \<in> {q}. p mod PGSIZE = 0" "spages (kmem t) d \<inter> {q} = {}" "spages (kmem t) d \<inter> set (q # qs) = {}"
      using q1 spages_ok(1) [OF Ut] by (auto simp: page_ok_def)
    have kw: "kend w = kend t" using alloc_frame_keep [OF w(3)] by simp
    note O = uspace_other [OF Ut bk dis(1,2) w(2) kw dis(3)]
    have "grown L s [q] d old w (q # qs) old"
      unfolding grown_def
    proof (intro conjI allI impI)
      show "use_lock w" "on_screen w" "kend w = kend s" using T ub alloc_frame_keep [OF w(3)] by simp_all
      show "spages (kmem w) d \<union> set (q # qs) = spages (kmem s) d \<union> set [q]" using O(2) sp by auto
      fix need v assume n: "access need"
      show "mmu_addr (kmem w) d need v = mmu_addr (kmem s) d need v" if "PGROUNDDOWN v < old \<or> KERNBASE \<le> v"
        using O(4) [OF n] T n that b(2) F(4) [OF n] by auto
      show "seen (kmem w) d need v = seen (kmem s) d need v" if "PGROUNDDOWN v < old"
      proof -
        have "v < KERNBASE" using that on(1) new by (subst low_page) simp
        then show ?thesis using O(5) [OF n] T n that b(2) F(5) [OF n] by simp
      qed
    qed (use O(1) in simp)
    then have "grown L s0 ps0 d old w (q # qs) old" using grown_trans [OF G] q(1) by blast
    moreover have "grow_page d old new z s = Ok (Some 0) w"
      using a(1,2) b(1) c(1) t(1) w(1) by (simp add: grow_page_def kbind_def kseq_def upd_mem_def u_def PGSIZE_def)
    ultimately show ?thesis by blast
  qed
qed

text \<open>The pages of a range, and how many pages of the free list they take: their frames, and a table
  for each directory entry in which one is missing.\<close>

definition page_run :: "nat \<Rightarrow> nat \<Rightarrow> u32 set" where
  "page_run k n = (\<lambda>i. of_nat (4096 * (k + i))) ` {..<n}"

lemma page_run_Suc: "page_run k (Suc n) = insert (of_nat (4096 * k)) (page_run (Suc k) n)"
  unfolding page_run_def lessThan_Suc_eq_insert_0 by (simp add: image_image algebra_simps)

lemma page_run_finite [simp]: "finite (page_run k n)"
  by (simp add: page_run_def)

lemma page_nat:
  assumes "4096 * k < 2147483648"
  shows "unat (of_nat (4096 * k) :: u32) = 4096 * k" "(of_nat (4096 * k) :: u32) mod PGSIZE = 0"
    "(of_nat (4096 * k) :: u32) < KERNBASE" "(of_nat (4096 * k) :: u32) + PGSIZE = of_nat (4096 * Suc k)"
proof -
  show u: "unat (of_nat (4096 * k) :: u32) = 4096 * k" by (intro unat_of_nat_lt) (use assms in simp)
  show "(of_nat (4096 * k) :: u32) mod PGSIZE = 0" unfolding word_unat_eq_iff unat_mod u by (simp add: PGSIZE_def)
  show "(of_nat (4096 * k) :: u32) < KERNBASE" unfolding word_less_nat_alt u using assms by (simp add: KERNBASE_def)
  show "(of_nat (4096 * k) :: u32) + PGSIZE = of_nat (4096 * Suc k)" by (simp add: PGSIZE_def algebra_simps)
qed

lemma grow_loop:
  assumes "grown L s0 ps0 d old s ps (of_nat (4096 * k))" "zeroed (kmem s) d old (of_nat (4096 * k))" "L_cons \<notin> L"
    and "old \<le> of_nat (4096 * k)" "new < KERNBASE" "\<forall>i < n. 4096 * (k + i) < unat new"
  shows "if n + card (PDX ` page_run k n - pde_set (kmem s) d) \<le> length ps
    then \<exists>t qs. kloop (map (\<lambda>i. of_nat (4096 * (k + i))) [0..<n]) (grow_page d old new) s = Ok None t
      \<and> grown L s0 ps0 d old t qs (of_nat (4096 * (k + n))) \<and> zeroed (kmem t) d old (of_nat (4096 * (k + n)))
    else \<exists>t qs. kloop (map (\<lambda>i. of_nat (4096 * (k + i))) [0..<n]) (grow_page d old new) s = Ok (Some 0) t \<and> grown L s0 ps0 d old t qs old"
  using assms
proof (induction n arbitrary: k s ps)
  case 0
  then show ?case by (auto simp: page_run_def)
next
  case (Suc n)
  let ?z = "of_nat (4096 * k) :: u32" let ?P = "pde_set (kmem s) d"
  let ?f = "\<lambda>k n. map (\<lambda>i. of_nat (4096 * (k + i)) :: u32) [0..<n]"
  have new: "unat new < 2147483648" using Suc.prems(5) by (simp add: word_less_nat_alt KERNBASE_def)
  have zn: "4096 * k < unat new" using Suc.prems(6) by force
  then have k: "4096 * k < 2147483648" using new by simp
  note Z = page_nat [OF k]
  have zlt: "?z < new" using zn by (simp add: word_less_nat_alt Z(1) del: of_nat_mult)
  have fS: "?f k (Suc n) = ?z # ?f (Suc k) n"
    by (simp add: upt_conv_Cons map_Suc_upt [symmetric] o_def del: upt_Suc)
  have c: "card (PDX ` page_run k (Suc n) - ?P) = card ({PDX ?z} - ?P) + card (PDX ` page_run (Suc k) n - insert (PDX ?z) ?P)"
    using needed_split [of "{PDX ?z}" "PDX ` page_run (Suc k) n" ?P] unfolding page_run_Suc by simp
  show ?case
  proof (cases "1 + card ({PDX ?z} - ?P) \<le> length ps")
    case True
    then obtain q rs where ps: "ps = q # rs" by (cases ps) auto
    have room: "rs \<noteq> [] \<or> PDX ?z \<in> ?P" using True ps by (cases rs) auto
    obtain t qs where t: "grow_page d old new ?z s = Ok None t" "grown L s0 ps0 d old t qs (?z + PGSIZE)" "zeroed (kmem t) d old (?z + PGSIZE)"
      "length qs + card ({PDX ?z} - ?P) = length rs" "pde_set (kmem t) d = insert (PDX ?z) ?P"
      using grow_page_ok [OF Suc.prems(1) [unfolded ps] Suc.prems(2) Z(2,3) Suc.prems(4) room] by blast
    note t = t [unfolded Z(4)]
    have old: "old \<le> of_nat (4096 * Suc k)"
      using Suc.prems(4) page_step_less(5) [OF Z(2,3)] unfolding Z(4) by (simp add: word_le_nat_alt)
    have lt: "\<forall>i < n. 4096 * (Suc k + i) < unat new" using Suc.prems(6) by force
    have e: "Suc k + n = k + Suc n" by simp
    have cc: "n + card (PDX ` page_run (Suc k) n - pde_set (kmem t) d) \<le> length qs
        \<longleftrightarrow> Suc n + card (PDX ` page_run k (Suc n) - ?P) \<le> length ps"
      unfolding t(5) c ps length_Cons using t(4) by (intro iffI) linarith+
    have run: "kloop (?f k (Suc n)) (grow_page d old new) s = kloop (?f (Suc k) n) (grow_page d old new) t"
      unfolding fS using t(1) by (simp add: kbind_def)
    show ?thesis using Suc.IH [OF t(2,3) Suc.prems(3) old Suc.prems(5) lt] unfolding cc run e .
  next
    case False
    have "ps = [] \<or> (\<exists>q. ps = [q] \<and> PDX ?z \<notin> ?P)"
    proof (cases ps)
      case (Cons q rs)
      have "card ({PDX ?z} - ?P) = (if PDX ?z \<in> ?P then 0 else 1)" by (auto simp: insert_Diff_if)
      then show ?thesis using False Cons by (cases "PDX ?z \<in> ?P"; cases rs) simp_all
    qed simp
    then obtain t qs where t: "grow_page d old new ?z s = Ok (Some 0) t" "grown L s0 ps0 d old t qs old"
      using grow_page_fails [OF Suc.prems(1) Z(2) zlt Suc.prems(4) _ Suc.prems(3)] Suc.prems(5) by (metis order_less_imp_le)
    have "\<not> Suc n + card (PDX ` page_run k (Suc n) - ?P) \<le> length ps" using False c by simp
    moreover have "kloop (?f k (Suc n)) (grow_page d old new) s = Ok (Some 0) t" unfolding fS using t(1) by (simp add: kbind_def)
    ultimately show ?thesis using t(2) by auto
  qed
qed

text \<open>The pages from \<open>old\<close> to \<open>new\<close>.\<close>

definition pages_between :: "u32 \<Rightarrow> u32 \<Rightarrow> u32 set" where
  "pages_between old new = {v. v mod PGSIZE = 0 \<and> old \<le> v \<and> v < new}"

lemma pages_between_run:
  assumes "old \<le> new" "new < KERNBASE"
  defines "k \<equiv> (unat old + 4095) div 4096" and "n \<equiv> (unat new - (unat old + 4095) div 4096 * 4096 + 4095) div 4096"
  shows "pages_between old new = page_run k n" "card (pages_between old new) = n"
    "PGROUNDUP old = of_nat (4096 * k)" "4096 * k < 2147483648 + 4096" "\<forall>i < n. 4096 * (k + i) < unat new"
    "map (\<lambda>i. PGROUNDUP old + i) (if PGROUNDUP old < new then page_offsets (new - PGROUNDUP old) else [])
      = map (\<lambda>i. of_nat (4096 * (k + i))) [0..<n]"
    "PGROUNDDOWN v < of_nat (4096 * (k + n)) \<longleftrightarrow> PGROUNDDOWN v < old \<or> PGROUNDDOWN v < new"
    "old \<le> of_nat (4096 * k)"
proof -
  have new: "unat new < 2147483648" using assms(2) by (simp add: word_less_nat_alt KERNBASE_def)
  have on: "unat old \<le> unat new" using assms(1) by (simp add: word_le_nat_alt)
  have up: "unat (PGROUNDUP old) = 4096 * k" using new on unfolding k_def by (subst PGROUNDUP_unat) simp_all
  show pu: "PGROUNDUP old = of_nat (4096 * k)"
  proof -
    have "PGROUNDUP old = of_nat (unat (PGROUNDUP old))" by simp
    then show ?thesis unfolding up .
  qed
  have kb: "unat old \<le> 4096 * k" "4096 * k < unat old + 4096" unfolding k_def by linarith+
  then show "4096 * k < 2147483648 + 4096" using on new by linarith
  show "old \<le> of_nat (4096 * k)" using kb(1) unfolding word_le_nat_alt pu [symmetric] up .
  have nb: "n = (unat new - 4096 * k + 4095) div 4096" unfolding n_def k_def by (simp add: mult.commute)
  have nlt: "i < n \<longleftrightarrow> 4096 * (k + i) < unat new" for i
  proof -
    have "i < n \<longleftrightarrow> i + 1 \<le> (unat new - 4096 * k + 4095) div 4096" unfolding nb by linarith
    also have "\<dots> \<longleftrightarrow> (i + 1) * 4096 \<le> unat new - 4096 * k + 4095" by (simp only: less_eq_div_iff_mult_less_eq zero_less_numeral)
    finally show ?thesis by auto
  qed
  then show lt: "\<forall>i < n. 4096 * (k + i) < unat new" by blast
  have lt31: "4096 * (k + i) < 2147483648" if "i < n" for i using lt that new by (meson order_less_trans)
  show run: "pages_between old new = page_run k n"
  proof (intro set_eqI iffI)
    fix v assume v: "v \<in> pages_between old new"
    then obtain j where j: "unat v = 4096 * j" using page_mult [of v] by (auto simp: pages_between_def)
    have "unat old \<le> 4096 * j" "4096 * j < unat new"
      using v by (simp_all add: pages_between_def word_le_nat_alt word_less_nat_alt j)
    then have "k \<le> j" using kb by linarith
    then have e: "k + (j - k) = j" by simp
    have "v = of_nat (unat v)" by simp
    then have "v = of_nat (4096 * (k + (j - k)))" unfolding j e .
    moreover have "j - k < n" unfolding nlt e by fact
    ultimately show "v \<in> page_run k n" unfolding page_run_def by blast
  next
    fix v assume "v \<in> page_run k n"
    then obtain i where i: "i < n" "v = of_nat (4096 * (k + i))" by (auto simp: page_run_def)
    note P = page_nat [OF lt31 [OF i(1)]]
    have "old \<le> v" unfolding i(2) word_le_nat_alt P(1) using kb(1) by simp
    moreover have "v < new" unfolding i(2) word_less_nat_alt P(1) using lt i(1) by blast
    ultimately show "v \<in> pages_between old new" using P(2) unfolding pages_between_def i(2) by blast
  qed
  have "inj_on (\<lambda>i. of_nat (4096 * (k + i)) :: u32) {..<n}"
  proof (rule inj_onI)
    fix i j assume ij: "i \<in> {..<n}" "j \<in> {..<n}" "(of_nat (4096 * (k + i)) :: u32) = of_nat (4096 * (k + j))"
    have "unat (of_nat (4096 * (k + i)) :: u32) = unat (of_nat (4096 * (k + j)) :: u32)" unfolding ij(3) ..
    then have "4096 * (k + i) = 4096 * (k + j)" unfolding page_nat(1) [OF lt31 [OF ij(1) [unfolded lessThan_iff]]] page_nat(1) [OF lt31 [OF ij(2) [unfolded lessThan_iff]]] .
    then show "i = j" by simp
  qed
  then show "card (pages_between old new) = n" unfolding run page_run_def by (simp add: card_image)
  show "map (\<lambda>i. PGROUNDUP old + i) (if PGROUNDUP old < new then page_offsets (new - PGROUNDUP old) else [])
      = map (\<lambda>i. of_nat (4096 * (k + i))) [0..<n]"
  proof (cases "PGROUNDUP old < new")
    case True
    then have "unat (new - PGROUNDUP old) = unat new - 4096 * k" by (simp add: unat_sub order_less_imp_le up)
    then have "page_offsets (new - PGROUNDUP old) = map (\<lambda>i. of_nat (i * 4096)) [0..<n]" unfolding page_offsets_def nb by simp
    moreover have "(of_nat (4096 * k) :: u32) + of_nat (i * 4096) = of_nat (4096 * (k + i))" for i by (simp add: algebra_simps)
    ultimately have "map (\<lambda>i. PGROUNDUP old + i) (page_offsets (new - PGROUNDUP old)) = map (\<lambda>i. of_nat (4096 * (k + i))) [0..<n]"
      unfolding pu by (simp only: map_map o_def)
    then show ?thesis unfolding if_P [OF True] .
  next
    case False
    then have "unat new \<le> 4096 * k" by (simp add: word_less_nat_alt up)
    then have "n = 0" unfolding nb by simp
    then show ?thesis using False by simp
  qed
  have top: "unat (of_nat (4096 * (k + n)) :: u32) = 4096 * (k + n)"
  proof (cases n)
    case 0
    then show ?thesis using kb on new by (intro unat_of_nat_lt) simp
  next
    case (Suc m)
    then show ?thesis using lt31 [of m] by (intro unat_of_nat_lt) simp
  qed
  have w: "unat (PGROUNDDOWN v) = 4096 * (unat v div 4096)" by (simp add: PGROUNDDOWN_unat)
  let ?w = "unat v div 4096"
  have "4096 * ?w < 4096 * (k + n) \<longleftrightarrow> ?w < k + n" by (rule nat_mult_less_cancel1) simp
  then have "PGROUNDDOWN v < of_nat (4096 * (k + n)) \<longleftrightarrow> ?w < k + n" unfolding word_less_nat_alt top w .
  moreover have "PGROUNDDOWN v < old \<longleftrightarrow> ?w < k" unfolding word_less_nat_alt w using kb by linarith
  moreover have "PGROUNDDOWN v < new \<longleftrightarrow> ?w - k < n" if "k \<le> ?w" unfolding word_less_nat_alt w using nlt [of "?w - k"] that by simp
  moreover have "k \<le> ?w \<Longrightarrow> ?w < k + n \<longleftrightarrow> ?w - k < n" by linarith
  ultimately show "PGROUNDDOWN v < of_nat (4096 * (k + n)) \<longleftrightarrow> PGROUNDDOWN v < old \<or> PGROUNDDOWN v < new"
    by (cases "k \<le> ?w") (simp_all add: not_le del: of_nat_mult of_nat_add)
qed

lemma uspace_size:
  assumes "uspace L s ps d z" "z' \<le> KERNBASE" "\<And>v. v < KERNBASE \<Longrightarrow> PGROUNDDOWN v < z' \<longleftrightarrow> PGROUNDDOWN v < z"
  shows "uspace L s ps d z'"
  using assms by (simp add: uspace_def)

lemma grown_size:
  assumes "grown L s0 ps0 d old s ps z" "z' \<le> KERNBASE" "\<And>v. v < KERNBASE \<Longrightarrow> PGROUNDDOWN v < z' \<longleftrightarrow> PGROUNDDOWN v < z"
  shows "grown L s0 ps0 d old s ps z'"
proof -
  have "uspace L s ps d z" using assms(1) by (simp add: grown_def)
  from uspace_size [OF this assms(2,3)] assms(1) show ?thesis by (simp add: grown_def)
qed

lemma allocuvm_in:
  assumes U: "uspace L s ps d old" and s: "use_lock s" "on_screen s" "L_cons \<notin> L" and new: "old \<le> new" "new < KERNBASE"
  shows "if card (pages_between old new) + card (PDX ` pages_between old new - pde_set (kmem s) d) \<le> length ps
    then \<exists>t qs. allocuvm d old new s = Ok new t \<and> grown L s ps d old t qs new \<and> zeroed (kmem t) d old new
    else \<exists>t qs. allocuvm d old new s = Ok 0 t \<and> grown L s ps d old t qs old"
proof -
  note R = pages_between_run [OF new]
  obtain k n where P: "pages_between old new = page_run k n" "card (pages_between old new) = n"
    "4096 * k < 2147483648 + 4096" "\<forall>i < n. 4096 * (k + i) < unat new"
    "map (\<lambda>i. PGROUNDUP old + i) (if PGROUNDUP old < new then page_offsets (new - PGROUNDUP old) else [])
      = map (\<lambda>i. of_nat (4096 * (k + i))) [0..<n]"
    "\<forall>v. PGROUNDDOWN v < of_nat (4096 * (k + n)) \<longleftrightarrow> PGROUNDDOWN v < old \<or> PGROUNDDOWN v < new" "old \<le> of_nat (4096 * k)"
    "PGROUNDUP old = of_nat (4096 * k)"
    using that [OF R(1,2,4,5,6) allI [OF R(7)] R(8,3)] by blast
  have oK: "old \<le> KERNBASE" using new by simp
  have up: "PGROUNDDOWN v < of_nat (4096 * k) \<longleftrightarrow> PGROUNDDOWN v < old" for v
    using PGROUNDUP_le [OF oK, of "PGROUNDDOWN v"] unfolding P(8) PGROUNDDOWN_idem by (simp add: not_le [symmetric])
  have kK: "(of_nat (4096 * k) :: u32) \<le> KERNBASE"
  proof -
    have "k \<le> 524288" using P(3) by simp
    then have "unat (of_nat (4096 * k) :: u32) = 4096 * k" by (intro unat_of_nat_lt) simp
    then show ?thesis using \<open>k \<le> 524288\<close> by (simp add: word_le_nat_alt KERNBASE_def del: of_nat_mult)
  qed
  have G: "grown L s ps d old s ps (of_nat (4096 * k))"
    by (rule grown_size [OF grown_refl [OF U s(1,2)] kK]) (rule up)
  have Z: "zeroed (kmem s) d old (of_nat (4096 * k))" using up by (simp add: zeroed_def not_le [symmetric])
  note run = grow_loop [OF G Z s(3) P(7) new(2) P(4)]
  have fin: "PGROUNDDOWN v < new \<longleftrightarrow> PGROUNDDOWN v < of_nat (4096 * (k + n))" for v using P(6) new(1) by auto
  have a: "allocuvm d old new s' = (case kloop (map (\<lambda>i. of_nat (4096 * (k + i))) [0..<n]) (grow_page d old new) s' of
      Ok None t \<Rightarrow> Ok new t | Ok (Some v) t \<Rightarrow> Ok v t | Panic m \<Rightarrow> Panic m | Spin \<Rightarrow> Spin | Switch t \<Rightarrow> Switch t | Undef \<Rightarrow> Undef)" for s' :: "'a mem_st_scheme"
    using new unfolding allocuvm_alt Let_def P(5) by (auto simp: kbind_def not_le not_less split: res.split option.split)
  show ?thesis
  proof (cases "n + card (PDX ` page_run k n - pde_set (kmem s) d) \<le> length ps")
    case True
    then obtain t qs where t: "kloop (map (\<lambda>i. of_nat (4096 * (k + i))) [0..<n]) (grow_page d old new) s = Ok None t"
      "grown L s ps d old t qs (of_nat (4096 * (k + n)))" "zeroed (kmem t) d old (of_nat (4096 * (k + n)))" using run by auto
    have "grown L s ps d old t qs new" by (rule grown_size [OF t(2)]) (use new(2) fin in auto)
    moreover have "zeroed (kmem t) d old new" using t(3) unfolding zeroed_def fin .
    moreover have "allocuvm d old new s = Ok new t" unfolding a t(1) by simp
    ultimately show ?thesis unfolding P(2) unfolding P(1) using True by auto
  next
    case False
    then obtain t qs where t: "kloop (map (\<lambda>i. of_nat (4096 * (k + i))) [0..<n]) (grow_page d old new) s = Ok (Some 0) t"
      "grown L s ps d old t qs old" using run by auto
    have "allocuvm d old new s = Ok 0 t" unfolding a t(1) by simp
    then show ?thesis unfolding P(2) unfolding P(1) using False t(2) by auto
  qed
qed

end
