(* ===== verification/Copyuvm.thy ===== *)
theory Copyuvm
  imports Uvm
begin

text \<open>
  \<open>copyuvm\<close>, which \<open>fork\<close> uses: a second address space with the same contents, on its own pages.
\<close>

section \<open>Permissions\<close>

lemma and_bits: "(x :: u32) AND need = need \<longleftrightarrow> (\<forall>n. bit need n \<longrightarrow> bit x n)"
  using bit_imp_le_length [of need] by (auto simp: bit_eq_iff bit_and_iff)

lemma access_bits: "access need \<Longrightarrow> bit need n \<Longrightarrow> n < 3"
proof -
  assume a: "access need" "bit need n"
  then have p: "bit PTE_PWU n" using and_bits [of PTE_PWU need] by (auto simp: access_def)
  have "PTE_PWU = mask 3" by (simp add: PTE_PWU_def PTE_P_def PTE_W_def PTE_U_def mask_eq_exp_minus_1)
  then have "bit (mask 3 :: u32) n" using p by (rule subst)
  then show ?thesis unfolding bit_mask_iff by blast
qed

text \<open>The flags \<open>copyuvm\<close> takes over let through exactly what the parent's entry does.\<close>

lemma flags_same:
  assumes "access need" "bit e 0"
  shows "(PTE_FLAGS e OR PTE_P) AND need = need \<longleftrightarrow> e AND need = need"
proof -
  have m: "(0xFFF :: u32) = mask 12" by (simp add: mask_eq_exp_minus_1)
  have "bit (PTE_FLAGS e OR PTE_P) n \<longleftrightarrow> bit e n" if "n < 3" for n
    using that assms(2) unfolding PTE_FLAGS_def m PTE_P_def by (auto simp: bit_simps)
  then show ?thesis unfolding and_bits using access_bits [OF assms(1)] by blast
qed

lemma flags_small: "PTE_FLAGS e < 4096"
proof -
  have "unat (PTE_FLAGS e) = unat e mod 4096" unfolding PTE_FLAGS_def by (rule unat_low12)
  then show ?thesis by (simp add: word_less_nat_alt)
qed

text \<open>A present table entry decides alone: the directory entries allow everything.\<close>

lemma mmu_entry:
  assumes "pt_ok m d F" "mmu_addr m d PTE_P v \<noteq> None" "access need"
  shows "mmu_addr m d need v = (if ld32 (pte_at m d v) m AND need = need then Some (frame_at m d v + (v AND 0xFFF)) else None)"
    "bit (ld32 (pte_at m d v) m) 0"
proof -
  have b: "bit (pde_word m d (PDX v)) 0" by (rule mapped_dir [OF assms(2)])
  then have "pde_word m d (PDX v) AND PTE_PWU = PTE_PWU" using assms(1) PDX_less by (auto simp: pt_ok_def)
  then have "ld32 (pde_at d v) m AND need = need"
    unfolding pde_word_at using assms(3) and_sub [of _ PTE_PWU need] by (simp add: access_def)
  then show "mmu_addr m d need v = (if ld32 (pte_at m d v) m AND need = need then Some (frame_at m d v + (v AND 0xFFF)) else None)"
    by (simp add: mmu_addr_alt)
  have "ld32 (pte_at m d v) m AND PTE_P = PTE_P" using assms(2) by (simp add: mmu_addr_alt split: if_splits)
  then show "bit (ld32 (pte_at m d v) m) 0" unfolding pte_flag_bits(1) by (simp add: PTE_P_def split: if_splits)
qed

section \<open>The loop\<close>

definition copy_page :: "u32 \<Rightarrow> u32 \<Rightarrow> u32 \<Rightarrow> (unit option, 'x mem_st_scheme) kern" where
  "copy_page pgdir d i =
     kbind (walkpgdir pgdir i False) (\<lambda>pte.
     if pte = 0 then kpanic ''copyuvm: pte should exist''
     else
       kbind (rd32 pte) (\<lambda>e.
       if e AND PTE_P = 0 then kpanic ''copyuvm: page not present''
       else
         kbind kalloc (\<lambda>m.
         if m = 0 then kret (Some ())
         else
           kseq (upd_mem (memmove (unat m) (unat (P2V (PTE_ADDR e))) (unat PGSIZE))) (
           kbind (mappages d i PGSIZE (V2P m) (PTE_FLAGS e)) (\<lambda>r.
           if r < 0 then kseq (kfree m) (kret (Some ())) else kret None)))))"

lemma copyuvm_alt:
  "copyuvm pgdir sz =
     kbind setupkvm (\<lambda>d.
     if d = 0 then kret 0
     else
       kbind (kloop (page_offsets sz) (copy_page pgdir d)) (\<lambda>bad.
       case bad of
         Some _ \<Rightarrow> kseq (freevm d) (kret 0)
       | None \<Rightarrow> kret d))"
  unfolding copyuvm_def copy_page_def [abs_def] ..

text \<open>Parent \<open>d\<close> with its \<open>sz\<close> bytes as in \<open>s0\<close>, child \<open>c\<close> with the first \<open>z\<close> bytes of them.\<close>

definition copying :: "lockid set \<Rightarrow> 'x mem_st_scheme \<Rightarrow> u32 list \<Rightarrow> u32 \<Rightarrow> u32 \<Rightarrow> u32 \<Rightarrow> 'x mem_st_scheme \<Rightarrow> u32 list \<Rightarrow> u32 \<Rightarrow> bool" where
  "copying L s0 ps0 d sz c s ps z \<longleftrightarrow> uspace L s ps c z \<and> uspace L s ps d sz \<and> alloc_frame s0 s
     \<and> spages (kmem s) d = spages (kmem s0) d \<and> spages (kmem s) c \<union> set ps = set ps0
     \<and> (\<forall>need v. access need \<longrightarrow> mmu_addr (kmem s) d need v = mmu_addr (kmem s0) d need v)
     \<and> (\<forall>need v. access need \<longrightarrow> v < KERNBASE \<longrightarrow> seen (kmem s) d need v = seen (kmem s0) d need v)
     \<and> (\<forall>need v. access need \<longrightarrow> PGROUNDDOWN v < z \<longrightarrow> seen (kmem s) c need v = seen (kmem s0) d need v)
     \<and> (\<forall>need v. access need \<longrightarrow> KERNBASE \<le> v \<longrightarrow> mmu_addr (kmem s) c need v = kernel_addr (kdata s0) need v)"

lemma copyingD:
  assumes "copying L s0 ps0 d sz c s ps z"
  shows "uspace L s ps c z" "uspace L s ps d sz" "alloc_frame s0 s" "spages (kmem s) d = spages (kmem s0) d"
    "spages (kmem s) c \<union> set ps = set ps0"
    "access need \<Longrightarrow> mmu_addr (kmem s) d need v = mmu_addr (kmem s0) d need v"
    "access need \<Longrightarrow> v < KERNBASE \<Longrightarrow> seen (kmem s) d need v = seen (kmem s0) d need v"
    "access need \<Longrightarrow> PGROUNDDOWN v < z \<Longrightarrow> seen (kmem s) c need v = seen (kmem s0) d need v"
    "access need \<Longrightarrow> KERNBASE \<le> v \<Longrightarrow> mmu_addr (kmem s) c need v = kernel_addr (kdata s0) need v"
  using assms unfolding copying_def by blast+

lemma unseen: "uspace L s ps d z \<Longrightarrow> access need \<Longrightarrow> v < KERNBASE \<Longrightarrow> \<not> PGROUNDDOWN v < z \<Longrightarrow> seen (kmem s) d need v = None"
  using uspaceD(7) mmu_none by (fastforce simp: seen_def)

lemma spages_pages: "uspace L s ps d z \<Longrightarrow> \<forall>p \<in> spages (kmem s) d. p mod PGSIZE = 0"
  using spages_ok(2) page_ok_def by metis

lemma tables_spages: "insert d (tables m d) \<subseteq> spages m d"
  by (auto simp: spages_def)

text \<open>The page that is copied, as the parent has it.\<close>

lemma parent_page:
  assumes "uspace L s ps d sz" "z mod PGSIZE = 0" "z < KERNBASE" "z < sz"
  shows "walkpgdir d z False s = Ok (pte_at (kmem s) d z) s" "pte_at (kmem s) d z \<noteq> 0"
    "ld32 (pte_at (kmem s) d z) (kmem s) AND PTE_P \<noteq> 0" "frame_at (kmem s) d z \<in> spages (kmem s) d"
    "PGROUNDDOWN v = z \<Longrightarrow> access need \<Longrightarrow> seen (kmem s) d need v
       = (if ld32 (pte_at (kmem s) d z) (kmem s) AND need = need then Some (kmem s (unat (frame_at (kmem s) d z) + unat v mod 4096)) else None)"
proof -
  note D = uspaceD [OF assms(1)]
  let ?m = "kmem s"
  have zz: "PGROUNDDOWN z = z" using page_last [OF assms(2)] by simp
  have M: "mmu_addr ?m d PTE_P z \<noteq> None" using D(7) [OF assms(3)] zz assms(4) by simp
  show "walkpgdir d z False s = Ok (pte_at ?m d z) s" using walk_false(1) mapped_dir [OF M] by blast
  show "pte_at ?m d z \<noteq> 0" using pte_at_nonzero [OF D(2)] mapped_dir [OF M] by blast
  show "ld32 (pte_at ?m d z) ?m AND PTE_P \<noteq> 0" using mmu_entry(2) [OF D(2) M access_P] unfolding pte_flag_bits(1) by simp
  show "frame_at ?m d z \<in> spages ?m d" by (rule frame_in [OF assms(3) M])
  assume v: "PGROUNDDOWN v = z" "access need"
  have vK: "v < KERNBASE" unfolding low_page [of v] v(1) by (rule assms(3))
  have Mv: "mmu_addr ?m d PTE_P v \<noteq> None" using D(7) [OF vK] v(1) assms(4) by simp
  have S: "pte_at ?m d v = pte_at ?m d z" "frame_at ?m d v = frame_at ?m d z"
    using same_page(2,3) [of v z] v(1) zz by simp_all
  have "unat (frame_at ?m d z + (v AND 0xFFF)) = unat (frame_at ?m d z) + unat v mod 4096"
    unfolding frame_at_def by (rule P2V_page)
  then show "seen ?m d need v = (if ld32 (pte_at ?m d z) ?m AND need = need then Some (?m (unat (frame_at ?m d z) + unat v mod 4096)) else None)"
    by (simp add: seen_def mmu_entry(1) [OF D(2) Mv v(2)] S)
qed

text \<open>Memory is written outside both spaces.\<close>

lemma copying_other:
  assumes C: "copying L s0 ps0 d sz c s ps z" and b: "bytes_kept P (kmem s) (kmem t)" "\<forall>q \<in> P. q mod PGSIZE = 0"
    and P: "spages (kmem s) c \<inter> P = {}" "spages (kmem s) d \<inter> P = {}" and t: "alloc_inv L t ps" "alloc_frame s t"
  shows "copying L s0 ps0 d sz c t ps z"
proof -
  note C' = copyingD [OF C]
  have k: "kend t = kend s" using t(2) by (simp add: alloc_frame_def)
  note c = uspace_other [OF C'(1) b P(1) t(1) k spages_ok(1) [OF C'(1)]]
  note d = uspace_other [OF C'(2) b P(2) t(1) k spages_ok(1) [OF C'(2)]]
  have z: "v < KERNBASE" if "PGROUNDDOWN v < z" for v
    unfolding low_page [of v] using that uspaceD(5) [OF C'(1)] by (rule order_less_le_trans)
  show ?thesis
    unfolding copying_def
  proof (intro conjI allI impI)
    show "alloc_frame s0 t" using C'(3) t(2) by (rule alloc_frame_trans)
    fix need v assume n: "access need"
    show "mmu_addr (kmem t) d need v = mmu_addr (kmem s0) d need v" using d(4) C'(6) n by simp
    show "seen (kmem t) d need v = seen (kmem s0) d need v" if "v < KERNBASE" using d(5) [OF n that] C'(7) [OF n that] by simp
    show "seen (kmem t) c need v = seen (kmem s0) d need v" if "PGROUNDDOWN v < z" using c(5) [OF n z [OF that]] C'(8) [OF n that] by simp
    show "mmu_addr (kmem t) c need v = kernel_addr (kdata s0) need v" if "KERNBASE \<le> v" using c(4) n C'(9) [OF n that] by simp
  qed (use c(1,2) d(1,2) C'(4,5) in simp_all)
qed

lemma memmove_page: "bytes_kept {q} m (memmove (unat q) f 4096 m)" "i < 4096 \<Longrightarrow> memmove (unat q) f 4096 m (unat q + i) = m (f + i)"
  by (auto simp: bytes_kept_def memmove_copies)

lemma copying_apart:
  assumes "uspace L s0 ps0 d sz" "copying L s0 ps0 d sz c s ps z"
  shows "spages (kmem s) c \<inter> spages (kmem s) d = {}"
  using spages_ok(1) [OF assms(1)] copyingD(4,5) [OF assms(2)] by auto

lemma copy_page_refused:
  assumes C: "copying L s0 ps0 d sz c s ps z" and z: "z mod PGSIZE = 0" "z < KERNBASE" "z < sz"
    and room: "ps = [] \<or> (\<exists>q. ps = [q] \<and> PDX z \<notin> pde_set (kmem s) c)"
  shows "\<exists>t. copy_page d c z s = Ok (Some ()) t \<and> copying L s0 ps0 d sz c t ps z"
proof -
  note C' = copyingD [OF C] and W = parent_page [OF copyingD(2) [OF C] z]
  let ?e = "ld32 (pte_at (kmem s) d z) (kmem s)"
  from room show ?thesis
  proof (elim disjE exE conjE)
    assume ps: "ps = []"
    obtain a where a: "kalloc s = Ok 0 a" "alloc_inv L a []" "alloc_frame s a" "kmem a = kmem s"
      using kalloc_in [OF uspaceD(1) [OF C'(1)]] ps by auto
    have "copying L s0 ps0 d sz c a ps z" by (rule copying_other [OF C, of "{}"]) (use a ps in simp_all)
    moreover have "copy_page d c z s = Ok (Some ()) a" using a(1) W(1-3) by (simp add: copy_page_def kbind_def rd32_def)
    ultimately show ?thesis by blast
  next
    fix q assume q: "ps = [q]" "PDX z \<notin> pde_set (kmem s) c"
    have Uc: "uspace L s [q] c z" and Ud: "uspace L s [q] d sz" using C'(1,2) q(1) by simp_all
    obtain a where a: "kalloc s = Ok q a" "q \<noteq> 0" "kmem a = kmem s" "alloc_frame s a" "page_ok (kend s) q" "q \<notin> spages (kmem s) c"
      "\<forall>m. bytes_kept {q} (kmem s) m \<longrightarrow> alloc_inv L (a\<lparr>kmem := m\<rparr>) []" using fresh_page [OF Uc] by blast
    define u where "u = a\<lparr>kmem := memmove (unat q) (unat (frame_at (kmem s) d z)) 4096 (kmem a)\<rparr>"
    have u: "bytes_kept {q} (kmem s) (kmem u)" "alloc_inv L u []" "alloc_frame s u"
      using a(3,4,7) memmove_page(1) by (simp_all add: u_def)
    note F = fresh_space [OF Uc u]
    obtain b where b: "mappages c z PGSIZE (V2P q) (PTE_FLAGS ?e) u = Ok (-1) b" "kmem b = kmem u" "alloc_inv L b []" "alloc_frame u b"
      using page_refused [OF F(1) z(1), of "V2P q" "PTE_FLAGS ?e"] q(2) F(3) by auto
    have k: "kend b = kend s" using u(3) b(4) by (simp add: alloc_frame_def)
    have q2: "page_ok (kend b) q" "q \<notin> set []" using a(5) k by simp_all
    obtain w where w: "kfree q b = Ok () w" "alloc_inv L w [q]" "alloc_frame b w"
      "\<forall>x. x < unat q \<or> unat q + 4096 \<le> x \<longrightarrow> kmem w x = kmem b x"
      using kfree_in [OF b(3) q2] by blast
    have "bytes_kept {q} (kmem b) (kmem w)" using w(4) by (simp add: bytes_kept_def)
    then have bw: "bytes_kept {q} (kmem s) (kmem w)" using bytes_kept_same [OF u(1)] b(2) by simp
    have fw: "alloc_frame s w" using u(3) b(4) w(3) by (meson alloc_frame_trans)
    have "q \<notin> spages (kmem s) d" using spages_ok(1) [OF Ud] by auto
    then have "copying L s0 ps0 d sz c w ps z"
      using a(5,6) w(2) q(1) by (intro copying_other [OF C bw _ _ _ _ fw]) (auto simp: page_ok_def)
    moreover have "copy_page d c z s = Ok (Some ()) w"
      using a(1,2) b(1) w(1) W(1-3) by (simp add: copy_page_def kbind_def kseq_def rd32_def upd_mem_def u_def PGSIZE_def frame_at_def)
    ultimately show ?thesis by blast
  qed
qed

lemma copy_page_ok:
  assumes U0: "uspace L s0 ps0 d sz" and C: "copying L s0 ps0 d sz c s (q # rs) z" and z: "z mod PGSIZE = 0" "z < KERNBASE" "z < sz"
    and room: "rs \<noteq> [] \<or> PDX z \<in> pde_set (kmem s) c"
  shows "\<exists>t qs. copy_page d c z s = Ok None t \<and> copying L s0 ps0 d sz c t qs (z + PGSIZE) \<and> length rs \<le> Suc (length qs)"
proof -
  note C' = copyingD [OF C] and W = parent_page [OF copyingD(2) [OF C] z]
  let ?e = "ld32 (pte_at (kmem s) d z) (kmem s)" let ?f = "frame_at (kmem s) d z"
  obtain a where a: "kalloc s = Ok q a" "q \<noteq> 0" "kmem a = kmem s" "alloc_frame s a" "page_ok (kend s) q" "q \<notin> spages (kmem s) c" "q \<notin> set rs"
    "\<forall>m. bytes_kept {q} (kmem s) m \<longrightarrow> alloc_inv L (a\<lparr>kmem := m\<rparr>) rs" using fresh_page [OF C'(1)] by blast
  have qm: "q mod PGSIZE = 0" using a(5) by (simp add: page_ok_def)
  define u where "u = a\<lparr>kmem := memmove (unat q) (unat ?f) 4096 (kmem a)\<rparr>"
  have u: "bytes_kept {q} (kmem s) (kmem u)" "alloc_inv L u rs" "alloc_frame s u"
    using a(3,4,8) memmove_page(1) by (simp_all add: u_def)
  note c = fresh_space [OF C'(1) u] and d = fresh_space [OF C'(2) u]
  have k: "kend u = kend s" using u(3) by (simp add: alloc_frame_def)
  have q: "page_ok (kend u) q" "q \<notin> spages (kmem u) c" using a(5,6) k c(2) by simp_all
  have "rs \<noteq> [] \<or> PDX z \<in> pde_set (kmem u) c" using room c(3) by simp
  then obtain t qs where t: "mappages c z PGSIZE (V2P q) (PTE_FLAGS ?e) u = Ok 0 t" "uspace L t qs c (z + PGSIZE)" "alloc_frame u t"
    "length qs + card ({PDX z} - pde_set (kmem u) c) = length rs"
    "spages (kmem t) c \<union> set qs = insert q (spages (kmem u) c \<union> set rs)"
    "bytes_kept (insert c (tables (kmem u) c \<union> set rs)) (kmem u) (kmem t)"
    "\<forall>need v. access need \<longrightarrow> mmu_addr (kmem t) c need v
          = (if PGROUNDDOWN v = z then mapped_to (V2P q) (PTE_FLAGS ?e) need v else mmu_addr (kmem u) c need v)"
    using page_added [OF c(1) z(1,2) q a(7) flags_small] by blast
  note S = added_seen [OF c(1) z(1,2) qm q(2) a(7) t(6,7)]
  have kt: "kend t = kend u" using t(3) by (simp add: alloc_frame_def)
  have ap: "spages (kmem u) d \<inter> (insert q (spages (kmem u) c \<union> set rs)) = {}"
    using copying_apart [OF U0 C] spages_ok(1) [OF C'(2)] c(2) d(2) by auto
  have P: "spages (kmem u) d \<inter> insert c (tables (kmem u) c \<union> set rs) = {}" using ap tables_spages [of c "kmem u"] by auto
  have "spages (kmem u) d \<inter> set qs = {}" using ap t(5) by auto
  note p = uspace_other [OF d(1) t(6) space_pages [OF c(1)] P uspaceD(1) [OF t(2)] kt this]
  have low: "v < KERNBASE" if "PGROUNDDOWN v < z" for v unfolding low_page [of v] using that z(2) by (rule order_less_trans)
  have "copying L s0 ps0 d sz c t qs (z + PGSIZE)"
    unfolding copying_def
  proof (intro conjI allI impI)
    show "alloc_frame s0 t" using C'(3) u(3) t(3) by (meson alloc_frame_trans)
    show "spages (kmem t) c \<union> set qs = set ps0" using t(5) c(2) C'(5) by auto
    fix need v assume n: "access need"
    show "mmu_addr (kmem t) d need v = mmu_addr (kmem s0) d need v" using p(4) d(4) C'(6) n by simp
    show "seen (kmem t) d need v = seen (kmem s0) d need v" if "v < KERNBASE" using p(5) d(5) C'(7) n that by simp
    show "mmu_addr (kmem t) c need v = kernel_addr (kdata s0) need v" if "KERNBASE \<le> v"
    proof -
      have "PGROUNDDOWN v \<noteq> z" using that low_page [of v] z(2) by auto
      then show ?thesis using t(7) c(4) [OF n] C'(9) [OF n that] n by simp
    qed
    show "seen (kmem t) c need v = seen (kmem s0) d need v" if v: "PGROUNDDOWN v < z + PGSIZE"
    proof (cases "PGROUNDDOWN v = z")
      case True
      have "unat v mod 4096 < 4096" by simp
      then have "kmem u (unat q + unat v mod 4096) = kmem s (unat ?f + unat v mod 4096)"
        unfolding u_def using memmove_page(2) a(3) by simp
      moreover have "bit ?e 0" using W(3) unfolding pte_flag_bits(1) by (simp split: if_splits)
      ultimately have "seen (kmem t) c need v = seen (kmem s) d need v"
        using S(2) [OF n True] W(5) [OF True n] flags_same [OF n] by simp
      moreover have "v < KERNBASE" unfolding low_page [of v] True by (rule z(2))
      ultimately show ?thesis using C'(7) [OF n] by simp
    next
      case False
      then have "PGROUNDDOWN v < z" using v page_step_less(2) [OF z(1,2)] by blast
      then show ?thesis using S(1) [OF n] c(5) [OF n low] C'(8) [OF n] by simp
    qed
  qed (use t(2) p(1,2) d(2) C'(4) in simp_all)
  moreover have "copy_page d c z s = Ok None t"
    using a(1,2) t(1) W(1-3) by (simp add: copy_page_def kbind_def kseq_def rd32_def upd_mem_def u_def PGSIZE_def frame_at_def)
  moreover have "card ({PDX z} - pde_set (kmem u) c) \<le> 1" using card_mono [of "{PDX z}" "{PDX z} - pde_set (kmem u) c"] by simp
  then have "length rs \<le> Suc (length qs)" using t(4) by simp
  ultimately show ?thesis by blast
qed

lemma copy_pages:
  assumes "uspace L s0 ps0 d sz" "copying L s0 ps0 d sz c s ps (of_nat (4096 * k))" "\<forall>i < n. 4096 * (k + i) < unat sz"
  shows "\<exists>r t qs z. kloop (map (\<lambda>i. of_nat (4096 * (k + i))) [0..<n]) (copy_page d c) s = Ok r t \<and> copying L s0 ps0 d sz c t qs z
    \<and> (if r = None then z = of_nat (4096 * (k + n)) else length ps < 2 * n)"
  using assms(2,3)
proof (induction n arbitrary: k s ps)
  case 0
  then show ?case by (intro exI [of _ None] exI [of _ s] exI [of _ ps]) auto
next
  case (Suc n)
  let ?z = "of_nat (4096 * k) :: u32"
  let ?f = "\<lambda>k n. map (\<lambda>i. of_nat (4096 * (k + i)) :: u32) [0..<n]"
  have sz: "unat sz \<le> 2147483648" using uspaceD(5) [OF assms(1)] by (simp add: word_le_nat_alt KERNBASE_def)
  have zn: "4096 * k < unat sz" using Suc.prems(2) by force
  then have k: "4096 * k < 2147483648" using sz by simp
  note Z = page_nat [OF k]
  have zlt: "?z < sz" using zn by (simp add: word_less_nat_alt Z(1) del: of_nat_mult)
  have fS: "?f k (Suc n) = ?z # ?f (Suc k) n"
    by (simp add: upt_conv_Cons map_Suc_upt [symmetric] o_def del: upt_Suc)
  show ?case
  proof (cases "ps = [] \<or> (\<exists>q. ps = [q] \<and> PDX ?z \<notin> pde_set (kmem s) c)")
    case True
    then have "length ps < 2 * Suc n" by auto
    moreover obtain t where "copy_page d c ?z s = Ok (Some ()) t" "copying L s0 ps0 d sz c t ps ?z"
      using copy_page_refused [OF Suc.prems(1) Z(2,3) zlt True] by blast
    ultimately show ?thesis unfolding fS by (intro exI [of _ "Some ()"] exI [of _ t]) (auto simp: kbind_def)
  next
    case False
    then obtain q rs where ps: "ps = q # rs" by (cases ps) auto
    have room: "rs \<noteq> [] \<or> PDX ?z \<in> pde_set (kmem s) c" using False ps by auto
    obtain t qs where t: "copy_page d c ?z s = Ok None t" "copying L s0 ps0 d sz c t qs (?z + PGSIZE)" "length rs \<le> Suc (length qs)"
      using copy_page_ok [OF assms(1) Suc.prems(1) [unfolded ps] Z(2,3) zlt room] by blast
    have lt: "\<forall>i < n. 4096 * (Suc k + i) < unat sz" using Suc.prems(2) by force
    have e: "Suc k + n = k + Suc n" by simp
    have run: "kloop (?f k (Suc n)) (copy_page d c) s = kloop (?f (Suc k) n) (copy_page d c) t"
      unfolding fS using t(1) by (simp add: kbind_def)
    obtain r u us z where u: "kloop (?f (Suc k) n) (copy_page d c) t = Ok r u" "copying L s0 ps0 d sz c u us z"
      "if r = None then z = of_nat (4096 * (k + Suc n)) else length qs < 2 * n"
      using Suc.IH [OF t(2) [unfolded Z(4)] lt] unfolding e by blast
    have "if r = None then z = of_nat (4096 * (k + Suc n)) else length ps < 2 * Suc n"
      using u(3) t(3) ps by (cases "r = None") simp_all
    then show ?thesis unfolding run using u(1,2) by blast
  qed
qed

section \<open>copyuvm\<close>

lemma kernel_addr_low:
  assumes "kernel_layout data" "v < KERNBASE"
  shows "kernel_addr data need v = None"
proof -
  have "unat v < 0x80000000" using assms(2) by (simp add: word_less_nat_alt KERNBASE_def)
  then have n: "\<not> KERNBASE \<le> v" "\<not> data \<le> v" "\<not> KERNLINK \<le> v" "\<not> DEVSPACE \<le> v"
    using layout_unat(1) [OF assms(1)] by (simp_all add: word_le_nat_alt KERNBASE_def KERNLINK_def EXTMEM_def DEVSPACE_def)
  show ?thesis by (simp add: kernel_addr_def n)
qed

text \<open>The child starts with nothing below \<open>KERNBASE\<close>.\<close>

lemma copying_start:
  assumes U: "uspace L s ps d sz" and lay: "kernel_layout (kdata s)"
    and t: "alloc_inv L t qs" "pt_ok (kmem t) c (set qs)" "alloc_frame s t" "insert c (tables (kmem t) c) \<union> set qs = set ps"
      "bytes_kept (set ps) (kmem s) (kmem t)" "\<forall>need v. access need \<longrightarrow> mmu_addr (kmem t) c need v = kernel_addr (kdata s) need v"
  shows "copying L s ps d sz c t qs 0"
proof -
  note D = uspaceD [OF U]
  have k: "kend t = kend s" using t(3) by (simp add: alloc_frame_def)
  have pg: "\<forall>p \<in> set ps. page_ok (kend s) p" using D(1) by (simp add: alloc_inv_def)
  have none: "mmu_addr (kmem t) c PTE_P v = None" if "v < KERNBASE" for v
    using t(6) access_P kernel_addr_low [OF lay that] by simp
  then have f: "frames (kmem t) c {v. v < KERNBASE} = {}" by (intro frames_none) simp
  have c: "uspace L t qs c 0"
    unfolding uspace_def k
  proof (intro conjI)
    show "owned (kmem t) c (set qs) (kend s) {v. v < KERNBASE}" using none f by (simp add: owned_def)
    show "\<forall>p \<in> insert c (tables (kmem t) c). page_ok (kend s) p" using pg t(4) by blast
    show "\<forall>v < KERNBASE. mmu_addr (kmem t) c PTE_P v \<noteq> None \<longleftrightarrow> PGROUNDDOWN v < 0" using none by simp
  qed (use t D in simp_all)
  have sp: "spages (kmem t) c \<union> set qs = set ps" using t(4) f by (simp add: spages_def)
  have pm: "\<forall>q \<in> set ps. q mod PGSIZE = 0" using pg by (simp add: page_ok_def)
  have "spages (kmem s) d \<inter> set qs = {}" using spages_ok(1) [OF U] t(4) by auto
  note p = uspace_other [OF U t(5) pm spages_ok(1) [OF U] t(1) k this]
  show ?thesis
    unfolding copying_def using c p t(3,6) sp by auto
qed

lemma copyuvm_in:
  assumes U: "uspace L s ps d sz" and lay: "kernel_layout (kdata s)"
  shows "\<exists>r t qs. copyuvm d sz s = Ok r t \<and> uspace L t qs d sz \<and> alloc_frame s t \<and> spages (kmem t) d = spages (kmem s) d
    \<and> (\<forall>need v. access need \<longrightarrow> mmu_addr (kmem t) d need v = mmu_addr (kmem s) d need v)
    \<and> (\<forall>need v. access need \<longrightarrow> v < KERNBASE \<longrightarrow> seen (kmem t) d need v = seen (kmem s) d need v)
    \<and> (65 + 2 * ((unat sz + 4095) div 4096) \<le> length ps \<longrightarrow> r \<noteq> 0) \<and> (length ps < 65 \<longrightarrow> r = 0)
    \<and> (if r = 0 then set qs = set ps else copying L s ps d sz r t qs sz)"
proof -
  note D = uspaceD [OF U]
  let ?n = "(unat sz + 4095) div 4096"
  have sz: "unat sz \<le> 2147483648" using D(5) by (simp add: word_le_nat_alt KERNBASE_def)
  have pm: "\<forall>q \<in> set ps. q mod PGSIZE = 0" using D(1) by (auto simp: alloc_inv_def page_ok_def)
  show ?thesis
  proof (cases "65 \<le> length ps")
    case False
    then obtain t qs where t: "setupkvm s = Ok 0 t" "alloc_inv L t qs" "set qs = set ps" "alloc_frame s t" "bytes_kept (set ps) (kmem s) (kmem t)"
      using setupkvm_in [OF D(1) lay D(6)] by auto
    have k: "kend t = kend s" using t(4) by (simp add: alloc_frame_def)
    have "spages (kmem s) d \<inter> set qs = {}" unfolding t(3) by (rule spages_ok(1) [OF U])
    note p = uspace_other [OF U t(5) pm spages_ok(1) [OF U] t(2) k this]
    have "copyuvm d sz s = Ok 0 t" using t(1) by (simp add: copyuvm_alt kbind_def)
    then show ?thesis using p t(3,4) False by (intro exI [of _ 0] exI [of _ t] exI [of _ qs]) simp
  next
    case True
    then obtain c t0 qs0 where t0: "setupkvm s = Ok c t0" "c \<noteq> 0" "alloc_inv L t0 qs0" "pt_ok (kmem t0) c (set qs0)" "alloc_frame s t0"
      "length qs0 + 65 = length ps" "insert c (tables (kmem t0) c) \<union> set qs0 = set ps" "bytes_kept (set ps) (kmem s) (kmem t0)"
      "\<forall>need v. access need \<longrightarrow> mmu_addr (kmem t0) c need v = kernel_addr (kdata s) need v"
      using setupkvm_in [OF D(1) lay D(6)] unfolding if_P [OF True] by blast
    have C0: "copying L s ps d sz c t0 qs0 (of_nat (4096 * 0))"
      using copying_start [OF U lay t0(3,4,5,7,8,9)] by simp
    have nlt: "\<forall>i < ?n. 4096 * (0 + i) < unat sz"
    proof (intro allI impI)
      fix i assume "i < ?n"
      then have "i + 1 \<le> (unat sz + 4095) div 4096" by linarith
      then have "(i + 1) * 4096 \<le> unat sz + 4095" by (simp only: less_eq_div_iff_mult_less_eq zero_less_numeral)
      then show "4096 * (0 + i) < unat sz" by simp
    qed
    have pages: "page_offsets sz = map (\<lambda>i. of_nat (4096 * (0 + i))) [0..<?n]"
      unfolding page_offsets_def by (simp add: mult.commute)
    obtain r t qs z where t: "kloop (page_offsets sz) (copy_page d c) t0 = Ok r t" "copying L s ps d sz c t qs z"
      "if r = None then z = of_nat (4096 * (0 + ?n)) else length qs0 < 2 * ?n"
      using copy_pages [OF U C0 nlt] unfolding pages by blast
    note C = copyingD [OF t(2)]
    show ?thesis
    proof (cases r)
      case None
      have n: "?n \<le> 524288" using sz by linarith
      have "unat (of_nat (4096 * (0 + ?n)) :: u32) = 4096 * (0 + ?n)" by (intro unat_of_nat_lt) (use n in simp)
      then have zz: "unat z = 4096 * ?n" using t(3) None by (simp only: if_True simp_thms add_0)
      have eq: "PGROUNDDOWN v < sz \<longleftrightarrow> PGROUNDDOWN v < z" for v
      proof -
        have "4096 * (unat v div 4096) < unat sz \<longleftrightarrow> unat v div 4096 < ?n" by linarith
        then show ?thesis by (simp add: word_less_nat_alt PGROUNDDOWN_unat zz mult.commute)
      qed
      have "uspace L t qs c sz" by (rule uspace_size [OF C(1) D(5)]) (rule eq)
      then have G: "copying L s ps d sz c t qs sz" using t(2) unfolding copying_def eq by blast
      have "copyuvm d sz s = Ok c t" using t0(1,2) t(1) None by (simp add: copyuvm_alt kbind_def)
      then show ?thesis using G C(2-4) C(6,7) t0(2) True by (intro exI [of _ c] exI [of _ t] exI [of _ qs]) simp
    next
      case (Some bad)
      note E = uspaceD [OF C(1)]
      obtain w rs where w: "freevm c t = Ok () w" "alloc_inv L w rs" "alloc_frame t w"
        "set rs = set qs \<union> insert c (tables (kmem t) c) \<union> frames (kmem t) c {v. v < KERNBASE}"
        "bytes_kept (insert c (tables (kmem t) c \<union> frames (kmem t) c {v. v < KERNBASE})) (kmem t) (kmem w)"
        using freevm_in [OF E(1-4) E(6)] by blast
      have rs: "set rs = set ps" using w(4) C(5) by (auto simp: spages_def)
      have k: "kend w = kend t" using w(3) by (simp add: alloc_frame_def)
      note bw = w(5) [folded spages_def]
      have ap: "spages (kmem t) d \<inter> spages (kmem t) c = {}" using copying_apart [OF U t(2)] by blast
      have "spages (kmem t) d \<inter> set rs = {}" unfolding rs C(4) by (rule spages_ok(1) [OF U])
      note p = uspace_other [OF C(2) bw spages_pages [OF C(1)] ap w(2) k this]
      have "copyuvm d sz s = Ok 0 w" using t0(1,2) t(1) Some w(1) by (simp add: copyuvm_alt kbind_def kseq_def)
      moreover have "alloc_frame s w" using C(3) w(3) by (rule alloc_frame_trans)
      moreover have "\<not> 65 + 2 * ?n \<le> length ps" using t(3) Some t0(6) by simp
      ultimately show ?thesis using p C(4) C(6,7) rs by (intro exI [of _ 0] exI [of _ w] exI [of _ rs]) simp
    qed
  qed
qed

text \<open>
  C37. \<open>copyuvm\<close>, by which \<open>fork\<close> makes the child's memory, from any well-formed address space (\<open>uspace\<close>:
  \<open>sz\<close> bytes mapped below \<open>KERNBASE\<close>, every page and table on a page of its own, a correct free list):
  it never panics, although it gives up in the middle when pages run out.  Either it returns a new
  directory whose space has the same size, shows every kind of access at every user address exactly
  what the parent saw there (the same bytes, the same permissions) and maps the kernel, and shares no
  page with the parent, every page taken being in the new space; or it returns 0 and the free list
  holds the same pages as before.  The first is the case when 65 pages and two per page to copy are
  free, the second when fewer than 65 are.  The parent's space and its contents never change.
\<close>

theorem copyuvm_copies:
  assumes "uspace L s ps d sz" and "kernel_layout (kdata s)"
  shows "\<exists>r t qs. copyuvm d sz s = Ok r t \<and> alloc_frame s t \<and> uspace L t qs d sz \<and> spages (kmem t) d = spages (kmem s) d
    \<and> (\<forall>need v. access need \<longrightarrow> mmu_addr (kmem t) d need v = mmu_addr (kmem s) d need v)
    \<and> (\<forall>need v. access need \<longrightarrow> v < KERNBASE \<longrightarrow> seen (kmem t) d need v = seen (kmem s) d need v)
    \<and> (65 + 2 * ((unat sz + 4095) div 4096) \<le> length ps \<longrightarrow> r \<noteq> 0) \<and> (length ps < 65 \<longrightarrow> r = 0)
    \<and> (if r = 0 then set qs = set ps
       else uspace L t qs r sz \<and> spages (kmem t) r \<inter> spages (kmem t) d = {} \<and> spages (kmem t) r \<union> set qs = set ps
         \<and> (\<forall>need v. access need \<longrightarrow> v < KERNBASE \<longrightarrow> seen (kmem t) r need v = seen (kmem s) d need v)
         \<and> (\<forall>need v. access need \<longrightarrow> KERNBASE \<le> v \<longrightarrow> mmu_addr (kmem t) r need v = kernel_addr (kdata s) need v))"
proof -
  obtain r t qs where t: "copyuvm d sz s = Ok r t" "uspace L t qs d sz" "alloc_frame s t"
    "spages (kmem t) d = spages (kmem s) d" "\<forall>need v. access need \<longrightarrow> mmu_addr (kmem t) d need v = mmu_addr (kmem s) d need v"
    "\<forall>need v. access need \<longrightarrow> v < KERNBASE \<longrightarrow> seen (kmem t) d need v = seen (kmem s) d need v"
    "65 + 2 * ((unat sz + 4095) div 4096) \<le> length ps \<longrightarrow> r \<noteq> 0" "length ps < 65 \<longrightarrow> r = 0"
    "if r = 0 then set qs = set ps else copying L s ps d sz r t qs sz"
    using copyuvm_in [OF assms] by blast
  have "spages (kmem t) r \<inter> spages (kmem t) d = {}" "spages (kmem t) r \<union> set qs = set ps" "uspace L t qs r sz"
    "access need \<Longrightarrow> v < KERNBASE \<Longrightarrow> seen (kmem t) r need v = seen (kmem s) d need v"
    "access need \<Longrightarrow> KERNBASE \<le> v \<Longrightarrow> mmu_addr (kmem t) r need v = kernel_addr (kdata s) need v"
    if "r \<noteq> 0" for need v
  proof -
    have C: "copying L s ps d sz r t qs sz" using t(9) that by simp
    note C' = copyingD [OF C]
    show "spages (kmem t) r \<inter> spages (kmem t) d = {}" "spages (kmem t) r \<union> set qs = set ps" "uspace L t qs r sz"
      using copying_apart [OF assms(1) C] C'(5,1) by blast+
    show "access need \<Longrightarrow> KERNBASE \<le> v \<Longrightarrow> mmu_addr (kmem t) r need v = kernel_addr (kdata s) need v" by (rule C'(9))
    assume v: "access need" "v < KERNBASE"
    show "seen (kmem t) r need v = seen (kmem s) d need v"
    proof (cases "PGROUNDDOWN v < sz")
      case False
      then show ?thesis using unseen [OF C'(1) v] unseen [OF assms(1) v] by simp
    qed (rule C'(8) [OF v(1)])
  qed
  then show ?thesis using t by (intro exI [of _ r] exI [of _ t] exI [of _ qs]) simp
qed

text \<open>Freeing pages writes only in them.\<close>

lemma freed_range:
  assumes "alloc_inv L s ps" "distinct (qs @ ps)" "\<forall>p \<in> set qs. page_ok (kend s) p"
  shows "\<exists>t. kfor qs kfree s = Ok () t \<and> alloc_inv L t (rev qs @ ps) \<and> alloc_frame s t \<and> bytes_kept (set qs) (kmem s) (kmem t)"
  using assms
proof (induction qs arbitrary: s ps)
  case (Cons q qs)
  obtain m where m: "kfree q s = Ok () m" "alloc_inv L m (q # ps)" "alloc_frame s m"
    "\<forall>a. a < unat q \<or> unat q + 4096 \<le> a \<longrightarrow> kmem m a = kmem s a"
    using kfree_in [OF Cons.prems(1), of q] Cons.prems(2,3) by auto
  have "kend m = kend s" using m(3) by (simp add: alloc_frame_def)
  then obtain t where t: "kfor qs kfree m = Ok () t" "alloc_inv L t (rev qs @ q # ps)" "alloc_frame m t" "bytes_kept (set qs) (kmem m) (kmem t)"
    using Cons.IH [OF m(2)] Cons.prems(2,3) by auto
  have "bytes_kept (set (q # qs)) (kmem s) (kmem t)" using m(4) t(4) unfolding bytes_kept_def by (metis list.set_intros(1,2))
  with m t show ?case by (auto simp: kseq_def kbind_def intro: alloc_frame_trans)
qed auto

lemma demo_uspace: "uspace {} demo_free_st [0x80404000] 0x80400000 0x2000"
proof -
  have m: "kmem demo_free_st = demo_user_mem" "kend demo_free_st = 0x80115000"
    by (simp_all add: demo_free_st_def demo_mem_st_def con_st.defs mem_st.defs)
  have "mmu_addr demo_user_mem 0x80400000 PTE_P v \<noteq> None \<longleftrightarrow> PGROUNDDOWN v < 0x2000" if "v < KERNBASE" for v
  proof -
    have "PDX v = 0 \<and> (PTX v = 0 \<or> PTX v = 1) \<longleftrightarrow> PGROUNDDOWN v = 0 \<or> PGROUNDDOWN v = 0x1000"
      using same_page_iff [of v 0] same_page_iff [of v "0x1000"] by (auto simp: PDX_def PTX_def PGROUNDDOWN_def PGSIZE_def)
    moreover have "PGROUNDDOWN v < 0x2000 \<longleftrightarrow> PGROUNDDOWN v = 0 \<or> PGROUNDDOWN v = 0x1000"
    proof -
      have "unat v div 4096 * 4096 < 8192 \<longleftrightarrow> unat v div 4096 = 0 \<or> unat v div 4096 = 1" by linarith
      then show ?thesis by (simp add: word_less_nat_alt word_unat_eq_iff PGROUNDDOWN_unat)
    qed
    ultimately show ?thesis unfolding demo_mapped(1) by simp
  qed
  then show ?thesis
    using demo_free_inv demo_pt_ok demo_owned unfolding uspace_def m
    by (simp add: demo_dir page_ok_def PGSIZE_def V2P_def KERNBASE_def PHYSTOP_def)
qed

theorem copyuvm_copies_witness:
  "\<exists>a r t. freerange 0x80500000 0x80600000 demo_free_st = Ok () a \<and> copyuvm 0x80400000 0x2000 a = Ok r t \<and> r \<noteq> 0
    \<and> seen (kmem t) r PTE_PWU 0x1234 = Some 0 \<and> seen (kmem t) r PTE_P 0x2000 = None
    \<and> spages (kmem t) r \<inter> {0x80400000, 0x80401000, 0x80402000, 0x80403000} = {}"
proof -
  let ?s = demo_free_st and ?d = "0x80400000 :: u32" and ?qs = "page_range 0x80500000 0x80600000"
  have m: "kmem ?s = demo_user_mem" "kend ?s = 0x80115000" "kdata ?s = 0x80108000"
    by (simp_all add: demo_free_st_def demo_mem_st_def con_st.defs mem_st.defs)
  have R: "distinct ?qs" "\<forall>p \<in> set ?qs. page_ok (kend ?s) p" "\<forall>p \<in> set ?qs. 0x80500000 \<le> p"
    using page_range_ok [of ?s "0x80500000" "0x80600000"] m by (simp_all add: KERNBASE_def P2V_def PHYSTOP_def)
  have len: "length ?qs = 256" by (simp add: page_range_def PGROUNDUP_def PGSIZE_def)
  have lo: "0x80404000 \<notin> set ?qs" using R(3) by auto
  obtain a where a: "kfor ?qs kfree ?s = Ok () a" "alloc_inv {} a (rev ?qs @ [0x80404000])" "alloc_frame ?s a" "bytes_kept (set ?qs) (kmem ?s) (kmem a)"
    using freed_range [OF demo_free_inv, of ?qs] R(1,2) lo by auto
  have sp: "spages (kmem ?s) ?d = {0x80400000, 0x80401000, 0x80402000, 0x80403000}"
    by (auto simp: spages_def m demo_dir demo_frames)
  have q: "\<forall>q \<in> set ?qs. q mod PGSIZE = 0" using R(2) by (simp add: page_ok_def)
  have ap: "spages (kmem ?s) ?d \<inter> set ?qs = {}" "spages (kmem ?s) ?d \<inter> set (rev ?qs @ [0x80404000]) = {}"
    unfolding sp using R(3) by auto
  have k: "kend a = kend ?s" "kdata a = kdata ?s" using a(3) by (simp_all add: alloc_frame_def)
  note U = uspace_other [OF demo_uspace a(4) q ap(1) a(2) k(1) ap(2)]
  have lay: "kernel_layout (kdata a)" by (simp add: k m kernel_layout_def KERNLINK_def EXTMEM_def KERNBASE_def PGSIZE_def P2V_def PHYSTOP_def)
  obtain r t qs where t: "copyuvm ?d 0x2000 a = Ok r t" "r \<noteq> 0" "spages (kmem t) r \<inter> spages (kmem a) ?d = {}"
    "seen (kmem t) r PTE_PWU 0x1234 = seen (kmem a) ?d PTE_PWU 0x1234" "seen (kmem t) r PTE_P 0x2000 = seen (kmem a) ?d PTE_P 0x2000"
    using copyuvm_copies [OF U(1) lay] len access_PWU access_P by (auto simp: KERNBASE_def)
  have pc: "PDX 0x1234 = 0" "PTX 0x1234 = 1" "PDX 0x2000 = 0" "PTX 0x2000 = 2" by (simp_all add: PDX_def PTX_def)
  have e: "ld32 0x80401004 demo_user_mem = 0x403007" "ld32 0x80401008 demo_user_mem = 0" using demo_pte [of 1] demo_pte [of 2] by simp_all
  have w: "mmu_addr demo_user_mem ?d PTE_PWU 0x1234 = Some 0x80403234" "mmu_addr demo_user_mem ?d PTE_P 0x2000 = None"
    by (simp_all add: mmu_addr_tables Let_def pc e demo_pde table_of_def PTE_ADDR_def P2V_def KERNBASE_def PTE_PWU_def PTE_P_def PTE_W_def PTE_U_def)
  have "demo_user_mem 0x80403234 = 0" by (simp add: demo_user_mem_def st32_def)
  then have "seen (kmem a) ?d PTE_PWU 0x1234 = Some 0" "seen (kmem a) ?d PTE_P 0x2000 = None"
    using U(5) access_PWU access_P w by (simp_all add: seen_def m KERNBASE_def)
  then show ?thesis using a(1) t U(2) sp by (auto simp: freerange_def)
qed

end
