(* ===== verification/Ide.thy ===== *)
theory Ide
  imports Bio
begin

text \<open>
  The IDE disk driver (\<open>ide.c\<close>): requests wait in a queue of buffers linked through \<open>qnext\<close>, the
  first of them is being served by the disk, and the interrupt handler finishes it and starts the
  next.  The disk controller is a parameter: a record \<open>ports\<close> of what port input and output do to
  its state.  \<open>ata\<close> states what the ATA standard promises of it.
\<close>

section \<open>Ports and commands\<close>

definition SECTOR_SIZE :: nat where [const_defs]: "SECTOR_SIZE = 512"
definition IDE_BSY :: u8 where [const_defs]: "IDE_BSY = 0x80"
definition IDE_DRDY :: u8 where [const_defs]: "IDE_DRDY = 0x40"
definition IDE_DF :: u8 where [const_defs]: "IDE_DF = 0x20"
definition IDE_ERR :: u8 where [const_defs]: "IDE_ERR = 0x01"
definition IDE_CMD_READ :: u8 where [const_defs]: "IDE_CMD_READ = 0x20"
definition IDE_CMD_WRITE :: u8 where [const_defs]: "IDE_CMD_WRITE = 0x30"
definition IDE_CMD_RDMUL :: u8 where [const_defs]: "IDE_CMD_RDMUL = 0xc4"
definition IDE_CMD_WRMUL :: u8 where [const_defs]: "IDE_CMD_WRMUL = 0xc5"
definition FSSIZE :: nat where [const_defs]: "FSSIZE = 1000"

text \<open>\<open>p_in\<close> is \<open>inb(0x1f7)\<close>, \<open>p_out\<close> is \<open>outb\<close>, \<open>p_insl\<close> and \<open>p_outsl\<close> move \<open>BSIZE\<close> bytes through
  port \<open>0x1f0\<close>.\<close>

record 'd ports =
  p_in :: "'d \<Rightarrow> u8 \<times> 'd"
  p_out :: "u16 \<Rightarrow> u8 \<Rightarrow> 'd \<Rightarrow> 'd"
  p_insl :: "'d \<Rightarrow> block \<times> 'd"
  p_outsl :: "block \<Rightarrow> 'd \<Rightarrow> 'd"

record 'd ide_st = bio_st +
  ctl :: 'd
  idequeue :: "nat option"
  qnext :: "nat \<Rightarrow> nat option"
  havedisk1 :: bool

definition inb :: "'d ports \<Rightarrow> (u8, ('d, 'x) ide_st_scheme) kern" where
  "inb io s = (let (v, d) = p_in io (ctl s) in Ok v (s\<lparr>ctl := d\<rparr>))"

definition outb :: "'d ports \<Rightarrow> u16 \<Rightarrow> u8 \<Rightarrow> (unit, ('d, 'x) ide_st_scheme) kern" where
  "outb io port v = kmod (\<lambda>s. s\<lparr>ctl := p_out io port v (ctl s)\<rparr>)"

definition insl :: "'d ports \<Rightarrow> (block, ('d, 'x) ide_st_scheme) kern" where
  "insl io s = (let (bs, d) = p_insl io (ctl s) in Ok bs (s\<lparr>ctl := d\<rparr>))"

definition outsl :: "'d ports \<Rightarrow> block \<Rightarrow> (unit, ('d, 'x) ide_st_scheme) kern" where
  "outsl io bs = kmod (\<lambda>s. s\<lparr>ctl := p_outsl io bs (ctl s)\<rparr>)"

section \<open>The driver\<close>

text \<open>The loop of \<open>idewait\<close> ends when the disk says that it is ready; \<open>polls\<close> bounds how often it is
  asked, and a disk that is not ready by then is one the code may wait for without end.\<close>

fun idewait :: "'d ports \<Rightarrow> nat \<Rightarrow> bool \<Rightarrow> (int, ('d, 'x) ide_st_scheme) kern" where
  "idewait io 0 checkerr = kspin"
| "idewait io (Suc polls) checkerr =
     kbind (inb io) (\<lambda>r.
     if r AND (IDE_BSY OR IDE_DRDY) \<noteq> IDE_DRDY then idewait io polls checkerr
     else if checkerr \<and> r AND (IDE_DF OR IDE_ERR) \<noteq> 0 then kret (-1)
     else kret 0)"

text \<open>\<open>ideinit\<close>, but for \<open>ioapicenable\<close>, which programs another device.\<close>

definition ideinit :: "'d ports \<Rightarrow> nat \<Rightarrow> (unit, ('d, 'x) ide_st_scheme) kern" where
  "ideinit io polls =
     kseq (initlock L_ide) (
     kbind (idewait io polls False) (\<lambda>_.
     kseq (outb io 0x1f6 (0xe0 OR push_bit 4 1)) (
     kbind (kloop [0..<1000] (\<lambda>i.
       kbind (inb io) (\<lambda>r.
       if r \<noteq> 0 then kseq (kmod (\<lambda>s. s\<lparr>havedisk1 := True\<rparr>)) (kret (Some ())) else kret None))) (\<lambda>_.
     outb io 0x1f6 (0xe0 OR push_bit 4 0)))))"

definition idestart :: "'d ports \<Rightarrow> nat \<Rightarrow> nat option \<Rightarrow> (unit, ('d, 'x) ide_st_scheme) kern" where
  "idestart io polls p =
     (case p of
        None \<Rightarrow> kpanic ''idestart''
      | Some b \<Rightarrow>
          kbind (kget (\<lambda>s. bufs s b)) (\<lambda>r.
          if FSSIZE \<le> unat (b_blockno r) then kpanic ''incorrect blockno''
          else
            let sector_per_block = BSIZE div SECTOR_SIZE;
                sector = b_blockno r * of_nat sector_per_block;
                read_cmd = (if sector_per_block = 1 then IDE_CMD_READ else IDE_CMD_RDMUL);
                write_cmd = (if sector_per_block = 1 then IDE_CMD_WRITE else IDE_CMD_WRMUL)
            in if 7 < sector_per_block then kpanic ''idestart''
            else
              kbind (idewait io polls False) (\<lambda>_.
              kseq (outb io 0x3f6 0) (
              kseq (outb io 0x1f2 (of_nat sector_per_block)) (
              kseq (outb io 0x1f3 (ucast (sector AND 0xff))) (
              kseq (outb io 0x1f4 (ucast (drop_bit 8 sector AND 0xff))) (
              kseq (outb io 0x1f5 (ucast (drop_bit 16 sector AND 0xff))) (
              kseq (outb io 0x1f6 (ucast (0xe0 OR push_bit 4 (b_dev r AND 1) OR (drop_bit 24 sector AND 0x0f)))) (
              if b_flags r AND B_DIRTY \<noteq> 0 then
                kseq (outb io 0x1f7 write_cmd) (outsl io (b_data r))
              else outb io 0x1f7 read_cmd)))))))))"

text \<open>\<open>if(idewait(1) >= 0) insl(0x1f0, b->data, BSIZE/4)\<close>.\<close>

definition ide_fetch :: "'d ports \<Rightarrow> nat \<Rightarrow> nat \<Rightarrow> (unit, ('d, 'x) ide_st_scheme) kern" where
  "ide_fetch io polls b =
     kbind (idewait io polls True) (\<lambda>w.
     kwhen (0 \<le> w) (kbind (insl io) (\<lambda>bs. upd_buf b (\<lambda>r. r\<lparr>b_data := bs\<rparr>))))"

definition ideintr :: "'d ports \<Rightarrow> nat \<Rightarrow> (unit, ('d, 'x) ide_st_scheme) kern" where
  "ideintr io polls =
     kseq (acquire L_ide) (
     kbind (kget idequeue) (\<lambda>q.
     case q of
       None \<Rightarrow> release L_ide
     | Some b \<Rightarrow>
         kseq (kmod (\<lambda>s. s\<lparr>idequeue := qnext s b\<rparr>)) (
         kbind (kget (\<lambda>s. b_flags (bufs s b))) (\<lambda>fl.
         kseq (kwhen (fl AND B_DIRTY = 0) (ide_fetch io polls b)) (
         kseq (upd_buf b (\<lambda>r. r\<lparr>b_flags := b_flags r OR B_VALID\<rparr>)) (
         kseq (upd_buf b (\<lambda>r. r\<lparr>b_flags := b_flags r AND NOT B_DIRTY\<rparr>)) (
         kseq (wakeup (ChBuf b)) (
         kbind (kget idequeue) (\<lambda>q.
         kseq (kwhen (q \<noteq> None) (idestart io polls q))
              (release L_ide))))))))))"

text \<open>The pointer \<open>pp\<close> at the end of the queue: the field \<open>qnext\<close> of a buffer, or \<open>idequeue\<close>
  (\<open>None\<close>).  The buffers of the queue are different, so \<open>NBUF\<close> steps are enough.\<close>

definition slot :: "nat option \<Rightarrow> (nat option, ('d, 'x) ide_st_scheme) kern" where
  "slot pp = kget (\<lambda>s. case pp of None \<Rightarrow> idequeue s | Some x \<Rightarrow> qnext s x)"

fun queue_end :: "nat \<Rightarrow> nat option \<Rightarrow> (nat option, ('d, 'x) ide_st_scheme) kern" where
  "queue_end n pp =
     kbind (slot pp) (\<lambda>q.
     case q of
       None \<Rightarrow> kret pp
     | Some x \<Rightarrow> (case n of 0 \<Rightarrow> kspin | Suc m \<Rightarrow> queue_end m (Some x)))"

declare queue_end.simps [simp del]

definition set_slot :: "nat option \<Rightarrow> nat \<Rightarrow> (unit, ('d, 'x) ide_st_scheme) kern" where
  "set_slot pp b = kmod (\<lambda>s. case pp of None \<Rightarrow> s\<lparr>idequeue := Some b\<rparr> | Some x \<Rightarrow> s\<lparr>qnext := (qnext s)(x := Some b)\<rparr>)"

text \<open>The wait for the request; a process that was put to sleep tests again when it runs.\<close>

definition ide_wait :: "nat \<Rightarrow> (unit, ('d, 'x) ide_st_scheme) kern" where
  "ide_wait b =
     kbind (kget (\<lambda>s. b_flags (bufs s b))) (\<lambda>fl.
     if fl AND (B_VALID OR B_DIRTY) \<noteq> B_VALID then sleep (ChBuf b) L_ide
     else release L_ide)"

definition ide_rw :: "'d ports \<Rightarrow> nat \<Rightarrow> nat \<Rightarrow> (unit, ('d, 'x) ide_st_scheme) kern" where
  "ide_rw io polls b =
     kbind (holdingsleep (SL_buf b)) (\<lambda>h.
     if \<not> h then kpanic ''iderw: buf not locked''
     else kbind (kget (\<lambda>s. bufs s b)) (\<lambda>r.
     if b_flags r AND (B_VALID OR B_DIRTY) = B_VALID then kpanic ''iderw: nothing to do''
     else kbind (kget havedisk1) (\<lambda>h1.
     if b_dev r \<noteq> 0 \<and> \<not> h1 then kpanic ''iderw: ide disk 1 not present''
     else
       kseq (acquire L_ide) (
       kseq (kmod (\<lambda>s. s\<lparr>qnext := (qnext s)(b := None)\<rparr>)) (
       kbind (queue_end NBUF None) (\<lambda>pp.
       kseq (set_slot pp b) (
       kbind (kget idequeue) (\<lambda>q.
       kseq (kwhen (q = Some b) (idestart io polls (Some b)))
            (ide_wait b)))))))))"

section \<open>The disk\<close>

text \<open>What the driver relies on, for a controller whose two disks have the contents \<open>sect d\<close> (the
  argument is True for disk 1) and whose pending read is \<open>rdcmd d\<close>: the status port says ready and
  no error within \<open>polls\<close> readings; the register sequence with the read command makes the sector
  pending; with the write command followed by the data it stores the sector; the data port then
  delivers the pending sector.\<close>

definition command :: "'d ports \<Rightarrow> u32 \<Rightarrow> u32 \<Rightarrow> u8 \<Rightarrow> 'd \<Rightarrow> 'd" where
  "command io sector dev c d =
     p_out io 0x1f7 c (p_out io 0x1f6 (ucast (0xe0 OR push_bit 4 (dev AND 1) OR (drop_bit 24 sector AND 0x0f)))
      (p_out io 0x1f5 (ucast (drop_bit 16 sector AND 0xff)) (p_out io 0x1f4 (ucast (drop_bit 8 sector AND 0xff))
      (p_out io 0x1f3 (ucast (sector AND 0xff)) (p_out io 0x1f2 1 (p_out io 0x3f6 0 d))))))"

fun polled :: "'d ports \<Rightarrow> nat \<Rightarrow> 'd \<Rightarrow> (u8 \<times> 'd) option" where
  "polled io 0 d = None"
| "polled io (Suc n) d = (let (r, e) = p_in io d in
     if r AND (IDE_BSY OR IDE_DRDY) \<noteq> IDE_DRDY then polled io n e else Some (r, e))"

type_synonym disks = "bool \<Rightarrow> nat \<Rightarrow> block"

definition put_sector :: "bool \<Rightarrow> nat \<Rightarrow> block \<Rightarrow> disks \<Rightarrow> disks" where
  "put_sector k n bs D = D(k := (D k)(n := bs))"

definition ata :: "'d ports \<Rightarrow> ('d \<Rightarrow> disks) \<Rightarrow> ('d \<Rightarrow> (bool \<times> nat) option) \<Rightarrow> nat \<Rightarrow> bool" where
  "ata io sect rdcmd polls \<longleftrightarrow>
     (\<forall>d. \<exists>r e. polled io polls d = Some (r, e) \<and> r AND (IDE_DF OR IDE_ERR) = 0 \<and> sect e = sect d \<and> rdcmd e = rdcmd d)
   \<and> (\<forall>d n dev. n < FSSIZE \<longrightarrow> (let e = command io (of_nat n) dev IDE_CMD_READ d in
        sect e = sect d \<and> rdcmd e = Some (bit dev 0, n)))
   \<and> (\<forall>d n dev bs. n < FSSIZE \<longrightarrow> length bs = BSIZE \<longrightarrow>
        sect (p_outsl io bs (command io (of_nat n) dev IDE_CMD_WRITE d)) = put_sector (bit dev 0) n bs (sect d))
   \<and> (\<forall>d k n. rdcmd d = Some (k, n) \<longrightarrow> fst (p_insl io d) = sect d k n \<and> sect (snd (p_insl io d)) = sect d)"

section \<open>Serving requests\<close>

text \<open>What a request is to do: a dirty buffer goes to its sector, another one is filled from it; then
  it is valid and clean.  This is what \<open>memide.c\<close> does to a disk in memory (\<open>Bio.ide_buf\<close>).\<close>

definition req_disk :: "buf \<Rightarrow> disks \<Rightarrow> disks" where
  "req_disk r D = (if dirty r then put_sector (bit (b_dev r) 0) (unat (b_blockno r)) (b_data r) D else D)"

definition req_buf :: "disks \<Rightarrow> buf \<Rightarrow> buf" where
  "req_buf D r =
     (if dirty r then r\<lparr>b_flags := (b_flags r OR B_VALID) AND NOT B_DIRTY\<rparr>
      else r\<lparr>b_data := D (bit (b_dev r) 0) (unat (b_blockno r)), b_flags := (b_flags r OR B_VALID) AND NOT B_DIRTY\<rparr>)"

fun serve :: "nat list \<Rightarrow> (nat \<Rightarrow> buf) \<Rightarrow> disks \<Rightarrow> (nat \<Rightarrow> buf) \<times> disks" where
  "serve [] B D = (B, D)"
| "serve (b # bs) B D = serve bs (B(b := req_buf D (B b))) (req_disk (B b) D)"

text \<open>The queue, and the disk working on its first request.\<close>

fun qpath :: "(nat \<Rightarrow> nat option) \<Rightarrow> nat option \<Rightarrow> nat list \<Rightarrow> bool" where
  "qpath nx p [] \<longleftrightarrow> p = None"
| "qpath nx p (b # bs) \<longleftrightarrow> p = Some b \<and> qpath nx (nx b) bs"

definition request_ok :: "buf \<Rightarrow> bool" where
  "request_ok r \<longleftrightarrow> unat (b_blockno r) < FSSIZE \<and> length (b_data r) = BSIZE \<and> \<not> (valid r \<and> \<not> dirty r)"

definition ide_inv :: "('d \<Rightarrow> disks) \<Rightarrow> ('d \<Rightarrow> (bool \<times> nat) option) \<Rightarrow> ('d, 'x) ide_st_scheme \<Rightarrow> nat list \<Rightarrow> disks \<Rightarrow> bool" where
  "ide_inv sect rdcmd s bs D \<longleftrightarrow>
     qpath (qnext s) (idequeue s) bs \<and> distinct bs \<and> set bs \<subseteq> {..<NBUF} \<and> (\<forall>b \<in> set bs. request_ok (bufs s b))
     \<and> (case bs of [] \<Rightarrow> sect (ctl s) = D
        | b # _ \<Rightarrow> sect (ctl s) = req_disk (bufs s b) D
            \<and> (\<not> dirty (bufs s b) \<longrightarrow> rdcmd (ctl s) = Some (bit (b_dev (bufs s b)) 0, unat (b_blockno (bufs s b)))))"

section \<open>What the driver does\<close>

lemma idewait_polled:
  "polled io n (ctl s) = Some (r, e) \<Longrightarrow>
     idewait io n ce s = Ok (if ce \<and> r AND (IDE_DF OR IDE_ERR) \<noteq> 0 then -1 else 0) (s\<lparr>ctl := e\<rparr>)"
proof (induction n arbitrary: s)
  case (Suc n)
  obtain v d where p: "p_in io (ctl s) = (v, d)" by (cases "p_in io (ctl s)")
  have i: "inb io s = Ok v (s\<lparr>ctl := d\<rparr>)" by (simp add: inb_def p)
  show ?case
  proof (cases "v AND (IDE_BSY OR IDE_DRDY) = IDE_DRDY")
    case True
    then show ?thesis using Suc.prems p i by (simp add: kbind_def)
  next
    case False
    then show ?thesis using Suc.prems Suc.IH [of "s\<lparr>ctl := d\<rparr>"] p i by (simp add: kbind_def)
  qed
qed simp

lemma ataD:
  assumes "ata io sect rdcmd polls"
  shows "\<exists>r e. polled io polls d = Some (r, e) \<and> r AND (IDE_DF OR IDE_ERR) = 0 \<and> sect e = sect d \<and> rdcmd e = rdcmd d"
    "n < FSSIZE \<Longrightarrow> sect (command io (of_nat n) dev IDE_CMD_READ d) = sect d"
    "n < FSSIZE \<Longrightarrow> rdcmd (command io (of_nat n) dev IDE_CMD_READ d) = Some (bit dev 0, n)"
    "n < FSSIZE \<Longrightarrow> length bs = BSIZE \<Longrightarrow>
       sect (p_outsl io bs (command io (of_nat n) dev IDE_CMD_WRITE d)) = put_sector (bit dev 0) n bs (sect d)"
    "rdcmd d = Some (k, n) \<Longrightarrow> fst (p_insl io d) = sect d k n \<and> sect (snd (p_insl io d)) = sect d"
proof -
  note A = assms [unfolded ata_def Let_def]
  show "\<exists>r e. polled io polls d = Some (r, e) \<and> r AND (IDE_DF OR IDE_ERR) = 0 \<and> sect e = sect d \<and> rdcmd e = rdcmd d"
    using A by simp
  show "n < FSSIZE \<Longrightarrow> sect (command io (of_nat n) dev IDE_CMD_READ d) = sect d"
    "n < FSSIZE \<Longrightarrow> rdcmd (command io (of_nat n) dev IDE_CMD_READ d) = Some (bit dev 0, n)"
    "n < FSSIZE \<Longrightarrow> length bs = BSIZE \<Longrightarrow>
       sect (p_outsl io bs (command io (of_nat n) dev IDE_CMD_WRITE d)) = put_sector (bit dev 0) n bs (sect d)"
    using A by simp_all
  show "rdcmd d = Some (k, n) \<Longrightarrow> fst (p_insl io d) = sect d k n \<and> sect (snd (p_insl io d)) = sect d"
    using A by simp
qed

lemma ide_wait_ready:
  assumes "ata io sect rdcmd polls"
  shows "\<exists>e. idewait io polls ce s = Ok 0 (s\<lparr>ctl := e\<rparr>) \<and> sect e = sect (ctl s) \<and> rdcmd e = rdcmd (ctl s)"
proof -
  obtain r e where "polled io polls (ctl s) = Some (r, e)" "r AND (IDE_DF OR IDE_ERR) = 0" "sect e = sect (ctl s)" "rdcmd e = rdcmd (ctl s)"
    using ataD(1) [OF assms] by blast
  then show ?thesis using idewait_polled [of io polls s r e ce] by auto
qed

lemma idestart_in:
  assumes ata: "ata io sect rdcmd polls" and r: "unat (b_blockno (bufs s b)) < FSSIZE" "length (b_data (bufs s b)) = BSIZE"
  shows "\<exists>d. idestart io polls (Some b) s = Ok () (s\<lparr>ctl := d\<rparr>) \<and> sect d = req_disk (bufs s b) (sect (ctl s))
    \<and> (\<not> dirty (bufs s b) \<longrightarrow> rdcmd d = Some (bit (b_dev (bufs s b)) 0, unat (b_blockno (bufs s b))))"
proof -
  let ?r = "bufs s b"
  obtain e where e: "idewait io polls False s = Ok 0 (s\<lparr>ctl := e\<rparr>)" "sect e = sect (ctl s)"
    using ide_wait_ready [OF ata, where ce = False and s = s] by blast
  have one: "BSIZE div SECTOR_SIZE = 1" by (simp add: BSIZE_def SECTOR_SIZE_def)
  have n: "of_nat (unat (b_blockno ?r)) = b_blockno ?r" by simp
  let ?d = "if dirty ?r then p_outsl io (b_data ?r) (command io (b_blockno ?r) (b_dev ?r) IDE_CMD_WRITE e)
    else command io (b_blockno ?r) (b_dev ?r) IDE_CMD_READ e"
  have "idestart io polls (Some b) s = Ok () (s\<lparr>ctl := ?d\<rparr>)"
    using r(1) e(1) by (simp add: idestart_def Let_def one kbind_def kseq_def outb_def outsl_def command_def dirty_def)
  moreover have "sect ?d = req_disk ?r (sect (ctl s))"
    using ataD(2,4) [OF ata r(1), where dev = "b_dev ?r" and d = e] r(2) e(2) by (simp add: req_disk_def n)
  moreover have "\<not> dirty ?r \<longrightarrow> rdcmd ?d = Some (bit (b_dev ?r) 0, unat (b_blockno ?r))"
    using ataD(3) [OF ata r(1), where dev = "b_dev ?r" and d = e] by (simp add: n)
  ultimately show ?thesis by blast
qed

text \<open>The driver's own state is not touched by locks and wakeups.\<close>

lemma ide_more:
  assumes "sleep_st.more t = sleep_st.more (s :: ('d, 'x) ide_st_scheme)"
  shows "bufs t = bufs s" "ctl t = ctl s" "idequeue t = idequeue s" "qnext t = qnext s" "havedisk1 t = havedisk1 s"
  using assms by (cases s, cases t, simp)+

lemma thread_in_ide [simp]:
  "thread_in L (s\<lparr>ctl := d\<rparr>) = thread_in L s" "thread_in L (s\<lparr>idequeue := q\<rparr>) = thread_in L s"
  "thread_in L (s\<lparr>qnext := nx\<rparr>) = thread_in L s"
  by (simp_all add: thread_in_def found_def split: option.split)

lemma qpath_cong: "(\<And>b. b \<in> set bs \<Longrightarrow> nx' b = nx b) \<Longrightarrow> qpath nx' p bs = qpath nx p bs"
  by (induction bs arbitrary: p) auto

lemma ideintr_in:
  assumes ata: "ata io sect rdcmd polls" and inv: "ide_inv sect rdcmd s (b # bs) D" and th: "thread_in {} s"
  shows "\<exists>t. ideintr io polls s = Ok () t \<and> thread_in {} t \<and> ide_inv sect rdcmd t bs (req_disk (bufs s b) D)
    \<and> bufs t = (bufs s)(b := req_buf D (bufs s b)) \<and> ptable t = woken_table (ChBuf b) (ptable s) \<and> slocks t = slocks s"
proof -
  let ?r = "bufs s b"
  note I = inv [unfolded ide_inv_def, simplified]
  obtain a where a: "acquire L_ide s = Ok () a" "thread_in {L_ide} a" using acquire_in [OF th] by auto
  note A = acquire_thread [OF a(1)] and AM = ide_more [OF acquire_thread(3) [OF a(1)]]
  have pa: "ptable a = ptable s" using acquire_Ok(1) [OF a(1)] cpu_frame_proc_st(1) by blast
  let ?a = "a\<lparr>idequeue := qnext s b\<rparr>"
  define x where "x = (if dirty ?r then ?r else ?r\<lparr>b_data := D (bit (b_dev ?r) 0) (unat (b_blockno ?r))\<rparr>)"
  have x: "x\<lparr>b_flags := (b_flags x OR B_VALID) AND NOT B_DIRTY\<rparr> = req_buf D ?r" by (simp add: x_def req_buf_def)
  obtain d where d: "kwhen (b_flags ?r AND B_DIRTY = 0) (ide_fetch io polls b) ?a = Ok () (?a\<lparr>ctl := d, bufs := (bufs s)(b := x)\<rparr>)"
     "sect d = req_disk ?r D"
  proof (cases "dirty ?r")
    case True
    then have "b_flags ?r AND B_DIRTY \<noteq> 0" by (simp add: dirty_def)
    then show ?thesis using that [of "ctl s"] I True AM by (simp add: x_def)
  next
    case False
    then have nd: "b_flags ?r AND B_DIRTY = 0" by (simp add: dirty_def)
    obtain e where e: "idewait io polls True ?a = Ok 0 (?a\<lparr>ctl := e\<rparr>)" "sect e = sect (ctl s)" "rdcmd e = rdcmd (ctl s)"
      using ide_wait_ready [OF ata, where ce = True and s = ?a] AM by auto
    obtain bs' d2 where p: "p_insl io e = (bs', d2)" by (cases "p_insl io e")
    have "fst (p_insl io e) = D (bit (b_dev ?r) 0) (unat (b_blockno ?r)) \<and> sect (snd (p_insl io e)) = D"
      using ataD(5) [OF ata, of e "bit (b_dev ?r) 0" "unat (b_blockno ?r)"] I False e by (simp add: req_disk_def)
    then show ?thesis
      using that [of d2] e(1) nd False AM p by (simp add: ide_fetch_def kbind_def insl_def upd_buf_def Let_def req_disk_def x_def)
  qed
  let ?B = "(bufs s)(b := req_buf D ?r)"
  let ?c = "?a\<lparr>ctl := d, bufs := ?B\<rparr>"
  obtain w where w: "wakeup (ChBuf b) ?c = Ok () w" "thread_in {L_ide} w" using wakeup_in [of "{L_ide}" ?c] a(2) by auto
  note W = wakeup_thread [OF w(1)] and WM = ide_more [OF wakeup_thread(3) [OF w(1)]]
  have qw: "idequeue w = qnext s b" "qnext w = qnext s" "bufs w = ?B" "ctl w = d" using WM AM by simp_all
  have pw: "ptable w = woken_table (ChBuf b) (ptable s)" using wakeup_Ok(5) [OF w(1)] pa by simp
  have nb: "b \<notin> set bs" using I by simp
  obtain d' where d': "kwhen (qnext s b \<noteq> None) (idestart io polls (qnext s b)) w = Ok () (w\<lparr>ctl := d'\<rparr>)"
    "ide_inv sect rdcmd (w\<lparr>ctl := d'\<rparr>) bs (req_disk ?r D)"
  proof (cases bs)
    case Nil
    then show ?thesis using that [of d] I d(2) qw by (simp add: ide_inv_def)
  next
    case (Cons b' bs')
    then have q: "qnext s b = Some b'" "b' \<noteq> b" "request_ok (bufs s b')" using I by auto
    then obtain d' where "idestart io polls (Some b') w = Ok () (w\<lparr>ctl := d'\<rparr>)" "sect d' = req_disk (bufs s b') (sect d)"
      "\<not> dirty (bufs s b') \<longrightarrow> rdcmd d' = Some (bit (b_dev (bufs s b')) 0, unat (b_blockno (bufs s b')))"
      using idestart_in [OF ata, of w b'] qw by (auto simp: request_ok_def)
    then show ?thesis using that [of d'] I Cons q d(2) qw nb by (auto simp: ide_inv_def)
  qed
  let ?t = "w\<lparr>ctl := d'\<rparr>"
  obtain t where t: "release L_ide ?t = Ok () t" "thread_in ({L_ide} - {L_ide}) t"
    using release_in [of "{L_ide}" ?t L_ide] w(2) by auto
  note T = release_thread [OF t(1)] and TM = ide_more [OF release_thread(3) [OF t(1)]]
  have pt: "ptable t = ptable w" using release_Ok(1) [OF t(1)] cpu_frame_proc_st(1) [of ?t t] by simp
  have "ideintr io polls s = Ok () t"
    using a(1) d(1) w(1) d'(1) t(1) I AM qw
    by (simp add: ideintr_def kseq_def kbind_def upd_buf_def x)
  moreover have "ide_inv sect rdcmd t bs (req_disk ?r D)" using d'(2) TM by (cases bs) (simp_all add: ide_inv_def)
  ultimately show ?thesis using t(2) TM qw pt pw T(2) W(2) A(2) by (intro exI [of _ t]) simp
qed

text \<open>Finding the end of the queue and putting a buffer there.\<close>

lemma queue_end_path:
  assumes "qpath (qnext s) (case pp of None \<Rightarrow> idequeue s | Some x \<Rightarrow> qnext s x) bs" "length bs \<le> n"
  shows "queue_end n pp s = Ok (if bs = [] then pp else Some (last bs)) s"
  using assms
proof (induction bs arbitrary: pp n)
  case Nil
  then show ?case by (simp add: queue_end.simps slot_def kbind_def)
next
  case (Cons b bs)
  then obtain m where n: "n = Suc m" by (cases n) auto
  then have "queue_end n pp s = queue_end m (Some b) s"
    using Cons.prems by (subst queue_end.simps) (simp add: slot_def kbind_def)
  then show ?case using Cons.IH [of "Some b" m] Cons.prems n by simp
qed

lemma qpath_snoc:
  assumes "qpath nx (Some x) (x # bs)" "distinct (x # bs)" "b \<notin> set (x # bs)" "nx b = None"
  shows "qpath (nx(last (x # bs) := Some b)) (Some x) (x # bs @ [b])"
  using assms
proof (induction bs arbitrary: x)
  case (Cons y bs)
  then have "nx x = Some y" by simp
  moreover have "last (y # bs) \<noteq> x" using Cons.prems(2) by (metis distinct.simps(2) last_in_set list.distinct(1))
  ultimately show ?case using Cons.IH [of y] Cons.prems by simp
qed simp

lemma sleep_holding:
  assumes "thread_in {l} s" "l \<noteq> L_ptable"
  shows "\<exists>t p. cur s = Some p \<and> sleep ch l s = Switch t
    \<and> ptable t = (ptable s)(p := (ptable s p)\<lparr>p_chan := Some ch, p_state := SLEEPING\<rparr>)
    \<and> \<not> lk_locked (locks t l) \<and> proc_st.more t = proc_st.more s"
proof -
  obtain c p where c: "found s = Some c" "cproc (cpus s c) = Some p" "ncli (cpus s c) = 1" "\<not> fl_if s"
    "\<forall>k. lk_locked (locks s k) = (k = l)" "lk_cpu (locks s l) = Some c"
    using assms(1) by (auto simp: thread_in_def)
  have "lk_locked (locks s l)" using c(5) by simp
  then have l: "locks s l = \<lparr>lk_locked = True, lk_cpu = Some c\<rparr>" using c(6) by (cases "locks s l") simp
  have "\<not> lk_locked (locks s L_ptable)" using c(5) assms(2) by simp
  then obtain t where "sleep ch l s = Switch t"
    "ptable t = (ptable s)(p := (ptable s p)\<lparr>p_chan := Some ch, p_state := SLEEPING\<rparr>)"
    "locks t = (locks s)(L_ptable := \<lparr>lk_locked = True, lk_cpu = Some c\<rparr>, l := \<lparr>lk_locked = False, lk_cpu = None\<rparr>)"
    "proc_st.more t = proc_st.more s"
    using sleep_eval [OF c(1-4) l assms(2), of ch] by blast
  moreover have "cur s = Some p" using c(1,2) by (simp add: cur_def)
  ultimately show ?thesis using assms(2) by auto
qed

lemma bs_room: "distinct bs \<Longrightarrow> set bs \<subseteq> {..<NBUF} \<Longrightarrow> length bs \<le> NBUF"
  by (metis card_lessThan card_mono distinct_card finite_lessThan)

lemma ide_rw_in:
  assumes ata: "ata io sect rdcmd polls" and inv: "ide_inv sect rdcmd s bs D" and th: "thread_in {} s"
    and h: "held s b" "b \<notin> set bs" "request_ok (bufs s b)" and dev: "b_dev (bufs s b) = 0 \<or> havedisk1 s"
  shows "\<exists>t p. ide_rw io polls b s = Switch t \<and> ide_inv sect rdcmd t (bs @ [b]) D \<and> bufs t = bufs s
    \<and> cur s = Some p \<and> p_state (ptable t p) = SLEEPING \<and> p_chan (ptable t p) = Some (ChBuf b) \<and> \<not> lk_locked (locks t L_ide)"
proof -
  let ?r = "bufs s b"
  note I = inv [unfolded ide_inv_def]
  obtain v a where a: "holdingsleep (SL_buf b) s = Ok v a" "thread_in {} a" using holdingsleep_in [OF th, of "SL_buf b"] by auto
  note A = holdingsleep_Ok [OF a(1)] and AM = ide_more [OF holdingsleep_Ok(2) [OF a(1)]]
  have v: "v" using A(4) h(1) by (auto simp: held_def)
  obtain c where c: "acquire L_ide a = Ok () c" "thread_in {L_ide} c" using acquire_in [OF a(2)] by auto
  note CM = ide_more [OF acquire_thread(3) [OF c(1)]]
  let ?c = "c\<lparr>qnext := (qnext s)(b := None)\<rparr>"
  have "qpath ((qnext s)(b := None)) (idequeue s) bs = qpath (qnext s) (idequeue s) bs"
    by (rule qpath_cong) (use h(2) in auto)
  then have qp: "qpath (qnext ?c) (idequeue ?c) bs" using I CM AM by simp
  have e: "queue_end NBUF None ?c = Ok (if bs = [] then None else Some (last bs)) ?c"
    by (rule queue_end_path) (use qp I bs_room in auto)
  let ?e = "if bs = [] then ?c\<lparr>idequeue := Some b\<rparr> else ?c\<lparr>qnext := (qnext ?c)(last bs := Some b)\<rparr>"
  have set: "set_slot (if bs = [] then None else Some (last bs)) b ?c = Ok () ?e" by (simp add: set_slot_def)
  have em: "bufs ?e = bufs s" "ctl ?e = ctl s" "thread_in {L_ide} ?e" using CM AM c(2) by simp_all
  have q: "qpath (qnext ?e) (idequeue ?e) (bs @ [b])"
  proof (cases bs)
    case (Cons x xs)
    then show ?thesis using qpath_snoc [of "qnext ?c" x xs b] qp I h(2) by simp
  qed simp
  have bN: "b < NBUF" using h(1) by (simp add: held_def)
  have hd: "idequeue ?e = Some b \<longleftrightarrow> bs = []" using qp h(2) by (cases bs) auto
  obtain d where d: "kwhen (idequeue ?e = Some b) (idestart io polls (Some b)) ?e = Ok () (?e\<lparr>ctl := d\<rparr>)"
    "ide_inv sect rdcmd (?e\<lparr>ctl := d\<rparr>) (bs @ [b]) D"
  proof (cases "bs = []")
    case True
    obtain d where "idestart io polls (Some b) ?e = Ok () (?e\<lparr>ctl := d\<rparr>)" "sect d = req_disk ?r (sect (ctl s))"
      "\<not> dirty ?r \<longrightarrow> rdcmd d = Some (bit (b_dev ?r) 0, unat (b_blockno ?r))"
      using idestart_in [OF ata, of ?e b] em h(3) by (auto simp: request_ok_def)
    then show ?thesis using that [of d] True I h(3) q em bN by (simp add: ide_inv_def)
  next
    case False
    have "ide_inv sect rdcmd ?e (bs @ [b]) D" using False I h(2,3) q em bN by (cases bs) (simp_all add: ide_inv_def)
    moreover have "?e\<lparr>ctl := ctl s\<rparr> = ?e" using em(2) by simp
    ultimately show ?thesis using that [of "ctl s"] False hd by simp
  qed
  let ?g = "?e\<lparr>ctl := d\<rparr>"
  obtain t p where t: "cur ?g = Some p" "sleep (ChBuf b) L_ide ?g = Switch t"
    "ptable t = (ptable ?g)(p := (ptable ?g p)\<lparr>p_chan := Some (ChBuf b), p_state := SLEEPING\<rparr>)"
    "\<not> lk_locked (locks t L_ide)" "proc_st.more t = proc_st.more ?g"
    using sleep_holding [of L_ide ?g "ChBuf b"] em(3) by auto
  have fl: "b_flags ?r AND (B_VALID OR B_DIRTY) \<noteq> B_VALID" using h(3) by (simp add: request_ok_def nothing_to_do)
  have "ide_rw io polls b s = Switch t"
    using a(1) v fl dev c(1) e set d(1) t(2) AM CM em(1)
    by (simp add: ide_rw_def ide_wait_def kseq_def kbind_def)
  moreover have "sleep_st.more t = sleep_st.more ?g" using t(5) by (simp add: sleep_st_more)
  note TM = ide_more [OF this]
  have "ide_inv sect rdcmd t (bs @ [b]) D" using d(2) TM by (cases "bs @ [b]") (simp_all add: ide_inv_def)
  moreover have "cur ?g = cur c" by (auto simp: cur_def found_def split: option.split)
  then have "cur s = Some p"
    using t(1) thread_frame_curD [OF A(1)] thread_frame_curD [OF acquire_thread(1) [OF c(1)]] by simp
  ultimately show ?thesis using t(3,4) TM em by (intro exI [of _ t] exI [of _ p]) simp
qed

text \<open>One interrupt after the other.\<close>

definition awake :: "(nat \<Rightarrow> proc) \<Rightarrow> chan \<Rightarrow> bool" where
  "awake pt ch \<longleftrightarrow> (\<forall>i < NPROC. p_chan (pt i) = Some ch \<longrightarrow> p_state (pt i) \<noteq> SLEEPING)"

lemma woken_awake: "awake (woken_table ch pt) ch" "awake pt ch' \<Longrightarrow> awake (woken_table ch pt) ch'"
  by (auto simp: awake_def woken_table_def woken_def)

lemma kfor_const: "length xs = length ys \<Longrightarrow> kfor xs (\<lambda>_. m) s = kfor ys (\<lambda>_. m) s"
proof (induction xs arbitrary: ys s)
  case (Cons x xs)
  then obtain y zs where "ys = y # zs" "length xs = length zs" by (cases ys) auto
  then show ?case using Cons.IH [of zs] by (auto simp: kseq_def kbind_def split: res.split)
qed simp

lemma req_buf_done: "valid (req_buf D r)" "\<not> dirty (req_buf D r)"
proof -
  have "((f OR B_VALID) AND NOT B_DIRTY) AND B_VALID = B_VALID" "((f OR B_VALID) AND NOT B_DIRTY) AND B_DIRTY = 0" for f :: u32
    by (rule bit_word_eqI; auto simp: bit_simps B_VALID_def B_DIRTY_def)+
  then show "valid (req_buf D r)" "\<not> dirty (req_buf D r)"
    by (simp_all add: req_buf_def valid_def dirty_def) (simp_all add: B_VALID_def)
qed

lemma serve_done:
  "b \<notin> set bs \<Longrightarrow> fst (serve bs B D) b = B b"
  "distinct bs \<Longrightarrow> b \<in> set bs \<Longrightarrow> valid (fst (serve bs B D) b) \<and> \<not> dirty (fst (serve bs B D) b)"
proof (induction bs arbitrary: B D)
  case (Cons x xs)
  { case 1 then show ?case using Cons.IH(1) by simp
  next
    case 2 then show ?case using Cons.IH req_buf_done by (cases "b = x") simp_all }
qed simp_all

lemma ide_drain:
  assumes "ata io sect rdcmd polls" "ide_inv sect rdcmd s bs D" "thread_in {} s"
  shows "\<exists>t. kfor [0..<length bs] (\<lambda>_. ideintr io polls) s = Ok () t \<and> thread_in {} t
    \<and> (bufs t, sect (ctl t)) = serve bs (bufs s) D \<and> idequeue t = None
    \<and> (\<forall>b \<in> set bs. awake (ptable t) (ChBuf b)) \<and> (\<forall>ch. awake (ptable s) ch \<longrightarrow> awake (ptable t) ch)"
  using assms(2,3)
proof (induction bs arbitrary: s D)
  case Nil
  then show ?case by (auto simp: ide_inv_def)
next
  case (Cons b bs)
  obtain t where t: "ideintr io polls s = Ok () t" "thread_in {} t" "ide_inv sect rdcmd t bs (req_disk (bufs s b) D)"
    "bufs t = (bufs s)(b := req_buf D (bufs s b))" "ptable t = woken_table (ChBuf b) (ptable s)"
    using ideintr_in [OF assms(1) Cons.prems] by blast
  obtain u where u: "kfor [0..<length bs] (\<lambda>_. ideintr io polls) t = Ok () u" "thread_in {} u"
    "(bufs u, sect (ctl u)) = serve bs (bufs t) (req_disk (bufs s b) D)" "idequeue u = None"
    "\<forall>b \<in> set bs. awake (ptable u) (ChBuf b)" "\<forall>ch. awake (ptable t) ch \<longrightarrow> awake (ptable u) ch"
    using Cons.IH [OF t(3,2)] by blast
  have "kfor [0..<length (b # bs)] (\<lambda>_. ideintr io polls) s = kfor [Suc 0..<Suc (length bs)] (\<lambda>_. ideintr io polls) t"
    using t(1) by (simp add: upt_conv_Cons kseq_def kbind_def del: upt_Suc)
  also have "\<dots> = kfor [0..<length bs] (\<lambda>_. ideintr io polls) t"
    by (rule kfor_const) (simp only: length_upt)
  finally show ?case using u t(4,5) woken_awake by (intro exI [of _ u]) auto
qed

text \<open>A disk of the kind the driver relies on: registers that remember what was written to them, a
  read command that waits for the data port to be read, a write command that waits for its data.\<close>

record demo_disk =
  dd_sect :: disks
  dd_reg :: "u16 \<Rightarrow> u8"
  dd_rd :: "(bool \<times> nat) option"

definition dd_lba :: "(u16 \<Rightarrow> u8) \<Rightarrow> u32" where
  "dd_lba g = ucast (g 0x1f3) OR push_bit 8 (ucast (g 0x1f4)) OR push_bit 16 (ucast (g 0x1f5)) OR push_bit 24 (ucast (g 0x1f6 AND 0x0f))"

definition dd_target :: "(u16 \<Rightarrow> u8) \<Rightarrow> bool \<times> nat" where
  "dd_target g = (bit (g 0x1f6) 4, unat (dd_lba g))"

definition demo_ports :: "demo_disk ports" where
  "demo_ports = \<lparr>p_in = (\<lambda>d. (IDE_DRDY, d)),
     p_out = (\<lambda>port v d. let d' = d\<lparr>dd_reg := (dd_reg d)(port := v)\<rparr> in
       if port = 0x1f7 \<and> v = IDE_CMD_READ then d'\<lparr>dd_rd := Some (dd_target (dd_reg d'))\<rparr> else d'),
     p_insl = (\<lambda>d. case dd_rd d of None \<Rightarrow> ([], d) | Some (k, n) \<Rightarrow> (dd_sect d k n, d\<lparr>dd_rd := None\<rparr>)),
     p_outsl = (\<lambda>bs d. let (k, n) = dd_target (dd_reg d) in d\<lparr>dd_sect := put_sector k n bs (dd_sect d)\<rparr>)\<rparr>"

lemma dd_lba_sector:
  fixes w :: u32
  assumes "unat w < 1000"
  shows "ucast (ucast (w AND 0xff) :: u8) OR push_bit 8 (ucast (ucast (drop_bit 8 w AND 0xff) :: u8))
    OR push_bit 16 (ucast (ucast (drop_bit 16 w AND 0xff) :: u8))
    OR push_bit 24 (ucast ((ucast (0xe0 OR push_bit 4 (dev AND 1) OR (drop_bit 24 w AND 0x0f)) :: u8) AND 0x0f)) = w"
    (is "?l = w")
proof -
  have m: "(0xff :: u32) = mask 8" "(0x0f :: u32) = mask 4" "(0x0f :: u8) = mask 4" "(1 :: u32) = mask 1" by (simp_all add: mask_eq_exp_minus_1)
  have e: "(0xe0 :: u32) = push_bit 5 (mask 3)" by (simp add: mask_eq_exp_minus_1 push_bit_eq_mult)
  have hi: "\<not> bit w i" if "10 \<le> i" for i
  proof -
    have "(2 :: nat) ^ 10 \<le> 2 ^ i" by (rule power_increasing) (use that in simp_all)
    then have "unat (drop_bit i w) = 0" using assms by (simp only: unat_drop_bit_eq) (simp add: drop_bit_eq_div)
    then show ?thesis by (simp add: bit_iff_odd_drop_bit unat_eq_0)
  qed
  show ?thesis
  proof (rule bit_word_eqI)
    fix i assume i: "i < LENGTH(32)"
    show "bit ?l i = bit w i"
    proof (cases "10 \<le> i")
      case True
      then show ?thesis using hi i unfolding m e by (auto simp: bit_simps)
    next
      case False
      then show ?thesis using hi i unfolding m e by (auto simp: bit_simps)
    qed
  qed
qed

lemma dd_drive: "bit (ucast (0xe0 OR push_bit 4 (dev AND 1) OR (drop_bit 24 w AND 0x0f) :: u32) :: u8) 4 = bit dev 0"
proof -
  have m: "(0x0f :: u32) = mask 4" "(1 :: u32) = mask 1" "(0xe0 :: u32) = push_bit 5 (mask 3)"
    by (simp_all add: mask_eq_exp_minus_1 push_bit_eq_mult)
  show ?thesis unfolding m by (auto simp: bit_simps)
qed

lemma demo_ata: "ata demo_ports dd_sect dd_rd 1"
proof -
  have small: "unat (of_nat n :: u32) = n" if "n < 1000" for n using that by (simp add: unat_of_nat)
  have t: "dd_target (dd_reg (command demo_ports (of_nat n) dev c d)) = (bit dev 0, n)" if "n < 1000" for n dev c d
    using dd_lba_sector [of "of_nat n" dev] that small
    by (simp add: dd_target_def dd_lba_def command_def demo_ports_def dd_drive [simplified] Let_def)
  have s: "dd_sect (command demo_ports w dev c d) = dd_sect d" for w dev c d
    by (simp add: command_def demo_ports_def Let_def)
  have r: "dd_rd (command demo_ports w dev IDE_CMD_READ d) = Some (dd_target (dd_reg (command demo_ports w dev IDE_CMD_READ d)))" for w dev d
    by (simp add: command_def demo_ports_def Let_def IDE_CMD_READ_def)
  have o: "dd_sect (p_outsl demo_ports bs d) = put_sector (fst (dd_target (dd_reg d))) (snd (dd_target (dd_reg d))) bs (dd_sect d)" for bs d
    by (simp add: demo_ports_def Let_def split: prod.split)
  have p: "polled demo_ports 1 d = Some (0x40, d)" for d by (simp add: demo_ports_def IDE_DRDY_def IDE_BSY_def)
  have i: "fst (p_insl demo_ports d) = dd_sect d k n \<and> dd_sect (snd (p_insl demo_ports d)) = dd_sect d" if "dd_rd d = Some (k, n)" for d k n
    using that by (simp add: demo_ports_def)
  show ?thesis unfolding ata_def Let_def FSSIZE_def
    using s r t o p i by (simp add: IDE_DF_def IDE_ERR_def)
qed

text \<open>Buffer 0 waits to be written to block 7, buffer 1 to be filled from it.\<close>

definition demo_ide_buf :: "nat \<Rightarrow> buf" where
  "demo_ide_buf = demo_buf(0 := (demo_buf 0)\<lparr>b_flags := B_DIRTY, b_blockno := 7, b_data := replicate 512 1\<rparr>,
     1 := (demo_buf 1)\<lparr>b_blockno := 7\<rparr>)"

definition demo_ide_st :: "(nat \<Rightarrow> nat option) \<Rightarrow> demo_disk ide_st" where
  "demo_ide_st nx = \<lparr>ncpu = 1, cpus = demo_cpu True 0, lapic_id = 0, fl_if = True,
     locks = (\<lambda>_. \<lparr>lk_locked = False, lk_cpu = None\<rparr>),
     ptable = (\<lambda>_. zero_proc)(0 := zero_proc\<lparr>p_state := RUNNING, p_pid := 1\<rparr>),
     nextpid = 2, initproc = Some 0, ticks = 0,
     slocks = (\<lambda>_. \<lparr>sl_locked = True, sl_pid = 1\<rparr>),
     bufs = demo_ide_buf, memdisk = (\<lambda>_. replicate 512 0), disksize = 1000, disk_writes = [],
     ctl = \<lparr>dd_sect = put_sector False 7 (replicate 512 1) (\<lambda>_ _. replicate 512 0), dd_reg = (\<lambda>_. 0), dd_rd = None\<rparr>,
     idequeue = Some 0, qnext = nx, havedisk1 = False\<rparr>"

lemma demo_ide_bufs:
  "dirty (demo_ide_buf 0)" "\<not> dirty (demo_ide_buf 1)" "request_ok (demo_ide_buf 0)" "request_ok (demo_ide_buf 1)"
  "b_data (demo_ide_buf 0) = replicate 512 1"
  "\<not> bit (b_dev (demo_ide_buf i)) 0" "b_dev (demo_ide_buf 1) = 0" "unat (b_blockno (demo_ide_buf 0)) = 7"
  "unat (b_blockno (demo_ide_buf 1)) = 7"
  by (simp_all add: demo_ide_buf_def demo_buf_def dirty_def valid_def request_ok_def B_VALID_def B_DIRTY_def FSSIZE_def BSIZE_def)

lemma demo_ide_inv:
  "ide_inv dd_sect dd_rd (demo_ide_st (\<lambda>_. None)) [0] (\<lambda>_ _. replicate 512 0)"
  "ide_inv dd_sect dd_rd (demo_ide_st ((\<lambda>_. None)(0 := Some 1))) [0, 1] (\<lambda>_ _. replicate 512 0)"
  using demo_ide_bufs
  by (simp_all add: ide_inv_def demo_ide_st_def req_disk_def NBUF_def MAXOPBLOCKS_def)

lemma demo_ide_thread: "thread_in {} (demo_ide_st nx)" "held (demo_ide_st nx) 1"
  by (simp_all add: thread_in_def held_def cur_def demo_ide_st_def demo_cpu_def found_def NBUF_def MAXOPBLOCKS_def)

text \<open>
  C38. The disk driver queues: \<open>iderw\<close> for a buffer that its caller has locked and that needs
  reading or writing puts it at the end of the queue behind the requests \<open>bs\<close>, starts the disk on it
  exactly when it is the only one, and gives up the CPU with the caller SLEEPING on the buffer and
  \<open>idelock\<close> free.  Any ATA disk \<open>io\<close> will do that is ready within \<open>polls\<close> readings of its status.
\<close>

theorem ide_queues_request:
  assumes "ata io sect rdcmd polls" and "ide_inv sect rdcmd s bs D" and "thread_in {} s"
    and "held s b" and "b \<notin> set bs" and "request_ok (bufs s b)" and "b_dev (bufs s b) = 0 \<or> havedisk1 s"
  shows "\<exists>t p. ide_rw io polls b s = Switch t \<and> ide_inv sect rdcmd t (bs @ [b]) D \<and> bufs t = bufs s
    \<and> cur s = Some p \<and> p_state (ptable t p) = SLEEPING \<and> p_chan (ptable t p) = Some (ChBuf b) \<and> \<not> lk_locked (locks t L_ide)"
  by (rule ide_rw_in [OF assms])

theorem ide_queues_request_witness:
  "\<exists>t p. ide_rw demo_ports 1 1 (demo_ide_st (\<lambda>_. None)) = Switch t
    \<and> ide_inv dd_sect dd_rd t [0, 1] (\<lambda>_ _. replicate 512 0) \<and> p_state (ptable t p) = SLEEPING"
  using ide_queues_request [OF demo_ata demo_ide_inv(1) demo_ide_thread, of] demo_ide_bufs(4,7)
  by (auto simp: demo_ide_st_def)

text \<open>
  C39. The interrupt handler serves the queue in order: with the requests \<open>bs\<close> queued, as many
  interrupts as there are requests leave buffers and disks exactly as if the requests had been done
  one after the other, first come first served, on a disk in memory (\<open>serve\<close>): a read sees the writes
  queued before it and none queued after it.  Each buffer is then valid and clean, no process still
  sleeps on one of them, the queue is empty and no spin lock is held.
\<close>

theorem ide_serves_in_order:
  assumes "ata io sect rdcmd polls" and "ide_inv sect rdcmd s bs D" and "thread_in {} s"
  shows "\<exists>t. kfor [0..<length bs] (\<lambda>_. ideintr io polls) s = Ok () t \<and> thread_in {} t
    \<and> (bufs t, sect (ctl t)) = serve bs (bufs s) D \<and> idequeue t = None
    \<and> (\<forall>b \<in> set bs. awake (ptable t) (ChBuf b) \<and> valid (bufs t b) \<and> \<not> dirty (bufs t b))"
proof -
  obtain t where t: "kfor [0..<length bs] (\<lambda>_. ideintr io polls) s = Ok () t" "thread_in {} t"
    "(bufs t, sect (ctl t)) = serve bs (bufs s) D" "idequeue t = None" "\<forall>b \<in> set bs. awake (ptable t) (ChBuf b)"
    using ide_drain [OF assms] by blast
  have "\<forall>b \<in> set bs. valid (bufs t b) \<and> \<not> dirty (bufs t b)"
    using serve_done(2) [of bs _ "bufs s" D] t(3) assms(2) by (metis fst_conv ide_inv_def)
  with t show ?thesis by blast
qed

theorem ide_serves_in_order_witness:
  "\<exists>t. kfor [0..<2] (\<lambda>_. ideintr demo_ports 1) (demo_ide_st ((\<lambda>_. None)(0 := Some 1))) = Ok () t
    \<and> b_data (bufs t 1) = replicate 512 1 \<and> valid (bufs t 1) \<and> idequeue t = None"
proof -
  obtain t where t: "kfor [0..<length [0, 1 :: nat]] (\<lambda>_. ideintr demo_ports 1) (demo_ide_st ((\<lambda>_. None)(0 := Some 1))) = Ok () t"
    "(bufs t, dd_sect (ctl t)) = serve [0, 1] demo_ide_buf (\<lambda>_ _. replicate 512 0)" "valid (bufs t 1)" "idequeue t = None"
    using ide_serves_in_order [OF demo_ata demo_ide_inv(2) demo_ide_thread(1)] by (auto simp: demo_ide_st_def)
  moreover have "b_data (bufs t 1) = replicate 512 1"
    using t(2) demo_ide_bufs by (simp add: req_buf_def req_disk_def put_sector_def)
  ultimately show ?thesis by (auto simp: numeral_2_eq_2)
qed

end
