(* ===== verification/Spec2Isabelle.thy ===== *)
theory Spec2Isabelle
  imports Kernel2 Kernel3 Grep Runcmd Umalloc Copyuvm Ide
begin

text \<open>
  A verification development for the xv6 kernels of this repository (COL633): \<open>src/xv6-public_1\<close>
  (file permissions, system call history, blocked calls, login), \<open>src/xv6-public_2\<close> (priority
  scheduler, custom fork, suspension, signals) and \<open>src/xv6-public_3\<close> (counting physical pages).  The
  three trees are copies of xv6 with small changes: a file they share is modelled once, from
  xv6-public_1, and what the others change is modelled from their own files.

  \<^bold>\<open>How code is modelled.\<close>  Kernel code is a function from a state to a result (\<open>Prelude\<close>): a value
  with the new state (\<open>Ok\<close>), a panic with its message, a loop that nothing ends (\<open>Spin\<close>), the end of
  the thread's run in \<open>swtch\<close> with the state it leaves (\<open>Switch\<close>), or an access the C program must not
  make (\<open>Undef\<close>: a null pointer, an index outside an array, an overflow of a signed integer).  A C
  statement sequence is \<open>kseq\<close>/\<open>kbind\<close>, a loop over a table \<open>kfor\<close>, a loop that may be left \<open>kloop\<close>.  The
  state is one extensible record that grows with the layers, so that an operation of a lower layer runs
  unchanged on the states of the upper ones:
  \<open>cpu_state\<close> (CPUs, interrupt flag, spin locks), \<open>proc_st\<close> (process table), \<open>sleep_st\<close> (sleep locks),
  \<open>bio_st\<close> (buffers, disk), \<open>log_st\<close>, \<open>fs_st\<close> (inode cache), \<open>con_st\<close> (console), \<open>mem_st\<close> (physical memory as a
  map from kernel addresses to bytes), \<open>file_st\<close> (open files, pipes), \<open>run_st\<close> (history), \<open>v2_st\<close>
  (the second kernel), \<open>v3_st\<close> (the third); \<open>ide_st\<close> (the disk driver) extends \<open>bio_st\<close>.  Pointers to entries of a
  table are indices, \<open>None\<close> is the null pointer; pointers into memory are 32-bit words; counters that wrap are words, and \<open>unat\<close> says what they count.  A run
  is one thread between two switches: a blocking operation ends in \<open>Switch\<close>, and the test it repeats
  when it is woken is a definition of its own (\<open>acquiresleep_loop\<close>, \<open>wait_loop\<close>, \<open>pipewrite_loop\<close>, ...).
  CPUs interleave in the step relation of \<open>Spinlock\<close> and, around the lock operations of \<open>sleep\<close>, in \<open>Proc\<close>;
  the dispatches of a pass of the scheduler are the relation \<open>sched_round\<close> of \<open>Procs\<close>.

  \<^bold>\<open>The theories,\<close> in the order of the layers, with the files they model and what their lemmas show.
  \<^item> \<open>Prelude\<close>: results and combinators, evaluation rules (\<open>exec\<close>), inversion rules, bytes and words, and
    the locale \<open>step_invariant\<close> of an inductive invariant.
  \<^item> \<open>Spinlock\<close> (\<open>spinlock.c\<close>, \<open>x86.h\<close>): nesting of \<open>pushcli\<close>, critical sections.  \<open>acquire\<close> and \<open>release\<close> are
    composed of the parts between two accesses to the lock (\<open>acquire_check\<close>, \<open>xchg_locked\<close>, \<open>acquire_record\<close>,
    \<open>release_clear\<close>, \<open>release_unlock\<close>); \<open>mx_step\<close> interleaves these parts on any number of CPUs, and mutual
    exclusion holds in its reachable states.
  \<^item> \<open>Proc\<close>, \<open>Sleeplock\<close> (\<open>proc.c\<close>, \<open>proc.h\<close>, \<open>sleeplock.c\<close>): sleep and wakeup; no wakeup is lost between the
    lock operations of \<open>sleep\<close> (\<open>sleep_enter\<close>), with a waker on another CPU; long-term locks.
  \<^item> \<open>Bio\<close> (\<open>bio.c\<close>, \<open>memide.c\<close>): the ring of buffers as a path through the pointers, the cache invariant,
    reads give the current contents, recency order.
  \<^item> \<open>Ide\<close> (\<open>ide.c\<close>): the queue of disk requests, the interrupt handler, and their refinement of one request
    after the other.
  \<^item> \<open>Log\<close> (\<open>log.c\<close>): commits and recovery over the sequence of disk writes; a crash is a prefix of it.
  \<^item> \<open>CString\<close> (\<open>string.c\<close>, \<open>ulib.c\<close>): copying and comparing in a byte memory.
  \<^item> \<open>Fs\<close> (\<open>fs.c\<close>, \<open>fs.h\<close>): blocks, inodes, directories and paths; what the log admits (\<open>iinit\<close>, which prints,
    is in \<open>Console\<close>).
  \<^item> \<open>Ring\<close>: the locale \<open>ring_buffer\<close> of queues indexed by wrapping counters, interpreted for the console's buffer
    (128) and the pipe (512).
  \<^item> \<open>Console\<close> (\<open>console.c\<close>, \<open>kbd.c\<close>, \<open>uart.c\<close>): screen, line discipline as an abstract line editor, printing.
  \<^item> \<open>Kalloc\<close> (\<open>kalloc.c\<close>): the free list in memory; the locale \<open>page_allocator\<close>, interpreted on it.
  \<^item> \<open>Vm\<close>, \<open>Paging\<close> (\<open>vm.c\<close>, \<open>mmu.h\<close>): page tables, and their meaning against the processor's translation.
  \<^item> \<open>Kvm\<close>, \<open>Freevm\<close>, \<open>Setupkvm\<close>: \<open>mappages\<close> over a range, with what it does when pages run out; \<open>deallocuvm\<close> and
    \<open>freevm\<close> give every page back once; \<open>setupkvm\<close> maps exactly the kernel or nothing.  Their frames say which
    pages of memory an operation may write (\<open>bytes_kept\<close>).
  \<^item> \<open>Uvm\<close>, \<open>Copyuvm\<close>: the invariant \<open>uspace\<close> of a user address space of a given size; \<open>allocuvm\<close> and
    \<open>deallocuvm\<close> take one size to another; \<open>copyuvm\<close> makes the same space on other pages.
  \<^item> \<open>File\<close> (\<open>file.c\<close>, \<open>pipe.c\<close>): open files, and pipes as bounded queues.
  \<^item> \<open>Procs\<close> (\<open>proc.c\<close>): fork, exit, wait and the round-robin scheduler, with the fairness of a round.
  \<^item> \<open>Sysarg\<close>, \<open>Exec\<close>, \<open>Sysfile\<close>, \<open>Syscall\<close> (\<open>syscall.c\<close>, \<open>exec.c\<close>, \<open>sysfile.c\<close>, \<open>sysproc.c\<close>, \<open>trap.c\<close>): the system
    call interface, program loading, history, blocked calls and traps.
  \<^item> \<open>Kernel2\<close> (\<open>proc.c\<close>, \<open>console.c\<close>, \<open>trap.c\<close>, \<open>syscall.c\<close> of xv6-public_2): what that kernel changes.
  \<^item> \<open>Kernel3\<close> (\<open>proc.c\<close>, \<open>console.c\<close> of xv6-public_3): the memory printer behind Ctrl-I.
  \<^item> \<open>Grep\<close>, \<open>Shell\<close> (\<open>grep.c\<close>, \<open>sh.c\<close>): the matcher against the language of a pattern; the shell's parser
    against its grammar.
  \<^item> \<open>User\<close>, \<open>Runcmd\<close> (\<open>ulib.c\<close>, \<open>printf.c\<close>, \<open>init.c\<close>, \<open>sh.c\<close> and the small programs): programs as trees of system
    calls; login, word count, and what the shell starts for a line.
  \<^item> \<open>Umalloc\<close> (\<open>umalloc.c\<close>): the allocator of user programs over memory as bytes.

  \<^bold>\<open>Bounds and fuel.\<close>  \<open>bscan\<close> follows the buffer list for \<open>NBUF\<close> steps, which is the length of the ring
  under the cache invariant (\<open>bscan_path\<close>), and \<open>queue_end\<close> the queue of disk requests, whose elements are
  distinct buffers, for as many.  \<open>deallocuvm_loop\<close> has \<open>2 ^ 20\<close> steps, one for each page of a 32-bit
  address space.  \<open>idewait\<close> polls the status port as often as its argument says; the hypothesis \<open>ata\<close> has the
  controller ready within them.  \<open>parseline\<close> and the functions it calls have \<open>4 * length + 4\<close> levels,
  which they never use up (\<open>parser_fuel\<close>).  \<open>grep_loop\<close> is a partial function; that it returns on a file is part
  of its theorem.  The loops of user programs that only the environment ends (\<open>cat\<close>, \<open>wc\<close>, the shell, \<open>init\<close>) have
  fuel, with \<open>NoFuel\<close> as an outcome of its own; the theorem about \<open>wc\<close> holds from one pass for each byte and one
  more.  Every other recursion is structural or has a termination proof.

  \<^bold>\<open>Parameters.\<close>  The table of device routines \<open>devsw\<close>, the image of \<open>initcode\<close> that the build links in, the bytes
  a device delivers, the return addresses \<open>getcallerpcs\<close> finds on a stack, the fault address register, the
  environment that answers the system calls of a program, the name and password the Makefile passes to
  \<open>init\<close>, the addresses \<open>sbrk\<close> grants, and the disk controller behind the ports of \<open>ide.c\<close> (whose behaviour is
  the hypothesis \<open>ata\<close>) are arguments of the definitions or theorems that use them.

  \<^bold>\<open>Simplifications.\<close>  In the shell's parser \<open>malloc\<close> succeeds, and in the meaning of a command line \<open>fork\<close>
  does.  The priority scheduler of the second kernel counts waiting time in turns, as its code does (its report
  speaks of ticks).

  \<^bold>\<open>Not modelled.\<close>  The boot path and the assembly (\<open>bootasm.S\<close>, \<open>bootmain.c\<close>, \<open>entry.S\<close>, \<open>swtch.S\<close>, \<open>trapasm.S\<close>),
  the order of initialisation and the start of the other CPUs in \<open>main.c\<close>, the set-up of the hardware
  (\<open>lapic.c\<close>, \<open>ioapic.c\<close>, \<open>picirq.c\<close>, \<open>mp.c\<close>, the descriptor tables), the host tool \<open>mkfs.c\<close>, and the test
  programs (\<open>usertests.c\<close>, \<open>stressfs.c\<close>, \<open>forktest.c\<close>, \<open>test*.c\<close>).
  Preemption inside the kernel is modelled where the text of a theory says so, not everywhere: the theorems
  about operations are about runs that no interrupt handler interleaves.
\<close>

end
